(* ===== verification/Parc_Prelude.thy ===== *)
theory Parc_Prelude
  imports Main "HOL-Library.Word"
begin

text \<open>
  Shared vocabulary of the development: the C integer types the library uses, the ways an
  operation can stop (LongBow traps and assertions, bad pointers, undefined arithmetic), the
  result type with its sequencing operator, the C string functions on byte lists, and the generic
  lemmas on words and lists the component theories rely on.
\<close>

unbundle bit_operations_syntax

section \<open>C integers and pointers\<close>

text \<open>The unsigned integers by their width, and \<open>int\<close>, which is read with \<open>sint\<close>.\<close>

type_synonym u8 = "8 word"
type_synonym u16 = "16 word"
type_synonym u32 = "32 word"
type_synonym u64 = "64 word"
type_synonym c_int = "32 word"

text \<open>\<open>size_t\<close> of the supported (x86-64) platforms; \<open>SIZE_MAX\<close> is the largest one.\<close>

type_synonym size_t = u64

abbreviation SIZE_MAX :: size_t where
  "SIZE_MAX \<equiv> - 1"

text \<open>A non-null address and a pointer that may be \<open>NULL\<close> (\<open>None\<close>).\<close>

type_synonym addr = nat
type_synonym ptr = "addr option"

section \<open>Stopping an operation\<close>

text \<open>
  \<open>OutOfBounds\<close>, \<open>IllegalValue\<close>, \<open>InvalidValue\<close>, \<open>CannotObtainLock\<close>, \<open>NotImplemented\<close> and \<open>UnexpectedState\<close> are the LongBow traps the
  sources raise, \<open>AssertFailed\<close> a failing \<open>assertTrue\<close>/\<open>assertFalse\<close>/\<open>assertNotNull\<close>,
  \<open>OutOfMemory\<close> the traps of the memory providers. \<open>BadPointer\<close> is the access through
  a null or dangling pointer and \<open>Undefined\<close> an operation C leaves undefined (a shift by at least
  the width, a division by zero, a copy outside of an array). \<open>Blocks\<close> is a call that has to wait for
  another thread and \<open>Diverges\<close> a loop that never ends.
\<close>

datatype trap =
    OutOfBounds
  | IllegalValue
  | InvalidValue
  | CannotObtainLock
  | NotImplemented
  | UnexpectedState
  | AssertFailed
  | OutOfMemory
  | BadPointer
  | Undefined
  | Blocks
  | Diverges

type_synonym 'a result = "trap + 'a"

definition rbind :: "'a result \<Rightarrow> ('a \<Rightarrow> 'b result) \<Rightarrow> 'b result" where
  "rbind m f = (case m of Inl e \<Rightarrow> Inl e | Inr x \<Rightarrow> f x)"

definition trapIf :: "trap \<Rightarrow> bool \<Rightarrow> unit result" where
  "trapIf e c = (if c then Inl e else Inr ())"

definition assertTrue :: "bool \<Rightarrow> unit result" where
  "assertTrue c = (if c then Inr () else Inl AssertFailed)"

text \<open>\<open>returns m\<close>: the operation comes to its end, whatever its value.\<close>

definition returns :: "'a result \<Rightarrow> bool" where
  "returns m = (case m of Inl _ \<Rightarrow> False | Inr _ \<Rightarrow> True)"

lemma rbind_simps [simp]:
  "rbind (Inr x) f = f x"
  "rbind (Inl e) f = Inl e"
  by (simp_all add: rbind_def)

lemma rbind_eq_Inr [simp]: "rbind m f = Inr y \<longleftrightarrow> (\<exists>x. m = Inr x \<and> f x = Inr y)"
  by (cases m) simp_all

lemma rbind_eq_Inl: "rbind m f = Inl e \<longleftrightarrow> m = Inl e \<or> (\<exists>x. m = Inr x \<and> f x = Inl e)"
  by (cases m) simp_all

lemma rbind_Inr [simp]: "rbind m Inr = m"
  by (cases m) simp_all

lemma rbind_assoc: "rbind (rbind m f) g = rbind m (\<lambda>x. rbind (f x) g)"
  by (cases m) simp_all

lemma rbind_cong [fundef_cong]:
  "m = m' \<Longrightarrow> (\<And>x. m' = Inr x \<Longrightarrow> f x = f' x) \<Longrightarrow> rbind m f = rbind m' f'"
  by (cases m') simp_all

lemma trapIf_simps [simp]:
  "trapIf e True = Inl e"
  "trapIf e False = Inr ()"
  "trapIf e c = Inr u \<longleftrightarrow> \<not> c"
  "trapIf e c = Inl e' \<longleftrightarrow> c \<and> e' = e"
  by (auto simp: trapIf_def)

lemma assertTrue_simps [simp]:
  "assertTrue True = Inr ()"
  "assertTrue False = Inl AssertFailed"
  "assertTrue c = Inr u \<longleftrightarrow> c"
  "assertTrue c = Inl e \<longleftrightarrow> \<not> c \<and> e = AssertFailed"
  by (auto simp: assertTrue_def)

lemma returns_simps [simp]:
  "returns (Inr x)"
  "\<not> returns (Inl e)"
  by (simp_all add: returns_def)

lemma returns_iff: "returns m \<longleftrightarrow> (\<exists>x. m = Inr x)"
  by (cases m) simp_all

section \<open>Byte strings\<close>

text \<open>
  \<open>memcmp\<close> on the first bytes of two arrays. C fixes the sign of the result only; the model returns
  -1, 0 or 1.
\<close>

fun memcmp :: "u8 list \<Rightarrow> u8 list \<Rightarrow> int" where
  "memcmp (x # xs) (y # ys) = (if x < y then -1 else if y < x then 1 else memcmp xs ys)"
| "memcmp _ _ = 0"

text \<open>\<open>memcpy (&array[off], src, length src)\<close> on an array held as a list.\<close>

definition put_bytes :: "nat \<Rightarrow> 'a list \<Rightarrow> 'a list \<Rightarrow> 'a list" where
  "put_bytes off src xs = take off xs @ src @ drop (off + length src) xs"

text \<open>The \<open>n\<close> bytes of an array from \<open>off\<close> on.\<close>

definition bytes_at :: "nat \<Rightarrow> nat \<Rightarrow> 'a list \<Rightarrow> 'a list" where
  "bytes_at off n xs = take n (drop off xs)"

lemma memcmp_range: "memcmp xs ys \<in> {-1, 0, 1}"
  by (induction xs ys rule: memcmp.induct) auto

lemma memcmp_zero_iff: "length xs = length ys \<Longrightarrow> memcmp xs ys = 0 \<longleftrightarrow> xs = ys"
  by (induction xs ys rule: memcmp.induct) auto

lemma memcmp_refl [simp]: "memcmp xs xs = 0"
  by (simp add: memcmp_zero_iff)

lemma memcmp_antisym: "memcmp ys xs = - memcmp xs ys"
  by (induction xs ys rule: memcmp.induct) auto

lemma memcmp_trans:
  "memcmp xs ys \<le> 0 \<Longrightarrow> memcmp ys zs \<le> 0 \<Longrightarrow> length xs = length ys \<Longrightarrow> length ys = length zs
    \<Longrightarrow> memcmp xs zs \<le> 0"
proof (induction xs ys arbitrary: zs rule: memcmp.induct)
  case (1 x xs y ys)
  then obtain z zs' where "zs = z # zs'" by (cases zs) auto
  with 1 show ?case by (auto split: if_splits)
qed auto

text \<open>Lexicographic comparison of byte strings of any length.\<close>

fun lex_compare :: "u8 list \<Rightarrow> u8 list \<Rightarrow> int" where
  "lex_compare [] [] = 0"
| "lex_compare [] (y # ys) = -1"
| "lex_compare (x # xs) [] = 1"
| "lex_compare (x # xs) (y # ys) = (if x < y then -1 else if y < x then 1 else lex_compare xs ys)"

lemma lex_compare_zero_iff [simp]: "lex_compare xs ys = 0 \<longleftrightarrow> xs = ys"
  by (induction xs ys rule: lex_compare.induct) auto

lemma lex_compare_memcmp:
  assumes "k = min (length xs) (length ys)"
  shows "lex_compare xs ys =
    (let m = memcmp (take k xs) (take k ys)
     in if m = 0 then sgn (int (length xs) - int (length ys)) else m)"
  using assms
proof (induction xs ys arbitrary: k rule: lex_compare.induct)
  case (4 x xs y ys)
  then show ?case by (cases k) (auto simp: Let_def)
qed (auto simp: sgn_if)

lemma length_put_bytes [simp]:
  "off + length src \<le> length xs \<Longrightarrow> length (put_bytes off src xs) = length xs"
  by (simp add: put_bytes_def)

lemma length_bytes_at [simp]: "off + n \<le> length xs \<Longrightarrow> length (bytes_at off n xs) = n"
  by (simp add: bytes_at_def)

lemma bytes_at_put_bytes [simp]:
  "off + length src \<le> length xs \<Longrightarrow> bytes_at off (length src) (put_bytes off src xs) = src"
  by (simp add: bytes_at_def put_bytes_def)

lemma nth_put_bytes:
  assumes "off + length src \<le> length xs" and "i < length xs"
  shows "put_bytes off src xs ! i =
    (if i < off then xs ! i else if i < off + length src then src ! (i - off) else xs ! i)"
  using assms by (auto simp: put_bytes_def nth_append min_def)

lemma put_bytes_Nil [simp]: "put_bytes off [] xs = xs"
  by (simp add: put_bytes_def)

lemma put_bytes_single: "i < length xs \<Longrightarrow> put_bytes i [x] xs = xs[i := x]"
  by (simp add: put_bytes_def upd_conv_take_nth_drop)

lemma nth_bytes_at [simp]: "i < n \<Longrightarrow> off + n \<le> length xs \<Longrightarrow> bytes_at off n xs ! i = xs ! (off + i)"
  by (simp add: bytes_at_def)

lemma bytes_at_Suc:
  "off < length xs \<Longrightarrow> bytes_at off (Suc n) xs = xs ! off # bytes_at (Suc off) n xs"
  by (simp add: bytes_at_def Cons_nth_drop_Suc [symmetric])

lemma bytes_at_0 [simp]: "bytes_at off 0 xs = []"
  by (simp add: bytes_at_def)

lemma bytes_at_put_bytes_other:
  assumes "off + length src \<le> length xs" "a + n \<le> length xs" "a + n \<le> off \<or> off + length src \<le> a"
  shows "bytes_at a n (put_bytes off src xs) = bytes_at a n xs"
  by (rule nth_equalityI) (use assms in \<open>auto simp: nth_put_bytes\<close>)

lemma bytes_at_put_bytes_inside:
  assumes "k + length bs \<le> n" "off + n \<le> length xs"
  shows "bytes_at off n (put_bytes (off + k) bs xs) = put_bytes k bs (bytes_at off n xs)"
  by (rule nth_equalityI) (use assms in \<open>auto simp: nth_put_bytes\<close>)

lemma take_put_bytes:
  "k + length bs \<le> length xs \<Longrightarrow> take (k + length bs) (put_bytes k bs xs) = take k xs @ bs"
  by (simp add: put_bytes_def)

lemma drop_put_bytes:
  "k + length bs \<le> length xs \<Longrightarrow> drop (k + length bs) (put_bytes k bs xs) = drop (k + length bs) xs"
  by (simp add: put_bytes_def)

section \<open>Words\<close>

lemma unat_diff_le: "a \<le> b \<Longrightarrow> unat (b - a) = unat b - unat a" for a b :: "'a::len word"
  by (rule unat_sub)

lemma unat_add_no_wrap:
  "unat a + unat b < 2 ^ LENGTH('a) \<Longrightarrow> unat (a + b) = unat a + unat b" for a b :: "'a::len word"
  by (simp add: unat_word_ariths)

lemma unat_word_of_nat: "n < 2 ^ LENGTH('a) \<Longrightarrow> unat (word_of_nat n :: 'a::len word) = n"
  by (simp add: unat_of_nat)

lemma unat_SIZE_MAX: "unat SIZE_MAX = 2 ^ 64 - 1"
  by (simp add: unsigned_minus_1_eq_mask mask_eq_exp_minus_1)

lemma word_neq_SIZE_MAX_le: "a \<le> b \<Longrightarrow> b \<noteq> SIZE_MAX \<Longrightarrow> a \<noteq> SIZE_MAX"
  by (metis word_n1_ge antisym)

lemma unat_plus_one: "w \<noteq> - 1 \<Longrightarrow> unat (w + 1) = Suc (unat w)" for w :: "'a::len word"
  by (metis add.commute add_eq_0_iff unatSuc)

lemma word_less_plus_one: "w \<noteq> - 1 \<Longrightarrow> w < w + 1" for w :: "'a::len word"
  by (simp add: word_less_nat_alt unat_plus_one)

lemma unat_bound: "unat w < 2 ^ LENGTH('a)" for w :: "'a::len word"
  by (rule unsigned_less)

lemma word_pos_iff: "0 < w \<longleftrightarrow> w \<noteq> 0" for w :: "'a::len word"
  by (simp add: word_neq_0_conv)

lemma ucast_up_inj:
  "(ucast b :: 'b::len word) = ucast c \<Longrightarrow> LENGTH('a) \<le> LENGTH('b) \<Longrightarrow> b = c"
  for b c :: "'a::len word"
  by (metis uint_up_ucast is_up word_uint_eqI)

lemma scast_up_inj:
  fixes b c :: "'a::len word"
  assumes "(scast b :: 'b::len word) = scast c" "LENGTH('a) \<le> LENGTH('b)"
  shows "b = c"
proof -
  have "sint b = sint c"
    using assms sint_up_scast [of b, where 'b = 'b] sint_up_scast [of c, where 'b = 'b]
    by (simp add: is_up)
  then have "(of_int (sint b) :: 'a word) = of_int (sint c)" by simp
  then show "b = c" by simp
qed

lemma scast_eq_ucast_ascii:
  fixes b :: u8
  assumes "b < 128"
  shows "(scast b :: 'b::len word) = ucast b"
proof -
  have l: "uint b < 2 ^ 7" using assms by (simp add: word_less_def)
  have "- (2 ^ 7) \<le> uint b" by (rule order_trans [of _ 0]) simp_all
  then have "sint b = uint b"
    using l by (simp only: sint_uint) (rule signed_take_bit_int_eq_self, simp_all)
  then have "(of_int (sint b) :: 'b word) = of_int (uint b)" by simp
  then show ?thesis by simp
qed

lemma sint_neg_iff: "sint w < 0 \<longleftrightarrow> 2 ^ (LENGTH('a) - Suc 0) \<le> unat w" for w :: "'a::len word"
proof -
  have "sint w < 0 \<longleftrightarrow> bit (uint w) (LENGTH('a) - Suc 0)"
    by (simp add: sint_uint)
  also have "\<dots> \<longleftrightarrow> bit (unat w) (LENGTH('a) - Suc 0)"
    by (metis bit_of_nat_iff_bit of_nat_unat)
  also have "\<dots> \<longleftrightarrow> 2 ^ (LENGTH('a) - Suc 0) \<le> unat w"
  proof -
    have "unat w < 2 * 2 ^ (LENGTH('a) - Suc 0)"
      using unsigned_less [of w] by (simp flip: power_Suc)
    then have d: "unat w div 2 ^ (LENGTH('a) - Suc 0) < 2"
      by (simp add: less_mult_imp_div_less mult.commute)
    have "bit (unat w) (LENGTH('a) - Suc 0) \<longleftrightarrow> unat w div 2 ^ (LENGTH('a) - Suc 0) = 1"
      using d by (auto simp: bit_iff_odd less_2_cases_iff)
    also have "\<dots> \<longleftrightarrow> 2 ^ (LENGTH('a) - Suc 0) \<le> unat w"
      using d by (metis One_nat_def div_eq_0_iff div_greater_zero_iff less_2_cases_iff less_one not_less power_not_zero zero_neq_numeral)
    finally show ?thesis .
  qed
  finally show ?thesis .
qed

lemma sint_zero_iff: "sint w = 0 \<longleftrightarrow> w = 0" for w :: "'a::len word"
proof
  assume "sint w = 0"
  then have "(of_int (sint w) :: 'a word) = of_int 0" by simp
  then show "w = 0" by simp
qed simp

lemma sint_diff_small:
  "unat a < 2 ^ 63 \<Longrightarrow> unat b < 2 ^ 63 \<Longrightarrow> sint (a - b) = int (unat a) - int (unat b)"
  for a b :: "64 word"
proof -
  assume *: "unat a < 2 ^ 63" "unat b < 2 ^ 63"
  have "a - b = word_of_int (uint a - uint b)" by simp
  then have "sint (a - b) = signed_take_bit 63 (uint a - uint b)"
    by (simp only: signed_of_int) simp
  also have "\<dots> = uint a - uint b"
  proof (rule signed_take_bit_int_eq_self)
    have "int (unat a) < 2 ^ 63" "int (unat b) < 2 ^ 63" using *
      by (simp_all only: of_nat_less_iff [symmetric, where 'a = int] of_nat_power of_nat_numeral)
    then have "uint a < 2 ^ 63" "uint b < 2 ^ 63" by simp_all
    then show "- (2 ^ 63) \<le> uint a - uint b" "uint a - uint b < 2 ^ 63"
      using uint_nonnegative [of a] uint_nonnegative [of b] by linarith+
  qed
  finally show ?thesis by simp
qed

lemma unat_power_of_two:
  assumes "k < LENGTH('a)"
  shows "unat (2 ^ k :: 'a::len word) = 2 ^ k"
proof -
  have "unat (word_of_nat (2 ^ k) :: 'a word) = 2 ^ k mod 2 ^ LENGTH('a)"
    by (rule unat_of_nat)
  also have "\<dots> = 2 ^ k" using assms by (intro mod_less) (simp add: power_strict_increasing)
  finally show ?thesis by simp
qed

section \<open>Alignment\<close>

text \<open>The least multiple of \<open>n\<close> that is not below \<open>a\<close>.\<close>

definition round_up :: "nat \<Rightarrow> nat \<Rightarrow> nat" where
  "round_up n a = (a + (n - 1)) div n * n"

lemma round_up_ge: "0 < n \<Longrightarrow> a \<le> round_up n a"
proof -
  assume n: "0 < n"
  have "(a + (n - 1)) mod n < n" using n by simp
  moreover have "(a + (n - 1)) div n * n + (a + (n - 1)) mod n = a + (n - 1)" by simp
  ultimately show ?thesis unfolding round_up_def using n by linarith
qed

lemma round_up_less: "0 < n \<Longrightarrow> round_up n a < a + n"
proof -
  assume "0 < n"
  moreover have "(a + (n - 1)) div n * n \<le> a + (n - 1)" by (simp add: mult.commute)
  ultimately show ?thesis unfolding round_up_def by linarith
qed

lemma round_up_dvd: "n dvd round_up n a"
  by (simp add: round_up_def)

text \<open>Clearing the low bits with the mask \<open>- 2 ^ k\<close> rounds down to a multiple.\<close>

lemma unat_and_minus_power:
  fixes x :: "'a::len word"
  assumes "k < LENGTH('a)"
  shows "unat (x AND (- (2 ^ k))) = unat x div 2 ^ k * 2 ^ k"
proof -
  have "- (2 ^ k) = NOT (mask k :: 'a word)"
    by (simp add: mask_eq_exp_minus_1 minus_eq_not_minus_1)
  then have "x AND (- (2 ^ k)) = x AND NOT (mask k)" by simp
  also have "\<dots> = push_bit k (drop_bit k x)"
    by (rule bit_word_eqI) (auto simp: bit_simps)
  finally have "unat (x AND (- (2 ^ k))) = unat (push_bit k (drop_bit k x))" by simp
  also have "\<dots> = take_bit LENGTH('a) (push_bit k (drop_bit k (unat x)))"
    by (simp add: unsigned_push_bit_eq unsigned_drop_bit_eq take_bit_nat_eq_self unat_bound)
  also have "\<dots> = push_bit k (drop_bit k (unat x))"
  proof (rule take_bit_nat_eq_self)
    have "push_bit k (drop_bit k (unat x)) \<le> unat x"
      by (simp add: push_bit_eq_mult drop_bit_eq_div mult.commute)
    then show "push_bit k (drop_bit k (unat x)) < 2 ^ LENGTH('a)"
      using unat_bound [of x] by linarith
  qed
  finally show ?thesis by (simp add: push_bit_eq_mult drop_bit_eq_div)
qed

section \<open>Big endian numbers\<close>

text \<open>The number a byte string stands for, most significant byte first, and its inverse.\<close>

definition be_value :: "u8 list \<Rightarrow> nat" where
  "be_value bs = foldl (\<lambda>n b. n * 256 + unat b) 0 bs"

fun be_bytes :: "nat \<Rightarrow> nat \<Rightarrow> u8 list" where
  "be_bytes 0 v = []"
| "be_bytes (Suc n) v = word_of_nat (v div 256 ^ n) # be_bytes n v"

lemma be_foldl:
  "foldl (\<lambda>n b. n * 256 + unat b) n bs = n * 256 ^ length bs + foldl (\<lambda>n b. n * 256 + unat b) 0 bs"
  for bs :: "u8 list"
proof (induction bs arbitrary: n)
  case (Cons b bs)
  have "foldl (\<lambda>n b. n * 256 + unat b) n (b # bs) =
      (n * 256 + unat b) * 256 ^ length bs + foldl (\<lambda>n b. n * 256 + unat b) 0 bs"
    using Cons.IH [of "n * 256 + unat b"] by simp
  also have "\<dots> = n * 256 ^ length (b # bs) + (unat b * 256 ^ length bs + foldl (\<lambda>n b. n * 256 + unat b) 0 bs)"
    by (simp add: algebra_simps)
  also have "unat b * 256 ^ length bs + foldl (\<lambda>n b. n * 256 + unat b) 0 bs =
      foldl (\<lambda>n b. n * 256 + unat b) 0 (b # bs)"
    using Cons.IH [of "unat b"] by simp
  finally show ?case .
qed simp

lemma be_value_simps [simp]:
  "be_value [] = 0"
  "be_value (b # bs) = unat b * 256 ^ length bs + be_value bs"
  using be_foldl [of "unat b" bs] by (simp_all add: be_value_def)

lemma be_value_less: "be_value bs < 256 ^ length bs"
proof (induction bs)
  case (Cons b bs)
  have "unat b * 256 ^ length bs + be_value bs < unat b * 256 ^ length bs + 256 ^ length bs"
    using Cons.IH by simp
  also have "\<dots> = Suc (unat b) * 256 ^ length bs" by simp
  also have "\<dots> \<le> 256 * 256 ^ length bs"
    using unat_bound [of b] by (intro mult_right_mono) auto
  finally show ?case by simp
qed simp

lemma length_be_bytes [simp]: "length (be_bytes n v) = n"
  by (induction n) simp_all

lemma be_bytes_2: "be_bytes 2 v = [word_of_nat (v div 256), word_of_nat v]"
  by (simp add: numeral_2_eq_2)

lemma be_value_bytes [simp]: "be_value (be_bytes n v) = v mod 256 ^ n"
proof (induction n)
  case (Suc n)
  have "unat (word_of_nat (v div 256 ^ n) :: u8) = v div 256 ^ n mod 256"
    by (simp add: unat_of_nat)
  moreover have "v mod (256 ^ n * 256) = 256 ^ n * (v div 256 ^ n mod 256) + v mod 256 ^ n"
    by (rule mod_mult2_eq)
  ultimately show ?case using Suc by (simp add: mult.commute)
qed simp

text \<open>The byte the C expression \<open>value >> (i * 8) & 0xFF\<close> extracts.\<close>

lemma ucast_mask_byte: "(ucast (w AND 0xFF) :: u8) = ucast w" for w :: "'a::len word"
proof (rule bit_word_eqI)
  fix n assume n: "n < LENGTH(8)"
  have m: "(0xFF :: 'a word) = mask 8" by (simp add: mask_eq_exp_minus_1)
  from n show "bit (ucast (w AND 0xFF) :: u8) n = bit (ucast w :: u8) n"
    unfolding m by (auto simp: bit_simps dest: bit_imp_le_length)
qed

lemma nth_byte: "(ucast (drop_bit (i * 8) w AND 0xFF) :: u8) = word_of_nat (unat w div 256 ^ i)"
  for w :: "'a::len word"
proof -
  have "unat (drop_bit (i * 8) w) = unat w div 256 ^ i"
    unfolding unat_drop_bit_eq by (simp add: drop_bit_eq_div power_mult mult.commute [of i 8])
  then show ?thesis by (metis ucast_mask_byte of_nat_unat)
qed

text \<open>The step \<open>result << 8 | byte\<close>.\<close>

lemma shift_in_byte: "push_bit 8 r OR ucast b = r * 256 + word_of_nat (unat b)"
  for r :: "'a::len word" and b :: u8
proof -
  have "push_bit 8 r OR (ucast b :: 'a word) = push_bit 8 r + ucast b"
    by (rule disjunctive_add_eq_or [symmetric])
      (rule bit_word_eqI, auto simp: bit_simps dest: bit_imp_le_length)
  then show ?thesis by (simp add: push_bit_eq_mult)
qed

section \<open>Decimal text\<close>

text \<open>The digits \<open>printf\<close> writes for an unsigned number, and the number a string of digits stands for.\<close>

fun decimal :: "nat \<Rightarrow> u8 list" where
  "decimal n = (if n < 10 then [48 + word_of_nat n] else decimal (n div 10) @ [48 + word_of_nat (n mod 10)])"

declare decimal.simps [simp del]

definition decimal_value :: "u8 list \<Rightarrow> nat" where
  "decimal_value cs = foldl (\<lambda>n c. n * 10 + (unat c - 48)) 0 cs"

lemma unat_digit: "n < 10 \<Longrightarrow> unat (48 + word_of_nat n :: u8) = 48 + n"
  using unat_add_no_wrap [of "48 :: u8" "word_of_nat n"] unat_word_of_nat [of n, where 'a = 8] by simp

lemma decimal_value_decimal [simp]: "decimal_value (decimal n) = n"
proof (induction n rule: decimal.induct)
  case (1 n)
  then show ?case
    by (subst decimal.simps) (simp add: decimal_value_def unat_digit)
qed

lemma decimal_digits: "set (decimal n) \<subseteq> {c. 48 \<le> c \<and> c \<le> 57}"
proof (induction n rule: decimal.induct)
  case (1 n)
  then show ?case
    by (subst decimal.simps) (auto simp: word_le_nat_alt unat_digit)
qed

lemma decimal_not_Nil [simp]: "decimal n \<noteq> []"
  by (subst decimal.simps) simp

lemma decimal_inj: "decimal n = decimal m \<longleftrightarrow> n = m"
  by (metis decimal_value_decimal)

end
