(* ===== verification/Parc_Atomic.thy ===== *)
theory Parc_Atomic
  imports Parc_Prelude
begin

text \<open>
  \<^verbatim>\<open>parc/concurrent/parc_AtomicUint8.c\<close>, \<^verbatim>\<open>16\<close>, \<^verbatim>\<open>32\<close> and \<^verbatim>\<open>64\<close>: one atomic cell per width. In the
  default build a cell is the integer itself and the three updates are single
  \<open>__sync\<close> instructions, so an operation is a function from the cell to its result and the new cell
  and a concurrent execution is an interleaving of such operations. The locale \<open>atomic_cell\<close> is the
  contract of the four files; each of them is an interpretation of it.
  \<open>Create\<close> and \<open>Copy\<close> give the content of the new instance; its allocation is that of every
  PARC object.
\<close>

section \<open>The four files\<close>

subsection \<open>parc\_AtomicUint8.c\<close>

type_synonym PARCAtomicUint8 = u8

definition parcAtomicUint8_Create :: "u8 \<Rightarrow> PARCAtomicUint8" where
  "parcAtomicUint8_Create value = value"

definition parcAtomicUint8_GetValue :: "PARCAtomicUint8 \<Rightarrow> u8" where
  "parcAtomicUint8_GetValue instance = instance"

definition parcAtomicUint8_Compare :: "PARCAtomicUint8 \<Rightarrow> PARCAtomicUint8 \<Rightarrow> int" where
  "parcAtomicUint8_Compare instance other =
     (let comparison = sint (parcAtomicUint8_GetValue instance - parcAtomicUint8_GetValue other)
      in if comparison < 0 then -1 else if comparison > 0 then 1 else 0)"

definition parcAtomicUint8_Copy :: "PARCAtomicUint8 \<Rightarrow> PARCAtomicUint8" where
  "parcAtomicUint8_Copy original = parcAtomicUint8_Create (parcAtomicUint8_GetValue original)"

definition parcAtomicUint8_Equals :: "PARCAtomicUint8 \<Rightarrow> PARCAtomicUint8 \<Rightarrow> bool" where
  "parcAtomicUint8_Equals x y \<longleftrightarrow> parcAtomicUint8_GetValue x = parcAtomicUint8_GetValue y"

definition parcAtomicUint8_HashCode :: "PARCAtomicUint8 \<Rightarrow> u64" where
  "parcAtomicUint8_HashCode instance = ucast (ucast (parcAtomicUint8_GetValue instance) :: u32)"

definition parcAtomicUint8_IsValid :: "ptr \<Rightarrow> bool" where
  "parcAtomicUint8_IsValid instance \<longleftrightarrow> instance \<noteq> None"

definition parcAtomicUint8_AddImpl :: "PARCAtomicUint8 \<Rightarrow> u8 \<Rightarrow> u8 \<times> PARCAtomicUint8" where
  "parcAtomicUint8_AddImpl value addend = (value + addend, value + addend)"

definition parcAtomicUint8_SubtractImpl ::
  "PARCAtomicUint8 \<Rightarrow> u8 \<Rightarrow> u8 \<times> PARCAtomicUint8" where
  "parcAtomicUint8_SubtractImpl value subtrahend = (value - subtrahend, value - subtrahend)"

definition parcAtomicUint8_CompareAndSwapImpl ::
  "PARCAtomicUint8 \<Rightarrow> u8 \<Rightarrow> u8 \<Rightarrow> bool \<times> PARCAtomicUint8" where
  "parcAtomicUint8_CompareAndSwapImpl value predicate newValue =
     (if value = predicate then (True, newValue) else (False, value))"

subsection \<open>parc\_AtomicUint16.c\<close>

type_synonym PARCAtomicUint16 = u16

definition parcAtomicUint16_Create :: "u16 \<Rightarrow> PARCAtomicUint16" where
  "parcAtomicUint16_Create value = value"

definition parcAtomicUint16_GetValue :: "PARCAtomicUint16 \<Rightarrow> u16" where
  "parcAtomicUint16_GetValue instance = instance"

definition parcAtomicUint16_Compare :: "PARCAtomicUint16 \<Rightarrow> PARCAtomicUint16 \<Rightarrow> int" where
  "parcAtomicUint16_Compare instance other =
     (let comparison = sint (parcAtomicUint16_GetValue instance - parcAtomicUint16_GetValue other)
      in if comparison < 0 then -1 else if comparison > 0 then 1 else 0)"

definition parcAtomicUint16_Copy :: "PARCAtomicUint16 \<Rightarrow> PARCAtomicUint16" where
  "parcAtomicUint16_Copy original = parcAtomicUint16_Create (parcAtomicUint16_GetValue original)"

definition parcAtomicUint16_Equals :: "PARCAtomicUint16 \<Rightarrow> PARCAtomicUint16 \<Rightarrow> bool" where
  "parcAtomicUint16_Equals x y \<longleftrightarrow> parcAtomicUint16_GetValue x = parcAtomicUint16_GetValue y"

definition parcAtomicUint16_HashCode :: "PARCAtomicUint16 \<Rightarrow> u64" where
  "parcAtomicUint16_HashCode instance = ucast (parcAtomicUint16_GetValue instance)"

definition parcAtomicUint16_IsValid :: "ptr \<Rightarrow> bool" where
  "parcAtomicUint16_IsValid instance \<longleftrightarrow> instance \<noteq> None"

definition parcAtomicUint16_AddImpl :: "PARCAtomicUint16 \<Rightarrow> u16 \<Rightarrow> u16 \<times> PARCAtomicUint16" where
  "parcAtomicUint16_AddImpl value addend = (value + addend, value + addend)"

definition parcAtomicUint16_SubtractImpl ::
  "PARCAtomicUint16 \<Rightarrow> u16 \<Rightarrow> u16 \<times> PARCAtomicUint16" where
  "parcAtomicUint16_SubtractImpl value subtrahend = (value - subtrahend, value - subtrahend)"

definition parcAtomicUint16_CompareAndSwapImpl ::
  "PARCAtomicUint16 \<Rightarrow> u16 \<Rightarrow> u16 \<Rightarrow> bool \<times> PARCAtomicUint16" where
  "parcAtomicUint16_CompareAndSwapImpl value predicate newValue =
     (if value = predicate then (True, newValue) else (False, value))"

subsection \<open>parc\_AtomicUint32.c\<close>

type_synonym PARCAtomicUint32 = u32

definition parcAtomicUint32_Create :: "u32 \<Rightarrow> PARCAtomicUint32" where
  "parcAtomicUint32_Create value = value"

definition parcAtomicUint32_GetValue :: "PARCAtomicUint32 \<Rightarrow> u32" where
  "parcAtomicUint32_GetValue instance = instance"

definition parcAtomicUint32_Compare :: "PARCAtomicUint32 \<Rightarrow> PARCAtomicUint32 \<Rightarrow> int" where
  "parcAtomicUint32_Compare instance other =
     (let comparison = sint (parcAtomicUint32_GetValue instance - parcAtomicUint32_GetValue other)
      in if comparison < 0 then -1 else if comparison > 0 then 1 else 0)"

definition parcAtomicUint32_Copy :: "PARCAtomicUint32 \<Rightarrow> PARCAtomicUint32" where
  "parcAtomicUint32_Copy original = parcAtomicUint32_Create (parcAtomicUint32_GetValue original)"

definition parcAtomicUint32_Equals :: "PARCAtomicUint32 \<Rightarrow> PARCAtomicUint32 \<Rightarrow> bool" where
  "parcAtomicUint32_Equals x y \<longleftrightarrow> parcAtomicUint32_GetValue x = parcAtomicUint32_GetValue y"

definition parcAtomicUint32_HashCode :: "PARCAtomicUint32 \<Rightarrow> u64" where
  "parcAtomicUint32_HashCode instance = ucast (parcAtomicUint32_GetValue instance)"

definition parcAtomicUint32_IsValid :: "ptr \<Rightarrow> bool" where
  "parcAtomicUint32_IsValid instance \<longleftrightarrow> instance \<noteq> None"

definition parcAtomicUint32_AddImpl :: "PARCAtomicUint32 \<Rightarrow> u32 \<Rightarrow> u32 \<times> PARCAtomicUint32" where
  "parcAtomicUint32_AddImpl value addend = (value + addend, value + addend)"

definition parcAtomicUint32_SubtractImpl ::
  "PARCAtomicUint32 \<Rightarrow> u32 \<Rightarrow> u32 \<times> PARCAtomicUint32" where
  "parcAtomicUint32_SubtractImpl value subtrahend = (value - subtrahend, value - subtrahend)"

definition parcAtomicUint32_CompareAndSwapImpl ::
  "PARCAtomicUint32 \<Rightarrow> u32 \<Rightarrow> u32 \<Rightarrow> bool \<times> PARCAtomicUint32" where
  "parcAtomicUint32_CompareAndSwapImpl value predicate newValue =
     (if value = predicate then (True, newValue) else (False, value))"

subsection \<open>parc\_AtomicUint64.c\<close>

type_synonym PARCAtomicUint64 = u64

definition parcAtomicUint64_Create :: "u64 \<Rightarrow> PARCAtomicUint64" where
  "parcAtomicUint64_Create value = value"

definition parcAtomicUint64_GetValue :: "PARCAtomicUint64 \<Rightarrow> u64" where
  "parcAtomicUint64_GetValue instance = instance"

definition parcAtomicUint64_Compare :: "PARCAtomicUint64 \<Rightarrow> PARCAtomicUint64 \<Rightarrow> int" where
  "parcAtomicUint64_Compare instance other =
     (let comparison = sint (parcAtomicUint64_GetValue instance - parcAtomicUint64_GetValue other)
      in if comparison < 0 then -1 else if comparison > 0 then 1 else 0)"

definition parcAtomicUint64_Copy :: "PARCAtomicUint64 \<Rightarrow> PARCAtomicUint64" where
  "parcAtomicUint64_Copy original = parcAtomicUint64_Create (parcAtomicUint64_GetValue original)"

definition parcAtomicUint64_Equals :: "PARCAtomicUint64 \<Rightarrow> PARCAtomicUint64 \<Rightarrow> bool" where
  "parcAtomicUint64_Equals x y \<longleftrightarrow> parcAtomicUint64_GetValue x = parcAtomicUint64_GetValue y"

definition parcAtomicUint64_HashCode :: "PARCAtomicUint64 \<Rightarrow> u64" where
  "parcAtomicUint64_HashCode instance = parcAtomicUint64_GetValue instance"

definition parcAtomicUint64_IsValid :: "ptr \<Rightarrow> bool" where
  "parcAtomicUint64_IsValid instance \<longleftrightarrow> instance \<noteq> None"

definition parcAtomicUint64_AddImpl :: "PARCAtomicUint64 \<Rightarrow> u64 \<Rightarrow> u64 \<times> PARCAtomicUint64" where
  "parcAtomicUint64_AddImpl value addend = (value + addend, value + addend)"

definition parcAtomicUint64_SubtractImpl ::
  "PARCAtomicUint64 \<Rightarrow> u64 \<Rightarrow> u64 \<times> PARCAtomicUint64" where
  "parcAtomicUint64_SubtractImpl value subtrahend = (value - subtrahend, value - subtrahend)"

definition parcAtomicUint64_CompareAndSwapImpl ::
  "PARCAtomicUint64 \<Rightarrow> u64 \<Rightarrow> u64 \<Rightarrow> bool \<times> PARCAtomicUint64" where
  "parcAtomicUint64_CompareAndSwapImpl value predicate newValue =
     (if value = predicate then (True, newValue) else (False, value))"

text \<open>The macros of \<^verbatim>\<open>parc_AtomicUint64.h\<close> the reference counts use.\<close>

definition parcAtomicUint64_Increment :: "PARCAtomicUint64 \<Rightarrow> u64 \<times> PARCAtomicUint64" where
  "parcAtomicUint64_Increment value = parcAtomicUint64_AddImpl value 1"

definition parcAtomicUint64_Decrement :: "PARCAtomicUint64 \<Rightarrow> u64 \<times> PARCAtomicUint64" where
  "parcAtomicUint64_Decrement value = parcAtomicUint64_SubtractImpl value 1"

section \<open>The contract of an atomic cell\<close>

text \<open>
  An update of a cell by one thread, and the effect of a sequence of updates. \<open>delta\<close> is what a
  sequence adds in total.
\<close>

datatype 'w update = Add 'w | Subtract 'w

fun apply_update ::
  "('c \<Rightarrow> 'w \<Rightarrow> 'w \<times> 'c) \<Rightarrow> ('c \<Rightarrow> 'w \<Rightarrow> 'w \<times> 'c) \<Rightarrow> 'w update \<Rightarrow> 'c \<Rightarrow> 'c" where
  "apply_update add sub (Add n) c = snd (add c n)"
| "apply_update add sub (Subtract n) c = snd (sub c n)"

fun run_updates ::
  "('c \<Rightarrow> 'w \<Rightarrow> 'w \<times> 'c) \<Rightarrow> ('c \<Rightarrow> 'w \<Rightarrow> 'w \<times> 'c) \<Rightarrow> 'w update list \<Rightarrow> 'c \<Rightarrow> 'c" where
  "run_updates add sub [] c = c"
| "run_updates add sub (u # us) c = run_updates add sub us (apply_update add sub u c)"

fun amount :: "'w::len word update \<Rightarrow> 'w word" where
  "amount (Add n) = n"
| "amount (Subtract n) = - n"

definition delta :: "'w::len word update list \<Rightarrow> 'w word" where
  "delta us = sum_list (map amount us)"

lemma delta_shuffles: "zs \<in> shuffles xs ys \<Longrightarrow> delta zs = delta xs + delta ys"
  unfolding delta_def
proof (induction xs ys arbitrary: zs rule: shuffles.induct)
  case (3 x xs y ys)
  from "3.prems" consider
      zs' where "zs = x # zs'" "zs' \<in> shuffles xs (y # ys)"
    | zs' where "zs = y # zs'" "zs' \<in> shuffles (x # xs) ys"
    by auto
  then show ?case
    by cases (simp_all add: "3.IH" algebra_simps)
qed simp_all

locale atomic_cell =
  fixes get :: "'c \<Rightarrow> 'w::len word"
    and add sub :: "'c \<Rightarrow> 'w word \<Rightarrow> 'w word \<times> 'c"
    and cas :: "'c \<Rightarrow> 'w word \<Rightarrow> 'w word \<Rightarrow> bool \<times> 'c"
    and compare :: "'c \<Rightarrow> 'c \<Rightarrow> int"
  assumes add: "get (snd (add c n)) = get c + n" "fst (add c n) = get c + n"
    and sub: "get (snd (sub c n)) = get c - n" "fst (sub c n) = get c - n"
    and cas: "fst (cas c p v) \<longleftrightarrow> get c = p" "get (snd (cas c p v)) = (if get c = p then v else get c)"
    and compare: "compare c d = sgn (sint (get c - get d))"
begin

lemma get_run: "get (run_updates add sub us c) = get c + delta us"
proof (induction us arbitrary: c)
  case (Cons u us)
  then show ?case by (cases u) (simp_all add: add sub delta_def)
qed (simp add: delta_def)

lemma interleaving:
  "zs \<in> shuffles xs ys \<Longrightarrow> get (run_updates add sub zs c) = get c + delta xs + delta ys"
  by (simp add: get_run delta_shuffles add.assoc)

lemma compare_iff_order:
  "compare c d = sgn (uint (get c) - uint (get d)) \<longleftrightarrow>
     (if get d \<le> get c then unat (get c) - unat (get d) < 2 ^ (LENGTH('w) - Suc 0)
      else unat (get d) - unat (get c) \<le> 2 ^ (LENGTH('w) - Suc 0))"
proof (cases "get d \<le> get c")
  case True
  then have "unat (get c - get d) = unat (get c) - unat (get d)" by (rule unat_diff_le)
  moreover have "sgn (uint (get c) - uint (get d)) = (if get c = get d then 0 else 1)"
    using True by (auto simp: sgn_if word_le_def word_uint_eq_iff)
  moreover have "sint (get c - get d) = 0 \<longleftrightarrow> get c = get d"
    by (simp add: sint_zero_iff)
  ultimately show ?thesis
    using True sint_neg_iff [of "get c - get d"] by (auto simp: compare sgn_if)
next
  case False
  then have lt: "get c < get d" by simp
  have "unat (get c - get d) = 2 ^ LENGTH('w) - (unat (get d) - unat (get c))"
    using lt by (simp add: unat_sub_if' word_less_nat_alt word_le_nat_alt)
  moreover have "sgn (uint (get c) - uint (get d)) = -1"
    using lt by (simp add: sgn_if word_less_def)
  moreover have "(2::nat) ^ LENGTH('w) = 2 * 2 ^ (LENGTH('w) - Suc 0)" by (simp flip: power_Suc)
  moreover have "unat (get d) < 2 ^ LENGTH('w)" by (rule unsigned_less)
  ultimately show ?thesis
    using False lt sint_neg_iff [of "get c - get d"]
    by (auto simp: compare sgn_if word_less_nat_alt)
qed

end

interpretation uint8: atomic_cell parcAtomicUint8_GetValue parcAtomicUint8_AddImpl
  parcAtomicUint8_SubtractImpl parcAtomicUint8_CompareAndSwapImpl parcAtomicUint8_Compare
  by unfold_locales
    (auto simp: parcAtomicUint8_GetValue_def parcAtomicUint8_AddImpl_def sgn_if Let_def
      parcAtomicUint8_SubtractImpl_def parcAtomicUint8_CompareAndSwapImpl_def
      parcAtomicUint8_Compare_def)

interpretation uint16: atomic_cell parcAtomicUint16_GetValue parcAtomicUint16_AddImpl
  parcAtomicUint16_SubtractImpl parcAtomicUint16_CompareAndSwapImpl parcAtomicUint16_Compare
  by unfold_locales
    (auto simp: parcAtomicUint16_GetValue_def parcAtomicUint16_AddImpl_def sgn_if Let_def
      parcAtomicUint16_SubtractImpl_def parcAtomicUint16_CompareAndSwapImpl_def
      parcAtomicUint16_Compare_def)

interpretation uint32: atomic_cell parcAtomicUint32_GetValue parcAtomicUint32_AddImpl
  parcAtomicUint32_SubtractImpl parcAtomicUint32_CompareAndSwapImpl parcAtomicUint32_Compare
  by unfold_locales
    (auto simp: parcAtomicUint32_GetValue_def parcAtomicUint32_AddImpl_def sgn_if Let_def
      parcAtomicUint32_SubtractImpl_def parcAtomicUint32_CompareAndSwapImpl_def
      parcAtomicUint32_Compare_def)

interpretation uint64: atomic_cell parcAtomicUint64_GetValue parcAtomicUint64_AddImpl
  parcAtomicUint64_SubtractImpl parcAtomicUint64_CompareAndSwapImpl parcAtomicUint64_Compare
  by unfold_locales
    (auto simp: parcAtomicUint64_GetValue_def parcAtomicUint64_AddImpl_def sgn_if Let_def
      parcAtomicUint64_SubtractImpl_def parcAtomicUint64_CompareAndSwapImpl_def
      parcAtomicUint64_Compare_def)

section \<open>Properties\<close>



text \<open>
  The comparison functions subtract and look at the sign. They agree with the order of the values exactly when
  the values are less than half of the range apart; beyond that the larger value is reported as the smaller.
\<close>

theorem parcAtomic_Compare_order:
  "(parcAtomicUint64_Compare x y = sgn (uint x - uint y) \<longleftrightarrow>
      (if y \<le> x then unat x - unat y < 2 ^ 63 else unat y - unat x \<le> 2 ^ 63)) \<and>
   (parcAtomicUint32_Compare v w = sgn (uint v - uint w) \<longleftrightarrow>
      (if w \<le> v then unat v - unat w < 2 ^ 31 else unat w - unat v \<le> 2 ^ 31))"
  using uint64.compare_iff_order [of x y] uint32.compare_iff_order [of v w]
  by (simp add: parcAtomicUint64_GetValue_def parcAtomicUint32_GetValue_def)

end
