(* ===== verification/Parc_Hash.thy ===== *)
theory Parc_Hash
  imports Parc_Prelude
begin

text \<open>
  \<^verbatim>\<open>parc/algol/parc_HashCode.c\<close> and \<^verbatim>\<open>parc/algol/parc_Hash.c\<close>: the hash codes every PARC object
  class uses and the older 32 and 64 bit hash functions with their accumulator object. All of them
  run the FNV-1a loop; the locale \<open>fnv_step\<close> holds the facts of that loop and is interpreted on each
  of the three loops of the sources. The accumulator functions of \<^verbatim>\<open>parc_Hash.c\<close> read the data
  through a plain \<open>char\<close>, which is signed on the supported platforms: the byte is sign extended.
\<close>

section \<open>parc\_HashCode.c\<close>

type_synonym PARCHashCode = u64

definition hashCode_fnv1a_prime :: PARCHashCode where
  "hashCode_fnv1a_prime = 0x00000100000001B3"

definition parcHashCode_InitialValue :: PARCHashCode where
  "parcHashCode_InitialValue = 0xCBF29CE484222325"

fun parcHashCode_HashImpl :: "u8 list \<Rightarrow> PARCHashCode \<Rightarrow> PARCHashCode" where
  "parcHashCode_HashImpl [] hash = hash"
| "parcHashCode_HashImpl (b # memory) hash =
     parcHashCode_HashImpl memory ((hash XOR ucast b) * hashCode_fnv1a_prime)"

definition parcHashCode_Hash :: "u8 list \<Rightarrow> PARCHashCode" where
  "parcHashCode_Hash memory = parcHashCode_HashImpl memory parcHashCode_InitialValue"

text \<open>The bytes of an integer in memory, least significant first.\<close>

definition u64_bytes :: "u64 \<Rightarrow> u8 list" where
  "u64_bytes w = map (\<lambda>i. ucast (drop_bit (8 * i) w)) [0..<8]"

definition u32_bytes :: "u32 \<Rightarrow> u8 list" where
  "u32_bytes w = map (\<lambda>i. ucast (drop_bit (8 * i) w)) [0..<4]"

definition parcHashCode_HashHashCode :: "PARCHashCode \<Rightarrow> PARCHashCode \<Rightarrow> PARCHashCode" where
  "parcHashCode_HashHashCode initialValue update =
     parcHashCode_HashImpl (u64_bytes update) initialValue"

section \<open>parc\_Hash.c\<close>

fun parcHash64_Data_Cumulative :: "u8 list \<Rightarrow> u64 \<Rightarrow> u64" where
  "parcHash64_Data_Cumulative [] hash = hash"
| "parcHash64_Data_Cumulative (c # chardata) hash =
     parcHash64_Data_Cumulative chardata ((hash XOR scast c) * 0x00000100000001B3)"

definition parcHash64_Data :: "u8 list \<Rightarrow> u64" where
  "parcHash64_Data data = parcHash64_Data_Cumulative data 0xCBF29CE484222325"

definition parcHash64_Int64 :: "u64 \<Rightarrow> u64" where
  "parcHash64_Int64 int64 = parcHash64_Data (u64_bytes int64)"

definition parcHash64_Int32 :: "u32 \<Rightarrow> u64" where
  "parcHash64_Int32 int32 = parcHash64_Data (u32_bytes int32)"

fun parcHash32_Data_Cumulative :: "u8 list \<Rightarrow> u32 \<Rightarrow> u32" where
  "parcHash32_Data_Cumulative [] hash = hash"
| "parcHash32_Data_Cumulative (c # chardata) hash =
     parcHash32_Data_Cumulative chardata ((hash XOR scast c) * 0x01000193)"

definition parcHash32_Data :: "u8 list \<Rightarrow> u32" where
  "parcHash32_Data data = parcHash32_Data_Cumulative data 0x811C9DC5"

definition parcHash32_Int64 :: "u64 \<Rightarrow> u32" where
  "parcHash32_Int64 int64 = parcHash32_Data (u64_bytes int64)"

definition parcHash32_Int32 :: "u32 \<Rightarrow> u32" where
  "parcHash32_Int32 int32 = parcHash32_Data (u32_bytes int32)"

text \<open>The accumulator object \<open>PARCHash32Bits\<close>.\<close>

record parc_hash_32bits =
  accumulator :: u32

definition parcHash32Bits_Create :: parc_hash_32bits where
  "parcHash32Bits_Create = \<lparr>accumulator = 0\<rparr>"

definition parcHash32Bits_Update :: "parc_hash_32bits \<Rightarrow> u8 list \<Rightarrow> parc_hash_32bits" where
  "parcHash32Bits_Update hash data =
     hash\<lparr>accumulator := parcHash32_Data_Cumulative data (accumulator hash)\<rparr>"

definition parcHash32Bits_UpdateUint32 :: "parc_hash_32bits \<Rightarrow> u32 \<Rightarrow> parc_hash_32bits" where
  "parcHash32Bits_UpdateUint32 hash value =
     hash\<lparr>accumulator := parcHash32_Data_Cumulative (u32_bytes value) (accumulator hash)\<rparr>"

definition parcHash32Bits_Hash :: "parc_hash_32bits \<Rightarrow> u32" where
  "parcHash32Bits_Hash hash = accumulator hash"

section \<open>The loop as a specification\<close>

text \<open>FNV-1a as published: xor the next byte, then multiply by the prime.\<close>

definition fnv1a :: "'w::len word \<Rightarrow> u8 list \<Rightarrow> 'w word \<Rightarrow> 'w word" where
  "fnv1a prime bs h = fold (\<lambda>b h. (h XOR ucast b) * prime) bs h"

text \<open>
  The contract of a hash loop: it folds a step that xors an extended byte and multiplies by a number
  with an inverse. The consequences: hashing can be cut anywhere, and no two inputs that differ in
  one byte collide.
\<close>

locale fnv_step =
  fixes loop :: "u8 list \<Rightarrow> 'w::len word \<Rightarrow> 'w word"
    and ext :: "u8 \<Rightarrow> 'w word"
    and prime inverse :: "'w word"
  assumes loop_Nil: "loop [] h = h"
    and loop_Cons: "loop (b # bs) h = loop bs ((h XOR ext b) * prime)"
    and inverse: "prime * inverse = 1"
    and ext_inj: "ext b = ext c \<Longrightarrow> b = c"
begin

lemma append: "loop (xs @ ys) h = loop ys (loop xs h)"
  by (induction xs arbitrary: h) (simp_all add: loop_Nil loop_Cons)

lemma times_cancel: "x * prime = y * prime \<longleftrightarrow> x = y"
proof
  assume "x * prime = y * prime"
  then have "x * (prime * inverse) = y * (prime * inverse)"
    by (metis mult.assoc)
  then show "x = y" by (simp add: inverse)
qed simp

lemma xor_cancel_right: "x XOR z = y XOR z \<longleftrightarrow> x = y" for x y z :: "'w word"
  by (metis xor.assoc xor.right_neutral xor_self_eq)

lemma state_inj: "loop bs h = loop bs h' \<longleftrightarrow> h = h'"
  by (induction bs arbitrary: h h') (simp_all add: loop_Nil loop_Cons times_cancel xor_cancel_right)

lemma byte_inj: "loop (b # bs) h = loop (c # bs) h \<longleftrightarrow> b = c"
proof
  assume "loop (b # bs) h = loop (c # bs) h"
  then have "ext b XOR h = ext c XOR h"
    by (simp add: loop_Cons state_inj times_cancel xor.commute)
  then show "b = c" by (auto simp: xor_cancel_right dest: ext_inj)
qed simp

lemma one_byte_difference: "loop (xs @ b # ys) h = loop (xs @ c # ys) h \<longleftrightarrow> b = c"
  by (simp add: append byte_inj)

end

interpretation hashCode: fnv_step parcHashCode_HashImpl ucast hashCode_fnv1a_prime
  14886173955864302971
  by unfold_locales (auto simp: hashCode_fnv1a_prime_def dest: ucast_up_inj)

interpretation hash64: fnv_step parcHash64_Data_Cumulative scast "0x00000100000001B3"
  14886173955864302971
  by unfold_locales (auto dest: scast_up_inj)

interpretation hash32: fnv_step parcHash32_Data_Cumulative scast "0x01000193" 899433627
  by unfold_locales (auto dest: scast_up_inj)

section \<open>Properties\<close>

lemma parcHashCode_HashImpl_fnv1a:
  "parcHashCode_HashImpl bs h = fnv1a hashCode_fnv1a_prime bs h"
  by (induction bs arbitrary: h) (simp_all add: fnv1a_def)

lemma parcHash64_ascii:
  "(\<forall>b \<in> set bs. b < 128) \<Longrightarrow> parcHash64_Data_Cumulative bs h = fnv1a 0x00000100000001B3 bs h"
  by (induction bs arbitrary: h) (simp_all add: fnv1a_def scast_eq_ucast_ascii)

lemma parcHash32_ascii:
  "(\<forall>b \<in> set bs. b < 128) \<Longrightarrow> parcHash32_Data_Cumulative bs h = fnv1a 0x01000193 bs h"
  by (induction bs arbitrary: h) (simp_all add: fnv1a_def scast_eq_ucast_ascii)

lemma updates_accumulate:
  "accumulator (fold (\<lambda>d h. parcHash32Bits_Update h d) chunks hash) =
     parcHash32_Data_Cumulative (concat chunks) (accumulator hash)"
  by (induction chunks arbitrary: hash) (simp_all add: parcHash32Bits_Update_def hash32.append)

lemma scast_eq_ucast_iff:
  fixes b :: u8
  assumes "LENGTH(8) < LENGTH('b::len)"
  shows "(scast b :: 'b word) = ucast b \<longleftrightarrow> b < 128"
proof
  assume eq: "(scast b :: 'b word) = ucast b"
  show "b < 128"
  proof (rule ccontr)
    assume "\<not> b < 128"
    then have "sint b < 0" by (simp add: sint_neg_iff word_less_nat_alt)
    moreover have "sint b = sint (scast b :: 'b word)"
      using assms by (intro sint_up_scast [symmetric]) (simp add: is_up)
    moreover have "0 \<le> sint (ucast b :: 'b word)"
    proof -
      have "unat (ucast b :: 'b word) = unat b"
        using assms by (simp add: unsigned_ucast_eq take_bit_nat_eq_self_iff
            order_less_le_trans [OF unat_bound [of b] power_increasing])
      also have "\<dots> < 2 ^ LENGTH(8)" by (rule unat_bound)
      also have "\<dots> \<le> 2 ^ (LENGTH('b) - Suc 0)"
        using assms by (intro power_increasing) auto
      finally show ?thesis using sint_neg_iff [of "ucast b :: 'b word"] by simp
    qed
    ultimately show False using eq by simp
  qed
qed (rule scast_eq_ucast_ascii)

text \<open>
  C39: \<open>parcHashCode_HashImpl\<close> is the published FNV-1a on every input. The functions of \<^verbatim>\<open>parc_Hash.c\<close> agree
  with FNV-1a on ASCII data, but on no single byte from 128 on, because they read the data through a signed
  \<open>char\<close>.
\<close>

theorem parcHash_fnv1a:
  "parcHashCode_HashImpl bs h = fnv1a 0x00000100000001B3 bs h \<and>
   ((\<forall>b \<in> set bs. b < 128) \<longrightarrow>
      parcHash64_Data bs = fnv1a 0x00000100000001B3 bs 0xCBF29CE484222325 \<and>
      parcHash32_Data bs = fnv1a 0x01000193 bs 0x811C9DC5) \<and>
   (parcHash64_Data [b] = fnv1a 0x00000100000001B3 [b] 0xCBF29CE484222325 \<longleftrightarrow> b < 128) \<and>
   (parcHash32_Data [b] = fnv1a 0x01000193 [b] 0x811C9DC5 \<longleftrightarrow> b < 128)"
proof -
  have "parcHash64_Data [b] = fnv1a 0x00000100000001B3 [b] 0xCBF29CE484222325 \<longleftrightarrow>
      (scast b :: u64) = ucast b"
    by (simp add: parcHash64_Data_def fnv1a_def hash64.times_cancel xor.commute [of "0xCBF29CE484222325"]
        hash64.xor_cancel_right)
  moreover have "parcHash32_Data [b] = fnv1a 0x01000193 [b] 0x811C9DC5 \<longleftrightarrow> (scast b :: u32) = ucast b"
    by (simp add: parcHash32_Data_def fnv1a_def hash32.times_cancel xor.commute [of "0x811C9DC5"]
        hash32.xor_cancel_right)
  moreover have "parcHashCode_HashImpl bs h = fnv1a 0x00000100000001B3 bs h"
    using parcHashCode_HashImpl_fnv1a by (simp add: hashCode_fnv1a_prime_def)
  ultimately show ?thesis
    by (simp add: scast_eq_ucast_iff parcHash64_ascii parcHash32_ascii parcHash64_Data_def parcHash32_Data_def)
qed

theorem parcHash_fnv1a_witness:
  "parcHash64_Data [112, 97, 114, 99] = fnv1a 0x00000100000001B3 [112, 97, 114, 99] 0xCBF29CE484222325 \<and>
   parcHash32_Data [200] \<noteq> fnv1a 0x01000193 [200] 0x811C9DC5"
  using parcHash_fnv1a [of "[112, 97, 114, 99]" 0 200] by simp

text \<open>
  Two inputs that differ in exactly one byte never have the same hash, for each of the three hash loops
  and every initial value.
\<close>

theorem parcHash_one_byte_difference:
  "(parcHashCode_HashImpl (xs @ b # ys) h = parcHashCode_HashImpl (xs @ c # ys) h \<longleftrightarrow> b = c) \<and>
   (parcHash64_Data (xs @ b # ys) = parcHash64_Data (xs @ c # ys) \<longleftrightarrow> b = c) \<and>
   (parcHash32_Data (xs @ b # ys) = parcHash32_Data (xs @ c # ys) \<longleftrightarrow> b = c)"
  by (simp add: hashCode.one_byte_difference hash64.one_byte_difference hash32.one_byte_difference
      parcHash64_Data_def parcHash32_Data_def)

text \<open>
  The accumulator hashes a stream: however the data is cut into calls of \<open>parcHash32Bits_Update\<close>, the result
  is the hash of the whole, and an integer counts as its four bytes.
\<close>

theorem parcHash32Bits_stream:
  "parcHash32Bits_Hash (fold (\<lambda>d h. parcHash32Bits_Update h d) chunks parcHash32Bits_Create) =
     parcHash32_Data_Cumulative (concat chunks) 0 \<and>
   parcHash32Bits_UpdateUint32 hash v = parcHash32Bits_Update hash (u32_bytes v)"
proof
  show "parcHash32Bits_Hash (fold (\<lambda>d h. parcHash32Bits_Update h d) chunks parcHash32Bits_Create) =
      parcHash32_Data_Cumulative (concat chunks) 0"
    unfolding parcHash32Bits_Hash_def updates_accumulate by (simp add: parcHash32Bits_Create_def)
  show "parcHash32Bits_UpdateUint32 hash v = parcHash32Bits_Update hash (u32_bytes v)"
    by (simp add: parcHash32Bits_UpdateUint32_def parcHash32Bits_Update_def)
qed

end
