(* ===== verification/Parc_Object.thy ===== *)
theory Parc_Object
  imports Parc_Hash Parc_Atomic
begin

text \<open>
  \<^verbatim>\<open>parc/algol/parc_Object.c\<close>: reference counted objects with single inheritance.

  A heap maps addresses to objects, an object being the header of \<^verbatim>\<open>struct object_header\<close> followed by
  the data of its class, here of an arbitrary type \<open>'p\<close>. The descriptors (the classes) are a table
  from descriptor addresses to the records of their functions; it is an argument \<open>T\<close> of the
  operations that look at it, because the functions in it work on the heap. Allocation is a
  bump allocator that may fail: the \<open>n\<close>-th request fails when \<open>allocFails n\<close> holds. \<open>blocks\<close> are the
  origins of the live allocations. The validation build is modelled, where
  \<open>parcObject_OptionalAssertValid\<close> is \<open>parcObject_AssertValid\<close>. The comparison of
  header and object addresses in \<open>_parcObjectHeader_IsValid\<close> only excludes a wrap-around
  of the address space, which natural number addresses do not have. Condition variables
  (\<open>Wait\<close>, \<open>Notify\<close>) and the printing functions are not modelled.
\<close>

section \<open>Headers, descriptors, heaps\<close>

type_synonym thread = nat

record object_locking =
  lock :: "thread option"
  locker :: "thread option"

record 'p parc_object =
  magicGuardNumber :: u32
  isAllocated :: bool
  barrier :: bool
  references :: u64
  descriptor :: ptr
  locking :: "object_locking option"
  payload :: 'p

record 'p heap =
  objects :: "addr \<Rightarrow> 'p parc_object option"
  blocks :: "addr \<Rightarrow> bool"
  brk :: nat
  allocFails :: "nat \<Rightarrow> bool"
  allocCount :: nat

text \<open>
  \<open>PARCObjectDescriptor\<close>. A destructor gets \<open>PARCObject **\<close>: it returns its boolean, the pointer it
  leaves behind and the heap.
\<close>

record 'h descriptor =
  desc_name :: string
  desc_destroy :: "('h \<Rightarrow> addr \<Rightarrow> (ptr \<times> 'h) result) option"
  desc_destructor :: "('h \<Rightarrow> addr \<Rightarrow> (bool \<times> ptr \<times> 'h) result) option"
  desc_copy :: "('h \<Rightarrow> addr \<Rightarrow> (ptr \<times> 'h) result) option"
  desc_toString :: "('h \<Rightarrow> addr \<Rightarrow> string result) option"
  desc_equals :: "('h \<Rightarrow> addr \<Rightarrow> addr \<Rightarrow> bool result) option"
  desc_compare :: "('h \<Rightarrow> addr \<Rightarrow> addr \<Rightarrow> int result) option"
  desc_hashCode :: "('h \<Rightarrow> addr \<Rightarrow> PARCHashCode result) option"
  desc_super :: ptr
  desc_isLockable :: bool
  desc_objectSize :: size_t
  desc_objectAlignment :: u32

type_synonym 'p types = "addr \<Rightarrow> 'p heap descriptor option"

definition HEADER_MAGIC :: u32 where
  "HEADER_MAGIC = 0x0ddFadda"

section \<open>Memory\<close>

definition parcMemory_MemAlign :: "'p heap \<Rightarrow> nat \<Rightarrow> nat \<Rightarrow> ptr \<times> 'p heap" where
  "parcMemory_MemAlign h alignment sz =
     (let h' = h\<lparr>allocCount := Suc (allocCount h)\<rparr>; origin = round_up alignment (brk h)
      in if allocFails h (allocCount h) then (None, h')
         else (Some origin,
               h'\<lparr>blocks := (blocks h)(origin := True), brk := origin + sz\<rparr>))"

definition parcMemory_Deallocate :: "'p heap \<Rightarrow> addr \<Rightarrow> 'p heap result" where
  "parcMemory_Deallocate h origin =
     (if blocks h origin then Inr (h\<lparr>blocks := (blocks h)(origin := False)\<rparr>) else Inl Undefined)"

text \<open>
  A request for plain memory: whether it succeeds. The memory itself belongs to the
  structure that points to it.
\<close>

definition parcMemory_AllocateRaw :: "'p heap \<Rightarrow> bool \<times> 'p heap" where
  "parcMemory_AllocateRaw h =
     (\<not> allocFails h (allocCount h), h\<lparr>allocCount := Suc (allocCount h)\<rparr>)"

section \<open>Headers\<close>

definition parcObject_PrefixLength :: "u32 \<Rightarrow> u32" where
  "parcObject_PrefixLength alignment = (152 + (alignment - 1)) AND (- alignment)"

definition prefixLength :: "'h descriptor \<Rightarrow> nat" where
  "prefixLength d = unat (parcObject_PrefixLength (desc_objectAlignment d))"

definition parcObject_Header :: "'p heap \<Rightarrow> ptr \<Rightarrow> 'p parc_object result" where
  "parcObject_Header h p =
     (case p of None \<Rightarrow> Inl BadPointer
      | Some a \<Rightarrow> (case objects h a of None \<Rightarrow> Inl BadPointer | Some header \<Rightarrow> Inr header))"

definition parcObject_SetHeader :: "'p heap \<Rightarrow> addr \<Rightarrow> 'p parc_object \<Rightarrow> 'p heap" where
  "parcObject_SetHeader h a header = h\<lparr>objects := (objects h)(a := Some header)\<rparr>"

definition parcObject_Descriptor :: "'p types \<Rightarrow> 'p parc_object \<Rightarrow> 'p heap descriptor result" where
  "parcObject_Descriptor T header =
     (case descriptor header of None \<Rightarrow> Inl BadPointer
      | Some d \<Rightarrow> (case T d of None \<Rightarrow> Inl BadPointer | Some D \<Rightarrow> Inr D))"

definition parcObjectHeader_IsValid :: "'p parc_object \<Rightarrow> bool" where
  "parcObjectHeader_IsValid header =
     (if magicGuardNumber header \<noteq> HEADER_MAGIC then False
      else if references header = 0 then False else True)"

definition parcObject_IsValid :: "'p heap \<Rightarrow> ptr \<Rightarrow> bool" where
  "parcObject_IsValid h object =
     (case object of None \<Rightarrow> False
      | Some a \<Rightarrow> (case objects h a of None \<Rightarrow> False
                  | Some header \<Rightarrow> parcObjectHeader_IsValid header))"

definition parcObjectHeader_AssertValid :: "'p types \<Rightarrow> 'p parc_object \<Rightarrow> unit result" where
  "parcObjectHeader_AssertValid T header =
     rbind (trapIf IllegalValue (magicGuardNumber header \<noteq> HEADER_MAGIC)) (\<lambda>_.
     rbind (trapIf IllegalValue (descriptor header = None)) (\<lambda>_.
     rbind (parcObject_Descriptor T header) (\<lambda>D.
     if desc_isLockable D then trapIf IllegalValue (locking header = None) else Inr ())))"

definition parcObject_AssertValid :: "'p types \<Rightarrow> 'p heap \<Rightarrow> ptr \<Rightarrow> unit result" where
  "parcObject_AssertValid T h object =
     rbind (trapIf IllegalValue (object = None)) (\<lambda>_.
     rbind (parcObject_Header h object) (\<lambda>header.
     parcObjectHeader_AssertValid T header))"

definition parcObject_Origin :: "'p heap descriptor \<Rightarrow> addr \<Rightarrow> addr" where
  "parcObject_Origin D a = a - prefixLength D"

section \<open>Creation\<close>

definition parcObject_InitializeLocking :: object_locking where
  "parcObject_InitializeLocking = \<lparr>lock = None, locker = None\<rparr>"

definition parcObjectHeader_InitAllocated ::
  "'p heap descriptor \<Rightarrow> addr \<Rightarrow> 'p \<Rightarrow> 'p parc_object" where
  "parcObjectHeader_InitAllocated D d memory =
     \<lparr>magicGuardNumber = HEADER_MAGIC, isAllocated = True, barrier = False, references = 1,
      descriptor = Some d,
      locking = (if desc_isLockable D then Some parcObject_InitializeLocking else None),
      payload = memory\<rparr>"

definition parcObjectHeader_InitUnallocated ::
  "'p heap descriptor \<Rightarrow> addr \<Rightarrow> 'p \<Rightarrow> 'p parc_object" where
  "parcObjectHeader_InitUnallocated D d memory =
     (parcObjectHeader_InitAllocated D d memory)\<lparr>isAllocated := False\<rparr>"

text \<open>\<open>memory\<close> stands for what the memory of the object holds before its class initialises it.\<close>

definition parcObject_WrapImpl ::
  "'p types \<Rightarrow> 'p heap \<Rightarrow> addr \<Rightarrow> 'p \<Rightarrow> addr \<Rightarrow> (ptr \<times> 'p heap) result" where
  "parcObject_WrapImpl T h origin memory d =
     (case T d of None \<Rightarrow> Inl BadPointer
      | Some D \<Rightarrow>
          let object = origin + prefixLength D
          in Inr (Some object,
               parcObject_SetHeader h object (parcObjectHeader_InitUnallocated D d memory)))"

definition parcObject_CreateInstanceImpl ::
  "'p types \<Rightarrow> 'p heap \<Rightarrow> 'p \<Rightarrow> addr \<Rightarrow> (ptr \<times> 'p heap) result" where
  "parcObject_CreateInstanceImpl T h memory d =
     (case T d of None \<Rightarrow> Inl BadPointer
      | Some D \<Rightarrow>
          let totalMemoryLength = prefixLength D + unat (desc_objectSize D);
              (origin, h') = parcMemory_MemAlign h 8 totalMemoryLength
          in (case origin of None \<Rightarrow> Inr (None, h')
              | Some o' \<Rightarrow>
                  let object = o' + prefixLength D
                  in Inr (Some object,
                       parcObject_SetHeader h' object (parcObjectHeader_InitAllocated D d memory))))"

definition parcObject_CreateAndClearInstanceImpl ::
  "'p types \<Rightarrow> 'p heap \<Rightarrow> 'p \<Rightarrow> addr \<Rightarrow> (ptr \<times> 'p heap) result" where
  "parcObject_CreateAndClearInstanceImpl T h zeroes d =
     rbind (parcObject_CreateInstanceImpl T h zeroes d) (\<lambda>(result, h').
     if result = None then Inl BadPointer else Inr (result, h'))"

definition parcObject_InitInstanceImpl ::
  "'p types \<Rightarrow> 'p heap \<Rightarrow> addr \<Rightarrow> 'p \<Rightarrow> addr \<Rightarrow> 'p heap result" where
  "parcObject_InitInstanceImpl T h object memory d =
     (case T d of None \<Rightarrow> Inl BadPointer
      | Some D \<Rightarrow>
          Inr (parcObject_SetHeader h object (parcObjectHeader_InitUnallocated D d memory)))"

definition parcObject_InitAndClearInstanceImpl ::
  "'p types \<Rightarrow> 'p heap \<Rightarrow> addr \<Rightarrow> 'p \<Rightarrow> 'p \<Rightarrow> addr \<Rightarrow> 'p heap result" where
  "parcObject_InitAndClearInstanceImpl T h object memory zeroes d =
     rbind (parcObject_InitInstanceImpl T h object memory d) (\<lambda>h'.
     rbind (parcObject_Header h' (Some object)) (\<lambda>header.
     Inr (parcObject_SetHeader h' object (header\<lparr>payload := zeroes\<rparr>))))"

section \<open>Reference counting\<close>

definition parcObject_Acquire :: "'p types \<Rightarrow> 'p heap \<Rightarrow> ptr \<Rightarrow> (ptr \<times> 'p heap) result" where
  "parcObject_Acquire T h object =
     rbind (parcObject_AssertValid T h object) (\<lambda>_.
     rbind (parcObject_Header h object) (\<lambda>header.
     Inr (object, parcObject_SetHeader h (the object)
       (header\<lparr>references := snd (parcAtomicUint64_Increment (references header))\<rparr>))))"

definition parcObject_Destructor ::
  "'p heap descriptor option \<Rightarrow> 'p heap \<Rightarrow> addr \<Rightarrow> (bool \<times> ptr \<times> 'p heap) result" where
  "parcObject_Destructor d h object =
     (case d of None \<Rightarrow> Inr (True, Some object, h)
      | Some D \<Rightarrow>
          (case desc_destructor D of
             Some destructor \<Rightarrow> destructor h object
           | None \<Rightarrow>
               (case desc_destroy D of
                  Some destroy \<Rightarrow> rbind (destroy h object) (\<lambda>(p, h'). Inr (True, p, h'))
                | None \<Rightarrow> Inr (True, Some object, h))))"

definition parcObject_Free :: "'p types \<Rightarrow> 'p heap \<Rightarrow> addr \<Rightarrow> 'p heap result" where
  "parcObject_Free T h object =
     rbind (parcObject_Header h (Some object)) (\<lambda>header.
     if isAllocated header then
       rbind (parcObject_Descriptor T header) (\<lambda>D.
       rbind (parcMemory_Deallocate h (parcObject_Origin D object)) (\<lambda>h'.
       Inr (h'\<lparr>objects := (objects h')(object := None)\<rparr>)))
     else Inr h)"

definition parcObject_Release :: "'p types \<Rightarrow> 'p heap \<Rightarrow> ptr \<Rightarrow> (u64 \<times> 'p heap) result" where
  "parcObject_Release T h object =
     rbind (parcObject_AssertValid T h object) (\<lambda>_.
     rbind (parcObject_Header h object) (\<lambda>header.
     rbind (trapIf IllegalValue (references header = 0)) (\<lambda>_.
     let (result, count) = parcAtomicUint64_Decrement (references header);
         h1 = parcObject_SetHeader h (the object) (header\<lparr>references := count\<rparr>)
     in if result = 0 then
          rbind (parcObject_Destructor (T (the (descriptor header))) h1 (the object))
            (\<lambda>(destroyed, pointer, h2).
          if destroyed then
            rbind (parcObject_Free T h2 (the object)) (\<lambda>h3.
            rbind (assertTrue (pointer \<noteq> None)) (\<lambda>_. Inr (result, h3)))
          else rbind (assertTrue (pointer = None)) (\<lambda>_. Inr (result, h2)))
        else Inr (result, h1))))"

definition parcObject_GetReferenceCount :: "'p types \<Rightarrow> 'p heap \<Rightarrow> ptr \<Rightarrow> u64 result" where
  "parcObject_GetReferenceCount T h object =
     rbind (parcObject_AssertValid T h object) (\<lambda>_.
     rbind (parcObject_Header h object) (\<lambda>header. Inr (references header)))"

definition parcObject_GetDescriptor :: "'p types \<Rightarrow> 'p heap \<Rightarrow> ptr \<Rightarrow> ptr result" where
  "parcObject_GetDescriptor T h object =
     rbind (parcObject_AssertValid T h object) (\<lambda>_.
     rbind (parcObject_Header h object) (\<lambda>header. Inr (descriptor header)))"

definition parcObject_SetDescriptor ::
  "'p types \<Rightarrow> 'p heap \<Rightarrow> ptr \<Rightarrow> ptr \<Rightarrow> (ptr \<times> 'p heap) result" where
  "parcObject_SetDescriptor T h object d =
     rbind (parcObject_AssertValid T h object) (\<lambda>_.
     rbind (assertTrue (d \<noteq> None)) (\<lambda>_.
     rbind (parcObject_Header h object) (\<lambda>header.
     Inr (descriptor header,
       parcObject_SetHeader h (the object) (header\<lparr>descriptor := d\<rparr>)))))"

section \<open>Inheritance\<close>

text \<open>
  The loop all the \<open>_parcObject_Resolve...\<close> functions run: climb the chain of super
  descriptors until one has the function. It ends with a bad pointer above the root and does not
  end on a cyclic chain.
\<close>

partial_function (option) resolve_loop ::
  "('p heap descriptor \<Rightarrow> 'f option) \<Rightarrow> 'p types \<Rightarrow> ptr \<Rightarrow> 'f result option" where
  "resolve_loop sel T d =
     (case d of None \<Rightarrow> Some (Inl BadPointer)
      | Some a \<Rightarrow>
          (case T a of None \<Rightarrow> Some (Inl BadPointer)
           | Some D \<Rightarrow>
               (case sel D of Some f \<Rightarrow> Some (Inr f) | None \<Rightarrow> resolve_loop sel T (desc_super D))))"

definition resolved :: "'f result option \<Rightarrow> 'f result" where
  "resolved r = (case r of None \<Rightarrow> Inl Diverges | Some f \<Rightarrow> f)"

definition parcObject_ResolveEquals ::
  "'p types \<Rightarrow> ptr \<Rightarrow> ('p heap \<Rightarrow> addr \<Rightarrow> addr \<Rightarrow> bool result) result" where
  "parcObject_ResolveEquals T d = resolved (resolve_loop desc_equals T d)"

definition parcObject_ResolveCopy ::
  "'p types \<Rightarrow> ptr \<Rightarrow> ('p heap \<Rightarrow> addr \<Rightarrow> (ptr \<times> 'p heap) result) result" where
  "parcObject_ResolveCopy T d = resolved (resolve_loop desc_copy T d)"

definition parcObject_ResolveToString ::
  "'p types \<Rightarrow> ptr \<Rightarrow> ('p heap \<Rightarrow> addr \<Rightarrow> string result) result" where
  "parcObject_ResolveToString T d = resolved (resolve_loop desc_toString T d)"

definition parcObject_ResolveCompare ::
  "'p types \<Rightarrow> ptr \<Rightarrow> ('p heap \<Rightarrow> addr \<Rightarrow> addr \<Rightarrow> int result) result" where
  "parcObject_ResolveCompare T d = resolved (resolve_loop desc_compare T d)"

definition parcObject_ResolveHashCode ::
  "'p types \<Rightarrow> ptr \<Rightarrow> ('p heap \<Rightarrow> addr \<Rightarrow> PARCHashCode result) result" where
  "parcObject_ResolveHashCode T d = resolved (resolve_loop desc_hashCode T d)"

definition parcObject_Compare :: "'p types \<Rightarrow> 'p heap \<Rightarrow> ptr \<Rightarrow> ptr \<Rightarrow> int result" where
  "parcObject_Compare T h x y =
     (if x = None \<or> y = None then
        Inr (if x \<noteq> None then 1 else if y \<noteq> None then -1 else 0)
      else
        rbind (parcObject_AssertValid T h x) (\<lambda>_.
        rbind (parcObject_AssertValid T h y) (\<lambda>_.
        rbind (parcObject_Header h x) (\<lambda>header.
        rbind (parcObject_ResolveCompare T (descriptor header)) (\<lambda>compare.
        compare h (the x) (the y))))))"

definition parcObject_Equals :: "'p types \<Rightarrow> 'p heap \<Rightarrow> ptr \<Rightarrow> ptr \<Rightarrow> bool result" where
  "parcObject_Equals T h x y =
     (if x = y then Inr True
      else if x \<noteq> None \<and> y \<noteq> None then
        rbind (parcObject_Header h x) (\<lambda>xHeader.
        rbind (parcObject_Header h y) (\<lambda>yHeader.
        if descriptor xHeader = descriptor yHeader then
          rbind (parcObject_ResolveEquals T (descriptor xHeader)) (\<lambda>equals.
          equals h (the x) (the y))
        else Inr False))
      else Inr False)"

definition parcObject_HashCode :: "'p types \<Rightarrow> 'p heap \<Rightarrow> ptr \<Rightarrow> PARCHashCode result" where
  "parcObject_HashCode T h object =
     rbind (parcObject_AssertValid T h object) (\<lambda>_.
     rbind (parcObject_Header h object) (\<lambda>header.
     rbind (parcObject_ResolveHashCode T (descriptor header)) (\<lambda>hashCode.
     hashCode h (the object))))"

definition parcObject_ToString :: "'p types \<Rightarrow> 'p heap \<Rightarrow> ptr \<Rightarrow> string result" where
  "parcObject_ToString T h object =
     rbind (parcObject_AssertValid T h object) (\<lambda>_.
     rbind (parcObject_Header h object) (\<lambda>header.
     rbind (parcObject_ResolveToString T (descriptor header)) (\<lambda>toString.
     toString h (the object))))"

definition parcObject_Copy :: "'p types \<Rightarrow> 'p heap \<Rightarrow> ptr \<Rightarrow> (ptr \<times> 'p heap) result" where
  "parcObject_Copy T h object =
     rbind (parcObject_AssertValid T h object) (\<lambda>_.
     rbind (parcObject_Header h object) (\<lambda>header.
     rbind (parcObject_ResolveCopy T (descriptor header)) (\<lambda>copy.
     copy h (the object))))"

text \<open>
  \<open>parcObject_IsInstanceOf\<close> climbs until it meets the descriptor; it has no other way out of its loop.
  The step to the super descriptor is also made after the match.
\<close>

partial_function (option) instance_loop :: "'p types \<Rightarrow> ptr \<Rightarrow> ptr \<Rightarrow> bool result option" where
  "instance_loop T target d =
     (case d of None \<Rightarrow> Some (Inl BadPointer)
      | Some a \<Rightarrow>
          (case T a of None \<Rightarrow> Some (Inl BadPointer)
           | Some D \<Rightarrow>
               if d = target then Some (Inr True) else instance_loop T target (desc_super D)))"

definition parcObject_IsInstanceOf :: "'p types \<Rightarrow> 'p heap \<Rightarrow> ptr \<Rightarrow> ptr \<Rightarrow> bool result" where
  "parcObject_IsInstanceOf T h object target =
     (if object \<noteq> None then
        rbind (parcObject_Header h object) (\<lambda>header.
        if parcObjectHeader_IsValid header
        then resolved (instance_loop T target (descriptor header)) else Inr False)
      else Inr False)"

section \<open>The root class\<close>

text \<open>
  The functions of the \<open>PARCObject\<close> descriptor work on the bytes of the object's data:
  \<open>bytes\<close> gives the memory image of a payload, \<open>toString\<close> stands for the formatted text.
\<close>

definition object_memory ::
  "('p \<Rightarrow> u8 list) \<Rightarrow> 'p types \<Rightarrow> 'p heap \<Rightarrow> addr \<Rightarrow> addr \<Rightarrow> (u8 list \<times> u8 list) result" where
  "object_memory bytes T h x y =
     rbind (parcObject_Header h (Some x)) (\<lambda>header.
     rbind (parcObject_Descriptor T header) (\<lambda>D.
     rbind (parcObject_Header h (Some y)) (\<lambda>other.
     let length = unat (desc_objectSize D)
     in Inr (take length (bytes (payload header)), take length (bytes (payload other))))))"

definition parcObject_Compare_default ::
  "('p \<Rightarrow> u8 list) \<Rightarrow> 'p types \<Rightarrow> 'p heap \<Rightarrow> addr \<Rightarrow> addr \<Rightarrow> int result" where
  "parcObject_Compare_default bytes T h self other =
     rbind (object_memory bytes T h self other) (\<lambda>(xs, ys). Inr (memcmp xs ys))"

definition parcObject_Equals_default ::
  "('p \<Rightarrow> u8 list) \<Rightarrow> 'p types \<Rightarrow> 'p heap \<Rightarrow> addr \<Rightarrow> addr \<Rightarrow> bool result" where
  "parcObject_Equals_default bytes T h x y =
     rbind (object_memory bytes T h x y) (\<lambda>(xs, ys). Inr (memcmp xs ys = 0))"

definition parcObject_HashCode_default ::
  "('p \<Rightarrow> u8 list) \<Rightarrow> 'p types \<Rightarrow> 'p heap \<Rightarrow> addr \<Rightarrow> PARCHashCode result" where
  "parcObject_HashCode_default bytes T h object =
     rbind (object_memory bytes T h object object) (\<lambda>(xs, _). Inr (parcHashCode_Hash xs))"

definition parcObject_Copy_default ::
  "'p types \<Rightarrow> 'p heap \<Rightarrow> addr \<Rightarrow> (ptr \<times> 'p heap) result" where
  "parcObject_Copy_default T h object =
     rbind (parcObject_Header h (Some object)) (\<lambda>header.
     rbind (parcObject_Descriptor T header) (\<lambda>D.
     rbind (parcObject_CreateInstanceImpl T h (payload header) (the (descriptor header)))
       (\<lambda>(result, h').
     if result = None then Inl BadPointer
     else rbind (parcObject_AssertValid T h' result) (\<lambda>_. Inr (result, h')))))"

definition PARCObject_Descriptor ::
  "('p \<Rightarrow> u8 list) \<Rightarrow> ('p heap \<Rightarrow> addr \<Rightarrow> string result) \<Rightarrow> 'p types \<Rightarrow> 'p heap descriptor" where
  "PARCObject_Descriptor bytes toString T =
     \<lparr>desc_name = ''PARCObject'', desc_destroy = None, desc_destructor = None,
      desc_copy = Some (parcObject_Copy_default T),
      desc_toString = Some toString,
      desc_equals = Some (parcObject_Equals_default bytes T),
      desc_compare = Some (parcObject_Compare_default bytes T),
      desc_hashCode = Some (parcObject_HashCode_default bytes T),
      desc_super = None, desc_isLockable = True, desc_objectSize = 0,
      desc_objectAlignment = 8\<rparr>"

section \<open>Descriptors made at run time\<close>

text \<open>\<open>strncpy\<close> into \<open>char name[64]\<close> with the last byte kept zero.\<close>

definition descriptor_name :: "string \<Rightarrow> string" where
  "descriptor_name s = take 63 s"

definition parcObjectDescriptor_Create ::
  "string \<Rightarrow> size_t \<Rightarrow> u32 \<Rightarrow> bool \<Rightarrow> 'p heap descriptor \<Rightarrow> ptr \<Rightarrow> 'p heap \<Rightarrow>
     ('p heap descriptor option \<times> 'p heap) result" where
  "parcObjectDescriptor_Create nm objectSize objectAlignment isLockable functions superType h =
     rbind (assertTrue (superType \<noteq> None)) (\<lambda>_.
     let (ok, h') = parcMemory_AllocateRaw h
     in if ok then
          Inr (Some (functions\<lparr>desc_name := descriptor_name nm, desc_destroy := None,
                 desc_super := superType, desc_isLockable := isLockable,
                 desc_objectSize := objectSize, desc_objectAlignment := objectAlignment\<rparr>), h')
        else Inr (None, h'))"

definition parcObjectDescriptor_CreateExtension ::
  "'p heap descriptor \<Rightarrow> string \<Rightarrow> 'p heap \<Rightarrow> ('p heap descriptor \<times> 'p heap) result" where
  "parcObjectDescriptor_CreateExtension superType nm h =
     (let (ok, h') = parcMemory_AllocateRaw h
      in if ok then Inr (superType\<lparr>desc_name := descriptor_name nm\<rparr>, h') else Inl BadPointer)"

section \<open>Locks\<close>

text \<open>
  The mutex is an error checking one: locking it again or unlocking it without owning it is an
  error. \<open>lock\<close> is its owner, \<open>locker\<close> the thread the object records.
\<close>

definition parcObject_Lock ::
  "'p types \<Rightarrow> thread \<Rightarrow> 'p heap \<Rightarrow> ptr \<Rightarrow> (bool \<times> 'p heap) result" where
  "parcObject_Lock T self h object =
     rbind (parcObject_AssertValid T h object) (\<lambda>_.
     rbind (parcObject_Header h object) (\<lambda>header.
     case locking header of None \<Rightarrow> Inr (False, h)
     | Some l \<Rightarrow>
         rbind (trapIf CannotObtainLock (locker l = Some self)) (\<lambda>_.
         case lock l of
           None \<Rightarrow> Inr (True, parcObject_SetHeader h (the object)
             (header\<lparr>locking := Some (l\<lparr>lock := Some self, locker := Some self\<rparr>)\<rparr>))
         | Some owner \<Rightarrow> if owner = self then Inr (False, h) else Inl Blocks)))"

definition parcObject_TryLock ::
  "'p types \<Rightarrow> thread \<Rightarrow> 'p heap \<Rightarrow> ptr \<Rightarrow> (bool \<times> 'p heap) result" where
  "parcObject_TryLock T self h object =
     (if object = None then Inr (False, h)
      else
        rbind (parcObject_AssertValid T h object) (\<lambda>_.
        rbind (parcObject_Header h object) (\<lambda>header.
        case locking header of None \<Rightarrow> Inr (False, h)
        | Some l \<Rightarrow>
            rbind (trapIf CannotObtainLock (locker l = Some self)) (\<lambda>_.
            if lock l = None then
              Inr (True, parcObject_SetHeader h (the object)
                (header\<lparr>locking := Some (l\<lparr>lock := Some self, locker := Some self\<rparr>)\<rparr>))
            else Inr (False, h)))))"

definition parcObject_Unlock ::
  "'p types \<Rightarrow> thread \<Rightarrow> 'p heap \<Rightarrow> ptr \<Rightarrow> (bool \<times> 'p heap) result" where
  "parcObject_Unlock T self h object =
     rbind (parcObject_AssertValid T h object) (\<lambda>_.
     rbind (parcObject_Header h object) (\<lambda>header.
     if references header > 0 then
       rbind (parcObjectHeader_AssertValid T header) (\<lambda>_.
       case locking header of None \<Rightarrow> Inr (False, h)
       | Some l \<Rightarrow>
           let result = (lock l = Some self);
               l' = (l\<lparr>locker := None, lock := (if result then None else lock l)\<rparr>)
           in rbind (assertTrue result) (\<lambda>_.
              Inr (result, parcObject_SetHeader h (the object) (header\<lparr>locking := Some l'\<rparr>))))
     else Inr (False, h)))"

definition parcObject_IsLocked :: "'p types \<Rightarrow> 'p heap \<Rightarrow> ptr \<Rightarrow> bool result" where
  "parcObject_IsLocked T h object =
     rbind (parcObject_AssertValid T h object) (\<lambda>_.
     rbind (parcObject_Header h object) (\<lambda>header.
     Inr (case locking header of None \<Rightarrow> False | Some l \<Rightarrow> locker l \<noteq> None)))"

text \<open>The barrier: a compare-and-swap that spins while another thread holds it.\<close>

definition parcObject_BarrierSet :: "'p heap \<Rightarrow> ptr \<Rightarrow> (bool \<times> 'p heap) result" where
  "parcObject_BarrierSet h object =
     rbind (parcObject_Header h object) (\<lambda>header.
     if barrier header then Inl Blocks
     else Inr (True, parcObject_SetHeader h (the object) (header\<lparr>barrier := True\<rparr>)))"

definition parcObject_BarrierUnset :: "'p heap \<Rightarrow> ptr \<Rightarrow> (bool \<times> 'p heap) result" where
  "parcObject_BarrierUnset h object =
     rbind (parcObject_Header h object) (\<lambda>header.
     if barrier header
     then Inr (False, parcObject_SetHeader h (the object) (header\<lparr>barrier := False\<rparr>))
     else Inl Blocks)"

section \<open>Validity\<close>

text \<open>What \<open>parcObject_AssertValid\<close> asks of a header.\<close>

definition object_ok :: "'p types \<Rightarrow> 'p parc_object \<Rightarrow> bool" where
  "object_ok T header \<longleftrightarrow>
     magicGuardNumber header = HEADER_MAGIC \<and>
     (case descriptor header of None \<Rightarrow> False
      | Some d \<Rightarrow> (case T d of None \<Rightarrow> False
                  | Some D \<Rightarrow> desc_isLockable D \<longrightarrow> locking header \<noteq> None))"

definition object_at :: "'p types \<Rightarrow> 'p heap \<Rightarrow> addr \<Rightarrow> 'p parc_object \<Rightarrow> bool" where
  "object_at T h a header \<longleftrightarrow> objects h a = Some header \<and> object_ok T header"

named_theorems object_simps

lemma parcObject_Header_simps [object_simps, simp]:
  "parcObject_Header h None = Inl BadPointer"
  "parcObject_Header h (Some a) = Inr header \<longleftrightarrow> objects h a = Some header"
  by (auto simp: parcObject_Header_def split: option.splits)

lemma objects_SetHeader [simp]:
  "objects (parcObject_SetHeader h a header) = (objects h)(a := Some header)"
  by (simp add: parcObject_SetHeader_def)

lemma SetHeader_frame [simp]:
  "blocks (parcObject_SetHeader h a header) = blocks h"
  "brk (parcObject_SetHeader h a header) = brk h"
  "allocCount (parcObject_SetHeader h a header) = allocCount h"
  "allocFails (parcObject_SetHeader h a header) = allocFails h"
  by (simp_all add: parcObject_SetHeader_def)

lemma SetHeader_SetHeader [simp]:
  "parcObject_SetHeader (parcObject_SetHeader h a x) a y = parcObject_SetHeader h a y"
  by (simp add: parcObject_SetHeader_def)

lemma SetHeader_same: "objects h a = Some header \<Longrightarrow> parcObject_SetHeader h a header = h"
  by (simp add: parcObject_SetHeader_def fun_upd_idem)

lemma parcObjectHeader_AssertValid_iff:
  "parcObjectHeader_AssertValid T header = Inr u \<longleftrightarrow> object_ok T header"
  by (auto simp: parcObjectHeader_AssertValid_def object_ok_def parcObject_Descriptor_def
      split: option.splits if_splits)

lemma parcObject_AssertValid_iff:
  "parcObject_AssertValid T h p = Inr u \<longleftrightarrow> (\<exists>a header. p = Some a \<and> object_at T h a header)"
  by (cases p)
    (auto simp: parcObject_AssertValid_def object_at_def parcObjectHeader_AssertValid_iff)

lemma parcObject_AssertValid_ok [simp]:
  "object_at T h a header \<Longrightarrow> parcObject_AssertValid T h (Some a) = Inr ()"
  by (auto simp: parcObject_AssertValid_iff)

lemma parcObject_Header_ok [simp]:
  "object_at T h a header \<Longrightarrow> parcObject_Header h (Some a) = Inr header"
  by (simp add: object_at_def)

lemma object_ok_update [simp]:
  "object_ok T (header\<lparr>references := n\<rparr>) = object_ok T header"
  "object_ok T (header\<lparr>payload := p\<rparr>) = object_ok T header"
  "object_ok T (header\<lparr>barrier := b\<rparr>) = object_ok T header"
  "object_ok T (header\<lparr>isAllocated := b\<rparr>) = object_ok T header"
  by (simp_all add: object_ok_def split: option.splits)

lemma object_at_SetHeader [simp]:
  "object_at T (parcObject_SetHeader h a header) a header' \<longleftrightarrow> header' = header \<and> object_ok T header"
  by (auto simp: object_at_def)

section \<open>The reference counting contract\<close>

datatype ref_op = AcquireRef | ReleaseRef

fun run_refs ::
  "('h \<Rightarrow> 'h result) \<Rightarrow> ('h \<Rightarrow> 'h result) \<Rightarrow> ref_op list \<Rightarrow> 'h \<Rightarrow> 'h result" where
  "run_refs acquire release [] h = Inr h"
| "run_refs acquire release (AcquireRef # ops) h =
     rbind (acquire h) (run_refs acquire release ops)"
| "run_refs acquire release (ReleaseRef # ops) h =
     rbind (release h) (run_refs acquire release ops)"

text \<open>
  The number of references after a sequence, provided the owner of one reference never gives it up
  on the way and the count stays below the limit; \<open>None\<close> otherwise.
\<close>

fun count_refs :: "nat \<Rightarrow> ref_op list \<Rightarrow> nat \<Rightarrow> nat option" where
  "count_refs limit [] n = Some n"
| "count_refs limit (AcquireRef # ops) n =
     (if 0 < n \<and> Suc n < limit then count_refs limit ops (Suc n) else None)"
| "count_refs limit (ReleaseRef # ops) n =
     (if 1 < n then count_refs limit ops (n - 1) else None)"

text \<open>
  What a class that manages reference counts promises: while the object is alive with more than no
  reference, \<open>acquire\<close> adds one, \<open>release\<close> takes one away, and nothing else changes.
\<close>

locale refcounted =
  fixes acquire release :: "'h \<Rightarrow> 'h result"
    and alive :: "'h \<Rightarrow> bool"
    and count :: "'h \<Rightarrow> nat"
    and with_count :: "nat \<Rightarrow> 'h \<Rightarrow> 'h"
    and limit :: nat
  assumes acquire: "alive h \<Longrightarrow> 0 < count h \<Longrightarrow> Suc (count h) < limit \<Longrightarrow>
      acquire h = Inr (with_count (Suc (count h)) h)"
    and release: "alive h \<Longrightarrow> 1 < count h \<Longrightarrow> release h = Inr (with_count (count h - 1) h)"
    and alive_with_count: "alive h \<Longrightarrow> alive (with_count n h)"
    and count_with_count: "alive h \<Longrightarrow> n < limit \<Longrightarrow> count (with_count n h) = n"
    and with_count_twice: "alive h \<Longrightarrow> with_count n (with_count m h) = with_count n h"
    and with_count_same: "alive h \<Longrightarrow> with_count (count h) h = h"
    and count_limit: "alive h \<Longrightarrow> count h < limit"
begin

lemma run:
  "alive h \<Longrightarrow> count_refs limit ops (count h) = Some n \<Longrightarrow>
     run_refs acquire release ops h = Inr (with_count n h)"
proof (induction ops arbitrary: h)
  case Nil
  then show ?case using with_count_same [of h] by simp
next
  case (Cons x ops)
  note [simp] = acquire release alive_with_count count_with_count with_count_twice
  show ?case
  proof (cases x)
    case AcquireRef
    with Cons show ?thesis by (auto split: if_splits)
  next
    case ReleaseRef
    moreover have "count h - 1 < limit" using count_limit [OF Cons.prems(1)] by simp
    ultimately show ?thesis using Cons by (auto split: if_splits)
  qed
qed

end

definition object_count :: "addr \<Rightarrow> 'p heap \<Rightarrow> nat" where
  "object_count a h = (case objects h a of None \<Rightarrow> 0 | Some header \<Rightarrow> unat (references header))"

definition object_with_count :: "addr \<Rightarrow> nat \<Rightarrow> 'p heap \<Rightarrow> 'p heap" where
  "object_with_count a n h =
     (case objects h a of None \<Rightarrow> h
      | Some header \<Rightarrow> parcObject_SetHeader h a (header\<lparr>references := word_of_nat n\<rparr>))"

definition object_alive :: "'p types \<Rightarrow> addr \<Rightarrow> 'p heap \<Rightarrow> bool" where
  "object_alive T a h \<longleftrightarrow> (case objects h a of None \<Rightarrow> False | Some header \<Rightarrow> object_ok T header)"

definition acquire_object :: "'p types \<Rightarrow> addr \<Rightarrow> 'p heap \<Rightarrow> 'p heap result" where
  "acquire_object T a h = rbind (parcObject_Acquire T h (Some a)) (\<lambda>(_, h'). Inr h')"

definition release_object :: "'p types \<Rightarrow> addr \<Rightarrow> 'p heap \<Rightarrow> 'p heap result" where
  "release_object T a h = rbind (parcObject_Release T h (Some a)) (\<lambda>(_, h'). Inr h')"

lemma object_alive_at: "object_alive T a h \<longleftrightarrow> (\<exists>header. object_at T h a header)"
  by (auto simp: object_alive_def object_at_def split: option.splits)

lemma parcObject_Acquire_ok:
  "object_at T h a header \<Longrightarrow>
     parcObject_Acquire T h (Some a) =
       Inr (Some a, parcObject_SetHeader h a (header\<lparr>references := references header + 1\<rparr>))"
  by (simp add: parcObject_Acquire_def parcAtomicUint64_Increment_def parcAtomicUint64_AddImpl_def)

lemma parcObject_Release_shared:
  assumes "object_at T h a header" "1 < unat (references header)"
  shows "parcObject_Release T h (Some a) =
    Inr (references header - 1,
      parcObject_SetHeader h a (header\<lparr>references := references header - 1\<rparr>))"
proof -
  have "references header \<noteq> 0" "references header - 1 \<noteq> 0"
    using assms(2) by (auto simp: unat_eq_zero dest: arg_cong [where f = unat])
  with assms(1) show ?thesis
    by (simp add: parcObject_Release_def parcAtomicUint64_Decrement_def
        parcAtomicUint64_SubtractImpl_def)
qed

interpretation object_refs: refcounted "acquire_object T a" "release_object T a"
  "object_alive T a" "object_count a" "object_with_count a" "2 ^ 64" for T a
proof unfold_locales
  fix h n m
  show "object_alive T a h \<Longrightarrow> 0 < object_count a h \<Longrightarrow> Suc (object_count a h) < 2 ^ 64 \<Longrightarrow>
      acquire_object T a h = Inr (object_with_count a (Suc (object_count a h)) h)"
    by (auto simp: object_alive_at acquire_object_def parcObject_Acquire_ok object_count_def
        object_with_count_def object_at_def add.commute)
  show "object_alive T a h \<Longrightarrow> 1 < object_count a h \<Longrightarrow>
      release_object T a h = Inr (object_with_count a (object_count a h - 1) h)"
    by (auto simp: object_alive_at release_object_def parcObject_Release_shared object_count_def
        object_with_count_def object_at_def of_nat_diff)
  show "object_alive T a h \<Longrightarrow> object_alive T a (object_with_count a n h)"
    by (auto simp: object_alive_def object_with_count_def split: option.splits)
  show "object_alive T a h \<Longrightarrow> n < 2 ^ 64 \<Longrightarrow> object_count a (object_with_count a n h) = n"
    by (auto simp: object_alive_def object_with_count_def object_count_def unat_of_nat
        split: option.splits)
  show "object_alive T a h \<Longrightarrow>
      object_with_count a n (object_with_count a m h) = object_with_count a n h"
    by (auto simp: object_alive_def object_with_count_def split: option.splits)
  show "object_alive T a h \<Longrightarrow> object_with_count a (object_count a h) h = h"
    by (auto simp: object_alive_def object_with_count_def object_count_def SetHeader_same
        split: option.splits)
  show "object_alive T a h \<Longrightarrow> object_count a h < 2 ^ 64"
    using unat_bound [of "references (the (objects h a))"]
    by (auto simp: object_count_def split: option.splits)
qed

section \<open>Life of an object\<close>

text \<open>No object lies above the break, and every live block starts below it.\<close>

definition heap_wf :: "'p heap \<Rightarrow> bool" where
  "heap_wf h \<longleftrightarrow> (\<forall>a. objects h a \<noteq> None \<longrightarrow> a \<le> brk h) \<and> (\<forall>b. blocks h b \<longrightarrow> b < brk h)"

text \<open>The heap a successful creation makes and the address it returns.\<close>

definition new_address :: "'p heap descriptor \<Rightarrow> 'p heap \<Rightarrow> addr" where
  "new_address D h = round_up 8 (brk h) + prefixLength D"

definition heap_with_new ::
  "'p heap descriptor \<Rightarrow> addr \<Rightarrow> 'p \<Rightarrow> 'p heap \<Rightarrow> 'p heap" where
  "heap_with_new D d memory h =
     h\<lparr>objects := (objects h)(new_address D h \<mapsto> parcObjectHeader_InitAllocated D d memory),
       blocks := (blocks h)(round_up 8 (brk h) := True),
       brk := new_address D h + unat (desc_objectSize D),
       allocCount := Suc (allocCount h)\<rparr>"

lemma parcObject_CreateInstanceImpl_ok:
  "T d = Some D \<Longrightarrow> \<not> allocFails h (allocCount h) \<Longrightarrow>
     parcObject_CreateInstanceImpl T h memory d =
       Inr (Some (new_address D h), heap_with_new D d memory h)"
  by (simp add: parcObject_CreateInstanceImpl_def parcMemory_MemAlign_def heap_with_new_def
      new_address_def parcObject_SetHeader_def add.assoc Let_def)

lemma parcObject_CreateInstanceImpl_oom:
  "T d = Some D \<Longrightarrow> allocFails h (allocCount h) \<Longrightarrow>
     parcObject_CreateInstanceImpl T h memory d =
       Inr (None, h\<lparr>allocCount := Suc (allocCount h)\<rparr>)"
  by (simp add: parcObject_CreateInstanceImpl_def parcMemory_MemAlign_def Let_def)

lemma object_ok_Init [simp]:
  "T d = Some D \<Longrightarrow> object_ok T (parcObjectHeader_InitAllocated D d memory)"
  by (simp add: object_ok_def parcObjectHeader_InitAllocated_def)

lemma new_address_fresh:
  assumes "heap_wf h" "0 < prefixLength D"
  shows "objects h (new_address D h) = None" "\<not> blocks h (round_up 8 (brk h))"
proof -
  have le: "brk h \<le> round_up 8 (brk h)" by (simp add: round_up_ge)
  show "objects h (new_address D h) = None"
  proof (rule ccontr)
    assume "objects h (new_address D h) \<noteq> None"
    with assms(1) have "new_address D h \<le> brk h" by (auto simp: heap_wf_def)
    with le assms(2) show False by (simp add: new_address_def)
  qed
  show "\<not> blocks h (round_up 8 (brk h))"
  proof
    assume "blocks h (round_up 8 (brk h))"
    with assms(1) have "round_up 8 (brk h) < brk h" by (auto simp: heap_wf_def)
    with le show False by simp
  qed
qed

lemma heap_wf_new:
  assumes "heap_wf h" "0 < prefixLength D"
  shows "heap_wf (heap_with_new D d memory h)"
proof -
  have le: "brk h \<le> round_up 8 (brk h)" by (simp add: round_up_ge)
  let ?h = "heap_with_new D d memory h"
  have "a \<le> brk ?h" if "objects ?h a \<noteq> None" for a
    using that assms(1) le
    by (fastforce simp: heap_with_new_def new_address_def heap_wf_def split: if_splits)
  moreover have "b < brk ?h" if "blocks ?h b" for b
    using that assms le
    by (fastforce simp: heap_with_new_def new_address_def heap_wf_def split: if_splits)
  ultimately show ?thesis by (auto simp: heap_wf_def)
qed

lemma heap_wf_SetHeader [simp]:
  "objects h a = Some x \<Longrightarrow> heap_wf (parcObject_SetHeader h a header) = heap_wf h"
  by (auto simp: heap_wf_def)

lemma heap_wf_free [simp]:
  "heap_wf h \<Longrightarrow> heap_wf (h\<lparr>blocks := (blocks h)(b := False), objects := (objects h)(a := None)\<rparr>)"
  by (auto simp: heap_wf_def)

text \<open>The last release runs the destructor and frees the block the object was created in.\<close>

lemma parcObject_Release_last:
  assumes "object_at T h a header" "references header = 1"
    and D: "descriptor header = Some d" "T d = Some D"
    and dtor: "parcObject_Destructor (Some D)
      (parcObject_SetHeader h a (header\<lparr>references := 0\<rparr>)) a = Inr (True, Some a, h2)"
    and h2: "objects h2 a = Some header2" "isAllocated header2" "descriptor header2 = Some d"
      "blocks h2 (a - prefixLength D)"
  shows "parcObject_Release T h (Some a) =
    Inr (0, h2\<lparr>blocks := (blocks h2)(a - prefixLength D := False),
      objects := (objects h2)(a := None)\<rparr>)"
proof -
  have "parcObject_Free T h2 a = Inr (h2\<lparr>blocks := (blocks h2)(a - prefixLength D := False),
      objects := (objects h2)(a := None)\<rparr>)"
    using h2 D(2)
    by (simp add: parcObject_Free_def parcObject_Header_def parcObject_Descriptor_def
        parcMemory_Deallocate_def parcObject_Origin_def)
  with assms(1,2) D dtor show ?thesis
    by (simp add: parcObject_Release_def parcAtomicUint64_Decrement_def
        parcAtomicUint64_SubtractImpl_def)
qed

lemma run_refs_append:
  "run_refs acquire release (xs @ ys) h =
     rbind (run_refs acquire release xs h) (run_refs acquire release ys)"
proof (induction xs arbitrary: h)
  case (Cons x xs)
  then have "run_refs acquire release (xs @ ys) =
      (\<lambda>h. rbind (run_refs acquire release xs h) (run_refs acquire release ys))"
    by (intro ext)
  then show ?case by (cases x) (simp_all add: rbind_assoc)
qed simp

lemma count_refs_releases:
  "0 < n \<Longrightarrow> n < limit \<Longrightarrow> count_refs limit (replicate (n - 1) ReleaseRef) n = Some 1"
proof (induction n)
  case (Suc n)
  then show ?case by (cases n) simp_all
qed simp

lemma count_refs_append:
  "count_refs limit (xs @ ys) n = Option.bind (count_refs limit xs n) (count_refs limit ys)"
proof (induction xs arbitrary: n)
  case (Cons x xs)
  then show ?case by (cases x) simp_all
qed simp

lemma count_refs_bounds:
  "count_refs limit ops n = Some m \<Longrightarrow> 0 < n \<Longrightarrow> n < limit \<Longrightarrow> 0 < m \<and> m < limit"
proof (induction ops arbitrary: n)
  case (Cons x ops)
  then show ?case by (cases x) (auto split: if_splits)
qed simp

lemma prefixLength_pow2:
  assumes "k \<le> 31"
  shows "unat (parcObject_PrefixLength (2 ^ k)) = round_up (2 ^ k) 152"
proof -
  have k: "(2::nat) ^ k \<le> 2 ^ 31" using assms by (intro power_increasing) auto
  have u: "unat (2 ^ k :: u32) = 2 ^ k"
    using assms by (intro unat_power_of_two) simp
  have "1 \<le> (2 ^ k :: u32)" using u by (simp add: word_le_nat_alt)
  then have "unat (2 ^ k - 1 :: u32) = 2 ^ k - 1"
    using u by (simp add: unat_diff_le)
  then have "unat (152 + (2 ^ k - 1) :: u32) = 152 + (2 ^ k - 1)"
    using k by (subst unat_add_no_wrap) auto
  then show ?thesis
    using assms by (simp add: parcObject_PrefixLength_def unat_and_minus_power round_up_def)
qed

text \<open>An empty heap whose requests all succeed, and one class with no function of its own.\<close>

definition empty_heap :: "'p heap" where
  "empty_heap = \<lparr>objects = (\<lambda>_. None), blocks = (\<lambda>_. False), brk = 0, allocFails = (\<lambda>_. False),
     allocCount = 0\<rparr>"

definition plain_class :: "ptr \<Rightarrow> 'h descriptor" where
  "plain_class super =
     \<lparr>desc_name = ''Plain'', desc_destroy = None, desc_destructor = None, desc_copy = None,
      desc_toString = None, desc_equals = None, desc_compare = None, desc_hashCode = None,
      desc_super = super, desc_isLockable = True, desc_objectSize = 16,
      desc_objectAlignment = 8\<rparr>"

lemma heap_wf_empty [simp]: "heap_wf empty_heap"
  by (simp add: heap_wf_def empty_heap_def)

lemma empty_heap_allocates [simp]: "\<not> allocFails empty_heap n"
  by (simp add: empty_heap_def)

lemma prefixLength_plain [simp]: "prefixLength (plain_class super) = 152"
  by (simp add: prefixLength_def plain_class_def parcObject_PrefixLength_def)

lemma destructor_plain [simp]:
  "parcObject_Destructor (Some (plain_class super)) h a = Inr (True, Some a, h)"
  by (simp add: parcObject_Destructor_def plain_class_def)

lemma released_completely:
  assumes "heap_wf h" "T d = Some D" "0 < prefixLength D"
    and dtor: "\<forall>h' a. parcObject_Destructor (Some D) h' a = Inr (True, Some a, h')"
  shows "\<exists>h3. release_object T (new_address D h) (heap_with_new D d memory h) = Inr h3 \<and>
    objects h3 = objects h \<and> blocks h3 = blocks h"
proof -
  let ?a = "new_address D h" and ?h1 = "heap_with_new D d memory h"
  let ?o = "parcObjectHeader_InitAllocated D d memory"
  have new: "object_at T ?h1 ?a ?o" "references ?o = 1" "descriptor ?o = Some d" "isAllocated ?o"
    using assms(2) by (simp_all add: object_at_def heap_with_new_def
        parcObjectHeader_InitAllocated_def [of D d memory] object_ok_def)
  have "blocks ?h1 (?a - prefixLength D)"
    by (simp add: heap_with_new_def new_address_def)
  then have "parcObject_Release T ?h1 (Some ?a) =
      Inr (0, (parcObject_SetHeader ?h1 ?a (?o\<lparr>references := 0\<rparr>))
        \<lparr>blocks := (blocks ?h1)(?a - prefixLength D := False),
         objects := (objects (parcObject_SetHeader ?h1 ?a (?o\<lparr>references := 0\<rparr>)))(?a := None)\<rparr>)"
    using new assms(2) dtor
    by (subst parcObject_Release_last [OF new(1,2,3) assms(2),
          where ?h2.0 = "parcObject_SetHeader ?h1 ?a (?o\<lparr>references := 0\<rparr>)"
            and ?header2.0 = "?o\<lparr>references := 0\<rparr>"]) auto
  moreover note fresh = new_address_fresh [OF assms(1,3)]
  ultimately show ?thesis
    by (auto simp: release_object_def heap_with_new_def new_address_def fun_upd_idem)
qed



section \<open>Inheritance, specified\<close>

text \<open>\<open>t\<close> is \<open>d\<close> or one of the descriptors above it.\<close>

inductive ancestor :: "'p types \<Rightarrow> addr \<Rightarrow> addr \<Rightarrow> bool" for T where
  self: "T d = Some D \<Longrightarrow> ancestor T d d"
| above: "T d = Some D \<Longrightarrow> desc_super D = Some s \<Longrightarrow> ancestor T s t \<Longrightarrow> ancestor T d t"

text \<open>The chain of super descriptors ends.\<close>

inductive reaches_root :: "'p types \<Rightarrow> addr \<Rightarrow> bool" for T where
  root: "T d = Some D \<Longrightarrow> desc_super D = None \<Longrightarrow> reaches_root T d"
| up: "T d = Some D \<Longrightarrow> desc_super D = Some s \<Longrightarrow> reaches_root T s \<Longrightarrow> reaches_root T d"

text \<open>\<open>f\<close> is the nearest implementation at or above \<open>d\<close>.\<close>

inductive nearest :: "('p heap descriptor \<Rightarrow> 'f option) \<Rightarrow> 'p types \<Rightarrow> addr \<Rightarrow> 'f \<Rightarrow> bool" for sel T where
  own: "T d = Some D \<Longrightarrow> sel D = Some f \<Longrightarrow> nearest sel T d f"
| inherited: "T d = Some D \<Longrightarrow> sel D = None \<Longrightarrow> desc_super D = Some s \<Longrightarrow> nearest sel T s f \<Longrightarrow>
    nearest sel T d f"

lemma resolve_loop_nearest: "nearest sel T d f \<Longrightarrow> resolve_loop sel T (Some d) = Some (Inr f)"
  by (induction rule: nearest.induct) (subst resolve_loop.simps, simp)+

lemma nearest_exists:
  assumes "reaches_root T d"
    and "\<And>r R. ancestor T d r \<Longrightarrow> T r = Some R \<Longrightarrow> desc_super R = None \<Longrightarrow> sel R \<noteq> None"
  shows "\<exists>f. nearest sel T d f"
  using assms
proof (induction rule: reaches_root.induct)
  case (root d D)
  then show ?case by (meson ancestor.self nearest.own not_None_eq)
next
  case (up d D s)
  show ?case
  proof (cases "sel D")
    case None
    have "\<exists>f. nearest sel T s f"
      using up.prems up.hyps by (intro up.IH) (blast intro: ancestor.above)
    then show ?thesis using None up.hyps by (blast intro: nearest.inherited)
  next
    case (Some f)
    then show ?thesis using up.hyps by (blast intro: nearest.own)
  qed
qed

lemma instance_loop_ancestor:
  "ancestor T d t \<Longrightarrow> instance_loop T (Some t) (Some d) = Some (Inr True)"
  by (induction rule: ancestor.induct) (subst instance_loop.simps, simp)+

lemma instance_loop_other:
  "reaches_root T d \<Longrightarrow> \<not> ancestor T d t \<Longrightarrow> instance_loop T (Some t) (Some d) = Some (Inl BadPointer)"
proof (induction rule: reaches_root.induct)
  case (root d D)
  then have "t \<noteq> d" by (auto intro: ancestor.self)
  with root show ?case
    by (subst instance_loop.simps) (simp add: instance_loop.simps [of _ _ None])
next
  case (up d D s)
  then have "t \<noteq> d" "\<not> ancestor T s t" by (auto intro: ancestor.intros)
  with up show ?case by (subst instance_loop.simps) simp
qed

lemma ancestor_extend:
  "ancestor T x d \<Longrightarrow> T d = Some D \<Longrightarrow> desc_super D = Some s \<Longrightarrow> T s = Some S \<Longrightarrow> ancestor T x s"
  by (induction rule: ancestor.induct) (blast intro: ancestor.intros)+

lemma reaches_root_dom: "reaches_root T d \<Longrightarrow> \<exists>D. T d = Some D"
  by (auto elim: reaches_root.cases)

lemma reaches_root_acyclic:
  "reaches_root T d \<Longrightarrow> T d = Some D \<Longrightarrow> desc_super D = Some s \<Longrightarrow> \<not> ancestor T s d"
proof (induction arbitrary: D s rule: reaches_root.induct)
  case (up d D' s')
  have s: "s = s'" using up by simp
  obtain S where S: "T s' = Some S" using reaches_root_dom [OF up.hyps(3)] by blast
  show ?case
  proof
    assume "ancestor T s d"
    then show False
    proof (cases rule: ancestor.cases)
      case self
      then show False using up s by (auto intro: ancestor.self)
    next
      case (above S' s'')
      then have "ancestor T s'' s'"
        using ancestor_extend [of T s'' d D' s' S] up.hyps S by simp
      then show False using up.IH above s by auto
    qed
  qed
qed simp

lemma ancestor_fresh_table:
  "ancestor (T(e \<mapsto> E)) d t \<Longrightarrow> reaches_root T d \<Longrightarrow> T e = None \<Longrightarrow> ancestor T d t"
proof (induction rule: ancestor.induct)
  case (self d D)
  then show ?case by (auto dest: reaches_root_dom intro: ancestor.self)
next
  case (above d D s t)
  then have "T d = Some D" by (auto dest: reaches_root_dom split: if_splits)
  moreover from this above have "reaches_root T s" by (auto elim: reaches_root.cases)
  ultimately show ?case using above by (auto intro: ancestor.above)
qed

lemma reaches_root_fresh_table:
  "reaches_root T x \<Longrightarrow> T e = None \<Longrightarrow> reaches_root (T(e \<mapsto> E)) x"
proof (induction rule: reaches_root.induct)
  case (root d D)
  then have "(T(e \<mapsto> E)) d = Some D" by auto
  then show ?case using root.hyps(2) by (rule reaches_root.root)
next
  case (up d D s)
  then have "(T(e \<mapsto> E)) d = Some D" by auto
  then show ?case using up.hyps(2) up.IH [OF up.prems] by (rule reaches_root.up)
qed

text \<open>
  Dispatch. In a class hierarchy whose chain ends in a root that has the function
  (as the \<open>PARCObject\<close> descriptor does), resolving \<open>equals\<close> terminates and finds the nearest
  implementation at or above the class of the object, and \<open>parcObject_Equals\<close> of two distinct
  objects of that class is exactly its verdict.
\<close>

theorem parcObject_Equals_dispatch:
  assumes "objects h a = Some x" "objects h b = Some y" "a \<noteq> b"
    and "descriptor x = Some d" "descriptor y = Some d"
    and "reaches_root T d"
    and "\<forall>r R. ancestor T d r \<longrightarrow> T r = Some R \<longrightarrow> desc_super R = None \<longrightarrow> desc_equals R \<noteq> None"
  shows "\<exists>f. nearest desc_equals T d f \<and> parcObject_Equals T h (Some a) (Some b) = f h a b"
proof -
  obtain f where "nearest desc_equals T d f"
    using nearest_exists [OF assms(6)] assms(7) by blast
  with assms(1-5) resolve_loop_nearest [OF this] show ?thesis
    by (auto simp: parcObject_Equals_def parcObject_Header_def parcObject_ResolveEquals_def
        resolved_def)
qed

text \<open>
  \<open>parcObject_IsInstanceOf\<close> finds every class at or above the class of the object. For any other
  class it does not answer \<open>false\<close>, as its documentation says, but follows the null super
  pointer of the root: it never returns \<open>false\<close> for a valid object.
\<close>

theorem parcObject_IsInstanceOf_result:
  assumes "objects h a = Some header" "parcObjectHeader_IsValid header"
    and "descriptor header = Some d" "reaches_root T d"
  shows "parcObject_IsInstanceOf T h (Some a) (Some t) =
    (if ancestor T d t then Inr True else Inl BadPointer)"
  using assms instance_loop_ancestor [of T d t] instance_loop_other [of T d t]
  by (simp add: parcObject_IsInstanceOf_def parcObject_Header_def resolved_def)

text \<open>
  A descriptor made by \<open>parcObjectDescriptor_CreateExtension\<close> from a class \<open>d\<close> copies the super pointer
  of \<open>d\<close> instead of pointing to \<open>d\<close>: the extension is not below the class it extends, and asking whether
  an object of the extension is an instance of \<open>d\<close> follows a null pointer.
\<close>

theorem parcObjectDescriptor_CreateExtension_not_subclass:
  assumes "T d = Some D" "reaches_root T d" "T e = None"
    and "parcObjectDescriptor_CreateExtension D nm h = Inr (E, h')"
    and "objects h1 a = Some header" "parcObjectHeader_IsValid header" "descriptor header = Some e"
  shows "desc_super E = desc_super D \<and> \<not> ancestor (T(e \<mapsto> E)) e d \<and>
    parcObject_IsInstanceOf (T(e \<mapsto> E)) h1 (Some a) (Some d) = Inl BadPointer"
proof -
  let ?T = "T(e \<mapsto> E)"
  have E: "desc_super E = desc_super D"
    using assms(4) by (auto simp: parcObjectDescriptor_CreateExtension_def Let_def split: prod.splits if_splits)
  have ed: "e \<noteq> d" using assms(1,3) by auto
  have no: "\<not> ancestor ?T e d"
  proof
    assume "ancestor ?T e d"
    then have "\<exists>s. desc_super D = Some s \<and> ancestor ?T s d"
      by (cases rule: ancestor.cases) (use ed E in \<open>auto dest: sym\<close>)
    then obtain s where s: "desc_super D = Some s" "ancestor ?T s d" by blast
    have "reaches_root T s" using assms(1,2) s(1) by (auto elim: reaches_root.cases)
    then have "ancestor T s d" using ancestor_fresh_table [OF s(2)] assms(3) by blast
    then show False using reaches_root_acyclic [OF assms(2,1) s(1)] by blast
  qed
  note up = reaches_root_fresh_table [of T _ e E]
  have "reaches_root ?T e"
  proof (cases "desc_super D")
    case None
    then show ?thesis using E by (auto intro: reaches_root.root)
  next
    case (Some s)
    then have "reaches_root T s" using assms(1,2) by (auto elim: reaches_root.cases)
    then show ?thesis using Some E up assms(3) by (auto intro: reaches_root.up)
  qed
  with no instance_loop_other [of ?T e d] assms(5-7) E show ?thesis
    by (simp add: parcObject_IsInstanceOf_def parcObject_Header_def resolved_def)
qed

text \<open>Concrete hierarchies for the witnesses: a root class 1 and a class 2 below it.\<close>

definition example_types :: "unit types" where
  "example_types = [1 \<mapsto> PARCObject_Descriptor (\<lambda>_. []) (\<lambda>_ _. Inr []) Map.empty, 2 \<mapsto> plain_class (Some 1)]"

definition example_object :: "addr \<Rightarrow> unit parc_object" where
  "example_object d = parcObjectHeader_InitAllocated (plain_class None) d ()"

definition example_heap :: "addr \<Rightarrow> unit heap" where
  "example_heap d = empty_heap\<lparr>objects := [10 \<mapsto> example_object d, 20 \<mapsto> example_object d]\<rparr>"

lemma example_root: "reaches_root example_types 1"
  by (rule reaches_root.root [where D = "PARCObject_Descriptor (\<lambda>_. []) (\<lambda>_ _. Inr []) Map.empty"])
    (simp_all add: example_types_def PARCObject_Descriptor_def)

lemma example_sub: "reaches_root example_types 2"
  by (rule reaches_root.up [OF _ _ example_root, where D = "plain_class (Some 1)"])
    (simp_all add: example_types_def plain_class_def)

lemma example_objects [simp]:
  "objects (example_heap d) 10 = Some (example_object d)"
  "objects (example_heap d) 20 = Some (example_object d)"
  "descriptor (example_object d) = Some d"
  "parcObjectHeader_IsValid (example_object d)"
  by (simp_all add: example_heap_def example_object_def parcObjectHeader_InitAllocated_def
      parcObjectHeader_IsValid_def)

lemma example_ancestor: "ancestor example_types d t \<Longrightarrow> d = t \<or> d = 2 \<and> t = 1"
  by (induction rule: ancestor.induct)
    (auto simp: example_types_def PARCObject_Descriptor_def plain_class_def split: if_splits)

theorem parcObject_Equals_dispatch_witness:
  "\<exists>f. nearest desc_equals example_types 2 f \<and>
     parcObject_Equals example_types (example_heap 2) (Some 10) (Some 20) = f (example_heap 2) 10 20"
proof (rule parcObject_Equals_dispatch [of _ _ "example_object 2" _ "example_object 2"])
  show "\<forall>r R. ancestor example_types 2 r \<longrightarrow> example_types r = Some R \<longrightarrow> desc_super R = None \<longrightarrow>
      desc_equals R \<noteq> None"
    by (auto simp: example_types_def PARCObject_Descriptor_def plain_class_def split: if_splits)
qed (simp_all add: example_sub)

theorem parcObject_IsInstanceOf_result_witness:
  "parcObject_IsInstanceOf example_types (example_heap 1) (Some 10) (Some 2) = Inl BadPointer"
  using parcObject_IsInstanceOf_result [of "example_heap 1" 10 "example_object 1" 1 example_types 2]
    example_root example_ancestor [of 1 2] by auto

theorem parcObjectDescriptor_CreateExtension_not_subclass_witness:
  "let E = (plain_class (Some 1))\<lparr>desc_name := ''Extension''\<rparr>
   in desc_super E = Some 1 \<and> \<not> ancestor (example_types(3 \<mapsto> E)) 3 2 \<and>
      parcObject_IsInstanceOf (example_types(3 \<mapsto> E)) (example_heap 3) (Some 10) (Some 2) =
        Inl BadPointer"
  using parcObjectDescriptor_CreateExtension_not_subclass [of example_types 2 "plain_class (Some 1)" 3
      "''Extension''" empty_heap "(plain_class (Some 1))\<lparr>desc_name := ''Extension''\<rparr>"
      "empty_heap\<lparr>allocCount := 1\<rparr>" "example_heap 3" 10 "example_object 3"] example_sub
  by (simp add: example_types_def parcObjectDescriptor_CreateExtension_def descriptor_name_def
      parcMemory_AllocateRaw_def plain_class_def Let_def empty_heap_def)

section \<open>Object layout\<close>

text \<open>
  For every alignment that is a power of two, the prefix is the least multiple of the alignment that
  holds the 152 byte header, computed without overflow. An object made in memory at an
  aligned origin is therefore aligned, its header fits between the origin and the object, and
  \<open>_parcObject_Origin\<close> gives the origin back.
\<close>

theorem parcObject_layout:
  assumes "k \<le> 31" "desc_objectAlignment D = 2 ^ k" "(2 :: nat) ^ k dvd origin"
  shows "prefixLength D = round_up (2 ^ k) 152 \<and> 152 \<le> prefixLength D \<and> prefixLength D < 152 + 2 ^ k \<and>
    2 ^ k dvd origin + prefixLength D \<and> parcObject_Origin D (origin + prefixLength D) = origin"
proof -
  have p: "prefixLength D = round_up (2 ^ k) 152"
    using prefixLength_pow2 [OF assms(1)] assms(2) by (simp add: prefixLength_def)
  then show ?thesis
    using assms(3) round_up_ge [of "2 ^ k" 152] round_up_less [of "2 ^ k" 152]
      round_up_dvd [of "2 ^ k" 152] by (simp add: parcObject_Origin_def)
qed

theorem parcObject_layout_witness:
  "prefixLength ((plain_class None :: unit descriptor)\<lparr>desc_objectAlignment := 2 ^ 6\<rparr>) = 192"
  using parcObject_layout
    [of 6 "(plain_class None :: unit heap descriptor)\<lparr>desc_objectAlignment := 2 ^ 6\<rparr>" 64]
  by (simp add: round_up_def prefixLength_def)

section \<open>Locks as a state machine\<close>

text \<open>The steps threads make on the lock of one object: every lock call that returns.\<close>

inductive lock_step :: "'p types \<Rightarrow> addr \<Rightarrow> 'p heap \<Rightarrow> thread \<Rightarrow> 'p heap \<Rightarrow> bool" for T a where
  lock: "parcObject_Lock T t h (Some a) = Inr (r, h') \<Longrightarrow> lock_step T a h t h'"
| trylock: "parcObject_TryLock T t h (Some a) = Inr (r, h') \<Longrightarrow> lock_step T a h t h'"
| unlock: "parcObject_Unlock T t h (Some a) = Inr (r, h') \<Longrightarrow> lock_step T a h t h'"

inductive lock_reachable :: "'p types \<Rightarrow> addr \<Rightarrow> 'p heap \<Rightarrow> 'p heap \<Rightarrow> bool" for T a h0 where
  start: "lock_reachable T a h0 h0"
| step: "lock_reachable T a h0 h \<Longrightarrow> lock_step T a h t h' \<Longrightarrow> lock_reachable T a h0 h'"

text \<open>The recorded locker is the owner of the mutex.\<close>

definition lock_consistent :: "'p types \<Rightarrow> addr \<Rightarrow> 'p heap \<Rightarrow> bool" where
  "lock_consistent T a h \<longleftrightarrow>
     (\<exists>header l. object_at T h a header \<and> references header > 0 \<and> locking header = Some l \<and>
        locker l = lock l)"

lemma object_ok_locking [simp]: "object_ok T header \<Longrightarrow> object_ok T (header\<lparr>locking := Some l\<rparr>)"
  by (auto simp: object_ok_def split: option.splits)

text \<open>The calls on a consistent lock.\<close>

definition with_lock :: "'p heap \<Rightarrow> addr \<Rightarrow> 'p parc_object \<Rightarrow> thread option \<Rightarrow> 'p heap" where
  "with_lock h a header t =
     parcObject_SetHeader h a (header\<lparr>locking := Some \<lparr>lock = t, locker = t\<rparr>\<rparr>)"

lemma lock_calls:
  assumes "object_at T h a header" "references header > 0" "locking header = Some l" "locker l = lock l"
  shows "parcObject_Lock T t h (Some a) =
      (case lock l of None \<Rightarrow> Inr (True, with_lock h a header (Some t))
       | Some w \<Rightarrow> if w = t then Inl CannotObtainLock else Inl Blocks)"
    and "parcObject_TryLock T t h (Some a) =
      (case lock l of None \<Rightarrow> Inr (True, with_lock h a header (Some t))
       | Some w \<Rightarrow> if w = t then Inl CannotObtainLock else Inr (False, h))"
    and "parcObject_Unlock T t h (Some a) =
      (if lock l = Some t then Inr (True, with_lock h a header None) else Inl AssertFailed)"
    and "parcObject_IsLocked T h (Some a) = Inr (lock l \<noteq> None)"
proof -
  have valid: "parcObjectHeader_AssertValid T header = Inr ()"
    using assms(1) by (simp add: parcObjectHeader_AssertValid_iff object_at_def)
  show "parcObject_Lock T t h (Some a) =
      (case lock l of None \<Rightarrow> Inr (True, with_lock h a header (Some t))
       | Some w \<Rightarrow> if w = t then Inl CannotObtainLock else Inl Blocks)"
    using assms by (cases l) (simp add: parcObject_Lock_def with_lock_def split: option.splits)
  show "parcObject_TryLock T t h (Some a) =
      (case lock l of None \<Rightarrow> Inr (True, with_lock h a header (Some t))
       | Some w \<Rightarrow> if w = t then Inl CannotObtainLock else Inr (False, h))"
    using assms by (cases l) (simp add: parcObject_TryLock_def with_lock_def split: option.splits)
  show "parcObject_Unlock T t h (Some a) =
      (if lock l = Some t then Inr (True, with_lock h a header None) else Inl AssertFailed)"
    using assms valid by (cases l) (simp add: parcObject_Unlock_def with_lock_def Let_def)
  show "parcObject_IsLocked T h (Some a) = Inr (lock l \<noteq> None)"
    using assms by (simp add: parcObject_IsLocked_def)
qed

lemma with_lock_consistent:
  "object_at T h a header \<Longrightarrow> references header > 0 \<Longrightarrow> lock_consistent T a (with_lock h a header t)"
  by (auto simp: lock_consistent_def with_lock_def object_at_def)

lemma lock_step_consistent:
  assumes "lock_step T a h t h'" "lock_consistent T a h"
  shows "lock_consistent T a h'"
proof -
  obtain header l where c: "object_at T h a header" "references header > 0"
      "locking header = Some l" "locker l = lock l"
    using assms(2) by (auto simp: lock_consistent_def)
  have "h' = h \<or> (\<exists>w. h' = with_lock h a header w)"
    using assms(1) by cases (auto simp: lock_calls [OF c] split: option.splits if_splits)
  then show ?thesis
    using assms(2) with_lock_consistent [OF c(1,2)] by auto
qed

lemma lock_reachable_consistent:
  "lock_reachable T a h0 h \<Longrightarrow> lock_consistent T a h0 \<Longrightarrow> lock_consistent T a h"
  by (induction rule: lock_reachable.induct) (auto intro: lock_step_consistent)



end
