(* ===== verification/Parc_ByteArray.thy ===== *)
theory Parc_ByteArray
  imports Parc_Object
begin

text \<open>
  \<^verbatim>\<open>parc/algol/parc_ByteArray.c\<close>, the fixed length byte arrays below every buffer, and the heap they
  live in. The objects of this heap are byte arrays, buffers, buffer composers and bit vectors; the
  structs are declared here because they share the heap. A byte array holds its memory as a list;
  wrapped memory is taken to be used through the byte array only.
\<close>

section \<open>The byte heap\<close>

record parc_byte_array =
  ba_array :: "u8 list option"
  ba_length :: size_t
  ba_freeFunction :: bool

text \<open>\<open>struct parc_buffer\<close> of \<^verbatim>\<open>parc_Buffer.c\<close>.\<close>

record parc_buffer =
  array :: ptr
  capacity :: size_t
  arrayOffset :: size_t
  position :: size_t
  limit :: size_t
  mark :: size_t

text \<open>\<open>struct parc_buffer_composer\<close> of \<^verbatim>\<open>parc_BufferComposer.c\<close>.\<close>

record parc_buffer_composer =
  incrementHeuristic :: size_t
  buffer :: ptr

text \<open>\<open>struct PARCBitVector\<close> of \<^verbatim>\<open>parc_BitVector.c\<close>.\<close>

record parc_bit_vector =
  bitLength :: u32
  numberOfBitsSet :: u32
  firstBitSet :: u32
  bitArray :: "u8 list"
  fillValue :: c_int

datatype content =
    ByteArrayContent parc_byte_array
  | BufferContent parc_buffer
  | ComposerContent parc_buffer_composer
  | BitVectorContent parc_bit_vector

type_synonym memory = "content heap"

text \<open>The addresses of the static descriptors.\<close>

definition PARCByteArray_class :: addr where "PARCByteArray_class = 1"
definition PARCBuffer_class :: addr where "PARCBuffer_class = 2"
definition PARCBufferComposer_class :: addr where "PARCBufferComposer_class = 3"
definition PARCBitVector_class :: addr where "PARCBitVector_class = 4"

text \<open>\<open>instance->field\<close> and \<open>instance->field = value\<close> for byte arrays.\<close>

definition byteArray :: "memory \<Rightarrow> ptr \<Rightarrow> parc_byte_array result" where
  "byteArray h p =
     rbind (parcObject_Header h p) (\<lambda>header.
     case payload header of ByteArrayContent b \<Rightarrow> Inr b | _ \<Rightarrow> Inl BadPointer)"

definition setContent :: "memory \<Rightarrow> ptr \<Rightarrow> content \<Rightarrow> memory" where
  "setContent h p c =
     (case p of None \<Rightarrow> h
      | Some a \<Rightarrow> (case objects h a of None \<Rightarrow> h
                  | Some header \<Rightarrow> parcObject_SetHeader h a (header\<lparr>payload := c\<rparr>)))"

definition ba_bytes :: "parc_byte_array \<Rightarrow> u8 list" where
  "ba_bytes b = (case ba_array b of None \<Rightarrow> [] | Some bytes \<Rightarrow> bytes)"

section \<open>Operations\<close>

definition parcByteArray_trapIfOutOfBounds :: "parc_byte_array \<Rightarrow> size_t \<Rightarrow> unit result" where
  "parcByteArray_trapIfOutOfBounds b index = trapIf OutOfBounds (index \<ge> ba_length b)"

definition parcByteArray_Destructor :: "memory \<Rightarrow> addr \<Rightarrow> (bool \<times> ptr \<times> memory) result" where
  "parcByteArray_Destructor h a =
     rbind (byteArray h (Some a)) (\<lambda>b.
     Inr (True, Some a,
       if ba_freeFunction b \<and> ba_array b \<noteq> None
       then setContent h (Some a) (ByteArrayContent (b\<lparr>ba_array := None\<rparr>)) else h))"

text \<open>
  The part of the descriptor that creation and release look at; the functions that dispatch are
  added below, once they are defined.
\<close>

definition PARCByteArray_base :: "memory descriptor" where
  "PARCByteArray_base =
     \<lparr>desc_name = ''PARCByteArray'', desc_destroy = None,
      desc_destructor = Some parcByteArray_Destructor, desc_copy = None, desc_toString = None,
      desc_equals = None, desc_compare = None, desc_hashCode = None, desc_super = None,
      desc_isLockable = True, desc_objectSize = 24, desc_objectAlignment = 8\<rparr>"

definition byteArray_types :: "content types" where
  "byteArray_types = [PARCByteArray_class \<mapsto> PARCByteArray_base]"

definition parcByteArray_IsValid :: "memory \<Rightarrow> ptr \<Rightarrow> bool result" where
  "parcByteArray_IsValid h p =
     (if p = None then Inr False
      else rbind (byteArray h p) (\<lambda>b. Inr (ba_length b = 0 \<or> ba_array b \<noteq> None)))"

definition parcByteArray_AssertValid :: "memory \<Rightarrow> ptr \<Rightarrow> unit result" where
  "parcByteArray_AssertValid h p =
     rbind (parcByteArray_IsValid h p) (\<lambda>valid. trapIf InvalidValue (\<not> valid))"

text \<open>\<open>garbage\<close> is what a new instance holds before its fields are assigned.\<close>

definition garbage :: content where
  "garbage = ByteArrayContent \<lparr>ba_array = None, ba_length = 0, ba_freeFunction = False\<rparr>"

definition parcByteArray_New ::
  "memory \<Rightarrow> u8 list option \<Rightarrow> size_t \<Rightarrow> bool \<Rightarrow> (ptr \<times> memory) result" where
  "parcByteArray_New h bytes n freeFunction =
     rbind (parcObject_CreateInstanceImpl byteArray_types h garbage PARCByteArray_class)
       (\<lambda>(result, h').
     Inr (result, setContent h' result
       (ByteArrayContent \<lparr>ba_array = bytes, ba_length = n, ba_freeFunction = freeFunction\<rparr>)))"

definition parcByteArray_Allocate :: "memory \<Rightarrow> size_t \<Rightarrow> (ptr \<times> memory) result" where
  "parcByteArray_Allocate h n =
     (if n > 0 then
        let (ok, h') = parcMemory_AllocateRaw h
        in if ok then parcByteArray_New h' (Some (replicate (unat n) 0)) n True
           else Inr (None, h')
      else parcByteArray_New h None n True)"

definition parcByteArray_Wrap :: "memory \<Rightarrow> size_t \<Rightarrow> u8 list option \<Rightarrow> (ptr \<times> memory) result" where
  "parcByteArray_Wrap h n bytes =
     (if bytes \<noteq> None then parcByteArray_New h bytes n False else Inr (None, h))"

definition parcByteArray_Acquire :: "memory \<Rightarrow> ptr \<Rightarrow> (ptr \<times> memory) result" where
  "parcByteArray_Acquire h p = parcObject_Acquire byteArray_types h p"

definition parcByteArray_Release :: "memory \<Rightarrow> ptr \<Rightarrow> (u64 \<times> memory) result" where
  "parcByteArray_Release h p = parcObject_Release byteArray_types h p"

text \<open>
  \<open>memcpy\<close> out of and into the array of an instance: undefined unless all bytes lie inside.
\<close>

definition ba_read :: "parc_byte_array \<Rightarrow> size_t \<Rightarrow> size_t \<Rightarrow> u8 list result" where
  "ba_read b offset n =
     (if n = 0 then Inr []
      else if unat offset + unat n \<le> length (ba_bytes b)
      then Inr (bytes_at (unat offset) (unat n) (ba_bytes b)) else Inl Undefined)"

definition ba_write ::
  "memory \<Rightarrow> ptr \<Rightarrow> parc_byte_array \<Rightarrow> size_t \<Rightarrow> u8 list \<Rightarrow> memory result" where
  "ba_write h p b offset src =
     (if src = [] then Inr h
      else if unat offset + length src \<le> length (ba_bytes b)
      then Inr (setContent h p (ByteArrayContent
             (b\<lparr>ba_array := Some (put_bytes (unat offset) src (ba_bytes b))\<rparr>)))
      else Inl Undefined)"

definition parcByteArray_Copy :: "memory \<Rightarrow> ptr \<Rightarrow> (ptr \<times> memory) result" where
  "parcByteArray_Copy h original =
     rbind (parcByteArray_AssertValid h original) (\<lambda>_.
     rbind (byteArray h original) (\<lambda>b.
     rbind (parcByteArray_Allocate h (ba_length b)) (\<lambda>(result, h').
     rbind (byteArray h' result) (\<lambda>b'.
     rbind (ba_read b 0 (ba_length b')) (\<lambda>bytes.
     rbind (ba_write h' result b' 0 bytes) (\<lambda>h''. Inr (result, h'')))))))"

definition parcByteArray_Capacity :: "memory \<Rightarrow> ptr \<Rightarrow> size_t result" where
  "parcByteArray_Capacity h p =
     rbind (parcByteArray_AssertValid h p) (\<lambda>_.
     rbind (byteArray h p) (\<lambda>b. Inr (ba_length b)))"

definition parcByteArray_PutByte :: "memory \<Rightarrow> ptr \<Rightarrow> size_t \<Rightarrow> u8 \<Rightarrow> memory result" where
  "parcByteArray_PutByte h p index byte =
     rbind (parcByteArray_AssertValid h p) (\<lambda>_.
     rbind (byteArray h p) (\<lambda>b.
     rbind (parcByteArray_trapIfOutOfBounds b index) (\<lambda>_.
     ba_write h p b index [byte])))"

definition parcByteArray_GetByte :: "memory \<Rightarrow> ptr \<Rightarrow> size_t \<Rightarrow> u8 result" where
  "parcByteArray_GetByte h p index =
     rbind (parcByteArray_AssertValid h p) (\<lambda>_.
     rbind (byteArray h p) (\<lambda>b.
     rbind (parcByteArray_trapIfOutOfBounds b index) (\<lambda>_.
     rbind (ba_read b index 1) (\<lambda>bytes. Inr (hd bytes)))))"

text \<open>\<open>&array->array[index]\<close>: the memory from the index on.\<close>

definition parcByteArray_AddressOfIndex :: "memory \<Rightarrow> ptr \<Rightarrow> size_t \<Rightarrow> u8 list result" where
  "parcByteArray_AddressOfIndex h p index =
     rbind (parcByteArray_AssertValid h p) (\<lambda>_.
     rbind (byteArray h p) (\<lambda>b.
     rbind (parcByteArray_trapIfOutOfBounds b index) (\<lambda>_.
     Inr (drop (unat index) (ba_bytes b)))))"

definition parcByteArray_Array :: "memory \<Rightarrow> ptr \<Rightarrow> u8 list result" where
  "parcByteArray_Array h p =
     rbind (parcByteArray_AssertValid h p) (\<lambda>_.
     rbind (byteArray h p) (\<lambda>b. Inr (ba_bytes b)))"

definition parcByteArray_Compare :: "memory \<Rightarrow> ptr \<Rightarrow> ptr \<Rightarrow> int result" where
  "parcByteArray_Compare h x y =
     (if x = y then Inr 0
      else if x = None then Inr (-1)
      else if y = None then Inr 1
      else
        rbind (parcByteArray_Capacity h x) (\<lambda>n.
        rbind (parcByteArray_Capacity h y) (\<lambda>m.
        if n > m then Inr 1
        else if n < m then Inr (-1)
        else
          rbind (byteArray h x) (\<lambda>bx.
          rbind (byteArray h y) (\<lambda>by'.
          rbind (ba_read bx 0 n) (\<lambda>xs.
          rbind (ba_read by' 0 n) (\<lambda>ys. Inr (memcmp xs ys))))))))"

definition parcByteArray_PutBytes ::
  "memory \<Rightarrow> ptr \<Rightarrow> size_t \<Rightarrow> size_t \<Rightarrow> u8 list \<Rightarrow> memory result" where
  "parcByteArray_PutBytes h p offset n source =
     rbind (parcByteArray_AssertValid h p) (\<lambda>_.
     rbind (byteArray h p) (\<lambda>b.
     rbind (trapIf OutOfBounds (offset > ba_length b)) (\<lambda>_.
     let available = ba_length b - offset
     in rbind (trapIf OutOfBounds (n > available)) (\<lambda>_.
        ba_write h p b offset (take (unat n) source)))))"

definition parcByteArray_GetBytes ::
  "memory \<Rightarrow> ptr \<Rightarrow> size_t \<Rightarrow> size_t \<Rightarrow> u8 list result" where
  "parcByteArray_GetBytes h p offset n =
     rbind (parcByteArray_AssertValid h p) (\<lambda>_.
     rbind (byteArray h p) (\<lambda>b.
     let available = ba_length b - offset
     in rbind (trapIf OutOfBounds (n > available)) (\<lambda>_. ba_read b offset n)))"

definition parcByteArray_ArrayCopy ::
  "memory \<Rightarrow> ptr \<Rightarrow> size_t \<Rightarrow> ptr \<Rightarrow> size_t \<Rightarrow> size_t \<Rightarrow> memory result" where
  "parcByteArray_ArrayCopy h destination destOffset source srcOffset n =
     rbind (parcByteArray_AssertValid h destination) (\<lambda>_.
     rbind (parcByteArray_AssertValid h source) (\<lambda>_.
     rbind (byteArray h destination) (\<lambda>d.
     rbind (byteArray h source) (\<lambda>s.
     rbind (ba_read s srcOffset n) (\<lambda>bytes.
     rbind (trapIf Undefined
       (destination = source \<and> n \<noteq> 0 \<and> unat destOffset < unat srcOffset + unat n \<and>
          unat srcOffset < unat destOffset + unat n)) (\<lambda>_.
     ba_write h destination d destOffset bytes))))))"

definition parcByteArray_Equals :: "memory \<Rightarrow> ptr \<Rightarrow> ptr \<Rightarrow> bool result" where
  "parcByteArray_Equals h x y =
     (if x = y then Inr True
      else if x = None \<or> y = None then Inr False
      else
        rbind (byteArray h x) (\<lambda>a.
        rbind (byteArray h y) (\<lambda>b.
        if ba_length a = ba_length b then
          rbind (ba_read a 0 (ba_length a)) (\<lambda>xs.
          rbind (ba_read b 0 (ba_length a)) (\<lambda>ys. Inr (memcmp xs ys = 0)))
        else Inr False)))"

definition parcByteArray_HashCode :: "memory \<Rightarrow> ptr \<Rightarrow> PARCHashCode result" where
  "parcByteArray_HashCode h p =
     rbind (parcByteArray_AssertValid h p) (\<lambda>_.
     rbind (byteArray h p) (\<lambda>b.
     rbind (ba_read b 0 (ba_length b)) (\<lambda>bytes. Inr (parcHashCode_Hash bytes))))"

text \<open>The descriptor of \<open>parcObject_Override(PARCByteArray, PARCObject, ...)\<close>.\<close>

definition PARCByteArray_Descriptor :: "memory descriptor" where
  "PARCByteArray_Descriptor = PARCByteArray_base
     \<lparr>desc_copy := Some (\<lambda>h a. parcByteArray_Copy h (Some a)),
      desc_equals := Some (\<lambda>h a b. parcByteArray_Equals h (Some a) (Some b)),
      desc_compare := Some (\<lambda>h a b. parcByteArray_Compare h (Some a) (Some b)),
      desc_hashCode := Some (\<lambda>h a. parcByteArray_HashCode h (Some a))\<rparr>"

section \<open>Well-formed byte arrays\<close>

definition byte_array_wf :: "parc_byte_array \<Rightarrow> bool" where
  "byte_array_wf b \<longleftrightarrow> length (ba_bytes b) = unat (ba_length b)"

text \<open>A live byte array object with its content.\<close>

definition is_byte_array :: "content parc_object \<Rightarrow> parc_byte_array \<Rightarrow> bool" where
  "is_byte_array header b \<longleftrightarrow>
     magicGuardNumber header = HEADER_MAGIC \<and> references header \<noteq> 0 \<and>
     descriptor header = Some PARCByteArray_class \<and> locking header \<noteq> None \<and> isAllocated header \<and>
     payload header = ByteArrayContent b \<and> byte_array_wf b"

definition byte_array_at :: "memory \<Rightarrow> addr \<Rightarrow> parc_byte_array \<Rightarrow> bool" where
  "byte_array_at h a b \<longleftrightarrow>
     (case objects h a of None \<Rightarrow> False | Some header \<Rightarrow> is_byte_array header b)"

named_theorems ba_simps

lemma byte_array_atE:
  assumes "byte_array_at h a b"
  obtains header where "objects h a = Some header" "is_byte_array header b"
  using assms by (auto simp: byte_array_at_def split: option.splits)

lemma byte_array_at_unique: "byte_array_at h a b \<Longrightarrow> byte_array_at h a b' \<Longrightarrow> b = b'"
  by (auto simp: byte_array_at_def is_byte_array_def split: option.splits)

lemma byte_array_at_wf: "byte_array_at h a b \<Longrightarrow> length (ba_bytes b) = unat (ba_length b)"
  by (auto simp: byte_array_at_def is_byte_array_def byte_array_wf_def split: option.splits)

lemma byteArray_ok [simp]: "byte_array_at h a b \<Longrightarrow> byteArray h (Some a) = Inr b"
  by (auto simp: byteArray_def parcObject_Header_def byte_array_at_def is_byte_array_def
      split: option.splits)

lemma parcByteArray_AssertValid_ok [simp]:
  assumes "byte_array_at h a b"
  shows "parcByteArray_AssertValid h (Some a) = Inr ()"
proof -
  have "ba_length b = 0 \<or> ba_array b \<noteq> None"
    using byte_array_at_wf [OF assms] by (auto simp: ba_bytes_def unat_eq_zero split: option.splits)
  with assms show ?thesis
    by (simp add: parcByteArray_AssertValid_def parcByteArray_IsValid_def)
qed

lemma parcByteArray_Capacity_ok [simp]:
  "byte_array_at h a b \<Longrightarrow> parcByteArray_Capacity h (Some a) = Inr (ba_length b)"
  by (simp add: parcByteArray_Capacity_def)

lemma setContent_objects:
  "objects h a = Some header \<Longrightarrow>
     objects (setContent h (Some a) c) = (objects h)(a := Some (header\<lparr>payload := c\<rparr>))"
  by (simp add: setContent_def)

lemma setContent_frame [simp]:
  "blocks (setContent h p c) = blocks h" "brk (setContent h p c) = brk h"
  "allocCount (setContent h p c) = allocCount h" "allocFails (setContent h p c) = allocFails h"
  by (simp_all add: setContent_def split: option.splits)

lemma setContent_other [simp]:
  "x \<noteq> a \<Longrightarrow> objects (setContent h (Some a) c) x = objects h x"
  by (simp add: setContent_def split: option.splits)

lemma heap_wf_setContent [simp]: "heap_wf (setContent h p c) = heap_wf h"
  by (simp add: setContent_def split: option.splits)

lemma byte_array_at_set [simp]:
  "byte_array_at h a b \<Longrightarrow>
     byte_array_at (setContent h (Some a) (ByteArrayContent b')) a b'' \<longleftrightarrow> b'' = b' \<and> byte_array_wf b'"
  by (auto simp: byte_array_at_def is_byte_array_def setContent_def split: option.splits)

lemma byte_array_at_other [simp]:
  "x \<noteq> a \<Longrightarrow> byte_array_at (setContent h (Some a) c) x b = byte_array_at h x b"
  by (simp add: byte_array_at_def)

lemma ba_read_ok:
  "unat offset + unat n \<le> length (ba_bytes b) \<Longrightarrow>
     ba_read b offset n = Inr (bytes_at (unat offset) (unat n) (ba_bytes b))"
  by (simp add: ba_read_def)

text \<open>The byte array after a write, and the effect of the write on the heap.\<close>

definition ba_put :: "size_t \<Rightarrow> u8 list \<Rightarrow> parc_byte_array \<Rightarrow> parc_byte_array" where
  "ba_put offset src b =
     (if src = [] then b
      else b\<lparr>ba_array := Some (put_bytes (unat offset) src (ba_bytes b))\<rparr>)"

lemma ba_bytes_put [simp]: "ba_bytes (ba_put offset src b) = put_bytes (unat offset) src (ba_bytes b)"
  by (simp add: ba_put_def ba_bytes_def)

lemma ba_length_put [simp]: "ba_length (ba_put offset src b) = ba_length b"
  by (simp add: ba_put_def)

lemma byte_array_wf_put [simp]:
  "byte_array_wf b \<Longrightarrow> unat offset + length src \<le> length (ba_bytes b) \<Longrightarrow>
     byte_array_wf (ba_put offset src b)"
  by (simp add: byte_array_wf_def)

lemma setContent_same:
  "byte_array_at h a b \<Longrightarrow> setContent h (Some a) (ByteArrayContent b) = h"
  by (auto simp: byte_array_at_def is_byte_array_def setContent_def parcObject_SetHeader_def
      fun_upd_idem split: option.splits)

lemma ba_write_ok:
  "byte_array_at h a b \<Longrightarrow> unat offset + length src \<le> length (ba_bytes b) \<Longrightarrow>
     ba_write h (Some a) b offset src =
       Inr (setContent h (Some a) (ByteArrayContent (ba_put offset src b)))"
  by (simp add: ba_write_def ba_put_def setContent_same)

lemma parcByteArray_GetByte_ok:
  assumes "byte_array_at h a b"
  shows "parcByteArray_GetByte h (Some a) index =
    (if index < ba_length b then Inr (ba_bytes b ! unat index) else Inl OutOfBounds)"
proof (cases "index < ba_length b")
  case True
  then have "unat index < length (ba_bytes b)"
    using byte_array_at_wf [OF assms] by (simp add: word_less_nat_alt)
  then have "ba_read b index 1 = Inr [ba_bytes b ! unat index]"
    by (simp add: ba_read_ok bytes_at_Suc)
  with assms True show ?thesis
    by (simp add: parcByteArray_GetByte_def parcByteArray_trapIfOutOfBounds_def)
next
  case False
  with assms show ?thesis
    by (simp add: parcByteArray_GetByte_def parcByteArray_trapIfOutOfBounds_def not_less)
qed

lemma parcByteArray_PutByte_ok:
  assumes "byte_array_at h a b"
  shows "parcByteArray_PutByte h (Some a) index byte =
    (if index < ba_length b
     then Inr (setContent h (Some a) (ByteArrayContent (ba_put index [byte] b)))
     else Inl OutOfBounds)"
proof (cases "index < ba_length b")
  case True
  then have "unat index + length [byte] \<le> length (ba_bytes b)"
    using byte_array_at_wf [OF assms] by (simp add: word_less_nat_alt)
  with True assms show ?thesis
    by (simp add: parcByteArray_PutByte_def parcByteArray_trapIfOutOfBounds_def ba_write_ok)
next
  case False
  with assms show ?thesis
    by (simp add: parcByteArray_PutByte_def parcByteArray_trapIfOutOfBounds_def not_less)
qed

lemma parcByteArray_PutBytes_ok:
  assumes "byte_array_at h a b" "length source = unat n"
  shows "parcByteArray_PutBytes h (Some a) offset n source =
    (if unat offset + unat n \<le> unat (ba_length b)
     then Inr (setContent h (Some a) (ByteArrayContent (ba_put offset source b)))
     else Inl OutOfBounds)"
proof (cases "offset \<le> ba_length b")
  case True
  then have "n \<le> ba_length b - offset \<longleftrightarrow> unat offset + unat n \<le> unat (ba_length b)"
    by (auto simp: word_le_nat_alt unat_diff_le)
  with True assms byte_array_at_wf [OF assms(1)] show ?thesis
    by (auto simp: parcByteArray_PutBytes_def Let_def ba_write_ok not_less trapIf_def)
next
  case False
  then have "ba_length b < offset" "\<not> unat offset + unat n \<le> unat (ba_length b)"
    by (simp_all add: word_less_nat_alt word_le_nat_alt)
  with assms show ?thesis
    by (simp add: parcByteArray_PutBytes_def)
qed

lemma parcByteArray_PutBytes_take:
  "parcByteArray_PutBytes h p offset n source = parcByteArray_PutBytes h p offset n (take (unat n) source)"
  by (simp add: parcByteArray_PutBytes_def)

section \<open>Creation and release\<close>

text \<open>\<open>h'\<close> is \<open>h\<close> with one more object, in a block of its own.\<close>

definition added :: "'p heap \<Rightarrow> addr \<Rightarrow> 'p parc_object \<Rightarrow> 'p heap \<Rightarrow> bool" where
  "added h a header h' \<longleftrightarrow>
     objects h a = None \<and> \<not> blocks h (a - 152) \<and> heap_wf h' \<and>
     objects h' = (objects h)(a \<mapsto> header) \<and> blocks h' = (blocks h)(a - 152 := True) \<and>
     allocFails h' = allocFails h"

text \<open>The objects and blocks of two heaps agree.\<close>

definition same_objects :: "'p heap \<Rightarrow> 'p heap \<Rightarrow> bool" where
  "same_objects h h' \<longleftrightarrow> objects h' = objects h \<and> blocks h' = blocks h"

lemma same_objects_refl [simp]: "same_objects h h"
  by (simp add: same_objects_def)

lemma same_objects_allocCount [simp]: "same_objects h (h\<lparr>allocCount := n\<rparr>)"
  by (simp add: same_objects_def)

lemma same_objects_trans [trans]:
  "same_objects h1 h2 \<Longrightarrow> same_objects h2 h3 \<Longrightarrow> same_objects h1 h3"
  by (simp add: same_objects_def)

lemma heap_wf_allocCount [simp]: "heap_wf (h\<lparr>allocCount := n\<rparr>) = heap_wf h"
  by (simp add: heap_wf_def)

lemma added_new:
  assumes "heap_wf h" "prefixLength D = 152"
  shows "added h (new_address D h) (parcObjectHeader_InitAllocated D d memory)
    (heap_with_new D d memory h)"
  using new_address_fresh [of h D] heap_wf_new [of h D d memory] assms
  by (simp add: added_def heap_with_new_def new_address_def)

lemma added_setContent:
  "added h a header h' \<Longrightarrow> added h a (header\<lparr>payload := c\<rparr>) (setContent h' (Some a) c)"
  by (simp add: added_def setContent_def)

lemma added_allocCount: "added (h\<lparr>allocCount := n\<rparr>) a header h' = added h a header h'"
  by (simp add: added_def)

text \<open>Creation either makes one object or, out of memory, none.\<close>

lemma create_cases:
  assumes "heap_wf h" "T d = Some D" "prefixLength D = 152"
  obtains (oom) "allocFails h (allocCount h)"
      "parcObject_CreateInstanceImpl T h memory d = Inr (None, h\<lparr>allocCount := Suc (allocCount h)\<rparr>)"
  | (new) a h' where "\<not> allocFails h (allocCount h)"
      "parcObject_CreateInstanceImpl T h memory d = Inr (Some a, h')"
      "added h a (parcObjectHeader_InitAllocated D d memory) h'" "allocCount h' = Suc (allocCount h)"
proof (cases "allocFails h (allocCount h)")
  case True
  then show thesis using oom parcObject_CreateInstanceImpl_oom [of T d D h memory] assms(2) by blast
next
  case False
  have "allocCount (heap_with_new D d memory h) = Suc (allocCount h)"
    by (simp add: heap_with_new_def)
  with False show thesis
    using new parcObject_CreateInstanceImpl_ok [of T d D h memory] added_new [of h D d memory] assms
    by blast
qed

lemma prefixLength_ByteArray [simp]: "prefixLength PARCByteArray_base = 152"
  by (simp add: prefixLength_def PARCByteArray_base_def parcObject_PrefixLength_def)

lemma byteArray_types_class [simp]: "byteArray_types PARCByteArray_class = Some PARCByteArray_base"
  by (simp add: byteArray_types_def)

definition byte_array_header :: "parc_byte_array \<Rightarrow> content parc_object" where
  "byte_array_header b =
     parcObjectHeader_InitAllocated PARCByteArray_base PARCByteArray_class (ByteArrayContent b)"

lemma is_byte_array_header [simp]: "is_byte_array (byte_array_header b) b' \<longleftrightarrow> b' = b \<and> byte_array_wf b"
  by (auto simp: is_byte_array_def byte_array_header_def parcObjectHeader_InitAllocated_def
      PARCByteArray_base_def)

definition zero_array :: "size_t \<Rightarrow> parc_byte_array" where
  "zero_array n =
     \<lparr>ba_array = (if n > 0 then Some (replicate (unat n) 0) else None), ba_length = n,
      ba_freeFunction = True\<rparr>"

lemma ba_bytes_zero_array [simp]: "ba_bytes (zero_array n) = replicate (unat n) 0"
  by (auto simp: ba_bytes_def zero_array_def word_pos_iff)

lemma zero_array_wf [simp]: "byte_array_wf (zero_array n)"
  by (simp add: byte_array_wf_def) (simp add: zero_array_def)

lemma parcByteArray_New_cases:
  assumes "heap_wf h"
  obtains (oom) h' where "parcByteArray_New h bytes n f = Inr (None, h')" "same_objects h h'" "heap_wf h'"
      "allocFails h (allocCount h)"
  | (new) a h' where "parcByteArray_New h bytes n f = Inr (Some a, h')"
      "added h a (byte_array_header \<lparr>ba_array = bytes, ba_length = n, ba_freeFunction = f\<rparr>) h'"
      "allocCount h' = Suc (allocCount h)"
proof -
  have T: "byteArray_types PARCByteArray_class = Some PARCByteArray_base"
    "prefixLength PARCByteArray_base = 152" by simp_all
  from assms T show thesis
  proof (cases rule: create_cases [where memory = garbage])
    case oom
    then show thesis
      using assms that(1) by (simp add: parcByteArray_New_def setContent_def)
  next
    case (new a h')
    note added_setContent [OF new(3),
      of "ByteArrayContent \<lparr>ba_array = bytes, ba_length = n, ba_freeFunction = f\<rparr>"]
    with new show thesis
      using that(2) [of a "setContent h' (Some a)
          (ByteArrayContent \<lparr>ba_array = bytes, ba_length = n, ba_freeFunction = f\<rparr>)"]
      by (simp add: parcByteArray_New_def byte_array_header_def parcObjectHeader_InitAllocated_def)
  qed
qed

lemma parcByteArray_Allocate_cases:
  assumes "heap_wf h"
  obtains (oom) h' where "parcByteArray_Allocate h n = Inr (None, h')" "same_objects h h'" "heap_wf h'"
      "\<exists>k. allocFails h k"
  | (new) a h' where "parcByteArray_Allocate h n = Inr (Some a, h')"
      "added h a (byte_array_header (zero_array n)) h'"
proof (cases "n > 0")
  case True
  let ?h = "h\<lparr>allocCount := Suc (allocCount h)\<rparr>"
  show thesis
  proof (cases "allocFails h (allocCount h)")
    case fails: True
    with True assms that(1) [of ?h] show thesis
      by (auto simp: parcByteArray_Allocate_def parcMemory_AllocateRaw_def)
  next
    case False
    have eq: "parcByteArray_Allocate h n = parcByteArray_New ?h (Some (replicate (unat n) 0)) n True"
      using True False by (simp add: parcByteArray_Allocate_def parcMemory_AllocateRaw_def)
    have wf: "heap_wf ?h" using assms by simp
    show thesis
      using wf
    proof (cases rule: parcByteArray_New_cases
        [where bytes = "Some (replicate (unat n) 0)" and n = n and f = True])
      case (oom h')
      have "same_objects h h'"
        using same_objects_trans [OF same_objects_allocCount oom(2)] .
      moreover have "\<exists>k. allocFails h k" using oom(4) by auto
      ultimately show thesis using that(1) eq oom by simp
    next
      case (new a h')
      then show thesis
        using that(2) [of a h'] eq True by (simp add: added_allocCount zero_array_def)
    qed
  qed
next
  case False
  then have eq: "parcByteArray_Allocate h n = parcByteArray_New h None n True"
    by (simp add: parcByteArray_Allocate_def)
  show thesis
    using assms
  proof (cases rule: parcByteArray_New_cases [where bytes = None and n = n and f = True])
    case (oom h')
    then show thesis using that(1) eq by auto
  next
    case (new a h')
    then show thesis
      using that(2) [of a h'] eq False by (simp add: zero_array_def)
  qed
qed

lemma byte_array_at_added:
  "added h a (byte_array_header b) h' \<Longrightarrow> byte_array_wf b \<Longrightarrow> byte_array_at h' a b"
  by (simp add: byte_array_at_def added_def)

lemma byte_array_at_object:
  "byte_array_at h a b \<Longrightarrow> \<exists>header. object_at byteArray_types h a header \<and> is_byte_array header b"
  by (auto simp: byte_array_at_def object_at_def object_ok_def is_byte_array_def split: option.splits)

text \<open>Releasing the only reference frees the block; nothing else changes.\<close>

lemma parcByteArray_Release_last:
  assumes "objects h a = Some header" "is_byte_array header b" "references header = 1"
    "blocks h (a - 152)"
  shows "\<exists>h'. parcByteArray_Release h (Some a) = Inr (0, h') \<and>
    objects h' = (objects h)(a := None) \<and> blocks h' = (blocks h)(a - 152 := False) \<and>
    allocFails h' = allocFails h \<and> brk h' = brk h"
proof -
  let ?h1 = "parcObject_SetHeader h a (header\<lparr>references := 0\<rparr>)"
  have same: "header\<lparr>references := 0, payload := payload header\<rparr> = header\<lparr>references := 0\<rparr>"
    by (cases header) simp
  obtain c where dtor: "parcByteArray_Destructor ?h1 a =
      Inr (True, Some a, parcObject_SetHeader h a (header\<lparr>references := 0, payload := c\<rparr>))"
  proof (cases "ba_freeFunction b \<and> ba_array b \<noteq> None")
    case True
    with that [of "ByteArrayContent (b\<lparr>ba_array := None\<rparr>)"] assms(1,2) show thesis
      by (auto simp: parcByteArray_Destructor_def byteArray_def is_byte_array_def setContent_def
          parcObject_Header_def)
  next
    case False
    with that [of "payload header"] assms(1,2) same show thesis
      by (auto simp: parcByteArray_Destructor_def byteArray_def is_byte_array_def parcObject_Header_def)
  qed
  have at: "object_at byteArray_types h a header" "descriptor header = Some PARCByteArray_class"
    "isAllocated header"
    using assms(1,2) by (auto simp: object_at_def object_ok_def is_byte_array_def)
  have "parcObject_Destructor (Some PARCByteArray_base) ?h1 a =
      Inr (True, Some a, parcObject_SetHeader h a (header\<lparr>references := 0, payload := c\<rparr>))"
    using dtor by (simp add: parcObject_Destructor_def PARCByteArray_base_def)
  from parcObject_Release_last [OF at(1) assms(3) at(2) byteArray_types_class this]
  show ?thesis
    using at assms(4) by (simp add: parcByteArray_Release_def)
qed

lemma parcByteArray_Release_shared:
  assumes "byte_array_at h a b" "1 < object_count a h"
  shows "\<exists>header. objects h a = Some header \<and> parcByteArray_Release h (Some a) =
    Inr (references header - 1, parcObject_SetHeader h a (header\<lparr>references := references header - 1\<rparr>))"
proof -
  obtain header where "object_at byteArray_types h a header"
    using byte_array_at_object [OF assms(1)] by blast
  with assms(2) show ?thesis
    using parcObject_Release_shared [of byteArray_types h a header]
    by (auto simp: parcByteArray_Release_def object_count_def object_at_def)
qed

end
