(* ===== verification/Parc_Buffer.thy ===== *)
theory Parc_Buffer
  imports Parc_ByteArray
begin

text \<open>
  \<^verbatim>\<open>parc/algol/parc_Buffer.c\<close>: a window (offset, capacity) on a shared byte array with a position, a
  limit and a mark. Every operation takes the memory and the pointer of the buffer and returns
  the new memory or the way it stops; where the C function returns its first argument, the pointer
  is left out of the result. The validation build is modelled: \<open>OptionalAssertValid\<close> and
  \<open>_optionalAssertInvariants\<close> are in force. The display function is not modelled. Buffers are taken to
  be shorter than the range of the \<open>int\<close> loop counters of the number parsers.
\<close>

section \<open>Fields, marks and checks\<close>

definition bufferOf :: "memory \<Rightarrow> ptr \<Rightarrow> parc_buffer result" where
  "bufferOf h p =
     rbind (parcObject_Header h p) (\<lambda>header.
     case payload header of BufferContent b \<Rightarrow> Inr b | _ \<Rightarrow> Inl BadPointer)"

definition setBuffer :: "memory \<Rightarrow> ptr \<Rightarrow> parc_buffer \<Rightarrow> memory" where
  "setBuffer h p b = setContent h p (BufferContent b)"

definition discardMark :: "parc_buffer \<Rightarrow> parc_buffer" where
  "discardMark b = b\<lparr>mark := SIZE_MAX\<rparr>"

definition markIsDiscarded :: "parc_buffer \<Rightarrow> bool" where
  "markIsDiscarded b \<longleftrightarrow> mark b = SIZE_MAX"

definition trapIfIndexExceedsLimit :: "parc_buffer \<Rightarrow> size_t \<Rightarrow> unit result" where
  "trapIfIndexExceedsLimit b index = trapIf OutOfBounds (index > limit b)"

definition trapIfBufferUnderflow :: "parc_buffer \<Rightarrow> size_t \<Rightarrow> unit result" where
  "trapIfBufferUnderflow b requiredRemaining =
     trapIfIndexExceedsLimit b (position b + requiredRemaining)"

definition effectiveIndex :: "parc_buffer \<Rightarrow> size_t \<Rightarrow> size_t" where
  "effectiveIndex b index = arrayOffset b + index"

definition effectivePosition :: "parc_buffer \<Rightarrow> size_t" where
  "effectivePosition b = arrayOffset b + position b"

definition assertInvariants :: "memory \<Rightarrow> ptr \<Rightarrow> unit result" where
  "assertInvariants h p =
     rbind (bufferOf h p) (\<lambda>b.
     rbind (assertTrue (0 \<le> mark b)) (\<lambda>_.
     rbind (assertTrue (markIsDiscarded b \<or> mark b \<le> position b)) (\<lambda>_.
     rbind (assertTrue (position b \<le> limit b)) (\<lambda>_.
     rbind (assertTrue (limit b \<le> capacity b)) (\<lambda>_.
     rbind (parcByteArray_Capacity h (array b)) (\<lambda>n.
     assertTrue (arrayOffset b + capacity b \<le> n)))))))"

definition parcBuffer_CheckValidity :: "memory \<Rightarrow> ptr \<Rightarrow> string option result" where
  "parcBuffer_CheckValidity h p =
     (if p \<noteq> None then
        rbind (parcObject_Header h p) (\<lambda>_.
        if parcObject_IsValid h p then
          rbind (bufferOf h p) (\<lambda>b.
          rbind (parcByteArray_IsValid h (array b)) (\<lambda>valid.
          if valid then
            if markIsDiscarded b \<or> mark b \<le> position b then
              if position b \<le> limit b then
                if limit b \<le> capacity b then
                  rbind (parcByteArray_Capacity h (array b)) (\<lambda>n.
                  Inr (if arrayOffset b + capacity b \<le> n then None
                       else Some ''offset+capacity exceeds the capacity of the underlying PARCByteArray''))
                else Inr (Some ''limit exceeds the capacity.'')
              else Inr (Some ''position exceeds the limit.'')
            else Inr (Some ''mark exceeds the current position'')
          else Inr (Some ''underlying PARCByteArray is invalid'')))
        else Inr (Some ''invalid PARCObject.''))
      else Inr (Some ''NULL''))"

definition parcBuffer_AssertValid :: "memory \<Rightarrow> ptr \<Rightarrow> unit result" where
  "parcBuffer_AssertValid h p =
     rbind (parcBuffer_CheckValidity h p) (\<lambda>explanation.
     trapIf IllegalValue (explanation \<noteq> None))"

definition parcBuffer_IsValid :: "memory \<Rightarrow> ptr \<Rightarrow> bool result" where
  "parcBuffer_IsValid h p =
     (if p \<noteq> None then
        rbind (parcObject_Header h p) (\<lambda>_.
        if parcObject_IsValid h p then
          rbind (bufferOf h p) (\<lambda>b.
          rbind (parcByteArray_IsValid h (array b)) (\<lambda>valid.
          if valid \<and> (markIsDiscarded b \<or> mark b \<le> position b) \<and> position b \<le> limit b \<and>
             limit b \<le> capacity b
          then rbind (parcByteArray_Capacity h (array b)) (\<lambda>n.
               Inr (arrayOffset b + capacity b \<le> n))
          else Inr False))
        else Inr False)
      else Inr False)"

section \<open>Creation and release\<close>

definition parcBuffer_Destructor :: "memory \<Rightarrow> addr \<Rightarrow> (bool \<times> ptr \<times> memory) result" where
  "parcBuffer_Destructor h a =
     rbind (bufferOf h (Some a)) (\<lambda>b.
     rbind (parcByteArray_Release h (array b)) (\<lambda>(_, h').
     Inr (True, Some a, setBuffer h' (Some a) (b\<lparr>array := None\<rparr>))))"

definition PARCBuffer_base :: "memory descriptor" where
  "PARCBuffer_base =
     \<lparr>desc_name = ''PARCBuffer'', desc_destroy = None,
      desc_destructor = Some parcBuffer_Destructor, desc_copy = None, desc_toString = None,
      desc_equals = None, desc_compare = None, desc_hashCode = None, desc_super = None,
      desc_isLockable = True, desc_objectSize = 48, desc_objectAlignment = 8\<rparr>"

definition buffer_types :: "content types" where
  "buffer_types = byteArray_types(PARCBuffer_class \<mapsto> PARCBuffer_base)"

definition parcBuffer_Init ::
  "memory \<Rightarrow> ptr \<Rightarrow> ptr \<Rightarrow> size_t \<Rightarrow> size_t \<Rightarrow> size_t \<Rightarrow> size_t \<Rightarrow> memory result" where
  "parcBuffer_Init h result arr offset pos lim cap =
     (let h' = setBuffer h result (discardMark
            \<lparr>array = arr, capacity = cap, arrayOffset = offset, position = pos, limit = lim, mark = 0\<rparr>)
      in rbind (parcBuffer_AssertValid h' result) (\<lambda>_. Inr h'))"

definition parcBuffer_getInstance :: "memory \<Rightarrow> (ptr \<times> memory) result" where
  "parcBuffer_getInstance h =
     rbind (parcObject_CreateInstanceImpl buffer_types h garbage PARCBuffer_class) Inr"

definition computeNewLimit :: "size_t \<Rightarrow> size_t \<Rightarrow> size_t \<Rightarrow> size_t" where
  "computeNewLimit oldCapacity oldLimit newCapacity =
     (let limitIsAtCapacity = (oldLimit = oldCapacity)
      in if newCapacity > oldCapacity then
           (if limitIsAtCapacity then newCapacity else oldLimit)
         else
           (if limitIsAtCapacity then newCapacity
            else if oldLimit < newCapacity then oldLimit else newCapacity))"

definition computeNewMark :: "size_t \<Rightarrow> size_t \<Rightarrow> size_t \<Rightarrow> size_t" where
  "computeNewMark oldMark newLimit newCapacity =
     (if oldMark \<noteq> SIZE_MAX then
        let result = (if oldMark > newCapacity then SIZE_MAX else oldMark)
        in if result > newLimit then SIZE_MAX else result
      else oldMark)"

definition parcBuffer_WrapByteArray ::
  "memory \<Rightarrow> ptr \<Rightarrow> size_t \<Rightarrow> size_t \<Rightarrow> (ptr \<times> memory) result" where
  "parcBuffer_WrapByteArray h byteArr pos lim =
     rbind (parcByteArray_Capacity h byteArr) (\<lambda>n.
     if lim > n then Inr (None, h)
     else if byteArr \<noteq> None then
       rbind (parcBuffer_getInstance h) (\<lambda>(result, h1).
       if result \<noteq> None then
         rbind (parcByteArray_Acquire h1 byteArr) (\<lambda>(arr, h2).
         rbind (parcByteArray_Capacity h2 byteArr) (\<lambda>cap.
         rbind (parcBuffer_Init h2 result arr 0 pos lim cap) (\<lambda>h3. Inr (result, h3))))
       else Inr (None, h1))
     else Inr (None, h))"

definition parcBuffer_Allocate :: "memory \<Rightarrow> size_t \<Rightarrow> (ptr \<times> memory) result" where
  "parcBuffer_Allocate h cap =
     rbind (parcByteArray_Allocate h cap) (\<lambda>(arr, h1).
     if arr \<noteq> None then
       rbind (parcBuffer_getInstance h1) (\<lambda>(result, h2).
       if result \<noteq> None then
         rbind (parcBuffer_Init h2 result arr 0 0 cap cap) (\<lambda>h3. Inr (result, h3))
       else rbind (parcByteArray_Release h2 arr) (\<lambda>(_, h3). Inr (None, h3)))
     else Inr (None, h1))"

definition parcBuffer_Wrap ::
  "memory \<Rightarrow> u8 list option \<Rightarrow> size_t \<Rightarrow> size_t \<Rightarrow> size_t \<Rightarrow> (ptr \<times> memory) result" where
  "parcBuffer_Wrap h bytes arrayLength pos lim =
     (if bytes \<noteq> None then
        rbind (parcByteArray_Wrap h arrayLength bytes) (\<lambda>(byteArr, h1).
        if byteArr \<noteq> None then
          rbind (parcBuffer_WrapByteArray h1 byteArr pos lim) (\<lambda>(result, h2).
          rbind (parcByteArray_Release h2 byteArr) (\<lambda>(_, h3). Inr (result, h3)))
        else Inr (None, h1))
      else Inr (None, h))"

text \<open>A C string is the list of its bytes without the terminating zero.\<close>

definition parcBuffer_WrapCString :: "memory \<Rightarrow> u8 list \<Rightarrow> (ptr \<times> memory) result" where
  "parcBuffer_WrapCString h string =
     (let n = word_of_nat (length string) in parcBuffer_Wrap h (Some string) n 0 n)"

definition parcBuffer_Acquire :: "memory \<Rightarrow> ptr \<Rightarrow> (ptr \<times> memory) result" where
  "parcBuffer_Acquire h p = parcObject_Acquire buffer_types h p"

definition parcBuffer_Release :: "memory \<Rightarrow> ptr \<Rightarrow> (u64 \<times> memory) result" where
  "parcBuffer_Release h p = parcObject_Release buffer_types h p"

section \<open>Position, limit, mark\<close>

definition parcBuffer_Capacity :: "memory \<Rightarrow> ptr \<Rightarrow> size_t result" where
  "parcBuffer_Capacity h p =
     rbind (parcBuffer_AssertValid h p) (\<lambda>_. rbind (bufferOf h p) (\<lambda>b. Inr (capacity b)))"

definition parcBuffer_Limit :: "memory \<Rightarrow> ptr \<Rightarrow> size_t result" where
  "parcBuffer_Limit h p =
     rbind (parcBuffer_AssertValid h p) (\<lambda>_. rbind (bufferOf h p) (\<lambda>b. Inr (limit b)))"

definition parcBuffer_Position :: "memory \<Rightarrow> ptr \<Rightarrow> size_t result" where
  "parcBuffer_Position h p =
     rbind (parcBuffer_AssertValid h p) (\<lambda>_. rbind (bufferOf h p) (\<lambda>b. Inr (position b)))"

definition parcBuffer_Remaining :: "memory \<Rightarrow> ptr \<Rightarrow> size_t result" where
  "parcBuffer_Remaining h p =
     rbind (parcBuffer_AssertValid h p) (\<lambda>_.
     rbind (bufferOf h p) (\<lambda>b. Inr (limit b - position b)))"

definition parcBuffer_HasRemaining :: "memory \<Rightarrow> ptr \<Rightarrow> bool result" where
  "parcBuffer_HasRemaining h p =
     rbind (parcBuffer_AssertValid h p) (\<lambda>_.
     rbind (parcBuffer_Remaining h p) (\<lambda>n. Inr (n \<noteq> 0)))"

definition parcBuffer_ArrayOffset :: "memory \<Rightarrow> ptr \<Rightarrow> size_t result" where
  "parcBuffer_ArrayOffset h p =
     rbind (parcBuffer_AssertValid h p) (\<lambda>_. rbind (bufferOf h p) (\<lambda>b. Inr (arrayOffset b)))"

definition parcBuffer_Array :: "memory \<Rightarrow> ptr \<Rightarrow> ptr result" where
  "parcBuffer_Array h p =
     rbind (parcBuffer_AssertValid h p) (\<lambda>_. rbind (bufferOf h p) (\<lambda>b. Inr (array b)))"

text \<open>Assign the changed buffer and check the invariants, as most operations end.\<close>

definition store_checked :: "memory \<Rightarrow> ptr \<Rightarrow> parc_buffer \<Rightarrow> memory result" where
  "store_checked h p b =
     (let h' = setBuffer h p b in rbind (assertInvariants h' p) (\<lambda>_. Inr h'))"

definition parcBuffer_Reset :: "memory \<Rightarrow> ptr \<Rightarrow> memory result" where
  "parcBuffer_Reset h p =
     rbind (parcBuffer_AssertValid h p) (\<lambda>_.
     rbind (bufferOf h p) (\<lambda>b.
     rbind (assertTrue (\<not> markIsDiscarded b)) (\<lambda>_.
     store_checked h p (b\<lparr>position := mark b\<rparr>))))"

definition parcBuffer_Mark :: "memory \<Rightarrow> ptr \<Rightarrow> memory result" where
  "parcBuffer_Mark h p =
     rbind (parcBuffer_AssertValid h p) (\<lambda>_.
     rbind (bufferOf h p) (\<lambda>b.
     store_checked h p (b\<lparr>mark := position b\<rparr>)))"

definition parcBuffer_SetLimit :: "memory \<Rightarrow> ptr \<Rightarrow> size_t \<Rightarrow> memory result" where
  "parcBuffer_SetLimit h p newLimit =
     rbind (parcBuffer_AssertValid h p) (\<lambda>_.
     rbind (parcBuffer_Capacity h p) (\<lambda>cap.
     rbind (assertTrue (newLimit \<le> cap)) (\<lambda>_.
     rbind (bufferOf h p) (\<lambda>b.
     if markIsDiscarded b then store_checked h p (discardMark (b\<lparr>limit := newLimit\<rparr>))
     else
       let b1 = (if newLimit < position b then b\<lparr>position := newLimit\<rparr> else b);
           b2 = (if newLimit < mark b1 then discardMark b1 else b1)
       in store_checked h p (b2\<lparr>limit := newLimit\<rparr>)))))"

definition parcBuffer_SetPosition :: "memory \<Rightarrow> ptr \<Rightarrow> size_t \<Rightarrow> memory result" where
  "parcBuffer_SetPosition h p newPosition =
     rbind (parcBuffer_AssertValid h p) (\<lambda>_.
     rbind (bufferOf h p) (\<lambda>b.
     rbind (assertTrue (\<not> newPosition > limit b)) (\<lambda>_.
     let b1 = b\<lparr>position := newPosition\<rparr>
     in store_checked h p
          (if \<not> markIsDiscarded b1 \<and> newPosition < mark b1 then discardMark b1 else b1))))"

definition parcBuffer_Rewind :: "memory \<Rightarrow> ptr \<Rightarrow> memory result" where
  "parcBuffer_Rewind h p =
     rbind (parcBuffer_AssertValid h p) (\<lambda>_.
     rbind (bufferOf h p) (\<lambda>b.
     store_checked h p (discardMark (b\<lparr>position := 0\<rparr>))))"

definition parcBuffer_Flip :: "memory \<Rightarrow> ptr \<Rightarrow> memory result" where
  "parcBuffer_Flip h p =
     rbind (parcBuffer_AssertValid h p) (\<lambda>_.
     rbind (bufferOf h p) (\<lambda>b.
     store_checked h p (b\<lparr>position := 0, limit := position b\<rparr>)))"

definition parcBuffer_Clear :: "memory \<Rightarrow> ptr \<Rightarrow> memory result" where
  "parcBuffer_Clear h p =
     rbind (parcBuffer_SetPosition h p 0) (\<lambda>h1.
     rbind (parcBuffer_Capacity h1 p) (\<lambda>cap.
     rbind (parcBuffer_SetLimit h1 p cap) (\<lambda>h2.
     rbind (bufferOf h2 p) (\<lambda>b. Inr (setBuffer h2 p (discardMark b))))))"

definition parcBuffer_Resize :: "memory \<Rightarrow> ptr \<Rightarrow> size_t \<Rightarrow> (ptr \<times> memory) result" where
  "parcBuffer_Resize h p newCapacity =
     rbind (parcBuffer_AssertValid h p) (\<lambda>_.
     rbind (parcByteArray_Allocate h newCapacity) (\<lambda>(newArray, h1).
     if newArray = None then Inr (None, h1)
     else
       rbind (parcBuffer_Capacity h1 p) (\<lambda>cap.
       let numberOfBytesToCopy = (if cap > newCapacity then newCapacity else cap)
       in rbind (bufferOf h1 p) (\<lambda>b.
          rbind (parcByteArray_Array h1 (array b)) (\<lambda>bytes.
          rbind (parcByteArray_PutBytes h1 newArray 0 numberOfBytesToCopy
            (drop (unat (arrayOffset b)) bytes)) (\<lambda>h2.
          rbind (parcByteArray_Release h2 (array b)) (\<lambda>(_, h3).
          let newLimit = computeNewLimit (capacity b) (limit b) newCapacity;
              b' = b\<lparr>array := newArray, arrayOffset := 0, limit := newLimit,
                     mark := computeNewMark (mark b) newLimit newCapacity,
                     capacity := newCapacity,
                     position := (if position b < newLimit then position b else newLimit)\<rparr>;
              h4 = setBuffer h3 p b'
          in rbind (parcBuffer_AssertValid h4 p) (\<lambda>_. Inr (p, h4))))))))) "

section \<open>Sharing\<close>

definition parcBuffer_Duplicate :: "memory \<Rightarrow> ptr \<Rightarrow> (ptr \<times> memory) result" where
  "parcBuffer_Duplicate h original =
     rbind (parcBuffer_getInstance h) (\<lambda>(result, h1).
     if result \<noteq> None then
       rbind (bufferOf h1 original) (\<lambda>b.
       rbind (parcByteArray_Acquire h1 (array b)) (\<lambda>(arr, h2).
       rbind (parcBuffer_Limit h2 original) (\<lambda>lim.
       rbind (parcBuffer_Init h2 result arr (arrayOffset b) (position b) lim (capacity b)) (\<lambda>h3.
       rbind (assertInvariants h3 result) (\<lambda>_. Inr (result, h3))))))
     else Inr (None, h1))"

definition parcBuffer_Slice :: "memory \<Rightarrow> ptr \<Rightarrow> (ptr \<times> memory) result" where
  "parcBuffer_Slice h original =
     rbind (parcBuffer_getInstance h) (\<lambda>(result, h1).
     if result \<noteq> None then
       rbind (bufferOf h1 original) (\<lambda>b.
       rbind (parcByteArray_Acquire h1 (array b)) (\<lambda>(arr, h2).
       rbind (parcBuffer_Position h2 original) (\<lambda>pos.
       rbind (parcBuffer_Limit h2 original) (\<lambda>lim.
       rbind (parcBuffer_Init h2 result arr (arrayOffset b + pos) 0 (lim - pos) (lim - pos)) (\<lambda>h3.
       rbind (assertInvariants h3 result) (\<lambda>_. Inr (result, h3)))))))
     else Inr (None, h1))"

definition parcBuffer_Copy :: "memory \<Rightarrow> ptr \<Rightarrow> (ptr \<times> memory) result" where
  "parcBuffer_Copy h original =
     rbind (parcBuffer_AssertValid h original) (\<lambda>_.
     rbind (parcBuffer_getInstance h) (\<lambda>(result, h1).
     if result \<noteq> None then
       rbind (bufferOf h1 original) (\<lambda>b.
       rbind (parcByteArray_Copy h1 (array b)) (\<lambda>(arr, h2).
       if arr \<noteq> None then
         rbind (parcBuffer_ArrayOffset h2 original) (\<lambda>offset.
         rbind (parcBuffer_Position h2 original) (\<lambda>pos.
         rbind (parcBuffer_Limit h2 original) (\<lambda>lim.
         rbind (parcBuffer_Capacity h2 original) (\<lambda>cap.
         rbind (parcBuffer_Init h2 result arr offset pos lim cap) (\<lambda>h3. Inr (result, h3))))))
       else rbind (parcBuffer_Release h2 result) (\<lambda>(_, h3). Inr (None, h3))))
     else Inr (None, h1)))"

section \<open>Valid buffers\<close>

text \<open>
  The relation the header file states, \<open>0 <= mark <= position <= limit <= capacity\<close>, and a window that lies
  inside the byte array \<open>x\<close> without a wrap-around.
\<close>

definition buffer_inv :: "parc_buffer \<Rightarrow> parc_byte_array \<Rightarrow> bool" where
  "buffer_inv b x \<longleftrightarrow>
     (markIsDiscarded b \<or> mark b \<le> position b) \<and> position b \<le> limit b \<and> limit b \<le> capacity b \<and>
     unat (arrayOffset b) + unat (capacity b) \<le> unat (ba_length x)"

definition is_buffer :: "content parc_object \<Rightarrow> parc_buffer \<Rightarrow> bool" where
  "is_buffer header b \<longleftrightarrow>
     magicGuardNumber header = HEADER_MAGIC \<and> references header \<noteq> 0 \<and>
     descriptor header = Some PARCBuffer_class \<and> locking header \<noteq> None \<and> isAllocated header \<and>
     payload header = BufferContent b"

text \<open>A live buffer at \<open>a\<close> with the fields \<open>b\<close> on the byte array \<open>x\<close>.\<close>

definition buffer_at :: "memory \<Rightarrow> addr \<Rightarrow> parc_buffer \<Rightarrow> parc_byte_array \<Rightarrow> bool" where
  "buffer_at h a b x \<longleftrightarrow>
     (case objects h a of None \<Rightarrow> False | Some header \<Rightarrow> is_buffer header b) \<and>
     (case array b of None \<Rightarrow> False | Some c \<Rightarrow> byte_array_at h c x) \<and> buffer_inv b x"

lemma classes_distinct [simp]:
  "PARCByteArray_class \<noteq> PARCBuffer_class" "PARCBuffer_class \<noteq> PARCByteArray_class"
  "PARCByteArray_class \<noteq> PARCBufferComposer_class" "PARCBufferComposer_class \<noteq> PARCByteArray_class"
  "PARCBuffer_class \<noteq> PARCBufferComposer_class" "PARCBufferComposer_class \<noteq> PARCBuffer_class"
  by (simp_all add: PARCByteArray_class_def PARCBuffer_class_def PARCBufferComposer_class_def)

lemma buffer_atE:
  assumes "buffer_at h a b x"
  obtains header c where "objects h a = Some header" "is_buffer header b" "array b = Some c"
    "byte_array_at h c x" "buffer_inv b x" "c \<noteq> a"
proof -
  obtain header c where *: "objects h a = Some header" "is_buffer header b" "array b = Some c"
      "byte_array_at h c x" "buffer_inv b x"
    using assms by (auto simp: buffer_at_def split: option.splits)
  moreover have "c \<noteq> a"
    using * by (auto simp: byte_array_at_def is_buffer_def is_byte_array_def)
  ultimately show thesis by (rule that)
qed

lemma buffer_inv_words:
  "buffer_inv b x \<Longrightarrow> arrayOffset b + capacity b \<le> ba_length x"
  "buffer_inv b x \<Longrightarrow> unat (arrayOffset b + capacity b) = unat (arrayOffset b) + unat (capacity b)"
proof -
  assume i: "buffer_inv b x"
  then show u: "unat (arrayOffset b + capacity b) = unat (arrayOffset b) + unat (capacity b)"
    using unat_bound [of "ba_length x"] by (intro unat_add_no_wrap) (auto simp: buffer_inv_def)
  show "arrayOffset b + capacity b \<le> ba_length x"
    using i by (simp add: word_le_nat_alt u buffer_inv_def)
qed

lemma bufferOf_ok [simp]: "buffer_at h a b x \<Longrightarrow> bufferOf h (Some a) = Inr b"
  by (auto simp: bufferOf_def parcObject_Header_def buffer_at_def is_buffer_def split: option.splits)

lemma parcByteArray_IsValid_ok [simp]:
  "byte_array_at h c x \<Longrightarrow> parcByteArray_IsValid h (Some c) = Inr True"
  using parcByteArray_AssertValid_ok [of h c x]
  by (auto simp: parcByteArray_AssertValid_def parcByteArray_IsValid_def trapIf_def split: if_splits)

lemma parcBuffer_CheckValidity_ok [simp]:
  assumes "buffer_at h a b x"
  shows "parcBuffer_CheckValidity h (Some a) = Inr None"
proof -
  have "parcObject_IsValid h (Some a)"
    using assms by (auto simp: parcObject_IsValid_def parcObjectHeader_IsValid_def buffer_at_def
        is_buffer_def split: option.splits)
  moreover obtain header c where "objects h a = Some header" "array b = Some c" "byte_array_at h c x"
      "buffer_inv b x"
    using assms by (rule buffer_atE)
  ultimately show ?thesis
    using assms buffer_inv_words(1) [of b x]
    by (auto simp: parcBuffer_CheckValidity_def buffer_inv_def)
qed

lemma parcBuffer_AssertValid_ok [simp]:
  "buffer_at h a b x \<Longrightarrow> parcBuffer_AssertValid h (Some a) = Inr ()"
  by (simp add: parcBuffer_AssertValid_def)

lemma parcBuffer_queries [simp]:
  assumes "buffer_at h a b x"
  shows "parcBuffer_Capacity h (Some a) = Inr (capacity b)"
    and "parcBuffer_Limit h (Some a) = Inr (limit b)"
    and "parcBuffer_Position h (Some a) = Inr (position b)"
    and "parcBuffer_Remaining h (Some a) = Inr (limit b - position b)"
    and "parcBuffer_ArrayOffset h (Some a) = Inr (arrayOffset b)"
    and "parcBuffer_Array h (Some a) = Inr (array b)"
  using assms
  by (simp_all add: parcBuffer_Capacity_def parcBuffer_Limit_def parcBuffer_Position_def
      parcBuffer_Remaining_def parcBuffer_ArrayOffset_def parcBuffer_Array_def)

lemma buffer_at_setBuffer:
  assumes "buffer_at h a b x" "array b' = array b"
  shows "buffer_at (setBuffer h (Some a) b') a b'' x \<longleftrightarrow> b'' = b' \<and> buffer_inv b' x"
proof -
  obtain header c where "objects h a = Some header" "is_buffer header b" "array b = Some c"
    "byte_array_at h c x" "c \<noteq> a"
    using assms(1) by (rule buffer_atE)
  with assms(2) show ?thesis
    by (auto simp: buffer_at_def setBuffer_def setContent_objects is_buffer_def)
qed

lemma bufferOf_setBuffer:
  "buffer_at h a b x \<Longrightarrow> bufferOf (setBuffer h (Some a) b') (Some a) = Inr b'"
  by (auto simp: bufferOf_def parcObject_Header_def buffer_at_def setBuffer_def setContent_def
      split: option.splits)

lemma setBuffer_twice [simp]: "setBuffer (setBuffer h p b) p b' = setBuffer h p b'"
  by (simp add: setBuffer_def setContent_def split: option.splits)

lemma setBuffer_same: "buffer_at h a b x \<Longrightarrow> setBuffer h (Some a) b = h"
  by (auto simp: buffer_at_def is_buffer_def setBuffer_def setContent_def parcObject_SetHeader_def
      fun_upd_idem split: option.splits)

text \<open>The checked store succeeds exactly when the new fields satisfy the invariant.\<close>

lemma store_checked_ok:
  assumes "buffer_at h a b x" "array b' = array b" "arrayOffset b' = arrayOffset b"
    "capacity b' = capacity b"
  shows "store_checked h (Some a) b' =
    (if buffer_inv b' x then Inr (setBuffer h (Some a) b') else Inl AssertFailed)"
proof -
  obtain c where c: "array b = Some c" "byte_array_at h c x" "buffer_inv b x" "c \<noteq> a"
    using assms(1) by (rule buffer_atE)
  let ?h = "setBuffer h (Some a) b'"
  have "bufferOf ?h (Some a) = Inr b'" using assms(1) by (rule bufferOf_setBuffer)
  moreover have "byte_array_at ?h c x" using c by (simp add: setBuffer_def)
  moreover have "arrayOffset b' + capacity b' \<le> ba_length x"
    "unat (arrayOffset b') + unat (capacity b') \<le> unat (ba_length x)"
    using c(3) assms(3,4) buffer_inv_words(1) [of b x] by (simp_all add: buffer_inv_def)
  ultimately show ?thesis
    using assms(2) c(1)
    by (auto simp: store_checked_def Let_def assertInvariants_def buffer_inv_def assertTrue_def)
qed

lemma assertInvariants_ok:
  assumes "buffer_at h a b x"
  shows "assertInvariants h (Some a) = Inr ()"
  using assms buffer_inv_words(1) [of b x]
  by (auto simp: assertInvariants_def buffer_inv_def elim!: buffer_atE)

section \<open>The cursor operations, specified on the fields\<close>

datatype cursor_op =
    SetPosition size_t
  | SetLimit size_t
  | Mark
  | Reset
  | Rewind
  | Flip
  | Clear

fun cursor_call :: "cursor_op \<Rightarrow> memory \<Rightarrow> ptr \<Rightarrow> memory result" where
  "cursor_call (SetPosition n) h p = parcBuffer_SetPosition h p n"
| "cursor_call (SetLimit n) h p = parcBuffer_SetLimit h p n"
| "cursor_call Mark h p = parcBuffer_Mark h p"
| "cursor_call Reset h p = parcBuffer_Reset h p"
| "cursor_call Rewind h p = parcBuffer_Rewind h p"
| "cursor_call Flip h p = parcBuffer_Flip h p"
| "cursor_call Clear h p = parcBuffer_Clear h p"

text \<open>What each of them does to the fields of a valid buffer; \<open>None\<close> is a failed assertion.\<close>

fun cursor_spec :: "cursor_op \<Rightarrow> parc_buffer \<Rightarrow> parc_buffer option" where
  "cursor_spec (SetPosition n) b =
     (if n \<le> limit b
      then Some (b\<lparr>position := n, mark := (if n < mark b then SIZE_MAX else mark b)\<rparr>) else None)"
| "cursor_spec (SetLimit n) b =
     (if n \<le> capacity b \<and> (mark b = SIZE_MAX \<longrightarrow> position b \<le> n)
      then Some (b\<lparr>limit := n, position := min (position b) n,
                   mark := (if n < mark b then SIZE_MAX else mark b)\<rparr>)
      else None)"
| "cursor_spec Mark b = Some (b\<lparr>mark := position b\<rparr>)"
| "cursor_spec Reset b = (if mark b = SIZE_MAX then None else Some (b\<lparr>position := mark b\<rparr>))"
| "cursor_spec Rewind b = Some (b\<lparr>position := 0, mark := SIZE_MAX\<rparr>)"
| "cursor_spec Flip b =
     (if mark b = SIZE_MAX \<or> mark b = 0 then Some (b\<lparr>position := 0, limit := position b\<rparr>) else None)"
| "cursor_spec Clear b = Some (b\<lparr>position := 0, limit := capacity b, mark := SIZE_MAX\<rparr>)"

lemma word_le_max [simp]: "w \<le> SIZE_MAX"
  by (rule word_n1_ge)

lemma SIZE_MAX_le [simp]: "SIZE_MAX \<le> w \<longleftrightarrow> w = SIZE_MAX"
  by (auto simp: order_antisym)

lemma SIZE_MAX_less [simp]: "SIZE_MAX < w \<longleftrightarrow> False"
  by (simp add: not_less)

lemma cursor_spec_inv: "cursor_spec op b = Some b' \<Longrightarrow> buffer_inv b x \<Longrightarrow> buffer_inv b' x"
  by (cases op)
    (auto simp: buffer_inv_def markIsDiscarded_def min_def not_less split: if_splits)

lemma cursor_spec_frame:
  "cursor_spec op b = Some b' \<Longrightarrow>
     array b' = array b \<and> arrayOffset b' = arrayOffset b \<and> capacity b' = capacity b"
  by (cases op) (auto split: if_splits)

lemma buffer_inv_position_update [simp]:
  "buffer_inv b x \<Longrightarrow> buffer_inv (b\<lparr>mark := SIZE_MAX\<rparr>) x"
  by (simp add: buffer_inv_def markIsDiscarded_def)

lemma parcBuffer_SetPosition_spec:
  assumes "buffer_at h a b x"
  shows "parcBuffer_SetPosition h (Some a) n =
    (case cursor_spec (SetPosition n) b of None \<Rightarrow> Inl AssertFailed
     | Some b' \<Rightarrow> Inr (setBuffer h (Some a) b'))"
proof -
  have "buffer_inv b x" using assms by (rule buffer_atE)
  with assms show ?thesis
    by (cases b) (auto simp: parcBuffer_SetPosition_def store_checked_ok [OF assms] buffer_inv_def
        markIsDiscarded_def discardMark_def not_less Let_def)
qed

lemma parcBuffer_SetLimit_spec:
  assumes "buffer_at h a b x"
  shows "parcBuffer_SetLimit h (Some a) n =
    (case cursor_spec (SetLimit n) b of None \<Rightarrow> Inl AssertFailed
     | Some b' \<Rightarrow> Inr (setBuffer h (Some a) b'))"
proof -
  have "buffer_inv b x" using assms by (rule buffer_atE)
  with assms show ?thesis
    by (cases b) (auto simp: parcBuffer_SetLimit_def store_checked_ok [OF assms] buffer_inv_def
        markIsDiscarded_def discardMark_def min_def not_less Let_def)
qed

lemma buffer_at_cursor_spec:
  assumes "buffer_at h a b x" "cursor_spec op b = Some b'"
  shows "buffer_at (setBuffer h (Some a) b') a b' x"
proof -
  have "buffer_inv b x" using assms(1) by (rule buffer_atE)
  then show ?thesis
    using buffer_at_setBuffer [OF assms(1)] cursor_spec_inv [OF assms(2)] cursor_spec_frame [OF assms(2)]
    by blast
qed

text \<open>Every cursor operation on a valid buffer does what its specification says.\<close>

lemma cursor_call_refines:
  assumes "buffer_at h a b x"
  shows "cursor_call op h (Some a) =
    (case cursor_spec op b of None \<Rightarrow> Inl AssertFailed | Some b' \<Rightarrow> Inr (setBuffer h (Some a) b'))"
proof -
  have inv: "buffer_inv b x" using assms by (rule buffer_atE)
  note store = store_checked_ok [OF assms]
  note defs = buffer_inv_def markIsDiscarded_def discardMark_def
  show ?thesis
  proof (cases op)
    case (SetPosition n)
    then show ?thesis using parcBuffer_SetPosition_spec [OF assms] by simp
  next
    case (SetLimit n)
    then show ?thesis using parcBuffer_SetLimit_spec [OF assms] by simp
  next
    case Mark
    then show ?thesis
      using assms inv by (simp add: parcBuffer_Mark_def store defs)
  next
    case Reset
    then show ?thesis
      using assms inv by (auto simp: parcBuffer_Reset_def store defs)
  next
    case Rewind
    then show ?thesis
      using assms inv by (simp add: parcBuffer_Rewind_def store defs)
  next
    case Flip
    then show ?thesis
      using assms inv by (auto simp: parcBuffer_Flip_def store defs)
  next
    case Clear
    define b1 where "b1 = b\<lparr>position := 0, mark := (if 0 < mark b then SIZE_MAX else mark b)\<rparr>"
    define b2 where "b2 = b1\<lparr>limit := capacity b, position := 0,
      mark := (if capacity b < mark b1 then SIZE_MAX else mark b1)\<rparr>"
    have s1: "cursor_spec (SetPosition 0) b = Some b1" by (simp add: b1_def)
    have s2: "cursor_spec (SetLimit (capacity b)) b1 = Some b2" by (simp add: b1_def b2_def)
    note at1 = buffer_at_cursor_spec [OF assms s1]
    note at2 = buffer_at_cursor_spec [OF at1 s2]
    have c: "capacity b1 = capacity b"
      and d: "discardMark b2 = b\<lparr>position := 0, limit := capacity b, mark := SIZE_MAX\<rparr>"
      by (simp_all add: b1_def b2_def discardMark_def)
    have "parcBuffer_SetPosition h (Some a) 0 = Inr (setBuffer h (Some a) b1)"
      using parcBuffer_SetPosition_spec [OF assms] s1 by simp
    moreover have "parcBuffer_SetLimit (setBuffer h (Some a) b1) (Some a) (capacity b) =
        Inr (setBuffer h (Some a) b2)"
      using parcBuffer_SetLimit_spec [OF at1, of "capacity b"] s2 by simp
    ultimately show ?thesis
      using Clear at1 at2 c d by (simp add: parcBuffer_Clear_def)
  qed
qed

section \<open>Creation and release of buffers\<close>

lemma prefixLength_Buffer [simp]: "prefixLength PARCBuffer_base = 152"
  by (simp add: prefixLength_def PARCBuffer_base_def parcObject_PrefixLength_def)

lemma buffer_types_class [simp]: "buffer_types PARCBuffer_class = Some PARCBuffer_base"
  by (simp add: buffer_types_def)

definition buffer_header :: "parc_buffer \<Rightarrow> content parc_object" where
  "buffer_header b =
     parcObjectHeader_InitAllocated PARCBuffer_base PARCBuffer_class (BufferContent b)"

lemma is_buffer_header [simp]: "is_buffer (buffer_header b) b' \<longleftrightarrow> b' = b"
  by (auto simp: is_buffer_def buffer_header_def parcObjectHeader_InitAllocated_def
      PARCBuffer_base_def)

lemma buffer_header_fields [simp]:
  "references (buffer_header b) = 1" "payload (buffer_header b) = BufferContent b"
  "references (byte_array_header x) = 1" "payload (byte_array_header x) = ByteArrayContent x"
  by (simp_all add: buffer_header_def byte_array_header_def parcObjectHeader_InitAllocated_def)

lemma buffer_at_intro:
  "objects h a = Some header \<Longrightarrow> is_buffer header b \<Longrightarrow> array b = Some c \<Longrightarrow> byte_array_at h c x \<Longrightarrow>
     buffer_inv b x \<Longrightarrow> buffer_at h a b x"
  by (simp add: buffer_at_def)

lemma buffer_at_transfer:
  assumes "buffer_at h a b x" "array b = Some c" "objects h' a = objects h a" "byte_array_at h' c y"
    "ba_length y = ba_length x"
  shows "buffer_at h' a b y"
  using assms by (auto simp: buffer_at_def buffer_inv_def)

lemma parcBuffer_getInstance_cases:
  assumes "heap_wf h"
  obtains (oom) "parcBuffer_getInstance h = Inr (None, h\<lparr>allocCount := Suc (allocCount h)\<rparr>)"
      "allocFails h (allocCount h)"
  | (new) a h' where "parcBuffer_getInstance h = Inr (Some a, h')"
      "added h a (parcObjectHeader_InitAllocated PARCBuffer_base PARCBuffer_class garbage) h'"
      "\<not> allocFails h (allocCount h)"
proof -
  have "buffer_types PARCBuffer_class = Some PARCBuffer_base" "prefixLength PARCBuffer_base = 152"
    by simp_all
  with assms show thesis
    by (cases rule: create_cases [where memory = garbage])
      (use that in \<open>auto simp: parcBuffer_getInstance_def\<close>)
qed

lemma init_object:
  "(parcObjectHeader_InitAllocated PARCBuffer_base PARCBuffer_class m)\<lparr>payload := BufferContent b\<rparr> =
     buffer_header b"
  by (simp add: buffer_header_def parcObjectHeader_InitAllocated_def)

text \<open>Filling in a new instance whose array and bounds are in order.\<close>

lemma parcBuffer_Init_ok:
  assumes "objects h a = Some (parcObjectHeader_InitAllocated PARCBuffer_base PARCBuffer_class m)"
    and "byte_array_at h c x" "c \<noteq> a"
    and "pos \<le> lim" "lim \<le> cap" "unat off + unat cap \<le> unat (ba_length x)"
  defines "b \<equiv> \<lparr>array = Some c, capacity = cap, arrayOffset = off, position = pos, limit = lim,
    mark = SIZE_MAX\<rparr>"
  shows "parcBuffer_Init h (Some a) (Some c) off pos lim cap = Inr (parcObject_SetHeader h a (buffer_header b))"
    and "buffer_at (parcObject_SetHeader h a (buffer_header b)) a b x"
proof -
  let ?h = "parcObject_SetHeader h a (buffer_header b)"
  have "byte_array_at ?h c x" using assms(2,3) by (simp add: byte_array_at_def)
  then show at: "buffer_at ?h a b x"
    using assms(4-6) by (auto intro!: buffer_at_intro [where c = c]
        simp: b_def buffer_inv_def markIsDiscarded_def)
  have "setBuffer h (Some a) b = ?h"
    using assms(1) by (simp add: setBuffer_def setContent_def init_object)
  then show "parcBuffer_Init h (Some a) (Some c) off pos lim cap = Inr ?h"
    using at by (simp add: parcBuffer_Init_def discardMark_def b_def)
qed

lemma buffer_object_at:
  "objects h a = Some header \<Longrightarrow> is_buffer header b \<Longrightarrow> object_at buffer_types h a header"
  by (auto simp: object_at_def object_ok_def is_buffer_def)

text \<open>
  The last release of a buffer gives its reference to the byte array back and frees the block of
  the buffer.
\<close>

lemma parcBuffer_Release_last:
  assumes "objects h a = Some header" "is_buffer header b" "references header = 1" "array b = Some c"
    and "c \<noteq> a"
    and rel: "parcByteArray_Release (parcObject_SetHeader h a (header\<lparr>references := 0\<rparr>)) (Some c) = Inr (r, h1)"
    and h1: "objects h1 a = Some (header\<lparr>references := 0\<rparr>)" "blocks h1 (a - 152)"
  shows "\<exists>h'. parcBuffer_Release h (Some a) = Inr (0, h') \<and> objects h' = (objects h1)(a := None) \<and>
    blocks h' = (blocks h1)(a - 152 := False) \<and> brk h' = brk h1 \<and> allocFails h' = allocFails h1"
proof -
  let ?h = "parcObject_SetHeader h a (header\<lparr>references := 0\<rparr>)"
  let ?h2 = "setBuffer h1 (Some a) (b\<lparr>array := None\<rparr>)"
  have "parcBuffer_Destructor ?h a = Inr (True, Some a, ?h2)"
    using assms(2,4) rel
    by (auto simp: parcBuffer_Destructor_def bufferOf_def parcObject_Header_def is_buffer_def)
  then have dtor: "parcObject_Destructor (Some PARCBuffer_base) ?h a = Inr (True, Some a, ?h2)"
    by (simp add: parcObject_Destructor_def PARCBuffer_base_def)
  have d: "descriptor header = Some PARCBuffer_class" "isAllocated header"
    using assms(2) by (auto simp: is_buffer_def)
  have h2: "objects ?h2 a = Some (header\<lparr>references := 0, payload := BufferContent (b\<lparr>array := None\<rparr>)\<rparr>)"
    "blocks ?h2 = blocks h1" "(objects ?h2)(a := None) = (objects h1)(a := None)"
    "brk ?h2 = brk h1" "allocFails ?h2 = allocFails h1"
    using h1 by (simp_all add: setBuffer_def setContent_def)
  show ?thesis
    using parcObject_Release_last [OF buffer_object_at [OF assms(1,2)] assms(3) d(1)
        buffer_types_class dtor h2(1)] d h1(2) h2
    by (simp add: parcBuffer_Release_def)
qed

lemma added_objects:
  "added h a header h' \<Longrightarrow> objects h' a = Some header"
  "added h a header h' \<Longrightarrow> blocks h' (a - 152)"
  "added h a header h' \<Longrightarrow> objects h c \<noteq> None \<Longrightarrow> c \<noteq> a \<and> objects h' c = objects h c"
  "added h a header h' \<Longrightarrow> blocks h k \<Longrightarrow> k \<noteq> a - 152 \<and> blocks h' k"
  "added h a header h' \<Longrightarrow> heap_wf h'"
  "added h a header h' \<Longrightarrow> objects h a = None"
  by (auto simp: added_def)

lemma byte_array_at_objects: "byte_array_at h c x \<Longrightarrow> objects h c \<noteq> None"
  by (auto simp: byte_array_at_def split: option.splits)

lemma byte_array_at_cong: "objects h' c = objects h c \<Longrightarrow> byte_array_at h' c x = byte_array_at h c x"
  by (simp add: byte_array_at_def)

text \<open>Releasing a buffer nobody shares, on an array nobody shares, frees both.\<close>

lemma parcBuffer_Release_unshared:
  assumes "objects h a = Some (buffer_header b)" "array b = Some c" "c \<noteq> a"
    and "objects h c = Some (byte_array_header x)" "byte_array_wf x"
    and "blocks h (a - 152)" "blocks h (c - 152)" "c - 152 \<noteq> a - 152"
  shows "\<exists>h'. parcBuffer_Release h (Some a) = Inr (0, h') \<and>
    objects h' = (objects h)(a := None, c := None) \<and>
    blocks h' = (blocks h)(a - 152 := False, c - 152 := False) \<and> brk h' = brk h \<and>
    allocFails h' = allocFails h"
proof -
  let ?h1 = "parcObject_SetHeader h a ((buffer_header b)\<lparr>references := 0\<rparr>)"
  obtain h2 where h2: "parcByteArray_Release ?h1 (Some c) = Inr (0, h2)"
      "objects h2 = (objects ?h1)(c := None)" "blocks h2 = (blocks ?h1)(c - 152 := False)"
      "allocFails h2 = allocFails ?h1" "brk h2 = brk ?h1"
    using parcByteArray_Release_last [of ?h1 c "byte_array_header x" x] assms by auto
  obtain h' where "parcBuffer_Release h (Some a) = Inr (0, h')" "objects h' = (objects h2)(a := None)"
      "blocks h' = (blocks h2)(a - 152 := False)" "brk h' = brk h2" "allocFails h' = allocFails h2"
    using parcBuffer_Release_last [OF assms(1) _ _ assms(2,3) h2(1)] h2(2,3) assms by auto
  with h2 show ?thesis by (auto simp: fun_eq_iff)
qed

lemma parcBuffer_Release_owner:
  assumes "added h c (byte_array_header x) h1" "added h1 a header h2" "byte_array_wf x"
    and "array b = Some c"
  shows "\<exists>h'. parcBuffer_Release (parcObject_SetHeader h2 a (buffer_header b)) (Some a) = Inr (0, h') \<and>
    same_objects h h'"
proof -
  let ?h3 = "parcObject_SetHeader h2 a (buffer_header b)"
  note A = added_objects [OF assms(1)] and B = added_objects [OF assms(2)]
  have c: "c \<noteq> a" "objects h2 c = Some (byte_array_header x)" "blocks h2 (c - 152)" "c - 152 \<noteq> a - 152"
    using B(3) [of c] B(4) [of "c - 152"] A(1,2) by auto
  obtain h' where "parcBuffer_Release ?h3 (Some a) = Inr (0, h')"
      "objects h' = (objects ?h3)(a := None, c := None)"
      "blocks h' = (blocks ?h3)(a - 152 := False, c - 152 := False)"
    using parcBuffer_Release_unshared [of ?h3 a b c x] assms(3,4) c B(2) by auto
  moreover have "(objects ?h3)(a := None, c := None) = objects h"
    "(blocks ?h3)(a - 152 := False, c - 152 := False) = blocks h"
    using assms(1,2) c by (auto simp: added_def fun_eq_iff)
  ultimately show ?thesis by (auto simp: same_objects_def)
qed

definition fresh_buffer :: "ptr \<Rightarrow> size_t \<Rightarrow> parc_buffer" where
  "fresh_buffer c n =
     \<lparr>array = c, capacity = n, arrayOffset = 0, position = 0, limit = n, mark = SIZE_MAX\<rparr>"

lemma parcBuffer_Allocate_cases:
  assumes "heap_wf h"
  obtains (oom) h' where "parcBuffer_Allocate h n = Inr (None, h')" "same_objects h h'" "heap_wf h'"
      "\<exists>k. allocFails h k"
  | (new) a c h1 h2 header where
      "parcBuffer_Allocate h n =
         Inr (Some a, parcObject_SetHeader h2 a (buffer_header (fresh_buffer (Some c) n)))"
      "buffer_at (parcObject_SetHeader h2 a (buffer_header (fresh_buffer (Some c) n))) a
         (fresh_buffer (Some c) n) (zero_array n)"
      "added h c (byte_array_header (zero_array n)) h1" "added h1 a header h2"
  using assms
proof (cases rule: parcByteArray_Allocate_cases [where n = n])
  case (oom h')
  then show thesis using that(1) by (simp add: parcBuffer_Allocate_def)
next
  case (new c h1)
  note A = added_objects [OF new(2)]
  have fails: "allocFails h1 = allocFails h" using new(2) by (simp add: added_def)
  from A(5) show thesis
  proof (cases rule: parcBuffer_getInstance_cases)
    case oom
    let ?h1 = "h1\<lparr>allocCount := Suc (allocCount h1)\<rparr>"
    obtain h' where h': "parcByteArray_Release ?h1 (Some c) = Inr (0, h')"
        "objects h' = (objects h1)(c := None)" "blocks h' = (blocks h1)(c - 152 := False)"
        "brk h' = brk h1"
      using parcByteArray_Release_last [of ?h1 c "byte_array_header (zero_array n)" "zero_array n"] A
      by auto
    then have "objects h' = objects h" "blocks h' = blocks h"
      using new(2) by (auto simp: added_def fun_eq_iff)
    moreover have "heap_wf h'" using A(5) h' by (auto simp: heap_wf_def)
    ultimately show thesis
      using that(1) [of h'] new(1) oom fails h'(1)
      by (auto simp: parcBuffer_Allocate_def same_objects_def)
  next
    case (new a h2)
    note B = added_objects [OF new(2)]
    have c: "byte_array_at h2 c (zero_array n)" "c \<noteq> a"
      using B(3) [of c] A(1) by (auto simp: byte_array_at_def)
    have "unat (0 :: size_t) + unat n \<le> unat (ba_length (zero_array n))" by (simp add: zero_array_def)
    note init = parcBuffer_Init_ok [OF B(1) c order.refl [of 0, THEN order_trans, OF word_zero_le [of n]]
        order.refl this]
    show thesis
      using that(2) [of a h2 c h1] new init \<open>parcByteArray_Allocate h n = Inr (Some c, h1)\<close>
        \<open>added h c (byte_array_header (zero_array n)) h1\<close>
      by (simp add: parcBuffer_Allocate_def fresh_buffer_def)
  qed
qed



section \<open>Sequences of cursor operations\<close>

fun cursor_calls :: "cursor_op list \<Rightarrow> memory \<Rightarrow> ptr \<Rightarrow> memory result" where
  "cursor_calls [] h p = Inr h"
| "cursor_calls (op # ops) h p = rbind (cursor_call op h p) (\<lambda>h'. cursor_calls ops h' p)"

fun cursor_specs :: "cursor_op list \<Rightarrow> parc_buffer \<Rightarrow> parc_buffer option" where
  "cursor_specs [] b = Some b"
| "cursor_specs (op # ops) b =
     (case cursor_spec op b of None \<Rightarrow> None | Some b' \<Rightarrow> cursor_specs ops b')"

text \<open>A buffer of six bytes at offset 2 of an array of ten, for the examples.\<close>

definition example_array :: parc_byte_array where
  "example_array = \<lparr>ba_array = Some (map word_of_nat [10..<20]), ba_length = 10, ba_freeFunction = True\<rparr>"

definition example_buffer :: parc_buffer where
  "example_buffer = \<lparr>array = Some 400, capacity = 6, arrayOffset = 2, position = 1, limit = 5,
     mark = SIZE_MAX\<rparr>"

definition example_memory :: memory where
  "example_memory = empty_heap
     \<lparr>objects := [200 \<mapsto> buffer_header example_buffer, 400 \<mapsto> byte_array_header example_array],
      blocks := (\<lambda>b. b = 48 \<or> b = 248), brk := 424\<rparr>"

lemma example_buffer_at: "buffer_at example_memory 200 example_buffer example_array"
  by (rule buffer_at_intro [where c = 400 and header = "buffer_header example_buffer"])
    (simp_all add: example_memory_def example_buffer_def byte_array_at_def buffer_inv_def
      markIsDiscarded_def, simp_all add: example_array_def byte_array_wf_def ba_bytes_def)

lemma example_memory_wf: "heap_wf example_memory"
  by (auto simp: heap_wf_def example_memory_def)

text \<open>
  C2: any sequence of SetPosition, SetLimit, Mark, Reset, Rewind, Flip and Clear on a valid buffer
  computes what the field specification of each says, step by step: it changes the position, limit
  and mark of that buffer and nothing else in memory, keeps \<open>mark <= position <= limit <= capacity\<close>, and
  the only way a call can stop is a failed assertion, exactly when the specification refuses (a position
  beyond the limit, a limit beyond the capacity or, with no mark, below the position, a reset without a
  mark, a flip with a mark above 0).
\<close>

theorem parcBuffer_cursor_refinement:
  assumes "buffer_at h a b x"
  shows "cursor_calls ops h (Some a) =
      (case cursor_specs ops b of None \<Rightarrow> Inl AssertFailed | Some b' \<Rightarrow> Inr (setBuffer h (Some a) b')) \<and>
    (case cursor_specs ops b of None \<Rightarrow> True
     | Some b' \<Rightarrow> buffer_at (setBuffer h (Some a) b') a b' x \<and> array b' = array b \<and>
         arrayOffset b' = arrayOffset b \<and> capacity b' = capacity b)"
  using assms
proof (induction ops arbitrary: h b)
  case Nil
  then show ?case by (simp add: setBuffer_same)
next
  case (Cons op ops)
  show ?case
  proof (cases "cursor_spec op b")
    case None
    then show ?thesis using cursor_call_refines [OF Cons.prems, of op] by simp
  next
    case (Some b')
    note at = buffer_at_cursor_spec [OF Cons.prems Some]
    show ?thesis
      using Cons.IH [OF at] cursor_call_refines [OF Cons.prems, of op] Some cursor_spec_frame [OF Some]
      by (simp split: option.splits)
  qed
qed

theorem parcBuffer_cursor_refinement_witness:
  "cursor_calls [Mark, SetPosition 4, Reset, Rewind, SetLimit 3, Flip] example_memory (Some 200) =
     Inr (setBuffer example_memory (Some 200)
       (example_buffer\<lparr>position := 0, limit := 0\<rparr>)) \<and>
   cursor_calls [SetLimit 0] example_memory (Some 200) = Inl AssertFailed"
  using parcBuffer_cursor_refinement [OF example_buffer_at, of "[Mark, SetPosition 4, Reset, Rewind, SetLimit 3, Flip]"]
    parcBuffer_cursor_refinement [OF example_buffer_at, of "[SetLimit 0]"]
  by (simp add: example_buffer_def)

section \<open>Views that share a byte array\<close>

text \<open>The bytes between the position and the limit.\<close>

definition remaining_bytes :: "parc_buffer \<Rightarrow> parc_byte_array \<Rightarrow> u8 list" where
  "remaining_bytes b x =
     bytes_at (unat (arrayOffset b) + unat (position b)) (unat (limit b - position b)) (ba_bytes x)"

text \<open>\<open>h'\<close> is \<open>h\<close> with a new buffer \<open>b\<close> at \<open>a\<close> that holds one more reference to the array at \<open>c\<close>.\<close>

definition view_added :: "memory \<Rightarrow> addr \<Rightarrow> addr \<Rightarrow> parc_buffer \<Rightarrow> memory \<Rightarrow> bool" where
  "view_added h c a b h' \<longleftrightarrow>
     (\<exists>header. objects h c = Some header \<and>
        added (parcObject_SetHeader h c (header\<lparr>references := references header + 1\<rparr>)) a
          (buffer_header b) h')"

lemma is_byte_array_references:
  "is_byte_array header x \<Longrightarrow> n \<noteq> 0 \<Longrightarrow> is_byte_array (header\<lparr>references := n\<rparr>) x"
  by (simp add: is_byte_array_def)

lemma references_Suc:
  assumes "objects h c = Some header" "Suc (object_count c h) < 2 ^ 64"
  shows "unat (references header + 1) = Suc (unat (references header))" "references header + 1 \<noteq> 0"
proof -
  show u: "unat (references header + 1) = Suc (unat (references header))"
    using assms by (subst unat_add_no_wrap) (auto simp: object_count_def)
  show "references header + 1 \<noteq> 0" using u by (metis unat_0 nat.distinct(1))
qed

lemma view_added_at:
  assumes "view_added h c a b h'" "byte_array_at h c x" "Suc (object_count c h) < 2 ^ 64"
    and "array b = Some c" "buffer_inv b x"
  shows "buffer_at h' a b x" "byte_array_at h' c x" "object_count c h' = Suc (object_count c h)"
    and "objects h a = None" "\<And>o'. o' \<noteq> a \<Longrightarrow> o' \<noteq> c \<Longrightarrow> objects h' o' = objects h o'"
    and "heap_wf h'"
proof -
  obtain header where h: "objects h c = Some header" "is_byte_array header x"
    using assms(2) by (rule byte_array_atE)
  let ?header = "header\<lparr>references := references header + 1\<rparr>"
  have add: "added (parcObject_SetHeader h c ?header) a (buffer_header b) h'"
    using assms(1) h(1) by (auto simp: view_added_def)
  have a: "c \<noteq> a" "objects h' c = Some ?header"
    using added_objects(3) [OF add, of c] by simp_all
  have "is_byte_array ?header x"
    using h references_Suc(2) [OF h(1) assms(3)] by (simp add: is_byte_array_references)
  with a show c: "byte_array_at h' c x" by (simp add: byte_array_at_def)
  show "buffer_at h' a b x"
    by (rule buffer_at_intro [OF added_objects(1) [OF add] _ assms(4) c assms(5)]) simp
  show "object_count c h' = Suc (object_count c h)"
    using a(2) h(1) references_Suc [OF h(1) assms(3)] by (simp add: object_count_def)
  show "objects h a = None" using add a(1) by (simp add: added_def)
  show "objects h' o' = objects h o'" if "o' \<noteq> a" "o' \<noteq> c" for o'
    using add that by (simp add: added_def)
  show "heap_wf h'" using add by (simp add: added_def)
qed

text \<open>The steps by which a buffer is made on an array that exists.\<close>

lemma create_view:
  assumes "heap_wf h" "byte_array_at h c x" "Suc (object_count c h) < 2 ^ 64"
    "\<not> allocFails h (allocCount h)"
    and "pos \<le> lim" "lim \<le> cap" "unat off + unat cap \<le> unat (ba_length x)"
  defines "b \<equiv> \<lparr>array = Some c, capacity = cap, arrayOffset = off, position = pos, limit = lim,
    mark = SIZE_MAX\<rparr>"
  obtains a h1 h2 h3 where
    "parcBuffer_getInstance h = Inr (Some a, h1)"
    "\<forall>o' b'. buffer_at h o' b' x \<longrightarrow> bufferOf h1 (Some o') = Inr b'"
    "parcByteArray_Acquire h1 (Some c) = Inr (Some c, h2)"
    "\<forall>o' b'. buffer_at h o' b' x \<longrightarrow> array b' = Some c \<longrightarrow> buffer_at h2 o' b' x"
    "parcByteArray_Capacity h2 (Some c) = Inr (ba_length x)"
    "parcBuffer_Init h2 (Some a) (Some c) off pos lim cap = Inr h3"
    "view_added h c a b h3" "buffer_inv b x"
  using assms(1)
proof (cases rule: parcBuffer_getInstance_cases)
  case oom
  with assms(4) show thesis by simp
next
  case (new a h1)
  note B = added_objects [OF new(2)]
  obtain header where h: "objects h c = Some header" "is_byte_array header x"
    using assms(2) by (rule byte_array_atE)
  let ?header = "header\<lparr>references := references header + 1\<rparr>"
  define h2 where "h2 = parcObject_SetHeader h1 c ?header"
  have c: "c \<noteq> a" "objects h1 c = Some header" using B(3) [of c] h(1) by auto
  have "object_at byteArray_types h1 c header"
    using c h(2) by (auto simp: object_at_def object_ok_def is_byte_array_def)
  then have acq: "parcByteArray_Acquire h1 (Some c) = Inr (Some c, h2)"
    by (simp add: parcByteArray_Acquire_def parcObject_Acquire_ok h2_def)
  have c2: "byte_array_at h2 c x"
    using h(2) references_Suc(2) [OF h(1) assms(3)]
    by (simp add: h2_def byte_array_at_def is_byte_array_references)
  have "objects h2 a = Some (parcObjectHeader_InitAllocated PARCBuffer_base PARCBuffer_class garbage)"
    using B(1) c(1) by (simp add: h2_def)
  note init = parcBuffer_Init_ok [OF this c2 c(1) assms(5-7), folded b_def]
  have "added (parcObject_SetHeader h c ?header) a
      ((parcObjectHeader_InitAllocated PARCBuffer_base PARCBuffer_class garbage)
        \<lparr>payload := BufferContent b\<rparr>) (parcObject_SetHeader h2 a (buffer_header b))"
    using new(2) c by (auto simp: added_def h2_def init_object)
  then have "view_added h c a b (parcObject_SetHeader h2 a (buffer_header b))"
    using h(1) by (auto simp: view_added_def init_object)
  moreover have "buffer_at h2 o' b' x" if "buffer_at h o' b' x" "array b' = Some c" for o' b'
  proof (rule buffer_at_transfer [OF that])
    show "objects h2 o' = objects h o'"
      using B(3) [of o'] that by (auto simp: h2_def elim!: buffer_atE)
  qed (simp_all add: c2)
  moreover have "bufferOf h1 (Some o') = Inr b'" if "buffer_at h o' b' x" for o' b'
    using B(3) [of o'] that
    by (auto simp: bufferOf_def parcObject_Header_def is_buffer_def elim!: buffer_atE)
  moreover have "buffer_inv b x" using init(2) by (rule buffer_atE)
  moreover have "parcByteArray_Capacity h2 (Some c) = Inr (ba_length x)" using c2 by simp
  ultimately show thesis
    using that [of a h1 h2 "parcObject_SetHeader h2 a (buffer_header b)"] new(1) acq init(1)
    by blast
qed

text \<open>Releasing the new buffer undoes its creation.\<close>

lemma view_released:
  assumes "view_added h c a b h3" "byte_array_at h c x" "Suc (object_count c h) < 2 ^ 64"
    and "array b = Some c"
  shows "\<exists>h'. parcBuffer_Release h3 (Some a) = Inr (0, h') \<and> same_objects h h'"
proof -
  obtain header where h: "objects h c = Some header" "is_byte_array header x"
    using assms(2) by (rule byte_array_atE)
  let ?header = "header\<lparr>references := references header + 1\<rparr>"
  have add: "added (parcObject_SetHeader h c ?header) a (buffer_header b) h3"
    using assms(1) h(1) by (auto simp: view_added_def)
  have c: "c \<noteq> a" "objects h3 c = Some ?header" using added_objects(3) [OF add, of c] by simp_all
  let ?h4 = "parcObject_SetHeader h3 a ((buffer_header b)\<lparr>references := 0\<rparr>)"
  note r = references_Suc [OF h(1) assms(3)]
  have "byte_array_at ?h4 c x"
    using c h(2) r(2) by (simp add: byte_array_at_def is_byte_array_references)
  moreover have "1 < object_count c ?h4"
    using c r h(2) by (simp add: object_count_def is_byte_array_def unat_gt_0)
  ultimately have rel: "parcByteArray_Release ?h4 (Some c) =
      Inr (references header, parcObject_SetHeader ?h4 c (?header\<lparr>references := references header\<rparr>))"
    using parcByteArray_Release_shared [of ?h4 c x] c by auto
  have same: "?header\<lparr>references := references header\<rparr> = header" by (cases header) simp
  obtain h' where "parcBuffer_Release h3 (Some a) = Inr (0, h')"
      "objects h' = (objects (parcObject_SetHeader ?h4 c header))(a := None)"
      "blocks h' = (blocks h3)(a - 152 := False)"
    using parcBuffer_Release_last [OF added_objects(1) [OF add] _ _ assms(4) c(1) rel] c
      added_objects(2) [OF add] same by auto
  moreover have "(objects (parcObject_SetHeader ?h4 c header))(a := None) = objects h"
    "(blocks h3)(a - 152 := False) = blocks h"
    using add c(1) h(1) by (auto simp: added_def fun_eq_iff)
  ultimately show ?thesis by (auto simp: same_objects_def)
qed

text \<open>The new buffer beside the original, and gone again after its release.\<close>

definition shares :: "memory \<Rightarrow> addr \<Rightarrow> parc_buffer \<Rightarrow> addr \<Rightarrow> parc_buffer \<Rightarrow> parc_byte_array \<Rightarrow> memory \<Rightarrow> bool" where
  "shares h a b a' b' x h' \<longleftrightarrow>
     objects h a' = None \<and> array b' = array b \<and> buffer_at h' a b x \<and> buffer_at h' a' b' x \<and>
     object_count (the (array b)) h' = Suc (object_count (the (array b)) h) \<and>
     (\<exists>h''. parcBuffer_Release h' (Some a') = Inr (0, h'') \<and> same_objects h h'')"

lemma view_shares:
  assumes "buffer_at h a b x" "array b = Some c" "Suc (object_count c h) < 2 ^ 64"
    and "view_added h c a' b' h'" "array b' = Some c" "buffer_inv b' x"
  shows "shares h a b a' b' x h'"
proof -
  obtain c' where c: "byte_array_at h c x" "c \<noteq> a" "objects h a \<noteq> None"
    using assms(1,2) by (auto elim!: buffer_atE)
  note v = view_added_at [OF assms(4) c(1) assms(3,5,6)]
  have "a \<noteq> a'" using v(4) c(3) by auto
  then have "objects h' a = objects h a" using v(5) [of a] c(2) by auto
  then have "buffer_at h' a b x" by (rule buffer_at_transfer [OF assms(1,2) _ v(2)]) simp
  with v(1,3,4) view_released [OF assms(4) c(1) assms(3,5)] assms(2,5) show ?thesis
    by (simp add: shares_def)
qed

text \<open>
  The slice of a valid buffer is a new buffer on the same byte array whose window is exactly what
  remained of the original: it starts at the original's position, its limit and capacity are the
  original's remaining bytes, position 0, no mark, and it shows the same bytes. The original is as it was, the
  array has one more reference, and releasing the slice brings memory back to where it was.
\<close>

theorem parcBuffer_Slice_shares:
  assumes "buffer_at h a b x" "heap_wf h" "\<not> allocFails h (allocCount h)"
    and "Suc (object_count (the (array b)) h) < 2 ^ 64"
  shows "\<exists>a' b' h'. parcBuffer_Slice h (Some a) = Inr (Some a', h') \<and> shares h a b a' b' x h' \<and>
    unat (arrayOffset b') = unat (arrayOffset b) + unat (position b) \<and> position b' = 0 \<and>
    unat (limit b') = unat (limit b) - unat (position b) \<and> capacity b' = limit b' \<and> mark b' = SIZE_MAX \<and>
    remaining_bytes b' x = remaining_bytes b x"
proof -
  obtain c where c: "array b = Some c" "byte_array_at h c x" "buffer_inv b x"
    using assms(1) by (rule buffer_atE)
  have le: "unat (position b) \<le> unat (limit b)" "unat (limit b) \<le> unat (capacity b)"
    "unat (arrayOffset b) + unat (capacity b) \<le> unat (ba_length x)"
    using c(3) by (auto simp: buffer_inv_def word_le_nat_alt)
  have rest: "unat (limit b - position b) = unat (limit b) - unat (position b)"
    using c(3) by (simp add: buffer_inv_def unat_diff_le)
  have off: "unat (arrayOffset b + position b) = unat (arrayOffset b) + unat (position b)"
    using le unat_bound [of "ba_length x"] by (intro unat_add_no_wrap) linarith
  have cap: "unat (arrayOffset b + position b) + unat (limit b - position b) \<le> unat (ba_length x)"
    using le by (simp add: rest off)
  have cnt: "Suc (object_count c h) < 2 ^ 64" using assms(4) c(1) by simp
  define b' where "b' = \<lparr>array = Some c, capacity = limit b - position b,
    arrayOffset = arrayOffset b + position b, position = 0, limit = limit b - position b,
    mark = SIZE_MAX\<rparr>"
  obtain a' h1 h2 h3 where v:
      "parcBuffer_getInstance h = Inr (Some a', h1)"
      "\<forall>o' b'. buffer_at h o' b' x \<longrightarrow> bufferOf h1 (Some o') = Inr b'"
      "parcByteArray_Acquire h1 (Some c) = Inr (Some c, h2)"
      "\<forall>o' b'. buffer_at h o' b' x \<longrightarrow> array b' = Some c \<longrightarrow> buffer_at h2 o' b' x"
      "parcByteArray_Capacity h2 (Some c) = Inr (ba_length x)"
      "parcBuffer_Init h2 (Some a') (Some c) (arrayOffset b + position b) 0 (limit b - position b)
         (limit b - position b) = Inr h3"
      "view_added h c a' b' h3" "buffer_inv b' x"
    by (rule create_view [OF assms(2) c(2) cnt assms(3) word_zero_le order.refl cap, folded b'_def]) blast
  have b': "array b' = Some c" by (simp add: b'_def)
  note s = view_shares [OF assms(1) c(1) cnt v(7) b' v(8)]
  then have "assertInvariants h3 (Some a') = Inr ()"
    by (intro assertInvariants_ok [of h3 a' b' x]) (simp add: shares_def)
  then have "parcBuffer_Slice h (Some a) = Inr (Some a', h3)"
    using v(1,3,6) v(2,4) [rule_format, OF assms(1)] c(1)
    by (simp add: parcBuffer_Slice_def)
  moreover have "remaining_bytes b' x = remaining_bytes b x"
    by (simp add: b'_def remaining_bytes_def off)
  ultimately show ?thesis using s rest off unfolding b'_def by auto
qed

theorem parcBuffer_Slice_shares_witness:
  "\<exists>a' b' h'. parcBuffer_Slice example_memory (Some 200) = Inr (Some a', h') \<and>
     remaining_bytes b' example_array = [13, 14, 15, 16] \<and> position b' = 0 \<and>
     shares example_memory 200 example_buffer a' b' example_array h'"
proof -
  have r: "remaining_bytes example_buffer example_array = [13, 14, 15, 16]"
    by (simp add: remaining_bytes_def example_buffer_def example_array_def bytes_at_def ba_bytes_def
        upt_rec)
  have "Suc (object_count (the (array example_buffer)) example_memory) < 2 ^ 64"
    "\<not> allocFails example_memory (allocCount example_memory)"
    by (simp_all add: object_count_def example_memory_def example_buffer_def empty_heap_def)
  from parcBuffer_Slice_shares [OF example_buffer_at example_memory_wf this(2,1)]
  show ?thesis unfolding r by blast
qed

text \<open>
  The duplicate of a valid buffer shares its byte array and has the same offset, capacity,
  position and limit, but no mark. The original is as it was and releasing the duplicate brings memory back to
  where it was.
\<close>

theorem parcBuffer_Duplicate_shares:
  assumes "buffer_at h a b x" "heap_wf h" "\<not> allocFails h (allocCount h)"
    and "Suc (object_count (the (array b)) h) < 2 ^ 64"
  shows "\<exists>a' h'. parcBuffer_Duplicate h (Some a) = Inr (Some a', h') \<and>
    shares h a b a' (b\<lparr>mark := SIZE_MAX\<rparr>) x h'"
proof -
  obtain c where c: "array b = Some c" "byte_array_at h c x" "buffer_inv b x"
    using assms(1) by (rule buffer_atE)
  have le: "position b \<le> limit b" "limit b \<le> capacity b"
    "unat (arrayOffset b) + unat (capacity b) \<le> unat (ba_length x)"
    using c(3) by (auto simp: buffer_inv_def)
  have b': "b\<lparr>mark := SIZE_MAX\<rparr> = \<lparr>array = Some c, capacity = capacity b, arrayOffset = arrayOffset b,
      position = position b, limit = limit b, mark = SIZE_MAX\<rparr>"
    using c(1) by (cases b) simp
  have cnt: "Suc (object_count c h) < 2 ^ 64" using assms(4) c(1) by simp
  obtain a' h1 h2 h3 where v:
      "parcBuffer_getInstance h = Inr (Some a', h1)"
      "\<forall>o' b'. buffer_at h o' b' x \<longrightarrow> bufferOf h1 (Some o') = Inr b'"
      "parcByteArray_Acquire h1 (Some c) = Inr (Some c, h2)"
      "\<forall>o' b'. buffer_at h o' b' x \<longrightarrow> array b' = Some c \<longrightarrow> buffer_at h2 o' b' x"
      "parcByteArray_Capacity h2 (Some c) = Inr (ba_length x)"
      "parcBuffer_Init h2 (Some a') (Some c) (arrayOffset b) (position b) (limit b) (capacity b) = Inr h3"
      "view_added h c a' (b\<lparr>mark := SIZE_MAX\<rparr>) h3" "buffer_inv (b\<lparr>mark := SIZE_MAX\<rparr>) x"
    by (rule create_view [OF assms(2) c(2) cnt assms(3) le, folded b']) blast
  have "array (b\<lparr>mark := SIZE_MAX\<rparr>) = Some c" using c(1) by simp
  note s = view_shares [OF assms(1) c(1) cnt v(7) this v(8)]
  then have "assertInvariants h3 (Some a') = Inr ()"
    by (intro assertInvariants_ok [of h3 a' "b\<lparr>mark := SIZE_MAX\<rparr>" x]) (simp add: shares_def)
  then have "parcBuffer_Duplicate h (Some a) = Inr (Some a', h3)"
    using v(1,3,6) v(2,4) [rule_format, OF assms(1)] c(1)
    by (simp add: parcBuffer_Duplicate_def)
  with s show ?thesis by blast
qed

theorem parcBuffer_Duplicate_shares_witness:
  "\<exists>a' h'. parcBuffer_Duplicate example_memory (Some 200) = Inr (Some a', h') \<and>
     shares example_memory 200 example_buffer a' (example_buffer\<lparr>mark := SIZE_MAX\<rparr>) example_array h'"
  by (rule parcBuffer_Duplicate_shares [OF example_buffer_at example_memory_wf])
    (simp_all add: object_count_def example_memory_def example_buffer_def empty_heap_def)

section \<open>Resizing\<close>

text \<open>Giving one reference to a byte array back, last or not, changes no other object.\<close>

lemma parcByteArray_Release_any:
  assumes "byte_array_at h c x" "blocks h (c - 152)"
  shows "\<exists>r h'. parcByteArray_Release h (Some c) = Inr (r, h') \<and>
    (\<forall>o'. o' \<noteq> c \<longrightarrow> objects h' o' = objects h o') \<and> object_count c h' = object_count c h - 1"
proof -
  obtain header where h: "objects h c = Some header" "is_byte_array header x"
    using assms(1) by (rule byte_array_atE)
  have "0 < unat (references header)" using h(2) by (simp add: is_byte_array_def unat_gt_0)
  then consider "references header = 1" | "1 < unat (references header)"
    by (metis Suc_lessI One_nat_def unat_1 word_unat_eq_iff)
  then show ?thesis
  proof cases
    case 1
    then show ?thesis
      using parcByteArray_Release_last [OF h 1 assms(2)] h(1) by (auto simp: object_count_def)
  next
    case 2
    then have "1 \<le> references header" by (simp add: word_le_nat_alt)
    with 2 h(1) parcByteArray_Release_shared [OF assms(1)] show ?thesis
      by (auto simp: object_count_def unat_diff_le)
  qed
qed

lemma computeNewLimit_eq:
  "l \<le> c \<Longrightarrow> computeNewLimit c l n = (if l = c then n else min l n)"
  by (auto simp: computeNewLimit_def min_def Let_def not_less)

lemma computeNewMark_eq:
  "l \<le> n \<Longrightarrow> computeNewMark m l n = (if m \<le> l then m else SIZE_MAX)"
  by (auto simp: computeNewMark_def Let_def not_less not_le)

definition resized_array :: "parc_buffer \<Rightarrow> parc_byte_array \<Rightarrow> size_t \<Rightarrow> parc_byte_array" where
  "resized_array b x n =
     ba_put 0 (bytes_at (unat (arrayOffset b)) (unat (min (capacity b) n)) (ba_bytes x)) (zero_array n)"

definition resized_buffer :: "ptr \<Rightarrow> parc_buffer \<Rightarrow> size_t \<Rightarrow> parc_buffer" where
  "resized_buffer c b n =
     (let newLimit = (if limit b = capacity b then n else min (limit b) n)
      in \<lparr>array = c, capacity = n, arrayOffset = 0, position = min (position b) newLimit, limit = newLimit,
          mark = (if mark b \<le> newLimit then mark b else SIZE_MAX)\<rparr>)"

lemma resized_array_bytes:
  assumes "buffer_inv b x" "byte_array_wf x"
  shows "ba_bytes (resized_array b x n) =
      take (unat n) (bytes_at (unat (arrayOffset b)) (unat (capacity b)) (ba_bytes x)) @
      replicate (unat n - unat (capacity b)) 0"
    and "byte_array_wf (resized_array b x n)" "ba_length (resized_array b x n) = n"
proof -
  have len: "unat (arrayOffset b) + unat (capacity b) \<le> length (ba_bytes x)"
    using assms by (simp add: buffer_inv_def byte_array_wf_def)
  have k: "unat (min (capacity b) n) = min (unat (capacity b)) (unat n)"
    by (simp add: min_def word_le_nat_alt)
  show "ba_bytes (resized_array b x n) =
      take (unat n) (bytes_at (unat (arrayOffset b)) (unat (capacity b)) (ba_bytes x)) @
      replicate (unat n - unat (capacity b)) 0"
    using len by (cases "n \<le> capacity b")
      (auto simp: resized_array_def put_bytes_def bytes_at_def min_def word_le_nat_alt)
  show "byte_array_wf (resized_array b x n)"
    using len by (auto simp: resized_array_def k intro!: byte_array_wf_put)
  show "ba_length (resized_array b x n) = n"
    by (simp add: resized_array_def zero_array_def)
qed

lemma resized_buffer_inv:
  "buffer_inv b x \<Longrightarrow> buffer_inv (resized_buffer c b n) (resized_array b x n)"
  by (auto simp: buffer_inv_def resized_buffer_def Let_def markIsDiscarded_def resized_array_def
      zero_array_def)

text \<open>
  Resizing a valid buffer keeps the pointer and gives the buffer a new array of exactly the new capacity that
  starts with the old window, cut off or extended by zeros; the limit stays unless it was the
  capacity (then it follows the capacity) or has to shrink, the position and the mark are cut back
  to the limit (the mark by discarding it), and one reference to the old array is given back.
\<close>

theorem parcBuffer_Resize_contents:
  assumes "buffer_at h a b x" "heap_wf h" "\<forall>k. \<not> allocFails h k" "blocks h (the (array b) - 152)"
  shows "\<exists>c' h'. parcBuffer_Resize h (Some a) n = Inr (Some a, h') \<and> objects h c' = None \<and>
    buffer_at h' a (resized_buffer (Some c') b n) (resized_array b x n) \<and>
    ba_bytes (resized_array b x n) =
      take (unat n) (bytes_at (unat (arrayOffset b)) (unat (capacity b)) (ba_bytes x)) @
      replicate (unat n - unat (capacity b)) 0 \<and>
    object_count (the (array b)) h' = object_count (the (array b)) h - 1"
  using assms(2)
proof (cases rule: parcByteArray_Allocate_cases [where n = n])
  case (oom h')
  with assms(3) show ?thesis by blast
next
  case (new c' h1)
  obtain c header where c: "objects h a = Some header" "array b = Some c" "byte_array_at h c x"
      "buffer_inv b x" "c \<noteq> a"
    using assms(1) by (rule buffer_atE)
  have wf: "byte_array_wf x" using byte_array_at_wf [OF c(3)] by (simp add: byte_array_wf_def)
  note A = added_objects [OF new(2)]
  have ne: "c \<noteq> c'" "a \<noteq> c'" "objects h1 c = objects h c" "objects h1 a = objects h a"
    using A(3) [of c] A(3) [of a] c byte_array_at_objects [OF c(3)] by auto
  have at1: "buffer_at h1 a b x"
    using c(3) ne by (auto intro!: buffer_at_transfer [OF assms(1) c(2)] simp: byte_array_at_def)
  have new1: "byte_array_at h1 c' (zero_array n)" using new(2) by (rule byte_array_at_added) simp
  define src where "src = bytes_at (unat (arrayOffset b)) (unat (min (capacity b) n)) (ba_bytes x)"
  let ?k = "if capacity b > n then n else capacity b"
  have k: "?k = min (capacity b) n" by (auto simp: min_def)
  have src: "length src = unat ?k"
    using c(4) wf by (auto simp: src_def k buffer_inv_def byte_array_wf_def min_def word_le_nat_alt)
  define h2 where "h2 = setContent h1 (Some c') (ByteArrayContent (resized_array b x n))"
  have "take (unat ?k) (drop (unat (arrayOffset b)) (ba_bytes x)) = src"
    by (simp only: src_def bytes_at_def k)
  moreover have "unat ?k \<le> unat n" by (simp add: word_le_nat_alt [symmetric] not_less)
  ultimately have put: "parcByteArray_PutBytes h1 (Some c') 0 ?k (drop (unat (arrayOffset b)) (ba_bytes x)) =
      Inr h2"
    using parcByteArray_PutBytes_ok [OF new1 src, of 0]
    by (subst parcByteArray_PutBytes_take) (simp add: h2_def resized_array_def src_def zero_array_def)
  have "byte_array_at h1 c x" using c(3) ne(3) by (simp add: byte_array_at_def)
  then have arr: "parcByteArray_Array h1 (Some c) = Inr (ba_bytes x)"
    and h2: "byte_array_at h2 c x" "byte_array_at h2 c' (resized_array b x n)"
      "objects h2 a = objects h a" "blocks h2 (c - 152)"
    using ne c(2) byte_array_at_set [OF new1] resized_array_bytes(2) [OF c(4) wf]
      A(4) [OF assms(4)] by (simp_all add: h2_def parcByteArray_Array_def)
  obtain r h3 where h3: "parcByteArray_Release h2 (Some c) = Inr (r, h3)"
      "\<forall>o'. o' \<noteq> c \<longrightarrow> objects h3 o' = objects h2 o'" "object_count c h3 = object_count c h2 - 1"
    using parcByteArray_Release_any [OF h2(1,4)] by blast
  have cnt: "object_count c h2 = object_count c h" using ne by (simp add: h2_def object_count_def)
  have same: "b\<lparr>array := Some c', arrayOffset := 0, limit := computeNewLimit (capacity b) (limit b) n,
      mark := computeNewMark (mark b) (computeNewLimit (capacity b) (limit b) n) n, capacity := n,
      position := (if position b < computeNewLimit (capacity b) (limit b) n then position b
                   else computeNewLimit (capacity b) (limit b) n)\<rparr> = resized_buffer (Some c') b n"
    using c(4) by (cases b) (auto simp: resized_buffer_def buffer_inv_def computeNewLimit_eq
        computeNewMark_eq min_def Let_def)
  define h4 where "h4 = setBuffer h3 (Some a) (resized_buffer (Some c') b n)"
  have at4: "buffer_at h4 a (resized_buffer (Some c') b n) (resized_array b x n)"
    using assms(1) c(1,5) ne h2 h3(2) resized_buffer_inv [OF c(4), of "Some c'" n]
    by (auto simp: h4_def buffer_at_def setBuffer_def setContent_def is_buffer_def byte_array_at_def
        resized_buffer_def Let_def)
  have "parcBuffer_Resize h (Some a) n = Inr (Some a, h4)"
    using assms(1) at1 at4 new(1) put h3(1) c arr
    by (cases "n < capacity b") (simp_all add: parcBuffer_Resize_def Let_def same h4_def)
  moreover have "object_count c h4 = object_count c h - 1"
    using h3(3) cnt c(5) by (simp add: h4_def object_count_def setBuffer_def)
  ultimately show ?thesis
    using at4 A(6) resized_array_bytes(1) [OF c(4) wf] c(2) by auto
qed

theorem parcBuffer_Resize_contents_witness:
  "\<exists>c' h'. parcBuffer_Resize example_memory (Some 200) 8 = Inr (Some 200, h') \<and>
     buffer_at h' 200 (resized_buffer (Some c') example_buffer 8) (resized_array example_buffer example_array 8) \<and>
     ba_bytes (resized_array example_buffer example_array 8) = [12, 13, 14, 15, 16, 17, 0, 0]"
proof -
  have e: "take (unat (8 :: size_t)) (bytes_at (unat (arrayOffset example_buffer))
      (unat (capacity example_buffer)) (ba_bytes example_array)) @
      replicate (unat (8 :: size_t) - unat (capacity example_buffer)) 0 = [12, 13, 14, 15, 16, 17, 0, 0 :: u8]"
    by (simp add: example_buffer_def example_array_def bytes_at_def ba_bytes_def upt_rec)
      (simp add: numeral_2_eq_2)
  have "\<forall>k. \<not> allocFails example_memory k" "blocks example_memory (the (array example_buffer) - 152)"
    by (simp_all add: example_memory_def example_buffer_def empty_heap_def)
  from parcBuffer_Resize_contents [OF example_buffer_at example_memory_wf this, of 8] show ?thesis
    unfolding e by blast
qed

end
