(* ===== verification/Parc_Bytes.thy ===== *)
theory Parc_Bytes
  imports Parc_Prelude
begin

text \<open>
  Interfaces for components bytes are written to and read from. A \<open>byte_sink\<close> takes bytes one after
  the other; a \<open>byte_tape\<close> also has a position that can be moved and reads back what lies after it.
  What is proved here once holds for PARCBuffer and PARCBufferComposer.
\<close>

section \<open>Repeated writes and reads\<close>

fun put_list :: "('s \<Rightarrow> u8 \<Rightarrow> 's result) \<Rightarrow> u8 list \<Rightarrow> 's \<Rightarrow> 's result" where
  "put_list put [] s = Inr s"
| "put_list put (v # vs) s = rbind (put s v) (put_list put vs)"

fun get_be :: "('s \<Rightarrow> (u8 \<times> 's) result) \<Rightarrow> nat \<Rightarrow> 'a::len word \<Rightarrow> 's \<Rightarrow> ('a word \<times> 's) result" where
  "get_be get 0 r s = Inr (r, s)"
| "get_be get (Suc n) r s = rbind (get s) (\<lambda>(b, s'). get_be get n (push_bit 8 r OR ucast b) s')"

lemma put_list_append:
  "put_list put (xs @ ys) s = rbind (put_list put xs s) (put_list put ys)"
  by (induction xs arbitrary: s) (auto simp: rbind_assoc intro!: rbind_cong)

section \<open>Sinks\<close>

locale byte_sink =
  fixes put :: "'s \<Rightarrow> u8 \<Rightarrow> 's result"
    and ok :: "'s \<Rightarrow> bool"
    and room :: "'s \<Rightarrow> nat \<Rightarrow> bool"
    and out :: "'s \<Rightarrow> u8 list"
  assumes put_ok: "ok s \<Longrightarrow> room s (Suc n) \<Longrightarrow>
    \<exists>s'. put s v = Inr s' \<and> ok s' \<and> room s' n \<and> out s' = out s @ [v]"
begin

lemma put_list_ok:
  "ok s \<Longrightarrow> room s (length vs + n) \<Longrightarrow>
     \<exists>s'. put_list put vs s = Inr s' \<and> ok s' \<and> room s' n \<and> out s' = out s @ vs"
proof (induction vs arbitrary: s)
  case (Cons v vs)
  then obtain s1 where s1: "put s v = Inr s1" "ok s1" "room s1 (length vs + n)" "out s1 = out s @ [v]"
    using put_ok [of s "length vs + n" v] by auto
  with Cons.IH [OF s1(2,3)] show ?case by auto
qed auto

end

section \<open>Tapes\<close>

locale byte_tape =
  fixes put :: "'s \<Rightarrow> u8 \<Rightarrow> 's result"
    and get :: "'s \<Rightarrow> (u8 \<times> 's) result"
    and seek :: "'s \<Rightarrow> nat \<Rightarrow> 's result"
    and ok :: "'s \<Rightarrow> bool"
    and out :: "'s \<Rightarrow> u8 list"
    and rest :: "'s \<Rightarrow> u8 list"
    and overflow underflow :: trap
  assumes put_Cons: "ok s \<Longrightarrow> rest s = w # ws \<Longrightarrow>
      \<exists>s'. put s v = Inr s' \<and> ok s' \<and> out s' = out s @ [v] \<and> rest s' = ws"
    and put_Nil: "ok s \<Longrightarrow> rest s = [] \<Longrightarrow> put s v = Inl overflow"
    and get_Cons: "ok s \<Longrightarrow> rest s = w # ws \<Longrightarrow>
      \<exists>s'. get s = Inr (w, s') \<and> ok s' \<and> out s' = out s @ [w] \<and> rest s' = ws"
    and get_Nil: "ok s \<Longrightarrow> rest s = [] \<Longrightarrow> get s = Inl underflow"
    and seek_ok: "ok s \<Longrightarrow> n \<le> length (out s @ rest s) \<Longrightarrow>
      \<exists>s'. seek s n = Inr s' \<and> ok s' \<and> out s' = take n (out s @ rest s) \<and>
        rest s' = drop n (out s @ rest s)"
begin

lemma put_list_tape:
  "ok s \<Longrightarrow> length vs \<le> length (rest s) \<Longrightarrow>
     \<exists>s'. put_list put vs s = Inr s' \<and> ok s' \<and> out s' = out s @ vs \<and> rest s' = drop (length vs) (rest s)"
proof (induction vs arbitrary: s)
  case (Cons v vs)
  then obtain w ws where r: "rest s = w # ws" by (cases "rest s") auto
  obtain s1 where s1: "put s v = Inr s1" "ok s1" "out s1 = out s @ [v]" "rest s1 = ws"
    using put_Cons [OF Cons.prems(1) r] by blast
  with Cons.IH [OF s1(2)] Cons.prems(2) r show ?case by auto
qed auto

lemma put_list_full:
  "ok s \<Longrightarrow> length (rest s) < length vs \<Longrightarrow> put_list put vs s = Inl overflow"
proof (induction vs arbitrary: s)
  case (Cons v vs)
  show ?case
  proof (cases "rest s")
    case Nil
    then show ?thesis using put_Nil Cons.prems by simp
  next
    case (Cons w ws)
    obtain s1 where s1: "put s v = Inr s1" "ok s1" "rest s1 = ws"
      using put_Cons [OF Cons.prems(1) Cons] by blast
    with Cons.IH [OF s1(2)] Cons.prems(2) Cons show ?thesis by auto
  qed
qed simp

lemma get_be_tape:
  fixes r :: "'a::len word"
  shows "ok s \<Longrightarrow> n \<le> length (rest s) \<Longrightarrow>
     \<exists>s'. get_be get n r s = Inr (r * 256 ^ n + word_of_nat (be_value (take n (rest s))), s') \<and> ok s' \<and>
       out s' = out s @ take n (rest s) \<and> rest s' = drop n (rest s)"
proof (induction n arbitrary: s r)
  case (Suc n)
  then obtain w ws where r: "rest s = w # ws" by (cases "rest s") auto
  obtain s1 where s1: "get s = Inr (w, s1)" "ok s1" "out s1 = out s @ [w]" "rest s1 = ws"
    using get_Cons [OF Suc.prems(1) r] by blast
  let ?r = "push_bit 8 r OR ucast w :: 'a word"
  have n: "n \<le> length ws" using Suc.prems(2) r by simp
  then obtain s2 where s2: "get_be get n ?r s1 = Inr (?r * 256 ^ n + word_of_nat (be_value (take n ws)), s2)"
      "ok s2" "out s2 = out s1 @ take n ws" "rest s2 = drop n ws"
    using Suc.IH [OF s1(2), of ?r] s1(4) by auto
  have "?r * 256 ^ n + word_of_nat (be_value (take n ws)) =
      r * 256 ^ Suc n + word_of_nat (be_value (take (Suc n) (rest s)))"
    using n by (simp add: shift_in_byte r min_absorb2 algebra_simps)
  with s1 s2 r show ?case by simp
qed simp

lemma get_be_short:
  fixes r :: "'a::len word"
  shows "ok s \<Longrightarrow> length (rest s) < n \<Longrightarrow> get_be get n r s = Inl underflow"
proof (induction n arbitrary: s r)
  case (Suc n)
  show ?case
  proof (cases "rest s")
    case Nil
    then show ?thesis using get_Nil Suc.prems by simp
  next
    case (Cons w ws)
    obtain s1 where s1: "get s = Inr (w, s1)" "ok s1" "rest s1 = ws"
      using get_Cons [OF Suc.prems(1) Cons] by blast
    with Suc.IH [OF s1(2)] Suc.prems(2) Cons show ?thesis by auto
  qed
qed simp

text \<open>An integer that was written is read back.\<close>

lemma get_be_written:
  fixes v :: "'a::len word"
  assumes "ok s" "rest s = be_bytes n (unat v) @ ws" "LENGTH('a) = 8 * n"
  shows "\<exists>s'. get_be get n (0 :: 'a word) s = Inr (v, s') \<and> ok s' \<and>
    out s' = out s @ be_bytes n (unat v) \<and> rest s' = ws"
proof -
  have "unat v < 256 ^ n"
    using unat_bound [of v] assms(3) by (simp add: power_mult)
  then show ?thesis
    using get_be_tape [OF assms(1), of n "0 :: 'a word"] assms(2) by auto
qed

end

sublocale byte_tape \<subseteq> tape_sink: byte_sink put ok "\<lambda>s n. n \<le> length (rest s)" out
proof
  fix s n v assume "ok s" "Suc n \<le> length (rest s)"
  then show "\<exists>s'. put s v = Inr s' \<and> ok s' \<and> n \<le> length (rest s') \<and> out s' = out s @ [v]"
    using put_Cons [of s] by (cases "rest s") fastforce+
qed

end
