(* ===== verification/Parc_BufferData.thy ===== *)
theory Parc_BufferData
  imports Parc_Buffer Parc_Bytes
begin

text \<open>
  The operations of \<^verbatim>\<open>parc/algol/parc_Buffer.c\<close> that move bytes: relative and absolute reads and writes,
  big endian integers, comparison and hashing, searching and skipping, the number parsers and the
  hexadecimal conversions. A pointer into a buffer is the list of bytes from there on. A C string is
  the list of its bytes without the terminating zero.
\<close>

section \<open>Reading\<close>

definition parcBuffer_GetAtIndex :: "memory \<Rightarrow> ptr \<Rightarrow> size_t \<Rightarrow> u8 result" where
  "parcBuffer_GetAtIndex h p index =
     rbind (parcBuffer_AssertValid h p) (\<lambda>_.
     rbind (bufferOf h p) (\<lambda>b.
     rbind (trapIfIndexExceedsLimit b index) (\<lambda>_.
     parcByteArray_GetByte h (array b) (effectiveIndex b index))))"

definition parcBuffer_Overlay :: "memory \<Rightarrow> ptr \<Rightarrow> size_t \<Rightarrow> (u8 list \<times> memory) result" where
  "parcBuffer_Overlay h p n =
     rbind (parcBuffer_AssertValid h p) (\<lambda>_.
     rbind (bufferOf h p) (\<lambda>b.
     rbind (trapIfBufferUnderflow b n) (\<lambda>_.
     rbind (parcByteArray_AddressOfIndex h (array b) (effectiveIndex b (position b))) (\<lambda>bytes.
     Inr (bytes, setBuffer h p (b\<lparr>position := position b + n\<rparr>))))))"

definition parcBuffer_GetUint8 :: "memory \<Rightarrow> ptr \<Rightarrow> (u8 \<times> memory) result" where
  "parcBuffer_GetUint8 h p =
     rbind (parcBuffer_AssertValid h p) (\<lambda>_.
     rbind (bufferOf h p) (\<lambda>b.
     rbind (trapIfBufferUnderflow b 1) (\<lambda>_.
     rbind (parcByteArray_GetByte h (array b) (effectivePosition b)) (\<lambda>byte.
     Inr (byte, setBuffer h p (b\<lparr>position := position b + 1\<rparr>))))))"

definition parcBuffer_GetBytes :: "memory \<Rightarrow> ptr \<Rightarrow> size_t \<Rightarrow> (u8 list \<times> memory) result" where
  "parcBuffer_GetBytes h p n =
     rbind (parcBuffer_AssertValid h p) (\<lambda>_.
     rbind (bufferOf h p) (\<lambda>b.
     rbind (trapIfBufferUnderflow b n) (\<lambda>_.
     rbind (parcByteArray_GetBytes h (array b) (effectivePosition b) n) (\<lambda>bytes.
     Inr (bytes, setBuffer h p (b\<lparr>position := position b + n\<rparr>))))))"

definition parcBuffer_GetUint16 :: "memory \<Rightarrow> ptr \<Rightarrow> (u16 \<times> memory) result" where
  "parcBuffer_GetUint16 h p =
     rbind (parcBuffer_GetUint8 h p) (\<lambda>(high, h1).
     rbind (parcBuffer_GetUint8 h1 p) (\<lambda>(low, h2).
     Inr (push_bit 8 (ucast high) OR ucast low, h2)))"

text \<open>The loop \<open>result = result << 8 | parcBuffer_GetUint8(buffer)\<close>, with \<open>n\<close> rounds to go.\<close>

fun getBytes_loop :: "nat \<Rightarrow> 'a::len word \<Rightarrow> memory \<Rightarrow> ptr \<Rightarrow> ('a word \<times> memory) result" where
  "getBytes_loop 0 r h p = Inr (r, h)"
| "getBytes_loop (Suc n) r h p =
     rbind (parcBuffer_GetUint8 h p) (\<lambda>(byte, h1).
     getBytes_loop n (push_bit 8 r OR ucast byte) h1 p)"

definition parcBuffer_GetUint32 :: "memory \<Rightarrow> ptr \<Rightarrow> (u32 \<times> memory) result" where
  "parcBuffer_GetUint32 h p = getBytes_loop 4 0 h p"

definition parcBuffer_GetUint64 :: "memory \<Rightarrow> ptr \<Rightarrow> (u64 \<times> memory) result" where
  "parcBuffer_GetUint64 h p = getBytes_loop 8 0 h p"

definition parcBuffer_PeekByte :: "memory \<Rightarrow> ptr \<Rightarrow> u8 result" where
  "parcBuffer_PeekByte h p =
     rbind (parcBuffer_Position h p) (\<lambda>pos. parcBuffer_GetAtIndex h p pos)"

section \<open>Writing\<close>

definition parcBuffer_PutUint8 :: "memory \<Rightarrow> ptr \<Rightarrow> u8 \<Rightarrow> memory result" where
  "parcBuffer_PutUint8 h p value =
     rbind (parcBuffer_AssertValid h p) (\<lambda>_.
     rbind (parcBuffer_Remaining h p) (\<lambda>n.
     rbind (assertTrue (n \<ge> 1)) (\<lambda>_.
     rbind (bufferOf h p) (\<lambda>b.
     rbind (parcByteArray_PutByte h (array b) (effectivePosition b) value) (\<lambda>h1.
     Inr (setBuffer h1 p (b\<lparr>position := position b + 1\<rparr>)))))))"

definition parcBuffer_PutUint16 :: "memory \<Rightarrow> ptr \<Rightarrow> u16 \<Rightarrow> memory result" where
  "parcBuffer_PutUint16 h p value =
     rbind (parcBuffer_Remaining h p) (\<lambda>n.
     rbind (assertTrue (n \<ge> 2)) (\<lambda>_.
     rbind (parcBuffer_PutUint8 h p (ucast (drop_bit 8 value AND 0xFF))) (\<lambda>h1.
     parcBuffer_PutUint8 h1 p (ucast (value AND 0xFF)))))"

text \<open>The loop over \<open>i\<close>, counting down to 1, that writes \<open>value >> (i * 8) & 0xFF\<close>.\<close>

fun putBytes_loop :: "nat \<Rightarrow> 'a::len word \<Rightarrow> memory \<Rightarrow> ptr \<Rightarrow> memory result" where
  "putBytes_loop i value h p =
     (if i > 0 then
        rbind (parcBuffer_PutUint8 h p (ucast (drop_bit (i * 8) value AND 0xFF))) (\<lambda>h1.
        putBytes_loop (i - 1) value h1 p)
      else Inr h)"

declare putBytes_loop.simps [simp del]

definition parcBuffer_PutUint32 :: "memory \<Rightarrow> ptr \<Rightarrow> u32 \<Rightarrow> memory result" where
  "parcBuffer_PutUint32 h p value =
     rbind (parcBuffer_Remaining h p) (\<lambda>n.
     rbind (assertTrue (n \<ge> 4)) (\<lambda>_.
     rbind (putBytes_loop 3 value h p) (\<lambda>h1.
     parcBuffer_PutUint8 h1 p (ucast (value AND 0xFF)))))"

definition parcBuffer_PutUint64 :: "memory \<Rightarrow> ptr \<Rightarrow> u64 \<Rightarrow> memory result" where
  "parcBuffer_PutUint64 h p value =
     rbind (parcBuffer_Remaining h p) (\<lambda>n.
     rbind (assertTrue (n \<ge> 8)) (\<lambda>_.
     rbind (putBytes_loop 7 value h p) (\<lambda>h1.
     parcBuffer_PutUint8 h1 p (ucast (value AND 0xFF)))))"

definition parcBuffer_PutAtIndex :: "memory \<Rightarrow> ptr \<Rightarrow> size_t \<Rightarrow> u8 \<Rightarrow> memory result" where
  "parcBuffer_PutAtIndex h p index value =
     rbind (parcBuffer_AssertValid h p) (\<lambda>_.
     rbind (bufferOf h p) (\<lambda>b.
     rbind (parcBuffer_Limit h p) (\<lambda>lim.
     rbind (assertTrue (effectiveIndex b index < lim)) (\<lambda>_.
     parcByteArray_PutByte h (array b) (effectiveIndex b index) value))))"

definition parcBuffer_PutArray :: "memory \<Rightarrow> ptr \<Rightarrow> size_t \<Rightarrow> u8 list \<Rightarrow> memory result" where
  "parcBuffer_PutArray h p arrayLength bytes =
     rbind (parcBuffer_AssertValid h p) (\<lambda>_.
     rbind (parcBuffer_Remaining h p) (\<lambda>n.
     rbind (assertTrue (n \<ge> arrayLength)) (\<lambda>_.
     rbind (bufferOf h p) (\<lambda>b.
     rbind (parcByteArray_PutBytes h (array b) (effectivePosition b) arrayLength bytes) (\<lambda>h1.
     rbind (parcBuffer_Position h1 p) (\<lambda>pos.
     parcBuffer_SetPosition h1 p (pos + arrayLength)))))))"

definition parcBuffer_PutCString :: "memory \<Rightarrow> ptr \<Rightarrow> u8 list \<Rightarrow> memory result" where
  "parcBuffer_PutCString h p string =
     parcBuffer_PutArray h p (word_of_nat (length string) + 1) (string @ [0])"

definition parcBuffer_PutBuffer :: "memory \<Rightarrow> ptr \<Rightarrow> ptr \<Rightarrow> memory result" where
  "parcBuffer_PutBuffer h result source =
     rbind (parcBuffer_AssertValid h source) (\<lambda>_.
     rbind (parcBuffer_Remaining h result) (\<lambda>n.
     rbind (parcBuffer_Remaining h source) (\<lambda>m.
     rbind (assertTrue (n \<ge> m)) (\<lambda>_.
     rbind (bufferOf h result) (\<lambda>r.
     rbind (bufferOf h source) (\<lambda>s.
     rbind (parcByteArray_ArrayCopy h (array r) (effectivePosition r) (array s)
       (effectivePosition s) m) (\<lambda>h1.
     rbind (parcBuffer_Position h1 result) (\<lambda>pos.
     parcBuffer_SetPosition h1 result (pos + m)))))))))"

section \<open>Comparing and hashing\<close>

definition parcBuffer_Compare :: "memory \<Rightarrow> ptr \<Rightarrow> ptr \<Rightarrow> (int \<times> memory) result" where
  "parcBuffer_Compare h x y =
     (if x = y then Inr (0, h)
      else if x = None then Inr (-1, h)
      else if y = None then Inr (1, h)
      else
        rbind (parcBuffer_Remaining h x) (\<lambda>rx.
        rbind (parcBuffer_Remaining h y) (\<lambda>ry.
        let count = (if rx > ry then ry else rx)
        in rbind
             (if count > 0 then
                rbind (parcBuffer_Overlay h x 0) (\<lambda>(xs, h1).
                rbind (parcBuffer_Overlay h1 y 0) (\<lambda>(ys, h2).
                Inr (memcmp (take (unat count) xs) (take (unat count) ys), h2)))
              else Inr (0, h)) (\<lambda>(result, h').
           if result = 0 then
             rbind (parcBuffer_Remaining h' x) (\<lambda>rx'.
             rbind (parcBuffer_Remaining h' y) (\<lambda>ry'.
             let difference = sint (rx' - ry')
             in Inr (if difference > 0 then 1 else if difference < 0 then -1 else result, h')))
           else Inr (result, h')))))"

definition parcBuffer_Equals :: "memory \<Rightarrow> ptr \<Rightarrow> ptr \<Rightarrow> (bool \<times> memory) result" where
  "parcBuffer_Equals h x y =
     (if x = y then Inr (True, h)
      else if x = None \<or> y = None then Inr (False, h)
      else rbind (parcBuffer_Compare h x y) (\<lambda>(c, h'). Inr (c = 0, h')))"

definition parcBuffer_HashCode :: "memory \<Rightarrow> ptr \<Rightarrow> (PARCHashCode \<times> memory) result" where
  "parcBuffer_HashCode h p =
     rbind (parcBuffer_Remaining h p) (\<lambda>remaining.
     if remaining > 0 then
       rbind (parcBuffer_Overlay h p 0) (\<lambda>(bytes, h1).
       rbind (parcBuffer_Remaining h1 p) (\<lambda>n.
       Inr (parcHashCode_Hash (take (unat n) bytes), h1)))
     else Inr (0, h))"

section \<open>Searching\<close>

function findUint8_loop :: "memory \<Rightarrow> ptr \<Rightarrow> u8 \<Rightarrow> size_t \<Rightarrow> size_t result" where
  "findUint8_loop h p byte i =
     rbind (parcBuffer_Limit h p) (\<lambda>lim.
     if i < lim then
       rbind (parcBuffer_GetAtIndex h p i) (\<lambda>v.
       if v = byte then Inr i else findUint8_loop h p byte (i + 1))
     else Inr SIZE_MAX)"
  by pat_completeness auto

lemma unat_Suc_less: "i < lim \<Longrightarrow> unat (i + 1) = Suc (unat i)" for i lim :: size_t
  using unat_bound [of lim] by (subst unat_add_no_wrap) (auto simp: word_less_nat_alt)

termination findUint8_loop
proof (relation "measure (\<lambda>(h, p, byte, i). 2 ^ 64 - unat i)")
  fix h p byte i lim v
  assume "i < (lim :: size_t)"
  then show "((h, p, byte, i + 1), h, p, byte, i) \<in> measure (\<lambda>(h, p, byte, i). 2 ^ 64 - unat i)"
    using unat_bound [of i] by (simp add: unat_Suc_less diff_less_mono2)
qed simp

declare findUint8_loop.simps [simp del]

definition parcBuffer_FindUint8 :: "memory \<Rightarrow> ptr \<Rightarrow> u8 \<Rightarrow> size_t result" where
  "parcBuffer_FindUint8 h p byte =
     rbind (parcBuffer_Position h p) (\<lambda>pos. findUint8_loop h p byte pos)"

text \<open>
  \<open>parcBuffer_SkipOver\<close> and \<open>parcBuffer_SkipTo\<close> run the same loop; it stops at the first byte for which
  \<open>found\<close> holds. Every round consumes a byte.
\<close>

definition remaining_count :: "memory \<Rightarrow> ptr \<Rightarrow> nat" where
  "remaining_count h p = (case bufferOf h p of Inl _ \<Rightarrow> 0 | Inr b \<Rightarrow> unat (limit b - position b))"

lemma parcBuffer_AssertValid_position:
  "parcBuffer_AssertValid h p = Inr () \<Longrightarrow> bufferOf h p = Inr b \<Longrightarrow> position b \<le> limit b"
  by (auto simp: parcBuffer_AssertValid_def parcBuffer_CheckValidity_def split: if_splits)

lemma bufferOf_after_setBuffer:
  "bufferOf h p = Inr b \<Longrightarrow> bufferOf (setBuffer h p b') p = Inr b'"
  by (cases p) (auto simp: bufferOf_def setBuffer_def setContent_def split: option.splits)

lemma parcBuffer_GetUint8_consumes:
  assumes "parcBuffer_Remaining h p = Inr n" "n > 0" "parcBuffer_GetUint8 h p = Inr (byte, h1)"
  shows "remaining_count h1 p < remaining_count h p"
proof -
  obtain b where b: "bufferOf h p = Inr b" "n = limit b - position b"
      "parcBuffer_AssertValid h p = Inr ()"
    using assms(1) by (auto simp: parcBuffer_Remaining_def)
  have le: "position b \<le> limit b" using parcBuffer_AssertValid_position b by blast
  then have less: "position b < limit b" using assms(2) b(2) by (auto simp: order.order_iff_strict)
  have h1: "bufferOf h1 p = Inr (b\<lparr>position := position b + 1\<rparr>)"
    using assms(3) b bufferOf_after_setBuffer [OF b(1)] by (auto simp: parcBuffer_GetUint8_def)
  have u: "unat (position b + 1) = Suc (unat (position b))" using less by (rule unat_Suc_less)
  then have "position b + 1 \<le> limit b" using less by (simp add: word_le_nat_alt word_less_nat_alt)
  then show ?thesis
    using b h1 le less u by (simp add: remaining_count_def unat_diff_le word_less_nat_alt)
qed

function skip_loop :: "memory \<Rightarrow> ptr \<Rightarrow> (u8 \<Rightarrow> bool) \<Rightarrow> (bool \<times> memory) result" where
  "skip_loop h p found =
     rbind (parcBuffer_Remaining h p) (\<lambda>n.
     if n > 0 then
       rbind (parcBuffer_GetUint8 h p) (\<lambda>r.
       if found (fst r) then
         rbind (parcBuffer_Position (snd r) p) (\<lambda>pos.
         rbind (parcBuffer_SetPosition (snd r) p (pos - 1)) (\<lambda>h2. Inr (True, h2)))
       else skip_loop (snd r) p found)
     else Inr (False, h))"
  by pat_completeness auto

termination skip_loop
proof (relation "measure (\<lambda>(h, p, found). remaining_count h p)")
  fix h p found n r
  assume "parcBuffer_Remaining h p = Inr n" "0 < n" "parcBuffer_GetUint8 h p = Inr r"
  then have "remaining_count (snd r) p < remaining_count h p"
    by (intro parcBuffer_GetUint8_consumes [of h p n "fst r"]) simp_all
  then show "((snd r, p, found), h, p, found) \<in> measure (\<lambda>(h, p, found). remaining_count h p)"
    by simp
qed simp

declare skip_loop.simps [simp del]

definition parcBuffer_SkipOver ::
  "memory \<Rightarrow> ptr \<Rightarrow> size_t \<Rightarrow> u8 list \<Rightarrow> (bool \<times> memory) result" where
  "parcBuffer_SkipOver h p n bytesToSkipOver =
     skip_loop h p (\<lambda>character. character \<notin> set (take (unat n) bytesToSkipOver))"

definition parcBuffer_SkipTo ::
  "memory \<Rightarrow> ptr \<Rightarrow> size_t \<Rightarrow> u8 list \<Rightarrow> (bool \<times> memory) result" where
  "parcBuffer_SkipTo h p n bytesToSkipTo =
     skip_loop h p (\<lambda>character. character \<in> set (take (unat n) bytesToSkipTo))"

section \<open>Numbers and digits\<close>

text \<open>
  \<open>char\<close> is signed. \<open>isdigit\<close> and \<open>isxdigit\<close> are those of the C locale, false for bytes outside
  ASCII.
\<close>

definition isdigit :: "u8 \<Rightarrow> bool" where
  "isdigit c \<longleftrightarrow> 48 \<le> c \<and> c \<le> 57"

definition isxdigit :: "u8 \<Rightarrow> bool" where
  "isxdigit c \<longleftrightarrow> isdigit c \<or> 97 \<le> c \<and> c \<le> 102 \<or> 65 \<le> c \<and> c \<le> 70"

definition digittoint :: "u8 \<Rightarrow> int" where
  "digittoint digit =
     (let value = sint digit - 48
      in if (word_of_int value :: u32) < 10 then value
         else
           let value = sint digit - 97
           in if (word_of_int value :: u32) < 6 then value + 10
              else
                let value = sint digit - 65
                in if (word_of_int value :: u32) < 6 then value + 10 else -1)"

definition hexDigitsUpper :: "u8 list" where
  "hexDigitsUpper = [48, 49, 50, 51, 52, 53, 54, 55, 56, 57, 65, 66, 67, 68, 69, 70]"

definition hexDigitsLower :: "u8 list" where
  "hexDigitsLower = [48, 49, 50, 51, 52, 53, 54, 55, 56, 57, 97, 98, 99, 100, 101, 102]"

function fromHexDigit_loop :: "u8 \<Rightarrow> nat \<Rightarrow> int" where
  "fromHexDigit_loop hexDigit i =
     (if i < 16 then
        if hexDigit = hexDigitsLower ! i \<or> hexDigit = hexDigitsUpper ! i then int i
        else fromHexDigit_loop hexDigit (i + 1)
      else -1)"
  by pat_completeness auto
termination by (relation "measure (\<lambda>(hexDigit, i). 16 - i)") auto

declare fromHexDigit_loop.simps [simp del]

definition fromHexDigit :: "u8 \<Rightarrow> int" where
  "fromHexDigit hexDigit = fromHexDigit_loop hexDigit 0"

text \<open>\<open>(uint8_t) (d0 << 4) | d1\<close>; shifting a negative digit is taken as the multiplication.\<close>

definition hexByte :: "u8 \<Rightarrow> u8 \<Rightarrow> u8" where
  "hexByte c0 c1 = word_of_int (fromHexDigit c0 * 16) OR word_of_int (fromHexDigit c1)"

definition toHexDigit :: "u8 \<Rightarrow> u8" where
  "toHexDigit value = hexDigitsUpper ! unat (value AND 0xF)"

text \<open>
  The loops of the number parsers on the bytes from the start to the limit: the value and the number
  of digits.
\<close>

fun parse_loop :: "u64 \<Rightarrow> (u8 \<Rightarrow> bool) \<Rightarrow> u8 list \<Rightarrow> u64 \<Rightarrow> u32 \<Rightarrow> u64 \<times> u32" where
  "parse_loop base is_digit [] r count = (r, count)"
| "parse_loop base is_digit (c # cs) r count =
     (if is_digit c
      then parse_loop base is_digit cs (r * base + word_of_int (digittoint c)) (count + 1)
      else (r, count))"

definition parcBuffer_ParseHexNumber :: "memory \<Rightarrow> ptr \<Rightarrow> (u64 \<times> memory) result" where
  "parcBuffer_ParseHexNumber h p =
     rbind (parcBuffer_Overlay h p 0) (\<lambda>(bytes, h1).
     rbind (parcBuffer_Remaining h1 p) (\<lambda>n.
     let start = (if n > 2 \<and> bytes ! 0 = 48 \<and> bytes ! 1 = 120 then 2 else 0 :: nat);
         (r, count) = parse_loop 16 isxdigit (drop start (take (unat n) bytes)) 0 0
     in rbind (parcBuffer_Position h1 p) (\<lambda>pos.
        rbind (parcBuffer_SetPosition h1 p (pos + word_of_nat start + ucast count)) (\<lambda>h2.
        Inr (r, h2)))))"

definition parcBuffer_ParseDecimalNumber :: "memory \<Rightarrow> ptr \<Rightarrow> (u64 \<times> memory) result" where
  "parcBuffer_ParseDecimalNumber h p =
     rbind (parcBuffer_Overlay h p 0) (\<lambda>(bytes, h1).
     rbind (parcBuffer_Remaining h1 p) (\<lambda>n.
     let (r, count) = parse_loop 10 isdigit (take (unat n) bytes) 0 0
     in rbind (parcBuffer_Position h1 p) (\<lambda>pos.
        rbind (parcBuffer_SetPosition h1 p (pos + ucast count)) (\<lambda>h2.
        Inr (r, h2)))))"

definition parcBuffer_ParseNumeric :: "memory \<Rightarrow> ptr \<Rightarrow> (u64 \<times> memory) result" where
  "parcBuffer_ParseNumeric h p =
     rbind (parcBuffer_Overlay h p 0) (\<lambda>(bytes, h1).
     rbind (parcBuffer_Remaining h1 p) (\<lambda>n.
     if n > 2 \<and> bytes ! 0 = 48 \<and> bytes ! 1 = 120
     then parcBuffer_ParseHexNumber h1 p else parcBuffer_ParseDecimalNumber h1 p))"

section \<open>Strings\<close>

definition parcBuffer_ToString :: "memory \<Rightarrow> ptr \<Rightarrow> (u8 list \<times> memory) result" where
  "parcBuffer_ToString h p =
     rbind (parcBuffer_Remaining h p) (\<lambda>remaining.
     let (ok, h1) = parcMemory_AllocateRaw h
     in if remaining > 0 then
          rbind (assertTrue ok) (\<lambda>_.
          rbind (parcBuffer_Overlay h1 p 0) (\<lambda>(bytes, h2).
          Inr (take (unat remaining) bytes, h2)))
        else if ok then Inr ([], h1) else Inl BadPointer)"

fun toHexString_loop :: "memory \<Rightarrow> ptr \<Rightarrow> nat \<Rightarrow> size_t \<Rightarrow> u8 list result" where
  "toHexString_loop h p 0 i = Inr []"
| "toHexString_loop h p (Suc n) i =
     rbind (parcBuffer_GetAtIndex h p i) (\<lambda>byte.
     rbind (toHexString_loop h p n (i + 1)) (\<lambda>rest.
     Inr (toHexDigit (drop_bit 4 byte) # toHexDigit byte # rest)))"

definition parcBuffer_ToHexString :: "memory \<Rightarrow> ptr \<Rightarrow> (u8 list option \<times> memory) result" where
  "parcBuffer_ToHexString h p =
     (if p = None then
        let (ok, h1) = parcMemory_AllocateRaw h
        in Inr (if ok then Some [110, 117, 108, 108] else None, h1)
      else
        rbind (parcBuffer_Remaining h p) (\<lambda>n.
        let (ok, h1) = parcMemory_AllocateRaw h
        in rbind (assertTrue ok) (\<lambda>_.
           rbind (toHexString_loop h1 p (unat n) 0) (\<lambda>s. Inr (Some s, h1)))))"

definition parcBuffer_AllocateCString :: "memory \<Rightarrow> u8 list \<Rightarrow> (ptr \<times> memory) result" where
  "parcBuffer_AllocateCString h string =
     (let n = word_of_nat (length string)
      in rbind (parcBuffer_Allocate h (n + 1)) (\<lambda>(p, h1).
         rbind (parcBuffer_PutArray h1 p n string) (\<lambda>h2.
         rbind (parcBuffer_PutUint8 h2 p 0) (\<lambda>h3.
         rbind (bufferOf h3 p) (\<lambda>b.
         rbind (parcBuffer_SetPosition h3 p (position b - 1)) (\<lambda>h4.
         rbind (parcBuffer_Flip h4 p) (\<lambda>h5. Inr (p, h5))))))))"

fun parseHexString_loop :: "memory \<Rightarrow> ptr \<Rightarrow> u8 list \<Rightarrow> memory result" where
  "parseHexString_loop h p (c0 # c1 # cs) =
     rbind (parcBuffer_PutUint8 h p (hexByte c0 c1)) (\<lambda>h1. parseHexString_loop h1 p cs)"
| "parseHexString_loop h p _ = Inr h"

definition parcBuffer_ParseHexString :: "memory \<Rightarrow> u8 list \<Rightarrow> (ptr \<times> memory) result" where
  "parcBuffer_ParseHexString h hexString =
     (if length hexString > 0 \<and> length hexString mod 2 = 1 then Inr (None, h)
      else
        rbind (parcBuffer_Allocate h (word_of_nat (length hexString))) (\<lambda>(p, h1).
        rbind (parseHexString_loop h1 p hexString) (\<lambda>h2. Inr (p, h2))))"

definition parcBuffer_CreateFromArray ::
  "memory \<Rightarrow> u8 list option \<Rightarrow> size_t \<Rightarrow> (ptr \<times> memory) result" where
  "parcBuffer_CreateFromArray h bytes n =
     rbind (assertTrue (n = 0 \<or> bytes \<noteq> None)) (\<lambda>_.
     rbind (parcBuffer_Allocate h n) (\<lambda>(p, h1).
     rbind (parcBuffer_PutArray h1 p n (case bytes of None \<Rightarrow> [] | Some bs \<Rightarrow> bs)) (\<lambda>h2.
     Inr (p, h2))))"

text \<open>The descriptor of \<open>parcObject_Override(PARCBuffer, PARCObject, ...)\<close>.\<close>

definition PARCBuffer_Descriptor :: "memory descriptor" where
  "PARCBuffer_Descriptor = PARCBuffer_base
     \<lparr>desc_copy := Some (\<lambda>h a. parcBuffer_Copy h (Some a)),
      desc_toString := Some (\<lambda>h a. rbind (parcBuffer_ToString h (Some a)) (\<lambda>(s, _).
        Inr (map (\<lambda>c. char_of (unat c)) s))),
      desc_equals := Some (\<lambda>h a b. rbind (parcBuffer_Equals h (Some a) (Some b)) (\<lambda>(e, _). Inr e)),
      desc_compare := Some (\<lambda>h a b. rbind (parcBuffer_Compare h (Some a) (Some b)) (\<lambda>(c, _). Inr c)),
      desc_hashCode := Some (\<lambda>h a. rbind (parcBuffer_HashCode h (Some a)) (\<lambda>(c, _). Inr c))\<rparr>"

section \<open>The buffer as a tape\<close>

text \<open>The bytes up to the limit; the position divides them into those before and those to come.\<close>

definition window :: "parc_buffer \<Rightarrow> parc_byte_array \<Rightarrow> u8 list" where
  "window b x = bytes_at (unat (arrayOffset b)) (unat (limit b)) (ba_bytes x)"

definition buffer_parts :: "memory \<Rightarrow> addr \<Rightarrow> (parc_buffer \<times> parc_byte_array) option" where
  "buffer_parts h a =
     (case bufferOf h (Some a) of Inl _ \<Rightarrow> None
      | Inr b \<Rightarrow> (case byteArray h (array b) of Inl _ \<Rightarrow> None | Inr x \<Rightarrow> Some (b, x)))"

definition buffer_ok :: "addr \<Rightarrow> memory \<Rightarrow> bool" where
  "buffer_ok a h \<longleftrightarrow> (case buffer_parts h a of None \<Rightarrow> False
                    | Some (b, x) \<Rightarrow> buffer_at h a b x \<and> limit b \<noteq> SIZE_MAX)"

definition buffer_out :: "addr \<Rightarrow> memory \<Rightarrow> u8 list" where
  "buffer_out a h =
     (case buffer_parts h a of None \<Rightarrow> [] | Some (b, x) \<Rightarrow> take (unat (position b)) (window b x))"

definition buffer_rest :: "addr \<Rightarrow> memory \<Rightarrow> u8 list" where
  "buffer_rest a h =
     (case buffer_parts h a of None \<Rightarrow> [] | Some (b, x) \<Rightarrow> drop (unat (position b)) (window b x))"

lemma buffer_parts_at: "buffer_at h a b x \<Longrightarrow> buffer_parts h a = Some (b, x)"
  by (auto simp: buffer_parts_def elim: buffer_atE)

lemma buffer_tape:
  assumes "buffer_at h a b x"
  shows "limit b \<noteq> SIZE_MAX \<Longrightarrow> buffer_ok a h" "buffer_out a h = take (unat (position b)) (window b x)"
    "buffer_rest a h = drop (unat (position b)) (window b x)"
  using assms by (simp_all add: buffer_ok_def buffer_out_def buffer_rest_def buffer_parts_at)

lemma buffer_okE:
  assumes "buffer_ok a h"
  obtains b x where "buffer_at h a b x" "limit b \<noteq> SIZE_MAX"
  using assms by (auto simp: buffer_ok_def split: option.splits)

text \<open>The arithmetic of a valid buffer in natural numbers.\<close>

lemma buffer_nats:
  assumes "buffer_at h a b x"
  shows "unat (arrayOffset b + position b) = unat (arrayOffset b) + unat (position b)"
    and "unat (limit b - position b) = unat (limit b) - unat (position b)"
    and "unat (position b) \<le> unat (limit b)"
    and "unat (arrayOffset b) + unat (limit b) \<le> length (ba_bytes x)"
    and "length (ba_bytes x) = unat (ba_length x)"
    and "length (window b x) = unat (limit b)"
proof -
  obtain c where c: "byte_array_at h c x" "buffer_inv b x"
    using assms by (rule buffer_atE)
  show len: "length (ba_bytes x) = unat (ba_length x)" using c(1) by (rule byte_array_at_wf)
  show p: "unat (position b) \<le> unat (limit b)" using c(2) by (simp add: buffer_inv_def word_le_nat_alt)
  show l: "unat (arrayOffset b) + unat (limit b) \<le> length (ba_bytes x)"
    using c(2) len by (auto simp: buffer_inv_def word_le_nat_alt)
  show "unat (arrayOffset b + position b) = unat (arrayOffset b) + unat (position b)"
    using p l len unat_bound [of "ba_length x"] by (intro unat_add_no_wrap) linarith
  show "unat (limit b - position b) = unat (limit b) - unat (position b)"
    using c(2) by (simp add: buffer_inv_def unat_diff_le)
  show "length (window b x) = unat (limit b)" using l by (simp add: window_def)
qed

lemma buffer_at_advance:
  assumes "buffer_at h a b x" "unat n \<le> unat (limit b) - unat (position b)"
  shows "buffer_at (setBuffer h (Some a) (b\<lparr>position := position b + n\<rparr>)) a (b\<lparr>position := position b + n\<rparr>) x"
    and "unat (position b + n) = unat (position b) + unat n"
proof -
  have "buffer_inv b x" using assms(1) by (rule buffer_atE)
  moreover show u: "unat (position b + n) = unat (position b) + unat n"
    using buffer_nats(3) [OF assms(1)] assms(2) unat_bound [of "limit b"]
    by (intro unat_add_no_wrap) linarith
  ultimately show "buffer_at (setBuffer h (Some a) (b\<lparr>position := position b + n\<rparr>)) a
      (b\<lparr>position := position b + n\<rparr>) x"
    using buffer_nats(3) [OF assms(1)] assms(2)
    by (auto simp: buffer_at_setBuffer [OF assms(1)] buffer_inv_def word_le_nat_alt
        markIsDiscarded_def)
qed

lemma buffer_at_write:
  assumes "buffer_at h a b x" "array b = Some c" "byte_array_wf y" "ba_length y = ba_length x"
  shows "buffer_at (setContent h (Some c) (ByteArrayContent y)) a b y"
proof -
  have "byte_array_at h c x" "c \<noteq> a" using assms(1,2) by (auto elim!: buffer_atE)
  with assms show ?thesis by (intro buffer_at_transfer [OF assms(1,2)]) simp_all
qed

text \<open>The memory after \<open>bs\<close> was written at the position and the position moved behind it.\<close>

definition written :: "memory \<Rightarrow> addr \<Rightarrow> parc_buffer \<Rightarrow> parc_byte_array \<Rightarrow> u8 list \<Rightarrow> memory" where
  "written h a b x bs =
     setBuffer (setContent h (array b) (ByteArrayContent (ba_put (arrayOffset b + position b) bs x)))
       (Some a) (b\<lparr>position := position b + word_of_nat (length bs)\<rparr>)"

lemma written_at:
  assumes "buffer_at h a b x" "unat (position b) + length bs \<le> unat (limit b)"
  defines "x' \<equiv> ba_put (arrayOffset b + position b) bs x"
    and "b' \<equiv> b\<lparr>position := position b + word_of_nat (length bs)\<rparr>"
  shows "buffer_at (written h a b x bs) a b' x'"
    and "buffer_out a (written h a b x bs) = buffer_out a h @ bs"
    and "buffer_rest a (written h a b x bs) = drop (length bs) (buffer_rest a h)"
proof -
  obtain c where c: "array b = Some c" "byte_array_at h c x" using assms(1) by (rule buffer_atE)
  note n = buffer_nats [OF assms(1)]
  have len: "unat (word_of_nat (length bs) :: size_t) = length bs"
    using assms(2) unat_bound [of "limit b"] by (intro unat_word_of_nat) linarith
  have "byte_array_wf x'"
    unfolding x'_def using n assms(2) by (intro byte_array_wf_put) (auto simp: byte_array_wf_def)
  then have h1: "buffer_at (setContent h (Some c) (ByteArrayContent x')) a b x'"
    by (intro buffer_at_write [OF assms(1) c(1)]) (simp_all add: x'_def)
  have adv: "unat (word_of_nat (length bs) :: size_t) \<le> unat (limit b) - unat (position b)"
    using len assms(2) by simp
  note at = buffer_at_advance [OF h1 adv]
  show at': "buffer_at (written h a b x bs) a b' x'"
    using at(1) c(1) by (simp add: written_def x'_def b'_def)
  have w: "window b' x' = put_bytes (unat (position b)) bs (window b x)"
    using n(1,4) assms(2) by (simp add: window_def x'_def b'_def bytes_at_put_bytes_inside)
  have p: "unat (position b') = unat (position b) + length bs"
    using at(2) len by (simp add: b'_def)
  show "buffer_out a (written h a b x bs) = buffer_out a h @ bs"
    using n(6) assms(2) by (simp add: buffer_tape [OF at'] buffer_tape [OF assms(1)] w p take_put_bytes)
  show "buffer_rest a (written h a b x bs) = drop (length bs) (buffer_rest a h)"
    using n(6) assms(2)
    by (simp add: buffer_tape [OF at'] buffer_tape [OF assms(1)] w p drop_put_bytes)
      (simp add: add.commute)
qed

lemma buffer_array_length:
  assumes "buffer_at h a b x" "position b < limit b"
  shows "arrayOffset b + position b < ba_length x"
  using buffer_nats [OF assms(1)] assms(2) by (simp add: word_less_nat_alt)

lemma parcBuffer_PutUint8_ok:
  assumes "buffer_at h a b x"
  shows "parcBuffer_PutUint8 h (Some a) v =
    (if position b < limit b then Inr (written h a b x [v]) else Inl AssertFailed)"
proof -
  obtain c where c: "array b = Some c" "byte_array_at h c x" "buffer_inv b x"
    using assms(1) by (rule buffer_atE)
  have r: "1 \<le> limit b - position b \<longleftrightarrow> position b < limit b"
    using buffer_nats(2,3) [OF assms] by (simp add: word_le_nat_alt word_less_nat_alt Suc_le_eq)
  show ?thesis
    using assms c buffer_array_length [OF assms] r
    by (simp add: parcBuffer_PutUint8_def effectivePosition_def written_def parcByteArray_PutByte_ok)
qed

lemma no_underflow:
  assumes "buffer_at h a b x" "unat n \<le> unat (limit b) - unat (position b)"
  shows "\<not> position b + n > limit b"
  using buffer_at_advance(2) [OF assms] buffer_nats(3) [OF assms(1)] assms(2)
  by (simp add: not_less word_le_nat_alt)

lemma parcBuffer_GetUint8_ok:
  assumes "buffer_at h a b x" "position b < limit b"
  shows "parcBuffer_GetUint8 h (Some a) =
    Inr (window b x ! unat (position b), setBuffer h (Some a) (b\<lparr>position := position b + 1\<rparr>))"
proof -
  obtain c where c: "array b = Some c" "byte_array_at h c x" using assms(1) by (rule buffer_atE)
  note n = buffer_nats [OF assms(1)]
  have "\<not> position b + 1 > limit b"
    using assms(2) by (intro no_underflow [OF assms(1)]) (simp add: word_less_nat_alt)
  moreover have "ba_bytes x ! unat (arrayOffset b + position b) = window b x ! unat (position b)"
    using n(1,4) assms(2) by (simp add: window_def word_less_nat_alt)
  ultimately show ?thesis
    using assms c buffer_array_length [OF assms]
    by (simp add: parcBuffer_GetUint8_def trapIfBufferUnderflow_def trapIfIndexExceedsLimit_def
        effectivePosition_def parcByteArray_GetByte_ok)
qed

text \<open>
  At the end of the data. The check adds 1 to the position; a limit of \<open>SIZE_MAX\<close> would wrap around,
  but no array is that long.
\<close>

lemma parcBuffer_GetUint8_end:
  assumes "buffer_at h a b x" "\<not> position b < limit b" "limit b \<noteq> SIZE_MAX"
  shows "parcBuffer_GetUint8 h (Some a) = Inl OutOfBounds"
proof -
  have "buffer_inv b x" using assms(1) by (rule buffer_atE)
  then have "position b = limit b" using assms(2) by (simp add: buffer_inv_def)
  moreover have "limit b < limit b + 1"
    using assms(3) by (rule word_less_plus_one)
  ultimately show ?thesis
    using assms(1)
    by (simp add: parcBuffer_GetUint8_def trapIfBufferUnderflow_def trapIfIndexExceedsLimit_def)
qed

text \<open>The byte interface of the buffer at \<open>a\<close>.\<close>

definition buffer_put :: "addr \<Rightarrow> memory \<Rightarrow> u8 \<Rightarrow> memory result" where
  "buffer_put a h v = parcBuffer_PutUint8 h (Some a) v"

definition buffer_get :: "addr \<Rightarrow> memory \<Rightarrow> (u8 \<times> memory) result" where
  "buffer_get a h = parcBuffer_GetUint8 h (Some a)"

definition buffer_seek :: "addr \<Rightarrow> memory \<Rightarrow> nat \<Rightarrow> memory result" where
  "buffer_seek a h n = parcBuffer_SetPosition h (Some a) (word_of_nat n)"

lemma buffer_rest_Cons:
  assumes "buffer_at h a b x"
  shows "buffer_rest a h = w # ws \<longleftrightarrow> position b < limit b \<and> w = window b x ! unat (position b) \<and>
    ws = drop (Suc (unat (position b))) (window b x)"
    and "buffer_rest a h = [] \<longleftrightarrow> \<not> position b < limit b"
proof -
  have len: "length (window b x) = unat (limit b)" using assms by (rule buffer_nats)
  show "buffer_rest a h = [] \<longleftrightarrow> \<not> position b < limit b"
    using len by (auto simp: buffer_tape [OF assms] word_less_nat_alt)
  show "buffer_rest a h = w # ws \<longleftrightarrow> position b < limit b \<and> w = window b x ! unat (position b) \<and>
    ws = drop (Suc (unat (position b))) (window b x)"
    using len by (cases "position b < limit b")
      (auto simp: buffer_tape [OF assms] word_less_nat_alt Cons_nth_drop_Suc [symmetric])
qed

lemma buffer_advanced:
  assumes "buffer_at h a b x" "limit b \<noteq> SIZE_MAX" "unat n \<le> unat (limit b) - unat (position b)"
  defines "h' \<equiv> setBuffer h (Some a) (b\<lparr>position := position b + n\<rparr>)"
  shows "buffer_ok a h'" "buffer_out a h' = buffer_out a h @ take (unat n) (buffer_rest a h)"
    "buffer_rest a h' = drop (unat n) (buffer_rest a h)"
proof -
  note at = buffer_at_advance [OF assms(1,3), folded h'_def]
  show "buffer_ok a h'" using buffer_tape(1) [OF at(1)] assms(2) by simp
  have w: "window (b\<lparr>position := position b + n\<rparr>) x = window b x" by (simp add: window_def)
  show "buffer_out a h' = buffer_out a h @ take (unat n) (buffer_rest a h)"
    using at(2) by (simp add: buffer_tape [OF at(1)] buffer_tape [OF assms(1)] w take_add)
  show "buffer_rest a h' = drop (unat n) (buffer_rest a h)"
    using at(2) by (simp add: buffer_tape [OF at(1)] buffer_tape [OF assms(1)] w)
      (simp add: add.commute)
qed

interpretation buf: byte_tape "buffer_put a" "buffer_get a" "buffer_seek a" "buffer_ok a"
  "buffer_out a" "buffer_rest a" AssertFailed OutOfBounds for a
proof
  fix h :: memory and w v :: u8 and ws :: "u8 list"
  assume "buffer_ok a h"
  then obtain b x where at: "buffer_at h a b x" "limit b \<noteq> SIZE_MAX" by (rule buffer_okE)
  {
    assume "buffer_rest a h = w # ws"
    then have r: "position b < limit b" "buffer_rest a h = w # ws" "w = window b x ! unat (position b)"
      using buffer_rest_Cons [OF at(1)] by auto
    have "unat (position b) + length [v] \<le> unat (limit b)" using r by (simp add: word_less_nat_alt)
    note p = written_at [OF at(1) this]
    show "\<exists>s'. buffer_put a h v = Inr s' \<and> buffer_ok a s' \<and> buffer_out a s' = buffer_out a h @ [v] \<and>
        buffer_rest a s' = ws"
      using r p(2,3) buffer_tape(1) [OF p(1)] at(2)
      by (simp add: buffer_put_def parcBuffer_PutUint8_ok [OF at(1)])
    have one: "unat (1 :: size_t) \<le> unat (limit b) - unat (position b)"
      using r by (simp add: word_less_nat_alt)
    show "\<exists>s'. buffer_get a h = Inr (w, s') \<and> buffer_ok a s' \<and> buffer_out a s' = buffer_out a h @ [w] \<and>
        buffer_rest a s' = ws"
      using r buffer_advanced [OF at one]
      by (simp add: buffer_get_def parcBuffer_GetUint8_ok [OF at(1)])
  }
  {
    assume "buffer_rest a h = []"
    then have "\<not> position b < limit b" using buffer_rest_Cons(2) [OF at(1)] by simp
    then show "buffer_put a h v = Inl AssertFailed" "buffer_get a h = Inl OutOfBounds"
      using parcBuffer_PutUint8_ok [OF at(1)] parcBuffer_GetUint8_end [OF at(1) _ at(2)]
      by (simp_all add: buffer_put_def buffer_get_def)
  }
next
  fix h :: memory and n :: nat
  assume ok: "buffer_ok a h" and n: "n \<le> length (buffer_out a h @ buffer_rest a h)"
  from ok obtain b x where at: "buffer_at h a b x" "limit b \<noteq> SIZE_MAX" by (rule buffer_okE)
  have w: "buffer_out a h @ buffer_rest a h = window b x" by (simp add: buffer_tape [OF at(1)])
  have n': "n \<le> unat (limit b)" using n buffer_nats(6) [OF at(1)] by (simp only: w)
  have u: "unat (word_of_nat n :: size_t) = n"
    using n' unat_bound [of "limit b"] by (intro unat_word_of_nat) linarith
  have "word_of_nat n \<le> limit b" using n' u by (simp add: word_le_nat_alt)
  then obtain b' where b': "cursor_spec (SetPosition (word_of_nat n)) b = Some b'"
      "position b' = word_of_nat n" "limit b' = limit b" "arrayOffset b' = arrayOffset b"
    by simp
  note at' = buffer_at_cursor_spec [OF at(1) b'(1)]
  have "window b' x = window b x" using b' by (simp add: window_def)
  then show "\<exists>s'. buffer_seek a h n = Inr s' \<and> buffer_ok a s' \<and>
      buffer_out a s' = take n (buffer_out a h @ buffer_rest a h) \<and>
      buffer_rest a s' = drop n (buffer_out a h @ buffer_rest a h)"
    using parcBuffer_SetPosition_spec [OF at(1), of "word_of_nat n"] b' buffer_tape [OF at'] at(2) u w
    by (simp add: buffer_seek_def)
qed

text \<open>Bytes written one after the other are one write.\<close>

lemma setContent_commute:
  "a \<noteq> c \<Longrightarrow> setContent (setContent h (Some a) u) (Some c) v = setContent (setContent h (Some c) v) (Some a) u"
  by (auto simp: setContent_def parcObject_SetHeader_def fun_upd_twist split: option.splits)

lemma setContent_twice [simp]: "setContent (setContent h p u) p v = setContent h p v"
  by (simp add: setContent_def split: option.splits)

lemma put_bytes_Cons:
  "o' + Suc (length vs) \<le> length xs \<Longrightarrow>
     put_bytes (Suc o') vs (put_bytes o' [v] xs) = put_bytes o' (v # vs) xs"
  by (simp add: put_bytes_def take_Suc_conv_app_nth nth_append) (simp add: add.commute)

lemma setContent_overwrite:
  assumes "a \<noteq> c"
  shows "setContent (setContent (setContent h (Some a) u) (Some c) v) (Some a) w =
    setContent (setContent h (Some c) v) (Some a) w"
  by (subst setContent_commute [OF assms]) simp

lemma written_Nil:
  assumes "buffer_at h a b x"
  shows "written h a b x [] = h"
proof -
  obtain c where c: "array b = Some c" "byte_array_at h c x" using assms by (rule buffer_atE)
  then show ?thesis
    using setBuffer_same [OF assms] by (simp add: written_def ba_put_def setContent_same)
qed

lemma written_Cons:
  assumes "buffer_at h a b x" "unat (position b) + Suc (length vs) \<le> unat (limit b)"
  shows "written (written h a b x [v]) a (b\<lparr>position := position b + 1\<rparr>)
      (ba_put (arrayOffset b + position b) [v] x) vs = written h a b x (v # vs)"
proof -
  obtain c where c: "array b = Some c" "c \<noteq> a" using assms(1) by (rule buffer_atE)
  note n = buffer_nats [OF assms(1)]
  have u: "unat (arrayOffset b + (position b + 1)) = Suc (unat (arrayOffset b + position b))"
  proof -
    have "arrayOffset b + position b < ba_length x"
      using n assms(2) by (simp add: word_less_nat_alt)
    from unat_Suc_less [OF this] show ?thesis by (simp add: add.assoc)
  qed
  have "ba_put (arrayOffset b + (position b + 1)) vs (ba_put (arrayOffset b + position b) [v] x) =
      ba_put (arrayOffset b + position b) (v # vs) x"
  proof (cases "vs = []")
    case False
    then show ?thesis
      using n assms(2) by (simp add: ba_put_def ba_bytes_def u)
        (simp add: put_bytes_Cons flip: ba_bytes_def)
  qed (simp add: ba_put_def)
  moreover have "position b + 1 + word_of_nat (length vs) = position b + word_of_nat (length (v # vs))"
    by simp
  ultimately show ?thesis
    using c by (simp add: written_def setBuffer_def setContent_overwrite add.assoc)
qed

lemma put_list_written:
  "buffer_at h a b x \<Longrightarrow> unat (position b) + length bs \<le> unat (limit b) \<Longrightarrow>
     put_list (buffer_put a) bs h = Inr (written h a b x bs)"
proof (induction bs arbitrary: h b x)
  case Nil
  then show ?case by (simp add: written_Nil)
next
  case (Cons v vs)
  have one: "unat (position b) + length [v] \<le> unat (limit b)" using Cons.prems(2) by simp
  note w = written_at(1) [OF Cons.prems(1) one]
  have u: "unat (position b + 1) = Suc (unat (position b))"
    using buffer_at_advance(2) [OF Cons.prems(1), of 1] one by simp
  have "buffer_put a h v = Inr (written h a b x [v])"
    using one by (simp add: buffer_put_def parcBuffer_PutUint8_ok [OF Cons.prems(1)] word_less_nat_alt)
  then show ?case
    using Cons.IH [OF w] u Cons.prems written_Cons [OF Cons.prems(1), of vs v] by simp
qed

section \<open>Typed values\<close>

lemma putBytes_loop_be:
  "rbind (putBytes_loop i value h (Some a)) (\<lambda>h1. parcBuffer_PutUint8 h1 (Some a) (ucast (value AND 0xFF))) =
     put_list (buffer_put a) (be_bytes (Suc i) (unat value)) h"
proof (induction i arbitrary: h)
  case 0
  have "(ucast (value AND 0xFF) :: u8) = word_of_nat (unat value)" by (simp add: ucast_mask_byte)
  then show ?case
    by (simp add: putBytes_loop.simps buffer_put_def) (simp add: rbind_def split: sum.splits)
next
  case (Suc i)
  then show ?case
    by (subst putBytes_loop.simps)
      (simp add: rbind_assoc nth_byte [of "Suc i", simplified] buffer_put_def [abs_def]
        cong: rbind_cong)
qed

lemma getBytes_loop_be: "getBytes_loop n r h (Some a) = get_be (buffer_get a) n r h"
  by (induction n arbitrary: r h) (simp_all add: buffer_get_def)

lemma parcBuffer_GetUint16_be: "parcBuffer_GetUint16 h (Some a) = get_be (buffer_get a) 2 0 h"
  by (simp add: parcBuffer_GetUint16_def buffer_get_def numeral_2_eq_2 case_prod_beta' cong: rbind_cong)

lemma buffer_room:
  assumes "buffer_at h a b x"
  shows "length (buffer_rest a h) = unat (limit b) - unat (position b)"
    and "k \<le> unat (limit b - position b) \<longleftrightarrow> k \<le> length (buffer_rest a h)"
  using buffer_nats [OF assms] by (simp_all add: buffer_tape [OF assms])

lemma parcBuffer_PutUint_be:
  assumes "buffer_at h a b x"
  shows "2 \<le> length (buffer_rest a h) \<Longrightarrow>
      parcBuffer_PutUint16 h (Some a) v16 = put_list (buffer_put a) (be_bytes 2 (unat v16)) h"
    and "4 \<le> length (buffer_rest a h) \<Longrightarrow>
      parcBuffer_PutUint32 h (Some a) v32 = put_list (buffer_put a) (be_bytes 4 (unat v32)) h"
    and "8 \<le> length (buffer_rest a h) \<Longrightarrow>
      parcBuffer_PutUint64 h (Some a) v64 = put_list (buffer_put a) (be_bytes 8 (unat v64)) h"
    and "length (buffer_rest a h) < 2 \<Longrightarrow> parcBuffer_PutUint16 h (Some a) v16 = Inl AssertFailed"
    and "length (buffer_rest a h) < 4 \<Longrightarrow> parcBuffer_PutUint32 h (Some a) v32 = Inl AssertFailed"
    and "length (buffer_rest a h) < 8 \<Longrightarrow> parcBuffer_PutUint64 h (Some a) v64 = Inl AssertFailed"
proof -
  note r = buffer_room(2) [OF assms]
  have be: "be_bytes 2 k = be_bytes (Suc 1) k" "be_bytes 4 k = be_bytes (Suc 3) k"
      "be_bytes 8 k = be_bytes (Suc 7) k" for k
    by (simp_all only: Suc_1 Suc_numeral BitM.simps add_num_simps)
  have "putBytes_loop 1 v16 h (Some a) = parcBuffer_PutUint8 h (Some a) (ucast (drop_bit 8 v16 AND 0xFF))"
    by (simp add: putBytes_loop.simps [of "Suc 0"] putBytes_loop.simps [of 0])
  then have loop16: "rbind (parcBuffer_PutUint8 h (Some a) (ucast (drop_bit 8 v16 AND 0xFF)))
      (\<lambda>h1. parcBuffer_PutUint8 h1 (Some a) (ucast (v16 AND 0xFF))) =
      put_list (buffer_put a) (be_bytes 2 (unat v16)) h"
    unfolding be using putBytes_loop_be [of 1 v16 h a] by simp
  show "2 \<le> length (buffer_rest a h) \<Longrightarrow>
      parcBuffer_PutUint16 h (Some a) v16 = put_list (buffer_put a) (be_bytes 2 (unat v16)) h"
    using assms r [of 2] loop16 by (simp add: parcBuffer_PutUint16_def word_le_nat_alt)
  show "4 \<le> length (buffer_rest a h) \<Longrightarrow>
      parcBuffer_PutUint32 h (Some a) v32 = put_list (buffer_put a) (be_bytes 4 (unat v32)) h"
    unfolding be putBytes_loop_be [symmetric]
    using assms r [of 4] by (simp add: parcBuffer_PutUint32_def word_le_nat_alt)
  show "8 \<le> length (buffer_rest a h) \<Longrightarrow>
      parcBuffer_PutUint64 h (Some a) v64 = put_list (buffer_put a) (be_bytes 8 (unat v64)) h"
    unfolding be putBytes_loop_be [symmetric]
    using assms r [of 8] by (simp add: parcBuffer_PutUint64_def word_le_nat_alt)
  show "length (buffer_rest a h) < 2 \<Longrightarrow> parcBuffer_PutUint16 h (Some a) v16 = Inl AssertFailed"
    "length (buffer_rest a h) < 4 \<Longrightarrow> parcBuffer_PutUint32 h (Some a) v32 = Inl AssertFailed"
    "length (buffer_rest a h) < 8 \<Longrightarrow> parcBuffer_PutUint64 h (Some a) v64 = Inl AssertFailed"
    using assms r [of 2] r [of 4] r [of 8]
    by (simp_all add: parcBuffer_PutUint16_def parcBuffer_PutUint32_def parcBuffer_PutUint64_def
        word_le_nat_alt)
qed

text \<open>Moving the position forward inside the limit keeps the mark.\<close>

lemma parcBuffer_SetPosition_forward:
  assumes "buffer_at h a b x" "unat n \<le> unat (limit b) - unat (position b)"
  shows "parcBuffer_SetPosition h (Some a) (position b + n) =
    Inr (setBuffer h (Some a) (b\<lparr>position := position b + n\<rparr>))"
proof -
  have inv: "buffer_inv b x" using assms(1) by (rule buffer_atE)
  have le: "position b + n \<le> limit b" using no_underflow [OF assms] by simp
  have "cursor_spec (SetPosition (position b + n)) b = Some (b\<lparr>position := position b + n\<rparr>)"
  proof (cases "mark b = SIZE_MAX")
    case True
    with le show ?thesis by (cases b) auto
  next
    case False
    then have "mark b \<le> position b" using inv by (simp add: buffer_inv_def markIsDiscarded_def)
    then have "\<not> position b + n < mark b"
      using buffer_at_advance(2) [OF assms] by (simp add: not_less word_le_nat_alt)
    with le show ?thesis by (cases b) auto
  qed
  then show ?thesis using parcBuffer_SetPosition_spec [OF assms(1), of "position b + n"] by simp
qed

lemma parcBuffer_PutArray_ok:
  assumes "buffer_at h a b x" "length bs = unat n" "unat n \<le> length (buffer_rest a h)"
  shows "parcBuffer_PutArray h (Some a) n bs = Inr (written h a b x bs)"
proof -
  obtain c where c: "array b = Some c" "byte_array_at h c x" "buffer_inv b x"
    using assms(1) by (rule buffer_atE)
  note nats = buffer_nats [OF assms(1)]
  have fits: "unat n \<le> unat (limit b) - unat (position b)"
    using assms(3) buffer_room(1) [OF assms(1)] by simp
  let ?x = "ba_put (arrayOffset b + position b) bs x"
  let ?h = "setContent h (Some c) (ByteArrayContent ?x)"
  have put: "parcByteArray_PutBytes h (Some c) (effectivePosition b) n bs = Inr ?h"
    using parcByteArray_PutBytes_ok [OF c(2) assms(2)] nats fits by (simp add: effectivePosition_def)
  have "byte_array_wf ?x"
    using nats fits assms(2) by (intro byte_array_wf_put) (auto simp: byte_array_wf_def)
  then have at: "buffer_at ?h a b ?x"
    by (intro buffer_at_write [OF assms(1) c(1)]) simp_all
  have "parcBuffer_SetPosition ?h (Some a) (position b + n) =
      Inr (setBuffer ?h (Some a) (b\<lparr>position := position b + n\<rparr>))"
    using at fits by (rule parcBuffer_SetPosition_forward)
  moreover have "n \<le> limit b - position b"
    using fits nats(2) by (simp add: word_le_nat_alt)
  moreover have "word_of_nat (length bs) = n" using assms(2) by simp
  ultimately show ?thesis
    using assms(1) c(1) put at by (simp add: parcBuffer_PutArray_def written_def)
qed

lemma bytes_of_rest:
  assumes "buffer_at h a b x" "k \<le> length (buffer_rest a h)"
  shows "bytes_at (unat (arrayOffset b + position b)) k (ba_bytes x) = take k (buffer_rest a h)"
  using assms(2) buffer_room(1) [OF assms(1)] buffer_nats(1) [OF assms(1)]
  by (simp add: buffer_tape [OF assms(1)] window_def bytes_at_def drop_take add.commute)

text \<open>Copying what remains in one buffer to another on a different array.\<close>

lemma parcBuffer_PutBuffer_ok:
  assumes "buffer_at h r b x" "buffer_at h s d y" "array b \<noteq> array d"
    and "length (buffer_rest s h) \<le> length (buffer_rest r h)"
  shows "parcBuffer_PutBuffer h (Some r) (Some s) = Inr (written h r b x (buffer_rest s h))"
proof -
  obtain c where c: "array b = Some c" "byte_array_at h c x" using assms(1) by (rule buffer_atE)
  obtain e where e: "array d = Some e" "byte_array_at h e y" using assms(2) by (rule buffer_atE)
  note nb = buffer_nats [OF assms(1)] and nd = buffer_nats [OF assms(2)]
  let ?m = "limit d - position d"
  have m: "unat ?m = length (buffer_rest s h)" using nd(2) buffer_room(1) [OF assms(2)] by simp
  have fits: "unat ?m \<le> unat (limit b) - unat (position b)"
    using assms(4) m buffer_room(1) [OF assms(1)] by simp
  have read: "ba_read y (arrayOffset d + position d) ?m = Inr (buffer_rest s h)"
  proof -
    have "unat (arrayOffset d + position d) + unat ?m \<le> length (ba_bytes y)" using nd by simp
    from ba_read_ok [OF this] bytes_of_rest [OF assms(2), of "unat ?m"] m show ?thesis by simp
  qed
  let ?x = "ba_put (arrayOffset b + position b) (buffer_rest s h) x"
  let ?h = "setContent h (Some c) (ByteArrayContent ?x)"
  have in_x: "unat (arrayOffset b + position b) + length (buffer_rest s h) \<le> length (ba_bytes x)"
    using fits m nb by simp
  have copy: "parcByteArray_ArrayCopy h (Some c) (effectivePosition b) (Some e) (effectivePosition d) ?m =
      Inr ?h"
    using c e assms(3) read ba_write_ok [OF c(2) in_x]
    by (simp add: parcByteArray_ArrayCopy_def effectivePosition_def)
  have "byte_array_wf ?x"
    using nb in_x by (intro byte_array_wf_put) (simp_all add: byte_array_wf_def)
  then have at: "buffer_at ?h r b ?x" by (intro buffer_at_write [OF assms(1) c(1)]) simp_all
  have "?m \<le> limit b - position b" using fits nb(2) by (simp add: word_le_nat_alt)
  moreover have "word_of_nat (length (buffer_rest s h)) = ?m" by (simp only: m [symmetric]) simp
  ultimately show ?thesis
    using assms(1,2) c(1) e(1) copy at parcBuffer_SetPosition_forward [OF at fits]
    by (simp add: parcBuffer_PutBuffer_def written_def)
qed

lemma parcBuffer_GetBytes_ok:
  assumes "buffer_at h a b x" "unat n \<le> length (buffer_rest a h)"
  shows "parcBuffer_GetBytes h (Some a) n =
    Inr (take (unat n) (buffer_rest a h), setBuffer h (Some a) (b\<lparr>position := position b + n\<rparr>))"
proof -
  obtain c where c: "array b = Some c" "byte_array_at h c x" using assms(1) by (rule buffer_atE)
  note nats = buffer_nats [OF assms(1)]
  have fits: "unat n \<le> unat (limit b) - unat (position b)"
    using assms(2) buffer_room(1) [OF assms(1)] by simp
  let ?o = "arrayOffset b + position b"
  have "?o \<le> ba_length x" using nats by (simp add: word_le_nat_alt)
  then have avail: "\<not> n > ba_length x - ?o"
    using nats fits by (simp add: not_less word_le_nat_alt unat_diff_le)
  have "ba_read x ?o n = Inr (bytes_at (unat ?o) (unat n) (ba_bytes x))"
    using nats fits by (intro ba_read_ok) simp
  moreover note bytes_of_rest [OF assms]
  ultimately show ?thesis
    using assms(1) c avail no_underflow [OF assms(1) fits]
    by (simp add: parcBuffer_GetBytes_def trapIfBufferUnderflow_def trapIfIndexExceedsLimit_def
        parcByteArray_GetBytes_def effectivePosition_def)
qed

text \<open>A message is a sequence of values, written and read with the operation of each one's type.\<close>

datatype field =
    Uint8 u8
  | Uint16 u16
  | Uint32 u32
  | Uint64 u64
  | Bytes "u8 list"

datatype shape =
    ShapeUint8
  | ShapeUint16
  | ShapeUint32
  | ShapeUint64
  | ShapeBytes nat

fun shape_of :: "field \<Rightarrow> shape" where
  "shape_of (Uint8 v) = ShapeUint8"
| "shape_of (Uint16 v) = ShapeUint16"
| "shape_of (Uint32 v) = ShapeUint32"
| "shape_of (Uint64 v) = ShapeUint64"
| "shape_of (Bytes bs) = ShapeBytes (length bs)"

fun field_bytes :: "field \<Rightarrow> u8 list" where
  "field_bytes (Uint8 v) = [v]"
| "field_bytes (Uint16 v) = be_bytes 2 (unat v)"
| "field_bytes (Uint32 v) = be_bytes 4 (unat v)"
| "field_bytes (Uint64 v) = be_bytes 8 (unat v)"
| "field_bytes (Bytes bs) = bs"

fun put_field :: "memory \<Rightarrow> ptr \<Rightarrow> field \<Rightarrow> memory result" where
  "put_field h p (Uint8 v) = parcBuffer_PutUint8 h p v"
| "put_field h p (Uint16 v) = parcBuffer_PutUint16 h p v"
| "put_field h p (Uint32 v) = parcBuffer_PutUint32 h p v"
| "put_field h p (Uint64 v) = parcBuffer_PutUint64 h p v"
| "put_field h p (Bytes bs) = parcBuffer_PutArray h p (word_of_nat (length bs)) bs"

fun get_field :: "memory \<Rightarrow> ptr \<Rightarrow> shape \<Rightarrow> (field \<times> memory) result" where
  "get_field h p ShapeUint8 = rbind (parcBuffer_GetUint8 h p) (\<lambda>(v, h'). Inr (Uint8 v, h'))"
| "get_field h p ShapeUint16 = rbind (parcBuffer_GetUint16 h p) (\<lambda>(v, h'). Inr (Uint16 v, h'))"
| "get_field h p ShapeUint32 = rbind (parcBuffer_GetUint32 h p) (\<lambda>(v, h'). Inr (Uint32 v, h'))"
| "get_field h p ShapeUint64 = rbind (parcBuffer_GetUint64 h p) (\<lambda>(v, h'). Inr (Uint64 v, h'))"
| "get_field h p (ShapeBytes n) =
     rbind (parcBuffer_GetBytes h p (word_of_nat n)) (\<lambda>(bs, h'). Inr (Bytes bs, h'))"

fun put_fields :: "memory \<Rightarrow> ptr \<Rightarrow> field list \<Rightarrow> memory result" where
  "put_fields h p [] = Inr h"
| "put_fields h p (f # fs) = rbind (put_field h p f) (\<lambda>h'. put_fields h' p fs)"

fun get_fields :: "memory \<Rightarrow> ptr \<Rightarrow> shape list \<Rightarrow> (field list \<times> memory) result" where
  "get_fields h p [] = Inr ([], h)"
| "get_fields h p (s # ss) =
     rbind (get_field h p s) (\<lambda>(f, h1). rbind (get_fields h1 p ss) (\<lambda>(fs, h2). Inr (f # fs, h2)))"

lemma unat_length_rest:
  assumes "buffer_ok a h" "n \<le> length (buffer_rest a h)"
  shows "unat (word_of_nat n :: size_t) = n"
proof -
  obtain b x where at: "buffer_at h a b x" using assms(1) by (rule buffer_okE)
  have "n < 2 ^ 64"
    using assms(2) buffer_room(1) [OF at] unat_bound [of "limit b"] by simp
  then show ?thesis by (intro unat_word_of_nat) simp
qed

lemma put_field_ok:
  assumes "buffer_ok a h" "length (field_bytes f) \<le> length (buffer_rest a h)"
  shows "\<exists>h'. put_field h (Some a) f = Inr h' \<and> buffer_ok a h' \<and>
    buffer_out a h' = buffer_out a h @ field_bytes f \<and>
    buffer_rest a h' = drop (length (field_bytes f)) (buffer_rest a h)"
proof -
  obtain b x where at: "buffer_at h a b x" "limit b \<noteq> SIZE_MAX" using assms(1) by (rule buffer_okE)
  note puts = buf.put_list_tape [OF assms]
  show ?thesis
  proof (cases f)
    case (Uint8 v)
    then have "put_field h (Some a) f = put_list (buffer_put a) (field_bytes f) h"
      by (simp add: buffer_put_def) (simp add: rbind_def split: sum.splits)
    with puts show ?thesis by simp
  next
    case (Bytes bs)
    note u = unat_length_rest [OF assms]
    have "unat (position b) + length bs \<le> unat (limit b)"
      using assms(2) Bytes buffer_room(1) [OF at(1)] buffer_nats(3) [OF at(1)] by simp
    note w = written_at [OF at(1) this]
    show ?thesis
      using Bytes u assms(2) parcBuffer_PutArray_ok [OF at(1), of bs "word_of_nat (length bs)"]
        w(2,3) buffer_tape(1) [OF w(1)] at(2) by simp
  qed (use puts assms(2) parcBuffer_PutUint_be [OF at(1)] in simp_all)
qed

lemma get_field_ok:
  assumes "buffer_ok a h" "buffer_rest a h = field_bytes f @ ws"
  shows "\<exists>h'. get_field h (Some a) (shape_of f) = Inr (f, h') \<and> buffer_ok a h' \<and>
    buffer_rest a h' = ws"
proof -
  obtain b x where at: "buffer_at h a b x" "limit b \<noteq> SIZE_MAX" using assms(1) by (rule buffer_okE)
  show ?thesis
  proof (cases f)
    case (Uint8 v)
    then show ?thesis
      using buf.get_Cons [OF assms(1), of v ws] assms(2) by (auto simp: buffer_get_def)
  next
    case (Uint16 v)
    then show ?thesis
      using buf.get_be_written [OF assms(1), of 2 v ws] assms(2)
      by (auto simp: parcBuffer_GetUint16_be)
  next
    case (Uint32 v)
    then show ?thesis
      using buf.get_be_written [OF assms(1), of 4 v ws] assms(2)
      by (auto simp: parcBuffer_GetUint32_def getBytes_loop_be)
  next
    case (Uint64 v)
    then show ?thesis
      using buf.get_be_written [OF assms(1), of 8 v ws] assms(2)
      by (auto simp: parcBuffer_GetUint64_def getBytes_loop_be)
  next
    case (Bytes bs)
    then have len: "length bs \<le> length (buffer_rest a h)" using assms(2) by simp
    note u = unat_length_rest [OF assms(1) len]
    then show ?thesis
      using Bytes assms(2) parcBuffer_GetBytes_ok [OF at(1), of "word_of_nat (length bs)"]
        buffer_advanced [OF at, of "word_of_nat (length bs)"] buffer_room(1) [OF at(1)] len
      by auto
  qed
qed

lemma put_fields_ok:
  "buffer_ok a h \<Longrightarrow> length (concat (map field_bytes fs)) \<le> length (buffer_rest a h) \<Longrightarrow>
     \<exists>h'. put_fields h (Some a) fs = Inr h' \<and> buffer_ok a h' \<and>
       buffer_out a h' = buffer_out a h @ concat (map field_bytes fs) \<and>
       buffer_rest a h' = drop (length (concat (map field_bytes fs))) (buffer_rest a h)"
proof (induction fs arbitrary: h)
  case (Cons f fs)
  obtain h1 where h1: "put_field h (Some a) f = Inr h1" "buffer_ok a h1"
      "buffer_out a h1 = buffer_out a h @ field_bytes f"
      "buffer_rest a h1 = drop (length (field_bytes f)) (buffer_rest a h)"
    using put_field_ok [OF Cons.prems(1), of f] Cons.prems(2) by auto
  with Cons.IH [OF h1(2)] Cons.prems(2) show ?case by (auto simp: add.commute)
qed simp

lemma get_fields_ok:
  "buffer_ok a h \<Longrightarrow> buffer_rest a h = concat (map field_bytes fs) @ ws \<Longrightarrow>
     \<exists>h'. get_fields h (Some a) (map shape_of fs) = Inr (fs, h') \<and> buffer_ok a h' \<and> buffer_rest a h' = ws"
proof (induction fs arbitrary: h)
  case (Cons f fs)
  obtain h1 where h1: "get_field h (Some a) (shape_of f) = Inr (f, h1)" "buffer_ok a h1"
      "buffer_rest a h1 = concat (map field_bytes fs) @ ws"
    using get_field_ok [OF Cons.prems(1), of f] Cons.prems(2) by auto
  with Cons.IH [OF h1(2)] show ?case by auto
qed simp

text \<open>
  C3: whatever sequence of 8, 16, 32 and 64 bit integers and byte arrays fits between the position and the
  limit can be written, appends the big endian bytes of each value, and after going back to the
  first position the same sequence of reads returns the same values and leaves the position where the
  writes had left it.
\<close>

theorem parcBuffer_fields_roundtrip:
  assumes "buffer_at h a b x" "limit b \<noteq> SIZE_MAX"
    and "length (concat (map field_bytes fs)) \<le> unat (limit b) - unat (position b)"
  shows "\<exists>h1 h2 h3. put_fields h (Some a) fs = Inr h1 \<and>
    buffer_out a h1 = buffer_out a h @ concat (map field_bytes fs) \<and>
    parcBuffer_SetPosition h1 (Some a) (position b) = Inr h2 \<and>
    get_fields h2 (Some a) (map shape_of fs) = Inr (fs, h3) \<and>
    buffer_rest a h3 = buffer_rest a h1"
proof -
  let ?m = "concat (map field_bytes fs)"
  have ok: "buffer_ok a h" using buffer_tape(1) [OF assms(1,2)] .
  obtain h1 where h1: "put_fields h (Some a) fs = Inr h1" "buffer_ok a h1"
      "buffer_out a h1 = buffer_out a h @ ?m" "buffer_rest a h1 = drop (length ?m) (buffer_rest a h)"
    using put_fields_ok [OF ok, of fs] assms(3) buffer_room(1) [OF assms(1)] by auto
  have len: "length (buffer_out a h) = unat (position b)"
    using buffer_nats(3,6) [OF assms(1)] by (simp add: buffer_tape [OF assms(1)])
  then obtain h2 where h2: "buffer_seek a h1 (unat (position b)) = Inr h2" "buffer_ok a h2"
      "buffer_rest a h2 = ?m @ buffer_rest a h1"
    using buf.seek_ok [OF h1(2), of "unat (position b)"] h1(3) by auto
  obtain h3 where "get_fields h2 (Some a) (map shape_of fs) = Inr (fs, h3)"
      "buffer_rest a h3 = buffer_rest a h1"
    using get_fields_ok [OF h2(2,3)] by blast
  with h1 h2(1) show ?thesis by (auto simp: buffer_seek_def)
qed

theorem parcBuffer_fields_roundtrip_witness:
  "\<exists>h1 h2 h3. put_fields example_memory (Some 200) [Uint16 0x1234, Bytes [5, 6]] = Inr h1 \<and>
     buffer_out 200 h1 = [12, 0x12, 0x34, 5, 6] \<and>
     parcBuffer_SetPosition h1 (Some 200) (position example_buffer) = Inr h2 \<and>
     get_fields h2 (Some 200) [ShapeUint16, ShapeBytes 2] = Inr ([Uint16 0x1234, Bytes [5, 6]], h3)"
proof -
  have bytes: "concat (map field_bytes [Uint16 0x1234, Bytes [5, 6]]) = [0x12, 0x34, 5, 6]"
    by (simp add: be_bytes_2)
  have out: "buffer_out 200 example_memory = [12]"
    unfolding buffer_tape(2) [OF example_buffer_at] window_def
    by (simp add: example_buffer_def example_array_def bytes_at_def ba_bytes_def upt_rec)
  have "\<exists>h1 h2 h3. put_fields example_memory (Some 200) [Uint16 0x1234, Bytes [5, 6]] = Inr h1 \<and>
     buffer_out 200 h1 = buffer_out 200 example_memory @ concat (map field_bytes [Uint16 0x1234, Bytes [5, 6]]) \<and>
     parcBuffer_SetPosition h1 (Some 200) (position example_buffer) = Inr h2 \<and>
     get_fields h2 (Some 200) (map shape_of [Uint16 0x1234, Bytes [5, 6]]) = Inr ([Uint16 0x1234, Bytes [5, 6]], h3) \<and>
     buffer_rest 200 h3 = buffer_rest 200 h1"
    by (rule parcBuffer_fields_roundtrip [OF example_buffer_at])
      (unfold bytes, simp_all add: example_buffer_def)
  then show ?thesis unfolding bytes out by auto
qed

section \<open>Comparison and hash\<close>

lemma parcBuffer_Overlay_0:
  assumes "buffer_at h a b x" "position b < limit b"
  shows "\<exists>bytes. parcBuffer_Overlay h (Some a) 0 = Inr (bytes, h) \<and>
    (\<forall>k \<le> length (buffer_rest a h). take k bytes = take k (buffer_rest a h)) \<and>
    length (buffer_rest a h) \<le> length bytes"
proof -
  obtain c where c: "array b = Some c" "byte_array_at h c x" using assms(1) by (rule buffer_atE)
  note n = buffer_nats [OF assms(1)]
  let ?bytes = "drop (unat (arrayOffset b) + unat (position b)) (ba_bytes x)"
  have "\<not> ba_length x \<le> arrayOffset b + position b"
    using buffer_array_length [OF assms] by simp
  then have "parcBuffer_Overlay h (Some a) 0 = Inr (?bytes, h)"
    using assms c n(1)
    by (simp add: parcBuffer_Overlay_def trapIfBufferUnderflow_def trapIfIndexExceedsLimit_def
        effectiveIndex_def parcByteArray_AddressOfIndex_def parcByteArray_trapIfOutOfBounds_def
        setBuffer_same)
  moreover have "buffer_rest a h = take (unat (limit b) - unat (position b)) ?bytes"
    by (simp add: buffer_tape [OF assms(1)] window_def bytes_at_def drop_take add.commute)
  moreover have "unat (limit b) - unat (position b) \<le> length ?bytes" using n by simp
  ultimately show ?thesis by auto
qed

lemma parcBuffer_Compare_lexicographic_aux:
  assumes "buffer_at h a b x" "buffer_at h a' b' x'"
    and "length (buffer_rest a h) < 2 ^ 63" "length (buffer_rest a' h) < 2 ^ 63"
  shows "parcBuffer_Compare h (Some a) (Some a') =
    Inr (lex_compare (buffer_rest a h) (buffer_rest a' h), h)"
proof (cases "a = a'")
  case True
  then show ?thesis by (simp add: parcBuffer_Compare_def)
next
  case False
  let ?xs = "buffer_rest a h" and ?ys = "buffer_rest a' h"
  let ?rx = "limit b - position b" and ?ry = "limit b' - position b'"
  define count where "count = (if ?rx > ?ry then ?ry else ?rx)"
  have rx: "unat ?rx = length ?xs" "unat ?ry = length ?ys"
    using buffer_room(1) buffer_nats(2) assms(1,2) by simp_all
  have count: "unat count = min (length ?xs) (length ?ys)"
    by (auto simp: count_def rx word_less_nat_alt)
  have diff: "sint (?rx - ?ry) = int (length ?xs) - int (length ?ys)"
    using sint_diff_small [of ?rx ?ry] assms(3,4) by (simp add: rx)
  note lex = lex_compare_memcmp [OF count]
  show ?thesis
  proof (cases "count > 0")
    case True
    then have "position b < limit b" "position b' < limit b'"
      using count buffer_room(1) [OF assms(1)] buffer_room(1) [OF assms(2)]
      by (auto simp: word_less_nat_alt)
    then obtain bx by' where
        "parcBuffer_Overlay h (Some a) 0 = Inr (bx, h)" "take (unat count) bx = take (unat count) ?xs"
        "parcBuffer_Overlay h (Some a') 0 = Inr (by', h)" "take (unat count) by' = take (unat count) ?ys"
      using parcBuffer_Overlay_0 [OF assms(1)] parcBuffer_Overlay_0 [OF assms(2)] count by fastforce
    with True False assms(1,2) diff lex show ?thesis
      by (simp add: parcBuffer_Compare_def count_def [symmetric] Let_def sgn_if)
  next
    case False
    then have "unat count = 0" by (simp add: word_less_nat_alt)
    with False \<open>a \<noteq> a'\<close> assms(1,2) diff lex show ?thesis
      by (simp add: parcBuffer_Compare_def count_def [symmetric] Let_def sgn_if)
  qed
qed

text \<open>
  C35: \<open>parcBuffer_Compare\<close> on two valid buffers is the lexicographic order of the bytes between
  their positions and limits, a proper prefix being smaller, and changes neither buffer. (The lengths are
  compared through a signed difference, so they have to be below 2^63.)
\<close>

theorem parcBuffer_Compare_lexicographic:
  assumes "buffer_at h a b x" "buffer_at h a' b' x'"
    and "length (buffer_rest a h) < 2 ^ 63" "length (buffer_rest a' h) < 2 ^ 63"
  shows "parcBuffer_Compare h (Some a) (Some a') =
    Inr (lex_compare (buffer_rest a h) (buffer_rest a' h), h)"
  using assms by (rule parcBuffer_Compare_lexicographic_aux)

text \<open>A second buffer, on the same array, beside the example buffer.\<close>

definition example_view :: parc_buffer where
  "example_view = example_buffer\<lparr>position := 3\<rparr>"

definition example_memory2 :: memory where
  "example_memory2 = example_memory\<lparr>objects := (objects example_memory)(600 \<mapsto> buffer_header example_view)\<rparr>"

lemma example_views:
  "buffer_at example_memory2 200 example_buffer example_array"
  "buffer_at example_memory2 600 example_view example_array"
proof -
  have c: "byte_array_at example_memory2 400 example_array"
    by (simp add: example_memory2_def example_memory_def byte_array_at_def)
      (simp add: example_array_def byte_array_wf_def ba_bytes_def)
  show "buffer_at example_memory2 200 example_buffer example_array"
    by (rule buffer_at_transfer [OF example_buffer_at _ _ c])
      (simp_all add: example_memory2_def example_buffer_def)
  show "buffer_at example_memory2 600 example_view example_array"
    by (rule buffer_at_intro [OF _ _ _ c, where header = "buffer_header example_view"])
      (simp_all add: example_memory2_def example_view_def example_buffer_def buffer_inv_def
        markIsDiscarded_def, simp_all add: example_array_def)
qed

lemma example_rests:
  "buffer_rest 200 example_memory2 = [13, 14, 15, 16]"
  "buffer_rest 600 example_memory2 = [15, 16]"
  unfolding buffer_tape(3) [OF example_views(1)] buffer_tape(3) [OF example_views(2)] window_def
  by (simp_all add: example_view_def example_buffer_def example_array_def bytes_at_def ba_bytes_def upt_rec)

theorem parcBuffer_Compare_lexicographic_witness:
  "parcBuffer_Compare example_memory2 (Some 200) (Some 600) = Inr (-1, example_memory2)"
  using parcBuffer_Compare_lexicographic [OF example_views] by (simp add: example_rests)

text \<open>
  Two valid buffers are equal exactly when the bytes between their positions and limits are, and
  then they have the same hash code: 0 for no bytes, otherwise the hash of these bytes.
\<close>

theorem parcBuffer_Equals_HashCode:
  assumes "buffer_at h a b x" "buffer_at h a' b' x'"
    and "length (buffer_rest a h) < 2 ^ 63" "length (buffer_rest a' h) < 2 ^ 63"
  shows "parcBuffer_Equals h (Some a) (Some a') = Inr (buffer_rest a h = buffer_rest a' h, h) \<and>
    parcBuffer_HashCode h (Some a) =
      Inr (if buffer_rest a h = [] then 0 else parcHashCode_Hash (buffer_rest a h), h) \<and>
    (buffer_rest a h = buffer_rest a' h \<longrightarrow>
      parcBuffer_HashCode h (Some a) = parcBuffer_HashCode h (Some a'))"
proof -
  have hash: "parcBuffer_HashCode h (Some o') =
      Inr (if buffer_rest o' h = [] then 0 else parcHashCode_Hash (buffer_rest o' h), h)"
    if at: "buffer_at h o' c y" for o' c y
  proof (cases "position c < limit c")
    case True
    then obtain bytes where "parcBuffer_Overlay h (Some o') 0 = Inr (bytes, h)"
        "take (length (buffer_rest o' h)) bytes = buffer_rest o' h"
      using parcBuffer_Overlay_0 [OF at] by auto
    moreover have "buffer_rest o' h \<noteq> []" using True buffer_rest_Cons(2) [OF at] by simp
    moreover have "unat (limit c - position c) = length (buffer_rest o' h)"
      using buffer_room(1) [OF at] buffer_nats(2) [OF at] by simp
    ultimately show ?thesis
      using at by (auto simp: parcBuffer_HashCode_def word_less_nat_alt)
  next
    case False
    moreover have "limit c - position c = 0"
      using False buffer_nats(2) [OF at] by (simp add: word_less_nat_alt unat_eq_zero)
    ultimately show ?thesis
      using at buffer_rest_Cons(2) [OF at] by (simp add: parcBuffer_HashCode_def)
  qed
  have "lex_compare (buffer_rest a h) (buffer_rest a h) = 0" by simp
  then show ?thesis
    using hash [OF assms(1)] hash [OF assms(2)] parcBuffer_Compare_lexicographic_aux [OF assms]
    by (auto simp: parcBuffer_Equals_def)
qed

theorem parcBuffer_Equals_HashCode_witness:
  "parcBuffer_Equals example_memory2 (Some 200) (Some 600) = Inr (False, example_memory2) \<and>
   parcBuffer_HashCode example_memory2 (Some 200) =
     Inr (parcHashCode_Hash [13, 14, 15, 16], example_memory2)"
  using parcBuffer_Equals_HashCode [OF example_views] by (simp add: example_rests)

section \<open>Searching and skipping\<close>

lemma parcBuffer_GetAtIndex_ok:
  assumes "buffer_at h a b x" "i < limit b"
  shows "parcBuffer_GetAtIndex h (Some a) i = Inr (window b x ! unat i)"
proof -
  obtain c where c: "array b = Some c" "byte_array_at h c x" using assms(1) by (rule buffer_atE)
  note n = buffer_nats [OF assms(1)]
  have u: "unat (arrayOffset b + i) = unat (arrayOffset b) + unat i"
    using n(4,5) assms(2) unat_bound [of "ba_length x"]
    by (intro unat_add_no_wrap) (simp add: word_less_nat_alt)
  have "arrayOffset b + i < ba_length x"
    using n(4,5) assms(2) by (simp add: word_less_nat_alt u)
  moreover have "ba_bytes x ! (unat (arrayOffset b) + unat i) = window b x ! unat i"
    using n(4) assms(2) by (simp add: window_def word_less_nat_alt)
  moreover have "\<not> i > limit b" using assms(2) by simp
  ultimately show ?thesis
    using assms(1) c u
    by (simp add: parcBuffer_GetAtIndex_def trapIfIndexExceedsLimit_def effectiveIndex_def
        parcByteArray_GetByte_ok)
qed

text \<open>The index of the first occurrence, counted from \<open>i\<close>; \<open>SIZE_MAX\<close> without one.\<close>

fun first_index :: "u8 \<Rightarrow> nat \<Rightarrow> u8 list \<Rightarrow> size_t" where
  "first_index v i [] = SIZE_MAX"
| "first_index v i (w # ws) = (if w = v then word_of_nat i else first_index v (Suc i) ws)"

lemma first_index_none: "v \<notin> set ws \<Longrightarrow> first_index v i ws = SIZE_MAX"
  by (induction ws arbitrary: i) auto

lemma first_index_found:
  "v \<in> set ws \<Longrightarrow>
     \<exists>k < length ws. first_index v i ws = word_of_nat (i + k) \<and> ws ! k = v \<and> (\<forall>j < k. ws ! j \<noteq> v)"
proof (induction ws arbitrary: i)
  case (Cons w ws)
  show ?case
  proof (cases "w = v")
    case False
    with Cons obtain k where "k < length ws" "first_index v (Suc i) ws = word_of_nat (Suc i + k)"
        "ws ! k = v" "\<forall>j < k. ws ! j \<noteq> v"
      by fastforce
    with False show ?thesis
      by (intro exI [of _ "Suc k"]) (auto simp: less_Suc_eq_0_disj)
  qed (auto intro!: exI [of _ 0])
qed simp

lemma findUint8_loop_ok:
  assumes "buffer_at h a b x"
  shows "findUint8_loop h (Some a) v i = Inr (first_index v (unat i) (drop (unat i) (window b x)))"
proof (induction "2 ^ 64 - unat i" arbitrary: i rule: less_induct)
  case less
  have len: "length (window b x) = unat (limit b)" using assms by (rule buffer_nats)
  show ?case
  proof (cases "i < limit b")
    case True
    then have u: "unat (i + 1) = Suc (unat i)" by (rule unat_Suc_less)
    have "drop (unat i) (window b x) = window b x ! unat i # drop (Suc (unat i)) (window b x)"
      using True len by (simp add: Cons_nth_drop_Suc word_less_nat_alt)
    moreover have "2 ^ 64 - unat (i + 1) < 2 ^ 64 - unat i"
      using u unat_bound [of i] by (simp add: diff_less_mono2)
    ultimately show ?thesis
      using less True u assms
      by (subst findUint8_loop.simps) (simp add: parcBuffer_GetAtIndex_ok)
  next
    case False
    then show ?thesis
      using assms len by (subst findUint8_loop.simps) (simp add: word_less_nat_alt)
  qed
qed

text \<open>
  \<open>parcBuffer_FindUint8\<close> ends and returns the index, relative to the start of the buffer, of the first
  occurrence of the byte between the position and the limit, or \<open>SIZE_MAX\<close> when there is none.
\<close>

theorem parcBuffer_FindUint8_first:
  assumes "buffer_at h a b x"
  shows "\<exists>r. parcBuffer_FindUint8 h (Some a) v = Inr r \<and>
    (if v \<in> set (buffer_rest a h)
     then position b \<le> r \<and> r < limit b \<and> window b x ! unat r = v \<and>
       (\<forall>j. unat (position b) \<le> j \<and> j < unat r \<longrightarrow> window b x ! j \<noteq> v)
     else r = SIZE_MAX)"
proof -
  note n = buffer_nats [OF assms]
  have r: "parcBuffer_FindUint8 h (Some a) v = Inr (first_index v (unat (position b)) (buffer_rest a h))"
    using assms findUint8_loop_ok [OF assms, of v "position b"]
    by (simp add: parcBuffer_FindUint8_def buffer_tape)
  show ?thesis
  proof (cases "v \<in> set (buffer_rest a h)")
    case True
    then obtain k where k: "k < length (buffer_rest a h)" "buffer_rest a h ! k = v"
        "first_index v (unat (position b)) (buffer_rest a h) = word_of_nat (unat (position b) + k)"
        "\<forall>j < k. buffer_rest a h ! j \<noteq> v"
      using first_index_found by blast
    have lt: "unat (position b) + k < unat (limit b)" using k(1) buffer_room(1) [OF assms] by simp
    then have u: "unat (word_of_nat (unat (position b) + k) :: size_t) = unat (position b) + k"
      using unat_bound [of "limit b"] by (intro unat_word_of_nat) linarith
    have nth: "window b x ! (unat (position b) + j) = buffer_rest a h ! j" if "j \<le> k" for j
      using that lt n(6) by (simp add: buffer_tape [OF assms])
    have "window b x ! j \<noteq> v" if "unat (position b) \<le> j" "j < unat (position b) + k" for j
      using nth [of "j - unat (position b)"] k(4) that by auto
    then show ?thesis
      using True r k(2,3) lt u nth [of k] by (auto simp: word_le_nat_alt word_less_nat_alt)
  next
    case False
    then show ?thesis using first_index_none r by simp
  qed
qed

theorem parcBuffer_FindUint8_first_witness:
  "\<exists>r. parcBuffer_FindUint8 example_memory2 (Some 200) 15 = Inr r \<and> r < 5 \<and>
     window example_buffer example_array ! unat r = 15"
  using parcBuffer_FindUint8_first [OF example_views(1), of 15]
  by (auto simp: example_rests) (auto simp: example_buffer_def)

lemma buffer_remaining:
  assumes "buffer_ok a h"
  obtains n where "parcBuffer_Remaining h (Some a) = Inr n" "unat n = length (buffer_rest a h)"
proof -
  obtain b x where at: "buffer_at h a b x" using assms by (rule buffer_okE)
  then show thesis
    using that [of "limit b - position b"] buffer_room(1) [OF at] buffer_nats(2) [OF at] by simp
qed

lemma buffer_position:
  assumes "buffer_ok a h"
  shows "parcBuffer_Position h (Some a) = Inr (word_of_nat (length (buffer_out a h)))"
proof -
  obtain b x where at: "buffer_at h a b x" using assms by (rule buffer_okE)
  then show ?thesis
    using buffer_nats(3,6) [OF at] by (simp add: buffer_tape [OF at] min_absorb2)
qed

lemma skip_loop_ok:
  "buffer_ok a h \<Longrightarrow>
     \<exists>h'. skip_loop h (Some a) found = Inr (\<exists>v \<in> set (buffer_rest a h). found v, h') \<and> buffer_ok a h' \<and>
       buffer_out a h' = buffer_out a h @ takeWhile (\<lambda>v. \<not> found v) (buffer_rest a h) \<and>
       buffer_rest a h' = dropWhile (\<lambda>v. \<not> found v) (buffer_rest a h)"
proof (induction "buffer_rest a h" arbitrary: h)
  case Nil
  obtain n where "parcBuffer_Remaining h (Some a) = Inr n" "unat n = 0"
    using buffer_remaining [OF Nil.prems] Nil(1) by (metis list.size(3))
  with Nil show ?case by (subst skip_loop.simps) (auto simp: word_less_nat_alt simp flip: Nil(1))
next
  case (Cons w ws)
  obtain n where n: "parcBuffer_Remaining h (Some a) = Inr n" "n > 0"
    using buffer_remaining [OF Cons.prems] Cons(2) by (metis length_greater_0_conv list.distinct(1)
        unat_0 word_less_nat_alt)
  obtain h1 where h1: "parcBuffer_GetUint8 h (Some a) = Inr (w, h1)" "buffer_ok a h1"
      "buffer_out a h1 = buffer_out a h @ [w]" "buffer_rest a h1 = ws"
    using buf.get_Cons [OF Cons.prems Cons(2) [symmetric]] by (auto simp: buffer_get_def)
  show ?case
  proof (cases "found w")
    case True
    obtain h2 where h2: "buffer_seek a h1 (length (buffer_out a h)) = Inr h2" "buffer_ok a h2"
        "buffer_out a h2 = buffer_out a h" "buffer_rest a h2 = w # ws"
      using buf.seek_ok [OF h1(2), of "length (buffer_out a h)"] h1(3,4) by auto
    have "parcBuffer_Position h1 (Some a) = Inr (word_of_nat (length (buffer_out a h)) + 1)"
      using buffer_position [OF h1(2)] h1(3) by (simp add: add.commute)
    then show ?thesis
      using True n h1 h2 by (subst skip_loop.simps) (simp add: buffer_seek_def flip: Cons(2))
  next
    case False
    then show ?thesis
      using n h1 Cons(1) [OF h1(4) [symmetric] h1(2)]
      by (subst skip_loop.simps) (auto simp flip: Cons(2))
  qed
qed

text \<open>
  \<open>parcBuffer_SkipOver\<close> and \<open>parcBuffer_SkipTo\<close> end on every valid buffer. They move the
  position over the longest run of bytes that are, or are not, in the given set, change no byte, and return true
  exactly when a byte is left to stop at.
\<close>

theorem parcBuffer_Skip_stops:
  assumes "buffer_at h a b x" "limit b \<noteq> SIZE_MAX" "length bytes = unat n"
  shows "(\<exists>h'. parcBuffer_SkipOver h (Some a) n bytes = Inr (\<not> set (buffer_rest a h) \<subseteq> set bytes, h') \<and>
      buffer_out a h' = buffer_out a h @ takeWhile (\<lambda>v. v \<in> set bytes) (buffer_rest a h) \<and>
      buffer_rest a h' = dropWhile (\<lambda>v. v \<in> set bytes) (buffer_rest a h)) \<and>
    (\<exists>h'. parcBuffer_SkipTo h (Some a) n bytes = Inr (set (buffer_rest a h) \<inter> set bytes \<noteq> {}, h') \<and>
      buffer_out a h' = buffer_out a h @ takeWhile (\<lambda>v. v \<notin> set bytes) (buffer_rest a h) \<and>
      buffer_rest a h' = dropWhile (\<lambda>v. v \<notin> set bytes) (buffer_rest a h))"
proof -
  have ok: "buffer_ok a h" using buffer_tape(1) [OF assms(1,2)] .
  have "(\<exists>v \<in> set (buffer_rest a h). v \<notin> set bytes) \<longleftrightarrow> \<not> set (buffer_rest a h) \<subseteq> set bytes"
    "(\<exists>v \<in> set (buffer_rest a h). v \<in> set bytes) \<longleftrightarrow> set (buffer_rest a h) \<inter> set bytes \<noteq> {}"
    by auto
  with skip_loop_ok [OF ok, of "\<lambda>v. v \<notin> set bytes"] skip_loop_ok [OF ok, of "\<lambda>v. v \<in> set bytes"] assms(3)
  show ?thesis by (auto simp: parcBuffer_SkipOver_def parcBuffer_SkipTo_def)
qed

theorem parcBuffer_Skip_stops_witness:
  "\<exists>h'. parcBuffer_SkipOver example_memory2 (Some 200) 2 [14, 13] = Inr (True, h') \<and>
     buffer_rest 200 h' = [15, 16]"
  using parcBuffer_Skip_stops [OF example_views(1), of "[14, 13]" 2]
  by (simp add: example_rests) (auto simp: example_buffer_def)

section \<open>A memory with one buffer\<close>

text \<open>The memory after a buffer over \<open>bytes\<close> was made, for the examples of other theories.\<close>

definition bytes_array :: "u8 list \<Rightarrow> parc_byte_array" where
  "bytes_array bytes =
     \<lparr>ba_array = Some bytes, ba_length = word_of_nat (length bytes), ba_freeFunction = True\<rparr>"

definition buffer_memory :: "u8 list \<Rightarrow> memory" where
  "buffer_memory bytes = empty_heap
     \<lparr>objects := [200 \<mapsto> buffer_header (fresh_buffer (Some 400) (word_of_nat (length bytes))),
                 400 \<mapsto> byte_array_header (bytes_array bytes)],
      blocks := (\<lambda>b. b = 48 \<or> b = 248), brk := 424\<rparr>"

lemma buffer_memory_at:
  assumes "length bytes < 2 ^ 64"
  shows "buffer_at (buffer_memory bytes) 200 (fresh_buffer (Some 400) (word_of_nat (length bytes)))
      (bytes_array bytes)"
    and "buffer_rest 200 (buffer_memory bytes) = bytes" "buffer_out 200 (buffer_memory bytes) = []"
    and "heap_wf (buffer_memory bytes)" "\<not> allocFails (buffer_memory bytes) k"
proof -
  have u: "unat (word_of_nat (length bytes) :: size_t) = length bytes"
    using assms by (intro unat_word_of_nat) simp
  have c: "byte_array_at (buffer_memory bytes) 400 (bytes_array bytes)"
    using u by (simp add: buffer_memory_def byte_array_at_def byte_array_wf_def)
      (simp add: bytes_array_def ba_bytes_def)
  show at: "buffer_at (buffer_memory bytes) 200 (fresh_buffer (Some 400) (word_of_nat (length bytes)))
      (bytes_array bytes)"
    by (rule buffer_at_intro [OF _ _ _ c, where header =
          "buffer_header (fresh_buffer (Some 400) (word_of_nat (length bytes)))"])
      (simp_all add: buffer_memory_def fresh_buffer_def buffer_inv_def markIsDiscarded_def bytes_array_def)
  show "buffer_rest 200 (buffer_memory bytes) = bytes" "buffer_out 200 (buffer_memory bytes) = []"
    using u by (simp_all add: buffer_tape [OF at] window_def fresh_buffer_def bytes_at_def bytes_array_def
        ba_bytes_def)
  show "heap_wf (buffer_memory bytes)" "\<not> allocFails (buffer_memory bytes) k"
    by (auto simp: heap_wf_def buffer_memory_def empty_heap_def split: if_splits)
qed

end
