(* ===== verification/Parc_BufferText.thy ===== *)
theory Parc_BufferText
  imports Parc_BufferData
begin

text \<open>
  The textual operations of \<^verbatim>\<open>parc/algol/parc_Buffer.c\<close>: what the decimal and hexadecimal number parsers
  compute, and that \<open>parcBuffer_ParseHexString\<close> undoes \<open>parcBuffer_ToHexString\<close>.
\<close>

section \<open>Digits\<close>

definition digit_value :: "u8 \<Rightarrow> nat" where
  "digit_value c = (if c \<le> 57 then unat c - 48 else if c \<le> 70 then unat c - 55 else unat c - 87)"

definition hex_codes :: "nat list" where
  "hex_codes = [48..<58] @ [65..<71] @ [97..<103]"

lemma isxdigit_codes: "isxdigit c \<Longrightarrow> \<exists>n \<in> set hex_codes. c = word_of_nat n"
  by (rule bexI [of _ "unat c"])
    (auto simp: isxdigit_def isdigit_def word_le_nat_alt hex_codes_def simp del: upt_rec_numeral)

lemma digittoint_codes:
  "list_all (\<lambda>n. digittoint (word_of_nat n) = int (digit_value (word_of_nat n))) hex_codes"
  by code_simp

lemma digittoint_value: "isxdigit c \<Longrightarrow> digittoint c = int (digit_value c)"
  using isxdigit_codes digittoint_codes by (auto simp: list_all_iff)

lemma fromHexDigit_codes: "list_all (\<lambda>n. fromHexDigit (hexDigitsUpper ! n) = int n) [0..<16]"
  by code_simp

lemma hexByte_toHexDigit: "hexByte (toHexDigit (drop_bit 4 b)) (toHexDigit b) = b"
proof -
  have lt: "unat (w AND 0xF) < 16" for w :: u8
  proof -
    have "(0xF :: u8) = mask 4" by (simp add: mask_eq_exp_minus_1)
    then have "w AND 0xF = take_bit 4 w" by (simp add: take_bit_eq_mask)
    then show ?thesis by (simp add: unsigned_take_bit_eq take_bit_nat_less_exp [of 4, simplified])
  qed
  have digit: "fromHexDigit (toHexDigit w) = int (unat (w AND 0xF))" for w
    using fromHexDigit_codes lt [of w] by (auto simp: list_all_iff toHexDigit_def)
  have "hexByte (toHexDigit (drop_bit 4 b)) (toHexDigit b) =
      push_bit 4 (drop_bit 4 b AND 0xF) OR (b AND 0xF)"
    by (simp add: hexByte_def digit push_bit_eq_mult)
  also have "\<dots> = push_bit 4 (drop_bit 4 b AND mask 4) OR (b AND mask 4)"
    by (simp add: mask_eq_exp_minus_1)
  also have "\<dots> = b"
    by (rule bit_word_eqI) (auto simp: bit_simps)
  finally show ?thesis .
qed

section \<open>Number parsers\<close>

text \<open>The number a string of digits stands for.\<close>

definition digits_value :: "nat \<Rightarrow> u8 list \<Rightarrow> nat" where
  "digits_value base cs = foldl (\<lambda>n c. n * base + digit_value c) 0 cs"

lemma parse_loop_value:
  assumes "\<And>c. is_digit c \<Longrightarrow> isxdigit c"
  shows "parse_loop (word_of_nat base) is_digit cs (word_of_nat n) count =
    (word_of_nat (foldl (\<lambda>n c. n * base + digit_value c) n (takeWhile is_digit cs)),
     count + word_of_nat (length (takeWhile is_digit cs)))"
proof (induction cs arbitrary: n count)
  case (Cons c cs)
  have "word_of_nat n * word_of_nat base + word_of_int (digittoint c) =
      (word_of_nat (n * base + digit_value c) :: u64)" if "is_digit c"
    using digittoint_value [OF assms [OF that]] by simp
  then show ?case
    using Cons.IH [of "n * base + digit_value c" "count + 1"] by (simp add: add.assoc)
qed simp

lemma seek_forward:
  assumes "buffer_ok a h" "parcBuffer_Position h (Some a) = Inr pos" "k \<le> length (buffer_rest a h)"
  shows "\<exists>h'. parcBuffer_SetPosition h (Some a) (pos + word_of_nat k) = Inr h' \<and> buffer_ok a h' \<and>
    buffer_out a h' = buffer_out a h @ take k (buffer_rest a h) \<and> buffer_rest a h' = drop k (buffer_rest a h)"
proof -
  have "pos + word_of_nat k = word_of_nat (length (buffer_out a h) + k)"
    using buffer_position [OF assms(1)] assms(2) by simp
  then show ?thesis
    using buf.seek_ok [OF assms(1), of "length (buffer_out a h) + k"] assms(3)
    by (auto simp: buffer_seek_def)
qed

text \<open>
  On a buffer with data, \<open>parcBuffer_ParseDecimalNumber\<close> and \<open>parcBuffer_ParseHexNumber\<close> return the value,
  modulo 2^64, of the longest run of digits at the position (for the latter after an optional \<open>0x\<close> that more
  bytes follow) and move the position behind what they used.
\<close>

theorem parcBuffer_Parse_numbers:
  assumes "buffer_at h a b x" "limit b \<noteq> SIZE_MAX" "position b < limit b"
    "length (buffer_rest a h) < 2 ^ 31"
  defines "rest \<equiv> buffer_rest a h"
  defines "start \<equiv> (if length rest > 2 \<and> take 2 rest = [48, 120] then 2 else 0)"
  shows "(\<exists>h'. parcBuffer_ParseDecimalNumber h (Some a) =
        Inr (word_of_nat (digits_value 10 (takeWhile isdigit rest)), h') \<and>
      buffer_rest a h' = dropWhile isdigit rest) \<and>
    (\<exists>h'. parcBuffer_ParseHexNumber h (Some a) =
        Inr (word_of_nat (digits_value 16 (takeWhile isxdigit (drop start rest))), h') \<and>
      buffer_rest a h' = dropWhile isxdigit (drop start rest))"
proof -
  have ok: "buffer_ok a h" using buffer_tape(1) [OF assms(1,2)] .
  obtain bytes where bytes: "parcBuffer_Overlay h (Some a) 0 = Inr (bytes, h)"
      "\<forall>k \<le> length rest. take k bytes = take k rest" "length rest \<le> length bytes"
    using parcBuffer_Overlay_0 [OF assms(1,3)] unfolding rest_def by blast
  obtain n where n: "parcBuffer_Remaining h (Some a) = Inr n" "unat n = length rest"
    using buffer_remaining [OF ok] unfolding rest_def by blast
  obtain pos where pos: "parcBuffer_Position h (Some a) = Inr pos" using assms(1) by simp
  have all: "take (unat n) bytes = rest" using bytes(2) n(2) by simp
  have cast: "ucast (word_of_nat k :: u32) = (word_of_nat k :: size_t)" if "k \<le> length rest" for k
  proof -
    have "unat (word_of_nat k :: u32) = k"
      using that assms(4) unfolding rest_def by (intro unat_word_of_nat) simp
    then show ?thesis by (metis of_nat_unat)
  qed
  let ?d = "takeWhile isdigit rest" and ?x = "takeWhile isxdigit (drop start rest)"
  have d: "length ?d \<le> length rest" by (rule length_takeWhile_le)
  have start: "start \<le> length rest" by (simp add: start_def)
  have x: "start + length ?x \<le> length rest"
    using length_takeWhile_le [of isxdigit "drop start rest"] start by simp
  have dec: "parse_loop 10 isdigit rest 0 0 = (word_of_nat (digits_value 10 ?d), word_of_nat (length ?d))"
    using parse_loop_value [of isdigit 10 rest 0 0] by (simp add: isxdigit_def digits_value_def)
  have hex: "parse_loop 16 isxdigit (drop start rest) 0 0 =
      (word_of_nat (digits_value 16 ?x), word_of_nat (length ?x))"
    using parse_loop_value [of isxdigit 16 "drop start rest" 0 0] by (simp add: digits_value_def)
  obtain h1 where h1: "parcBuffer_SetPosition h (Some a) (pos + word_of_nat (length ?d)) = Inr h1"
      "buffer_rest a h1 = drop (length ?d) rest"
    using seek_forward [OF ok pos] d unfolding rest_def by blast
  obtain h2 where h2: "parcBuffer_SetPosition h (Some a) (pos + word_of_nat (start + length ?x)) = Inr h2"
      "buffer_rest a h2 = drop (start + length ?x) rest"
    using seek_forward [OF ok pos] x unfolding rest_def by blast
  have "parcBuffer_ParseDecimalNumber h (Some a) = Inr (word_of_nat (digits_value 10 ?d), h1)"
    using bytes(1) n pos all dec h1(1) cast [OF d] by (simp add: parcBuffer_ParseDecimalNumber_def)
  moreover have "parcBuffer_ParseHexNumber h (Some a) = Inr (word_of_nat (digits_value 16 ?x), h2)"
  proof -
    have "n > 2 \<and> bytes ! 0 = 48 \<and> bytes ! 1 = 120 \<longleftrightarrow> length rest > 2 \<and> take 2 rest = [48, 120]"
    proof (cases "length rest > 2")
      case True
      then have "take 2 bytes = take 2 rest" using bytes(2) by simp
      moreover have "take 2 bytes = [bytes ! 0, bytes ! 1]"
        using True bytes(3) by (cases bytes; cases "tl bytes") auto
      ultimately show ?thesis using True n(2) by (auto simp: word_less_nat_alt)
    qed (simp add: n(2) word_less_nat_alt)
    then have s: "(if n > 2 \<and> bytes ! 0 = 48 \<and> bytes ! 1 = 120 then 2 else 0) = start"
      by (simp add: start_def)
    have p: "pos + word_of_nat start + ucast (word_of_nat (length ?x) :: u32) =
        pos + word_of_nat (start + length ?x)"
      using x cast [of "length ?x"] by (simp add: add.assoc)
    show ?thesis
      unfolding parcBuffer_ParseHexNumber_def
      using bytes(1) n pos all hex h2(1) by (simp only: rbind_simps prod.case s Let_def p)
  qed
  moreover have "drop (start + length ?x) rest = drop (length ?x) (drop start rest)"
    by (simp add: add.commute)
  ultimately show ?thesis
    using h1(2) h2(2) by (auto simp: dropWhile_eq_drop)
qed

theorem parcBuffer_Parse_numbers_witness:
  "\<exists>h'. parcBuffer_ParseHexNumber (buffer_memory [48, 120, 49, 70, 122]) (Some 200) = Inr (0x1F, h') \<and>
     buffer_rest 200 h' = [122]"
proof -
  let ?m = "buffer_memory [48, 120, 49, 70, 122]"
  have len: "length [48, 120, 49, 70, 122 :: u8] < 2 ^ 64" by simp
  note at = buffer_memory_at [OF len]
  have "\<exists>h'. parcBuffer_ParseHexNumber ?m (Some 200) =
        Inr (word_of_nat (digits_value 16 [49, 70]), h') \<and> buffer_rest 200 h' = [122]"
    using parcBuffer_Parse_numbers [OF at(1)]
    by (simp add: at(2) fresh_buffer_def isxdigit_def isdigit_def)
  then show ?thesis by (simp add: digits_value_def digit_value_def)
qed

section \<open>Hexadecimal strings\<close>

definition hex_pair :: "u8 \<Rightarrow> u8 list" where
  "hex_pair v = [toHexDigit (drop_bit 4 v), toHexDigit v]"

definition to_hex :: "u8 list \<Rightarrow> u8 list" where
  "to_hex bs = concat (map hex_pair bs)"

lemma length_to_hex [simp]: "length (to_hex bs) = 2 * length bs"
  by (induction bs) (simp_all add: to_hex_def hex_pair_def)

lemma buffer_at_allocCount [simp]: "buffer_at (h\<lparr>allocCount := n\<rparr>) a b x = buffer_at h a b x"
  by (simp add: buffer_at_def byte_array_at_def split: option.splits)

lemma toHexString_loop_ok:
  assumes "buffer_at h a b x"
  shows "unat i + n \<le> unat (limit b) \<Longrightarrow>
    toHexString_loop h (Some a) n i = Inr (to_hex (take n (drop (unat i) (window b x))))"
proof (induction n arbitrary: i)
  case (Suc n)
  have i: "i < limit b" using Suc.prems by (simp add: word_less_nat_alt)
  then have u: "unat (i + 1) = Suc (unat i)" by (rule unat_Suc_less)
  have "drop (unat i) (window b x) = window b x ! unat i # drop (Suc (unat i)) (window b x)"
    using i buffer_nats(6) [OF assms] by (simp add: Cons_nth_drop_Suc word_less_nat_alt)
  then show ?case
    using Suc u parcBuffer_GetAtIndex_ok [OF assms i] by (simp add: to_hex_def hex_pair_def)
qed (simp add: to_hex_def)

lemma parseHexString_loop_hex:
  "parseHexString_loop h (Some a) (to_hex bs) = put_list (buffer_put a) bs h"
proof (induction bs arbitrary: h)
  case (Cons b bs)
  have "parseHexString_loop h (Some a) (to_hex (b # bs)) =
      rbind (buffer_put a h b) (\<lambda>h1. parseHexString_loop h1 (Some a) (to_hex bs))"
    by (simp add: to_hex_def hex_pair_def hexByte_toHexDigit buffer_put_def)
  with Cons.IH show ?case by (simp cong: rbind_cong)
qed (simp add: to_hex_def)

text \<open>
  With memory available, \<open>parcBuffer_ToHexString\<close> gives two hexadecimal digits for each of as many bytes
  as remain in the buffer, counted from the start of the buffer (not from its position), and
  \<open>parcBuffer_ParseHexString\<close> turns the string into a new buffer that holds exactly these bytes
  before its position.
\<close>

theorem parcBuffer_hex_roundtrip:
  assumes "buffer_at h a b x" "heap_wf h" "\<forall>k. \<not> allocFails h k"
    and "2 * unat (limit b - position b) < 2 ^ 64 - 1"
  defines "bytes \<equiv> take (unat (limit b - position b)) (window b x)"
  shows "\<exists>h1 p h2. parcBuffer_ToHexString h (Some a) = Inr (Some (to_hex bytes), h1) \<and>
    parcBuffer_ParseHexString h1 (to_hex bytes) = Inr (Some p, h2) \<and> buffer_out p h2 = bytes"
proof -
  let ?n = "unat (limit b - position b)"
  define h1 where "h1 = h\<lparr>allocCount := Suc (allocCount h)\<rparr>"
  note nats = buffer_nats [OF assms(1)]
  have at1: "buffer_at h1 a b x" "heap_wf h1" using assms(1,2) by (simp_all add: h1_def)
  have len: "length bytes = ?n" using nats by (simp add: bytes_def)
  have "toHexString_loop h1 (Some a) ?n 0 = Inr (to_hex bytes)"
    using toHexString_loop_ok [OF at1(1), of 0 ?n] nats by (simp add: bytes_def)
  then have hex: "parcBuffer_ToHexString h (Some a) = Inr (Some (to_hex bytes), h1)"
    using assms(1,3) by (simp add: parcBuffer_ToHexString_def parcMemory_AllocateRaw_def h1_def)
  let ?m = "word_of_nat (2 * length bytes) :: size_t"
  have m: "unat ?m = 2 * length bytes"
    using assms(4) by (intro unat_word_of_nat) (simp add: len)
  have max: "?m \<noteq> SIZE_MAX"
  proof
    assume "?m = SIZE_MAX"
    then have "2 * length bytes = unat SIZE_MAX" using m by simp
    with assms(4) show False by (simp add: len unat_SIZE_MAX)
  qed
  from at1(2) show ?thesis
  proof (cases rule: parcBuffer_Allocate_cases [where n = ?m])
    case (oom h')
    with assms(3) show ?thesis by (simp add: h1_def)
  next
    case (new p c h2 h3 header)
    let ?h = "parcObject_SetHeader h3 p (buffer_header (fresh_buffer (Some c) ?m))"
    have ok: "buffer_ok p ?h" using buffer_tape(1) [OF new(2)] max by (simp add: fresh_buffer_def)
    have room: "length (buffer_rest p ?h) = 2 * length bytes"
      using buffer_room(1) [OF new(2)] m by (simp add: fresh_buffer_def)
    have out: "buffer_out p ?h = []" unfolding buffer_tape(2) [OF new(2)] by (simp add: fresh_buffer_def)
    obtain h4 where "put_list (buffer_put p) bytes ?h = Inr h4" "buffer_out p h4 = bytes"
      using buf.put_list_tape [OF ok, of bytes] room out by auto
    then have "parcBuffer_ParseHexString h1 (to_hex bytes) = Inr (Some p, h4)"
      using new(1) by (simp add: parcBuffer_ParseHexString_def parseHexString_loop_hex)
    with hex \<open>buffer_out p h4 = bytes\<close> show ?thesis by blast
  qed
qed

theorem parcBuffer_hex_roundtrip_witness:
  "\<exists>h1 p h2. parcBuffer_ToHexString (buffer_memory [0xDE, 0xAD]) (Some 200) = Inr (Some [68, 69, 65, 68], h1) \<and>
     parcBuffer_ParseHexString h1 [68, 69, 65, 68] = Inr (Some p, h2) \<and> buffer_out p h2 = [0xDE, 0xAD]"
proof -
  have len: "length [0xDE, 0xAD :: u8] < 2 ^ 64" by simp
  note at = buffer_memory_at [OF len]
  let ?b = "fresh_buffer (Some 400) (word_of_nat (length [0xDE, 0xAD :: u8]))"
  have w: "take (unat (limit ?b - position ?b)) (window ?b (bytes_array [0xDE, 0xAD])) = [0xDE, 0xAD]"
    by (simp add: window_def fresh_buffer_def bytes_at_def bytes_array_def ba_bytes_def)
  have t: "to_hex [0xDE, 0xAD] = [68, 69, 65, 68]" by code_simp
  have "2 * unat (limit ?b - position ?b) < 2 ^ 64 - 1" by (simp add: fresh_buffer_def)
  from parcBuffer_hex_roundtrip [OF at(1,4) _ this] at(5) show ?thesis unfolding w t by blast
qed

end
