(* ===== verification/Parc_BufferComposer.thy ===== *)
theory Parc_BufferComposer
  imports Parc_BufferText
begin

text \<open>
  \<^verbatim>\<open>parc/algol/parc_BufferComposer.c\<close>: a buffer that grows while it is written, and the rounding
  functions of \<^verbatim>\<open>parc/algol/parc_Memory.c\<close> it uses. The size of a cache line is fixed by the build and is a
  parameter. What \<open>vasprintf\<close> makes of a format and its arguments is the argument of
  \<open>parcBufferComposer_Format\<close>; \<open>None\<close> is its failure. Where the C function returns its composer
  argument, the pointer is left out of the result.
\<close>

section \<open>Rounding\<close>

definition parcMemory_RoundUpToMultiple :: "size_t \<Rightarrow> size_t \<Rightarrow> size_t" where
  "parcMemory_RoundUpToMultiple sz multiple =
     (if sz = 0 then multiple
      else if multiple = 0 then sz
      else
        let remainder = sz mod multiple
        in if remainder = 0 then sz else sz + multiple - remainder)"

definition parcMemory_RoundUpToCacheLine :: "size_t \<Rightarrow> size_t \<Rightarrow> size_t" where
  "parcMemory_RoundUpToCacheLine lineSize sz = parcMemory_RoundUpToMultiple sz lineSize"

section \<open>Operations\<close>

definition composerOf :: "memory \<Rightarrow> ptr \<Rightarrow> parc_buffer_composer result" where
  "composerOf h p =
     rbind (parcObject_Header h p) (\<lambda>header.
     case payload header of ComposerContent c \<Rightarrow> Inr c | _ \<Rightarrow> Inl BadPointer)"

definition setComposer :: "memory \<Rightarrow> ptr \<Rightarrow> parc_buffer_composer \<Rightarrow> memory" where
  "setComposer h p c = setContent h p (ComposerContent c)"

definition parcBufferComposer_AssertValid :: "memory \<Rightarrow> ptr \<Rightarrow> unit result" where
  "parcBufferComposer_AssertValid h p =
     rbind (trapIf IllegalValue (p = None)) (\<lambda>_.
     rbind (composerOf h p) (\<lambda>c.
     trapIf IllegalValue (incrementHeuristic c < 8)))"

definition parcBufferComposer_finalize :: "memory \<Rightarrow> addr \<Rightarrow> (ptr \<times> memory) result" where
  "parcBufferComposer_finalize h a =
     rbind (parcBufferComposer_AssertValid h (Some a)) (\<lambda>_.
     rbind (composerOf h (Some a)) (\<lambda>c.
     if buffer c \<noteq> None then
       rbind (parcBuffer_Release h (buffer c)) (\<lambda>(_, h').
       Inr (Some a, setComposer h' (Some a) (c\<lparr>buffer := None\<rparr>)))
     else Inr (Some a, h)))"

definition PARCBufferComposer_base :: "memory descriptor" where
  "PARCBufferComposer_base =
     \<lparr>desc_name = ''PARCBufferComposer'', desc_destroy = Some parcBufferComposer_finalize,
      desc_destructor = None, desc_copy = None, desc_toString = None,
      desc_equals = None, desc_compare = None, desc_hashCode = None, desc_super = None,
      desc_isLockable = True, desc_objectSize = 16, desc_objectAlignment = 8\<rparr>"

definition composer_types :: "content types" where
  "composer_types = buffer_types(PARCBufferComposer_class \<mapsto> PARCBufferComposer_base)"

definition parcBufferComposer_create :: "memory \<Rightarrow> (ptr \<times> memory) result" where
  "parcBufferComposer_create h =
     parcObject_CreateInstanceImpl composer_types h garbage PARCBufferComposer_class"

definition parcBufferComposer_Acquire :: "memory \<Rightarrow> ptr \<Rightarrow> (ptr \<times> memory) result" where
  "parcBufferComposer_Acquire h p = parcObject_Acquire composer_types h p"

definition parcBufferComposer_Release :: "memory \<Rightarrow> ptr \<Rightarrow> (u64 \<times> memory) result" where
  "parcBufferComposer_Release h p = parcObject_Release composer_types h p"

definition ensureRemaining :: "memory \<Rightarrow> ptr \<Rightarrow> size_t \<Rightarrow> memory result" where
  "ensureRemaining h p required =
     rbind (parcBufferComposer_AssertValid h p) (\<lambda>_.
     rbind (composerOf h p) (\<lambda>c.
     rbind (parcBuffer_Capacity h (buffer c)) (\<lambda>cap.
     rbind (parcBuffer_Position h (buffer c)) (\<lambda>pos.
     let remainingCapacity = cap - pos
     in if remainingCapacity < required then
          let incrementAmount =
                (if required < incrementHeuristic c then incrementHeuristic c else required);
              newCapacity = cap + incrementAmount
          in rbind (parcBuffer_Allocate h newCapacity) (\<lambda>(newBuffer, h1).
             rbind (parcBuffer_Flip h1 (buffer c)) (\<lambda>h2.
             rbind (parcBuffer_PutBuffer h2 newBuffer (buffer c)) (\<lambda>h3.
             rbind (parcBuffer_Release h3 (buffer c)) (\<lambda>(_, h4).
             Inr (setComposer h4 p (c\<lparr>buffer := newBuffer\<rparr>))))))
        else Inr h))))"

definition parcBufferComposer_Allocate :: "size_t \<Rightarrow> memory \<Rightarrow> size_t \<Rightarrow> (ptr \<times> memory) result" where
  "parcBufferComposer_Allocate lineSize h sz =
     rbind (parcBufferComposer_create h) (\<lambda>(result, h1).
     if result \<noteq> None then
       rbind (parcBuffer_Allocate h1 sz) (\<lambda>(b, h2).
       let h3 = setComposer h2 result
             \<lparr>incrementHeuristic = parcMemory_RoundUpToCacheLine lineSize sz, buffer = b\<rparr>
       in if b = None then
            rbind (parcBufferComposer_Release
              (setComposer h3 result \<lparr>incrementHeuristic = 8, buffer = None\<rparr>) result) (\<lambda>(_, h4).
            Inr (None, h4))
          else Inr (result, h3))
     else Inr (None, h1))"

definition parcBufferComposer_Create :: "size_t \<Rightarrow> memory \<Rightarrow> (ptr \<times> memory) result" where
  "parcBufferComposer_Create lineSize h =
     parcBufferComposer_Allocate lineSize h (parcMemory_RoundUpToCacheLine lineSize lineSize)"

definition parcBufferComposer_Equals :: "memory \<Rightarrow> ptr \<Rightarrow> ptr \<Rightarrow> (bool \<times> memory) result" where
  "parcBufferComposer_Equals h x y =
     (if x = y then Inr (True, h)
      else if x = None \<or> y = None then Inr (False, h)
      else
        rbind (composerOf h x) (\<lambda>a.
        rbind (composerOf h y) (\<lambda>b.
        if incrementHeuristic a = incrementHeuristic b
        then parcBuffer_Equals h (buffer a) (buffer b) else Inr (False, h))))"

definition parcBufferComposer_GetBuffer :: "memory \<Rightarrow> ptr \<Rightarrow> ptr result" where
  "parcBufferComposer_GetBuffer h p = rbind (composerOf h p) (\<lambda>c. Inr (buffer c))"

text \<open>The common form of the writing operations: make room, then write to the buffer.\<close>

definition put_with_room ::
  "memory \<Rightarrow> ptr \<Rightarrow> size_t \<Rightarrow> (memory \<Rightarrow> ptr \<Rightarrow> memory result) \<Rightarrow> memory result" where
  "put_with_room h p required put =
     rbind (ensureRemaining h p required) (\<lambda>h1.
     rbind (composerOf h1 p) (\<lambda>c. put h1 (buffer c)))"

definition parcBufferComposer_PutArray :: "memory \<Rightarrow> ptr \<Rightarrow> u8 list \<Rightarrow> size_t \<Rightarrow> memory result" where
  "parcBufferComposer_PutArray h p bytes n =
     (if n > 0 then put_with_room h p n (\<lambda>h b. parcBuffer_PutArray h b n bytes) else Inr h)"

definition parcBufferComposer_PutUint8 :: "memory \<Rightarrow> ptr \<Rightarrow> u8 \<Rightarrow> memory result" where
  "parcBufferComposer_PutUint8 h p byte =
     put_with_room h p 1 (\<lambda>h b. parcBuffer_PutUint8 h b byte)"

definition parcBufferComposer_PutChar :: "memory \<Rightarrow> ptr \<Rightarrow> u8 \<Rightarrow> memory result" where
  "parcBufferComposer_PutChar h p val = parcBufferComposer_PutUint8 h p val"

definition parcBufferComposer_PutUint16 :: "memory \<Rightarrow> ptr \<Rightarrow> u16 \<Rightarrow> memory result" where
  "parcBufferComposer_PutUint16 h p value =
     put_with_room h p 2 (\<lambda>h b. parcBuffer_PutUint16 h b value)"

definition parcBufferComposer_PutUint32 :: "memory \<Rightarrow> ptr \<Rightarrow> u32 \<Rightarrow> memory result" where
  "parcBufferComposer_PutUint32 h p value =
     put_with_room h p 4 (\<lambda>h b. parcBuffer_PutUint32 h b value)"

definition parcBufferComposer_PutUint64 :: "memory \<Rightarrow> ptr \<Rightarrow> u64 \<Rightarrow> memory result" where
  "parcBufferComposer_PutUint64 h p value =
     put_with_room h p 8 (\<lambda>h b. parcBuffer_PutUint64 h b value)"

definition parcBufferComposer_PutBuffer :: "memory \<Rightarrow> ptr \<Rightarrow> ptr \<Rightarrow> memory result" where
  "parcBufferComposer_PutBuffer h p source =
     rbind (parcBuffer_Remaining h source) (\<lambda>n.
     put_with_room h p n (\<lambda>h b. parcBuffer_PutBuffer h b source))"

definition parcBufferComposer_PutString :: "memory \<Rightarrow> ptr \<Rightarrow> u8 list \<Rightarrow> memory result" where
  "parcBufferComposer_PutString h p string =
     rbind (parcBuffer_AllocateCString h string) (\<lambda>(wrapper, h1).
     rbind (parcBuffer_Remaining h1 wrapper) (\<lambda>n.
     rbind (put_with_room h1 p n (\<lambda>h b. parcBuffer_PutBuffer h b wrapper)) (\<lambda>h2.
     rbind (parcBuffer_Release h2 wrapper) (\<lambda>(_, h3). Inr h3))))"

fun parcBufferComposer_PutStrings :: "memory \<Rightarrow> ptr \<Rightarrow> u8 list list \<Rightarrow> memory result" where
  "parcBufferComposer_PutStrings h p [] = Inr h"
| "parcBufferComposer_PutStrings h p (arg # args) =
     rbind (parcBufferComposer_PutString h p arg) (\<lambda>h1. parcBufferComposer_PutStrings h1 p args)"

definition parcBufferComposer_Format :: "memory \<Rightarrow> ptr \<Rightarrow> u8 list option \<Rightarrow> memory result" where
  "parcBufferComposer_Format h p formatted =
     (case formatted of None \<Rightarrow> Inl AssertFailed
      | Some cString \<Rightarrow> parcBufferComposer_PutString h p cString)"

definition parcBufferComposer_CreateBuffer :: "memory \<Rightarrow> ptr \<Rightarrow> (ptr \<times> memory) result" where
  "parcBufferComposer_CreateBuffer h p =
     rbind (composerOf h p) (\<lambda>c. parcBuffer_Duplicate h (buffer c))"

definition parcBufferComposer_ProduceBuffer :: "memory \<Rightarrow> ptr \<Rightarrow> (ptr \<times> memory) result" where
  "parcBufferComposer_ProduceBuffer h p =
     rbind (composerOf h p) (\<lambda>c.
     rbind (parcBuffer_Flip h (buffer c)) (\<lambda>h1.
     parcBuffer_Acquire h1 (buffer c)))"

definition parcBufferComposer_ToString :: "memory \<Rightarrow> ptr \<Rightarrow> (u8 list \<times> memory) result" where
  "parcBufferComposer_ToString h p =
     rbind (composerOf h p) (\<lambda>c.
     rbind (parcBuffer_Duplicate h (buffer c)) (\<lambda>(b, h1).
     rbind (parcBuffer_Flip h1 b) (\<lambda>h2.
     rbind (parcBuffer_ToString h2 b) (\<lambda>(result, h3).
     rbind (parcBuffer_Release h3 b) (\<lambda>(_, h4).
     Inr (result, h4))))))"

text \<open>The descriptor of \<open>parcObject_ExtendPARCObject(PARCBufferComposer, ...)\<close>.\<close>

definition PARCBufferComposer_Descriptor :: "memory descriptor" where
  "PARCBufferComposer_Descriptor = PARCBufferComposer_base
     \<lparr>desc_equals := Some (\<lambda>h a b.
        rbind (parcBufferComposer_Equals h (Some a) (Some b)) (\<lambda>(e, _). Inr e))\<rparr>"

section \<open>Composers\<close>

text \<open>
  The composer \<open>cp\<close> at \<open>k\<close> with its own buffer \<open>b\<close> at \<open>a\<close> on its own array \<open>x\<close> at \<open>c\<close>, in a memory whose
  requests succeed.
\<close>

definition composer_at ::
  "memory \<Rightarrow> addr \<Rightarrow> parc_buffer_composer \<Rightarrow> addr \<Rightarrow> addr \<Rightarrow> parc_buffer \<Rightarrow> parc_byte_array \<Rightarrow> bool" where
  "composer_at h k cp a c b x \<longleftrightarrow>
     (case objects h k of None \<Rightarrow> False | Some header \<Rightarrow> payload header = ComposerContent cp) \<and>
     buffer cp = Some a \<and> 8 \<le> incrementHeuristic cp \<and>
     objects h a = Some (buffer_header b) \<and> array b = Some c \<and>
     objects h c = Some (byte_array_header x) \<and> byte_array_wf x \<and> buffer_inv b x \<and>
     limit b = capacity b \<and> mark b = SIZE_MAX \<and> capacity b \<noteq> SIZE_MAX \<and>
     blocks h (a - 152) \<and> blocks h (c - 152) \<and> c - 152 \<noteq> a - 152 \<and> heap_wf h \<and>
     (\<forall>n. \<not> allocFails h n)"

lemma composer_at_buffer:
  assumes "composer_at h k cp a c b x"
  shows "buffer_at h a b x" "buffer_ok a h" "composerOf h (Some k) = Inr cp" "buffer cp = Some a"
    "k \<noteq> a" "k \<noteq> c" "c \<noteq> a" "parcBufferComposer_AssertValid h (Some k) = Inr ()"
proof -
  have "byte_array_at h c x"
    using assms by (simp add: composer_at_def byte_array_at_def)
  then show at: "buffer_at h a b x"
    using assms by (intro buffer_at_intro [where c = c and header = "buffer_header b"])
      (simp_all add: composer_at_def)
  show "buffer_ok a h" using buffer_tape(1) [OF at] assms by (simp add: composer_at_def)
  show co: "composerOf h (Some k) = Inr cp" "buffer cp = Some a"
    using assms by (auto simp: composer_at_def composerOf_def parcObject_Header_def split: option.splits)
  show "k \<noteq> a" "k \<noteq> c" using assms by (auto simp: composer_at_def)
  show "c \<noteq> a" using assms by (auto simp: composer_at_def)
  show "parcBufferComposer_AssertValid h (Some k) = Inr ()"
    using assms co by (simp add: parcBufferComposer_AssertValid_def composer_at_def not_less)
qed

lemma setBuffer_header:
  "objects h a = Some (buffer_header b) \<Longrightarrow>
     objects (setBuffer h (Some a) b') = (objects h)(a \<mapsto> buffer_header b')"
  by (simp add: setBuffer_def setContent_def buffer_header_def parcObjectHeader_InitAllocated_def)

lemma setArray_header:
  "objects h c = Some (byte_array_header x) \<Longrightarrow>
     objects (setContent h (Some c) (ByteArrayContent y)) = (objects h)(c \<mapsto> byte_array_header y)"
  by (simp add: setContent_def byte_array_header_def parcObjectHeader_InitAllocated_def)

lemma setBuffer_frame [simp]:
  "blocks (setBuffer h p b) = blocks h" "brk (setBuffer h p b) = brk h"
  "allocFails (setBuffer h p b) = allocFails h" "heap_wf (setBuffer h p b) = heap_wf h"
  by (simp_all add: setBuffer_def)

text \<open>A write through the buffer of a composer.\<close>

lemma written_objects:
  assumes "objects h a = Some (buffer_header b)" "array b = Some c" "c \<noteq> a"
    "objects h c = Some (byte_array_header x)"
  shows "objects (written h a b x bs) = (objects h)
      (c \<mapsto> byte_array_header (ba_put (arrayOffset b + position b) bs x),
       a \<mapsto> buffer_header (b\<lparr>position := position b + word_of_nat (length bs)\<rparr>))"
    and "blocks (written h a b x bs) = blocks h" "allocFails (written h a b x bs) = allocFails h"
    "brk (written h a b x bs) = brk h" "heap_wf (written h a b x bs) = heap_wf h"
  using assms by (simp_all add: written_def setArray_header setBuffer_header)

lemma composer_written:
  assumes "composer_at h k cp a c b x" "length bs \<le> length (buffer_rest a h)"
  shows "composer_at (written h a b x bs) k cp a c (b\<lparr>position := position b + word_of_nat (length bs)\<rparr>)
      (ba_put (arrayOffset b + position b) bs x)"
    and "buffer_out a (written h a b x bs) = buffer_out a h @ bs"
proof -
  note B = composer_at_buffer [OF assms(1)]
  have fits: "unat (position b) + length bs \<le> unat (limit b)"
    using assms(2) buffer_room(1) [OF B(1)] buffer_nats(3) [OF B(1)] by simp
  note w = written_at [OF B(1) fits]
  show "buffer_out a (written h a b x bs) = buffer_out a h @ bs" by (rule w)
  have o: "objects h a = Some (buffer_header b)" "array b = Some c" "objects h c = Some (byte_array_header x)"
    using assms(1) by (simp_all add: composer_at_def)
  note wo = written_objects [OF o(1,2) B(7) o(3), of bs]
  obtain e where "byte_array_at (written h a b x bs) e (ba_put (arrayOffset b + position b) bs x)"
      "buffer_inv (b\<lparr>position := position b + word_of_nat (length bs)\<rparr>)
        (ba_put (arrayOffset b + position b) bs x)"
    using w(1) by (rule buffer_atE)
  then have "byte_array_wf (ba_put (arrayOffset b + position b) bs x)"
      "buffer_inv (b\<lparr>position := position b + word_of_nat (length bs)\<rparr>)
        (ba_put (arrayOffset b + position b) bs x)"
    by (auto dest: byte_array_at_wf simp: byte_array_wf_def)
  with assms(1) wo B(5-7) show "composer_at (written h a b x bs) k cp a c
      (b\<lparr>position := position b + word_of_nat (length bs)\<rparr>) (ba_put (arrayOffset b + position b) bs x)"
    by (simp add: composer_at_def)
qed

text \<open>The amount by which a composer grows for \<open>r\<close> more bytes.\<close>

definition growth :: "parc_buffer_composer \<Rightarrow> size_t \<Rightarrow> nat" where
  "growth cp r = max (unat r) (unat (incrementHeuristic cp))"

text \<open>An address in use is not one of a new buffer.\<close>

lemma allocated_frame:
  assumes "added h c' hc h1" "added h1 a' ha h2"
  shows "objects h o' \<noteq> None \<Longrightarrow> o' \<noteq> c' \<and> o' \<noteq> a' \<and> objects h2 o' = objects h o'"
    and "blocks h n \<Longrightarrow> n \<noteq> c' - 152 \<and> n \<noteq> a' - 152 \<and> blocks h2 n"
    and "c' \<noteq> a'" "objects h2 c' = Some hc" "blocks h2 (c' - 152)" "blocks h2 (a' - 152)"
    and "c' - 152 \<noteq> a' - 152" "heap_wf h2" "allocFails h2 = allocFails h"
  using assms by (auto simp: added_def split: if_splits)

lemma flipped_rest:
  assumes "buffer_at h a b x" "buffer_at h' a (b\<lparr>position := 0, limit := position b\<rparr>) x"
  shows "buffer_rest a h' = buffer_out a h"
  using buffer_nats(3) [OF assms(1)]
  by (simp add: buffer_tape [OF assms(1)] buffer_tape [OF assms(2)] window_def bytes_at_def min_def)

text \<open>The buffer a composer grows into, once the old bytes are copied.\<close>

definition grown_buffer :: "addr \<Rightarrow> size_t \<Rightarrow> parc_buffer \<Rightarrow> parc_buffer" where
  "grown_buffer c n b = (fresh_buffer (Some c) n)\<lparr>position := position b\<rparr>"

definition grown_array :: "size_t \<Rightarrow> u8 list \<Rightarrow> parc_byte_array" where
  "grown_array n bs = ba_put 0 bs (zero_array n)"

lemma grown_inv:
  assumes "length bs = unat (position b)" "unat (position b) \<le> unat n"
  shows "byte_array_wf (grown_array n bs)" "buffer_inv (grown_buffer c n b) (grown_array n bs)"
    "take (unat (position b)) (window (grown_buffer c n b) (grown_array n bs)) = bs"
proof -
  show "byte_array_wf (grown_array n bs)"
    unfolding grown_array_def using assms by (intro byte_array_wf_put) simp_all
  show "buffer_inv (grown_buffer c n b) (grown_array n bs)"
    using assms(2) by (simp add: buffer_inv_def grown_buffer_def grown_array_def fresh_buffer_def
        markIsDiscarded_def word_le_nat_alt zero_array_def)
  show "take (unat (position b)) (window (grown_buffer c n b) (grown_array n bs)) = bs"
    using assms by (simp add: window_def grown_buffer_def grown_array_def fresh_buffer_def bytes_at_def
        put_bytes_def min_def)
qed

text \<open>Growing, first part: the old bytes are copied to the new buffer.\<close>

lemma grow_copy:
  assumes at: "buffer_at h a b x" "objects h a = Some (buffer_header b)" "array b = Some c"
    "objects h c = Some (byte_array_header x)" "mark b = SIZE_MAX"
    and new: "added h c' (byte_array_header (zero_array n)) h1" "added h1 a' header h2"
      "buffer_at (parcObject_SetHeader h2 a' (buffer_header (fresh_buffer (Some c') n))) a'
         (fresh_buffer (Some c') n) (zero_array n)"
    and pos: "unat (position b) \<le> unat n"
  defines "h3 \<equiv> parcObject_SetHeader h2 a' (buffer_header (fresh_buffer (Some c') n))"
    and "b4 \<equiv> b\<lparr>position := 0, limit := position b\<rparr>"
  shows "\<exists>h4 h5. parcBuffer_Flip h3 (Some a) = Inr h4 \<and>
    parcBuffer_PutBuffer h4 (Some a') (Some a) = Inr h5 \<and>
    objects h5 = (objects h)(a \<mapsto> buffer_header b4, c' \<mapsto> byte_array_header (grown_array n (buffer_out a h)),
      a' \<mapsto> buffer_header (grown_buffer c' n b)) \<and>
    blocks h5 = (blocks h)(c' - 152 := True, a' - 152 := True) \<and> heap_wf h5 \<and>
    allocFails h5 = allocFails h"
proof -
  let ?f = "fresh_buffer (Some c') n"
  note F = allocated_frame [OF new(1,2)]
  have ne: "a \<noteq> a'" "c \<noteq> a'" "a \<noteq> c'" "c \<noteq> c'" "c' \<noteq> a'"
    using F(1) [of a] F(1) [of c] F(3) at by auto
  have h3: "objects h3 = (objects h)(c' \<mapsto> byte_array_header (zero_array n), a' \<mapsto> buffer_header ?f)"
      "blocks h3 = (blocks h)(c' - 152 := True, a' - 152 := True)" "heap_wf h3" "allocFails h3 = allocFails h"
    using new(1,2) ne added_objects(1) [OF new(2)] by (auto simp: h3_def added_def fun_eq_iff)
  have "byte_array_at h3 c x"
    using at(1,3,4) h3(1) ne by (auto simp: byte_array_at_def elim!: buffer_atE)
  then have at3: "buffer_at h3 a b x"
    using h3(1) ne at(2) by (intro buffer_at_transfer [OF at(1,3)]) simp_all
  define h4 where "h4 = setBuffer h3 (Some a) b4"
  have spec: "cursor_spec Flip b = Some b4" using at(5) by (simp add: b4_def)
  have flip: "parcBuffer_Flip h3 (Some a) = Inr h4"
    using cursor_call_refines [OF at3, of Flip] spec by (simp add: h4_def)
  have at4: "buffer_at h4 a b4 x" using buffer_at_cursor_spec [OF at3 spec] by (simp add: h4_def)
  have obj4: "objects h4 = (objects h3)(a \<mapsto> buffer_header b4)"
    using h3(1) at(2) ne by (simp add: h4_def setBuffer_header)
  have f: "array ?f = Some c'" "objects h4 a' = Some (buffer_header ?f)"
    "objects h4 c' = Some (byte_array_header (zero_array n))"
    using obj4 h3(1) ne by (simp_all add: fresh_buffer_def)
  have new4: "buffer_at h4 a' ?f (zero_array n)"
    using f h3(1) by (intro buffer_at_transfer [OF new(3) [folded h3_def] f(1)])
      (simp_all add: byte_array_at_def)
  have rest: "buffer_rest a h4 = buffer_out a h"
    using at(1) at4 unfolding b4_def by (rule flipped_rest)
  have out: "length (buffer_out a h) = unat (position b)"
    using buffer_nats(3,6) [OF at(1)] by (simp add: buffer_tape [OF at(1)])
  have "length (buffer_rest a h4) \<le> length (buffer_rest a' h4)"
    using rest out pos buffer_room(1) [OF new4] by (simp add: fresh_buffer_def)
  then have put: "parcBuffer_PutBuffer h4 (Some a') (Some a) =
      Inr (written h4 a' ?f (zero_array n) (buffer_out a h))"
    using parcBuffer_PutBuffer_ok [OF new4 at4] rest f(1) at(3) ne by (simp add: b4_def)
  have "?f\<lparr>position := position ?f + word_of_nat (length (buffer_out a h))\<rparr> = grown_buffer c' n b"
    "ba_put (arrayOffset ?f + position ?f) (buffer_out a h) (zero_array n) = grown_array n (buffer_out a h)"
    using out by (simp_all add: grown_buffer_def grown_array_def fresh_buffer_def)
  note w = written_objects [OF f(2,1) ne(5) f(3), of "buffer_out a h", unfolded this]
  show ?thesis
    using flip put w obj4 h3 ne by (auto simp: fun_eq_iff h4_def)
qed

text \<open>Growing, second part: the old buffer is released and replaced.\<close>

lemma grow_replace:
  assumes comp: "composer_at h k cp a c b x"
    and new: "objects h c' = None" "objects h a' = None" "c' \<noteq> a'" "c' - 152 \<noteq> a' - 152"
      "c' - 152 \<notin> {a - 152, c - 152}" "a' - 152 \<notin> {a - 152, c - 152}"
    and h5: "objects h5 = (objects h)(a \<mapsto> buffer_header (b\<lparr>position := 0, limit := position b\<rparr>),
        c' \<mapsto> byte_array_header y, a' \<mapsto> buffer_header d)"
      "blocks h5 = (blocks h)(c' - 152 := True, a' - 152 := True)" "heap_wf h5" "allocFails h5 = allocFails h"
    and d: "array d = Some c'" "byte_array_wf y" "buffer_inv d y" "limit d = capacity d" "mark d = SIZE_MAX"
      "capacity d \<noteq> SIZE_MAX"
  shows "\<exists>h6. parcBuffer_Release h5 (Some a) = Inr (0, h6) \<and>
    composer_at (setComposer h6 (Some k) (cp\<lparr>buffer := Some a'\<rparr>)) k (cp\<lparr>buffer := Some a'\<rparr>) a' c' d y \<and>
    (\<forall>o'. o' \<notin> {k, a, c, a', c'} \<longrightarrow>
      objects (setComposer h6 (Some k) (cp\<lparr>buffer := Some a'\<rparr>)) o' = objects h o') \<and>
    objects (setComposer h6 (Some k) (cp\<lparr>buffer := Some a'\<rparr>)) a = None \<and>
    (\<forall>m. blocks h m \<and> m \<notin> {a - 152, c - 152} \<longrightarrow> blocks (setComposer h6 (Some k) (cp\<lparr>buffer := Some a'\<rparr>)) m)"
proof -
  note B = composer_at_buffer [OF comp]
  have cp: "objects h k \<noteq> None" "objects h a \<noteq> None" "array b = Some c"
    "objects h c = Some (byte_array_header x)" "byte_array_wf x" "blocks h (a - 152)" "blocks h (c - 152)"
    "c - 152 \<noteq> a - 152" "\<forall>n. \<not> allocFails h n" "8 \<le> incrementHeuristic cp"
    using comp by (auto simp: composer_at_def split: option.splits)
  have ne: "a \<noteq> a'" "c \<noteq> a'" "k \<noteq> a'" "a \<noteq> c'" "c \<noteq> c'" "k \<noteq> c'"
    using new(1,2) cp by auto
  obtain h6 where h6: "parcBuffer_Release h5 (Some a) = Inr (0, h6)"
      "objects h6 = (objects h5)(a := None, c := None)"
      "blocks h6 = (blocks h5)(a - 152 := False, c - 152 := False)" "brk h6 = brk h5"
      "allocFails h6 = allocFails h5"
  proof -
    have "blocks h5 (a - 152)" "blocks h5 (c - 152)" using h5(2) cp(6,7) by simp_all
    then show thesis
      using that parcBuffer_Release_unshared [of h5 a "b\<lparr>position := 0, limit := position b\<rparr>" c x]
        h5(1) cp(3-5,8) B(7) ne by (auto simp del: fun_upd_apply simp: fun_upd_other fun_upd_same)
  qed
  let ?h = "setComposer h6 (Some k) (cp\<lparr>buffer := Some a'\<rparr>)"
  have wf: "heap_wf h6" using h5(3) h6(2-4) by (auto simp: heap_wf_def)
  have "objects ?h a' = Some (buffer_header d)" "objects ?h c' = Some (byte_array_header y)"
    "\<exists>header. objects ?h k = Some header \<and> payload header = ComposerContent (cp\<lparr>buffer := Some a'\<rparr>)"
    using h6(2) h5(1) ne new(3) B(5,6) cp(1) by (auto simp: setComposer_def setContent_def)
  moreover have "blocks ?h (a' - 152)" "blocks ?h (c' - 152)"
    using h6(3) h5(2) new(5,6) by (auto simp: setComposer_def)
  ultimately have "composer_at ?h k (cp\<lparr>buffer := Some a'\<rparr>) a' c' d y"
    using d cp(9,10) new(4) wf h6(5) h5(4) by (auto simp: composer_at_def setComposer_def)
  moreover have "\<forall>o'. o' \<notin> {k, a, c, a', c'} \<longrightarrow> objects ?h o' = objects h o'"
    using h6(2) h5(1) by (simp add: setComposer_def)
  moreover have "objects ?h a = None" using h6(2) B(5,7) by (simp add: setComposer_def)
  moreover have "\<forall>m. blocks h m \<and> m \<notin> {a - 152, c - 152} \<longrightarrow> blocks ?h m"
    using h6(3) h5(2) by (simp add: setComposer_def)
  ultimately show ?thesis using h6(1) by blast
qed

lemma ensureRemaining_grows:
  assumes comp: "composer_at h k cp a c b x"
    and room: "unat (capacity b) + growth cp r < 2 ^ 64 - 1"
    and few: "capacity b - position b < r"
  defines "n \<equiv> capacity b + (if r < incrementHeuristic cp then incrementHeuristic cp else r)"
  shows "\<exists>h' a' c' x'. ensureRemaining h (Some k) r = Inr h' \<and> unat n = unat (capacity b) + growth cp r \<and>
    composer_at h' k (cp\<lparr>buffer := Some a'\<rparr>) a' c' (grown_buffer c' n b) x' \<and>
    buffer_out a' h' = buffer_out a h \<and>
    (\<forall>o'. objects h o' \<noteq> None \<and> o' \<notin> {k, a, c} \<longrightarrow> o' \<noteq> a' \<and> o' \<noteq> c' \<and> objects h' o' = objects h o') \<and>
    objects h' a = None \<and>
    (\<forall>m. blocks h m \<and> m \<notin> {a - 152, c - 152} \<longrightarrow> m \<notin> {a' - 152, c' - 152} \<and> blocks h' m)"
proof -
  note B = composer_at_buffer [OF comp]
  have cp: "objects h k \<noteq> None" "objects h a = Some (buffer_header b)" "array b = Some c"
    "objects h c = Some (byte_array_header x)" "mark b = SIZE_MAX" "blocks h (a - 152)" "blocks h (c - 152)"
    "heap_wf h" "\<forall>n. \<not> allocFails h n" "limit b = capacity b"
    using comp by (auto simp: composer_at_def split: option.splits)
  have n: "unat n = unat (capacity b) + growth cp r"
    unfolding n_def using room
    by (subst unat_add_no_wrap) (auto simp: growth_def max_def word_less_nat_alt)
  have n_max: "n \<noteq> SIZE_MAX" using n room unat_SIZE_MAX by auto
  have pos: "unat (position b) \<le> unat n" using buffer_nats(3) [OF B(1)] cp(10) n by simp
  have out: "length (buffer_out a h) = unat (position b)"
    using buffer_nats(3,6) [OF B(1)] by (simp add: buffer_tape [OF B(1)])
  note G = grown_inv [OF out pos]
  from cp(8) show ?thesis
  proof (cases rule: parcBuffer_Allocate_cases [where n = n])
    case (oom h')
    with cp(9) show ?thesis by blast
  next
    case (new a' c' h1 h2 header)
    note F = allocated_frame [OF new(3,4)]
    obtain h4 h5 where h5:
        "parcBuffer_Flip (parcObject_SetHeader h2 a' (buffer_header (fresh_buffer (Some c') n))) (Some a) = Inr h4"
        "parcBuffer_PutBuffer h4 (Some a') (Some a) = Inr h5"
        "objects h5 = (objects h)(a \<mapsto> buffer_header (b\<lparr>position := 0, limit := position b\<rparr>),
           c' \<mapsto> byte_array_header (grown_array n (buffer_out a h)), a' \<mapsto> buffer_header (grown_buffer c' n b))"
        "blocks h5 = (blocks h)(c' - 152 := True, a' - 152 := True)" "heap_wf h5"
        "allocFails h5 = allocFails h"
      using grow_copy [OF B(1) cp(2-5) new(3,4,2) pos] by blast
    have fresh: "objects h c' = None" "objects h a' = None" using F(1) [of c'] F(1) [of a'] by blast+
    have blk: "c' - 152 \<notin> {a - 152, c - 152}" "a' - 152 \<notin> {a - 152, c - 152}"
      using F(2) [OF cp(6)] F(2) [OF cp(7)] by auto
    have d: "array (grown_buffer c' n b) = Some c'" "limit (grown_buffer c' n b) = capacity (grown_buffer c' n b)"
      "mark (grown_buffer c' n b) = SIZE_MAX" "capacity (grown_buffer c' n b) \<noteq> SIZE_MAX"
      using n_max by (simp_all add: grown_buffer_def fresh_buffer_def)
    obtain h6 where h6: "parcBuffer_Release h5 (Some a) = Inr (0, h6)"
        "composer_at (setComposer h6 (Some k) (cp\<lparr>buffer := Some a'\<rparr>)) k (cp\<lparr>buffer := Some a'\<rparr>) a' c'
          (grown_buffer c' n b) (grown_array n (buffer_out a h))"
        "\<forall>o'. o' \<notin> {k, a, c, a', c'} \<longrightarrow>
          objects (setComposer h6 (Some k) (cp\<lparr>buffer := Some a'\<rparr>)) o' = objects h o'"
        "objects (setComposer h6 (Some k) (cp\<lparr>buffer := Some a'\<rparr>)) a = None"
        "\<forall>m. blocks h m \<and> m \<notin> {a - 152, c - 152} \<longrightarrow> blocks (setComposer h6 (Some k) (cp\<lparr>buffer := Some a'\<rparr>)) m"
      using grow_replace [OF comp fresh F(3,7) blk h5(3-6) d(1) G(1,2) d(2-4)] by blast
    have "ensureRemaining h (Some k) r = Inr (setComposer h6 (Some k) (cp\<lparr>buffer := Some a'\<rparr>))"
      using B few new(1) h5(1,2) h6(1) by (simp add: ensureRemaining_def n_def Let_def)
    moreover have "buffer_out a' (setComposer h6 (Some k) (cp\<lparr>buffer := Some a'\<rparr>)) = buffer_out a h"
      using buffer_tape(2) [OF composer_at_buffer(1) [OF h6(2)]] G(3) by (simp add: grown_buffer_def)
    moreover have "\<forall>o'. objects h o' \<noteq> None \<and> o' \<notin> {k, a, c} \<longrightarrow> o' \<noteq> a' \<and> o' \<noteq> c' \<and>
        objects (setComposer h6 (Some k) (cp\<lparr>buffer := Some a'\<rparr>)) o' = objects h o'"
      using h6(3) fresh by auto
    moreover have "\<forall>m. blocks h m \<and> m \<notin> {a - 152, c - 152} \<longrightarrow> m \<notin> {a' - 152, c' - 152} \<and>
        blocks (setComposer h6 (Some k) (cp\<lparr>buffer := Some a'\<rparr>)) m"
      using h6(5) F(2) by blast
    ultimately show ?thesis
      using n h6(2,4) by (intro exI conjI) assumption+
  qed
qed

lemma ensureRemaining_ok:
  assumes "composer_at h k cp a c b x" "unat (capacity b) + growth cp r < 2 ^ 64 - 1"
  shows "\<exists>h' a' c' b' x'. ensureRemaining h (Some k) r = Inr h' \<and>
    composer_at h' k (cp\<lparr>buffer := Some a'\<rparr>) a' c' b' x' \<and> buffer_out a' h' = buffer_out a h \<and>
    unat r \<le> length (buffer_rest a' h') \<and> unat (capacity b') \<le> unat (capacity b) + growth cp r \<and>
    (\<forall>o'. objects h o' \<noteq> None \<and> o' \<notin> {k, a, c} \<longrightarrow> o' \<noteq> a' \<and> o' \<noteq> c' \<and> objects h' o' = objects h o') \<and>
    (\<forall>m. blocks h m \<and> m \<notin> {a - 152, c - 152} \<longrightarrow> m \<notin> {a' - 152, c' - 152} \<and> blocks h' m)"
proof (cases "capacity b - position b < r")
  case True
  define n where "n = capacity b + (if r < incrementHeuristic cp then incrementHeuristic cp else r)"
  obtain h' a' c' x' where g: "ensureRemaining h (Some k) r = Inr h'"
      "unat n = unat (capacity b) + growth cp r"
      "composer_at h' k (cp\<lparr>buffer := Some a'\<rparr>) a' c' (grown_buffer c' n b) x'"
      "buffer_out a' h' = buffer_out a h"
      "\<forall>o'. objects h o' \<noteq> None \<and> o' \<notin> {k, a, c} \<longrightarrow> o' \<noteq> a' \<and> o' \<noteq> c' \<and> objects h' o' = objects h o'"
      "\<forall>m. blocks h m \<and> m \<notin> {a - 152, c - 152} \<longrightarrow> m \<notin> {a' - 152, c' - 152} \<and> blocks h' m"
    using ensureRemaining_grows [OF assms True] unfolding n_def by blast
  have "unat (position b) \<le> unat (capacity b)"
    using buffer_nats(3) [OF composer_at_buffer(1) [OF assms(1)]] assms(1) by (simp add: composer_at_def)
  then have "unat r \<le> length (buffer_rest a' h')"
    using buffer_room(1) [OF composer_at_buffer(1) [OF g(3)]] g(2)
    by (simp add: grown_buffer_def fresh_buffer_def growth_def)
  with g show ?thesis by (intro exI conjI) (assumption | simp add: grown_buffer_def fresh_buffer_def)+
next
  case False
  note B = composer_at_buffer [OF assms(1)]
  have same: "cp\<lparr>buffer := Some a\<rparr> = cp" using B(4) by (cases cp) simp
  have "unat r \<le> length (buffer_rest a h)"
    using False buffer_room(1) [OF B(1)] buffer_nats(2) [OF B(1)] assms(1)
    by (simp add: composer_at_def not_less word_le_nat_alt)
  moreover have "ensureRemaining h (Some k) r = Inr h"
    using False B by (simp add: ensureRemaining_def)
  moreover have "composer_at h k (cp\<lparr>buffer := Some a\<rparr>) a c b x" using assms(1) same by simp
  ultimately show ?thesis by (intro exI [of _ h] exI [of _ a] exI [of _ c] exI [of _ b] exI [of _ x]) simp
qed

section \<open>The composer as a sink\<close>

definition composer_ok :: "addr \<Rightarrow> memory \<Rightarrow> bool" where
  "composer_ok k h \<longleftrightarrow> (\<exists>cp a c b x. composer_at h k cp a c b x)"

definition composer_out :: "addr \<Rightarrow> memory \<Rightarrow> u8 list" where
  "composer_out k h =
     (case composerOf h (Some k) of Inl _ \<Rightarrow> []
      | Inr cp \<Rightarrow> (case buffer cp of None \<Rightarrow> [] | Some a \<Rightarrow> buffer_out a h))"

text \<open>\<open>n\<close> more bytes can be written before the capacity comes near the end of \<open>size_t\<close>.\<close>

definition composer_room :: "addr \<Rightarrow> memory \<Rightarrow> nat \<Rightarrow> bool" where
  "composer_room k h n \<longleftrightarrow>
     (case composerOf h (Some k) of Inl _ \<Rightarrow> False
      | Inr cp \<Rightarrow> (case buffer cp of None \<Rightarrow> False
          | Some a \<Rightarrow> (case bufferOf h (Some a) of Inl _ \<Rightarrow> False
              | Inr b \<Rightarrow> unat (capacity b) + n * unat (incrementHeuristic cp) < 2 ^ 63)))"

lemma composer_view:
  assumes "composer_at h k cp a c b x"
  shows "composer_ok k h" "composer_out k h = buffer_out a h"
    "composer_room k h n \<longleftrightarrow> unat (capacity b) + n * unat (incrementHeuristic cp) < 2 ^ 63"
proof -
  show "composer_ok k h" using assms unfolding composer_ok_def by blast
  show "composer_out k h = buffer_out a h"
    "composer_room k h n \<longleftrightarrow> unat (capacity b) + n * unat (incrementHeuristic cp) < 2 ^ 63"
    using composer_at_buffer [OF assms] by (simp_all add: composer_out_def composer_room_def)
qed

lemma composer_room_length:
  assumes "composer_at h k cp a c b x" "composer_room k h (n + m)"
  shows "m < 2 ^ 63" "unat (word_of_nat m :: size_t) = m"
proof -
  have i: "1 \<le> unat (incrementHeuristic cp)" using assms(1) by (simp add: composer_at_def word_le_nat_alt)
  have "m * 1 \<le> (n + m) * unat (incrementHeuristic cp)" using i by (intro mult_le_mono) simp_all
  moreover have "unat (capacity b) + (n + m) * unat (incrementHeuristic cp) < 2 ^ 63"
    using assms(2) composer_view(3) [OF assms(1)] by blast
  ultimately show "m < 2 ^ 63" by linarith
  then show "unat (word_of_nat m :: size_t) = m" by (intro unat_word_of_nat) simp
qed

text \<open>
  Room is made and the bytes are written, for every operation that writes \<open>bs\<close> into a buffer with
  room.
\<close>

lemma put_with_room_ok:
  assumes "composer_ok k h" "composer_room k h (n + length bs)" "bs \<noteq> []"
    and put: "\<And>h a b x. buffer_at h a b x \<Longrightarrow> length bs \<le> length (buffer_rest a h) \<Longrightarrow>
      put h (Some a) = Inr (written h a b x bs)"
  shows "\<exists>h'. put_with_room h (Some k) (word_of_nat (length bs)) put = Inr h' \<and> composer_ok k h' \<and>
    composer_room k h' n \<and> composer_out k h' = composer_out k h @ bs"
proof -
  obtain cp a c b x where at: "composer_at h k cp a c b x" using assms(1) by (auto simp: composer_ok_def)
  let ?r = "word_of_nat (length bs) :: size_t" and ?i = "unat (incrementHeuristic cp)"
  have room: "unat (capacity b) + (n + length bs) * ?i < 2 ^ 63"
    using assms(2) composer_view(3) [OF at] by simp
  have i: "8 \<le> ?i" using at by (simp add: composer_at_def word_le_nat_alt)
  have r: "unat ?r = length bs" using composer_room_length(2) [OF at assms(2)] .
  have one: "1 \<le> length bs" using assms(3) by (simp add: Suc_le_eq)
  then have "?i \<le> length bs * ?i" by simp
  then have g: "growth cp ?r \<le> length bs * ?i"
    using i by (simp add: growth_def r)
  then have "unat (capacity b) + growth cp ?r < 2 ^ 64 - 1"
    using room by (simp add: add_mult_distrib)
  from ensureRemaining_ok [OF at this] obtain h1 a' c' b' x' where h1:
      "ensureRemaining h (Some k) ?r = Inr h1" "composer_at h1 k (cp\<lparr>buffer := Some a'\<rparr>) a' c' b' x'"
      "buffer_out a' h1 = buffer_out a h" "unat ?r \<le> length (buffer_rest a' h1)"
      "unat (capacity b') \<le> unat (capacity b) + growth cp ?r"
    by blast
  note B = composer_at_buffer [OF h1(2)]
  have fits: "length bs \<le> length (buffer_rest a' h1)" using h1(4) r by simp
  note w = composer_written [OF h1(2) fits]
  have "put_with_room h (Some k) ?r put = Inr (written h1 a' b' x' bs)"
    using h1(1) B(3) put [OF B(1) fits] by (simp add: put_with_room_def)
  moreover have "composer_room k (written h1 a' b' x' bs) n"
    unfolding composer_view(3) [OF w(1)] using h1(5) g room by (simp add: add_mult_distrib)
  moreover have "composer_out k (written h1 a' b' x' bs) = composer_out k h @ bs"
    unfolding composer_view(2) [OF w(1)] composer_view(2) [OF at] w(2) h1(3) by simp
  ultimately show ?thesis using composer_view(1) [OF w(1)] by blast
qed

text \<open>Each writing operation of the composer writes the bytes of its value.\<close>

fun composer_put_field :: "memory \<Rightarrow> ptr \<Rightarrow> field \<Rightarrow> memory result" where
  "composer_put_field h p (Uint8 v) = parcBufferComposer_PutUint8 h p v"
| "composer_put_field h p (Uint16 v) = parcBufferComposer_PutUint16 h p v"
| "composer_put_field h p (Uint32 v) = parcBufferComposer_PutUint32 h p v"
| "composer_put_field h p (Uint64 v) = parcBufferComposer_PutUint64 h p v"
| "composer_put_field h p (Bytes bs) = parcBufferComposer_PutArray h p bs (word_of_nat (length bs))"

lemma buffer_fits:
  "buffer_at h a b x \<Longrightarrow> k \<le> length (buffer_rest a h) \<Longrightarrow> unat (position b) + k \<le> unat (limit b)"
  using buffer_room(1) [of h a b x] buffer_nats(3) [of h a b x] by simp

lemma composer_put_field_ok:
  assumes "composer_ok k h" "composer_room k h (n + length (field_bytes f))"
  shows "\<exists>h'. composer_put_field h (Some k) f = Inr h' \<and> composer_ok k h' \<and> composer_room k h' n \<and>
    composer_out k h' = composer_out k h @ field_bytes f"
proof (cases f)
  case (Uint8 v)
  have "parcBuffer_PutUint8 h (Some a) v = Inr (written h a b x [v])"
    if "buffer_at h a b x" "length [v] \<le> length (buffer_rest a h)" for h a b x
    using that buffer_fits [OF that] parcBuffer_PutUint8_ok [OF that(1)] by (simp add: word_less_nat_alt)
  from put_with_room_ok [OF assms(1) _ _ this] Uint8 assms(2) show ?thesis
    by (simp add: parcBufferComposer_PutUint8_def)
next
  case (Uint16 v)
  have "parcBuffer_PutUint16 h (Some a) v = Inr (written h a b x (be_bytes 2 (unat v)))"
    if "buffer_at h a b x" "length (be_bytes 2 (unat v)) \<le> length (buffer_rest a h)" for h a b x
    using that put_list_written [OF that(1) buffer_fits [OF that]] parcBuffer_PutUint_be(1) [OF that(1)]
    by simp
  from put_with_room_ok [OF assms(1) _ _ this] Uint16 assms(2) show ?thesis
    by (simp add: parcBufferComposer_PutUint16_def be_bytes_2)
next
  case (Uint32 v)
  have "parcBuffer_PutUint32 h (Some a) v = Inr (written h a b x (be_bytes 4 (unat v)))"
    if "buffer_at h a b x" "length (be_bytes 4 (unat v)) \<le> length (buffer_rest a h)" for h a b x
    using that put_list_written [OF that(1) buffer_fits [OF that]] parcBuffer_PutUint_be(2) [OF that(1)]
    by simp
  moreover have "be_bytes 4 (unat v) \<noteq> []" by (metis length_be_bytes list.size(3) zero_neq_numeral)
  ultimately show ?thesis
    using put_with_room_ok [OF assms(1), of n "be_bytes 4 (unat v)"] Uint32 assms(2)
    by (simp add: parcBufferComposer_PutUint32_def)
next
  case (Uint64 v)
  have "parcBuffer_PutUint64 h (Some a) v = Inr (written h a b x (be_bytes 8 (unat v)))"
    if "buffer_at h a b x" "length (be_bytes 8 (unat v)) \<le> length (buffer_rest a h)" for h a b x
    using that put_list_written [OF that(1) buffer_fits [OF that]] parcBuffer_PutUint_be(3) [OF that(1)]
    by simp
  moreover have "be_bytes 8 (unat v) \<noteq> []" by (metis length_be_bytes list.size(3) zero_neq_numeral)
  ultimately show ?thesis
    using put_with_room_ok [OF assms(1), of n "be_bytes 8 (unat v)"] Uint64 assms(2)
    by (simp add: parcBufferComposer_PutUint64_def)
next
  case (Bytes bs)
  show ?thesis
  proof (cases "bs = []")
    case True
    with Bytes assms show ?thesis by (simp add: parcBufferComposer_PutArray_def)
  next
    case False
    obtain cp a c b x where at: "composer_at h k cp a c b x" using assms(1) by (auto simp: composer_ok_def)
    have u: "unat (word_of_nat (length bs) :: size_t) = length bs"
      using composer_room_length(2) [OF at] assms(2) Bytes by simp
    have "parcBuffer_PutArray h (Some a) (word_of_nat (length bs)) bs = Inr (written h a b x bs)"
      if "buffer_at h a b x" "length bs \<le> length (buffer_rest a h)" for h a b x
      using that parcBuffer_PutArray_ok [OF that(1), of bs "word_of_nat (length bs)"] u by simp
    moreover have "(word_of_nat (length bs) :: size_t) > 0" using u False by (simp add: word_less_nat_alt)
    ultimately show ?thesis
      using put_with_room_ok [OF assms(1), of n bs] Bytes assms(2) False
      by (simp add: parcBufferComposer_PutArray_def)
  qed
qed

definition composer_put :: "addr \<Rightarrow> memory \<Rightarrow> u8 \<Rightarrow> memory result" where
  "composer_put k h v = parcBufferComposer_PutUint8 h (Some k) v"

interpretation composer: byte_sink "composer_put k" "composer_ok k" "composer_room k" "composer_out k" for k
proof
  fix h n v assume "composer_ok k h" "composer_room k h (Suc n)"
  then show "\<exists>h'. composer_put k h v = Inr h' \<and> composer_ok k h' \<and> composer_room k h' n \<and>
      composer_out k h' = composer_out k h @ [v]"
    using composer_put_field_ok [of k h n "Uint8 v"] by (simp add: composer_put_def)
qed

section \<open>From creation to the finished buffer\<close>

lemma prefixLength_Composer [simp]: "prefixLength PARCBufferComposer_base = 152"
  by (simp add: prefixLength_def PARCBufferComposer_base_def parcObject_PrefixLength_def)

lemma composer_types_class [simp]:
  "composer_types PARCBufferComposer_class = Some PARCBufferComposer_base"
  by (simp add: composer_types_def)

lemma parcMemory_RoundUpToCacheLine_self:
  "L \<noteq> 0 \<Longrightarrow> parcMemory_RoundUpToCacheLine L L = L"
  by (simp add: parcMemory_RoundUpToCacheLine_def parcMemory_RoundUpToMultiple_def)

lemma parcBufferComposer_Create_ok:
  assumes "heap_wf h" "\<forall>n. \<not> allocFails h n" "8 \<le> L" "L \<noteq> SIZE_MAX"
  shows "\<exists>k h' a c. parcBufferComposer_Create L h = Inr (Some k, h') \<and> objects h k = None \<and>
    composer_at h' k \<lparr>incrementHeuristic = L, buffer = Some a\<rparr> a c (fresh_buffer (Some c) L) (zero_array L)"
proof -
  have L: "parcMemory_RoundUpToCacheLine L L = L"
    using assms(3) by (intro parcMemory_RoundUpToCacheLine_self) auto
  have T: "composer_types PARCBufferComposer_class = Some PARCBufferComposer_base"
    "prefixLength PARCBufferComposer_base = 152" by simp_all
  from assms(1) T obtain k h1 where k: "parcBufferComposer_create h = Inr (Some k, h1)"
      "added h k (parcObjectHeader_InitAllocated PARCBufferComposer_base PARCBufferComposer_class garbage) h1"
  proof (cases rule: create_cases [where memory = garbage])
    case (new a h')
    then show thesis using that by (simp add: parcBufferComposer_create_def)
  qed (use assms(2) in simp)
  note K = added_objects [OF k(2)]
  have fails: "\<forall>n. \<not> allocFails h1 n" using k(2) assms(2) by (simp add: added_def)
  from K(5) show ?thesis
  proof (cases rule: parcBuffer_Allocate_cases [where n = L])
    case (oom h')
    with fails show ?thesis by blast
  next
    case (new a c h2 h3 header)
    note F = allocated_frame [OF new(3,4)]
    let ?h4 = "parcObject_SetHeader h3 a (buffer_header (fresh_buffer (Some c) L))"
    let ?cp = "\<lparr>incrementHeuristic = L, buffer = Some a\<rparr>"
    have ne: "k \<noteq> c" "k \<noteq> a" "c \<noteq> a" using F(1) [of k] F(3) K(1) by auto
    have "objects ?h4 k = Some (parcObjectHeader_InitAllocated PARCBufferComposer_base
        PARCBufferComposer_class garbage)"
      using F(1) [of k] K(1) ne by simp
    moreover have "heap_wf ?h4" using F(8) added_objects(1) [OF new(4)] by simp
    moreover have "buffer_inv (fresh_buffer (Some c) L) (zero_array L)"
      using new(2) by (rule buffer_atE)
    ultimately have "composer_at (setComposer ?h4 (Some k) ?cp) k ?cp a c (fresh_buffer (Some c) L) (zero_array L)"
      using ne F fails assms(3,4) by (simp add: composer_at_def setComposer_def setContent_def fresh_buffer_def)
    moreover have "parcBufferComposer_Create L h = Inr (Some k, setComposer ?h4 (Some k) ?cp)"
      using k(1) new(1) by (simp add: parcBufferComposer_Create_def parcBufferComposer_Allocate_def L)
    ultimately show ?thesis using K(6) by blast
  qed
qed

lemma parcBufferComposer_ProduceBuffer_ok:
  assumes "composer_ok k h"
  shows "\<exists>p h'. parcBufferComposer_ProduceBuffer h (Some k) = Inr (Some p, h') \<and>
    buffer_rest p h' = composer_out k h \<and> buffer_out p h' = []"
proof -
  obtain cp a c b x where at: "composer_at h k cp a c b x" using assms by (auto simp: composer_ok_def)
  note B = composer_at_buffer [OF at]
  let ?b = "b\<lparr>position := 0, limit := position b\<rparr>"
  define h1 where "h1 = setBuffer h (Some a) ?b"
  have c: "objects h a = Some (buffer_header b)" "array b = Some c" "mark b = SIZE_MAX"
    using at by (simp_all add: composer_at_def)
  have spec: "cursor_spec Flip b = Some ?b" using c(3) by simp
  have flip: "parcBuffer_Flip h (Some a) = Inr h1"
    using cursor_call_refines [OF B(1), of Flip] spec by (simp add: h1_def)
  have at1: "buffer_at h1 a ?b x" using buffer_at_cursor_spec [OF B(1) spec] by (simp add: h1_def)
  have o1: "objects h1 a = Some (buffer_header ?b)" using c(1) by (simp add: h1_def setBuffer_header)
  let ?header = "(buffer_header ?b)\<lparr>references := 2\<rparr>"
  let ?h2 = "parcObject_SetHeader h1 a ?header"
  have acq: "parcBuffer_Acquire h1 (Some a) = Inr (Some a, ?h2)"
    using parcObject_Acquire_ok [OF buffer_object_at [OF o1]]
    by (simp add: parcBuffer_Acquire_def)
  have "is_buffer ?header ?b"
    by (simp add: is_buffer_def buffer_header_def parcObjectHeader_InitAllocated_def PARCBuffer_base_def)
  then have at2: "buffer_at ?h2 a ?b x"
    using at1 c(2) by (auto simp: byte_array_at_def elim!: buffer_atE intro!: buffer_at_intro [where c = c])
  have "buffer_rest a ?h2 = buffer_out a h" using B(1) at2 by (rule flipped_rest)
  moreover have "buffer_out a ?h2 = []" by (simp add: buffer_tape [OF at2])
  moreover have "parcBufferComposer_ProduceBuffer h (Some k) = Inr (Some a, ?h2)"
    using B(3,4) flip acq by (simp add: parcBufferComposer_ProduceBuffer_def)
  ultimately show ?thesis using composer_view(2) [OF at] by auto
qed

fun composer_put_fields :: "memory \<Rightarrow> ptr \<Rightarrow> field list \<Rightarrow> memory result" where
  "composer_put_fields h p [] = Inr h"
| "composer_put_fields h p (f # fs) =
     rbind (composer_put_field h p f) (\<lambda>h'. composer_put_fields h' p fs)"

lemma composer_put_fields_ok:
  "composer_ok k h \<Longrightarrow> composer_room k h (length (concat (map field_bytes fs))) \<Longrightarrow>
     \<exists>h'. composer_put_fields h (Some k) fs = Inr h' \<and> composer_ok k h' \<and>
       composer_out k h' = composer_out k h @ concat (map field_bytes fs)"
proof (induction fs arbitrary: h)
  case (Cons f fs)
  obtain h1 where "composer_put_field h (Some k) f = Inr h1" "composer_ok k h1"
      "composer_room k h1 (length (concat (map field_bytes fs)))"
      "composer_out k h1 = composer_out k h @ field_bytes f"
    using composer_put_field_ok [OF Cons.prems(1), of "length (concat (map field_bytes fs))" f] Cons.prems(2)
    by (auto simp: add.commute)
  with Cons.IH [of h1] show ?case by auto
qed auto

text \<open>
  C5: a new composer takes any sequence of integers and byte arrays, growing (and copying and freeing
  its old buffer) as often as needed, and \<open>parcBufferComposer_ProduceBuffer\<close> then returns a buffer whose
  content, from position 0 to its limit, is exactly the concatenation of what was written.
\<close>

theorem parcBufferComposer_message:
  assumes "heap_wf h" "\<forall>n. \<not> allocFails h n" "8 \<le> L"
    and "Suc (length (concat (map field_bytes fs))) * unat L < 2 ^ 63"
  shows "\<exists>k h1 h2 p h3. parcBufferComposer_Create L h = Inr (Some k, h1) \<and>
    composer_put_fields h1 (Some k) fs = Inr h2 \<and>
    parcBufferComposer_ProduceBuffer h2 (Some k) = Inr (Some p, h3) \<and>
    buffer_rest p h3 = concat (map field_bytes fs) \<and> buffer_out p h3 = []"
proof -
  have "unat L \<noteq> unat SIZE_MAX" using assms(4) by (simp add: unat_SIZE_MAX)
  then have "L \<noteq> SIZE_MAX" by blast
  then obtain k h1 a c where k: "parcBufferComposer_Create L h = Inr (Some k, h1)"
      "composer_at h1 k \<lparr>incrementHeuristic = L, buffer = Some a\<rparr> a c (fresh_buffer (Some c) L) (zero_array L)"
    using parcBufferComposer_Create_ok [OF assms(1-3)] by blast
  note v = composer_view [OF k(2)]
  have "composer_room k h1 (length (concat (map field_bytes fs)))"
    using assms(4) unfolding v(3) by (simp add: fresh_buffer_def)
  from composer_put_fields_ok [OF v(1) this] obtain h2 where
      h2: "composer_put_fields h1 (Some k) fs = Inr h2" "composer_ok k h2"
      "composer_out k h2 = composer_out k h1 @ concat (map field_bytes fs)"
    by blast
  have "composer_out k h1 = []"
    unfolding v(2) buffer_tape(2) [OF composer_at_buffer(1) [OF k(2)]] by (simp add: fresh_buffer_def)
  with k(1) h2 parcBufferComposer_ProduceBuffer_ok [OF h2(2)] show ?thesis by auto
qed

theorem parcBufferComposer_message_witness:
  "\<exists>k h1 h2 p h3. parcBufferComposer_Create 64 empty_heap = Inr (Some k, h1) \<and>
    composer_put_fields h1 (Some k) [Uint16 0xABCD, Bytes (replicate 100 7)] = Inr h2 \<and>
    parcBufferComposer_ProduceBuffer h2 (Some k) = Inr (Some p, h3) \<and>
    buffer_rest p h3 = [0xAB, 0xCD] @ replicate 100 7"
proof -
  have b: "concat (map field_bytes [Uint16 0xABCD, Bytes (replicate 100 7)]) = [0xAB, 0xCD] @ replicate 100 7"
    by (simp add: be_bytes_2)
  have n: "Suc (length (concat (map field_bytes [Uint16 0xABCD, Bytes (replicate 100 7)]))) * unat (64 :: size_t)
      < 2 ^ 63"
    unfolding b by simp
  have h: "heap_wf (empty_heap :: memory)" "\<forall>n. \<not> allocFails (empty_heap :: memory) n" "8 \<le> (64 :: size_t)"
    by simp_all
  from parcBufferComposer_message [OF h n] show ?thesis unfolding b by blast
qed

end
