(* ===== verification/Parc_Base64.thy ===== *)
theory Parc_Base64
  imports Parc_BufferComposer
begin

text \<open>
  \<^verbatim>\<open>parc/algol/parc_Base64.c\<close>: base 64 encoding and decoding into a composer. An array is a list of at
  least the given number of bytes; offsets into it are natural numbers, since arrays in memory are far
  shorter than the range of \<open>size_t\<close>. A decoder returns \<open>True\<close> where the C function returns its output
  argument and \<open>False\<close> where it returns \<open>NULL\<close>.
\<close>

section \<open>Tables\<close>

definition base64code :: "u8 list" where
  "base64code =
    [65, 66, 67, 68, 69, 70, 71, 72, 73, 74, 75, 76, 77, 78, 79, 80,
     81, 82, 83, 84, 85, 86, 87, 88, 89, 90, 97, 98, 99, 100, 101, 102,
     103, 104, 105, 106, 107, 108, 109, 110, 111, 112, 113, 114, 115, 116, 117, 118,
     119, 120, 121, 122, 48, 49, 50, 51, 52, 53, 54, 55, 56, 57, 43, 47]"

definition pad :: u8 where "pad = 61"

definition invalid :: u8 where "invalid = 126"

definition skip :: u8 where "skip = 95"

definition decodeTable :: "u8 list" where
  "decodeTable =
    [126, 126, 126, 126, 126, 126, 126, 126, 126, 126, 95, 126, 126, 95, 126, 126,
     126, 126, 126, 126, 126, 126, 126, 126, 126, 126, 126, 126, 126, 126, 126, 126,
     126, 126, 126, 126, 126, 126, 126, 126, 126, 126, 126, 62, 126, 126, 126, 63,
     52, 53, 54, 55, 56, 57, 58, 59, 60, 61, 126, 126, 126, 126, 126, 126,
     126, 0, 1, 2, 3, 4, 5, 6, 7, 8, 9, 10, 11, 12, 13, 14,
     15, 16, 17, 18, 19, 20, 21, 22, 23, 24, 25, 126, 126, 126, 126, 126,
     126, 26, 27, 28, 29, 30, 31, 32, 33, 34, 35, 36, 37, 38, 39, 40,
     41, 42, 43, 44, 45, 46, 47, 48, 49, 50, 51, 126, 126, 126, 126, 126,
     126, 126, 126, 126, 126, 126, 126, 126, 126, 126, 126, 126, 126, 126, 126, 126,
     126, 126, 126, 126, 126, 126, 126, 126, 126, 126, 126, 126, 126, 126, 126, 126,
     126, 126, 126, 126, 126, 126, 126, 126, 126, 126, 126, 126, 126, 126, 126, 126,
     126, 126, 126, 126, 126, 126, 126, 126, 126, 126, 126, 126, 126, 126, 126, 126,
     126, 126, 126, 126, 126, 126, 126, 126, 126, 126, 126, 126, 126, 126, 126, 126,
     126, 126, 126, 126, 126, 126, 126, 126, 126, 126, 126, 126, 126, 126, 126, 126,
     126, 126, 126, 126, 126, 126, 126, 126, 126, 126, 126, 126, 126, 126, 126, 126,
     126, 126, 126, 126, 126, 126, 126, 126, 126, 126, 126, 126, 126, 126, 126, 126]"

section \<open>Encoding\<close>

text \<open>The six bits of symbol \<open>index\<close> in \<open>aaaaaabb | bbbbcccc | ccdddddd\<close>.\<close>

definition sixbit :: "u8 list \<Rightarrow> nat \<Rightarrow> u8" where
  "sixbit q index =
     (if index = 0 then drop_bit 2 (q ! 0)
      else if index = 1 then push_bit 4 (q ! 0 AND 0x03) OR drop_bit 4 (q ! 1)
      else if index = 2 then push_bit 2 (q ! 1 AND 0x0F) OR drop_bit 6 (q ! 2)
      else q ! 2 AND 0x3F)"

function encodeWithPad_loop :: "memory \<Rightarrow> ptr \<Rightarrow> u8 list \<Rightarrow> nat \<Rightarrow> nat \<Rightarrow> memory result" where
  "encodeWithPad_loop h output paddedQuantum padLength index =
     (if index < 4 then
        rbind
          (if index + padLength < 4
           then parcBufferComposer_PutUint8 h output (base64code ! unat (sixbit paddedQuantum index))
           else parcBufferComposer_PutUint8 h output pad) (\<lambda>h1.
        encodeWithPad_loop h1 output paddedQuantum padLength (index + 1))
      else Inr h)"
  by pat_completeness auto
termination by (relation "measure (\<lambda>(h, output, q, padLength, index). 4 - index)") auto

declare encodeWithPad_loop.simps [simp del]

definition encodeWithPad :: "memory \<Rightarrow> ptr \<Rightarrow> u8 list \<Rightarrow> nat \<Rightarrow> memory result" where
  "encodeWithPad h output quantum padLength =
     rbind (assertTrue (padLength < 3)) (\<lambda>_.
     encodeWithPad_loop h output (take (3 - padLength) quantum @ replicate padLength 0) padLength 0)"

function encodeArray_loop :: "memory \<Rightarrow> ptr \<Rightarrow> nat \<Rightarrow> u8 list \<Rightarrow> nat \<Rightarrow> memory result" where
  "encodeArray_loop h output n arr offset =
     (if offset < n then
        let quantum = drop offset arr;
            padLength = 3 - min 3 (n - offset)
        in rbind (encodeWithPad h output quantum padLength) (\<lambda>h1.
           encodeArray_loop h1 output n arr (offset + 3))
      else Inr h)"
  by pat_completeness auto
termination by (relation "measure (\<lambda>(h, output, n, arr, offset). n - offset)") auto

declare encodeArray_loop.simps [simp del]

definition parcBase64_EncodeArray :: "memory \<Rightarrow> ptr \<Rightarrow> size_t \<Rightarrow> u8 list \<Rightarrow> memory result" where
  "parcBase64_EncodeArray h output n arr = encodeArray_loop h output (unat n) arr 0"

definition parcBase64_Encode :: "memory \<Rightarrow> ptr \<Rightarrow> ptr \<Rightarrow> memory result" where
  "parcBase64_Encode h output plainText =
     rbind (parcBuffer_Remaining h plainText) (\<lambda>remaining.
     if remaining > 0 then
       rbind (parcBuffer_Overlay h plainText 0) (\<lambda>(bytes, h1).
       parcBase64_EncodeArray h1 output remaining bytes)
     else Inr h)"

section \<open>Decoding\<close>

text \<open>
  One round of the loop over the four symbols: the three bytes and the number of them that are
  complete.
\<close>

definition decode_symbol :: "nat \<Rightarrow> u8 \<Rightarrow> u8 \<times> u8 \<times> u8 \<times> nat \<Rightarrow> u8 \<times> u8 \<times> u8 \<times> nat" where
  "decode_symbol index value t =
     (case t of (t0, t1, t2, n) \<Rightarrow>
        if index = 0 then (t0 OR push_bit 2 value, t1, t2, n)
        else if index = 1 then
          (t0 OR drop_bit 4 (value AND 0x30), t1 OR push_bit 4 (value AND 0x0F), t2, 1)
        else if index = 2 then
          (t0, t1 OR drop_bit 2 value, t2 OR push_bit 6 (value AND 0x03), 2)
        else (t0, t1, t2 OR value, 3))"

fun decode_loop :: "nat \<Rightarrow> u8 list \<Rightarrow> u8 \<times> u8 \<times> u8 \<times> nat \<Rightarrow> (u8 \<times> u8 \<times> u8 \<times> nat) option" where
  "decode_loop index [] t = Some t"
| "decode_loop index (c # cs) t =
     (if c \<noteq> pad then
        let value = decodeTable ! unat c
        in if value = invalid then None else decode_loop (index + 1) cs (decode_symbol index value t)
      else decode_loop (index + 1) cs t)"

definition base64_decode :: "memory \<Rightarrow> ptr \<Rightarrow> u8 list \<Rightarrow> (bool \<times> memory) result" where
  "base64_decode h output quantum =
     (case decode_loop 0 (take 4 quantum) (0, 0, 0, 0) of
        None \<Rightarrow> Inr (False, h)
      | Some (t0, t1, t2, n) \<Rightarrow>
          rbind (parcBufferComposer_PutArray h output [t0, t1, t2] (word_of_nat n)) (\<lambda>h1.
          Inr (True, h1)))"

text \<open>
  The inner loop of \<open>parcBase64_DecodeArray\<close>: the symbols found so far and the input left. A table entry
  of another kind would make the loop spin.
\<close>

fun decode_quantum :: "u8 list \<Rightarrow> u8 list \<Rightarrow> (u8 list \<times> u8 list) result" where
  "decode_quantum quantum [] = Inr (quantum, [])"
| "decode_quantum quantum (c # cs) =
     (if length quantum < 4 then
        let decoded = decodeTable ! unat c
        in if decoded < 64 \<or> c = pad then decode_quantum (quantum @ [c]) cs
           else if decoded = skip then decode_quantum quantum cs
           else if decoded = invalid then Inr (quantum, c # cs)
           else Inl Diverges
      else Inr (quantum, c # cs))"

lemma decode_quantum_length:
  "decode_quantum q cs = Inr (q', cs') \<Longrightarrow> length cs' + length q' \<le> length cs + length q"
  by (induction q cs rule: decode_quantum.induct) (auto simp: Let_def split: if_splits)

function decodeArray_loop :: "memory \<Rightarrow> ptr \<Rightarrow> bool \<Rightarrow> u8 list \<Rightarrow> (bool \<times> memory) result" where
  "decodeArray_loop h output success input =
     (if input \<noteq> [] \<and> success then
        rbind (decode_quantum [] input) (\<lambda>r.
        if length (fst r) = 4 then
          rbind (base64_decode h output (fst r)) (\<lambda>d.
          decodeArray_loop (snd d) output (fst d) (snd r))
        else decodeArray_loop h output False (snd r))
      else Inr (success, h))"
  by pat_completeness auto
termination
proof (relation "measure (\<lambda>(h, output, success, input). if success then Suc (length input) else 0)")
  fix h p success input r d
  assume "input \<noteq> [] \<and> success" "decode_quantum [] input = Inr r" "length (fst r) = 4"
  then show "((snd d, p, fst d, snd r), h, p, success, input) \<in>
      measure (\<lambda>(h, output, success, input). if success then Suc (length input) else 0)"
    using decode_quantum_length [of "[]" input "fst r" "snd r"] by auto
qed auto

declare decodeArray_loop.simps [simp del]

definition parcBase64_DecodeArray ::
  "memory \<Rightarrow> ptr \<Rightarrow> size_t \<Rightarrow> u8 list \<Rightarrow> (bool \<times> memory) result" where
  "parcBase64_DecodeArray h output n arr =
     rbind (parcBufferComposer_GetBuffer h output) (\<lambda>outputBuffer.
     rbind (parcBuffer_Position h outputBuffer) (\<lambda>rewind_to.
     rbind (decodeArray_loop h output True (take (unat n) arr)) (\<lambda>(success, h1).
     if \<not> success then
       rbind (parcBuffer_SetPosition h1 outputBuffer rewind_to) (\<lambda>h2. Inr (False, h2))
     else Inr (True, h1))))"

definition parcBase64_Decode :: "memory \<Rightarrow> ptr \<Rightarrow> ptr \<Rightarrow> (bool \<times> memory) result" where
  "parcBase64_Decode h output encodedText =
     rbind (parcBuffer_Remaining h encodedText) (\<lambda>remaining.
     rbind (parcBuffer_Overlay h encodedText remaining) (\<lambda>(bytes, h1).
     parcBase64_DecodeArray h1 output remaining bytes))"

definition parcBase64_DecodeString :: "memory \<Rightarrow> ptr \<Rightarrow> u8 list \<Rightarrow> (bool \<times> memory) result" where
  "parcBase64_DecodeString h output encodedString =
     parcBase64_DecodeArray h output (word_of_nat (length encodedString)) encodedString"

section \<open>The encoding, specified\<close>

definition symbol :: "u8 list \<Rightarrow> nat \<Rightarrow> u8" where
  "symbol q index = base64code ! unat (sixbit q index)"

fun base64 :: "u8 list \<Rightarrow> u8 list" where
  "base64 [] = []"
| "base64 [a] = [symbol [a, 0, 0] 0, symbol [a, 0, 0] 1, pad, pad]"
| "base64 [a, b] = [symbol [a, b, 0] 0, symbol [a, b, 0] 1, symbol [a, b, 0] 2, pad]"
| "base64 (a # b # c # cs) =
     [symbol [a, b, c] 0, symbol [a, b, c] 1, symbol [a, b, c] 2, symbol [a, b, c] 3] @ base64 cs"

lemma length_base64: "length (base64 bs) = 4 * ((length bs + 2) div 3)"
  by (induction bs rule: base64.induct) (auto, presburger)

text \<open>The bits of a word, most significant first.\<close>

definition word_bits :: "nat \<Rightarrow> u8 \<Rightarrow> bool list" where
  "word_bits n w = map (bit w) (rev [0..<n])"

lemma bit_numeral_cases:
  "n < 8 \<Longrightarrow> n = 0 \<or> n = 1 \<or> n = 2 \<or> n = 3 \<or> n = 4 \<or> n = 5 \<or> n = 6 \<or> n = (7 :: nat)"
  by linarith

lemma bit_u8_high [simp]: "8 \<le> n \<Longrightarrow> \<not> bit (w :: u8) n"
  by (auto dest: bit_imp_le_length)

text \<open>The four six bit groups of three bytes are their bits in order.\<close>

lemma bits_list:
  "word_bits 6 w = [bit w 5, bit w 4, bit w 3, bit w 2, bit w 1, bit w 0]"
  "word_bits 8 w = [bit w 7, bit w 6, bit w 5, bit w 4, bit w 3, bit w 2, bit w 1, bit w 0]"
  by (simp_all add: word_bits_def numeral_eq_Suc)

lemma sixbit_bits:
  "concat (map (\<lambda>i. word_bits 6 (sixbit [a, b, c] i)) [0, 1, 2, 3]) = word_bits 8 a @ word_bits 8 b @ word_bits 8 c"
  by (simp add: bits_list sixbit_def bit_simps)

lemma sixbit_less:
  "unat (sixbit [a, b, c] i) < 64"
proof -
  have "sixbit [a, b, c] i = take_bit 6 (sixbit [a, b, c] i)"
    by (rule bit_word_eqI) (auto simp: bit_simps sixbit_def dest!: bit_numeral_cases)
  then have "unat (sixbit [a, b, c] i) = unat (take_bit 6 (sixbit [a, b, c] i))" by simp
  also have "\<dots> < 2 ^ 6" by (simp only: unsigned_take_bit_eq take_bit_nat_less_exp)
  finally show ?thesis by simp
qed

lemma decodeTable_symbols:
  "list_all (\<lambda>i. decodeTable ! unat (base64code ! i) = word_of_nat i \<and> base64code ! i \<noteq> pad) [0..<64]"
  by code_simp

lemma symbol_decodes:
  "decodeTable ! unat (symbol [a, b, c] i) = sixbit [a, b, c] i" "symbol [a, b, c] i \<noteq> pad"
  "decodeTable ! unat (symbol [a, b, c] i) < 64"
  "decodeTable ! unat (symbol [a, b, c] i) \<noteq> invalid"
proof -
  show d: "decodeTable ! unat (symbol [a, b, c] i) = sixbit [a, b, c] i" "symbol [a, b, c] i \<noteq> pad"
    using decodeTable_symbols sixbit_less [of a b c i] by (auto simp: list_all_iff symbol_def)
  show lt: "decodeTable ! unat (symbol [a, b, c] i) < 64"
    unfolding d using sixbit_less [of a b c i] by (simp add: word_less_nat_alt)
  then show "decodeTable ! unat (symbol [a, b, c] i) \<noteq> invalid" by (auto simp: invalid_def)
qed

text \<open>Putting the six bit groups together gives the bytes back.\<close>

lemma sixbit_inverse:
  shows "push_bit 2 (sixbit [a, b, c] 0) OR drop_bit 4 (sixbit [a, b, c] 1 AND 0x30) = a" (is ?A)
  and "push_bit 4 (sixbit [a, b, c] 1 AND 0x0F) OR drop_bit 2 (sixbit [a, b, c] 2) = b" (is ?B)
  and "push_bit 6 (sixbit [a, b, c] 2 AND 0x03) OR sixbit [a, b, c] 3 = c" (is ?C)
proof -
  show ?A
    by (rule bit_word_eqI, auto simp: sixbit_def bit_simps dest!: bit_numeral_cases)
      (simp_all add: numeral_eq_Suc)
  show ?B by (rule bit_word_eqI) (auto simp: sixbit_def bit_simps dest!: bit_numeral_cases)
  show ?C by (rule bit_word_eqI) (auto simp: sixbit_def bit_simps dest!: bit_numeral_cases)
qed

section \<open>Encoding appends the specified text\<close>

lemma encodeWithPad_loop_symbols:
  "i \<le> 4 \<Longrightarrow> encodeWithPad_loop h (Some k) q p i =
     put_list (composer_put k) (map (\<lambda>i. if i + p < 4 then symbol q i else pad) [i..<4]) h"
proof (induction "4 - i" arbitrary: i h)
  case 0
  then show ?case by (subst encodeWithPad_loop.simps) simp
next
  case (Suc n)
  then have "i < 4" "n = 4 - Suc i" "[i..<4] = i # [Suc i..<4]" by (auto simp: upt_conv_Cons)
  then show ?case
    using Suc.hyps(1) [of "Suc i"]
    by (subst encodeWithPad_loop.simps) (simp add: composer_put_def [abs_def] symbol_def cong: rbind_cong)
qed

lemma encodeWithPad_symbols:
  "encodeWithPad h (Some k) (a # b # c # cs) 0 =
     put_list (composer_put k) [symbol [a, b, c] 0, symbol [a, b, c] 1, symbol [a, b, c] 2, symbol [a, b, c] 3] h"
  "encodeWithPad h (Some k) [a, b] 1 =
     put_list (composer_put k) [symbol [a, b, 0] 0, symbol [a, b, 0] 1, symbol [a, b, 0] 2, pad] h"
  "encodeWithPad h (Some k) [a] 2 =
     put_list (composer_put k) [symbol [a, 0, 0] 0, symbol [a, 0, 0] 1, pad, pad] h"
proof -
  note loop = encodeWithPad_loop_symbols [of 0, simplified]
  have four: "[0..<4] = [0, 1, 2, 3 :: nat]" by (simp add: upt_rec)
  show "encodeWithPad h (Some k) (a # b # c # cs) 0 =
     put_list (composer_put k) [symbol [a, b, c] 0, symbol [a, b, c] 1, symbol [a, b, c] 2, symbol [a, b, c] 3] h"
    by (simp add: encodeWithPad_def loop four numeral_3_eq_3)
  show "encodeWithPad h (Some k) [a, b] 1 =
     put_list (composer_put k) [symbol [a, b, 0] 0, symbol [a, b, 0] 1, symbol [a, b, 0] 2, pad] h"
    by (simp add: encodeWithPad_def loop four)
  show "encodeWithPad h (Some k) [a] 2 =
     put_list (composer_put k) [symbol [a, 0, 0] 0, symbol [a, 0, 0] 1, pad, pad] h"
    by (simp add: encodeWithPad_def loop four numeral_2_eq_2)
qed

lemma encodeArray_loop_step:
  "offset < n \<Longrightarrow> 3 - min 3 (n - offset) = p \<Longrightarrow>
     encodeArray_loop h output n arr offset =
       rbind (encodeWithPad h output (drop offset arr) p) (\<lambda>h1. encodeArray_loop h1 output n arr (offset + 3))"
  by (subst encodeArray_loop.simps) (simp only: if_True Let_def)

lemma encodeArray_loop_base64:
  "offset \<le> length arr \<Longrightarrow>
     encodeArray_loop h (Some k) (length arr) arr offset = put_list (composer_put k) (base64 (drop offset arr)) h"
proof (induction "length arr - offset" arbitrary: offset h rule: less_induct)
  case less
  show ?case
  proof (cases "drop offset arr")
    case Nil
    then show ?thesis by (subst encodeArray_loop.simps) simp
  next
    case (Cons a rest)
    then have lt: "offset < length arr" by (metis drop_all linorder_not_le list.distinct(1))
    have len: "length arr - offset = Suc (length rest)" using Cons by (metis length_Cons length_drop)
    show ?thesis
    proof (cases "length rest < 2")
      case True
      have stop: "encodeArray_loop h (Some k) (length arr) arr (offset + 3) = Inr h" for h
      proof -
        have "\<not> offset + 3 < length arr" using len True by simp
        then show ?thesis by (subst encodeArray_loop.simps) simp
      qed
      have "rest = [] \<or> (\<exists>b. rest = [b])" using True by (cases rest; cases "tl rest") auto
      then show ?thesis
      proof
        assume r: "rest = []"
        then have "3 - min 3 (length arr - offset) = 2" using len by simp
        from encodeArray_loop_step [OF lt this] Cons r stop encodeWithPad_symbols(3) [of h k a]
        show ?thesis by simp
      next
        assume "\<exists>b. rest = [b]"
        then obtain b where r: "rest = [b]" by blast
        then have "3 - min 3 (length arr - offset) = 1" using len by simp
        from encodeArray_loop_step [OF lt this] Cons r stop encodeWithPad_symbols(2) [of h k a b]
        show ?thesis by simp
      qed
    next
      case False
      then obtain b c cs where r: "rest = b # c # cs" by (cases rest; cases "tl rest") auto
      have d: "drop (offset + 3) arr = cs"
        using Cons r by (metis add.commute drop_drop drop_Suc_Cons drop0 numeral_3_eq_3)
      have "3 - min 3 (length arr - offset) = 0" using len r by simp
      from encodeArray_loop_step [OF lt this] Cons r d encodeWithPad_symbols(1) [of h k a b c cs]
        less(1) [of "offset + 3"] len
      show ?thesis by (simp add: rbind_assoc cong: rbind_cong)
    qed
  qed
qed

section \<open>Decoding undoes encoding\<close>

text \<open>Characters that take part in a quantum.\<close>

definition quantum_char :: "u8 \<Rightarrow> bool" where
  "quantum_char c \<longleftrightarrow> decodeTable ! unat c < 64 \<or> c = pad"

lemma quantum_char_symbols [simp]: "quantum_char pad" "quantum_char (symbol [a, b, c] i)"
  using symbol_decodes(3) [of a b c i] by (simp_all add: quantum_char_def)

lemma decode_quantum_full:
  "length q + length cs = 4 \<Longrightarrow> list_all quantum_char cs \<Longrightarrow> decode_quantum q (cs @ rest) = Inr (q @ cs, rest)"
proof (induction cs arbitrary: q)
  case Nil
  then show ?case by (cases rest) simp_all
qed (auto simp: quantum_char_def)

lemma decode_loop_symbols:
  "decode_loop 0 [symbol [a, b, c] 0, symbol [a, b, c] 1, symbol [a, b, c] 2, symbol [a, b, c] 3] (0, 0, 0, 0) =
     Some (a, b, c, 3)"
  "decode_loop 0 [symbol [a, b, 0] 0, symbol [a, b, 0] 1, symbol [a, b, 0] 2, pad] (0, 0, 0, 0) =
     Some (a, b, push_bit 6 (sixbit [a, b, 0] 2 AND 0x03), 2)"
  "decode_loop 0 [symbol [a, 0, 0] 0, symbol [a, 0, 0] 1, pad, pad] (0, 0, 0, 0) =
     Some (a, push_bit 4 (sixbit [a, 0, 0] 1 AND 0x0F), 0, 1)"
  using symbol_decodes sixbit_inverse [of a b c] sixbit_inverse [of a b 0] sixbit_inverse [of a 0 0]
  by (simp_all add: Let_def decode_symbol_def)

text \<open>One quantum through the decoder.\<close>

lemma decode_step:
  assumes "composer_ok k h" "composer_room k h (n + length bs)" "length bs = m" "m \<le> 3"
    and "list_all quantum_char q" "length q = 4"
    and "decode_loop 0 q (0, 0, 0, 0) = Some (t0, t1, t2, m)" "take m [t0, t1, t2] = bs"
  shows "\<exists>h'. decodeArray_loop h (Some k) True (q @ rest) = decodeArray_loop h' (Some k) True rest \<and>
    composer_ok k h' \<and> composer_room k h' n \<and> composer_out k h' = composer_out k h @ bs"
proof -
  have m: "unat (word_of_nat m :: size_t) = m" using assms(4) by (intro unat_word_of_nat) simp
  have "parcBufferComposer_PutArray h (Some k) [t0, t1, t2] (word_of_nat m) =
      parcBufferComposer_PutArray h (Some k) bs (word_of_nat m)"
    using assms(8) m parcByteArray_PutBytes_take
    by (simp add: parcBufferComposer_PutArray_def parcBuffer_PutArray_def put_with_room_def)
      (subst parcByteArray_PutBytes_take, simp)
  then obtain h' where h': "parcBufferComposer_PutArray h (Some k) [t0, t1, t2] (word_of_nat m) = Inr h'"
      "composer_ok k h'" "composer_room k h' n" "composer_out k h' = composer_out k h @ bs"
    using composer_put_field_ok [OF assms(1), of n "Bytes bs"] assms(2,3) by auto
  have "decode_quantum [] (q @ rest) = Inr (q, rest)"
    using decode_quantum_full [of "[]" q rest] assms(5,6) by simp
  moreover have "base64_decode h (Some k) q = Inr (True, h')"
    using assms(6,7) h'(1) by (simp add: base64_decode_def)
  moreover have "q @ rest \<noteq> []" using assms(6) by auto
  ultimately have "decodeArray_loop h (Some k) True (q @ rest) = decodeArray_loop h' (Some k) True rest"
    using assms(6) by (subst decodeArray_loop.simps) simp
  with h' show ?thesis by blast
qed

lemma decodeArray_loop_base64:
  "composer_ok k h \<Longrightarrow> composer_room k h (length bs) \<Longrightarrow>
     \<exists>h'. decodeArray_loop h (Some k) True (base64 bs) = Inr (True, h') \<and> composer_ok k h' \<and>
       composer_out k h' = composer_out k h @ bs"
proof (induction bs arbitrary: h rule: base64.induct)
  case 1
  then show ?case by (simp add: decodeArray_loop.simps)
next
  case (2 a)
  show ?case
    using decode_step [OF 2(1) _ _ _ _ _ decode_loop_symbols(3) [of a], of 0 "[a]" "[]"] 2(2)
    by (auto simp: decodeArray_loop.simps [of _ _ _ "[]"])
next
  case (3 a b)
  show ?case
    using decode_step [OF 3(1) _ _ _ _ _ decode_loop_symbols(2) [of a b], of 0 "[a, b]" "[]"] 3(2)
    by (auto simp: decodeArray_loop.simps [of _ _ _ "[]"] numeral_2_eq_2)
next
  case (4 a b c cs)
  let ?q = "[symbol [a, b, c] 0, symbol [a, b, c] 1, symbol [a, b, c] 2, symbol [a, b, c] 3]"
  obtain h1 where h1: "decodeArray_loop h (Some k) True (?q @ base64 cs) = decodeArray_loop h1 (Some k) True (base64 cs)"
      "composer_ok k h1" "composer_room k h1 (length cs)" "composer_out k h1 = composer_out k h @ [a, b, c]"
    using decode_step [OF 4(2), of "length cs" "[a, b, c]" 3 ?q] 4(3) decode_loop_symbols(1) [of a b c]
    by (auto simp: numeral_3_eq_3)
  show ?case using 4(1) [OF h1(2,3)] h1(1,4) by auto
qed

text \<open>
  C4: \<open>parcBase64_EncodeArray\<close> appends to the composer the RFC 4648 text of the bytes: four
  symbols for every three bytes, whose six bit values are the bits of the bytes in order, and one or two pad characters
  for a shorter last group. \<open>parcBase64_DecodeArray\<close> succeeds on this text and appends exactly the
  bytes.
\<close>

theorem parcBase64_roundtrip:
  assumes "composer_ok k h" "composer_room k h (4 * ((length bs + 2) div 3))"
    and "composer_ok k' h'" "composer_room k' h' (length bs)"
    and "length bs < 2 ^ 62"
  shows "(\<exists>h1. parcBase64_EncodeArray h (Some k) (word_of_nat (length bs)) bs = Inr h1 \<and>
      composer_out k h1 = composer_out k h @ base64 bs) \<and>
    length (base64 bs) = 4 * ((length bs + 2) div 3) \<and>
    (\<exists>h1. parcBase64_DecodeString h' (Some k') (base64 bs) = Inr (True, h1) \<and>
      composer_out k' h1 = composer_out k' h' @ bs)"
proof -
  have u: "unat (word_of_nat (length bs) :: size_t) = length bs"
    using assms(5) by (intro unat_word_of_nat) simp
  have enc: "parcBase64_EncodeArray h (Some k) (word_of_nat (length bs)) bs = put_list (composer_put k) (base64 bs) h"
    using encodeArray_loop_base64 [of 0 bs h k] u by (simp add: parcBase64_EncodeArray_def)
  have "\<exists>h1. put_list (composer_put k) (base64 bs) h = Inr h1 \<and> composer_out k h1 = composer_out k h @ base64 bs"
    using composer.put_list_ok [OF assms(1), of "base64 bs" 0] assms(2) by (auto simp: length_base64)
  moreover obtain cp a c b x where at: "composer_at h' k' cp a c b x"
    using assms(3) by (auto simp: composer_ok_def)
  have "length (base64 bs) < 2 ^ 64"
    using assms(5) by (simp add: length_base64)
  then have v: "unat (word_of_nat (length (base64 bs)) :: size_t) = length (base64 bs)"
    by (intro unat_word_of_nat) simp
  note B = composer_at_buffer [OF at]
  have "\<exists>h1. parcBase64_DecodeString h' (Some k') (base64 bs) = Inr (True, h1) \<and>
      composer_out k' h1 = composer_out k' h' @ bs"
    using decodeArray_loop_base64 [OF assms(3,4)] v B(1,3,4)
    by (auto simp: parcBase64_DecodeString_def parcBase64_DecodeArray_def parcBufferComposer_GetBuffer_def)
  ultimately show ?thesis using enc by (simp add: length_base64)
qed

theorem parcBase64_roundtrip_witness:
  "\<exists>k h h1 h2. parcBufferComposer_Create 64 empty_heap = Inr (Some k, h) \<and>
     parcBase64_EncodeArray h (Some k) 4 [1, 2, 3, 255] = Inr h1 \<and>
     composer_out k h1 = composer_out k h @ base64 [1, 2, 3, 255] \<and>
     parcBase64_DecodeString h (Some k) (base64 [1, 2, 3, 255]) = Inr (True, h2) \<and>
     composer_out k h2 = composer_out k h @ [1, 2, 3, 255]"
proof -
  have e: "heap_wf (empty_heap :: memory)" "\<forall>n. \<not> allocFails (empty_heap :: memory) n"
    "8 \<le> (64 :: size_t)" "(64 :: size_t) \<noteq> SIZE_MAX"
    by simp_all
  obtain k h a c where k: "parcBufferComposer_Create 64 empty_heap = Inr (Some k, h)"
      "composer_at h k \<lparr>incrementHeuristic = 64, buffer = Some a\<rparr> a c (fresh_buffer (Some c) 64) (zero_array 64)"
    using parcBufferComposer_Create_ok [OF e] by blast
  note v = composer_view [OF k(2)]
  have room: "composer_room k h n" if "n \<le> 8" for n
    using that unfolding v(3) by (simp add: fresh_buffer_def)
  show ?thesis
    using parcBase64_roundtrip [OF v(1) room v(1) room, of "[1, 2, 3, 255]"] k(1) by auto
qed

text \<open>
  A failing decode may use freed memory. When the buffer of the output composer is full, one good
  quantum makes the composer replace its buffer; the invalid character after it then makes
  \<open>parcBase64_DecodeArray\<close> set the position of the buffer it had remembered, which has been released.
\<close>

theorem parcBase64_Decode_dangling:
  assumes "composer_at h k cp a c b x" "position b = capacity b"
    and "unat (capacity b) + growth cp 3 < 2 ^ 64 - 1"
  shows "parcBase64_DecodeString h (Some k) [65, 66, 67, 68, 33] = Inl BadPointer"
proof -
  note B = composer_at_buffer [OF assms(1)]
  have "capacity b - position b < 3" using assms(2) by simp
  from ensureRemaining_grows [OF assms(1,3) this] obtain h1 a' c' b' x' where h1:
      "ensureRemaining h (Some k) 3 = Inr h1" "composer_at h1 k (cp\<lparr>buffer := Some a'\<rparr>) a' c' b' x'"
      "objects h1 a = None" "3 \<le> length (buffer_rest a' h1)"
    using ensureRemaining_ok [OF assms(1,3)] by auto
  note B1 = composer_at_buffer [OF h1(2)]
  have dec: "decode_quantum [] [65, 66, 67, 68, 33] = Inr ([65, 66, 67, 68], [33])"
    "decode_quantum [] [33] = Inr ([], [33])"
    "decode_loop 0 [65, 66, 67, 68] (0, 0, 0, 0) = Some (0, 16, 131, 3)"
    by code_simp+
  have put: "parcBuffer_PutArray h1 (Some a') 3 [0, 16, 131] = Inr (written h1 a' b' x' [0, 16, 131])"
    using parcBuffer_PutArray_ok [OF B1(1)] h1(4) by simp
  define h2 where "h2 = written h1 a' b' x' [0, 16, 131]"
  have "a \<noteq> a'" "a \<noteq> c'" using h1(2,3) by (auto simp: composer_at_def)
  then have "objects h2 a = None"
    using written_objects(1) [of h1 a' b' c' x' "[0, 16, 131]"] h1(2,3) B1(7)
    by (simp add: h2_def composer_at_def)
  then have "parcBuffer_SetPosition h2 (Some a) (position b) = Inl BadPointer"
    by (simp add: parcBuffer_SetPosition_def parcBuffer_AssertValid_def parcBuffer_CheckValidity_def
        parcObject_Header_def)
  moreover have "base64_decode h (Some k) [65, 66, 67, 68] = Inr (True, h2)"
    using h1(1) B1(3) put dec(3)
    by (simp add: base64_decode_def parcBufferComposer_PutArray_def put_with_room_def h2_def)
  then have "decodeArray_loop h (Some k) True [65, 66, 67, 68, 33] = Inr (False, h2)"
    using dec(1,2) by (simp add: decodeArray_loop.simps del: decode_quantum.simps)
  ultimately show ?thesis
    using B by (simp add: parcBase64_DecodeString_def parcBase64_DecodeArray_def parcBufferComposer_GetBuffer_def)
qed

theorem parcBase64_Decode_dangling_witness:
  "\<exists>k h h1 a b. parcBufferComposer_Create 64 empty_heap = Inr (Some k, h) \<and>
     parcBuffer_PutArray h (Some a) 64 (replicate 64 7) = Inr h1 \<and> bufferOf h1 (Some a) = Inr b \<and>
     position b = capacity b \<and>
     parcBase64_DecodeString h1 (Some k) [65, 66, 67, 68, 33] = Inl BadPointer"
proof -
  have e: "heap_wf (empty_heap :: memory)" "\<forall>n. \<not> allocFails (empty_heap :: memory) n"
    "8 \<le> (64 :: size_t)" "(64 :: size_t) \<noteq> SIZE_MAX"
    by simp_all
  obtain k h a c where k: "parcBufferComposer_Create 64 empty_heap = Inr (Some k, h)"
      "composer_at h k \<lparr>incrementHeuristic = 64, buffer = Some a\<rparr> a c (fresh_buffer (Some c) 64) (zero_array 64)"
    using parcBufferComposer_Create_ok [OF e] by blast
  let ?b = "fresh_buffer (Some c) 64" and ?bs = "replicate 64 (7 :: u8)"
  let ?h1 = "written h a ?b (zero_array 64) ?bs"
  note B = composer_at_buffer [OF k(2)]
  have room: "length ?bs \<le> length (buffer_rest a h)"
    using buffer_room(1) [OF B(1)] by (simp add: fresh_buffer_def)
  then have put: "parcBuffer_PutArray h (Some a) 64 ?bs = Inr ?h1"
    using parcBuffer_PutArray_ok [OF B(1), of ?bs] by simp
  note full = composer_written(1) [OF k(2) room]
  have "parcBase64_DecodeString ?h1 (Some k) [65, 66, 67, 68, 33] = Inl BadPointer"
    by (rule parcBase64_Decode_dangling [OF full]) (simp_all add: fresh_buffer_def growth_def)
  moreover have "bufferOf ?h1 (Some a) = Inr (?b\<lparr>position := position ?b + word_of_nat (length ?bs)\<rparr>)"
    using full by (auto simp: composer_at_def bufferOf_def parcObject_Header_def buffer_header_def
        parcObjectHeader_InitAllocated_def)
  moreover have "position (?b\<lparr>position := position ?b + word_of_nat (length ?bs)\<rparr>) =
      capacity (?b\<lparr>position := position ?b + word_of_nat (length ?bs)\<rparr>)"
    by (simp add: fresh_buffer_def)
  ultimately show ?thesis using k(1) put by blast
qed

end
