(* ===== verification/Parc_Varint.thy ===== *)
theory Parc_Varint
  imports Parc_BufferText
begin

text \<open>
  \<^verbatim>\<open>parc/algol/parc_Varint.c\<close>: 64 bit numbers decoded from buffers of any short length. A varint is a plain
  block with one field that only its owner changes, so a pointer to it is an optional record and an
  operation returns the record it leaves behind. Operands of type \<open>int\<close> are converted to
  \<open>uint64_t\<close> with their sign, as C does.
\<close>

record parc_varint =
  varint_value :: u64

section \<open>Operations\<close>

definition parcVarint_Create :: "memory \<Rightarrow> parc_varint option \<times> memory" where
  "parcVarint_Create h =
     (let (ok, h') = parcMemory_AllocateRaw h
      in (if ok then Some \<lparr>varint_value = 0\<rparr> else None, h'))"

definition parcVarint_Set :: "parc_varint option \<Rightarrow> u64 \<Rightarrow> parc_varint option result" where
  "parcVarint_Set varint newValue =
     (case varint of None \<Rightarrow> Inl BadPointer
      | Some v \<Rightarrow> Inr (Some (v\<lparr>varint_value := newValue\<rparr>)))"

text \<open>A shift by a negative amount or by 64 and more bits is undefined.\<close>

definition shift_defined :: "c_int \<Rightarrow> bool" where
  "shift_defined n \<longleftrightarrow> 0 \<le> sint n \<and> sint n < 64"

definition parcVarint_ShiftLeft :: "parc_varint option \<Rightarrow> c_int \<Rightarrow> parc_varint option result" where
  "parcVarint_ShiftLeft varint n =
     (case varint of None \<Rightarrow> Inl AssertFailed
      | Some v \<Rightarrow> if shift_defined n
                 then Inr (Some (v\<lparr>varint_value := push_bit (nat (sint n)) (varint_value v)\<rparr>))
                 else Inl Undefined)"

definition parcVarint_Add :: "parc_varint option \<Rightarrow> c_int \<Rightarrow> parc_varint option result" where
  "parcVarint_Add varint addend =
     (case varint of None \<Rightarrow> Inl AssertFailed
      | Some v \<Rightarrow> Inr (Some (v\<lparr>varint_value := varint_value v + scast addend\<rparr>)))"

definition parcVarint_Subtract :: "parc_varint option \<Rightarrow> c_int \<Rightarrow> parc_varint option result" where
  "parcVarint_Subtract varint subtrahend =
     (case varint of None \<Rightarrow> Inl AssertFailed
      | Some v \<Rightarrow> Inr (Some (v\<lparr>varint_value := varint_value v - scast subtrahend\<rparr>)))"

definition parcVarint_Multiply :: "parc_varint option \<Rightarrow> c_int \<Rightarrow> parc_varint option result" where
  "parcVarint_Multiply varint multiplicand =
     (case varint of None \<Rightarrow> Inl AssertFailed
      | Some v \<Rightarrow> Inr (Some (v\<lparr>varint_value := varint_value v * scast multiplicand\<rparr>)))"

definition parcVarint_Divide :: "parc_varint option \<Rightarrow> c_int \<Rightarrow> parc_varint option result" where
  "parcVarint_Divide varint divisor =
     (case varint of None \<Rightarrow> Inl AssertFailed
      | Some v \<Rightarrow> if divisor = 0 then Inl Undefined
                 else Inr (Some (v\<lparr>varint_value := varint_value v div scast divisor\<rparr>)))"

definition parcVarint_ShiftRight :: "parc_varint option \<Rightarrow> c_int \<Rightarrow> parc_varint option result" where
  "parcVarint_ShiftRight varint n =
     (case varint of None \<Rightarrow> Inl AssertFailed
      | Some v \<Rightarrow> if shift_defined n
                 then Inr (Some (v\<lparr>varint_value := drop_bit (nat (sint n)) (varint_value v)\<rparr>))
                 else Inl Undefined)"

definition parcVarint_And :: "parc_varint option \<Rightarrow> parc_varint option \<Rightarrow> parc_varint option result" where
  "parcVarint_And varint operand =
     (case varint of None \<Rightarrow> Inl AssertFailed
      | Some v \<Rightarrow> (case operand of None \<Rightarrow> Inl AssertFailed
          | Some w \<Rightarrow> Inr (Some (v\<lparr>varint_value := varint_value v AND varint_value w\<rparr>))))"

definition parcVarint_AndUint64 :: "parc_varint option \<Rightarrow> u64 \<Rightarrow> parc_varint option result" where
  "parcVarint_AndUint64 varint operand =
     (case varint of None \<Rightarrow> Inl AssertFailed
      | Some v \<Rightarrow> Inr (Some (v\<lparr>varint_value := varint_value v AND operand\<rparr>)))"

definition parcVarint_AndUint32 :: "parc_varint option \<Rightarrow> u32 \<Rightarrow> parc_varint option result" where
  "parcVarint_AndUint32 varint operand =
     (case varint of None \<Rightarrow> Inl AssertFailed
      | Some v \<Rightarrow> Inr (Some (v\<lparr>varint_value := varint_value v AND ucast operand\<rparr>)))"

definition parcVarint_AndUint16 :: "parc_varint option \<Rightarrow> u16 \<Rightarrow> parc_varint option result" where
  "parcVarint_AndUint16 varint operand =
     (case varint of None \<Rightarrow> Inl AssertFailed
      | Some v \<Rightarrow> Inr (Some (v\<lparr>varint_value := varint_value v AND ucast operand\<rparr>)))"

definition parcVarint_AndUint8 :: "parc_varint option \<Rightarrow> u8 \<Rightarrow> parc_varint option result" where
  "parcVarint_AndUint8 varint operand =
     (case varint of None \<Rightarrow> Inl AssertFailed
      | Some v \<Rightarrow> Inr (Some (v\<lparr>varint_value := varint_value v AND ucast operand\<rparr>)))"

text \<open>\<open>parcVarint_Or\<close> and \<open>parcVarint_Equals\<close> read their operand unchecked.\<close>

definition parcVarint_Or :: "parc_varint option \<Rightarrow> parc_varint option \<Rightarrow> parc_varint option result" where
  "parcVarint_Or varint operand =
     (case varint of None \<Rightarrow> Inl AssertFailed
      | Some v \<Rightarrow> (case operand of None \<Rightarrow> Inl BadPointer
          | Some w \<Rightarrow> Inr (Some (v\<lparr>varint_value := varint_value v OR varint_value w\<rparr>))))"

definition parcVarint_OrUint8 :: "parc_varint option \<Rightarrow> u8 \<Rightarrow> parc_varint option result" where
  "parcVarint_OrUint8 varint operand =
     (case varint of None \<Rightarrow> Inl AssertFailed
      | Some v \<Rightarrow> Inr (Some (v\<lparr>varint_value := varint_value v OR ucast operand\<rparr>)))"

definition parcVarint_OrUint16 :: "parc_varint option \<Rightarrow> u16 \<Rightarrow> parc_varint option result" where
  "parcVarint_OrUint16 varint operand =
     (case varint of None \<Rightarrow> Inl AssertFailed
      | Some v \<Rightarrow> Inr (Some (v\<lparr>varint_value := varint_value v OR ucast operand\<rparr>)))"

definition parcVarint_OrUint32 :: "parc_varint option \<Rightarrow> u32 \<Rightarrow> parc_varint option result" where
  "parcVarint_OrUint32 varint operand =
     (case varint of None \<Rightarrow> Inl AssertFailed
      | Some v \<Rightarrow> Inr (Some (v\<lparr>varint_value := varint_value v OR ucast operand\<rparr>)))"

definition parcVarint_OrUint64 :: "parc_varint option \<Rightarrow> u64 \<Rightarrow> parc_varint option result" where
  "parcVarint_OrUint64 varint operand =
     (case varint of None \<Rightarrow> Inl AssertFailed
      | Some v \<Rightarrow> Inr (Some (v\<lparr>varint_value := varint_value v OR operand\<rparr>)))"

definition parcVarint_Equals :: "parc_varint option \<Rightarrow> parc_varint option \<Rightarrow> bool result" where
  "parcVarint_Equals varint operand =
     (case varint of None \<Rightarrow> Inl AssertFailed
      | Some v \<Rightarrow> (case operand of None \<Rightarrow> Inl BadPointer
          | Some w \<Rightarrow> Inr (varint_value v = varint_value w)))"

definition parcVarint_EqualsUint64 :: "parc_varint option \<Rightarrow> u64 \<Rightarrow> bool result" where
  "parcVarint_EqualsUint64 varint v =
     (case varint of None \<Rightarrow> Inl AssertFailed | Some x \<Rightarrow> Inr (varint_value x = v))"

definition parcVarint_EqualsUint32 :: "parc_varint option \<Rightarrow> u32 \<Rightarrow> bool result" where
  "parcVarint_EqualsUint32 varint v =
     rbind (assertTrue (varint \<noteq> None)) (\<lambda>_. parcVarint_EqualsUint64 varint (ucast v))"

definition parcVarint_EqualsUint16 :: "parc_varint option \<Rightarrow> u16 \<Rightarrow> bool result" where
  "parcVarint_EqualsUint16 varint v =
     rbind (assertTrue (varint \<noteq> None)) (\<lambda>_. parcVarint_EqualsUint64 varint (ucast v))"

definition parcVarint_EqualsUint8 :: "parc_varint option \<Rightarrow> u8 \<Rightarrow> bool result" where
  "parcVarint_EqualsUint8 varint v =
     rbind (assertTrue (varint \<noteq> None)) (\<lambda>_. parcVarint_EqualsUint64 varint (ucast v))"

definition parcVarint_AsUint8 :: "parc_varint option \<Rightarrow> u8 result" where
  "parcVarint_AsUint8 varint =
     (case varint of None \<Rightarrow> Inl AssertFailed | Some v \<Rightarrow> Inr (ucast (varint_value v)))"

definition parcVarint_AsUint16 :: "parc_varint option \<Rightarrow> u16 result" where
  "parcVarint_AsUint16 varint =
     (case varint of None \<Rightarrow> Inl AssertFailed | Some v \<Rightarrow> Inr (ucast (varint_value v)))"

definition parcVarint_AsUint32 :: "parc_varint option \<Rightarrow> u32 result" where
  "parcVarint_AsUint32 varint =
     (case varint of None \<Rightarrow> Inl AssertFailed | Some v \<Rightarrow> Inr (ucast (varint_value v)))"

definition parcVarint_AsUint64 :: "parc_varint option \<Rightarrow> u64 result" where
  "parcVarint_AsUint64 varint =
     (case varint of None \<Rightarrow> Inl AssertFailed | Some v \<Rightarrow> Inr (varint_value v))"

definition parcVarint_AsSize :: "parc_varint option \<Rightarrow> size_t result" where
  "parcVarint_AsSize varint =
     (case varint of None \<Rightarrow> Inl AssertFailed | Some v \<Rightarrow> Inr (varint_value v))"

text \<open>\<open>asprintf\<close> returns a negative number when there is no memory for the string.\<close>

definition parcVarint_ToString :: "memory \<Rightarrow> parc_varint option \<Rightarrow> (u8 list \<times> memory) result" where
  "parcVarint_ToString h varint =
     (case varint of None \<Rightarrow> Inl AssertFailed
      | Some v \<Rightarrow>
          let (ok, h') = parcMemory_AllocateRaw h
          in rbind (assertTrue ok) (\<lambda>_. Inr (decimal (unat (varint_value v)), h')))"

definition parcVarint_FromUint64 :: "memory \<Rightarrow> u64 \<Rightarrow> parc_varint option \<times> memory" where
  "parcVarint_FromUint64 h number =
     (let (ok, h') = parcMemory_AllocateRaw h
      in (if ok then Some \<lparr>varint_value = number\<rparr> else None, h'))"

definition parcVarint_FromUint32 :: "memory \<Rightarrow> u32 \<Rightarrow> parc_varint option \<times> memory" where
  "parcVarint_FromUint32 h number = parcVarint_FromUint64 h (ucast number)"

definition parcVarint_FromUint8 :: "memory \<Rightarrow> u8 \<Rightarrow> parc_varint option \<times> memory" where
  "parcVarint_FromUint8 h number = parcVarint_FromUint32 h (ucast number)"

text \<open>\<open>parcVarint_Destroy\<close> gets the address of the pointer; it leaves \<open>NULL\<close> there.\<close>

definition parcVarint_Destroy :: "parc_varint option option \<Rightarrow> parc_varint option result" where
  "parcVarint_Destroy varintP =
     (case varintP of None \<Rightarrow> Inl AssertFailed
      | Some varint \<Rightarrow> rbind (assertTrue (varint \<noteq> None)) (\<lambda>_. Inr None))"

section \<open>Decoding\<close>

text \<open>The loops have \<open>n\<close> rounds to go; \<open>i\<close> is the index variable.\<close>

fun decodeBuffer_loop ::
  "nat \<Rightarrow> parc_varint option \<Rightarrow> memory \<Rightarrow> ptr \<Rightarrow> (parc_varint option \<times> memory) result" where
  "decodeBuffer_loop 0 result h p = Inr (result, h)"
| "decodeBuffer_loop (Suc n) result h p =
     rbind (parcVarint_ShiftLeft result 8) (\<lambda>r1.
     rbind (parcBuffer_GetUint8 h p) (\<lambda>(byte, h1).
     rbind (parcVarint_OrUint8 r1 byte) (\<lambda>r2. decodeBuffer_loop n r2 h1 p)))"

definition parcVarint_DecodeBuffer ::
  "memory \<Rightarrow> ptr \<Rightarrow> size_t \<Rightarrow> (parc_varint option \<times> memory) result" where
  "parcVarint_DecodeBuffer h p n =
     rbind (assertTrue (p \<noteq> None)) (\<lambda>_.
     rbind (assertTrue (n < 8)) (\<lambda>_.
     rbind (parcBuffer_Remaining h p) (\<lambda>remaining.
     rbind (assertTrue (n \<le> remaining)) (\<lambda>_.
     let (result, h1) = parcVarint_Create h
     in rbind (assertTrue (result \<noteq> None)) (\<lambda>_. decodeBuffer_loop (unat n) result h1 p)))))"

fun elastic_loop :: "nat \<Rightarrow> size_t \<Rightarrow> parc_varint option \<Rightarrow> memory \<Rightarrow> ptr \<Rightarrow> parc_varint option result" where
  "elastic_loop 0 i result h p = Inr result"
| "elastic_loop (Suc n) i result h p =
     rbind (parcVarint_ShiftLeft result 8) (\<lambda>r1.
     rbind (parcBuffer_GetAtIndex h p i) (\<lambda>byte.
     rbind (parcVarint_OrUint8 r1 byte) (\<lambda>r2. elastic_loop n (i + 1) r2 h p)))"

definition parcVarint_DecodeElasticByteBuffer ::
  "memory \<Rightarrow> ptr \<Rightarrow> size_t \<Rightarrow> (parc_varint option \<times> memory) result" where
  "parcVarint_DecodeElasticByteBuffer h p n =
     rbind (assertTrue (p \<noteq> None)) (\<lambda>_.
     rbind (assertTrue (n < 8)) (\<lambda>_.
     let (result, h1) = parcVarint_Create h
     in rbind (assertTrue (result \<noteq> None)) (\<lambda>_.
        rbind (elastic_loop (unat n) 0 result h1 p) (\<lambda>r. Inr (r, h1)))))"

definition parcVarint_FromElasticByteBuffer ::
  "memory \<Rightarrow> ptr \<Rightarrow> (parc_varint option \<times> memory) result" where
  "parcVarint_FromElasticByteBuffer h p =
     rbind (assertTrue (p \<noteq> None)) (\<lambda>_.
     let (result, h1) = parcVarint_Create h
     in rbind (parcBuffer_Remaining h1 p) (\<lambda>n.
        rbind (elastic_loop (unat n) 0 result h1 p) (\<lambda>r. Inr (r, h1))))"

fun utf8_loop :: "nat \<Rightarrow> size_t \<Rightarrow> parc_varint option \<Rightarrow> memory \<Rightarrow> ptr \<Rightarrow> parc_varint option result" where
  "utf8_loop 0 i result h p = Inr result"
| "utf8_loop (Suc n) i result h p =
     rbind (parcVarint_Multiply result 10) (\<lambda>r1.
     rbind (parcBuffer_GetAtIndex h p i) (\<lambda>byte.
     rbind (parcVarint_Add r1 (ucast byte - 48)) (\<lambda>r2. utf8_loop n (i + 1) r2 h p)))"

definition parcVarint_FromUTF8ByteBuffer ::
  "memory \<Rightarrow> ptr \<Rightarrow> (parc_varint option \<times> memory) result" where
  "parcVarint_FromUTF8ByteBuffer h p =
     rbind (assertTrue (p \<noteq> None)) (\<lambda>_.
     let (result, h1) = parcVarint_Create h
     in if result \<noteq> None then
          rbind (parcBuffer_Remaining h1 p) (\<lambda>n.
          rbind (utf8_loop (unat n) 0 result h1 p) (\<lambda>r. Inr (r, h1)))
        else Inr (result, h1))"

definition parcVarint_FromUTF8Buffer ::
  "memory \<Rightarrow> ptr \<Rightarrow> (parc_varint option \<times> memory) result" where
  "parcVarint_FromUTF8Buffer h p =
     rbind (assertTrue (p \<noteq> None)) (\<lambda>_.
     let (result, h1) = parcVarint_Create h
     in if result \<noteq> None then
          rbind (parcBuffer_Limit h1 p) (\<lambda>n.
          rbind (utf8_loop (unat n) 0 result h1 p) (\<lambda>r. Inr (r, h1)))
        else Inr (result, h1))"

section \<open>Numbers from bytes\<close>

lemma shift_defined_8 [simp]: "shift_defined 8" "nat (sint (8 :: c_int)) = 8"
  by (simp_all add: shift_defined_def)

lemma decodeBuffer_loop_be:
  "decodeBuffer_loop n (Some \<lparr>varint_value = r\<rparr>) h (Some a) =
     rbind (get_be (buffer_get a) n r h) (\<lambda>(v, h'). Inr (Some \<lparr>varint_value = v\<rparr>, h'))"
proof (induction n arbitrary: r h)
  case (Suc n)
  then show ?case
    by (auto simp: buffer_get_def parcVarint_ShiftLeft_def parcVarint_OrUint8_def rbind_assoc
        intro!: rbind_cong)
qed simp

lemma fields_allocCount [simp]:
  "byteArray (h\<lparr>allocCount := k\<rparr>) p = byteArray h p" "bufferOf (h\<lparr>allocCount := k\<rparr>) p = bufferOf h p"
  by (cases p; simp add: byteArray_def bufferOf_def parcObject_Header_def)+

lemma buffer_allocCount [simp]:
  "buffer_parts (h\<lparr>allocCount := k\<rparr>) a = buffer_parts h a"
  "buffer_ok a (h\<lparr>allocCount := k\<rparr>) = buffer_ok a h"
  "buffer_out a (h\<lparr>allocCount := k\<rparr>) = buffer_out a h"
  "buffer_rest a (h\<lparr>allocCount := k\<rparr>) = buffer_rest a h"
proof -
  show p: "buffer_parts (h\<lparr>allocCount := k\<rparr>) a = buffer_parts h a"
    by (simp add: buffer_parts_def split: sum.split)
  show "buffer_ok a (h\<lparr>allocCount := k\<rparr>) = buffer_ok a h"
    "buffer_out a (h\<lparr>allocCount := k\<rparr>) = buffer_out a h"
    "buffer_rest a (h\<lparr>allocCount := k\<rparr>) = buffer_rest a h"
    by (simp_all add: buffer_ok_def buffer_out_def buffer_rest_def p split: option.split)
qed

lemma parcVarint_Create_ok:
  "\<not> allocFails h (allocCount h) \<Longrightarrow>
     parcVarint_Create h = (Some \<lparr>varint_value = 0\<rparr>, h\<lparr>allocCount := Suc (allocCount h)\<rparr>)"
  by (simp add: parcVarint_Create_def parcMemory_AllocateRaw_def)

text \<open>
  \<open>parcVarint_DecodeBuffer\<close> of at most 7 bytes that remain in the buffer returns exactly the big endian
  number they encode, without wrap-around, and moves the position behind them; a longer length, 8
  included, and a length beyond the data stop in an assertion.
\<close>

theorem parcVarint_DecodeBuffer_value:
  assumes "buffer_at h a b x" "limit b \<noteq> SIZE_MAX" "\<not> allocFails h (allocCount h)"
  defines "rest \<equiv> buffer_rest a h"
  shows "(n < 8 \<and> unat n \<le> length rest \<longrightarrow>
      (\<exists>v h'. parcVarint_DecodeBuffer h (Some a) n = Inr (Some \<lparr>varint_value = v\<rparr>, h') \<and>
        unat v = be_value (take (unat n) rest) \<and>
        buffer_out a h' = buffer_out a h @ take (unat n) rest \<and> buffer_rest a h' = drop (unat n) rest)) \<and>
    (\<not> (n < 8 \<and> unat n \<le> length rest) \<longrightarrow> parcVarint_DecodeBuffer h (Some a) n = Inl AssertFailed)"
proof -
  let ?h1 = "h\<lparr>allocCount := Suc (allocCount h)\<rparr>" and ?bs = "take (unat n) rest"
  have ok: "buffer_ok a h" using buffer_tape(1) [OF assms(1,2)] .
  obtain m where m: "parcBuffer_Remaining h (Some a) = Inr m" "unat m = length rest"
    using buffer_remaining [OF ok] unfolding rest_def by blast
  note simps = parcVarint_DecodeBuffer_def m(1) parcVarint_Create_ok [OF assms(3)] decodeBuffer_loop_be
  show ?thesis
  proof (cases "n < 8 \<and> unat n \<le> length rest")
    case True
    then have le: "n \<le> m" "unat n \<le> length (buffer_rest a ?h1)" "unat n \<le> 7"
      using m(2) by (simp_all add: rest_def word_le_nat_alt word_less_nat_alt)
    obtain h' where h': "get_be (buffer_get a) (unat n) (0 :: u64) ?h1 =
        Inr (word_of_nat (be_value ?bs), h')"
        "buffer_out a h' = buffer_out a h @ ?bs" "buffer_rest a h' = drop (unat n) rest"
      using buf.get_be_tape [of a ?h1 "unat n" "0 :: u64"] ok le(2) unfolding rest_def by auto
    have "be_value ?bs < 256 ^ 8"
    proof -
      have "be_value ?bs < 256 ^ length ?bs" by (rule be_value_less)
      also have "\<dots> \<le> 256 ^ 8" using le(3) by (intro power_increasing) simp_all
      finally show ?thesis .
    qed
    then have "unat (word_of_nat (be_value ?bs) :: u64) = be_value ?bs"
      by (intro unat_word_of_nat) simp
    then show ?thesis using True h' le(1) by (simp add: simps)
  next
    case False
    then show ?thesis using m(2) by (auto simp: simps word_le_nat_alt rbind_eq_Inl)
  qed
qed

theorem parcVarint_DecodeBuffer_value_witness:
  "\<exists>h'. parcVarint_DecodeBuffer (buffer_memory [1, 2, 3]) (Some 200) 2 = Inr (Some \<lparr>varint_value = 258\<rparr>, h') \<and>
     buffer_rest 200 h' = [3]"
proof -
  have len: "length [1, 2, 3 :: u8] < 2 ^ 64" by simp
  note at = buffer_memory_at [OF len]
  obtain v h' where v: "parcVarint_DecodeBuffer (buffer_memory [1, 2, 3]) (Some 200) 2 =
        Inr (Some \<lparr>varint_value = v\<rparr>, h')" "unat v = 258" "buffer_rest 200 h' = [3]"
    using parcVarint_DecodeBuffer_value [OF at(1) _ at(5), of 2] by (auto simp: at(2) fresh_buffer_def)
  have "unat v = unat (258 :: u64)" using v(2) by simp
  then have "v = 258" by (simp only: word_unat_eq_iff)
  with v show ?thesis by blast
qed

text \<open>
  The elastic decoders read with absolute indices from 0 on, so their number starts with the first byte of the
  buffer wherever its position is.
\<close>

lemma elastic_loop_value:
  assumes "buffer_at h a b x"
  shows "unat i + n \<le> unat (limit b) \<Longrightarrow>
    elastic_loop n i (Some \<lparr>varint_value = r\<rparr>) h (Some a) =
      Inr (Some \<lparr>varint_value = r * 256 ^ n + word_of_nat (be_value (take n (drop (unat i) (window b x))))\<rparr>)"
proof (induction n arbitrary: i r)
  case (Suc n)
  have i: "i < limit b" using Suc.prems by (simp add: word_less_nat_alt)
  then have u: "unat (i + 1) = Suc (unat i)" by (rule unat_Suc_less)
  have d: "drop (unat i) (window b x) = window b x ! unat i # drop (Suc (unat i)) (window b x)"
    "n \<le> length (drop (Suc (unat i)) (window b x))"
    using i Suc.prems buffer_nats(6) [OF assms] by (simp_all add: Cons_nth_drop_Suc word_less_nat_alt)
  let ?c = "window b x ! unat i" and ?ws = "take n (drop (Suc (unat i)) (window b x))"
  have "(push_bit 8 r OR ucast ?c) * 256 ^ n + word_of_nat (be_value ?ws) =
      r * 256 ^ Suc n + word_of_nat (be_value (?c # ?ws))"
    using d(2) by (simp add: shift_in_byte min_absorb2 algebra_simps)
  moreover have "elastic_loop n (i + 1) (Some \<lparr>varint_value = push_bit 8 r OR ucast ?c\<rparr>) h (Some a) =
      Inr (Some \<lparr>varint_value = (push_bit 8 r OR ucast ?c) * 256 ^ n + word_of_nat (be_value ?ws)\<rparr>)"
    using Suc.IH [of "i + 1"] Suc.prems u by simp
  ultimately show ?case
    using parcBuffer_GetAtIndex_ok [OF assms i] unfolding d(1)
    by (simp add: parcVarint_ShiftLeft_def parcVarint_OrUint8_def del: be_value_simps)
qed simp

text \<open>
  On a valid buffer, \<open>parcVarint_FromElasticByteBuffer\<close> always returns, with the big endian value modulo
  2^64 of the first bytes of the buffer, as many as remain after the position;
  \<open>parcVarint_DecodeElasticByteBuffer\<close> does the same for a given number of at most 7 bytes. When the
  position is 0 this is the value of the remaining data.
\<close>

theorem parcVarint_Elastic_value:
  assumes "buffer_at h a b x" "\<not> allocFails h (allocCount h)"
  defines "h1 \<equiv> h\<lparr>allocCount := Suc (allocCount h)\<rparr>"
  shows "parcVarint_FromElasticByteBuffer h (Some a) =
      Inr (Some \<lparr>varint_value = word_of_nat (be_value (take (unat (limit b - position b)) (window b x)))\<rparr>, h1) \<and>
    (n < 8 \<and> n \<le> limit b \<longrightarrow> parcVarint_DecodeElasticByteBuffer h (Some a) n =
      Inr (Some \<lparr>varint_value = word_of_nat (be_value (take (unat n) (window b x)))\<rparr>, h1)) \<and>
    (position b = 0 \<longrightarrow> take (unat (limit b - position b)) (window b x) = buffer_rest a h)"
proof -
  have at: "buffer_at h1 a b x" using assms(1) by (simp add: h1_def)
  have r: "parcBuffer_Remaining h1 (Some a) = Inr (limit b - position b)" using at by simp
  have le: "unat (limit b - position b) \<le> unat (limit b)" using buffer_nats(2) [OF at] by simp
  have "parcVarint_FromElasticByteBuffer h (Some a) =
      Inr (Some \<lparr>varint_value = word_of_nat (be_value (take (unat (limit b - position b)) (window b x)))\<rparr>, h1)"
    using r elastic_loop_value [OF at, of 0 "unat (limit b - position b)" 0] le assms(2)
    by (simp add: parcVarint_FromElasticByteBuffer_def parcVarint_Create_ok h1_def)
  moreover have "parcVarint_DecodeElasticByteBuffer h (Some a) n =
      Inr (Some \<lparr>varint_value = word_of_nat (be_value (take (unat n) (window b x)))\<rparr>, h1)"
    if "n < 8" "n \<le> limit b"
    using that elastic_loop_value [OF at, of 0 "unat n" 0] assms(2)
    by (simp add: parcVarint_DecodeElasticByteBuffer_def parcVarint_Create_ok h1_def word_le_nat_alt)
  ultimately show ?thesis
    using buffer_nats(6) [OF assms(1)] by (simp add: buffer_tape [OF assms(1)])
qed

theorem parcVarint_Elastic_value_witness:
  "\<exists>h'. parcVarint_DecodeElasticByteBuffer (buffer_memory [1, 2, 3]) (Some 200) 2 =
     Inr (Some \<lparr>varint_value = 258\<rparr>, h')"
proof -
  have len: "length [1, 2, 3 :: u8] < 2 ^ 64" by simp
  note at = buffer_memory_at [OF len]
  show ?thesis
    using parcVarint_Elastic_value [OF at(1,5), of 2]
    by (simp add: fresh_buffer_def window_def bytes_at_def bytes_array_def ba_bytes_def)
qed

section \<open>Numbers from text\<close>

lemma scast_digit:
  fixes c :: u8
  assumes "48 \<le> c" "c \<le> 57"
  shows "(scast (ucast c - 48 :: c_int) :: u64) = word_of_nat (unat c - 48)"
proof -
  obtain k where k: "unat c = 48 + k" "k < 10"
    using assms by (intro that [of "unat c - 48"]) (simp_all add: word_le_nat_alt)
  have "(ucast c :: c_int) = word_of_nat (48 + k)" by (metis k(1) of_nat_unat)
  then have "(ucast c - 48 :: c_int) = word_of_nat k" by simp
  moreover have "sint (word_of_nat k :: c_int) = int k"
    using k(2) by (simp add: signed_of_nat signed_take_bit_int_eq_self)
  ultimately have "sint (ucast c - 48 :: c_int) = int k" by simp
  then have "(word_of_int (sint (ucast c - 48 :: c_int)) :: u64) = word_of_int (int k)" by simp
  then show ?thesis by (simp add: k(1))
qed

lemma utf8_loop_value:
  assumes "buffer_at h a b x"
  shows "unat i + n \<le> unat (limit b) \<Longrightarrow>
    \<forall>c \<in> set (take n (drop (unat i) (window b x))). 48 \<le> c \<and> c \<le> 57 \<Longrightarrow>
    utf8_loop n i (Some \<lparr>varint_value = word_of_nat r\<rparr>) h (Some a) =
      Inr (Some \<lparr>varint_value = word_of_nat
        (foldl (\<lambda>m c. m * 10 + (unat c - 48)) r (take n (drop (unat i) (window b x))))\<rparr>)"
proof (induction n arbitrary: i r)
  case (Suc n)
  have i: "i < limit b" using Suc.prems by (simp add: word_less_nat_alt)
  then have u: "unat (i + 1) = Suc (unat i)" by (rule unat_Suc_less)
  have d: "drop (unat i) (window b x) = window b x ! unat i # drop (Suc (unat i)) (window b x)"
    using i buffer_nats(6) [OF assms] by (simp add: Cons_nth_drop_Suc word_less_nat_alt)
  let ?c = "window b x ! unat i"
  have c: "(scast (ucast ?c - 48 :: c_int) :: u64) = word_of_nat (unat ?c - 48)"
    using Suc.prems(2) unfolding d by (intro scast_digit) simp_all
  have ten: "(scast (10 :: c_int) :: u64) = 10" by simp
  have v: "word_of_nat r * 10 + word_of_nat (unat ?c - 48) = (word_of_nat (r * 10 + (unat ?c - 48)) :: u64)"
    by simp
  show ?case
    using Suc.IH [of "i + 1" "r * 10 + (unat ?c - 48)"] Suc.prems u parcBuffer_GetAtIndex_ok [OF assms i]
    unfolding d by (simp add: parcVarint_Multiply_def parcVarint_Add_def c v ten del: of_nat_add of_nat_mult)
qed simp

text \<open>
  C33: the decimal text \<open>parcVarint_ToString\<close> writes is read back to the same number by
  \<open>parcVarint_FromUTF8ByteBuffer\<close> and by \<open>parcVarint_FromUTF8Buffer\<close> from a buffer that holds it, for all
  64 bit values.
\<close>

theorem parcVarint_text_roundtrip:
  assumes "\<not> allocFails m (allocCount m)"
    and "parcVarint_ToString m (Some \<lparr>varint_value = v\<rparr>) = Inr (text, m')"
    and "buffer_at h a b x" "position b = 0" "buffer_rest a h = text" "\<not> allocFails h (allocCount h)"
  shows "\<exists>h1. parcVarint_FromUTF8ByteBuffer h (Some a) = Inr (Some \<lparr>varint_value = v\<rparr>, h1) \<and>
    parcVarint_FromUTF8Buffer h (Some a) = Inr (Some \<lparr>varint_value = v\<rparr>, h1)"
proof -
  let ?h1 = "h\<lparr>allocCount := Suc (allocCount h)\<rparr>" and ?n = "unat (limit b)"
  have at: "buffer_at ?h1 a b x" using assms(3) by simp
  have t: "text = decimal (unat v)"
    using assms(1,2) by (simp add: parcVarint_ToString_def parcMemory_AllocateRaw_def)
  have w: "take ?n (drop (unat 0) (window b x)) = decimal (unat v)"
    using assms(4,5) buffer_tape(3) [OF assms(3)] buffer_nats(6) [OF assms(3)] t by simp
  have "\<forall>c \<in> set (take ?n (drop (unat 0) (window b x))). 48 \<le> c \<and> c \<le> 57"
    unfolding w using decimal_digits by blast
  from utf8_loop_value [OF at _ this, of 0]
  have "utf8_loop ?n 0 (Some \<lparr>varint_value = 0\<rparr>) ?h1 (Some a) = Inr (Some \<lparr>varint_value = v\<rparr>)"
    unfolding w decimal_value_def [symmetric] by simp
  then show ?thesis
    using at assms(4,6)
    by (simp add: parcVarint_FromUTF8ByteBuffer_def parcVarint_FromUTF8Buffer_def parcVarint_Create_ok)
qed

theorem parcVarint_text_roundtrip_witness:
  "\<exists>m' h1. parcVarint_ToString empty_heap (Some \<lparr>varint_value = 407\<rparr>) = Inr ([52, 48, 55], m') \<and>
     parcVarint_FromUTF8ByteBuffer (buffer_memory [52, 48, 55]) (Some 200) =
       Inr (Some \<lparr>varint_value = 407\<rparr>, h1)"
proof -
  have len: "length [52, 48, 55 :: u8] < 2 ^ 64" by simp
  note at = buffer_memory_at [OF len]
  have "decimal 407 = [52, 48, 55]" by code_simp
  then obtain m' where m: "parcVarint_ToString empty_heap (Some \<lparr>varint_value = 407\<rparr>) = Inr ([52, 48, 55], m')"
    by (simp add: parcVarint_ToString_def parcMemory_AllocateRaw_def empty_heap_def)
  have "\<not> allocFails (empty_heap :: memory) (allocCount (empty_heap :: memory))" by simp
  from parcVarint_text_roundtrip [OF this m at(1) _ at(2,5)] m
  show ?thesis by (auto simp: fresh_buffer_def)
qed

end
