(* ===== verification/Parc_BitVector.thy ===== *)
theory Parc_BitVector
  imports Parc_BufferComposer
begin

text \<open>
  \<^verbatim>\<open>parc/algol/parc_BitVector.c\<close>: growing vectors of up to 8192 bits that cache their number of set bits and
  their first set bit. An \<open>unsigned\<close> index is a 32 bit word and -1 the index that does not exist; the
  \<open>int\<close> variables of the loops are the same words, compared with their sign where the source does so.
\<close>

section \<open>Objects\<close>

definition bitVectorOf :: "memory \<Rightarrow> ptr \<Rightarrow> parc_bit_vector result" where
  "bitVectorOf h p =
     rbind (parcObject_Header h p) (\<lambda>header.
     case payload header of BitVectorContent v \<Rightarrow> Inr v | _ \<Rightarrow> Inl BadPointer)"

definition setBitVector :: "memory \<Rightarrow> ptr \<Rightarrow> parc_bit_vector \<Rightarrow> memory" where
  "setBitVector h p v = setContent h p (BitVectorContent v)"

definition parcBitVector_destroy :: "memory \<Rightarrow> addr \<Rightarrow> (ptr \<times> memory) result" where
  "parcBitVector_destroy h a =
     rbind (bitVectorOf h (Some a)) (\<lambda>v.
     Inr (Some a, setBitVector h (Some a) (v\<lparr>bitArray := []\<rparr>)))"

definition PARCBitVector_base :: "memory descriptor" where
  "PARCBitVector_base =
     \<lparr>desc_name = ''PARCBitVector'', desc_destroy = Some parcBitVector_destroy,
      desc_destructor = None, desc_copy = None, desc_toString = None,
      desc_equals = None, desc_compare = None, desc_hashCode = None, desc_super = None,
      desc_isLockable = True, desc_objectSize = 32, desc_objectAlignment = 8\<rparr>"

definition bitVector_types :: "content types" where
  "bitVector_types = [PARCBitVector_class \<mapsto> PARCBitVector_base]"

definition parcBitVector_Acquire :: "memory \<Rightarrow> ptr \<Rightarrow> (ptr \<times> memory) result" where
  "parcBitVector_Acquire h p = parcObject_Acquire bitVector_types h p"

definition parcBitVector_Release :: "memory \<Rightarrow> ptr \<Rightarrow> (u64 \<times> memory) result" where
  "parcBitVector_Release h p = parcObject_Release bitVector_types h p"

definition parcBitVector_Create :: "memory \<Rightarrow> (ptr \<times> memory) result" where
  "parcBitVector_Create h =
     rbind (parcObject_CreateInstanceImpl bitVector_types h garbage PARCBitVector_class) (\<lambda>(result, h1).
     rbind (assertTrue (result \<noteq> None)) (\<lambda>_.
     let (ok, h2) = parcMemory_AllocateRaw h1
     in rbind (assertTrue ok) (\<lambda>_.
        Inr (result, setBitVector h2 result
          \<lparr>bitLength = 8, numberOfBitsSet = 0, firstBitSet = -1, bitArray = [0], fillValue = 0\<rparr>))))"

definition parcBitVector_Copy :: "memory \<Rightarrow> ptr \<Rightarrow> (ptr \<times> memory) result" where
  "parcBitVector_Copy h source =
     rbind (parcObject_CreateInstanceImpl bitVector_types h garbage PARCBitVector_class) (\<lambda>(result, h1).
     rbind (assertTrue (result \<noteq> None)) (\<lambda>_.
     rbind (bitVectorOf h1 source) (\<lambda>v.
     let (ok, h2) = parcMemory_AllocateRaw h1; byteLength = unat (bitLength v div 8)
     in if \<not> ok then Inl BadPointer
        else if byteLength > length (bitArray v) then Inl Undefined
        else Inr (result, setBitVector h2 result
          \<lparr>bitLength = bitLength v, numberOfBitsSet = numberOfBitsSet v, firstBitSet = firstBitSet v,
           bitArray = take byteLength (bitArray v), fillValue = fillValue v\<rparr>))))"

section \<open>Bits\<close>

text \<open>The read \<open>bitArray[i]\<close> and the mask \<open>1 << bitInByte\<close>.\<close>

definition bv_byte :: "parc_bit_vector \<Rightarrow> nat \<Rightarrow> u8 result" where
  "bv_byte v i = (if i < length (bitArray v) then Inr (bitArray v ! i) else Inl Undefined)"

definition bit_mask :: "nat \<Rightarrow> u8" where
  "bit_mask n = push_bit n 1"

definition parcBitVector_Equals :: "memory \<Rightarrow> ptr \<Rightarrow> ptr \<Rightarrow> bool result" where
  "parcBitVector_Equals h p q =
     rbind (bitVectorOf h p) (\<lambda>a.
     rbind (bitVectorOf h q) (\<lambda>b.
     if numberOfBitsSet a = numberOfBitsSet b \<and> firstBitSet a = firstBitSet b then
       let byteLength = (if bitLength a \<noteq> bitLength b \<and> bitLength b < bitLength a
                         then unat (bitLength b div 8) else unat (bitLength a div 8))
       in if byteLength \<le> length (bitArray a) \<and> byteLength \<le> length (bitArray b)
          then Inr (memcmp (take byteLength (bitArray a)) (take byteLength (bitArray b)) = 0)
          else Inl Undefined
     else Inr False))"

definition bit_vector_resize :: "memory \<Rightarrow> ptr \<Rightarrow> u32 \<Rightarrow> memory result" where
  "bit_vector_resize h p n =
     rbind (assertTrue (p \<noteq> None)) (\<lambda>_.
     rbind (assertTrue (n < 8192)) (\<lambda>_.
     rbind (bitVectorOf h p) (\<lambda>v.
     let neededBits = n + 1
     in if neededBits > bitLength v then
          let newSize = unat (neededBits div 8) + (if neededBits mod 8 \<noteq> 0 then 1 else 0);
              oldSize = unat (bitLength v div 8) + (if bitLength v mod 8 \<noteq> 0 then 1 else 0);
              (ok, h1) = parcMemory_AllocateRaw h
          in rbind (assertTrue ok) (\<lambda>_.
             Inr (setBitVector h1 p
               (v\<lparr>bitArray := take oldSize (bitArray v) @ replicate (newSize - oldSize) (ucast (fillValue v)),
                  bitLength := word_of_nat (newSize * 8)\<rparr>)))
        else Inr h)))"

definition parcBitVector_Get :: "memory \<Rightarrow> ptr \<Rightarrow> u32 \<Rightarrow> int result" where
  "parcBitVector_Get h p n =
     rbind (assertTrue (n < 8192)) (\<lambda>_.
     if p = None then Inr (-1)
     else
       rbind (bitVectorOf h p) (\<lambda>v.
       if n \<ge> bitLength v then Inr (-1)
       else rbind (bv_byte v (unat (n div 8))) (\<lambda>x.
            Inr (if x AND bit_mask (unat (n mod 8)) \<noteq> 0 then 1 else 0))))"

definition parcBitVector_Set :: "memory \<Rightarrow> ptr \<Rightarrow> u32 \<Rightarrow> memory result" where
  "parcBitVector_Set h p n =
     rbind (assertTrue (p \<noteq> None)) (\<lambda>_.
     rbind (assertTrue (n < 8192)) (\<lambda>_.
     rbind (bitVectorOf h p) (\<lambda>v.
     rbind (if n \<ge> bitLength v then bit_vector_resize h p n else Inr h) (\<lambda>h1.
     rbind (bitVectorOf h1 p) (\<lambda>v1.
     let byte = unat (n div 8); mask = bit_mask (unat (n mod 8))
     in rbind (bv_byte v1 byte) (\<lambda>x.
        let v2 = (if x AND mask = 0
                  then v1\<lparr>bitArray := (bitArray v1)[byte := x OR mask],
                          numberOfBitsSet := numberOfBitsSet v1 + 1\<rparr>
                  else v1);
            v3 = (if firstBitSet v2 = -1 \<or> n < firstBitSet v2 then v2\<lparr>firstBitSet := n\<rparr> else v2)
        in Inr (setBitVector h1 p v3)))))))"

definition parcBitVector_NumberOfBitsSet :: "memory \<Rightarrow> ptr \<Rightarrow> u32 result" where
  "parcBitVector_NumberOfBitsSet h p = rbind (bitVectorOf h p) (\<lambda>v. Inr (numberOfBitsSet v))"

text \<open>The inner and the outer loop of \<open>parcBitVector_NextBitSet\<close>.\<close>

function findBit_loop :: "u8 \<Rightarrow> nat \<Rightarrow> nat option" where
  "findBit_loop x bitInByte =
     (if bitInByte < 8 then
        if x AND bit_mask bitInByte \<noteq> 0 then Some bitInByte else findBit_loop x (Suc bitInByte)
      else None)"
  by pat_completeness auto
termination by (relation "measure (\<lambda>(x, b). 8 - b)") auto

declare findBit_loop.simps [simp del]

function nextBitSet_loop :: "parc_bit_vector \<Rightarrow> nat \<Rightarrow> nat \<Rightarrow> u32 result" where
  "nextBitSet_loop v byte bitInByte =
     (if byte < unat (bitLength v div 8) then
        rbind (bv_byte v byte) (\<lambda>x.
        case (if x \<noteq> 0 then findBit_loop x bitInByte else None) of
          Some b \<Rightarrow> Inr (word_of_nat (byte * 8 + b))
        | None \<Rightarrow> nextBitSet_loop v (Suc byte) 0)
      else Inr (-1))"
  by pat_completeness auto
termination by (relation "measure (\<lambda>(v, byte, b). unat (bitLength v div 8) - byte)") auto

declare nextBitSet_loop.simps [simp del]

definition parcBitVector_NextBitSet :: "memory \<Rightarrow> ptr \<Rightarrow> u32 \<Rightarrow> u32 result" where
  "parcBitVector_NextBitSet h p startFrom =
     rbind (bitVectorOf h p) (\<lambda>v.
     if startFrom \<ge> bitLength v then Inr (-1)
     else if startFrom \<le> firstBitSet v then Inr (firstBitSet v)
     else nextBitSet_loop v (unat (startFrom div 8)) (unat (startFrom mod 8)))"

definition parcBitVector_Reset :: "memory \<Rightarrow> ptr \<Rightarrow> memory result" where
  "parcBitVector_Reset h p =
     rbind (bitVectorOf h p) (\<lambda>v.
     let k = unat (bitLength v div 8)
     in if k \<le> length (bitArray v)
        then Inr (setBitVector h p
          (v\<lparr>numberOfBitsSet := 0, firstBitSet := -1, fillValue := 0,
             bitArray := replicate k 0 @ drop k (bitArray v)\<rparr>))
        else Inl Undefined)"

definition parcBitVector_Clear :: "memory \<Rightarrow> ptr \<Rightarrow> u32 \<Rightarrow> memory result" where
  "parcBitVector_Clear h p n =
     rbind (assertTrue (p \<noteq> None)) (\<lambda>_.
     rbind (assertTrue (n < 8192)) (\<lambda>_.
     rbind (bitVectorOf h p) (\<lambda>v.
     rbind (if n > bitLength v then bit_vector_resize h p n else Inr h) (\<lambda>h1.
     rbind (bitVectorOf h1 p) (\<lambda>v1.
     let byte = unat (n div 8); mask = bit_mask (unat (n mod 8))
     in rbind (bv_byte v1 byte) (\<lambda>x.
        let v2 = (if x AND mask \<noteq> 0
                  then v1\<lparr>bitArray := (bitArray v1)[byte := x AND NOT mask],
                          numberOfBitsSet := numberOfBitsSet v1 - 1\<rparr>
                  else v1);
            h2 = setBitVector h1 p v2
        in if n = firstBitSet v2
           then rbind (parcBitVector_NextBitSet h2 p (n + 1)) (\<lambda>f.
                Inr (setBitVector h2 p (v2\<lparr>firstBitSet := f\<rparr>)))
           else Inr h2))))))"

section \<open>Vectors\<close>

text \<open>The search never goes backwards; the loops below end for this reason.\<close>

lemma findBit_loop_ge: "findBit_loop x b = Some r \<Longrightarrow> b \<le> r \<and> r < 8"
proof (induction x b rule: findBit_loop.induct)
  case (1 x b)
  from "1.prems" show ?case
    by (subst (asm) findBit_loop.simps) (auto split: if_splits dest!: "1.IH")
qed

lemma nextBitSet_loop_ge:
  "nextBitSet_loop v byte b = Inr r \<Longrightarrow> b < 8 \<Longrightarrow> r = -1 \<or> byte * 8 + b \<le> unat r"
proof (induction v byte b rule: nextBitSet_loop.induct)
  case (1 v byte b)
  show ?case
  proof (cases "byte < unat (bitLength v div 8)")
    case True
    have "unat (bitLength v div 8) < 2 ^ 29"
      using unat_bound [of "bitLength v"] by (simp add: unat_div less_mult_imp_div_less)
    then have u: "unat (word_of_nat (byte * 8 + k) :: u32) = byte * 8 + k" if "k < 8" for k
      using True that by (intro unat_word_of_nat) simp
    obtain x where x: "bv_byte v byte = Inr x" using "1.prems"(1) True by (subst (asm) nextBitSet_loop.simps) auto
    show ?thesis
    proof (cases "if x \<noteq> 0 then findBit_loop x b else None")
      case None
      then have "nextBitSet_loop v (Suc byte) 0 = Inr r"
        using "1.prems"(1) True x by (subst (asm) nextBitSet_loop.simps) (auto split: if_splits)
      then show ?thesis using "1.IH" [OF True x None] "1.prems"(2) by auto
    next
      case (Some k)
      then show ?thesis
        using "1.prems"(1) True x u [of k] findBit_loop_ge [of x b k]
        by (subst (asm) nextBitSet_loop.simps) (auto split: if_splits)
    qed
  next
    case False
    then show ?thesis using "1.prems"(1) by (subst (asm) nextBitSet_loop.simps) simp
  qed
qed

lemma parcBitVector_NextBitSet_ge:
  assumes "parcBitVector_NextBitSet h p n = Inr r"
  shows "r = -1 \<or> n \<le> r"
proof -
  obtain v where v: "bitVectorOf h p = Inr v" using assms by (auto simp: parcBitVector_NextBitSet_def)
  consider "r = -1" | "n \<le> r" | "nextBitSet_loop v (unat (n div 8)) (unat (n mod 8)) = Inr r"
    using assms v by (auto simp: parcBitVector_NextBitSet_def split: if_splits)
  then show ?thesis
  proof cases
    case 3
    have "unat (n div 8) * 8 + unat (n mod 8) = unat n" "unat (n mod 8) < 8"
      by (simp_all add: unat_div unat_mod)
    with nextBitSet_loop_ge [OF 3] show ?thesis by (simp add: word_le_nat_alt)
  qed simp_all
qed

text \<open>The next round of a loop starts behind the bit that was found.\<close>

lemma next_round:
  assumes "parcBitVector_NextBitSet h p n = Inr b" "b \<noteq> -1"
  shows "unat n < unat (b + 1)" "unat b < unat (b + 1)"
  using parcBitVector_NextBitSet_ge [OF assms(1)] assms(2) by (simp_all add: unat_plus_one word_le_nat_alt)

lemma counter_decreases: "i < n \<Longrightarrow> 2 ^ 32 - unat (i + 1) < 2 ^ 32 - unat i" for i n :: u32
proof -
  assume "i < n"
  then have "i \<noteq> -1" by (metis word_n1_ge leD)
  then show ?thesis
    using unat_bound [of i] by (simp add: unat_plus_one diff_less_mono2)
qed

lemma round_decreases:
  "parcBitVector_NextBitSet h p n = Inr b \<Longrightarrow> 0 \<le> sint b \<Longrightarrow> 2 ^ 32 - unat (b + 1) < 2 ^ 32 - unat n"
proof -
  assume a: "parcBitVector_NextBitSet h p n = Inr b" "0 \<le> sint b"
  then have "b \<noteq> -1" by auto
  with a(1) have "unat n < unat (b + 1)" by (rule next_round)
  then show ?thesis using unat_bound [of "b + 1"] by (simp add: diff_less_mono2)
qed

function setVector_loop :: "memory \<Rightarrow> ptr \<Rightarrow> ptr \<Rightarrow> u32 \<Rightarrow> u32 \<Rightarrow> memory result" where
  "setVector_loop h p q i settingBit =
     rbind (bitVectorOf h q) (\<lambda>w.
     if i < numberOfBitsSet w then
       rbind (parcBitVector_NextBitSet h q settingBit) (\<lambda>b.
       rbind (assertTrue (b \<noteq> -1)) (\<lambda>_.
       rbind (parcBitVector_Set h p b) (\<lambda>h1.
       setVector_loop h1 p q (i + 1) (b + 1))))
     else Inr h)"
  by pat_completeness auto
termination
  by (relation "measure (\<lambda>(h, p, q, i, s). 2 ^ 32 - unat i)")
    (simp, simp only: in_measure prod.case counter_decreases)

declare setVector_loop.simps [simp del]

text \<open>The second assertion of the source checks the first parameter again.\<close>

definition parcBitVector_SetVector :: "memory \<Rightarrow> ptr \<Rightarrow> ptr \<Rightarrow> memory result" where
  "parcBitVector_SetVector h p bitsToSet =
     rbind (assertTrue (p \<noteq> None)) (\<lambda>_.
     rbind (assertTrue (p \<noteq> None)) (\<lambda>_. setVector_loop h p bitsToSet 0 0))"

function clearVector_loop :: "memory \<Rightarrow> ptr \<Rightarrow> ptr \<Rightarrow> u32 \<Rightarrow> u32 \<Rightarrow> memory result" where
  "clearVector_loop h p q i clearingBit =
     rbind (bitVectorOf h q) (\<lambda>w.
     if i < numberOfBitsSet w then
       rbind (parcBitVector_NextBitSet h q clearingBit) (\<lambda>b.
       rbind (bitVectorOf h p) (\<lambda>v.
       if b \<ge> bitLength v then Inr h
       else
         rbind (if b \<noteq> -1 then parcBitVector_Clear h p b else Inr h) (\<lambda>h1.
         clearVector_loop h1 p q (i + 1) (b + 1))))
     else Inr h)"
  by pat_completeness auto
termination
  by (relation "measure (\<lambda>(h, p, q, i, s). 2 ^ 32 - unat i)")
    (simp, simp only: in_measure prod.case counter_decreases)

declare clearVector_loop.simps [simp del]

definition parcBitVector_ClearVector :: "memory \<Rightarrow> ptr \<Rightarrow> ptr \<Rightarrow> memory result" where
  "parcBitVector_ClearVector h p bitsToClear =
     rbind (assertTrue (p \<noteq> None)) (\<lambda>_.
     rbind (assertTrue (bitsToClear \<noteq> None)) (\<lambda>_.
     if p = bitsToClear then parcBitVector_Reset h p else clearVector_loop h p bitsToClear 0 0))"

function contains_loop :: "memory \<Rightarrow> ptr \<Rightarrow> ptr \<Rightarrow> u32 \<Rightarrow> u32 \<Rightarrow> bool result" where
  "contains_loop h p q i testBit =
     rbind (bitVectorOf h q) (\<lambda>w.
     if i < numberOfBitsSet w then
       rbind (parcBitVector_NextBitSet h q testBit) (\<lambda>b.
       rbind (parcBitVector_Get h p b) (\<lambda>g.
       if g \<noteq> 1 then Inr False else contains_loop h p q (i + 1) (b + 1)))
     else Inr True)"
  by pat_completeness auto
termination
  by (relation "measure (\<lambda>(h, p, q, i, s). 2 ^ 32 - unat i)")
    (simp, simp only: in_measure prod.case counter_decreases)

declare contains_loop.simps [simp del]

definition parcBitVector_Contains :: "memory \<Rightarrow> ptr \<Rightarrow> ptr \<Rightarrow> bool result" where
  "parcBitVector_Contains h p testVector = contains_loop h p testVector 0 0"

function or_loop :: "memory \<Rightarrow> ptr \<Rightarrow> ptr \<Rightarrow> u32 \<Rightarrow> memory result" where
  "or_loop h result second n =
     rbind (parcBitVector_NextBitSet h second n) (\<lambda>b.
     if 0 \<le> sint b then
       rbind (parcBitVector_Set h result b) (\<lambda>h1. or_loop h1 result second (b + 1))
     else Inr h)"
  by pat_completeness auto
termination
  by (relation "measure (\<lambda>(h, r, q, n). 2 ^ 32 - unat n)")
    (simp, simp only: in_measure prod.case round_decreases)

declare or_loop.simps [simp del]

definition parcBitVector_Or :: "memory \<Rightarrow> ptr \<Rightarrow> ptr \<Rightarrow> (ptr \<times> memory) result" where
  "parcBitVector_Or h first second =
     (if first \<noteq> None then
        rbind (parcBitVector_Copy h first) (\<lambda>(result, h1).
        if second \<noteq> None
        then rbind (or_loop h1 result second 0) (\<lambda>h2. Inr (result, h2))
        else Inr (result, h1))
      else if second \<noteq> None then parcBitVector_Copy h second
      else parcBitVector_Create h)"

function and_loop :: "memory \<Rightarrow> ptr \<Rightarrow> ptr \<Rightarrow> ptr \<Rightarrow> u32 \<Rightarrow> memory result" where
  "and_loop h result first second n =
     rbind (parcBitVector_NextBitSet h first n) (\<lambda>b.
     if 0 \<le> sint b then
       rbind (parcBitVector_Get h second b) (\<lambda>g.
       rbind (if g = 1 then parcBitVector_Set h result b else Inr h) (\<lambda>h1.
       and_loop h1 result first second (b + 1)))
     else Inr h)"
  by pat_completeness auto
termination
  by (relation "measure (\<lambda>(h, r, p, q, n). 2 ^ 32 - unat n)")
    (simp, simp only: in_measure prod.case round_decreases)

declare and_loop.simps [simp del]

definition parcBitVector_And :: "memory \<Rightarrow> ptr \<Rightarrow> ptr \<Rightarrow> (ptr \<times> memory) result" where
  "parcBitVector_And h first second =
     rbind (parcBitVector_Create h) (\<lambda>(result, h1).
     if second = None \<and> first \<noteq> None then Inr (result, h1)
     else if first \<noteq> None
     then rbind (and_loop h1 result first second 0) (\<lambda>h2. Inr (result, h2))
     else Inr (result, h1))"

section \<open>Shifts\<close>

function leftShift_loop :: "memory \<Rightarrow> ptr \<Rightarrow> u32 \<Rightarrow> memory result" where
  "leftShift_loop h p n =
     rbind (parcBitVector_NextBitSet h p n) (\<lambda>b.
     if 0 \<le> sint b then
       rbind (if 0 < sint b then parcBitVector_Set h p (b - 1) else Inr h) (\<lambda>h1.
       rbind (parcBitVector_Clear h1 p b) (\<lambda>h2.
       leftShift_loop h2 p (b + 1)))
     else Inr h)"
  by pat_completeness auto
termination
  by (relation "measure (\<lambda>(h, p, n). 2 ^ 32 - unat n)")
    (simp, simp only: in_measure prod.case round_decreases)

declare leftShift_loop.simps [simp del]

definition leftShiftOnce :: "memory \<Rightarrow> ptr \<Rightarrow> memory result" where
  "leftShiftOnce h p = (if p \<noteq> None then leftShift_loop h p 0 else Inr h)"

text \<open>\<open>for (int i = 0; i < count; i++)\<close>, for the counts an \<open>int\<close> can reach.\<close>

fun repeatShift :: "(memory \<Rightarrow> ptr \<Rightarrow> memory result) \<Rightarrow> nat \<Rightarrow> memory \<Rightarrow> ptr \<Rightarrow> memory result" where
  "repeatShift once 0 h p = Inr h"
| "repeatShift once (Suc n) h p = rbind (once h p) (\<lambda>h1. repeatShift once n h1 p)"

definition parcBitVector_LeftShift :: "memory \<Rightarrow> ptr \<Rightarrow> size_t \<Rightarrow> (ptr \<times> memory) result" where
  "parcBitVector_LeftShift h p count =
     rbind (repeatShift leftShiftOnce (unat count) h p) (\<lambda>h1. Inr (p, h1))"

lemma index_bounds:
  assumes "n < (8192 :: u32)"
  shows "unat n < 8192" "unat (n + 1) = Suc (unat n)" "0 \<le> sint n" "n \<noteq> -1"
proof -
  show u: "unat n < 8192" using assms by (simp add: word_less_nat_alt)
  then show "unat (n + 1) = Suc (unat n)" using unat_add_no_wrap [of n 1] by simp
  show "0 \<le> sint n" using u sint_neg_iff [of n] by simp
  then show "n \<noteq> -1" by auto
qed

function nextZero_loop :: "memory \<Rightarrow> ptr \<Rightarrow> u32 \<Rightarrow> u32 result" where
  "nextZero_loop h p nextZero =
     rbind (parcBitVector_Get h p nextZero) (\<lambda>g.
     if g = 1 then nextZero_loop h p (nextZero + 1) else Inr nextZero)"
  by pat_completeness auto
termination
proof (relation "measure (\<lambda>(h, p, n). 8192 - unat n)")
  fix h :: memory and p :: ptr and n :: u32 and g
  assume "parcBitVector_Get h p n = Inr g"
  then have "n < 8192" by (simp add: parcBitVector_Get_def)
  then have "unat n < 8192" "unat (n + 1) = Suc (unat n)" by (rule index_bounds)+
  then show "((h, p, n + 1), h, p, n) \<in> measure (\<lambda>(h, p, n). 8192 - unat n)" by simp
qed simp

declare nextZero_loop.simps [simp del]

function setRun_loop :: "memory \<Rightarrow> ptr \<Rightarrow> u32 \<Rightarrow> u32 \<Rightarrow> (u32 \<times> memory) result" where
  "setRun_loop h p b nextZero =
     (if b \<le> nextZero then
        rbind (parcBitVector_Set h p b) (\<lambda>h1. setRun_loop h1 p (b + 1) nextZero)
      else Inr (b, h))"
  by pat_completeness auto
termination
proof (relation "measure (\<lambda>(h, p, n, z). 8192 - unat n)")
  fix h h1 :: memory and p :: ptr and n z :: u32
  assume "parcBitVector_Set h p n = Inr h1"
  then have "n < 8192" by (simp add: parcBitVector_Set_def)
  then have "unat n < 8192" "unat (n + 1) = Suc (unat n)" by (rule index_bounds)+
  then show "((h1, p, n + 1, z), h, p, n, z) \<in> measure (\<lambda>(h, p, n, z). 8192 - unat n)" by simp
qed simp

declare setRun_loop.simps [simp del]

lemma setRun_loop_ge: "setRun_loop h p b z = Inr (b', h') \<Longrightarrow> b' = b \<or> unat b < unat b' \<and> unat b' \<le> 8192"
proof (induction h p b z rule: setRun_loop.induct)
  case (1 h p b z)
  show ?case
  proof (cases "b \<le> z")
    case True
    then obtain h1 where h1: "parcBitVector_Set h p b = Inr h1" "setRun_loop h1 p (b + 1) z = Inr (b', h')"
      using "1.prems" by (subst (asm) setRun_loop.simps) auto
    then have "b < 8192" by (simp add: parcBitVector_Set_def)
    with "1.IH" [OF True h1] index_bounds [of b] show ?thesis by auto
  next
    case False
    with "1.prems" show ?thesis by (subst (asm) setRun_loop.simps) auto
  qed
qed

function rightShift_loop :: "memory \<Rightarrow> ptr \<Rightarrow> u32 \<Rightarrow> memory result" where
  "rightShift_loop h p n =
     rbind (parcBitVector_NextBitSet h p n) (\<lambda>b.
     if 0 \<le> sint b then
       rbind (nextZero_loop h p (b + 1)) (\<lambda>nextZero.
       rbind (parcBitVector_Clear h p b) (\<lambda>h1.
       rbind (setRun_loop h1 p (b + 1) nextZero) (\<lambda>(b', h2).
       rightShift_loop h2 p (b' + 1))))
     else Inr h)"
  by pat_completeness auto
termination
proof (relation "measure (\<lambda>(h, p, n). 2 ^ 32 - unat n)")
  fix h h1 h2 :: memory and p :: ptr and n b z b' :: u32 and y
  assume a: "parcBitVector_NextBitSet h p n = Inr b" "0 \<le> sint b" "setRun_loop h1 p (b + 1) z = Inr y"
    "(b', h2) = y"
  then have r: "b' = b + 1 \<or> unat (b + 1) < unat b' \<and> unat b' \<le> 8192"
    using setRun_loop_ge [of h1 p "b + 1" z b' h2] by simp
  have "b \<noteq> -1" using a(2) by auto
  then have n: "unat n < unat (b + 1)" using next_round [OF a(1)] by simp
  have b: "unat b < 2 ^ 31" using a(2) sint_neg_iff [of b] by simp
  have "unat (b + 1) = Suc (unat b)" using \<open>b \<noteq> -1\<close> by (rule unat_plus_one)
  then have "unat b' < 2 ^ 32 - 1" "unat n < unat b'" using r n b by auto
  moreover have "unat (b' + 1) = Suc (unat b')"
    using \<open>unat b' < 2 ^ 32 - 1\<close> unat_add_no_wrap [of b' 1] by simp
  ultimately show "((h2, p, b' + 1), h, p, n) \<in> measure (\<lambda>(h, p, n). 2 ^ 32 - unat n)" by simp
qed simp

declare rightShift_loop.simps [simp del]

definition rightShiftOnce :: "memory \<Rightarrow> ptr \<Rightarrow> memory result" where
  "rightShiftOnce h p = (if p \<noteq> None then rightShift_loop h p 0 else Inr h)"

definition parcBitVector_RightShift :: "memory \<Rightarrow> ptr \<Rightarrow> size_t \<Rightarrow> (ptr \<times> memory) result" where
  "parcBitVector_RightShift h p count =
     rbind (repeatShift rightShiftOnce (unat count) h p) (\<lambda>h1. Inr (p, h1))"

section \<open>Text\<close>

text \<open>\<open>printf\<close> of an \<open>int\<close> with \<open>%d\<close>.\<close>

definition format_int :: "c_int \<Rightarrow> u8 list" where
  "format_int n = (if sint n < 0 then 45 # decimal (nat (- sint n)) else decimal (nat (sint n)))"

text \<open>The loop counts \<open>index\<close> down to 0.\<close>

fun toString_loop :: "memory \<Rightarrow> ptr \<Rightarrow> ptr \<Rightarrow> nat \<Rightarrow> u32 \<Rightarrow> memory result" where
  "toString_loop h composer p 0 nextBitSet = Inr h"
| "toString_loop h composer p (Suc index) nextBitSet =
     rbind (parcBitVector_NextBitSet h p nextBitSet) (\<lambda>b.
     rbind (parcBufferComposer_Format h composer (Some (format_int b @ [32]))) (\<lambda>h1.
     toString_loop h1 composer p index (b + 1)))"

definition parcBitVector_ToString :: "size_t \<Rightarrow> memory \<Rightarrow> ptr \<Rightarrow> (u8 list option \<times> memory) result" where
  "parcBitVector_ToString cacheLine h p =
     rbind (parcBufferComposer_Create cacheLine h) (\<lambda>(composer, h1).
     if composer \<noteq> None then
       rbind (parcBufferComposer_Format h1 composer (Some [91, 32])) (\<lambda>h2.
       rbind (parcBitVector_NumberOfBitsSet h2 p) (\<lambda>count.
       rbind (toString_loop h2 composer p (unat count) 0) (\<lambda>h3.
       rbind (parcBufferComposer_Format h3 composer (Some [93])) (\<lambda>h4.
       rbind (parcBufferComposer_ProduceBuffer h4 composer) (\<lambda>(tempBuffer, h5).
       rbind (parcBufferComposer_Release h5 composer) (\<lambda>(_, h6).
       rbind (parcBuffer_ToString h6 tempBuffer) (\<lambda>(result, h7).
       rbind (parcBuffer_Release h7 tempBuffer) (\<lambda>(_, h8).
       Inr (Some result, h8)))))))))
     else Inr (None, h1))"

text \<open>The descriptor of \<open>parcObject_ExtendPARCObject(PARCBitVector, ...)\<close>.\<close>

definition PARCBitVector_Descriptor :: "memory descriptor" where
  "PARCBitVector_Descriptor = PARCBitVector_base
     \<lparr>desc_copy := Some (\<lambda>h a. parcBitVector_Copy h (Some a))\<rparr>"

end
