(* ===== verification/Parc_BitSets.thy ===== *)
theory Parc_BitSets
  imports Parc_BitVector
begin

text \<open>
  What the operations of \<open>Parc_BitVector\<close> compute. A bit vector stands for the finite set of its set bits;
  the invariant ties the cached number of bits and the cached first bit to this set, and every operation is
  the operation on sets its name says, except for the shift to the right.
\<close>

section \<open>The first element from an index on\<close>

definition first_from :: "nat set \<Rightarrow> nat \<Rightarrow> u32" where
  "first_from S n = (if \<exists>i \<in> S. n \<le> i then word_of_nat (LEAST i. i \<in> S \<and> n \<le> i) else -1)"

lemma first_from_none: "(\<And>i. i \<in> S \<Longrightarrow> i < n) \<Longrightarrow> first_from S n = -1"
  by (fastforce simp: first_from_def)

lemma first_from_some:
  assumes "m \<in> S" "n \<le> m" "\<And>i. i \<in> S \<Longrightarrow> n \<le> i \<Longrightarrow> m \<le> i"
  shows "first_from S n = word_of_nat m"
proof -
  have "(LEAST i. i \<in> S \<and> n \<le> i) = m" using assms by (intro Least_equality) auto
  with assms show ?thesis by (auto simp: first_from_def)
qed

lemma first_from_cong:
  assumes "\<And>i. i \<in> S \<and> n \<le> i \<longleftrightarrow> i \<in> T \<and> m \<le> i"
  shows "first_from S n = first_from T m"
  unfolding first_from_def Bex_def assms ..

lemma first_from_cases:
  assumes "S \<subseteq> {..<8192}"
  obtains (none) "first_from S n = -1" "{i \<in> S. n \<le> i} = {}"
  | (some) m where "first_from S n = word_of_nat m" "m \<in> S" "n \<le> m" "m < 8192"
      "{i \<in> S. n \<le> i} = insert m {i \<in> S. Suc m \<le> i}" "\<And>i. i \<in> S \<Longrightarrow> n \<le> i \<Longrightarrow> m \<le> i"
proof (cases "\<exists>i \<in> S. n \<le> i")
  case True
  let ?m = "LEAST i. i \<in> S \<and> n \<le> i"
  have m: "?m \<in> S \<and> n \<le> ?m" using True by (auto intro: LeastI2)
  have least: "?m \<le> i" if "i \<in> S" "n \<le> i" for i using that by (intro Least_le) simp
  have "{i \<in> S. n \<le> i} = insert ?m {i \<in> S. Suc ?m \<le> i}"
    using m least by (auto simp: Suc_le_eq dest: le_neq_implies_less)
  with m least True assms show thesis by (intro some [of ?m]) (auto simp: first_from_def)
qed (auto simp: first_from_def intro: none)

lemma unat_index: "m < 8192 \<Longrightarrow> unat (word_of_nat m :: u32) = m"
  by (intro unat_word_of_nat) simp

lemma first_from_index:
  assumes "S \<subseteq> {..<8192}"
  shows "0 \<le> sint (first_from S n) \<longleftrightarrow> (\<exists>i \<in> S. n \<le> i)"
  using assms
proof (cases rule: first_from_cases [where n = n])
  case (some m)
  then show ?thesis
    using index_bounds(3) [of "word_of_nat m"] by (auto simp: word_less_nat_alt unat_index)
qed auto

section \<open>The set of a vector\<close>

definition bits :: "parc_bit_vector \<Rightarrow> nat set" where
  "bits v = {i. i div 8 < length (bitArray v) \<and> bit (bitArray v ! (i div 8)) (i mod 8)}"

definition bv_inv :: "parc_bit_vector \<Rightarrow> bool" where
  "bv_inv v \<longleftrightarrow> unat (bitLength v) = 8 * length (bitArray v) \<and> length (bitArray v) \<le> 1024 \<and>
     numberOfBitsSet v = word_of_nat (card (bits v)) \<and> firstBitSet v = first_from (bits v) 0 \<and>
     fillValue v = 0"

lemma bits_subset: "bits v \<subseteq> {..<8 * length (bitArray v)}"
  by (auto simp: bits_def)

lemma bits_bounded: "bv_inv v \<Longrightarrow> bits v \<subseteq> {..<8192}"
  using bits_subset [of v] by (auto simp: bv_inv_def)

lemma finite_bits [simp]: "finite (bits v)"
  by (rule finite_subset [OF bits_subset]) simp

lemma card_bits:
  assumes "bv_inv v"
  shows "unat (numberOfBitsSet v) = card (bits v)" "card (bits v) \<le> 8192"
proof -
  have "card (bits v) \<le> card {..<8192 :: nat}" using bits_bounded [OF assms] by (intro card_mono) auto
  then show "card (bits v) \<le> 8192" by simp
  then have "unat (word_of_nat (card (bits v)) :: u32) = card (bits v)"
    by (intro unat_word_of_nat) simp
  with assms show "unat (numberOfBitsSet v) = card (bits v)" by (simp add: bv_inv_def)
qed

lemma mask_test: "k < 8 \<Longrightarrow> x AND bit_mask k \<noteq> 0 \<longleftrightarrow> bit x k" for x :: u8
  by (simp add: bit_mask_def push_bit_eq_mult and_exp_eq_0_iff_not_bit)

lemma bit_set_mask: "k < 8 \<Longrightarrow> bit (x OR bit_mask k) j \<longleftrightarrow> bit x j \<or> j = k" for x :: u8
  by (auto simp: bit_mask_def bit_simps)

lemma bit_clear_mask: "bit (x AND NOT (bit_mask k)) j \<longleftrightarrow> bit x j \<and> j \<noteq> k" for x :: u8
  by (auto simp: bit_mask_def bit_simps dest: bit_imp_le_length)

lemma bits_update:
  assumes "j div 8 < length (bitArray v)"
  shows "bits (v\<lparr>bitArray := (bitArray v)[j div 8 := x]\<rparr>) =
    {i \<in> bits v. i div 8 \<noteq> j div 8} \<union> {i. i div 8 = j div 8 \<and> bit x (i mod 8)}"
  using assms by (auto simp: bits_def nth_list_update)

lemma bits_set:
  assumes "j div 8 < length (bitArray v)"
  shows "bits (v\<lparr>bitArray := (bitArray v)[j div 8 := bitArray v ! (j div 8) OR bit_mask (j mod 8)]\<rparr>) =
    insert j (bits v)"
proof -
  have "i = j" if "i div 8 = j div 8" "i mod 8 = j mod 8" for i :: nat
    using that by (metis div_mult_mod_eq)
  then show ?thesis
    unfolding bits_update [OF assms] using assms by (auto simp: bit_set_mask bits_def)
qed

lemma bits_clear:
  assumes "j div 8 < length (bitArray v)"
  shows "bits (v\<lparr>bitArray := (bitArray v)[j div 8 := bitArray v ! (j div 8) AND NOT (bit_mask (j mod 8))]\<rparr>) =
    bits v - {j}"
proof -
  have "i = j" if "i div 8 = j div 8" "i mod 8 = j mod 8" for i :: nat
    using that by (metis div_mult_mod_eq)
  then show ?thesis
    unfolding bits_update [OF assms] using assms by (auto simp: bit_clear_mask bits_def)
qed

lemma bits_bitArray: "bitArray v = bitArray w \<Longrightarrow> bits v = bits w"
  by (simp add: bits_def)

section \<open>Searching\<close>

lemma findBit_loop_spec:
  "case findBit_loop x b of
     None \<Rightarrow> \<forall>j. b \<le> j \<and> j < 8 \<longrightarrow> \<not> bit x j
   | Some k \<Rightarrow> b \<le> k \<and> k < 8 \<and> bit x k \<and> (\<forall>j. b \<le> j \<and> j < k \<longrightarrow> \<not> bit x j)"
proof (induction x b rule: findBit_loop.induct)
  case (1 x b)
  consider "\<not> b < 8" | "b < 8" "bit x b" | "b < 8" "\<not> bit x b" by blast
  then show ?case
  proof cases
    case 3
    then have eq: "findBit_loop x b = findBit_loop x (Suc b)" by (subst findBit_loop.simps) (simp add: mask_test)
    have "\<not> x AND bit_mask b \<noteq> 0" using 3 mask_test [of b x] by simp
    from "1.IH" [OF 3(1) this] 3(2) show ?thesis
      unfolding eq by (auto split: option.splits simp: Suc_le_eq le_neq_implies_less)
        (metis le_neq_implies_less)+
  qed (subst findBit_loop.simps, auto simp: mask_test)+
qed

lemma byte_index:
  fixes i :: nat
  assumes "byte * 8 + b \<le> i" "i < byte * 8 + k" "k \<le> 8"
  shows "i div 8 = byte \<and> b \<le> i mod 8 \<and> i mod 8 < k"
proof -
  obtain j where "i = byte * 8 + j" using assms(1) by (metis add.assoc le_Suc_ex)
  with assms show ?thesis by simp
qed

lemma nextBitSet_loop_first:
  "unat (bitLength v div 8) = length (bitArray v) \<Longrightarrow> b < 8 \<Longrightarrow>
     nextBitSet_loop v byte b = Inr (first_from (bits v) (byte * 8 + b))"
proof (induction v byte b rule: nextBitSet_loop.induct)
  case (1 v byte b)
  show ?case
  proof (cases "byte < length (bitArray v)")
    case True
    let ?x = "bitArray v ! byte"
    have x: "bv_byte v byte = Inr ?x" using True by (simp add: bv_byte_def)
    have bl: "byte < unat (bitLength v div 8)" using True "1.prems" by simp
    have inbits: "i \<in> bits v \<longleftrightarrow> bit ?x (i mod 8)" if "i div 8 = byte" for i
      using that True by (auto simp: bits_def)
    define f where "f = (if ?x \<noteq> 0 then findBit_loop ?x b else None)"
    show ?thesis
    proof (cases f)
      case None
      have no: "\<not> bit ?x j" if "b \<le> j" "j < 8" for j
        using None findBit_loop_spec [where x = ?x and b = b] that by (auto simp: f_def split: if_splits)
      have "i \<in> bits v \<and> byte * 8 + b \<le> i \<longleftrightarrow> i \<in> bits v \<and> Suc byte * 8 \<le> i" for i
      proof
        assume i: "i \<in> bits v \<and> byte * 8 + b \<le> i"
        show "i \<in> bits v \<and> Suc byte * 8 \<le> i"
        proof (rule ccontr)
          assume "\<not> (i \<in> bits v \<and> Suc byte * 8 \<le> i)"
          then have "byte * 8 + b \<le> i" "i < byte * 8 + 8" using i by auto
          then have "i div 8 = byte" "b \<le> i mod 8" using byte_index [of byte b i 8] by simp_all
          then show False using i inbits [of i] no [of "i mod 8"] by simp
        qed
      qed (use "1.prems"(2) in auto)
      then have "first_from (bits v) (byte * 8 + b) = first_from (bits v) (Suc byte * 8)"
        by (rule first_from_cong)
      then show ?thesis
        using "1.IH" [OF bl x None [unfolded f_def]] "1.prems"(1) x bl None
        by (subst nextBitSet_loop.simps) (simp add: f_def)
    next
      case (Some k)
      then have k: "b \<le> k" "k < 8" "bit ?x k" "\<And>j. b \<le> j \<Longrightarrow> j < k \<Longrightarrow> \<not> bit ?x j"
        using findBit_loop_spec [where x = ?x and b = b] by (auto simp: f_def split: if_splits)
      have "first_from (bits v) (byte * 8 + b) = word_of_nat (byte * 8 + k)"
      proof (rule first_from_some)
        show "byte * 8 + k \<in> bits v" using k(2,3) inbits [of "byte * 8 + k"] by simp
        show "byte * 8 + k \<le> i" if "i \<in> bits v" "byte * 8 + b \<le> i" for i
        proof (rule ccontr)
          assume "\<not> byte * 8 + k \<le> i"
          then have "byte * 8 + b \<le> i" "i < byte * 8 + k" "k < 8" using that(2) k(2) by auto
          then have "i div 8 = byte" "b \<le> i mod 8" "i mod 8 < k"
            using byte_index [of byte b i k] by simp_all
          then show False using that(1) inbits [of i] k(4) [of "i mod 8"] by simp
        qed
      qed (use k in simp)
      then show ?thesis using bl x Some by (subst nextBitSet_loop.simps) (simp add: f_def)
    qed
  next
    case False
    have "first_from (bits v) (byte * 8 + b) = -1"
      using False bits_subset [of v] by (intro first_from_none) auto
    then show ?thesis using False "1.prems"(1) by (subst nextBitSet_loop.simps) simp
  qed
qed

section \<open>Vectors in the heap\<close>

definition bv_at :: "memory \<Rightarrow> addr \<Rightarrow> parc_bit_vector \<Rightarrow> bool" where
  "bv_at h a v \<longleftrightarrow> bitVectorOf h (Some a) = Inr v \<and> bv_inv v"

text \<open>Nothing but the vector at \<open>a\<close> differs between two heaps.\<close>

definition same_others :: "addr \<Rightarrow> memory \<Rightarrow> memory \<Rightarrow> bool" where
  "same_others a h h' \<longleftrightarrow> (\<forall>x. x \<noteq> a \<longrightarrow> objects h' x = objects h x) \<and>
     (objects h' a = None \<longleftrightarrow> objects h a = None) \<and> blocks h' = blocks h \<and>
     allocFails h' = allocFails h \<and> heap_wf h' = heap_wf h"

lemma same_others_refl [simp]: "same_others a h h"
  by (simp add: same_others_def)

lemma same_others_trans [trans]: "same_others a h1 h2 \<Longrightarrow> same_others a h2 h3 \<Longrightarrow> same_others a h1 h3"
  by (simp add: same_others_def)

lemma bitVectorOf_others:
  "same_others a h h' \<Longrightarrow> p \<noteq> Some a \<Longrightarrow> bitVectorOf h' p = bitVectorOf h p"
  by (cases p) (simp_all add: same_others_def bitVectorOf_def parcObject_Header_def)

lemma bv_at_others: "same_others a h h' \<Longrightarrow> b \<noteq> a \<Longrightarrow> bv_at h' b w = bv_at h b w"
  by (simp add: bv_at_def bitVectorOf_others)

lemma bitVectorOf_set [simp]:
  "bitVectorOf h (Some a) = Inr v \<Longrightarrow> bitVectorOf (setBitVector h (Some a) w) (Some a) = Inr w"
  by (auto simp: bitVectorOf_def setBitVector_def setContent_def parcObject_Header_def split: option.splits)

lemma bitVectorOf_allocCount [simp]: "bitVectorOf (h\<lparr>allocCount := k\<rparr>) p = bitVectorOf h p"
  by (cases p) (simp_all add: bitVectorOf_def parcObject_Header_def)

lemma same_others_set [simp]:
  "bitVectorOf h (Some a) = Inr v \<Longrightarrow> same_others a h (setBitVector h (Some a) w)"
  by (auto simp: same_others_def setBitVector_def setContent_def bitVectorOf_def parcObject_Header_def
      split: option.splits)

lemma same_others_allocCount [simp]: "same_others a h (h\<lparr>allocCount := k\<rparr>)"
  by (simp add: same_others_def)

text \<open>The search relies on the cached first bit only up to that bit.\<close>

lemma parcBitVector_NextBitSet_search:
  assumes "bitVectorOf h p = Inr v" "unat (bitLength v) = 8 * length (bitArray v)"
    and "n \<le> firstBitSet v \<Longrightarrow> first_from (bits v) (unat n) = firstBitSet v"
  shows "parcBitVector_NextBitSet h p n = Inr (first_from (bits v) (unat n))"
proof -
  consider "bitLength v \<le> n" | "\<not> bitLength v \<le> n" "n \<le> firstBitSet v"
    | "\<not> bitLength v \<le> n" "\<not> n \<le> firstBitSet v" by blast
  then show ?thesis
  proof cases
    case 1
    then have "first_from (bits v) (unat n) = -1"
      using bits_subset [of v] assms(2) by (intro first_from_none) (auto simp: word_le_nat_alt)
    with 1 assms(1) show ?thesis by (simp add: parcBitVector_NextBitSet_def)
  next
    case 2
    with assms(1,3) show ?thesis by (simp add: parcBitVector_NextBitSet_def)
  next
    case 3
    have "unat (n div 8) * 8 + unat (n mod 8) = unat n" "unat (n mod 8) < 8"
      "unat (bitLength v div 8) = length (bitArray v)"
      using assms(2) by (simp_all add: unat_div unat_mod)
    with nextBitSet_loop_first [of v "unat (n mod 8)" "unat (n div 8)"] 3 assms(1) show ?thesis
      by (simp add: parcBitVector_NextBitSet_def)
  qed
qed

lemma parcBitVector_NextBitSet_ok:
  assumes "bv_at h a v"
  shows "parcBitVector_NextBitSet h (Some a) n = Inr (first_from (bits v) (unat n))"
proof (rule parcBitVector_NextBitSet_search)
  show "bitVectorOf h (Some a) = Inr v" "unat (bitLength v) = 8 * length (bitArray v)"
    using assms by (simp_all add: bv_at_def bv_inv_def)
  assume n: "n \<le> firstBitSet v"
  have first: "firstBitSet v = first_from (bits v) 0" and inv: "bv_inv v"
    using assms by (simp_all add: bv_at_def bv_inv_def)
  from bits_bounded [OF inv] show "first_from (bits v) (unat n) = firstBitSet v"
  proof (cases rule: first_from_cases [where n = 0])
    case none
    then show ?thesis unfolding first by (simp add: first_from_def)
  next
    case (some m)
    have "unat n \<le> m" using n unfolding first some(1) by (simp add: word_le_nat_alt unat_index some(4))
    moreover have "m \<le> i" if "i \<in> bits v" for i using that some(6) by simp
    ultimately show ?thesis unfolding first some(1) using some(2) by (intro first_from_some) auto
  qed
qed

section \<open>Setting and clearing bits\<close>

lemma first_from_insert:
  assumes "S \<subseteq> {..<8192}" "unat n < 8192"
  shows "first_from (insert (unat n) S) 0 =
    (if first_from S 0 = -1 \<or> n < first_from S 0 then n else first_from S 0)"
  using assms(1)
proof (cases rule: first_from_cases [where n = 0])
  case none
  then have "first_from (insert (unat n) S) 0 = word_of_nat (unat n)"
    by (intro first_from_some) auto
  with none show ?thesis by simp
next
  case (some m)
  have least: "m \<le> i" if "i \<in> S" for i using that some(6) by simp
  have ne: "word_of_nat m \<noteq> (-1 :: u32)" and lt: "n < word_of_nat m \<longleftrightarrow> unat n < m"
    using some(4) index_bounds(4) [of "word_of_nat m"] by (auto simp: word_less_nat_alt unat_index)
  show ?thesis
  proof (cases "unat n < m")
    case True
    then have "first_from (insert (unat n) S) 0 = word_of_nat (unat n)"
      using least by (intro first_from_some) (auto dest: least)
    with True lt some(1) show ?thesis by simp
  next
    case False
    then have "first_from (insert (unat n) S) 0 = word_of_nat m"
      using least some(2) by (intro first_from_some) auto
    with False lt ne some(1) show ?thesis by simp
  qed
qed

lemma first_from_remove:
  assumes "S \<subseteq> {..<8192}" "unat n < 8192"
  shows "first_from (S - {unat n}) 0 =
    (if n = first_from S 0 then first_from (S - {unat n}) (unat (n + 1)) else first_from S 0)"
  using assms(1)
proof (cases rule: first_from_cases [where n = 0])
  case none
  then have "S = {}" by auto
  then show ?thesis by (simp add: first_from_def)
next
  case (some m)
  have least: "m \<le> i" if "i \<in> S" for i using that some(6) by simp
  have eq: "n = word_of_nat m \<longleftrightarrow> unat n = m" using some(4) by (auto simp: unat_index)
  have suc: "unat (n + 1) = Suc (unat n)"
    using assms(2) index_bounds(2) [of n] by (simp add: word_less_nat_alt)
  show ?thesis
  proof (cases "unat n = m")
    case True
    then have "i \<in> S - {unat n} \<and> 0 \<le> i \<longleftrightarrow> i \<in> S - {unat n} \<and> Suc (unat n) \<le> i" for i
      using least [of i] by auto
    then have "first_from (S - {unat n}) 0 = first_from (S - {unat n}) (Suc (unat n))"
      by (rule first_from_cong)
    then show ?thesis using True eq some(1) suc by simp
  next
    case False
    then have "first_from (S - {unat n}) 0 = word_of_nat m"
      using least some(2) by (intro first_from_some) auto
    with False eq some(1) show ?thesis by simp
  qed
qed

lemma bv_inv_set:
  assumes "bv_inv v" "n < bitLength v"
  defines "x \<equiv> bitArray v ! (unat n div 8)" and "m \<equiv> bit_mask (unat n mod 8)"
  defines "v2 \<equiv> (if x AND m = 0 then v\<lparr>bitArray := (bitArray v)[unat n div 8 := x OR m],
      numberOfBitsSet := numberOfBitsSet v + 1\<rparr> else v)"
  defines "v3 \<equiv> (if firstBitSet v2 = -1 \<or> n < firstBitSet v2 then v2\<lparr>firstBitSet := n\<rparr> else v2)"
  shows "bv_inv v3" "bits v3 = insert (unat n) (bits v)" "bitLength v3 = bitLength v"
proof -
  have len: "unat n div 8 < length (bitArray v)" "unat n < 8192" "bits v \<subseteq> {..<8192}"
    using assms(1,2) bits_bounded [OF assms(1)] by (auto simp: bv_inv_def word_less_nat_alt)
  have mem: "x AND m = 0 \<longleftrightarrow> unat n \<notin> bits v"
    using mask_test [of "unat n mod 8" x] len(1) by (auto simp: m_def x_def bits_def)
  have arr: "bits v2 = insert (unat n) (bits v)"
  proof (cases "x AND m = 0")
    case True
    have "bits v2 = bits (v\<lparr>bitArray := (bitArray v)[unat n div 8 := x OR m]\<rparr>)"
      using True by (intro bits_bitArray) (simp add: v2_def)
    then show ?thesis using bits_set [OF len(1)] by (simp add: x_def m_def)
  next
    case False
    then show ?thesis using mem by (auto simp: v2_def)
  qed
  show b: "bits v3 = insert (unat n) (bits v)"
    unfolding arr [symmetric] by (rule bits_bitArray) (simp add: v3_def)
  show "bitLength v3 = bitLength v" by (simp add: v3_def v2_def)
  have "numberOfBitsSet v3 = (if unat n \<in> bits v then numberOfBitsSet v else numberOfBitsSet v + 1)"
    using mem by (simp add: v3_def v2_def)
  then have "numberOfBitsSet v3 = word_of_nat (card (bits v3))"
    using assms(1) unfolding b by (simp add: bv_inv_def insert_absorb)
  moreover have "firstBitSet v3 = first_from (bits v3) 0"
    unfolding b first_from_insert [OF len(3,2)] using assms(1) by (simp add: v3_def v2_def bv_inv_def)
  ultimately show "bv_inv v3" using assms(1) by (simp add: bv_inv_def v3_def v2_def)
qed

lemma bit_vector_resize_ok:
  assumes "bv_at h a v" "n < 8192" "bitLength v \<le> n" "\<not> allocFails h (allocCount h)"
  shows "\<exists>h' v'. bit_vector_resize h (Some a) n = Inr h' \<and> bv_at h' a v' \<and> bits v' = bits v \<and>
    n < bitLength v' \<and> same_others a h h'"
proof -
  have v: "bitVectorOf h (Some a) = Inr v" "unat (bitLength v) = 8 * length (bitArray v)"
      "fillValue v = 0" and inv: "bv_inv v"
    using assms(1) by (simp_all add: bv_at_def bv_inv_def)
  note n = index_bounds [OF assms(2)]
  let ?k = "Suc (unat n div 8)" and ?l = "length (bitArray v)"
  let ?v = "v\<lparr>bitArray := bitArray v @ replicate (?k - ?l) 0, bitLength := word_of_nat (?k * 8)\<rparr>"
  let ?h = "h\<lparr>allocCount := Suc (allocCount h)\<rparr>"
  have needed: "n + 1 > bitLength v" using assms(3) n(2) by (simp add: word_le_nat_alt word_less_nat_alt)
  have new: "unat ((n + 1) div 8) + (if (n + 1) mod 8 \<noteq> 0 then 1 else 0) = ?k"
  proof -
    have "(n + 1) mod 8 \<noteq> 0 \<longleftrightarrow> Suc (unat n) mod 8 \<noteq> 0"
      by (simp add: word_unat_eq_iff unat_mod n(2))
    then show ?thesis using n(2) by (auto simp: unat_div div_Suc mod_Suc)
  qed
  have old: "unat (bitLength v div 8) + (if bitLength v mod 8 \<noteq> 0 then 1 else 0) = ?l"
    using v(2) by (simp add: unat_div word_unat_eq_iff unat_mod)
  have len: "?l \<le> ?k" "?k \<le> 1024" using assms(3) v(2) n(1) by (auto simp: word_le_nat_alt)
  have k: "unat (word_of_nat (?k * 8) :: u32) = ?k * 8" using len(2) by (intro unat_word_of_nat) simp
  have b: "bits ?v = bits v"
  proof (rule set_eqI)
    show "i \<in> bits ?v \<longleftrightarrow> i \<in> bits v" for i
      by (cases "i div 8 < ?l") (simp_all add: bits_def nth_append)
  qed
  have "bv_inv ?v"
    using inv len b k by (simp add: bv_inv_def del: of_nat_mult of_nat_Suc)
  moreover have "bit_vector_resize h (Some a) n = Inr (setBitVector ?h (Some a) ?v)"
    using assms(2,4) v needed
    by (simp add: bit_vector_resize_def parcMemory_AllocateRaw_def Let_def new old)
  moreover have "n < bitLength ?v" using k by (simp add: word_less_nat_alt del: of_nat_mult of_nat_Suc)
  moreover have "same_others a h (setBitVector ?h (Some a) ?v)"
    using v(1) same_others_trans [OF same_others_allocCount same_others_set] by simp
  ultimately show ?thesis using v(1) b by (auto simp: bv_at_def)
qed

lemma parcBitVector_Set_ok:
  assumes "bv_at h a v" "n < 8192" "\<forall>k. \<not> allocFails h k"
  shows "\<exists>h' v'. parcBitVector_Set h (Some a) n = Inr h' \<and> bv_at h' a v' \<and>
    bits v' = insert (unat n) (bits v) \<and> same_others a h h'"
proof -
  obtain h1 v1 where h1: "(if n \<ge> bitLength v then bit_vector_resize h (Some a) n else Inr h) = Inr h1"
      "bv_at h1 a v1" "bits v1 = bits v" "n < bitLength v1" "same_others a h h1"
  proof (cases "n \<ge> bitLength v")
    case True
    then show thesis using bit_vector_resize_ok [OF assms(1,2)] assms(3) that by auto
  next
    case False
    then show thesis using assms(1) that [of h v] by simp
  qed
  have v1: "bitVectorOf h1 (Some a) = Inr v1" "bv_inv v1" using h1(2) by (simp_all add: bv_at_def)
  have len: "unat n div 8 < length (bitArray v1)"
    using h1(4) v1(2) by (auto simp: bv_inv_def word_less_nat_alt)
  note set = bv_inv_set [OF v1(2) h1(4)]
  let ?x = "bitArray v1 ! (unat n div 8)" and ?m = "bit_mask (unat n mod 8)"
  let ?v2 = "if ?x AND ?m = 0 then v1\<lparr>bitArray := (bitArray v1)[unat n div 8 := ?x OR ?m],
      numberOfBitsSet := numberOfBitsSet v1 + 1\<rparr> else v1"
  let ?v3 = "if firstBitSet ?v2 = -1 \<or> n < firstBitSet ?v2 then ?v2\<lparr>firstBitSet := n\<rparr> else ?v2"
  have "parcBitVector_Set h (Some a) n = Inr (setBitVector h1 (Some a) ?v3)"
    using assms(1,2) h1(1) v1(1) len unfolding parcBitVector_Set_def
    by (simp only: bv_at_def) (simp add: Let_def bv_byte_def unat_div unat_mod)
  moreover have "bv_at (setBitVector h1 (Some a) ?v3) a ?v3"
    using v1(1) set(1) by (simp only: bv_at_def bitVectorOf_set)
  moreover have "same_others a h (setBitVector h1 (Some a) ?v3)"
    using same_others_trans [OF h1(5) same_others_set [OF v1(1)]] .
  ultimately show ?thesis using set(2) h1(3) by metis
qed

lemma bv_inv_clear:
  assumes "bv_inv v" "n < bitLength v"
  defines "x \<equiv> bitArray v ! (unat n div 8)" and "m \<equiv> bit_mask (unat n mod 8)"
  defines "v2 \<equiv> (if x AND m \<noteq> 0 then v\<lparr>bitArray := (bitArray v)[unat n div 8 := x AND NOT m],
      numberOfBitsSet := numberOfBitsSet v - 1\<rparr> else v)"
  shows "bits v2 = bits v - {unat n}" "bitLength v2 = bitLength v" "firstBitSet v2 = firstBitSet v"
    "firstBitSet v3 = first_from (bits v2) 0 \<Longrightarrow> v3 = v2\<lparr>firstBitSet := f\<rparr> \<Longrightarrow> bv_inv v3"
proof -
  have len: "unat n div 8 < length (bitArray v)"
    using assms(1,2) by (auto simp: bv_inv_def word_less_nat_alt)
  have mem: "x AND m \<noteq> 0 \<longleftrightarrow> unat n \<in> bits v"
    using mask_test [of "unat n mod 8" x] len by (auto simp: m_def x_def bits_def)
  show b: "bits v2 = bits v - {unat n}"
  proof (cases "x AND m \<noteq> 0")
    case True
    have "bits v2 = bits (v\<lparr>bitArray := (bitArray v)[unat n div 8 := x AND NOT m]\<rparr>)"
      using True by (intro bits_bitArray) (simp add: v2_def)
    then show ?thesis using bits_clear [OF len] by (simp add: x_def m_def)
  next
    case False
    then show ?thesis using mem by (auto simp: v2_def)
  qed
  show "bitLength v2 = bitLength v" "firstBitSet v2 = firstBitSet v" by (simp_all add: v2_def)
  assume v3: "firstBitSet v3 = first_from (bits v2) 0" "v3 = v2\<lparr>firstBitSet := f\<rparr>"
  have b3: "bits v3 = bits v2" unfolding v3(2) by (rule bits_bitArray) simp
  have "numberOfBitsSet v2 = (if unat n \<in> bits v then numberOfBitsSet v - 1 else numberOfBitsSet v)"
    using mem by (simp add: v2_def)
  moreover have "0 < card (bits v)" if "unat n \<in> bits v" using that by (auto simp: card_gt_0_iff)
  ultimately have "numberOfBitsSet v2 = word_of_nat (card (bits v2))"
    using assms(1) unfolding b by (simp add: bv_inv_def of_nat_diff Suc_le_eq)
  with v3 assms(1) show "bv_inv v3"
    unfolding bv_inv_def b3 by (simp add: v2_def)
qed

lemma parcBitVector_Clear_inside:
  assumes "bv_at h a v" "n < bitLength v"
  shows "\<exists>h' v'. parcBitVector_Clear h (Some a) n = Inr h' \<and> bv_at h' a v' \<and>
    bits v' = bits v - {unat n} \<and> bitLength v' = bitLength v \<and> same_others a h h'"
proof -
  have v: "bitVectorOf h (Some a) = Inr v" "bv_inv v" using assms(1) by (simp_all add: bv_at_def)
  have len: "unat n div 8 < length (bitArray v)" "unat n < 8192"
    using assms(2) v(2) by (auto simp: bv_inv_def word_less_nat_alt)
  let ?x = "bitArray v ! (unat n div 8)" and ?m = "bit_mask (unat n mod 8)"
  define v2 where "v2 = (if ?x AND ?m \<noteq> 0 then v\<lparr>bitArray := (bitArray v)[unat n div 8 := ?x AND NOT ?m],
      numberOfBitsSet := numberOfBitsSet v - 1\<rparr> else v)"
  note c = bv_inv_clear [OF v(2) assms(2), folded v2_def]
  define h2 where "h2 = setBitVector h (Some a) v2"
  have h2: "bitVectorOf h2 (Some a) = Inr v2" "same_others a h h2"
    using v(1) by (simp_all add: h2_def)
  have b: "bits v \<subseteq> {..<8192}" using v(2) by (rule bits_bounded)
  note first = first_from_remove [OF b len(2), folded c(1)]
  have run: "parcBitVector_Clear h (Some a) n =
      (if n = firstBitSet v2
       then rbind (parcBitVector_NextBitSet h2 (Some a) (n + 1)) (\<lambda>f.
            Inr (setBitVector h2 (Some a) (v2\<lparr>firstBitSet := f\<rparr>)))
       else Inr h2)"
    using v(1) len assms(2) by (auto simp: parcBitVector_Clear_def Let_def bv_byte_def unat_div unat_mod
        word_less_nat_alt v2_def h2_def)
  show ?thesis
  proof (cases "n = firstBitSet v2")
    case True
    let ?v3 = "v2\<lparr>firstBitSet := first_from (bits v2) (unat (n + 1))\<rparr>"
    have "unat (n + 1) = Suc (unat n)" using len(2) index_bounds(2) [of n] by (simp add: word_less_nat_alt)
    then have past: "\<not> n + 1 \<le> firstBitSet v2" using True by (simp add: word_le_nat_alt)
    have "unat (bitLength v2) = 8 * length (bitArray v2)"
      using v(2) by (simp add: v2_def bv_inv_def)
    then have "parcBitVector_NextBitSet h2 (Some a) (n + 1) = Inr (first_from (bits v2) (unat (n + 1)))"
      using past by (intro parcBitVector_NextBitSet_search [OF h2(1)]) simp_all
    then have "parcBitVector_Clear h (Some a) n = Inr (setBitVector h2 (Some a) ?v3)"
      using run True by simp
    moreover have "first_from (bits v2) 0 = first_from (bits v2) (unat (n + 1))"
    proof -
      have "n = first_from (bits v) 0" using True c(3) v(2) by (simp add: bv_inv_def)
      with first show ?thesis by simp
    qed
    then have "bv_inv ?v3" by (intro c(4) [OF _ refl]) simp
    moreover have "bits ?v3 = bits v2" by (rule bits_bitArray) simp
    ultimately show ?thesis
      using h2 c(1,2) same_others_trans [OF h2(2) same_others_set [OF h2(1)]]
      by (auto simp: bv_at_def)
  next
    case False
    have "firstBitSet v2 = first_from (bits v2) 0"
      using first False c(3) v(2) by (simp add: bv_inv_def)
    then have "bv_inv v2" using c(4) [of v2 "firstBitSet v2"] by simp
    then show ?thesis using run False h2 c(1,2) by (auto simp: bv_at_def)
  qed
qed

text \<open>
  Beyond the end, the vector is extended first, except for the index at the end itself: the byte
  behind the array is read.
\<close>

lemma parcBitVector_Clear_outside:
  assumes "bv_at h a v" "n < 8192" "\<forall>k. \<not> allocFails h k" "bitLength v < n"
  shows "\<exists>h' v'. parcBitVector_Clear h (Some a) n = Inr h' \<and> bv_at h' a v' \<and>
    bits v' = bits v - {unat n} \<and> same_others a h h'"
proof -
  have v: "bitVectorOf h (Some a) = Inr v" using assms(1) by (simp add: bv_at_def)
  have le: "bitLength v \<le> n" using assms(4) by simp
  obtain h1 v1 where h1: "bit_vector_resize h (Some a) n = Inr h1" "bv_at h1 a v1" "bits v1 = bits v"
      "n < bitLength v1" "same_others a h h1"
    using bit_vector_resize_ok [OF assms(1,2) le] assms(3) by auto
  have "bitVectorOf h1 (Some a) = Inr v1" using h1(2) by (simp add: bv_at_def)
  then have "parcBitVector_Clear h (Some a) n = parcBitVector_Clear h1 (Some a) n"
    using v h1(1) order_less_not_sym [OF h1(4)] assms(2,4) by (simp add: parcBitVector_Clear_def)
  moreover obtain h2 v2 where "parcBitVector_Clear h1 (Some a) n = Inr h2" "bv_at h2 a v2"
      "bits v2 = bits v1 - {unat n}" "same_others a h1 h2"
    using parcBitVector_Clear_inside [OF h1(2,4)] by blast
  ultimately show ?thesis using h1(3) same_others_trans [OF h1(5)] by auto
qed

lemma parcBitVector_Get_ok:
  assumes "bv_at h a v" "n < 8192"
  shows "parcBitVector_Get h (Some a) n =
    Inr (if bitLength v \<le> n then -1 else if unat n \<in> bits v then 1 else 0)"
proof -
  have "unat n div 8 < length (bitArray v)" if "\<not> bitLength v \<le> n"
    using that assms(1) by (auto simp: bv_at_def bv_inv_def word_le_nat_alt)
  then show ?thesis
    using assms mask_test [of "unat n mod 8" "bitArray v ! (unat n div 8)"]
    by (auto simp: bv_at_def parcBitVector_Get_def bv_byte_def unat_div unat_mod bits_def)
qed

lemma parcBitVector_Reset_ok:
  assumes "bv_at h a v"
  shows "\<exists>h' v'. parcBitVector_Reset h (Some a) = Inr h' \<and> bv_at h' a v' \<and> bits v' = {} \<and>
    bitLength v' = bitLength v \<and> same_others a h h'"
proof -
  have v: "bitVectorOf h (Some a) = Inr v" "unat (bitLength v div 8) = length (bitArray v)" "bv_inv v"
    using assms by (simp_all add: bv_at_def bv_inv_def unat_div)
  let ?v = "v\<lparr>numberOfBitsSet := 0, firstBitSet := -1, fillValue := 0,
      bitArray := replicate (length (bitArray v)) 0\<rparr>"
  have b: "bits ?v = {}" by (simp add: bits_def)
  then have "bv_inv ?v" using v(3) by (simp add: bv_inv_def first_from_def)
  then show ?thesis
    using v b by (intro exI [of _ "setBitVector h (Some a) ?v"] exI [of _ ?v])
      (simp add: parcBitVector_Reset_def bv_at_def)
qed

section \<open>Vectors as sets\<close>

text \<open>The object at \<open>a\<close> is a valid vector whose set bits are \<open>S\<close>.\<close>

definition represents :: "memory \<Rightarrow> addr \<Rightarrow> nat set \<Rightarrow> bool" where
  "represents h a S \<longleftrightarrow> (\<exists>v. bv_at h a v \<and> bits v = S)"

definition can_allocate :: "memory \<Rightarrow> bool" where
  "can_allocate h \<longleftrightarrow> heap_wf h \<and> (\<forall>k. \<not> allocFails h k)"

lemma represents_bounded: "represents h a S \<Longrightarrow> S \<subseteq> {..<8192}"
  by (auto simp: represents_def bv_at_def dest: bits_bounded)

lemma represents_finite: "represents h a S \<Longrightarrow> finite S"
  by (auto dest: represents_bounded intro: finite_subset)

lemma represents_next:
  "represents h a S \<Longrightarrow> parcBitVector_NextBitSet h (Some a) n = Inr (first_from S (unat n))"
  by (auto simp: represents_def parcBitVector_NextBitSet_ok)

lemma represents_count:
  assumes "represents h a S"
  obtains v where "bitVectorOf h (Some a) = Inr v" "unat (numberOfBitsSet v) = card S"
  using assms card_bits by (auto simp: represents_def bv_at_def)

lemma represents_set:
  assumes "represents h a S" "n < 8192" "can_allocate h"
  obtains h' where "parcBitVector_Set h (Some a) n = Inr h'" "represents h' a (insert (unat n) S)"
    "same_others a h h'"
  using assms parcBitVector_Set_ok by (fastforce simp: represents_def can_allocate_def)

lemma represents_clear:
  assumes "represents h a S" "unat n \<in> S"
  obtains h' where "parcBitVector_Clear h (Some a) n = Inr h'" "represents h' a (S - {unat n})"
    "same_others a h h'"
proof -
  obtain v where v: "bv_at h a v" "bits v = S" using assms(1) by (auto simp: represents_def)
  then have "n < bitLength v"
    using assms(2) bits_subset [of v] by (auto simp: word_less_nat_alt bv_at_def bv_inv_def)
  from parcBitVector_Clear_inside [OF v(1) this] v(2) that show thesis
    by (auto simp: represents_def)
qed

lemma represents_get:
  assumes "represents h a S" "n < 8192"
  obtains g where "parcBitVector_Get h (Some a) n = Inr g" "g = 1 \<longleftrightarrow> unat n \<in> S"
proof -
  obtain v where v: "bv_at h a v" "bits v = S" using assms(1) by (auto simp: represents_def)
  have "unat n \<notin> S" if "bitLength v \<le> n"
    using that v bits_subset [of v] by (auto simp: word_le_nat_alt bv_at_def bv_inv_def)
  with parcBitVector_Get_ok [OF v(1) assms(2)] v(2) that show thesis by auto
qed

lemma represents_others: "same_others a h h' \<Longrightarrow> b \<noteq> a \<Longrightarrow> represents h' b S = represents h b S"
  by (simp add: represents_def bv_at_others)

lemma can_allocate_others: "same_others a h h' \<Longrightarrow> can_allocate h' = can_allocate h"
  by (auto simp: can_allocate_def same_others_def)

lemmas others = represents_others can_allocate_others

section \<open>Loops over the set bits\<close>

text \<open>
  The contract of the loops \<open>for (bit = 0; (bit = NextBitSet(v, bit)) >= 0; bit++)\<close>: \<open>S\<close> are the bits at the
  start, \<open>R D s\<close> says that the state \<open>s\<close> is right after the bits in \<open>D\<close> were handled. The body may change the
  vector below the current bit only, so the search finds the rest of \<open>S\<close>.
\<close>

locale bit_iteration =
  fixes loop :: "'s \<Rightarrow> u32 \<Rightarrow> 's result"
    and search :: "'s \<Rightarrow> u32 \<Rightarrow> u32 result"
    and body :: "'s \<Rightarrow> u32 \<Rightarrow> 's result"
    and S :: "nat set"
    and R :: "nat set \<Rightarrow> 's \<Rightarrow> bool"
  assumes loop: "loop s n = rbind (search s n) (\<lambda>b.
      if 0 \<le> sint b then rbind (body s b) (\<lambda>s'. loop s' (b + 1)) else Inr s)"
    and bounded: "R D s \<Longrightarrow> S \<subseteq> {..<8192}"
    and search: "R {i \<in> S. i < unat n} s \<Longrightarrow> search s n = Inr (first_from S (unat n))"
    and body: "R {i \<in> S. i < m} s \<Longrightarrow> m \<in> S \<Longrightarrow>
      \<exists>s'. body s (word_of_nat m) = Inr s' \<and> R {i \<in> S. i < Suc m} s'"
begin

lemma run: "R {i \<in> S. i < unat n} s \<Longrightarrow> \<exists>s'. loop s n = Inr s' \<and> R S s'"
proof (induction "8192 - unat n" arbitrary: n s rule: less_induct)
  case less
  note R = less.prems
  from bounded [OF R] show ?case
  proof (cases rule: first_from_cases [where n = "unat n"])
    case none
    have "{i \<in> S. i < unat n} = S" using none(2) by (auto simp: not_le)
    then show ?thesis using R none(1) search [OF R] by (subst loop) simp
  next
    case (some m)
    let ?b = "word_of_nat m :: u32"
    have b: "unat ?b = m" "?b < 8192" using some(4) by (simp_all add: unat_index word_less_nat_alt)
    note ib = index_bounds [OF b(2)]
    have "{i \<in> S. i < unat n} = {i \<in> S. i < m}"
      using some(3,6) by (auto, metis some(6) not_le)
    then obtain s1 where s1: "body s ?b = Inr s1" "R {i \<in> S. i < Suc m} s1"
      using body [OF _ some(2)] R by force
    have "R {i \<in> S. i < unat (?b + 1)} s1" using s1(2) ib(2) b(1) by simp
    moreover have "8192 - unat (?b + 1) < 8192 - unat n" using ib(2) b(1) some(3,4) by simp
    ultimately obtain s2 where "loop s1 (?b + 1) = Inr s2" "R S s2" using less.hyps by blast
    then show ?thesis using search [OF R] some(1) s1(1) ib(3) by (subst loop) simp
  qed
qed

end

section \<open>Union, intersection and shift to the left\<close>

lemma word_index: "m \<in> S \<Longrightarrow> S \<subseteq> {..<8192} \<Longrightarrow> word_of_nat m < (8192 :: u32) \<and> unat (word_of_nat m :: u32) = m"
  by (auto simp: word_less_nat_alt unat_index)

definition or_inv :: "memory \<Rightarrow> addr \<Rightarrow> addr \<Rightarrow> nat set \<Rightarrow> nat set \<Rightarrow> nat set \<Rightarrow> memory \<Rightarrow> bool" where
  "or_inv h0 r q V W D h \<longleftrightarrow> r \<noteq> q \<and> represents h r (V \<union> D) \<and> represents h q W \<and> can_allocate h \<and>
     same_others r h0 h"

interpretation or_it: bit_iteration "\<lambda>h n. or_loop h (Some r) (Some q) n"
  "\<lambda>h n. parcBitVector_NextBitSet h (Some q) n" "\<lambda>h n. parcBitVector_Set h (Some r) n" W "or_inv h0 r q V W"
  for r q V W h0
proof
  show "or_loop h (Some r) (Some q) n = rbind (parcBitVector_NextBitSet h (Some q) n) (\<lambda>b.
      if 0 \<le> sint b then rbind (parcBitVector_Set h (Some r) b) (\<lambda>s'. or_loop s' (Some r) (Some q) (b + 1))
      else Inr h)" for h n
    by (rule or_loop.simps)
next
  fix D h m
  show "W \<subseteq> {..<8192}" if "or_inv h0 r q V W D h"
    using that by (auto simp: or_inv_def dest: represents_bounded)
  show "parcBitVector_NextBitSet h (Some q) n = Inr (first_from W (unat n))"
    if "or_inv h0 r q V W {i \<in> W. i < unat n} h" for n
    using that by (simp add: or_inv_def represents_next)
  assume a: "or_inv h0 r q V W {i \<in> W. i < m} h" "m \<in> W"
  then have m: "word_of_nat m < (8192 :: u32)" "unat (word_of_nat m :: u32) = m"
    using word_index [of m W] by (auto simp: or_inv_def dest: represents_bounded)
  obtain h' where h': "parcBitVector_Set h (Some r) (word_of_nat m) = Inr h'"
      "represents h' r (insert m (V \<union> {i \<in> W. i < m}))" "same_others r h h'"
    using represents_set [of h r "V \<union> {i \<in> W. i < m}" "word_of_nat m"] a m by (auto simp: or_inv_def)
  have "insert m (V \<union> {i \<in> W. i < m}) = V \<union> {i \<in> W. i < Suc m}" using a(2) by (auto simp: less_Suc_eq)
  then show "\<exists>h'. parcBitVector_Set h (Some r) (word_of_nat m) = Inr h' \<and> or_inv h0 r q V W {i \<in> W. i < Suc m} h'"
    using h' a(1) others [OF h'(3)] same_others_trans [OF _ h'(3)] by (auto simp: or_inv_def)
qed

definition and_inv :: "memory \<Rightarrow> addr \<Rightarrow> addr \<Rightarrow> addr \<Rightarrow> nat set \<Rightarrow> nat set \<Rightarrow> nat set \<Rightarrow> memory \<Rightarrow> bool" where
  "and_inv h0 r p q V W D h \<longleftrightarrow> r \<noteq> p \<and> r \<noteq> q \<and> represents h r (D \<inter> W) \<and> represents h p V \<and>
     represents h q W \<and> can_allocate h \<and> same_others r h0 h"

definition and_body :: "addr \<Rightarrow> addr \<Rightarrow> memory \<Rightarrow> u32 \<Rightarrow> memory result" where
  "and_body r q h b = rbind (parcBitVector_Get h (Some q) b) (\<lambda>g.
     if g = 1 then parcBitVector_Set h (Some r) b else Inr h)"

interpretation and_it: bit_iteration "\<lambda>h n. and_loop h (Some r) (Some p) (Some q) n"
  "\<lambda>h n. parcBitVector_NextBitSet h (Some p) n" "and_body r q" V "and_inv h0 r p q V W"
  for r p q V W h0
proof
  show "and_loop h (Some r) (Some p) (Some q) n = rbind (parcBitVector_NextBitSet h (Some p) n) (\<lambda>b.
      if 0 \<le> sint b then rbind (and_body r q h b) (\<lambda>s'. and_loop s' (Some r) (Some p) (Some q) (b + 1))
      else Inr h)" for h n
    by (subst and_loop.simps) (simp add: and_body_def rbind_assoc cong: rbind_cong if_cong)
next
  fix D h m
  show "V \<subseteq> {..<8192}" if "and_inv h0 r p q V W D h"
    using that by (auto simp: and_inv_def dest: represents_bounded)
  show "parcBitVector_NextBitSet h (Some p) n = Inr (first_from V (unat n))"
    if "and_inv h0 r p q V W {i \<in> V. i < unat n} h" for n
    using that by (simp add: and_inv_def represents_next)
  assume a: "and_inv h0 r p q V W {i \<in> V. i < m} h" "m \<in> V"
  then have m: "word_of_nat m < (8192 :: u32)" "unat (word_of_nat m :: u32) = m"
    using word_index [of m V] by (auto simp: and_inv_def dest: represents_bounded)
  obtain g where g: "parcBitVector_Get h (Some q) (word_of_nat m) = Inr g" "g = 1 \<longleftrightarrow> m \<in> W"
    using represents_get [of h q W "word_of_nat m"] a m by (auto simp: and_inv_def)
  show "\<exists>h'. and_body r q h (word_of_nat m) = Inr h' \<and> and_inv h0 r p q V W {i \<in> V. i < Suc m} h'"
  proof (cases "m \<in> W")
    case True
    obtain h' where h': "parcBitVector_Set h (Some r) (word_of_nat m) = Inr h'"
        "represents h' r (insert m ({i \<in> V. i < m} \<inter> W))" "same_others r h h'"
      using represents_set [of h r "{i \<in> V. i < m} \<inter> W" "word_of_nat m"] a m by (auto simp: and_inv_def)
    have "insert m ({i \<in> V. i < m} \<inter> W) = {i \<in> V. i < Suc m} \<inter> W" using a(2) True by (auto simp: less_Suc_eq)
    then show ?thesis
      using h' a(1) g True others [OF h'(3)] same_others_trans [OF _ h'(3)]
      by (auto simp: and_inv_def and_body_def)
  next
    case False
    then have "{i \<in> V. i < m} \<inter> W = {i \<in> V. i < Suc m} \<inter> W" by (auto simp: less_Suc_eq)
    then show ?thesis using a(1) g False by (auto simp: and_inv_def and_body_def)
  qed
qed

definition down :: "nat set \<Rightarrow> nat set" where
  "down S = {i. Suc i \<in> S}"

lemma down_iff: "i \<in> down S \<longleftrightarrow> Suc i \<in> S"
  by (simp add: down_def)

definition left_inv :: "memory \<Rightarrow> addr \<Rightarrow> nat set \<Rightarrow> nat set \<Rightarrow> memory \<Rightarrow> bool" where
  "left_inv h0 a S D h \<longleftrightarrow> S \<subseteq> {..<8192} \<and> represents h a (down D \<union> (S - D)) \<and> can_allocate h \<and>
     same_others a h0 h"

definition left_body :: "addr \<Rightarrow> memory \<Rightarrow> u32 \<Rightarrow> memory result" where
  "left_body a h b = rbind (if 0 < sint b then parcBitVector_Set h (Some a) (b - 1) else Inr h) (\<lambda>h1.
     parcBitVector_Clear h1 (Some a) b)"

interpretation left_it: bit_iteration "\<lambda>h n. leftShift_loop h (Some a) n"
  "\<lambda>h n. parcBitVector_NextBitSet h (Some a) n" "left_body a" S "left_inv h0 a S"
  for a S h0
proof
  show "leftShift_loop h (Some a) n = rbind (parcBitVector_NextBitSet h (Some a) n) (\<lambda>b.
      if 0 \<le> sint b then rbind (left_body a h b) (\<lambda>s'. leftShift_loop s' (Some a) (b + 1)) else Inr h)" for h n
    by (subst leftShift_loop.simps) (simp add: left_body_def rbind_assoc cong: rbind_cong if_cong)
next
  fix D h m
  show "S \<subseteq> {..<8192}" if "left_inv h0 a S D h" using that by (simp add: left_inv_def)
  show "parcBitVector_NextBitSet h (Some a) n = Inr (first_from S (unat n))"
    if "left_inv h0 a S {i \<in> S. i < unat n} h" for n
  proof -
    have eq: "first_from (down {i \<in> S. i < unat n} \<union> (S - {i \<in> S. i < unat n})) (unat n) = first_from S (unat n)"
      by (rule first_from_cong) (auto simp: down_iff)
    have "represents h a (down {i \<in> S. i < unat n} \<union> (S - {i \<in> S. i < unat n}))"
      using that by (simp only: left_inv_def)
    from represents_next [OF this] show ?thesis by (simp only: eq)
  qed
  let ?D = "{i \<in> S. i < m}" and ?b = "word_of_nat m :: u32"
  assume a: "left_inv h0 a S ?D h" "m \<in> S"
  then have m: "?b < 8192" "unat ?b = m" using word_index [of m S] by (auto simp: left_inv_def)
  have "?b = 0 \<longleftrightarrow> m = 0" using unat_eq_zero [of ?b] unfolding m(2) by blast
  then have pos: "0 < sint ?b \<longleftrightarrow> 0 < m"
    using index_bounds(3) [OF m(1)] sint_zero_iff [of ?b] by linarith
  let ?C = "down ?D \<union> (S - ?D)"
  obtain h1 where h1: "(if 0 < sint ?b then parcBitVector_Set h (Some a) (?b - 1) else Inr h) = Inr h1"
      "represents h1 a (?C \<union> (if 0 < m then {m - 1} else {}))" "same_others a h h1"
  proof (cases "0 < m")
    case True
    have u: "unat (?b - 1) = m - 1" using True m(2) by (simp add: unat_diff_le word_le_nat_alt)
    then have "?b - 1 < 8192" using m by (simp add: word_less_nat_alt)
    from represents_set [OF _ this, of h a ?C] a(1) obtain h' where
        "parcBitVector_Set h (Some a) (?b - 1) = Inr h'" "represents h' a (insert (unat (?b - 1)) ?C)"
        "same_others a h h'" by (auto simp: left_inv_def)
    then show thesis using that [of h'] True pos u by simp
  next
    case False
    then show thesis using that [of h] a(1) pos by (simp add: left_inv_def)
  qed
  obtain h2 where h2: "parcBitVector_Clear h1 (Some a) ?b = Inr h2"
      "represents h2 a (?C \<union> (if 0 < m then {m - 1} else {}) - {m})" "same_others a h1 h2"
    using represents_clear [OF h1(2), of ?b] a(2) m(2) by auto
  have C: "?C \<union> (if 0 < m then {m - 1} else {}) - {m} = down {i \<in> S. i < Suc m} \<union> (S - {i \<in> S. i < Suc m})"
    using a(2) by (auto simp: down_iff less_Suc_eq)
  have i: "S \<subseteq> {..<8192}" "same_others a h0 h" "can_allocate h" using a(1) by (simp_all only: left_inv_def)
  have "left_inv h0 a S {i \<in> S. i < Suc m} h2"
    using i(1,3) h2(2) can_allocate_others [OF h2(3)] can_allocate_others [OF h1(3)]
      same_others_trans [OF same_others_trans [OF i(2) h1(3)] h2(3)]
    by (simp only: left_inv_def C)
  moreover have "left_body a h ?b = Inr h2" by (simp only: left_body_def h1(1) h2(1) rbind_simps)
  ultimately show "\<exists>h'. left_body a h ?b = Inr h' \<and> left_inv h0 a S {i \<in> S. i < Suc m} h'" by blast
qed

lemma leftShiftOnce_ok:
  assumes "represents h a S" "can_allocate h"
  obtains h' where "leftShiftOnce h (Some a) = Inr h'" "represents h' a (down S)" "same_others a h h'"
    "can_allocate h'"
proof -
  have "left_inv h a S {i \<in> S. i < unat (0 :: u32)} h"
    using assms represents_bounded [OF assms(1)] by (simp add: left_inv_def down_def)
  from left_it.run [OF this] that show thesis by (auto simp: left_inv_def leftShiftOnce_def)
qed

lemma repeat_left:
  "represents h a S \<Longrightarrow> can_allocate h \<Longrightarrow>
     \<exists>h'. repeatShift leftShiftOnce n h (Some a) = Inr h' \<and> represents h' a {i. i + n \<in> S} \<and> same_others a h h'"
proof (induction n arbitrary: h S)
  case (Suc n)
  obtain h1 where h1: "leftShiftOnce h (Some a) = Inr h1" "represents h1 a (down S)" "same_others a h h1"
      "can_allocate h1" using leftShiftOnce_ok [OF Suc.prems] by blast
  have "{i. i + n \<in> down S} = {i. i + Suc n \<in> S}" by (simp add: down_iff)
  with Suc.IH [OF h1(2,4)] h1(1,3) show ?case by (auto intro: same_others_trans)
qed simp

section \<open>Counting loops\<close>

text \<open>
  The loops that run as often as bits are set: after \<open>i\<close> rounds the search continues at \<open>n\<close>, and \<open>i\<close> bits
  lie below \<open>n\<close>.
\<close>

lemma counted_cases:
  assumes "represents h q W" "unat i = card {j \<in> W. j < unat n}"
  obtains (finished) w where "bitVectorOf h (Some q) = Inr w" "\<not> i < numberOfBitsSet w" "{j \<in> W. unat n \<le> j} = {}"
  | (more) w m b where "bitVectorOf h (Some q) = Inr w" "i < numberOfBitsSet w"
      "parcBitVector_NextBitSet h (Some q) n = Inr b" "unat b = m" "b < 8192" "b \<noteq> -1"
      "m \<in> W" "unat n \<le> m" "{j \<in> W. unat n \<le> j} = insert m {j \<in> W. unat (b + 1) \<le> j}"
      "unat (i + 1) = card {j \<in> W. j < unat (b + 1)}"
proof -
  obtain w where w: "bitVectorOf h (Some q) = Inr w" "unat (numberOfBitsSet w) = card W"
    using assms(1) by (rule represents_count)
  have fin: "finite W" using assms(1) by (rule represents_finite)
  have split: "card W = unat i + card {j \<in> W. unat n \<le> j}"
  proof -
    have "W = {j \<in> W. j < unat n} \<union> {j \<in> W. unat n \<le> j}" by auto
    then have "card W = card ({j \<in> W. j < unat n} \<union> {j \<in> W. unat n \<le> j})" by simp
    also have "\<dots> = card {j \<in> W. j < unat n} + card {j \<in> W. unat n \<le> j}"
      using fin by (intro card_Un_disjoint) auto
    finally show ?thesis using assms(2) by simp
  qed
  from represents_bounded [OF assms(1)] show thesis
  proof (cases rule: first_from_cases [where n = "unat n"])
    case none
    then have "card W = unat i" using split by (metis add.right_neutral card.empty)
    then have "\<not> i < numberOfBitsSet w" using w(2) by (simp add: word_less_nat_alt)
    then show thesis using finished w(1) none(2) by blast
  next
    case (some m)
    let ?b = "word_of_nat m :: u32"
    have b: "unat ?b = m" "?b < 8192" using some(4) by (simp_all add: unat_index word_less_nat_alt)
    note ib = index_bounds [OF b(2)]
    have less: "i < numberOfBitsSet w"
    proof -
      have "0 < card {j \<in> W. unat n \<le> j}" using fin some(2,3) by (auto simp: card_gt_0_iff)
      then show ?thesis using split w(2) by (simp add: word_less_nat_alt)
    qed
    have "{j \<in> W. j < Suc m} = insert m {j \<in> W. j < unat n}"
    proof -
      have "j < unat n" if "j \<in> W" "j < m" for j using that some(6) [of j] by linarith
      then show ?thesis using some(2,3) by (auto simp: less_Suc_eq)
    qed
    then have card: "card {j \<in> W. j < Suc m} = Suc (unat i)" using fin some(3) assms(2) by simp
    have "i \<noteq> -1" using less by (metis leD word_n1_ge)
    then have "unat (i + 1) = card {j \<in> W. j < unat (?b + 1)}"
      using card ib(2) b(1) by (simp add: unat_plus_one)
    then show thesis
      using more [of w ?b m] w(1) less represents_next [OF assms(1)] some b ib by simp
  qed
qed

lemma setVector_loop_ok:
  assumes "represents h p V" "represents h q W" "can_allocate h" "unat i = card {j \<in> W. j < unat n}"
  shows "\<exists>h'. setVector_loop h (Some p) (Some q) i n = Inr h' \<and>
    represents h' p (V \<union> {j \<in> W. unat n \<le> j}) \<and> same_others p h h' \<and> represents h' q W"
  using assms
proof (induction "8192 - unat n" arbitrary: h V i n rule: less_induct)
  case less
  from less.prems(2,4) show ?case
  proof (cases rule: counted_cases)
    case (finished w)
    have "setVector_loop h (Some p) (Some q) i n = Inr h" using finished(1,2) by (subst setVector_loop.simps) simp
    then show ?thesis using less.prems(1,2) unfolding finished(3) by simp
  next
    case (more w m b)
    obtain h1 where h1: "parcBitVector_Set h (Some p) b = Inr h1" "represents h1 p (insert m V)"
        "same_others p h h1"
      using represents_set [OF less.prems(1) more(5) less.prems(3)] more(4) by blast
    have q1: "represents h1 q W"
    proof (cases "p = q")
      case True
      have "V = W"
        using less.prems(1,2) True by (auto simp: represents_def bv_at_def)
      then show ?thesis using h1(2) more(7) True by (simp add: insert_absorb)
    next
      case False
      then show ?thesis using represents_others [OF h1(3)] less.prems(2) by simp
    qed
    have c1: "can_allocate h1" using can_allocate_others [OF h1(3)] less.prems(3) by simp
    have dec: "8192 - unat (b + 1) < 8192 - unat n"
      using index_bounds [OF more(5)] more(4,8) by simp
    obtain h2 where h2: "setVector_loop h1 (Some p) (Some q) (i + 1) (b + 1) = Inr h2"
        "represents h2 p (insert m V \<union> {j \<in> W. unat (b + 1) \<le> j})" "same_others p h1 h2" "represents h2 q W"
      using less.hyps [OF dec h1(2) q1 c1 more(10)] by blast
    have "setVector_loop h (Some p) (Some q) i n = Inr h2"
      using more(1-3,6) h1(1) h2(1) by (subst setVector_loop.simps) simp
    moreover have "represents h2 p (V \<union> {j \<in> W. unat n \<le> j})" using h2(2) unfolding more(9) by simp
    ultimately show ?thesis using h2(3,4) same_others_trans [OF h1(3)] by blast
  qed
qed

lemma clearVector_loop_ok:
  assumes "bv_at h p v" "represents h q W" "p \<noteq> q" "unat i = card {j \<in> W. j < unat n}"
  shows "\<exists>h'. clearVector_loop h (Some p) (Some q) i n = Inr h' \<and>
    represents h' p (bits v - {j \<in> W. unat n \<le> j}) \<and> same_others p h h'"
  using assms
proof (induction "8192 - unat n" arbitrary: h v i n rule: less_induct)
  case less
  have v: "bitVectorOf h (Some p) = Inr v" "represents h p (bits v)"
    using less.prems(1) by (auto simp: bv_at_def represents_def)
  from less.prems(2,4) show ?case
  proof (cases rule: counted_cases)
    case (finished w)
    have "clearVector_loop h (Some p) (Some q) i n = Inr h" using finished(1,2) by (subst clearVector_loop.simps) simp
    then show ?thesis using v(2) unfolding finished(3) by simp
  next
    case (more w m b)
    show ?thesis
    proof (cases "bitLength v \<le> b")
      case True
      have "j \<ge> m" if "j \<in> {j \<in> W. unat n \<le> j}" for j
        using that unfolding more(9) using index_bounds [OF more(5)] more(4) by auto
      then have "bits v - {j \<in> W. unat n \<le> j} = bits v"
        using True more(4) bits_subset [of v] less.prems(1)
        by (fastforce simp: bv_at_def bv_inv_def word_le_nat_alt)
      moreover have "clearVector_loop h (Some p) (Some q) i n = Inr h"
        using more(1-3) v(1) True by (subst clearVector_loop.simps) simp
      ultimately show ?thesis using v(2) by simp
    next
      case False
      then have "b < bitLength v" by simp
      from parcBitVector_Clear_inside [OF less.prems(1) this] obtain h1 v1 where h1:
          "parcBitVector_Clear h (Some p) b = Inr h1" "bv_at h1 p v1" "bits v1 = bits v - {m}" "same_others p h h1"
        using more(4) by auto
      have q1: "represents h1 q W" using represents_others [OF h1(4)] less.prems(2,3) by simp
      have dec: "8192 - unat (b + 1) < 8192 - unat n"
        using index_bounds [OF more(5)] more(4,8) by simp
      obtain h2 where h2: "clearVector_loop h1 (Some p) (Some q) (i + 1) (b + 1) = Inr h2"
          "represents h2 p (bits v1 - {j \<in> W. unat (b + 1) \<le> j})" "same_others p h1 h2"
        using less.hyps [OF dec h1(2) q1 less.prems(3) more(10)] by blast
      have "clearVector_loop h (Some p) (Some q) i n = Inr h2"
        using more(1-3,6) v(1) False h1(1) h2(1) by (subst clearVector_loop.simps) simp
      moreover have "bits v1 - {j \<in> W. unat (b + 1) \<le> j} = bits v - {j \<in> W. unat n \<le> j}"
        unfolding h1(3) more(9) by auto
      ultimately show ?thesis using h2(2,3) same_others_trans [OF h1(4)] by auto
    qed
  qed
qed

lemma contains_loop_ok:
  assumes "represents h p V" "represents h q W" "unat i = card {j \<in> W. j < unat n}"
  shows "contains_loop h (Some p) (Some q) i n = Inr ({j \<in> W. unat n \<le> j} \<subseteq> V)"
  using assms(3)
proof (induction "8192 - unat n" arbitrary: i n rule: less_induct)
  case less
  from assms(2) less.prems show ?case
  proof (cases rule: counted_cases)
    case (finished w)
    have "contains_loop h (Some p) (Some q) i n = Inr True" using finished(1,2) by (subst contains_loop.simps) simp
    then show ?thesis unfolding finished(3) by simp
  next
    case (more w m b)
    obtain g where g: "parcBitVector_Get h (Some p) b = Inr g" "g = 1 \<longleftrightarrow> m \<in> V"
      using represents_get [OF assms(1) more(5)] more(4) by auto
    have dec: "8192 - unat (b + 1) < 8192 - unat n"
      using index_bounds [OF more(5)] more(4,8) by simp
    note IH = less.hyps [OF dec more(10)]
    show ?thesis
      unfolding more(9) using more(1-3) g IH by (subst contains_loop.simps) auto
  qed
qed

section \<open>New vectors\<close>

lemma bitVector_class [simp]:
  "bitVector_types PARCBitVector_class = Some PARCBitVector_base" "prefixLength PARCBitVector_base = 152"
  by (simp_all add: bitVector_types_def prefixLength_def PARCBitVector_base_def parcObject_PrefixLength_def)

lemma bitVectorOf_objects: "bitVectorOf h (Some b) = Inr v \<Longrightarrow> objects h b \<noteq> None"
  by (cases "objects h b") (simp_all add: bitVectorOf_def parcObject_Header_def)

text \<open>\<open>h'\<close> has a new vector at \<open>a\<close> and all objects of \<open>h\<close>.\<close>

definition new_vector :: "memory \<Rightarrow> addr \<Rightarrow> nat set \<Rightarrow> memory \<Rightarrow> bool" where
  "new_vector h a S h' \<longleftrightarrow> objects h a = None \<and> represents h' a S \<and> can_allocate h' \<and>
     (\<forall>b. objects h b \<noteq> None \<longrightarrow> objects h' b = objects h b)"

lemma new_vector_represents:
  assumes "new_vector h a S h'" "represents h b T"
  shows "represents h' b T" "b \<noteq> a"
proof -
  have "objects h b \<noteq> None"
    using assms(2) by (auto simp: represents_def bv_at_def dest: bitVectorOf_objects)
  then have "objects h' b = objects h b" "b \<noteq> a" using assms(1) by (auto simp: new_vector_def)
  then show "represents h' b T" "b \<noteq> a"
    using assms(2) by (simp_all add: represents_def bv_at_def bitVectorOf_def parcObject_Header_def)
qed

lemma new_vector_others: "new_vector h a S h' \<Longrightarrow> same_others a h' h'' \<Longrightarrow> represents h'' a T \<Longrightarrow> new_vector h a T h''"
  by (simp add: new_vector_def can_allocate_def same_others_def) (metis option.distinct(1))

lemma create_vector:
  assumes "can_allocate h"
  obtains a h1 where "parcObject_CreateInstanceImpl bitVector_types h garbage PARCBitVector_class = Inr (Some a, h1)"
    "parcMemory_AllocateRaw h1 = (True, h1\<lparr>allocCount := Suc (allocCount h1)\<rparr>)" "objects h a = None"
    "\<forall>b. objects h b \<noteq> None \<longrightarrow> objects h1 b = objects h b"
    "\<And>k v. bv_inv v \<Longrightarrow> new_vector h a (bits v) (setBitVector (h1\<lparr>allocCount := k\<rparr>) (Some a) v)"
proof -
  have wf: "heap_wf h" using assms by (simp add: can_allocate_def)
  from wf bitVector_class show thesis
  proof (cases rule: create_cases [where memory = garbage])
    case oom
    then show thesis using assms by (simp add: can_allocate_def)
  next
    case (new a h1)
    have h1: "can_allocate h1" "objects h a = None" "\<forall>b. objects h b \<noteq> None \<longrightarrow> objects h1 b = objects h b"
      using new(3) assms by (auto simp: added_def can_allocate_def)
    have o: "objects h1 a \<noteq> None" using new(3) by (simp add: added_def)
    have "new_vector h a (bits v) (setBitVector (h1\<lparr>allocCount := k\<rparr>) (Some a) v)" if "bv_inv v" for k v
      using that h1 o by (auto simp: new_vector_def represents_def bv_at_def bitVectorOf_def setBitVector_def
          setContent_def parcObject_Header_def can_allocate_def)
    then show thesis
      using new(2) h1 by (intro that [of a h1]) (auto simp: can_allocate_def parcMemory_AllocateRaw_def)
  qed
qed

lemma parcBitVector_Create_ok:
  assumes "can_allocate h"
  obtains a h' where "parcBitVector_Create h = Inr (Some a, h')" "new_vector h a {} h'"
proof -
  let ?v = "\<lparr>bitLength = 8, numberOfBitsSet = 0, firstBitSet = -1, bitArray = [0], fillValue = 0\<rparr>"
  have b: "bits ?v = {}" by (auto simp: bits_def nth_Cons')
  then have inv: "bv_inv ?v" by (simp add: bv_inv_def first_from_def)
  from assms show thesis
  proof (cases rule: create_vector)
    case (1 a h1)
    then show thesis
      using 1(5) [OF inv] b that by (simp add: parcBitVector_Create_def)
  qed
qed

lemma parcBitVector_Copy_ok:
  assumes "can_allocate h" "represents h b S"
  obtains a h' where "parcBitVector_Copy h (Some b) = Inr (Some a, h')" "new_vector h a S h'"
proof -
  obtain v where v: "bitVectorOf h (Some b) = Inr v" "bv_inv v" "bits v = S"
    using assms(2) by (auto simp: represents_def bv_at_def)
  have o: "objects h b \<noteq> None" using v(1) by (rule bitVectorOf_objects)
  have len: "unat (bitLength v div 8) = length (bitArray v)" using v(2) by (simp add: bv_inv_def unat_div)
  from assms(1) show thesis
  proof (cases rule: create_vector)
    case (1 a h1)
    have "bitVectorOf h1 (Some b) = Inr v" using v(1) 1(4) o by (simp add: bitVectorOf_def parcObject_Header_def)
    then have "parcBitVector_Copy h (Some b) = Inr (Some a, setBitVector (h1\<lparr>allocCount := Suc (allocCount h1)\<rparr>) (Some a) v)"
      using 1(1,2) len by (cases v) (simp add: parcBitVector_Copy_def)
    then show thesis using that 1(5) [OF v(2)] v(3) by blast
  qed
qed

section \<open>Comparing vectors\<close>

lemma bits_byte: "j < length (bitArray v) \<Longrightarrow> t < 8 \<Longrightarrow> bit (bitArray v ! j) t \<longleftrightarrow> j * 8 + t \<in> bits v"
  by (simp add: bits_def)

lemma same_prefix:
  assumes "bits v = bits w" "k \<le> length (bitArray v)" "k \<le> length (bitArray w)"
  shows "take k (bitArray v) = take k (bitArray w)"
proof (rule nth_equalityI)
  fix j assume "j < length (take k (bitArray v))"
  then have j: "j < k" "j < length (bitArray v)" "j < length (bitArray w)" using assms(2,3) by auto
  have "bitArray v ! j = bitArray w ! j"
  proof (rule bit_word_eqI)
    fix t assume "t < LENGTH(8)"
    then show "bit (bitArray v ! j) t \<longleftrightarrow> bit (bitArray w ! j) t"
      using bits_byte [OF j(2), of t] bits_byte [OF j(3), of t] assms(1) by simp
  qed
  then show "take k (bitArray v) ! j = take k (bitArray w) ! j" using j(1) by simp
qed (use assms in simp)

lemma prefix_subset:
  assumes "take k (bitArray v) = take k (bitArray w)" "k = length (bitArray v)" "k \<le> length (bitArray w)"
  shows "bits v \<subseteq> bits w"
proof
  fix i assume i: "i \<in> bits v"
  then have "i div 8 < k" using assms(2) by (simp add: bits_def)
  then have "bitArray v ! (i div 8) = bitArray w ! (i div 8)" using assms(1) by (metis nth_take)
  with i \<open>i div 8 < k\<close> assms(3) show "i \<in> bits w" by (simp add: bits_def)
qed

lemma parcBitVector_Equals_ok:
  assumes "represents h p V" "represents h q W"
  shows "parcBitVector_Equals h (Some p) (Some q) = Inr (V = W)"
proof -
  obtain v w where v: "bitVectorOf h (Some p) = Inr v" "bv_inv v" "bits v = V"
    and w: "bitVectorOf h (Some q) = Inr w" "bv_inv w" "bits w = W"
    using assms by (auto simp: represents_def bv_at_def)
  have len: "unat (bitLength v div 8) = length (bitArray v)" "unat (bitLength w div 8) = length (bitArray w)"
    "bitLength w < bitLength v \<longleftrightarrow> length (bitArray w) < length (bitArray v)"
    using v(2) w(2) by (simp_all add: bv_inv_def unat_div word_less_nat_alt)
  define k where "k = min (length (bitArray v)) (length (bitArray w))"
  have byteLength: "(if bitLength v \<noteq> bitLength w \<and> bitLength w < bitLength v
      then unat (bitLength w div 8) else unat (bitLength v div 8)) = k"
    using len by (auto simp: k_def)
  have le: "k \<le> length (bitArray v)" "k \<le> length (bitArray w)" by (simp_all add: k_def)
  have cmp: "memcmp (take k (bitArray v)) (take k (bitArray w)) = 0 \<longleftrightarrow>
      take k (bitArray v) = take k (bitArray w)"
    using le by (intro memcmp_zero_iff) simp
  let ?same = "numberOfBitsSet v = numberOfBitsSet w \<and> firstBitSet v = firstBitSet w"
  have ok: "parcBitVector_Equals h (Some p) (Some q) =
      Inr (?same \<and> take k (bitArray v) = take k (bitArray w))"
    using v(1) w(1) le by (auto simp: parcBitVector_Equals_def byteLength cmp Let_def)
  have "?same \<and> take k (bitArray v) = take k (bitArray w) \<longleftrightarrow> V = W"
  proof
    assume "V = W"
    then show "?same \<and> take k (bitArray v) = take k (bitArray w)"
      using v w same_prefix [OF _ le] by (simp add: bv_inv_def)
  next
    assume a: "?same \<and> take k (bitArray v) = take k (bitArray w)"
    have card: "card V = card W" using a card_bits(1) v(2,3) w(2,3) by metis
    have "V \<subseteq> W \<or> W \<subseteq> V"
      using prefix_subset [of k v w] prefix_subset [of k w v] a le v(3) w(3) by (auto simp: k_def min_def split: if_splits)
    then show "V = W"
      using card card_subset_eq [of W V] card_subset_eq [of V W] v(3) w(3) by auto
  qed
  with ok show ?thesis by simp
qed

section \<open>Shift to the right\<close>

text \<open>
  After a run of bits has moved up by one, the loop goes on two positions behind the free position it moved
  into. A bit that follows the run after a gap of one position is therefore skipped.
\<close>

definition gapless :: "nat set \<Rightarrow> bool" where
  "gapless S \<longleftrightarrow> (\<forall>i \<in> S. Suc i \<notin> S \<longrightarrow> Suc (Suc i) \<notin> S)"

lemma nextZero_loop_ok:
  assumes "represents h a C" "C \<subseteq> {..<8191}" "unat n \<le> 8191"
  shows "\<exists>z. nextZero_loop h (Some a) n = Inr z \<and> unat n \<le> unat z \<and> unat z \<le> 8191 \<and> unat z \<notin> C \<and>
    {unat n..<unat z} \<subseteq> C"
  using assms(3)
proof (induction "8192 - unat n" arbitrary: n rule: less_induct)
  case less
  have n: "n < 8192" using less.prems by (simp add: word_less_nat_alt)
  obtain g where g: "parcBitVector_Get h (Some a) n = Inr g" "g = 1 \<longleftrightarrow> unat n \<in> C"
    using represents_get [OF assms(1) n] by auto
  show ?case
  proof (cases "unat n \<in> C")
    case True
    then have lt: "unat n < 8191" using assms(2) by auto
    have dec: "8192 - unat (n + 1) < 8192 - unat n" using lt index_bounds(2) [OF n] by simp
    obtain z where z: "nextZero_loop h (Some a) (n + 1) = Inr z" "Suc (unat n) \<le> unat z" "unat z \<le> 8191"
        "unat z \<notin> C" "{Suc (unat n)..<unat z} \<subseteq> C"
      using less.hyps [OF dec] index_bounds(2) [OF n] lt by auto
    have "{unat n..<unat z} \<subseteq> C"
    proof
      fix i assume "i \<in> {unat n..<unat z}"
      then show "i \<in> C" using True z(5) by (cases "i = unat n") auto
    qed
    then show ?thesis using z g True by (subst nextZero_loop.simps) auto
  next
    case False
    then show ?thesis using g less.prems by (subst nextZero_loop.simps) auto
  qed
qed

lemma setRun_loop_ok:
  assumes "represents h a C" "can_allocate h" "unat z \<le> 8191" "unat b \<le> Suc (unat z)"
  shows "\<exists>h'. setRun_loop h (Some a) b z = Inr (z + 1, h') \<and> represents h' a (C \<union> {unat b..unat z}) \<and>
    same_others a h h'"
  using assms(1,2,4)
proof (induction "8193 - unat b" arbitrary: h C b rule: less_induct)
  case less
  have z: "unat (z + 1) = Suc (unat z)" using assms(3) index_bounds(2) [of z] by (simp add: word_less_nat_alt)
  show ?case
  proof (cases "b \<le> z")
    case True
    then have b: "b < 8192" "unat b \<le> unat z" using assms(3) by (simp_all add: word_le_nat_alt word_less_nat_alt)
    note ib = index_bounds [OF b(1)]
    obtain h1 where h1: "parcBitVector_Set h (Some a) b = Inr h1" "represents h1 a (insert (unat b) C)"
        "same_others a h h1" using represents_set [OF less.prems(1) b(1) less.prems(2)] by blast
    have c1: "can_allocate h1" using can_allocate_others [OF h1(3)] less.prems(2) by simp
    have dec: "8193 - unat (b + 1) < 8193 - unat b" using ib by simp
    obtain h2 where h2: "setRun_loop h1 (Some a) (b + 1) z = Inr (z + 1, h2)"
        "represents h2 a (insert (unat b) C \<union> {Suc (unat b)..unat z})" "same_others a h1 h2"
      using less.hyps [OF dec h1(2) c1] ib b(2) by auto
    have "insert (unat b) C \<union> {Suc (unat b)..unat z} = C \<union> {unat b..unat z}" using b(2) by auto
    then show ?thesis
      using h1(1) h2 True same_others_trans [OF h1(3)] by (subst setRun_loop.simps) auto
  next
    case False
    then have "unat b = Suc (unat z)" using less.prems(3) by (simp add: word_le_nat_alt)
    then have "b = z + 1" using z by (simp add: word_unat_eq_iff)
    then show ?thesis using False less.prems(1) z by (subst setRun_loop.simps) auto
  qed
qed

text \<open>The state of the outer loop: the bits below \<open>n\<close> have moved, and the last position below \<open>n\<close> was free.\<close>

definition right_inv :: "memory \<Rightarrow> addr \<Rightarrow> nat set \<Rightarrow> nat \<Rightarrow> memory \<Rightarrow> bool" where
  "right_inv h0 a S n h \<longleftrightarrow> represents h a (Suc ` {i \<in> S. i < n} \<union> {i \<in> S. n \<le> i}) \<and>
     can_allocate h \<and> same_others a h0 h \<and> (n = 0 \<or> n - 1 \<notin> S)"

lemma right_step:
  assumes "right_inv h0 a S (unat n) h" "S \<subseteq> {..<8191}" "gapless S" "\<exists>i \<in> S. unat n \<le> i"
  obtains b z h1 h2 where "parcBitVector_NextBitSet h (Some a) n = Inr b" "0 \<le> sint b"
    "nextZero_loop h (Some a) (b + 1) = Inr z" "parcBitVector_Clear h (Some a) b = Inr h1"
    "setRun_loop h1 (Some a) (b + 1) z = Inr (z + 1, h2)" "unat n < unat z" "unat z \<le> 8191"
    "right_inv h0 a S (unat z + 2) h2"
proof -
  let ?n = "unat n"
  let ?C = "Suc ` {i \<in> S. i < ?n} \<union> {i \<in> S. ?n \<le> i}"
  have rep: "represents h a ?C" and ca: "can_allocate h" and so: "same_others a h0 h"
    and free: "?n = 0 \<or> ?n - 1 \<notin> S" using assms(1) by (simp_all only: right_inv_def)
  have below: "Suc i < ?n" if "i \<in> S" "i < ?n" for i
  proof -
    have "i \<noteq> ?n - 1" using that free by auto
    with that(2) show ?thesis by simp
  qed
  have C: "i \<in> ?C \<longleftrightarrow> i \<in> S" if "?n \<le> i" for i using that below by force
  have S: "S \<subseteq> {..<8192}" using assms(2) by auto
  then obtain m where m: "first_from S ?n = word_of_nat m" "m \<in> S" "?n \<le> m" "m < 8191"
      "\<And>i. i \<in> S \<Longrightarrow> ?n \<le> i \<Longrightarrow> m \<le> i"
  proof (cases rule: first_from_cases [where n = ?n])
    case none
    then show thesis using assms(4) by blast
  next
    case (some m)
    then show thesis using that assms(2) by auto
  qed
  let ?b = "word_of_nat m :: u32"
  have b: "unat ?b = m" "?b < 8192" using m(4) by (simp_all add: unat_index word_less_nat_alt)
  note ib = index_bounds [OF b(2)]
  have search: "parcBitVector_NextBitSet h (Some a) n = Inr ?b"
  proof -
    have "first_from ?C ?n = first_from S ?n" using C by (intro first_from_cong) auto
    then show ?thesis using represents_next [OF rep, of n] m(1) by simp
  qed
  have C8: "?C \<subseteq> {..<8191}"
  proof
    fix i assume "i \<in> ?C"
    then consider j where "i = Suc j" "j \<in> S" "j < ?n" | "i \<in> S" by auto
    then show "i \<in> {..<8191}" using below m(3,4) assms(2) by cases force+
  qed
  obtain z where z: "nextZero_loop h (Some a) (?b + 1) = Inr z" "Suc m \<le> unat z" "unat z \<le> 8191"
      "unat z \<notin> ?C" "{Suc m..<unat z} \<subseteq> ?C"
    using nextZero_loop_ok [OF rep C8, of "?b + 1"] ib(2) b(1) m(4) by auto
  obtain h1 where h1: "parcBitVector_Clear h (Some a) ?b = Inr h1" "represents h1 a (?C - {m})" "same_others a h h1"
    using represents_clear [OF rep, of ?b] b(1) C m(2,3) by auto
  have ca1: "can_allocate h1" using can_allocate_others [OF h1(3)] ca by simp
  obtain h2 where h2: "setRun_loop h1 (Some a) (?b + 1) z = Inr (z + 1, h2)"
      "represents h2 a (?C - {m} \<union> {Suc m..unat z})" "same_others a h1 h2"
    using setRun_loop_ok [OF h1(2) ca1 z(3), of "?b + 1"] ib(2) b(1) z(2) by auto
  have run: "i \<in> S" if "m \<le> i" "i < unat z" for i
  proof (cases "i = m")
    case False
    then have "i \<in> {Suc m..<unat z}" using that by simp
    with z(5) have "i \<in> ?C" by (rule subsetD)
    then show ?thesis using that(1) m(3) by (intro iffD1 [OF C]) auto
  qed (simp add: m(2))
  have zS: "unat z \<notin> S" using z(2,4) C m(3) by auto
  have zS': "Suc (unat z) \<notin> S"
    using assms(3) run [of "unat z - 1"] z(2) zS unfolding gapless_def by (cases "unat z") auto
  have "?C - {m} \<union> {Suc m..unat z} = Suc ` {i \<in> S. i < unat z + 2} \<union> {i \<in> S. unat z + 2 \<le> i}"
    (is "?L = ?R")
  proof (rule set_eqI)
    fix i
    consider "i < ?n" | "?n \<le> i" "i \<le> m" | "m < i" "i \<le> unat z" | "i = Suc (unat z)" | "unat z + 2 \<le> i"
      by linarith
    then show "i \<in> ?L \<longleftrightarrow> i \<in> ?R"
    proof cases
      case 1
      then show ?thesis using m(3) z(2) by auto
    next
      case 2
      have "i \<notin> ?L" using 2 C [OF 2(1)] m(5) [OF _ 2(1)] by (cases "i = m") auto
      moreover have "i \<notin> ?R"
      proof
        assume "i \<in> ?R"
        then obtain j where "i = Suc j" "j \<in> S" using 2 z(2) by auto
        then show False using 2 m(5) [of j] below [of j] by (cases "j < ?n") auto
      qed
      ultimately show ?thesis by blast
    next
      case 3
      then have "i - 1 \<in> S" using run [of "i - 1"] by auto
      then have "i \<in> Suc ` {i \<in> S. i < unat z + 2}" using 3 by (intro image_eqI [of _ _ "i - 1"]) auto
      with 3 show ?thesis by auto
    next
      case 4
      then show ?thesis using zS zS' z(2) m(3) C [of i] by auto
    next
      case 5
      then have "i \<in> ?C \<longleftrightarrow> i \<in> S" using C z(2) m(3) by auto
      with 5 show ?thesis using z(2) zS zS' by (auto simp: less_Suc_eq)
    qed
  qed
  then have "right_inv h0 a S (unat z + 2) h2"
    using h2(2) zS' ca1 can_allocate_others [OF h2(3)]
      same_others_trans [OF same_others_trans [OF so h1(3)] h2(3)]
    by (simp add: right_inv_def)
  then show thesis using that search ib(3) z(1,3) h1(1) h2(1) z(2) m(3) by auto
qed

lemma rightShift_loop_ok:
  assumes "S \<subseteq> {..<8191}" "gapless S"
  shows "right_inv h0 a S (unat n) h \<Longrightarrow>
    \<exists>h' k. rightShift_loop h (Some a) n = Inr h' \<and> right_inv h0 a S k h' \<and> (\<forall>i \<in> S. i < k)"
proof (induction "8194 - unat n" arbitrary: n h rule: less_induct)
  case less
  show ?case
  proof (cases "\<exists>i \<in> S. unat n \<le> i")
    case True
    from less.prems assms True show ?thesis
    proof (cases rule: right_step)
      case (1 b z h1 h2)
      have "unat (z + 1) = Suc (unat z)" using 1(7) index_bounds(2) [of z] by (simp add: word_less_nat_alt)
      moreover have "unat (z + 1 + 1) = Suc (unat (z + 1))"
        using \<open>unat (z + 1) = Suc (unat z)\<close> 1(7) unat_add_no_wrap [of "z + 1" 1] by simp
      ultimately have u: "unat (z + 1 + 1) = unat z + 2" by simp
      have dec: "8194 - unat (z + 1 + 1) < 8194 - unat n" using 1(6,7) u by linarith
      have "right_inv h0 a S (unat (z + 1 + 1)) h2" using 1(8) u by simp
      from less.hyps [OF dec this] 1 show ?thesis by (subst rightShift_loop.simps) simp
    qed
  next
    case False
    then have no: "\<forall>i \<in> S. i < unat n" by auto
    have r: "represents h a (Suc ` {i \<in> S. i < unat n} \<union> {i \<in> S. unat n \<le> i})" "unat n = 0 \<or> unat n - 1 \<notin> S"
      using less.prems by (simp_all only: right_inv_def)
    have "first_from (Suc ` {i \<in> S. i < unat n} \<union> {i \<in> S. unat n \<le> i}) (unat n) = -1"
    proof (rule first_from_none)
      fix i assume "i \<in> Suc ` {i \<in> S. i < unat n} \<union> {i \<in> S. unat n \<le> i}"
      then obtain j where "i = Suc j" "j \<in> S" "j < unat n" using no by auto
      then show "i < unat n" using r(2) by (cases "i = unat n") auto
    qed
    then have "parcBitVector_NextBitSet h (Some a) n = Inr (-1)"
      using represents_next [OF r(1), of n] by (simp only:)
    then have "rightShift_loop h (Some a) n = Inr h" by (subst rightShift_loop.simps) simp
    then show ?thesis using less.prems no by blast
  qed
qed

lemma rightShiftOnce_ok:
  assumes "represents h a S" "can_allocate h" "S \<subseteq> {..<8191}" "gapless S"
  obtains h' where "rightShiftOnce h (Some a) = Inr h'" "represents h' a (Suc ` S)" "same_others a h h'"
    "can_allocate h'"
proof -
  have "right_inv h a S (unat 0) h" using assms(1,2) by (simp add: right_inv_def)
  from rightShift_loop_ok [OF assms(3,4) this] obtain h' k where h': "rightShift_loop h (Some a) 0 = Inr h'"
      "right_inv h a S k h'" "\<forall>i \<in> S. i < k" by blast
  have "{i \<in> S. i < k} = S" "{i \<in> S. k \<le> i} = {}" using h'(3) by auto
  then have "represents h' a (Suc ` S)" "same_others a h h'" "can_allocate h'"
    using h'(2) by (simp_all only: right_inv_def Un_empty_right)
  then show thesis using that h'(1) by (simp add: rightShiftOnce_def)
qed

lemma repeat_right:
  "represents h a S \<Longrightarrow> can_allocate h \<Longrightarrow> S \<subseteq> {..<8192 - n} \<Longrightarrow> gapless S \<Longrightarrow>
     \<exists>h'. repeatShift rightShiftOnce n h (Some a) = Inr h' \<and> represents h' a ((\<lambda>i. i + n) ` S) \<and> same_others a h h'"
proof (induction n arbitrary: h S)
  case (Suc n)
  have "S \<subseteq> {..<8191}" using Suc.prems(3) by auto
  with Suc.prems obtain h1 where h1: "rightShiftOnce h (Some a) = Inr h1" "represents h1 a (Suc ` S)"
      "same_others a h h1" "can_allocate h1" using rightShiftOnce_ok by blast
  have "Suc ` S \<subseteq> {..<8192 - n}" "gapless (Suc ` S)"
    using Suc.prems(3,4) by (auto simp: gapless_def)
  from Suc.IH [OF h1(2,4) this] h1(1,3) show ?case
    by (auto simp: image_image intro: same_others_trans)
qed auto

section \<open>Properties\<close>


text \<open>A memory with a vector of 8 bits, of which 0 and 2 are set.\<close>

definition example_bits :: parc_bit_vector where
  "example_bits = \<lparr>bitLength = 8, numberOfBitsSet = 2, firstBitSet = 0, bitArray = [5], fillValue = 0\<rparr>"

definition example_bit_memory :: memory where
  "example_bit_memory = empty_heap
     \<lparr>objects := [200 \<mapsto> parcObjectHeader_InitAllocated PARCBitVector_base PARCBitVector_class
                   (BitVectorContent example_bits)],
      blocks := (\<lambda>b. b = 48), brk := 232\<rparr>"

lemma example_vector:
  "bv_at example_bit_memory 200 example_bits" "bits example_bits = {0, 2}"
  "represents example_bit_memory 200 {0, 2}" "can_allocate example_bit_memory"
proof -
  have "i \<in> bits example_bits \<longleftrightarrow> i \<in> {0, 2}" for i
  proof (cases "i < 8")
    case True
    then have "i \<in> {0, 1, 2, 3, 4, 5, 6, 7}" by auto
    then show ?thesis by (auto simp: bits_def example_bits_def)
  next
    case False
    then have "\<not> i div 8 < 1" by (simp add: div_less_iff_less_mult)
    with False show ?thesis by (auto simp: bits_def example_bits_def)
  qed
  then show b: "bits example_bits = {0, 2}" by blast
  have "first_from {0, 2} 0 = word_of_nat 0" by (rule first_from_some) auto
  then have "bv_inv example_bits" unfolding bv_inv_def b by (simp add: example_bits_def)
  then show "bv_at example_bit_memory 200 example_bits"
    by (simp add: bv_at_def bitVectorOf_def example_bit_memory_def parcObjectHeader_InitAllocated_def)
  with b show "represents example_bit_memory 200 {0, 2}" by (auto simp: represents_def)
  show "can_allocate example_bit_memory"
    by (auto simp: can_allocate_def heap_wf_def example_bit_memory_def empty_heap_def split: if_splits)
qed


text \<open>
  C37: the operations on two vectors are those on sets. \<open>Equals\<close> is equality, also for vectors of different lengths,
  \<open>Contains\<close> is inclusion, \<open>SetVector\<close> is union and \<open>ClearVector\<close> is difference, in both cases also when the two
  arguments are the same vector, and \<open>Or\<close> and \<open>And\<close> make a new vector with the union and the intersection
  and leave their arguments as they are.
\<close>

theorem parcBitVector_set_algebra:
  assumes "represents h p V" "represents h q W" "can_allocate h"
  shows "parcBitVector_Equals h (Some p) (Some q) = Inr (V = W) \<and>
    parcBitVector_Contains h (Some p) (Some q) = Inr (W \<subseteq> V) \<and>
    (\<exists>h'. parcBitVector_SetVector h (Some p) (Some q) = Inr h' \<and> represents h' p (V \<union> W) \<and> same_others p h h') \<and>
    (\<exists>h'. parcBitVector_ClearVector h (Some p) (Some q) = Inr h' \<and> represents h' p (V - W) \<and> same_others p h h') \<and>
    (\<exists>r h'. parcBitVector_Or h (Some p) (Some q) = Inr (Some r, h') \<and> new_vector h r (V \<union> W) h') \<and>
    (\<exists>r h'. parcBitVector_And h (Some p) (Some q) = Inr (Some r, h') \<and> new_vector h r (V \<inter> W) h')"
proof -
  have zero: "unat (0 :: u32) = card {j \<in> W. j < unat (0 :: u32)}" by simp
  have "parcBitVector_Contains h (Some p) (Some q) = Inr (W \<subseteq> V)"
    using contains_loop_ok [OF assms(1,2) zero] by (simp add: parcBitVector_Contains_def)
  moreover have "\<exists>h'. parcBitVector_SetVector h (Some p) (Some q) = Inr h' \<and> represents h' p (V \<union> W) \<and> same_others p h h'"
    using setVector_loop_ok [OF assms zero] by (auto simp: parcBitVector_SetVector_def)
  moreover have "\<exists>h'. parcBitVector_ClearVector h (Some p) (Some q) = Inr h' \<and> represents h' p (V - W) \<and> same_others p h h'"
  proof -
    obtain v w where v: "bv_at h p v" "bits v = V" "bv_at h q w" "bits w = W"
      using assms(1,2) by (auto simp: represents_def)
    show ?thesis
    proof (cases "p = q")
      case True
      then have "V - W = {}" using v by (auto simp: bv_at_def)
      then show ?thesis
        using True parcBitVector_Reset_ok [OF v(1)] by (auto simp: parcBitVector_ClearVector_def represents_def)
    next
      case False
      then show ?thesis
        using clearVector_loop_ok [OF v(1) assms(2) False zero] v(2) by (auto simp: parcBitVector_ClearVector_def)
    qed
  qed
  moreover have "\<exists>r h'. parcBitVector_Or h (Some p) (Some q) = Inr (Some r, h') \<and> new_vector h r (V \<union> W) h'"
  proof -
    obtain r h1 where h1: "parcBitVector_Copy h (Some p) = Inr (Some r, h1)" "new_vector h r V h1"
      using parcBitVector_Copy_ok [OF assms(3,1)] .
    have "or_inv h1 r q V W {i \<in> W. i < unat (0 :: u32)} h1"
      using h1(2) new_vector_represents [OF h1(2) assms(2)] by (auto simp: or_inv_def new_vector_def)
    from or_it.run [OF this] obtain h2 where "or_loop h1 (Some r) (Some q) 0 = Inr h2" "or_inv h1 r q V W W h2"
      by blast
    then show ?thesis
      using h1 new_vector_others [OF h1(2)] by (auto simp: parcBitVector_Or_def or_inv_def)
  qed
  moreover have "\<exists>r h'. parcBitVector_And h (Some p) (Some q) = Inr (Some r, h') \<and> new_vector h r (V \<inter> W) h'"
  proof -
    obtain r h1 where h1: "parcBitVector_Create h = Inr (Some r, h1)" "new_vector h r {} h1"
      using parcBitVector_Create_ok [OF assms(3)] .
    have "and_inv h1 r p q V W {i \<in> V. i < unat (0 :: u32)} h1"
      using h1(2) new_vector_represents [OF h1(2) assms(1)] new_vector_represents [OF h1(2) assms(2)]
      by (auto simp: and_inv_def new_vector_def)
    from and_it.run [OF this] obtain h2 where "and_loop h1 (Some r) (Some p) (Some q) 0 = Inr h2"
        "and_inv h1 r p q V W V h2" by blast
    then show ?thesis
      using h1 new_vector_others [OF h1(2)] by (auto simp: parcBitVector_And_def and_inv_def)
  qed
  ultimately show ?thesis using parcBitVector_Equals_ok [OF assms(1,2)] by blast
qed

theorem parcBitVector_set_algebra_witness:
  "\<exists>h'. parcBitVector_ClearVector example_bit_memory (Some 200) (Some 200) = Inr h' \<and> represents h' 200 {} \<and>
     parcBitVector_Contains example_bit_memory (Some 200) (Some 200) = Inr True"
  using parcBitVector_set_algebra [OF example_vector(3,3,4)] by auto

text \<open>
  \<open>parcBitVector_LeftShift\<close> moves every bit down by the count; bits that would move below 0 are dropped.
  \<open>parcBitVector_RightShift\<close> moves every bit up by the count when the bits stay below 8192 and no bit is
  followed by a single free position and another bit.
\<close>

theorem parcBitVector_shifts:
  assumes "represents h a S" "can_allocate h"
  shows "(\<exists>h'. parcBitVector_LeftShift h (Some a) k = Inr (Some a, h') \<and>
      represents h' a {i. i + unat k \<in> S} \<and> same_others a h h') \<and>
    (S \<subseteq> {..<8192 - unat k} \<and> gapless S \<longrightarrow>
      (\<exists>h'. parcBitVector_RightShift h (Some a) k = Inr (Some a, h') \<and>
        represents h' a ((\<lambda>i. i + unat k) ` S) \<and> same_others a h h'))"
  using repeat_left [OF assms] repeat_right [OF assms]
  by (fastforce simp: parcBitVector_LeftShift_def parcBitVector_RightShift_def)

theorem parcBitVector_shifts_witness:
  "\<exists>h'. parcBitVector_LeftShift example_bit_memory (Some 200) 2 = Inr (Some 200, h') \<and> represents h' 200 {0}"
proof -
  have "{i. i + unat (2 :: size_t) \<in> {0, 2}} = {0}" by auto
  with parcBitVector_shifts [OF example_vector(3,4), of 2] show ?thesis by auto
qed

text \<open>
  A bit that follows another after a single free position is not shifted to the right: of the bits \<open>i\<close> and
  \<open>i + 2\<close>, shifting by one moves the first next to the second, which stays where it is.
\<close>

theorem parcBitVector_RightShift_gap:
  assumes "represents h a {i, i + 2}" "can_allocate h" "i + 2 < 8191"
  shows "\<exists>h'. parcBitVector_RightShift h (Some a) 1 = Inr (Some a, h') \<and> represents h' a {i + 1, i + 2}"
proof -
  let ?b = "word_of_nat i :: u32"
  have b: "unat ?b = i" "?b < 8192" using assms(3) by (simp_all add: unat_index word_less_nat_alt)
  note ib = index_bounds [OF b(2)]
  have first: "parcBitVector_NextBitSet h (Some a) 0 = Inr ?b"
  proof -
    have "first_from {i, i + 2} (unat (0 :: u32)) = ?b" by (rule first_from_some) auto
    then show ?thesis using represents_next [OF assms(1), of 0] by simp
  qed
  have sub: "{i, i + 2} \<subseteq> {..<8191}" using assms(3) by auto
  obtain z where z: "nextZero_loop h (Some a) (?b + 1) = Inr z" "unat (?b + 1) \<le> unat z" "unat z \<le> 8191"
      "{unat (?b + 1)..<unat z} \<subseteq> {i, i + 2}"
    using nextZero_loop_ok [OF assms(1) sub, of "?b + 1"] ib(2) b(1) assms(3) by auto
  have uz: "unat z = i + 1"
  proof (rule ccontr)
    assume "unat z \<noteq> i + 1"
    then have "i + 1 \<in> {unat (?b + 1)..<unat z}" using z(2) ib(2) b(1) by simp
    with z(4) show False by auto
  qed
  obtain h1 where h1: "parcBitVector_Clear h (Some a) ?b = Inr h1" "represents h1 a ({i, i + 2} - {i})"
      "same_others a h h1" using represents_clear [OF assms(1), of ?b] b(1) by auto
  have ca1: "can_allocate h1" using can_allocate_others [OF h1(3)] assms(2) by simp
  obtain h2 where h2: "setRun_loop h1 (Some a) (?b + 1) z = Inr (z + 1, h2)"
      "represents h2 a ({i, i + 2} - {i} \<union> {unat (?b + 1)..unat z})"
    using setRun_loop_ok [OF h1(2) ca1 z(3), of "?b + 1"] ib(2) b(1) uz by auto
  have set: "{i, i + 2} - {i} \<union> {unat (?b + 1)..unat z} = {i + 1, i + 2}" using ib(2) b(1) uz by auto
  have "unat (z + 1) = i + 2" "unat (z + 1 + 1) = i + 3"
    using uz assms(3) unat_add_no_wrap [of z 1] unat_add_no_wrap [of "z + 1" 1] by simp_all
  then have "first_from {i + 1, i + 2} (unat (z + 1 + 1)) = -1" by (intro first_from_none) auto
  then have "parcBitVector_NextBitSet h2 (Some a) (z + 1 + 1) = Inr (-1)"
    using represents_next [OF h2(2)] unfolding set by simp
  then have "rightShift_loop h2 (Some a) (z + 1 + 1) = Inr h2" by (subst rightShift_loop.simps) simp
  then have "rightShift_loop h (Some a) 0 = Inr h2"
    using first ib(3) z(1) h1(1) h2(1) by (subst rightShift_loop.simps) simp
  then show ?thesis using h2(2) unfolding set by (simp add: parcBitVector_RightShift_def rightShiftOnce_def)
qed

theorem parcBitVector_RightShift_gap_witness:
  "\<exists>h'. parcBitVector_RightShift example_bit_memory (Some 200) 1 = Inr (Some 200, h') \<and> represents h' 200 {1, 2}"
  using parcBitVector_RightShift_gap [of example_bit_memory 200 0] example_vector(3,4)
  by (simp add: numeral_2_eq_2)

text \<open>
  Clearing the bit right behind the end of a vector reads past its array; clearing any other bit below 8192
  works, whether it lies inside the vector or beyond its end.
\<close>

theorem parcBitVector_Clear_boundary:
  assumes "bv_at h a v" "can_allocate h" "n < 8192"
  shows "parcBitVector_Clear h (Some a) n = Inl Undefined \<and> n = bitLength v \<or>
    (\<exists>h'. parcBitVector_Clear h (Some a) n = Inr h' \<and> represents h' a (bits v - {unat n}) \<and> n \<noteq> bitLength v)"
proof -
  consider "n < bitLength v" | "n = bitLength v" | "bitLength v < n" by (rule linorder_cases)
  then show ?thesis
  proof cases
    case 1
    then show ?thesis using parcBitVector_Clear_inside [OF assms(1) 1] by (auto simp: represents_def)
  next
    case 2
    then show ?thesis
      using assms(1,3) by (simp add: bv_at_def bv_inv_def parcBitVector_Clear_def Let_def bv_byte_def unat_div)
  next
    case 3
    then show ?thesis
      using parcBitVector_Clear_outside [OF assms(1,3) _ 3] assms(2) by (auto simp: represents_def can_allocate_def)
  qed
qed

theorem parcBitVector_Clear_boundary_witness:
  "parcBitVector_Clear example_bit_memory (Some 200) 8 = Inl Undefined"
  using parcBitVector_Clear_boundary [OF example_vector(1,4), of 8] by (simp add: example_bits_def)

end
