(* ===== verification/Parc_RingBuffer.thy ===== *)
theory Parc_RingBuffer
  imports Parc_Prelude
begin

text \<open>
  The ring buffer for one producer and one consumer (\<^verbatim>\<open>parc_RingBuffer_1x1.c\<close>): its operations, the same
  operations cut at their accesses to the shared fields, and the interleavings of a thread that puts
  with a thread that gets. A ring is the content of one object; what its allocations answer
  is an argument of \<open>Create\<close>.
\<close>

section \<open>The ring and its operations\<close>

text \<open>\<open>slots\<close> is the array \<open>buffer\<close>, \<open>has_destroyer\<close> tells whether the function pointer \<open>destroyer\<close> is set.\<close>

record ring1x1 =
  writer_head :: u32
  reader_tail :: u32
  elements :: u32
  ring_mask :: u32
  has_destroyer :: bool
  slots :: "ptr list"

definition isPowerOfTwo :: "u32 \<Rightarrow> bool" where
  "isPowerOfTwo x \<longleftrightarrow> x \<noteq> 0 \<and> \<not> (x AND (x - 1) \<noteq> 0)"

definition ring_create :: "bool \<Rightarrow> bool \<Rightarrow> u32 \<Rightarrow> bool \<Rightarrow> ring1x1 result" where
  "ring_create object_granted array_granted n destroyer =
    rbind (assertTrue object_granted) (\<lambda>_.
    rbind (assertTrue array_granted) (\<lambda>_.
    Inr \<lparr>writer_head = 0, reader_tail = 0, elements = n, ring_mask = n - 1,
         has_destroyer = destroyer, slots = replicate (unat n) None\<rparr>))"

definition parcRingBuffer1x1_Create :: "bool \<Rightarrow> bool \<Rightarrow> u32 \<Rightarrow> bool \<Rightarrow> ring1x1 result" where
  "parcRingBuffer1x1_Create object_granted array_granted n destroyer =
    rbind (assertTrue (isPowerOfTwo n)) (\<lambda>_. ring_create object_granted array_granted n destroyer)"

text \<open>An access to \<open>ring->buffer[i]\<close>.\<close>

definition ring_slot :: "ring1x1 \<Rightarrow> u32 \<Rightarrow> ptr result" where
  "ring_slot r i = (if unat i < length (slots r) then Inr (slots r ! unat i) else Inl Undefined)"

definition set_slot :: "ring1x1 \<Rightarrow> u32 \<Rightarrow> ptr \<Rightarrow> ring1x1 result" where
  "set_slot r i p =
    (if unat i < length (slots r) then Inr (r\<lparr>slots := (slots r)[unat i := p]\<rparr>) else Inl Undefined)"

definition parcRingBuffer1x1_Put :: "ring1x1 \<Rightarrow> ptr \<Rightarrow> (bool \<times> ring1x1) result" where
  "parcRingBuffer1x1_Put r data =
    (let head = writer_head r; tail = reader_tail r; writer_next = (head + 1) AND ring_mask r in
     if writer_next = tail then Inr (False, r)
     else rbind (ring_slot r head) (\<lambda>old.
          rbind (assertTrue (old = None)) (\<lambda>_.
          rbind (set_slot r head data) (\<lambda>r1.
          Inr (True, r1\<lparr>writer_head := writer_next\<rparr>)))))"

text \<open>
  \<open>Get\<close> returns \<open>None\<close> for false and \<open>Some p\<close> for true with \<open>p\<close> written to \<open>outputDataPtr\<close>.
\<close>

definition parcRingBuffer1x1_Get :: "ring1x1 \<Rightarrow> (ptr option \<times> ring1x1) result" where
  "parcRingBuffer1x1_Get r =
    (let head = writer_head r; tail = reader_tail r; reader_next = (tail + 1) AND ring_mask r in
     if head = tail then Inr (None, r)
     else let r1 = r\<lparr>reader_tail := reader_next\<rparr> in
          rbind (ring_slot r1 tail) (\<lambda>p.
          rbind (set_slot r1 tail None) (\<lambda>r2. Inr (Some p, r2))))"

definition parcRingBuffer1x1_Remaining :: "ring1x1 \<Rightarrow> u32" where
  "parcRingBuffer1x1_Remaining r =
    (let head = writer_head r; tail = reader_tail r in (ring_mask r + tail - head) AND ring_mask r)"

text \<open>
  The destructor gives every entry left in the ring to the destroyer; the model returns the entries in
  the order of these calls and the ring before its array is deallocated. \<open>None\<close> is a loop that does not end.
\<close>

partial_function (option) drain_loop :: "ring1x1 \<Rightarrow> ptr list \<Rightarrow> (ptr list \<times> ring1x1) result option" where
  "drain_loop r destroyed =
    (case parcRingBuffer1x1_Get r of
       Inl e \<Rightarrow> Some (Inl e)
     | Inr (None, r1) \<Rightarrow> Some (Inr (destroyed, r1))
     | Inr (Some p, r1) \<Rightarrow> drain_loop r1 (destroyed @ [p]))"

definition ring_destroy :: "ring1x1 \<Rightarrow> (ptr list \<times> ring1x1) result option" where
  "ring_destroy r = (if has_destroyer r then drain_loop r [] else Some (Inr ([], r)))"

section \<open>Operations cut at their shared accesses\<close>

text \<open>
  Where a \<open>Put\<close> is: before it read \<open>writer_head\<close>, before it read \<open>reader_tail\<close>, before the assertion read its slot, before
  the slot is written, before \<open>writer_head\<close> is published. The arguments are its local variables \<open>data\<close>,
  \<open>writer_head\<close> and \<open>writer_next\<close>.
\<close>

datatype producer =
    PIdle
  | PStart ptr
  | PHead ptr u32
  | PAssert ptr u32 u32
  | PStore ptr u32 u32
  | PPublish ptr u32 u32

text \<open>
  Where a \<open>Get\<close> is: before it read \<open>writer_head\<close>, before it read \<open>reader_tail\<close>, before it stores
  \<open>reader_tail\<close>, before it read its slot, before it clears the slot and returns the entry.
\<close>

datatype consumer =
    CIdle
  | CStart
  | CHead u32
  | CClaim u32 u32
  | CRead u32
  | CClear u32 ptr

text \<open>One step; the last component is the value of the call when this step ends it.\<close>

fun producer_step :: "ring1x1 \<Rightarrow> producer \<Rightarrow> (ring1x1 \<times> producer \<times> bool option) result" where
  "producer_step r PIdle = Inr (r, PIdle, None)"
| "producer_step r (PStart d) = Inr (r, PHead d (writer_head r), None)"
| "producer_step r (PHead d head) =
    (let tail = reader_tail r; writer_next = (head + 1) AND ring_mask r in
     if writer_next = tail then Inr (r, PIdle, Some False) else Inr (r, PAssert d head writer_next, None))"
| "producer_step r (PAssert d head writer_next) =
    rbind (ring_slot r head) (\<lambda>old. rbind (assertTrue (old = None)) (\<lambda>_.
    Inr (r, PStore d head writer_next, None)))"
| "producer_step r (PStore d head writer_next) =
    rbind (set_slot r head d) (\<lambda>r1. Inr (r1, PPublish d head writer_next, None))"
| "producer_step r (PPublish d head writer_next) =
    Inr (r\<lparr>writer_head := writer_next\<rparr>, PIdle, Some True)"

fun consumer_step :: "ring1x1 \<Rightarrow> consumer \<Rightarrow> (ring1x1 \<times> consumer \<times> ptr option option) result" where
  "consumer_step r CIdle = Inr (r, CIdle, None)"
| "consumer_step r CStart = Inr (r, CHead (writer_head r), None)"
| "consumer_step r (CHead head) =
    (let tail = reader_tail r; reader_next = (tail + 1) AND ring_mask r in
     if head = tail then Inr (r, CIdle, Some None) else Inr (r, CClaim tail reader_next, None))"
| "consumer_step r (CClaim tail reader_next) = Inr (r\<lparr>reader_tail := reader_next\<rparr>, CRead tail, None)"
| "consumer_step r (CRead tail) = rbind (ring_slot r tail) (\<lambda>p. Inr (r, CClear tail p, None))"
| "consumer_step r (CClear tail p) = rbind (set_slot r tail None) (\<lambda>r1. Inr (r1, CIdle, Some (Some p)))"

text \<open>A call that is not interrupted: its steps one after the other.\<close>

fun run_producer :: "nat \<Rightarrow> ring1x1 \<Rightarrow> producer \<Rightarrow> (bool option \<times> ring1x1) result" where
  "run_producer 0 r pc = Inr (None, r)"
| "run_producer (Suc n) r pc =
    rbind (producer_step r pc) (\<lambda>(r1, pc1, v).
      case v of None \<Rightarrow> run_producer n r1 pc1 | Some b \<Rightarrow> Inr (Some b, r1))"

fun run_consumer :: "nat \<Rightarrow> ring1x1 \<Rightarrow> consumer \<Rightarrow> (ptr option option \<times> ring1x1) result" where
  "run_consumer 0 r pc = Inr (None, r)"
| "run_consumer (Suc n) r pc =
    rbind (consumer_step r pc) (\<lambda>(r1, pc1, v).
      case v of None \<Rightarrow> run_consumer n r1 pc1 | Some b \<Rightarrow> Inr (Some b, r1))"

text \<open>Five steps are a whole call, so the steps are those of \<open>Put\<close> and \<open>Get\<close>.\<close>

lemma run_producer_Put:
  "run_producer 5 r (PStart d) =
    rbind (parcRingBuffer1x1_Put r d) (\<lambda>(b, r1). Inr (Some b, r1))"
  by (simp add: eval_nat_numeral parcRingBuffer1x1_Put_def Let_def rbind_assoc ring_slot_def set_slot_def)

lemma run_consumer_Get:
  "run_consumer 5 r CStart =
    rbind (parcRingBuffer1x1_Get r) (\<lambda>(p, r1). Inr (Some p, r1))"
  by (simp add: eval_nat_numeral parcRingBuffer1x1_Get_def Let_def rbind_assoc ring_slot_def set_slot_def)

section \<open>Arithmetic of a ring\<close>

lemma unat_two_power: "k < 32 \<Longrightarrow> unat ((2::u32) ^ k) = 2 ^ k"
  using unat_word_of_nat [of "2 ^ k", where 'a = 32] power_strict_increasing [of k 32 "2::nat"] by simp

lemma isPowerOfTwo_iff: "isPowerOfTwo x \<longleftrightarrow> (\<exists>k<32. x = 2 ^ k)"
proof
  assume p: "isPowerOfTwo x"
  then have "1 \<le> unat x" by (simp add: isPowerOfTwo_def unat_gt_0 Suc_leI)
  then obtain k where k: "2 ^ k \<le> unat x" "unat x < 2 ^ (k + 1)"
    using ex_power_ivl1 [of 2 "unat x"] by auto
  have "(2::nat) ^ k < 2 ^ 32" using k(1) unat_bound [of x] by simp
  then have k32: "k < 32" by (rule power_less_imp_less_exp [rotated]) simp
  have "x = 2 ^ k"
  proof (rule ccontr)
    assume "x \<noteq> 2 ^ k"
    then have "unat x \<noteq> 2 ^ k"
      using k32 by (metis unat_two_power word_unat_eq_iff)
    then have lt: "2 ^ k < unat x" using k(1) by simp
    have bits: "bit w k" if "2 ^ k \<le> unat w" "unat w < 2 ^ (k + 1)" for w :: u32
    proof -
      have "unat w div 2 ^ k = 1"
        using that by (intro div_nat_eqI) simp_all
      then have "bit (unat w) k" by (simp add: bit_iff_odd)
      then show ?thesis by (simp add: bit_unsigned_iff)
    qed
    have "unat (x - 1) = unat x - 1" using \<open>1 \<le> unat x\<close> by (simp add: unat_minus_one p [unfolded isPowerOfTwo_def])
    then have "bit (x AND (x - 1)) k"
      using lt k by (simp add: bit_and_iff bits)
    then show False using p by (simp add: isPowerOfTwo_def)
  qed
  with k32 show "\<exists>k<32. x = 2 ^ k" by blast
next
  assume "\<exists>k<32. x = 2 ^ k"
  then obtain k where k: "k < 32" "x = 2 ^ k" by blast
  then have "x \<noteq> 0" by (metis power_eq_0_iff unat_two_power unsigned_0 zero_neq_numeral)
  moreover have "x AND (x - 1) = 0"
    using k by (intro bit_word_eqI) (auto simp: bit_and_iff bit_exp_iff mask_eq_exp_minus_1 [symmetric] bit_mask_iff)
  ultimately show "isPowerOfTwo x" by (simp add: isPowerOfTwo_def)
qed

text \<open>On a ring of a power of two, masking is the remainder.\<close>

definition ring_shape :: "ring1x1 \<Rightarrow> bool" where
  "ring_shape r \<longleftrightarrow> isPowerOfTwo (elements r) \<and> ring_mask r = elements r - 1 \<and>
     length (slots r) = unat (elements r)"

lemma ring_mask_mod:
  assumes "ring_shape r"
  shows "unat (x AND ring_mask r) = unat x mod unat (elements r)"
proof -
  obtain k where k: "k < 32" "elements r = 2 ^ k"
    using assms by (auto simp: ring_shape_def isPowerOfTwo_iff)
  have "x AND ring_mask r = take_bit k x"
    using assms k by (simp add: ring_shape_def take_bit_eq_mask mask_eq_exp_minus_1)
  moreover have "unat (take_bit k x) = unat x mod 2 ^ k"
    by (simp only: unsigned_take_bit_eq) (simp add: take_bit_eq_mod)
  ultimately show ?thesis
    using k by (simp add: unat_two_power)
qed

lemma ring_elements:
  assumes "ring_shape r"
  shows "0 < unat (elements r)" "unat (elements r) dvd 2 ^ 32" "unat (elements r) < 2 ^ 32"
proof -
  obtain k where k: "k < 32" "unat (elements r) = 2 ^ k"
    using assms by (auto simp: ring_shape_def isPowerOfTwo_iff unat_two_power)
  then show "0 < unat (elements r)" "unat (elements r) dvd 2 ^ 32"
    by (simp_all only: le_imp_power_dvd) (simp_all add: le_imp_power_dvd)
  show "unat (elements r) < 2 ^ 32" by (rule order_less_le_trans [OF unat_bound]) simp
qed

lemma unat_add_mod:
  fixes a b :: u32
  assumes "n dvd 2 ^ 32"
  shows "unat (a + b) mod n = (unat a + unat b) mod n"
  using assms by (simp add: unat_word_ariths mod_mod_cancel)

lemma ring_next:
  assumes "ring_shape r" "unat i = m mod unat (elements r)"
  shows "unat ((i + 1) AND ring_mask r) = Suc m mod unat (elements r)"
proof -
  have "unat (i + 1) mod unat (elements r) = (unat i + 1) mod unat (elements r)"
    using ring_elements(2) [OF assms(1)] by (simp add: unat_add_mod)
  then show ?thesis
    using assms by (simp add: ring_mask_mod mod_Suc_eq)
qed

text \<open>Indices of one turn of the ring fall into different slots.\<close>

lemma window_inj:
  fixes i j lo n :: nat
  assumes "i mod n = j mod n" "lo \<le> i" "i < lo + n" "lo \<le> j" "j < lo + n"
  shows "i = j"
proof -
  have *: "a = b" if "a mod n = b mod n" "a \<le> b" "b < a + n" for a b :: nat
    using that mod_eq_dvd_iff_nat [of a b n] by (auto dest: dvd_imp_le)
  show ?thesis using assms * [of i j] * [of j i] by (cases "i \<le> j") auto
qed

lemma window_update:
  assumes "lo \<le> i" "i < lo + n" "lo \<le> j" "j < lo + n" "length xs = n"
  shows "xs[j mod n := x] ! (i mod n) = (if i = j then x else xs ! (i mod n))"
proof -
  have "j mod n < n" using assms by (intro mod_less_divisor) auto
  then show ?thesis using assms window_inj [of i n j lo] by (auto simp: nth_list_update)
qed

section \<open>The entries of a ring\<close>

text \<open>
  \<open>entries r lo xs\<close>: counting slots from the total index \<open>lo\<close> on, the ring holds \<open>xs\<close> and then only NULL.
\<close>

definition entries :: "ring1x1 \<Rightarrow> nat \<Rightarrow> ptr list \<Rightarrow> bool" where
  "entries r lo xs \<longleftrightarrow> ring_shape r \<and> length xs \<le> unat (elements r) \<and>
     (\<forall>i < unat (elements r).
        slots r ! ((lo + i) mod unat (elements r)) = (if i < length xs then xs ! i else None))"

text \<open>The indices are outside of what \<open>entries\<close> says.\<close>

lemma entries_indices [simp]:
  "entries (r\<lparr>writer_head := h\<rparr>) lo xs = entries r lo xs"
  "entries (r\<lparr>reader_tail := t\<rparr>) lo xs = entries r lo xs"
  by (simp_all add: entries_def ring_shape_def)

lemma entries_store:
  assumes "entries r lo xs" "length xs < unat (elements r)"
    and "unat i = (lo + length xs) mod unat (elements r)"
  shows "ring_slot r i = Inr None"
    and "set_slot r i d = Inr (r\<lparr>slots := (slots r)[unat i := d]\<rparr>)"
    and "entries (r\<lparr>slots := (slots r)[unat i := d]\<rparr>) lo (xs @ [d])"
proof -
  have len: "length (slots r) = unat (elements r)"
    using assms(1) by (simp add: entries_def ring_shape_def)
  then have i: "unat i < length (slots r)" using assms(2,3) by simp
  show "ring_slot r i = Inr None" using assms i by (simp add: ring_slot_def entries_def)
  show "set_slot r i d = Inr (r\<lparr>slots := (slots r)[unat i := d]\<rparr>)" using i by (simp add: set_slot_def)
  show "entries (r\<lparr>slots := (slots r)[unat i := d]\<rparr>) lo (xs @ [d])"
    using assms len window_update [of lo _ "unat (elements r)" "lo + length xs" "slots r" d]
    by (auto simp: entries_def ring_shape_def nth_append)
qed

lemma entries_take:
  assumes "entries r lo (x # xs)" "unat i = lo mod unat (elements r)"
  shows "ring_slot r i = Inr x"
    and "set_slot r i None = Inr (r\<lparr>slots := (slots r)[unat i := None]\<rparr>)"
    and "entries (r\<lparr>slots := (slots r)[unat i := None]\<rparr>) (Suc lo) xs"
proof -
  let ?n = "unat (elements r)"
  have len: "length (slots r) = ?n" and n: "Suc (length xs) \<le> ?n"
    and at: "\<And>j. j < ?n \<Longrightarrow>
      slots r ! ((lo + j) mod ?n) = (if j < Suc (length xs) then (x # xs) ! j else None)"
    using assms(1) by (auto simp: entries_def ring_shape_def)
  then have i: "unat i < length (slots r)" using assms(2) by simp
  show "ring_slot r i = Inr x" using at [of 0] n i assms(2) by (simp add: ring_slot_def)
  show "set_slot r i None = Inr (r\<lparr>slots := (slots r)[unat i := None]\<rparr>)" using i by (simp add: set_slot_def)
  have "(slots r)[lo mod ?n := None] ! ((Suc lo + j) mod ?n) = (if j < length xs then xs ! j else None)"
    if "j < ?n" for j
  proof (cases "Suc j = ?n")
    case True
    then have "(Suc lo + j) mod ?n = lo mod ?n" by (metis add_Suc_shift mod_add_self2)
    then show ?thesis using True n i len assms(2) by auto
  next
    case False
    with that have "Suc j < ?n" by simp
    then show ?thesis
      using window_update [of lo "lo + Suc j" ?n lo "slots r" None] at [of "Suc j"] len by simp
  qed
  then show "entries (r\<lparr>slots := (slots r)[unat i := None]\<rparr>) (Suc lo) xs"
    using assms n by (auto simp: entries_def ring_shape_def)
qed

section \<open>The contract of a bounded queue\<close>

text \<open>Calls on a queue, what they return, and an abstract queue of bounded length.\<close>

datatype fifo_call = PutCall ptr | GetCall | RemainingCall

datatype fifo_value = PutValue bool | GetValue "ptr option" | RemainingValue u32

fun abstract_fifo :: "nat \<Rightarrow> ptr list \<Rightarrow> fifo_call list \<Rightarrow> fifo_value list \<times> ptr list" where
  "abstract_fifo cap q [] = ([], q)"
| "abstract_fifo cap q (PutCall d # cs) =
    (if length q = cap then apfst (Cons (PutValue False)) (abstract_fifo cap q cs)
     else apfst (Cons (PutValue True)) (abstract_fifo cap (q @ [d]) cs))"
| "abstract_fifo cap q (GetCall # cs) =
    (case q of
       [] \<Rightarrow> apfst (Cons (GetValue None)) (abstract_fifo cap [] cs)
     | x # xs \<Rightarrow> apfst (Cons (GetValue (Some x))) (abstract_fifo cap xs cs))"
| "abstract_fifo cap q (RemainingCall # cs) =
    apfst (Cons (RemainingValue (of_nat (cap - length q)))) (abstract_fifo cap q cs)"

fun run_calls ::
  "('r \<Rightarrow> ptr \<Rightarrow> (bool \<times> 'r) result) \<Rightarrow> ('r \<Rightarrow> (ptr option \<times> 'r) result) \<Rightarrow> ('r \<Rightarrow> (u32 \<times> 'r) result) \<Rightarrow>
   'r \<Rightarrow> fifo_call list \<Rightarrow> (fifo_value list \<times> 'r) result" where
  "run_calls put get rem r [] = Inr ([], r)"
| "run_calls put get rem r (PutCall d # cs) =
    rbind (put r d) (\<lambda>(b, r1). rbind (run_calls put get rem r1 cs) (\<lambda>(vs, r2). Inr (PutValue b # vs, r2)))"
| "run_calls put get rem r (GetCall # cs) =
    rbind (get r) (\<lambda>(p, r1). rbind (run_calls put get rem r1 cs) (\<lambda>(vs, r2). Inr (GetValue p # vs, r2)))"
| "run_calls put get rem r (RemainingCall # cs) =
    rbind (rem r) (\<lambda>(n, r1). rbind (run_calls put get rem r1 cs) (\<lambda>(vs, r2). Inr (RemainingValue n # vs, r2)))"

locale bounded_fifo =
  fixes put :: "'r \<Rightarrow> ptr \<Rightarrow> (bool \<times> 'r) result"
    and get :: "'r \<Rightarrow> (ptr option \<times> 'r) result"
    and remaining :: "'r \<Rightarrow> (u32 \<times> 'r) result"
    and holds :: "nat \<Rightarrow> 'r \<Rightarrow> ptr list \<Rightarrow> bool"
  assumes put_full: "holds cap r q \<Longrightarrow> length q = cap \<Longrightarrow> put r d = Inr (False, r)"
    and put_room: "holds cap r q \<Longrightarrow> length q < cap \<Longrightarrow> \<exists>r1. put r d = Inr (True, r1) \<and> holds cap r1 (q @ [d])"
    and get_empty: "holds cap r [] \<Longrightarrow> get r = Inr (None, r)"
    and get_first: "holds cap r (x # q) \<Longrightarrow> \<exists>r1. get r = Inr (Some x, r1) \<and> holds cap r1 q"
    and remaining_room: "holds cap r q \<Longrightarrow> remaining r = Inr (of_nat (cap - length q), r)"
    and holds_bound: "holds cap r q \<Longrightarrow> length q \<le> cap"
begin

lemma run_calls_fifo:
  "holds cap r q \<Longrightarrow>
    \<exists>r1. run_calls put get remaining r cs = Inr (fst (abstract_fifo cap q cs), r1) \<and>
         holds cap r1 (snd (abstract_fifo cap q cs))"
proof (induction cs arbitrary: r q)
  case Nil
  then show ?case by simp
next
  case (Cons c cs)
  show ?case
  proof (cases c)
    case (PutCall d)
    show ?thesis
    proof (cases "length q = cap")
      case True
      then show ?thesis using PutCall Cons.IH [OF Cons.prems] put_full [OF Cons.prems] by auto
    next
      case False
      then have "length q < cap" using holds_bound [OF Cons.prems] by simp
      then obtain r1 where "put r d = Inr (True, r1)" "holds cap r1 (q @ [d])"
        using put_room Cons.prems by blast
      then show ?thesis using PutCall False Cons.IH [of r1 "q @ [d]"] by auto
    qed
  next
    case GetCall
    then show ?thesis
    proof (cases q)
      case Nil
      then show ?thesis using GetCall Cons.IH [OF Cons.prems] get_empty Cons.prems by auto
    next
      case (Cons x xs)
      then obtain r1 where "get r = Inr (Some x, r1)" "holds cap r1 xs"
        using get_first Cons.prems by blast
      then show ?thesis using GetCall Cons Cons.IH [of r1 xs] by auto
    qed
  next
    case RemainingCall
    then show ?thesis using Cons.IH [OF Cons.prems] remaining_room [OF Cons.prems] by auto
  qed
qed

end

section \<open>The ring is a bounded queue\<close>

definition ring_holds :: "nat \<Rightarrow> ring1x1 \<Rightarrow> ptr list \<Rightarrow> bool" where
  "ring_holds cap r q \<longleftrightarrow> (\<exists>lo. entries r lo q \<and> unat (elements r) = Suc cap \<and> length q \<le> cap \<and>
     unat (reader_tail r) = lo mod Suc cap \<and> unat (writer_head r) = (lo + length q) mod Suc cap)"

lemma entries_shape: "entries r lo xs \<Longrightarrow> ring_shape r"
  by (simp add: entries_def)

text \<open>The comparisons of the indices decide whether the ring is full or empty.\<close>

lemma indices_differ:
  "m \<le> cap \<Longrightarrow> (lo + m) mod Suc cap = lo mod Suc cap \<longleftrightarrow> m = 0"
  using window_inj [of "lo + m" "Suc cap" lo lo] by auto

lemma next_index_full:
  assumes "m \<le> cap"
  shows "Suc (lo + m) mod Suc cap = lo mod Suc cap \<longleftrightarrow> m = cap"
proof
  assume "Suc (lo + m) mod Suc cap = lo mod Suc cap"
  then show "m = cap" using indices_differ [of "Suc m" cap lo] assms by (cases "m = cap") auto
qed (metis add_Suc_right mod_add_self2)

lemma ring_Put_full:
  assumes "ring_holds cap r q" "length q = cap"
  shows "parcRingBuffer1x1_Put r d = Inr (False, r)"
proof -
  obtain lo where lo: "entries r lo q" "unat (elements r) = Suc cap"
    "unat (reader_tail r) = lo mod Suc cap" "unat (writer_head r) = (lo + length q) mod Suc cap"
    using assms(1) by (auto simp: ring_holds_def)
  then have "(writer_head r + 1) AND ring_mask r = reader_tail r"
    using ring_next [OF entries_shape [OF lo(1)], of "writer_head r" "lo + length q"]
      next_index_full [of "length q" cap lo] assms(2)
    by (intro word_unat_eq_iff [THEN iffD2]) simp
  then show ?thesis by (simp add: parcRingBuffer1x1_Put_def Let_def)
qed

lemma ring_Put_room:
  assumes "ring_holds cap r q" "length q < cap"
  shows "\<exists>r1. parcRingBuffer1x1_Put r d = Inr (True, r1) \<and> ring_holds cap r1 (q @ [d])"
proof -
  obtain lo where lo: "entries r lo q" "unat (elements r) = Suc cap"
    "unat (reader_tail r) = lo mod Suc cap" "unat (writer_head r) = (lo + length q) mod Suc cap"
    using assms(1) by (auto simp: ring_holds_def)
  let ?next = "(writer_head r + 1) AND ring_mask r"
  have nx: "unat ?next = Suc (lo + length q) mod Suc cap"
    using ring_next [OF entries_shape [OF lo(1)], of "writer_head r" "lo + length q"] lo by simp
  then have "?next \<noteq> reader_tail r"
    using next_index_full [of "length q" cap lo] lo assms(2) by (metis nat_less_le)
  then show ?thesis
    using entries_store(1) [OF lo(1), of "writer_head r"] entries_store(2,3) [OF lo(1), of "writer_head r" d] lo nx assms(2)
    by (auto simp: parcRingBuffer1x1_Put_def Let_def ring_holds_def intro!: exI [of _ lo])
qed

lemma ring_Get_empty: "ring_holds cap r [] \<Longrightarrow> parcRingBuffer1x1_Get r = Inr (None, r)"
  by (auto simp: ring_holds_def parcRingBuffer1x1_Get_def Let_def word_unat_eq_iff)

lemma ring_Get_first:
  assumes "ring_holds cap r (x # q)"
  shows "\<exists>r1. parcRingBuffer1x1_Get r = Inr (Some x, r1) \<and> ring_holds cap r1 q"
proof -
  obtain lo where lo: "entries r lo (x # q)" "unat (elements r) = Suc cap" "Suc (length q) \<le> cap"
    "unat (reader_tail r) = lo mod Suc cap" "unat (writer_head r) = (lo + Suc (length q)) mod Suc cap"
    using assms(1) by (auto simp: ring_holds_def)
  have "unat ((reader_tail r + 1) AND ring_mask r) = Suc lo mod Suc cap"
    using ring_next [OF entries_shape [OF lo(1)], of "reader_tail r" lo] lo by simp
  moreover have "writer_head r \<noteq> reader_tail r"
    using indices_differ [of "Suc (length q)" cap lo] lo by (metis nat.distinct(1))
  ultimately show ?thesis
    using entries_take [of "r\<lparr>reader_tail := (reader_tail r + 1) AND ring_mask r\<rparr>" lo x q "reader_tail r"] lo
    by (auto simp: parcRingBuffer1x1_Get_def Let_def ring_holds_def intro!: exI [of _ "Suc lo"])
qed

lemma ring_Remaining_room:
  assumes "ring_holds cap r q"
  shows "parcRingBuffer1x1_Remaining r = of_nat (cap - length q)"
proof -
  obtain lo where lo: "entries r lo q" "unat (elements r) = Suc cap" "length q \<le> cap"
    "unat (reader_tail r) = lo mod Suc cap" "unat (writer_head r) = (lo + length q) mod Suc cap"
    using assms by (auto simp: ring_holds_def)
  note shape = entries_shape [OF lo(1)]
  let ?m = "ring_mask r + reader_tail r - writer_head r"
  have "ring_mask r + 1 = elements r" using shape by (simp add: ring_shape_def)
  then have m: "?m + (writer_head r + 1) = elements r + reader_tail r" by (simp add: algebra_simps)
  have dvd: "Suc cap dvd 2 ^ 32" using ring_elements(2) [OF shape] lo(2) by simp
  have "(unat ?m + (lo + length q + 1)) mod Suc cap = (unat ?m + unat (writer_head r + 1)) mod Suc cap"
    using lo(5) unat_add_mod [OF dvd, of "writer_head r" 1] by (intro mod_add_cong) (simp_all add: mod_Suc_eq)
  also have "\<dots> = (unat (elements r) + unat (reader_tail r)) mod Suc cap"
    by (simp only: unat_add_mod [OF dvd, symmetric] m)
  also have "\<dots> = lo mod Suc cap" using lo(2,4) by (metis mod_add_self1 mod_mod_trivial)
  finally have "(unat ?m + (lo + length q + 1)) mod Suc cap = lo mod Suc cap" .
  then have "((unat ?m mod Suc cap) + (lo + length q + 1)) mod Suc cap = lo mod Suc cap"
    by (metis mod_add_left_eq)
  moreover have "((cap - length q) + (lo + length q + 1)) mod Suc cap = lo mod Suc cap"
    using lo(3) by (metis add.commute add.left_commute le_add_diff_inverse mod_add_self2 Suc_eq_plus1 add.assoc)
  ultimately have "unat ?m mod Suc cap = cap - length q"
    using window_inj [of "unat ?m mod Suc cap + (lo + length q + 1)" "Suc cap"
      "cap - length q + (lo + length q + 1)" "lo + length q + 1"] mod_less_divisor [of "Suc cap" "unat ?m"]
    by linarith
  then have "unat (parcRingBuffer1x1_Remaining r) = cap - length q"
    using ring_mask_mod [OF shape] lo(2) by (simp add: parcRingBuffer1x1_Remaining_def Let_def)
  then show ?thesis by (metis of_nat_unat ucast_id)
qed

text \<open>\<open>Remaining\<close> changes nothing.\<close>

definition remaining1x1 :: "ring1x1 \<Rightarrow> (u32 \<times> ring1x1) result" where
  "remaining1x1 r = Inr (parcRingBuffer1x1_Remaining r, r)"

interpretation ring1x1: bounded_fifo parcRingBuffer1x1_Put parcRingBuffer1x1_Get remaining1x1 ring_holds
  by unfold_locales
    (simp_all add: ring_Put_full ring_Put_room ring_Get_empty ring_Get_first ring_Remaining_room remaining1x1_def,
     auto simp: ring_holds_def)

lemma Create_holds:
  assumes "isPowerOfTwo n"
  shows "\<exists>r. parcRingBuffer1x1_Create True True n b = Inr r \<and> ring_holds (unat n - 1) r [] \<and> has_destroyer r = b"
proof -
  have "0 < unat n" using assms by (simp add: isPowerOfTwo_def unat_gt_0)
  then show ?thesis
    using assms
    by (auto simp: parcRingBuffer1x1_Create_def ring_create_def ring_holds_def entries_def ring_shape_def
      intro!: exI [of _ 0])
qed

lemma drain_loop_all:
  "ring_holds cap r q \<Longrightarrow> \<exists>r1. drain_loop r ds = Some (Inr (ds @ q, r1)) \<and> ring_holds cap r1 []"
proof (induction q arbitrary: r ds)
  case Nil
  then show ?case using ring_Get_empty [OF Nil] by (subst drain_loop.simps) simp
next
  case (Cons x q)
  obtain r1 where "parcRingBuffer1x1_Get r = Inr (Some x, r1)" "ring_holds cap r1 q"
    using ring_Get_first [OF Cons.prems] by blast
  then show ?case using Cons.IH [of r1 "ds @ [x]"] by (subst drain_loop.simps) simp
qed

lemma ring_destroy_all:
  assumes "ring_holds cap r q"
  shows "\<exists>r1. ring_destroy r = Some (Inr (if has_destroyer r then q else [], r1))"
  using drain_loop_all [OF assms, of "[]"] by (auto simp: ring_destroy_def)

lemma Put_keeps_destroyer: "parcRingBuffer1x1_Put r d = Inr (b, r1) \<Longrightarrow> has_destroyer r1 = has_destroyer r"
  by (auto simp: parcRingBuffer1x1_Put_def Let_def set_slot_def split: if_splits)

lemma Get_keeps_destroyer: "parcRingBuffer1x1_Get r = Inr (p, r1) \<Longrightarrow> has_destroyer r1 = has_destroyer r"
  by (auto simp: parcRingBuffer1x1_Get_def Let_def set_slot_def ring_slot_def split: if_splits)

lemma run_keeps_destroyer:
  "run_calls parcRingBuffer1x1_Put parcRingBuffer1x1_Get remaining1x1 r cs = Inr (vs, r1)
    \<Longrightarrow> has_destroyer r1 = has_destroyer r"
proof (induction cs arbitrary: r vs)
  case (Cons c cs)
  show ?case
  proof (cases c)
    case (PutCall d)
    with Cons.prems obtain b r2 ws where
      "parcRingBuffer1x1_Put r d = Inr (b, r2)"
      "run_calls parcRingBuffer1x1_Put parcRingBuffer1x1_Get remaining1x1 r2 cs = Inr (ws, r1)"
      by auto
    then show ?thesis using Cons.IH Put_keeps_destroyer by metis
  next
    case GetCall
    with Cons.prems obtain p r2 ws where
      "parcRingBuffer1x1_Get r = Inr (p, r2)"
      "run_calls parcRingBuffer1x1_Put parcRingBuffer1x1_Get remaining1x1 r2 cs = Inr (ws, r1)"
      by auto
    then show ?thesis using Cons.IH Get_keeps_destroyer by metis
  next
    case RemainingCall
    with Cons.prems show ?thesis using Cons.IH by (auto simp: remaining1x1_def)
  qed
qed simp

text \<open>
  C21: A ring is created exactly for a power of two, and then any sequence of calls returns what a queue of
  at most \<open>elements - 1\<close> entries returns: \<open>Put\<close> fails exactly when it is full, \<open>Get\<close> returns the entries in the order
  they were put, \<open>Remaining\<close> counts the free places, no assertion fails and no index leaves the array. The destructor
  ends and gives exactly the entries that are left to the destroyer, in order.
\<close>

theorem parcRingBuffer1x1_fifo:
  "(\<not> isPowerOfTwo n \<longrightarrow> parcRingBuffer1x1_Create ok1 ok2 n destroyer = Inl AssertFailed) \<and>
   (isPowerOfTwo n \<longrightarrow> (\<exists>r r1. parcRingBuffer1x1_Create True True n destroyer = Inr r \<and>
      run_calls parcRingBuffer1x1_Put parcRingBuffer1x1_Get remaining1x1 r cs =
        Inr (fst (abstract_fifo (unat n - 1) [] cs), r1) \<and>
      (\<exists>r2. ring_destroy r1 =
        Some (Inr (if destroyer then snd (abstract_fifo (unat n - 1) [] cs) else [], r2)))))"
proof (intro conjI impI)
  assume "\<not> isPowerOfTwo n"
  then show "parcRingBuffer1x1_Create ok1 ok2 n destroyer = Inl AssertFailed"
    by (simp add: parcRingBuffer1x1_Create_def)
next
  assume "isPowerOfTwo n"
  then obtain r where r: "parcRingBuffer1x1_Create True True n destroyer = Inr r"
    "ring_holds (unat n - 1) r []" "has_destroyer r = destroyer"
    using Create_holds by blast
  obtain r1 where r1: "run_calls parcRingBuffer1x1_Put parcRingBuffer1x1_Get remaining1x1 r cs =
      Inr (fst (abstract_fifo (unat n - 1) [] cs), r1)"
    "ring_holds (unat n - 1) r1 (snd (abstract_fifo (unat n - 1) [] cs))"
    using ring1x1.run_calls_fifo [OF r(2)] by blast
  then show "\<exists>r r1. parcRingBuffer1x1_Create True True n destroyer = Inr r \<and>
      run_calls parcRingBuffer1x1_Put parcRingBuffer1x1_Get remaining1x1 r cs =
        Inr (fst (abstract_fifo (unat n - 1) [] cs), r1) \<and>
      (\<exists>r2. ring_destroy r1 =
        Some (Inr (if destroyer then snd (abstract_fifo (unat n - 1) [] cs) else [], r2)))"
    using r ring_destroy_all [OF r1(2)] run_keeps_destroyer [OF r1(1)] by auto
qed

theorem parcRingBuffer1x1_fifo_witness:
  "(\<exists>r r1. parcRingBuffer1x1_Create True True 2 True = Inr r \<and>
      run_calls parcRingBuffer1x1_Put parcRingBuffer1x1_Get remaining1x1 r
        [PutCall (Some 7), PutCall (Some 8), GetCall, PutCall (Some 9), RemainingCall] =
        Inr ([PutValue True, PutValue False, GetValue (Some (Some 7)), PutValue True, RemainingValue 0], r1) \<and>
      (\<exists>r2. ring_destroy r1 = Some (Inr ([Some 9], r2)))) \<and>
    parcRingBuffer1x1_Create True True 3 True = Inl AssertFailed"
proof -
  have "isPowerOfTwo 2" "\<not> isPowerOfTwo 3" by (simp_all add: isPowerOfTwo_def)
  then show ?thesis
    using parcRingBuffer1x1_fifo [of 2 True True True "[PutCall (Some 7), PutCall (Some 8), GetCall,
        PutCall (Some 9), RemainingCall]"] parcRingBuffer1x1_fifo [of 3 True True True "[]"]
    by simp
qed

section \<open>One producer and one consumer\<close>

text \<open>
  The two threads and the ring they share, with the history of the entries put and of the entries
  got so far (a call counts when it returns true).
\<close>

record ring_system =
  ring :: ring1x1
  producer_at :: producer
  consumer_at :: consumer
  sent :: "ptr list"
  received :: "ptr list"

definition producer_moves :: "ring_system \<Rightarrow> ring_system result" where
  "producer_moves s =
    rbind (producer_step (ring s) (producer_at s)) (\<lambda>(r, pc, v).
    Inr (s\<lparr>ring := r, producer_at := pc,
           sent := (case (v, producer_at s) of (Some True, PPublish d _ _) \<Rightarrow> sent s @ [d] | _ \<Rightarrow> sent s)\<rparr>))"

definition consumer_moves :: "ring_system \<Rightarrow> ring_system result" where
  "consumer_moves s =
    rbind (consumer_step (ring s) (consumer_at s)) (\<lambda>(r, pc, v).
    Inr (s\<lparr>ring := r, consumer_at := pc,
           received := (case v of Some (Some p) \<Rightarrow> received s @ [p] | _ \<Rightarrow> received s)\<rparr>))"

text \<open>
  A thread without a call in progress may start one, and otherwise makes the next step of its call.
\<close>

inductive ring_step :: "ring_system \<Rightarrow> ring_system result \<Rightarrow> bool" where
  put_call: "producer_at s = PIdle \<Longrightarrow> ring_step s (Inr (s\<lparr>producer_at := PStart d\<rparr>))"
| get_call: "consumer_at s = CIdle \<Longrightarrow> ring_step s (Inr (s\<lparr>consumer_at := CStart\<rparr>))"
| put_step: "producer_at s \<noteq> PIdle \<Longrightarrow> ring_step s (producer_moves s)"
| get_step: "consumer_at s \<noteq> CIdle \<Longrightarrow> ring_step s (consumer_moves s)"

definition ring_start :: "ring1x1 \<Rightarrow> ring_system" where
  "ring_start r = \<lparr>ring = r, producer_at = PIdle, consumer_at = CIdle, sent = [], received = []\<rparr>"

inductive ring_reachable :: "ring1x1 \<Rightarrow> ring_system \<Rightarrow> bool" for r where
  start: "ring_reachable r (ring_start r)"
| step: "ring_reachable r s \<Longrightarrow> ring_step s (Inr s1) \<Longrightarrow> ring_reachable r s1"

text \<open>
  The invariant in terms of unbounded counters: \<open>claims s\<close> entries left the ring for the consumer, which
  clears the slot of the last one later, and \<open>stored s\<close> is in the ring before the producer publishes it.
\<close>

definition capacity :: "ring_system \<Rightarrow> nat" where
  "capacity s = unat (elements (ring s))"

definition claims :: "ring_system \<Rightarrow> nat" where
  "claims s = length (received s) + (case consumer_at s of CRead _ \<Rightarrow> 1 | CClear _ _ \<Rightarrow> 1 | _ \<Rightarrow> 0)"

definition stored :: "ring_system \<Rightarrow> ptr list" where
  "stored s = (case producer_at s of PPublish d _ _ \<Rightarrow> [d] | _ \<Rightarrow> [])"

definition has_room :: "ring_system \<Rightarrow> u32 \<Rightarrow> u32 \<Rightarrow> bool" where
  "has_room s head writer_next \<longleftrightarrow> head = writer_head (ring s) \<and>
     unat writer_next = Suc (length (sent s)) mod capacity s \<and> Suc (length (sent s)) < claims s + capacity s"

definition producer_inv :: "ring_system \<Rightarrow> bool" where
  "producer_inv s \<longleftrightarrow> (case producer_at s of
       PHead d head \<Rightarrow> head = writer_head (ring s)
     | PAssert d head writer_next \<Rightarrow> has_room s head writer_next
     | PStore d head writer_next \<Rightarrow> has_room s head writer_next
     | PPublish d head writer_next \<Rightarrow> has_room s head writer_next
     | _ \<Rightarrow> True)"

definition consumer_inv :: "ring_system \<Rightarrow> bool" where
  "consumer_inv s \<longleftrightarrow> (case consumer_at s of
       CHead head \<Rightarrow> \<exists>w. claims s \<le> w \<and> w \<le> length (sent s) \<and> unat head = w mod capacity s
     | CClaim tail reader_next \<Rightarrow> unat tail = length (received s) mod capacity s \<and>
         unat reader_next = Suc (length (received s)) mod capacity s \<and> length (received s) < length (sent s)
     | CRead tail \<Rightarrow> unat tail = length (received s) mod capacity s
     | CClear tail p \<Rightarrow> unat tail = length (received s) mod capacity s \<and> p = sent s ! length (received s)
     | _ \<Rightarrow> True)"

definition shared_inv :: "ring_system \<Rightarrow> bool" where
  "shared_inv s \<longleftrightarrow>
     entries (ring s) (length (received s)) (drop (length (received s)) (sent s) @ stored s) \<and>
     received s = take (length (received s)) (sent s) \<and>
     claims s \<le> length (sent s) \<and> length (sent s) < claims s + capacity s \<and>
     unat (writer_head (ring s)) = length (sent s) mod capacity s \<and>
     unat (reader_tail (ring s)) = claims s mod capacity s"

definition ring_inv :: "ring_system \<Rightarrow> bool" where
  "ring_inv s \<longleftrightarrow> shared_inv s \<and> producer_inv s \<and> consumer_inv s"

lemmas ring_inv_defs = ring_inv_def shared_inv_def producer_inv_def consumer_inv_def has_room_def
  claims_def stored_def capacity_def

lemma ring_inv_shape: "ring_inv s \<Longrightarrow> ring_shape (ring s)"
  by (auto simp: ring_inv_def shared_inv_def entries_shape)

lemma claims_le: "claims s \<le> Suc (length (received s))"
  by (simp add: claims_def split: consumer.split)

lemma ring_inv_head_tail:
  assumes "ring_inv s" "producer_at s = PHead d head"
  defines "writer_next \<equiv> (head + 1) AND ring_mask (ring s)"
  shows "writer_next = reader_tail (ring s) \<longleftrightarrow> Suc (length (sent s)) = claims s + capacity s"
    and "writer_next \<noteq> reader_tail (ring s) \<Longrightarrow> has_room s head writer_next"
proof -
  have nx: "unat writer_next = Suc (length (sent s)) mod capacity s"
    using assms ring_next [OF ring_inv_shape [OF assms(1)]]
    by (simp add: ring_inv_def shared_inv_def producer_inv_def capacity_def)
  have b: "claims s \<le> length (sent s)" "length (sent s) < claims s + capacity s"
    "unat (reader_tail (ring s)) = claims s mod capacity s" "head = writer_head (ring s)"
    using assms(1,2) by (simp_all add: ring_inv_def shared_inv_def producer_inv_def)
  have "Suc (length (sent s)) < claims s + capacity s \<or> Suc (length (sent s)) = claims s + capacity s"
    using b(2) by linarith
  then have "Suc (length (sent s)) mod capacity s = claims s mod capacity s
      \<longleftrightarrow> Suc (length (sent s)) = claims s + capacity s"
    using b(1) window_inj [of "Suc (length (sent s))" "capacity s" "claims s" "claims s"] by auto
  then show *: "writer_next = reader_tail (ring s) \<longleftrightarrow> Suc (length (sent s)) = claims s + capacity s"
    using nx b(3) by (simp add: word_unat_eq_iff)
  show "has_room s head writer_next" if "writer_next \<noteq> reader_tail (ring s)"
    using that * nx b by (simp add: has_room_def)
qed

text \<open>The slot a producer is about to fill is free, although the consumer may still work on a slot behind the tail.\<close>

lemma has_room_store:
  assumes "ring_inv s" "has_room s head writer_next" "stored s = []"
  shows "ring_slot (ring s) head = Inr None"
    and "\<exists>r1. set_slot (ring s) head d = Inr r1 \<and>
      entries r1 (length (received s)) (drop (length (received s)) (sent s) @ [d]) \<and>
      elements r1 = elements (ring s) \<and> writer_head r1 = writer_head (ring s) \<and>
      reader_tail r1 = reader_tail (ring s)"
proof -
  have le: "length (received s) \<le> length (sent s)"
    using assms(1) by (auto simp: ring_inv_def shared_inv_def claims_def)
  have e: "entries (ring s) (length (received s)) (drop (length (received s)) (sent s))"
    using assms(1,3) by (simp add: ring_inv_def shared_inv_def)
  have l: "length (drop (length (received s)) (sent s)) < unat (elements (ring s))"
    using assms(2) claims_le [of s] le unfolding has_room_def capacity_def length_drop by linarith
  have i: "unat head =
      (length (received s) + length (drop (length (received s)) (sent s))) mod unat (elements (ring s))"
    using assms(1,2) le by (simp add: ring_inv_def shared_inv_def has_room_def capacity_def)
  show "ring_slot (ring s) head = Inr None" by (rule entries_store(1) [OF e l i])
  show "\<exists>r1. set_slot (ring s) head d = Inr r1 \<and>
      entries r1 (length (received s)) (drop (length (received s)) (sent s) @ [d]) \<and>
      elements r1 = elements (ring s) \<and> writer_head r1 = writer_head (ring s) \<and>
      reader_tail r1 = reader_tail (ring s)"
    using entries_store(2,3) [OF e l i, of d] by simp
qed

lemma producer_moves_inv:
  assumes "ring_inv s" "producer_at s \<noteq> PIdle"
  shows "\<exists>s1. producer_moves s = Inr s1 \<and> ring_inv s1 \<and> capacity s1 = capacity s"
proof (cases "producer_at s")
  case (PStart d)
  then show ?thesis using assms by (auto simp: producer_moves_def ring_inv_defs split: consumer.splits)
next
  case (PHead d head)
  then show ?thesis
    using assms ring_inv_head_tail [OF assms(1) PHead]
    by (auto simp: producer_moves_def Let_def ring_inv_defs split: consumer.splits)
next
  case (PAssert d head writer_next)
  then show ?thesis
    using assms has_room_store(1) [OF assms(1), of head writer_next]
    by (auto simp: producer_moves_def ring_inv_defs split: consumer.splits)
next
  case (PStore d head writer_next)
  then obtain r1 where "set_slot (ring s) head d = Inr r1"
      "entries r1 (length (received s)) (drop (length (received s)) (sent s) @ [d])"
      "elements r1 = elements (ring s)" "writer_head r1 = writer_head (ring s)"
      "reader_tail r1 = reader_tail (ring s)"
    using assms has_room_store(2) [OF assms(1), of head writer_next d]
    by (auto simp: ring_inv_def producer_inv_def stored_def)
  then show ?thesis
    using assms PStore by (auto simp: producer_moves_def ring_inv_defs split: consumer.splits)
next
  case (PPublish d head writer_next)
  then show ?thesis
    using assms
    by (auto simp: producer_moves_def ring_inv_defs nth_append split: consumer.splits intro: le_SucI)
qed (use assms in simp)

text \<open>The head a consumer has read may be old, but it is not behind the tail.\<close>

lemma ring_inv_tail_head:
  assumes "ring_inv s" "consumer_at s = CHead head" "head \<noteq> reader_tail (ring s)"
  shows "length (received s) < length (sent s)"
    and "unat ((reader_tail (ring s) + 1) AND ring_mask (ring s)) = Suc (length (received s)) mod capacity s"
proof -
  obtain w where w: "claims s \<le> w" "w \<le> length (sent s)" "unat head = w mod capacity s"
    using assms(1,2) by (auto simp: ring_inv_def consumer_inv_def)
  have t: "unat (reader_tail (ring s)) = claims s mod capacity s" "claims s = length (received s)"
    using assms(1,2) by (simp_all add: ring_inv_def shared_inv_def claims_def)
  then have "w \<noteq> claims s" using w(3) assms(3) by (auto simp: word_unat_eq_iff)
  then show "length (received s) < length (sent s)" using w t by simp
  show "unat ((reader_tail (ring s) + 1) AND ring_mask (ring s)) = Suc (length (received s)) mod capacity s"
    using ring_next [OF ring_inv_shape [OF assms(1)], of "reader_tail (ring s)" "claims s"] t
    by (simp add: capacity_def)
qed

lemma claimed_take:
  assumes "ring_inv s" "length (received s) < length (sent s)" "unat tail = length (received s) mod capacity s"
  shows "ring_slot (ring s) tail = Inr (sent s ! length (received s))"
    and "\<exists>r1. set_slot (ring s) tail None = Inr r1 \<and>
      entries r1 (Suc (length (received s))) (drop (Suc (length (received s))) (sent s) @ stored s) \<and>
      elements r1 = elements (ring s) \<and> writer_head r1 = writer_head (ring s) \<and>
      reader_tail r1 = reader_tail (ring s)"
proof -
  have e: "entries (ring s) (length (received s))
      (sent s ! length (received s) # (drop (Suc (length (received s))) (sent s) @ stored s))"
    using assms(1,2) by (simp add: ring_inv_def shared_inv_def Cons_nth_drop_Suc flip: append_Cons)
  note t = entries_take [OF e assms(3) [unfolded capacity_def]]
  show "ring_slot (ring s) tail = Inr (sent s ! length (received s))" by (rule t(1))
  show "\<exists>r1. set_slot (ring s) tail None = Inr r1 \<and>
      entries r1 (Suc (length (received s))) (drop (Suc (length (received s))) (sent s) @ stored s) \<and>
      elements r1 = elements (ring s) \<and> writer_head r1 = writer_head (ring s) \<and>
      reader_tail r1 = reader_tail (ring s)"
    using t(2,3) by simp
qed

lemma consumer_moves_inv:
  assumes "ring_inv s" "consumer_at s \<noteq> CIdle"
  shows "\<exists>s1. consumer_moves s = Inr s1 \<and> ring_inv s1 \<and> capacity s1 = capacity s"
proof (cases "consumer_at s")
  case CStart
  then show ?thesis
    using assms by (auto simp: consumer_moves_def ring_inv_defs split: producer.splits)
next
  case (CHead head)
  then show ?thesis
    using assms ring_inv_tail_head [OF assms(1) CHead]
    by (auto simp: consumer_moves_def Let_def ring_inv_defs split: producer.splits)
next
  case (CClaim tail reader_next)
  then show ?thesis
    using assms by (auto simp: consumer_moves_def ring_inv_defs split: producer.splits)
next
  case (CRead tail)
  then have "ring_slot (ring s) tail = Inr (sent s ! length (received s))"
    using assms claimed_take(1) [OF assms(1), of tail] by (auto simp: ring_inv_defs)
  then show ?thesis
    using assms CRead by (auto simp: consumer_moves_def ring_inv_defs split: producer.splits)
next
  case (CClear tail p)
  then have lt: "length (received s) < length (sent s)" "p = sent s ! length (received s)"
    "unat tail = length (received s) mod capacity s"
    using assms by (auto simp: ring_inv_defs)
  obtain r1 where r1: "set_slot (ring s) tail None = Inr r1"
      "entries r1 (Suc (length (received s))) (drop (Suc (length (received s))) (sent s) @ stored s)"
      "elements r1 = elements (ring s)" "writer_head r1 = writer_head (ring s)"
      "reader_tail r1 = reader_tail (ring s)"
    using claimed_take(2) [OF assms(1) lt(1,3)] by blast
  have "received s @ [p] = take (Suc (length (received s))) (sent s)"
    using assms(1) lt by (metis ring_inv_def shared_inv_def take_Suc_conv_app_nth)
  then show ?thesis
    using assms CClear r1 lt by (auto simp: consumer_moves_def ring_inv_defs split: producer.splits)
qed (use assms in simp)

lemma ring_step_inv:
  "ring_step s x \<Longrightarrow> ring_inv s \<Longrightarrow> \<exists>s1. x = Inr s1 \<and> ring_inv s1 \<and> capacity s1 = capacity s"
proof (induction rule: ring_step.induct)
  case (put_call s d)
  then show ?case by (auto simp: ring_inv_defs split: consumer.splits)
next
  case (get_call s)
  then show ?case by (auto simp: ring_inv_defs split: producer.splits)
qed (simp_all add: producer_moves_inv consumer_moves_inv)

lemma ring_start_inv:
  assumes "parcRingBuffer1x1_Create ok1 ok2 n b = Inr r"
  shows "ring_inv (ring_start r) \<and> capacity (ring_start r) = unat n"
proof -
  have "isPowerOfTwo n" and "r = \<lparr>writer_head = 0, reader_tail = 0, elements = n, ring_mask = n - 1,
      has_destroyer = b, slots = replicate (unat n) None\<rparr>"
    using assms by (auto simp: parcRingBuffer1x1_Create_def ring_create_def)
  moreover from this have "0 < unat n" by (simp add: isPowerOfTwo_def unat_gt_0)
  ultimately show ?thesis
    by (simp add: ring_inv_defs ring_start_def entries_def ring_shape_def)
qed

lemma ring_reachable_inv:
  assumes "ring_reachable r s" "parcRingBuffer1x1_Create ok1 ok2 n b = Inr r"
  shows "ring_inv s \<and> capacity s = unat n"
  using assms
proof (induction rule: ring_reachable.induct)
  case start
  then show ?case by (rule ring_start_inv)
next
  case (step s s1)
  then show ?case using ring_step_inv by fastforce
qed

lemma ring_inv_idle:
  assumes "ring_inv s" "producer_at s = PIdle" "consumer_at s = CIdle"
  shows "ring_holds (capacity s - 1) (ring s) (drop (length (received s)) (sent s))"
proof -
  have "0 < capacity s"
    using ring_elements(1) [OF ring_inv_shape [OF assms(1)]] by (simp add: capacity_def)
  then have "Suc (capacity s - 1) = capacity s" by simp
  then show ?thesis
    using assms
    by (auto simp: ring_inv_def shared_inv_def ring_holds_def stored_def claims_def capacity_def
      intro!: exI [of _ "length (received s)"])
qed

lemma producer_false:
  assumes "ring_inv s" "producer_step (ring s) (producer_at s) = Inr (r1, pc, Some False)"
  shows "capacity s - 1 \<le> length (sent s) - length (received s)"
proof (cases "producer_at s")
  case (PHead d head)
  then have "(head + 1) AND ring_mask (ring s) = reader_tail (ring s)"
    using assms(2) by (auto simp: Let_def split: if_splits)
  then have "Suc (length (sent s)) = claims s + capacity s"
    using ring_inv_head_tail(1) [OF assms(1) PHead] by simp
  then show ?thesis by (simp add: claims_def)
qed (use assms(2) in \<open>auto simp: Let_def\<close>)

text \<open>
  C19: Whatever the interleaving of the steps of one thread that puts and one thread that gets, no
  assertion fails and no access leaves the array; the entries got so far are those put first, in the same
  order, and no more than \<open>elements\<close> are under way. A \<open>Put\<close> that answers false found \<open>elements - 1\<close> entries that
  were not yet got, and while no call is in progress the ring is the queue of exactly the entries not yet got.
\<close>

theorem parcRingBuffer1x1_interleaving:
  assumes "parcRingBuffer1x1_Create ok1 ok2 n destroyer = Inr r" "ring_reachable r s"
  shows "\<exists>waiting. sent s = received s @ waiting \<and> length waiting \<le> unat n \<and>
    (\<forall>x. ring_step s x \<longrightarrow> returns x) \<and>
    (\<forall>r1 pc. producer_step (ring s) (producer_at s) = Inr (r1, pc, Some False) \<longrightarrow>
       unat n - 1 \<le> length waiting) \<and>
    (producer_at s = PIdle \<and> consumer_at s = CIdle \<longrightarrow> ring_holds (unat n - 1) (ring s) waiting)"
proof (intro exI conjI)
  note inv = ring_reachable_inv [OF assms(2,1), THEN conjunct1] ring_reachable_inv [OF assms(2,1), THEN conjunct2]
  let ?w = "drop (length (received s)) (sent s)"
  have "received s = take (length (received s)) (sent s)" using inv(1) by (simp add: ring_inv_def shared_inv_def)
  then show "sent s = received s @ ?w" by (metis append_take_drop_id)
  have "length (sent s) < claims s + unat n" using inv by (simp add: ring_inv_def shared_inv_def)
  then show "length ?w \<le> unat n" using claims_le [of s] unfolding length_drop by linarith
  show "\<forall>x. ring_step s x \<longrightarrow> returns x"
    using ring_step_inv [OF _ inv(1)] by fastforce
  show "\<forall>r1 pc. producer_step (ring s) (producer_at s) = Inr (r1, pc, Some False) \<longrightarrow> unat n - 1 \<le> length ?w"
    using producer_false [OF inv(1)] inv(2) by auto
  show "producer_at s = PIdle \<and> consumer_at s = CIdle \<longrightarrow> ring_holds (unat n - 1) (ring s) ?w"
    using ring_inv_idle [OF inv(1)] inv(2) by simp
qed

text \<open>A ring of two slots after a \<open>Put\<close> that is published while a \<open>Get\<close> has just started.\<close>

definition example_ring :: ring1x1 where
  "example_ring = \<lparr>writer_head = 0, reader_tail = 0, elements = 2, ring_mask = 1, has_destroyer = False,
     slots = [None, None]\<rparr>"

definition example_system :: ring_system where
  "example_system = \<lparr>ring = example_ring\<lparr>writer_head := 1, slots := [Some 5, None]\<rparr>,
     producer_at = PIdle, consumer_at = CStart, sent = [Some 5], received = []\<rparr>"

lemma example_ring_Create: "parcRingBuffer1x1_Create True True 2 False = Inr example_ring"
  by (simp add: parcRingBuffer1x1_Create_def ring_create_def isPowerOfTwo_def example_ring_def)
    (simp add: numeral_2_eq_2)

lemma ring_reachable_put_step:
  "ring_reachable r s \<Longrightarrow> producer_at s \<noteq> PIdle \<Longrightarrow> producer_moves s = Inr s1 \<Longrightarrow> ring_reachable r s1"
  by (metis ring_reachable.step put_step)

lemma ring_reachable_put_call:
  "ring_reachable r s \<Longrightarrow> producer_at s = PIdle \<Longrightarrow> s1 = s\<lparr>producer_at := PStart d\<rparr> \<Longrightarrow> ring_reachable r s1"
  by (metis ring_reachable.step put_call)

lemma ring_reachable_get_call:
  "ring_reachable r s \<Longrightarrow> consumer_at s = CIdle \<Longrightarrow> s1 = s\<lparr>consumer_at := CStart\<rparr> \<Longrightarrow> ring_reachable r s1"
  by (metis ring_reachable.step get_call)

lemma example_system_reachable: "ring_reachable example_ring example_system"
proof -
  let ?at = "\<lambda>r pc xs. \<lparr>ring = r, producer_at = pc, consumer_at = CStart, sent = xs, received = []\<rparr>"
  let ?r1 = "example_ring\<lparr>slots := [Some 5, None]\<rparr>"
  note eval = producer_moves_def ring_start_def example_ring_def ring_slot_def set_slot_def
  have "ring_reachable example_ring (ring_start example_ring)" by (rule ring_reachable.start)
  then have "ring_reachable example_ring (?at example_ring PIdle [])"
    by (rule ring_reachable_get_call) (simp_all add: ring_start_def)
  then have "ring_reachable example_ring (?at example_ring (PStart (Some 5)) [])"
    by (rule ring_reachable_put_call) simp_all
  then have "ring_reachable example_ring (?at example_ring (PHead (Some 5) 0) [])"
    by (rule ring_reachable_put_step) (simp_all add: eval)
  then have "ring_reachable example_ring (?at example_ring (PAssert (Some 5) 0 1) [])"
    by (rule ring_reachable_put_step) (simp_all add: eval)
  then have "ring_reachable example_ring (?at example_ring (PStore (Some 5) 0 1) [])"
    by (rule ring_reachable_put_step) (simp_all add: eval)
  then have "ring_reachable example_ring (?at ?r1 (PPublish (Some 5) 0 1) [])"
    by (rule ring_reachable_put_step) (simp_all add: eval)
  then show ?thesis
    by (rule ring_reachable_put_step) (simp_all add: eval example_system_def)
qed

theorem parcRingBuffer1x1_interleaving_witness:
  "\<exists>waiting. sent example_system = received example_system @ waiting \<and> waiting = [Some 5] \<and>
    (\<forall>x. ring_step example_system x \<longrightarrow> returns x)"
proof -
  obtain waiting where "sent example_system = received example_system @ waiting"
    "\<forall>x. ring_step example_system x \<longrightarrow> returns x"
    using parcRingBuffer1x1_interleaving [OF example_ring_Create example_system_reachable] by blast
  then show ?thesis by (simp add: example_system_def)
qed

end
