(* ===== verification/Parc_RingBufferNxM.thy ===== *)
theory Parc_RingBufferNxM
  imports Parc_RingBuffer
begin

text \<open>
  The ring buffer for many producers and many consumers (\<^verbatim>\<open>parc_RingBuffer_NxM.c\<close>), which wraps a ring for one
  producer and one consumer in two mutexes, with all interleavings of its threads, and the
  facade of \<^verbatim>\<open>parc_RingBuffer.c\<close>.
\<close>

section \<open>The operations\<close>

text \<open>
  A mutex is held by a thread or free. \<open>references\<close> is the reference count of the ring's object.
\<close>

type_synonym tid = nat
type_synonym mutex = "tid option"

record ringNxM =
  onebyone :: ring1x1
  allocation_mutex :: mutex
  writer_mutex :: mutex
  reader_mutex :: mutex
  destroyerNxM :: bool
  references :: nat

definition mutex_lock :: "tid \<Rightarrow> mutex \<Rightarrow> mutex result" where
  "mutex_lock t m = (if m = None then Inr (Some t) else Inl Blocks)"

definition mutex_unlock :: "tid \<Rightarrow> mutex \<Rightarrow> mutex result" where
  "mutex_unlock t m = (if m = Some t then Inr None else Inl Undefined)"

definition parcRingBufferNxM_Create :: "bool \<Rightarrow> bool \<Rightarrow> bool \<Rightarrow> u32 \<Rightarrow> bool \<Rightarrow> ringNxM result" where
  "parcRingBufferNxM_Create granted object_granted array_granted n destroyer =
    rbind (assertTrue granted) (\<lambda>_.
    rbind (parcRingBuffer1x1_Create object_granted array_granted n destroyer) (\<lambda>r.
    Inr \<lparr>onebyone = r, allocation_mutex = None, writer_mutex = None, reader_mutex = None,
         destroyerNxM = destroyer, references = 1\<rparr>))"

definition parcRingBufferNxM_Put :: "tid \<Rightarrow> ringNxM \<Rightarrow> ptr \<Rightarrow> (bool \<times> ringNxM) result" where
  "parcRingBufferNxM_Put t r data =
    rbind (mutex_lock t (writer_mutex r)) (\<lambda>locked.
    rbind (parcRingBuffer1x1_Put (onebyone r) data) (\<lambda>(success, one).
    rbind (mutex_unlock t locked) (\<lambda>unlocked.
    Inr (success, r\<lparr>onebyone := one, writer_mutex := unlocked\<rparr>))))"

definition parcRingBufferNxM_Get :: "tid \<Rightarrow> ringNxM \<Rightarrow> (ptr option \<times> ringNxM) result" where
  "parcRingBufferNxM_Get t r =
    rbind (mutex_lock t (reader_mutex r)) (\<lambda>locked.
    rbind (parcRingBuffer1x1_Get (onebyone r)) (\<lambda>(p, one).
    rbind (mutex_unlock t locked) (\<lambda>unlocked.
    Inr (p, r\<lparr>onebyone := one, reader_mutex := unlocked\<rparr>))))"

definition parcRingBufferNxM_Remaining :: "tid \<Rightarrow> ringNxM \<Rightarrow> (u32 \<times> ringNxM) result" where
  "parcRingBufferNxM_Remaining t r =
    rbind (mutex_lock t (writer_mutex r)) (\<lambda>w.
    rbind (mutex_lock t (reader_mutex r)) (\<lambda>d.
    let remaining = parcRingBuffer1x1_Remaining (onebyone r) in
    rbind (mutex_unlock t d) (\<lambda>d1.
    rbind (mutex_unlock t w) (\<lambda>w1.
    Inr (remaining, r\<lparr>writer_mutex := w1, reader_mutex := d1\<rparr>)))))"

partial_function (option) drainNxM_loop ::
  "tid \<Rightarrow> ringNxM \<Rightarrow> ptr list \<Rightarrow> (ptr list \<times> ringNxM) result option" where
  "drainNxM_loop t r destroyed =
    (case parcRingBufferNxM_Get t r of
       Inl e \<Rightarrow> Some (Inl e)
     | Inr (None, r1) \<Rightarrow> Some (Inr (destroyed, r1))
     | Inr (Some p, r1) \<Rightarrow> drainNxM_loop t r1 (destroyed @ [p]))"

text \<open>The destructor: it empties the ring and then releases, and so destroys, the wrapped ring.\<close>

definition ringNxM_destroy :: "tid \<Rightarrow> ringNxM \<Rightarrow> ptr list result option" where
  "ringNxM_destroy t r =
    (case (if destroyerNxM r then drainNxM_loop t r [] else Some (Inr ([], r))) of
       None \<Rightarrow> None
     | Some (Inl e) \<Rightarrow> Some (Inl e)
     | Some (Inr (destroyed, r1)) \<Rightarrow>
         (case ring_destroy (onebyone r1) of
            None \<Rightarrow> None
          | Some (Inl e) \<Rightarrow> Some (Inl e)
          | Some (Inr (left, _)) \<Rightarrow> Some (Inr (destroyed @ left))))"

text \<open>
  \<open>Acquire\<close> and \<open>Release\<close> change the reference count while they hold \<open>allocation_mutex\<close>. The last release
  frees the ring together with the mutex that is unlocked afterwards: an access through a dangling pointer.
\<close>

definition parcRingBufferNxM_Acquire :: "tid \<Rightarrow> ringNxM \<Rightarrow> ringNxM result" where
  "parcRingBufferNxM_Acquire t r =
    rbind (mutex_lock t (allocation_mutex r)) (\<lambda>locked.
    rbind (mutex_unlock t locked) (\<lambda>unlocked.
    Inr (r\<lparr>allocation_mutex := unlocked, references := Suc (references r)\<rparr>)))"

definition parcRingBufferNxM_Release :: "tid \<Rightarrow> ringNxM \<Rightarrow> ringNxM result" where
  "parcRingBufferNxM_Release t r =
    rbind (mutex_lock t (allocation_mutex r)) (\<lambda>locked.
    if references r \<le> 1
    then (case ringNxM_destroy t r of
            None \<Rightarrow> Inl Diverges
          | Some (Inl e) \<Rightarrow> Inl e
          | Some (Inr _) \<Rightarrow> Inl BadPointer)
    else rbind (mutex_unlock t locked) (\<lambda>unlocked.
         Inr (r\<lparr>allocation_mutex := unlocked, references := references r - 1\<rparr>)))"

section \<open>A bounded queue again\<close>

definition unlocked :: "ringNxM \<Rightarrow> bool" where
  "unlocked r \<longleftrightarrow> writer_mutex r = None \<and> reader_mutex r = None"

definition holdsNxM :: "nat \<Rightarrow> ringNxM \<Rightarrow> ptr list \<Rightarrow> bool" where
  "holdsNxM cap r q \<longleftrightarrow> unlocked r \<and> ring_holds cap (onebyone r) q"

interpretation ringNxM: bounded_fifo "parcRingBufferNxM_Put t" "parcRingBufferNxM_Get t"
  "parcRingBufferNxM_Remaining t" holdsNxM
proof (unfold_locales, goal_cases)
  case (1 cap r q d)
  then show ?case
    using ring_Put_full [of cap "onebyone r" q d]
    by (auto simp: holdsNxM_def unlocked_def parcRingBufferNxM_Put_def mutex_lock_def mutex_unlock_def)
next
  case (2 cap r q d)
  then show ?case
    using ring_Put_room [of cap "onebyone r" q d]
    by (auto simp: holdsNxM_def unlocked_def parcRingBufferNxM_Put_def mutex_lock_def mutex_unlock_def)
next
  case (3 cap r)
  then show ?case
    using ring_Get_empty [of cap "onebyone r"]
    by (auto simp: holdsNxM_def unlocked_def parcRingBufferNxM_Get_def mutex_lock_def mutex_unlock_def)
next
  case (4 cap r x q)
  then show ?case
    using ring_Get_first [of cap "onebyone r" x q]
    by (auto simp: holdsNxM_def unlocked_def parcRingBufferNxM_Get_def mutex_lock_def mutex_unlock_def)
next
  case (5 cap r q)
  then show ?case
    by (simp add: holdsNxM_def unlocked_def parcRingBufferNxM_Remaining_def mutex_lock_def mutex_unlock_def
      Let_def ring_Remaining_room)
next
  case (6 cap r q)
  then show ?case using ring1x1.holds_bound by (auto simp: holdsNxM_def)
qed

section \<open>Many threads\<close>

text \<open>
  Where a thread is: outside of a call; in \<open>Put\<close> or \<open>Get\<close> before the lock, at a step of the wrapped call,
  before the unlock; in \<open>Remaining\<close> before the two locks, the two reads and the two unlocks.
\<close>

datatype ring_thread =
    TIdle
  | TPutLock ptr | TPut producer | TPutUnlock bool
  | TGetLock | TGet consumer | TGetUnlock "ptr option"
  | TRemainingLockWriter | TRemainingLockReader | TRemainingHead | TRemainingTail u32
  | TRemainingUnlockReader u32 | TRemainingUnlockWriter u32

record nxm_system =
  shared :: ringNxM
  threads :: "tid \<Rightarrow> ring_thread"
  sentNxM :: "ptr list"
  receivedNxM :: "ptr list"

definition goes :: "tid \<Rightarrow> ring_thread \<Rightarrow> nxm_system \<Rightarrow> nxm_system" where
  "goes t pc s = s\<lparr>threads := (threads s)(t := pc)\<rparr>"

text \<open>
  The next step of a thread inside a call. \<open>None\<close>: the thread has to wait for a mutex, or is outside of a call.
\<close>

definition thread_step :: "nxm_system \<Rightarrow> tid \<Rightarrow> nxm_system result option" where
  "thread_step s t = (let r = shared s in case threads s t of
     TIdle \<Rightarrow> None
   | TPutLock d \<Rightarrow>
       if writer_mutex r = None then Some (Inr (goes t (TPut (PStart d)) (s\<lparr>shared := r\<lparr>writer_mutex := Some t\<rparr>\<rparr>)))
       else None
   | TPut pc \<Rightarrow> Some (rbind (producer_step (onebyone r) pc) (\<lambda>(one, pc1, v). Inr
       (goes t (case v of None \<Rightarrow> TPut pc1 | Some b \<Rightarrow> TPutUnlock b) (s\<lparr>shared := r\<lparr>onebyone := one\<rparr>,
          sentNxM := (case (v, pc) of (Some True, PPublish d _ _) \<Rightarrow> sentNxM s @ [d] | _ \<Rightarrow> sentNxM s)\<rparr>))))
   | TPutUnlock b \<Rightarrow> Some (Inr (goes t TIdle (s\<lparr>shared := r\<lparr>writer_mutex := None\<rparr>\<rparr>)))
   | TGetLock \<Rightarrow>
       if reader_mutex r = None then Some (Inr (goes t (TGet CStart) (s\<lparr>shared := r\<lparr>reader_mutex := Some t\<rparr>\<rparr>)))
       else None
   | TGet pc \<Rightarrow> Some (rbind (consumer_step (onebyone r) pc) (\<lambda>(one, pc1, v). Inr
       (goes t (case v of None \<Rightarrow> TGet pc1 | Some p \<Rightarrow> TGetUnlock p) (s\<lparr>shared := r\<lparr>onebyone := one\<rparr>,
          receivedNxM := (case v of Some (Some p) \<Rightarrow> receivedNxM s @ [p] | _ \<Rightarrow> receivedNxM s)\<rparr>))))
   | TGetUnlock p \<Rightarrow> Some (Inr (goes t TIdle (s\<lparr>shared := r\<lparr>reader_mutex := None\<rparr>\<rparr>)))
   | TRemainingLockWriter \<Rightarrow>
       if writer_mutex r = None then Some (Inr (goes t TRemainingLockReader (s\<lparr>shared := r\<lparr>writer_mutex := Some t\<rparr>\<rparr>)))
       else None
   | TRemainingLockReader \<Rightarrow>
       if reader_mutex r = None then Some (Inr (goes t TRemainingHead (s\<lparr>shared := r\<lparr>reader_mutex := Some t\<rparr>\<rparr>)))
       else None
   | TRemainingHead \<Rightarrow> Some (Inr (goes t (TRemainingTail (writer_head (onebyone r))) s))
   | TRemainingTail head \<Rightarrow> Some (Inr (goes t (TRemainingUnlockReader
       ((ring_mask (onebyone r) + reader_tail (onebyone r) - head) AND ring_mask (onebyone r))) s))
   | TRemainingUnlockReader n \<Rightarrow>
       Some (Inr (goes t (TRemainingUnlockWriter n) (s\<lparr>shared := r\<lparr>reader_mutex := None\<rparr>\<rparr>)))
   | TRemainingUnlockWriter n \<Rightarrow> Some (Inr (goes t TIdle (s\<lparr>shared := r\<lparr>writer_mutex := None\<rparr>\<rparr>))))"

definition call_starts :: "ring_thread \<Rightarrow> bool" where
  "call_starts pc \<longleftrightarrow> (case pc of TPutLock d \<Rightarrow> True | TGetLock \<Rightarrow> True | TRemainingLockWriter \<Rightarrow> True | _ \<Rightarrow> False)"

inductive nxm_step :: "nxm_system \<Rightarrow> nxm_system result \<Rightarrow> bool" where
  call: "threads s t = TIdle \<Longrightarrow> call_starts pc \<Longrightarrow> nxm_step s (Inr (goes t pc s))"
| move: "thread_step s t = Some x \<Longrightarrow> nxm_step s x"

definition nxm_start :: "ringNxM \<Rightarrow> nxm_system" where
  "nxm_start r = \<lparr>shared = r, threads = (\<lambda>_. TIdle), sentNxM = [], receivedNxM = []\<rparr>"

inductive nxm_reachable :: "ringNxM \<Rightarrow> nxm_system \<Rightarrow> bool" for r where
  start: "nxm_reachable r (nxm_start r)"
| step: "nxm_reachable r s \<Longrightarrow> nxm_step s (Inr s1) \<Longrightarrow> nxm_reachable r s1"

text \<open>A mutex is held by exactly the thread that is between its lock and its unlock.\<close>

fun writes :: "ring_thread \<Rightarrow> bool" where
  "writes (TPut _) = True"
| "writes (TPutUnlock _) = True"
| "writes TRemainingLockReader = True"
| "writes TRemainingHead = True"
| "writes (TRemainingTail _) = True"
| "writes (TRemainingUnlockReader _) = True"
| "writes (TRemainingUnlockWriter _) = True"
| "writes _ = False"

fun reads :: "ring_thread \<Rightarrow> bool" where
  "reads (TGet _) = True"
| "reads (TGetUnlock _) = True"
| "reads TRemainingHead = True"
| "reads (TRemainingTail _) = True"
| "reads (TRemainingUnlockReader _) = True"
| "reads _ = False"

definition mutual_exclusion :: "nxm_system \<Rightarrow> bool" where
  "mutual_exclusion s \<longleftrightarrow>
     (\<forall>t. writes (threads s t) \<longleftrightarrow> writer_mutex (shared s) = Some t) \<and>
     (\<forall>t. reads (threads s t) \<longleftrightarrow> reader_mutex (shared s) = Some t)"

text \<open>The system of one producer and one consumer behind it: the threads that hold the mutexes.\<close>

definition writer_at :: "nxm_system \<Rightarrow> producer" where
  "writer_at s = (case writer_mutex (shared s) of
     None \<Rightarrow> PIdle | Some t \<Rightarrow> (case threads s t of TPut pc \<Rightarrow> pc | _ \<Rightarrow> PIdle))"

definition reader_at :: "nxm_system \<Rightarrow> consumer" where
  "reader_at s = (case reader_mutex (shared s) of
     None \<Rightarrow> CIdle | Some t \<Rightarrow> (case threads s t of TGet pc \<Rightarrow> pc | _ \<Rightarrow> CIdle))"

definition behind :: "nxm_system \<Rightarrow> ring_system" where
  "behind s = \<lparr>ring = onebyone (shared s), producer_at = writer_at s, consumer_at = reader_at s,
     sent = sentNxM s, received = receivedNxM s\<rparr>"

text \<open>A thread inside \<open>Put\<close> or \<open>Get\<close> has a step to make, and the head \<open>Remaining\<close> has read is the current one.\<close>

fun thread_ok :: "ring1x1 \<Rightarrow> ring_thread \<Rightarrow> bool" where
  "thread_ok r (TPut pc) = (pc \<noteq> PIdle)"
| "thread_ok r (TGet pc) = (pc \<noteq> CIdle)"
| "thread_ok r (TRemainingTail head) = (head = writer_head r)"
| "thread_ok r _ = True"

definition nxm_inv :: "nxm_system \<Rightarrow> bool" where
  "nxm_inv s \<longleftrightarrow> mutual_exclusion s \<and> (\<forall>t. thread_ok (onebyone (shared s)) (threads s t)) \<and> ring_inv (behind s)"

lemma nxm_invD:
  assumes "nxm_inv s"
  shows "writes (threads s t) \<longleftrightarrow> writer_mutex (shared s) = Some t"
    and "reads (threads s t) \<longleftrightarrow> reader_mutex (shared s) = Some t"
    and "thread_ok (onebyone (shared s)) (threads s t)"
    and "ring_inv (behind s)"
  using assms by (simp_all add: nxm_inv_def mutual_exclusion_def)

lemma thread_ok_other:
  assumes "thread_ok r pc" "writer_head r1 = writer_head r \<or> \<not> writes pc"
  shows "thread_ok r1 pc"
  using assms by (cases pc) auto

lemma producer_step_ends:
  "producer_step r pc = Inr (r1, pc1, v) \<Longrightarrow> pc \<noteq> PIdle \<Longrightarrow> v = None \<longleftrightarrow> pc1 \<noteq> PIdle"
  by (cases pc) (auto simp: Let_def split: if_splits)

lemma consumer_step_ends:
  "consumer_step r pc = Inr (r1, pc1, v) \<Longrightarrow> pc \<noteq> CIdle \<Longrightarrow> v = None \<longleftrightarrow> pc1 \<noteq> CIdle"
  by (cases pc) (auto simp: Let_def split: if_splits)

lemma consumer_step_head: "consumer_step r pc = Inr (r1, pc1, v) \<Longrightarrow> writer_head r1 = writer_head r"
  by (cases pc) (auto simp: Let_def set_slot_def split: if_splits)

lemma goes_simps [simp]:
  "shared (goes t pc s) = shared s"
  "threads (goes t pc s) = (threads s)(t := pc)"
  "sentNxM (goes t pc s) = sentNxM s"
  "receivedNxM (goes t pc s) = receivedNxM s"
  by (simp_all add: goes_def)

text \<open>A step inside a wrapped call is a step of the two-thread system.\<close>

lemma put_step_behind:
  assumes inv: "nxm_inv s" and at_t: "threads s t = TPut pc"
  shows "\<exists>s1. thread_step s t = Some (Inr s1) \<and> nxm_inv s1 \<and> capacity (behind s1) = capacity (behind s)"
proof -
  note facts = nxm_invD(1-3) [OF inv, of t, unfolded at_t, simplified] nxm_invD(4) [OF inv]
  have pc: "pc \<noteq> PIdle" and at: "producer_at (behind s) = pc"
    using facts at_t by (simp_all add: behind_def writer_at_def)
  obtain s0 where s0: "producer_moves (behind s) = Inr s0" "ring_inv s0" "capacity s0 = capacity (behind s)"
    using producer_moves_inv [of "behind s"] at facts by auto
  then obtain one pc1 v where step: "producer_step (onebyone (shared s)) pc = Inr (one, pc1, v)"
    using at by (auto simp: producer_moves_def behind_def)
  define s1 where "s1 = goes t (case v of None \<Rightarrow> TPut pc1 | Some b \<Rightarrow> TPutUnlock b)
    (s\<lparr>shared := (shared s)\<lparr>onebyone := one\<rparr>,
       sentNxM := (case (v, pc) of (Some True, PPublish d _ _) \<Rightarrow> sentNxM s @ [d] | _ \<Rightarrow> sentNxM s)\<rparr>)"
  have run: "thread_step s t = Some (Inr s1)" using at_t step by (simp add: thread_step_def s1_def)
  note ends = producer_step_ends [OF step pc]
  have "reader_at s1 = reader_at s"
    using facts by (auto simp: s1_def reader_at_def split: option.split)
  moreover have "writer_at s1 = pc1"
    using facts ends by (auto simp: s1_def writer_at_def split: option.split)
  ultimately have "behind s1 = s0"
    using s0(1) at step by (auto simp: producer_moves_def behind_def s1_def split: option.split bool.split producer.split)
  moreover have "mutual_exclusion s1"
    using facts nxm_invD(1,2) [OF inv] by (auto simp: mutual_exclusion_def s1_def split: option.split)
  moreover have "thread_ok one (threads s1 t')" for t'
    using facts ends nxm_invD(1-3) [OF inv, of t'] thread_ok_other [of "onebyone (shared s)" "threads s t'" one]
    by (auto simp: s1_def split: option.split)
  ultimately show ?thesis using run s0 by (auto simp: nxm_inv_def s1_def)
qed

lemma get_step_behind:
  assumes inv: "nxm_inv s" and at_t: "threads s t = TGet pc"
  shows "\<exists>s1. thread_step s t = Some (Inr s1) \<and> nxm_inv s1 \<and> capacity (behind s1) = capacity (behind s)"
proof -
  note facts = nxm_invD(1-3) [OF inv, of t, unfolded at_t, simplified] nxm_invD(4) [OF inv]
  have pc: "pc \<noteq> CIdle" and at: "consumer_at (behind s) = pc"
    using facts at_t by (simp_all add: behind_def reader_at_def)
  obtain s0 where s0: "consumer_moves (behind s) = Inr s0" "ring_inv s0" "capacity s0 = capacity (behind s)"
    using consumer_moves_inv [of "behind s"] at facts by auto
  then obtain one pc1 v where step: "consumer_step (onebyone (shared s)) pc = Inr (one, pc1, v)"
    using at by (auto simp: consumer_moves_def behind_def)
  define s1 where "s1 = goes t (case v of None \<Rightarrow> TGet pc1 | Some p \<Rightarrow> TGetUnlock p)
    (s\<lparr>shared := (shared s)\<lparr>onebyone := one\<rparr>,
       receivedNxM := (case v of Some (Some p) \<Rightarrow> receivedNxM s @ [p] | _ \<Rightarrow> receivedNxM s)\<rparr>)"
  have run: "thread_step s t = Some (Inr s1)" using at_t step by (simp add: thread_step_def s1_def)
  note ends = consumer_step_ends [OF step pc]
  have "writer_at s1 = writer_at s"
    using facts by (auto simp: s1_def writer_at_def split: option.split)
  moreover have "reader_at s1 = pc1"
    using facts ends by (auto simp: s1_def reader_at_def split: option.split)
  ultimately have "behind s1 = s0"
    using s0(1) at step by (auto simp: consumer_moves_def behind_def s1_def split: option.split)
  moreover have "mutual_exclusion s1"
    using facts nxm_invD(1,2) [OF inv] by (auto simp: mutual_exclusion_def s1_def split: option.split)
  moreover have "thread_ok one (threads s1 t')" for t'
    using facts ends nxm_invD(1-3) [OF inv, of t'] consumer_step_head [OF step]
      thread_ok_other [of "onebyone (shared s)" "threads s t'" one]
    by (auto simp: s1_def split: option.split)
  ultimately show ?thesis using run s0 by (auto simp: nxm_inv_def s1_def)
qed

lemma start_put_inv: "ring_inv s \<Longrightarrow> producer_at s = PIdle \<Longrightarrow>
    ring_inv (s\<lparr>producer_at := PStart d\<rparr>) \<and> capacity (s\<lparr>producer_at := PStart d\<rparr>) = capacity s"
  using ring_step_inv [OF put_call [of s d]] by auto

lemma start_get_inv: "ring_inv s \<Longrightarrow> consumer_at s = CIdle \<Longrightarrow>
    ring_inv (s\<lparr>consumer_at := CStart\<rparr>) \<and> capacity (s\<lparr>consumer_at := CStart\<rparr>) = capacity s"
  using ring_step_inv [OF get_call [of s]] by auto

text \<open>
  The other steps take or give back a mutex: the system behind stays as it is, or a call starts there.
\<close>

lemma nxm_inv_change:
  assumes inv: "nxm_inv s" and one: "onebyone (shared s1) = onebyone (shared s)"
    and others: "threads s1 = (threads s)(t := pc)" "thread_ok (onebyone (shared s)) pc"
    and w: "\<And>t'. t' \<noteq> t \<Longrightarrow> writer_mutex (shared s1) = Some t' \<longleftrightarrow> writer_mutex (shared s) = Some t'"
      "writes pc \<longleftrightarrow> writer_mutex (shared s1) = Some t"
    and d: "\<And>t'. t' \<noteq> t \<Longrightarrow> reader_mutex (shared s1) = Some t' \<longleftrightarrow> reader_mutex (shared s) = Some t'"
      "reads pc \<longleftrightarrow> reader_mutex (shared s1) = Some t"
    and "ring_inv (behind s1)"
  shows "nxm_inv s1"
  using nxm_invD(1-3) [OF inv] assms by (auto simp: nxm_inv_def mutual_exclusion_def)

lemma writer_at_PIdle: "writer_mutex (shared s) = Some t \<Longrightarrow> \<forall>pc. threads s t \<noteq> TPut pc \<Longrightarrow> writer_at s = PIdle"
  by (auto simp: writer_at_def split: ring_thread.split)

lemma reader_at_CIdle: "reader_mutex (shared s) = Some t \<Longrightarrow> \<forall>pc. threads s t \<noteq> TGet pc \<Longrightarrow> reader_at s = CIdle"
  by (auto simp: reader_at_def split: ring_thread.split)

lemma writer_at_other:
  "writer_mutex (shared s) \<noteq> Some t \<Longrightarrow> threads s1 = (threads s)(t := pc) \<Longrightarrow>
    writer_mutex (shared s1) = writer_mutex (shared s) \<Longrightarrow> writer_at s1 = writer_at s"
  by (auto simp: writer_at_def split: option.split)

lemma reader_at_other:
  "reader_mutex (shared s) \<noteq> Some t \<Longrightarrow> threads s1 = (threads s)(t := pc) \<Longrightarrow>
    reader_mutex (shared s1) = reader_mutex (shared s) \<Longrightarrow> reader_at s1 = reader_at s"
  by (auto simp: reader_at_def split: option.split)

lemma lock_step_behind:
  assumes inv: "nxm_inv s" and step: "thread_step s t = Some x"
    and at_t: "threads s t = TPutLock p \<or> threads s t = TGetLock"
  shows "\<exists>s1. x = Inr s1 \<and> nxm_inv s1 \<and> capacity (behind s1) = capacity (behind s)"
proof -
  note facts = nxm_invD(1-3) [OF inv, of t] and ring = nxm_invD(4) [OF inv]
  consider (put) "threads s t = TPutLock p" | (get) "threads s t = TGetLock" using at_t by blast
  then show ?thesis
  proof cases
    case put
    then have free: "writer_mutex (shared s) = None" and
      x: "x = Inr (goes t (TPut (PStart p)) (s\<lparr>shared := (shared s)\<lparr>writer_mutex := Some t\<rparr>\<rparr>))" (is "x = Inr ?s1")
      using step by (auto simp: thread_step_def Let_def split: if_splits)
    have b: "behind ?s1 = (behind s)\<lparr>producer_at := PStart p\<rparr>"
      using put facts reader_at_other [of s t ?s1] by (simp add: behind_def writer_at_def)
    moreover have "ring_inv ((behind s)\<lparr>producer_at := PStart p\<rparr>) \<and>
        capacity ((behind s)\<lparr>producer_at := PStart p\<rparr>) = capacity (behind s)"
      by (rule start_put_inv [OF ring]) (simp add: behind_def writer_at_def free)
    moreover from this have "nxm_inv ?s1"
      using put facts free b by (intro nxm_inv_change [OF inv, where t = t and pc = "TPut (PStart p)"]) auto
    ultimately show ?thesis using x by simp
  next
    case get
    then have free: "reader_mutex (shared s) = None" and
      x: "x = Inr (goes t (TGet CStart) (s\<lparr>shared := (shared s)\<lparr>reader_mutex := Some t\<rparr>\<rparr>))" (is "x = Inr ?s1")
      using step by (auto simp: thread_step_def Let_def split: if_splits)
    have b: "behind ?s1 = (behind s)\<lparr>consumer_at := CStart\<rparr>"
      using get facts writer_at_other [of s t ?s1] by (simp add: behind_def reader_at_def)
    moreover have "ring_inv ((behind s)\<lparr>consumer_at := CStart\<rparr>) \<and>
        capacity ((behind s)\<lparr>consumer_at := CStart\<rparr>) = capacity (behind s)"
      by (rule start_get_inv [OF ring]) (simp add: behind_def reader_at_def free)
    moreover from this have "nxm_inv ?s1"
      using get facts free b by (intro nxm_inv_change [OF inv, where t = t and pc = "TGet CStart"]) auto
    ultimately show ?thesis using x by simp
  qed
qed

lemma quiet_step_behind:
  assumes inv: "nxm_inv s" and step: "thread_step s t = Some x"
    and at_t: "\<forall>pc. threads s t \<noteq> TPut pc" "\<forall>pc. threads s t \<noteq> TGet pc"
      "\<forall>p. threads s t \<noteq> TPutLock p" "threads s t \<noteq> TGetLock"
  shows "\<exists>s1. x = Inr s1 \<and> nxm_inv s1 \<and> behind s1 = behind s"
proof -
  note facts = nxm_invD(1-3) [OF inv, of t] and ring = nxm_invD(4) [OF inv]
  obtain s1 pc where s1: "x = Inr s1" "threads s1 = (threads s)(t := pc)"
      "onebyone (shared s1) = onebyone (shared s)" "sentNxM s1 = sentNxM s" "receivedNxM s1 = receivedNxM s"
      "\<forall>q. pc \<noteq> TPut q" "\<forall>q. pc \<noteq> TGet q" "thread_ok (onebyone (shared s)) pc"
      "writes pc \<longleftrightarrow> writer_mutex (shared s1) = Some t" "reads pc \<longleftrightarrow> reader_mutex (shared s1) = Some t"
      "\<forall>t'. t' \<noteq> t \<longrightarrow> (writer_mutex (shared s1) = Some t' \<longleftrightarrow> writer_mutex (shared s) = Some t')"
      "\<forall>t'. t' \<noteq> t \<longrightarrow> (reader_mutex (shared s1) = Some t' \<longleftrightarrow> reader_mutex (shared s) = Some t')"
    using step at_t facts by (cases "threads s t") (auto simp: thread_step_def Let_def split: if_splits)
  have "writer_at s1 = writer_at s"
    using s1 at_t(1) by (auto simp: writer_at_def split: option.splits ring_thread.splits)
  moreover have "reader_at s1 = reader_at s"
    using s1 at_t(2) by (auto simp: reader_at_def split: option.splits ring_thread.splits)
  ultimately have b: "behind s1 = behind s" using s1 by (simp add: behind_def)
  then have "nxm_inv s1"
    using s1 ring by (intro nxm_inv_change [OF inv, where t = t and pc = pc]) auto
  then show ?thesis using s1(1) b by blast
qed

lemma thread_step_inv:
  assumes "nxm_inv s" "thread_step s t = Some x"
  shows "\<exists>s1. x = Inr s1 \<and> nxm_inv s1 \<and> capacity (behind s1) = capacity (behind s)"
proof -
  consider (put) pc where "threads s t = TPut pc" | (get) pc where "threads s t = TGet pc"
    | (lock) p where "threads s t = TPutLock p \<or> threads s t = TGetLock"
    | (quiet) "\<forall>pc. threads s t \<noteq> TPut pc" "\<forall>pc. threads s t \<noteq> TGet pc"
        "\<forall>p. threads s t \<noteq> TPutLock p" "threads s t \<noteq> TGetLock"
    by blast
  then show ?thesis
  proof cases
    case put
    then show ?thesis using put_step_behind [OF assms(1) put] assms(2) by auto
  next
    case get
    then show ?thesis using get_step_behind [OF assms(1) get] assms(2) by auto
  next
    case lock
    then show ?thesis using lock_step_behind [OF assms] by blast
  next
    case quiet
    then show ?thesis using quiet_step_behind [OF assms] by metis
  qed
qed

lemma call_inv:
  assumes inv: "nxm_inv s" and "threads s t = TIdle" "call_starts pc"
  shows "nxm_inv (goes t pc s) \<and> behind (goes t pc s) = behind s"
proof -
  note facts = nxm_invD(1-3) [OF inv, of t]
  have pc: "\<not> writes pc" "\<not> reads pc" "\<And>r. thread_ok r pc"
    using assms(3) by (cases pc; simp add: call_starts_def)+
  have b: "behind (goes t pc s) = behind s"
    using facts assms(2) writer_at_other [of s t "goes t pc s"] reader_at_other [of s t "goes t pc s"]
    by (simp add: behind_def)
  moreover have "nxm_inv (goes t pc s)"
    using facts assms(2) pc b nxm_invD(4) [OF inv]
    by (intro nxm_inv_change [OF inv, where t = t and pc = pc]) auto
  ultimately show ?thesis by simp
qed

lemma nxm_step_inv:
  "nxm_step s x \<Longrightarrow> nxm_inv s \<Longrightarrow> \<exists>s1. x = Inr s1 \<and> nxm_inv s1 \<and> capacity (behind s1) = capacity (behind s)"
  by (induction rule: nxm_step.induct) (simp_all add: call_inv thread_step_inv)

lemma nxm_start_inv:
  assumes "parcRingBufferNxM_Create g ok1 ok2 n b = Inr r"
  shows "nxm_inv (nxm_start r) \<and> capacity (behind (nxm_start r)) = unat n"
proof -
  obtain one where one: "parcRingBuffer1x1_Create ok1 ok2 n b = Inr one" "onebyone r = one"
      "writer_mutex r = None" "reader_mutex r = None"
    using assms by (auto simp: parcRingBufferNxM_Create_def)
  then have "behind (nxm_start r) = ring_start one"
    by (simp add: behind_def nxm_start_def ring_start_def writer_at_def reader_at_def)
  then show ?thesis
    using ring_start_inv [OF one(1)] one by (simp add: nxm_inv_def mutual_exclusion_def nxm_start_def)
qed

lemma nxm_reachable_inv:
  assumes "nxm_reachable r s" "parcRingBufferNxM_Create g ok1 ok2 n b = Inr r"
  shows "nxm_inv s \<and> capacity (behind s) = unat n"
  using assms
proof (induction rule: nxm_reachable.induct)
  case start
  then show ?case by (rule nxm_start_inv)
next
  case (step s s1)
  then show ?case using nxm_step_inv by fastforce
qed

text \<open>The lock order is writer before reader, so some thread can always go on.\<close>

lemma no_deadlock:
  assumes inv: "nxm_inv s" and "threads s t \<noteq> TIdle"
  shows "\<exists>t' x. thread_step s t' = Some x"
proof -
  have reader: "\<exists>x. thread_step s t' = Some x" if "reads (threads s t')" for t'
    using that by (cases "threads s t'") (simp_all add: thread_step_def Let_def)
  have writer: "\<exists>x. thread_step s t' = Some x" if "writes (threads s t')" "reader_mutex (shared s) = None" for t'
    using that by (cases "threads s t'") (simp_all add: thread_step_def Let_def)
  have free: "\<exists>x. thread_step s t = Some x" if "writer_mutex (shared s) = None" "reader_mutex (shared s) = None"
    using that assms(2) by (cases "threads s t") (simp_all add: thread_step_def Let_def)
  show ?thesis
    using reader writer free nxm_invD(1,2) [OF inv]
    by (metis option.exhaust)
qed

lemma remaining_exact:
  assumes inv: "nxm_inv s" and "threads s t = TRemainingTail head"
  shows "thread_step s t = Some (Inr (goes t (TRemainingUnlockReader
    (of_nat (capacity (behind s) - 1 - (length (sentNxM s) - length (receivedNxM s))))) s))"
proof -
  note facts = nxm_invD(1-3) [OF inv, of t, unfolded assms(2), simplified]
  have "ring_holds (capacity (behind s) - 1) (onebyone (shared s))
      (drop (length (receivedNxM s)) (sentNxM s))"
    using ring_inv_idle [OF nxm_invD(4) [OF inv]] facts assms(2)
    by (simp add: behind_def writer_at_def reader_at_def)
  then have "parcRingBuffer1x1_Remaining (onebyone (shared s)) =
      of_nat (capacity (behind s) - 1 - (length (sentNxM s) - length (receivedNxM s)))"
    using ring_Remaining_room by fastforce
  then show ?thesis
    using facts assms(2) by (simp add: thread_step_def parcRingBuffer1x1_Remaining_def Let_def)
qed

text \<open>
  C20: For any number of threads that put, get and ask for the remaining space, in any interleaving: no assertion fails, the
  entries got are those put first, in order; each mutex is held by exactly the thread that is between its lock and
  its unlock; while some thread is in a call, some thread can make a step (no deadlock); and \<open>Remaining\<close>
  computes exactly the free places of that moment.
\<close>

theorem parcRingBufferNxM_interleaving:
  assumes "parcRingBufferNxM_Create granted ok1 ok2 n destroyer = Inr r" "nxm_reachable r s"
  shows "\<exists>waiting. sentNxM s = receivedNxM s @ waiting \<and> length waiting \<le> unat n \<and>
    (\<forall>x. nxm_step s x \<longrightarrow> returns x) \<and> mutual_exclusion s \<and>
    (\<forall>t. threads s t \<noteq> TIdle \<longrightarrow> (\<exists>t' x. thread_step s t' = Some x)) \<and>
    (\<forall>t head. threads s t = TRemainingTail head \<longrightarrow>
       thread_step s t = Some (Inr (goes t (TRemainingUnlockReader (of_nat (unat n - 1 - length waiting))) s)))"
proof (intro exI conjI)
  note inv = nxm_reachable_inv [OF assms(2,1), THEN conjunct1] nxm_reachable_inv [OF assms(2,1), THEN conjunct2]
  let ?w = "drop (length (receivedNxM s)) (sentNxM s)"
  have "shared_inv (behind s)" using inv(1) by (simp add: nxm_inv_def ring_inv_def)
  then have "receivedNxM s = take (length (receivedNxM s)) (sentNxM s)"
    and len: "length (sentNxM s) < claims (behind s) + unat n"
    using inv(2) by (simp_all add: shared_inv_def behind_def)
  then show "sentNxM s = receivedNxM s @ ?w" by (metis append_take_drop_id)
  show "length ?w \<le> unat n" using len claims_le [of "behind s"] by (simp add: behind_def)
  show "\<forall>x. nxm_step s x \<longrightarrow> returns x" using nxm_step_inv [OF _ inv(1)] by fastforce
  show "mutual_exclusion s" using inv(1) by (simp add: nxm_inv_def)
  show "\<forall>t. threads s t \<noteq> TIdle \<longrightarrow> (\<exists>t' x. thread_step s t' = Some x)"
    using no_deadlock [OF inv(1)] by blast
  show "\<forall>t head. threads s t = TRemainingTail head \<longrightarrow>
      thread_step s t = Some (Inr (goes t (TRemainingUnlockReader (of_nat (unat n - 1 - length ?w))) s))"
    using remaining_exact [OF inv(1)] inv(2) by simp
qed

text \<open>Two threads wait in a ring of two slots: thread 0 has asked for the space, thread 1 wants to put.\<close>

definition example_nxm :: ringNxM where
  "example_nxm = \<lparr>onebyone = example_ring, allocation_mutex = None, writer_mutex = None, reader_mutex = None,
     destroyerNxM = False, references = 1\<rparr>"

definition example_threads :: "tid \<Rightarrow> ring_thread" where
  "example_threads = (\<lambda>_. TIdle)(1 := TPutLock (Some 5), 0 := TRemainingTail 0)"

definition example_nxm_system :: nxm_system where
  "example_nxm_system = \<lparr>shared = example_nxm\<lparr>writer_mutex := Some 0, reader_mutex := Some 0\<rparr>,
     threads = example_threads, sentNxM = [], receivedNxM = []\<rparr>"

lemma nxm_reachable_call:
  "nxm_reachable r s \<Longrightarrow> threads s t = TIdle \<Longrightarrow> call_starts pc \<Longrightarrow> s1 = goes t pc s \<Longrightarrow> nxm_reachable r s1"
  by (metis nxm_reachable.step call)

lemma nxm_reachable_move: "nxm_reachable r s \<Longrightarrow> thread_step s t = Some (Inr s1) \<Longrightarrow> nxm_reachable r s1"
  by (metis nxm_reachable.step move)

lemma example_nxm_Create: "parcRingBufferNxM_Create True True True 2 False = Inr example_nxm"
  by (simp add: parcRingBufferNxM_Create_def example_ring_Create example_nxm_def)

lemma example_nxm_reachable: "nxm_reachable example_nxm example_nxm_system"
proof -
  let ?at = "\<lambda>w r pc. \<lparr>shared = example_nxm\<lparr>writer_mutex := w, reader_mutex := r\<rparr>,
     threads = (\<lambda>_. TIdle)(1 := TPutLock (Some 5), 0 := pc), sentNxM = [], receivedNxM = []\<rparr>"
  note eval = thread_step_def Let_def goes_def example_nxm_def example_ring_def example_nxm_system_def
    example_threads_def call_starts_def nxm_start_def fun_eq_iff
  have "nxm_reachable example_nxm (nxm_start example_nxm)" by (rule nxm_reachable.start)
  then have "nxm_reachable example_nxm (goes 1 (TPutLock (Some 5)) (nxm_start example_nxm))"
    by (rule nxm_reachable_call [where t = 1 and pc = "TPutLock (Some 5)"]) (simp_all add: eval)
  then have "nxm_reachable example_nxm (?at None None TRemainingLockWriter)"
    by (rule nxm_reachable_call [where t = 0 and pc = TRemainingLockWriter]) (simp_all add: eval)
  then have "nxm_reachable example_nxm (?at (Some 0) None TRemainingLockReader)"
    by (rule nxm_reachable_move [where t = 0]) (simp add: eval)
  then have "nxm_reachable example_nxm (?at (Some 0) (Some 0) TRemainingHead)"
    by (rule nxm_reachable_move [where t = 0]) (simp add: eval)
  then show ?thesis
    by (rule nxm_reachable_move [where t = 0]) (simp add: eval)
qed

theorem parcRingBufferNxM_interleaving_witness:
  "mutual_exclusion example_nxm_system \<and> (\<exists>t' x. thread_step example_nxm_system t' = Some x) \<and>
   thread_step example_nxm_system 0 = Some (Inr (goes 0 (TRemainingUnlockReader 1) example_nxm_system))"
proof -
  obtain waiting where "sentNxM example_nxm_system = receivedNxM example_nxm_system @ waiting"
    and *: "mutual_exclusion example_nxm_system"
    "threads example_nxm_system 1 \<noteq> TIdle \<longrightarrow> (\<exists>t' x. thread_step example_nxm_system t' = Some x)"
    "threads example_nxm_system 0 = TRemainingTail 0 \<longrightarrow> thread_step example_nxm_system 0 =
       Some (Inr (goes 0 (TRemainingUnlockReader (of_nat (unat (2::u32) - 1 - length waiting))) example_nxm_system))"
    using parcRingBufferNxM_interleaving [OF example_nxm_Create example_nxm_reachable] by blast
  moreover from this have "waiting = []" by (simp add: example_nxm_system_def)
  ultimately show ?thesis by (simp add: example_nxm_system_def example_threads_def)
qed

section \<open>The facade\<close>

text \<open>
  A ring behind an interface of function pointers (\<^verbatim>\<open>parc_RingBuffer.c\<close>), with the types of the header: the
  function \<open>remaining\<close> returns a \<open>bool\<close>. What a pointer function does to its instance is an argument of the record.
\<close>

record 'i ring_interface =
  ring_instance :: 'i
  put_function :: "'i \<Rightarrow> ptr \<Rightarrow> (bool \<times> 'i) result"
  get_function :: "'i \<Rightarrow> (ptr option \<times> 'i) result"
  remaining_function :: "'i \<Rightarrow> (bool \<times> 'i) result"

definition parcRingBuffer_Create :: "bool \<Rightarrow> 'i ring_interface \<Rightarrow> 'i ring_interface result" where
  "parcRingBuffer_Create granted interface = (if granted then Inr interface else Inl BadPointer)"

definition parcRingBuffer_Put :: "'i ring_interface \<Rightarrow> ptr \<Rightarrow> (bool \<times> 'i ring_interface) result" where
  "parcRingBuffer_Put r data =
    rbind (put_function r (ring_instance r) data) (\<lambda>(b, i). Inr (b, r\<lparr>ring_instance := i\<rparr>))"

text \<open>\<open>Get\<close> calls the function \<open>put\<close>, with the address of the output as its data.\<close>

definition parcRingBuffer_Get :: "'i ring_interface \<Rightarrow> addr \<Rightarrow> (bool \<times> 'i ring_interface) result" where
  "parcRingBuffer_Get r outputDataPtr =
    rbind (put_function r (ring_instance r) (Some outputDataPtr)) (\<lambda>(b, i). Inr (b, r\<lparr>ring_instance := i\<rparr>))"

definition parcRingBuffer_Remaining :: "'i ring_interface \<Rightarrow> (u32 \<times> 'i ring_interface) result" where
  "parcRingBuffer_Remaining r =
    rbind (remaining_function r (ring_instance r)) (\<lambda>(b, i). Inr (of_bool b, r\<lparr>ring_instance := i\<rparr>))"

definition interface_of_ring :: "ring1x1 \<Rightarrow> ring1x1 ring_interface" where
  "interface_of_ring r = \<lparr>ring_instance = r, put_function = parcRingBuffer1x1_Put,
     get_function = parcRingBuffer1x1_Get,
     remaining_function = (\<lambda>r. Inr (parcRingBuffer1x1_Remaining r \<noteq> 0, r))\<rparr>"

text \<open>
  \<open>Get\<close> of the facade takes nothing from the ring: it puts the address of its output argument
  into it, so the next entry that is taken from the ring may be an address of the caller's stack; and \<open>Remaining\<close>
  answers at most 1, however many places are free.
\<close>

theorem parcRingBuffer_Get_puts:
  assumes "ring_holds cap r q" "length q < cap"
  shows "(\<exists>r1. parcRingBuffer_Get (interface_of_ring r) out = Inr (True, interface_of_ring r1) \<and>
      ring_holds cap r1 (q @ [Some out])) \<and>
    parcRingBuffer_Remaining (interface_of_ring r) = Inr (1, interface_of_ring r)"
proof
  show "\<exists>r1. parcRingBuffer_Get (interface_of_ring r) out = Inr (True, interface_of_ring r1) \<and>
      ring_holds cap r1 (q @ [Some out])"
    using ring_Put_room [OF assms, of "Some out"]
    by (auto simp: parcRingBuffer_Get_def interface_of_ring_def)
  have "cap < 2 ^ 32"
    using assms(1) by (auto simp: ring_holds_def dest: ring_elements(3) [OF entries_shape])
  then have "unat (parcRingBuffer1x1_Remaining r) = cap - length q"
    using ring_Remaining_room [OF assms(1)] unat_word_of_nat [of "cap - length q", where 'a = 32] by simp
  then have "parcRingBuffer1x1_Remaining r \<noteq> 0" using assms(2) by auto
  then show "parcRingBuffer_Remaining (interface_of_ring r) = Inr (1, interface_of_ring r)"
    by (simp add: parcRingBuffer_Remaining_def interface_of_ring_def)
qed

theorem parcRingBuffer_Get_puts_witness:
  "\<exists>r1. parcRingBuffer_Get (interface_of_ring example_ring) 77 = Inr (True, interface_of_ring r1) \<and>
    ring_holds 1 r1 [Some 77]"
proof -
  obtain r where "parcRingBuffer1x1_Create True True 2 False = Inr r" "ring_holds (unat (2::u32) - 1) r []"
    using Create_holds [of 2 False] by (auto simp: isPowerOfTwo_def)
  then have "ring_holds 1 example_ring []" using example_ring_Create by simp
  then show ?thesis using parcRingBuffer_Get_puts [of 1 example_ring "[]" 77] by simp
qed

section \<open>The last release\<close>

lemma drainNxM_loop_all:
  "holdsNxM cap r q \<Longrightarrow> \<exists>r1. drainNxM_loop t r ds = Some (Inr (ds @ q, r1)) \<and> holdsNxM cap r1 []"
proof (induction q arbitrary: r ds)
  case Nil
  then show ?case using ringNxM.get_empty [OF Nil] by (subst drainNxM_loop.simps) simp
next
  case (Cons x q)
  obtain r1 where "parcRingBufferNxM_Get t r = Inr (Some x, r1)" "holdsNxM cap r1 q"
    using ringNxM.get_first [OF Cons.prems] by blast
  then show ?case using Cons.IH [of r1 "ds @ [x]"] by (subst drainNxM_loop.simps) simp
qed

text \<open>The destructor ends, but the unlock behind it uses the mutex of the freed ring.\<close>

lemma parcRingBufferNxM_Release_last:
  assumes "holdsNxM cap r q" "allocation_mutex r = None" "references r = 1"
  shows "(\<exists>destroyed. ringNxM_destroy t r = Some (Inr destroyed) \<and> (destroyerNxM r \<longrightarrow> take (length q) destroyed = q))
    \<and> parcRingBufferNxM_Release t r = Inl BadPointer"
proof -
  obtain r1 where r1: "drainNxM_loop t r [] = Some (Inr (q, r1))" "holdsNxM cap r1 []"
    using drainNxM_loop_all [OF assms(1), of t "[]"] by auto
  then have e: "\<exists>r2. ring_destroy (onebyone r1) = Some (Inr ([], r2))"
    using ring_destroy_all [of cap "onebyone r1" "[]"] by (auto simp: holdsNxM_def)
  have f: "\<exists>ds r2. ring_destroy (onebyone r) = Some (Inr (ds, r2))"
    using ring_destroy_all [of cap "onebyone r" q] assms(1) by (auto simp: holdsNxM_def)
  have "\<exists>destroyed. ringNxM_destroy t r = Some (Inr destroyed) \<and> (destroyerNxM r \<longrightarrow> take (length q) destroyed = q)"
    using r1(1) e f by (auto simp: ringNxM_destroy_def)
  then show ?thesis using assms by (auto simp: parcRingBufferNxM_Release_def mutex_lock_def)
qed

end
