(* ===== verification/Parc_Order.thy ===== *)
theory Parc_Order
  imports Parc_Prelude
begin

text \<open>
  The contract of a comparison function of the library: its sign is a total preorder. Containers that order
  their elements rely on it; the comparisons of the library are instances.
\<close>

locale comparison =
  fixes cmp :: "'a \<Rightarrow> 'a \<Rightarrow> int"
  assumes swap_sign: "cmp x y < 0 \<longleftrightarrow> 0 < cmp y x"
    and trans: "cmp x y \<le> 0 \<Longrightarrow> cmp y z \<le> 0 \<Longrightarrow> cmp x z \<le> 0"
begin

lemma not_less: "\<not> cmp x y < 0 \<longleftrightarrow> cmp y x \<le> 0"
  using swap_sign [of x y] by linarith

lemma refl [simp]: "cmp x x = 0"
  using swap_sign [of x x] by linarith

lemma less_le_trans: "cmp x y < 0 \<Longrightarrow> cmp y z \<le> 0 \<Longrightarrow> cmp x z < 0"
  using swap_sign [of x z] swap_sign [of x y] trans [of y z x] by linarith

lemma le_less_trans: "cmp x y \<le> 0 \<Longrightarrow> cmp y z < 0 \<Longrightarrow> cmp x z < 0"
  using swap_sign [of x z] swap_sign [of y z] trans [of z x y] by linarith

lemma total: "cmp x y \<le> 0 \<or> cmp y x \<le> 0"
  using swap_sign [of x y] by linarith

end

text \<open>A comparison of images is a comparison.\<close>

lemma comparison_image: "comparison cmp \<Longrightarrow> comparison (\<lambda>x y. cmp (f x) (f y))"
  unfolding comparison_def by blast

text \<open>The lexicographic order of byte strings.\<close>

lemma lex_compare_swap: "lex_compare ys xs = - lex_compare xs ys"
  by (induction xs ys rule: lex_compare.induct) auto

lemma lex_compare_trans: "lex_compare xs ys \<le> 0 \<Longrightarrow> lex_compare ys zs \<le> 0 \<Longrightarrow> lex_compare xs zs \<le> 0"
proof (induction xs ys arbitrary: zs rule: lex_compare.induct)
  case (2 y ys)
  then show ?case by (cases zs) auto
next
  case (4 x xs y ys)
  then show ?case by (cases zs) (auto split: if_splits)
qed auto

interpretation bytes: comparison lex_compare
proof
  show "lex_compare x y < 0 \<longleftrightarrow> 0 < lex_compare y x" for x y
    using lex_compare_swap [of x y] by linarith
qed (rule lex_compare_trans)

end
