(* ===== verification/Parc_PriorityQueue.thy ===== *)
theory Parc_PriorityQueue
  imports Parc_Order "HOL-Library.Multiset"
begin

text \<open>
  The priority queue (\<^verbatim>\<open>parc_PriorityQueue.c\<close>): a binary heap in an array. The queue and its array belong to one owner, so
  an operation takes the queue and returns the new one; what its allocations answer is an argument.
\<close>

section \<open>The queue and its operations\<close>

text \<open>
  \<open>entries_of\<close> is the array of entries; an array that could not be allocated has none. \<open>compare\<close> is the
  function pointer of the same name, \<open>has_destroyer\<close> tells whether \<open>destroyer\<close> is set.
\<close>

record priority_queue =
  entries_of :: "ptr list"
  queue_capacity :: size_t
  queue_size :: size_t
  compare :: "ptr \<Rightarrow> ptr \<Rightarrow> int"
  has_destroyer :: bool

definition leftChildIndex :: "size_t \<Rightarrow> size_t" where
  "leftChildIndex elementIndex = 2 * elementIndex + 1"

definition rightChildIndex :: "size_t \<Rightarrow> size_t" where
  "rightChildIndex elementIndex = 2 * elementIndex + 2"

definition parentIndex :: "size_t \<Rightarrow> size_t" where
  "parentIndex elementIndex = (elementIndex - 1) div 2"

text \<open>Accesses to \<open>queue->array[i].data\<close>.\<close>

definition entry :: "priority_queue \<Rightarrow> size_t \<Rightarrow> ptr result" where
  "entry q i = (if unat i < length (entries_of q) then Inr (entries_of q ! unat i) else Inl BadPointer)"

definition set_entry :: "priority_queue \<Rightarrow> size_t \<Rightarrow> ptr \<Rightarrow> priority_queue result" where
  "set_entry q i p =
    (if unat i < length (entries_of q) then Inr (q\<lparr>entries_of := (entries_of q)[unat i := p]\<rparr>)
     else Inl BadPointer)"

definition swap_entries :: "priority_queue \<Rightarrow> size_t \<Rightarrow> size_t \<Rightarrow> priority_queue result" where
  "swap_entries q firstIndex secondIndex =
    rbind (entry q firstIndex) (\<lambda>firstData.
    rbind (entry q secondIndex) (\<lambda>secondData.
    rbind (set_entry q firstIndex secondData) (\<lambda>q1.
    set_entry q1 secondIndex firstData)))"

text \<open>\<open>queue->compare(queue->array[i].data, queue->array[j].data) < 0\<close>\<close>

definition entry_less :: "priority_queue \<Rightarrow> size_t \<Rightarrow> size_t \<Rightarrow> bool result" where
  "entry_less q i j = rbind (entry q i) (\<lambda>a. rbind (entry q j) (\<lambda>b. Inr (compare q a b < 0)))"

definition trickleRightChild ::
  "priority_queue \<Rightarrow> size_t \<Rightarrow> size_t \<Rightarrow> size_t \<Rightarrow> (size_t \<times> priority_queue) result" where
  "trickleRightChild q elementIndex leftChild rightChild =
    rbind (entry_less q rightChild elementIndex) (\<lambda>c.
    if c then
      rbind (entry_less q rightChild leftChild) (\<lambda>d.
      if d then rbind (swap_entries q rightChild elementIndex) (\<lambda>q1. Inr (rightChild, q1))
      else rbind (swap_entries q leftChild elementIndex) (\<lambda>q1. Inr (leftChild, q1)))
    else Inr (elementIndex, q))"

definition trickleLeftChild ::
  "priority_queue \<Rightarrow> size_t \<Rightarrow> size_t \<Rightarrow> (size_t \<times> priority_queue) result" where
  "trickleLeftChild q elementIndex leftChild =
    rbind (entry_less q leftChild elementIndex) (\<lambda>c.
    if c then rbind (swap_entries q leftChild elementIndex) (\<lambda>q1. Inr (leftChild, q1))
    else Inr (elementIndex, q))"

text \<open>The loop of \<open>_trickleDown\<close> ends only at an element without children; \<open>None\<close> is a loop that does not end.\<close>

partial_function (option) trickleDown :: "priority_queue \<Rightarrow> size_t \<Rightarrow> priority_queue result option" where
  "trickleDown q elementIndex =
    (if rightChildIndex elementIndex < queue_size q
     then case trickleRightChild q elementIndex (leftChildIndex elementIndex) (rightChildIndex elementIndex) of
            Inl e \<Rightarrow> Some (Inl e)
          | Inr (i, q1) \<Rightarrow> trickleDown q1 i
     else if leftChildIndex elementIndex < queue_size q
     then case trickleLeftChild q elementIndex (leftChildIndex elementIndex) of
            Inl e \<Rightarrow> Some (Inl e)
          | Inr (i, q1) \<Rightarrow> trickleDown q1 i
     else Some (Inr q))"

lemma parent_decreases: "0 < i \<Longrightarrow> unat (parentIndex i) < unat i"
proof -
  assume "0 < i"
  then have "unat (i - 1) < unat i" by (metis measure_unat word_neq_0_conv)
  moreover have "unat (parentIndex i) \<le> unat (i - 1)" by (simp add: parentIndex_def unat_div)
  ultimately show ?thesis by simp
qed

function bubbleUp :: "priority_queue \<Rightarrow> size_t \<Rightarrow> priority_queue result" where
  "bubbleUp q elementIndex =
    (if 0 < elementIndex
     then rbind (entry_less q elementIndex (parentIndex elementIndex)) (\<lambda>c.
          if c then rbind (swap_entries q elementIndex (parentIndex elementIndex)) (\<lambda>q1.
                    bubbleUp q1 (parentIndex elementIndex))
          else Inr q)
     else Inr q)"
  by pat_completeness auto
termination
  by (relation "measure (\<lambda>(q, i). unat i)") (auto simp: parent_decreases)

declare bubbleUp.simps [simp del]

text \<open>
  \<open>sizeof(HeapEntry) * queue->capacity\<close> may wrap around; the array has as many entries as fit
  into the block. The result of the reallocation is not checked.
\<close>

definition expand_queue :: "bool \<Rightarrow> priority_queue \<Rightarrow> priority_queue" where
  "expand_queue granted q =
    (let capacity = queue_capacity q * 2; n = unat (8 * capacity) div 8 in
     q\<lparr>queue_capacity := capacity,
       entries_of := (if granted then take n (entries_of q) @ replicate (n - length (entries_of q)) None else [])\<rparr>)"

definition parcPriorityQueue_Create ::
  "bool \<Rightarrow> bool \<Rightarrow> (ptr \<Rightarrow> ptr \<Rightarrow> int) option \<Rightarrow> bool \<Rightarrow> priority_queue result" where
  "parcPriorityQueue_Create queue_granted array_granted cmp destroyer =
    (case cmp of
       None \<Rightarrow> Inl AssertFailed
     | Some f \<Rightarrow>
         rbind (assertTrue queue_granted) (\<lambda>_.
         rbind (assertTrue array_granted) (\<lambda>_.
         Inr \<lparr>entries_of = replicate 128 None, queue_capacity = 128, queue_size = 0, compare = f,
              has_destroyer = destroyer\<rparr>)))"

definition parcPriorityQueue_Add :: "bool \<Rightarrow> priority_queue \<Rightarrow> ptr \<Rightarrow> (bool \<times> priority_queue) result" where
  "parcPriorityQueue_Add granted q data =
    rbind (assertTrue (data \<noteq> None)) (\<lambda>_.
    let q1 = (if queue_size q + 1 > queue_capacity q then expand_queue granted q else q) in
    rbind (set_entry q1 (queue_size q1) data) (\<lambda>q2.
    let q3 = q2\<lparr>queue_size := queue_size q2 + 1\<rparr> in
    rbind (bubbleUp q3 (queue_size q3 - 1)) (\<lambda>q4. Inr (True, q4))))"

text \<open>The entries given to the destroyer, in order, and the empty queue.\<close>

definition parcPriorityQueue_Clear :: "priority_queue \<Rightarrow> (ptr list \<times> priority_queue) result" where
  "parcPriorityQueue_Clear q =
    (if has_destroyer q \<and> length (entries_of q) < unat (queue_size q) then Inl BadPointer
     else Inr (if has_destroyer q then take (unat (queue_size q)) (entries_of q) else [], q\<lparr>queue_size := 0\<rparr>))"

definition parcPriorityQueue_Destroy :: "priority_queue option \<Rightarrow> ptr list result" where
  "parcPriorityQueue_Destroy queue =
    (case queue of None \<Rightarrow> Inl AssertFailed
     | Some q \<Rightarrow> rbind (parcPriorityQueue_Clear q) (\<lambda>(destroyed, _). Inr destroyed))"

definition parcPriorityQueue_Peek :: "priority_queue \<Rightarrow> ptr result" where
  "parcPriorityQueue_Peek q = (if 0 < queue_size q then entry q 0 else Inr None)"

definition parcPriorityQueue_Poll :: "priority_queue \<Rightarrow> (ptr \<times> priority_queue) result" where
  "parcPriorityQueue_Poll q =
    (if 0 < queue_size q
     then rbind (entry q 0) (\<lambda>data.
          let q1 = q\<lparr>queue_size := queue_size q - 1\<rparr> in
          rbind (entry q1 (queue_size q1)) (\<lambda>last.
          rbind (set_entry q1 0 last) (\<lambda>q2.
          case trickleDown q2 0 of
            None \<Rightarrow> Inl Diverges
          | Some r \<Rightarrow> rbind r (\<lambda>q3. Inr (data, q3)))))
     else Inr (None, q))"

definition parcPriorityQueue_Size :: "priority_queue \<Rightarrow> size_t" where
  "parcPriorityQueue_Size q = queue_size q"

text \<open>The comparison of the values behind two pointers, given what they point to.\<close>

definition parcPriorityQueue_Uint64CompareTo :: "u64 \<Rightarrow> u64 \<Rightarrow> int" where
  "parcPriorityQueue_Uint64CompareTo value_a value_b =
    (if value_a < value_b then -1 else if value_a > value_b then 1 else 0)"

interpretation uint64_order: comparison parcPriorityQueue_Uint64CompareTo
  by unfold_locales (auto simp: parcPriorityQueue_Uint64CompareTo_def split: if_splits)

section \<open>Heaps in arrays\<close>

definition parent :: "nat \<Rightarrow> nat" where
  "parent j = (j - 1) div 2"

lemma parent_less: "0 < j \<Longrightarrow> parent j < j"
  by (simp add: parent_def)

lemma parent_iff: "0 < j \<Longrightarrow> parent j = i \<longleftrightarrow> j = 2 * i + 1 \<or> j = 2 * i + 2"
  unfolding parent_def by linarith

definition swapped :: "nat \<Rightarrow> nat \<Rightarrow> 'a list \<Rightarrow> 'a list" where
  "swapped i j xs = xs[i := xs ! j, j := xs ! i]"

lemma nth_swapped:
  assumes "i < length xs" "j < length xs" "k < length xs"
  shows "swapped i j xs ! k = (if k = j then xs ! i else if k = i then xs ! j else xs ! k)"
  using assms by (simp add: swapped_def nth_list_update)

lemma length_swapped [simp]: "length (swapped i j xs) = length xs"
  by (simp add: swapped_def)

lemma mset_swapped: "i < length xs \<Longrightarrow> j < length xs \<Longrightarrow> mset (swapped i j xs) = mset xs"
  unfolding swapped_def by (rule mset_swap)

lemma take_swapped: "i < n \<Longrightarrow> j < n \<Longrightarrow> n \<le> length xs \<Longrightarrow> take n (swapped i j xs) = swapped i j (take n xs)"
  by (simp add: swapped_def take_update_swap)

definition heap_order :: "('a \<Rightarrow> 'a \<Rightarrow> int) \<Rightarrow> 'a list \<Rightarrow> bool" where
  "heap_order cmp a \<longleftrightarrow> (\<forall>j < length a. 0 < j \<longrightarrow> cmp (a ! parent j) (a ! j) \<le> 0)"

context comparison
begin

text \<open>The order may fail between \<open>i\<close> and its parent, or between \<open>i\<close> and its children.\<close>

definition above_children :: "'a list \<Rightarrow> nat \<Rightarrow> bool" where
  "above_children a i \<longleftrightarrow> (\<forall>j < length a. 0 < j \<and> parent j = i \<and> 0 < i \<longrightarrow> cmp (a ! parent i) (a ! j) \<le> 0)"

definition heap_but_up :: "'a list \<Rightarrow> nat \<Rightarrow> bool" where
  "heap_but_up a i \<longleftrightarrow>
     (\<forall>j < length a. 0 < j \<and> j \<noteq> i \<longrightarrow> cmp (a ! parent j) (a ! j) \<le> 0) \<and> above_children a i"

definition heap_but_down :: "'a list \<Rightarrow> nat \<Rightarrow> bool" where
  "heap_but_down a i \<longleftrightarrow>
     (\<forall>j < length a. 0 < j \<and> parent j \<noteq> i \<longrightarrow> cmp (a ! parent j) (a ! j) \<le> 0) \<and> above_children a i"

lemma heap_up_done: "heap_but_up a i \<Longrightarrow> i = 0 \<or> cmp (a ! parent i) (a ! i) \<le> 0 \<Longrightarrow> heap_order cmp a"
  by (auto simp: heap_order_def heap_but_up_def)

lemma heap_down_done: "heap_but_down a i \<Longrightarrow> length a \<le> 2 * i + 1 \<Longrightarrow> heap_order cmp a"
  by (auto simp: heap_order_def heap_but_down_def parent_iff)

lemma heap_up_step:
  assumes "heap_but_up a i" "0 < i" "i < length a" "cmp (a ! i) (a ! parent i) < 0"
  shows "heap_but_up (swapped i (parent i) a) (parent i)"
proof -
  let ?p = "parent i" and ?b = "swapped i (parent i) a"
  note p = parent_less [OF assms(2)]
  have b: "\<And>k. k < length a \<Longrightarrow> ?b ! k = (if k = ?p then a ! i else if k = i then a ! ?p else a ! k)"
    using assms(3) p by (intro nth_swapped) auto
  have order: "\<And>j. j < length a \<Longrightarrow> 0 < j \<Longrightarrow> j \<noteq> i \<Longrightarrow> cmp (a ! parent j) (a ! j) \<le> 0"
    and child: "\<And>j. j < length a \<Longrightarrow> 0 < j \<Longrightarrow> parent j = i \<Longrightarrow> cmp (a ! ?p) (a ! j) \<le> 0"
    using assms(1,2) by (auto simp: heap_but_up_def above_children_def)
  have "cmp (?b ! parent j) (?b ! j) \<le> 0" if j: "j < length a" "0 < j" "j \<noteq> ?p" for j
    using order [OF j(1,2)] child [OF j(1,2)] b [OF j(1)] b [of "parent j"] parent_less [OF j(2)] j assms(4)
      less_le_trans [OF assms(4), of "a ! j"] by (auto split: if_splits)
  moreover have "cmp (?b ! parent ?p) (?b ! j) \<le> 0" if j: "j < length a" "0 < j" "parent j = ?p" "0 < ?p" for j
    using order [OF j(1,2)] order [of ?p] b [OF j(1)] b [of "parent ?p"] parent_less [OF j(4)] p j assms(3)
      trans [of "a ! parent ?p" "a ! ?p" "a ! j"] by (auto split: if_splits)
  ultimately show ?thesis by (simp add: heap_but_up_def above_children_def)
qed

lemma heap_down_step:
  assumes "heap_but_down a i" "0 < c" "parent c = i" "c < length a" "cmp (a ! c) (a ! i) < 0"
    and least: "\<And>j. j < length a \<Longrightarrow> 0 < j \<Longrightarrow> parent j = i \<Longrightarrow> cmp (a ! c) (a ! j) \<le> 0"
  shows "heap_but_down (swapped c i a) c"
proof -
  let ?b = "swapped c i a"
  have i: "i < c" using parent_less [OF assms(2)] assms(3) by simp
  have b: "\<And>k. k < length a \<Longrightarrow> ?b ! k = (if k = i then a ! c else if k = c then a ! i else a ! k)"
    using assms(4) i by (intro nth_swapped) auto
  have order: "\<And>j. j < length a \<Longrightarrow> 0 < j \<Longrightarrow> parent j \<noteq> i \<Longrightarrow> cmp (a ! parent j) (a ! j) \<le> 0"
    and up: "0 < i \<Longrightarrow> cmp (a ! parent i) (a ! c) \<le> 0"
    using assms by (auto simp: heap_but_down_def above_children_def)
  have "cmp (?b ! parent j) (?b ! j) \<le> 0" if j: "j < length a" "0 < j" "parent j \<noteq> c" for j
    using order [OF j(1,2)] least [OF j(1,2)] up b [OF j(1)] b [of "parent j"] parent_less [OF j(2)] j assms i
    by (auto split: if_splits)
  moreover have "cmp (?b ! parent c) (?b ! j) \<le> 0" if j: "j < length a" "0 < j" "parent j = c" for j
    using order [OF j(1,2)] b [OF j(1)] b [of i] parent_less [OF j(2)] j assms i by auto
  ultimately show ?thesis by (simp add: heap_but_down_def above_children_def)
qed

lemma heap_first:
  assumes "heap_order cmp a" "j < length a"
  shows "cmp (a ! 0) (a ! j) \<le> 0"
  using assms(2)
proof (induction j rule: less_induct)
  case (less j)
  show ?case
  proof (cases "j = 0")
    case False
    then have "cmp (a ! 0) (a ! parent j) \<le> 0" using less parent_less [of j] by simp
    moreover have "cmp (a ! parent j) (a ! j) \<le> 0" using assms(1) less.prems False by (simp add: heap_order_def)
    ultimately show ?thesis by (rule trans)
  qed simp
qed

lemma heap_append:
  assumes "heap_order cmp a"
  shows "heap_but_up (a @ [x]) (length a)"
proof -
  have "cmp ((a @ [x]) ! parent j) ((a @ [x]) ! j) \<le> 0" if j: "j < length a" "0 < j" for j
    using assms j parent_less [OF j(2)] by (simp add: heap_order_def nth_append)
  moreover have "parent j \<noteq> length a" if "j < Suc (length a)" "0 < j" for j
    using parent_less [OF that(2)] that(1) by linarith
  ultimately show ?thesis by (auto simp: heap_but_up_def above_children_def less_Suc_eq)
qed

lemma heap_replace_first:
  assumes "heap_order cmp a" "length b \<le> length a" "\<And>k. 0 < k \<Longrightarrow> k < length b \<Longrightarrow> b ! k = a ! k"
  shows "heap_but_down b 0"
proof -
  have "cmp (b ! parent j) (b ! j) \<le> 0" if j: "j < length b" "0 < j" "parent j \<noteq> 0" for j
    using assms j parent_less [OF j(2)] by (auto simp: heap_order_def)
  then show ?thesis by (simp add: heap_but_down_def above_children_def)
qed

end

section \<open>The operations keep the heap\<close>

definition queue_content :: "priority_queue \<Rightarrow> ptr list" where
  "queue_content q = take (unat (queue_size q)) (entries_of q)"

definition same_queue :: "priority_queue \<Rightarrow> priority_queue \<Rightarrow> bool" where
  "same_queue q q1 \<longleftrightarrow> queue_capacity q1 = queue_capacity q \<and> queue_size q1 = queue_size q \<and>
     compare q1 = compare q \<and> has_destroyer q1 = has_destroyer q \<and> length (entries_of q1) = length (entries_of q)"

text \<open>The array is as large as the capacity says, and its used part is a heap.\<close>

definition queue_ok :: "priority_queue \<Rightarrow> bool" where
  "queue_ok q \<longleftrightarrow> length (entries_of q) = unat (queue_capacity q) \<and> queue_size q \<le> queue_capacity q \<and>
     0 < queue_capacity q \<and> unat (queue_capacity q) < 2 ^ 61 \<and> heap_order (compare q) (queue_content q)"

lemma same_queue_refl [simp]: "same_queue q q"
  by (simp add: same_queue_def)

lemma same_queue_trans: "same_queue q q1 \<Longrightarrow> same_queue q1 q2 \<Longrightarrow> same_queue q q2"
  by (simp add: same_queue_def)

lemma entry_content:
  "unat (queue_size q) \<le> length (entries_of q) \<Longrightarrow> i < queue_size q \<Longrightarrow> entry q i = Inr (queue_content q ! unat i)"
  by (simp add: entry_def queue_content_def word_less_nat_alt)

lemma entry_less_content:
  assumes "unat (queue_size q) \<le> length (entries_of q)" "i < queue_size q" "j < queue_size q"
  shows "entry_less q i j = Inr (compare q (queue_content q ! unat i) (queue_content q ! unat j) < 0)"
  using assms by (simp add: entry_less_def entry_content)

lemma swap_entries_content:
  assumes "unat (queue_size q) \<le> length (entries_of q)" "i < queue_size q" "j < queue_size q"
  shows "\<exists>q1. swap_entries q i j = Inr q1 \<and> same_queue q q1 \<and> queue_content q1 = swapped (unat i) (unat j) (queue_content q)"
proof -
  have "unat i < length (entries_of q)" "unat j < length (entries_of q)"
    using assms by (auto simp: word_less_nat_alt)
  then have "swap_entries q i j = Inr (q\<lparr>entries_of := swapped (unat i) (unat j) (entries_of q)\<rparr>)"
    by (simp add: swap_entries_def entry_def set_entry_def swapped_def)
  then show ?thesis
    using assms by (auto simp: same_queue_def queue_content_def word_less_nat_alt take_swapped)
qed

lemma unat_parentIndex: "0 < i \<Longrightarrow> unat (parentIndex i) = parent (unat i)"
  by (simp add: parentIndex_def parent_def unat_div unat_minus_one word_pos_iff)

lemma length_content: "unat (queue_size q) \<le> length (entries_of q) \<Longrightarrow> length (queue_content q) = unat (queue_size q)"
  by (simp add: queue_content_def)

lemma bubbleUp_heap:
  assumes "comparison (compare q)" "unat (queue_size q) \<le> length (entries_of q)" "i < queue_size q"
    and "comparison.heap_but_up (compare q) (queue_content q) (unat i)"
  shows "\<exists>q1. bubbleUp q i = Inr q1 \<and> same_queue q q1 \<and> heap_order (compare q) (queue_content q1) \<and>
    mset (queue_content q1) = mset (queue_content q)"
  using assms
proof (induction q i rule: bubbleUp.induct)
  case (1 q i)
  note cmp = 1(2) and len = 1(3) and i = 1(4) and up = 1(5)
  show ?case
  proof (cases "0 < i")
    case False
    then show ?thesis
      using comparison.heap_up_done [OF cmp up] by (subst bubbleUp.simps) (auto simp: word_pos_iff)
  next
    case True
    note p = parent_decreases [OF True] unat_parentIndex [OF True]
    then have ps: "parentIndex i < queue_size q" using i by (simp add: word_less_nat_alt)
    note less = entry_less_content [OF len i ps]
    show ?thesis
    proof (cases "compare q (queue_content q ! unat i) (queue_content q ! parent (unat i)) < 0")
      case False
      then have "heap_order (compare q) (queue_content q)"
        using comparison.heap_up_done [OF cmp up] comparison.not_less [OF cmp] by blast
      then show ?thesis using False True less p(2) by (subst bubbleUp.simps) simp
    next
      case lt: True
      obtain q1 where q1: "swap_entries q i (parentIndex i) = Inr q1" "same_queue q q1"
          "queue_content q1 = swapped (unat i) (parent (unat i)) (queue_content q)"
        using swap_entries_content [OF len i ps] p(2) by auto
      have il: "unat i < length (queue_content q)" using i len by (simp add: length_content word_less_nat_alt)
      have "comparison.heap_but_up (compare q1) (queue_content q1) (unat (parentIndex i))"
        using comparison.heap_up_step [OF cmp up _ il lt] True q1 p(2)
        by (simp add: same_queue_def unat_gt_0 word_pos_iff)
      then obtain q2 where "bubbleUp q1 (parentIndex i) = Inr q2" "same_queue q1 q2"
          "heap_order (compare q1) (queue_content q2)" "mset (queue_content q2) = mset (queue_content q1)"
        using 1(1) [OF True less, of q1] lt p(2) q1 cmp len ps by (auto simp: same_queue_def)
      moreover have "mset (queue_content q1) = mset (queue_content q)"
        using q1(3) il p mset_swapped by (metis less_trans)
      ultimately show ?thesis
        using True less lt p(2) q1 same_queue_trans [of q q1 q2]
        by (subst bubbleUp.simps) (auto simp: same_queue_def)
    qed
  qed
qed

text \<open>What \<open>Add\<close> needs: a free entry, or a larger array that is granted and whose size in bytes does not wrap around.\<close>

definition can_grow :: "bool \<Rightarrow> priority_queue \<Rightarrow> bool" where
  "can_grow granted q \<longleftrightarrow> queue_size q < queue_capacity q \<or> granted \<and> unat (queue_capacity q) < 2 ^ 60"

definition grown :: "bool \<Rightarrow> priority_queue \<Rightarrow> priority_queue" where
  "grown granted q = (if queue_size q + 1 > queue_capacity q then expand_queue granted q else q)"

lemma grown_ok:
  assumes "queue_ok q" "can_grow granted q"
  shows "queue_ok (grown granted q)" "queue_size (grown granted q) < queue_capacity (grown granted q)"
    "queue_content (grown granted q) = queue_content q" "queue_size (grown granted q) = queue_size q"
    "compare (grown granted q) = compare q"
proof -
  have q: "length (entries_of q) = unat (queue_capacity q)" "unat (queue_size q) \<le> unat (queue_capacity q)"
    "0 < unat (queue_capacity q)" "unat (queue_capacity q) < 2 ^ 61" "heap_order (compare q) (queue_content q)"
    using assms(1) by (simp_all add: queue_ok_def word_le_nat_alt word_less_nat_alt)
  have one: "unat (queue_size q + 1) = unat (queue_size q) + 1"
    using q(2,4) unat_add_no_wrap [of "queue_size q" 1] by simp
  show c: "compare (grown granted q) = compare q" "queue_size (grown granted q) = queue_size q"
    by (simp_all add: grown_def expand_queue_def Let_def)
  have "queue_ok (grown granted q) \<and> queue_size (grown granted q) < queue_capacity (grown granted q) \<and>
    queue_content (grown granted q) = queue_content q"
  proof (cases "queue_size q + 1 > queue_capacity q")
    case False
    then show ?thesis
      using assms(1) one by (simp add: grown_def word_less_nat_alt)
  next
    case True
    then have s: "unat (queue_size q) = unat (queue_capacity q)"
      using one q(2) by (simp add: word_less_nat_alt)
    then have g: granted "unat (queue_capacity q) < 2 ^ 60"
      using assms(2) by (auto simp: can_grow_def word_less_nat_alt)
    have two: "unat (queue_capacity q * 2) = unat (queue_capacity q) * 2"
      using g(2) by (simp add: unat_word_ariths)
    have "unat (8 * (queue_capacity q * 2)) div 8 = unat (queue_capacity q) * 2"
      using g(2) by (simp add: unat_word_ariths)
    then have e: "grown granted q = q\<lparr>queue_capacity := queue_capacity q * 2,
        entries_of := entries_of q @ replicate (unat (queue_capacity q)) None\<rparr>"
      using True g(1) q(1) by (simp add: grown_def expand_queue_def Let_def)
    have "queue_content (grown granted q) = queue_content q" using q(1) s by (simp add: e queue_content_def)
    then show ?thesis
      using q s two g(2) by (simp add: queue_ok_def e word_le_nat_alt word_less_nat_alt)
  qed
  then show "queue_ok (grown granted q)" "queue_size (grown granted q) < queue_capacity (grown granted q)"
    "queue_content (grown granted q) = queue_content q" by blast+
qed

lemma Add_heap:
  assumes cmp: "comparison (compare q)" and ok: "queue_ok q" and grow: "can_grow granted q" and d: "data \<noteq> None"
  shows "\<exists>q1. parcPriorityQueue_Add granted q data = Inr (True, q1) \<and> queue_ok q1 \<and> compare q1 = compare q \<and>
    mset (queue_content q1) = mset (queue_content q) + {#data#} \<and> unat (queue_size q1) = Suc (unat (queue_size q))"
proof -
  note g = grown_ok [OF ok grow]
  let ?g = "grown granted q"
  let ?q2 = "?g\<lparr>entries_of := (entries_of ?g)[unat (queue_size q) := data], queue_size := queue_size q + 1\<rparr>"
  have len: "length (entries_of ?g) = unat (queue_capacity ?g)" "unat (queue_capacity ?g) < 2 ^ 61"
    "unat (queue_size q) < length (entries_of ?g)"
    using g by (simp_all add: queue_ok_def word_less_nat_alt)
  then have one: "unat (queue_size q + 1) = Suc (unat (queue_size q))"
    using unat_add_no_wrap [of "queue_size q" 1] by simp
  have "queue_content ?q2 = queue_content ?g @ [data]"
    using len(3) one g(4) by (simp add: queue_content_def take_Suc_conv_app_nth)
  then have c: "queue_content ?q2 = queue_content q @ [data]" using g(3) by simp
  have "length (queue_content q) = unat (queue_size q)"
    using g(3,4) len(3) length_content [of ?g] by simp
  then have "comparison.heap_but_up (compare ?q2) (queue_content ?q2) (unat (queue_size q))"
    using comparison.heap_append [OF cmp, of "queue_content q" data] ok c g(5) by (simp add: queue_ok_def)
  then obtain q3 where q3: "bubbleUp ?q2 (queue_size q) = Inr q3" "same_queue ?q2 q3"
      "heap_order (compare ?q2) (queue_content q3)" "mset (queue_content q3) = mset (queue_content ?q2)"
    using bubbleUp_heap [of ?q2 "queue_size q"] cmp g(5) len(3) one by (auto simp: word_less_nat_alt)
  have "parcPriorityQueue_Add granted q data = Inr (True, q3)"
    using q3(1) d len(3) g(4)
    by (simp add: parcPriorityQueue_Add_def set_entry_def Let_def grown_def [symmetric])
  moreover have "queue_ok q3"
    using q3(2,3) g(1,2,5) len one by (simp add: queue_ok_def same_queue_def word_le_nat_alt word_less_nat_alt)
  ultimately show ?thesis
    using q3 c one g(5) by (auto simp: same_queue_def)
qed

lemma Peek_first:
  assumes cmp: "comparison (compare q)" and ok: "queue_ok q"
  shows "\<exists>p. parcPriorityQueue_Peek q = Inr p \<and>
    (if queue_content q = [] then p = None else p \<in> set (queue_content q) \<and> (\<forall>x \<in> set (queue_content q). compare q p x \<le> 0))"
proof (cases "0 < queue_size q")
  case True
  have len: "unat (queue_size q) \<le> length (entries_of q)" using ok by (simp add: queue_ok_def word_le_nat_alt)
  have c: "queue_content q \<noteq> []" using True len by (auto simp: queue_content_def word_less_nat_alt)
  moreover have "compare q (queue_content q ! 0) x \<le> 0" if "x \<in> set (queue_content q)" for x
    using that comparison.heap_first [OF cmp] ok by (auto simp: queue_ok_def in_set_conv_nth)
  moreover have "queue_content q ! 0 \<in> set (queue_content q)" using c by (intro nth_mem) simp
  ultimately show ?thesis using entry_content [OF len, of 0] True by (simp add: parcPriorityQueue_Peek_def)
next
  case False
  then show ?thesis by (simp add: parcPriorityQueue_Peek_def queue_content_def word_pos_iff)
qed

text \<open>A sequence of \<open>Add\<close>, each with the answer of the allocator.\<close>

fun add_all :: "priority_queue \<Rightarrow> (bool \<times> ptr) list \<Rightarrow> priority_queue result" where
  "add_all q [] = Inr q"
| "add_all q ((granted, data) # xs) =
    rbind (parcPriorityQueue_Add granted q data) (\<lambda>(_, q1). add_all q1 xs)"

lemma add_all_heap:
  assumes "comparison (compare q)" "queue_ok q" "\<forall>(granted, data) \<in> set xs. granted \<and> data \<noteq> None"
    and "unat (queue_size q) + length xs < 2 ^ 60"
  shows "\<exists>q1. add_all q xs = Inr q1 \<and> queue_ok q1 \<and> compare q1 = compare q \<and>
    mset (queue_content q1) = mset (queue_content q) + mset (map snd xs) \<and>
    unat (queue_size q1) = unat (queue_size q) + length xs"
  using assms
proof (induction xs arbitrary: q)
  case (Cons x xs)
  obtain data where x: "x = (True, data)" "data \<noteq> None" using Cons.prems(3) by (cases x) auto
  have "can_grow True q"
    using Cons.prems(2,4) by (auto simp: can_grow_def queue_ok_def word_less_nat_alt word_le_nat_alt)
  then obtain q1 where q1: "parcPriorityQueue_Add True q data = Inr (True, q1)" "queue_ok q1"
      "compare q1 = compare q" "mset (queue_content q1) = mset (queue_content q) + {#data#}"
      "unat (queue_size q1) = Suc (unat (queue_size q))"
    using Add_heap [OF Cons.prems(1,2) _ x(2)] by blast
  then show ?case using Cons.IH [of q1] Cons.prems x by auto
qed simp

lemma Create_ok:
  "\<exists>q. parcPriorityQueue_Create True True (Some cmp) b = Inr q \<and> queue_ok q \<and> compare q = cmp \<and>
    queue_content q = [] \<and> queue_size q = 0 \<and> has_destroyer q = b"
  by (simp add: parcPriorityQueue_Create_def queue_ok_def queue_content_def heap_order_def)

text \<open>
  C23: For a comparison that is a total preorder, any number of non-null entries can be added while the array can grow:
  the queue keeps its heap order and holds exactly the entries added, \<open>Size\<close> counts them and \<open>Peek\<close> returns an entry
  that is not greater than any other.
\<close>

theorem parcPriorityQueue_Add_Peek:
  assumes "comparison cmp" "\<forall>(granted, data) \<in> set xs. granted \<and> data \<noteq> None" "length xs < 2 ^ 60"
  shows "\<exists>q q1 p. parcPriorityQueue_Create True True (Some cmp) destroyer = Inr q \<and> add_all q xs = Inr q1 \<and>
    queue_ok q1 \<and> mset (queue_content q1) = mset (map snd xs) \<and> unat (parcPriorityQueue_Size q1) = length xs \<and>
    parcPriorityQueue_Peek q1 = Inr p \<and>
    (if xs = [] then p = None else p \<in> snd ` set xs \<and> (\<forall>x \<in> snd ` set xs. cmp p x \<le> 0))"
proof -
  obtain q where q: "parcPriorityQueue_Create True True (Some cmp) destroyer = Inr q" "queue_ok q" "compare q = cmp"
      "queue_content q = []" "queue_size q = 0"
    using Create_ok by blast
  then obtain q1 where q1: "add_all q xs = Inr q1" "queue_ok q1" "compare q1 = cmp"
      "mset (queue_content q1) = mset (map snd xs)" "unat (queue_size q1) = length xs"
    using add_all_heap [of q xs] assms by auto
  have "set (queue_content q1) = snd ` set xs" using q1(4) by (metis set_map set_mset_mset)
  moreover have "queue_content q1 = [] \<longleftrightarrow> xs = []" using q1(4) by (metis map_is_Nil_conv mset_zero_iff)
  ultimately show ?thesis
    using q q1 Peek_first [of q1] assms(1) by (auto simp: parcPriorityQueue_Size_def)
qed

theorem parcPriorityQueue_Add_Peek_witness:
  "\<exists>q q1. parcPriorityQueue_Create True True
      (Some (\<lambda>x y. parcPriorityQueue_Uint64CompareTo (of_nat (the x)) (of_nat (the y)))) False = Inr q \<and>
    add_all q [(True, Some 5), (True, Some 3), (True, Some 4)] = Inr q1 \<and>
    mset (queue_content q1) = {#Some 3, Some 4, Some 5#} \<and> parcPriorityQueue_Peek q1 = Inr (Some 3)"
proof -
  let ?cmp = "\<lambda>x y. parcPriorityQueue_Uint64CompareTo (of_nat (the x)) (of_nat (the y))"
  have "comparison ?cmp" by (rule comparison_image) (rule uint64_order.comparison_axioms)
  then obtain q q1 p where "parcPriorityQueue_Create True True (Some ?cmp) False = Inr q"
      "add_all q [(True, Some 5), (True, Some 3), (True, Some 4)] = Inr q1"
      "mset (queue_content q1) = {#Some 5, Some 3, Some 4#}" "parcPriorityQueue_Peek q1 = Inr p"
      "p \<in> {Some 5, Some 3, Some 4}" "\<forall>x \<in> {Some 5, Some 3, Some 4}. ?cmp p x \<le> 0"
    using parcPriorityQueue_Add_Peek [of ?cmp "[(True, Some 5), (True, Some 3), (True, Some 4)]" False] by auto
  moreover from this(5,6) have "p = Some 3" by (auto simp: parcPriorityQueue_Uint64CompareTo_def)
  ultimately show ?thesis by (auto simp: add_mset_commute)
qed

section \<open>Poll\<close>

text \<open>A step that moves the entry at \<open>i\<close> below its smaller child, to \<open>i1\<close>.\<close>

definition descended :: "priority_queue \<Rightarrow> size_t \<Rightarrow> size_t \<Rightarrow> priority_queue \<Rightarrow> bool" where
  "descended q i i1 q1 \<longleftrightarrow> same_queue q q1 \<and> mset (queue_content q1) = mset (queue_content q) \<and> i1 < queue_size q \<and>
     unat i < unat i1 \<and> queue_content q1 ! unat i1 = queue_content q ! unat i \<and>
     comparison.heap_but_down (compare q) (queue_content q1) (unat i1)"

definition trickle_ready :: "priority_queue \<Rightarrow> size_t \<Rightarrow> bool" where
  "trickle_ready q i \<longleftrightarrow> comparison (compare q) \<and> unat (queue_size q) \<le> length (entries_of q) \<and>
     unat (queue_size q) < 2 ^ 61 \<and> unat i < 2 ^ 61 \<and> comparison.heap_but_down (compare q) (queue_content q) (unat i)"

lemma child_indices:
  assumes "trickle_ready q i"
  shows "unat (leftChildIndex i) = 2 * unat i + 1" "unat (rightChildIndex i) = 2 * unat i + 2"
  using assms by (simp_all add: trickle_ready_def leftChildIndex_def rightChildIndex_def unat_word_ariths)

lemma descend_to_child:
  assumes ready: "trickle_ready q i" and c: "c < queue_size q" "unat c = 2 * unat i + 1 \<or> unat c = 2 * unat i + 2"
    and less: "compare q (queue_content q ! unat c) (queue_content q ! unat i) < 0"
    and least: "\<And>j. j < length (queue_content q) \<Longrightarrow> j = 2 * unat i + 1 \<or> j = 2 * unat i + 2 \<Longrightarrow>
      compare q (queue_content q ! unat c) (queue_content q ! j) \<le> 0"
  shows "\<exists>q1. swap_entries q c i = Inr q1 \<and> descended q i c q1"
proof -
  have cmp: "comparison (compare q)" and len: "unat (queue_size q) \<le> length (entries_of q)"
    and down: "comparison.heap_but_down (compare q) (queue_content q) (unat i)"
    using ready by (simp_all add: trickle_ready_def)
  have lc: "unat c < length (queue_content q)" using c(1) len by (simp add: length_content word_less_nat_alt)
  have ic: "unat i < unat c" using c(2) by auto
  then have i: "i < queue_size q" using c(1) by (simp add: word_less_nat_alt)
  obtain q1 where q1: "swap_entries q c i = Inr q1" "same_queue q q1"
      "queue_content q1 = swapped (unat c) (unat i) (queue_content q)"
    using swap_entries_content [OF len c(1) i] by blast
  have "comparison.heap_but_down (compare q) (queue_content q1) (unat c)"
    unfolding q1(3) using c(2) lc less least
    by (intro comparison.heap_down_step [OF cmp down]) (auto simp: parent_iff)
  then show ?thesis
    using q1 c(1) ic lc by (auto simp: descended_def mset_swapped nth_swapped)
qed

lemma trickleRight_cases:
  assumes ready: "trickle_ready q i" and right: "rightChildIndex i < queue_size q"
  shows "if compare q (queue_content q ! (2 * unat i + 2)) (queue_content q ! unat i) < 0
    then \<exists>i1 q1. trickleRightChild q i (leftChildIndex i) (rightChildIndex i) = Inr (i1, q1) \<and> descended q i i1 q1
    else trickleRightChild q i (leftChildIndex i) (rightChildIndex i) = Inr (i, q)"
proof -
  have cmp: "comparison (compare q)" and len: "unat (queue_size q) \<le> length (entries_of q)"
    using ready by (simp_all add: trickle_ready_def)
  note ch = child_indices [OF ready]
  have idx: "leftChildIndex i < queue_size q" "i < queue_size q"
    using right ch by (simp_all add: word_less_nat_alt)
  note less = entry_less_content [OF len right idx(2)] entry_less_content [OF len right idx(1)]
  let ?a = "queue_content q"
  have right_case: "\<exists>q1. swap_entries q (rightChildIndex i) i = Inr q1 \<and> descended q i (rightChildIndex i) q1"
    if "compare q (?a ! (2 * unat i + 2)) (?a ! unat i) < 0" "compare q (?a ! (2 * unat i + 2)) (?a ! (2 * unat i + 1)) < 0"
    using that ch right comparison.refl [OF cmp] by (intro descend_to_child [OF ready]) auto
  have left_case: "\<exists>q1. swap_entries q (leftChildIndex i) i = Inr q1 \<and> descended q i (leftChildIndex i) q1"
    if "compare q (?a ! (2 * unat i + 2)) (?a ! unat i) < 0"
      "\<not> compare q (?a ! (2 * unat i + 2)) (?a ! (2 * unat i + 1)) < 0"
    using that ch idx(1) comparison.refl [OF cmp] comparison.not_less [OF cmp] comparison.le_less_trans [OF cmp]
    by (intro descend_to_child [OF ready]) auto
  show ?thesis
    using right_case left_case less ch by (auto simp: trickleRightChild_def)
qed

lemma trickleLeft_cases:
  assumes ready: "trickle_ready q i" and left: "leftChildIndex i < queue_size q"
    and right: "\<not> rightChildIndex i < queue_size q"
  shows "if compare q (queue_content q ! (2 * unat i + 1)) (queue_content q ! unat i) < 0
    then \<exists>i1 q1. trickleLeftChild q i (leftChildIndex i) = Inr (i1, q1) \<and> descended q i i1 q1
    else trickleLeftChild q i (leftChildIndex i) = Inr (i, q)"
proof -
  have cmp: "comparison (compare q)" and len: "unat (queue_size q) \<le> length (entries_of q)"
    using ready by (simp_all add: trickle_ready_def)
  note ch = child_indices [OF ready]
  have i: "i < queue_size q" using left ch by (simp add: word_less_nat_alt)
  have "length (queue_content q) \<le> 2 * unat i + 2"
    using right ch len by (simp add: length_content word_less_nat_alt)
  then have "\<exists>q1. swap_entries q (leftChildIndex i) i = Inr q1 \<and> descended q i (leftChildIndex i) q1"
    if "compare q (queue_content q ! (2 * unat i + 1)) (queue_content q ! unat i) < 0"
    using that ch left comparison.refl [OF cmp] by (intro descend_to_child [OF ready]) auto
  then show ?thesis
    using entry_less_content [OF len left i] ch by (auto simp: trickleLeftChild_def)
qed

lemma descended_ready: "descended q i i1 q1 \<Longrightarrow> trickle_ready q i \<Longrightarrow> trickle_ready q1 i1"
  by (auto simp: trickle_ready_def descended_def same_queue_def word_less_nat_alt)

lemma no_child_heap:
  assumes "trickle_ready q i" "\<not> leftChildIndex i < queue_size q"
  shows "heap_order (compare q) (queue_content q)"
proof -
  have "length (queue_content q) \<le> 2 * unat i + 1"
    using assms child_indices [OF assms(1)] by (simp add: trickle_ready_def length_content word_less_nat_alt)
  then show ?thesis using assms comparison.heap_down_done by (auto simp: trickle_ready_def)
qed

lemma left_before_right:
  "trickle_ready q i \<Longrightarrow> rightChildIndex i < queue_size q \<Longrightarrow> leftChildIndex i < queue_size q"
  using child_indices [of q i] by (simp add: word_less_nat_alt)

text \<open>Whenever the loop ends, it has restored the heap order.\<close>

lemma trickleDown_result:
  assumes "trickle_ready q i" "trickleDown q i = Some r"
  shows "\<exists>q1. r = Inr q1 \<and> same_queue q q1 \<and> mset (queue_content q1) = mset (queue_content q) \<and>
    heap_order (compare q) (queue_content q1)"
proof -
  let ?R = "\<lambda>q i r. trickle_ready q i \<longrightarrow> (\<exists>q1. r = Inr q1 \<and> same_queue q q1 \<and>
    mset (queue_content q1) = mset (queue_content q) \<and> heap_order (compare q) (queue_content q1))"
  have "?R q i r"
  proof (rule trickleDown.raw_induct [where P = ?R, OF _ assms(2)], rule impI)
    fix f q i r
    assume IH: "\<And>q i r. f q i = Some r \<Longrightarrow> ?R q i r" and ready: "trickle_ready q i"
      and body: "(if rightChildIndex i < queue_size q
         then case trickleRightChild q i (leftChildIndex i) (rightChildIndex i) of
            Inl e \<Rightarrow> Some (Inl e) | Inr (i, q1) \<Rightarrow> f q1 i
         else if leftChildIndex i < queue_size q
         then case trickleLeftChild q i (leftChildIndex i) of Inl e \<Rightarrow> Some (Inl e) | Inr (i, q1) \<Rightarrow> f q1 i
         else Some (Inr q)) = Some r"
    let ?goal = "\<exists>q1. r = Inr q1 \<and> same_queue q q1 \<and> mset (queue_content q1) = mset (queue_content q) \<and>
      heap_order (compare q) (queue_content q1)"
    have rec: ?goal if "f q1 i1 = Some r" "descended q i i1 q1" for i1 q1
      using IH [OF that(1)] descended_ready [OF that(2) ready] that(2)
      by (auto simp: descended_def same_queue_def)
    have same: ?goal if "f q i = Some r" using IH [OF that] ready by simp
    show ?goal
      using body trickleRight_cases [OF ready] trickleLeft_cases [OF ready] rec same no_child_heap [OF ready]
        left_before_right [OF ready]
      by (auto split: if_splits)
  qed
  then show ?thesis using assms(1) by simp
qed

text \<open>The loop ends when the entry is greater than all others: it moves down to an entry without children.\<close>

definition greatest_at :: "priority_queue \<Rightarrow> size_t \<Rightarrow> bool" where
  "greatest_at q i \<longleftrightarrow> (\<forall>y \<in># mset (queue_content q) - {#queue_content q ! unat i#}. compare q y (queue_content q ! unat i) < 0)"

lemma nth_other_in_mset:
  assumes "i < length xs" "j < length xs" "i \<noteq> j"
  shows "xs ! j \<in># mset xs - {#xs ! i#}"
proof -
  have "mset xs - {#xs ! i#} = mset (take i xs @ drop (Suc i) xs)"
    by (subst id_take_nth_drop [OF assms(1)]) simp
  moreover have "xs ! j \<in> set (take i xs @ drop (Suc i) xs)"
  proof (cases "j < i")
    case True
    then have "xs ! j = take i xs ! j" "j < length (take i xs)" using assms by simp_all
    then show ?thesis by (metis in_set_conv_nth set_append UnI1)
  next
    case False
    then have "xs ! j = drop (Suc i) xs ! (j - Suc i)" "j - Suc i < length (drop (Suc i) xs)"
      using assms by (simp_all add: le_Suc_eq)
    then show ?thesis by (metis in_set_conv_nth set_append UnI2)
  qed
  ultimately show ?thesis by (metis set_mset_mset)
qed

lemma trickleDown_ends:
  "trickle_ready q i \<Longrightarrow> greatest_at q i \<Longrightarrow> \<exists>r. trickleDown q i = Some r"
proof (induction "unat (queue_size q) - unat i" arbitrary: q i rule: less_induct)
  case less
  note ready = less.prems(1)
  have len: "length (queue_content q) = unat (queue_size q)"
    using ready by (simp add: trickle_ready_def length_content)
  note ch = child_indices [OF ready]
  have small: "compare q (queue_content q ! j) (queue_content q ! unat i) < 0" if "unat i < j" "j < unat (queue_size q)" for j
    using less.prems(2) nth_other_in_mset [of "unat i" "queue_content q" j] that len by (auto simp: greatest_at_def)
  have rec: "\<exists>r. trickleDown q1 i1 = Some r" if d: "descended q i i1 q1" for i1 q1
  proof (rule less.hyps)
    show "unat (queue_size q1) - unat i1 < unat (queue_size q) - unat i"
      using d by (auto simp: descended_def same_queue_def word_less_nat_alt)
    show "trickle_ready q1 i1" by (rule descended_ready [OF d ready])
    show "greatest_at q1 i1" using d less.prems(2) by (simp add: greatest_at_def descended_def same_queue_def)
  qed
  show ?case
  proof (cases "leftChildIndex i < queue_size q")
    case False
    then have "\<not> rightChildIndex i < queue_size q" using left_before_right [OF ready] by blast
    then show ?thesis using False by (subst trickleDown.simps) simp
  next
    case left: True
    show ?thesis
    proof (cases "rightChildIndex i < queue_size q")
      case True
      then have "compare q (queue_content q ! (2 * unat i + 2)) (queue_content q ! unat i) < 0"
        using small ch by (simp add: word_less_nat_alt)
      then obtain i1 q1 where "trickleRightChild q i (leftChildIndex i) (rightChildIndex i) = Inr (i1, q1)"
          "descended q i i1 q1"
        using trickleRight_cases [OF ready True] by auto
      then show ?thesis using True rec by (subst trickleDown.simps) simp
    next
      case False
      have "compare q (queue_content q ! (2 * unat i + 1)) (queue_content q ! unat i) < 0"
        using small ch left by (simp add: word_less_nat_alt)
      then obtain i1 q1 where "trickleLeftChild q i (leftChildIndex i) = Inr (i1, q1)" "descended q i i1 q1"
        using trickleLeft_cases [OF ready left False] by auto
      then show ?thesis using False left rec by (subst trickleDown.simps) simp
    qed
  qed
qed

text \<open>A step that moves nothing is repeated forever.\<close>

lemma trickleDown_stuck:
  assumes "rightChildIndex i < queue_size q \<and>
       trickleRightChild q i (leftChildIndex i) (rightChildIndex i) = Inr (i, q) \<or>
     \<not> rightChildIndex i < queue_size q \<and> leftChildIndex i < queue_size q \<and>
       trickleLeftChild q i (leftChildIndex i) = Inr (i, q)"
  shows "trickleDown q i = None"
proof (rule ccontr)
  assume "trickleDown q i \<noteq> None"
  then obtain r where r: "trickleDown q i = Some r" by blast
  have "\<not> (q = q \<and> i = i)"
    by (rule trickleDown.raw_induct [where P = "\<lambda>q1 i1 _. \<not> (q1 = q \<and> i1 = i)", OF _ r])
      (use assms in \<open>fastforce split: if_splits\<close>)
  then show False by simp
qed

text \<open>The queue in which \<open>Poll\<close> has put the last entry into the first place.\<close>

definition polled :: "priority_queue \<Rightarrow> priority_queue" where
  "polled q = q\<lparr>queue_size := queue_size q - 1,
     entries_of := (entries_of q)[0 := last (queue_content q)]\<rparr>"

lemma Poll_polled:
  assumes "queue_ok q" "queue_content q \<noteq> []"
  shows "parcPriorityQueue_Poll q =
      (case trickleDown (polled q) 0 of
         None \<Rightarrow> Inl Diverges | Some r \<Rightarrow> rbind r (\<lambda>q3. Inr (queue_content q ! 0, q3)))"
    and "unat (queue_size (polled q)) = length (queue_content q) - 1"
    and "unat (queue_size (polled q)) < length (entries_of (polled q))"
    and "queue_content (polled q) = (butlast (queue_content q))[0 := last (queue_content q)]"
proof -
  have len: "unat (queue_size q) \<le> length (entries_of q)"
    using assms(1) by (simp add: queue_ok_def word_le_nat_alt)
  note l = length_content [OF len]
  have pos: "0 < queue_size q" using assms(2) l by (cases "queue_content q") (simp_all add: word_pos_iff, auto)
  have s: "unat (queue_size q - 1) = unat (queue_size q) - 1"
    using pos by (simp add: unat_minus_one word_pos_iff)
  have ne: "entries_of q \<noteq> []" using assms(2) by (auto simp: queue_content_def)
  have lt: "unat (queue_size q) - 1 < length (entries_of q)"
    using len pos by (simp add: word_less_nat_alt)
  have last: "last (queue_content q) = entries_of q ! (unat (queue_size q) - 1)"
    using assms(2) l lt pos by (simp add: last_conv_nth queue_content_def word_less_nat_alt)
  have first: "queue_content q ! 0 = entries_of q ! 0"
    using pos by (simp add: queue_content_def word_less_nat_alt)
  show "parcPriorityQueue_Poll q =
      (case trickleDown (polled q) 0 of
         None \<Rightarrow> Inl Diverges | Some r \<Rightarrow> rbind r (\<lambda>q3. Inr (queue_content q ! 0, q3)))"
    using pos ne lt s last first
    by (simp add: parcPriorityQueue_Poll_def entry_def set_entry_def polled_def word_less_nat_alt
      split: option.split)
  show "unat (queue_size (polled q)) = length (queue_content q) - 1" using s l by (simp add: polled_def)
  show "unat (queue_size (polled q)) < length (entries_of (polled q))" using s lt by (simp add: polled_def)
  show "queue_content (polled q) = (butlast (queue_content q))[0 := last (queue_content q)]"
    using s len by (simp add: queue_content_def polled_def butlast_take take_update_swap)
qed

lemma polled_ready:
  assumes "comparison (compare q)" "queue_ok q" "queue_content q \<noteq> []"
  shows "trickle_ready (polled q) 0"
proof -
  note p = Poll_polled [OF assms(2,3)]
  have "comparison.heap_but_down (compare q) (queue_content (polled q)) 0"
    using assms(2) by (intro comparison.heap_replace_first [OF assms(1), of "queue_content q"])
      (auto simp: queue_ok_def p(4) nth_butlast)
  then show ?thesis
    using assms p(2,3) by (simp add: trickle_ready_def) (simp add: polled_def queue_ok_def)
qed

lemma mset_polled:
  assumes "queue_ok q" "queue_content q \<noteq> []"
  shows "mset (queue_content q) = mset (queue_content (polled q)) + {#queue_content q ! 0#}"
proof -
  obtain xs x where q: "queue_content q = xs @ [x]" using assms(2) by (metis rev_exhaust)
  then show ?thesis
    using Poll_polled(4) [OF assms] by (cases xs) (simp_all add: add_mset_commute)
qed

text \<open>
  C22: When \<open>Poll\<close> returns on a queue that is not empty, it returns an entry that is not greater than any other,
  removes exactly this entry and keeps the heap order. It stops with no trap, and it does return when the entry in
  the last place is greater than all others.
\<close>

theorem parcPriorityQueue_Poll_least:
  assumes "comparison (compare q)" "queue_ok q" "queue_content q \<noteq> []"
  shows "(\<forall>p q1. parcPriorityQueue_Poll q = Inr (p, q1) \<longrightarrow>
      p \<in> set (queue_content q) \<and> (\<forall>x \<in> set (queue_content q). compare q p x \<le> 0) \<and>
      mset (queue_content q) = mset (queue_content q1) + {#p#} \<and> queue_ok q1 \<and> compare q1 = compare q) \<and>
    (\<forall>e. parcPriorityQueue_Poll q = Inl e \<longrightarrow> e = Diverges) \<and>
    ((\<forall>x \<in> set (butlast (queue_content q)). compare q x (last (queue_content q)) < 0) \<longrightarrow> returns (parcPriorityQueue_Poll q))"
proof -
  note p = Poll_polled [OF assms(2,3)] and ready = polled_ready [OF assms]
  have c: "compare (polled q) = compare q" by (simp add: polled_def)
  have least: "\<forall>x \<in> set (queue_content q). compare q (queue_content q ! 0) x \<le> 0" "queue_content q ! 0 \<in> set (queue_content q)"
    using comparison.heap_first [OF assms(1)] assms(2,3) by (auto simp: queue_ok_def in_set_conv_nth)
  have result: "\<exists>q1. r = Inr q1 \<and> queue_ok q1 \<and> compare q1 = compare q \<and>
      mset (queue_content q) = mset (queue_content q1) + {#queue_content q ! 0#}" if r: "trickleDown (polled q) 0 = Some r" for r
  proof -
    obtain q1 where q1: "r = Inr q1" "same_queue (polled q) q1" "mset (queue_content q1) = mset (queue_content (polled q))"
        "heap_order (compare q) (queue_content q1)"
      using trickleDown_result [OF ready r] c by auto
    then have "queue_ok q1"
      using assms(2) p(2,3) by (auto simp: queue_ok_def same_queue_def polled_def word_le_nat_alt)
    then show ?thesis using q1 mset_polled [OF assms(2,3)] by (auto simp: same_queue_def polled_def)
  qed
  have ends: "\<exists>r. trickleDown (polled q) 0 = Some r"
    if g: "\<forall>x \<in> set (butlast (queue_content q)). compare q x (last (queue_content q)) < 0"
  proof (rule trickleDown_ends [OF ready])
    show "greatest_at (polled q) 0"
    proof (cases "butlast (queue_content q)")
      case Nil
      then show ?thesis by (simp add: greatest_at_def p(4))
    next
      case (Cons y ys)
      then show ?thesis using g by (simp add: greatest_at_def p(4) c)
    qed
  qed
  show ?thesis
  proof (cases "trickleDown (polled q) 0")
    case None
    then show ?thesis using p(1) ends by auto
  next
    case (Some r)
    then show ?thesis using p(1) result [OF Some] least by auto
  qed
qed

text \<open>
  \<open>Poll\<close> does not return when the entry in the last place is not greater than the right child of the root (or, in a
  queue of three, than the left child): \<open>_trickleDown\<close> repeats the same comparison forever. So it hangs on three equal
  entries, and on the entries 1, 2, 4, 3 added in this order.
\<close>

theorem parcPriorityQueue_Poll_diverges:
  assumes "comparison (compare q)" "queue_ok q" "3 \<le> length (queue_content q)"
    and "\<not> compare q (queue_content q ! (if length (queue_content q) = 3 then 1 else 2)) (last (queue_content q)) < 0"
  shows "parcPriorityQueue_Poll q = Inl Diverges"
proof -
  have ne: "queue_content q \<noteq> []" using assms(3) by auto
  note p = Poll_polled [OF assms(2) ne] and ready = polled_ready [OF assms(1,2) ne]
  have c: "compare (polled q) = compare q" by (simp add: polled_def)
  note ch = child_indices [OF ready]
  have first: "queue_content (polled q) ! 0 = last (queue_content q)"
    using assms(3) by (simp add: p(4))
  show ?thesis
  proof (cases "length (queue_content q) = 3")
    case True
    have "queue_content (polled q) ! 1 = queue_content q ! 1" using True p(4) by (simp add: nth_butlast)
    then have "trickleDown (polled q) 0 = None"
      using trickleLeft_cases [OF ready] assms(4) True ch p(2) first c
      by (intro trickleDown_stuck) (simp add: word_less_nat_alt)
    then show ?thesis by (simp add: p(1))
  next
    case False
    then have l: "2 < length (queue_content q) - 1" using assms(3) by linarith
    then have "queue_content (polled q) ! 2 = queue_content q ! 2" by (simp add: p(4) nth_butlast)
    moreover have "rightChildIndex 0 < queue_size (polled q)" using l ch p(2) by (simp add: word_less_nat_alt)
    ultimately have "trickleDown (polled q) 0 = None"
      using trickleRight_cases [OF ready] assms(4) False first c
      by (intro trickleDown_stuck) (simp add: numeral_2_eq_2)
    then show ?thesis by (simp add: p(1))
  qed
qed

text \<open>A queue of numbers, as the pointers with these addresses point to them.\<close>

definition number_order :: "ptr \<Rightarrow> ptr \<Rightarrow> int" where
  "number_order x y = parcPriorityQueue_Uint64CompareTo (of_nat (the x)) (of_nat (the y))"

definition queue_of :: "nat list \<Rightarrow> priority_queue" where
  "queue_of xs = \<lparr>entries_of = map Some xs @ replicate (128 - length xs) None, queue_capacity = 128,
     queue_size = of_nat (length xs), compare = number_order, has_destroyer = False\<rparr>"

lemma number_order_comparison: "comparison number_order"
  unfolding number_order_def by (rule comparison_image) (rule uint64_order.comparison_axioms)

lemma queue_of_added: "add_all (queue_of []) [(True, Some 1), (True, Some 2), (True, Some 4), (True, Some 3)] =
    Inr (queue_of [1, 2, 4, 3])"
proof -
  have "replicate 128 (None :: ptr) = None # None # None # None # replicate 124 None"
    by (simp flip: replicate_Suc)
  then show ?thesis
    by (simp add: queue_of_def parcPriorityQueue_Add_def set_entry_def Let_def bubbleUp.simps entry_less_def entry_def
      parentIndex_def number_order_def parcPriorityQueue_Uint64CompareTo_def)
qed

lemma heap_order_small:
  "heap_order cmp [a, b] \<longleftrightarrow> cmp a b \<le> 0"
  "heap_order cmp [a, b, c, d] \<longleftrightarrow> cmp a b \<le> 0 \<and> cmp a c \<le> 0 \<and> cmp b d \<le> 0"
  by (auto simp: heap_order_def parent_def less_Suc_eq numeral_eq_Suc)

lemma queue_of_1243: "queue_ok (queue_of [1, 2, 4, 3])" "queue_content (queue_of [1, 2, 4, 3]) = map Some [1, 2, 4, 3]"
proof -
  show c: "queue_content (queue_of [1, 2, 4, 3]) = map Some [1, 2, 4, 3]" by (simp add: queue_content_def queue_of_def)
  have "heap_order number_order (map Some [1, 2, 4, 3])"
    by (simp add: heap_order_small number_order_def parcPriorityQueue_Uint64CompareTo_def)
  then show "queue_ok (queue_of [1, 2, 4, 3])"
    using c by (simp add: queue_ok_def) (simp add: queue_of_def)
qed

theorem parcPriorityQueue_Poll_diverges_witness:
  "add_all (queue_of []) [(True, Some 1), (True, Some 2), (True, Some 4), (True, Some 3)] =
     Inr (queue_of [1, 2, 4, 3]) \<and>
   parcPriorityQueue_Poll (queue_of [1, 2, 4, 3]) = Inl Diverges"
proof
  have "compare (queue_of [1, 2, 4, 3]) = number_order" by (simp add: queue_of_def)
  then show "parcPriorityQueue_Poll (queue_of [1, 2, 4, 3]) = Inl Diverges"
    using parcPriorityQueue_Poll_diverges [of "queue_of [1, 2, 4, 3]"] queue_of_1243 number_order_comparison
    by (simp add: number_order_def parcPriorityQueue_Uint64CompareTo_def)
qed (rule queue_of_added)

lemma queue_of_12: "queue_ok (queue_of [1, 2])" "queue_content (queue_of [1, 2]) = map Some [1, 2]"
proof -
  show c: "queue_content (queue_of [1, 2]) = map Some [1, 2]" by (simp add: queue_content_def queue_of_def)
  have "heap_order number_order (map Some [1, 2])"
    by (simp add: heap_order_small number_order_def parcPriorityQueue_Uint64CompareTo_def)
  then show "queue_ok (queue_of [1, 2])"
    using c by (simp add: queue_ok_def) (simp add: queue_of_def)
qed

theorem parcPriorityQueue_Poll_least_witness:
  "\<exists>q1. parcPriorityQueue_Poll (queue_of [1, 2]) = Inr (Some 1, q1) \<and> mset (queue_content q1) = {#Some 2#}"
proof -
  have cmp: "compare (queue_of [1, 2]) = number_order" by (simp add: queue_of_def)
  note P = parcPriorityQueue_Poll_least [of "queue_of [1, 2]", unfolded cmp queue_of_12(2),
    OF number_order_comparison queue_of_12(1)]
  have "returns (parcPriorityQueue_Poll (queue_of [1, 2]))"
    using P by (simp add: number_order_def parcPriorityQueue_Uint64CompareTo_def)
  then obtain p q1 where q1: "parcPriorityQueue_Poll (queue_of [1, 2]) = Inr (p, q1)"
    by (auto simp: returns_iff)
  then have "p \<in> set (map Some [1, 2])" "\<forall>x \<in> set (map Some [1, 2]). number_order p x \<le> 0"
    "mset (map Some [1, 2]) = mset (queue_content q1) + {#p#}"
    using P by blast+
  then have "p = Some 1" "mset (queue_content q1) = {#Some 2#}"
    by (auto simp: number_order_def parcPriorityQueue_Uint64CompareTo_def)
  then show ?thesis using q1 by blast
qed

end
