(* ===== verification/Parc_HashCodeTable.thy ===== *)
theory Parc_HashCodeTable
  imports Parc_Hash
begin

text \<open>
  The hash table with open addressing (\<^verbatim>\<open>parc_HashCodeTable.c\<close>). A table belongs to one owner, so an
  operation takes it and returns the new one. The functions on keys are function pointers of the
  table; the locale \<open>hash_key\<close> is what the table relies on. \<open>grants n\<close> tells whether memory for \<open>n\<close> entries is granted.
\<close>

section \<open>The table and its operations\<close>

text \<open>An entry is in use if its key is not NULL.\<close>

record hash_entry =
  key :: ptr
  data :: ptr
  hashcode :: PARCHashCode

record linear_table =
  slots :: "hash_entry list"
  tableLimit :: size_t
  tableSize :: size_t
  expandThreshold :: size_t

record hashcode_table =
  hashtable :: linear_table
  keyEqualsFunc :: "addr \<Rightarrow> addr \<Rightarrow> bool"
  keyHashCodeFunc :: "addr \<Rightarrow> PARCHashCode"
  keyDestroyer :: bool
  dataDestroyer :: bool
  expandCount :: u32

datatype add_result = ADD_OK | ADD_DUP | ADD_NOSPACE

definition MIN_SIZE :: size_t where "MIN_SIZE = 256"
definition EXPAND_FACTOR :: size_t where "EXPAND_FACTOR = 2"
definition MAX_PROBE_LENGTH :: nat where "MAX_PROBE_LENGTH = 20"

definition empty_entry :: hash_entry where
  "empty_entry = \<lparr>key = None, data = None, hashcode = 0\<rparr>"

definition slot_at :: "linear_table \<Rightarrow> size_t \<Rightarrow> hash_entry result" where
  "slot_at t i = (if unat i < length (slots t) then Inr (slots t ! unat i) else Inl Undefined)"

text \<open>\<open>hashcode % tableLimit\<close>, and the index behind one, around the end of the table.\<close>

definition first_index :: "linear_table \<Rightarrow> PARCHashCode \<Rightarrow> size_t result" where
  "first_index t h = (if tableLimit t = 0 then Inl Undefined else Inr (h mod tableLimit t))"

definition next_index :: "linear_table \<Rightarrow> size_t \<Rightarrow> size_t" where
  "next_index t i = (if i + 1 = tableLimit t then 0 else i + 1)"

text \<open>The entry is in use, has this hash code and an equal key.\<close>

definition same_key :: "(addr \<Rightarrow> addr \<Rightarrow> bool) \<Rightarrow> PARCHashCode \<Rightarrow> addr \<Rightarrow> hash_entry \<Rightarrow> bool" where
  "same_key eq h k e = (case key e of None \<Rightarrow> False | Some k1 \<Rightarrow> hashcode e = h \<and> eq k k1)"

text \<open>The loop of \<open>_findIndex\<close>; the first argument is the number of probes that are left.\<close>

fun find_loop ::
  "nat \<Rightarrow> (addr \<Rightarrow> addr \<Rightarrow> bool) \<Rightarrow> linear_table \<Rightarrow> PARCHashCode \<Rightarrow> addr \<Rightarrow> size_t \<Rightarrow> size_t \<Rightarrow> size_t option result" where
  "find_loop 0 eq t h k start i = Inr None"
| "find_loop (Suc n) eq t h k start i =
    rbind (slot_at t i) (\<lambda>e.
    if same_key eq h k e then Inr (Some i)
    else if next_index t i = start then Inr None
    else find_loop n eq t h k start (next_index t i))"

definition findIndex :: "hashcode_table \<Rightarrow> addr \<Rightarrow> size_t option result" where
  "findIndex table k =
    (let t = hashtable table; h = keyHashCodeFunc table k in
     rbind (first_index t h) (\<lambda>i. find_loop MAX_PROBE_LENGTH (keyEqualsFunc table) t h k i i))"

fun innerAdd_loop ::
  "nat \<Rightarrow> (addr \<Rightarrow> addr \<Rightarrow> bool) \<Rightarrow> linear_table \<Rightarrow> PARCHashCode \<Rightarrow> addr \<Rightarrow> ptr \<Rightarrow> size_t
    \<Rightarrow> (add_result \<times> linear_table) result" where
  "innerAdd_loop 0 eq t h k d i = Inr (ADD_NOSPACE, t)"
| "innerAdd_loop (Suc n) eq t h k d i =
    rbind (slot_at t i) (\<lambda>e.
    if key e = None
    then Inr (ADD_OK, t\<lparr>slots := (slots t)[unat i := \<lparr>key = Some k, data = d, hashcode = h\<rparr>],
                        tableSize := tableSize t + 1\<rparr>)
    else if same_key eq h k e then Inr (ADD_DUP, t)
    else innerAdd_loop n eq t h k d (next_index t i))"

definition innerTableAdd ::
  "(addr \<Rightarrow> addr \<Rightarrow> bool) \<Rightarrow> linear_table \<Rightarrow> PARCHashCode \<Rightarrow> addr \<Rightarrow> ptr \<Rightarrow> (add_result \<times> linear_table) result" where
  "innerTableAdd eq t h k d = rbind (first_index t h) (innerAdd_loop MAX_PROBE_LENGTH eq t h k d)"

text \<open>The entries of the old table, one after the other, into the new one.\<close>

fun rehash :: "(addr \<Rightarrow> addr \<Rightarrow> bool) \<Rightarrow> hash_entry list \<Rightarrow> linear_table \<Rightarrow> (add_result \<times> linear_table) result" where
  "rehash eq [] new = Inr (ADD_OK, new)"
| "rehash eq (e # old) new =
    (case key e of
       None \<Rightarrow> rehash eq old new
     | Some k \<Rightarrow> rbind (innerTableAdd eq new (hashcode e) k (data e)) (\<lambda>(r, new1).
         if r \<noteq> ADD_OK then Inr (r, new1) else rehash eq old new1))"

text \<open>
  A new table; its entries are those that fit into the block of \<open>tableLimit * sizeof(HashTableEntry)\<close> bytes,
  a product that may wrap around.
\<close>

definition new_table :: "size_t \<Rightarrow> linear_table" where
  "new_table limit = \<lparr>slots = replicate (unat (limit * 24) div 24) empty_entry, tableLimit = limit,
     tableSize = 0, expandThreshold = limit - limit div 4\<rparr>"

text \<open>
  \<open>None\<close> is a loop that does not end. A duplicate stops the copy of the entries and the table is replaced all the same.
\<close>

partial_function (option) expand_loop ::
  "(size_t \<Rightarrow> bool) \<Rightarrow> hashcode_table \<Rightarrow> size_t \<Rightarrow> hashcode_table result option" where
  "expand_loop grants table expandby =
    (let limit = tableLimit (hashtable table) * expandby;
         table1 = table\<lparr>expandCount := expandCount table + 1\<rparr> in
     if \<not> grants limit then Some (Inl AssertFailed)
     else (case rehash (keyEqualsFunc table) (slots (hashtable table)) (new_table limit) of
             Inl e \<Rightarrow> Some (Inl e)
           | Inr (r, new) \<Rightarrow>
               if r = ADD_NOSPACE then expand_loop grants table1 (expandby + 1)
               else Some (Inr (table1\<lparr>hashtable := new\<rparr>))))"

definition expand :: "(size_t \<Rightarrow> bool) \<Rightarrow> hashcode_table \<Rightarrow> hashcode_table result option" where
  "expand grants table = expand_loop grants table EXPAND_FACTOR"

definition parcHashCodeTable_Create_Size ::
  "bool \<Rightarrow> (size_t \<Rightarrow> bool) \<Rightarrow> (addr \<Rightarrow> addr \<Rightarrow> bool) option \<Rightarrow> (addr \<Rightarrow> PARCHashCode) option \<Rightarrow> bool \<Rightarrow> bool
    \<Rightarrow> size_t \<Rightarrow> hashcode_table result" where
  "parcHashCodeTable_Create_Size granted grants eq hash kd dd minimumSize =
    rbind (assertTrue granted) (\<lambda>_.
    case (eq, hash) of
      (Some f, Some g) \<Rightarrow>
        rbind (assertTrue (minimumSize > 0)) (\<lambda>_.
        rbind (assertTrue (grants minimumSize)) (\<lambda>_.
        Inr \<lparr>hashtable = new_table minimumSize, keyEqualsFunc = f, keyHashCodeFunc = g,
             keyDestroyer = kd, dataDestroyer = dd, expandCount = 0\<rparr>))
    | _ \<Rightarrow> Inl AssertFailed)"

definition parcHashCodeTable_Create ::
  "bool \<Rightarrow> (size_t \<Rightarrow> bool) \<Rightarrow> (addr \<Rightarrow> addr \<Rightarrow> bool) option \<Rightarrow> (addr \<Rightarrow> PARCHashCode) option \<Rightarrow> bool \<Rightarrow> bool
    \<Rightarrow> hashcode_table result" where
  "parcHashCodeTable_Create granted grants eq hash kd dd =
    parcHashCodeTable_Create_Size granted grants eq hash kd dd MIN_SIZE"

text \<open>The keys and the data given to the destroyers, in order.\<close>

definition parcHashCodeTable_Destroy :: "hashcode_table option \<Rightarrow> (ptr list \<times> ptr list) result" where
  "parcHashCodeTable_Destroy table =
    (case table of None \<Rightarrow> Inl AssertFailed
     | Some t \<Rightarrow>
         let used = filter (\<lambda>e. key e \<noteq> None) (slots (hashtable t)) in
         Inr (if keyDestroyer t then map key used else [], if dataDestroyer t then map data used else []))"

partial_function (option) add_loop ::
  "(size_t \<Rightarrow> bool) \<Rightarrow> hashcode_table \<Rightarrow> PARCHashCode \<Rightarrow> addr \<Rightarrow> ptr \<Rightarrow> (bool \<times> hashcode_table) result option" where
  "add_loop grants table h k d =
    (case innerTableAdd (keyEqualsFunc table) (hashtable table) h k d of
       Inl e \<Rightarrow> Some (Inl e)
     | Inr (r, t) \<Rightarrow>
         if r = ADD_NOSPACE
         then (case expand grants (table\<lparr>hashtable := t\<rparr>) of
                 None \<Rightarrow> None
               | Some (Inl e) \<Rightarrow> Some (Inl e)
               | Some (Inr table1) \<Rightarrow> add_loop grants table1 h k d)
         else Some (Inr (r = ADD_OK, table\<lparr>hashtable := t\<rparr>)))"

definition parcHashCodeTable_Add ::
  "(size_t \<Rightarrow> bool) \<Rightarrow> hashcode_table \<Rightarrow> ptr \<Rightarrow> ptr \<Rightarrow> (bool \<times> hashcode_table) result option" where
  "parcHashCodeTable_Add grants table k d =
    (case (k, d) of
       (Some a, Some _) \<Rightarrow>
         (case (if tableSize (hashtable table) \<ge> expandThreshold (hashtable table)
                then expand grants table else Some (Inr table)) of
            None \<Rightarrow> None
          | Some (Inl e) \<Rightarrow> Some (Inl e)
          | Some (Inr table1) \<Rightarrow> add_loop grants table1 (keyHashCodeFunc table1 a) a d)
     | _ \<Rightarrow> Some (Inl AssertFailed))"

text \<open>The key and the data given to the destroyers, if the key was found, and the new table.\<close>

definition parcHashCodeTable_Del :: "hashcode_table \<Rightarrow> ptr \<Rightarrow> ((ptr \<times> ptr) option \<times> hashcode_table) result" where
  "parcHashCodeTable_Del table k =
    (case k of None \<Rightarrow> Inl AssertFailed
     | Some a \<Rightarrow>
         rbind (findIndex table a) (\<lambda>found.
         case found of
           None \<Rightarrow> Inr (None, table)
         | Some i \<Rightarrow>
             let t = hashtable table in
             rbind (assertTrue (tableSize t > 0)) (\<lambda>_.
             rbind (slot_at t i) (\<lambda>e.
             Inr (Some (if keyDestroyer table then key e else None, if dataDestroyer table then data e else None),
                  table\<lparr>hashtable := t\<lparr>slots := (slots t)[unat i := empty_entry], tableSize := tableSize t - 1\<rparr>\<rparr>)))))"

definition parcHashCodeTable_Get :: "hashcode_table \<Rightarrow> ptr \<Rightarrow> ptr result" where
  "parcHashCodeTable_Get table k =
    (case k of None \<Rightarrow> Inl AssertFailed
     | Some a \<Rightarrow>
         rbind (findIndex table a) (\<lambda>found.
         case found of
           None \<Rightarrow> Inr None
         | Some i \<Rightarrow> rbind (slot_at (hashtable table) i) (\<lambda>e. Inr (data e))))"

definition parcHashCodeTable_Length :: "hashcode_table \<Rightarrow> size_t" where
  "parcHashCodeTable_Length table = tableSize (hashtable table)"

section \<open>Probing\<close>

text \<open>The shape of a table: as many entries as the limit says, and indices that do not wrap around.\<close>

definition table_shape :: "linear_table \<Rightarrow> bool" where
  "table_shape t \<longleftrightarrow> 0 < tableLimit t \<and> length (slots t) = unat (tableLimit t)"

abbreviation limit :: "linear_table \<Rightarrow> nat" where
  "limit t \<equiv> unat (tableLimit t)"

definition home :: "linear_table \<Rightarrow> PARCHashCode \<Rightarrow> nat" where
  "home t h = unat h mod limit t"

definition probe :: "linear_table \<Rightarrow> PARCHashCode \<Rightarrow> nat \<Rightarrow> nat" where
  "probe t h s = (home t h + s) mod limit t"

lemma table_shapeD:
  assumes "table_shape t"
  shows "0 < limit t" "length (slots t) = limit t" "probe t h s < limit t" "home t h < limit t"
    "limit t < 2 ^ 64"
  using assms unsigned_less [of "tableLimit t"]
  by (simp_all add: table_shape_def probe_def home_def word_less_nat_alt)

lemma first_index_probe:
  assumes "table_shape t"
  shows "\<exists>i. first_index t h = Inr i \<and> unat i = probe t h 0"
  using assms by (auto simp: table_shape_def first_index_def probe_def home_def unat_mod)

lemma next_index_probe:
  assumes "table_shape t" "unat i = probe t h s"
  shows "unat (next_index t i) = probe t h (Suc s)"
proof -
  note sh = table_shapeD [OF assms(1)]
  have lt: "unat i < limit t" using assms(2) sh(3) by simp
  then have "i \<noteq> - 1" using sh(5) by (auto simp: unat_SIZE_MAX)
  then have one: "unat (i + 1) = Suc (unat i)" by (rule unat_plus_one)
  have "probe t h (Suc s) = Suc (unat i) mod limit t"
    using assms(2) by (simp add: probe_def mod_Suc_eq)
  then show ?thesis
    using one lt sh(1) by (auto simp: next_index_def word_unat_eq_iff mod_Suc)
qed

lemma slot_at_probe:
  assumes "table_shape t" "unat i = probe t h s"
  shows "slot_at t i = Inr (slots t ! probe t h s)"
  using assms table_shapeD(2,3) [OF assms(1)] by (simp add: slot_at_def)

lemma probe_start:
  assumes "table_shape t" "0 < s" "s \<le> limit t"
  shows "probe t h s = probe t h 0 \<longleftrightarrow> s = limit t"
proof -
  have "(home t h + s) mod limit t = home t h mod limit t \<longleftrightarrow> limit t dvd s"
    by (simp add: mod_eq_dvd_iff_nat)
  then show ?thesis using assms by (auto simp: probe_def dest: dvd_imp_le)
qed

lemma find_Cons_upt: "s < e \<Longrightarrow> find P (map f [s..<e]) = (if P (f s) then Some (f s) else find P (map f [Suc s..<e]))"
  by (simp add: upt_conv_Cons)

text \<open>The search returns the first matching entry among the probes, at most one turn of the table.\<close>

lemma find_loop_probes:
  assumes sh: "table_shape t" and "unat i = probe t h s" "unat start = probe t h 0" "s < limit t"
  shows "find_loop n eq t h k start i =
    Inr (map_option word_of_nat
      (find (\<lambda>j. same_key eq h k (slots t ! j)) (map (probe t h) [s..<min (s + n) (limit t)])))"
  using assms(2-)
proof (induction n arbitrary: i s)
  case 0
  then show ?case by simp
next
  case (Suc n)
  note nx = next_index_probe [OF sh Suc.prems(1)]
  have w: "word_of_nat (probe t h s) = i" using Suc.prems(1) by (metis of_nat_unat ucast_id)
  have up: "[s..<min (Suc (s + n)) (limit t)] = s # [Suc s..<min (Suc (s + n)) (limit t)]"
    using Suc.prems(3) by (simp add: upt_conv_Cons)
  show ?case
  proof (cases "same_key eq h k (slots t ! probe t h s)")
    case True
    then show ?thesis using slot_at_probe [OF sh Suc.prems(1)] w by (simp add: up)
  next
    case False
    show ?thesis
    proof (cases "Suc s = limit t")
      case True
      then have "next_index t i = start"
        using nx Suc.prems(2) probe_start [OF sh, of "Suc s" h] by (simp add: word_unat_eq_iff)
      moreover have "[s..<limit t] = [s]" using True by (metis lessI upt_conv_Cons upt_eq_Nil_conv order_refl)
      ultimately show ?thesis using False True slot_at_probe [OF sh Suc.prems(1)] by simp
    next
      case ne: False
      then have "next_index t i \<noteq> start"
        using nx Suc.prems(2,3) probe_start [OF sh, of "Suc s" h] by (auto simp: word_unat_eq_iff)
      then show ?thesis
        using False ne slot_at_probe [OF sh Suc.prems(1)] Suc.IH [OF nx Suc.prems(2)] Suc.prems(3)
        by (simp add: up)
    qed
  qed
qed

text \<open>Adding stops at the first probe that is free or matches, and may visit a short table more than once.\<close>

lemma innerAdd_loop_probes:
  assumes sh: "table_shape t" and "unat i = probe t h s"
  shows "innerAdd_loop n eq t h k d i =
    (case find (\<lambda>j. key (slots t ! j) = None \<or> same_key eq h k (slots t ! j)) (map (probe t h) [s..<s + n]) of
       None \<Rightarrow> Inr (ADD_NOSPACE, t)
     | Some j \<Rightarrow>
         if key (slots t ! j) = None
         then Inr (ADD_OK, t\<lparr>slots := (slots t)[j := \<lparr>key = Some k, data = d, hashcode = h\<rparr>],
                             tableSize := tableSize t + 1\<rparr>)
         else Inr (ADD_DUP, t))"
  using assms(2)
proof (induction n arbitrary: i s)
  case 0
  then show ?case by simp
next
  case (Suc n)
  have up: "[s..<s + Suc n] = s # [Suc s..<Suc s + n]" by (simp add: upt_conv_Cons)
  show ?case
    using slot_at_probe [OF sh Suc.prems] Suc.IH [OF next_index_probe [OF sh Suc.prems]] Suc.prems
    unfolding up by (simp del: upt_Suc)
qed

section \<open>The table is a finite map\<close>

text \<open>What the table relies on: equality of keys is an equivalence and equal keys have equal hash codes.\<close>

locale hash_key =
  fixes eq :: "addr \<Rightarrow> addr \<Rightarrow> bool" and hash :: "addr \<Rightarrow> PARCHashCode"
  assumes eq_refl [simp]: "eq k k"
    and eq_sym: "eq k k1 \<Longrightarrow> eq k1 k"
    and eq_trans: "eq k k1 \<Longrightarrow> eq k1 k2 \<Longrightarrow> eq k k2"
    and eq_hash: "eq k k1 \<Longrightarrow> hash k = hash k1"

text \<open>Keys that point to byte strings, compared by their bytes and hashed by the hash function of the library.\<close>

definition bytes_equal :: "(addr \<Rightarrow> u8 list) \<Rightarrow> addr \<Rightarrow> addr \<Rightarrow> bool" where
  "bytes_equal mem k k1 \<longleftrightarrow> mem k = mem k1"

definition bytes_hash :: "(addr \<Rightarrow> u8 list) \<Rightarrow> addr \<Rightarrow> PARCHashCode" where
  "bytes_hash mem k = parcHashCode_Hash (mem k)"

interpretation bytes_key: hash_key "bytes_equal mem" "bytes_hash mem"
  by unfold_locales (simp_all add: bytes_equal_def bytes_hash_def)

text \<open>Slot \<open>j\<close> holds a key equal to \<open>k\<close>.\<close>

definition at_key :: "(addr \<Rightarrow> addr \<Rightarrow> bool) \<Rightarrow> linear_table \<Rightarrow> addr \<Rightarrow> nat \<Rightarrow> bool" where
  "at_key eq t k j \<longleftrightarrow> j < limit t \<and> (case key (slots t ! j) of None \<Rightarrow> False | Some k1 \<Rightarrow> eq k k1)"

definition entries_map :: "(addr \<Rightarrow> addr \<Rightarrow> bool) \<Rightarrow> hash_entry list \<Rightarrow> addr \<Rightarrow> ptr option" where
  "entries_map eq es k =
    map_option data (find (\<lambda>e. case key e of None \<Rightarrow> False | Some k1 \<Rightarrow> eq k k1) es)"

definition table_map :: "(addr \<Rightarrow> addr \<Rightarrow> bool) \<Rightarrow> linear_table \<Rightarrow> addr \<Rightarrow> ptr option" where
  "table_map eq t = entries_map eq (slots t)"

definition used_slots :: "linear_table \<Rightarrow> nat set" where
  "used_slots t = {j. j < limit t \<and> key (slots t ! j) \<noteq> None}"

text \<open>
  Every key is within the reach of a search from its home, has its hash code stored and occurs once; the size
  counts the used entries.
\<close>

definition table_ok :: "(addr \<Rightarrow> addr \<Rightarrow> bool) \<Rightarrow> (addr \<Rightarrow> PARCHashCode) \<Rightarrow> linear_table \<Rightarrow> bool" where
  "table_ok eq hash t \<longleftrightarrow> table_shape t \<and>
     (\<forall>j < limit t. \<forall>k. key (slots t ! j) = Some k \<longrightarrow> hashcode (slots t ! j) = hash k \<and>
        (\<exists>s < min MAX_PROBE_LENGTH (limit t). j = probe t (hash k) s)) \<and>
     (\<forall>i j k. at_key eq t k i \<and> at_key eq t k j \<longrightarrow> i = j) \<and>
     unat (tableSize t) = card (used_slots t)"

definition joined :: "(addr \<Rightarrow> ptr option) \<Rightarrow> (addr \<Rightarrow> ptr option) \<Rightarrow> addr \<Rightarrow> ptr option" where
  "joined m n k = (case m k of None \<Rightarrow> n k | Some d \<Rightarrow> Some d)"

definition used_count :: "hash_entry list \<Rightarrow> nat" where
  "used_count es = length (filter (\<lambda>e. key e \<noteq> None) es)"

text \<open>Requests are only granted when their size in bytes does not wrap around.\<close>

definition sane :: "(size_t \<Rightarrow> bool) \<Rightarrow> bool" where
  "sane grants \<longleftrightarrow> (\<forall>n. grants n \<longrightarrow> 0 < n \<and> unat n * 24 < 2 ^ 64)"

lemma find_slot:
  assumes "find P xs = Some x"
  shows "\<exists>j < length xs. xs ! j = x \<and> P x"
  using assms by (auto simp: find_Some_iff)

context hash_key
begin

lemma at_key_unique: "table_ok eq hash t \<Longrightarrow> at_key eq t k i \<Longrightarrow> at_key eq t k j \<Longrightarrow> i = j"
  unfolding table_ok_def by blast

lemma table_map_at:
  assumes "table_ok eq hash t" "at_key eq t k j"
  shows "table_map eq t k = Some (data (slots t ! j))"
proof -
  let ?P = "\<lambda>e. case key e of None \<Rightarrow> False | Some k1 \<Rightarrow> eq k k1"
  have len: "length (slots t) = limit t" using assms(1) by (simp add: table_ok_def table_shape_def)
  have "find ?P (slots t) \<noteq> None"
    using assms(2) len by (auto simp: find_None_iff at_key_def in_set_conv_nth)
  then obtain e where e: "find ?P (slots t) = Some e" by blast
  then obtain i where i: "i < length (slots t)" "slots t ! i = e" "?P e" using find_slot by metis
  then have "at_key eq t k i" using len by (simp add: at_key_def)
  then have "i = j" using at_key_unique assms by blast
  then show ?thesis using e i by (simp add: table_map_def entries_map_def)
qed

lemma table_map_none:
  assumes "table_shape t"
  shows "table_map eq t k = None \<longleftrightarrow> (\<forall>j. \<not> at_key eq t k j)"
  using assms
  by (auto simp: table_map_def entries_map_def find_None_iff at_key_def table_shape_def in_set_conv_nth)

lemma same_key_at:
  assumes "table_ok eq hash t" "j < limit t"
  shows "same_key eq (hash k) k (slots t ! j) \<longleftrightarrow> at_key eq t k j"
  using assms by (auto simp: same_key_def at_key_def table_ok_def eq_hash split: option.split)

lemma at_key_probe:
  assumes "table_ok eq hash t" "at_key eq t k j"
  shows "\<exists>s < min MAX_PROBE_LENGTH (limit t). j = probe t (hash k) s"
proof -
  obtain k1 where "key (slots t ! j) = Some k1" "eq k k1" "j < limit t"
    using assms(2) by (auto simp: at_key_def split: option.splits)
  then show ?thesis using assms(1) eq_hash [of k k1] by (auto simp: table_ok_def)
qed

lemma findIndex_at:
  assumes "table_ok eq hash (hashtable table)" "keyEqualsFunc table = eq" "keyHashCodeFunc table = hash"
  shows "\<exists>found. findIndex table k = Inr found \<and>
    (case found of None \<Rightarrow> \<forall>j. \<not> at_key eq (hashtable table) k j
     | Some i \<Rightarrow> at_key eq (hashtable table) k (unat i))"
proof -
  let ?t = "hashtable table"
  have sh: "table_shape ?t" using assms(1) by (simp add: table_ok_def)
  note d = table_shapeD [OF sh]
  obtain i where i: "first_index ?t (hash k) = Inr i" "unat i = probe ?t (hash k) 0"
    using first_index_probe [OF sh] by blast
  let ?f = "find (\<lambda>j. same_key eq (hash k) k (slots ?t ! j))
    (map (probe ?t (hash k)) [0..<min MAX_PROBE_LENGTH (limit ?t)])"
  have f: "findIndex table k = Inr (map_option word_of_nat ?f)"
    using find_loop_probes [OF sh i(2) i(2) d(1)] i assms(2,3) by (simp add: findIndex_def Let_def)
  show ?thesis
  proof (cases ?f)
    case None
    then have "\<not> same_key eq (hash k) k (slots ?t ! probe ?t (hash k) s)" if "s < min MAX_PROBE_LENGTH (limit ?t)" for s
      using that by (auto simp: find_None_iff)
    then have "\<forall>j. \<not> at_key eq ?t k j"
      using at_key_probe [OF assms(1)] same_key_at [OF assms(1) d(3)] by blast
    then show ?thesis using f None by simp
  next
    case (Some j)
    then obtain s where s: "j = probe ?t (hash k) s" "same_key eq (hash k) k (slots ?t ! j)"
      by (auto simp: find_Some_iff)
    then have "at_key eq ?t k j" using same_key_at [OF assms(1)] d(3) by blast
    moreover have "unat (word_of_nat j :: size_t) = j"
      using s(1) less_trans [OF d(3) d(5)] by (intro unat_word_of_nat) simp
    ultimately show ?thesis using f Some by simp
  qed
qed

lemma Get_map:
  assumes "table_ok eq hash (hashtable table)" "keyEqualsFunc table = eq" "keyHashCodeFunc table = hash"
  shows "parcHashCodeTable_Get table (Some k) =
    Inr (case table_map eq (hashtable table) k of None \<Rightarrow> None | Some d \<Rightarrow> d)"
proof -
  let ?t = "hashtable table"
  have sh: "table_shape ?t" using assms(1) by (simp add: table_ok_def)
  obtain found where f: "findIndex table k = Inr found"
    "case found of None \<Rightarrow> \<forall>j. \<not> at_key eq ?t k j | Some i \<Rightarrow> at_key eq ?t k (unat i)"
    using findIndex_at [OF assms] by blast
  show ?thesis
  proof (cases found)
    case None
    then show ?thesis using f table_map_none [OF sh, of k] by (simp add: parcHashCodeTable_Get_def)
  next
    case (Some i)
    then show ?thesis
      using f table_map_at [OF assms(1)] table_shapeD(2) [OF sh]
      by (auto simp: parcHashCodeTable_Get_def slot_at_def at_key_def)
  qed
qed

lemma at_key_eq:
  assumes "eq k1 k" "at_key eq t k1 i"
  shows "at_key eq t k i"
  using eq_trans [OF eq_sym [OF assms(1)]] assms(2) by (auto simp: at_key_def split: option.splits)

lemma at_key_same:
  assumes "at_key eq t k j" "at_key eq t k1 j"
  shows "eq k k1"
proof -
  obtain k2 where "eq k k2" "eq k1 k2" using assms by (auto simp: at_key_def split: option.splits)
  then show ?thesis using eq_trans [OF _ eq_sym] by blast
qed

text \<open>Emptying a slot and filling a free one.\<close>

lemma used_finite: "finite (used_slots t)"
  by (simp add: used_slots_def)

lemma remove_ok:
  assumes ok: "table_ok eq hash t" and j: "j < limit t" "key (slots t ! j) \<noteq> None"
  defines "t1 \<equiv> t\<lparr>slots := (slots t)[j := empty_entry], tableSize := tableSize t - 1\<rparr>"
  shows "table_ok eq hash t1" "\<And>k i. at_key eq t1 k i \<longleftrightarrow> at_key eq t k i \<and> i \<noteq> j" "0 < tableSize t"
    "\<And>i. i \<noteq> j \<Longrightarrow> slots t1 ! i = slots t ! i"
proof -
  have sh: "table_shape t" using ok by (simp add: table_ok_def)
  note len = table_shapeD(2) [OF sh]
  have nth: "slots t1 ! i = (if i = j then empty_entry else slots t ! i)" if "i < limit t" for i
    using that len by (simp add: t1_def nth_list_update)
  have lim: "tableLimit t1 = tableLimit t" and pr: "\<And>h s. probe t1 h s = probe t h s"
    by (simp_all add: t1_def probe_def home_def)
  show at: "at_key eq t1 k i \<longleftrightarrow> at_key eq t k i \<and> i \<noteq> j" for k i
    using nth [of i] by (auto simp: at_key_def lim empty_entry_def split: if_splits)
  have "j \<in> used_slots t" using j by (simp add: used_slots_def)
  then have pos: "0 < card (used_slots t)" using used_finite by (auto simp: card_gt_0_iff)
  moreover have "unat (tableSize t) = card (used_slots t)" using ok by (simp add: table_ok_def)
  ultimately show s: "0 < tableSize t" by (simp add: word_less_nat_alt)
  have "used_slots t1 = used_slots t - {j}"
    using nth by (auto simp: used_slots_def lim empty_entry_def split: if_splits)
  then have "unat (tableSize t1) = card (used_slots t1)"
    using \<open>j \<in> used_slots t\<close> s ok used_finite
    by (simp add: table_ok_def t1_def unat_minus_one word_pos_iff)
  moreover have "table_shape t1" using sh by (simp add: table_shape_def t1_def)
  moreover have "\<forall>i i1 k1. at_key eq t1 k1 i \<and> at_key eq t1 k1 i1 \<longrightarrow> i = i1"
    using at at_key_unique [OF ok] by blast
  moreover have "\<forall>i < limit t1. \<forall>k1. key (slots t1 ! i) = Some k1 \<longrightarrow> hashcode (slots t1 ! i) = hash k1 \<and>
      (\<exists>s < min MAX_PROBE_LENGTH (limit t1). i = probe t1 (hash k1) s)"
    using ok nth by (auto simp: table_ok_def lim pr empty_entry_def)
  ultimately show "table_ok eq hash t1" unfolding table_ok_def by blast
  show "\<And>i. i \<noteq> j \<Longrightarrow> slots t1 ! i = slots t ! i" by (simp add: t1_def)
qed

lemma insert_ok:
  fixes d :: ptr
  assumes ok: "table_ok eq hash t" and j: "j < limit t" "key (slots t ! j) = None"
    and p: "s < min MAX_PROBE_LENGTH (limit t)" "j = probe t (hash k) s" and new: "\<And>i. \<not> at_key eq t k i"
  defines "t1 \<equiv> t\<lparr>slots := (slots t)[j := \<lparr>key = Some k, data = d, hashcode = hash k\<rparr>],
    tableSize := tableSize t + 1\<rparr>"
  shows "table_ok eq hash t1" "\<And>k1 i. at_key eq t1 k1 i \<longleftrightarrow> at_key eq t k1 i \<or> i = j \<and> eq k1 k"
    "slots t1 ! j = \<lparr>key = Some k, data = d, hashcode = hash k\<rparr>" "\<And>i. i \<noteq> j \<Longrightarrow> slots t1 ! i = slots t ! i"
    "unat (tableSize t1) = Suc (unat (tableSize t))"
proof -
  have sh: "table_shape t" using ok by (simp add: table_ok_def)
  note len = table_shapeD(2) [OF sh]
  have nth: "slots t1 ! i = (if i = j then \<lparr>key = Some k, data = d, hashcode = hash k\<rparr> else slots t ! i)"
    if "i < limit t" for i
    using that len by (simp add: t1_def nth_list_update)
  have lim: "tableLimit t1 = tableLimit t" and pr: "\<And>h s. probe t1 h s = probe t h s"
    by (simp_all add: t1_def probe_def home_def)
  show at: "at_key eq t1 k1 i \<longleftrightarrow> at_key eq t k1 i \<or> i = j \<and> eq k1 k" for k1 i
    using nth [of i] j by (auto simp: at_key_def lim split: if_splits)
  show "slots t1 ! j = \<lparr>key = Some k, data = d, hashcode = hash k\<rparr>" using nth [of j] j by simp
  show "\<And>i. i \<noteq> j \<Longrightarrow> slots t1 ! i = slots t ! i" by (simp add: t1_def)
  have ins: "used_slots t1 = insert j (used_slots t)" "j \<notin> used_slots t"
    using nth j by (auto simp: used_slots_def lim split: if_splits)
  have "insert j (used_slots t) \<subseteq> {..<limit t}" using j by (auto simp: used_slots_def)
  then have "card (insert j (used_slots t)) \<le> limit t" using card_mono [of "{..<limit t}"] by simp
  then have "Suc (unat (tableSize t)) < 2 ^ 64"
    using ins(2) used_finite ok table_shapeD(5) [OF sh] by (simp add: table_ok_def)
  then show size: "unat (tableSize t1) = Suc (unat (tableSize t))"
    using unat_add_no_wrap [of "tableSize t" 1] by (simp add: t1_def)
  then have "unat (tableSize t1) = card (used_slots t1)"
    using ins used_finite ok by (simp add: table_ok_def)
  moreover have "table_shape t1" using sh by (simp add: table_shape_def t1_def)
  moreover have "\<forall>i i1 k1. at_key eq t1 k1 i \<and> at_key eq t1 k1 i1 \<longrightarrow> i = i1"
  proof (intro allI impI, elim conjE)
    fix i i1 k1
    assume a: "at_key eq t1 k1 i" "at_key eq t1 k1 i1"
    have "\<not> eq k1 k" if "at_key eq t k1 x" for x using at_key_eq [OF _ that] new by blast
    then show "i = i1" using a [unfolded at] at_key_unique [OF ok] by blast
  qed
  moreover have "\<forall>i < limit t1. \<forall>k1. key (slots t1 ! i) = Some k1 \<longrightarrow> hashcode (slots t1 ! i) = hash k1 \<and>
      (\<exists>s < min MAX_PROBE_LENGTH (limit t1). i = probe t1 (hash k1) s)"
    using ok nth p by (auto simp: table_ok_def lim pr)
  ultimately show "table_ok eq hash t1" unfolding table_ok_def by blast
qed

text \<open>The map after a slot was emptied or filled.\<close>

lemma table_map_cong:
  assumes "table_ok eq hash t" "table_ok eq hash t1"
    and "\<And>j. at_key eq t1 k j \<longleftrightarrow> at_key eq t k j" "\<And>j. at_key eq t k j \<Longrightarrow> slots t1 ! j = slots t ! j"
  shows "table_map eq t1 k = table_map eq t k"
proof (cases "\<exists>j. at_key eq t k j")
  case True
  then show ?thesis using assms table_map_at by metis
next
  case False
  then have "table_map eq t k = None" "table_map eq t1 k = None"
    using assms by (auto simp: table_map_none table_ok_def)
  then show ?thesis by simp
qed

lemma at_key_used: "at_key eq t k j \<Longrightarrow> j < limit t \<and> key (slots t ! j) \<noteq> None"
  by (auto simp: at_key_def split: option.splits)

lemma remove_map:
  assumes ok: "table_ok eq hash t" and at: "at_key eq t k j"
  shows "table_map eq (t\<lparr>slots := (slots t)[j := empty_entry], tableSize := tableSize t - 1\<rparr>) =
    (\<lambda>k1. if eq k k1 then None else table_map eq t k1)"
proof
  fix k1
  define t1 where "t1 = t\<lparr>slots := (slots t)[j := empty_entry], tableSize := tableSize t - 1\<rparr>"
  note r = remove_ok [OF ok at_key_used [OF at, THEN conjunct1] at_key_used [OF at, THEN conjunct2], folded t1_def]
  have "table_map eq t1 k1 = (if eq k k1 then None else table_map eq t k1)"
  proof (cases "eq k k1")
    case True
    then have "\<not> at_key eq t1 k1 i1" for i1
      using r(2) [of k1 i1] at_key_unique [OF ok at] at_key_eq [OF eq_sym [OF True]] by blast
    then show ?thesis using True r(1) by (simp add: table_map_none table_ok_def)
  next
    case False
    then have "\<not> at_key eq t k1 j"
      using at_key_same [OF at] by blast
    then have "table_map eq t1 k1 = table_map eq t k1"
      using r(2,4) by (intro table_map_cong [OF ok r(1)]) metis+
    then show ?thesis using False by simp
  qed
  then show "table_map eq (t\<lparr>slots := (slots t)[j := empty_entry], tableSize := tableSize t - 1\<rparr>) k1 =
      (if eq k k1 then None else table_map eq t k1)" by (simp add: t1_def)
qed

lemma Del_map:
  assumes "table_ok eq hash (hashtable table)" "keyEqualsFunc table = eq" "keyHashCodeFunc table = hash"
  shows "\<exists>destroyed table1. parcHashCodeTable_Del table (Some k) = Inr (destroyed, table1) \<and>
    table_ok eq hash (hashtable table1) \<and> keyEqualsFunc table1 = eq \<and> keyHashCodeFunc table1 = hash \<and>
    table_map eq (hashtable table1) = (\<lambda>k1. if eq k k1 then None else table_map eq (hashtable table) k1) \<and>
    unat (parcHashCodeTable_Length table1) =
      unat (parcHashCodeTable_Length table) - (if table_map eq (hashtable table) k = None then 0 else 1)"
proof -
  let ?t = "hashtable table"
  have sh: "table_shape ?t" using assms(1) by (simp add: table_ok_def)
  obtain found where f: "findIndex table k = Inr found"
    "case found of None \<Rightarrow> \<forall>j. \<not> at_key eq ?t k j | Some i \<Rightarrow> at_key eq ?t k (unat i)"
    using findIndex_at [OF assms] by blast
  show ?thesis
  proof (cases found)
    case None
    then have n: "\<And>j. \<not> at_key eq ?t k j" using f(2) by simp
    have "table_map eq ?t k1 = None" if "eq k k1" for k1
      using n at_key_eq [OF eq_sym [OF that]] by (simp add: table_map_none [OF sh]) blast
    then show ?thesis using f(1) None assms by (auto simp: parcHashCodeTable_Del_def fun_eq_iff)
  next
    case (Some i)
    define t1 where "t1 = ?t\<lparr>slots := (slots ?t)[unat i := empty_entry], tableSize := tableSize ?t - 1\<rparr>"
    have at: "at_key eq ?t k (unat i)" using f(2) Some by simp
    note j = at_key_used [OF at, THEN conjunct1] at_key_used [OF at, THEN conjunct2]
    note r = remove_ok [OF assms(1) j, folded t1_def] and m = remove_map [OF assms(1) at, folded t1_def]
    have "table_map eq ?t k \<noteq> None" using table_map_at [OF assms(1) at] by simp
    moreover have "unat (tableSize t1) = unat (tableSize ?t) - 1"
      using r(3) by (simp add: t1_def unat_minus_one word_pos_iff)
    moreover have "\<exists>x. parcHashCodeTable_Del table (Some k) = Inr (x, table\<lparr>hashtable := t1\<rparr>)"
      using f(1) Some r(3) j table_shapeD(2) [OF sh] by (simp add: parcHashCodeTable_Del_def slot_at_def t1_def Let_def)
    ultimately show ?thesis using r(1) m assms(2,3) by (auto simp: parcHashCodeTable_Length_def)
  qed
qed

text \<open>Adding a key that is not in the table.\<close>

lemma insert_map:
  fixes d :: ptr
  assumes ok: "table_ok eq hash t" and j: "j < limit t" "key (slots t ! j) = None"
    and p: "s < min MAX_PROBE_LENGTH (limit t)" "j = probe t (hash k) s" and new: "\<And>i. \<not> at_key eq t k i"
  shows "table_map eq (t\<lparr>slots := (slots t)[j := \<lparr>key = Some k, data = d, hashcode = hash k\<rparr>],
      tableSize := tableSize t + 1\<rparr>) = (\<lambda>k1. if eq k k1 then Some d else table_map eq t k1)"
proof
  fix k1
  define t1 where "t1 = t\<lparr>slots := (slots t)[j := \<lparr>key = Some k, data = d, hashcode = hash k\<rparr>],
    tableSize := tableSize t + 1\<rparr>"
  note r = insert_ok [OF ok j p new, where d = d, folded t1_def]
  have "table_map eq t1 k1 = (if eq k k1 then Some d else table_map eq t k1)"
  proof (cases "eq k k1")
    case True
    then have "at_key eq t1 k1 j" using r(2) eq_sym by blast
    then show ?thesis using True table_map_at [OF r(1)] r(3) by simp
  next
    case False
    then have "\<And>i1. at_key eq t1 k1 i1 \<longleftrightarrow> at_key eq t k1 i1" using r(2) eq_sym by blast
    moreover have "\<not> at_key eq t k1 j" using j by (simp add: at_key_def)
    ultimately have "table_map eq t1 k1 = table_map eq t k1"
      using r(4) by (intro table_map_cong [OF ok r(1)]) metis+
    then show ?thesis using False by simp
  qed
  then show "table_map eq (t\<lparr>slots := (slots t)[j := \<lparr>key = Some k, data = d, hashcode = hash k\<rparr>],
      tableSize := tableSize t + 1\<rparr>) k1 = (if eq k k1 then Some d else table_map eq t k1)"
    by (simp add: t1_def)
qed

definition added_to :: "linear_table \<Rightarrow> addr \<Rightarrow> ptr \<Rightarrow> linear_table \<Rightarrow> bool" where
  "added_to t k d t1 \<longleftrightarrow> table_ok eq hash t1 \<and> tableLimit t1 = tableLimit t \<and>
     expandThreshold t1 = expandThreshold t \<and>
     table_map eq t1 = (\<lambda>k1. if eq k k1 then Some d else table_map eq t k1) \<and>
     unat (tableSize t1) = Suc (unat (tableSize t))"

lemma innerTableAdd_new:
  assumes ok: "table_ok eq hash t" and new: "table_map eq t k = None"
  shows "innerTableAdd eq t (hash k) k d = Inr (ADD_NOSPACE, t) \<and>
      (\<forall>s < MAX_PROBE_LENGTH. key (slots t ! probe t (hash k) s) \<noteq> None) \<or>
    (\<exists>t1. innerTableAdd eq t (hash k) k d = Inr (ADD_OK, t1) \<and> added_to t k d t1)"
proof -
  have sh: "table_shape t" using ok by (simp add: table_ok_def)
  note dd = table_shapeD [OF sh]
  obtain i where i: "first_index t (hash k) = Inr i" "unat i = probe t (hash k) 0"
    using first_index_probe [OF sh] by blast
  have none: "\<And>j. \<not> at_key eq t k j" using new table_map_none [OF sh] by blast
  then have nk: "\<not> same_key eq (hash k) k (slots t ! probe t (hash k) s)" for s
    using same_key_at [OF ok dd(3)] by blast
  let ?f = "find (\<lambda>j. key (slots t ! j) = None \<or> same_key eq (hash k) k (slots t ! j))
    (map (probe t (hash k)) [0..<0 + MAX_PROBE_LENGTH])"
  note add = innerAdd_loop_probes [OF sh i(2), of MAX_PROBE_LENGTH eq k d]
  show ?thesis
  proof (cases ?f)
    case None
    then have "\<forall>s < MAX_PROBE_LENGTH. key (slots t ! probe t (hash k) s) \<noteq> None"
      by (auto simp: find_None_iff)
    then show ?thesis using add i(1) None by (simp add: innerTableAdd_def)
  next
    case (Some j)
    then obtain s where s: "s < MAX_PROBE_LENGTH" "j = probe t (hash k) s" "key (slots t ! j) = None"
      using nk by (auto simp: find_Some_iff)
    have "probe t (hash k) s = probe t (hash k) (s mod limit t)" by (simp add: probe_def mod_add_right_eq)
    then have sm: "s mod limit t < min MAX_PROBE_LENGTH (limit t)" "j = probe t (hash k) (s mod limit t)"
      using s(1,2) dd(1) le_less_trans [OF mod_less_eq_dividend s(1)] by simp_all
    have jl: "j < limit t" using s(2) dd(3) by simp
    define t1 where "t1 = t\<lparr>slots := (slots t)[j := \<lparr>key = Some k, data = d, hashcode = hash k\<rparr>],
      tableSize := tableSize t + 1\<rparr>"
    note r = insert_ok [OF ok jl s(3) sm none, where d = d, folded t1_def]
      and m = insert_map [OF ok jl s(3) sm none, where d = d, folded t1_def]
    have "innerTableAdd eq t (hash k) k d = Inr (ADD_OK, t1)"
      using add i(1) Some s(3) by (simp add: innerTableAdd_def t1_def)
    moreover have "added_to t k d t1" using r(1,5) m by (simp add: added_to_def) (simp add: t1_def)
    ultimately show ?thesis by blast
  qed
qed

text \<open>Moving the entries into another table.\<close>

fun entries_ok :: "hash_entry list \<Rightarrow> bool" where
  "entries_ok [] \<longleftrightarrow> True"
| "entries_ok (e # es) \<longleftrightarrow> entries_ok es \<and>
    (case key e of None \<Rightarrow> True | Some k \<Rightarrow> hashcode e = hash k \<and> entries_map eq es k = None)"

lemma entries_map_eq: "eq k k1 \<Longrightarrow> entries_map eq es k = entries_map eq es k1"
proof -
  assume e: "eq k k1"
  have "eq k = eq k1" using eq_trans [OF e] eq_trans [OF eq_sym [OF e]] by blast
  then show ?thesis by (simp add: entries_map_def cong: option.case_cong)
qed

lemma rehash_ok:
  assumes "table_ok eq hash new" "entries_ok es" "\<And>k. entries_map eq es k \<noteq> None \<Longrightarrow> table_map eq new k = None"
  shows "(\<exists>t1. rehash eq es new = Inr (ADD_NOSPACE, t1)) \<or>
    (\<exists>t1. rehash eq es new = Inr (ADD_OK, t1) \<and> table_ok eq hash t1 \<and>
      table_map eq t1 = joined (entries_map eq es) (table_map eq new) \<and>
      unat (tableSize t1) = unat (tableSize new) + used_count es)"
  using assms
proof (induction es arbitrary: new)
  case Nil
  then show ?case by (simp add: joined_def entries_map_def used_count_def fun_eq_iff)
next
  case (Cons e es)
  show ?case
  proof (cases "key e")
    case None
    then have "entries_map eq (e # es) = entries_map eq es" "used_count (e # es) = used_count es"
      by (simp_all add: entries_map_def used_count_def fun_eq_iff)
    then show ?thesis using Cons None by simp
  next
    case (Some k)
    have split: "entries_map eq (e # es) k1 = (if eq k1 k then Some (data e) else entries_map eq es k1)" for k1
      using Some by (simp add: entries_map_def)
    have count: "used_count (e # es) = Suc (used_count es)" using Some by (simp add: used_count_def)
    have h: "hashcode e = hash k" "entries_map eq es k = None" using Cons.prems(2) Some by simp_all
    have "table_map eq new k = None" using Cons.prems(3) [of k] split by simp
    then consider "innerTableAdd eq new (hash k) k (data e) = Inr (ADD_NOSPACE, new)"
      | t1 where "innerTableAdd eq new (hash k) k (data e) = Inr (ADD_OK, t1)" "added_to new k (data e) t1"
      using innerTableAdd_new [OF Cons.prems(1)] by blast
    then show ?thesis
    proof cases
      case 1
      then show ?thesis using Some h by simp
    next
      case (2 t1)
      have not: "\<not> eq k k1" if "entries_map eq es k1 \<noteq> None" for k1
        using that entries_map_eq [of k k1 es] h(2) by auto
      have ind: "table_map eq t1 k1 = None" if "entries_map eq es k1 \<noteq> None" for k1
        using 2(2) that Cons.prems(3) [of k1] not [OF that] split eq_sym by (auto simp: added_to_def)
      have "joined (entries_map eq es) (table_map eq t1) =
          joined (entries_map eq (e # es)) (table_map eq new)"
      proof
        fix k1
        show "joined (entries_map eq es) (table_map eq t1) k1 = joined (entries_map eq (e # es)) (table_map eq new) k1"
          using 2(2) split [of k1] entries_map_eq [of k1 k es] h(2) eq_sym [of k k1] eq_sym [of k1 k]
          by (auto simp: joined_def added_to_def split: option.split)
      qed
      then show ?thesis
        using Cons.IH [of t1] Cons.prems(2) 2 ind Some h count by (auto simp: added_to_def)
    qed
  qed
qed

lemma entries_map_nth:
  "entries_map eq es k \<noteq> None \<longleftrightarrow> (\<exists>j < length es. case key (es ! j) of None \<Rightarrow> False | Some k1 \<Rightarrow> eq k k1)"
  by (auto simp: entries_map_def find_None_iff in_set_conv_nth)

lemma entries_ok_distinct:
  assumes "\<And>j k. j < length es \<Longrightarrow> key (es ! j) = Some k \<Longrightarrow> hashcode (es ! j) = hash k"
    and "\<And>i j k k1. i < j \<Longrightarrow> j < length es \<Longrightarrow> key (es ! i) = Some k \<Longrightarrow> key (es ! j) = Some k1 \<Longrightarrow> \<not> eq k k1"
  shows "entries_ok es"
  using assms
proof (induction es)
  case (Cons e es)
  have "entries_ok es"
  proof (rule Cons.IH)
    show "hashcode (es ! j) = hash k" if "j < length es" "key (es ! j) = Some k" for j k
      using Cons.prems(1) [of "Suc j" k] that by simp
    show "\<not> eq k k1" if "i < j" "j < length es" "key (es ! i) = Some k" "key (es ! j) = Some k1" for i j k k1
      using Cons.prems(2) [of "Suc i" "Suc j" k k1] that by simp
  qed
  moreover have "hashcode e = hash k" "entries_map eq es k = None" if "key e = Some k" for k
  proof -
    show "hashcode e = hash k" using Cons.prems(1) [of 0 k] that by simp
    have "\<not> (case key (es ! j) of None \<Rightarrow> False | Some k1 \<Rightarrow> eq k k1)" if "j < length es" for j
      using Cons.prems(2) [of 0 "Suc j" k] that \<open>key e = Some k\<close> by (auto split: option.split)
    then show "entries_map eq es k = None" using entries_map_nth [of es k] by auto
  qed
  ultimately show ?case by (auto split: option.split)
qed simp

lemma table_entries_ok:
  assumes "table_ok eq hash t"
  shows "entries_ok (slots t)" "used_count (slots t) = unat (tableSize t)"
proof -
  have len: "length (slots t) = limit t" using assms by (simp add: table_ok_def table_shape_def)
  show "entries_ok (slots t)"
  proof (rule entries_ok_distinct)
    show "hashcode (slots t ! j) = hash k" if "j < length (slots t)" "key (slots t ! j) = Some k" for j k
      using that assms len by (simp add: table_ok_def)
    show "\<not> eq k k1" if "i < j" "j < length (slots t)" "key (slots t ! i) = Some k" "key (slots t ! j) = Some k1" for i j k k1
    proof
      assume "eq k k1"
      then have "at_key eq t k i" "at_key eq t k j" using that len by (simp_all add: at_key_def)
      then show False using at_key_unique [OF assms] that(1) by blast
    qed
  qed
  show "used_count (slots t) = unat (tableSize t)"
    using assms len by (simp add: used_count_def length_filter_conv_card table_ok_def used_slots_def)
qed

lemma new_table_ok:
  assumes "0 < n" "unat n * 24 < 2 ^ 64"
  shows "table_ok eq hash (new_table n)" "table_map eq (new_table n) = (\<lambda>_. None)" "tableSize (new_table n) = 0"
proof -
  have l: "unat (n * 24) div 24 = unat n" using assms(2) by (simp add: unat_word_ariths)
  then have e: "j < unat n \<Longrightarrow> slots (new_table n) ! j = empty_entry" for j by (simp add: new_table_def)
  have "used_slots (new_table n) = {}" using l by (auto simp: used_slots_def new_table_def empty_entry_def)
  then show "table_ok eq hash (new_table n)"
    using assms(1) l by (auto simp: table_ok_def table_shape_def new_table_def at_key_def empty_entry_def)
  show "table_map eq (new_table n) = (\<lambda>_. None)"
    by (auto simp: table_map_def entries_map_def new_table_def find_None_iff empty_entry_def fun_eq_iff)
  show "tableSize (new_table n) = 0" by (simp add: new_table_def)
qed

text \<open>A table whose functions are \<open>eq\<close> and \<open>hash\<close>.\<close>

definition good :: "hashcode_table \<Rightarrow> bool" where
  "good table \<longleftrightarrow> table_ok eq hash (hashtable table) \<and> keyEqualsFunc table = eq \<and> keyHashCodeFunc table = hash"

definition same_map :: "hashcode_table \<Rightarrow> hashcode_table \<Rightarrow> bool" where
  "same_map table table1 \<longleftrightarrow> table_map eq (hashtable table1) = table_map eq (hashtable table) \<and>
     tableSize (hashtable table1) = tableSize (hashtable table)"

lemma rehash_into_new:
  assumes "table_ok eq hash t" "0 < n" "unat n * 24 < 2 ^ 64"
  shows "(\<exists>t1. rehash eq (slots t) (new_table n) = Inr (ADD_NOSPACE, t1)) \<or>
    (\<exists>t1. rehash eq (slots t) (new_table n) = Inr (ADD_OK, t1) \<and> table_ok eq hash t1 \<and>
      table_map eq t1 = table_map eq t \<and> tableSize t1 = tableSize t)"
proof -
  note n = new_table_ok [OF assms(2,3)] and e = table_entries_ok [OF assms(1)]
  have "joined (entries_map eq (slots t)) (\<lambda>_. None) = table_map eq t"
    by (auto simp: joined_def table_map_def fun_eq_iff split: option.split)
  then show ?thesis
    using rehash_ok [OF n(1) e(1)] n(2,3) e(2) by (auto simp: word_unat_eq_iff)
qed

text \<open>When an expansion ends, it kept the entries.\<close>

lemma expand_loop_result:
  assumes "sane grants" "good table" "expand_loop grants table b = Some r"
  shows "r = Inl AssertFailed \<or> (\<exists>table1. r = Inr table1 \<and> good table1 \<and> same_map table table1)"
proof -
  let ?R = "\<lambda>grants table b r. sane grants \<longrightarrow> good table \<longrightarrow>
    r = Inl AssertFailed \<or> (\<exists>table1. r = Inr table1 \<and> good table1 \<and> same_map table table1)"
  have "?R grants table b r"
  proof (rule expand_loop.raw_induct [where P = ?R, OF _ assms(3)], intro impI)
    fix f grants table b r
    assume IH: "\<And>grants table b r. f grants table b = Some r \<Longrightarrow> ?R grants table b r"
      and g: "sane grants" "good table"
      and body: "(let limit = tableLimit (hashtable table) * b;
            table1 = table\<lparr>expandCount := expandCount table + 1\<rparr> in
          if \<not> grants limit then Some (Inl AssertFailed)
          else (case rehash (keyEqualsFunc table) (slots (hashtable table)) (new_table limit) of
             Inl e \<Rightarrow> Some (Inl e)
           | Inr (r, new) \<Rightarrow>
               if r = ADD_NOSPACE then f grants table1 (b + 1) else Some (Inr (table1\<lparr>hashtable := new\<rparr>)))) = Some r"
    let ?n = "tableLimit (hashtable table) * b"
    let ?t1 = "table\<lparr>expandCount := expandCount table + 1\<rparr>"
    show "r = Inl AssertFailed \<or> (\<exists>table1. r = Inr table1 \<and> good table1 \<and> same_map table table1)"
    proof (cases "grants ?n")
      case False
      then show ?thesis using body by (simp add: Let_def)
    next
      case True
      then have n: "0 < ?n" "unat ?n * 24 < 2 ^ 64" using g(1) by (auto simp: sane_def)
      have ok: "table_ok eq hash (hashtable table)" "keyEqualsFunc table = eq" using g(2) by (simp_all add: good_def)
      consider t1 where "rehash eq (slots (hashtable table)) (new_table ?n) = Inr (ADD_NOSPACE, t1)"
        | t1 where "rehash eq (slots (hashtable table)) (new_table ?n) = Inr (ADD_OK, t1)" "table_ok eq hash t1"
          "table_map eq t1 = table_map eq (hashtable table)" "tableSize t1 = tableSize (hashtable table)"
        using rehash_into_new [OF ok(1) n] by blast
      then show ?thesis
      proof cases
        case 1
        then have "f grants ?t1 (b + 1) = Some r" using body True ok(2) by (simp add: Let_def)
        then show ?thesis using IH [of grants ?t1 "b + 1" r] g by (auto simp: good_def same_map_def)
      next
        case 2
        then have "r = Inr (?t1\<lparr>hashtable := t1\<rparr>)" using body True ok(2) by (simp add: Let_def)
        then show ?thesis using 2 g(2) by (auto simp: good_def same_map_def)
      qed
    qed
  qed
  then show ?thesis using assms(1,2) by simp
qed

lemma expand_result:
  assumes "sane grants" "good table" "expand grants table = Some r"
  shows "r = Inl AssertFailed \<or> (\<exists>table1. r = Inr table1 \<and> good table1 \<and> same_map table table1)"
  using expand_loop_result [OF assms(1,2)] assms(3) by (simp add: expand_def)

definition put_in :: "hashcode_table \<Rightarrow> addr \<Rightarrow> ptr \<Rightarrow> hashcode_table \<Rightarrow> bool" where
  "put_in table k d table1 \<longleftrightarrow> good table1 \<and>
     table_map eq (hashtable table1) = (\<lambda>k1. if eq k k1 then Some d else table_map eq (hashtable table) k1) \<and>
     unat (tableSize (hashtable table1)) = Suc (unat (tableSize (hashtable table)))"

lemma put_in_same: "same_map table table1 \<Longrightarrow> put_in table1 k d table2 \<Longrightarrow> put_in table k d table2"
  by (simp add: put_in_def same_map_def cong: if_cong)

lemma add_loop_result:
  assumes "sane grants" "good table" "table_map eq (hashtable table) k = None"
    and "add_loop grants table (hash k) k d = Some r"
  shows "r = Inl AssertFailed \<or> (\<exists>table1. r = Inr (True, table1) \<and> put_in table k d table1)"
proof -
  let ?R = "\<lambda>grants table h k d r. sane grants \<longrightarrow> good table \<longrightarrow> table_map eq (hashtable table) k = None \<longrightarrow> h = hash k \<longrightarrow>
    r = Inl AssertFailed \<or> (\<exists>table1. r = Inr (True, table1) \<and> put_in table k d table1)"
  have "?R grants table (hash k) k d r"
  proof (rule add_loop.raw_induct [where P = ?R, OF _ assms(4)], intro impI)
    fix f grants table h k d r
    assume IH: "\<And>grants table h k d r. f grants table h k d = Some r \<Longrightarrow> ?R grants table h k d r"
      and g: "sane grants" "good table" "table_map eq (hashtable table) k = None" "h = hash k"
      and body: "(case innerTableAdd (keyEqualsFunc table) (hashtable table) h k d of
         Inl e \<Rightarrow> Some (Inl e)
       | Inr (r, t) \<Rightarrow>
         if r = ADD_NOSPACE
         then (case expand grants (table\<lparr>hashtable := t\<rparr>) of
                 None \<Rightarrow> None
               | Some (Inl e) \<Rightarrow> Some (Inl e)
               | Some (Inr table1) \<Rightarrow> f grants table1 h k d)
         else Some (Inr (r = ADD_OK, table\<lparr>hashtable := t\<rparr>))) = Some r"
    have ok: "table_ok eq hash (hashtable table)" "keyEqualsFunc table = eq" using g(2) by (simp_all add: good_def)
    consider "innerTableAdd eq (hashtable table) (hash k) k d = Inr (ADD_NOSPACE, hashtable table)"
      | t1 where "innerTableAdd eq (hashtable table) (hash k) k d = Inr (ADD_OK, t1)" "added_to (hashtable table) k d t1"
      using innerTableAdd_new [OF ok(1) g(3)] by blast
    then show "r = Inl AssertFailed \<or> (\<exists>table1. r = Inr (True, table1) \<and> put_in table k d table1)"
    proof cases
      case 1
      then obtain x where x: "expand grants table = Some x"
        using body ok(2) g(4) by (auto split: option.splits)
      from expand_result [OF g(1,2) x] show ?thesis
      proof
        assume "x = Inl AssertFailed"
        then show ?thesis using body 1 ok(2) g(4) x by simp
      next
        assume "\<exists>table1. x = Inr table1 \<and> good table1 \<and> same_map table table1"
        then obtain table1 where t1: "x = Inr table1" "good table1" "same_map table table1" by blast
        then have "f grants table1 h k d = Some r" using body 1 ok(2) g(4) x by simp
        then show ?thesis using IH [of grants table1 h k d r] g t1 put_in_same [OF t1(3)] by (auto simp: same_map_def)
      qed
    next
      case 2
      then have "r = Inr (True, table\<lparr>hashtable := t1\<rparr>)" using body ok(2) g(4) by simp
      then show ?thesis using 2(2) g(2) by (auto simp: put_in_def added_to_def good_def)
    qed
  qed
  then show ?thesis using assms(1-3) by simp
qed

lemma Add_result:
  assumes "sane grants" "good table" "table_map eq (hashtable table) k = None"
    and "parcHashCodeTable_Add grants table (Some k) (Some d) = Some r"
  shows "r = Inl AssertFailed \<or> (\<exists>table1. r = Inr (True, table1) \<and> put_in table k (Some d) table1)"
proof -
  have hash: "keyHashCodeFunc table1 k = hash k" if "good table1" for table1 using that by (simp add: good_def)
  show ?thesis
  proof (cases "tableSize (hashtable table) \<ge> expandThreshold (hashtable table)")
    case False
    then have "add_loop grants table (hash k) k (Some d) = Some r"
      using assms(4) hash [OF assms(2)] by (simp add: parcHashCodeTable_Add_def)
    then show ?thesis using add_loop_result [OF assms(1-3)] by blast
  next
    case True
    then obtain x where x: "expand grants table = Some x"
      using assms(4) by (auto simp: parcHashCodeTable_Add_def split: option.splits)
    from expand_result [OF assms(1,2) x] show ?thesis
    proof
      assume "x = Inl AssertFailed"
      then show ?thesis using assms(4) True x by (simp add: parcHashCodeTable_Add_def)
    next
      assume "\<exists>table1. x = Inr table1 \<and> good table1 \<and> same_map table table1"
      then obtain table1 where t1: "x = Inr table1" "good table1" "same_map table table1" by blast
      then have "add_loop grants table1 (hash k) k (Some d) = Some r"
        using assms(4) True x hash by (simp add: parcHashCodeTable_Add_def)
      then show ?thesis
        using add_loop_result [OF assms(1) t1(2), of k "Some d" r] t1(3) assms(3) put_in_same [OF t1(3)]
        by (auto simp: same_map_def)
    qed
  qed
qed

text \<open>\<open>Add\<close> returns when no expansion is needed.\<close>

lemma Add_returns:
  assumes "good table" "table_map eq (hashtable table) k = None"
    and "tableSize (hashtable table) < expandThreshold (hashtable table)"
    and "s < MAX_PROBE_LENGTH" "key (slots (hashtable table) ! probe (hashtable table) (hash k) s) = None"
  shows "\<exists>table1. parcHashCodeTable_Add grants table (Some k) (Some d) = Some (Inr (True, table1))"
proof -
  have ok: "table_ok eq hash (hashtable table)" "keyEqualsFunc table = eq" "keyHashCodeFunc table = hash"
    using assms(1) by (simp_all add: good_def)
  then obtain t1 where "innerTableAdd eq (hashtable table) (hash k) k (Some d) = Inr (ADD_OK, t1)"
    using innerTableAdd_new [OF ok(1) assms(2)] assms(4,5) by blast
  then show ?thesis
    using assms(3) [folded not_le] ok(2,3)
    by (simp add: parcHashCodeTable_Add_def add_loop.simps [of grants table])
qed

end

lemma Create_table_ok:
  assumes "hash_key eq hash" "0 < n" "unat n * 24 < 2 ^ 64"
  shows "\<exists>table. parcHashCodeTable_Create_Size True (\<lambda>_. True) (Some eq) (Some hash) kd dd n = Inr table \<and>
    table_ok eq hash (hashtable table) \<and> keyEqualsFunc table = eq \<and> keyHashCodeFunc table = hash \<and>
    table_map eq (hashtable table) = (\<lambda>_. None) \<and> tableLimit (hashtable table) = n"
  using hash_key.new_table_ok [OF assms(1), of n] assms(2,3)
  by (auto simp: parcHashCodeTable_Create_Size_def) (simp add: new_table_def)

text \<open>
  C25: On a well-formed table \<open>Get\<close> returns what the map of the table has for the key, or NULL; \<open>Del\<close> removes exactly the
  keys equal to the given one, keeps the table well-formed and counts the entry down if there was one. No search
  leaves the table, whatever the hash codes are.
\<close>

theorem parcHashCodeTable_Get_Del:
  assumes "hash_key eq hash" "table_ok eq hash (hashtable table)" "keyEqualsFunc table = eq" "keyHashCodeFunc table = hash"
  shows "parcHashCodeTable_Get table (Some k) =
      Inr (case table_map eq (hashtable table) k of None \<Rightarrow> None | Some d \<Rightarrow> d) \<and>
    (\<exists>destroyed table1. parcHashCodeTable_Del table (Some k) = Inr (destroyed, table1) \<and>
      table_ok eq hash (hashtable table1) \<and>
      table_map eq (hashtable table1) = (\<lambda>k1. if eq k k1 then None else table_map eq (hashtable table) k1) \<and>
      unat (parcHashCodeTable_Length table1) =
        unat (parcHashCodeTable_Length table) - (if table_map eq (hashtable table) k = None then 0 else 1))"
  using hash_key.Get_map [OF assms] hash_key.Del_map [OF assms, of k] by blast

text \<open>
  C24: Adding a key that is not in a well-formed table: whenever \<open>Add\<close> ends, it either ran out of memory, or it returned true
  and the new table, expanded or not, is well-formed and maps the key to its data and all others as before. It does
  end when the table is below its threshold and one of the 20 probes of the key is free.
\<close>

theorem parcHashCodeTable_Add_new:
  assumes "hash_key eq hash" "sane grants" "table_ok eq hash (hashtable table)" "keyEqualsFunc table = eq"
    "keyHashCodeFunc table = hash" "table_map eq (hashtable table) k = None"
  shows "(\<forall>r. parcHashCodeTable_Add grants table (Some k) (Some d) = Some r \<longrightarrow>
      r = Inl AssertFailed \<or>
      (\<exists>table1. r = Inr (True, table1) \<and> table_ok eq hash (hashtable table1) \<and>
        table_map eq (hashtable table1) = (\<lambda>k1. if eq k k1 then Some (Some d) else table_map eq (hashtable table) k1) \<and>
        unat (parcHashCodeTable_Length table1) = Suc (unat (parcHashCodeTable_Length table)))) \<and>
    (tableSize (hashtable table) < expandThreshold (hashtable table) \<and>
      (\<exists>s < MAX_PROBE_LENGTH. key (slots (hashtable table) ! probe (hashtable table) (hash k) s) = None) \<longrightarrow>
      (\<exists>table1. parcHashCodeTable_Add grants table (Some k) (Some d) = Some (Inr (True, table1))))"
proof -
  have good: "hash_key.good eq hash table" using assms by (simp add: hash_key.good_def)
  show ?thesis
    using hash_key.Add_result [OF assms(1,2) good assms(6), of d] hash_key.Add_returns [OF assms(1) good assms(6)]
    by (auto simp: hash_key.put_in_def [OF assms(1)] hash_key.good_def [OF assms(1)] parcHashCodeTable_Length_def)
qed

section \<open>Keys that are added twice\<close>

lemma probe_inj:
  assumes "table_shape t" "probe t h a = probe t h b" "a < limit t" "b < limit t"
  shows "a = b"
proof -
  have *: "x = y" if "probe t h x = probe t h y" "x \<le> y" "y < limit t" for x y
    using that mod_eq_dvd_iff_nat [of "home t h + x" "home t h + y" "limit t"]
    by (auto simp: probe_def dest: dvd_imp_le)
  show ?thesis using * [of a b] * [of b a] assms by (cases "a \<le> b") auto
qed

text \<open>The first probe that is free comes before the one of the key.\<close>

lemma first_free_probe:
  assumes "hash_key eq hash" and ok: "table_ok eq hash t" and at: "at_key eq t k (probe t (hash k) s)"
    and s: "s < min MAX_PROBE_LENGTH (limit t)" and hole: "s1 < s" "key (slots t ! probe t (hash k) s1) = None"
  obtains s0 where "s0 < s" "key (slots t ! probe t (hash k) s0) = None"
    "\<And>x. x < s0 \<Longrightarrow> key (slots t ! probe t (hash k) x) \<noteq> None"
    "\<And>x. x < s0 \<Longrightarrow> \<not> same_key eq (hash k) k (slots t ! probe t (hash k) x)"
proof -
  have sh: "table_shape t" using ok by (simp add: table_ok_def)
  define s0 where "s0 = (LEAST x. key (slots t ! probe t (hash k) x) = None)"
  have s0: "key (slots t ! probe t (hash k) s0) = None" using LeastI [of "\<lambda>x. key (slots t ! probe t (hash k) x) = None" s1] hole(2) by (simp add: s0_def)
  have le: "s0 \<le> s1"
    using Least_le [of "\<lambda>x. key (slots t ! probe t (hash k) x) = None" s1] hole(2) by (simp add: s0_def)
  have used: "key (slots t ! probe t (hash k) x) \<noteq> None" if "x < s0" for x
    using not_less_Least that unfolding s0_def by blast
  have "\<not> same_key eq (hash k) k (slots t ! probe t (hash k) x)" if "x < s0" for x
  proof
    assume "same_key eq (hash k) k (slots t ! probe t (hash k) x)"
    then have "at_key eq t k (probe t (hash k) x)"
      using hash_key.same_key_at [OF assms(1) ok table_shapeD(3) [OF sh]] by simp
    then have "probe t (hash k) x = probe t (hash k) s"
      using hash_key.at_key_unique [OF assms(1) ok _ at] by blast
    then show False using probe_inj [OF sh, of "hash k" x s] that le hole(1) s by simp
  qed
  then show ?thesis using that [of s0] s0 le hole(1) used by simp
qed

lemma find_first:
  assumes "i < length xs" "P (xs ! i)" "\<And>j. j < i \<Longrightarrow> \<not> P (xs ! j)"
  shows "find P xs = Some (xs ! i)"
  using assms by (auto simp: find_Some_iff)

text \<open>
  When a key is in the table and one of its earlier probes is free, as after the deletion of a colliding key, \<open>Add\<close>
  does not see it: it returns true and the table holds the key twice. Deleting the key then gives back exactly the table
  from before, which still has the key with its old data.
\<close>

theorem parcHashCodeTable_Add_twice:
  assumes "hash_key eq hash" "table_ok eq hash (hashtable table)" "keyEqualsFunc table = eq" "keyHashCodeFunc table = hash"
    and "at_key eq (hashtable table) k (probe (hashtable table) (hash k) s)" "s < min MAX_PROBE_LENGTH (limit (hashtable table))"
    and "s1 < s" "key (slots (hashtable table) ! probe (hashtable table) (hash k) s1) = None"
    and "\<forall>e \<in> set (slots (hashtable table)). key e = None \<longrightarrow> e = empty_entry"
    and "tableSize (hashtable table) < expandThreshold (hashtable table)"
  shows "\<exists>table1 destroyed.
    parcHashCodeTable_Add grants table (Some k) (Some d) = Some (Inr (True, table1)) \<and>
    parcHashCodeTable_Length table1 = parcHashCodeTable_Length table + 1 \<and>
    parcHashCodeTable_Get table1 (Some k) = Inr (Some d) \<and>
    parcHashCodeTable_Del table1 (Some k) = Inr (destroyed, table) \<and>
    parcHashCodeTable_Get table (Some k) = Inr (data (slots (hashtable table) ! probe (hashtable table) (hash k) s))"
proof -
  define t where "t = hashtable table"
  let ?p = "probe t (hash k)"
  have sh: "table_shape t" using assms(2) by (simp add: table_ok_def t_def)
  note dd = table_shapeD [OF sh]
  obtain s0 where s0: "s0 < s" "key (slots t ! ?p s0) = None"
    "\<And>x. x < s0 \<Longrightarrow> key (slots t ! ?p x) \<noteq> None"
    "\<And>x. x < s0 \<Longrightarrow> \<not> same_key eq (hash k) k (slots t ! ?p x)"
    using first_free_probe [OF assms(1,2,5,6,7,8)] unfolding t_def by blast
  define t1 where "t1 = t\<lparr>slots := (slots t)[?p s0 := \<lparr>key = Some k, data = Some d, hashcode = hash k\<rparr>],
    tableSize := tableSize t + 1\<rparr>"
  define table1 where "table1 = table\<lparr>hashtable := t1\<rparr>"
  have s20: "s0 < MAX_PROBE_LENGTH" "s0 < limit t" using s0(1) assms(6) by (simp_all add: t_def)
  obtain i where i: "first_index t (hash k) = Inr i" "unat i = ?p 0" using first_index_probe [OF sh] by blast
  have "find (\<lambda>j. key (slots t ! j) = None \<or> same_key eq (hash k) k (slots t ! j)) (map ?p [0..<0 + MAX_PROBE_LENGTH])
      = Some (map ?p [0..<0 + MAX_PROBE_LENGTH] ! s0)"
    by (rule find_first) (use s0 s20 in auto)
  then have "innerTableAdd eq t (hash k) k (Some d) = Inr (ADD_OK, t1)"
    using innerAdd_loop_probes [OF sh i(2), of MAX_PROBE_LENGTH eq k "Some d"] i(1) s0(2) s20
    by (simp add: innerTableAdd_def t1_def)
  then have add: "parcHashCodeTable_Add grants table (Some k) (Some d) = Some (Inr (True, table1))"
    using assms(3,4) assms(10) [folded not_le]
    by (simp add: parcHashCodeTable_Add_def add_loop.simps [of grants table] t_def table1_def)
  have sh1: "table_shape t1" and p1: "probe t1 = probe t" and l1: "tableLimit t1 = tableLimit t"
    using sh by (simp_all add: table_shape_def t1_def probe_def home_def fun_eq_iff)
  have new: "slots t1 ! ?p s0 = \<lparr>key = Some k, data = Some d, hashcode = hash k\<rparr>"
    using dd(2,3) by (simp add: t1_def)
  have old: "slots t1 ! ?p x = slots t ! ?p x" if "x < s0" for x
  proof -
    have "?p s0 \<noteq> ?p x" using probe_inj [OF sh, of "hash k" x s0] that s20(2) by auto
    then show ?thesis by (simp add: t1_def)
  qed
  have i1: "first_index t1 (hash k) = Inr i" using i(1) by (simp add: first_index_def l1 split: if_splits)
  have "find (\<lambda>j. same_key eq (hash k) k (slots t1 ! j)) (map ?p [0..<min (0 + MAX_PROBE_LENGTH) (limit t1)])
      = Some (map ?p [0..<min (0 + MAX_PROBE_LENGTH) (limit t1)] ! s0)"
    using s0(4) s20 old new hash_key.eq_refl [OF assms(1)]
    by (intro find_first) (auto simp: l1 same_key_def)
  then have "find_loop MAX_PROBE_LENGTH eq t1 (hash k) k i i = Inr (Some (word_of_nat (?p s0)))"
    using find_loop_probes [OF sh1, of i "hash k" 0 i MAX_PROBE_LENGTH eq k] i(2) dd(1) s20 by (simp add: p1 l1)
  then have find: "findIndex table1 k = Inr (Some (word_of_nat (?p s0)))"
    using i1 assms(3,4) by (simp add: findIndex_def table1_def)
  have u: "unat (word_of_nat (?p s0) :: size_t) = ?p s0"
    using less_trans [OF dd(3) dd(5)] by (intro unat_word_of_nat) simp
  have "slots t ! ?p s0 = empty_entry" using assms(9) s0(2) dd(2,3) by (simp add: t_def)
  then have restored: "(slots t1)[?p s0 := empty_entry] = slots t"
    by (simp add: t1_def) (metis list_update_id)
  have "t1\<lparr>slots := slots t, tableSize := tableSize t1 - 1\<rparr> = t" by (simp add: t1_def)
  moreover have "0 < tableSize t1"
  proof -
    have "tableSize t \<noteq> - 1" using assms(10) by (metis not_less word_n1_ge t_def)
    then show ?thesis using unat_plus_one [of "tableSize t"] by (simp add: t1_def word_less_nat_alt)
  qed
  ultimately have del: "\<exists>x. parcHashCodeTable_Del table1 (Some k) = Inr (x, table)"
    using find u restored dd(2,3)
    by (simp add: parcHashCodeTable_Del_def table1_def slot_at_def t1_def t_def Let_def)
  have get: "parcHashCodeTable_Get table1 (Some k) = Inr (Some d)"
    using find u new dd(2,3) by (simp add: parcHashCodeTable_Get_def table1_def slot_at_def t1_def)
  have "parcHashCodeTable_Get table (Some k) = Inr (data (slots t ! ?p s))"
    using hash_key.Get_map [OF assms(1-4), of k] hash_key.table_map_at [OF assms(1,2,5)] by (simp add: t_def)
  then show ?thesis
    using add get del by (auto simp: parcHashCodeTable_Length_def table1_def t1_def t_def)
qed

text \<open>
  A table of two slots with one hash code for all keys: after 1 and 2 were added and 1 was deleted.
\<close>

definition example_table :: hashcode_table where
  "example_table = \<lparr>hashtable = \<lparr>slots = [empty_entry, \<lparr>key = Some 2, data = Some 20, hashcode = 0\<rparr>],
       tableLimit = 2, tableSize = 1, expandThreshold = 2\<rparr>,
     keyEqualsFunc = (=), keyHashCodeFunc = (\<lambda>_. 0), keyDestroyer = False, dataDestroyer = False, expandCount = 0\<rparr>"

lemma example_key: "hash_key (=) (\<lambda>_. 0)"
  by unfold_locales simp_all

lemma example_table_history:
  "(case parcHashCodeTable_Create_Size True (\<lambda>_. True) (Some (=)) (Some (\<lambda>_. 0)) False False 2 of
      Inl e \<Rightarrow> None
    | Inr table \<Rightarrow> (case parcHashCodeTable_Add (\<lambda>_. True) table (Some 1) (Some 10) of
        Some (Inr (_, table1)) \<Rightarrow> (case parcHashCodeTable_Add (\<lambda>_. True) table1 (Some 2) (Some 20) of
          Some (Inr (_, table2)) \<Rightarrow> Some (parcHashCodeTable_Del table2 (Some 1)) | _ \<Rightarrow> None) | _ \<Rightarrow> None)) =
    Some (Inr (Some (None, None), example_table))"
proof -
  have two: "replicate 2 x = [x, x]" for x :: hash_entry by (simp add: numeral_2_eq_2)
  have le: "\<not> (2::size_t) \<le> 1" by (simp add: word_le_nat_alt)
  have suc: "(20::nat) = Suc 19" "(19::nat) = Suc 18" by simp_all
  note probes = MAX_PROBE_LENGTH_def
    innerAdd_loop.simps(2) [of 19, folded suc] innerAdd_loop.simps(2) [of 18, folded suc]
    find_loop.simps(2) [of 19, folded suc]
  show ?thesis
    by (simp add: le parcHashCodeTable_Create_Size_def new_table_def two parcHashCodeTable_Add_def add_loop.simps
      innerTableAdd_def first_index_def probes slot_at_def empty_entry_def same_key_def next_index_def
      parcHashCodeTable_Del_def findIndex_def Let_def example_table_def)
qed

lemma example_table_ok: "table_ok (=) (\<lambda>_. 0) (hashtable example_table)"
proof -
  let ?t = "hashtable example_table"
  have "used_slots ?t = {1}"
    by (auto simp: used_slots_def example_table_def empty_entry_def less_2_cases_iff)
  moreover have "at_key (=) ?t k j \<longleftrightarrow> k = 2 \<and> j = 1" for k j
    by (auto simp: at_key_def example_table_def empty_entry_def less_2_cases_iff)
  moreover have "j = 1 \<and> k = 2" if "j < 2" "key (slots ?t ! j) = Some k" for j k
    using that by (auto simp: example_table_def empty_entry_def less_2_cases_iff)
  moreover have "\<exists>s < min MAX_PROBE_LENGTH 2. 1 = probe ?t 0 s"
    by (rule exI [of _ 1]) (simp add: MAX_PROBE_LENGTH_def probe_def home_def example_table_def)
  moreover have "limit ?t = 2" "table_shape ?t" "hashcode (slots ?t ! 1) = 0" "tableSize ?t = 1"
    by (simp_all add: example_table_def table_shape_def)
  ultimately show ?thesis unfolding table_ok_def by auto
qed

lemma example_functions: "keyEqualsFunc example_table = (=)" "keyHashCodeFunc example_table = (\<lambda>_. 0)"
  by (simp_all add: example_table_def)

lemma example_table_map: "table_map (=) (hashtable example_table) = (\<lambda>k. if k = 2 then Some (Some 20) else None)"
  by (auto simp: table_map_def entries_map_def example_table_def empty_entry_def fun_eq_iff)

theorem parcHashCodeTable_Get_Del_witness:
  "parcHashCodeTable_Get example_table (Some 2) = Inr (Some 20) \<and>
   (\<exists>destroyed table1. parcHashCodeTable_Del example_table (Some 2) = Inr (destroyed, table1) \<and>
      parcHashCodeTable_Length table1 = 0)"
proof -
  have "unat (parcHashCodeTable_Length example_table) = 1"
    by (simp add: parcHashCodeTable_Length_def example_table_def)
  then show ?thesis
    using parcHashCodeTable_Get_Del [OF example_key example_table_ok example_functions, of 2] example_table_map
    by (auto simp: unat_eq_zero)
qed

theorem parcHashCodeTable_Add_new_witness:
  "\<exists>table1. parcHashCodeTable_Add (\<lambda>n. n = 4) example_table (Some 3) (Some 30) = Some (Inr (True, table1)) \<and>
     table_map (=) (hashtable table1) 3 = Some (Some 30) \<and> table_map (=) (hashtable table1) 2 = Some (Some 20)"
proof -
  have sane: "sane (\<lambda>n. n = 4)" by (simp add: sane_def)
  have new: "table_map (=) (hashtable example_table) 3 = None" by (simp add: example_table_map)
  have "\<exists>s < MAX_PROBE_LENGTH. key (slots (hashtable example_table) ! probe (hashtable example_table) 0 s) = None"
    by (rule exI [of _ 0]) (simp add: MAX_PROBE_LENGTH_def probe_def home_def example_table_def empty_entry_def)
  moreover have "tableSize (hashtable example_table) < expandThreshold (hashtable example_table)"
    by (simp add: example_table_def)
  ultimately obtain table1 where
    t1: "parcHashCodeTable_Add (\<lambda>n. n = 4) example_table (Some 3) (Some 30) = Some (Inr (True, table1))"
    using parcHashCodeTable_Add_new [OF example_key sane example_table_ok example_functions new, of 30] by blast
  then have "table_map (=) (hashtable table1) =
      (\<lambda>k1. if 3 = k1 then Some (Some 30) else table_map (=) (hashtable example_table) k1)"
    using parcHashCodeTable_Add_new [OF example_key sane example_table_ok example_functions new, of 30] by auto
  then show ?thesis using t1 by (simp add: example_table_map)
qed

theorem parcHashCodeTable_Add_twice_witness:
  "\<exists>table1 destroyed.
    parcHashCodeTable_Add (\<lambda>_. True) example_table (Some 2) (Some 21) = Some (Inr (True, table1)) \<and>
    parcHashCodeTable_Length table1 = 2 \<and>
    parcHashCodeTable_Del table1 (Some 2) = Inr (destroyed, example_table) \<and>
    parcHashCodeTable_Get example_table (Some 2) = Inr (Some 20)"
proof -
  let ?t = "hashtable example_table"
  have p: "probe ?t 0 1 = 1" "probe ?t 0 0 = 0" by (simp_all add: probe_def home_def example_table_def)
  have "at_key (=) ?t 2 (probe ?t 0 1)" "1 < min MAX_PROBE_LENGTH (limit ?t)" "key (slots ?t ! probe ?t 0 0) = None"
    "\<forall>e \<in> set (slots ?t). key e = None \<longrightarrow> e = empty_entry" "tableSize ?t < expandThreshold ?t"
    unfolding p by (simp_all add: at_key_def example_table_def empty_entry_def MAX_PROBE_LENGTH_def)
  then show ?thesis
    using parcHashCodeTable_Add_twice [OF example_key example_table_ok example_functions, of 2 1 0 "\<lambda>_. True" 21] p
    by (auto simp: example_table_def parcHashCodeTable_Length_def)
qed

end
