(* ===== verification/Parc_Simulation.thy ===== *)
theory Parc_Simulation
  imports Parc_Prelude
begin

text \<open>
  Sequences of calls on a component and on its abstract specification, and the contract of a simulation between
  them. A trap ends a sequence on both sides.
\<close>

text \<open>A loop that counts a word up to a bound ends.\<close>

lemma index_measure: "i < j \<Longrightarrow> unat j - unat (i + 1) < unat j - unat i" for i j :: size_t
proof -
  assume l: "i < j"
  then have "i \<noteq> - 1" by (metis not_less word_n1_ge)
  then show ?thesis using l by (simp add: unat_plus_one word_less_nat_alt)
qed

text \<open>What the calls on the containers return.\<close>

datatype call_value = Nothing | Pointer ptr | Number size_t | Truth bool | Destroyed "ptr list"

fun run_all :: "('s \<Rightarrow> 'c \<Rightarrow> ('v \<times> 's) result) \<Rightarrow> 's \<Rightarrow> 'c list \<Rightarrow> ('v list \<times> 's) result" where
  "run_all f s [] = Inr ([], s)"
| "run_all f s (c # cs) = rbind (f s c) (\<lambda>(v, s1). rbind (run_all f s1 cs) (\<lambda>(vs, s2). Inr (v # vs, s2)))"

definition agree :: "('s \<Rightarrow> 'x \<Rightarrow> bool) \<Rightarrow> ('v \<times> 's) result \<Rightarrow> ('v \<times> 'x) result \<Rightarrow> bool" where
  "agree R r q = (case (r, q) of
     (Inl e, Inl e1) \<Rightarrow> e = e1
   | (Inr (v, s), Inr (v1, x)) \<Rightarrow> v = v1 \<and> R s x
   | _ \<Rightarrow> False)"

lemma agree_simps [simp]:
  "agree R (Inl e) (Inl e1) \<longleftrightarrow> e = e1"
  "agree R (Inr (v, s)) (Inr (v1, x)) \<longleftrightarrow> v = v1 \<and> R s x"
  "\<not> agree R (Inl e) (Inr q)" "\<not> agree R (Inr r) (Inl e)"
  by (auto simp: agree_def split: prod.split)

text \<open>\<open>R n s x\<close>: the state \<open>s\<close> represents \<open>x\<close> and has resources for \<open>n\<close> more calls.\<close>

locale simulation =
  fixes call :: "'s \<Rightarrow> 'c \<Rightarrow> ('v \<times> 's) result"
    and spec :: "'x \<Rightarrow> 'c \<Rightarrow> ('v \<times> 'x) result"
    and R :: "nat \<Rightarrow> 's \<Rightarrow> 'x \<Rightarrow> bool"
  assumes call_agrees: "R (Suc n) s x \<Longrightarrow> agree (R n) (call s c) (spec x c)"
begin

lemma run_all_agrees:
  "R (n + length cs) s x \<Longrightarrow> agree (R n) (run_all call s cs) (run_all spec x cs)"
proof (induction cs arbitrary: s x)
  case Nil
  then show ?case by simp
next
  case (Cons c cs)
  have a: "agree (R (n + length cs)) (call s c) (spec x c)" using call_agrees Cons.prems by simp
  show ?case
  proof (cases "call s c")
    case (Inl e)
    then show ?thesis using a by (cases "spec x c") auto
  next
    case (Inr r)
    obtain v s1 where r: "r = (v, s1)" by (cases r)
    with a Inr obtain x1 where x: "spec x c = Inr (v, x1)" "R (n + length cs) s1 x1"
      by (cases "spec x c") auto
    then have "agree (R n) (run_all call s1 cs) (run_all spec x1 cs)" using Cons.IH by blast
    then show ?thesis
      using Inr r x(1) by (cases "run_all call s1 cs"; cases "run_all spec x1 cs") auto
  qed
qed

end

end
