(* ===== verification/Parc_ArrayList.thy ===== *)
theory Parc_ArrayList
  imports Parc_Simulation
begin

text \<open>
  The list of pointers in an array (\<^verbatim>\<open>parc_ArrayList.c\<close>). A list belongs to one owner, so an operation takes it and
  returns the new one; \<open>granted\<close> is what a reallocation answers.
\<close>

section \<open>The list and its operations\<close>

text \<open>\<open>array\<close> is NULL or the allocated entries; \<open>destroyElement\<close> tells whether the function pointer is set.\<close>

record array_list =
  array :: "ptr list option"
  numberOfElements :: size_t
  limit :: size_t
  equalsElement :: "(ptr \<Rightarrow> ptr \<Rightarrow> bool) option"
  destroyElement :: bool

definition get_cell :: "array_list \<Rightarrow> size_t \<Rightarrow> ptr result" where
  "get_cell a i = (case array a of
     None \<Rightarrow> Inl BadPointer
   | Some xs \<Rightarrow> if unat i < length xs then Inr (xs ! unat i) else Inl Undefined)"

definition set_cell :: "array_list \<Rightarrow> size_t \<Rightarrow> ptr \<Rightarrow> array_list result" where
  "set_cell a i p = (case array a of
     None \<Rightarrow> Inl BadPointer
   | Some xs \<Rightarrow> if unat i < length xs then Inr (a\<lparr>array := Some (xs[unat i := p])\<rparr>) else Inl Undefined)"

definition remaining :: "array_list \<Rightarrow> size_t" where
  "remaining a = limit a - numberOfElements a"

definition parcArrayList_Size :: "array_list \<Rightarrow> size_t" where
  "parcArrayList_Size a = numberOfElements a"

text \<open>
  The reallocation of \<open>newCapacity * sizeof(void *)\<close> bytes, a product that may wrap around, keeps the old entries.
  The result \<open>None\<close> is NULL.
\<close>

definition ensureCapacity :: "bool \<Rightarrow> array_list \<Rightarrow> size_t \<Rightarrow> array_list option" where
  "ensureCapacity granted a newCapacity =
    (if \<not> granted then None
     else let n = unat (newCapacity * 8) div 8; old = (case array a of None \<Rightarrow> [] | Some xs \<Rightarrow> xs) in
       Some (a\<lparr>array := Some (take n old @ replicate (n - length old) None), limit := newCapacity\<rparr>))"

definition ensureRemaining_list :: "bool \<Rightarrow> array_list \<Rightarrow> size_t \<Rightarrow> array_list option" where
  "ensureRemaining_list granted a remnant =
    (if remaining a < remnant then ensureCapacity granted a (parcArrayList_Size a + remnant) else Some a)"

definition parcArrayList_IsValid :: "array_list option \<Rightarrow> bool" where
  "parcArrayList_IsValid instance =
    (case instance of None \<Rightarrow> False | Some a \<Rightarrow> (if numberOfElements a = 0 then True else array a \<noteq> None))"

definition parcArrayList_AssertValid :: "array_list option \<Rightarrow> unit result" where
  "parcArrayList_AssertValid instance =
    (case instance of
       None \<Rightarrow> Inl IllegalValue
     | Some a \<Rightarrow> assertTrue (if numberOfElements a = 0 then True else array a \<noteq> None))"

definition parcArrayList_Create :: "bool \<Rightarrow> bool \<Rightarrow> array_list result" where
  "parcArrayList_Create granted destroy =
    rbind (assertTrue granted) (\<lambda>_.
    Inr \<lparr>array = None, numberOfElements = 0, limit = 0, equalsElement = None, destroyElement = destroy\<rparr>)"

text \<open>The result of \<open>_ensureRemaining\<close> is not used: without memory the list is created empty.\<close>

definition parcArrayList_Create_Capacity ::
  "bool \<Rightarrow> bool \<Rightarrow> (ptr \<Rightarrow> ptr \<Rightarrow> bool) option \<Rightarrow> bool \<Rightarrow> size_t \<Rightarrow> array_list result" where
  "parcArrayList_Create_Capacity granted array_granted eq destroy n =
    rbind (assertTrue granted) (\<lambda>_.
    let a = \<lparr>array = None, numberOfElements = 0, limit = 0, equalsElement = eq, destroyElement = destroy\<rparr> in
    Inr (case ensureRemaining_list array_granted a n of None \<Rightarrow> a | Some a1 \<Rightarrow> a1))"

definition parcArrayList_Add :: "bool \<Rightarrow> array_list \<Rightarrow> ptr \<Rightarrow> array_list result" where
  "parcArrayList_Add granted a pointer =
    rbind (parcArrayList_AssertValid (Some a)) (\<lambda>_.
    case ensureRemaining_list granted a 1 of
      None \<Rightarrow> Inl OutOfMemory
    | Some a1 \<Rightarrow>
        rbind (set_cell a1 (numberOfElements a1) pointer) (\<lambda>a2.
        Inr (a2\<lparr>numberOfElements := numberOfElements a2 + 1\<rparr>)))"

fun parcArrayList_AddAll :: "bool \<Rightarrow> array_list \<Rightarrow> ptr list \<Rightarrow> array_list result" where
  "parcArrayList_AddAll granted a [] = Inr a"
| "parcArrayList_AddAll granted a (p # argv) =
    rbind (parcArrayList_Add granted a p) (\<lambda>a1. parcArrayList_AddAll granted a1 argv)"

definition parcArrayList_IsEmpty :: "array_list \<Rightarrow> bool result" where
  "parcArrayList_IsEmpty a = rbind (parcArrayList_AssertValid (Some a)) (\<lambda>_. Inr (numberOfElements a = 0))"

function equals_loop :: "array_list \<Rightarrow> array_list \<Rightarrow> size_t \<Rightarrow> bool result" where
  "equals_loop a b i =
    (if i < numberOfElements a
     then rbind (get_cell a i) (\<lambda>x. rbind (get_cell b i) (\<lambda>y.
          if (case equalsElement a of None \<Rightarrow> x = y | Some f \<Rightarrow> f x y) then equals_loop a b (i + 1) else Inr False))
     else Inr True)"
  by pat_completeness auto
termination
  by (relation "measure (\<lambda>(a, b, i). unat (numberOfElements a) - unat i)") (auto simp: index_measure)

declare equals_loop.simps [simp del]

text \<open>\<open>same\<close>: both arguments are the same pointer.\<close>

definition parcArrayList_Equals :: "bool \<Rightarrow> array_list option \<Rightarrow> array_list option \<Rightarrow> bool result" where
  "parcArrayList_Equals same x y =
    (if same then Inr True
     else case (x, y) of
       (Some a, Some b) \<Rightarrow> if numberOfElements a \<noteq> numberOfElements b then Inr False else equals_loop a b 0
     | _ \<Rightarrow> Inr False)"

lemma set_cell_keeps:
  assumes "set_cell a i p = Inr a1"
  shows "numberOfElements a1 = numberOfElements a" "limit a1 = limit a" "destroyElement a1 = destroyElement a"
    "equalsElement a1 = equalsElement a"
  using assms by (auto simp: set_cell_def split: option.splits if_splits)

text \<open>The loop that closes the gap behind a removed entry.\<close>

function close_gap :: "array_list \<Rightarrow> size_t \<Rightarrow> array_list result" where
  "close_gap a i =
    (if i < numberOfElements a - 1
     then rbind (get_cell a (i + 1)) (\<lambda>x. rbind (set_cell a i x) (\<lambda>a1.
          close_gap a1 (i + 1)))
     else Inr a)"
  by pat_completeness auto
termination
  by (relation "measure (\<lambda>(a, i). unat (numberOfElements a - 1) - unat i)")
    (auto simp: index_measure dest: set_cell_keeps(1))

declare close_gap.simps [simp del]

definition parcArrayList_RemoveAtIndex :: "array_list \<Rightarrow> size_t \<Rightarrow> (ptr \<times> array_list) result" where
  "parcArrayList_RemoveAtIndex a index =
    rbind (trapIf OutOfBounds (index \<ge> numberOfElements a)) (\<lambda>_.
    rbind (get_cell a index) (\<lambda>element.
    rbind (close_gap a index) (\<lambda>a1.
    Inr (element, a1\<lparr>numberOfElements := numberOfElements a1 - 1\<rparr>))))"

definition parcArrayList_Set :: "array_list \<Rightarrow> size_t \<Rightarrow> ptr \<Rightarrow> array_list result" where
  "parcArrayList_Set a index pointer =
    rbind (trapIf OutOfBounds (index \<ge> numberOfElements a)) (\<lambda>_. set_cell a index pointer)"

definition parcArrayList_Get :: "array_list \<Rightarrow> size_t \<Rightarrow> ptr result" where
  "parcArrayList_Get a index =
    rbind (trapIf OutOfBounds (index \<ge> numberOfElements a)) (\<lambda>_. get_cell a index)"

definition parcArrayList_Peek :: "array_list \<Rightarrow> ptr result" where
  "parcArrayList_Peek a = parcArrayList_Get a (parcArrayList_Size a - 1)"

definition used_cells :: "array_list \<Rightarrow> ptr list result" where
  "used_cells a = (case array a of
     None \<Rightarrow> if numberOfElements a = 0 then Inr [] else Inl BadPointer
   | Some xs \<Rightarrow> if unat (numberOfElements a) \<le> length xs then Inr (take (unat (numberOfElements a)) xs) else Inl Undefined)"

text \<open>The entries given to \<open>destroyElement\<close>, in order.\<close>

definition parcArrayList_Destroy :: "array_list option \<Rightarrow> ptr list result" where
  "parcArrayList_Destroy arrayPtr =
    (case arrayPtr of None \<Rightarrow> Inl AssertFailed
     | Some a \<Rightarrow>
         rbind (parcArrayList_AssertValid (Some a)) (\<lambda>_.
         if destroyElement a then rbind (used_cells a) (\<lambda>xs. Inr (filter (\<lambda>p. p \<noteq> None) xs)) else Inr []))"

text \<open>The copy has the destroy function of the original but no function that compares elements.\<close>

definition parcArrayList_Copy :: "bool \<Rightarrow> bool \<Rightarrow> array_list \<Rightarrow> array_list result" where
  "parcArrayList_Copy granted array_granted original =
    rbind (parcArrayList_AssertValid (Some original)) (\<lambda>_.
    rbind (parcArrayList_Create granted (destroyElement original)) (\<lambda>a.
    rbind (used_cells original) (\<lambda>xs. parcArrayList_AddAll array_granted a xs)))"

text \<open>The entry given to \<open>destroyElement\<close> and the new list.\<close>

definition parcArrayList_RemoveAndDestroyAtIndex :: "array_list \<Rightarrow> size_t \<Rightarrow> (ptr option \<times> array_list) result" where
  "parcArrayList_RemoveAndDestroyAtIndex a index =
    rbind (parcArrayList_AssertValid (Some a)) (\<lambda>_.
    rbind (assertTrue (index < numberOfElements a)) (\<lambda>_.
    rbind (get_cell a index) (\<lambda>element.
    rbind (close_gap a index) (\<lambda>a1.
    Inr (if destroyElement a then Some element else None, a1\<lparr>numberOfElements := numberOfElements a1 - 1\<rparr>)))))"

text \<open>The loop that makes room for an inserted entry: from the insertion point upwards.\<close>

function open_gap :: "array_list \<Rightarrow> size_t \<Rightarrow> size_t \<Rightarrow> array_list result" where
  "open_gap a i n =
    (if i < n
     then rbind (get_cell a i) (\<lambda>x. rbind (set_cell a (i + 1) x) (\<lambda>a1. open_gap a1 (i + 1) n))
     else Inr a)"
  by pat_completeness auto
termination
  by (relation "measure (\<lambda>(a, i, n). unat n - unat i)") (auto simp: index_measure)

declare open_gap.simps [simp del]

definition parcArrayList_InsertAtIndex :: "bool \<Rightarrow> array_list \<Rightarrow> size_t \<Rightarrow> ptr \<Rightarrow> array_list result" where
  "parcArrayList_InsertAtIndex granted a index pointer =
    rbind (parcArrayList_AssertValid (Some a)) (\<lambda>_.
    let n = parcArrayList_Size a in
    rbind (assertTrue (index \<le> numberOfElements a)) (\<lambda>_.
    let a1 = (case ensureRemaining_list granted a (n + 1) of None \<Rightarrow> a | Some b \<Rightarrow> b) in
    rbind (open_gap a1 index n) (\<lambda>a2.
    set_cell (a2\<lparr>numberOfElements := numberOfElements a2 + 1\<rparr>) index pointer)))"

definition parcArrayList_Pop :: "array_list \<Rightarrow> (ptr \<times> array_list) result" where
  "parcArrayList_Pop a = parcArrayList_RemoveAtIndex a (parcArrayList_Size a - 1)"

lemma close_gap_keeps:
  "close_gap a i = Inr a1 \<Longrightarrow> numberOfElements a1 = numberOfElements a \<and> limit a1 = limit a \<and>
    destroyElement a1 = destroyElement a"
proof (induction a i rule: close_gap.induct)
  case (1 a i)
  show ?case
  proof (cases "i < numberOfElements a - 1")
    case False
    then show ?thesis using "1.prems" by (simp add: close_gap.simps)
  next
    case True
    then obtain x a2 where "get_cell a (i + 1) = Inr x" "set_cell a i x = Inr a2" "close_gap a2 (i + 1) = Inr a1"
      using "1.prems" by (subst (asm) close_gap.simps) auto
    then show ?thesis using "1.IH" [OF True] set_cell_keeps [of a i x a2] by metis
  qed
qed

lemma RemoveAndDestroy_size:
  assumes "parcArrayList_RemoveAndDestroyAtIndex a i = Inr (p, a1)"
  shows "unat (numberOfElements a1) < unat (numberOfElements a)"
proof -
  have "i < numberOfElements a" "numberOfElements a1 = numberOfElements a - 1"
    using assms by (auto simp: parcArrayList_RemoveAndDestroyAtIndex_def dest: close_gap_keeps)
  then show ?thesis by (metis measure_unat word_not_simps(1))
qed

text \<open>\<open>Clear\<close> removes from the end; it returns the entries given to \<open>destroyElement\<close>, in order.\<close>

function parcArrayList_Clear :: "array_list \<Rightarrow> (ptr list \<times> array_list) result" where
  "parcArrayList_Clear a =
    rbind (parcArrayList_IsEmpty a) (\<lambda>e.
    if e then Inr ([], a)
    else rbind (parcArrayList_RemoveAndDestroyAtIndex a (parcArrayList_Size a - 1)) (\<lambda>(p, a1).
         rbind (parcArrayList_Clear a1) (\<lambda>(ps, a2).
         Inr ((case p of None \<Rightarrow> ps | Some x \<Rightarrow> x # ps), a2))))"
  by pat_completeness auto
termination
  by (relation "measure (\<lambda>a. unat (numberOfElements a))") (auto dest: RemoveAndDestroy_size)

declare parcArrayList_Clear.simps [simp del]

section \<open>The elements of a list\<close>

definition cells :: "array_list \<Rightarrow> ptr list" where
  "cells a = (case array a of None \<Rightarrow> [] | Some xs \<Rightarrow> xs)"

definition elems :: "array_list \<Rightarrow> ptr list" where
  "elems a = take (unat (numberOfElements a)) (cells a)"

text \<open>The array has as many entries as the limit says.\<close>

definition list_ok :: "array_list \<Rightarrow> bool" where
  "list_ok a \<longleftrightarrow> length (cells a) = unat (limit a) \<and> numberOfElements a \<le> limit a \<and> unat (limit a) < 2 ^ 61"

lemma list_okD:
  assumes "list_ok a"
  shows "unat (numberOfElements a) \<le> length (cells a)" "length (elems a) = unat (numberOfElements a)"
    "unat (numberOfElements a) < 2 ^ 61" "parcArrayList_AssertValid (Some a) = Inr ()"
proof -
  show le: "unat (numberOfElements a) \<le> length (cells a)" using assms by (simp add: list_ok_def word_le_nat_alt)
  then show "length (elems a) = unat (numberOfElements a)" by (simp add: elems_def)
  show "unat (numberOfElements a) < 2 ^ 61" using assms le by (simp add: list_ok_def)
  show "parcArrayList_AssertValid (Some a) = Inr ()"
    using le by (cases "array a") (auto simp: parcArrayList_AssertValid_def cells_def unat_eq_zero)
qed

lemma get_cell_cells: "unat i < length (cells a) \<Longrightarrow> get_cell a i = Inr (cells a ! unat i)"
  by (cases "array a") (auto simp: get_cell_def cells_def)

lemma set_cell_cells:
  assumes "unat i < length (cells a)"
  shows "set_cell a i p = Inr (a\<lparr>array := Some ((cells a)[unat i := p])\<rparr>)"
  using assms by (cases "array a") (auto simp: set_cell_def cells_def)

lemma cells_update [simp]:
  "cells (a\<lparr>array := Some xs\<rparr>) = xs" "cells (a\<lparr>numberOfElements := n\<rparr>) = cells a"
  by (simp_all add: cells_def)

text \<open>What the two loops leave in the array, entry by entry.\<close>

lemma close_gap_cells:
  assumes "unat (numberOfElements a) \<le> length (cells a)" "0 < numberOfElements a" "unat i < unat (numberOfElements a)"
  shows "\<exists>a1. close_gap a i = Inr a1 \<and> length (cells a1) = length (cells a) \<and>
    (\<forall>j < unat (numberOfElements a) - 1. cells a1 ! j = cells a ! (if j < unat i then j else Suc j))"
  using assms
proof (induction a i rule: close_gap.induct)
  case (1 a i)
  have n1: "unat (numberOfElements a - 1) = unat (numberOfElements a) - 1"
    using "1.prems"(2) by (simp add: unat_minus_one word_pos_iff)
  show ?case
  proof (cases "i < numberOfElements a - 1")
    case False
    then show ?thesis
      using n1 by (subst close_gap.simps) (auto simp: word_less_nat_alt)
  next
    case True
    then have lt: "Suc (unat i) < unat (numberOfElements a)" using n1 by (simp add: word_less_nat_alt)
    have "i \<noteq> - 1" using True by (metis not_less word_n1_ge)
    then have s: "unat (i + 1) = Suc (unat i)" by (rule unat_plus_one)
    let ?a1 = "a\<lparr>array := Some ((cells a)[unat i := cells a ! Suc (unat i)])\<rparr>"
    have g: "get_cell a (i + 1) = Inr (cells a ! Suc (unat i))" and w: "set_cell a i (cells a ! Suc (unat i)) = Inr ?a1"
      using lt s "1.prems"(1) by (simp_all add: get_cell_cells set_cell_cells)
    obtain a2 where "close_gap ?a1 (i + 1) = Inr a2" "length (cells a2) = length (cells a)"
      "\<forall>j < unat (numberOfElements a) - 1. cells a2 ! j =
        (cells a)[unat i := cells a ! Suc (unat i)] ! (if j < Suc (unat i) then j else Suc j)"
      using "1.IH" [OF True g w] "1.prems" lt s by auto
    then show ?thesis
      using True g w lt "1.prems"(1) by (subst close_gap.simps) (auto simp: nth_list_update)
  qed
qed

lemma open_gap_cells:
  assumes "unat n < length (cells a)"
  shows "\<exists>a1. open_gap a i n = Inr a1 \<and> length (cells a1) = length (cells a) \<and>
    numberOfElements a1 = numberOfElements a \<and> limit a1 = limit a \<and>
    (\<forall>j < length (cells a). cells a1 ! j = cells a ! (if unat i < j \<and> j \<le> unat n then unat i else j))"
  using assms
proof (induction a i n rule: open_gap.induct)
  case (1 a i n)
  show ?case
  proof (cases "i < n")
    case False
    then show ?thesis by (subst open_gap.simps) (auto simp: word_less_nat_alt)
  next
    case True
    then have lt: "unat i < unat n" by (simp add: word_less_nat_alt)
    have "i \<noteq> - 1" using True by (metis not_less word_n1_ge)
    then have s: "unat (i + 1) = Suc (unat i)" by (rule unat_plus_one)
    let ?a1 = "a\<lparr>array := Some ((cells a)[Suc (unat i) := cells a ! unat i])\<rparr>"
    have g: "get_cell a i = Inr (cells a ! unat i)" and w: "set_cell a (i + 1) (cells a ! unat i) = Inr ?a1"
      using lt s "1.prems" by (simp_all add: get_cell_cells set_cell_cells)
    obtain a2 where "open_gap ?a1 (i + 1) n = Inr a2" "length (cells a2) = length (cells a)"
      "numberOfElements a2 = numberOfElements a" "limit a2 = limit a"
      "\<forall>j < length (cells a). cells a2 ! j = (cells a)[Suc (unat i) := cells a ! unat i] !
        (if Suc (unat i) < j \<and> j \<le> unat n then Suc (unat i) else j)"
      using "1.IH" [OF True g w] "1.prems" s by auto
    then show ?thesis
      using True g w lt "1.prems" by (subst open_gap.simps) (auto simp: nth_list_update)
  qed
qed

lemma ensureRemaining_list_grows:
  assumes ok: "list_ok a" and r: "unat (numberOfElements a) + unat r < 2 ^ 61"
  shows "\<exists>a1. ensureRemaining_list True a r = Some a1 \<and> list_ok a1 \<and> elems a1 = elems a \<and>
    numberOfElements a1 = numberOfElements a \<and> destroyElement a1 = destroyElement a \<and>
    unat (numberOfElements a) + unat r \<le> length (cells a1)"
proof (cases "remaining a < r")
  case False
  have "unat (remaining a) = unat (limit a) - unat (numberOfElements a)"
    using ok by (simp add: remaining_def list_ok_def unat_diff_le)
  then show ?thesis
    using False ok list_okD [OF ok]
    by (auto simp: ensureRemaining_list_def list_ok_def word_less_nat_alt word_le_nat_alt)
next
  case True
  let ?c = "numberOfElements a + r"
  have c: "unat ?c = unat (numberOfElements a) + unat r" using r by (intro unat_add_no_wrap) simp
  have n: "unat (?c * 8) div 8 = unat ?c" using r c by (simp add: unat_word_ariths)
  have "unat (limit a) < unat (numberOfElements a) + unat r"
  proof -
    have "unat (remaining a) = unat (limit a) - unat (numberOfElements a)"
      using ok by (simp add: remaining_def list_ok_def unat_diff_le)
    then show ?thesis using True by (simp add: word_less_nat_alt)
  qed
  then have le: "length (cells a) \<le> unat ?c" using ok c by (simp add: list_ok_def)
  define a1 where "a1 = a\<lparr>array := Some (cells a @ replicate (unat ?c - length (cells a)) None), limit := ?c\<rparr>"
  have "ensureRemaining_list True a r = Some a1"
    using True le n
    by (simp add: ensureRemaining_list_def ensureCapacity_def parcArrayList_Size_def Let_def a1_def cells_def)
  moreover have "cells a1 = cells a @ replicate (unat ?c - length (cells a)) None"
    by (simp add: a1_def cells_def)
  moreover from this have "elems a1 = elems a" using list_okD(1) [OF ok] by (simp add: elems_def a1_def)
  ultimately show ?thesis
    using le c r by (auto simp: list_ok_def a1_def word_le_nat_alt)
qed

lemma Add_elems:
  assumes ok: "list_ok a" and r: "Suc (unat (numberOfElements a)) < 2 ^ 61"
  shows "\<exists>a1. parcArrayList_Add True a p = Inr a1 \<and> list_ok a1 \<and> elems a1 = elems a @ [p] \<and>
    destroyElement a1 = destroyElement a"
proof -
  obtain b where b: "ensureRemaining_list True a 1 = Some b" "list_ok b" "elems b = elems a"
    "numberOfElements b = numberOfElements a" "destroyElement b = destroyElement a"
    "unat (numberOfElements a) + 1 \<le> length (cells b)"
    using ensureRemaining_list_grows [OF ok, of 1] r by auto
  have s: "unat (numberOfElements a + 1) = Suc (unat (numberOfElements a))"
    using r unat_add_no_wrap [of "numberOfElements a" 1] by simp
  let ?a1 = "b\<lparr>array := Some ((cells b)[unat (numberOfElements a) := p]), numberOfElements := numberOfElements a + 1\<rparr>"
  have "parcArrayList_Add True a p = Inr ?a1"
    using b list_okD(4) [OF ok] by (simp add: parcArrayList_Add_def set_cell_cells)
  moreover have "list_ok ?a1" using b(2,6) s by (simp add: list_ok_def word_le_nat_alt)
  moreover have "elems ?a1 = elems a @ [p]"
    using b(3,4,6) s by (simp add: elems_def take_Suc_conv_app_nth flip: b(3))
  ultimately show ?thesis using b(5) by auto
qed

lemma Remove_elems:
  assumes ok: "list_ok a" and i: "unat i < length (elems a)"
  shows "\<exists>a1. get_cell a i = Inr (elems a ! unat i) \<and> close_gap a i = Inr a1 \<and>
    list_ok (a1\<lparr>numberOfElements := numberOfElements a1 - 1\<rparr>) \<and> destroyElement a1 = destroyElement a \<and>
    elems (a1\<lparr>numberOfElements := numberOfElements a1 - 1\<rparr>) =
      take (unat i) (elems a) @ drop (Suc (unat i)) (elems a)"
proof -
  note d = list_okD [OF ok]
  have il: "unat i < unat (numberOfElements a)" using i d(2) by simp
  then have pos: "0 < numberOfElements a" by (metis gr_implies_not0 unat_eq_zero word_pos_iff)
  have n1: "unat (numberOfElements a - 1) = unat (numberOfElements a) - 1"
    using pos by (simp add: unat_minus_one word_pos_iff)
  obtain a1 where a1: "close_gap a i = Inr a1" "length (cells a1) = length (cells a)"
    "\<forall>j < unat (numberOfElements a) - 1. cells a1 ! j = cells a ! (if j < unat i then j else Suc j)"
    using close_gap_cells [OF d(1) pos il] by blast
  note k = close_gap_keeps [OF a1(1)]
  have "take (unat (numberOfElements a) - 1) (cells a1) = take (unat i) (elems a) @ drop (Suc (unat i)) (elems a)"
  proof (rule nth_equalityI)
    show "length (take (unat (numberOfElements a) - 1) (cells a1)) =
        length (take (unat i) (elems a) @ drop (Suc (unat i)) (elems a))"
      using il a1(2) d(1,2) by simp
    fix j
    assume "j < length (take (unat (numberOfElements a) - 1) (cells a1))"
    then have j: "j < unat (numberOfElements a) - 1" by simp
    then have "take (unat (numberOfElements a) - 1) (cells a1) ! j = cells a ! (if j < unat i then j else Suc j)"
      using a1(3) by simp
    also have "\<dots> = elems a ! (if j < unat i then j else Suc j)" using j by (auto simp: elems_def)
    also have "\<dots> = (take (unat i) (elems a) @ drop (Suc (unat i)) (elems a)) ! j"
      using j il d(2) by (auto simp: nth_append)
    finally show "take (unat (numberOfElements a) - 1) (cells a1) ! j =
        (take (unat i) (elems a) @ drop (Suc (unat i)) (elems a)) ! j" .
  qed
  moreover have "get_cell a i = Inr (elems a ! unat i)"
    using il d(1) by (simp add: get_cell_cells elems_def)
  ultimately show ?thesis
    using a1 k n1 ok d(1) by (auto simp: list_ok_def elems_def word_le_nat_alt)
qed

lemma RemoveAtIndex_elems:
  assumes "list_ok a"
  shows "if unat i < length (elems a)
    then \<exists>a1. parcArrayList_RemoveAtIndex a i = Inr (elems a ! unat i, a1) \<and> list_ok a1 \<and>
      elems a1 = take (unat i) (elems a) @ drop (Suc (unat i)) (elems a) \<and> destroyElement a1 = destroyElement a
    else parcArrayList_RemoveAtIndex a i = Inl OutOfBounds"
  using Remove_elems [OF assms, of i] list_okD(2) [OF assms]
  by (auto simp: parcArrayList_RemoveAtIndex_def word_le_nat_alt not_less)

lemma Get_elems:
  assumes "list_ok a"
  shows "parcArrayList_Get a i = (if unat i < length (elems a) then Inr (elems a ! unat i) else Inl OutOfBounds)"
  using list_okD [OF assms]
  by (auto simp: parcArrayList_Get_def word_le_nat_alt get_cell_cells elems_def)

lemma Set_elems:
  assumes "list_ok a"
  shows "if unat i < length (elems a)
    then \<exists>a1. parcArrayList_Set a i p = Inr a1 \<and> list_ok a1 \<and> elems a1 = (elems a)[unat i := p] \<and>
      destroyElement a1 = destroyElement a
    else parcArrayList_Set a i p = Inl OutOfBounds"
  using list_okD [OF assms] assms
  by (auto simp: parcArrayList_Set_def word_le_nat_alt set_cell_cells elems_def list_ok_def take_update_swap)

text \<open>The index \<open>size - 1\<close> of an empty list is beyond every list.\<close>

lemma last_index:
  assumes "list_ok a"
  shows "unat (numberOfElements a - 1) = (if elems a = [] then 2 ^ 64 - 1 else length (elems a) - 1)"
proof (cases "elems a = []")
  case True
  then have "numberOfElements a = 0" using list_okD(2) [OF assms] by (simp add: unat_eq_zero)
  then show ?thesis using True unat_SIZE_MAX by simp
next
  case False
  then have "numberOfElements a \<noteq> 0" using list_okD(2) [OF assms] by (cases "numberOfElements a = 0") auto
  then show ?thesis using False list_okD(2) [OF assms] by (simp add: unat_minus_one)
qed

lemma Clear_elems:
  "list_ok a \<Longrightarrow> \<exists>a1. parcArrayList_Clear a = Inr (if destroyElement a then rev (elems a) else [], a1) \<and>
    list_ok a1 \<and> elems a1 = [] \<and> destroyElement a1 = destroyElement a"
proof (induction a rule: parcArrayList_Clear.induct)
  case (1 a)
  note d = list_okD [OF "1.prems"]
  have e: "parcArrayList_IsEmpty a = Inr (elems a = [])"
  proof -
    have "numberOfElements a = 0 \<longleftrightarrow> elems a = []" using d(2) by (metis length_0_conv unat_eq_zero)
    then show ?thesis using d(4) by (simp add: parcArrayList_IsEmpty_def)
  qed
  show ?case
  proof (cases "elems a = []")
    case True
    then show ?thesis using e "1.prems" by (subst parcArrayList_Clear.simps) simp
  next
    case False
    let ?i = "parcArrayList_Size a - 1"
    have i: "unat ?i = length (elems a) - 1" using last_index [OF "1.prems"] False by (simp add: parcArrayList_Size_def)
    then have lt: "unat ?i < length (elems a)" using False by (simp add: length_greater_0_conv [symmetric] del: length_greater_0_conv)
    then have "?i < numberOfElements a" using d(2) by (simp add: word_less_nat_alt)
    then obtain a1 where a1: "parcArrayList_RemoveAndDestroyAtIndex a ?i =
        Inr (if destroyElement a then Some (elems a ! unat ?i) else None, a1)" "list_ok a1"
        "elems a1 = butlast (elems a)" "destroyElement a1 = destroyElement a"
      using Remove_elems [OF "1.prems" lt] d(4) i lt
      by (auto simp: parcArrayList_RemoveAndDestroyAtIndex_def butlast_conv_take)
    have "elems a ! unat ?i = last (elems a)" using False i by (simp add: last_conv_nth)
    moreover have "last (elems a) # rev (butlast (elems a)) = rev (elems a)"
      using False by (cases "elems a" rule: rev_cases) simp_all
    moreover obtain a2 where "parcArrayList_Clear a1 = Inr (if destroyElement a1 then rev (elems a1) else [], a2)"
      "list_ok a2" "elems a2 = []" "destroyElement a2 = destroyElement a1"
      using "1.IH" [OF e False a1(1) refl a1(2)] by blast
    ultimately show ?thesis
      using e False a1 by (subst parcArrayList_Clear.simps) auto
  qed
qed

section \<open>A list is a list\<close>

datatype list_call =
    ListAdd ptr | ListSet size_t ptr | ListGet size_t | ListRemove size_t | ListPop | ListPeek | ListSize | ListClear

text \<open>The calls on an array list, with memory for its growth.\<close>

fun array_list_call :: "array_list \<Rightarrow> list_call \<Rightarrow> (call_value \<times> array_list) result" where
  "array_list_call a (ListAdd p) = rbind (parcArrayList_Add True a p) (\<lambda>a1. Inr (Nothing, a1))"
| "array_list_call a (ListSet i p) = rbind (parcArrayList_Set a i p) (\<lambda>a1. Inr (Nothing, a1))"
| "array_list_call a (ListGet i) = rbind (parcArrayList_Get a i) (\<lambda>p. Inr (Pointer p, a))"
| "array_list_call a (ListRemove i) = rbind (parcArrayList_RemoveAtIndex a i) (\<lambda>(p, a1). Inr (Pointer p, a1))"
| "array_list_call a ListPop = rbind (parcArrayList_Pop a) (\<lambda>(p, a1). Inr (Pointer p, a1))"
| "array_list_call a ListPeek = rbind (parcArrayList_Peek a) (\<lambda>p. Inr (Pointer p, a))"
| "array_list_call a ListSize = Inr (Number (parcArrayList_Size a), a)"
| "array_list_call a ListClear = rbind (parcArrayList_Clear a) (\<lambda>(ps, a1). Inr (Destroyed ps, a1))"

text \<open>The same calls on a list.\<close>

fun list_spec :: "bool \<Rightarrow> ptr list \<Rightarrow> list_call \<Rightarrow> (call_value \<times> ptr list) result" where
  "list_spec b xs (ListAdd p) = Inr (Nothing, xs @ [p])"
| "list_spec b xs (ListSet i p) =
    (if unat i < length xs then Inr (Nothing, xs[unat i := p]) else Inl OutOfBounds)"
| "list_spec b xs (ListGet i) = (if unat i < length xs then Inr (Pointer (xs ! unat i), xs) else Inl OutOfBounds)"
| "list_spec b xs (ListRemove i) =
    (if unat i < length xs then Inr (Pointer (xs ! unat i), take (unat i) xs @ drop (Suc (unat i)) xs)
     else Inl OutOfBounds)"
| "list_spec b xs ListPop = (if xs = [] then Inl OutOfBounds else Inr (Pointer (last xs), butlast xs))"
| "list_spec b xs ListPeek = (if xs = [] then Inl OutOfBounds else Inr (Pointer (last xs), xs))"
| "list_spec b xs ListSize = Inr (Number (of_nat (length xs)), xs)"
| "list_spec b xs ListClear = Inr (Destroyed (if b then rev xs else []), [])"

definition represents :: "bool \<Rightarrow> nat \<Rightarrow> array_list \<Rightarrow> ptr list \<Rightarrow> bool" where
  "represents b n a xs \<longleftrightarrow> list_ok a \<and> elems a = xs \<and> destroyElement a = b \<and> length xs + n < 2 ^ 61"

lemma Pop_elems:
  assumes ok: "list_ok a"
  shows "if elems a = [] then parcArrayList_Pop a = Inl OutOfBounds
    else \<exists>a1. parcArrayList_Pop a = Inr (last (elems a), a1) \<and> list_ok a1 \<and> elems a1 = butlast (elems a) \<and>
      destroyElement a1 = destroyElement a"
proof -
  have len: "length (elems a) < 2 ^ 61" using list_okD [OF ok] by simp
  show ?thesis
    using RemoveAtIndex_elems [OF ok, of "numberOfElements a - 1"] last_index [OF ok] len
    by (auto simp: parcArrayList_Pop_def parcArrayList_Size_def last_conv_nth butlast_conv_take)
qed

lemma Peek_elems:
  assumes ok: "list_ok a"
  shows "parcArrayList_Peek a = (if elems a = [] then Inl OutOfBounds else Inr (last (elems a)))"
proof -
  have len: "length (elems a) < 2 ^ 61" using list_okD [OF ok] by simp
  show ?thesis
    using Get_elems [OF ok, of "numberOfElements a - 1"] last_index [OF ok] len
    by (auto simp: parcArrayList_Peek_def parcArrayList_Size_def last_conv_nth)
qed

lemma array_list_call_agrees:
  assumes r: "represents b (Suc n) a xs"
  shows "agree (represents b n) (array_list_call a c) (list_spec b xs c)"
proof -
  have ok: "list_ok a" and xs: "xs = elems a" "b = destroyElement a" and len: "Suc (length (elems a) + n) < 2 ^ 61"
    using r by (auto simp: represents_def)
  note d = list_okD [OF ok]
  show ?thesis
  proof (cases c)
    case (ListAdd p)
    then show ?thesis using Add_elems [OF ok, of p] d(2) len xs by (auto simp: represents_def)
  next
    case (ListSet i p)
    then show ?thesis using Set_elems [OF ok, of i p] len xs by (auto simp: represents_def split: if_splits)
  next
    case (ListGet i)
    then show ?thesis using Get_elems [OF ok, of i] ok len xs by (auto simp: represents_def)
  next
    case (ListRemove i)
    then show ?thesis using RemoveAtIndex_elems [OF ok, of i] len xs by (auto simp: represents_def split: if_splits)
  next
    case ListPop
    then show ?thesis using Pop_elems [OF ok] len xs by (auto simp: represents_def split: if_splits)
  next
    case ListPeek
    then show ?thesis using Peek_elems [OF ok] ok len xs by (auto simp: represents_def)
  next
    case ListSize
    have "numberOfElements a = of_nat (length xs)" using d(2) xs by (metis of_nat_unat ucast_id)
    then show ?thesis using ListSize ok len xs by (auto simp: represents_def parcArrayList_Size_def)
  next
    case ListClear
    then show ?thesis using Clear_elems [OF ok] len xs by (auto simp: represents_def)
  qed
qed

interpretation array_list: simulation array_list_call "list_spec b" "represents b"
  by unfold_locales (rule array_list_call_agrees)



text \<open>
  Inserting before the last element destroys elements: the loop that should move the tail up copies the element at
  the insertion point over all that follow. The result is right only for an insertion at the end or before the last element.
\<close>

theorem parcArrayList_InsertAtIndex_overwrites:
  assumes ok: "list_ok a" and i: "unat i \<le> length (elems a)" and r: "2 * length (elems a) + 1 < 2 ^ 61"
  shows "\<exists>a1. parcArrayList_InsertAtIndex True a i p = Inr a1 \<and>
    elems a1 = take (unat i) (elems a) @ p # replicate (length (elems a) - unat i) (elems a ! unat i)"
proof -
  note d = list_okD [OF ok]
  let ?n = "numberOfElements a"
  have n1: "unat (?n + 1) = Suc (unat ?n)" using unat_add_no_wrap [of ?n 1] d(3) by simp
  obtain b where b: "ensureRemaining_list True a (?n + 1) = Some b" "list_ok b" "elems b = elems a"
    "numberOfElements b = ?n" "unat ?n + unat (?n + 1) \<le> length (cells b)"
    using ensureRemaining_list_grows [OF ok, of "?n + 1"] r d(2) n1 by auto
  have lb: "unat ?n < length (cells b)" using b(5) n1 by simp
  obtain c where c: "open_gap b i ?n = Inr c" "length (cells c) = length (cells b)" "numberOfElements c = ?n"
    "\<forall>j < length (cells b). cells c ! j = cells b ! (if unat i < j \<and> j \<le> unat ?n then unat i else j)"
    using open_gap_cells [OF lb, of i] b(4) by auto
  let ?a1 = "c\<lparr>numberOfElements := ?n + 1, array := Some ((cells c)[unat i := p])\<rparr>"
  have il: "unat i < length (cells c)" using i d(2) lb c(2) by simp
  have ile: "i \<le> ?n" using i d(2) by (simp add: word_le_nat_alt)
  have "parcArrayList_InsertAtIndex True a i p = Inr ?a1"
    using d(4) ile b(1) c(1,3) il
    by (simp add: parcArrayList_InsertAtIndex_def parcArrayList_Size_def Let_def set_cell_cells)
  moreover have "elems ?a1 = take (unat i) (elems a) @ p # replicate (length (elems a) - unat i) (elems a ! unat i)"
  proof (rule nth_equalityI)
    show "length (elems ?a1) =
        length (take (unat i) (elems a) @ p # replicate (length (elems a) - unat i) (elems a ! unat i))"
      using lb c(2) n1 i d(2) by (simp add: elems_def)
    fix j
    assume "j < length (elems ?a1)"
    then have j: "j < Suc (unat ?n)" using n1 by (simp add: elems_def)
    have ea: "elems a ! k = cells b ! k" if "k < unat ?n" for k
    proof -
      have "elems a ! k = elems b ! k" by (simp add: b(3))
      then show ?thesis using that b(4) by (simp add: elems_def)
    qed
    have "elems ?a1 ! j = (if j = unat i then p else cells b ! (if unat i < j then unat i else j))"
      using j n1 c(2,4) lb by (auto simp: elems_def nth_list_update)
    also have "\<dots> = (take (unat i) (elems a) @ p # replicate (length (elems a) - unat i) (elems a ! unat i)) ! j"
      using j i d(2) ea by (auto simp: nth_append nth_Cons split: nat.split)
    finally show "elems ?a1 ! j =
        (take (unat i) (elems a) @ p # replicate (length (elems a) - unat i) (elems a ! unat i)) ! j" .
  qed
  ultimately show ?thesis by blast
qed

definition example_list :: array_list where
  "example_list = \<lparr>array = Some [Some 1, Some 2, Some 3], numberOfElements = 3, limit = 3, equalsElement = None,
     destroyElement = False\<rparr>"

theorem parcArrayList_InsertAtIndex_overwrites_witness:
  "\<exists>a1. parcArrayList_InsertAtIndex True example_list 0 (Some 9) = Inr a1 \<and>
    elems a1 = [Some 9, Some 1, Some 1, Some 1]"
proof -
  have "list_ok example_list" by (simp add: list_ok_def example_list_def cells_def)
  moreover have "elems example_list = [Some 1, Some 2, Some 3]" by (simp add: elems_def example_list_def cells_def)
  ultimately show ?thesis
    using parcArrayList_InsertAtIndex_overwrites [of example_list 0 "Some 9"] by (simp add: numeral_3_eq_3)
qed

end
