(* ===== verification/Parc_Linked.thy ===== *)
theory Parc_Linked
  imports Parc_Simulation
begin

text \<open>
  Doubly linked lists of allocated nodes, the structure behind \<^verbatim>\<open>parc_Deque.c\<close> and \<^verbatim>\<open>parc_LinkedList.c\<close>, and the invariant
  that says which list of elements they hold. A list owns its nodes: \<open>nodes\<close> is the part of the memory that
  holds them and \<open>fresh\<close> the next address of the allocator.
\<close>

section \<open>Nodes\<close>

record linked_node =
  element :: ptr
  previous :: ptr
  next_node :: ptr

record linked =
  head :: ptr
  tail :: ptr
  list_size :: size_t
  nodes :: "addr \<Rightarrow> linked_node option"
  fresh :: addr

definition node_at :: "'a linked_scheme \<Rightarrow> ptr \<Rightarrow> linked_node result" where
  "node_at l p = (case p of None \<Rightarrow> Inl BadPointer
     | Some a \<Rightarrow> (case nodes l a of None \<Rightarrow> Inl BadPointer | Some n \<Rightarrow> Inr n))"

lemma node_at_tail_update [simp]: "node_at (l\<lparr>tail := t\<rparr>) p = node_at l p"
  by (cases p) (simp_all add: node_at_def)

text \<open>Assignments through a pointer to a node.\<close>

definition change_node :: "(linked_node \<Rightarrow> linked_node) \<Rightarrow> 'a linked_scheme \<Rightarrow> ptr \<Rightarrow> 'a linked_scheme result" where
  "change_node f l p =
    rbind (node_at l p) (\<lambda>n. Inr (l\<lparr>nodes := (nodes l)(the p \<mapsto> f n)\<rparr>))"

abbreviation set_next where "set_next l p q \<equiv> change_node (next_node_update (\<lambda>_. q)) l p"
abbreviation set_previous where "set_previous l p q \<equiv> change_node (previous_update (\<lambda>_. q)) l p"
abbreviation set_element where "set_element l p x \<equiv> change_node (element_update (\<lambda>_. x)) l p"

definition free_node :: "'a linked_scheme \<Rightarrow> ptr \<Rightarrow> 'a linked_scheme" where
  "free_node l p = (case p of None \<Rightarrow> l | Some a \<Rightarrow> l\<lparr>nodes := (nodes l)(a := None)\<rparr>)"

text \<open>A new node; \<open>granted\<close> is what the allocation answers.\<close>

definition create_node :: "bool \<Rightarrow> 'a linked_scheme \<Rightarrow> ptr \<Rightarrow> ptr \<Rightarrow> ptr \<Rightarrow> ptr \<times> 'a linked_scheme" where
  "create_node granted l e prev nxt =
    (if granted
     then (Some (fresh l), l\<lparr>nodes := (nodes l)(fresh l \<mapsto> \<lparr>element = e, previous = prev, next_node = nxt\<rparr>),
                            fresh := Suc (fresh l)\<rparr>)
     else (None, l))"

section \<open>Segments\<close>

definition first :: "addr list \<Rightarrow> ptr \<Rightarrow> ptr" where
  "first as q = (case as of [] \<Rightarrow> q | a # _ \<Rightarrow> Some a)"

definition final :: "ptr \<Rightarrow> addr list \<Rightarrow> ptr" where
  "final p as = (if as = [] then p else Some (last as))"

lemma first_final_simps [simp]:
  "first [] q = q" "first (a # as) q = Some a" "final p [] = p" "final p (a # as) = final (Some a) as"
  "final p (as @ [a]) = Some a" "first (as @ bs) q = first as (first bs q)" "final p (as @ bs) = final (final p as) bs"
  by (auto simp: first_def final_def split: list.split)

lemma first_None [simp]: "first as q = None \<longleftrightarrow> as = [] \<and> q = None"
  by (cases as) simp_all

lemma final_None [simp]: "final p as = None \<longleftrightarrow> as = [] \<and> p = None"
  by (simp add: final_def)

text \<open>\<open>segment m p as xs q\<close>: the nodes at \<open>as\<close> hold \<open>xs\<close>; \<open>p\<close> is before and \<open>q\<close> behind them.\<close>

fun segment :: "(addr \<Rightarrow> linked_node option) \<Rightarrow> ptr \<Rightarrow> addr list \<Rightarrow> ptr list \<Rightarrow> ptr \<Rightarrow> bool" where
  "segment m p [] [] q = True"
| "segment m p (a # as) (x # xs) q =
    (m a = Some \<lparr>element = x, previous = p, next_node = first as q\<rparr> \<and> segment m (Some a) as xs q)"
| "segment m p _ _ q = False"

lemma segment_length: "segment m p as xs q \<Longrightarrow> length as = length xs"
  by (induction m p as xs q rule: segment.induct) auto

lemma segment_cong: "(\<And>a. a \<in> set as \<Longrightarrow> m a = m1 a) \<Longrightarrow> segment m p as xs q = segment m1 p as xs q"
  by (induction m p as xs q rule: segment.induct) auto

lemma segment_frame [simp]: "a \<notin> set as \<Longrightarrow> segment (m(a := v)) p as xs q = segment m p as xs q"
  by (rule segment_cong) auto

lemma segment_append:
  "length as = length xs \<Longrightarrow>
    segment m p (as @ bs) (xs @ ys) q \<longleftrightarrow> segment m p as xs (first bs q) \<and> segment m (final p as) bs ys q"
  by (induction as xs arbitrary: p rule: list_induct2) auto

lemma segment_split:
  assumes "segment m p as xs q" "i < length xs"
  shows "segment m p (take i as) (take i xs) (Some (as ! i))"
    "m (as ! i) = Some \<lparr>element = xs ! i, previous = final p (take i as), next_node = first (drop (Suc i) as) q\<rparr>"
    "segment m (Some (as ! i)) (drop (Suc i) as) (drop (Suc i) xs) q"
proof -
  have l: "length as = length xs" using assms(1) by (rule segment_length)
  have "segment m p (take i as @ as ! i # drop (Suc i) as) (take i xs @ xs ! i # drop (Suc i) xs) q"
    using assms l by (simp add: id_take_nth_drop [symmetric])
  then show "segment m p (take i as) (take i xs) (Some (as ! i))"
    "m (as ! i) = Some \<lparr>element = xs ! i, previous = final p (take i as), next_node = first (drop (Suc i) as) q\<rparr>"
    "segment m (Some (as ! i)) (drop (Suc i) as) (drop (Suc i) xs) q"
    using l assms(2) by (subst (asm) segment_append; simp)+
qed

text \<open>Redirecting the last pointer to the right and the first to the left, of segments that may be empty.\<close>

definition link_next :: "(addr \<Rightarrow> linked_node option) \<Rightarrow> ptr \<Rightarrow> ptr \<Rightarrow> addr \<Rightarrow> linked_node option" where
  "link_next m p q = (case p of None \<Rightarrow> m | Some a \<Rightarrow> m(a \<mapsto> (the (m a))\<lparr>next_node := q\<rparr>))"

definition link_previous :: "(addr \<Rightarrow> linked_node option) \<Rightarrow> ptr \<Rightarrow> ptr \<Rightarrow> addr \<Rightarrow> linked_node option" where
  "link_previous m p q = (case p of None \<Rightarrow> m | Some a \<Rightarrow> m(a \<mapsto> (the (m a))\<lparr>previous := q\<rparr>))"

lemma segment_link_next:
  assumes "segment m p as xs q" "distinct as"
  shows "segment (link_next m (final None as) r) p as xs r"
proof (cases as rule: rev_cases)
  case Nil
  then show ?thesis using assms(1) by (cases xs) (auto simp: link_next_def)
next
  case (snoc bs b)
  then have "length xs = Suc (length bs)" using segment_length [OF assms(1)] by simp
  then obtain ys y where "xs = ys @ [y]" "length bs = length ys" by (cases xs rule: rev_cases) auto
  then show ?thesis using assms snoc by (auto simp: segment_append link_next_def)
qed

lemma segment_link_previous:
  assumes "segment m p as xs q" "distinct as"
  shows "segment (link_previous m (first as None) r) r as xs q"
proof (cases as)
  case Nil
  then show ?thesis using assms(1) by (cases xs) auto
next
  case (Cons b bs)
  then obtain y ys where "xs = y # ys" using assms(1) by (cases xs) auto
  then show ?thesis using assms Cons by (auto simp: link_previous_def)
qed

lemma segment_link_frame:
  assumes "set as \<inter> set bs = {}"
  shows "segment (link_next m (final None as) r) q bs xs s = segment m q bs xs s"
    "segment (link_previous m (first as None) r) q bs xs s = segment m q bs xs s"
  using assms by (auto simp: link_next_def link_previous_def first_def final_def disjoint_iff split: option.split list.split)

lemma link_dom:
  assumes "set_option p \<subseteq> dom m"
  shows "dom (link_next m p q) = dom m" "dom (link_previous m p q) = dom m"
  using assms by (auto simp: link_next_def link_previous_def split: option.split)

lemma first_final_in:
  "set_option (first as None) \<subseteq> set as" "set_option (final None as) \<subseteq> set as"
  by (auto simp: first_def final_def split: list.split)

text \<open>Taking one node out of a segment, and putting one in.\<close>

lemma segment_unlink:
  assumes s: "segment m None (as @ a # bs) (xs @ x # ys) None" and l: "length as = length xs"
    and d: "distinct (as @ a # bs)"
  shows "segment ((link_previous (link_next m (final None as) (first bs None)) (first bs None) (final None as))(a := None))
    None (as @ bs) (xs @ ys) None"
proof -
  let ?p = "final None as" and ?q = "first bs None"
  have "segment m None as xs (Some a)" "segment m (Some a) bs ys None" using s l by (auto simp: segment_append)
  then have "segment (link_next m ?p ?q) None as xs ?q" "segment (link_next m ?p ?q) (Some a) bs ys None"
    using d by (auto intro: segment_link_next simp: segment_link_frame)
  then have "segment (link_previous (link_next m ?p ?q) ?q ?p) None as xs ?q"
    "segment (link_previous (link_next m ?p ?q) ?q ?p) ?p bs ys None"
    using d by (auto intro: segment_link_previous simp: segment_link_frame Int_commute)
  then show ?thesis using d l by (simp add: segment_append)
qed

lemma segment_link:
  assumes s: "segment m None (as @ bs) (xs @ ys) None" and l: "length as = length xs"
    and d: "distinct (as @ bs)" and a: "a \<notin> set (as @ bs)"
  shows "segment (link_previous (link_next (m(a \<mapsto> \<lparr>element = x, previous = final None as, next_node = first bs None\<rparr>))
      (final None as) (Some a)) (first bs None) (Some a))
    None (as @ a # bs) (xs @ x # ys) None"
proof -
  let ?p = "final None as" and ?q = "first bs None"
  let ?m = "m(a \<mapsto> \<lparr>element = x, previous = ?p, next_node = ?q\<rparr>)"
  let ?m1 = "link_next ?m ?p (Some a)"
  have "segment ?m None as xs ?q" "segment ?m ?p bs ys None" using s l a by (auto simp: segment_append)
  then have m1: "segment ?m1 None as xs (Some a)" "segment ?m1 ?p bs ys None"
    using d by (auto intro: segment_link_next simp: segment_link_frame)
  let ?m2 = "link_previous ?m1 ?q (Some a)"
  have "segment ?m2 None as xs (Some a)" "segment ?m2 (Some a) bs ys None"
    using m1 d by (auto intro: segment_link_previous simp: segment_link_frame Int_commute)
  moreover have "?m2 a = Some \<lparr>element = x, previous = ?p, next_node = ?q\<rparr>"
    using a first_final_in [of as] first_final_in [of bs]
    by (auto simp: link_next_def link_previous_def split: option.split)
  ultimately show ?thesis using l by (simp add: segment_append)
qed

section \<open>The elements of a linked list\<close>

definition chain :: "'a linked_scheme \<Rightarrow> addr list \<Rightarrow> ptr list \<Rightarrow> bool" where
  "chain l as xs \<longleftrightarrow> distinct as \<and> segment (nodes l) None as xs None \<and> dom (nodes l) = set as \<and>
    (\<forall>a \<in> set as. a < fresh l) \<and> head l = first as None \<and> tail l = final None as"

lemma chain_empty: "head l = None \<Longrightarrow> tail l = None \<Longrightarrow> nodes l = Map.empty \<Longrightarrow> chain l [] []"
  by (simp add: chain_def)

lemma chain_length: "chain l as xs \<Longrightarrow> length as = length xs"
  by (auto simp: chain_def dest: segment_length)

lemma chain_fresh: "chain l as xs \<Longrightarrow> fresh l \<notin> set as"
  by (auto simp: chain_def)

text \<open>Reading along a path from the first node needs less than a chain.\<close>

abbreviation path :: "'a linked_scheme \<Rightarrow> addr list \<Rightarrow> ptr list \<Rightarrow> bool" where
  "path l as xs \<equiv> segment (nodes l) None as xs None"

lemma chain_path: "chain l as xs \<Longrightarrow> path l as xs"
  by (simp add: chain_def)

lemma node_at_path:
  assumes "path l as xs" "i < length xs"
  shows "node_at l (first (drop i as) None) =
    Inr \<lparr>element = xs ! i, previous = final None (take i as), next_node = first (drop (Suc i) as) None\<rparr>"
proof -
  have "first (drop i as) None = Some (as ! i)"
    using assms segment_length [OF assms(1)] by (simp add: Cons_nth_drop_Suc [symmetric])
  then show ?thesis using segment_split(2) [OF assms] by (simp add: node_at_def)
qed

lemmas node_at_index = node_at_path [OF chain_path]

lemma path_cursor:
  assumes "path l as xs" "i < length xs"
  shows "final None (take (Suc i) as) = first (drop i as) None"
  using assms segment_length [OF assms(1)] by (simp add: take_Suc_conv_app_nth Cons_nth_drop_Suc [symmetric])

lemma node_at_head:
  assumes "chain l (a # as) (x # xs)"
  shows "node_at l (Some a) = Inr \<lparr>element = x, previous = None, next_node = first as None\<rparr>"
  using node_at_index [OF assms, of 0] by simp

lemma node_at_tail:
  assumes "chain l (as @ [a]) (xs @ [x])"
  shows "node_at l (Some a) = Inr \<lparr>element = x, previous = final None as, next_node = None\<rparr>"
  using node_at_index [OF assms, of "length xs"] chain_length [OF assms] by simp

text \<open>The pointer an iterator has behind the first \<open>n\<close> nodes.\<close>

lemma node_at_visited:
  assumes c: "chain l as xs" and n: "n < length xs"
  shows "node_at l (final None (take (Suc n) as)) =
    Inr \<lparr>element = xs ! n, previous = final None (take n as), next_node = first (drop (Suc n) as) None\<rparr>"
proof -
  have "final None (take (Suc n) as) = first (drop n as) None"
    using n chain_length [OF c] by (simp add: take_Suc_conv_app_nth Cons_nth_drop_Suc [symmetric])
  then show ?thesis using node_at_index [OF c n] by simp
qed

lemma chain_cursor:
  assumes c: "chain l as xs" and n: "n \<le> length xs"
  shows "final None (take n as) = None \<longleftrightarrow> n = 0" "first (drop n as) None = None \<longleftrightarrow> n = length xs"
    "n < length xs \<Longrightarrow> final None (take (Suc n) as) = first (drop n as) None"
    "n = Suc k \<Longrightarrow> node_at l (final None (take (Suc k) as)) =
      Inr \<lparr>element = xs ! k, previous = final None (take k as), next_node = first (drop (Suc k) as) None\<rparr>"
  using n chain_length [OF c] node_at_visited [OF c, of k]
  by (auto simp: take_Suc_conv_app_nth Cons_nth_drop_Suc [symmetric])

lemma chain_nonempty:
  assumes "chain l as xs"
  shows "head l = None \<longleftrightarrow> xs = []" "tail l = None \<longleftrightarrow> xs = []"
  using assms chain_length [OF assms] by (auto simp: chain_def)

lemma chain_cases:
  assumes "chain l as xs"
  obtains (Nil) "as = []" "xs = []" "head l = None" "tail l = None"
  | (Cons) b bs y ys where "as = b # bs" "xs = y # ys" "head l = Some b" "tail l \<noteq> None"
  using assms chain_length [OF assms] by (cases as; cases xs) (auto simp: chain_def simp del: not_None_eq)

lemma chain_rev_cases:
  assumes "chain l as xs"
  obtains (Nil) "as = []" "xs = []" "head l = None" "tail l = None"
  | (snoc) b bs y ys where "as = bs @ [b]" "xs = ys @ [y]" "length bs = length ys" "tail l = Some b" "head l \<noteq> None"
  using assms chain_length [OF assms]
  by (cases as rule: rev_cases; cases xs rule: rev_cases) (auto simp: chain_def simp del: not_None_eq)

text \<open>Two equal pointers into a chain are at the same position.\<close>

lemma head_is_tail:
  assumes "chain l as xs" "xs \<noteq> []"
  shows "head l = tail l \<longleftrightarrow> length xs = 1"
  using assms chain_length [OF assms(1)]
  by (cases as) (auto simp: chain_def final_def)

lemma set_next_eq:
  assumes "p \<in> dom (nodes l)"
  shows "set_next l (Some p) q = Inr (l\<lparr>nodes := link_next (nodes l) (Some p) q\<rparr>)"
  using assms by (auto simp: change_node_def node_at_def link_next_def)

lemma set_previous_eq:
  assumes "p \<in> dom (nodes l)"
  shows "set_previous l (Some p) q = Inr (l\<lparr>nodes := link_previous (nodes l) (Some p) q\<rparr>)"
  using assms by (auto simp: change_node_def node_at_def link_previous_def)

text \<open>The effect on the elements of linking a new node in, of taking one out and of changing one.\<close>

lemma chain_link:
  assumes c: "chain l (as @ bs) (xs @ ys)" and l: "length as = length xs" and f: "fresh l1 = Suc (fresh l)"
    and n: "nodes l1 = link_previous (link_next
      ((nodes l)(fresh l \<mapsto> \<lparr>element = x, previous = final None as, next_node = first bs None\<rparr>))
      (final None as) (Some (fresh l))) (first bs None) (Some (fresh l))"
    and h: "head l1 = first (as @ fresh l # bs) None" "tail l1 = final None (as @ fresh l # bs)"
  shows "chain l1 (as @ fresh l # bs) (xs @ x # ys)"
proof -
  let ?a = "fresh l"
  let ?m = "(nodes l)(?a \<mapsto> \<lparr>element = x, previous = final None as, next_node = first bs None\<rparr>)"
  have a: "?a \<notin> set (as @ bs)" using chain_fresh [OF c] .
  have "dom ?m = insert ?a (set (as @ bs))" using c by (auto simp: chain_def)
  moreover from this have "dom (link_next ?m (final None as) (Some ?a)) = insert ?a (set (as @ bs))"
    using first_final_in(2) [of as] by (subst link_dom(1)) auto
  ultimately have "dom (nodes l1) = insert ?a (set (as @ bs))"
    using first_final_in(1) [of bs] by (simp only: n) (subst link_dom(2); auto)
  moreover have "segment (nodes l1) None (as @ ?a # bs) (xs @ x # ys) None"
    unfolding n using c l a by (intro segment_link) (simp_all add: chain_def)
  ultimately show ?thesis using c a f h by (auto simp: chain_def intro: less_SucI)
qed

lemma chain_unlink:
  assumes c: "chain l (as @ a # bs) (xs @ x # ys)" and l: "length as = length xs" and f: "fresh l1 = fresh l"
    and n: "nodes l1 = (link_previous (link_next (nodes l) (final None as) (first bs None)) (first bs None)
      (final None as))(a := None)"
    and h: "head l1 = first (as @ bs) None" "tail l1 = final None (as @ bs)"
  shows "chain l1 (as @ bs) (xs @ ys)"
proof -
  have d: "dom (nodes l) = insert a (set (as @ bs))" "distinct (as @ a # bs)" using c by (auto simp: chain_def)
  then have "dom (link_next (nodes l) (final None as) (first bs None)) = insert a (set (as @ bs))"
    using first_final_in(2) [of as] by (subst link_dom(1)) auto
  then have "dom (link_previous (link_next (nodes l) (final None as) (first bs None)) (first bs None) (final None as)) =
      insert a (set (as @ bs))"
    using first_final_in(1) [of bs] by (subst link_dom(2)) auto
  then have "dom (nodes l1) = set (as @ bs)" using d(2) n by auto
  moreover have "segment (nodes l1) None (as @ bs) (xs @ ys) None"
    unfolding n using c l by (intro segment_unlink [where x = x]) (simp_all add: chain_def)
  ultimately show ?thesis using c f h by (auto simp: chain_def)
qed

lemma chain_set_element:
  assumes c: "chain l as xs" and i: "i < length xs"
  shows "\<exists>l1. set_element l (first (drop i as) None) x = Inr l1 \<and> chain l1 as (xs[i := x]) \<and> list_size l1 = list_size l"
proof -
  have len: "length as = length xs" using c by (rule chain_length)
  then have p: "first (drop i as) None = Some (as ! i)" using i by (simp add: Cons_nth_drop_Suc [symmetric])
  let ?n = "\<lparr>element = x, previous = final None (take i as), next_node = first (drop (Suc i) as) None\<rparr>"
  let ?l1 = "l\<lparr>nodes := (nodes l)(as ! i \<mapsto> ?n)\<rparr>"
  have "set_element l (Some (as ! i)) x = Inr ?l1"
    using node_at_index [OF c i] by (simp add: p change_node_def)
  moreover have "chain ?l1 as (xs[i := x])"
  proof -
    have s: "segment (nodes l) None as xs None" "distinct as" using c by (simp_all add: chain_def)
    note sp = segment_split [OF s(1) i]
    have "as ! i \<notin> set (take i as)" "as ! i \<notin> set (drop (Suc i) as)"
      using s(2) i len by (auto simp: in_set_conv_nth nth_eq_iff_index_eq)
    then have "segment ((nodes l)(as ! i \<mapsto> ?n)) None (take i as @ as ! i # drop (Suc i) as)
        (take i xs @ x # drop (Suc i) xs) None"
      using sp i len by (subst segment_append) simp_all
    moreover have "as = take i as @ as ! i # drop (Suc i) as" using i len by (simp add: id_take_nth_drop [symmetric])
    ultimately have "segment ((nodes l)(as ! i \<mapsto> ?n)) None as (xs[i := x]) None"
      using i by (simp add: upd_conv_take_nth_drop)
    then show ?thesis using c i len by (auto simp: chain_def)
  qed
  ultimately show ?thesis using p by auto
qed

section \<open>The elements with their number\<close>

definition linked_holds :: "'a linked_scheme \<Rightarrow> addr list \<Rightarrow> ptr list \<Rightarrow> bool" where
  "linked_holds l as xs \<longleftrightarrow> chain l as xs \<and> list_size l = of_nat (length xs) \<and> length xs < 2 ^ 64"

lemma size_zero: "n < 2 ^ 64 \<Longrightarrow> (of_nat n :: size_t) = 0 \<longleftrightarrow> n = 0"
  using unat_word_of_nat [of n, where 'a = 64] by (simp flip: unat_eq_zero)

lemma linked_holdsD:
  assumes "linked_holds l as xs"
  shows "chain l as xs" "list_size l = of_nat (length xs)" "length xs < 2 ^ 64" "unat (list_size l) = length xs"
    "list_size l = 0 \<longleftrightarrow> xs = []"
  using assms unat_word_of_nat [of "length xs", where 'a = 64] size_zero [of "length xs"]
  by (auto simp: linked_holds_def)

end
