(* ===== verification/Parc_Iterator.thy ===== *)
theory Parc_Iterator
  imports Parc_Prelude
begin

text \<open>
  Iterators (\<^verbatim>\<open>parc_Iterator.c\<close>): the functions a container supplies and a state. The container is shared with its
  other users, so every operation takes it as it is at the time of the call. The locale \<open>iteration\<close> is the
  contract of a container's functions.
\<close>

section \<open>Iterators\<close>

record ('o, 's) parc_iterator =
  it_init :: "'o \<Rightarrow> 's"
  it_hasNext :: "'o \<Rightarrow> 's \<Rightarrow> bool result"
  it_next :: "'o \<Rightarrow> 's \<Rightarrow> 's result"
  it_remove :: "('o \<Rightarrow> 's \<Rightarrow> ('o \<times> 's) result) option"
  it_element :: "'o \<Rightarrow> 's \<Rightarrow> ptr result"
  it_fini :: "'o option \<Rightarrow> 's \<Rightarrow> unit result"
  it_assertValid :: "('o \<Rightarrow> 's \<Rightarrow> unit result) option"
  initialized :: bool
  state :: 's

text \<open>The container's reference to itself is given back before \<open>fini\<close> is called, with NULL.\<close>

definition parcIterator_Destroy :: "('o, 's) parc_iterator \<Rightarrow> unit result" where
  "parcIterator_Destroy it = it_fini it None (state it)"

definition parcIteratorState_AssertValid :: "'o \<Rightarrow> ('o, 's) parc_iterator \<Rightarrow> unit result" where
  "parcIteratorState_AssertValid object it =
    (case it_assertValid it of None \<Rightarrow> Inr () | Some f \<Rightarrow> f object (state it))"

definition parcIterator_Init :: "'o \<Rightarrow> ('o, 's) parc_iterator \<Rightarrow> ('o, 's) parc_iterator result" where
  "parcIterator_Init object it =
    (let it1 = it\<lparr>state := it_init it object\<rparr> in
     rbind (case it_assertValid it1 of None \<Rightarrow> Inr () | Some f \<Rightarrow> f object (state it1)) (\<lambda>_.
     Inr (it1\<lparr>initialized := True\<rparr>)))"

text \<open>\<open>None\<close> is NULL: as an argument, a function that is missing, as the result, no memory.\<close>

definition parcIterator_Create ::
  "bool \<Rightarrow> 'o option \<Rightarrow> ('o \<Rightarrow> 's) option \<Rightarrow> ('o \<Rightarrow> 's \<Rightarrow> bool result) option \<Rightarrow> ('o \<Rightarrow> 's \<Rightarrow> 's result) option \<Rightarrow>
   ('o \<Rightarrow> 's \<Rightarrow> ('o \<times> 's) result) option \<Rightarrow> ('o \<Rightarrow> 's \<Rightarrow> ptr result) option \<Rightarrow>
   ('o option \<Rightarrow> 's \<Rightarrow> unit result) option \<Rightarrow> ('o \<Rightarrow> 's \<Rightarrow> unit result) option \<Rightarrow>
   ('o, 's) parc_iterator option result" where
  "parcIterator_Create granted object init hasNext nxt remove elem fini assertValid =
    rbind (assertTrue (object \<noteq> None)) (\<lambda>_.
    rbind (assertTrue (init \<noteq> None)) (\<lambda>_.
    rbind (assertTrue (hasNext \<noteq> None)) (\<lambda>_.
    rbind (assertTrue (nxt \<noteq> None)) (\<lambda>_.
    rbind (assertTrue (elem \<noteq> None)) (\<lambda>_.
    rbind (assertTrue (fini \<noteq> None)) (\<lambda>_.
    if granted then
      rbind (parcIterator_Init (the object)
        \<lparr>it_init = the init, it_hasNext = the hasNext, it_next = the nxt, it_remove = remove, it_element = the elem,
         it_fini = the fini, it_assertValid = assertValid, initialized = False, state = the init (the object)\<rparr>) (\<lambda>it.
      Inr (Some it))
    else Inr None))))))"

definition parcIterator_IsValid :: "('o, 's) parc_iterator option \<Rightarrow> bool" where
  "parcIterator_IsValid it \<longleftrightarrow> it \<noteq> None"

definition parcIterator_AssertValid :: "('o, 's) parc_iterator option \<Rightarrow> unit result" where
  "parcIterator_AssertValid it = assertTrue (parcIterator_IsValid it)"

definition parcIterator_Next :: "'o \<Rightarrow> ('o, 's) parc_iterator option \<Rightarrow> (ptr \<times> ('o, 's) parc_iterator) result" where
  "parcIterator_Next object iterator =
    rbind (parcIterator_AssertValid iterator) (\<lambda>_.
    let it = the iterator in
    rbind (it_next it object (state it)) (\<lambda>s.
    let it1 = it\<lparr>state := s\<rparr> in
    rbind (parcIteratorState_AssertValid object it1) (\<lambda>_.
    rbind (it_element it1 object (state it1)) (\<lambda>e. Inr (e, it1)))))"

definition parcIterator_HasNext :: "'o \<Rightarrow> ('o, 's) parc_iterator option \<Rightarrow> bool result" where
  "parcIterator_HasNext object iterator =
    rbind (parcIterator_AssertValid iterator) (\<lambda>_.
    it_hasNext (the iterator) object (state (the iterator)))"

definition parcIterator_Remove ::
  "'o \<Rightarrow> ('o, 's) parc_iterator option \<Rightarrow> ('o \<times> ('o, 's) parc_iterator) result" where
  "parcIterator_Remove object iterator =
    (case iterator of None \<Rightarrow> Inl BadPointer
     | Some it \<Rightarrow>
         rbind (case it_remove it of None \<Rightarrow> Inr (object, it)
                | Some f \<Rightarrow> rbind (f object (state it)) (\<lambda>(object1, s). Inr (object1, it\<lparr>state := s\<rparr>))) (\<lambda>(object1, it1).
         rbind (parcIteratorState_AssertValid object1 it1) (\<lambda>_. Inr (object1, it1))))"

section \<open>Loops over an iterator\<close>

text \<open>
  The loop \<^verbatim>\<open>while (parcIterator_HasNext(it)) { object = parcIterator_Next(it); f(object); }\<close> of the clients, where \<open>view\<close> is
  the container in the state \<open>r\<close> that \<open>f\<close> changes. \<open>None\<close> is a loop that does not end.
\<close>

partial_function (option) iterate ::
  "('r \<Rightarrow> 'o) \<Rightarrow> (ptr \<Rightarrow> 'r \<Rightarrow> 'r result) \<Rightarrow> ('o, 's) parc_iterator option \<Rightarrow> 'r \<Rightarrow> 'r result option" where
  "iterate view f it r =
    (case parcIterator_HasNext (view r) it of
       Inl e \<Rightarrow> Some (Inl e)
     | Inr hn \<Rightarrow>
         if hn then
           (case parcIterator_Next (view r) it of
              Inl e \<Rightarrow> Some (Inl e)
            | Inr n \<Rightarrow>
                (case f (fst n) r of
                   Inl e \<Rightarrow> Some (Inl e)
                 | Inr r1 \<Rightarrow> iterate view f (Some (snd n)) r1))
         else Some (Inr r))"

fun fold_result :: "('x \<Rightarrow> 'r \<Rightarrow> 'r result) \<Rightarrow> 'x list \<Rightarrow> 'r \<Rightarrow> 'r result" where
  "fold_result f [] r = Inr r"
| "fold_result f (x # xs) r = rbind (f x r) (fold_result f xs)"

lemma fold_result_invariant:
  assumes "\<And>n r. Q n r \<Longrightarrow> n < length xs \<Longrightarrow> \<exists>r1. f (xs ! n) r = Inr r1 \<and> Q (Suc n) r1"
  shows "Q n r \<Longrightarrow> n \<le> length xs \<Longrightarrow> \<exists>r1. fold_result f (drop n xs) r = Inr r1 \<and> Q (length xs) r1"
proof (induction "length xs - n" arbitrary: n r)
  case 0
  then show ?case by simp
next
  case (Suc k)
  then have n: "n < length xs" by simp
  then obtain r1 where "f (xs ! n) r = Inr r1" "Q (Suc n) r1" using assms Suc.prems by blast
  moreover have "drop n xs = xs ! n # drop (Suc n) xs" using n by (rule Cons_nth_drop_Suc [symmetric])
  ultimately show ?case using Suc.hyps(1) [of "Suc n" r1] Suc.hyps(2) n by simp
qed

text \<open>\<open>visited object xs n s\<close>: the container holds \<open>xs\<close> and the state \<open>s\<close> stands behind the first \<open>n\<close>.\<close>

locale iteration =
  fixes init :: "'o \<Rightarrow> 's"
    and hasNext :: "'o \<Rightarrow> 's \<Rightarrow> bool result"
    and nxt :: "'o \<Rightarrow> 's \<Rightarrow> 's result"
    and remove :: "('o \<Rightarrow> 's \<Rightarrow> ('o \<times> 's) result) option"
    and elem :: "'o \<Rightarrow> 's \<Rightarrow> ptr result"
    and fini :: "'o option \<Rightarrow> 's \<Rightarrow> unit result"
    and check :: "('o \<Rightarrow> 's \<Rightarrow> unit result) option"
    and holds :: "'o \<Rightarrow> ptr list \<Rightarrow> bool"
    and visited :: "'o \<Rightarrow> ptr list \<Rightarrow> nat \<Rightarrow> 's \<Rightarrow> bool"
  assumes init_visited: "holds object xs \<Longrightarrow> visited object xs 0 (init object)"
    and visited_check: "visited object xs n s \<Longrightarrow> check = Some c \<Longrightarrow> c object s = Inr ()"
    and hasNext_visited: "visited object xs n s \<Longrightarrow> hasNext object s = Inr (n < length xs)"
    and next_visited: "visited object xs n s \<Longrightarrow> n < length xs \<Longrightarrow>
      \<exists>s1. nxt object s = Inr s1 \<and> visited object xs (Suc n) s1 \<and> elem object s1 = Inr (xs ! n)"
begin

definition iterator_with :: "('o, 's) parc_iterator \<Rightarrow> bool" where
  "iterator_with it \<longleftrightarrow> it_init it = init \<and> it_hasNext it = hasNext \<and> it_next it = nxt \<and> it_remove it = remove \<and>
    it_element it = elem \<and> it_fini it = fini \<and> it_assertValid it = check"

lemma Create_iterates:
  assumes "holds object xs"
  shows "\<exists>it. parcIterator_Create True (Some object) (Some init) (Some hasNext) (Some nxt) remove (Some elem) (Some fini)
      check = Inr (Some it) \<and> iterator_with it \<and> visited object xs 0 (state it)"
  using init_visited [OF assms] visited_check
  by (auto simp: parcIterator_Create_def parcIterator_Init_def iterator_with_def split: option.split)

lemma HasNext_iterates:
  "iterator_with it \<Longrightarrow> visited object xs n (state it) \<Longrightarrow> parcIterator_HasNext object (Some it) = Inr (n < length xs)"
  using hasNext_visited
  by (auto simp: iterator_with_def parcIterator_HasNext_def parcIterator_AssertValid_def parcIterator_IsValid_def)

lemma Next_iterates:
  assumes i: "iterator_with it" and v: "visited object xs n (state it)" and n: "n < length xs"
  shows "\<exists>it1. parcIterator_Next object (Some it) = Inr (xs ! n, it1) \<and> iterator_with it1 \<and>
    visited object xs (Suc n) (state it1)"
proof -
  obtain s1 where s: "nxt object (state it) = Inr s1" "visited object xs (Suc n) s1" "elem object s1 = Inr (xs ! n)"
    using next_visited [OF v n] by blast
  moreover have "parcIteratorState_AssertValid object (it\<lparr>state := s1\<rparr>) = Inr ()"
    using visited_check [OF s(2)] i by (auto simp: parcIteratorState_AssertValid_def iterator_with_def split: option.split)
  ultimately show ?thesis
    using i by (auto simp: iterator_with_def parcIterator_Next_def parcIterator_AssertValid_def parcIterator_IsValid_def)
qed

text \<open>A loop visits the elements once, in order, if what it does keeps the container as it is.\<close>

lemma iterate_fold:
  assumes "\<And>n r r1 s. Q n r \<Longrightarrow> n < length xs \<Longrightarrow> f (xs ! n) r = Inr r1 \<Longrightarrow> visited (view r) xs (Suc n) s \<Longrightarrow>
      Q (Suc n) r1 \<and> visited (view r1) xs (Suc n) s"
    and "iterator_with it" "visited (view r) xs n (state it)" "n \<le> length xs" "Q n r"
  shows "iterate view f (Some it) r = Some (fold_result f (drop n xs) r)"
  using assms(2-)
proof (induction "length xs - n" arbitrary: n it r)
  case 0
  then show ?case using HasNext_iterates [OF 0(2,3)] by (subst iterate.simps) simp
next
  case (Suc k)
  then have n: "n < length xs" by simp
  obtain it1 where it1: "parcIterator_Next (view r) (Some it) = Inr (xs ! n, it1)" "iterator_with it1"
    "visited (view r) xs (Suc n) (state it1)"
    using Next_iterates [OF Suc.prems(1,2) n] by blast
  have d: "drop n xs = xs ! n # drop (Suc n) xs" using n by (rule Cons_nth_drop_Suc [symmetric])
  show ?case
  proof (cases "f (xs ! n) r")
    case (Inl e)
    then show ?thesis using HasNext_iterates [OF Suc.prems(1,2)] it1(1) n d by (subst iterate.simps) simp
  next
    case (Inr r1)
    have "Q (Suc n) r1" "visited (view r1) xs (Suc n) (state it1)"
      using assms(1) [OF Suc.prems(4) n Inr it1(3)] by auto
    then have "iterate view f (Some it1) r1 = Some (fold_result f (drop (Suc n) xs) r1)"
      using Suc.hyps(1) [of "Suc n" it1 r1] Suc.hyps(2) it1(2) n by simp
    then show ?thesis using Inr HasNext_iterates [OF Suc.prems(1,2)] it1(1) n d by (subst iterate.simps) simp
  qed
qed

end

end
