(* ===== verification/Parc_Deque.thy ===== *)
theory Parc_Deque
  imports Parc_Linked Parc_Iterator
begin

text \<open>
  The double-ended queue (\<^verbatim>\<open>parc_Deque.c\<close>), a doubly linked list of pointers with the functions that compare and
  copy them.
\<close>

section \<open>The deque and its operations\<close>

record parc_deque = linked +
  elementEquals :: "ptr \<Rightarrow> ptr \<Rightarrow> bool"
  elementCopy :: "ptr \<Rightarrow> ptr"

definition parcDequeNode_AssertInvariants :: "parc_deque \<Rightarrow> ptr \<Rightarrow> unit result" where
  "parcDequeNode_AssertInvariants d p =
    rbind (assertTrue (p \<noteq> None)) (\<lambda>_.
    rbind (node_at d p) (\<lambda>n.
    rbind (if next_node n \<noteq> None
           then rbind (node_at d (next_node n)) (\<lambda>m. assertTrue (previous m = p)) else Inr ()) (\<lambda>_.
    if previous n \<noteq> None
    then rbind (node_at d (previous n)) (\<lambda>m. assertTrue (next_node m = p)) else Inr ())))"

definition parcDeque_AssertInvariants :: "parc_deque \<Rightarrow> unit result" where
  "parcDeque_AssertInvariants d =
    (if head d \<noteq> None
     then rbind (assertTrue (list_size d \<noteq> 0)) (\<lambda>_.
          rbind (assertTrue (tail d \<noteq> None)) (\<lambda>_.
          rbind (parcDequeNode_AssertInvariants d (head d)) (\<lambda>_.
          parcDequeNode_AssertInvariants d (tail d))))
     else rbind (assertTrue (tail d = None)) (\<lambda>_. assertTrue (list_size d = 0)))"

text \<open>The destructor frees the nodes one after the other; \<open>None\<close> is a walk that does not end.\<close>

partial_function (option) deque_destroy :: "parc_deque \<Rightarrow> ptr \<Rightarrow> parc_deque result option" where
  "deque_destroy d p =
    (if p = None then Some (Inr d)
     else case node_at d p of
       Inl e \<Rightarrow> Some (Inl e)
     | Inr n \<Rightarrow> deque_destroy (free_node d p) (next_node n))"

definition parcDeque_Destroy :: "parc_deque \<Rightarrow> parc_deque result option" where
  "parcDeque_Destroy d = deque_destroy d (head d)"

definition parcDequeNode_Init :: "parc_deque \<Rightarrow> ptr" where
  "parcDequeNode_Init d = None"

definition parcDequeNode_Fini :: "parc_deque option \<Rightarrow> ptr \<Rightarrow> unit result" where
  "parcDequeNode_Fini d p = Inr ()"

definition parcDequeNode_Next :: "parc_deque \<Rightarrow> ptr \<Rightarrow> ptr result" where
  "parcDequeNode_Next d p =
    (if p = None then Inr (head d)
     else rbind (node_at d p) (\<lambda>n.
          rbind (trapIf OutOfBounds (next_node n = None)) (\<lambda>_. Inr (next_node n))))"

definition parcDequeNode_HasNext :: "parc_deque \<Rightarrow> ptr \<Rightarrow> bool result" where
  "parcDequeNode_HasNext d p =
    (if p = None then Inr (head d \<noteq> None) else rbind (node_at d p) (\<lambda>n. Inr (next_node n \<noteq> None)))"

definition parcDequeNode_Element :: "parc_deque \<Rightarrow> ptr \<Rightarrow> ptr result" where
  "parcDequeNode_Element d p = rbind (node_at d p) (\<lambda>n. Inr (element n))"

text \<open>The result \<open>None\<close> is NULL, without memory for the object.\<close>

definition deque_create :: "bool \<Rightarrow> (ptr \<Rightarrow> ptr \<Rightarrow> bool) \<Rightarrow> (ptr \<Rightarrow> ptr) \<Rightarrow> parc_deque option" where
  "deque_create granted eq copy =
    (if granted
     then Some \<lparr>head = None, tail = None, list_size = 0, nodes = Map.empty, fresh = 0,
                elementEquals = eq, elementCopy = copy\<rparr>
     else None)"

definition parcDeque_Iterator :: "bool \<Rightarrow> parc_deque option \<Rightarrow> (parc_deque, ptr) parc_iterator option result" where
  "parcDeque_Iterator granted deque =
    parcIterator_Create granted deque (Some parcDequeNode_Init) (Some parcDequeNode_HasNext) (Some parcDequeNode_Next)
      None (Some parcDequeNode_Element) (Some parcDequeNode_Fini) None"

definition parcDeque_Create :: "bool \<Rightarrow> parc_deque option" where
  "parcDeque_Create granted = deque_create granted (=) (\<lambda>x. x)"

definition parcDeque_CreateCustom ::
  "bool \<Rightarrow> (ptr \<Rightarrow> ptr \<Rightarrow> bool) option \<Rightarrow> (ptr \<Rightarrow> ptr) option \<Rightarrow> parc_deque option" where
  "parcDeque_CreateCustom granted eq copy =
    deque_create granted (case eq of None \<Rightarrow> (=) | Some f \<Rightarrow> f) (case copy of None \<Rightarrow> (\<lambda>x. x) | Some f \<Rightarrow> f)"

definition parcDeque_Append :: "bool \<Rightarrow> parc_deque \<Rightarrow> ptr \<Rightarrow> parc_deque result" where
  "parcDeque_Append granted d e =
    (let (node, d1) = create_node granted d e (tail d) None in
     rbind (if tail d1 = None then Inr (d1\<lparr>tail := node\<rparr>)
            else rbind (set_next d1 (tail d1) node) (\<lambda>d2. Inr (d2\<lparr>tail := node\<rparr>))) (\<lambda>d2.
     let d3 = (if head d2 = None then d2\<lparr>head := tail d2\<rparr> else d2) in
     Inr (d3\<lparr>list_size := list_size d3 + 1\<rparr>)))"

definition parcDeque_Prepend :: "bool \<Rightarrow> parc_deque \<Rightarrow> ptr \<Rightarrow> parc_deque result" where
  "parcDeque_Prepend granted d e =
    (let (node, d1) = create_node granted d e None (head d) in
     rbind (if head d1 = None then Inr (d1\<lparr>head := node\<rparr>)
            else rbind (set_previous d1 (head d1) node) (\<lambda>d2. Inr (d2\<lparr>head := node\<rparr>))) (\<lambda>d2.
     let d3 = (if tail d2 = None then d2\<lparr>tail := head d2\<rparr> else d2);
         d4 = d3\<lparr>list_size := list_size d3 + 1\<rparr> in
     rbind (parcDequeNode_AssertInvariants d4 node) (\<lambda>_.
     rbind (parcDeque_AssertInvariants d4) (\<lambda>_. Inr d4))))"

definition parcDeque_RemoveFirst :: "parc_deque \<Rightarrow> (ptr \<times> parc_deque) result" where
  "parcDeque_RemoveFirst d =
    rbind (if head d \<noteq> None
           then rbind (node_at d (head d)) (\<lambda>n.
             rbind (if head d = tail d then Inr (d\<lparr>head := None, tail := None\<rparr>)
                    else set_previous (d\<lparr>head := next_node n\<rparr>) (next_node n) None) (\<lambda>d1.
             let d2 = free_node d1 (head d) in
             Inr (element n, d2\<lparr>list_size := list_size d2 - 1\<rparr>)))
           else Inr (None, d)) (\<lambda>(r, d3).
    rbind (parcDeque_AssertInvariants d3) (\<lambda>_. Inr (r, d3)))"

definition parcDeque_RemoveLast :: "parc_deque \<Rightarrow> (ptr \<times> parc_deque) result" where
  "parcDeque_RemoveLast d =
    rbind (if tail d \<noteq> None
           then rbind (node_at d (tail d)) (\<lambda>n.
             rbind (set_next (d\<lparr>tail := previous n\<rparr>) (previous n) None) (\<lambda>d1.
             let d2 = free_node d1 (tail d) in
             Inr (element n, d2\<lparr>list_size := list_size d2 - 1\<rparr>)))
           else Inr (None, d)) (\<lambda>(r, d3).
    rbind (parcDeque_AssertInvariants d3) (\<lambda>_. Inr (r, d3)))"

definition parcDeque_PeekFirst :: "parc_deque \<Rightarrow> ptr result" where
  "parcDeque_PeekFirst d =
    (if head d \<noteq> None then rbind (node_at d (head d)) (\<lambda>n. Inr (element n)) else Inr None)"

definition parcDeque_PeekLast :: "parc_deque \<Rightarrow> ptr result" where
  "parcDeque_PeekLast d =
    (if tail d \<noteq> None then rbind (node_at d (tail d)) (\<lambda>n. Inr (element n)) else Inr None)"

definition parcDeque_Size :: "parc_deque \<Rightarrow> size_t" where
  "parcDeque_Size d = list_size d"

definition parcDeque_IsEmpty :: "parc_deque \<Rightarrow> bool" where
  "parcDeque_IsEmpty d \<longleftrightarrow> parcDeque_Size d = 0"

fun walk_loop :: "parc_deque \<Rightarrow> nat \<Rightarrow> ptr \<Rightarrow> ptr result" where
  "walk_loop d 0 p = rbind (node_at d p) (\<lambda>n. Inr (element n))"
| "walk_loop d (Suc i) p = rbind (node_at d p) (\<lambda>n. walk_loop d i (next_node n))"

definition parcDeque_GetAtIndex :: "parc_deque \<Rightarrow> size_t \<Rightarrow> ptr result" where
  "parcDeque_GetAtIndex d index =
    rbind (trapIf OutOfBounds (index > parcDeque_Size d - 1)) (\<lambda>_. walk_loop d (unat index) (head d))"

text \<open>The walk of \<open>Copy\<close>; every node has memory or none has.\<close>

partial_function (option) copy_loop :: "bool \<Rightarrow> parc_deque \<Rightarrow> ptr \<Rightarrow> parc_deque \<Rightarrow> parc_deque result option" where
  "copy_loop granted d p new =
    (if p \<noteq> None
     then case node_at d p of
       Inl e \<Rightarrow> Some (Inl e)
     | Inr n \<Rightarrow>
         (case parcDeque_Append granted new (elementCopy d (element n)) of
            Inl e \<Rightarrow> Some (Inl e)
          | Inr new1 \<Rightarrow> copy_loop granted d (next_node n) new1)
     else Some (Inr new))"

definition parcDeque_Copy :: "bool \<Rightarrow> bool \<Rightarrow> parc_deque \<Rightarrow> parc_deque option result option" where
  "parcDeque_Copy granted nodes_granted d =
    (case deque_create granted (elementEquals d) (elementCopy d) of
       None \<Rightarrow> if head d \<noteq> None then Some (Inl BadPointer) else Some (Inr None)
     | Some new \<Rightarrow> map_option (\<lambda>r. rbind r (\<lambda>new1. Inr (Some new1))) (copy_loop nodes_granted d (head d) new))"

partial_function (option) equals_nodes :: "parc_deque \<Rightarrow> parc_deque \<Rightarrow> ptr \<Rightarrow> ptr \<Rightarrow> bool result option" where
  "equals_nodes x y p q =
    (if p \<noteq> None
     then case node_at x p of
       Inl e \<Rightarrow> Some (Inl e)
     | Inr n \<Rightarrow>
         (case node_at y q of
            Inl e \<Rightarrow> Some (Inl e)
          | Inr m \<Rightarrow> if \<not> elementEquals x (element n) (element m) then Some (Inr False)
                     else equals_nodes x y (next_node n) (next_node m))
     else Some (Inr True))"

text \<open>\<open>same\<close>: both are the same pointer; \<open>same_functions\<close>: they have the same function to compare elements.\<close>

definition parcDeque_Equals :: "bool \<Rightarrow> bool \<Rightarrow> parc_deque option \<Rightarrow> parc_deque option \<Rightarrow> bool result option" where
  "parcDeque_Equals same same_functions x y =
    (if same then Some (Inr True)
     else case (x, y) of
       (Some a, Some b) \<Rightarrow>
         if same_functions then
           if list_size a = list_size b then equals_nodes a b (head a) (head b) else Some (Inr False)
         else Some (Inr False)
     | _ \<Rightarrow> Some (Inr False))"

section \<open>The elements of a deque\<close>

lemma NodeInvariants_ok:
  assumes c: "chain d as xs" and i: "i < length xs"
  shows "parcDequeNode_AssertInvariants d (Some (as ! i)) = Inr ()"
proof -
  have l: "length as = length xs" using c by (rule chain_length)
  have p: "first (drop j as) None = (if j < length xs then Some (as ! j) else None)" for j
    using l by (simp add: Cons_nth_drop_Suc [symmetric])
  have q: "final None (take j as) = (if j = 0 then None else Some (as ! (j - 1)))" if "j \<le> length xs" for j
    using that l by (cases as) (auto simp: final_def last_conv_nth)
  have n: "node_at d (Some (as ! j)) = Inr \<lparr>element = xs ! j, previous = final None (take j as),
      next_node = first (drop (Suc j) as) None\<rparr>" if "j < length xs" for j
    using node_at_index [OF c that] that p [of j] by simp
  show ?thesis
    using i n p q by (cases i) (auto simp: parcDequeNode_AssertInvariants_def)
qed

lemma AssertInvariants_ok:
  assumes "linked_holds d as xs"
  shows "parcDeque_AssertInvariants d = Inr ()"
proof -
  have c: "chain d as xs" and s: "list_size d = of_nat (length xs)" "length xs < 2 ^ 64"
    using assms by (simp_all add: linked_holds_def)
  note l = chain_length [OF c]
  show ?thesis
  proof (cases "xs = []")
    case True
    then show ?thesis using chain_nonempty [OF c] s by (simp add: parcDeque_AssertInvariants_def)
  next
    case False
    then have "head d = Some (as ! 0)" "tail d = Some (as ! (length xs - 1))"
      using c l by (auto simp: chain_def first_def final_def last_conv_nth split: list.split)
    moreover have "0 < length xs" using False by simp
    ultimately show ?thesis
      using False s NodeInvariants_ok [OF c, of 0] NodeInvariants_ok [OF c, of "length xs - 1"]
      by (simp add: parcDeque_AssertInvariants_def size_zero)
  qed
qed

lemma Append_holds:
  assumes h: "linked_holds d as xs" and r: "Suc (length xs) < 2 ^ 64"
  shows "\<exists>d1. parcDeque_Append True d e = Inr d1 \<and> linked_holds d1 (as @ [fresh d]) (xs @ [e]) \<and>
    elementEquals d1 = elementEquals d \<and> elementCopy d1 = elementCopy d"
proof -
  have c: "chain d as xs" and s: "list_size d = of_nat (length xs)" using h by (simp_all add: linked_holds_def)
  let ?n = "\<lparr>element = e, previous = final None as, next_node = None\<rparr>"
  let ?d1 = "d\<lparr>nodes := link_next ((nodes d)(fresh d \<mapsto> ?n)) (final None as) (Some (fresh d)),
    fresh := Suc (fresh d), tail := Some (fresh d), head := first (as @ [fresh d]) None, list_size := list_size d + 1\<rparr>"
  have "parcDeque_Append True d e = Inr ?d1"
  proof (cases as rule: rev_cases)
    case Nil
    then show ?thesis
      using c by (simp add: parcDeque_Append_def create_node_def chain_def link_next_def)
  next
    case (snoc bs b)
    then have "b \<in> dom (nodes d)" "tail d = Some b" "head d = first as None" "head d \<noteq> None"
      using c by (auto simp: chain_def)
    moreover from this have "fresh d \<noteq> b" using c snoc by (auto simp: chain_def)
    ultimately show ?thesis
      using snoc by (auto simp: parcDeque_Append_def create_node_def set_next_eq)
  qed
  moreover have "chain ?d1 (as @ [fresh d]) (xs @ [e])"
    using chain_link [of d as "[]" xs "[]" ?d1 e] c chain_length [OF c] by (simp add: link_previous_def)
  ultimately show ?thesis using s r by (simp add: linked_holds_def add.commute)
qed

lemma Prepend_holds:
  assumes h: "linked_holds d as xs" and r: "Suc (length xs) < 2 ^ 64"
  shows "\<exists>d1. parcDeque_Prepend True d e = Inr d1 \<and> linked_holds d1 (fresh d # as) (e # xs)"
proof -
  have c: "chain d as xs" and s: "list_size d = of_nat (length xs)" using h by (simp_all add: linked_holds_def)
  let ?n = "\<lparr>element = e, previous = None, next_node = first as None\<rparr>"
  let ?m = "link_previous ((nodes d)(fresh d \<mapsto> ?n)) (first as None) (Some (fresh d))"
  have "\<exists>d1. parcDeque_Prepend True d e = rbind (parcDequeNode_AssertInvariants d1 (Some (fresh d))) (\<lambda>_.
        rbind (parcDeque_AssertInvariants d1) (\<lambda>_. Inr d1)) \<and>
      nodes d1 = ?m \<and> fresh d1 = Suc (fresh d) \<and> head d1 = Some (fresh d) \<and> tail d1 = final None (fresh d # as) \<and>
      list_size d1 = list_size d + 1"
  proof (cases as)
    case Nil
    then show ?thesis
      using c by (simp add: parcDeque_Prepend_def create_node_def chain_def link_previous_def Let_def)
        (rule exI, rule conjI, rule refl, simp)
  next
    case (Cons b bs)
    then have "b \<in> dom (nodes d)" "head d = Some b" "tail d = final None (fresh d # as)" "tail d \<noteq> None"
      using c by (auto simp: chain_def)
    moreover from this have "fresh d \<noteq> b" using c Cons by (auto simp: chain_def)
    ultimately show ?thesis
      using Cons by (auto simp: parcDeque_Prepend_def create_node_def set_previous_eq Let_def)
  qed
  then obtain d1 where d1: "parcDeque_Prepend True d e = rbind (parcDequeNode_AssertInvariants d1 (Some (fresh d))) (\<lambda>_.
      rbind (parcDeque_AssertInvariants d1) (\<lambda>_. Inr d1))" "nodes d1 = ?m" "fresh d1 = Suc (fresh d)"
      "head d1 = Some (fresh d)" "tail d1 = final None (fresh d # as)" "list_size d1 = list_size d + 1"
    by blast
  have c1: "chain d1 (fresh d # as) (e # xs)"
    using chain_link [of d "[]" as "[]" xs d1 e] c d1 by (simp add: link_next_def)
  then have h1: "linked_holds d1 (fresh d # as) (e # xs)" using s r d1(6) by (simp add: linked_holds_def add.commute)
  then show ?thesis
    using d1(1) AssertInvariants_ok [OF h1] NodeInvariants_ok [OF c1, of 0] by simp
qed

lemma RemoveFirst_holds:
  assumes h: "linked_holds d (a # as) (x # xs)"
  shows "\<exists>d1. parcDeque_RemoveFirst d = Inr (x, d1) \<and> linked_holds d1 as xs"
proof -
  have c: "chain d (a # as) (x # xs)" and s: "list_size d = of_nat (length (x # xs))" "length (x # xs) < 2 ^ 64"
    using h by (simp_all add: linked_holds_def)
  have hd: "head d = Some a" using c by (simp add: chain_def)
  have "\<exists>d1. parcDeque_RemoveFirst d = rbind (parcDeque_AssertInvariants d1) (\<lambda>_. Inr (x, d1)) \<and>
      nodes d1 = (link_previous (nodes d) (first as None) None)(a := None) \<and> fresh d1 = fresh d \<and>
      head d1 = first as None \<and> tail d1 = final None as \<and> list_size d1 = list_size d - 1"
  proof (cases as)
    case Nil
    then have "tail d = Some a" using c by (simp add: chain_def)
    then show ?thesis
      using Nil hd node_at_head [OF c]
      by (simp add: parcDeque_RemoveFirst_def link_previous_def free_node_def Let_def)
        (rule exI, rule conjI, rule refl, simp)
  next
    case (Cons b bs)
    then have "b \<in> dom (nodes d)" "tail d = final None as" "a \<noteq> b" using c by (auto simp: chain_def)
    moreover from this have "head d \<noteq> tail d" using hd Cons c by (auto simp: chain_def final_def split: if_splits)
    ultimately show ?thesis
      using Cons hd node_at_head [OF c]
      by (simp add: parcDeque_RemoveFirst_def set_previous_eq free_node_def Let_def)
        (rule exI, rule conjI, rule refl, simp)
  qed
  then obtain d1 where d1: "parcDeque_RemoveFirst d = rbind (parcDeque_AssertInvariants d1) (\<lambda>_. Inr (x, d1))"
      "nodes d1 = (link_previous (nodes d) (first as None) None)(a := None)" "fresh d1 = fresh d"
      "head d1 = first as None" "tail d1 = final None as" "list_size d1 = list_size d - 1"
    by blast
  have "chain d1 as xs"
    using chain_unlink [of d "[]" a as "[]" x xs d1] c d1 by (simp add: link_next_def)
  then have h1: "linked_holds d1 as xs" using s d1(6) by (simp add: linked_holds_def)
  then show ?thesis using d1(1) AssertInvariants_ok [OF h1] by simp
qed

lemma RemoveLast_holds:
  assumes h: "linked_holds d (as @ [a]) (xs @ [x])"
  shows "if xs = [] then parcDeque_RemoveLast d = Inl BadPointer
    else \<exists>d1. parcDeque_RemoveLast d = Inr (x, d1) \<and> linked_holds d1 as xs"
proof -
  have c: "chain d (as @ [a]) (xs @ [x])" and s: "list_size d = of_nat (Suc (length xs))" "Suc (length xs) < 2 ^ 64"
    using h by (simp_all add: linked_holds_def)
  have l: "length as = length xs" using chain_length [OF c] by simp
  have tl: "tail d = Some a" using c by (simp add: chain_def)
  show ?thesis
  proof (cases as rule: rev_cases)
    case Nil
    then show ?thesis using l tl node_at_tail [OF c] by (simp add: parcDeque_RemoveLast_def change_node_def node_at_def)
  next
    case (snoc bs b)
    let ?d1 = "d\<lparr>tail := Some b, nodes := (link_next (nodes d) (Some b) None)(a := None), list_size := list_size d - 1\<rparr>"
    have b: "b \<in> dom (nodes d)" "a \<noteq> b" using c snoc by (auto simp: chain_def)
    have "parcDeque_RemoveLast d = rbind (parcDeque_AssertInvariants ?d1) (\<lambda>_. Inr (x, ?d1))"
      using snoc tl node_at_tail [OF c] b by (simp add: parcDeque_RemoveLast_def set_next_eq free_node_def Let_def)
    moreover have "chain ?d1 as xs"
    proof -
      have "head d = first as None" using c snoc by (simp add: chain_def)
      then show ?thesis
        using chain_unlink [of d as a "[]" xs x "[]" ?d1] c l snoc by (simp add: link_previous_def)
    qed
    then have h1: "linked_holds ?d1 as xs" using s by (simp add: linked_holds_def)
    ultimately show ?thesis using AssertInvariants_ok [OF h1] l snoc by auto
  qed
qed

lemma walk_loop_holds:
  assumes c: "chain d as xs"
  shows "j + i < length xs \<Longrightarrow> walk_loop d i (first (drop j as) None) = Inr (xs ! (j + i))"
proof (induction i arbitrary: j)
  case 0
  then show ?case using node_at_index [OF c, of j] by simp
next
  case (Suc i)
  then show ?case using node_at_index [OF c, of j] Suc.IH [of "Suc j"] by simp
qed

lemma GetAtIndex_holds:
  assumes h: "linked_holds d as xs"
  shows "parcDeque_GetAtIndex d i =
    (if xs = [] then Inl BadPointer else if unat i < length xs then Inr (xs ! unat i) else Inl OutOfBounds)"
proof -
  have c: "chain d as xs" and s: "list_size d = of_nat (length xs)" "length xs < 2 ^ 64"
    using h by (simp_all add: linked_holds_def)
  have u: "unat (list_size d) = length xs" using s unat_word_of_nat [of "length xs", where 'a = 64] by simp
  show ?thesis
  proof (cases "xs = []")
    case True
    then have "head d = None" using chain_nonempty [OF c] by simp
    moreover have "walk_loop d n None = Inl BadPointer" for n by (cases n) (simp_all add: node_at_def)
    ultimately show ?thesis using True s word_n1_ge [of i]
      by (simp add: parcDeque_GetAtIndex_def parcDeque_Size_def not_less [symmetric])
  next
    case False
    then have "list_size d \<noteq> 0" using s size_zero by simp
    then have "unat (list_size d - 1) = length xs - 1" using u by (simp add: unat_minus_one)
    then show ?thesis
      using False c walk_loop_holds [OF c, of 0 "unat i"]
      by (cases xs) (auto simp: parcDeque_GetAtIndex_def parcDeque_Size_def chain_def word_less_nat_alt)
  qed
qed

section \<open>Copies, comparison, destruction and iteration\<close>

lemma copy_loop_holds:
  assumes c: "chain d as xs"
  shows "linked_holds new bs ys \<Longrightarrow> length ys + length xs - i < 2 ^ 64 \<Longrightarrow> i \<le> length xs \<Longrightarrow>
    \<exists>new1 bs1. copy_loop True d (first (drop i as) None) new = Some (Inr new1) \<and>
      linked_holds new1 bs1 (ys @ map (elementCopy d) (drop i xs)) \<and>
      elementEquals new1 = elementEquals new \<and> elementCopy new1 = elementCopy new"
proof (induction "length xs - i" arbitrary: i new bs ys)
  case 0
  then have "drop i as = []" using chain_length [OF c] by simp
  then show ?case using 0 by (subst copy_loop.simps) auto
next
  case (Suc k)
  then have i: "i < length xs" by simp
  have d: "drop i xs = xs ! i # drop (Suc i) xs" using i by (rule Cons_nth_drop_Suc [symmetric])
  have p: "first (drop i as) None \<noteq> None" using i chain_length [OF c] by simp
  have "Suc (length ys) < 2 ^ 64" using Suc.prems(2) i by simp
  then obtain new1 where n: "parcDeque_Append True new (elementCopy d (xs ! i)) = Inr new1"
    "linked_holds new1 (bs @ [fresh new]) (ys @ [elementCopy d (xs ! i)])"
    "elementEquals new1 = elementEquals new" "elementCopy new1 = elementCopy new"
    using Append_holds [OF Suc.prems(1)] by blast
  moreover have "k = length xs - Suc i" "length (ys @ [elementCopy d (xs ! i)]) + length xs - Suc i < 2 ^ 64"
    using Suc.hyps(2) Suc.prems(2) by simp_all
  ultimately show ?case
    using Suc.hyps(1) [OF _ n(2)] i d p node_at_index [OF c i] by (subst copy_loop.simps) simp
qed

lemma equals_nodes_holds:
  assumes x: "chain a as xs" and y: "chain b bs ys" and l: "length xs = length ys"
  shows "i \<le> length xs \<Longrightarrow>
    equals_nodes a b (first (drop i as) None) (first (drop i bs) None) =
      Some (Inr (list_all2 (elementEquals a) (drop i xs) (drop i ys)))"
proof (induction "length xs - i" arbitrary: i)
  case 0
  then have "drop i as = []" using chain_length [OF x] by simp
  then show ?case using 0 l by (subst equals_nodes.simps) simp
next
  case (Suc k)
  then have i: "i < length xs" "i < length ys" using l by simp_all
  have d: "drop i xs = xs ! i # drop (Suc i) xs" "drop i ys = ys ! i # drop (Suc i) ys"
    using i by (simp_all add: Cons_nth_drop_Suc)
  have p: "first (drop i as) None \<noteq> None" using i chain_length [OF x] by simp
  show ?case
    using Suc.hyps(1) [of "Suc i"] Suc.hyps(2) i d p node_at_index [OF x i(1)] node_at_index [OF y i(2)]
    by (subst equals_nodes.simps) auto
qed

lemma deque_destroy_holds:
  assumes c: "chain d as xs"
  shows "nodes e = nodes d |` set (drop i as) \<Longrightarrow> i \<le> length xs \<Longrightarrow>
    \<exists>e1. deque_destroy e (first (drop i as) None) = Some (Inr e1) \<and> nodes e1 = Map.empty"
proof (induction "length xs - i" arbitrary: i e)
  case 0
  then have "drop i as = []" using chain_length [OF c] by simp
  then show ?case using 0 by (subst deque_destroy.simps) simp
next
  case (Suc k)
  then have i: "i < length xs" by simp
  have d: "drop i as = as ! i # drop (Suc i) as" using i chain_length [OF c] by (simp add: Cons_nth_drop_Suc)
  have "distinct (drop i as)" using c by (simp add: chain_def)
  then have r: "(nodes d |` set (drop i as))(as ! i := None) = nodes d |` set (drop (Suc i) as)"
    by (auto simp: d restrict_map_def)
  have "node_at e (Some (as ! i)) = node_at d (Some (as ! i))"
    using Suc.prems(1) d by (simp add: node_at_def)
  then have "node_at e (Some (as ! i)) = Inr \<lparr>element = xs ! i, previous = final None (take i as),
      next_node = first (drop (Suc i) as) None\<rparr>"
    using node_at_index [OF c i] d by simp
  then show ?case
    using Suc.hyps(1) [of "Suc i" "free_node e (Some (as ! i))"] Suc.hyps(2) Suc.prems i r d
    by (subst deque_destroy.simps) (simp add: free_node_def)
qed

definition deque_visited :: "parc_deque \<Rightarrow> ptr list \<Rightarrow> nat \<Rightarrow> ptr \<Rightarrow> bool" where
  "deque_visited d xs n s \<longleftrightarrow> (\<exists>as. chain d as xs \<and> n \<le> length xs \<and> s = final None (take n as))"

interpretation deque_iteration: iteration parcDequeNode_Init parcDequeNode_HasNext parcDequeNode_Next None
  parcDequeNode_Element parcDequeNode_Fini None "\<lambda>d xs. \<exists>as. chain d as xs" deque_visited
proof unfold_locales
  fix d xs n s
  show "\<exists>as. chain d as xs \<Longrightarrow> deque_visited d xs 0 (parcDequeNode_Init d)"
    by (simp add: deque_visited_def parcDequeNode_Init_def)
  assume v: "deque_visited d xs n s"
  then obtain as where c: "chain d as xs" "n \<le> length xs" "s = final None (take n as)"
    by (auto simp: deque_visited_def)
  note l = chain_length [OF c(1)]
  note cur = chain_cursor [OF c(1,2)]
  show "parcDequeNode_HasNext d s = Inr (n < length xs)"
  proof (cases n)
    case 0
    then show ?thesis using c(3) chain_nonempty [OF c(1)] by (simp add: parcDequeNode_HasNext_def)
  next
    case (Suc m)
    then have "s \<noteq> None" using c(3) cur(1) by simp
    then show ?thesis using c(2,3) cur(2) cur(4) [OF Suc] Suc
      by (simp add: parcDequeNode_HasNext_def nat_less_le del: not_None_eq)
  qed
  assume n: "n < length xs"
  have e: "parcDequeNode_Element d (final None (take (Suc n) as)) = Inr (xs ! n)"
    "deque_visited d xs (Suc n) (final None (take (Suc n) as))"
    using node_at_visited [OF c(1) n] c n by (auto simp: parcDequeNode_Element_def deque_visited_def)
  moreover have "parcDequeNode_Next d s = Inr (final None (take (Suc n) as))"
  proof (cases n)
    case 0
    then show ?thesis using c(1,3) cur(3) [OF n] by (simp add: parcDequeNode_Next_def chain_def)
  next
    case (Suc m)
    then have "s \<noteq> None" using c(3) cur(1) by simp
    then show ?thesis
      using c(3) n cur(2) cur(3) [OF n] cur(4) [OF Suc] Suc by (simp add: parcDequeNode_Next_def del: not_None_eq)
  qed
  ultimately show "\<exists>s1. parcDequeNode_Next d s = Inr s1 \<and> deque_visited d xs (Suc n) s1 \<and>
      parcDequeNode_Element d s1 = Inr (xs ! n)"
    by blast
qed simp_all

section \<open>A deque is a list\<close>

datatype deque_call =
    DequeAppend ptr | DequePrepend ptr | DequeRemoveFirst | DequeRemoveLast | DequePeekFirst | DequePeekLast
  | DequeGetAtIndex size_t | DequeSize | DequeIsEmpty

fun deque_step :: "parc_deque \<Rightarrow> deque_call \<Rightarrow> (call_value \<times> parc_deque) result" where
  "deque_step d (DequeAppend p) = rbind (parcDeque_Append True d p) (\<lambda>d1. Inr (Nothing, d1))"
| "deque_step d (DequePrepend p) = rbind (parcDeque_Prepend True d p) (\<lambda>d1. Inr (Nothing, d1))"
| "deque_step d DequeRemoveFirst = rbind (parcDeque_RemoveFirst d) (\<lambda>(p, d1). Inr (Pointer p, d1))"
| "deque_step d DequeRemoveLast = rbind (parcDeque_RemoveLast d) (\<lambda>(p, d1). Inr (Pointer p, d1))"
| "deque_step d DequePeekFirst = rbind (parcDeque_PeekFirst d) (\<lambda>p. Inr (Pointer p, d))"
| "deque_step d DequePeekLast = rbind (parcDeque_PeekLast d) (\<lambda>p. Inr (Pointer p, d))"
| "deque_step d (DequeGetAtIndex i) = rbind (parcDeque_GetAtIndex d i) (\<lambda>p. Inr (Pointer p, d))"
| "deque_step d DequeSize = Inr (Number (parcDeque_Size d), d)"
| "deque_step d DequeIsEmpty = Inr (Truth (parcDeque_IsEmpty d), d)"

text \<open>
  The calls on a list. Two of them are not what one expects of a deque: the last element cannot be removed from
  the back, and reading an index of an empty deque is a bad access and not a trap.
\<close>

fun deque_spec :: "ptr list \<Rightarrow> deque_call \<Rightarrow> (call_value \<times> ptr list) result" where
  "deque_spec xs (DequeAppend p) = Inr (Nothing, xs @ [p])"
| "deque_spec xs (DequePrepend p) = Inr (Nothing, p # xs)"
| "deque_spec xs DequeRemoveFirst = (case xs of [] \<Rightarrow> Inr (Pointer None, []) | x # ys \<Rightarrow> Inr (Pointer x, ys))"
| "deque_spec xs DequeRemoveLast =
    (if xs = [] then Inr (Pointer None, []) else if length xs = 1 then Inl BadPointer
     else Inr (Pointer (last xs), butlast xs))"
| "deque_spec xs DequePeekFirst = Inr (Pointer (if xs = [] then None else hd xs), xs)"
| "deque_spec xs DequePeekLast = Inr (Pointer (if xs = [] then None else last xs), xs)"
| "deque_spec xs (DequeGetAtIndex i) =
    (if xs = [] then Inl BadPointer else if unat i < length xs then Inr (Pointer (xs ! unat i), xs) else Inl OutOfBounds)"
| "deque_spec xs DequeSize = Inr (Number (of_nat (length xs)), xs)"
| "deque_spec xs DequeIsEmpty = Inr (Truth (xs = []), xs)"

definition deque_represents :: "nat \<Rightarrow> parc_deque \<Rightarrow> ptr list \<Rightarrow> bool" where
  "deque_represents n d xs \<longleftrightarrow> (\<exists>as. linked_holds d as xs) \<and> length xs + n < 2 ^ 64"

lemma Peek_holds:
  assumes "chain d as xs"
  shows "parcDeque_PeekFirst d = Inr (if xs = [] then None else hd xs)"
    "parcDeque_PeekLast d = Inr (if xs = [] then None else last xs)"
proof -
  show "parcDeque_PeekFirst d = Inr (if xs = [] then None else hd xs)"
    using assms by (cases rule: chain_cases) (use assms in \<open>auto simp: parcDeque_PeekFirst_def node_at_head\<close>)
  show "parcDeque_PeekLast d = Inr (if xs = [] then None else last xs)"
    using assms by (cases rule: chain_rev_cases) (use assms in \<open>auto simp: parcDeque_PeekLast_def node_at_tail\<close>)
qed

lemma deque_step_agrees:
  assumes r: "deque_represents (Suc n) d xs"
  shows "agree (deque_represents n) (deque_step d c) (deque_spec xs c)"
proof -
  obtain as where h: "linked_holds d as xs" and len: "Suc (length xs + n) < 2 ^ 64"
    using r by (auto simp: deque_represents_def)
  have ch: "chain d as xs" and s: "list_size d = of_nat (length xs)" "length xs < 2 ^ 64"
    using h by (simp_all add: linked_holds_def)
  show ?thesis
  proof (cases c)
    case (DequeAppend p)
    then show ?thesis using Append_holds [OF h, of p] len by (auto simp: deque_represents_def)
  next
    case (DequePrepend p)
    then show ?thesis using Prepend_holds [OF h, of p] len by (auto simp: deque_represents_def)
  next
    case DequeRemoveFirst
    from ch show ?thesis
    proof (cases rule: chain_cases)
      case Nil
      then show ?thesis
        using DequeRemoveFirst AssertInvariants_ok [OF h] h len
        by (auto simp: parcDeque_RemoveFirst_def deque_represents_def)
    next
      case (Cons b bs y ys)
      then show ?thesis
        using DequeRemoveFirst RemoveFirst_holds [of d b bs y ys] h len by (auto simp: deque_represents_def)
    qed
  next
    case DequeRemoveLast
    from ch show ?thesis
    proof (cases rule: chain_rev_cases)
      case Nil
      then show ?thesis
        using DequeRemoveLast AssertInvariants_ok [OF h] h len
        by (auto simp: parcDeque_RemoveLast_def deque_represents_def)
    next
      case (snoc b bs y ys)
      then show ?thesis
        using DequeRemoveLast RemoveLast_holds [of d bs b ys y] h len
        by (auto simp: deque_represents_def split: if_splits)
    qed
  next
    case DequePeekFirst
    then show ?thesis using Peek_holds(1) [OF ch] h len by (auto simp: deque_represents_def)
  next
    case DequePeekLast
    then show ?thesis using Peek_holds(2) [OF ch] h len by (auto simp: deque_represents_def)
  next
    case (DequeGetAtIndex i)
    then show ?thesis using GetAtIndex_holds [OF h, of i] h len by (auto simp: deque_represents_def)
  next
    case DequeSize
    then show ?thesis using s h len by (auto simp: parcDeque_Size_def deque_represents_def)
  next
    case DequeIsEmpty
    then show ?thesis
      using s h len size_zero [of "length xs"] by (auto simp: parcDeque_IsEmpty_def parcDeque_Size_def deque_represents_def)
  qed
qed

interpretation deque: simulation deque_step deque_spec deque_represents
  by unfold_locales (rule deque_step_agrees)

text \<open>
  C30: A sequence of calls on a new deque (append, prepend, remove and look at both ends, get, size) returns what the calls return on
  a list, no assertion of the code fails, and at the end the nodes hold exactly the elements of the list. Removing the
  only element from the back dereferences NULL, and so does an index of an empty deque.
\<close>

theorem parcDeque_refines_list:
  assumes "length cs < 2 ^ 64"
  shows "\<exists>d. parcDeque_Create True = Some d \<and>
    agree (\<lambda>d1 xs. \<exists>as. linked_holds d1 as xs) (run_all deque_step d cs) (run_all deque_spec [] cs)"
proof -
  obtain d where d: "parcDeque_Create True = Some d" "linked_holds d [] []"
    by (simp add: parcDeque_Create_def deque_create_def linked_holds_def chain_empty)
  then have r: "deque_represents (0 + length cs) d []" using assms by (auto simp: deque_represents_def)
  have "agree (deque_represents 0) (run_all deque_step d cs) (run_all deque_spec [] cs)"
    by (rule deque.run_all_agrees [OF r])
  then show ?thesis using d(1) by (auto simp: agree_def deque_represents_def split: sum.splits prod.splits)
qed

theorem parcDeque_refines_list_witness:
  "\<exists>d. parcDeque_Create True = Some d \<and>
    run_all deque_step d [DequeAppend (Some 1), DequePrepend (Some 2), DequeRemoveLast, DequeRemoveLast] = Inl BadPointer"
proof -
  let ?cs = "[DequeAppend (Some 1), DequePrepend (Some 2), DequeRemoveLast, DequeRemoveLast]"
  obtain d where "parcDeque_Create True = Some d"
    "agree (\<lambda>d1 xs. \<exists>as. linked_holds d1 as xs) (run_all deque_step d ?cs) (run_all deque_spec [] ?cs)"
    using parcDeque_refines_list [of ?cs] by auto
  then show ?thesis by (cases "run_all deque_step d ?cs") auto
qed

text \<open>
  C14: A copy of a deque holds the copies of its elements, two deques with the same comparison are equal exactly when they have the
  same length and their elements are pairwise equal, and the destructor frees every node.
\<close>

theorem parcDeque_Copy_Equals_Destroy:
  assumes d: "linked_holds d as xs" and e: "linked_holds e bs ys"
  shows "(\<exists>new bs1. parcDeque_Copy True True d = Some (Inr (Some new)) \<and> linked_holds new bs1 (map (elementCopy d) xs) \<and>
      elementEquals new = elementEquals d \<and> elementCopy new = elementCopy d) \<and>
    parcDeque_Equals False True (Some d) (Some e) = Some (Inr (list_all2 (elementEquals d) xs ys)) \<and>
    (\<exists>e1. parcDeque_Destroy d = Some (Inr e1) \<and> nodes e1 = Map.empty)"
proof (intro conjI)
  have c: "chain d as xs" "chain e bs ys" and s: "list_size d = of_nat (length xs)" "length xs < 2 ^ 64"
    "list_size e = of_nat (length ys)" "length ys < 2 ^ 64"
    using d e by (simp_all add: linked_holds_def)
  have hd: "head d = first (drop 0 as) None" "head e = first (drop 0 bs) None" using c by (simp_all add: chain_def)
  obtain new where new: "deque_create True (elementEquals d) (elementCopy d) = Some new" "linked_holds new [] []"
    "elementEquals new = elementEquals d" "elementCopy new = elementCopy d"
    by (simp add: deque_create_def linked_holds_def chain_empty)
  show "\<exists>new bs1. parcDeque_Copy True True d = Some (Inr (Some new)) \<and> linked_holds new bs1 (map (elementCopy d) xs) \<and>
      elementEquals new = elementEquals d \<and> elementCopy new = elementCopy d"
    using copy_loop_holds [OF c(1) new(2), of 0] new hd s(2) by (auto simp: parcDeque_Copy_def)
  have "unat (list_size d) = length xs" "unat (list_size e) = length ys"
    using s unat_word_of_nat [of "length xs", where 'a = 64] unat_word_of_nat [of "length ys", where 'a = 64] by simp_all
  then have "length xs = length ys \<longleftrightarrow> list_size d = list_size e" using s by metis
  then show "parcDeque_Equals False True (Some d) (Some e) = Some (Inr (list_all2 (elementEquals d) xs ys))"
    using equals_nodes_holds [OF c, of 0] hd by (auto simp: parcDeque_Equals_def dest: list_all2_lengthD)
  have "nodes d = nodes d |` set (drop 0 as)" using c(1) by (auto simp: chain_def restrict_map_def fun_eq_iff)
  then show "\<exists>e1. parcDeque_Destroy d = Some (Inr e1) \<and> nodes e1 = Map.empty"
    using deque_destroy_holds [OF c(1), of d 0] hd by (simp add: parcDeque_Destroy_def)
qed

definition example_deque :: parc_deque where
  "example_deque = \<lparr>head = Some 0, tail = Some 1, list_size = 2,
     nodes = [0 \<mapsto> \<lparr>element = Some 7, previous = None, next_node = Some 1\<rparr>,
              1 \<mapsto> \<lparr>element = Some 8, previous = Some 0, next_node = None\<rparr>],
     fresh = 2, elementEquals = (=), elementCopy = map_option Suc\<rparr>"

lemma example_deque_holds: "linked_holds example_deque [0, 1] [Some 7, Some 8]"
  by (auto simp: linked_holds_def chain_def example_deque_def)

theorem parcDeque_Copy_Equals_Destroy_witness:
  "(\<exists>new bs. parcDeque_Copy True True example_deque = Some (Inr (Some new)) \<and> linked_holds new bs [Some 8, Some 9]) \<and>
    parcDeque_Equals False True (Some example_deque) (Some example_deque) = Some (Inr True)"
  using parcDeque_Copy_Equals_Destroy [OF example_deque_holds example_deque_holds]
  by (auto simp: example_deque_def)

end
