(* ===== verification/Parc_LinkedList.thy ===== *)
theory Parc_LinkedList
  imports Parc_Linked Parc_Iterator Parc_Object
begin

text \<open>
  The linked list of objects (\<^verbatim>\<open>parc_LinkedList.c\<close>). The objects live in the heap of the object model, where the list
  acquires and releases them; the nodes belong to the list. An operation takes the heap and the list. The list
  itself is a live object, so its own header is valid. A walk along the nodes that does not end is the trap \<open>Diverges\<close>.
\<close>

section \<open>Nodes\<close>

type_synonym 'p listed = "'p heap \<times> linked"

fun getByIndex_loop :: "linked \<Rightarrow> nat \<Rightarrow> ptr \<Rightarrow> ptr result" where
  "getByIndex_loop l 0 p = Inr p"
| "getByIndex_loop l (Suc i) p =
    (if p \<noteq> None then rbind (node_at l p) (\<lambda>n. getByIndex_loop l i (next_node n)) else Inr p)"

definition parcLinkedListNode_getByIndex :: "linked \<Rightarrow> size_t \<Rightarrow> ptr result" where
  "parcLinkedListNode_getByIndex l index = getByIndex_loop l (unat index) (head l)"

partial_function (option) getByValue_loop :: "'p types \<Rightarrow> 'p heap \<Rightarrow> linked \<Rightarrow> ptr \<Rightarrow> ptr \<Rightarrow> ptr result option" where
  "getByValue_loop T h l v p =
    (if p \<noteq> None
     then case rbind (node_at l p) (\<lambda>n. rbind (parcObject_Equals T h (element n) v) (\<lambda>e. Inr (e, next_node n))) of
       Inl e \<Rightarrow> Some (Inl e)
     | Inr r \<Rightarrow> if fst r = False then getByValue_loop T h l v (snd r) else Some (Inr p)
     else Some (Inr p))"

definition parcLinkedListNode_getByValue :: "'p types \<Rightarrow> 'p heap \<Rightarrow> linked \<Rightarrow> ptr \<Rightarrow> ptr result" where
  "parcLinkedListNode_getByValue T h l v = resolved (getByValue_loop T h l v (head l))"

definition parcLinkedListNode_IsValid :: "'p heap \<Rightarrow> linked \<Rightarrow> ptr \<Rightarrow> bool result" where
  "parcLinkedListNode_IsValid h l p =
    (if p \<noteq> None then
       rbind (node_at l p) (\<lambda>n.
       if element n \<noteq> None then
         if parcObject_IsValid h (element n) then
           rbind (if previous n \<noteq> None
                  then rbind (node_at l (previous n)) (\<lambda>m.
                       Inr (if next_node m = p then parcObject_IsValid h (element m) else False))
                  else Inr True) (\<lambda>result.
           if next_node n \<noteq> None
           then rbind (node_at l (next_node n)) (\<lambda>m.
                Inr (if previous m = p then (if parcObject_IsValid h (element m) then True else result) else result))
           else Inr True)
         else Inr False
       else Inr False)
     else Inr False)"

definition parcLinkedListNode_Create ::
  "'p types \<Rightarrow> bool \<Rightarrow> 'p heap \<Rightarrow> linked \<Rightarrow> ptr \<Rightarrow> ptr \<Rightarrow> ptr \<Rightarrow> (ptr \<times> 'p listed) result" where
  "parcLinkedListNode_Create T granted h l object prev nxt =
    (if granted
     then rbind (parcObject_Acquire T h object) (\<lambda>(acquired, h1).
          let (p, l1) = create_node True l acquired prev nxt in Inr (p, h1, l1))
     else Inr (None, h, l))"

definition parcLinkedListIterator_IsValid :: "'p listed \<Rightarrow> ptr \<Rightarrow> unit result" where
  "parcLinkedListIterator_IsValid = (\<lambda>(h, l) p.
    if p \<noteq> None then rbind (parcLinkedListNode_IsValid h l p) assertTrue else Inr ())"

definition parcLinkedListNode_Destroy :: "'p types \<Rightarrow> 'p heap \<Rightarrow> linked \<Rightarrow> ptr \<Rightarrow> 'p listed result" where
  "parcLinkedListNode_Destroy T h l p =
    rbind (node_at l p) (\<lambda>n.
    rbind (parcObject_Release T h (element n)) (\<lambda>(_, h1).
    Inr (h1, free_node l p)))"

partial_function (option) destroy_nodes :: "'p types \<Rightarrow> 'p heap \<Rightarrow> linked \<Rightarrow> ptr \<Rightarrow> 'p listed result option" where
  "destroy_nodes T h l p =
    (if p \<noteq> None
     then case rbind (node_at l p) (\<lambda>n.
            rbind (parcLinkedListNode_Destroy T h l p) (\<lambda>s. Inr (next_node n, s))) of
       Inl e \<Rightarrow> Some (Inl e)
     | Inr r \<Rightarrow> destroy_nodes T (fst (snd r)) (snd (snd r)) (fst r)
     else Some (Inr (h, l)))"

definition parcLinkedList_Destructor :: "'p types \<Rightarrow> 'p heap \<Rightarrow> linked \<Rightarrow> 'p listed result" where
  "parcLinkedList_Destructor T h l = resolved (destroy_nodes T h l (head l))"

definition parcLinkedIterator_Init :: "'p listed \<Rightarrow> ptr" where
  "parcLinkedIterator_Init object = None"

definition parcLinkedListNode_Fini :: "'p listed option \<Rightarrow> ptr \<Rightarrow> unit result" where
  "parcLinkedListNode_Fini object p = Inr ()"

definition parcLinkedListNode_Next :: "'p types \<Rightarrow> 'p listed \<Rightarrow> ptr \<Rightarrow> ptr result" where
  "parcLinkedListNode_Next T = (\<lambda>(h, l) p.
    rbind (if p = None then Inr (head l)
           else rbind (parcLinkedListNode_IsValid h l p) (\<lambda>v.
                rbind (assertTrue v) (\<lambda>_.
                rbind (node_at l p) (\<lambda>n.
                rbind (trapIf OutOfBounds (next_node n = None)) (\<lambda>_.
                Inr (next_node n)))))) (\<lambda>result.
    rbind (parcLinkedListNode_IsValid h l result) (\<lambda>v.
    rbind (assertTrue v) (\<lambda>_.
    rbind (node_at l result) (\<lambda>n.
    rbind (parcObject_AssertValid T h (element n)) (\<lambda>_.
    Inr result))))))"

definition parcLinkedListNode_Delete :: "linked \<Rightarrow> ptr \<Rightarrow> (ptr \<times> linked) result" where
  "parcLinkedListNode_Delete l p =
    rbind (node_at l p) (\<lambda>n.
    let l1 = l\<lparr>list_size := list_size l - 1\<rparr>;
        l2 = (if p = head l1 then l1\<lparr>head := next_node n\<rparr> else l1);
        l3 = (if p = tail l2 then l2\<lparr>tail := previous n\<rparr> else l2) in
    rbind (if previous n \<noteq> None then set_next l3 (previous n) (next_node n) else Inr l3) (\<lambda>l4.
    rbind (if next_node n \<noteq> None then set_previous l4 (next_node n) (previous n) else Inr l4) (\<lambda>l5.
    Inr (element n, free_node l5 p))))"

section \<open>The list\<close>

partial_function (option) valid_loop :: "'p heap \<Rightarrow> linked \<Rightarrow> ptr \<Rightarrow> bool result option" where
  "valid_loop h l p =
    (if p \<noteq> None
     then case rbind (parcLinkedListNode_IsValid h l p) (\<lambda>v. rbind (node_at l p) (\<lambda>n. Inr (v, next_node n))) of
       Inl e \<Rightarrow> Some (Inl e)
     | Inr r \<Rightarrow> if fst r = False then Some (Inr False) else valid_loop h l (snd r)
     else Some (Inr True))"

definition parcLinkedList_IsValid :: "'p heap \<Rightarrow> linked option \<Rightarrow> bool result" where
  "parcLinkedList_IsValid h list =
    (case list of None \<Rightarrow> Inr False
     | Some l \<Rightarrow>
         if list_size l > 0
         then if head l \<noteq> None then if tail l \<noteq> None then resolved (valid_loop h l (head l)) else Inr False
              else Inr False
         else Inr (if head l = None then (if tail l = None then True else False) else False))"

definition parcLinkedList_AssertValid :: "'p heap \<Rightarrow> linked \<Rightarrow> unit result" where
  "parcLinkedList_AssertValid h l = rbind (parcLinkedList_IsValid h (Some l)) assertTrue"

definition parcLinkedListNode_Remove :: "'p types \<Rightarrow> 'p listed \<Rightarrow> ptr \<Rightarrow> ('p listed \<times> ptr) result" where
  "parcLinkedListNode_Remove T = (\<lambda>(h, l) p.
    rbind (parcLinkedList_AssertValid h l) (\<lambda>_.
    if p \<noteq> None then
      rbind (node_at l p) (\<lambda>n.
      rbind (parcLinkedListNode_Delete l p) (\<lambda>(object, l1).
      rbind (parcObject_Release T h object) (\<lambda>(_, h1).
      rbind (parcLinkedList_AssertValid h1 l1) (\<lambda>_.
      Inr ((h1, l1), previous n)))))
    else Inr ((h, l), p)))"

definition parcLinkedListNode_HasNext :: "'p listed \<Rightarrow> ptr \<Rightarrow> bool result" where
  "parcLinkedListNode_HasNext = (\<lambda>(h, l) p.
    rbind (if p = None then Inr (head l) else rbind (node_at l p) (\<lambda>n. Inr (next_node n))) (\<lambda>q.
    if q \<noteq> None
    then rbind (parcLinkedListNode_IsValid h l q) (\<lambda>v. rbind (assertTrue v) (\<lambda>_. Inr True))
    else Inr False))"

definition parcLinkedListNode_Element :: "'p listed \<Rightarrow> ptr \<Rightarrow> ptr result" where
  "parcLinkedListNode_Element = (\<lambda>(h, l) p. rbind (node_at l p) (\<lambda>n. Inr (element n)))"

definition parcLinkedList_CreateIterator ::
  "'p types \<Rightarrow> bool \<Rightarrow> 'p listed option \<Rightarrow> ('p listed, ptr) parc_iterator option result" where
  "parcLinkedList_CreateIterator T granted object =
    parcIterator_Create granted object (Some parcLinkedIterator_Init) (Some parcLinkedListNode_HasNext)
      (Some (parcLinkedListNode_Next T)) (Some (parcLinkedListNode_Remove T)) (Some parcLinkedListNode_Element)
      (Some parcLinkedListNode_Fini) (Some parcLinkedListIterator_IsValid)"

definition parcLinkedList_Create :: "bool \<Rightarrow> linked option" where
  "parcLinkedList_Create granted =
    (if granted then Some \<lparr>head = None, tail = None, list_size = 0, nodes = Map.empty, fresh = 0\<rparr> else None)"

definition parcLinkedList_Append :: "'p types \<Rightarrow> bool \<Rightarrow> 'p heap \<Rightarrow> linked \<Rightarrow> ptr \<Rightarrow> 'p listed result" where
  "parcLinkedList_Append T granted h l e =
    rbind (parcLinkedListNode_Create T granted h l e (tail l) None) (\<lambda>(node, h1, l1).
    rbind (if tail l1 = None then Inr (l1\<lparr>tail := node\<rparr>)
           else rbind (set_next l1 (tail l1) node) (\<lambda>l2. Inr (l2\<lparr>tail := node\<rparr>))) (\<lambda>l2.
    let l3 = (if head l2 = None then l2\<lparr>head := tail l2\<rparr> else l2) in
    Inr (h1, l3\<lparr>list_size := list_size l3 + 1\<rparr>)))"

partial_function (option) append_nodes ::
  "'p types \<Rightarrow> bool \<Rightarrow> linked \<Rightarrow> ptr \<Rightarrow> 'p heap \<Rightarrow> linked option \<Rightarrow> ('p heap \<times> linked option) result option" where
  "append_nodes T granted l p h new =
    (if p \<noteq> None
     then case rbind (node_at l p) (\<lambda>n.
            case new of None \<Rightarrow> Inl BadPointer
            | Some new1 \<Rightarrow> rbind (parcLinkedList_Append T granted h new1 (element n)) (\<lambda>s. Inr (next_node n, s))) of
       Inl e \<Rightarrow> Some (Inl e)
     | Inr r \<Rightarrow> append_nodes T granted l (fst r) (fst (snd r)) (Some (snd (snd r)))
     else Some (Inr (h, new)))"

definition parcLinkedList_Copy ::
  "'p types \<Rightarrow> bool \<Rightarrow> bool \<Rightarrow> 'p heap \<Rightarrow> linked \<Rightarrow> ('p heap \<times> linked option) result" where
  "parcLinkedList_Copy T granted nodes_granted h l =
    resolved (append_nodes T nodes_granted l (head l) h (parcLinkedList_Create granted))"

partial_function (option) contains_nodes :: "'p types \<Rightarrow> 'p heap \<Rightarrow> linked \<Rightarrow> ptr \<Rightarrow> ptr \<Rightarrow> bool result option" where
  "contains_nodes T h l v p =
    (if p \<noteq> None
     then case rbind (node_at l p) (\<lambda>n. rbind (parcObject_Equals T h (element n) v) (\<lambda>e. Inr (e, next_node n))) of
       Inl e \<Rightarrow> Some (Inl e)
     | Inr r \<Rightarrow> if fst r then Some (Inr True) else contains_nodes T h l v (snd r)
     else Some (Inr False))"

definition parcLinkedList_Contains :: "'p types \<Rightarrow> 'p heap \<Rightarrow> linked \<Rightarrow> ptr \<Rightarrow> bool result" where
  "parcLinkedList_Contains T h l v = resolved (contains_nodes T h l v (head l))"

text \<open>\<open>other\<close> is another list than \<open>l\<close>: appending a list to itself never ends, because the iterator meets the new elements.\<close>

definition parcLinkedList_AppendAll ::
  "'p types \<Rightarrow> bool \<Rightarrow> bool \<Rightarrow> 'p heap \<Rightarrow> linked \<Rightarrow> linked \<Rightarrow> 'p listed result" where
  "parcLinkedList_AppendAll T granted nodes_granted h l other =
    rbind (parcLinkedList_CreateIterator T granted (Some (h, other))) (\<lambda>it.
    resolved (iterate (\<lambda>(h, _). (h, other)) (\<lambda>x (h, l). parcLinkedList_Append T nodes_granted h l x) it (h, l)))"

definition parcLinkedList_Prepend :: "'p types \<Rightarrow> bool \<Rightarrow> 'p heap \<Rightarrow> linked \<Rightarrow> ptr \<Rightarrow> 'p listed result" where
  "parcLinkedList_Prepend T granted h l e =
    rbind (parcLinkedListNode_Create T granted h l e None (head l)) (\<lambda>(node, h1, l1).
    rbind (if head l1 = None then Inr (l1\<lparr>head := node\<rparr>)
           else rbind (set_previous l1 (head l1) node) (\<lambda>l2. Inr (l2\<lparr>head := node\<rparr>))) (\<lambda>l2.
    let l3 = (if tail l2 = None then l2\<lparr>tail := head l2\<rparr> else l2);
        l4 = l3\<lparr>list_size := list_size l3 + 1\<rparr> in
    rbind (parcLinkedList_AssertValid h1 l4) (\<lambda>_. Inr (h1, l4))))"

definition parcLinkedList_RemoveFirst :: "'p heap \<Rightarrow> linked \<Rightarrow> (ptr \<times> linked) result" where
  "parcLinkedList_RemoveFirst h l =
    rbind (if head l \<noteq> None then parcLinkedListNode_Delete l (head l) else Inr (None, l)) (\<lambda>(result, l1).
    rbind (parcLinkedList_AssertValid h l1) (\<lambda>_. Inr (result, l1)))"

definition parcLinkedList_RemoveLast :: "'p heap \<Rightarrow> linked \<Rightarrow> (ptr \<times> linked) result" where
  "parcLinkedList_RemoveLast h l =
    rbind (if tail l \<noteq> None then parcLinkedListNode_Delete l (tail l) else Inr (None, l)) (\<lambda>(result, l1).
    rbind (parcLinkedList_AssertValid h l1) (\<lambda>_. Inr (result, l1)))"

definition parcLinkedList_Remove :: "'p types \<Rightarrow> 'p heap \<Rightarrow> linked \<Rightarrow> ptr \<Rightarrow> (bool \<times> 'p listed) result" where
  "parcLinkedList_Remove T h l e =
    rbind (assertTrue (e \<noteq> None)) (\<lambda>_.
    rbind (parcLinkedListNode_getByValue T h l e) (\<lambda>node.
    rbind (if node \<noteq> None
           then rbind (parcLinkedListNode_Delete l node) (\<lambda>(object, l1).
                rbind (parcObject_Release T h object) (\<lambda>(_, h1). Inr (True, h1, l1)))
           else Inr (False, h, l)) (\<lambda>(result, h1, l1).
    rbind (parcLinkedList_AssertValid h1 l1) (\<lambda>_. Inr (result, h1, l1)))))"

definition parcLinkedList_RemoveAtIndex :: "linked \<Rightarrow> size_t \<Rightarrow> (ptr \<times> linked) result" where
  "parcLinkedList_RemoveAtIndex l index =
    rbind (parcLinkedListNode_getByIndex l index) (\<lambda>node.
    if node \<noteq> None then parcLinkedListNode_Delete l node else Inr (None, l))"

definition parcLinkedList_GetFirst :: "linked \<Rightarrow> ptr result" where
  "parcLinkedList_GetFirst l =
    (if head l \<noteq> None then rbind (node_at l (head l)) (\<lambda>n. Inr (element n)) else Inr None)"

definition parcLinkedList_GetLast :: "linked \<Rightarrow> ptr result" where
  "parcLinkedList_GetLast l =
    (if tail l \<noteq> None then rbind (node_at l (tail l)) (\<lambda>n. Inr (element n)) else Inr None)"

partial_function (option) hash_nodes ::
  "'p types \<Rightarrow> 'p heap \<Rightarrow> linked \<Rightarrow> ptr \<Rightarrow> PARCHashCode \<Rightarrow> PARCHashCode result option" where
  "hash_nodes T h l p result =
    (if p \<noteq> None
     then case rbind (node_at l p) (\<lambda>n. rbind (parcObject_HashCode T h (element n)) (\<lambda>c. Inr (c, next_node n))) of
       Inl e \<Rightarrow> Some (Inl e)
     | Inr r \<Rightarrow> hash_nodes T h l (snd r) (result + fst r)
     else Some (Inr result))"

definition parcLinkedList_HashCode :: "'p types \<Rightarrow> 'p heap \<Rightarrow> linked \<Rightarrow> PARCHashCode result" where
  "parcLinkedList_HashCode T h l = resolved (hash_nodes T h l (head l) 0)"

definition parcLinkedList_Size :: "linked \<Rightarrow> size_t" where
  "parcLinkedList_Size l = list_size l"

definition parcLinkedList_IsEmpty :: "linked \<Rightarrow> bool" where
  "parcLinkedList_IsEmpty l \<longleftrightarrow> parcLinkedList_Size l = 0"

definition parcLinkedList_InsertInitialNode :: "'p types \<Rightarrow> bool \<Rightarrow> 'p heap \<Rightarrow> linked \<Rightarrow> ptr \<Rightarrow> 'p listed result" where
  "parcLinkedList_InsertInitialNode T granted h l e =
    rbind (parcLinkedListNode_Create T granted h l e None None) (\<lambda>(newNode, h1, l1).
    Inr (h1, l1\<lparr>head := newNode, tail := newNode\<rparr>))"

text \<open>The walk to the insertion point, which stops at the last node.\<close>

fun insertion_node :: "linked \<Rightarrow> nat \<Rightarrow> ptr \<Rightarrow> ptr result" where
  "insertion_node l 0 p = Inr p"
| "insertion_node l (Suc i) p =
    rbind (node_at l p) (\<lambda>n. if next_node n \<noteq> None then insertion_node l i (next_node n) else Inr p)"

definition parcLinkedList_InsertAtIndex ::
  "'p types \<Rightarrow> bool \<Rightarrow> 'p heap \<Rightarrow> linked \<Rightarrow> size_t \<Rightarrow> ptr \<Rightarrow> 'p listed result" where
  "parcLinkedList_InsertAtIndex T granted h l index e =
    rbind
      (if index = 0 then
         rbind (if head l = None then parcLinkedList_InsertInitialNode T granted h l e
                else rbind (parcLinkedListNode_Create T granted h l e None (head l)) (\<lambda>(newNode, h1, l1).
                     rbind (set_previous l1 (head l1) newNode) (\<lambda>l2.
                     Inr (h1, l2\<lparr>tail := head l2, head := newNode\<rparr>)))) (\<lambda>(h1, l1).
         Inr (h1, l1\<lparr>list_size := list_size l1 + 1\<rparr>))
       else if index = list_size l then
         rbind (parcLinkedListNode_Create T granted h l e (tail l) None) (\<lambda>(newNode, h1, l1).
         rbind (set_next l1 (tail l) newNode) (\<lambda>l2.
         rbind (node_at l2 (tail l)) (\<lambda>n.
         Inr (h1, l2\<lparr>tail := next_node n, list_size := list_size l2 + 1\<rparr>))))
       else
         rbind (insertion_node l (unat index) (head l)) (\<lambda>node.
         rbind (node_at l node) (\<lambda>n.
         rbind (parcLinkedListNode_Create T granted h l e (previous n) node) (\<lambda>(newNode, h1, l1).
         rbind (set_next l1 (previous n) newNode) (\<lambda>l2.
         rbind (set_previous l2 node newNode) (\<lambda>l3.
         Inr (h1, l3\<lparr>list_size := list_size l3 + 1\<rparr>))))))) (\<lambda>(h1, l1).
    rbind (parcLinkedList_AssertValid h1 l1) (\<lambda>_. Inr (h1, l1)))"

definition parcLinkedList_SetAtIndex :: "'p types \<Rightarrow> 'p heap \<Rightarrow> linked \<Rightarrow> size_t \<Rightarrow> ptr \<Rightarrow> (ptr \<times> 'p listed) result" where
  "parcLinkedList_SetAtIndex T h l index e =
    rbind (trapIf OutOfBounds (index > parcLinkedList_Size l - 1)) (\<lambda>_.
    rbind (parcLinkedListNode_getByIndex l index) (\<lambda>node.
    if node \<noteq> None
    then rbind (node_at l node) (\<lambda>n.
         rbind (parcObject_Acquire T h e) (\<lambda>(acquired, h1).
         rbind (set_element l node acquired) (\<lambda>l1. Inr (element n, h1, l1))))
    else Inr (None, h, l)))"

definition parcLinkedList_GetAtIndex :: "linked \<Rightarrow> size_t \<Rightarrow> ptr result" where
  "parcLinkedList_GetAtIndex l index =
    rbind (trapIf OutOfBounds (index > parcLinkedList_Size l - 1)) (\<lambda>_.
    rbind (parcLinkedListNode_getByIndex l index) (\<lambda>node.
    if node = None then Inr None else rbind (node_at l node) (\<lambda>n. Inr (element n))))"

partial_function (option) equal_nodes ::
  "'p types \<Rightarrow> 'p heap \<Rightarrow> linked \<Rightarrow> linked \<Rightarrow> ptr \<Rightarrow> ptr \<Rightarrow> bool result option" where
  "equal_nodes T h x y p q =
    (if p \<noteq> None
     then case rbind (node_at x p) (\<lambda>n. rbind (node_at y q) (\<lambda>m.
            rbind (parcObject_Equals T h (element n) (element m)) (\<lambda>e. Inr (e, next_node n, next_node m)))) of
       Inl e \<Rightarrow> Some (Inl e)
     | Inr r \<Rightarrow> if fst r = False then Some (Inr False) else equal_nodes T h x y (fst (snd r)) (snd (snd r))
     else Some (Inr True))"

text \<open>\<open>same\<close>: both arguments are the same pointer.\<close>

definition parcLinkedList_Equals :: "'p types \<Rightarrow> 'p heap \<Rightarrow> bool \<Rightarrow> linked option \<Rightarrow> linked option \<Rightarrow> bool result" where
  "parcLinkedList_Equals T h same x y =
    (if same then Inr True
     else case (x, y) of
       (Some a, Some b) \<Rightarrow> if list_size a = list_size b then resolved (equal_nodes T h a b (head a) (head b)) else Inr False
     | _ \<Rightarrow> Inr False)"

function setEquals_inner :: "'p types \<Rightarrow> 'p heap \<Rightarrow> linked \<Rightarrow> linked \<Rightarrow> ptr \<Rightarrow> size_t \<Rightarrow> unit result" where
  "setEquals_inner T h x y xObject j =
    (if j < list_size x
     then rbind (parcLinkedList_GetAtIndex y j) (\<lambda>yObject.
          rbind (parcObject_Equals T h xObject yObject) (\<lambda>e.
          if e = False then Inr () else setEquals_inner T h x y xObject (j + 1)))
     else Inr ())"
  by pat_completeness auto
termination
  by (relation "measure (\<lambda>(T, h, x, y, xObject, j). unat (list_size x) - unat j)") (auto simp: index_measure)

declare setEquals_inner.simps [simp del]

function setEquals_outer :: "'p types \<Rightarrow> 'p heap \<Rightarrow> linked \<Rightarrow> linked \<Rightarrow> size_t \<Rightarrow> unit result" where
  "setEquals_outer T h x y i =
    (if i < list_size x
     then rbind (parcLinkedList_GetAtIndex x i) (\<lambda>xObject.
          rbind (setEquals_inner T h x y xObject 0) (\<lambda>_. setEquals_outer T h x y (i + 1)))
     else Inr ())"
  by pat_completeness auto
termination
  by (relation "measure (\<lambda>(T, h, x, y, i). unat (list_size x) - unat i)") (auto simp: index_measure)

declare setEquals_outer.simps [simp del]

definition parcLinkedList_SetEquals :: "'p types \<Rightarrow> 'p heap \<Rightarrow> linked \<Rightarrow> linked \<Rightarrow> bool result" where
  "parcLinkedList_SetEquals T h x y =
    (if list_size x = list_size y then rbind (setEquals_outer T h x y 0) (\<lambda>_. Inr True) else Inr False)"

text \<open>\<open>f\<close> is the function that is applied, with its parameter; it may change the heap.\<close>

definition parcLinkedList_ApplyImpl ::
  "'p types \<Rightarrow> bool \<Rightarrow> 'p heap \<Rightarrow> linked \<Rightarrow> (ptr \<Rightarrow> 'p heap \<Rightarrow> 'p heap result) \<Rightarrow> 'p heap result" where
  "parcLinkedList_ApplyImpl T granted h l f =
    rbind (parcLinkedList_CreateIterator T granted (Some (h, l))) (\<lambda>it.
    resolved (iterate (\<lambda>h. (h, l)) f it h))"

section \<open>Nodes of a well-formed list\<close>

text \<open>Every element is a valid object.\<close>

definition all_valid :: "'p heap \<Rightarrow> ptr list \<Rightarrow> bool" where
  "all_valid h xs \<longleftrightarrow> list_all (parcObject_IsValid h) xs"

lemma valid_not_None: "parcObject_IsValid h x \<Longrightarrow> x \<noteq> None"
  by (cases x) (simp_all add: parcObject_IsValid_def)

text \<open>
  On a chain the answer is that of the neighbours: a valid node between two invalid ones counts as invalid, but then one of the
  neighbours fails too.
\<close>

lemma IsValid_node:
  assumes c: "path l as xs" and i: "i < length xs"
  shows "parcLinkedListNode_IsValid h l (first (drop i as) None) =
    Inr (parcObject_IsValid h (xs ! i) \<and>
      (Suc i = length xs \<or> i = 0 \<or> parcObject_IsValid h (xs ! (i - 1)) \<or> parcObject_IsValid h (xs ! Suc i)))"
proof -
  have l: "length as = length xs" using c by (rule segment_length)
  have ne: "first (drop i as) None \<noteq> None" using i l by simp
  have nx: "first (drop (Suc i) as) None = None \<longleftrightarrow> Suc i = length xs" using i l by auto
  have pr: "final None (take i as) = None \<longleftrightarrow> i = 0" using i l by auto
  have p1: "node_at l (final None (take i as)) = Inr \<lparr>element = xs ! (i - 1),
      previous = final None (take (i - 1) as), next_node = first (drop i as) None\<rparr>" if "0 < i"
    using node_at_path [OF c, of "i - 1"] path_cursor [OF c, of "i - 1"] i that by simp
  have n1: "node_at l (first (drop (Suc i) as) None) = Inr \<lparr>element = xs ! Suc i,
      previous = final None (take (Suc i) as), next_node = first (drop (Suc (Suc i)) as) None\<rparr>" if "Suc i < length xs"
    using node_at_path [OF c that] .
  show ?thesis
    using node_at_path [OF c i] ne nx pr p1 n1 path_cursor [OF c i] i valid_not_None [of h "xs ! i"]
    by (cases "i = 0"; cases "Suc i = length xs")
      (auto simp: parcLinkedListNode_IsValid_def simp del: not_None_eq first_None final_None)
qed

lemma valid_loop_path:
  assumes c: "path l as xs"
  shows "i \<le> length xs \<Longrightarrow> valid_loop h l (first (drop i as) None) =
    Some (Inr (\<forall>j. i \<le> j \<longrightarrow> j < length xs \<longrightarrow> parcObject_IsValid h (xs ! j) \<and>
      (Suc j = length xs \<or> j = 0 \<or> parcObject_IsValid h (xs ! (j - 1)) \<or> parcObject_IsValid h (xs ! Suc j))))"
proof (induction "length xs - i" arbitrary: i)
  case 0
  then have "drop i as = []" using segment_length [OF c] by simp
  then show ?case using 0 by (subst valid_loop.simps) auto
next
  case (Suc k)
  then have i: "i < length xs" by simp
  have ne: "first (drop i as) None \<noteq> None" using i segment_length [OF c] by simp
  have s: "(\<forall>j. i \<le> j \<longrightarrow> P j) \<longleftrightarrow> P i \<and> (\<forall>j. Suc i \<le> j \<longrightarrow> P j)" for P
    by (metis Suc_leD le_antisym not_less_eq_eq order_refl)
  show ?case
    using Suc.hyps(1) [of "Suc i"] Suc.hyps(2) ne i node_at_path [OF c i] IsValid_node [OF c i, of h]
    by (subst valid_loop.simps, subst s) auto
qed

lemma valid_loop_all:
  assumes c: "path l as xs"
  shows "valid_loop h l (first as None) = Some (Inr (all_valid h xs))"
proof -
  have "(\<forall>j < length xs. parcObject_IsValid h (xs ! j) \<and>
      (Suc j = length xs \<or> j = 0 \<or> parcObject_IsValid h (xs ! (j - 1)) \<or> parcObject_IsValid h (xs ! Suc j))) \<longleftrightarrow> all_valid h xs"
    unfolding all_valid_def list_all_length by (metis Suc_lessI)
  then show ?thesis using valid_loop_path [OF c, of 0 h] by simp
qed

lemma resolved_Some [simp]: "resolved (Some r) = r"
  by (simp add: resolved_def)

lemma AssertValid_chain:
  assumes "linked_holds l as xs"
  shows "parcLinkedList_AssertValid h l = assertTrue (all_valid h xs)"
proof -
  have c: "chain l as xs" and z: "list_size l = 0 \<longleftrightarrow> xs = []" using linked_holdsD [OF assms] by simp_all
  have "resolved (valid_loop h l (head l)) = Inr (all_valid h xs)"
    using valid_loop_all [OF chain_path [OF c], of h] c by (simp add: chain_def)
  then show ?thesis
    using z chain_nonempty [OF c]
    by (auto simp: parcLinkedList_AssertValid_def parcLinkedList_IsValid_def word_gt_0 all_valid_def)
qed

section \<open>Effect of the operations on the elements\<close>

text \<open>All ways to take a node out go through \<open>_parcLinkedListNode_Delete\<close>.\<close>

lemma Delete_holds:
  assumes h: "linked_holds l as xs" and i: "i < length xs"
  shows "\<exists>l1. parcLinkedListNode_Delete l (first (drop i as) None) = Inr (xs ! i, l1) \<and>
    linked_holds l1 (take i as @ drop (Suc i) as) (take i xs @ drop (Suc i) xs)"
proof -
  note d = linked_holdsD [OF h]
  have len: "length as = length xs" using chain_length [OF d(1)] .
  define bs cs a where "bs = take i as" and "cs = drop (Suc i) as" and "a = as ! i"
  have as: "as = bs @ a # cs" using i len by (simp add: bs_def cs_def a_def id_take_nth_drop [symmetric])
  have dist: "distinct (bs @ a # cs)" and dm: "dom (nodes l) = set (bs @ a # cs)"
    and ht: "head l = first (bs @ a # cs) None" "tail l = final None (bs @ a # cs)"
    using d(1) as by (auto simp: chain_def)
  have p: "first (drop i as) None = Some a" using i len by (simp add: a_def Cons_nth_drop_Suc [symmetric])
  have n: "node_at l (Some a) = Inr \<lparr>element = xs ! i, previous = final None bs, next_node = first cs None\<rparr>"
    using node_at_index [OF d(1) i] p by (simp add: bs_def cs_def)
  have hd: "Some a = head l \<longleftrightarrow> bs = []" using ht(1) dist by (cases bs) auto
  have tl: "Some a = tail l \<longleftrightarrow> cs = []" using ht(2) dist by (cases cs rule: rev_cases) auto
  have nb: "b \<in> dom (nodes l)" if "final None bs = Some b" for b using that dm first_final_in(2) [of bs] by auto
  have nc: "c \<in> dom (link_next (nodes l) (final None bs) (first cs None))" if "first cs None = Some c" for c
    using that dm first_final_in [of bs] first_final_in(1) [of cs] by (subst link_dom(1)) auto
  have "\<exists>l1. parcLinkedListNode_Delete l (Some a) = Inr (xs ! i, l1) \<and> fresh l1 = fresh l \<and>
      nodes l1 = (link_previous (link_next (nodes l) (final None bs) (first cs None)) (first cs None) (final None bs))
        (a := None) \<and>
      head l1 = first (bs @ cs) None \<and> tail l1 = final None (bs @ cs) \<and> list_size l1 = list_size l - 1"
    using n hd tl ht nb nc
    by (cases bs rule: rev_cases; cases cs)
      (auto simp: parcLinkedListNode_Delete_def set_next_eq set_previous_eq free_node_def link_next_def link_previous_def
        Let_def)
  then obtain l1 where l1: "parcLinkedListNode_Delete l (Some a) = Inr (xs ! i, l1)" "fresh l1 = fresh l"
      "nodes l1 = (link_previous (link_next (nodes l) (final None bs) (first cs None)) (first cs None) (final None bs))
        (a := None)"
      "head l1 = first (bs @ cs) None" "tail l1 = final None (bs @ cs)" "list_size l1 = list_size l - 1"
    by blast
  have "xs = take i xs @ xs ! i # drop (Suc i) xs" using i by (simp add: id_take_nth_drop [symmetric])
  then have "chain l (bs @ a # cs) (take i xs @ xs ! i # drop (Suc i) xs)" using d(1) as by metis
  then have "chain l1 (bs @ cs) (take i xs @ drop (Suc i) xs)"
    by (rule chain_unlink) (use l1 i len in \<open>simp_all add: bs_def\<close>)
  moreover have "list_size l1 = of_nat (length (take i xs @ drop (Suc i) xs))"
    using l1(6) d(2) i by (simp add: of_nat_diff)
  ultimately show ?thesis
    using p l1(1) d(3) i by (auto simp: linked_holds_def bs_def cs_def)
qed

lemma Create_node_eq:
  "parcLinkedListNode_Create T True h l e p q =
    rbind (parcObject_Acquire T h e) (\<lambda>(a, h1). Inr (Some (fresh l), h1,
      l\<lparr>nodes := (nodes l)(fresh l \<mapsto> \<lparr>element = a, previous = p, next_node = q\<rparr>), fresh := Suc (fresh l)\<rparr>))"
  by (simp add: parcLinkedListNode_Create_def create_node_def)

lemma Append_listed:
  assumes h: "linked_holds l as xs" and r: "Suc (length xs) < 2 ^ 64" and a: "parcObject_Acquire T h e = Inr (x, h1)"
  shows "\<exists>l1. parcLinkedList_Append T True h l e = Inr (h1, l1) \<and> linked_holds l1 (as @ [fresh l]) (xs @ [x])"
proof -
  note d = linked_holdsD [OF h]
  let ?n = "\<lparr>element = x, previous = final None as, next_node = None\<rparr>"
  let ?l1 = "l\<lparr>nodes := link_next ((nodes l)(fresh l \<mapsto> ?n)) (final None as) (Some (fresh l)),
    fresh := Suc (fresh l), tail := Some (fresh l), head := first (as @ [fresh l]) None, list_size := list_size l + 1\<rparr>"
  have "parcLinkedList_Append T True h l e = Inr (h1, ?l1)"
  proof (cases as rule: rev_cases)
    case Nil
    then show ?thesis
      using d(1) a by (simp add: parcLinkedList_Append_def Create_node_eq chain_def link_next_def)
  next
    case (snoc bs b)
    then have "b \<in> dom (nodes l)" "tail l = Some b" "head l = first as None" "head l \<noteq> None"
      using d(1) by (auto simp: chain_def)
    moreover from this have "fresh l \<noteq> b" using d(1) snoc by (auto simp: chain_def)
    ultimately show ?thesis
      using snoc a by (auto simp: parcLinkedList_Append_def Create_node_eq set_next_eq)
  qed
  moreover have "chain ?l1 (as @ [fresh l]) (xs @ [x])"
    using chain_link [of l as "[]" xs "[]" ?l1 x] d(1) chain_length [OF d(1)] by (simp add: link_previous_def)
  ultimately show ?thesis using d(2) r by (simp add: linked_holds_def add.commute)
qed

lemma Prepend_listed:
  assumes h: "linked_holds l as xs" and r: "Suc (length xs) < 2 ^ 64" and a: "parcObject_Acquire T h e = Inr (x, h1)"
  shows "\<exists>l1. parcLinkedList_Prepend T True h l e =
      rbind (assertTrue (all_valid h1 (x # xs))) (\<lambda>_. Inr (h1, l1)) \<and> linked_holds l1 (fresh l # as) (x # xs)"
proof -
  note d = linked_holdsD [OF h]
  let ?n = "\<lparr>element = x, previous = None, next_node = first as None\<rparr>"
  let ?m = "link_previous ((nodes l)(fresh l \<mapsto> ?n)) (first as None) (Some (fresh l))"
  have "\<exists>l1. parcLinkedList_Prepend T True h l e = rbind (parcLinkedList_AssertValid h1 l1) (\<lambda>_. Inr (h1, l1)) \<and>
      nodes l1 = ?m \<and> fresh l1 = Suc (fresh l) \<and> head l1 = Some (fresh l) \<and> tail l1 = final None (fresh l # as) \<and>
      list_size l1 = list_size l + 1"
  proof (cases as)
    case Nil
    then show ?thesis
      using d(1) a by (simp add: parcLinkedList_Prepend_def Create_node_eq chain_def link_previous_def Let_def)
        (rule exI, rule conjI, rule refl, simp)
  next
    case (Cons b bs)
    then have "b \<in> dom (nodes l)" "head l = Some b" "tail l = final None (fresh l # as)" "tail l \<noteq> None"
      using d(1) by (auto simp: chain_def)
    moreover from this have "fresh l \<noteq> b" using d(1) Cons by (auto simp: chain_def)
    ultimately show ?thesis
      using Cons a by (auto simp: parcLinkedList_Prepend_def Create_node_eq set_previous_eq Let_def)
  qed
  then obtain l1 where l1: "parcLinkedList_Prepend T True h l e = rbind (parcLinkedList_AssertValid h1 l1) (\<lambda>_. Inr (h1, l1))"
      "nodes l1 = ?m" "fresh l1 = Suc (fresh l)" "head l1 = Some (fresh l)" "tail l1 = final None (fresh l # as)"
      "list_size l1 = list_size l + 1"
    by blast
  have "chain l1 (fresh l # as) (x # xs)"
    using chain_link [of l "[]" as "[]" xs l1 x] d(1) l1 by (simp add: link_next_def)
  then have h1: "linked_holds l1 (fresh l # as) (x # xs)" using d(2) r l1(6) by (simp add: linked_holds_def add.commute)
  then show ?thesis using l1(1) AssertValid_chain [OF h1, of h1] by metis
qed

section \<open>Walks\<close>

lemma getByIndex_chain:
  assumes c: "chain l as xs"
  shows "getByIndex_loop l i (first (drop j as) None) = Inr (first (drop (j + i) as) None)"
proof (induction i arbitrary: j)
  case (Suc i)
  show ?case
  proof (cases "j < length xs")
    case True
    then have "first (drop j as) None \<noteq> None" using chain_length [OF c] by simp
    then show ?thesis using node_at_index [OF c True] Suc.IH [of "Suc j"] by simp
  next
    case False
    then show ?thesis using chain_length [OF c] by simp
  qed
qed simp

text \<open>The position of the first element with the property, or the length.\<close>

fun find_index :: "('x \<Rightarrow> bool result) \<Rightarrow> 'x list \<Rightarrow> nat result" where
  "find_index P [] = Inr 0"
| "find_index P (x # xs) = rbind (P x) (\<lambda>b. if b then Inr 0 else rbind (find_index P xs) (\<lambda>n. Inr (Suc n)))"

fun sum_hash :: "('x \<Rightarrow> PARCHashCode result) \<Rightarrow> 'x list \<Rightarrow> PARCHashCode \<Rightarrow> PARCHashCode result" where
  "sum_hash f [] s = Inr s"
| "sum_hash f (x # xs) s = rbind (f x) (\<lambda>c. sum_hash f xs (s + c))"

fun all_equal :: "('x \<Rightarrow> 'x \<Rightarrow> bool result) \<Rightarrow> 'x list \<Rightarrow> 'x list \<Rightarrow> bool result" where
  "all_equal P (x # xs) (y # ys) = rbind (P x y) (\<lambda>b. if b then all_equal P xs ys else Inr False)"
| "all_equal P _ _ = Inr True"

text \<open>A walk from the node at an index on, by induction on what is left.\<close>

lemma walk_induct [consumes 1, case_names stop step]:
  assumes "chain l as xs"
    and "\<And>i. drop i xs = [] \<Longrightarrow> first (drop i as) None = None \<Longrightarrow> Q i"
    and "\<And>i. i < length xs \<Longrightarrow> first (drop i as) None \<noteq> None \<Longrightarrow> drop i xs = xs ! i # drop (Suc i) xs \<Longrightarrow>
      node_at l (first (drop i as) None) =
        Inr \<lparr>element = xs ! i, previous = final None (take i as), next_node = first (drop (Suc i) as) None\<rparr> \<Longrightarrow>
      Q (Suc i) \<Longrightarrow> Q i"
  shows "Q i"
proof (induction "length xs - i" arbitrary: i)
  case 0
  then show ?case using assms(2) [of i] chain_length [OF assms(1)] by simp
next
  case (Suc k)
  then have "i < length xs" "k = length xs - Suc i" by simp_all
  then show ?case
    using assms(3) [of i] Suc.hyps(1) [of "Suc i"] chain_length [OF assms(1)] node_at_index [OF assms(1)]
    by (simp add: Cons_nth_drop_Suc)
qed

lemma getByValue_chain:
  assumes c: "chain l as xs"
  shows "getByValue_loop T h l v (first (drop i as) None) =
    Some (rbind (find_index (\<lambda>x. parcObject_Equals T h x v) (drop i xs)) (\<lambda>n. Inr (first (drop (i + n) as) None)))"
  using c
proof (induction i rule: walk_induct)
  case (stop i)
  then show ?case by (subst getByValue_loop.simps) simp
next
  case (step i)
  then show ?case
    by (subst getByValue_loop.simps, cases "parcObject_Equals T h (xs ! i) v";
        cases "find_index (\<lambda>x. parcObject_Equals T h x v) (drop (Suc i) xs)") auto
qed

lemma contains_chain:
  assumes c: "chain l as xs"
  shows "contains_nodes T h l v (first (drop i as) None) =
    Some (rbind (find_index (\<lambda>x. parcObject_Equals T h x v) (drop i xs)) (\<lambda>n. Inr (n < length (drop i xs))))"
  using c
proof (induction i rule: walk_induct)
  case (stop i)
  then show ?case by (subst contains_nodes.simps) simp
next
  case (step i)
  then show ?case
    by (subst contains_nodes.simps, cases "parcObject_Equals T h (xs ! i) v";
        cases "find_index (\<lambda>x. parcObject_Equals T h x v) (drop (Suc i) xs)") auto
qed

lemma hash_chain:
  assumes c: "chain l as xs"
  shows "hash_nodes T h l (first (drop i as) None) s = Some (sum_hash (parcObject_HashCode T h) (drop i xs) s)"
  using c
proof (induction i arbitrary: s rule: walk_induct)
  case (stop i)
  then show ?case by (subst hash_nodes.simps) simp
next
  case (step i)
  then show ?case by (subst hash_nodes.simps, cases "parcObject_HashCode T h (xs ! i)") auto
qed

lemma equal_chain:
  assumes c: "chain l as xs" and d: "chain m bs ys" and len: "length xs = length ys"
  shows "equal_nodes T h l m (first (drop i as) None) (first (drop i bs) None) =
    Some (all_equal (parcObject_Equals T h) (drop i xs) (drop i ys))"
  using c
proof (induction i rule: walk_induct)
  case (stop i)
  then show ?case by (subst equal_nodes.simps) simp
next
  case (step i)
  have i: "i < length ys" using step.hyps(1) len by simp
  then have "drop i ys = ys ! i # drop (Suc i) ys" by (simp add: Cons_nth_drop_Suc)
  then show ?case
    using step node_at_index [OF d i] by (subst equal_nodes.simps, cases "parcObject_Equals T h (xs ! i) (ys ! i)") auto
qed

section \<open>A linked list is a list of acquired objects\<close>

datatype linked_call =
    LinkedAppend ptr | LinkedPrepend ptr | LinkedRemoveFirst | LinkedRemoveLast | LinkedRemoveAtIndex size_t
  | LinkedRemove ptr | LinkedGetFirst | LinkedGetLast | LinkedGetAtIndex size_t | LinkedSetAtIndex size_t ptr
  | LinkedContains ptr | LinkedHashCode | LinkedSize | LinkedIsEmpty

fun linked_step :: "'p types \<Rightarrow> 'p listed \<Rightarrow> linked_call \<Rightarrow> (call_value \<times> 'p listed) result" where
  "linked_step T (h, l) (LinkedAppend p) = rbind (parcLinkedList_Append T True h l p) (\<lambda>s. Inr (Nothing, s))"
| "linked_step T (h, l) (LinkedPrepend p) = rbind (parcLinkedList_Prepend T True h l p) (\<lambda>s. Inr (Nothing, s))"
| "linked_step T (h, l) LinkedRemoveFirst = rbind (parcLinkedList_RemoveFirst h l) (\<lambda>(p, l1). Inr (Pointer p, h, l1))"
| "linked_step T (h, l) LinkedRemoveLast = rbind (parcLinkedList_RemoveLast h l) (\<lambda>(p, l1). Inr (Pointer p, h, l1))"
| "linked_step T (h, l) (LinkedRemoveAtIndex i) = rbind (parcLinkedList_RemoveAtIndex l i) (\<lambda>(p, l1). Inr (Pointer p, h, l1))"
| "linked_step T (h, l) (LinkedRemove p) = rbind (parcLinkedList_Remove T h l p) (\<lambda>(b, s). Inr (Truth b, s))"
| "linked_step T (h, l) LinkedGetFirst = rbind (parcLinkedList_GetFirst l) (\<lambda>p. Inr (Pointer p, h, l))"
| "linked_step T (h, l) LinkedGetLast = rbind (parcLinkedList_GetLast l) (\<lambda>p. Inr (Pointer p, h, l))"
| "linked_step T (h, l) (LinkedGetAtIndex i) = rbind (parcLinkedList_GetAtIndex l i) (\<lambda>p. Inr (Pointer p, h, l))"
| "linked_step T (h, l) (LinkedSetAtIndex i p) = rbind (parcLinkedList_SetAtIndex T h l i p) (\<lambda>(q, s). Inr (Pointer q, s))"
| "linked_step T (h, l) (LinkedContains p) = rbind (parcLinkedList_Contains T h l p) (\<lambda>b. Inr (Truth b, h, l))"
| "linked_step T (h, l) LinkedHashCode = rbind (parcLinkedList_HashCode T h l) (\<lambda>c. Inr (Number c, h, l))"
| "linked_step T (h, l) LinkedSize = Inr (Number (parcLinkedList_Size l), h, l)"
| "linked_step T (h, l) LinkedIsEmpty = Inr (Truth (parcLinkedList_IsEmpty l), h, l)"

text \<open>
  The calls on a list of pointers in the same heap. The list holds a reference to each of its elements: what it takes in is acquired,
  what \<open>Remove\<close> takes out is released, and what the other removals return and \<open>SetAtIndex\<close> replaces keeps its reference.
\<close>

definition checked :: "'p heap \<Rightarrow> ptr list \<Rightarrow> 'v \<Rightarrow> ('v \<times> 'p heap \<times> ptr list) result" where
  "checked h xs v = rbind (assertTrue (all_valid h xs)) (\<lambda>_. Inr (v, h, xs))"

definition remove_nth :: "nat \<Rightarrow> 'x list \<Rightarrow> 'x list" where
  "remove_nth n xs = take n xs @ drop (Suc n) xs"

fun linked_spec :: "'p types \<Rightarrow> 'p heap \<times> ptr list \<Rightarrow> linked_call \<Rightarrow> (call_value \<times> 'p heap \<times> ptr list) result" where
  "linked_spec T (h, xs) (LinkedAppend p) = rbind (parcObject_Acquire T h p) (\<lambda>(x, h1). Inr (Nothing, h1, xs @ [x]))"
| "linked_spec T (h, xs) (LinkedPrepend p) = rbind (parcObject_Acquire T h p) (\<lambda>(x, h1). checked h1 (x # xs) Nothing)"
| "linked_spec T (h, xs) LinkedRemoveFirst =
    (if xs = [] then Inr (Pointer None, h, xs) else checked h (tl xs) (Pointer (hd xs)))"
| "linked_spec T (h, xs) LinkedRemoveLast =
    (if xs = [] then Inr (Pointer None, h, xs) else checked h (butlast xs) (Pointer (last xs)))"
| "linked_spec T (h, xs) (LinkedRemoveAtIndex i) =
    (if unat i < length xs then Inr (Pointer (xs ! unat i), h, remove_nth (unat i) xs) else Inr (Pointer None, h, xs))"
| "linked_spec T (h, xs) (LinkedRemove p) =
    rbind (assertTrue (p \<noteq> None)) (\<lambda>_.
    rbind (find_index (\<lambda>x. parcObject_Equals T h x p) xs) (\<lambda>n.
    if n < length xs then rbind (parcObject_Release T h (xs ! n)) (\<lambda>(_, h1). checked h1 (remove_nth n xs) (Truth True))
    else checked h xs (Truth False)))"
| "linked_spec T (h, xs) LinkedGetFirst = Inr (Pointer (if xs = [] then None else hd xs), h, xs)"
| "linked_spec T (h, xs) LinkedGetLast = Inr (Pointer (if xs = [] then None else last xs), h, xs)"
| "linked_spec T (h, xs) (LinkedGetAtIndex i) =
    (if xs = [] then Inr (Pointer None, h, xs) else if unat i < length xs then Inr (Pointer (xs ! unat i), h, xs)
     else Inl OutOfBounds)"
| "linked_spec T (h, xs) (LinkedSetAtIndex i p) =
    (if xs = [] then Inr (Pointer None, h, xs)
     else if unat i < length xs
     then rbind (parcObject_Acquire T h p) (\<lambda>(x, h1). Inr (Pointer (xs ! unat i), h1, xs[unat i := x]))
     else Inl OutOfBounds)"
| "linked_spec T (h, xs) (LinkedContains p) =
    rbind (find_index (\<lambda>x. parcObject_Equals T h x p) xs) (\<lambda>n. Inr (Truth (n < length xs), h, xs))"
| "linked_spec T (h, xs) LinkedHashCode = rbind (sum_hash (parcObject_HashCode T h) xs 0) (\<lambda>c. Inr (Number c, h, xs))"
| "linked_spec T (h, xs) LinkedSize = Inr (Number (of_nat (length xs)), h, xs)"
| "linked_spec T (h, xs) LinkedIsEmpty = Inr (Truth (xs = []), h, xs)"

definition linked_represents :: "nat \<Rightarrow> 'p listed \<Rightarrow> 'p heap \<times> ptr list \<Rightarrow> bool" where
  "linked_represents n s x \<longleftrightarrow> fst s = fst x \<and> (\<exists>as. linked_holds (snd s) as (snd x)) \<and> length (snd x) + n < 2 ^ 64"

text \<open>The index check of \<open>GetAtIndex\<close> and \<open>SetAtIndex\<close>, which lets every index of an empty list pass.\<close>

lemma index_check:
  assumes "linked_holds l as xs"
  shows "index > parcLinkedList_Size l - 1 \<longleftrightarrow> xs \<noteq> [] \<and> length xs \<le> unat index"
proof (cases "xs = []")
  case True
  then show ?thesis
    using linked_holdsD(2) [OF assms] word_n1_ge [of index] by (simp add: parcLinkedList_Size_def not_less [symmetric])
next
  case False
  note d = linked_holdsD [OF assms]
  have "list_size l \<noteq> 0" using d(5) False by simp
  then have "unat (list_size l - 1) = length xs - 1" using d(4) by (simp add: unat_minus_one)
  then show ?thesis using False by (cases xs) (auto simp: parcLinkedList_Size_def word_less_nat_alt)
qed

lemma getByIndex_holds:
  assumes "chain l as xs"
  shows "parcLinkedListNode_getByIndex l i = Inr (first (drop (unat i) as) None)"
  using getByIndex_chain [OF assms, of "unat i" 0] assms by (simp add: parcLinkedListNode_getByIndex_def chain_def)

lemma GetAtIndex_listed:
  assumes h: "linked_holds l as xs"
  shows "parcLinkedList_GetAtIndex l i =
    (if xs = [] then Inr None else if unat i < length xs then Inr (xs ! unat i) else Inl OutOfBounds)"
proof -
  note d = linked_holdsD [OF h]
  have "first (drop (unat i) as) None = None \<longleftrightarrow> \<not> unat i < length xs" using chain_length [OF d(1)] by auto
  then show ?thesis
    using index_check [OF h, of i] getByIndex_holds [OF d(1), of i] node_at_index [OF d(1), of "unat i"]
    by (auto simp: parcLinkedList_GetAtIndex_def simp del: first_None)
qed

lemma SetAtIndex_listed:
  assumes h: "linked_holds l as xs" and i: "unat i < length xs" and a: "parcObject_Acquire T h e = Inr (x, h1)"
  shows "\<exists>l1. parcLinkedList_SetAtIndex T h l i e = Inr (xs ! unat i, h1, l1) \<and> linked_holds l1 as (xs[unat i := x])"
proof -
  note d = linked_holdsD [OF h]
  have "first (drop (unat i) as) None \<noteq> None" using chain_length [OF d(1)] i by simp
  moreover obtain l1 where "set_element l (first (drop (unat i) as) None) x = Inr l1" "chain l1 as (xs[unat i := x])"
    "list_size l1 = list_size l"
    using chain_set_element [OF d(1) i, of x] by blast
  ultimately show ?thesis
    using index_check [OF h, of i] getByIndex_holds [OF d(1), of i] node_at_index [OF d(1) i] i a d(2,3)
    by (auto simp: parcLinkedList_SetAtIndex_def linked_holds_def simp del: first_None not_None_eq)
qed

lemma ends_of_chain:
  assumes c: "chain l as xs" and x: "xs \<noteq> []"
  shows "head l = first (drop 0 as) None" "tail l = first (drop (length xs - 1) as) None" "head l \<noteq> None" "tail l \<noteq> None"
proof -
  have "as \<noteq> []" and len: "length as = length xs" using chain_length [OF c] x by auto
  then have "drop (length xs - 1) as = [last as]" by (cases as rule: rev_cases) simp_all
  then show "head l = first (drop 0 as) None" "tail l = first (drop (length xs - 1) as) None"
    "head l \<noteq> None" "tail l \<noteq> None"
    using c \<open>as \<noteq> []\<close> by (simp_all add: chain_def final_def)
qed

lemma RemoveFirst_listed:
  assumes h: "linked_holds l as xs" and x: "xs \<noteq> []"
  shows "\<exists>l1 bs. parcLinkedList_RemoveFirst h l = rbind (assertTrue (all_valid h (tl xs))) (\<lambda>_. Inr (hd xs, l1)) \<and>
    linked_holds l1 bs (tl xs)"
proof -
  note e = ends_of_chain [OF linked_holdsD(1) [OF h] x]
  obtain l1 where l1: "parcLinkedListNode_Delete l (head l) = Inr (xs ! 0, l1)" "linked_holds l1 (drop 1 as) (drop 1 xs)"
    using Delete_holds [OF h, of 0] e(1) x by auto
  then show ?thesis
    using e(3) AssertValid_chain [OF l1(2), of h] x
    by (auto simp: parcLinkedList_RemoveFirst_def hd_conv_nth drop_Suc simp del: not_None_eq)
qed

lemma RemoveLast_listed:
  assumes h: "linked_holds l as xs" and x: "xs \<noteq> []"
  shows "\<exists>l1 bs. parcLinkedList_RemoveLast h l = rbind (assertTrue (all_valid h (butlast xs))) (\<lambda>_. Inr (last xs, l1)) \<and>
    linked_holds l1 bs (butlast xs)"
proof -
  note e = ends_of_chain [OF linked_holdsD(1) [OF h] x]
  have "take (length xs - 1) xs @ drop (Suc (length xs - 1)) xs = butlast xs" by (simp add: butlast_conv_take)
  then obtain l1 bs where l1: "parcLinkedListNode_Delete l (tail l) = Inr (last xs, l1)" "linked_holds l1 bs (butlast xs)"
    using Delete_holds [OF h, of "length xs - 1"] e(2) x by (auto simp: last_conv_nth)
  then show ?thesis
    using e(4) AssertValid_chain [OF l1(2), of h]
    by (auto simp: parcLinkedList_RemoveLast_def simp del: not_None_eq)
qed

lemma find_index_bound: "find_index P xs = Inr n \<Longrightarrow> n \<le> length xs"
  by (induction xs arbitrary: n) (auto split: if_splits)

lemma Remove_listed:
  assumes h: "linked_holds l as xs" and m: "length xs + m < 2 ^ 64"
  shows "agree (linked_represents m) (linked_step T (h, l) (LinkedRemove p)) (linked_spec T (h, xs) (LinkedRemove p))"
proof (cases "p = None \<or> (\<exists>e. find_index (\<lambda>x. parcObject_Equals T h x p) xs = Inl e)")
  case True
  note d = linked_holdsD [OF h]
  have "getByValue_loop T h l p (head l) =
      Some (rbind (find_index (\<lambda>x. parcObject_Equals T h x p) xs) (\<lambda>n. Inr (first (drop n as) None)))"
    using getByValue_chain [OF d(1), of T h p 0] d(1) by (simp add: chain_def)
  then show ?thesis
    using True by (auto simp: parcLinkedList_Remove_def parcLinkedListNode_getByValue_def assertTrue_def)
next
  case False
  note d = linked_holdsD [OF h]
  from False obtain n where n: "find_index (\<lambda>x. parcObject_Equals T h x p) xs = Inr n" and p: "p \<noteq> None"
    by (cases "find_index (\<lambda>x. parcObject_Equals T h x p) xs") auto
  have g: "parcLinkedListNode_getByValue T h l p = Inr (first (drop n as) None)"
    using getByValue_chain [OF d(1), of T h p 0] d(1) n by (simp add: chain_def parcLinkedListNode_getByValue_def)
  show ?thesis
  proof (cases "n < length xs")
    case True
    then have ne: "first (drop n as) None \<noteq> None" using chain_length [OF d(1)] by simp
    obtain l1 where l1: "parcLinkedListNode_Delete l (first (drop n as) None) = Inr (xs ! n, l1)"
      "linked_holds l1 (take n as @ drop (Suc n) as) (remove_nth n xs)"
      using Delete_holds [OF h True] by (auto simp: remove_nth_def)
    have "length (remove_nth n xs) + m < 2 ^ 64" using m True by (simp add: remove_nth_def)
    then show ?thesis
      using p n g ne l1 True
      by (cases "parcObject_Release T h (xs ! n)")
        (auto simp: AssertValid_chain [OF l1(2)] parcLinkedList_Remove_def checked_def assertTrue_def linked_represents_def simp del: not_None_eq first_None)
  next
    case False
    then have "first (drop n as) None = None" using chain_length [OF d(1)] by simp
    then show ?thesis
      using p n g False h m AssertValid_chain [OF h, of h]
      by (auto simp: parcLinkedList_Remove_def checked_def assertTrue_def linked_represents_def)
  qed
qed

lemma Prepend_agrees:
  assumes lh: "linked_holds l as xs" and len: "Suc (length xs + n) < 2 ^ 64"
  shows "agree (linked_represents n) (linked_step T (h, l) (LinkedPrepend p)) (linked_spec T (h, xs) (LinkedPrepend p))"
proof (cases "parcObject_Acquire T h p")
  case (Inl e)
  then show ?thesis by (simp add: parcLinkedList_Prepend_def parcLinkedListNode_Create_def)
next
  case (Inr a)
  obtain x1 h1 where a: "a = (x1, h1)" by (cases a)
  obtain l1 where "parcLinkedList_Prepend T True h l p =
      rbind (assertTrue (all_valid h1 (x1 # xs))) (\<lambda>_. Inr (h1, l1))" "linked_holds l1 (fresh l # as) (x1 # xs)"
    using Prepend_listed [OF lh, of T h p x1 h1] Inr a len by auto
  then show ?thesis using Inr a len by (auto simp: checked_def assertTrue_def linked_represents_def)
qed

lemma RemoveFirst_agrees:
  assumes lh: "linked_holds l as xs" and len: "Suc (length xs + n) < 2 ^ 64"
  shows "agree (linked_represents n) (linked_step T (h, l) LinkedRemoveFirst) (linked_spec T (h, xs) LinkedRemoveFirst)"
proof (cases "xs = []")
  case True
  then show ?thesis
    using lh len chain_nonempty [OF linked_holdsD(1) [OF lh]] AssertValid_chain [OF lh, of h]
    by (auto simp: parcLinkedList_RemoveFirst_def all_valid_def linked_represents_def)
next
  case False
  then show ?thesis
    using RemoveFirst_listed [OF lh False, of h] len by (auto simp: checked_def assertTrue_def linked_represents_def)
qed

lemma RemoveLast_agrees:
  assumes lh: "linked_holds l as xs" and len: "Suc (length xs + n) < 2 ^ 64"
  shows "agree (linked_represents n) (linked_step T (h, l) LinkedRemoveLast) (linked_spec T (h, xs) LinkedRemoveLast)"
proof (cases "xs = []")
  case True
  then show ?thesis
    using lh len chain_nonempty [OF linked_holdsD(1) [OF lh]] AssertValid_chain [OF lh, of h]
    by (auto simp: parcLinkedList_RemoveLast_def all_valid_def linked_represents_def)
next
  case False
  then show ?thesis
    using RemoveLast_listed [OF lh False, of h] len by (auto simp: checked_def assertTrue_def linked_represents_def)
qed

lemma RemoveAtIndex_agrees:
  assumes lh: "linked_holds l as xs" and len: "Suc (length xs + n) < 2 ^ 64"
  shows "agree (linked_represents n) (linked_step T (h, l) (LinkedRemoveAtIndex i)) (linked_spec T (h, xs) (LinkedRemoveAtIndex i))"
proof (cases "unat i < length xs")
  case True
  then have "first (drop (unat i) as) None \<noteq> None" using chain_length [OF linked_holdsD(1) [OF lh]] by simp
  then show ?thesis
    using Delete_holds [OF lh True] getByIndex_holds [OF linked_holdsD(1) [OF lh], of i] len True
    by (auto simp: parcLinkedList_RemoveAtIndex_def remove_nth_def linked_represents_def simp del: not_None_eq first_None)
next
  case False
  then have "first (drop (unat i) as) None = None" using chain_length [OF linked_holdsD(1) [OF lh]] by simp
  then show ?thesis
    using getByIndex_holds [OF linked_holdsD(1) [OF lh], of i] lh len False
    by (auto simp: parcLinkedList_RemoveAtIndex_def linked_represents_def)
qed

lemma SetAtIndex_agrees:
  assumes lh: "linked_holds l as xs" and len: "Suc (length xs + n) < 2 ^ 64"
  shows "agree (linked_represents n) (linked_step T (h, l) (LinkedSetAtIndex i p)) (linked_spec T (h, xs) (LinkedSetAtIndex i p))"
proof (cases "unat i < length xs")
  case True
  then have ne: "first (drop (unat i) as) None \<noteq> None" "xs \<noteq> []"
    using chain_length [OF linked_holdsD(1) [OF lh]] by auto
  note g = index_check [OF lh, of i] getByIndex_holds [OF linked_holdsD(1) [OF lh], of i]
    node_at_index [OF linked_holdsD(1) [OF lh] True]
  show ?thesis
  proof (cases "parcObject_Acquire T h p")
    case (Inl e)
    then show ?thesis using True ne g by (simp add: parcLinkedList_SetAtIndex_def del: not_None_eq first_None)
  next
    case (Inr a)
    obtain x1 h1 where a: "a = (x1, h1)" by (cases a)
    then show ?thesis
      using SetAtIndex_listed [OF lh True, of T h p x1 h1] Inr True ne(2) len by (auto simp: linked_represents_def)
  qed
next
  case False
  then have "first (drop (unat i) as) None = None" using chain_length [OF linked_holdsD(1) [OF lh]] by simp
  then show ?thesis
    using False index_check [OF lh, of i] getByIndex_holds [OF linked_holdsD(1) [OF lh], of i] lh len
    by (auto simp: parcLinkedList_SetAtIndex_def linked_represents_def)
qed

lemma linked_step_agrees:
  assumes r: "linked_represents (Suc n) s x"
  shows "agree (linked_represents n) (linked_step T s c) (linked_spec T x c)"
proof -
  obtain h l xs as where s: "s = (h, l)" "x = (h, xs)" and lh: "linked_holds l as xs" and len: "Suc (length xs + n) < 2 ^ 64"
    using r by (cases s; cases x) (auto simp: linked_represents_def)
  note d = linked_holdsD [OF lh]
  have keep: "linked_represents n (h, l) (h, xs)" using lh len by (auto simp: linked_represents_def)
  have hd: "head l = first (drop 0 as) None" using d(1) by (simp add: chain_def)
  note nonempty = ends_of_chain [OF d(1)] chain_nonempty [OF d(1)]
  show ?thesis
  proof (cases c)
    case (LinkedAppend p)
    show ?thesis
    proof (cases "parcObject_Acquire T h p")
      case (Inl e)
      then show ?thesis using LinkedAppend s by (simp add: parcLinkedList_Append_def parcLinkedListNode_Create_def)
    next
      case (Inr a)
      then show ?thesis
        using LinkedAppend s len Append_listed [OF lh, of T h p "fst a" "snd a"]
        by (cases a) (auto simp: linked_represents_def)
    qed
  next
    case LinkedGetFirst
    then show ?thesis
      using s keep nonempty node_at_index [OF d(1), of 0]
      by (cases "xs = []") (simp_all add: parcLinkedList_GetFirst_def hd_conv_nth)
  next
    case LinkedGetLast
    then show ?thesis
      using s keep nonempty node_at_index [OF d(1), of "length xs - 1"]
      by (cases "xs = []") (simp_all add: parcLinkedList_GetLast_def last_conv_nth)
  next
    case (LinkedGetAtIndex i)
    then show ?thesis using s keep GetAtIndex_listed [OF lh, of i] by auto
  next
    case (LinkedContains p)
    then show ?thesis
      using s keep contains_chain [OF d(1), of T h p 0] hd
      by (cases "find_index (\<lambda>x. parcObject_Equals T h x p) xs") (simp_all add: parcLinkedList_Contains_def)
  next
    case LinkedHashCode
    then show ?thesis
      using s keep hash_chain [OF d(1), of T h 0 0] hd
      by (cases "sum_hash (parcObject_HashCode T h) xs 0") (simp_all add: parcLinkedList_HashCode_def)
  next
    case LinkedIsEmpty
    then show ?thesis using s keep d(5) by (simp add: parcLinkedList_IsEmpty_def parcLinkedList_Size_def)
  next
    case (LinkedRemove p)
    then show ?thesis using s Remove_listed [OF lh, of n T h p] len by simp
  next
    case LinkedSize
    then show ?thesis using s keep d(2) by (simp add: parcLinkedList_Size_def)
  qed (use s lh len Prepend_agrees RemoveFirst_agrees RemoveLast_agrees RemoveAtIndex_agrees SetAtIndex_agrees in
      \<open>auto simp del: linked_step.simps linked_spec.simps\<close>)
qed

interpretation linked_list: simulation "linked_step T" "linked_spec T" linked_represents
  by unfold_locales (rule linked_step_agrees)



section \<open>Iteration\<close>

text \<open>A live object of the heap with a known class, as \<open>_parcLinkedListNode_Next\<close> asks.\<close>

definition usable :: "'p types \<Rightarrow> 'p heap \<Rightarrow> ptr \<Rightarrow> bool" where
  "usable T h x \<longleftrightarrow> parcObject_IsValid h x \<and> parcObject_AssertValid T h x = Inr ()"

definition linked_visited :: "'p types \<Rightarrow> 'p listed \<Rightarrow> ptr list \<Rightarrow> nat \<Rightarrow> ptr \<Rightarrow> bool" where
  "linked_visited T s xs n p \<longleftrightarrow>
    (\<exists>as. chain (snd s) as xs \<and> n \<le> length xs \<and> p = final None (take n as) \<and> (\<forall>x \<in> set xs. usable T (fst s) x))"

lemma usable_node:
  assumes "chain l as xs" "\<forall>x \<in> set xs. usable T h x" "i < length xs"
  shows "parcLinkedListNode_IsValid h l (first (drop i as) None) = Inr True" "parcObject_AssertValid T h (xs ! i) = Inr ()"
  using assms IsValid_node [OF chain_path [OF assms(1)] assms(3), of h] by (auto simp: usable_def)

interpretation linked_iteration: iteration parcLinkedIterator_Init parcLinkedListNode_HasNext "parcLinkedListNode_Next T"
  "Some (parcLinkedListNode_Remove T)" parcLinkedListNode_Element parcLinkedListNode_Fini
  "Some parcLinkedListIterator_IsValid"
  "\<lambda>s xs. (\<exists>as. chain (snd s) as xs) \<and> (\<forall>x \<in> set xs. usable T (fst s) x)" "linked_visited T"
proof unfold_locales
  fix s xs n p c
  show "(\<exists>as. chain (snd s) as xs) \<and> (\<forall>x \<in> set xs. usable T (fst s) x) \<Longrightarrow> linked_visited T s xs 0 (parcLinkedIterator_Init s)"
    by (simp add: linked_visited_def parcLinkedIterator_Init_def)
  assume v: "linked_visited T s xs n p"
  obtain h l where s: "s = (h, l)" by (cases s)
  obtain as where c: "chain l as xs" "n \<le> length xs" "p = final None (take n as)" and u: "\<forall>x \<in> set xs. usable T h x"
    using v s by (auto simp: linked_visited_def)
  note cur = chain_cursor [OF c(1,2)]
  have pm: "p = first (drop m as) None" if "n = Suc m" for m
    using chain_cursor(3) [OF c(1), of m] c(2,3) that by simp
  show "Some parcLinkedListIterator_IsValid = Some c \<Longrightarrow> c s p = Inr ()"
    using s c(2) pm usable_node(1) [OF c(1) u] cur(1) c(3) by (cases n) (auto simp: parcLinkedListIterator_IsValid_def)
  have q: "(if p = None then Inr (head l) else rbind (node_at l p) (\<lambda>n. Inr (next_node n))) = Inr (first (drop n as) None)"
  proof (cases n)
    case 0
    then show ?thesis using c(1,3) by (simp add: chain_def)
  next
    case (Suc m)
    then have "p \<noteq> None" using c(3) cur(1) by simp
    then show ?thesis using c(3) cur(4) [OF Suc] Suc by simp
  qed
  show "parcLinkedListNode_HasNext s p = Inr (n < length xs)"
    using s q cur(2) usable_node(1) [OF c(1) u, of n] c(2)
    by (auto simp: parcLinkedListNode_HasNext_def nat_less_le simp del: first_None)
  assume n: "n < length xs"
  let ?q = "first (drop n as) None"
  have ne: "?q \<noteq> None" using cur(2) n by simp
  have "rbind (parcLinkedListNode_IsValid h l p) (\<lambda>v. rbind (assertTrue v) (\<lambda>_. rbind (node_at l p) (\<lambda>n.
      rbind (trapIf OutOfBounds (next_node n = None)) (\<lambda>_. Inr (next_node n))))) = Inr ?q" if "p \<noteq> None"
  proof -
    have "n \<noteq> 0" using that c(3) by auto
    then obtain m where "n = Suc m" by (cases n) auto
    then show ?thesis using ne pm cur(4) usable_node(1) [OF c(1) u, of m] n c(3) by (simp del: first_None not_None_eq)
  qed
  then have "parcLinkedListNode_Next T s p = Inr ?q"
    using s q usable_node [OF c(1) u n] node_at_index [OF c(1) n]
    by (cases "p = None") (auto simp: parcLinkedListNode_Next_def)
  moreover have "linked_visited T s xs (Suc n) ?q" using c(1) u n s cur(3) [OF n] by (auto simp: linked_visited_def)
  moreover have "parcLinkedListNode_Element s ?q = Inr (xs ! n)"
    using s node_at_index [OF c(1) n] by (simp add: parcLinkedListNode_Element_def)
  ultimately show "\<exists>s1. parcLinkedListNode_Next T s p = Inr s1 \<and> linked_visited T s xs (Suc n) s1 \<and>
      parcLinkedListNode_Element s s1 = Inr (xs ! n)"
    by blast
qed

lemma usable_iff: "usable T h x \<longleftrightarrow> (\<exists>a header. x = Some a \<and> object_at T h a header \<and> references header \<noteq> 0)"
  by (auto simp: usable_def parcObject_AssertValid_iff parcObject_IsValid_def parcObjectHeader_IsValid_def object_at_def
      object_ok_def split: if_splits)

lemma Acquire_ok:
  assumes "usable T h x" and "\<And>a. x = Some a \<Longrightarrow> Suc (object_count a h) < 2 ^ 64"
  shows "\<exists>h1. parcObject_Acquire T h x = Inr (x, h1) \<and> (\<forall>y. usable T h y \<longrightarrow> usable T h1 y) \<and>
    (\<forall>a. object_count a h1 = object_count a h + (if x = Some a then 1 else 0))"
proof -
  obtain a header where a: "x = Some a" "object_at T h a header"
    using assms(1) by (auto simp: usable_iff)
  let ?h1 = "parcObject_SetHeader h a (header\<lparr>references := references header + 1\<rparr>)"
  have "unat (references header) + 1 < 2 ^ 64" using assms(2) [OF a(1)] a(2) by (simp add: object_count_def object_at_def)
  then have u: "unat (references header + 1) = Suc (unat (references header))"
    using unat_add_no_wrap [of "references header" 1] by simp
  then have "references header + 1 \<noteq> 0" by (metis nat.distinct(1) unat_0)
  then have "usable T ?h1 y" if "usable T h y" for y
    using that a(2) by (cases "y = Some a") (auto simp: usable_iff object_at_def)
  moreover have "object_count b ?h1 = object_count b h + (if x = Some b then 1 else 0)" for b
    using a u by (auto simp: object_count_def object_at_def)
  ultimately show ?thesis using parcObject_Acquire_ok [OF a(2)] a(1) by auto
qed

text \<open>
  Appending another list appends its elements in their order and acquires each of them once for every time it occurs. The
  iterator finds all of them although the counts change under it.
\<close>

lemma AppendAll_listed:
  fixes h :: "'a heap"
  assumes l: "linked_holds l as ys" and o: "linked_holds other bs xs" and u: "\<forall>x \<in> set xs. usable T h x"
    and r: "\<forall>a. Some a \<in> set xs \<longrightarrow> object_count a h + length xs < 2 ^ 64" and len: "length ys + length xs < 2 ^ 64"
  shows "\<exists>h1 l1 cs. parcLinkedList_AppendAll T True True h l other = Inr (h1, l1) \<and> linked_holds l1 cs (ys @ xs) \<and>
    (\<forall>a. object_count a h1 = object_count a h + count_list xs (Some a))"
proof -
  define Q where "Q n s \<longleftrightarrow> (\<exists>cs. linked_holds (snd s) cs (ys @ take n xs)) \<and> (\<forall>x \<in> set xs. usable T (fst s) x) \<and>
    (\<forall>a. object_count a (fst s) = object_count a h + count_list (take n xs) (Some a))"
    for n and s :: "'a listed"
  let ?f = "\<lambda>x (h, l). parcLinkedList_Append T True h l x"
  have step: "\<exists>s1. ?f (xs ! n) s = Inr s1 \<and> Q (Suc n) s1" if q: "Q n s" and n: "n < length xs" for n s
  proof -
    obtain h1 l1 where s: "s = (h1, l1)" by (cases s)
    obtain cs where cs: "linked_holds l1 cs (ys @ take n xs)" using q s by (auto simp: Q_def)
    have x: "xs ! n \<in> set xs" using n by simp
    have "Suc (object_count a h1) < 2 ^ 64" if "xs ! n = Some a" for a
    proof -
      have "object_count a h1 \<le> object_count a h + n"
        using q s count_le_length [of "take n xs" "Some a"] n by (simp add: Q_def)
      moreover have "object_count a h + length xs < 2 ^ 64" using r x that by simp
      ultimately show ?thesis using n by simp
    qed
    then obtain h2 where h2: "parcObject_Acquire T h1 (xs ! n) = Inr (xs ! n, h2)" "\<forall>y. usable T h1 y \<longrightarrow> usable T h2 y"
      "\<forall>a. object_count a h2 = object_count a h1 + (if xs ! n = Some a then 1 else 0)"
      using Acquire_ok [of T h1 "xs ! n"] q s x by (auto simp: Q_def)
    have t: "take (Suc n) xs = take n xs @ [xs ! n]" using n by (rule take_Suc_conv_app_nth)
    obtain l2 where "parcLinkedList_Append T True h1 l1 (xs ! n) = Inr (h2, l2)"
      "linked_holds l2 (cs @ [fresh l1]) (ys @ take (Suc n) xs)"
      using Append_listed [OF cs _ h2(1)] len n t by auto
    then show ?thesis using q s h2 t by (auto simp: Q_def)
  qed
  have q0: "Q 0 (h, l)" using l u by (auto simp: Q_def)
  obtain it where it: "parcLinkedList_CreateIterator T True (Some (h, other)) = Inr (Some it)"
    "linked_iteration.iterator_with T it" "linked_visited T (h, other) xs 0 (state it)"
    using linked_iteration.Create_iterates [of "(h, other)" xs T] linked_holdsD(1) [OF o] u
    by (auto simp: parcLinkedList_CreateIterator_def)
  have "iterate (\<lambda>(h, _). (h, other)) ?f (Some it) (h, l) = Some (fold_result ?f (drop 0 xs) (h, l))"
  proof (rule linked_iteration.iterate_fold [OF _ it(2)])
    fix n s s1 p
    assume q: "Q n s" "n < length xs" and f: "?f (xs ! n) s = Inr s1"
      and v: "linked_visited T ((\<lambda>(h, _). (h, other)) s) xs (Suc n) p"
    have "Q (Suc n) s1" using step [OF q] f by auto
    then show "Q (Suc n) s1 \<and> linked_visited T ((\<lambda>(h, _). (h, other)) s1) xs (Suc n) p"
      using v by (cases s; cases s1) (auto simp: linked_visited_def Q_def)
  qed (use it(3) q0 in auto)
  moreover obtain s1 where "fold_result ?f (drop 0 xs) (h, l) = Inr s1" "Q (length xs) s1"
    using fold_result_invariant [where Q = Q and f = ?f and xs = xs and n = 0 and r = "(h, l)"] step q0 by blast
  ultimately show ?thesis
    using it(1) by (cases s1) (auto simp: parcLinkedList_AppendAll_def Q_def)
qed

section \<open>Insertion\<close>

lemma insertion_node_chain:
  assumes c: "chain l as xs"
  shows "j < length xs \<Longrightarrow>
    insertion_node l i (first (drop j as) None) = Inr (first (drop (min (j + i) (length xs - 1)) as) None)"
proof (induction i arbitrary: j)
  case 0
  then show ?case by simp
next
  case (Suc i)
  have "first (drop (Suc j) as) None = None \<longleftrightarrow> \<not> Suc j < length xs" using chain_length [OF c] by auto
  moreover have "length xs - 1 = j" if "\<not> Suc j < length xs" using that Suc.prems by simp
  ultimately show ?case
    using node_at_index [OF c Suc.prems] Suc.IH [of "Suc j"] Suc.prems
    by (cases "Suc j < length xs") (auto simp del: first_None)
qed

text \<open>Insertion before the node at \<open>k\<close>, for an index that is neither the first nor the end.\<close>

lemma Insert_before:
  assumes h: "linked_holds l as xs" and k: "0 < k" "k < length xs" and r: "Suc (length xs) < 2 ^ 64"
    and a: "parcObject_Acquire T h e = Inr (x, h1)"
  shows "\<exists>l1. rbind (node_at l (first (drop k as) None)) (\<lambda>n.
      rbind (parcLinkedListNode_Create T True h l e (previous n) (first (drop k as) None)) (\<lambda>(newNode, h1, l1).
      rbind (set_next l1 (previous n) newNode) (\<lambda>l2.
      rbind (set_previous l2 (first (drop k as) None) newNode) (\<lambda>l3.
      Inr (h1, l3\<lparr>list_size := list_size l3 + 1\<rparr>))))) = Inr (h1, l1) \<and>
    linked_holds l1 (take k as @ fresh l # drop k as) (take k xs @ x # drop k xs)"
proof -
  note d = linked_holdsD [OF h]
  have len: "length as = length xs" using chain_length [OF d(1)] .
  define bs cs where "bs = take k as" and "cs = drop k as"
  have as: "as = bs @ cs" "bs \<noteq> []" "cs \<noteq> []" using k len by (auto simp: bs_def cs_def)
  obtain b where b: "final None bs = Some b" "b \<in> set bs" using as(2) by (auto simp: final_def)
  obtain c where c: "first cs None = Some c" "c \<in> set cs" using as(3) by (cases cs) auto
  have dm: "b \<in> dom (nodes l)" "c \<in> dom (nodes l)" "b \<noteq> c" and nf: "fresh l \<noteq> b" "fresh l \<noteq> c"
    using d(1) as(1) b(2) c(2) by (auto simp: chain_def)
  let ?n = "\<lparr>element = x, previous = Some b, next_node = Some c\<rparr>"
  let ?m = "link_previous (link_next ((nodes l)(fresh l \<mapsto> ?n)) (Some b) (Some (fresh l))) (Some c) (Some (fresh l))"
  let ?l1 = "l\<lparr>fresh := Suc (fresh l), nodes := ?m, list_size := list_size l + 1\<rparr>"
  have n: "node_at l (Some c) = Inr \<lparr>element = xs ! k, previous = Some b, next_node = first (drop (Suc k) as) None\<rparr>"
    using node_at_index [OF d(1) k(2)] b(1) c(1) by (simp add: bs_def cs_def)
  have "c \<in> dom (link_next ((nodes l)(fresh l \<mapsto> ?n)) (Some b) (Some (fresh l)))"
    using dm by (subst link_dom(1)) auto
  then have "rbind (node_at l (Some c)) (\<lambda>n.
      rbind (parcLinkedListNode_Create T True h l e (previous n) (Some c)) (\<lambda>(newNode, h1, l1).
      rbind (set_next l1 (previous n) newNode) (\<lambda>l2.
      rbind (set_previous l2 (Some c) newNode) (\<lambda>l3.
      Inr (h1, l3\<lparr>list_size := list_size l3 + 1\<rparr>))))) = Inr (h1, ?l1)"
    using n a dm by (simp add: Create_node_eq set_next_eq set_previous_eq)
  moreover have "chain ?l1 (bs @ fresh l # cs) (take k xs @ x # drop k xs)"
  proof (rule chain_link)
    show "chain l (bs @ cs) (take k xs @ drop k xs)" using d(1) as(1) by simp
    show "head ?l1 = first (bs @ fresh l # cs) None" "tail ?l1 = final None (bs @ fresh l # cs)"
      using d(1) as by (cases bs; cases cs rule: rev_cases; simp add: chain_def)+
  qed (use b c k len in \<open>simp_all add: bs_def\<close>)
  moreover have "length (take k xs @ x # drop k xs) = Suc (length xs)" using k by simp
  ultimately show ?thesis
    using c(1) d(2) r unfolding linked_holds_def cs_def bs_def
    by (intro exI [of _ ?l1]) (simp del: length_append length_take length_drop)
qed

lemma Insert_at_end:
  assumes h: "linked_holds l as xs" and x: "xs \<noteq> []" and r: "Suc (length xs) < 2 ^ 64"
    and a: "parcObject_Acquire T h e = Inr (x, h1)"
  shows "\<exists>l1. rbind (parcLinkedListNode_Create T True h l e (tail l) None) (\<lambda>(newNode, h1, l1).
      rbind (set_next l1 (tail l) newNode) (\<lambda>l2. rbind (node_at l2 (tail l)) (\<lambda>n.
      Inr (h1, l2\<lparr>tail := next_node n, list_size := list_size l2 + 1\<rparr>)))) = Inr (h1, l1) \<and>
    linked_holds l1 (as @ [fresh l]) (xs @ [x])"
proof -
  note d = linked_holdsD [OF h]
  obtain b where b: "final None as = Some b" "tail l = Some b" "b \<in> set as"
    using d(1) x chain_length [OF d(1)] by (cases as rule: rev_cases) (auto simp: chain_def)
  then have dm: "b \<in> dom (nodes l)" "fresh l \<noteq> b" using d(1) by (auto simp: chain_def)
  let ?m = "link_next ((nodes l)(fresh l \<mapsto> \<lparr>element = x, previous = Some b, next_node = None\<rparr>)) (Some b) (Some (fresh l))"
  let ?l1 = "l\<lparr>fresh := Suc (fresh l), nodes := ?m, tail := Some (fresh l), list_size := list_size l + 1\<rparr>"
  have "rbind (parcLinkedListNode_Create T True h l e (tail l) None) (\<lambda>(newNode, h1, l1).
      rbind (set_next l1 (tail l) newNode) (\<lambda>l2. rbind (node_at l2 (tail l)) (\<lambda>n.
      Inr (h1, l2\<lparr>tail := next_node n, list_size := list_size l2 + 1\<rparr>)))) = Inr (h1, ?l1)"
    using a b dm by (auto simp: Create_node_eq set_next_eq node_at_def link_next_def)
  moreover have "chain ?l1 (as @ [fresh l]) (xs @ [x])"
  proof -
    have "head l = first (as @ [fresh l]) None" using d(1) b(3) by (cases as) (auto simp: chain_def)
    then show ?thesis
      using chain_link [of l as "[]" xs "[]" ?l1 x] d(1) chain_length [OF d(1)] b(1) by (simp add: link_previous_def)
  qed
  then have "linked_holds ?l1 (as @ [fresh l]) (xs @ [x])" using d(2) r by (simp add: linked_holds_def add.commute)
  ultimately show ?thesis by blast
qed

text \<open>At index 0 everything is right but the pointer to the last node, which becomes the one to the second.\<close>

lemma Insert_front:
  assumes h: "linked_holds l (b # as) (y # ys)" and r: "Suc (length (y # ys)) < 2 ^ 64"
    and a: "parcObject_Acquire T h e = Inr (x, h1)"
  shows "\<exists>l1. parcLinkedList_InsertAtIndex T True h l 0 e =
      rbind (assertTrue (all_valid h1 (x # y # ys))) (\<lambda>_. Inr (h1, l1\<lparr>tail := Some b\<rparr>)) \<and>
    linked_holds l1 (fresh l # b # as) (x # y # ys)"
proof -
  note d = linked_holdsD [OF h]
  let ?f = "fresh l"
  have b: "head l = Some b" "tail l = final (Some b) as" "b \<in> dom (nodes l)" using d(1) by (auto simp: chain_def)
  let ?m = "link_previous ((nodes l)(?f \<mapsto> \<lparr>element = x, previous = None, next_node = Some b\<rparr>)) (Some b) (Some ?f)"
  let ?l = "l\<lparr>fresh := Suc ?f, nodes := ?m, head := Some ?f, list_size := list_size l + 1\<rparr>"
  have "chain ?l (?f # b # as) (x # y # ys)"
    using chain_link [of l "[]" "b # as" "[]" "y # ys" ?l x] d(1) b by (simp add: link_next_def)
  then have l1: "linked_holds ?l (?f # b # as) (x # y # ys)" using d(2) r by (simp add: linked_holds_def)
  have p: "path (?l\<lparr>tail := Some b\<rparr>) (?f # b # as) (x # y # ys)"
    using chain_path [OF linked_holdsD(1) [OF l1]] by (simp del: segment.simps)
  have "list_size ?l > 0" using linked_holdsD(5) [OF l1] by (simp add: word_gt_0)
  then have "parcLinkedList_AssertValid h1 (?l\<lparr>tail := Some b\<rparr>) = assertTrue (all_valid h1 (x # y # ys))"
    using valid_loop_all [OF p, of h1] by (simp add: parcLinkedList_AssertValid_def parcLinkedList_IsValid_def)
  moreover have "parcLinkedList_InsertAtIndex T True h l 0 e =
      rbind (parcLinkedList_AssertValid h1 (?l\<lparr>tail := Some b\<rparr>)) (\<lambda>_. Inr (h1, ?l\<lparr>tail := Some b\<rparr>))"
  proof -
    have "?l\<lparr>tail := Some b\<rparr> =
        l\<lparr>fresh := Suc ?f, nodes := ?m, tail := Some b, head := Some ?f, list_size := list_size l + 1\<rparr>" by simp
    then show ?thesis
      using b a by (simp only:) (simp add: parcLinkedList_InsertAtIndex_def Create_node_eq set_previous_eq)
  qed
  ultimately have "parcLinkedList_InsertAtIndex T True h l 0 e =
      rbind (assertTrue (all_valid h1 (x # y # ys))) (\<lambda>_. Inr (h1, ?l\<lparr>tail := Some b\<rparr>))" by (simp only:)
  then show ?thesis using l1 by blast
qed

lemma Insert_small:
  assumes h: "linked_holds l as xs" and x: "length xs \<le> 1" and a: "parcObject_Acquire T h e = Inr (x, h1)"
  shows "\<exists>l1 bs. parcLinkedList_InsertAtIndex T True h l 0 e =
      rbind (assertTrue (all_valid h1 (x # xs))) (\<lambda>_. Inr (h1, l1)) \<and> linked_holds l1 bs (x # xs)"
proof (cases xs)
  case Nil
  note d = linked_holdsD [OF h]
  let ?l = "l\<lparr>nodes := [fresh l \<mapsto> \<lparr>element = x, previous = None, next_node = None\<rparr>], fresh := Suc (fresh l),
    head := Some (fresh l), tail := Some (fresh l), list_size := 1\<rparr>"
  have l1: "linked_holds ?l [fresh l] [x]" by (simp add: linked_holds_def chain_def)
  have "head l = None" "nodes l = Map.empty" "list_size l = 0" using d Nil chain_length [OF d(1)] by (auto simp: chain_def)
  then have "parcLinkedList_InsertAtIndex T True h l 0 e = rbind (parcLinkedList_AssertValid h1 ?l) (\<lambda>_. Inr (h1, ?l))"
    using a by (simp add: parcLinkedList_InsertAtIndex_def parcLinkedList_InsertInitialNode_def Create_node_eq)
  then show ?thesis using l1 AssertValid_chain [OF l1, of h1] Nil by metis
next
  case (Cons y ys)
  then obtain b where as: "as = [b]" "ys = []" using x chain_length [OF linked_holdsD(1) [OF h]] by (cases as) auto
  obtain l1 where l1: "parcLinkedList_InsertAtIndex T True h l 0 e =
      rbind (assertTrue (all_valid h1 (x # xs))) (\<lambda>_. Inr (h1, l1\<lparr>tail := Some b\<rparr>))" "linked_holds l1 [fresh l, b] (x # xs)"
    using Insert_front [of l b "[]" y "[]" T h e x h1] h a Cons as by auto
  have "tail l1 = Some b" using linked_holdsD(1) [OF l1(2)] by (simp add: chain_def)
  then have "l1\<lparr>tail := Some b\<rparr> = l1" by simp
  then show ?thesis using l1 by metis
qed

text \<open>A node appended behind the second one cuts the rest off.\<close>

lemma append_behind_second:
  assumes h: "linked_holds l (b # c # as) (x # y # ys)"
    and n: "nodes l1 = link_next ((nodes l)(fresh l \<mapsto> \<lparr>element = w, previous = Some c, next_node = None\<rparr>)) (Some c) (Some (fresh l))"
  shows "segment (nodes l1) None [b, c, fresh l] [x, y, w] None"
  using linked_holdsD(1) [OF h] by (auto simp: n chain_def link_next_def)

definition insertion_index :: "nat \<Rightarrow> nat \<Rightarrow> nat" where
  "insertion_index i n = (if i = n then n else min i (n - 1))"

lemma InsertAtIndex_inner:
  assumes h: "linked_holds l as xs" and x: "xs \<noteq> []" and i: "i \<noteq> 0" and r: "Suc (length xs) < 2 ^ 64"
    and a: "parcObject_Acquire T h e = Inr (x, h1)"
  shows "let k = insertion_index (unat i) (length xs); ys = take k xs @ x # drop k xs in
    if length xs = 1 \<and> unat i \<noteq> 1 then parcLinkedList_InsertAtIndex T True h l i e = Inl BadPointer
    else \<exists>l1 bs. parcLinkedList_InsertAtIndex T True h l i e = rbind (assertTrue (all_valid h1 ys)) (\<lambda>_. Inr (h1, l1)) \<and>
      linked_holds l1 bs ys"
proof -
  define k where k: "k = insertion_index (unat i) (length xs)"
  note k_def = k [unfolded insertion_index_def]
  note d = linked_holdsD [OF h]
  have i0: "0 < unat i" using i by (simp add: unat_gt_0)
  have s: "i = list_size l \<longleftrightarrow> unat i = length xs" using d(4) by (metis unsigned_word_eqI)
  have hd: "head l = first (drop 0 as) None" using d(1) by (simp add: chain_def)
  have "if length xs = 1 \<and> unat i \<noteq> 1 then parcLinkedList_InsertAtIndex T True h l i e = Inl BadPointer
    else \<exists>l1 bs. parcLinkedList_InsertAtIndex T True h l i e =
        rbind (assertTrue (all_valid h1 (take k xs @ x # drop k xs))) (\<lambda>_. Inr (h1, l1)) \<and>
      linked_holds l1 bs (take k xs @ x # drop k xs)"
  proof (cases "unat i = length xs")
    case True
    then obtain l1 where l1: "linked_holds l1 (as @ [fresh l]) (xs @ [x])"
      "parcLinkedList_InsertAtIndex T True h l i e = rbind (parcLinkedList_AssertValid h1 l1) (\<lambda>_. Inr (h1, l1))"
      using Insert_at_end [OF h x r a] s i by (auto simp: parcLinkedList_InsertAtIndex_def)
    then show ?thesis using True AssertValid_chain [OF l1(1), of h1] by (auto simp: k_def)
  next
    case False
    have n: "insertion_node l (unat i) (head l) = Inr (first (drop (min (unat i) (length xs - 1)) as) None)"
      using insertion_node_chain [OF d(1), of 0 "unat i"] hd x by simp
    show ?thesis
    proof (cases "length xs = 1")
      case True
      then have "node_at l (first as None) = Inr \<lparr>element = xs ! 0, previous = None, next_node = None\<rparr>"
        using node_at_index [OF d(1), of 0] chain_length [OF d(1)] by simp
      moreover have "set_next m None q = Inl BadPointer" for m :: linked and q by (simp add: change_node_def node_at_def)
      ultimately show ?thesis
        using True False n s i a by (simp add: parcLinkedList_InsertAtIndex_def Create_node_eq)
    next
      case l1: False
      then have "0 < k" "k < length xs" "k = min (unat i) (length xs - 1)"
        using False i0 x by (auto simp: k_def min_def neq_Nil_conv)
      then obtain l1 where l1: "linked_holds l1 (take k as @ fresh l # drop k as) (take k xs @ x # drop k xs)"
        "parcLinkedList_InsertAtIndex T True h l i e = rbind (parcLinkedList_AssertValid h1 l1) (\<lambda>_. Inr (h1, l1))"
        using Insert_before [OF h _ _ r a, of k] n s i False by (auto simp: parcLinkedList_InsertAtIndex_def)
      then show ?thesis using False AssertValid_chain [OF l1(1), of h1] \<open>length xs \<noteq> 1\<close> by auto
    qed
  qed  then show ?thesis unfolding Let_def k .
qed

text \<open>
  An insertion at an index other than 0 into a list that is not empty puts the object, acquired, before the
  element with that index, at the end for the index that is the size, and before the last element for a larger one; then every
  element is checked. Into a list of one element a larger index is a NULL dereference.
\<close>

theorem parcLinkedList_InsertAtIndex_result:
  assumes h: "linked_holds l as xs" and x: "xs \<noteq> []" and i: "i \<noteq> 0" and r: "Suc (length xs) < 2 ^ 64"
    and a: "parcObject_Acquire T h e = Inr (x, h1)"
  shows "let k = insertion_index (unat i) (length xs); ys = take k xs @ x # drop k xs in
    if length xs = 1 \<and> unat i \<noteq> 1 then parcLinkedList_InsertAtIndex T True h l i e = Inl BadPointer
    else \<exists>l1 bs. parcLinkedList_InsertAtIndex T True h l i e = rbind (assertTrue (all_valid h1 ys)) (\<lambda>_. Inr (h1, l1)) \<and>
      linked_holds l1 bs ys"
  using assms by (rule InsertAtIndex_inner)

text \<open>
  An insertion at index 0 into a list of two or more elements leaves the pointer to the last element at the second one: the
  next element that is appended replaces everything behind that, while the size counts all of them.
\<close>

theorem parcLinkedList_InsertAtIndex_front_loses:
  assumes h: "linked_holds l as (y # z # zs)" and a: "parcObject_Acquire T h e = Inr (x, h1)"
    and v: "all_valid h1 (x # y # z # zs)" and a2: "parcObject_Acquire T h1 f = Inr (w, h2)"
    and r: "length (x # y # z # zs) < 2 ^ 64"
  shows "\<exists>l1 l2 bs. parcLinkedList_InsertAtIndex T True h l 0 e = Inr (h1, l1) \<and>
    parcLinkedList_Append T True h1 l1 f = Inr (h2, l2) \<and>
    head l2 = first bs None \<and> segment (nodes l2) None bs [x, y, w] None \<and>
    parcLinkedList_Size l2 = of_nat (length (x # y # z # zs) + 1)"
proof -
  obtain b as1 where as: "as = b # as1" using chain_length [OF linked_holdsD(1) [OF h]] by (cases as) auto
  obtain l1 where l1: "parcLinkedList_InsertAtIndex T True h l 0 e = Inr (h1, l1\<lparr>tail := Some b\<rparr>)"
    "linked_holds l1 (fresh l # b # as1) (x # y # z # zs)"
    using Insert_front [of l b as1 y "z # zs" T h e x h1] h a v r as by auto
  note d = linked_holdsD [OF l1(2)]
  let ?l2 = "l1\<lparr>fresh := Suc (fresh l1), nodes := link_next ((nodes l1)(fresh l1 \<mapsto>
      \<lparr>element = w, previous = Some b, next_node = None\<rparr>)) (Some b) (Some (fresh l1)),
    tail := Some (fresh l1), list_size := list_size l1 + 1\<rparr>"
  have "b \<in> dom (nodes l1)" "fresh l1 \<noteq> b" "head l1 = Some (fresh l)" using d(1) by (auto simp: chain_def)
  then have "parcLinkedList_Append T True h1 (l1\<lparr>tail := Some b\<rparr>) f = Inr (h2, ?l2)"
    using a2 by (simp add: parcLinkedList_Append_def Create_node_eq set_next_eq)
  moreover have "segment (nodes ?l2) None [fresh l, b, fresh l1] [x, y, w] None"
    by (rule append_behind_second [OF l1(2)]) simp
  moreover have "head ?l2 = first [fresh l, b, fresh l1] None" using d(1) by (simp add: chain_def)
  moreover have "parcLinkedList_Size ?l2 = of_nat (length (x # y # z # zs) + 1)" using d(2) by (simp add: parcLinkedList_Size_def)
  ultimately show ?thesis using l1(1) by blast
qed

text \<open>A list of two objects for the witnesses, and the heaps after one and two acquisitions.\<close>

definition example_linked :: linked where
  "example_linked = \<lparr>head = Some 0, tail = Some 1, list_size = 2,
     nodes = [0 \<mapsto> \<lparr>element = Some 10, previous = None, next_node = Some 1\<rparr>,
              1 \<mapsto> \<lparr>element = Some 20, previous = Some 0, next_node = None\<rparr>], fresh = 2\<rparr>"

definition example_acquired :: "u64 \<Rightarrow> unit heap" where
  "example_acquired n = parcObject_SetHeader (example_heap 2) 10 ((example_object 2)\<lparr>references := n\<rparr>)"

lemma example_linked_holds: "linked_holds example_linked [0, 1] [Some 10, Some 20]"
  by (auto simp: linked_holds_def chain_def example_linked_def)

lemma example_object_ok: "object_ok example_types (example_object 2)"
  by (simp add: object_ok_def example_types_def plain_class_def example_object_def parcObjectHeader_InitAllocated_def)

lemma example_acquire:
  "parcObject_Acquire example_types (example_acquired n) (Some 10) = Inr (Some 10, example_acquired (n + 1))"
  using parcObject_Acquire_ok [of example_types "example_acquired n" 10 "(example_object 2)\<lparr>references := n\<rparr>"] example_object_ok
  by (simp add: example_acquired_def)

lemma example_all_valid:
  assumes "n \<noteq> 0" "set xs \<subseteq> {Some 10, Some 20}"
  shows "all_valid (example_acquired n) xs"
proof -
  have "parcObject_IsValid (example_acquired n) x" if "x = Some 10 \<or> x = Some 20" for x
    using that assms(1)
    by (auto simp: parcObject_IsValid_def example_acquired_def parcObjectHeader_IsValid_def example_object_def
        parcObjectHeader_InitAllocated_def)
  then show ?thesis using assms(2) by (auto simp: all_valid_def list_all_iff)
qed

theorem parcLinkedList_InsertAtIndex_result_witness:
  "\<exists>l1 bs. parcLinkedList_InsertAtIndex example_types True (example_acquired 1) example_linked 1 (Some 10) =
      Inr (example_acquired 2, l1) \<and> linked_holds l1 bs [Some 10, Some 10, Some 20]"
proof -
  have "insertion_index (Suc 0) (Suc (Suc 0)) = Suc 0" by (simp add: insertion_index_def)
  then show ?thesis
    using parcLinkedList_InsertAtIndex_result [OF example_linked_holds _ _ _ example_acquire [of 1], of 1]
      example_all_valid [of 2 "[Some 10, Some 10, Some 20]"]
    by (simp add: Let_def)
qed

theorem parcLinkedList_InsertAtIndex_front_loses_witness:
  "\<exists>l1 l2 bs. parcLinkedList_InsertAtIndex example_types True (example_acquired 1) example_linked 0 (Some 10) =
      Inr (example_acquired 2, l1) \<and>
    parcLinkedList_Append example_types True (example_acquired 2) l1 (Some 10) = Inr (example_acquired 3, l2) \<and>
    head l2 = first bs None \<and> segment (nodes l2) None bs [Some 10, Some 10, Some 10] None \<and> parcLinkedList_Size l2 = 4"
  using parcLinkedList_InsertAtIndex_front_loses [OF example_linked_holds example_acquire [of 1] _ example_acquire [of "1 + 1"]]
    example_all_valid [of 2 "[Some 10, Some 10, Some 20]"]
  by simp

section \<open>Comparison and copies\<close>

lemma setEquals_inner_ends:
  assumes x: "linked_holds x as xs" and y: "linked_holds y bs ys" and l: "length xs = length ys"
    and e: "\<forall>b \<in> set ys. \<exists>r. parcObject_Equals T h a b = Inr r"
  shows "setEquals_inner T h x y a j = Inr ()"
proof (induction "unat (list_size x) - unat j" arbitrary: j rule: less_induct)
  case less
  show ?case
  proof (cases "j < list_size x")
    case False
    then show ?thesis by (subst setEquals_inner.simps) simp
  next
    case True
    then have j: "unat j < length ys" using linked_holdsD(4) [OF x] l by (simp add: word_less_nat_alt)
    then obtain r where "parcObject_Equals T h a (ys ! unat j) = Inr r" using e by (meson nth_mem)
    moreover have "parcLinkedList_GetAtIndex y j = Inr (ys ! unat j)" using GetAtIndex_listed [OF y, of j] j by auto
    ultimately show ?thesis
      using True less [of "j + 1"] index_measure [OF True] by (subst setEquals_inner.simps) simp
  qed
qed

lemma setEquals_outer_ends:
  assumes x: "linked_holds x as xs" and y: "linked_holds y bs ys" and l: "length xs = length ys"
    and e: "\<forall>a \<in> set xs. \<forall>b \<in> set ys. \<exists>r. parcObject_Equals T h a b = Inr r"
  shows "setEquals_outer T h x y i = Inr ()"
proof (induction "unat (list_size x) - unat i" arbitrary: i rule: less_induct)
  case less
  show ?case
  proof (cases "i < list_size x")
    case False
    then show ?thesis by (subst setEquals_outer.simps) simp
  next
    case True
    then have i: "unat i < length xs" using linked_holdsD(4) [OF x] by (simp add: word_less_nat_alt)
    then have "setEquals_inner T h x y (xs ! unat i) 0 = Inr ()" using e by (intro setEquals_inner_ends [OF x y l]) simp
    moreover have "parcLinkedList_GetAtIndex x i = Inr (xs ! unat i)" using GetAtIndex_listed [OF x, of i] i by auto
    ultimately show ?thesis
      using True less [of "i + 1"] index_measure [OF True] by (subst setEquals_outer.simps) simp
  qed
qed

text \<open>
  Two lists are equal when they have the same length and their elements are equal one by one, but they are equal as
  sets as soon as they have the same length: \<open>SetEquals\<close> never uses the results of its comparisons.
\<close>

theorem parcLinkedList_Equals_SetEquals:
  assumes x: "linked_holds x as xs" and y: "linked_holds y bs ys"
    and e: "\<forall>a \<in> set xs. \<forall>b \<in> set ys. \<exists>r. parcObject_Equals T h a b = Inr r"
  shows "parcLinkedList_Equals T h False (Some x) (Some y) =
      (if length xs = length ys then all_equal (parcObject_Equals T h) xs ys else Inr False) \<and>
    parcLinkedList_SetEquals T h x y = Inr (length xs = length ys)"
proof -
  note d = linked_holdsD [OF x] linked_holdsD [OF y]
  have s: "list_size x = list_size y \<longleftrightarrow> length xs = length ys" using d(4,9) by (metis unsigned_word_eqI)
  have "parcLinkedList_SetEquals T h x y = Inr (length xs = length ys)"
    using s setEquals_outer_ends [OF x y _ e] by (simp add: parcLinkedList_SetEquals_def)
  moreover have "equal_nodes T h x y (head x) (head y) = Some (all_equal (parcObject_Equals T h) xs ys)"
    if "length xs = length ys"
    using equal_chain [OF d(1,6) that, of T h 0] d(1,6) by (simp add: chain_def)
  ultimately show ?thesis using s by (auto simp: parcLinkedList_Equals_def)
qed

theorem parcLinkedList_Equals_SetEquals_witness:
  "parcLinkedList_SetEquals example_types (parcObject_SetHeader (example_heap 2) 20 (example_object 1)) example_linked
    (example_linked\<lparr>nodes := (nodes example_linked)(1 \<mapsto> \<lparr>element = Some 10, previous = Some 0, next_node = None\<rparr>)\<rparr>) = Inr True"
proof -
  let ?y = "example_linked\<lparr>nodes := (nodes example_linked)(1 \<mapsto> \<lparr>element = Some 10, previous = Some 0, next_node = None\<rparr>)\<rparr>"
  have y: "linked_holds ?y [0, 1] [Some 10, Some 10]"
    by (auto simp: linked_holds_def chain_def example_linked_def)
  let ?h = "parcObject_SetHeader (example_heap 2) 20 (example_object 1)"
  have "parcObject_Equals example_types ?h (Some 20) (Some 10) = Inr False"
    "parcObject_Equals example_types ?h (Some 10) (Some 10) = Inr True"
    by (simp_all add: parcObject_Equals_def parcObject_Header_def)
  then have "\<forall>a \<in> set [Some 10, Some 20]. \<forall>b \<in> set [Some 10, Some 10]. \<exists>r. parcObject_Equals example_types ?h a b = Inr r"
    by auto
  from parcLinkedList_Equals_SetEquals [OF example_linked_holds y this]
  have "parcLinkedList_SetEquals example_types ?h example_linked ?y = Inr (length [Some (10 :: addr), Some 20] = length [Some (10 :: addr), Some 10])"
    by (rule conjunct2)
  then show ?thesis by simp
qed

text \<open>Applying a function to the elements calls it on each of them in order, if it leaves them usable.\<close>

lemma ApplyImpl_listed:
  assumes l: "linked_holds l as xs" and u: "\<forall>x \<in> set xs. usable T h x"
    and f: "\<And>x h h1. x \<in> set xs \<Longrightarrow> f x h = Inr h1 \<Longrightarrow> \<forall>y \<in> set xs. usable T h y \<Longrightarrow> \<forall>y \<in> set xs. usable T h1 y"
  shows "parcLinkedList_ApplyImpl T True h l f = fold_result f xs h"
proof -
  obtain it where it: "parcLinkedList_CreateIterator T True (Some (h, l)) = Inr (Some it)"
    "linked_iteration.iterator_with T it" "linked_visited T (h, l) xs 0 (state it)"
    using linked_iteration.Create_iterates [of "(h, l)" xs T] linked_holdsD(1) [OF l] u
    by (auto simp: parcLinkedList_CreateIterator_def)
  have "iterate (\<lambda>h. (h, l)) f (Some it) h = Some (fold_result f (drop 0 xs) h)"
  proof (rule linked_iteration.iterate_fold [where Q = "\<lambda>_ _. True", OF _ it(2)])
    fix n h h1 p
    assume n: "n < length xs" and fx: "f (xs ! n) h = Inr h1" and v: "linked_visited T (h, l) xs (Suc n) p"
    have "\<forall>y \<in> set xs. usable T h1 y" using f [OF _ fx] n v by (auto simp: linked_visited_def)
    then show "True \<and> linked_visited T (h1, l) xs (Suc n) p" using v by (auto simp: linked_visited_def)
  qed (use it(3) in simp_all)
  then show ?thesis using it(1) by (simp add: parcLinkedList_ApplyImpl_def)
qed

end
