(* ===== verification/Parc_SortedList.thy ===== *)
theory Parc_SortedList
  imports Parc_LinkedList Parc_Order "HOL-Library.Multiset" "HOL-Library.Signed_Division"
begin

text \<open>
  The sorted list (\<^verbatim>\<open>parc_SortedList.c\<close>): a linked list with a comparison function. An element is inserted at the index a
  binary search finds.
\<close>

section \<open>The list and its operations\<close>

record 'p sorted_list =
  sorted_elements :: "linked option"
  sorted_compare :: "'p heap \<Rightarrow> ptr \<Rightarrow> ptr \<Rightarrow> int result"

text \<open>The list inside; NULL when there was no memory for it.\<close>

definition list_of :: "'p sorted_list \<Rightarrow> linked result" where
  "list_of s = (case sorted_elements s of None \<Rightarrow> Inl BadPointer | Some l \<Rightarrow> Inr l)"

definition parcSortedList_IsValid :: "'p sorted_list option \<Rightarrow> bool" where
  "parcSortedList_IsValid instance = (if instance \<noteq> None then True else False)"

definition parcSortedList_AssertValid :: "'p sorted_list option \<Rightarrow> unit result" where
  "parcSortedList_AssertValid instance = assertTrue (parcSortedList_IsValid instance)"

text \<open>\<open>granted\<close> and \<open>list_granted\<close>: what the allocations of the object and of its list answer.\<close>

definition parcSortedList_CreateCompare ::
  "bool \<Rightarrow> bool \<Rightarrow> ('p heap \<Rightarrow> ptr \<Rightarrow> ptr \<Rightarrow> int result) \<Rightarrow> 'p sorted_list option" where
  "parcSortedList_CreateCompare granted list_granted compare =
    (if granted then Some \<lparr>sorted_elements = parcLinkedList_Create list_granted, sorted_compare = compare\<rparr> else None)"

definition parcSortedList_Create :: "'p types \<Rightarrow> bool \<Rightarrow> bool \<Rightarrow> 'p sorted_list option" where
  "parcSortedList_Create T granted list_granted =
    parcSortedList_CreateCompare granted list_granted (parcObject_Compare T)"

text \<open>
  The comparison function of a copy is never assigned: it is what the memory happens to hold, here \<open>garbage\<close>.
\<close>

definition parcSortedList_Copy ::
  "'p types \<Rightarrow> bool \<Rightarrow> bool \<Rightarrow> bool \<Rightarrow> ('p heap \<Rightarrow> ptr \<Rightarrow> ptr \<Rightarrow> int result) \<Rightarrow> 'p heap \<Rightarrow> 'p sorted_list \<Rightarrow>
    ('p heap \<times> 'p sorted_list option) result" where
  "parcSortedList_Copy T granted list_granted nodes_granted garbage h original =
    (if granted
     then rbind (list_of original) (\<lambda>l.
          rbind (parcLinkedList_Copy T list_granted nodes_granted h l) (\<lambda>(h1, new).
          Inr (h1, Some \<lparr>sorted_elements = new, sorted_compare = garbage\<rparr>)))
     else Inr (h, None))"

text \<open>The destructor.\<close>

definition parcSortedList_Finalize :: "'p types \<Rightarrow> 'p heap \<Rightarrow> 'p sorted_list option \<Rightarrow> 'p heap result" where
  "parcSortedList_Finalize T h instancePtr =
    rbind (assertTrue (instancePtr \<noteq> None)) (\<lambda>_.
    rbind (parcSortedList_AssertValid instancePtr) (\<lambda>_.
    rbind (list_of (the instancePtr)) (\<lambda>l.
    rbind (parcLinkedList_Destructor T h l) (\<lambda>(h1, _). Inr h1))))"

definition parcSortedList_Equals :: "'p types \<Rightarrow> 'p heap \<Rightarrow> bool \<Rightarrow> 'p sorted_list \<Rightarrow> 'p sorted_list \<Rightarrow> bool result" where
  "parcSortedList_Equals T h same x y =
    parcLinkedList_Equals T h same (sorted_elements x) (sorted_elements y)"

definition parcSortedList_HashCode :: "'p types \<Rightarrow> 'p heap \<Rightarrow> 'p sorted_list \<Rightarrow> PARCHashCode result" where
  "parcSortedList_HashCode T h s = rbind (list_of s) (parcLinkedList_HashCode T h)"

definition parcSortedList_Size :: "'p sorted_list \<Rightarrow> size_t result" where
  "parcSortedList_Size s = rbind (list_of s) (\<lambda>l. Inr (parcLinkedList_Size l))"

definition parcSortedList_GetAtIndex :: "'p sorted_list \<Rightarrow> size_t \<Rightarrow> ptr result" where
  "parcSortedList_GetAtIndex s index = rbind (list_of s) (\<lambda>l. parcLinkedList_GetAtIndex l index)"

definition parcSortedList_GetFirst :: "'p sorted_list \<Rightarrow> ptr result" where
  "parcSortedList_GetFirst s = rbind (list_of s) (\<lambda>l. parcLinkedList_GetAtIndex l 0)"

definition parcSortedList_GetLast :: "'p sorted_list \<Rightarrow> ptr result" where
  "parcSortedList_GetLast s =
    rbind (list_of s) (\<lambda>l. parcLinkedList_GetAtIndex l (parcLinkedList_Size l - 1))"

definition parcSortedList_RemoveFirst :: "'p heap \<Rightarrow> 'p sorted_list \<Rightarrow> (ptr \<times> 'p sorted_list) result" where
  "parcSortedList_RemoveFirst h s =
    rbind (list_of s) (\<lambda>l.
    rbind (parcLinkedList_RemoveFirst h l) (\<lambda>(p, l1). Inr (p, s\<lparr>sorted_elements := Some l1\<rparr>)))"

definition parcSortedList_RemoveLast :: "'p heap \<Rightarrow> 'p sorted_list \<Rightarrow> (ptr \<times> 'p sorted_list) result" where
  "parcSortedList_RemoveLast h s =
    rbind (list_of s) (\<lambda>l.
    rbind (parcLinkedList_RemoveLast h l) (\<lambda>(p, l1). Inr (p, s\<lparr>sorted_elements := Some l1\<rparr>)))"

definition parcSortedList_CreateIterator ::
  "'p types \<Rightarrow> bool \<Rightarrow> 'p heap \<Rightarrow> 'p sorted_list \<Rightarrow> ('p listed, ptr) parc_iterator option result" where
  "parcSortedList_CreateIterator T granted h s = parcLinkedList_CreateIterator T granted (map_option (Pair h) (sorted_elements s))"

text \<open>The loop of \<open>Remove\<close>; \<open>None\<close> is a loop that does not end.\<close>

partial_function (option) remove_loop ::
  "'p types \<Rightarrow> ptr \<Rightarrow> 'p listed \<Rightarrow> ('p listed, ptr) parc_iterator option \<Rightarrow> (bool \<times> 'p listed) result option" where
  "remove_loop T object s it =
    (case parcIterator_HasNext s it of
       Inl e \<Rightarrow> Some (Inl e)
     | Inr hn \<Rightarrow>
         if hn then
           (case rbind (parcIterator_Next s it) (\<lambda>(x, it1).
                 rbind (parcObject_Equals T (fst s) object x) (\<lambda>e. Inr (e, it1))) of
              Inl e \<Rightarrow> Some (Inl e)
            | Inr r \<Rightarrow>
                if fst r then Some (rbind (parcIterator_Remove s (Some (snd r))) (\<lambda>(s1, _). Inr (True, s1)))
                else remove_loop T object s (Some (snd r)))
         else Some (Inr (False, s)))"

definition parcSortedList_Remove ::
  "'p types \<Rightarrow> bool \<Rightarrow> 'p heap \<Rightarrow> 'p sorted_list \<Rightarrow> ptr \<Rightarrow> (bool \<times> 'p heap \<times> 'p sorted_list) result" where
  "parcSortedList_Remove T granted h s object =
    rbind (parcSortedList_CreateIterator T granted h s) (\<lambda>it.
    rbind (list_of s) (\<lambda>l.
    rbind (resolved (remove_loop T object (h, l) it)) (\<lambda>(result, h1, l1).
    Inr (result, h1, s\<lparr>sorted_elements := Some l1\<rparr>))))"

text \<open>
  The binary search with the signed integers \<open>low\<close> and \<open>high\<close>. On a list whose size is beyond the signed range it need not end.
\<close>

partial_function (option) search_loop ::
  "(ptr \<Rightarrow> ptr \<Rightarrow> int result) \<Rightarrow> linked \<Rightarrow> ptr \<Rightarrow> int \<Rightarrow> int \<Rightarrow> int result option" where
  "search_loop compare l x low high =
    (let midpoint = low + signed_divide (high - low) 2 in
     case rbind (parcLinkedList_GetAtIndex l (word_of_int midpoint)) (\<lambda>e. compare x e) of
       Inl e \<Rightarrow> Some (Inl e)
     | Inr signum \<Rightarrow>
         if high = low then
           (if signum < 0 then Some (Inr high) else if signum > 0 then Some (Inr (low + 1)) else Some (Inr low))
         else if signum < 0 then search_loop compare l x low midpoint
         else if signum > 0 then search_loop compare l x (midpoint + 1) high
         else Some (Inr midpoint))"

definition parcSortedList_GetInsertionIndex :: "'p heap \<Rightarrow> 'p sorted_list \<Rightarrow> ptr \<Rightarrow> size_t result" where
  "parcSortedList_GetInsertionIndex h s x =
    rbind (list_of s) (\<lambda>l.
    let high = sint (parcLinkedList_Size l - 1) in
    if high = - 1 then Inr 0
    else rbind (resolved (search_loop (sorted_compare s h) l x 0 high)) (\<lambda>i. Inr (word_of_int i)))"

definition parcSortedList_Add :: "'p types \<Rightarrow> bool \<Rightarrow> 'p heap \<Rightarrow> 'p sorted_list \<Rightarrow> ptr \<Rightarrow> ('p heap \<times> 'p sorted_list) result" where
  "parcSortedList_Add T granted h s x =
    rbind (parcSortedList_GetInsertionIndex h s x) (\<lambda>insertionPoint.
    rbind (list_of s) (\<lambda>l.
    rbind (assertTrue (insertionPoint \<ge> 0 \<and> insertionPoint \<le> parcLinkedList_Size l)) (\<lambda>_.
    rbind (parcLinkedList_InsertAtIndex T granted h l insertionPoint x) (\<lambda>(h1, l1).
    Inr (h1, s\<lparr>sorted_elements := Some l1\<rparr>)))))"

section \<open>The binary search\<close>

text \<open>\<open>c\<close> orders the elements as the comparison function does in the heap at hand.\<close>

definition compares :: "(ptr \<Rightarrow> ptr \<Rightarrow> int result) \<Rightarrow> (ptr \<Rightarrow> ptr \<Rightarrow> int) \<Rightarrow> ptr \<Rightarrow> ptr list \<Rightarrow> bool" where
  "compares compare c x xs \<longleftrightarrow> (\<forall>y \<in> set xs. compare x y = Inr (c x y))"

abbreviation ordered where "ordered c \<equiv> sorted_wrt (\<lambda>x y. c x y \<le> (0 :: int))"

text \<open>Everything before the index is at most the element and everything from it on is at least.\<close>

definition insertion_point :: "(ptr \<Rightarrow> ptr \<Rightarrow> int) \<Rightarrow> ptr \<Rightarrow> ptr list \<Rightarrow> nat \<Rightarrow> bool" where
  "insertion_point c x xs k \<longleftrightarrow> k \<le> length xs \<and> (\<forall>y \<in> set (take k xs). c y x \<le> 0) \<and> (\<forall>y \<in> set (drop k xs). c x y \<le> 0)"

context comparison
begin

lemma insertion_point_ordered:
  assumes "sorted_wrt (\<lambda>x y. cmp x y \<le> 0) xs" "k \<le> length xs"
    "\<forall>y \<in> set (take k xs). cmp y x \<le> 0" "\<forall>y \<in> set (drop k xs). cmp x y \<le> 0"
  shows "sorted_wrt (\<lambda>x y. cmp x y \<le> 0) (take k xs @ x # drop k xs)"
proof -
  have "sorted_wrt (\<lambda>x y. cmp x y \<le> 0) (take k xs @ drop k xs)" using assms(1) by simp
  then show ?thesis using assms(3,4) trans by (auto simp: sorted_wrt_append)
qed

text \<open>What is below the lower bound is smaller than the element, what is above the upper bound is greater.\<close>

lemma search_left:
  assumes s: "sorted_wrt (\<lambda>x y. cmp x y \<le> 0) xs" and m: "m < length xs" "cmp x (xs ! m) < 0"
  shows "\<forall>j < length xs. m < j \<longrightarrow> cmp x (xs ! j) < 0"
  using s m less_le_trans by (auto simp: sorted_wrt_iff_nth_less)

lemma search_right:
  assumes s: "sorted_wrt (\<lambda>x y. cmp x y \<le> 0) xs" and m: "m < length xs" "0 < cmp x (xs ! m)"
  shows "\<forall>j < m. 0 < cmp x (xs ! j)"
proof (intro allI impI)
  fix j
  assume "j < m"
  then have "cmp (xs ! j) (xs ! m) \<le> 0" using s m by (auto simp: sorted_wrt_iff_nth_less)
  moreover have "cmp (xs ! m) x < 0" using m(2) swap_sign by blast
  ultimately have "cmp (xs ! j) x < 0" by (rule le_less_trans)
  then show "0 < cmp x (xs ! j)" using swap_sign by blast
qed

end

lemma insertion_pointI:
  assumes "k \<le> length xs" "\<And>j. j < k \<Longrightarrow> c (xs ! j) x \<le> 0" "\<And>j. k \<le> j \<Longrightarrow> j < length xs \<Longrightarrow> c x (xs ! j) \<le> 0"
  shows "insertion_point c x xs k"
proof -
  have "c y x \<le> 0" if y: "y \<in> set (take k xs)" for y
  proof -
    obtain j where "j < k" "xs ! j = y" using y by (auto simp: in_set_conv_nth)
    then show ?thesis using assms(2) by blast
  qed
  moreover have "c x y \<le> 0" if y: "y \<in> set (drop k xs)" for y
  proof -
    obtain j where "j < length xs - k" "xs ! (k + j) = y" using y assms(1) by (auto simp: in_set_conv_nth)
    then show ?thesis using assms(3) [of "k + j"] by simp
  qed
  ultimately show ?thesis using assms(1) by (simp add: insertion_point_def)
qed

lemma middle: "int lo + signed_divide (int hi - int lo) 2 = int (lo + (hi - lo) div 2)" if "lo \<le> hi"
proof -
  have "int hi - int lo = int (hi - lo)" using that by simp
  moreover have "signed_divide (int n) 2 = int (n div 2)" for n :: nat
    by (simp add: signed_divide_int_def sgn_if zdiv_int)
  ultimately show ?thesis by (simp only: of_nat_add)
qed

text \<open>Bounds that straddle the place of the element.\<close>

definition straddles :: "(ptr \<Rightarrow> ptr \<Rightarrow> int) \<Rightarrow> ptr \<Rightarrow> ptr list \<Rightarrow> nat \<Rightarrow> nat \<Rightarrow> bool" where
  "straddles c x xs lo hi \<longleftrightarrow> lo \<le> hi \<and> hi < length xs \<and> (\<forall>j < lo. 0 < c x (xs ! j)) \<and>
    (\<forall>j < length xs. hi < j \<longrightarrow> c x (xs ! j) < 0)"

lemma search_loop_finds:
  assumes c: "comparison c" and s: "ordered c xs" and v: "compares compare c x xs"
    and g: "\<And>i. i < length xs \<Longrightarrow> parcLinkedList_GetAtIndex l (word_of_int (int i)) = Inr (xs ! i)"
  shows "straddles c x xs lo hi \<Longrightarrow>
    \<exists>k. search_loop compare l x (int lo) (int hi) = Some (Inr (int k)) \<and> insertion_point c x xs k"
proof (induction "hi - lo" arbitrary: lo hi rule: less_induct)
  case less
  note b = less.prems [unfolded straddles_def]
  let ?m = "lo + (hi - lo) div 2"
  have m: "lo \<le> ?m" "?m \<le> hi" "lo < hi \<Longrightarrow> ?m < hi" "?m < length xs" using b by auto
  have step: "rbind (parcLinkedList_GetAtIndex l (word_of_int (int ?m))) (\<lambda>e. compare x e) = Inr (c x (xs ! ?m))"
    using g [OF m(4)] v m(4) by (simp add: compares_def)
  note unfold = search_loop.simps [of compare l x "int lo" "int hi", unfolded middle [OF conjunct1 [OF b]] Let_def step]
  have le: "c y x \<le> 0" if "0 \<le> c x y" for y using that comparison.swap_sign [OF c, of x y] by linarith
  show ?case
  proof (cases "lo = hi")
    case True
    let ?k = "if c x (xs ! lo) < 0 \<or> c x (xs ! lo) = 0 then lo else Suc lo"
    have "insertion_point c x xs ?k"
    proof (rule insertion_pointI)
      show "c (xs ! j) x \<le> 0" if "j < ?k" for j
        using that b le [of "xs ! j"] by (cases "j = lo") (auto simp: less_Suc_eq split: if_splits)
      show "c x (xs ! j) \<le> 0" if "?k \<le> j" "j < length xs" for j
        using that b True by (cases "j = lo") (auto split: if_splits intro: less_imp_le)
    qed (use b in auto)
    moreover have "search_loop compare l x (int lo) (int hi) = Some (Inr (int ?k))"
      using True by (subst unfold) auto
    ultimately show ?thesis by blast
  next
    case False
    then have lt: "lo < hi" using b by simp
    consider "c x (xs ! ?m) < 0" | "0 < c x (xs ! ?m)" | "c x (xs ! ?m) = 0" by linarith
    then show ?thesis
    proof cases
      case 1
      then have "straddles c x xs lo ?m"
        using b m comparison.search_left [OF c s m(4) 1] by (simp add: straddles_def)
      then show ?thesis using less.hyps [of ?m lo] m lt 1 by (subst unfold) auto
    next
      case 2
      then have "straddles c x xs (Suc ?m) hi"
        using b m(3) [OF lt] comparison.search_right [OF c s m(4) 2] by (auto simp: straddles_def less_Suc_eq)
      moreover have "int ?m + 1 = int (Suc ?m)" by simp
      ultimately show ?thesis using less.hyps [of hi "Suc ?m"] m(3) [OF lt] lt 2 by (subst unfold) (auto simp: ac_simps)
    next
      case 3
      have "insertion_point c x xs ?m"
      proof (rule insertion_pointI)
        have e: "c (xs ! ?m) x \<le> 0" using le 3 by simp
        show "c (xs ! j) x \<le> 0" if "j < ?m" for j
          using s m(4) that comparison.trans [OF c _ e] by (auto simp: sorted_wrt_iff_nth_less)
        show "c x (xs ! j) \<le> 0" if "?m \<le> j" "j < length xs" for j
          using s that comparison.trans [OF c, of x "xs ! ?m"] 3 by (cases "j = ?m") (auto simp: sorted_wrt_iff_nth_less)
      qed (use m in simp)
      then show ?thesis using lt 3 by (intro exI [of _ ?m]) (subst unfold, simp)
    qed
  qed
qed

text \<open>The place of an element that is smaller, or greater, than all others is the one at that end.\<close>

lemma insertion_point_front:
  assumes "comparison c" "insertion_point c x (y # ys) k" "c x y < 0"
  shows "k = 0"
proof (rule ccontr)
  assume "k \<noteq> 0"
  then have "c y x \<le> 0" using assms(2) by (auto simp: insertion_point_def take_Cons')
  then show False using assms(3) comparison.swap_sign [OF assms(1), of x y] by simp
qed

lemma insertion_point_back:
  assumes "comparison c" "insertion_point c x xs k" "\<forall>y \<in> set xs. c y x < 0"
  shows "k = length xs"
proof (rule ccontr)
  assume "k \<noteq> length xs"
  then have "k < length xs" using assms(2) by (simp add: insertion_point_def)
  then have "xs ! k \<in> set (drop k xs)" "xs ! k \<in> set xs" by (auto simp: Cons_nth_drop_Suc [symmetric])
  then have "c x (xs ! k) \<le> 0" "c (xs ! k) x < 0" using assms(2,3) by (auto simp: insertion_point_def)
  then show False using comparison.swap_sign [OF assms(1), of "xs ! k" x] by simp
qed

section \<open>Adding elements\<close>

lemma list_of_Some [simp]: "sorted_elements s = Some l \<Longrightarrow> list_of s = Inr l"
  by (simp add: list_of_def)

lemma sint_of_nat: "n < 2 ^ 63 \<Longrightarrow> sint (word_of_nat n :: size_t) = int n"
  by (simp add: signed_of_nat signed_take_bit_int_eq_self)

lemma GetAtIndex_index:
  assumes "linked_holds l as xs" "i < length xs"
  shows "parcLinkedList_GetAtIndex l (word_of_int (int i)) = Inr (xs ! i)"
proof -
  have "unat (word_of_nat i :: size_t) = i" using assms(2) linked_holdsD(3) [OF assms(1)] by (simp add: unat_word_of_nat)
  then show ?thesis using GetAtIndex_listed [OF assms(1), of "word_of_nat i"] assms(2) by auto
qed

text \<open>The search only reads, so it finds the same index whatever the pointer to the last node is.\<close>

lemma getByIndex_tail: "getByIndex_loop (l\<lparr>tail := t\<rparr>) i p = getByIndex_loop l i p"
  by (induction l i p rule: getByIndex_loop.induct) (simp_all cong: rbind_cong)

lemma GetAtIndex_tail: "parcLinkedList_GetAtIndex (l\<lparr>tail := t\<rparr>) i = parcLinkedList_GetAtIndex l i"
  unfolding parcLinkedList_GetAtIndex_def parcLinkedListNode_getByIndex_def getByIndex_tail parcLinkedList_Size_def node_at_tail_update
  by simp

lemma GetInsertionIndex_finds:
  assumes c: "comparison c" and s: "ordered c xs" and v: "compares (sorted_compare s h) c x xs"
    and l: "linked_holds l as xs" "sorted_elements s = Some (l\<lparr>tail := t\<rparr>)" and len: "length xs < 2 ^ 63"
  shows "\<exists>k. parcSortedList_GetInsertionIndex h s x = Inr (word_of_nat k) \<and> insertion_point c x xs k"
proof (cases "xs = []")
  case True
  then have "list_size l = 0" using linked_holdsD(5) [OF l(1)] by simp
  then have "parcSortedList_GetInsertionIndex h s x = Inr (word_of_nat 0)"
    using l(2) by (simp add: parcSortedList_GetInsertionIndex_def parcLinkedList_Size_def)
  then show ?thesis using True by (intro exI [of _ 0]) (simp add: insertion_point_def)
next
  case False
  have "list_size l - 1 = word_of_nat (length xs - 1)" using linked_holdsD(2) [OF l(1)] False by (simp add: of_nat_diff Suc_leI)
  then have hi: "sint (parcLinkedList_Size (l\<lparr>tail := t\<rparr>) - 1) = int (length xs - 1)"
    using len False sint_of_nat [of "length xs - 1"] by (simp add: parcLinkedList_Size_def)
  have "straddles c x xs 0 (length xs - 1)" using False by (auto simp: straddles_def)
  then obtain k where k: "search_loop (sorted_compare s h) (l\<lparr>tail := t\<rparr>) x 0 (int (length xs - 1)) = Some (Inr (int k))"
    "insertion_point c x xs k"
    using search_loop_finds [OF c s v, of "l\<lparr>tail := t\<rparr>" 0 "length xs - 1"] GetAtIndex_index [OF l(1)]
    by (auto simp: GetAtIndex_tail)
  moreover have "int (length xs - 1) \<noteq> - 1" by simp
  ultimately have "parcSortedList_GetInsertionIndex h s x = Inr (word_of_nat k)"
    using l(2) hi by (simp add: parcSortedList_GetInsertionIndex_def Let_def del: of_nat_diff)
  then show ?thesis using k(2) by blast
qed

text \<open>
  C32: The binary search ends for every list of fewer than $2^{63}$ elements and returns an index before which everything is at most
  the new element and from which on everything is at least the new element.
\<close>

theorem parcSortedList_GetInsertionIndex_point:
  assumes "comparison c" "ordered c xs" "compares (sorted_compare s h) c x xs"
    and "linked_holds l as xs" "sorted_elements s = Some l" "length xs < 2 ^ 63"
  shows "\<exists>k. parcSortedList_GetInsertionIndex h s x = Inr (word_of_nat k) \<and> insertion_point c x xs k"
  using GetInsertionIndex_finds [OF assms(1-4), of "tail l"] assms(5,6) by simp

lemma Acquire_same: "parcObject_Acquire T h p = Inr (q, h1) \<Longrightarrow> q = p"
  by (auto simp: parcObject_Acquire_def)

lemma Add_unfold:
  assumes "parcSortedList_GetInsertionIndex h s x = Inr (word_of_nat k)" "sorted_elements s = Some l"
    and "k \<le> n" "list_size l = word_of_nat n" "n < 2 ^ 64"
  shows "parcSortedList_Add T True h s x =
    rbind (parcLinkedList_InsertAtIndex T True h l (word_of_nat k) x) (\<lambda>(h1, l1). Inr (h1, s\<lparr>sorted_elements := Some l1\<rparr>))"
proof -
  have "(word_of_nat k :: size_t) \<le> word_of_nat n" using assms(3,5) by (simp add: word_le_nat_alt unat_word_of_nat)
  then show ?thesis using assms(1,2,4) by (simp add: parcSortedList_Add_def parcLinkedList_Size_def)
qed

text \<open>
  C33: Adding an element that is not to be the first one of a list of two or more acquires it and keeps the list sorted, with
  exactly one element more.
\<close>

theorem parcSortedList_Add_ordered:
  assumes c: "comparison c" and o: "ordered c xs" and v: "compares (sorted_compare s h) c x xs"
    and l: "linked_holds l as xs" "sorted_elements s = Some l" and len: "Suc (length xs) < 2 ^ 63"
    and a: "parcObject_Acquire T h x = Inr (x, h1)" and u: "all_valid h1 (x # xs)"
    and f: "length xs \<le> 1 \<or> c (hd xs) x < 0"
  shows "\<exists>l1 bs ys. parcSortedList_Add T True h s x = Inr (h1, s\<lparr>sorted_elements := Some l1\<rparr>) \<and> linked_holds l1 bs ys \<and>
    ordered c ys \<and> mset ys = add_mset x (mset xs)"
proof -
  note d = linked_holdsD [OF l(1)]
  obtain k where k: "parcSortedList_GetInsertionIndex h s x = Inr (word_of_nat k)" "insertion_point c x xs k"
    using GetInsertionIndex_finds [OF c o v l(1), of "tail l"] l(2) len by auto
  have kn: "k \<le> length xs" using k(2) by (simp add: insertion_point_def)
  let ?ys = "take k xs @ x # drop k xs"
  have ys: "ordered c ?ys"
    using comparison.insertion_point_ordered [OF c o kn, of x] k(2) by (simp add: insertion_point_def)
  have m: "mset ?ys = add_mset x (mset xs)" by (metis append_take_drop_id mset.simps(2) mset_append union_mset_add_mset_right)
  have w: "all_valid h1 ?ys"
    using u by (auto simp: all_valid_def list_all_iff dest: in_set_takeD in_set_dropD)
  have "\<exists>l1 bs. parcLinkedList_InsertAtIndex T True h l (word_of_nat k) x = Inr (h1, l1) \<and> linked_holds l1 bs ?ys"
  proof (cases "k = 0")
    case True
    have "length xs \<le> 1"
    proof (rule ccontr)
      assume "\<not> length xs \<le> 1"
      then have "c (hd xs) x < 0" "hd xs \<in> set (drop k xs)" using f True by (cases xs; auto)+
      then show False using k(2) comparison.swap_sign [OF c, of "hd xs" x] by (auto simp: insertion_point_def)
    qed
    then show ?thesis using Insert_small [OF l(1) _ a] u True by auto
  next
    case False
    have un: "unat (word_of_nat k :: size_t) = k" using kn len by (simp add: unat_word_of_nat)
    then have "word_of_nat k \<noteq> (0 :: size_t)" using False by auto
    moreover have "xs \<noteq> []" using False kn by auto
    moreover have "insertion_index k (length xs) = k" using kn by (auto simp: insertion_index_def)
    moreover have "\<not> (length xs = 1 \<and> k \<noteq> 1)" using False kn by auto
    ultimately show ?thesis
      using InsertAtIndex_inner [OF l(1), of "word_of_nat k" T h x x h1] a len un w by (auto simp: Let_def)
  qed
  then obtain l1 bs where "parcLinkedList_InsertAtIndex T True h l (word_of_nat k) x = Inr (h1, l1)" "linked_holds l1 bs ?ys"
    by blast
  moreover from this have "parcSortedList_Add T True h s x = Inr (h1, s\<lparr>sorted_elements := Some l1\<rparr>)"
    using Add_unfold [OF k(1) l(2) kn d(2,3), of T] by simp
  ultimately show ?thesis using ys m by blast
qed

text \<open>The second step of the loss: an element appended where the pointer to the last node is the one to the second.\<close>

lemma Insert_behind_second:
  assumes l: "linked_holds l (b # c # as) (x # y # ys)" and a: "parcObject_Acquire T h w = Inr (w, h1)"
    and u: "all_valid h1 [x, y, w]" and r: "Suc (length (x # y # ys)) < 2 ^ 64"
  shows "\<exists>l1. parcLinkedList_InsertAtIndex T True h (l\<lparr>tail := Some c\<rparr>) (list_size l) w = Inr (h1, l1) \<and>
    head l1 = Some b \<and> path l1 [b, c, fresh l] [x, y, w] \<and> list_size l1 = word_of_nat (Suc (length (x # y # ys)))"
proof -
  note d = linked_holdsD [OF l]
  let ?m = "link_next ((nodes l)(fresh l \<mapsto> \<lparr>element = w, previous = Some c, next_node = None\<rparr>)) (Some c) (Some (fresh l))"
  let ?l1 = "l\<lparr>fresh := Suc (fresh l), nodes := ?m, tail := Some (fresh l), list_size := list_size l + 1\<rparr>"
  have dm: "c \<in> dom (nodes l)" "fresh l \<noteq> c" "head l = Some b" "list_size l \<noteq> 0" using d(1,5) by (auto simp: chain_def)
  have p: "path ?l1 [b, c, fresh l] [x, y, w]" by (rule append_behind_second [OF l]) simp
  have n: "list_size ?l1 = word_of_nat (Suc (length (x # y # ys)))" using d(2) by simp
  have "list_size ?l1 \<noteq> 0" using r n size_zero [of "Suc (length (x # y # ys))"] by simp
  then have "parcLinkedList_AssertValid h1 ?l1 = Inr ()"
    using valid_loop_all [OF p, of h1] u dm(3)
    by (simp add: parcLinkedList_AssertValid_def parcLinkedList_IsValid_def word_gt_0)
  moreover have "parcLinkedList_InsertAtIndex T True h (l\<lparr>tail := Some c\<rparr>) (list_size l) w =
      rbind (parcLinkedList_AssertValid h1 ?l1) (\<lambda>_. Inr (h1, ?l1))"
    using a dm by (auto simp: parcLinkedList_InsertAtIndex_def Create_node_eq set_next_eq node_at_def link_next_def)
  ultimately have "parcLinkedList_InsertAtIndex T True h (l\<lparr>tail := Some c\<rparr>) (list_size l) w = Inr (h1, ?l1)" by simp
  moreover have "head ?l1 = Some b" using dm(3) by simp
  ultimately show ?thesis using p n by blast
qed

text \<open>
  Adding a new smallest element to a sorted list of two or more and then a new greatest one loses all elements but the two
  smallest and the greatest, while the size counts all of them.
\<close>

theorem parcSortedList_Add_loses:
  assumes c: "comparison c" and o: "ordered c (y # z # zs)" and l: "linked_holds l as (y # z # zs)" "sorted_elements s = Some l"
    and len: "length zs + 4 < 2 ^ 63"
    and v: "compares (sorted_compare s h) c x (y # z # zs)" "compares (sorted_compare s h1) c w (x # y # z # zs)"
    and a: "parcObject_Acquire T h x = Inr (x, h1)" "parcObject_Acquire T h1 w = Inr (w, h2)"
    and u: "all_valid h1 (x # y # z # zs)" "all_valid h2 [x, y, w]"
    and x: "c x y < 0" and w: "\<forall>e \<in> set (x # y # z # zs). c e w < 0"
  shows "\<exists>s1 s2 l2 bs. parcSortedList_Add T True h s x = Inr (h1, s1) \<and> parcSortedList_Add T True h1 s1 w = Inr (h2, s2) \<and>
    sorted_elements s2 = Some l2 \<and> head l2 = first bs None \<and> segment (nodes l2) None bs [x, y, w] None \<and>
    parcSortedList_Size s2 = Inr (word_of_nat (length zs + 4))"
proof -
  let ?xs = "y # z # zs"
  obtain b c' cs where as: "as = b # c' # cs"
    using chain_length [OF linked_holdsD(1) [OF l(1)]] by (cases as; cases "tl as") auto
  obtain k where k: "parcSortedList_GetInsertionIndex h s x = Inr (word_of_nat k)" "insertion_point c x ?xs k"
    using GetInsertionIndex_finds [OF c o v(1) l(1), of "tail l"] l(2) len by auto
  have "k = 0" using insertion_point_front [OF c k(2)] x by simp
  obtain l1 where i: "parcLinkedList_InsertAtIndex T True h l 0 x = Inr (h1, l1\<lparr>tail := Some b\<rparr>)"
    "linked_holds l1 (fresh l # as) (x # ?xs)"
    using Insert_front [of l b "c' # cs" y "z # zs" T h x x h1] l(1) len a(1) u(1) as by auto
  let ?s = "s\<lparr>sorted_elements := Some (l1\<lparr>tail := Some b\<rparr>)\<rparr>"
  have s1: "parcSortedList_Add T True h s x = Inr (h1, ?s)"
    using Add_unfold [OF k(1) l(2), of "length ?xs" T] linked_holdsD(2,3) [OF l(1)] i(1) \<open>k = 0\<close> by simp
  note d = linked_holdsD [OF i(2)]
  have o1: "ordered c (x # ?xs)" 
    using comparison.insertion_point_ordered [OF c o, of 0 x] k(2) \<open>k = 0\<close> by (simp add: insertion_point_def)
  obtain j where j: "parcSortedList_GetInsertionIndex h1 ?s w = Inr (word_of_nat j)" "insertion_point c w (x # ?xs) j"
    using GetInsertionIndex_finds [OF c o1 _ i(2), of ?s h1 w "Some b"] v(2) len by auto
  have "j = length (x # ?xs)" using insertion_point_back [OF c j(2) w] .
  obtain l2 where l2: "parcLinkedList_InsertAtIndex T True h1 (l1\<lparr>tail := Some b\<rparr>) (list_size l1) w = Inr (h2, l2)"
    "head l2 = Some (fresh l)" "path l2 [fresh l, b, fresh l1] [x, y, w]" "list_size l2 = word_of_nat (length zs + 4)"
    using Insert_behind_second [of l1 "fresh l" b "c' # cs" x y "z # zs" T h1 w h2] i(2) as a(2) u(2) len
    by (auto simp: ac_simps simp del: segment.simps)
  have "parcSortedList_Add T True h1 ?s w = Inr (h2, ?s\<lparr>sorted_elements := Some l2\<rparr>)"
    using Add_unfold [OF j(1), of "l1\<lparr>tail := Some b\<rparr>" "length (x # ?xs)" T] d(2,3) l2(1) \<open>j = length (x # ?xs)\<close> by simp
  then show ?thesis
    using s1 l2(2-4)
    by (intro exI [of _ ?s] exI [of _ "?s\<lparr>sorted_elements := Some l2\<rparr>"] exI [of _ l2] exI [of _ "[fresh l, b, fresh l1]"])
      (simp add: parcSortedList_Size_def parcLinkedList_Size_def del: segment.simps)
qed

text \<open>Objects at the addresses 5, 10, 20 and 30, compared by their addresses, and a list of the middle ones.\<close>

definition example_rank :: "ptr \<Rightarrow> int" where
  "example_rank p = (case p of None \<Rightarrow> 0 | Some a \<Rightarrow> int a)"

definition example_sorted :: "unit sorted_list" where
  "example_sorted = \<lparr>sorted_elements = Some example_linked,
     sorted_compare = (\<lambda>_ x y. Inr (example_rank x - example_rank y))\<rparr>"

definition example_counts :: "u64 \<Rightarrow> u64 \<Rightarrow> unit heap" where
  "example_counts m n = parcObject_SetHeader (parcObject_SetHeader (example_heap 2) 5 ((example_object 2)\<lparr>references := m\<rparr>))
     30 ((example_object 2)\<lparr>references := n\<rparr>)"

lemma example_comparison: "comparison (\<lambda>x y. example_rank x - example_rank y)"
  by unfold_locales auto

lemma example_sorted_facts:
  "ordered (\<lambda>x y. example_rank x - example_rank y) [Some 10, Some 20]"
  "compares (sorted_compare example_sorted h) (\<lambda>x y. example_rank x - example_rank y) x xs"
  "sorted_elements example_sorted = Some example_linked"
  by (simp_all add: example_sorted_def compares_def example_rank_def)

lemma example_counts_acquire:
  "parcObject_Acquire example_types (example_counts m n) (Some 5) = Inr (Some 5, example_counts (m + 1) n)"
  "parcObject_Acquire example_types (example_counts m n) (Some 30) = Inr (Some 30, example_counts m (n + 1))"
  using parcObject_Acquire_ok [of example_types "example_counts m n" 5 "(example_object 2)\<lparr>references := m\<rparr>"]
    parcObject_Acquire_ok [of example_types "example_counts m n" 30 "(example_object 2)\<lparr>references := n\<rparr>"] example_object_ok
  by (simp_all add: example_counts_def object_at_def parcObject_SetHeader_def fun_upd_twist)

lemma example_counts_valid:
  assumes "m \<noteq> 0" "n \<noteq> 0" "set xs \<subseteq> {Some 5, Some 10, Some 20, Some 30}"
  shows "all_valid (example_counts m n) xs"
proof -
  have "parcObject_IsValid (example_counts m n) x" if "x = Some 5 \<or> x = Some 10 \<or> x = Some 20 \<or> x = Some 30" for x
    using that assms(1,2)
    by (auto simp: parcObject_IsValid_def example_counts_def parcObjectHeader_IsValid_def example_object_def
        parcObjectHeader_InitAllocated_def)
  then show ?thesis using assms(3) by (auto simp: all_valid_def list_all_iff)
qed

theorem parcSortedList_GetInsertionIndex_point_witness:
  "\<exists>k. parcSortedList_GetInsertionIndex (example_counts 1 1) example_sorted (Some 30) = Inr (word_of_nat k) \<and>
    insertion_point (\<lambda>x y. example_rank x - example_rank y) (Some 30) [Some 10, Some 20] k"
  using parcSortedList_GetInsertionIndex_point
      [OF example_comparison example_sorted_facts(1,2) example_linked_holds example_sorted_facts(3)]
  by simp

theorem parcSortedList_Add_ordered_witness:
  "\<exists>l1 bs ys. parcSortedList_Add example_types True (example_counts 1 1) example_sorted (Some 30) =
      Inr (example_counts 1 2, example_sorted\<lparr>sorted_elements := Some l1\<rparr>) \<and> linked_holds l1 bs ys \<and>
    ordered (\<lambda>x y. example_rank x - example_rank y) ys \<and> mset ys = {#Some 10, Some 20, Some 30#}"
  using parcSortedList_Add_ordered [OF example_comparison example_sorted_facts(1,2) example_linked_holds example_sorted_facts(3)
      _ example_counts_acquire(2) [of 1 1]] example_counts_valid [of 1 2 "[Some 30, Some 10, Some 20]"]
  by (auto simp: example_rank_def add_mset_commute)

theorem parcSortedList_Add_loses_witness:
  "\<exists>s1 s2 l2 bs. parcSortedList_Add example_types True (example_counts 1 1) example_sorted (Some 5) = Inr (example_counts 2 1, s1) \<and>
    parcSortedList_Add example_types True (example_counts 2 1) s1 (Some 30) = Inr (example_counts 2 2, s2) \<and>
    sorted_elements s2 = Some l2 \<and> head l2 = first bs None \<and> segment (nodes l2) None bs [Some 5, Some 10, Some 30] None \<and>
    parcSortedList_Size s2 = Inr 4"
proof -
  have "parcObject_Acquire example_types (example_counts 1 1) (Some 5) = Inr (Some 5, example_counts 2 1)"
    "parcObject_Acquire example_types (example_counts 2 1) (Some 30) = Inr (Some 30, example_counts 2 2)"
    using example_counts_acquire(1) [of 1 1] example_counts_acquire(2) [of 2 1] by simp_all
  from parcSortedList_Add_loses [OF example_comparison example_sorted_facts(1) example_linked_holds example_sorted_facts(3)
      _ example_sorted_facts(2,2) this]
  show ?thesis
    using example_counts_valid [of 2 1 "[Some 5, Some 10, Some 20]"] example_counts_valid [of 2 2 "[Some 5, Some 10, Some 30]"]
    by (simp add: example_rank_def)
qed

end
