(* ===== verification/Parc_RedBlack.thy ===== *)
theory Parc_RedBlack
  imports Parc_Order
begin

text \<open>
  Red-black trees as values, for the pointer structure of \<^verbatim>\<open>parc_TreeRedBlack.c\<close>: trees whose nodes carry their address, a
  place in a tree as a subtree with the frames around it, and the two invariants, the order of the keys and the balance.
\<close>

section \<open>Trees and places in trees\<close>

datatype hue = Red | Black

datatype side = L | R

fun other :: "side \<Rightarrow> side" where
  "other L = R"
| "other R = L"

text \<open>A node has an address, a color and an entry, the key with its value.\<close>

type_synonym entry = "ptr \<times> ptr"

datatype rb_tree = Tip | Bin rb_tree addr hue entry rb_tree

text \<open>\<open>join d s a c e t\<close> has \<open>s\<close> on the side \<open>d\<close> and \<open>t\<close> on the other one.\<close>

fun join :: "side \<Rightarrow> rb_tree \<Rightarrow> addr \<Rightarrow> hue \<Rightarrow> entry \<Rightarrow> rb_tree \<Rightarrow> rb_tree" where
  "join L s a c e t = Bin s a c e t"
| "join R s a c e t = Bin t a c e s"

datatype frame = Frame side addr hue entry rb_tree

primrec plug :: "frame list \<Rightarrow> rb_tree \<Rightarrow> rb_tree" where
  "plug [] s = s"
| "plug (f # cs) s = (case f of Frame d a c e t \<Rightarrow> plug cs (join d s a c e t))"

primrec addrs :: "rb_tree \<Rightarrow> addr list" where
  "addrs Tip = []"
| "addrs (Bin l a c e r) = addrs l @ a # addrs r"

primrec inorder :: "rb_tree \<Rightarrow> entry list" where
  "inorder Tip = []"
| "inorder (Bin l a c e r) = inorder l @ e # inorder r"

primrec paint :: "hue \<Rightarrow> rb_tree \<Rightarrow> rb_tree" where
  "paint h Tip = Tip"
| "paint h (Bin l a c e r) = Bin l a h e r"

primrec hue_of :: "rb_tree \<Rightarrow> hue" where
  "hue_of Tip = Black"
| "hue_of (Bin l a c e r) = c"

lemma other_simps [simp]: "other (other d) = d" "other d \<noteq> d" "d \<noteq> other d"
  by (cases d; simp)+

lemma side_cases: "d = d1 \<or> d = other d1"
  by (cases d; cases d1) auto

lemma join_simps [simp]:
  "hue_of (join d s a c e t) = c" "paint h (join d s a c e t) = join d s a h e t"
  "set (addrs (join d s a c e t)) = insert a (set (addrs s) \<union> set (addrs t))"
  "join d s a c e t \<noteq> Tip" "Tip \<noteq> join d s a c e t"
  "join d s a c e t = join d s1 a1 c1 e1 t1 \<longleftrightarrow> s = s1 \<and> a = a1 \<and> c = c1 \<and> e = e1 \<and> t = t1"
  by (cases d; auto)+

lemma join_other: "join (other d) s a c e t = join d t a c e s"
  by (cases d) simp_all

lemma addrs_paint [simp]: "addrs (paint h t) = addrs t"
  by (cases t) simp_all

lemma inorder_paint [simp]: "inorder (paint h t) = inorder t"
  by (cases t) simp_all

lemma hue_simps [simp]: "h \<noteq> Red \<longleftrightarrow> h = Black" "h \<noteq> Black \<longleftrightarrow> h = Red"
  by (cases h; simp)+

text \<open>Every tree that is not a tip is a join, on either side.\<close>

lemma join_cases:
  assumes "t \<noteq> Tip"
  obtains s a c e r where "t = join d s a c e r"
  using assms by (cases t; cases d) fastforce+

lemma distinct_join [simp]:
  "distinct (addrs (join d s a c e t)) \<longleftrightarrow> distinct (addrs s) \<and> distinct (addrs t) \<and> set (addrs s) \<inter> set (addrs t) = {} \<and>
    a \<notin> set (addrs s) \<and> a \<notin> set (addrs t)"
  by (cases d) auto

lemma paint_same: "hue_of s = Black \<Longrightarrow> paint Black s = s"
  by (cases s) simp_all

section \<open>Balance\<close>

primrec black_height :: "rb_tree \<Rightarrow> nat" where
  "black_height Tip = 0"
| "black_height (Bin l a c e r) = black_height l + (if c = Black then 1 else 0)"

primrec balanced :: "rb_tree \<Rightarrow> bool" where
  "balanced Tip \<longleftrightarrow> True"
| "balanced (Bin l a c e r) \<longleftrightarrow> balanced l \<and> balanced r \<and> black_height l = black_height r \<and>
    (c = Red \<longrightarrow> hue_of l = Black \<and> hue_of r = Black)"

definition red_black :: "rb_tree \<Rightarrow> bool" where
  "red_black t \<longleftrightarrow> balanced t \<and> hue_of t = Black"

text \<open>
  The frames around a place that wants a tree of black height \<open>n\<close> with a root of color \<open>h\<close>.
\<close>

primrec fits :: "nat \<Rightarrow> hue \<Rightarrow> frame list \<Rightarrow> bool" where
  "fits n h [] \<longleftrightarrow> h = Black"
| "fits n h (f # cs) \<longleftrightarrow> (case f of Frame d a c e t \<Rightarrow> balanced t \<and> black_height t = n \<and>
    (c = Red \<longrightarrow> h = Black \<and> hue_of t = Black) \<and> fits (n + (if c = Black then 1 else 0)) c cs)"

lemma balanced_join [simp]:
  "balanced (join d s a c e t) \<longleftrightarrow> balanced s \<and> balanced t \<and> black_height s = black_height t \<and>
    (c = Red \<longrightarrow> hue_of s = Black \<and> hue_of t = Black)"
  by (cases d) auto

lemma black_height_join:
  "black_height s = black_height t \<Longrightarrow> black_height (join d s a c e t) = black_height s + (if c = Black then 1 else 0)"
  by (cases d) simp_all

lemma red_black_plug: "red_black (plug cs s) \<longleftrightarrow> balanced s \<and> fits (black_height s) (hue_of s) cs"
proof (induction cs arbitrary: s)
  case Nil
  then show ?case by (simp add: red_black_def)
next
  case (Cons f cs)
  obtain d a c e t where f: "f = Frame d a c e t" by (cases f)
  show ?case using Cons [of "join d s a c e t"] by (auto simp: f black_height_join split: if_splits)
qed

lemma balanced_paint_Black [simp]: "balanced t \<Longrightarrow> balanced (paint Black t)"
  by (cases t) simp_all

lemma hue_paint [simp]: "hue_of (paint Black t) = Black"
  by (cases t) simp_all

lemma fits_Red: "fits n Red cs \<Longrightarrow> fits n Black cs"
  by (cases cs) (auto split: frame.splits)

text \<open>The height of a balanced tree is logarithmic in the number of its entries.\<close>

primrec height :: "rb_tree \<Rightarrow> nat" where
  "height Tip = 0"
| "height (Bin l a c e r) = Suc (max (height l) (height r))"

lemma black_height_size: "balanced t \<Longrightarrow> 2 ^ black_height t \<le> Suc (length (inorder t))"
proof (induction t)
  case Tip
  then show ?case by simp
next
  case (Bin l a c e r)
  then have "2 ^ black_height l \<le> Suc (length (inorder l))" "2 ^ black_height l \<le> Suc (length (inorder r))" by simp_all
  then show ?case by auto
qed

lemma height_black_height:
  "balanced t \<Longrightarrow> height t \<le> 2 * black_height t + (if hue_of t = Red then 1 else 0)"
  by (induction t) (auto simp: max_def split: if_splits)

lemma red_black_height:
  assumes "red_black t"
  shows "2 ^ height t \<le> (Suc (length (inorder t))) ^ 2"
proof -
  have "balanced t" "height t \<le> 2 * black_height t"
    using assms height_black_height [of t] by (auto simp: red_black_def)
  then have "(2 :: nat) ^ height t \<le> 2 ^ (2 * black_height t)" by (intro power_increasing) simp_all
  also have "\<dots> = (2 ^ black_height t) ^ 2" by (simp add: power_mult [symmetric] mult.commute)
  also have "\<dots> \<le> (Suc (length (inorder t))) ^ 2"
    using black_height_size [OF \<open>balanced t\<close>] by (intro power_mono) simp_all
  finally show ?thesis .
qed

section \<open>Entries around a place\<close>

primrec before :: "frame list \<Rightarrow> entry list" where
  "before [] = []"
| "before (f # cs) = (case f of Frame d a c e t \<Rightarrow> before cs @ (case d of L \<Rightarrow> [] | R \<Rightarrow> inorder t @ [e]))"

primrec behind :: "frame list \<Rightarrow> entry list" where
  "behind [] = []"
| "behind (f # cs) = (case f of Frame d a c e t \<Rightarrow> (case d of L \<Rightarrow> e # inorder t | R \<Rightarrow> []) @ behind cs)"

lemma inorder_plug: "inorder (plug cs s) = before cs @ inorder s @ behind cs"
proof (induction cs arbitrary: s)
  case Nil
  then show ?case by simp
next
  case (Cons f cs)
  obtain d a c e t where f: "f = Frame d a c e t" by (cases f)
  show ?case using Cons [of "join d s a c e t"] by (cases d) (simp_all add: f)
qed

lemma around_append: "before (cs @ ds) = before ds @ before cs" "behind (cs @ ds) = behind cs @ behind ds"
proof (induction cs)
  case (Cons f cs)
  { case 1 show ?case using Cons by (cases f) simp }
  { case 2 show ?case using Cons by (cases f) simp }
qed simp_all

lemma fits_other: "fits n h (cs @ Frame d a c e t # ds) = fits n h (cs @ Frame d a1 c e1 t # ds)"
proof (induction cs arbitrary: n h)
  case (Cons f cs)
  then show ?case by (cases f) simp
qed simp

lemma plug_inorder_cong: "inorder s = inorder t \<Longrightarrow> inorder (plug cs s) = inorder (plug cs t)"
  by (simp add: inorder_plug)

primrec frame_addrs :: "frame list \<Rightarrow> addr list" where
  "frame_addrs [] = []"
| "frame_addrs (f # cs) = (case f of Frame d a c e t \<Rightarrow> a # addrs t @ frame_addrs cs)"

lemma frame_addrs_append [simp]: "frame_addrs (cs @ ds) = frame_addrs cs @ frame_addrs ds"
proof (induction cs)
  case (Cons f cs)
  then show ?case by (cases f) simp
qed simp

lemma plug_append: "plug (cs @ ds) s = plug ds (plug cs s)"
proof (induction cs arbitrary: s)
  case (Cons f cs)
  then show ?case by (cases f) simp
qed simp

lemma addrs_plug: "set (addrs (plug cs s)) = set (addrs s) \<union> set (frame_addrs cs)"
proof (induction cs arbitrary: s)
  case Nil
  then show ?case by simp
next
  case (Cons f cs)
  obtain d a c e t where f: "f = Frame d a c e t" by (cases f)
  show ?case using Cons [of "join d s a c e t"] by (auto simp: f)
qed

lemma distinct_plug:
  "distinct (addrs (plug cs s)) \<longleftrightarrow> distinct (addrs s) \<and> distinct (frame_addrs cs) \<and>
    set (addrs s) \<inter> set (frame_addrs cs) = {}"
proof (induction cs arbitrary: s)
  case Nil
  then show ?case by simp
next
  case (Cons f cs)
  obtain d a c e t where f: "f = Frame d a c e t" by (cases f)
  show ?case using Cons [of "join d s a c e t"] by (auto simp: f)
qed

lemma length_addrs: "length (addrs t) = length (inorder t)"
  by (induction t) simp_all

end
