(* ===== verification/Parc_TreeRedBlack.thy ===== *)
theory Parc_TreeRedBlack
  imports Parc_RedBlack Parc_ArrayList Parc_Object
begin

text \<open>
  The red-black tree (\<^verbatim>\<open>parc_TreeRedBlack.c\<close>): nodes with parent pointers and a sentinel \<open>nil\<close> that stands for every missing child
  and whose parent pointer the removal uses. The tree has one owner, so an operation takes it and returns the new one.
\<close>

section \<open>The tree\<close>

abbreviation (input) RED :: int where "RED \<equiv> 1"
abbreviation (input) BLACK :: int where "BLACK \<equiv> 0"

record rb_node =
  left_child :: ptr
  right_child :: ptr
  parent :: ptr
  node_key :: ptr
  node_value :: ptr
  node_color :: int

text \<open>
  \<open>tree_nodes\<close> is the part of the memory that holds the nodes and \<open>unused\<close> the next address. The key and value functions are
  the caller's: \<open>keyFree\<close> and \<open>valueFree\<close> tell whether they are set and \<open>freed\<close> is what they have been called with; a copy
  function gets the number of the call, for a copy is at a new address every time.
\<close>

record red_black_tree =
  root :: ptr
  nil :: ptr
  tree_size :: int
  keyCompare :: "ptr \<Rightarrow> ptr \<Rightarrow> int"
  keyFree :: bool
  keyCopy :: "(nat \<Rightarrow> ptr \<Rightarrow> ptr) option"
  valueFree :: bool
  valueEquals :: "(ptr \<Rightarrow> ptr \<Rightarrow> bool) option"
  valueCopy :: "(nat \<Rightarrow> ptr \<Rightarrow> ptr) option"
  tree_nodes :: "addr \<Rightarrow> rb_node option"
  unused :: addr
  freed :: "ptr list"

text \<open>Reading and assigning a field of the node behind a pointer.\<close>

definition rb_at :: "red_black_tree \<Rightarrow> ptr \<Rightarrow> rb_node result" where
  "rb_at t p = (case p of None \<Rightarrow> Inl BadPointer
     | Some a \<Rightarrow> (case tree_nodes t a of None \<Rightarrow> Inl BadPointer | Some n \<Rightarrow> Inr n))"

definition get :: "(rb_node \<Rightarrow> 'f) \<Rightarrow> red_black_tree \<Rightarrow> ptr \<Rightarrow> 'f result" where
  "get f t p = rbind (rb_at t p) (\<lambda>n. Inr (f n))"

definition assign :: "(rb_node \<Rightarrow> rb_node) \<Rightarrow> red_black_tree \<Rightarrow> ptr \<Rightarrow> red_black_tree result" where
  "assign f t p = rbind (rb_at t p) (\<lambda>n. Inr (t\<lparr>tree_nodes := (tree_nodes t)(the p \<mapsto> f n)\<rparr>))"

fun child :: "side \<Rightarrow> rb_node \<Rightarrow> ptr" where
  "child L = left_child"
| "child R = right_child"

fun child_update :: "side \<Rightarrow> ptr \<Rightarrow> rb_node \<Rightarrow> rb_node" where
  "child_update L p = left_child_update (\<lambda>_. p)"
| "child_update R p = right_child_update (\<lambda>_. p)"

abbreviation set_child where "set_child d t p q \<equiv> assign (child_update d q) t p"
abbreviation set_parent where "set_parent t p q \<equiv> assign (parent_update (\<lambda>_. q)) t p"

text \<open>The number of nodes is a signed integer of 32 bits.\<close>

definition count_nodes :: "int \<Rightarrow> red_black_tree \<Rightarrow> red_black_tree result" where
  "count_nodes i t = rbind (trapIf Undefined (tree_size t + i > 2147483647 \<or> tree_size t + i < - 2147483648)) (\<lambda>_.
    Inr (t\<lparr>tree_size := tree_size t + i\<rparr>))"

section \<open>Nodes\<close>

definition free_key :: "red_black_tree \<Rightarrow> ptr \<Rightarrow> red_black_tree" where
  "free_key t k = (if keyFree t then t\<lparr>freed := freed t @ [k]\<rparr> else t)"

definition free_value :: "red_black_tree \<Rightarrow> ptr \<Rightarrow> red_black_tree" where
  "free_value t v = (if valueFree t then t\<lparr>freed := freed t @ [v]\<rparr> else t)"

definition deallocate :: "red_black_tree \<Rightarrow> ptr \<Rightarrow> red_black_tree" where
  "deallocate t p = t\<lparr>tree_nodes := (tree_nodes t)(the p := None)\<rparr>"

definition rbNodeFree :: "red_black_tree \<Rightarrow> ptr \<Rightarrow> red_black_tree result" where
  "rbNodeFree t node =
    rbind (rb_at t node) (\<lambda>n.
    Inr (deallocate (free_value (free_key t (node_key n)) (node_value n)) node))"

partial_function (option) rbNodeFreeRecursive :: "red_black_tree \<Rightarrow> ptr \<Rightarrow> red_black_tree result option" where
  "rbNodeFreeRecursive t node =
    (case get left_child t node of Inl e \<Rightarrow> Some (Inl e) | Inr l \<Rightarrow>
     Option.bind (if l \<noteq> nil t then rbNodeFreeRecursive t l else Some (Inr t)) (\<lambda>r1.
     case r1 of Inl e \<Rightarrow> Some (Inl e) | Inr t1 \<Rightarrow>
     case get right_child t1 node of Inl e \<Rightarrow> Some (Inl e) | Inr r \<Rightarrow>
     Option.bind (if r \<noteq> nil t1 then rbNodeFreeRecursive t1 r else Some (Inr t1)) (\<lambda>r2.
     case r2 of Inl e \<Rightarrow> Some (Inl e) | Inr t2 \<Rightarrow>
     Some (rbind (rbNodeFree t2 node) (count_nodes (- 1))))))"

text \<open>\<open>func\<close> is called with every node in order; it may change \<open>data\<close>.\<close>

partial_function (option) rbNodeRecursiveRun ::
  "red_black_tree \<Rightarrow> ptr \<Rightarrow> (ptr \<Rightarrow> 'd \<Rightarrow> 'd result) \<Rightarrow> 'd \<Rightarrow> 'd result option" where
  "rbNodeRecursiveRun t node func data =
    (case get left_child t node of Inl e \<Rightarrow> Some (Inl e) | Inr l \<Rightarrow>
     Option.bind (if l \<noteq> nil t then rbNodeRecursiveRun t l func data else Some (Inr data)) (\<lambda>r1.
     case rbind r1 (func node) of Inl e \<Rightarrow> Some (Inl e) | Inr data1 \<Rightarrow>
     case get right_child t node of Inl e \<Rightarrow> Some (Inl e) | Inr r \<Rightarrow>
     if r \<noteq> nil t then rbNodeRecursiveRun t r func data1 else Some (Inr data1)))"

definition rbNodeCreate :: "bool \<Rightarrow> red_black_tree \<Rightarrow> int \<Rightarrow> (ptr \<times> red_black_tree) result" where
  "rbNodeCreate granted t color =
    rbind (assertTrue granted) (\<lambda>_.
    let n = \<lparr>left_child = nil t, right_child = nil t, parent = nil t, node_key = None, node_value = None, node_color = color\<rparr> in
    Inr (Some (unused t), t\<lparr>tree_nodes := (tree_nodes t)(unused t \<mapsto> n), unused := Suc (unused t)\<rparr>))"

text \<open>The color is passed as \<open>uint8_t\<close>.\<close>

definition rbNodeSetColor :: "red_black_tree \<Rightarrow> ptr \<Rightarrow> int \<Rightarrow> red_black_tree result" where
  "rbNodeSetColor t node color = assign (node_color_update (\<lambda>_. uint (word_of_int color :: u8))) t node"

definition rbNodeColor :: "red_black_tree \<Rightarrow> ptr \<Rightarrow> int result" where
  "rbNodeColor t node = get node_color t node"

definition rbNodeIsEqual :: "red_black_tree \<Rightarrow> ptr \<Rightarrow> ptr \<Rightarrow> bool result" where
  "rbNodeIsEqual t node key = get (\<lambda>n. keyCompare t (node_key n) key = 0) t node"

definition rbNodeIsGreaterThan :: "red_black_tree \<Rightarrow> ptr \<Rightarrow> ptr \<Rightarrow> bool result" where
  "rbNodeIsGreaterThan t node key = get (\<lambda>n. keyCompare t (node_key n) key > 0) t node"

definition rbNodeUpdate :: "red_black_tree \<Rightarrow> ptr \<Rightarrow> ptr \<Rightarrow> red_black_tree result" where
  "rbNodeUpdate t treeNode newNode =
    rbind (rb_at t treeNode) (\<lambda>old.
    rbind (rb_at t newNode) (\<lambda>new.
    rbind (assign (\<lambda>n. n\<lparr>node_key := node_key new, node_value := node_value new\<rparr>)
        (free_value (free_key t (node_key old)) (node_value old)) treeNode) (\<lambda>t1.
    Inr (deallocate t1 newNode))))"

section \<open>Rotations\<close>

text \<open>The node becomes the child of its subtree's root on the side \<open>d\<close>.\<close>

definition rbNodeRotate :: "side \<Rightarrow> red_black_tree \<Rightarrow> ptr \<Rightarrow> red_black_tree result" where
  "rbNodeRotate d t node =
    rbind (get (child (other d)) t node) (\<lambda>subroot.
    rbind (get (child d) t subroot) (\<lambda>inner.
    rbind (set_child (other d) t node inner) (\<lambda>t1.
    rbind (if inner \<noteq> nil t1 then set_parent t1 inner node else Inr t1) (\<lambda>t2.
    rbind (get parent t2 node) (\<lambda>p.
    rbind (set_parent t2 subroot p) (\<lambda>t3.
    rbind (if root t3 = node then Inr (t3\<lparr>root := subroot\<rparr>)
           else rbind (get parent t3 subroot) (\<lambda>p.
                rbind (get left_child t3 p) (\<lambda>l.
                if l = node then set_child L t3 p subroot else set_child R t3 p subroot))) (\<lambda>t4.
    rbind (set_child d t4 subroot node) (\<lambda>t5.
    set_parent t5 node subroot))))))))"

definition rbNodeRotateLeft :: "red_black_tree \<Rightarrow> ptr \<Rightarrow> red_black_tree result" where
  "rbNodeRotateLeft = rbNodeRotate L"

definition rbNodeRotateRight :: "red_black_tree \<Rightarrow> ptr \<Rightarrow> red_black_tree result" where
  "rbNodeRotateRight = rbNodeRotate R"

fun rotation :: "side \<Rightarrow> red_black_tree \<Rightarrow> ptr \<Rightarrow> red_black_tree result" where
  "rotation L = rbNodeRotateLeft"
| "rotation R = rbNodeRotateRight"

section \<open>Repair after an insertion\<close>

text \<open>
  One pass of the loop, when the parent is the child of the grandparent on the side \<open>d\<close>: the two branches of the code are
  mirror images.
\<close>

definition fix_side :: "side \<Rightarrow> red_black_tree \<Rightarrow> ptr \<Rightarrow> (ptr \<times> red_black_tree) result" where
  "fix_side d t node =
    rbind (get parent t node) (\<lambda>p.
    rbind (get parent t p) (\<lambda>g.
    rbind (get (child (other d)) t g) (\<lambda>uncle.
    rbind (rbNodeColor t uncle) (\<lambda>c.
    if c = RED then
      rbind (rbNodeSetColor t p BLACK) (\<lambda>t1.
      rbind (rbNodeSetColor t1 uncle BLACK) (\<lambda>t2.
      rbind (rbNodeSetColor t2 g RED) (\<lambda>t3.
      Inr (g, t3))))
    else
      rbind (get (child (other d)) t p) (\<lambda>inner.
      rbind (if inner = node then rbind (rotation d t p) (\<lambda>t1. Inr (p, t1)) else Inr (node, t)) (\<lambda>(n, t1).
      rbind (get parent t1 n) (\<lambda>p1.
      rbind (rbNodeSetColor t1 p1 BLACK) (\<lambda>t2.
      rbind (get parent t2 p1) (\<lambda>g1.
      rbind (rbNodeSetColor t2 g1 RED) (\<lambda>t3.
      rbind (rotation (other d) t3 g1) (\<lambda>t4.
      Inr (n, t4))))))))))))"

partial_function (option) fix_loop :: "red_black_tree \<Rightarrow> ptr \<Rightarrow> red_black_tree result option" where
  "fix_loop t node =
    (case rbind (get parent t node) (rbNodeColor t) of Inl e \<Rightarrow> Some (Inl e) | Inr c \<Rightarrow>
     if c = RED then
       (case rbind (get parent t node) (\<lambda>p. rbind (get parent t p) (\<lambda>g. rbind (get left_child t g) (\<lambda>l.
             fix_side (if l = p then L else R) t node))) of
          Inl e \<Rightarrow> Some (Inl e)
        | Inr r \<Rightarrow> fix_loop (snd r) (fst r))
     else Some (Inr t))"

definition rbNodeFix :: "red_black_tree \<Rightarrow> ptr \<Rightarrow> red_black_tree result" where
  "rbNodeFix t startNode =
    rbind (resolved (fix_loop t startNode)) (\<lambda>t1.
    rbNodeSetColor t1 (root t1) BLACK)"

section \<open>The assertions\<close>

definition rbNodeAssertNodeInvariants :: "red_black_tree \<Rightarrow> ptr \<Rightarrow> unit result" where
  "rbNodeAssertNodeInvariants t node =
    rbind (rb_at t node) (\<lambda>n.
    rbind (assertTrue (parent n \<noteq> None)) (\<lambda>_.
    rbind (assertTrue (left_child n \<noteq> None)) (\<lambda>_.
    rbind (assertTrue (right_child n \<noteq> None)) (\<lambda>_.
    rbind (if node \<noteq> root t then assertTrue (parent n \<noteq> nil t) else Inr ()) (\<lambda>_.
    rbind (assertTrue (node_key n \<noteq> None)) (\<lambda>_.
    rbind (assertTrue (node_value n \<noteq> None)) (\<lambda>_.
    rbind (if left_child n \<noteq> nil t
           then rbind (get node_key t (left_child n)) (\<lambda>k. assertTrue (keyCompare t (node_key n) k > 0)) else Inr ()) (\<lambda>_.
    if right_child n \<noteq> nil t
    then rbind (get node_key t (right_child n)) (\<lambda>k. assertTrue (keyCompare t (node_key n) k < 0)) else Inr ()))))))))"

definition rbNodeAssertTreeInvariants :: "red_black_tree \<Rightarrow> unit result" where
  "rbNodeAssertTreeInvariants t =
    rbind (assertTrue (tree_size t \<ge> 0)) (\<lambda>_.
    if tree_size t \<noteq> 0 then
      rbind (assertTrue (root t \<noteq> nil t)) (\<lambda>_.
      rbind (assertTrue (root t \<noteq> None)) (\<lambda>_.
      resolved (rbNodeRecursiveRun t (root t) (\<lambda>node _. rbNodeAssertNodeInvariants t node) ())))
    else Inr ())"

section \<open>Removal\<close>

text \<open>
  One pass of the loop, when the node is the child on the side \<open>d\<close>; again the two branches are mirror images. First a red sibling
  is rotated up, so that the new one is black.
\<close>

definition fixDelete_red :: "side \<Rightarrow> red_black_tree \<Rightarrow> ptr \<Rightarrow> (ptr \<times> red_black_tree) result" where
  "fixDelete_red d t node =
    rbind (get parent t node) (\<lambda>p.
    rbind (get (child (other d)) t p) (\<lambda>fixNode.
    rbind (rbNodeColor t fixNode) (\<lambda>c.
    if c = RED then
      rbind (rbNodeSetColor t fixNode BLACK) (\<lambda>t1.
      rbind (get parent t1 node) (\<lambda>p.
      rbind (rbNodeSetColor t1 p RED) (\<lambda>t2.
      rbind (rotation d t2 p) (\<lambda>t3.
      rbind (get parent t3 node) (\<lambda>p.
      rbind (get (child (other d)) t3 p) (\<lambda>fixNode.
      Inr (fixNode, t3)))))))
    else Inr (fixNode, t))))"

text \<open>Then a sibling whose outer child is black is rotated down, so that the new outer child is red.\<close>

definition fixDelete_inner :: "side \<Rightarrow> red_black_tree \<Rightarrow> ptr \<Rightarrow> ptr \<Rightarrow> (ptr \<times> red_black_tree) result" where
  "fixDelete_inner d t node fixNode =
    rbind (get (child (other d)) t fixNode) (\<lambda>outer.
    rbind (rbNodeColor t outer) (\<lambda>c.
    if c = BLACK then
      rbind (get (child d) t fixNode) (\<lambda>inner.
      rbind (rbNodeSetColor t inner BLACK) (\<lambda>t1.
      rbind (rbNodeSetColor t1 fixNode RED) (\<lambda>t2.
      rbind (rotation (other d) t2 fixNode) (\<lambda>t3.
      rbind (get parent t3 node) (\<lambda>p.
      rbind (get (child (other d)) t3 p) (\<lambda>fixNode.
      Inr (fixNode, t3)))))))
    else Inr (fixNode, t)))"

definition fixDelete_outer :: "side \<Rightarrow> red_black_tree \<Rightarrow> ptr \<Rightarrow> ptr \<Rightarrow> (ptr \<times> red_black_tree) result" where
  "fixDelete_outer d t node fixNode =
    rbind (get parent t node) (\<lambda>p.
    rbind (rbNodeColor t p) (\<lambda>c.
    rbind (rbNodeSetColor t fixNode c) (\<lambda>t1.
    rbind (rbNodeSetColor t1 p BLACK) (\<lambda>t2.
    rbind (get (child (other d)) t2 fixNode) (\<lambda>outer.
    rbind (rbNodeSetColor t2 outer BLACK) (\<lambda>t3.
    rbind (rotation d t3 p) (\<lambda>t4.
    Inr (root t4, t4))))))))"

definition black_children :: "red_black_tree \<Rightarrow> ptr \<Rightarrow> bool result" where
  "black_children t fixNode =
    rbind (get left_child t fixNode) (\<lambda>l.
    rbind (rbNodeColor t l) (\<lambda>cl.
    if cl = BLACK then
      rbind (get right_child t fixNode) (\<lambda>r.
      rbind (rbNodeColor t r) (\<lambda>cr.
      Inr (cr = BLACK)))
    else Inr False))"

definition fixDelete_side :: "side \<Rightarrow> red_black_tree \<Rightarrow> ptr \<Rightarrow> (ptr \<times> red_black_tree) result" where
  "fixDelete_side d t node =
    rbind (fixDelete_red d t node) (\<lambda>(fixNode, t1).
    rbind (black_children t1 fixNode) (\<lambda>both.
    if both then
      rbind (rbNodeSetColor t1 fixNode RED) (\<lambda>t2.
      rbind (get parent t2 node) (\<lambda>p.
      Inr (p, t2)))
    else
      rbind (fixDelete_inner d t1 node fixNode) (\<lambda>(fixNode, t2).
      fixDelete_outer d t2 node fixNode)))"

partial_function (option) fixDelete_loop :: "red_black_tree \<Rightarrow> ptr \<Rightarrow> (ptr \<times> red_black_tree) result option" where
  "fixDelete_loop t node =
    (if node \<noteq> root t then
       (case rbNodeColor t node of Inl e \<Rightarrow> Some (Inl e) | Inr c \<Rightarrow>
        if c = BLACK then
          (case rbind (rbNodeAssertTreeInvariants t) (\<lambda>_. rbind (get parent t node) (\<lambda>p. rbind (get left_child t p) (\<lambda>l.
                fixDelete_side (if node = l then L else R) t node))) of
             Inl e \<Rightarrow> Some (Inl e)
           | Inr r \<Rightarrow> fixDelete_loop (snd r) (fst r))
        else Some (Inr (node, t)))
     else Some (Inr (node, t)))"

definition rbNodeFixDelete :: "red_black_tree \<Rightarrow> ptr \<Rightarrow> red_black_tree result" where
  "rbNodeFixDelete t node =
    rbind (resolved (fixDelete_loop t node)) (\<lambda>(n, t1).
    rbNodeSetColor t1 n BLACK)"

text \<open>The pointer to \<open>node\<close> in its parent, or the root, becomes \<open>p\<close>.\<close>

definition replace_child :: "red_black_tree \<Rightarrow> ptr \<Rightarrow> ptr \<Rightarrow> red_black_tree result" where
  "replace_child t node p =
    rbind (get parent t node) (\<lambda>up.
    rbind (get left_child t up) (\<lambda>l.
    if l = node then set_child L t up p else set_child R t up p))"

partial_function (option) leftmost_loop :: "red_black_tree \<Rightarrow> ptr \<Rightarrow> ptr result option" where
  "leftmost_loop t node =
    (case get left_child t node of Inl e \<Rightarrow> Some (Inl e) | Inr l \<Rightarrow>
     if l \<noteq> nil t then leftmost_loop t l else Some (Inr node))"

text \<open>The node goes out of the tree; returned is the place to repair.\<close>

definition unlink_leaf :: "red_black_tree \<Rightarrow> ptr \<Rightarrow> (ptr \<times> red_black_tree) result" where
  "unlink_leaf t node =
    rbind (if root t = node then Inr (t\<lparr>root := nil t\<rparr>) else replace_child t node (nil t)) (\<lambda>t1.
    rbind (get parent t1 node) (\<lambda>p.
    rbind (set_parent t1 (nil t1) p) (\<lambda>t2.
    Inr (nil t2, t2))))"

definition unlink_single :: "side \<Rightarrow> red_black_tree \<Rightarrow> ptr \<Rightarrow> (ptr \<times> red_black_tree) result" where
  "unlink_single d t node =
    rbind (get (child d) t node) (\<lambda>up.
    rbind (if root t = node then Inr (t\<lparr>root := up\<rparr>) else replace_child t node up) (\<lambda>t1.
    rbind (get parent t1 node) (\<lambda>p.
    rbind (set_parent t1 up p) (\<lambda>t2.
    Inr (up, t2)))))"

text \<open>The successor, which is out of the tree, takes the place of the node.\<close>

definition take_place :: "red_black_tree \<Rightarrow> ptr \<Rightarrow> ptr \<Rightarrow> red_black_tree result" where
  "take_place t node successor =
    rbind (get parent t node) (\<lambda>p.
    rbind (if p = nil t then Inr (t\<lparr>root := successor\<rparr>) else replace_child t node successor) (\<lambda>t1.
    rbind (get parent t1 node) (\<lambda>p.
    rbind (set_parent t1 successor p) (\<lambda>t2.
    rbind (get left_child t2 node) (\<lambda>l.
    rbind (set_child L t2 successor l) (\<lambda>t3.
    rbind (set_parent t3 l successor) (\<lambda>t4.
    rbind (get right_child t4 node) (\<lambda>r.
    rbind (set_child R t4 successor r) (\<lambda>t5.
    rbind (set_parent t5 r successor) (\<lambda>t6.
    rbind (rbNodeColor t6 node) (\<lambda>c.
    rbind (rbNodeSetColor t6 successor c) (\<lambda>t7.
    rbind (get parent t7 successor) (\<lambda>p.
    Inr (if p = nil t7 then t7\<lparr>root := successor\<rparr> else t7))))))))))))))"

definition unlink_double :: "red_black_tree \<Rightarrow> ptr \<Rightarrow> (int \<times> ptr \<times> red_black_tree) result" where
  "unlink_double t node =
    rbind (get right_child t node) (\<lambda>r.
    rbind (resolved (leftmost_loop t r)) (\<lambda>successor.
    rbind (rbNodeColor t successor) (\<lambda>deleteNodeColor.
    rbind (get right_child t successor) (\<lambda>fixupNode.
    rbind (replace_child t successor fixupNode) (\<lambda>t1.
    rbind (get parent t1 successor) (\<lambda>up.
    rbind (set_parent t1 fixupNode up) (\<lambda>t2.
    rbind (take_place t2 node successor) (\<lambda>t3.
    Inr (deleteNodeColor, fixupNode, t3)))))))))"

text \<open>The four cases; returned are the color that is lost, the place to repair and the tree.\<close>

definition unlink :: "red_black_tree \<Rightarrow> ptr \<Rightarrow> (int \<times> ptr \<times> red_black_tree) result" where
  "unlink t node =
    rbind (rbNodeColor t node) (\<lambda>color.
    rbind (get left_child t node) (\<lambda>l.
    rbind (get right_child t node) (\<lambda>r.
    if l = nil t then
      if r = nil t then rbind (unlink_leaf t node) (\<lambda>(n, t1). Inr (color, n, t1))
      else rbind (unlink_single R t node) (\<lambda>(n, t1). Inr (color, n, t1))
    else if r = nil t then rbind (unlink_single L t node) (\<lambda>(n, t1). Inr (color, n, t1))
    else unlink_double t node)))"

definition rbNodeRemove :: "red_black_tree \<Rightarrow> ptr \<Rightarrow> red_black_tree result" where
  "rbNodeRemove t node =
    rbind (rbNodeAssertTreeInvariants t) (\<lambda>_.
    rbind (unlink t node) (\<lambda>(deleteNodeColor, fixupNode, t1).
    rbind (count_nodes (- 1) t1) (\<lambda>t2.
    rbind (rbNodeAssertTreeInvariants t2) (\<lambda>_.
    rbind (if deleteNodeColor = BLACK then rbNodeFixDelete t2 fixupNode else Inr t2) (\<lambda>t3.
    rbind (rbNodeAssertTreeInvariants t3) (\<lambda>_.
    Inr t3))))))"

section \<open>The operations\<close>

text \<open>\<open>granted\<close> and \<open>nil_granted\<close>: what the allocations of the tree and of its sentinel answer; \<open>compare\<close> may be NULL.\<close>

definition parcTreeRedBlack_Create ::
  "bool \<Rightarrow> bool \<Rightarrow> (ptr \<Rightarrow> ptr \<Rightarrow> int) option \<Rightarrow> bool \<Rightarrow> (nat \<Rightarrow> ptr \<Rightarrow> ptr) option \<Rightarrow> (ptr \<Rightarrow> ptr \<Rightarrow> bool) option \<Rightarrow> bool \<Rightarrow>
   (nat \<Rightarrow> ptr \<Rightarrow> ptr) option \<Rightarrow> red_black_tree result" where
  "parcTreeRedBlack_Create granted nil_granted compare kfree kcopy vequals vfree vcopy =
    rbind (assertTrue (compare \<noteq> None)) (\<lambda>_.
    rbind (assertTrue granted) (\<lambda>_.
    let tree = \<lparr>root = None, nil = None, tree_size = 0, keyCompare = the compare, keyFree = kfree, keyCopy = kcopy,
      valueFree = vfree, valueEquals = vequals, valueCopy = vcopy, tree_nodes = Map.empty, unused = 0, freed = []\<rparr> in
    rbind (rbNodeCreate nil_granted tree BLACK) (\<lambda>(n, t).
    let t = t\<lparr>nil := n\<rparr> in
    rbind (set_child L t (nil t) (nil t)) (\<lambda>t.
    rbind (set_child R t (nil t) (nil t)) (\<lambda>t.
    rbind (set_parent t (nil t) (nil t)) (\<lambda>t.
    Inr (t\<lparr>root := nil t, tree_size := 0\<rparr>)))))))"

text \<open>What is left of the memory of the tree.\<close>

definition parcTreeRedBlack_Destroy :: "red_black_tree option \<Rightarrow> red_black_tree result" where
  "parcTreeRedBlack_Destroy treePointer =
    rbind (assertTrue (treePointer \<noteq> None)) (\<lambda>_.
    let t = the treePointer in
    rbind (rbNodeAssertTreeInvariants t) (\<lambda>_.
    rbind (if tree_size t > 0 then resolved (rbNodeFreeRecursive t (root t)) else Inr t) (\<lambda>t1.
    Inr (deallocate t1 (nil t1)))))"

text \<open>The search: the node with the key, or the last node on the way and \<open>nil\<close>.\<close>

partial_function (option) descend_loop :: "red_black_tree \<Rightarrow> ptr \<Rightarrow> ptr \<Rightarrow> ptr \<Rightarrow> (ptr \<times> ptr) result option" where
  "descend_loop t key up node =
    (if node \<noteq> nil t then
       (case rbNodeIsEqual t node key of Inl e \<Rightarrow> Some (Inl e) | Inr eq \<Rightarrow>
        if eq then Some (Inr (up, node))
        else
          (case rbind (rbNodeIsGreaterThan t node key) (\<lambda>gt.
                if gt then get left_child t node else get right_child t node) of
             Inl e \<Rightarrow> Some (Inl e)
           | Inr next \<Rightarrow> descend_loop t key node next))
     else Some (Inr (up, node)))"

definition parcTreeRedBlack_Insert :: "bool \<Rightarrow> red_black_tree \<Rightarrow> ptr \<Rightarrow> ptr \<Rightarrow> red_black_tree result" where
  "parcTreeRedBlack_Insert granted t key value =
    rbind (assertTrue (key \<noteq> None)) (\<lambda>_.
    rbind (assertTrue (value \<noteq> None)) (\<lambda>_.
    rbind (rbNodeCreate granted t RED) (\<lambda>(newNode, t1).
    rbind (assign (\<lambda>n. n\<lparr>node_key := key, node_value := value\<rparr>) t1 newNode) (\<lambda>t2.
    rbind (resolved (descend_loop t2 key (nil t2) (root t2))) (\<lambda>(up, node).
    if node \<noteq> nil t2 then rbNodeUpdate t2 node newNode
    else
      rbind (set_parent t2 newNode up) (\<lambda>t3.
      rbind (if up = nil t3 then Inr (t3\<lparr>root := newNode\<rparr>)
             else rbind (rbNodeIsGreaterThan t3 up key) (\<lambda>gt.
                  if gt then set_child L t3 up newNode else set_child R t3 up newNode)) (\<lambda>t4.
      rbind (count_nodes 1 t4) (\<lambda>t5.
      rbind (rbNodeFix t5 newNode) (\<lambda>t6.
      rbind (rbNodeAssertTreeInvariants t6) (\<lambda>_.
      Inr t6))))))))))"

definition parcTreeRedBlack_Get :: "red_black_tree \<Rightarrow> ptr \<Rightarrow> ptr result" where
  "parcTreeRedBlack_Get t key =
    rbind (rbNodeAssertTreeInvariants t) (\<lambda>_.
    rbind (resolved (descend_loop t key (nil t) (root t))) (\<lambda>(_, node).
    if node \<noteq> nil t then get node_value t node else Inr None))"

definition parcTreeRedBlack_Remove :: "red_black_tree \<Rightarrow> ptr \<Rightarrow> (ptr \<times> red_black_tree) result" where
  "parcTreeRedBlack_Remove t key =
    rbind (assertTrue (key \<noteq> None)) (\<lambda>_.
    rbind (rbNodeAssertTreeInvariants t) (\<lambda>_.
    rbind (resolved (descend_loop t key (nil t) (root t))) (\<lambda>(_, node).
    if node \<noteq> nil t then
      rbind (rbNodeRemove t node) (\<lambda>t1.
      rbind (get node_value t1 node) (\<lambda>value.
      rbind (get node_key t1 node) (\<lambda>k.
      let t2 = deallocate (free_key t1 k) node in
      rbind (rbNodeAssertTreeInvariants t2) (\<lambda>_.
      Inr (value, t2)))))
    else rbind (rbNodeAssertTreeInvariants t) (\<lambda>_. Inr (None, t)))))"

definition parcTreeRedBlack_RemoveAndDestroy :: "red_black_tree \<Rightarrow> ptr \<Rightarrow> red_black_tree result" where
  "parcTreeRedBlack_RemoveAndDestroy t key =
    rbind (assertTrue (key \<noteq> None)) (\<lambda>_.
    rbind (resolved (descend_loop t key (nil t) (root t))) (\<lambda>(_, node).
    if node \<noteq> nil t then
      rbind (rbNodeRemove t node) (\<lambda>t1.
      rbind (rbNodeFree t1 node) (\<lambda>t2.
      rbind (rbNodeAssertTreeInvariants t2) (\<lambda>_.
      Inr t2)))
    else rbind (rbNodeAssertTreeInvariants t) (\<lambda>_. Inr t)))"

partial_function (option) rightmost_loop :: "red_black_tree \<Rightarrow> ptr \<Rightarrow> ptr result option" where
  "rightmost_loop t node =
    (case get right_child t node of Inl e \<Rightarrow> Some (Inl e) | Inr r \<Rightarrow>
     if r \<noteq> nil t then rightmost_loop t r else Some (Inr node))"

definition parcTreeRedBlack_LastKey :: "red_black_tree \<Rightarrow> ptr result" where
  "parcTreeRedBlack_LastKey t =
    rbind (rbNodeAssertTreeInvariants t) (\<lambda>_.
    if tree_size t = 0 then Inr None
    else rbind (resolved (rightmost_loop t (root t))) (get node_key t))"

definition parcTreeRedBlack_FirstKey :: "red_black_tree \<Rightarrow> ptr result" where
  "parcTreeRedBlack_FirstKey t =
    rbind (rbNodeAssertTreeInvariants t) (\<lambda>_.
    if tree_size t = 0 then Inr None
    else rbind (resolved (leftmost_loop t (root t))) (get node_key t))"

definition parcTreeRedBlack_Size :: "red_black_tree \<Rightarrow> size_t result" where
  "parcTreeRedBlack_Size t =
    rbind (rbNodeAssertTreeInvariants t) (\<lambda>_. Inr (word_of_int (tree_size t)))"

text \<open>\<open>granted\<close> here also is what the list gets when it grows.\<close>

definition rbGetKeys :: "bool \<Rightarrow> red_black_tree \<Rightarrow> ptr \<Rightarrow> array_list \<Rightarrow> array_list result" where
  "rbGetKeys granted t node list = rbind (get node_key t node) (parcArrayList_Add granted list)"

definition parcTreeRedBlack_Keys :: "bool \<Rightarrow> red_black_tree \<Rightarrow> array_list result" where
  "parcTreeRedBlack_Keys granted t =
    rbind (rbNodeAssertTreeInvariants t) (\<lambda>_.
    rbind (parcArrayList_Create granted False) (\<lambda>keys.
    if tree_size t > 0 then resolved (rbNodeRecursiveRun t (root t) (rbGetKeys granted t) keys) else Inr keys))"

definition rbGetValues :: "bool \<Rightarrow> red_black_tree \<Rightarrow> ptr \<Rightarrow> array_list \<Rightarrow> array_list result" where
  "rbGetValues granted t node list = rbind (get node_value t node) (parcArrayList_Add granted list)"

definition parcTreeRedBlack_Values :: "bool \<Rightarrow> red_black_tree \<Rightarrow> array_list result" where
  "parcTreeRedBlack_Values granted t =
    rbind (rbNodeAssertTreeInvariants t) (\<lambda>_.
    rbind (parcArrayList_Create granted False) (\<lambda>values.
    if tree_size t > 0 then resolved (rbNodeRecursiveRun t (root t) (rbGetValues granted t) values) else Inr values))"

text \<open>The two loops of \<open>Equals\<close> over the entries of two lists.\<close>

function equal_lists :: "(ptr \<Rightarrow> ptr \<Rightarrow> bool) \<Rightarrow> array_list \<Rightarrow> array_list \<Rightarrow> size_t \<Rightarrow> size_t \<Rightarrow> bool result" where
  "equal_lists f xs ys len i =
    (if i < len then
       rbind (parcArrayList_Get xs i) (\<lambda>x. rbind (parcArrayList_Get ys i) (\<lambda>y.
       if f x y then equal_lists f xs ys len (i + 1) else Inr False))
     else Inr True)"
  by pat_completeness auto
termination
  by (relation "measure (\<lambda>(_, _, _, len, i). unat len - unat i)") (auto simp: index_measure)

declare equal_lists.simps [simp del]

definition parcTreeRedBlack_Equals :: "bool \<Rightarrow> red_black_tree option \<Rightarrow> red_black_tree option \<Rightarrow> bool result" where
  "parcTreeRedBlack_Equals granted tree1 tree2 =
    rbind (assertTrue (tree1 \<noteq> None)) (\<lambda>_.
    let t1 = the tree1 in
    rbind (rbNodeAssertTreeInvariants t1) (\<lambda>_.
    rbind (assertTrue (tree2 \<noteq> None)) (\<lambda>_.
    let t2 = the tree2 in
    rbind (rbNodeAssertTreeInvariants t2) (\<lambda>_.
    rbind (parcTreeRedBlack_Keys granted t1) (\<lambda>keys1.
    rbind (parcTreeRedBlack_Keys granted t2) (\<lambda>keys2.
    if parcArrayList_Size keys1 = parcArrayList_Size keys2 then
      rbind (equal_lists (\<lambda>x y. keyCompare t1 x y = 0) keys1 keys2 (parcArrayList_Size keys1) 0) (\<lambda>ret.
      if ret then
        rbind (parcTreeRedBlack_Values granted t1) (\<lambda>values1.
        rbind (parcTreeRedBlack_Values granted t2) (\<lambda>values2.
        if parcArrayList_Size values1 = parcArrayList_Size values2 then
          equal_lists (\<lambda>x y. case valueEquals t1 of Some f \<Rightarrow> f x y | None \<Rightarrow> x = y) values1 values2 (parcArrayList_Size values1) 0
        else Inr True))
      else Inr False)
    else Inr False))))))"

function copy_entries :: "bool \<Rightarrow> red_black_tree \<Rightarrow> array_list \<Rightarrow> array_list \<Rightarrow> size_t \<Rightarrow> size_t \<Rightarrow> red_black_tree \<Rightarrow> red_black_tree result" where
  "copy_entries granted source keys vals totalKeys i copy =
    (if i < totalKeys then
       rbind (parcArrayList_Get keys i) (\<lambda>k.
       rbind (parcArrayList_Get vals i) (\<lambda>v.
       rbind (parcTreeRedBlack_Insert granted copy
         (case keyCopy source of Some f \<Rightarrow> f (unat i) k | None \<Rightarrow> k)
         (case valueCopy source of Some f \<Rightarrow> f (unat i) v | None \<Rightarrow> v)) (\<lambda>copy1.
       copy_entries granted source keys vals totalKeys (i + 1) copy1)))
     else Inr copy)"
  by pat_completeness auto
termination
  by (relation "measure (\<lambda>(_, _, _, _, n, i, _). unat n - unat i)") (auto simp: index_measure)

declare copy_entries.simps [simp del]

definition parcTreeRedBlack_Copy :: "bool \<Rightarrow> red_black_tree option \<Rightarrow> red_black_tree result" where
  "parcTreeRedBlack_Copy granted source_tree =
    rbind (assertTrue (source_tree \<noteq> None)) (\<lambda>_.
    let s = the source_tree in
    rbind (rbNodeAssertTreeInvariants s) (\<lambda>_.
    rbind (parcTreeRedBlack_Create granted granted (Some (keyCompare s)) (keyFree s) (keyCopy s) (valueEquals s) (valueFree s)
      (valueCopy s)) (\<lambda>tree_copy.
    rbind (parcTreeRedBlack_Keys granted s) (\<lambda>keys.
    rbind (parcTreeRedBlack_Values granted s) (\<lambda>vals.
    copy_entries granted s keys vals (parcArrayList_Size keys) 0 tree_copy)))))"

end
