(* ===== verification/Parc_TreeShape.thy ===== *)
theory Parc_TreeShape
  imports Parc_TreeRedBlack
begin

text \<open>
  Which tree the nodes of \<^verbatim>\<open>parc_TreeRedBlack.c\<close> hold, and what an assignment, a color change and a rotation do to
  it at any place: the rules with which the loops of the tree are verified without looking at pointers again.
\<close>

section \<open>Trees in the memory\<close>

primrec hue_code :: "hue \<Rightarrow> int" where
  "hue_code Red = RED"
| "hue_code Black = BLACK"

primrec rootp :: "ptr \<Rightarrow> rb_tree \<Rightarrow> ptr" where
  "rootp z Tip = z"
| "rootp z (Bin l a c e r) = Some a"

text \<open>A node with \<open>x\<close> as its child on the side \<open>d\<close> and \<open>y\<close> as the other one.\<close>

definition mk :: "side \<Rightarrow> ptr \<Rightarrow> ptr \<Rightarrow> ptr \<Rightarrow> hue \<Rightarrow> entry \<Rightarrow> rb_node" where
  "mk d x y p c e = (case d of
     L \<Rightarrow> \<lparr>left_child = x, right_child = y, parent = p, node_key = fst e, node_value = snd e, node_color = hue_code c\<rparr>
   | R \<Rightarrow> \<lparr>left_child = y, right_child = x, parent = p, node_key = fst e, node_value = snd e, node_color = hue_code c\<rparr>)"

primrec holds :: "(addr \<Rightarrow> rb_node option) \<Rightarrow> ptr \<Rightarrow> ptr \<Rightarrow> rb_tree \<Rightarrow> bool" where
  "holds m z p Tip = True"
| "holds m z p (Bin l a c e r) \<longleftrightarrow>
    m a = Some (mk L (rootp z l) (rootp z r) p c e) \<and> holds m z (Some a) l \<and> holds m z (Some a) r"

definition upper :: "ptr \<Rightarrow> frame list \<Rightarrow> ptr" where
  "upper z cs = (case cs of [] \<Rightarrow> z | Frame d a c e t # _ \<Rightarrow> Some a)"

text \<open>The frames around a place to which the pointer is \<open>h\<close>.\<close>

primrec frames_hold :: "(addr \<Rightarrow> rb_node option) \<Rightarrow> ptr \<Rightarrow> ptr \<Rightarrow> frame list \<Rightarrow> bool" where
  "frames_hold m z h [] = True"
| "frames_hold m z h (f # cs) = (case f of Frame d a c e t \<Rightarrow>
    m a = Some (mk d h (rootp z t) (upper z cs) c e) \<and> holds m z (Some a) t \<and> frames_hold m z (Some a) cs)"

primrec root_of :: "ptr \<Rightarrow> frame list \<Rightarrow> ptr" where
  "root_of h [] = h"
| "root_of h (f # cs) = (case f of Frame d a c e t \<Rightarrow> root_of (Some a) cs)"

lemma mk_simps [simp]:
  "child d (mk d x y p c e) = x" "child (other d) (mk d x y p c e) = y" "parent (mk d x y p c e) = p"
  "node_key (mk d x y p c e) = fst e" "node_value (mk d x y p c e) = snd e" "node_color (mk d x y p c e) = hue_code c"
  "child_update d x1 (mk d x y p c e) = mk d x1 y p c e" "child_update (other d) y1 (mk d x y p c e) = mk d x y1 p c e"
  "(mk d x y p c e)\<lparr>parent := p1\<rparr> = mk d x y p1 c e" "(mk d x y p c e)\<lparr>node_color := hue_code c1\<rparr> = mk d x y p c1 e"
  by (cases d; simp add: mk_def)+

lemma mk_other: "mk (other d) x y p c e = mk d y x p c e"
  by (cases d) (simp_all add: mk_def)

lemma mk_left_right:
  "left_child (mk L x y p c e) = x" "right_child (mk L x y p c e) = y"
  "left_child (mk R x y p c e) = y" "right_child (mk R x y p c e) = x"
  by (simp_all add: mk_def)

lemma mk_inject [simp]: "mk d x y p c e = mk d x1 y1 p1 c1 e1 \<longleftrightarrow> x = x1 \<and> y = y1 \<and> p = p1 \<and> hue_code c = hue_code c1 \<and> e = e1"
  by (cases d) (auto simp: mk_def prod_eq_iff)

lemma rootp_join [simp]: "rootp z (join d s a c e t) = Some a"
  by (cases d) simp_all

lemma holds_join [simp]:
  "holds m z p (join d s a c e t) \<longleftrightarrow>
    m a = Some (mk d (rootp z s) (rootp z t) p c e) \<and> holds m z (Some a) s \<and> holds m z (Some a) t"
  by (cases d) (auto simp: mk_def)

lemma upper_simps [simp]: "upper z [] = z" "upper z (Frame d a c e t # cs) = Some a"
  by (simp_all add: upper_def)

lemma holds_plug: "holds m z z (plug cs s) \<longleftrightarrow> holds m z (upper z cs) s \<and> frames_hold m z (rootp z s) cs"
proof (induction cs arbitrary: s)
  case Nil
  then show ?case by simp
next
  case (Cons f cs)
  obtain d a c e t where f: "f = Frame d a c e t" by (cases f)
  show ?case using Cons [of "join d s a c e t"] by (auto simp: f)
qed

lemma rootp_plug: "rootp z (plug cs s) = root_of (rootp z s) cs"
proof (induction cs arbitrary: s)
  case (Cons f cs)
  then show ?case by (cases f) simp
qed simp

lemma rootp_in: "Some a = rootp z s \<longrightarrow> s = Tip \<or> a \<in> set (addrs s)"
  by (cases s) auto

lemma upper_in: "upper z cs = Some a \<Longrightarrow> cs \<noteq> [] \<Longrightarrow> a \<in> set (frame_addrs cs)"
  by (cases cs) (auto simp: upper_def split: frame.splits)

text \<open>The parts of the memory a tree and the frames depend on.\<close>

lemma holds_cong: "(\<And>a. a \<in> set (addrs s) \<Longrightarrow> m1 a = m a) \<Longrightarrow> holds m1 z p s = holds m z p s"
  by (induction s arbitrary: p) auto

lemma holds_agree: "holds m z p s \<Longrightarrow> \<forall>a \<in> set (addrs s). m1 a = m a \<Longrightarrow> holds m1 z p s"
  using holds_cong [of s m1 m z p] by blast

lemma frames_hold_cong: "(\<And>a. a \<in> set (frame_addrs cs) \<Longrightarrow> m1 a = m a) \<Longrightarrow> frames_hold m1 z h cs = frames_hold m z h cs"
proof (induction cs arbitrary: h)
  case (Cons f cs)
  obtain d a c e t where f: "f = Frame d a c e t" by (cases f)
  have "holds m1 z (Some a) t = holds m z (Some a) t" using Cons.prems by (intro holds_cong) (simp add: f)
  then show ?case using Cons by (simp add: f)
qed simp

text \<open>Changing the node behind a pointer.\<close>

definition modify :: "(rb_node \<Rightarrow> rb_node) \<Rightarrow> ptr \<Rightarrow> (addr \<Rightarrow> rb_node option) \<Rightarrow> addr \<Rightarrow> rb_node option" where
  "modify f p m x = (if Some x = p then map_option f (m x) else m x)"

lemma assign_modify: "tree_nodes t a \<noteq> None \<Longrightarrow> assign f t (Some a) = Inr (t\<lparr>tree_nodes := modify f (Some a) (tree_nodes t)\<rparr>)"
  by (auto simp: assign_def rb_at_def modify_def fun_eq_iff)

lemma dom_modify [simp]: "dom (modify f p m) = dom m"
  by (auto simp: modify_def split: if_splits)

lemma modify_None [simp]: "modify f p m a = None \<longleftrightarrow> m a = None"
  by (simp add: modify_def)

lemma holds_modify_other: "p \<notin> Some ` set (addrs s) \<Longrightarrow> holds (modify f p m) z q s = holds m z q s"
  by (rule holds_cong) (auto simp: modify_def)

lemma frames_modify_other: "p \<notin> Some ` set (frame_addrs cs) \<Longrightarrow> frames_hold (modify f p m) z q cs = frames_hold m z q cs"
  by (rule frames_hold_cong) (auto simp: modify_def)

lemma holds_reparent:
  assumes "holds m z p s" "distinct (addrs s)" "s \<noteq> Tip"
  shows "holds (modify (parent_update (\<lambda>_. q)) (rootp z s) m) z q s"
  using assms by (cases s) (auto simp: modify_def holds_modify_other image_iff)

lemma holds_reparent_cong:
  assumes "holds m z p s" "distinct (addrs s)" and r: "\<And>x. x \<in> set (addrs s) \<Longrightarrow> m1 x = modify (parent_update (\<lambda>_. q)) (rootp z s) m x"
  shows "holds m1 z q s"
proof (cases "s = Tip")
  case False
  then show ?thesis using holds_reparent [OF assms(1,2) False, of q] holds_cong [of s m1] r by blast
qed simp

lemma frames_redirect_cong:
  assumes "frames_hold m z h (Frame d a c e t # cs)" "distinct (frame_addrs (Frame d a c e t # cs))"
    and r: "\<And>x. x \<in> set (frame_addrs (Frame d a c e t # cs)) \<Longrightarrow> m1 x = modify (child_update d h1) (Some a) m x"
  shows "frames_hold m1 z h1 (Frame d a c e t # cs)"
proof -
  have "holds m1 z (Some a) t = holds m z (Some a) t" "frames_hold m1 z (Some a) cs = frames_hold m z (Some a) cs"
    using assms(2) r by (auto intro!: holds_cong frames_hold_cong simp: modify_def)
  then show ?thesis using assms(1) r [of a] by (simp add: modify_def)
qed

definition tree_at :: "red_black_tree \<Rightarrow> rb_tree \<Rightarrow> bool" where
  "tree_at t s \<longleftrightarrow> (\<exists>n q. nil t = Some n \<and> n \<notin> set (addrs s) \<and> tree_nodes t n = Some q \<and> node_color q = BLACK) \<and>
    distinct (addrs s) \<and> holds (tree_nodes t) (nil t) (nil t) s \<and> root t = rootp (nil t) s"

text \<open>Only nodes of the tree change, and the pointer to its root.\<close>

definition reshapes :: "addr set \<Rightarrow> red_black_tree \<Rightarrow> red_black_tree \<Rightarrow> bool" where
  "reshapes A t t1 \<longleftrightarrow> t1 = t\<lparr>root := root t1, tree_nodes := tree_nodes t1\<rparr> \<and> dom (tree_nodes t1) = dom (tree_nodes t) \<and>
    (\<forall>a. a \<notin> A \<longrightarrow> tree_nodes t1 a = tree_nodes t a)"

lemma reshapes_refl [simp]: "reshapes A t t"
  by (simp add: reshapes_def)

lemma reshapes_trans: "reshapes A t t1 \<Longrightarrow> reshapes A t1 t2 \<Longrightarrow> reshapes A t t2"
  unfolding reshapes_def
  by (metis (no_types, lifting) red_black_tree.surjective red_black_tree.update_convs(1,10))

lemma reshapesD:
  assumes "reshapes A t t1"
  shows "nil t1 = nil t" "tree_size t1 = tree_size t" "keyCompare t1 = keyCompare t" "keyFree t1 = keyFree t"
    "keyCopy t1 = keyCopy t" "valueFree t1 = valueFree t" "valueEquals t1 = valueEquals t" "valueCopy t1 = valueCopy t"
    "unused t1 = unused t" "freed t1 = freed t" "dom (tree_nodes t1) = dom (tree_nodes t)"
    "a \<notin> A \<Longrightarrow> tree_nodes t1 a = tree_nodes t a"
proof -
  obtain r m where "t1 = t\<lparr>root := r, tree_nodes := m\<rparr>" using assms by (auto simp: reshapes_def)
  then show "nil t1 = nil t" "tree_size t1 = tree_size t" "keyCompare t1 = keyCompare t" "keyFree t1 = keyFree t"
    "keyCopy t1 = keyCopy t" "valueFree t1 = valueFree t" "valueEquals t1 = valueEquals t" "valueCopy t1 = valueCopy t"
    "unused t1 = unused t" "freed t1 = freed t"
    by simp_all
  show "dom (tree_nodes t1) = dom (tree_nodes t)" "a \<notin> A \<Longrightarrow> tree_nodes t1 a = tree_nodes t a"
    using assms by (auto simp: reshapes_def)
qed

lemma tree_at_frame:
  assumes "tree_at t s" "root t1 = root t" "nil t1 = nil t" "\<And>a. a \<in> set (addrs s) \<Longrightarrow> tree_nodes t1 a = tree_nodes t a"
    and "\<And>n. nil t = Some n \<Longrightarrow> tree_nodes t1 n = tree_nodes t n"
  shows "tree_at t1 s"
  using assms holds_cong [of s "tree_nodes t1" "tree_nodes t" "nil t" "nil t"] by (auto simp: tree_at_def)

section \<open>Reading\<close>

lemma tree_at_tree_size [simp]: "tree_at (t\<lparr>tree_size := i\<rparr>) s = tree_at t s"
  by (simp add: tree_at_def)

lemma get_tree_size [simp]: "get f (t\<lparr>tree_size := i\<rparr>) p = get f t p"
  by (cases p) (simp_all add: get_def rb_at_def)

lemma tree_at_plugD:
  assumes "tree_at t (plug cs s)"
  shows "holds (tree_nodes t) (nil t) (upper (nil t) cs) s" "frames_hold (tree_nodes t) (nil t) (rootp (nil t) s) cs"
    "root t = root_of (rootp (nil t) s) cs" "distinct (addrs s)" "distinct (frame_addrs cs)"
    "set (addrs s) \<inter> set (frame_addrs cs) = {}"
  using assms by (auto simp: tree_at_def holds_plug rootp_plug distinct_plug)

lemma tree_at_nil:
  assumes "tree_at t (plug cs s)"
  obtains n q where "nil t = Some n" "tree_nodes t n = Some q" "node_color q = BLACK" "n \<notin> set (addrs s)"
    "n \<notin> set (frame_addrs cs)"
  using assms by (auto simp: tree_at_def addrs_plug)

lemma rb_at_join:
  assumes "tree_at t (plug cs (join d s a c e r))"
  shows "rb_at t (Some a) = Inr (mk d (rootp (nil t) s) (rootp (nil t) r) (upper (nil t) cs) c e)"
  using tree_at_plugD(1) [OF assms] by (simp add: rb_at_def)

lemma get_join:
  assumes "tree_at t (plug cs (join d s a c e r))"
  shows "get f t (Some a) = Inr (f (mk d (rootp (nil t) s) (rootp (nil t) r) (upper (nil t) cs) c e))"
  by (simp add: get_def rb_at_join [OF assms])

lemma color_place:
  assumes "tree_at t (plug cs s)"
  shows "rbNodeColor t (rootp (nil t) s) = Inr (hue_code (hue_of s))"
proof (cases s)
  case Tip
  then show ?thesis using assms by (auto simp: tree_at_def rbNodeColor_def get_def rb_at_def)
next
  case (Bin l a c e r)
  then have "tree_at t (plug cs (join L l a c e r))" using assms by simp
  from get_join [OF this, of node_color] show ?thesis by (simp add: Bin rbNodeColor_def)
qed

lemma rootp_nil:
  assumes "tree_at t (plug cs s)"
  shows "rootp (nil t) s = nil t \<longleftrightarrow> s = Tip" "upper (nil t) cs = nil t \<longleftrightarrow> cs = []" "root t = nil t \<longleftrightarrow> plug cs s = Tip"
proof -
  obtain n q where n: "nil t = Some n" "n \<notin> set (addrs s)" "n \<notin> set (frame_addrs cs)" using tree_at_nil [OF assms] by metis
  show "rootp (nil t) s = nil t \<longleftrightarrow> s = Tip" using n by (cases s) auto
  show "upper (nil t) cs = nil t \<longleftrightarrow> cs = []" using n by (cases cs) (auto simp: upper_def split: frame.splits)
  have "n \<notin> set (addrs (plug cs s))" using n by (simp add: addrs_plug)
  then show "root t = nil t \<longleftrightarrow> plug cs s = Tip" using assms n(1) by (cases "plug cs s") (auto simp: tree_at_def)
qed

text \<open>Two places of a tree are behind different pointers.\<close>

lemma rootp_neq:
  assumes "tree_at t (plug cs (join d s a c e r))"
  shows "rootp (nil t) r \<noteq> Some a" "rootp (nil t) s \<noteq> Some a" "s \<noteq> Tip \<Longrightarrow> rootp (nil t) r \<noteq> rootp (nil t) s"
    "r \<noteq> Tip \<Longrightarrow> rootp (nil t) r \<noteq> rootp (nil t) s" "upper (nil t) cs \<noteq> Some a" "nil t \<noteq> Some a" "nil t \<noteq> None"
proof -
  obtain n q where n: "nil t = Some n" "n \<notin> set (addrs (join d s a c e r))" "n \<notin> set (frame_addrs cs)"
    using tree_at_nil [OF assms] by metis
  note ds = tree_at_plugD(4-6) [OF assms]
  show "rootp (nil t) r \<noteq> Some a" "rootp (nil t) s \<noteq> Some a" "nil t \<noteq> Some a" "nil t \<noteq> None"
    using n ds by (cases r; cases s; auto)+
  show "s \<noteq> Tip \<Longrightarrow> rootp (nil t) r \<noteq> rootp (nil t) s" "r \<noteq> Tip \<Longrightarrow> rootp (nil t) r \<noteq> rootp (nil t) s"
    using n ds by (cases r; cases s; auto)+
  show "upper (nil t) cs \<noteq> Some a" using n ds by (cases cs) (auto simp: upper_def split: frame.splits)
qed

section \<open>Colors\<close>

lemma uint_hue [simp]: "uint (word_of_int (hue_code h) :: u8) = hue_code h"
  by (cases h) simp_all

lemma SetColor_place:
  assumes t: "tree_at t (plug cs s)" and h: "s \<noteq> Tip \<or> h = Black" and A: "set (addrs s) \<subseteq> A"
  shows "\<exists>t1. rbNodeSetColor t (rootp (nil t) s) (hue_code h) = Inr t1 \<and> tree_at t1 (plug cs (paint h s)) \<and> reshapes A t t1"
proof (cases s)
  case Tip
  obtain n q where n: "nil t = Some n" "tree_nodes t n = Some q" "node_color q = BLACK" using tree_at_nil [OF t] by metis
  have "q\<lparr>node_color := 0\<rparr> = q" using n(3) by simp
  then have "(tree_nodes t)(n \<mapsto> q\<lparr>node_color := 0\<rparr>) = tree_nodes t" using n(2) by auto
  then have "rbNodeSetColor t (rootp (nil t) s) (hue_code h) = Inr t"
    using n h by (simp add: Tip rbNodeSetColor_def assign_def rb_at_def)
  then show ?thesis using t Tip by auto
next
  case (Bin l a c e r)
  let ?m = "modify (node_color_update (\<lambda>_. hue_code h)) (Some a) (tree_nodes t)"
  let ?t1 = "t\<lparr>tree_nodes := ?m\<rparr>"
  note d = tree_at_plugD [OF t]
  have "tree_nodes t a \<noteq> None" using d(1) by (simp add: Bin)
  then have e: "rbNodeSetColor t (rootp (nil t) s) (hue_code h) = Inr ?t1"
    by (simp add: Bin rbNodeSetColor_def assign_modify)
  have "holds ?m (nil t) (Some a) l = holds (tree_nodes t) (nil t) (Some a) l"
    "holds ?m (nil t) (Some a) r = holds (tree_nodes t) (nil t) (Some a) r"
    "frames_hold ?m (nil t) (Some a) cs = frames_hold (tree_nodes t) (nil t) (Some a) cs"
    using d(4,6) by (auto simp: Bin holds_modify_other frames_modify_other image_iff)
  then have "holds ?m (nil t) (nil t) (plug cs (paint h s))"
    using d(1,2) by (simp add: Bin holds_plug modify_def)
  moreover obtain n q where "nil t = Some n" "tree_nodes t n = Some q" "node_color q = BLACK" "n \<notin> set (addrs s)"
    "n \<notin> set (frame_addrs cs)"
    using tree_at_nil [OF t] by metis
  ultimately have "tree_at ?t1 (plug cs (paint h s))"
    using t by (auto simp: Bin tree_at_def addrs_plug distinct_plug rootp_plug modify_def)
  moreover have "reshapes A t ?t1" using A by (auto simp: Bin reshapes_def modify_def)
  ultimately show ?thesis using e by blast
qed

section \<open>Rotations\<close>

text \<open>The pointer from above to a node becomes \<open>p\<close>.\<close>

definition redirect :: "frame list \<Rightarrow> ptr \<Rightarrow> (addr \<Rightarrow> rb_node option) \<Rightarrow> addr \<Rightarrow> rb_node option" where
  "redirect cs p m = (case cs of [] \<Rightarrow> m | Frame d a c e t # _ \<Rightarrow> modify (child_update d p) (Some a) m)"

lemma redirect_other: "a \<notin> set (frame_addrs cs) \<Longrightarrow> redirect cs p m a = m a"
  by (cases cs) (auto simp: redirect_def modify_def split: frame.splits)

lemma dom_redirect [simp]: "dom (redirect cs p m) = dom m"
  by (cases cs) (auto simp: redirect_def split: frame.splits)

lemma redirect_None [simp]: "redirect cs p m a = None \<longleftrightarrow> m a = None"
  by (cases cs) (auto simp: redirect_def split: frame.splits)

lemma frames_redirect:
  assumes "frames_hold m z h cs" "distinct (frame_addrs cs)" "\<And>x. x \<in> set (frame_addrs cs) \<Longrightarrow> m1 x = redirect cs h1 m x"
  shows "frames_hold m1 z h1 cs"
proof (cases cs)
  case (Cons f cs1)
  obtain d a c e t where f: "f = Frame d a c e t" by (cases f)
  show ?thesis
    using frames_redirect_cong [of m z h d a c e t cs1 m1 h1] assms by (simp add: Cons f redirect_def)
qed simp

lemma redirect_same:
  assumes "frames_hold m z h cs"
  shows "redirect cs h m = m"
proof (cases cs)
  case (Cons f fs)
  obtain d a c e r where f: "f = Frame d a c e r" by (cases f)
  show ?thesis using assms by (auto simp: Cons f redirect_def modify_def fun_eq_iff)
qed (simp add: redirect_def)

text \<open>A tree with another subtree at a place, in a memory that agrees with the old one around it.\<close>

lemma tree_at_replace:
  assumes t: "tree_at t (plug cs s)" and z: "nil t1 = nil t" and n: "\<And>n. nil t = Some n \<Longrightarrow> n \<notin> set (addrs s1) \<and> (\<exists>q. tree_nodes t1 n = Some q \<and> node_color q = BLACK)"
    and d: "distinct (addrs s1)" "set (addrs s1) \<inter> set (frame_addrs cs) = {}"
    and h: "holds (tree_nodes t1) (nil t) (upper (nil t) cs) s1"
    and f: "\<And>x. x \<in> set (frame_addrs cs) \<Longrightarrow> tree_nodes t1 x = redirect cs (rootp (nil t) s1) (tree_nodes t) x"
    and r: "root t1 = root_of (rootp (nil t) s1) cs"
  shows "tree_at t1 (plug cs s1)"
proof -
  note o = tree_at_plugD [OF t]
  have "frames_hold (tree_nodes t1) (nil t) (rootp (nil t) s1) cs" using frames_redirect [OF o(2,5) f] .
  then have "holds (tree_nodes t1) (nil t) (nil t) (plug cs s1)" using h by (simp add: holds_plug)
  moreover obtain k where k: "nil t = Some k" "k \<notin> set (frame_addrs cs)" using tree_at_nil [OF t] by metis
  moreover have "distinct (addrs (plug cs s1))" using d o(5) by (simp add: distinct_plug)
  ultimately show ?thesis
    using n [OF k(1)] z r by (auto simp: tree_at_def addrs_plug rootp_plug)
qed

lemma root_of_Cons [simp]: "root_of h (f # cs) = root_of h1 (f # cs) \<longleftrightarrow> True"
  by (cases f) simp

lemma root_here:
  assumes "tree_at t (plug cs s)" "s \<noteq> Tip"
  shows "root t = rootp (nil t) s \<longleftrightarrow> cs = []"
proof (cases cs rule: rev_cases)
  case (snoc fs f)
  obtain d a c e r where f: "f = Frame d a c e r" by (cases f)
  have "root_of h (fs @ [f]) = Some a" for h by (induction fs arbitrary: h) (auto simp: f split: frame.splits)
  moreover have "a \<in> set (frame_addrs cs)" by (simp add: snoc f)
  ultimately show ?thesis
    using tree_at_plugD(3,6) [OF assms(1)] assms(2) rootp_in [of a "nil t" s] by (auto simp: snoc disjoint_iff)
qed (use tree_at_plugD(3) [OF assms(1)] in simp)

text \<open>Which of its parent's children a node is.\<close>

lemma left_test:
  assumes "tree_at t (plug (Frame d a c e r # cs) s)" "s \<noteq> Tip \<or> r \<noteq> Tip"
  shows "get left_child t (Some a) = Inr (if d = L then rootp (nil t) s else rootp (nil t) r)"
    "rootp (nil t) r \<noteq> rootp (nil t) s"
proof -
  have j: "tree_at t (plug cs (join d s a c e r))" using assms(1) by simp
  show "get left_child t (Some a) = Inr (if d = L then rootp (nil t) s else rootp (nil t) r)"
    using get_join [OF j, of left_child] by (cases d) (simp_all add: mk_left_right)
  show "rootp (nil t) r \<noteq> rootp (nil t) s" using rootp_neq(3,4) [OF j] assms(2) by blast
qed

lemma relink:
  assumes f: "frames_hold (tree_nodes t) z (Some a) cs" and a: "a \<notin> set (frame_addrs cs)" "z \<noteq> Some a" and c: "cs \<noteq> []"
  shows "rbind (get left_child t (upper z cs)) (\<lambda>l. if l = Some a then set_child L t (upper z cs) p else set_child R t (upper z cs) p) =
    Inr (t\<lparr>tree_nodes := redirect cs p (tree_nodes t)\<rparr>)"
proof -
  obtain d b h e r fs where cs: "cs = Frame d b h e r # fs" using c by (metis frame.exhaust neq_Nil_conv)
  have b: "tree_nodes t b = Some (mk d (Some a) (rootp z r) (upper z fs) h e)" using f by (simp add: cs)
  have "rootp z r \<noteq> Some a" using a by (cases r) (auto simp: cs)
  then show ?thesis
    using b by (cases d) (simp_all add: cs redirect_def get_def rb_at_def mk_left_right assign_modify)
qed

lemma rotation_place:
  assumes t: "tree_at t (plug cs (join d s a c e (join d i b c1 e1 u)))"
    and A: "set (addrs (join d s a c e (join d i b c1 e1 u))) \<union> set (frame_addrs cs) \<subseteq> A"
  shows "\<exists>t1. rotation d t (Some a) = Inr t1 \<and> tree_at t1 (plug cs (join d (join d s a c e i) b c1 e1 u)) \<and> reshapes A t t1"
proof -
  define z where "z = nil t"
  define m1 where "m1 = modify (child_update (other d) (rootp z i)) (Some a) (tree_nodes t)"
  define m2 where "m2 = (if i \<noteq> Tip then modify (parent_update (\<lambda>_. Some a)) (rootp z i) m1 else m1)"
  define m3 where "m3 = modify (parent_update (\<lambda>_. upper z cs)) (Some b) m2"
  define m4 where "m4 = redirect cs (Some b) m3"
  define m6 where "m6 = modify (parent_update (\<lambda>_. Some b)) (Some a) (modify (child_update d (Some a)) (Some b) m4)"
  note o = tree_at_plugD [OF t]
  obtain n q where n: "z = Some n" "tree_nodes t n = Some q" "node_color q = BLACK" "n \<notin> set (addrs (join d s a c e (join d i b c1 e1 u)))"
    "n \<notin> set (frame_addrs cs)"
    using tree_at_nil [OF t] z_def by metis
  have d: "a \<noteq> b" "a \<notin> set (addrs i)" "b \<notin> set (addrs i)" "a \<notin> set (frame_addrs cs)" "b \<notin> set (frame_addrs cs)" "n \<noteq> a" "n \<noteq> b"
    "n \<notin> set (addrs i)"
    using o(4,6) n(4) by auto
  have ab: "tree_nodes t a = Some (mk d (rootp z s) (Some b) (upper z cs) c e)"
    "tree_nodes t b = Some (mk d (rootp z i) (rootp z u) (Some a) c1 e1)"
    using o(1) by (auto simp: z_def)
  have i: "rootp z i \<noteq> Some a" "rootp z i \<noteq> Some b" "rootp z i = z \<longleftrightarrow> i = Tip" using n(1) d by (cases i; auto)+
  have m2x: "m2 x = (if x = a then Some (mk d (rootp z s) (rootp z i) (upper z cs) c e) else if Some x = rootp z i \<and> i \<noteq> Tip
      then map_option (parent_update (\<lambda>_. Some a)) (tree_nodes t x) else tree_nodes t x)" for x
    using i ab by (simp add: m2_def m1_def modify_def)
  have fr: "m3 x = tree_nodes t x" if "x \<in> set (frame_addrs cs)" for x
  proof -
    have "x \<notin> set (addrs i)" using that o(6) by auto
    then have "x \<noteq> a" "x \<noteq> b" "Some x = rootp z i \<longrightarrow> i = Tip" using that d rootp_in [of x z i] by auto
    then show ?thesis by (auto simp: m3_def m2x modify_def)
  qed
  have m6x: "m6 x = (if x = a then Some (mk d (rootp z s) (rootp z i) (Some b) c e)
      else if x = b then Some (mk d (Some a) (rootp z u) (upper z cs) c1 e1)
      else if Some x = rootp z i \<and> i \<noteq> Tip then map_option (parent_update (\<lambda>_. Some a)) (tree_nodes t x) else tree_nodes t x)"
    if "x \<notin> set (frame_addrs cs)" for x
    using that d ab i by (simp add: m6_def m4_def redirect_other modify_def m3_def m2x)
  let ?t1 = "t\<lparr>root := root_of (Some b) cs, tree_nodes := m6\<rparr>"
  have step: "rbNodeRotate d t (Some a) = Inr ?t1"
  proof -
    have j: "tree_at t (plug (Frame (other d) a c e s # cs) (join d i b c1 e1 u))" using t by (simp add: join_other)
    have "get (child (other d)) t (Some a) = Inr (Some b)" "get (child d) t (Some b) = Inr (rootp z i)"
      by (simp_all add: get_join [OF t] get_join [OF j] z_def)
    moreover have "set_child (other d) t (Some a) (rootp z i) = Inr (t\<lparr>tree_nodes := m1\<rparr>)"
      using ab by (simp add: assign_modify m1_def)
    moreover have "(if rootp z i \<noteq> z then set_parent (t\<lparr>tree_nodes := m1\<rparr>) (rootp z i) (Some a) else Inr (t\<lparr>tree_nodes := m1\<rparr>)) =
        Inr (t\<lparr>tree_nodes := m2\<rparr>)"
      using o(1) i d(2) by (cases i) (auto simp: m2_def m1_def assign_modify modify_def z_def)
    moreover have "get parent (t\<lparr>tree_nodes := m2\<rparr>) (Some a) = Inr (upper z cs)"
      by (simp add: get_def rb_at_def m2x)
    moreover have "set_parent (t\<lparr>tree_nodes := m2\<rparr>) (Some b) (upper z cs) = Inr (t\<lparr>tree_nodes := m3\<rparr>)"
      using ab d(1) by (simp add: m2x m3_def assign_modify)
    moreover have "(if root (t\<lparr>tree_nodes := m3\<rparr>) = Some a then Inr (t\<lparr>tree_nodes := m3, root := Some b\<rparr>)
        else rbind (get parent (t\<lparr>tree_nodes := m3\<rparr>) (Some b)) (\<lambda>p. rbind (get left_child (t\<lparr>tree_nodes := m3\<rparr>) p) (\<lambda>l.
          if l = Some a then set_child L (t\<lparr>tree_nodes := m3\<rparr>) p (Some b) else set_child R (t\<lparr>tree_nodes := m3\<rparr>) p (Some b)))) =
        Inr (t\<lparr>root := root_of (Some b) cs, tree_nodes := m4\<rparr>)"
    proof (cases "cs = []")
      case True
      then show ?thesis using o(3) by (simp add: m4_def redirect_def)
    next
      case False
      have "frames_hold m3 z (Some a) cs" using o(2) frames_hold_cong [of cs m3] fr by (simp add: z_def)
      then have rel: "rbind (get left_child (t\<lparr>tree_nodes := m3\<rparr>) (upper z cs)) (\<lambda>l. if l = Some a
          then set_child L (t\<lparr>tree_nodes := m3\<rparr>) (upper z cs) (Some b) else set_child R (t\<lparr>tree_nodes := m3\<rparr>) (upper z cs) (Some b)) =
          Inr (t\<lparr>tree_nodes := m4\<rparr>)"
        using relink [of "t\<lparr>tree_nodes := m3\<rparr>" z a cs "Some b"] False d(4,6) n(1) by (simp add: m4_def del: rbind_eq_Inr child_update.simps)
      have "get parent (t\<lparr>tree_nodes := m3\<rparr>) (Some b) = Inr (upper z cs)"
        using ab d by (simp add: get_def rb_at_def m3_def modify_def m2x i)
      moreover have "root t \<noteq> Some a" using root_here [OF t] False by simp
      moreover have "root_of (Some b) cs = root t" using o(3) False root_of_Cons by (cases cs) (auto split: frame.split)
      ultimately show ?thesis using rel by (simp del: rbind_eq_Inr child_update.simps)
    qed
    moreover have "set_child d (t\<lparr>root := root_of (Some b) cs, tree_nodes := m4\<rparr>) (Some b) (Some a) =
        Inr (t\<lparr>root := root_of (Some b) cs, tree_nodes := modify (child_update d (Some a)) (Some b) m4\<rparr>)"
      using ab d by (simp add: assign_modify m4_def m3_def m2x)
    moreover have "set_parent (t\<lparr>root := root_of (Some b) cs, tree_nodes := modify (child_update d (Some a)) (Some b) m4\<rparr>) (Some a) (Some b) =
        Inr ?t1"
      using ab d by (simp add: assign_modify m6_def m4_def m3_def m2x)
    ultimately show ?thesis by (simp add: rbNodeRotate_def z_def [symmetric])
  qed
  have sub: "holds m6 z (Some a) s" "holds m6 z (Some b) u" "holds m6 z (Some a) i"
  proof -
    have x: "x \<notin> set (frame_addrs cs) \<and> x \<noteq> a \<and> x \<noteq> b \<and> (Some x = rootp z i \<longrightarrow> i = Tip)" if "x \<in> set (addrs s) \<or> x \<in> set (addrs u)" for x
      using that o(4,6) rootp_in [of x z i] by auto
    have "holds (tree_nodes t) z (Some a) s" "holds (tree_nodes t) z (Some b) u" "holds (tree_nodes t) z (Some b) i"
      using o(1) by (simp_all add: z_def)
    moreover have "m6 x = tree_nodes t x" if "x \<in> set (addrs s) \<or> x \<in> set (addrs u)" for x
      using m6x [of x] x [OF that] by auto
    moreover have "m6 x = modify (parent_update (\<lambda>_. Some a)) (rootp z i) (tree_nodes t) x" if "x \<in> set (addrs i)" for x
    proof -
      have "x \<notin> set (frame_addrs cs)" "x \<noteq> a" "x \<noteq> b" "i \<noteq> Tip" using that o(4,6) by auto
      then show ?thesis by (simp add: m6x modify_def)
    qed
    moreover have "distinct (addrs i)" using o(4) by simp
    ultimately show "holds m6 z (Some a) s" "holds m6 z (Some b) u" "holds m6 z (Some a) i"
      using holds_cong [of s m6] holds_cong [of u m6] holds_reparent_cong [of _ z "Some b" i m6 "Some a"] by blast+
  qed
  have "tree_at ?t1 (plug cs (join d (join d s a c e i) b c1 e1 u))"
  proof (rule tree_at_replace [OF t])
    show "holds (tree_nodes ?t1) (nil t) (upper (nil t) cs) (join d (join d s a c e i) b c1 e1 u)"
      using sub d m6x [of a] m6x [of b] by (simp add: z_def)
    show "tree_nodes ?t1 x = redirect cs (rootp (nil t) (join d (join d s a c e i) b c1 e1 u)) (tree_nodes t) x"
      if "x \<in> set (frame_addrs cs)" for x
      using that d fr [OF that] by (cases cs) (auto simp: m6_def m4_def modify_def redirect_def split: frame.splits)
    show "k \<notin> set (addrs (join d (join d s a c e i) b c1 e1 u)) \<and> (\<exists>q. tree_nodes ?t1 k = Some q \<and> node_color q = BLACK)"
      if "nil t = Some k" for k
      using that n m6x [of n] d i(3) by (auto simp: z_def [symmetric])
  qed (use o(4,6) in auto)
  moreover have "reshapes A t ?t1"
  proof -
    have "dom m6 = dom (tree_nodes t)" by (simp add: m6_def m4_def m3_def m2_def m1_def)
    moreover have "m6 x = tree_nodes t x" if "x \<notin> A" for x
    proof -
      have "x \<notin> set (frame_addrs cs)" "x \<noteq> a" "x \<noteq> b" "x \<notin> set (addrs i)" using that A by auto
      then show ?thesis using rootp_in [of x z i] by (auto simp: m6x)
    qed
    ultimately show ?thesis by (simp add: reshapes_def)
  qed
  moreover have "rotation d = rbNodeRotate d" by (cases d) (simp_all add: rbNodeRotateLeft_def rbNodeRotateRight_def)
  ultimately show ?thesis using step by auto
qed

end
