(* ===== verification/Parc_TreeSearch.thy ===== *)
theory Parc_TreeSearch
  imports Parc_TreeShape Parc_Iterator
begin

text \<open>
  The operations of \<^verbatim>\<open>parc_TreeRedBlack.c\<close> that only read: the assertions, which hold of every tree with ordered keys, the
  search for a key, the first and the last key and the lists of keys and values.
\<close>

section \<open>Ordered entries\<close>

definition ordered_entries :: "(ptr \<Rightarrow> ptr \<Rightarrow> int) \<Rightarrow> entry list \<Rightarrow> bool" where
  "ordered_entries c xs \<longleftrightarrow> sorted_wrt (\<lambda>x y. c (fst x) (fst y) < 0) xs \<and> (\<forall>e \<in> set xs. fst e \<noteq> None \<and> snd e \<noteq> None)"

lemma ordered_entries_append:
  "ordered_entries c (xs @ ys) \<longleftrightarrow> ordered_entries c xs \<and> ordered_entries c ys \<and>
    (\<forall>x \<in> set xs. \<forall>y \<in> set ys. c (fst x) (fst y) < 0)"
  by (auto simp: ordered_entries_def sorted_wrt_append)

lemma ordered_entries_Cons:
  "ordered_entries c (x # xs) \<longleftrightarrow> fst x \<noteq> None \<and> snd x \<noteq> None \<and> (\<forall>y \<in> set xs. c (fst x) (fst y) < 0) \<and> ordered_entries c xs"
  by (auto simp: ordered_entries_def)

lemma ordered_entries_Nil [simp]: "ordered_entries c []"
  by (simp add: ordered_entries_def)

text \<open>A tree with its entries in order and its size; \<open>c\<close> is its comparison.\<close>

definition search_tree :: "red_black_tree \<Rightarrow> rb_tree \<Rightarrow> bool" where
  "search_tree t s \<longleftrightarrow> tree_at t s \<and> comparison (keyCompare t) \<and> ordered_entries (keyCompare t) (inorder s) \<and>
    tree_size t = int (length (inorder s))"

lemma place_of_addr:
  assumes "a \<in> set (addrs s)"
  obtains cs l c e r where "s = plug cs (Bin l a c e r)"
proof -
  have "\<exists>cs l c e r. s = plug cs (Bin l a c e r)"
    using assms
  proof (induction s)
    case (Bin l b c e r)
    then consider "a = b" | fs l1 c1 e1 r1 where "l = plug fs (Bin l1 a c1 e1 r1)" | fs l1 c1 e1 r1 where "r = plug fs (Bin l1 a c1 e1 r1)"
      by (metis Un_iff addrs.simps(2) set_ConsD set_append)
    then show ?case
    proof cases
      case 1
      then have "Bin l b c e r = plug [] (Bin l a c e r)" by simp
      then show ?thesis by blast
    next
      case 2
      then have "Bin l b c e r = plug (fs @ [Frame L b c e r]) (Bin l1 a c1 e1 r1)" by (simp add: plug_append)
      then show ?thesis by blast
    next
      case 3
      then have "Bin l b c e r = plug (fs @ [Frame R b c e l]) (Bin l1 a c1 e1 r1)" by (simp add: plug_append)
      then show ?thesis by blast
    qed
  qed simp
  then show ?thesis using that by blast
qed

section \<open>Traversal\<close>

lemma fold_result_append: "fold_result f (xs @ ys) r = rbind (fold_result f xs r) (fold_result f ys)"
  by (induction xs arbitrary: r) (simp_all add: rbind_def split: sum.split)

lemma run_place:
  assumes "tree_at t (plug cs s)" "s \<noteq> Tip"
  shows "rbNodeRecursiveRun t (rootp (nil t) s) f x = Some (fold_result (\<lambda>a. f (Some a)) (addrs s) x)"
  using assms
proof (induction s arbitrary: cs x)
  case (Bin l a c e r)
  have tj: "tree_at t (plug cs (join L l a c e r))" using Bin.prems(1) by simp
  have tl: "tree_at t (plug (Frame L a c e r # cs) l)" "tree_at t (plug (Frame R a c e l # cs) r)" using Bin.prems(1) by simp_all
  have g: "get left_child t (Some a) = Inr (rootp (nil t) l)" "get right_child t (Some a) = Inr (rootp (nil t) r)"
    by (simp_all add: get_join [OF tj] mk_left_right)
  have n: "rootp (nil t) l = nil t \<longleftrightarrow> l = Tip" "rootp (nil t) r = nil t \<longleftrightarrow> r = Tip"
    using rootp_nil(1) [OF tl(1)] rootp_nil(1) [OF tl(2)] .
  have L: "(if rootp (nil t) l \<noteq> nil t then rbNodeRecursiveRun t (rootp (nil t) l) f x else Some (Inr x)) =
      Some (fold_result (\<lambda>a. f (Some a)) (addrs l) x)" for x
    using Bin.IH(1) [OF tl(1)] n(1) by (cases "l = Tip") auto
  have R: "(if rootp (nil t) r \<noteq> nil t then rbNodeRecursiveRun t (rootp (nil t) r) f y else Some (Inr y)) =
      Some (fold_result (\<lambda>a. f (Some a)) (addrs r) y)" for y
    using Bin.IH(2) [OF tl(2)] n(2) by (cases "r = Tip") auto
  show ?case
    by (subst rbNodeRecursiveRun.simps)
      (simp add: g L R fold_result_append del: rbind_eq_Inr split: sum.split add: rbind_def)
qed simp

lemma fold_result_unit: "(\<And>a. a \<in> set xs \<Longrightarrow> f a () = Inr ()) \<Longrightarrow> fold_result f xs () = Inr ()"
  by (induction xs) auto

section \<open>The assertions\<close>

lemma key_of_root:
  assumes "tree_at t (plug cs s)" "s \<noteq> Tip"
  obtains e where "get node_key t (rootp (nil t) s) = Inr (fst e)" "e \<in> set (inorder s)"
  using assms(2)
proof (cases s)
  case (Bin l a c e r)
  then have "tree_at t (plug cs (join L l a c e r))" using assms(1) by simp
  from get_join [OF this, of node_key] show ?thesis using that [of e] by (simp add: Bin)
qed simp

lemma node_assertions:
  assumes s: "search_tree t (plug cs (Bin l a c e r))"
  shows "rbNodeAssertNodeInvariants t (Some a) = Inr ()"
proof -
  have t: "tree_at t (plug cs (Bin l a c e r))" using s by (simp add: search_tree_def)
  then have tj: "tree_at t (plug cs (join L l a c e r))" by simp
  have tl: "tree_at t (plug (Frame L a c e r # cs) l)" "tree_at t (plug (Frame R a c e l # cs) r)" using t by simp_all
  have z: "nil t \<noteq> None" using rootp_neq(7) [OF tj] .
  have up: "upper (nil t) cs \<noteq> None" "upper (nil t) cs = nil t \<longleftrightarrow> cs = []" "Some a = root t \<longleftrightarrow> cs = []"
    using z rootp_nil(2) [OF t] root_here [OF t] by (auto simp: upper_def split: list.split frame.split)
  have o: "ordered_entries (keyCompare t) (before cs @ (inorder l @ e # inorder r) @ behind cs)"
    using s by (simp add: search_tree_def inorder_plug)
  have sw: "keyCompare t x y < 0 \<longleftrightarrow> 0 < keyCompare t y x" for x y
    using s by (simp add: search_tree_def comparison.swap_sign)
  have ch: "rootp (nil t) l \<noteq> None" "rootp (nil t) r \<noteq> None" using z by (cases l; cases r; simp)+
  have "rbind (get node_key t (rootp (nil t) l)) (\<lambda>k. assertTrue (keyCompare t (fst e) k > 0)) = Inr ()" if n: "rootp (nil t) l \<noteq> nil t"
  proof -
    have "l \<noteq> Tip" using n by auto
    then obtain x where x: "get node_key t (rootp (nil t) l) = Inr (fst x)" "x \<in> set (inorder l)" using key_of_root [OF tl(1)] by blast
    then have "keyCompare t (fst x) (fst e) < 0" using o by (simp add: ordered_entries_append ordered_entries_Cons)
    then show ?thesis using x(1) sw by simp
  qed
  moreover have "rbind (get node_key t (rootp (nil t) r)) (\<lambda>k. assertTrue (keyCompare t (fst e) k < 0)) = Inr ()" if n: "rootp (nil t) r \<noteq> nil t"
  proof -
    have "r \<noteq> Tip" using n by auto
    then obtain x where x: "get node_key t (rootp (nil t) r) = Inr (fst x)" "x \<in> set (inorder r)" using key_of_root [OF tl(2)] by blast
    then have "keyCompare t (fst e) (fst x) < 0" using o by (simp add: ordered_entries_append ordered_entries_Cons)
    then show ?thesis using x(1) by simp
  qed
  moreover have "fst e \<noteq> None" "snd e \<noteq> None" using o by (auto simp: ordered_entries_append ordered_entries_Cons)
  ultimately show ?thesis
    using up ch by (simp add: rbNodeAssertNodeInvariants_def rb_at_join [OF tj] mk_left_right del: rbind_eq_Inr)
qed

lemma tree_assertions:
  assumes s: "search_tree t s"
  shows "rbNodeAssertTreeInvariants t = Inr ()"
proof (cases "s = Tip")
  case True
  then show ?thesis using s by (simp add: search_tree_def rbNodeAssertTreeInvariants_def)
next
  case False
  have t: "tree_at t (plug [] s)" using s by (simp add: search_tree_def)
  have "rbNodeAssertNodeInvariants t (Some a) = Inr ()" if "a \<in> set (addrs s)" for a
    using that node_assertions s by (metis place_of_addr)
  then have "rbNodeRecursiveRun t (rootp (nil t) s) (\<lambda>node _. rbNodeAssertNodeInvariants t node) () = Some (Inr ())"
    by (simp add: run_place [OF t False] fold_result_unit)
  then have "rbNodeRecursiveRun t (root t) (\<lambda>node _. rbNodeAssertNodeInvariants t node) () = Some (Inr ())"
    using t by (simp add: tree_at_def)
  moreover have "root t \<noteq> nil t" "root t \<noteq> None" using rootp_nil(3) [OF t] False t by (cases s; auto simp: tree_at_def)+
  ultimately show ?thesis using s by (simp add: rbNodeAssertTreeInvariants_def resolved_def search_tree_def)
qed

section \<open>The search\<close>

text \<open>The entries as a map: \<open>c\<close> compares the keys.\<close>

definition entry_of :: "(ptr \<Rightarrow> ptr \<Rightarrow> int) \<Rightarrow> ptr \<Rightarrow> entry list \<Rightarrow> entry option" where
  "entry_of c k xs = find (\<lambda>e. c (fst e) k = 0) xs"

definition put_entry :: "(ptr \<Rightarrow> ptr \<Rightarrow> int) \<Rightarrow> ptr \<Rightarrow> ptr \<Rightarrow> entry list \<Rightarrow> entry list" where
  "put_entry c k v xs = takeWhile (\<lambda>e. c (fst e) k < 0) xs @ (k, v) # dropWhile (\<lambda>e. c (fst e) k \<le> 0) xs"

definition remove_entry :: "(ptr \<Rightarrow> ptr \<Rightarrow> int) \<Rightarrow> ptr \<Rightarrow> entry list \<Rightarrow> entry list" where
  "remove_entry c k xs = filter (\<lambda>e. c (fst e) k \<noteq> 0) xs"

text \<open>The entries around the place of a key, with the entry that has the key, if there is one.\<close>

definition around :: "(ptr \<Rightarrow> ptr \<Rightarrow> int) \<Rightarrow> ptr \<Rightarrow> entry list \<Rightarrow> entry list \<Rightarrow> bool" where
  "around c k ps qs \<longleftrightarrow> (\<forall>e \<in> set ps. c (fst e) k < 0) \<and> (\<forall>e \<in> set qs. c (fst e) k > 0)"

lemma takeWhile_all: "\<forall>x \<in> set ps. P x \<Longrightarrow> takeWhile P (ps @ qs) = ps @ takeWhile P qs"
  by (simp add: takeWhile_append)

lemma dropWhile_all: "\<forall>x \<in> set ps. P x \<Longrightarrow> dropWhile P (ps @ qs) = dropWhile P qs"
  by (simp add: dropWhile_append)

lemma around_absent:
  assumes "around c k ps qs"
  shows "entry_of c k (ps @ qs) = None" "put_entry c k v (ps @ qs) = ps @ (k, v) # qs" "remove_entry c k (ps @ qs) = ps @ qs"
proof -
  have "\<forall>e \<in> set ps. c (fst e) k \<noteq> 0" "\<forall>e \<in> set qs. c (fst e) k \<noteq> 0" using assms by (auto simp: around_def)
  then show "entry_of c k (ps @ qs) = None" "remove_entry c k (ps @ qs) = ps @ qs"
    by (auto simp: entry_of_def remove_entry_def find_None_iff)
  show "put_entry c k v (ps @ qs) = ps @ (k, v) # qs"
    using assms by (cases qs) (auto simp: put_entry_def around_def takeWhile_all dropWhile_all less_imp_le)
qed

lemma around_present:
  assumes "around c k ps qs" "c (fst e) k = 0"
  shows "entry_of c k (ps @ e # qs) = Some e" "put_entry c k v (ps @ e # qs) = ps @ (k, v) # qs" "remove_entry c k (ps @ e # qs) = ps @ qs"
proof -
  have "\<forall>e \<in> set ps. c (fst e) k \<noteq> 0" "\<forall>e \<in> set qs. c (fst e) k \<noteq> 0" using assms(1) by (auto simp: around_def)
  then show "remove_entry c k (ps @ e # qs) = ps @ qs" using assms(2) by (simp add: remove_entry_def)
  have "find (\<lambda>e. c (fst e) k = 0) ps = None" using \<open>\<forall>e \<in> set ps. _\<close> by (auto simp: find_None_iff)
  then have "find (\<lambda>e. c (fst e) k = 0) (ps @ ys) = find (\<lambda>e. c (fst e) k = 0) ys" for ys by (induction ps) auto
  then show "entry_of c k (ps @ e # qs) = Some e" using assms(2) by (simp add: entry_of_def)
  show "put_entry c k v (ps @ e # qs) = ps @ (k, v) # qs"
    using assms by (cases qs) (auto simp: put_entry_def around_def takeWhile_all dropWhile_all less_imp_le)
qed

text \<open>The search ends at the place of the key.\<close>

lemma find_place:
  assumes "tree_at t (plug cs s)" "comparison (keyCompare t)" "ordered_entries (keyCompare t) (inorder (plug cs s))"
    "around (keyCompare t) k (before cs) (behind cs)"
  shows "\<exists>cs1 s1. descend_loop t k (upper (nil t) cs) (rootp (nil t) s) = Some (Inr (upper (nil t) cs1, rootp (nil t) s1)) \<and>
    plug cs1 s1 = plug cs s \<and> (s1 = Tip \<and> around (keyCompare t) k (before cs1) (behind cs1) \<or>
      (\<exists>l a c e r. s1 = Bin l a c e r \<and> keyCompare t (fst e) k = 0 \<and>
        around (keyCompare t) k (before cs1 @ inorder l) (inorder r @ behind cs1)))"
  using assms
proof (induction s arbitrary: cs)
  case Tip
  have "descend_loop t k (upper (nil t) cs) (rootp (nil t) Tip) = Some (Inr (upper (nil t) cs, rootp (nil t) Tip))"
    by (subst descend_loop.simps) simp
  then show ?case using Tip.prems(4) by (intro exI [of _ cs] exI [of _ Tip]) simp
next
  case (Bin l a c e r)
  let ?c = "keyCompare t"
  have tj: "tree_at t (plug cs (join L l a c e r))" using Bin.prems(1) by simp
  have z: "nil t \<noteq> Some a" using rootp_neq(6) [OF tj] .
  have g: "rbNodeIsEqual t (Some a) k = Inr (?c (fst e) k = 0)" "rbNodeIsGreaterThan t (Some a) k = Inr (?c (fst e) k > 0)"
    "get left_child t (Some a) = Inr (rootp (nil t) l)" "get right_child t (Some a) = Inr (rootp (nil t) r)"
    by (simp_all add: rbNodeIsEqual_def rbNodeIsGreaterThan_def get_join [OF tj] mk_left_right)
  have o: "\<forall>x \<in> set (inorder l). ?c (fst x) (fst e) < 0" "\<forall>x \<in> set (inorder r). ?c (fst e) (fst x) < 0"
    using Bin.prems(3) by (auto simp: inorder_plug ordered_entries_append ordered_entries_Cons)
  note cmp = comparison.less_le_trans [OF Bin.prems(2)] comparison.le_less_trans [OF Bin.prems(2)] comparison.swap_sign [OF Bin.prems(2)]
  have lt: "\<forall>x \<in> set (inorder l). ?c (fst x) k < 0" if "?c (fst e) k \<le> 0" using that o cmp(1) by blast
  have gt: "\<forall>x \<in> set (inorder r). ?c (fst x) k > 0" if "?c (fst e) k \<ge> 0"
  proof -
    have "?c k (fst e) \<le> 0" using that cmp(3) [of "fst e" k] by linarith
    then show ?thesis using o(2) cmp(2,3) by blast
  qed
  consider "?c (fst e) k = 0" | "?c (fst e) k > 0" | "?c (fst e) k < 0" by linarith
  then show ?case
  proof cases
    case 1
    have "descend_loop t k (upper (nil t) cs) (Some a) = Some (Inr (upper (nil t) cs, Some a))"
      using z g(1) 1 by (subst descend_loop.simps) simp
    moreover have "around ?c k (before cs @ inorder l) (inorder r @ behind cs)"
      using Bin.prems(4) lt gt 1 by (auto simp: around_def)
    ultimately show ?thesis using 1 by (intro exI [of _ cs] exI [of _ "Bin l a c e r"]) simp
  next
    case 2
    have "descend_loop t k (upper (nil t) cs) (Some a) = descend_loop t k (upper (nil t) (Frame L a c e r # cs)) (rootp (nil t) l)"
      using z g 2 by (subst descend_loop.simps) simp
    moreover have "around ?c k (before (Frame L a c e r # cs)) (behind (Frame L a c e r # cs))"
      using Bin.prems(4) gt 2 by (auto simp: around_def)
    ultimately show ?thesis using Bin.IH(1) [of "Frame L a c e r # cs"] Bin.prems(1-3) by simp
  next
    case 3
    have "descend_loop t k (upper (nil t) cs) (Some a) = descend_loop t k (upper (nil t) (Frame R a c e l # cs)) (rootp (nil t) r)"
      using z g 3 by (subst descend_loop.simps) simp
    moreover have "around ?c k (before (Frame R a c e l # cs)) (behind (Frame R a c e l # cs))"
      using Bin.prems(4) lt 3 by (auto simp: around_def)
    ultimately show ?thesis using Bin.IH(2) [of "Frame R a c e l # cs"] Bin.prems(1-3) by simp
  qed
qed

lemma find_from_root:
  assumes "search_tree t s"
  obtains (absent) cs where "descend_loop t k (nil t) (root t) = Some (Inr (upper (nil t) cs, nil t))" "s = plug cs Tip"
    "around (keyCompare t) k (before cs) (behind cs)"
  | (present) cs l a c e r where "descend_loop t k (nil t) (root t) = Some (Inr (upper (nil t) cs, Some a))" "s = plug cs (Bin l a c e r)"
    "keyCompare t (fst e) k = 0" "around (keyCompare t) k (before cs @ inorder l) (inorder r @ behind cs)"
proof -
  have "root t = rootp (nil t) s" using assms by (simp add: search_tree_def tree_at_def)
  then show ?thesis
    using find_place [of t "[]" s k] assms that by (auto simp: search_tree_def around_def)
qed

section \<open>The map a tree holds\<close>

definition settings where
  "settings t = (keyCompare t, keyFree t, keyCopy t, valueFree t, valueEquals t, valueCopy t)"

lemma reshapes_settings: "reshapes A t t1 \<Longrightarrow> settings t1 = settings t"
  by (simp add: settings_def reshapesD)

text \<open>The memory of a tree holds its nodes and its sentinel and nothing else.\<close>

definition owns :: "red_black_tree \<Rightarrow> rb_tree \<Rightarrow> bool" where
  "owns t s \<longleftrightarrow> dom (tree_nodes t) = insert (the (nil t)) (set (addrs s)) \<and> (\<forall>a \<in> dom (tree_nodes t). a < unused t)"

definition holds_entries :: "red_black_tree \<Rightarrow> entry list \<Rightarrow> bool" where
  "holds_entries t xs \<longleftrightarrow> (\<exists>s. search_tree t s \<and> red_black s \<and> owns t s \<and> inorder s = xs)"

lemma ordered_put:
  assumes "comparison c" "ordered_entries c (ps @ qs)" "around c k ps qs" "k \<noteq> None" "v \<noteq> None"
  shows "ordered_entries c (ps @ (k, v) # qs)"
  using assms comparison.swap_sign [OF assms(1)] by (auto simp: ordered_entries_append ordered_entries_Cons around_def)

lemma ordered_entries_remove: "ordered_entries c (ps @ e # qs) \<Longrightarrow> ordered_entries c (ps @ qs)"
  by (auto simp: ordered_entries_append ordered_entries_Cons)

end
