(* ===== verification/Parc_TreeInsert.thy ===== *)
theory Parc_TreeInsert
  imports Parc_TreeSearch
begin

text \<open>
  The loop that repairs the colors after an insertion into the tree of \<^verbatim>\<open>parc_TreeRedBlack.c\<close>: it ends, and what it leaves
  is a red-black tree with the same entries.
\<close>

section \<open>One pass\<close>

text \<open>
  The parent of a place, for a tip as long as the sentinel remembers it.
\<close>

lemma get_parent:
  assumes "tree_at t (plug cs s)" "s \<noteq> Tip"
  shows "get parent t (rootp (nil t) s) = Inr (upper (nil t) cs)"
  using assms(2)
proof (cases s)
  case (Bin l a c e r)
  then have "tree_at t (plug cs (join L l a c e r))" using assms(1) by simp
  from get_join [OF this, of parent] show ?thesis by (simp add: Bin)
qed simp

text \<open>The end of a pass whose uncle is black: the grandparent goes down on the side of the uncle.\<close>

lemma fix_finish:
  assumes t: "tree_at t (plug cs (join d (join d s p c1 e1 r) g c2 e2 u))"
    and A: "set (addrs (plug cs (join d (join d s p c1 e1 r) g c2 e2 u))) \<subseteq> A"
  shows "\<exists>t3 t4 t5. rbNodeSetColor t (Some p) BLACK = Inr t3 \<and> get parent t3 (Some p) = Inr (Some g) \<and>
    rbNodeSetColor t3 (Some g) RED = Inr t4 \<and> rotation (other d) t4 (Some g) = Inr t5 \<and>
    tree_at t5 (plug cs (join d s p Black e1 (join d r g Red e2 u))) \<and> reshapes A t t5"
proof -
  have "tree_at t (plug (Frame d g c2 e2 u # cs) (join d s p c1 e1 r))" using t by simp
  from SetColor_place [OF this, of Black A] A
  obtain t3 where t3: "rbNodeSetColor t (Some p) BLACK = Inr t3" "reshapes A t t3"
    and t3h: "tree_at t3 (plug (Frame d g c2 e2 u # cs) (join d s p Black e1 r))"
    by (auto simp: addrs_plug)
  have g: "get parent t3 (Some p) = Inr (Some g)" by (simp add: get_join [OF t3h])
  have "tree_at t3 (plug cs (join d (join d s p Black e1 r) g c2 e2 u))" using t3h by simp
  from SetColor_place [OF this, of Red A] A
  obtain t4 where t4: "rbNodeSetColor t3 (Some g) RED = Inr t4" "reshapes A t3 t4"
    and t4h: "tree_at t4 (plug cs (join d (join d s p Black e1 r) g Red e2 u))"
    by (auto simp: addrs_plug)
  have "tree_at t4 (plug cs (join (other d) u g Red e2 (join (other d) r p Black e1 s)))" using t4h by (simp add: join_other)
  from rotation_place [OF this, of A] A
  obtain t5 where "rotation (other d) t4 (Some g) = Inr t5" "reshapes A t4 t5"
    "tree_at t5 (plug cs (join d s p Black e1 (join d r g Red e2 u)))"
    by (auto simp: addrs_plug join_other)
  moreover have "reshapes A t t5" using t3(2) t4(2) calculation(2) reshapes_trans by metis
  ultimately show ?thesis using t3(1) g t4(1) by blast
qed

text \<open>What a pass leaves at the place of the grandparent when it is the last one.\<close>

definition repaired :: "rb_tree \<Rightarrow> rb_tree \<Rightarrow> bool" where
  "repaired s s1 \<longleftrightarrow> balanced s1 \<and> hue_of s1 = Black \<and> inorder s1 = inorder s \<and> set (addrs s1) = set (addrs s)"

lemma fix_side_black:
  assumes t: "tree_at t (plug cs (join d (join d1 s p Red e1 r) g Black e2 u))"
    and s: "balanced s" "hue_of s = Red" and r: "balanced r" "hue_of r = Black" "black_height r = black_height s"
    and u: "balanced u" "hue_of u = Black" "black_height u = black_height s"
    and A: "set (addrs (plug cs (join d (join d1 s p Red e1 r) g Black e2 u))) \<subseteq> A"
  shows "\<exists>t1 x a e y. fix_side d t (rootp (nil t) s) = Inr (rootp (nil t) x, t1) \<and> x \<noteq> Tip \<and>
    tree_at t1 (plug cs (join d x a Black e y)) \<and> reshapes A t t1 \<and>
    repaired (join d (join d1 s p Red e1 r) g Black e2 u) (join d x a Black e y) \<and>
    black_height (join d x a Black e y) = Suc (black_height s)"
proof -
  let ?j = "join d1 s p Red e1 r"
  have nt: "s \<noteq> Tip" using s(2) by auto
  have tp: "tree_at t (plug (Frame d1 p Red e1 r # Frame d g Black e2 u # cs) s)" using t by simp
  have tj: "tree_at t (plug (Frame d g Black e2 u # cs) ?j)" using t by simp
  have tu: "tree_at t (plug (Frame (other d) g Black e2 ?j # cs) u)" using t by (simp add: join_other)
  have rd: "get parent t (rootp (nil t) s) = Inr (Some p)" "get parent t (Some p) = Inr (Some g)"
    "get (child (other d)) t (Some g) = Inr (rootp (nil t) u)" "rbNodeColor t (rootp (nil t) u) = Inr BLACK"
    using get_parent [OF tp nt] color_place [OF tu] u(2) by (simp_all add: get_join [OF tj] get_join [OF t])
  consider "d1 = d" | "d1 = other d" using side_cases by blast
  then show ?thesis
  proof cases
    case 1
    have "get (child (other d)) t (Some p) = Inr (rootp (nil t) r)" using 1 by (simp add: get_join [OF tj])
    moreover have "rootp (nil t) r \<noteq> rootp (nil t) s" using rootp_neq(3) [OF tj nt] .
    moreover obtain t3 t4 t5 where "rbNodeSetColor t (Some p) BLACK = Inr t3" "get parent t3 (Some p) = Inr (Some g)"
      "rbNodeSetColor t3 (Some g) RED = Inr t4" "rotation (other d) t4 (Some g) = Inr t5"
      and t5: "tree_at t5 (plug cs (join d s p Black e1 (join d r g Red e2 u)))" "reshapes A t t5"
      using fix_finish [of t cs d s p Red e1 r g Black e2 u A] t A 1 by auto
    ultimately have "fix_side d t (rootp (nil t) s) = Inr (rootp (nil t) s, t5)" using rd by (simp add: fix_side_def)
    moreover have "repaired (join d ?j g Black e2 u) (join d s p Black e1 (join d r g Red e2 u))"
      using 1 s r u by (cases d) (auto simp: repaired_def)
    ultimately show ?thesis using t5 nt r u by (intro exI conjI) (assumption | simp add: black_height_join)+
  next
    case 2
    obtain s1 q c e0 s2 where sj: "s = join d s1 q c e0 s2" using nt by (rule join_cases)
    have "tree_at t (plug (Frame d g Black e2 u # cs) (join d r p Red e1 (join d s1 q c e0 s2)))"
      using tj by (simp add: 2 sj join_other)
    from rotation_place [OF this, of A] A
    obtain t1 where t1: "rotation d t (Some p) = Inr t1" "reshapes A t t1"
      "tree_at t1 (plug (Frame d g Black e2 u # cs) (join d (join d r p Red e1 s1) q c e0 s2))"
      by (auto simp: addrs_plug 2 sj)
    have "tree_at t1 (plug (Frame d q c e0 s2 # Frame d g Black e2 u # cs) (join d r p Red e1 s1))" using t1(3) by simp
    from get_join [OF this, of parent] have "get parent t1 (Some p) = Inr (Some q)" by simp
    moreover have "get (child (other d)) t (Some p) = Inr (rootp (nil t) s)" by (simp add: get_join [OF tj] 2 [symmetric])
    moreover obtain t3 t4 t5 where "rbNodeSetColor t1 (Some q) BLACK = Inr t3" "get parent t3 (Some q) = Inr (Some g)"
      "rbNodeSetColor t3 (Some g) RED = Inr t4" "rotation (other d) t4 (Some g) = Inr t5"
      and t5: "tree_at t5 (plug cs (join d (join d r p Red e1 s1) q Black e0 (join d s2 g Red e2 u)))" "reshapes A t1 t5"
      using fix_finish [of t1 cs d "join d r p Red e1 s1" q c e0 s2 g Black e2 u A] t1(3) A by (auto simp: addrs_plug 2 sj)
    ultimately have "fix_side d t (rootp (nil t) s) = Inr (rootp (nil t) (join d r p Red e1 s1), t5)"
      using rd t1(1) by (simp add: fix_side_def)
    moreover have "reshapes A t t5" using t1(2) t5(2) by (rule reshapes_trans)
    moreover have "repaired (join d ?j g Black e2 u) (join d (join d r p Red e1 s1) q Black e0 (join d s2 g Red e2 u))"
      using 2 s r u by (cases d) (auto simp: repaired_def sj)
    moreover have "black_height (join d (join d r p Red e1 s1) q Black e0 (join d s2 g Red e2 u)) = Suc (black_height s)"
      using s r u by (cases d) (auto simp: sj)
    ultimately show ?thesis using t5(1) by (intro exI conjI) (assumption | simp)+
  qed
qed

lemma fix_side_red:
  assumes t: "tree_at t (plug cs (join d (join d1 s p Red e1 r) g Black e2 u))"
    and s: "s \<noteq> Tip" and u: "hue_of u = Red"
    and A: "set (addrs (plug cs (join d (join d1 s p Red e1 r) g Black e2 u))) \<subseteq> A"
  shows "\<exists>t1. fix_side d t (rootp (nil t) s) = Inr (Some g, t1) \<and>
    tree_at t1 (plug cs (join d (join d1 s p Black e1 r) g Red e2 (paint Black u))) \<and> reshapes A t t1"
proof -
  let ?j = "\<lambda>c. join d1 s p c e1 r"
  have tp: "tree_at t (plug (Frame d1 p Red e1 r # Frame d g Black e2 u # cs) s)" using t by simp
  have tj: "tree_at t (plug (Frame d g Black e2 u # cs) (?j Red))" using t by simp
  have tu: "tree_at t (plug (Frame (other d) g Black e2 (?j Red) # cs) u)" using t by (simp add: join_other)
  have rd: "get parent t (rootp (nil t) s) = Inr (Some p)" "get parent t (Some p) = Inr (Some g)"
    "get (child (other d)) t (Some g) = Inr (rootp (nil t) u)" "rbNodeColor t (rootp (nil t) u) = Inr RED"
    using get_parent [OF tp s] color_place [OF tu] u by (simp_all add: get_join [OF tj] get_join [OF t])
  obtain t1 where t1: "rbNodeSetColor t (Some p) BLACK = Inr t1" "reshapes A t t1"
    and "tree_at t1 (plug (Frame d g Black e2 u # cs) (?j Black))"
    using SetColor_place [OF tj, of Black A] A by (auto simp: addrs_plug)
  then have h1: "tree_at t1 (plug (Frame (other d) g Black e2 (?j Black) # cs) u)" by (simp add: join_other)
  have z: "nil t1 = nil t" using reshapesD(1) [OF t1(2)] .
  obtain t2 where t2: "rbNodeSetColor t1 (rootp (nil t) u) BLACK = Inr t2" "reshapes A t1 t2"
    and "tree_at t2 (plug (Frame (other d) g Black e2 (?j Black) # cs) (paint Black u))"
    using SetColor_place [OF h1, of Black A] A by (auto simp: addrs_plug z)
  then have h2: "tree_at t2 (plug cs (join d (?j Black) g Black e2 (paint Black u)))" by (simp add: join_other)
  obtain t3 where t3: "rbNodeSetColor t2 (Some g) RED = Inr t3" "reshapes A t2 t3"
    "tree_at t3 (plug cs (join d (?j Black) g Red e2 (paint Black u)))"
    using SetColor_place [OF h2, of Red A] A by (auto simp: addrs_plug)
  have "reshapes A t t3" using t1(2) t2(2) t3(2) reshapes_trans by blast
  then show ?thesis using rd t1(1) t2(1) t3(1,3) by (auto simp: fix_side_def)
qed

section \<open>The loop\<close>

text \<open>The test that selects the branch.\<close>

lemma fix_loop_unfold:
  assumes t: "tree_at t (plug (Frame d1 p Red e1 r # Frame d g c e2 u # cs) s)" and s: "s \<noteq> Tip"
  shows "fix_loop t (rootp (nil t) s) =
    (case fix_side d t (rootp (nil t) s) of Inl e \<Rightarrow> Some (Inl e) | Inr r \<Rightarrow> fix_loop (snd r) (fst r))"
proof -
  have tj: "tree_at t (plug (Frame d g c e2 u # cs) (join d1 s p Red e1 r))" using t by simp
  have "get parent t (rootp (nil t) s) = Inr (Some p)" using get_parent [OF t s] by simp
  moreover have "get parent t (Some p) = Inr (Some g)" by (simp add: get_join [OF tj])
  moreover have "rbNodeColor t (Some p) = Inr RED" using color_place [OF tj] by simp
  moreover have "get left_child t (Some g) = Inr (if d = L then Some p else rootp (nil t) u)" "rootp (nil t) u \<noteq> Some p"
    using left_test [OF tj] by simp_all
  ultimately show ?thesis by (subst fix_loop.simps) (cases d; simp)
qed

lemma fix_loop_end:
  assumes t: "tree_at t (plug cs s)" and s: "s \<noteq> Tip" and f: "\<And>d a c e r fs. cs = Frame d a c e r # fs \<Longrightarrow> c = Black"
  shows "fix_loop t (rootp (nil t) s) = Some (Inr t)"
proof -
  have "rbNodeColor t (upper (nil t) cs) = Inr BLACK"
  proof (cases cs)
    case Nil
    then show ?thesis using t by (auto simp: tree_at_def rbNodeColor_def get_def rb_at_def)
  next
    case (Cons fr fs)
    obtain d a c e r where fr: "fr = Frame d a c e r" by (cases fr)
    then have "tree_at t (plug fs (join d s a c e r))" using t Cons by simp
    from color_place [OF this] f [of d a c e r fs] show ?thesis by (simp add: Cons fr)
  qed
  then show ?thesis using get_parent [OF t s] by (subst fix_loop.simps) simp
qed

definition fixed :: "rb_tree \<Rightarrow> rb_tree \<Rightarrow> bool" where
  "fixed s s1 \<longleftrightarrow> red_black (paint Black s1) \<and> inorder s1 = inorder s \<and> set (addrs s1) = set (addrs s)"

lemma fix_loop_repairs:
  assumes "tree_at t (plug cs s)" "balanced s" "hue_of s = Red" "fits (black_height s) Black cs"
    and "set (addrs (plug cs s)) \<subseteq> A"
  shows "\<exists>t1 s1. fix_loop t (rootp (nil t) s) = Some (Inr t1) \<and> tree_at t1 s1 \<and> fixed (plug cs s) s1 \<and> reshapes A t t1"
  using assms
proof (induction "length cs" arbitrary: t cs s rule: less_induct)
  case less
  note t = less.prems(1)
  have nt: "s \<noteq> Tip" using less.prems(3) by auto
  show ?case
  proof (cases cs)
    case Nil
    then have "fixed (plug cs s) (plug cs s)" using less.prems(2) by (simp add: fixed_def red_black_def)
    then show ?thesis using fix_loop_end [OF t nt] t Nil by (intro exI [of _ t] exI [of _ "plug cs s"]) simp
  next
    case (Cons f fs)
    obtain d1 p c e1 r where f: "f = Frame d1 p c e1 r" by (cases f)
    show ?thesis
    proof (cases "c = Black")
      case True
      have "red_black (plug cs s)"
        using less.prems(2-4) by (simp only: red_black_plug) (simp add: Cons f True)
      then have "fixed (plug cs s) (plug cs s)" by (simp add: fixed_def red_black_def)
      then show ?thesis using fix_loop_end [OF t nt] t True Cons f by (intro exI [of _ t] exI [of _ "plug cs s"]) simp
    next
      case False
      then have c: "c = Red" by simp
      have r: "balanced r" "hue_of r = Black" "black_height r = black_height s" and fs: "fits (black_height s) Red fs"
        using less.prems(4) by (auto simp: Cons f c)
      obtain d g cg e2 u gs where g: "fs = Frame d g cg e2 u # gs" using fs by (cases fs) (auto split: frame.splits)
      have u: "balanced u" "black_height u = black_height s" "cg = Black" "fits (Suc (black_height s)) Black gs"
        using fs by (auto simp: g)
      have tg: "tree_at t (plug gs (join d (join d1 s p Red e1 r) g Black e2 u))" using t by (simp add: Cons f g c u(3))
      have A: "set (addrs (plug gs (join d (join d1 s p Red e1 r) g Black e2 u))) \<subseteq> A"
        using less.prems(5) by (simp add: Cons f g c u(3))
      have lp: "fix_loop t (rootp (nil t) s) =
          (case fix_side d t (rootp (nil t) s) of Inl e \<Rightarrow> Some (Inl e) | Inr r \<Rightarrow> fix_loop (snd r) (fst r))"
        using fix_loop_unfold [of t d1 p e1 r d g cg e2 u gs s] t nt by (simp add: Cons f g c)
      show ?thesis
      proof (cases "hue_of u = Red")
        case True
        let ?s1 = "join d (join d1 s p Black e1 r) g Red e2 (paint Black u)"
        obtain t1 where t1: "fix_side d t (rootp (nil t) s) = Inr (Some g, t1)" "tree_at t1 (plug gs ?s1)" "reshapes A t t1"
          using fix_side_red [OF tg nt True A] by blast
        have b: "balanced ?s1" "black_height ?s1 = Suc (black_height s)"
          using less.prems(2) r u(1,2) True by (cases u; cases d; cases d1; auto)+
        have "set (addrs (plug gs ?s1)) \<subseteq> A" using A by (auto simp: addrs_plug)
        then obtain t2 s2 where t2: "fix_loop t1 (rootp (nil t1) ?s1) = Some (Inr t2)" "tree_at t2 s2" "fixed (plug gs ?s1) s2"
          "reshapes A t1 t2"
          using less.hyps [of gs t1 ?s1] t1(2) b u(4) by (auto simp: Cons g)
        have "inorder (plug gs ?s1) = inorder (plug cs s)" "set (addrs (plug gs ?s1)) = set (addrs (plug cs s))"
          by (cases d; cases d1; auto simp: Cons f g c u(3) inorder_plug addrs_plug)+
        then have "fixed (plug cs s) s2" using t2(3) by (simp add: fixed_def)
        moreover have "reshapes A t t2" using t1(3) t2(4) by (rule reshapes_trans)
        ultimately show ?thesis using lp t1(1) t2(1,2) by auto
      next
        case False
        then have "hue_of u = Black" by simp
        then obtain t1 x a e y where t1: "fix_side d t (rootp (nil t) s) = Inr (rootp (nil t) x, t1)" "x \<noteq> Tip"
          "tree_at t1 (plug gs (join d x a Black e y))" "reshapes A t t1"
          "repaired (join d (join d1 s p Red e1 r) g Black e2 u) (join d x a Black e y)"
          "black_height (join d x a Black e y) = Suc (black_height s)"
          using fix_side_black [OF tg less.prems(2,3) r u(1) _ u(2) A] by blast
        let ?s1 = "plug gs (join d x a Black e y)"
        have "red_black ?s1" using t1(5,6) u(4) by (simp add: red_black_plug repaired_def)
        moreover have "inorder ?s1 = inorder (plug cs s)" "set (addrs ?s1) = set (addrs (plug cs s))"
          using t1(5) by (simp_all add: repaired_def Cons f g c u(3) inorder_plug addrs_plug)
        ultimately have "fixed (plug cs s) ?s1" by (simp add: fixed_def red_black_def)
        moreover have "fix_loop t1 (rootp (nil t1) x) = Some (Inr t1)"
          using fix_loop_end [of t1 "Frame d a Black e y # gs" x] t1(2,3) by simp
        moreover have "nil t1 = nil t" using reshapesD(1) [OF t1(4)] .
        ultimately show ?thesis using lp t1(1,3,4) by auto
      qed
    qed
  qed
qed

lemma rbNodeFix_repairs:
  assumes t: "tree_at t (plug cs s)" "balanced s" "hue_of s = Red" "fits (black_height s) Black cs" "set (addrs (plug cs s)) \<subseteq> A"
  shows "\<exists>t1 s1. rbNodeFix t (rootp (nil t) s) = Inr t1 \<and> tree_at t1 s1 \<and> red_black s1 \<and> inorder s1 = inorder (plug cs s) \<and>
    set (addrs s1) = set (addrs (plug cs s)) \<and> reshapes A t t1"
proof -
  obtain t1 s1 where t1: "fix_loop t (rootp (nil t) s) = Some (Inr t1)" "tree_at t1 (plug [] s1)" "fixed (plug cs s) s1" "reshapes A t t1"
    using fix_loop_repairs [OF t] by auto
  have "set (addrs s1) \<subseteq> A" using t1(3) t(5) by (simp add: fixed_def)
  then obtain t2 where t2: "rbNodeSetColor t1 (rootp (nil t1) s1) BLACK = Inr t2" "tree_at t2 (paint Black s1)" "reshapes A t1 t2"
    using SetColor_place [OF t1(2), of Black A] by auto
  have "root t1 = rootp (nil t1) s1" using t1(2) by (simp add: tree_at_def)
  then have "rbNodeFix t (rootp (nil t) s) = Inr t2" using t1(1) t2(1) by (simp add: rbNodeFix_def resolved_def)
  then show ?thesis using t1(3) t2(2) reshapes_trans [OF t1(4) t2(3)] by (auto simp: fixed_def)
qed

section \<open>The insertion\<close>

text \<open>The new node, before it is linked.\<close>

definition with_node :: "red_black_tree \<Rightarrow> ptr \<Rightarrow> ptr \<Rightarrow> red_black_tree" where
  "with_node t k v = t\<lparr>unused := Suc (unused t), tree_nodes := (tree_nodes t)(unused t \<mapsto>
     \<lparr>left_child = nil t, right_child = nil t, parent = nil t, node_key = k, node_value = v, node_color = RED\<rparr>)\<rparr>"

lemma create_with_node:
  "rbind (rbNodeCreate True t RED) (\<lambda>(p, t1). rbind (assign (\<lambda>n. n\<lparr>node_key := k, node_value := v\<rparr>) t1 p) (\<lambda>t2. f p t2)) =
    f (Some (unused t)) (with_node t k v)"
  by (simp add: rbNodeCreate_def assign_def rb_at_def with_node_def)

lemma with_node_fields [simp]:
  "root (with_node t k v) = root t" "nil (with_node t k v) = nil t" "tree_size (with_node t k v) = tree_size t"
  "settings (with_node t k v) = settings t" "freed (with_node t k v) = freed t" "unused (with_node t k v) = Suc (unused t)"
  "keyCompare (with_node t k v) = keyCompare t" "keyFree (with_node t k v) = keyFree t" "valueFree (with_node t k v) = valueFree t"
  by (simp_all add: with_node_def settings_def)

lemma with_node_tree:
  assumes "search_tree t s" "owns t s"
  shows "search_tree (with_node t k v) s" "unused t \<notin> set (addrs s)" "nil t \<noteq> Some (unused t)"
proof -
  have u: "\<forall>a \<in> insert (the (nil t)) (set (addrs s)). a < unused t" using assms(2) by (auto simp: owns_def)
  then show n: "unused t \<notin> set (addrs s)" "nil t \<noteq> Some (unused t)" by auto
  have t: "tree_at t s" using assms(1) by (simp add: search_tree_def)
  have m: "tree_nodes (with_node t k v) a = tree_nodes t a" if "a \<noteq> unused t" for a using that by (simp add: with_node_def)
  have "tree_at (with_node t k v) s"
  proof (rule tree_at_frame [OF t])
    show "tree_nodes (with_node t k v) a = tree_nodes t a" if "a \<in> set (addrs s)" for a using that n(1) by (intro m) auto
    show "tree_nodes (with_node t k v) a = tree_nodes t a" if "nil t = Some a" for a using that n(2) by (intro m) auto
  qed simp_all
  then show "search_tree (with_node t k v) s" using assms(1) by (simp add: search_tree_def)
qed

text \<open>A key that is there gets the new key and value and its old ones are freed.\<close>

definition freed_entry :: "red_black_tree \<Rightarrow> entry \<Rightarrow> ptr list" where
  "freed_entry t e = (if keyFree t then [fst e] else []) @ (if valueFree t then [snd e] else [])"

lemma free_entry_eq:
  "free_value (free_key t k) v = t\<lparr>freed := freed t @ freed_entry t (k, v)\<rparr>"
  by (simp add: free_value_def free_key_def freed_entry_def)

lemma Update_present:
  assumes s: "search_tree t (plug cs (Bin l a c e r))" "owns t (plug cs (Bin l a c e r))"
  shows "\<exists>t1. rbNodeUpdate (with_node t k v) (Some a) (Some (unused t)) = Inr t1 \<and> tree_at t1 (plug cs (Bin l a c (k, v) r)) \<and>
    owns t1 (plug cs (Bin l a c (k, v) r)) \<and> settings t1 = settings t \<and> tree_size t1 = tree_size t \<and>
    freed t1 = freed t @ freed_entry t e"
proof -
  note w = with_node_tree(1) [OF s, of k v] with_node_tree(2,3) [OF s]
  let ?t2 = "with_node t k v"
  have t2: "tree_at ?t2 (plug cs (Bin l a c e r))" using w(1) by (simp add: search_tree_def)
  note o = tree_at_plugD [OF t2]
  have n: "unused t \<noteq> a" "unused t \<notin> set (addrs l)" "unused t \<notin> set (addrs r)" "unused t \<notin> set (frame_addrs cs)"
    using w(2) by (auto simp: addrs_plug)
  let ?f = "\<lambda>n. n\<lparr>node_key := k, node_value := v\<rparr>"
  define m where "m = (modify ?f (Some a) (tree_nodes ?t2))(unused t := None)"
  define t1 where "t1 = ?t2\<lparr>freed := freed t @ freed_entry t e, tree_nodes := m\<rparr>"
  have "rbNodeUpdate ?t2 (Some a) (Some (unused t)) = Inr t1"
  proof -
    have "rb_at ?t2 (Some a) = Inr (mk L (rootp (nil t) l) (rootp (nil t) r) (upper (nil t) cs) c e)" using o(1) by (simp add: rb_at_def)
    moreover have "rb_at ?t2 (Some (unused t)) = Inr \<lparr>left_child = nil t, right_child = nil t, parent = nil t, node_key = k, node_value = v, node_color = RED\<rparr>"
      by (simp add: rb_at_def with_node_def)
    moreover have "freed_entry ?t2 e = freed_entry t e" by (simp add: freed_entry_def)
    moreover have "tree_nodes (?t2\<lparr>freed := freed t @ freed_entry t e\<rparr>) a \<noteq> None" using o(1) by simp
    from assign_modify [OF this, of ?f]
    have "assign ?f (?t2\<lparr>freed := freed t @ freed_entry t e\<rparr>) (Some a) =
        Inr (?t2\<lparr>freed := freed t @ freed_entry t e, tree_nodes := modify ?f (Some a) (tree_nodes ?t2)\<rparr>)"
      by simp
    ultimately show ?thesis by (simp add: rbNodeUpdate_def free_entry_eq deallocate_def t1_def m_def)
  qed
  moreover have "tree_at t1 (plug cs (Bin l a c (k, v) r))"
  proof (rule tree_at_replace [OF t2])
    have "holds m (nil t) (Some a) l" "holds m (nil t) (Some a) r"
      using o(1,4) n by (auto intro!: holds_agree [of "tree_nodes ?t2"] simp: m_def modify_def)
    then show "holds (tree_nodes t1) (nil ?t2) (upper (nil ?t2) cs) (Bin l a c (k, v) r)"
      using o(1) n(1) by (simp add: t1_def m_def modify_def mk_def)
    show "tree_nodes t1 x = redirect cs (rootp (nil ?t2) (Bin l a c (k, v) r)) (tree_nodes ?t2) x" if "x \<in> set (frame_addrs cs)" for x
      using that n(4) o(6) redirect_same [OF o(2)] by (auto simp: t1_def m_def modify_def)
    show "j \<notin> set (addrs (Bin l a c (k, v) r)) \<and> (\<exists>q. tree_nodes t1 j = Some q \<and> node_color q = BLACK)" if "nil ?t2 = Some j" for j
      using that w(3) tree_at_nil [OF t2] by (auto simp: t1_def m_def modify_def)
  qed (use o in \<open>auto simp: t1_def\<close>)
  moreover have "owns t1 (plug cs (Bin l a c (k, v) r))"
  proof -
    have "m x = None \<longleftrightarrow> tree_nodes t x = None" for x
      using s(2) w(2,3) by (auto simp: m_def with_node_def owns_def dom_def)
    then have "dom m = dom (tree_nodes t)" by (simp add: dom_def)
    then show ?thesis using s(2) by (auto simp: owns_def t1_def addrs_plug intro: less_SucI)
  qed
  moreover have "settings t1 = settings t" "tree_size t1 = tree_size t" "freed t1 = freed t @ freed_entry t e"
    by (simp_all add: t1_def settings_def with_node_def)
  ultimately show ?thesis by blast
qed

text \<open>A key that is not there gets the new node as a leaf at its place.\<close>

lemma link_absent:
  assumes s: "search_tree t (plug cs Tip)" "owns t (plug cs Tip)" and k: "around (keyCompare t) k (before cs) (behind cs)"
  shows "\<exists>t1. rbind (set_parent (with_node t k v) (Some (unused t)) (upper (nil t) cs)) (\<lambda>t3.
      if upper (nil t) cs = nil t3 then Inr (t3\<lparr>root := Some (unused t)\<rparr>)
      else rbind (rbNodeIsGreaterThan t3 (upper (nil t) cs) k) (\<lambda>gt.
        if gt then set_child L t3 (upper (nil t) cs) (Some (unused t)) else set_child R t3 (upper (nil t) cs) (Some (unused t)))) = Inr t1 \<and>
    tree_at t1 (plug cs (Bin Tip (unused t) Red (k, v) Tip)) \<and> reshapes (set (addrs (plug cs (Bin Tip (unused t) Red (k, v) Tip)))) (with_node t k v) t1"
proof -
  let ?t2 = "with_node t k v" and ?n = "unused t" and ?z = "nil t"
  note w = with_node_tree(1) [OF s, of k v] with_node_tree(2,3) [OF s]
  have t2: "tree_at ?t2 (plug cs Tip)" using w(1) by (simp add: search_tree_def)
  note o = tree_at_plugD [OF t2]
  have n: "?n \<notin> set (frame_addrs cs)" using w(2) by (auto simp: addrs_plug)
  define m where "m = modify (parent_update (\<lambda>_. upper ?z cs)) (Some ?n) (tree_nodes ?t2)"
  define t3 where "t3 = ?t2\<lparr>tree_nodes := m\<rparr>"
  define t1 where "t1 = t3\<lparr>root := root_of (Some ?n) cs, tree_nodes := redirect cs (Some ?n) m\<rparr>"
  have new: "m ?n = Some (mk L ?z ?z (upper ?z cs) Red (k, v))" by (simp add: m_def modify_def with_node_def mk_def)
  have fr: "m x = tree_nodes ?t2 x" if "x \<in> set (frame_addrs cs)" for x using that n by (auto simp: m_def modify_def)
  have "set_parent ?t2 (Some ?n) (upper ?z cs) = Inr t3" by (simp add: assign_modify with_node_def t3_def m_def)
  moreover have "(if upper ?z cs = nil t3 then Inr (t3\<lparr>root := Some ?n\<rparr>) else rbind (rbNodeIsGreaterThan t3 (upper ?z cs) k) (\<lambda>gt.
      if gt then set_child L t3 (upper ?z cs) (Some ?n) else set_child R t3 (upper ?z cs) (Some ?n))) = Inr t1"
  proof (cases cs)
    case Nil
    then show ?thesis by (simp add: t1_def t3_def redirect_def)
  next
    case (Cons f fs)
    obtain d a c e r where f: "f = Frame d a c e r" by (cases f)
    have a: "m a = Some (mk d ?z (rootp ?z r) (upper ?z fs) c e)" using o(2) fr [of a] by (simp add: Cons f)
    have "rbNodeIsGreaterThan t3 (Some a) k = Inr (d = L)"
      using a k by (cases d) (auto simp: rbNodeIsGreaterThan_def get_def rb_at_def t3_def Cons f around_def)
    moreover have "Some a \<noteq> nil t3" using rootp_nil(2) [OF t2] by (simp add: Cons f t3_def)
    moreover have "root_of (Some ?n) cs = root t3" using o(3) by (simp add: Cons f t3_def)
    moreover have "set_child d t3 (Some a) (Some ?n) = Inr (t3\<lparr>tree_nodes := redirect cs (Some ?n) m\<rparr>)"
      using a by (simp add: t3_def assign_modify Cons f redirect_def)
    ultimately show ?thesis by (cases d) (simp_all add: Cons f t1_def)
  qed
  moreover have "tree_at t1 (plug cs (Bin Tip ?n Red (k, v) Tip))"
  proof (rule tree_at_replace [OF t2])
    show "holds (tree_nodes t1) (nil ?t2) (upper (nil ?t2) cs) (Bin Tip ?n Red (k, v) Tip)"
      using new n by (simp add: t1_def redirect_other)
    show "tree_nodes t1 x = redirect cs (rootp (nil ?t2) (Bin Tip ?n Red (k, v) Tip)) (tree_nodes ?t2) x" if "x \<in> set (frame_addrs cs)" for x
      using fr [OF that] by (cases cs) (auto simp: t1_def redirect_def modify_def split: frame.split)
    show "j \<notin> set (addrs (Bin Tip ?n Red (k, v) Tip)) \<and> (\<exists>q. tree_nodes t1 j = Some q \<and> node_color q = BLACK)" if j: "nil ?t2 = Some j" for j
    proof -
      obtain q where "tree_nodes ?t2 j = Some q" "node_color q = BLACK" "j \<notin> set (frame_addrs cs)"
        using j by (metis tree_at_nil [OF t2] option.inject)
      moreover have "j \<noteq> ?n" using j w(3) by auto
      ultimately show ?thesis by (simp add: t1_def m_def modify_def redirect_other)
    qed
  qed (use n o in \<open>auto simp: t1_def t3_def\<close>)
  moreover have "reshapes (set (addrs (plug cs (Bin Tip ?n Red (k, v) Tip)))) ?t2 t1"
    by (auto simp: reshapes_def t1_def t3_def m_def redirect_other modify_def addrs_plug)
  ultimately show ?thesis by (intro exI [of _ t1]) simp
qed

lemma search_treeI:
  assumes "search_tree t s" "tree_at t1 s1" "keyCompare t1 = keyCompare t" "ordered_entries (keyCompare t) (inorder s1)"
    "tree_size t1 = int (length (inorder s1))"
  shows "search_tree t1 s1"
  using assms by (simp add: search_tree_def)

lemma Insert_entries:
  assumes r: "holds_entries t xs" and k: "k \<noteq> None" "v \<noteq> None" and len: "length xs < 2147483647"
  shows "\<exists>t1. parcTreeRedBlack_Insert True t k v = Inr t1 \<and> holds_entries t1 (put_entry (keyCompare t) k v xs) \<and> settings t1 = settings t \<and>
    freed t1 = freed t @ (case entry_of (keyCompare t) k xs of None \<Rightarrow> [] | Some e \<Rightarrow> freed_entry t e)"
proof -
  let ?c = "keyCompare t" and ?n = "unused t"
  obtain s where s: "search_tree t s" "red_black s" "owns t s" "inorder s = xs" using r by (auto simp: holds_entries_def)
  let ?t2 = "with_node t k v"
  have w: "search_tree ?t2 s" using with_node_tree(1) [OF s(1,3)] .
  have cmp: "comparison ?c" "ordered_entries ?c xs" "tree_size t = int (length xs)" using s by (auto simp: search_tree_def)
  from w show ?thesis
  proof (cases rule: find_from_root [where k = k])
    case (present cs l a c e r)
    have st: "search_tree t (plug cs (Bin l a c e r))" "owns t (plug cs (Bin l a c e r))" using s(1,3) present(2) by simp_all
    obtain t1 where t1: "rbNodeUpdate ?t2 (Some a) (Some ?n) = Inr t1" "tree_at t1 (plug cs (Bin l a c (k, v) r))"
      "owns t1 (plug cs (Bin l a c (k, v) r))" "settings t1 = settings t" "tree_size t1 = tree_size t" "freed t1 = freed t @ freed_entry t e"
      using Update_present [OF st, of k v] by blast
    have xs: "xs = (before cs @ inorder l) @ e # inorder r @ behind cs" using s(4) present(2) by (simp add: inorder_plug)
    have p: "put_entry ?c k v xs = inorder (plug cs (Bin l a c (k, v) r))" "entry_of ?c k xs = Some e"
      using around_present(1,2) [of ?c k "before cs @ inorder l" "inorder r @ behind cs" e] present(3,4) by (simp_all add: xs inorder_plug)
    have "nil ?t2 \<noteq> Some a" using rootp_neq(6) [of t cs L l a c e r] st(1) by (simp add: search_tree_def)
    then have i: "parcTreeRedBlack_Insert True t k v = Inr t1"
      using k present(1) t1(1) by (simp add: parcTreeRedBlack_Insert_def create_with_node resolved_def)
    have "ordered_entries ?c (inorder (plug cs (Bin l a c (k, v) r)))"
      using ordered_put [of ?c "before cs @ inorder l" "inorder r @ behind cs" k v] cmp(1) present(4) k
        ordered_entries_remove [of ?c "before cs @ inorder l" e] cmp(2) by (simp add: xs inorder_plug)
    then have "search_tree t1 (plug cs (Bin l a c (k, v) r))"
      using st(1) t1(2,4,5) by (simp add: search_tree_def settings_def inorder_plug)
    moreover have "red_black (plug cs (Bin l a c (k, v) r))" using s(2) present(2) by (auto simp: red_black_plug)
    ultimately show ?thesis using i t1(3,4,6) p by (auto simp: holds_entries_def)
  next
    case (absent cs)
    have st: "search_tree t (plug cs Tip)" "owns t (plug cs Tip)" using s(1,3) absent(2) by simp_all
    let ?s1 = "plug cs (Bin Tip ?n Red (k, v) Tip)"
    obtain t4 where t4: "rbind (set_parent ?t2 (Some ?n) (upper (nil t) cs)) (\<lambda>t3.
        if upper (nil t) cs = nil t3 then Inr (t3\<lparr>root := Some ?n\<rparr>)
        else rbind (rbNodeIsGreaterThan t3 (upper (nil t) cs) k) (\<lambda>gt.
          if gt then set_child L t3 (upper (nil t) cs) (Some ?n) else set_child R t3 (upper (nil t) cs) (Some ?n))) = Inr t4"
      "tree_at t4 ?s1" "reshapes (set (addrs ?s1)) ?t2 t4"
      using link_absent [OF st, of k v] absent(3) by auto
    let ?t5 = "t4\<lparr>tree_size := tree_size t4 + 1\<rparr>"
    have xs: "xs = before cs @ behind cs" using s(4) absent(2) by (simp add: inorder_plug)
    have sz: "tree_size t4 = int (length xs)" using reshapesD(2) [OF t4(3)] cmp(3) by simp
    then have c5: "count_nodes 1 t4 = Inr ?t5" using len by (simp add: count_nodes_def)
    have t5: "tree_at ?t5 ?s1" using t4(2) by (simp add: tree_at_def)
    obtain t6 s6 where t6: "rbNodeFix ?t5 (Some ?n) = Inr t6" "tree_at t6 s6" "red_black s6" "inorder s6 = inorder ?s1"
      "set (addrs s6) = set (addrs ?s1)" "reshapes (set (addrs ?s1)) ?t5 t6"
      using rbNodeFix_repairs [OF t5, of "set (addrs ?s1)"] s(2) absent(2) by (auto simp: red_black_plug)
    note d4 = reshapesD [OF t4(3)] and d6 = reshapesD [OF t6(6)]
    have p: "put_entry ?c k v xs = inorder s6" "entry_of ?c k xs = None"
      using around_absent(1,2) [of ?c k "before cs" "behind cs"] absent(3) t6(4) by (simp_all add: xs inorder_plug)
    have o6: "ordered_entries ?c (inorder s6)"
      using ordered_put [of ?c "before cs" "behind cs" k v] cmp(1,2) absent(3) k t6(4) by (simp add: xs inorder_plug)
    have st6: "search_tree t6 s6"
      using t6(2,4) o6 cmp(1) sz d4 d6 by (simp add: search_tree_def xs inorder_plug)
    have "owns t6 s6"
    proof -
      have "dom (tree_nodes t6) = insert ?n (dom (tree_nodes t))" using d4(11) d6(11) by (auto simp: with_node_def)
      moreover have "unused t6 = Suc ?n" "nil t6 = nil t" using d4(1,9) d6(1,9) by simp_all
      ultimately show ?thesis using s(3) absent(2) t6(5) by (auto simp: owns_def addrs_plug intro: less_SucI)
    qed
    then have "holds_entries t6 (put_entry ?c k v xs)" using st6 t6(3) p(1) by (auto simp: holds_entries_def)
    moreover have "parcTreeRedBlack_Insert True t k v = Inr t6"
      using k absent(1) t4(1) c5 t6(1) tree_assertions [OF st6]
      by (simp add: parcTreeRedBlack_Insert_def create_with_node resolved_def rbind_assoc [symmetric] del: rbind_eq_Inr child_update.simps)
    moreover have "settings ?t5 = settings t4" by (simp add: settings_def)
    then have "settings t6 = settings t" "freed t6 = freed t"
      using reshapes_settings [OF t4(3)] reshapes_settings [OF t6(6)] d4(10) d6(10) by simp_all
    ultimately show ?thesis using p(2) by auto
  qed
qed

end
