(* ===== verification/Parc_TreeRemove.thy ===== *)
theory Parc_TreeRemove
  imports Parc_TreeInsert
begin

text \<open>
  The removal from the tree of \<^verbatim>\<open>parc_TreeRedBlack.c\<close>: the loop that repairs the colors ends and leaves a red-black
  tree with the same entries, and a node taken out of the tree in any of the four ways leaves the other entries.
\<close>

section \<open>A place that lacks a black node\<close>

text \<open>
  The subtree at the place is one black node short. It may have a red root with a red child, for the loop paints the root
  black before it ends. When it is a tip the sentinel knows its parent.
\<close>

definition short :: "red_black_tree \<Rightarrow> frame list \<Rightarrow> rb_tree \<Rightarrow> bool" where
  "short t cs s \<longleftrightarrow> tree_at t (plug cs s) \<and> balanced (paint Black s) \<and> fits (Suc (black_height s)) Black cs \<and>
    get parent t (rootp (nil t) s) = Inr (upper (nil t) cs)"

lemma parent_kept:
  assumes "tree_at t (plug cs s)" "get parent t (rootp (nil t) s) = Inr p" "tree_at t1 (plug ds s)" "reshapes A t t1"
    "set_option (nil t) \<inter> A = {}" "s \<noteq> Tip \<or> upper (nil t) ds = p"
  shows "get parent t1 (rootp (nil t) s) = Inr (upper (nil t) ds)"
proof (cases "s = Tip")
  case True
  obtain n where n: "nil t = Some n" using assms(1) by (auto simp: tree_at_def)
  then have "n \<notin> A" using assms(5) by auto
  then have "tree_nodes t1 n = tree_nodes t n" using reshapesD(12) [OF assms(4)] by blast
  then show ?thesis using assms(2,6) True n by (simp add: get_def rb_at_def)
next
  case False
  then show ?thesis using get_parent [OF assms(3)] reshapesD(1) [OF assms(4)] by simp
qed

lemma shortD:
  assumes "short t cs s"
  shows "tree_at t (plug cs s)" "balanced (paint Black s)" "fits (Suc (black_height s)) Black cs"
    "get parent t (rootp (nil t) s) = Inr (upper (nil t) cs)"
  using assms by (simp_all add: short_def)

text \<open>What every step keeps.\<close>

definition same_content :: "rb_tree \<Rightarrow> rb_tree \<Rightarrow> bool" where
  "same_content s s1 \<longleftrightarrow> inorder s1 = inorder s \<and> set (addrs s1) = set (addrs s)"

lemma same_content_refl [simp]: "same_content s s"
  by (simp add: same_content_def)

lemma same_content_trans: "same_content s s1 \<Longrightarrow> same_content s1 s2 \<Longrightarrow> same_content s s2"
  by (simp add: same_content_def)

lemma same_content_plug [simp]: "same_content s s1 \<Longrightarrow> same_content (plug cs s) (plug cs s1)"
  by (simp add: same_content_def inorder_plug addrs_plug)

lemma same_content_paint [simp]: "same_content s (paint h s)"
  by (simp add: same_content_def)

text \<open>The set of the addresses of the tree, without the sentinel.\<close>

definition inside :: "red_black_tree \<Rightarrow> rb_tree \<Rightarrow> addr set \<Rightarrow> bool" where
  "inside t s A \<longleftrightarrow> set (addrs s) \<subseteq> A \<and> set_option (nil t) \<inter> A = {}"

lemma inside_step:
  "inside t s A \<Longrightarrow> same_content s s1 \<Longrightarrow> reshapes A t t1 \<Longrightarrow> inside t1 s1 A"
  by (simp add: inside_def same_content_def reshapesD(1))

section \<open>The steps of a pass\<close>

lemma fixDelete_red_step:
  assumes sh: "short t (Frame d p c e w # cs) s" and A: "inside t (plug (Frame d p c e w # cs) s) A"
  shows "\<exists>t1 ds w1 c1. fixDelete_red d t (rootp (nil t) s) = Inr (rootp (nil t) w1, t1) \<and> short t1 (Frame d p c1 e w1 # ds) s \<and>
    hue_of w1 = Black \<and> same_content (plug (Frame d p c e w # cs) s) (plug (Frame d p c1 e w1 # ds) s) \<and> reshapes A t t1 \<and>
    (length ds = length cs \<and> c1 = c \<or> length ds = Suc (length cs) \<and> c1 = Red)"
proof -
  note o = shortD [OF sh]
  have tp: "tree_at t (plug cs (join d s p c e w))" using o(1) by simp
  have tw: "tree_at t (plug (Frame (other d) p c e s # cs) w)" using tp by (simp add: join_other)
  have rd: "get parent t (rootp (nil t) s) = Inr (Some p)" "get (child (other d)) t (Some p) = Inr (rootp (nil t) w)"
    "rbNodeColor t (rootp (nil t) w) = Inr (hue_code (hue_of w))"
    using o(4) color_place [OF tw] by (simp_all add: get_join [OF tp])
  have f: "balanced w" "black_height w = Suc (black_height s)" "c = Red \<longrightarrow> hue_of w = Black"
    "fits (Suc (black_height s) + (if c = Black then 1 else 0)) c cs"
    using o(3) by auto
  show ?thesis
  proof (cases "hue_of w")
    case Black
    then have "fixDelete_red d t (rootp (nil t) s) = Inr (rootp (nil t) w, t)" using rd by (simp add: fixDelete_red_def)
    then show ?thesis using sh Black by (intro exI [of _ t] exI [of _ cs] exI [of _ w] exI [of _ c]) simp
  next
    case Red
    then have c: "c = Black" using f(3) by auto
    obtain i b cb eb u where w: "w = join d i b cb eb u" using Red by (metis hue.distinct(1) hue_of.simps(1) join_cases)
    then have cb: "cb = Red" using Red by simp
    have iu: "balanced i" "balanced u" "hue_of i = Black" "hue_of u = Black" "black_height i = Suc (black_height s)" "black_height u = Suc (black_height s)"
      using f(1,2) by (auto simp: w cb black_height_join)
    have A1: "set (addrs (join d s p c e w)) \<union> set (frame_addrs cs) \<subseteq> A" and nA: "set_option (nil t) \<inter> A = {}"
      using A by (auto simp: inside_def addrs_plug)
    obtain t1 where t1: "rbNodeSetColor t (rootp (nil t) w) BLACK = Inr t1" "reshapes A t t1"
      and h1: "tree_at t1 (plug cs (join d s p c e (join d i b Black eb u)))"
      using SetColor_place [OF tw, of Black A] A1 by (auto simp: w join_other)
    have p1: "get parent t1 (rootp (nil t) s) = Inr (Some p)"
      using parent_kept [OF o(1) o(4) _ t1(2) nA, of "Frame d p c e (join d i b Black eb u) # cs"] h1 by simp
    obtain t2 where t2: "rbNodeSetColor t1 (Some p) RED = Inr t2" "reshapes A t1 t2"
      and h2: "tree_at t2 (plug cs (join d s p Red e (join d i b Black eb u)))"
      using SetColor_place [OF h1, of Red A] A1 by (auto simp: w)
    obtain t3 where t3: "rotation d t2 (Some p) = Inr t3" "reshapes A t2 t3"
      and h3: "tree_at t3 (plug cs (join d (join d s p Red e i) b Black eb u))"
      using rotation_place [OF h2, of A] A1 by (auto simp: w)
    have r3: "reshapes A t t3" using t1(2) t2(2) t3(2) reshapes_trans by blast
    let ?ds = "Frame d b Black eb u # cs"
    have h3p: "tree_at t3 (plug (Frame d p Red e i # ?ds) s)" "tree_at t3 (plug ?ds (join d s p Red e i))" using h3 by simp_all
    have p3: "get parent t3 (rootp (nil t) s) = Inr (Some p)"
      using parent_kept [OF o(1) o(4) h3p(1) r3 nA] by simp
    have z3: "nil t3 = nil t" using reshapesD(1) [OF r3] .
    have "get (child (other d)) t3 (Some p) = Inr (rootp (nil t) i)" by (simp add: get_join [OF h3p(2)] z3)
    then have code: "fixDelete_red d t (rootp (nil t) s) = Inr (rootp (nil t) i, t3)"
      using rd t1(1) p1 t2(1) t3(1) p3 Red by (simp add: fixDelete_red_def)
    have "short t3 (Frame d p Red e i # ?ds) s"
      using h3p(1) o(2) iu f(4) p3 by (simp add: short_def z3 c)
    moreover have "same_content (plug (Frame d p c e w # cs) s) (plug (Frame d p Red e i # ?ds) s)"
      by (cases d) (auto simp: same_content_def inorder_plug addrs_plug w)
    ultimately show ?thesis
      using code iu(3) r3 by (intro exI [of _ t3] exI [of _ ?ds] exI [of _ i] exI [of _ Red]) simp
  qed
qed

lemma black_children_place:
  assumes t: "tree_at t (plug cs (join d i b c e u))"
  shows "black_children t (Some b) = Inr (hue_of i = Black \<and> hue_of u = Black)"
proof -
  have "tree_at t (plug (Frame d b c e u # cs) i)" "tree_at t (plug (Frame (other d) b c e i # cs) u)" using t by (simp_all add: join_other)
  then have c: "rbNodeColor t (rootp (nil t) i) = Inr (hue_code (hue_of i))" "rbNodeColor t (rootp (nil t) u) = Inr (hue_code (hue_of u))"
    using color_place by blast+
  have "get left_child t (Some b) = Inr (rootp (nil t) (if d = L then i else u))"
    "get right_child t (Some b) = Inr (rootp (nil t) (if d = L then u else i))"
    by (cases d; simp add: get_join [OF t] mk_left_right)+
  then show ?thesis using c by (cases "hue_of i"; cases "hue_of u"; cases d) (simp_all add: black_children_def)
qed

text \<open>The pieces of a place whose sibling is black, for the two remaining steps.\<close>

lemma black_sibling:
  assumes "short t (Frame d p c e (join d i b Black eb u) # cs) s" "hue_of s = Black"
  shows "balanced s" "balanced i" "balanced u" "black_height i = black_height s" "black_height u = black_height s"
    "fits (Suc (black_height s) + (if c = Black then 1 else 0)) c cs"
  using shortD(2,3) [OF assms(1)] assms(2) by (auto simp: paint_same black_height_join)

lemma fixDelete_inner_step:
  assumes sh: "short t (Frame d p c e (join d i b Black eb u) # cs) s" and A: "inside t (plug (Frame d p c e (join d i b Black eb u) # cs) s) A"
    and s: "hue_of s = Black" and r: "\<not> (hue_of i = Black \<and> hue_of u = Black)"
  shows "\<exists>t1 i1 b1 e1 u1. fixDelete_inner d t (rootp (nil t) s) (Some b) = Inr (Some b1, t1) \<and>
    short t1 (Frame d p c e (join d i1 b1 Black e1 u1) # cs) s \<and> hue_of u1 = Red \<and> reshapes A t t1 \<and>
    same_content (plug (Frame d p c e (join d i b Black eb u) # cs) s) (plug (Frame d p c e (join d i1 b1 Black e1 u1) # cs) s)"
proof -
  note o = shortD [OF sh] and bs = black_sibling [OF sh s]
  let ?fs = "Frame (other d) p c e s # cs"
  have tb: "tree_at t (plug ?fs (join d i b Black eb u))" using o(1) by (simp add: join_other)
  have tu: "tree_at t (plug (Frame (other d) b Black eb i # ?fs) u)" "tree_at t (plug (Frame d b Black eb u # ?fs) i)"
    using tb by (simp_all add: join_other)
  have rd: "get (child (other d)) t (Some b) = Inr (rootp (nil t) u)" "get (child d) t (Some b) = Inr (rootp (nil t) i)"
    "rbNodeColor t (rootp (nil t) u) = Inr (hue_code (hue_of u))"
    using color_place [OF tu(1)] by (simp_all add: get_join [OF tb])
  show ?thesis
  proof (cases "hue_of u")
    case Red
    then have "fixDelete_inner d t (rootp (nil t) s) (Some b) = Inr (Some b, t)" using rd by (simp add: fixDelete_inner_def)
    then show ?thesis using sh Red by (intro exI [of _ t] exI [of _ i] exI [of _ b] exI [of _ eb] exI [of _ u]) simp
  next
    case Black
    then have ir: "hue_of i = Red" using r by simp
    obtain ii q cq eq io where i: "i = join d ii q cq eq io" using ir by (metis hue.distinct(1) hue_of.simps(1) join_cases)
    then have cq: "cq = Red" using ir by simp
    have iu: "balanced ii" "balanced io" "hue_of ii = Black" "hue_of io = Black" "black_height ii = black_height s" "black_height io = black_height s"
      using bs(2,4) by (auto simp: i cq black_height_join)
    have A1: "set (addrs (join d s p c e (join d i b Black eb u))) \<union> set (frame_addrs cs) \<subseteq> A" and nA: "set_option (nil t) \<inter> A = {}"
      using A by (auto simp: inside_def addrs_plug)
    obtain t1 where t1: "rbNodeSetColor t (rootp (nil t) i) BLACK = Inr t1" "reshapes A t t1"
      and h1: "tree_at t1 (plug ?fs (join d (join d ii q Black eq io) b Black eb u))"
      using SetColor_place [OF tu(2), of Black A] A1 by (auto simp: i)
    obtain t2 where t2: "rbNodeSetColor t1 (Some b) RED = Inr t2" "reshapes A t1 t2"
      and "tree_at t2 (plug ?fs (join d (join d ii q Black eq io) b Red eb u))"
      using SetColor_place [OF h1, of Red A] A1 by (auto simp: i)
    then have h2: "tree_at t2 (plug ?fs (join (other d) u b Red eb (join (other d) io q Black eq ii)))" by (simp add: join_other)
    obtain t3 where t3: "rotation (other d) t2 (Some b) = Inr t3" "reshapes A t2 t3"
      and h3: "tree_at t3 (plug ?fs (join d ii q Black eq (join d io b Red eb u)))"
      using rotation_place [OF h2, of A] A1 by (auto simp: i join_other)
    have r3: "reshapes A t t3" using t1(2) t2(2) t3(2) reshapes_trans by blast
    let ?w = "join d ii q Black eq (join d io b Red eb u)"
    have h3p: "tree_at t3 (plug (Frame d p c e ?w # cs) s)" "tree_at t3 (plug cs (join d s p c e ?w))" using h3 by (simp_all add: join_other)
    have p3: "get parent t3 (rootp (nil t) s) = Inr (Some p)" using parent_kept [OF o(1) o(4) h3p(1) r3 nA] by simp
    have z3: "nil t3 = nil t" using reshapesD(1) [OF r3] .
    have "get (child (other d)) t3 (Some p) = Inr (Some q)" by (simp add: get_join [OF h3p(2)])
    then have code: "fixDelete_inner d t (rootp (nil t) s) (Some b) = Inr (Some q, t3)"
      using rd t1(1) t2(1) t3(1) p3 Black by (simp add: fixDelete_inner_def)
    have "short t3 (Frame d p c e ?w # cs) s"
      using h3p(1) o(2) iu bs Black p3 by (simp add: short_def z3 black_height_join)
    moreover have "same_content (plug (Frame d p c e (join d i b Black eb u) # cs) s) (plug (Frame d p c e ?w # cs) s)"
      by (cases d) (auto simp: same_content_def inorder_plug addrs_plug i)
    ultimately show ?thesis
      using code r3 by (intro exI [of _ t3] exI [of _ ii] exI [of _ q] exI [of _ eq] exI [of _ "join d io b Red eb u"]) simp
  qed
qed

lemma fixDelete_outer_step:
  assumes sh: "short t (Frame d p c e (join d i b Black eb u) # cs) s" and A: "inside t (plug (Frame d p c e (join d i b Black eb u) # cs) s) A"
    and s: "hue_of s = Black" and r: "hue_of u = Red"
  shows "\<exists>t1 s1. fixDelete_outer d t (rootp (nil t) s) (Some b) = Inr (root t1, t1) \<and> tree_at t1 s1 \<and> red_black s1 \<and> reshapes A t t1 \<and>
    same_content (plug (Frame d p c e (join d i b Black eb u) # cs) s) s1"
proof -
  note o = shortD [OF sh] and bs = black_sibling [OF sh s]
  let ?w = "\<lambda>h u. join d i b h eb u"
  have A1: "set (addrs (join d s p c e (?w Black u))) \<union> set (frame_addrs cs) \<subseteq> A" and nA: "set_option (nil t) \<inter> A = {}"
    using A by (auto simp: inside_def addrs_plug)
  have tp: "tree_at t (plug cs (join d s p c e (?w Black u)))" using o(1) by simp
  have tb: "tree_at t (plug (Frame (other d) p c e s # cs) (?w Black u))" using tp by (simp add: join_other)
  have rd: "get parent t (rootp (nil t) s) = Inr (Some p)" "rbNodeColor t (Some p) = Inr (hue_code c)"
    using o(4) color_place [OF tp] by simp_all
  obtain t1 where t1: "rbNodeSetColor t (Some b) (hue_code c) = Inr t1" "reshapes A t t1"
    and h1: "tree_at t1 (plug cs (join d s p c e (?w c u)))"
    using SetColor_place [OF tb, of c A] A1 by (auto simp: join_other)
  obtain t2 where t2: "rbNodeSetColor t1 (Some p) BLACK = Inr t2" "reshapes A t1 t2"
    and h2: "tree_at t2 (plug cs (join d s p Black e (?w c u)))"
    using SetColor_place [OF h1, of Black A] A1 by auto
  have h2b: "tree_at t2 (plug (Frame (other d) p Black e s # cs) (?w c u))"
    "tree_at t2 (plug (Frame (other d) b c eb i # Frame (other d) p Black e s # cs) u)" using h2 by (simp_all add: join_other)
  have "get (child (other d)) t2 (Some b) = Inr (rootp (nil t2) u)" by (simp add: get_join [OF h2b(1)])
  moreover obtain t3 where t3: "rbNodeSetColor t2 (rootp (nil t2) u) BLACK = Inr t3" "reshapes A t2 t3"
    and h3: "tree_at t3 (plug cs (join d s p Black e (?w c (paint Black u))))"
    using SetColor_place [OF h2b(2), of Black A] A1 by (auto simp: join_other)
  moreover obtain t4 where t4: "rotation d t3 (Some p) = Inr t4" "reshapes A t3 t4"
    and h4: "tree_at t4 (plug cs (join d (join d s p Black e i) b c eb (paint Black u)))"
    using rotation_place [OF h3, of A] A1 by auto
  ultimately have code: "fixDelete_outer d t (rootp (nil t) s) (Some b) = Inr (root t4, t4)"
    using rd t1(1) t2(1) by (simp add: fixDelete_outer_def)
  let ?s1 = "plug cs (join d (join d s p Black e i) b c eb (paint Black u))"
  have "black_height (paint Black u) = Suc (black_height s)" using r bs(5) by (cases u) auto
  then have "red_black ?s1" using bs by (simp add: red_black_plug black_height_join)
  moreover have "reshapes A t t4" using t1(2) t2(2) t3(2) t4(2) reshapes_trans by blast
  moreover have "same_content (plug (Frame d p c e (?w Black u) # cs) s) ?s1"
    by (cases d) (auto simp: same_content_def inorder_plug addrs_plug)
  ultimately show ?thesis using code h4 by blast
qed

section \<open>The loop\<close>

lemma search_tree_step:
  assumes "search_tree t s" "tree_at t1 s1" "same_content s s1" "reshapes A t t1"
  shows "search_tree t1 s1"
  using assms reshapesD(2,3) [OF assms(4)] by (simp add: search_tree_def same_content_def)

text \<open>
  A pass either moves the place up, or it repairs the tree and goes to the root.
\<close>

lemma fixDelete_side_step:
  assumes sh: "short t (Frame d p c e w # cs) s" and A: "inside t (plug (Frame d p c e w # cs) s) A" and s: "hue_of s = Black"
  obtains (up) t1 ds s1 where "fixDelete_side d t (rootp (nil t) s) = Inr (rootp (nil t) s1, t1)" "short t1 ds s1"
      "same_content (plug (Frame d p c e w # cs) s) (plug ds s1)" "reshapes A t t1"
      "length ds = length cs \<or> length ds = Suc (length cs) \<and> hue_of s1 = Red"
  | (top) t1 s1 where "fixDelete_side d t (rootp (nil t) s) = Inr (root t1, t1)" "tree_at t1 s1" "red_black s1"
      "same_content (plug (Frame d p c e w # cs) s) s1" "reshapes A t t1"
proof -
  obtain t1 ds w1 c1 where t1: "fixDelete_red d t (rootp (nil t) s) = Inr (rootp (nil t) w1, t1)" "short t1 (Frame d p c1 e w1 # ds) s"
    "hue_of w1 = Black" "same_content (plug (Frame d p c e w # cs) s) (plug (Frame d p c1 e w1 # ds) s)" "reshapes A t t1"
    "length ds = length cs \<and> c1 = c \<or> length ds = Suc (length cs) \<and> c1 = Red"
    using fixDelete_red_step [OF sh A] by blast
  have z1: "nil t1 = nil t" using reshapesD(1) [OF t1(5)] .
  note o = shortD [OF t1(2)]
  have "black_height w1 \<noteq> 0" using o(3) by auto
  then have "w1 \<noteq> Tip" by auto
  then obtain i b cb eb u where "w1 = join d i b cb eb u" by (rule join_cases)
  then have w1: "w1 = join d i b Black eb u" using t1(3) by simp
  have A1: "inside t1 (plug (Frame d p c1 e w1 # ds) s) A" using inside_step [OF A t1(4,5)] .
  have tb: "tree_at t1 (plug (Frame (other d) p c1 e s # ds) (join d i b Black eb u))" using o(1) by (simp add: w1 join_other)
  note both = black_children_place [OF tb]
  note sh1 = t1(2) [unfolded w1] and A2 = A1 [unfolded w1]
  note bs = black_sibling [OF sh1 s]
  show ?thesis
  proof (cases "hue_of i = Black \<and> hue_of u = Black")
    case True
    have sub: "set (addrs (join d i b Black eb u)) \<subseteq> A" and nA: "set_option (nil t1) \<inter> A = {}"
      using A2 by (auto simp: inside_def addrs_plug)
    obtain t2 where t2: "rbNodeSetColor t1 (Some b) RED = Inr t2" "reshapes A t1 t2"
      and h2: "tree_at t2 (plug (Frame (other d) p c1 e s # ds) (join d i b Red eb u))"
      using SetColor_place [OF tb, of Red A] sub by auto
    let ?s1 = "join d s p c1 e (join d i b Red eb u)"
    have h2p: "tree_at t2 (plug ds ?s1)" "tree_at t2 (plug (Frame d p c1 e (join d i b Red eb u) # ds) s)" using h2 by (simp_all add: join_other)
    have p2: "get parent t2 (rootp (nil t) s) = Inr (Some p)" using parent_kept [OF o(1,4) h2p(2) t2(2) nA] by (simp add: z1)
    have "fixDelete_side d t (rootp (nil t) s) = Inr (rootp (nil t) ?s1, t2)"
      using t1(1) both True t2(1) p2 by (simp add: fixDelete_side_def w1)
    moreover have "short t2 ds ?s1"
    proof -
      have "balanced (paint Black ?s1)" using bs True s by (simp add: black_height_join)
      moreover have "black_height ?s1 = black_height s + (if c1 = Black then 1 else 0)"
        using bs by (cases d) simp_all
      then have "fits (Suc (black_height ?s1)) Black ds" using bs(6) fits_Red by (cases c1) auto
      moreover have "get parent t2 (rootp (nil t2) ?s1) = Inr (upper (nil t2) ds)" using get_parent [OF h2p(1)] by simp
      ultimately show ?thesis using h2p(1) by (simp add: short_def)
    qed
    moreover have "same_content (plug (Frame d p c e w # cs) s) (plug ds ?s1)"
    proof -
      have "same_content (plug (Frame d p c1 e w1 # ds) s) (plug ds ?s1)"
        by (cases d) (auto simp: w1 same_content_def inorder_plug addrs_plug)
      then show ?thesis using t1(4) same_content_trans by blast
    qed
    moreover have "reshapes A t t2" using t1(5) t2(2) by (rule reshapes_trans)
    moreover have "length ds = length cs \<or> length ds = Suc (length cs) \<and> hue_of ?s1 = Red" using t1(6) by auto
    ultimately show ?thesis using up by blast
  next
    case False
    obtain t2 i1 b1 e1 u1 where t2: "fixDelete_inner d t1 (rootp (nil t1) s) (Some b) = Inr (Some b1, t2)"
      "short t2 (Frame d p c1 e (join d i1 b1 Black e1 u1) # ds) s" "hue_of u1 = Red" "reshapes A t1 t2"
      "same_content (plug (Frame d p c1 e w1 # ds) s) (plug (Frame d p c1 e (join d i1 b1 Black e1 u1) # ds) s)"
      using fixDelete_inner_step [OF sh1 A2 s False] w1 by auto
    have A3: "inside t2 (plug (Frame d p c1 e (join d i1 b1 Black e1 u1) # ds) s) A" using inside_step [OF A1 t2(5,4)] .
    have z2: "nil t2 = nil t" using reshapesD(1) [OF t2(4)] z1 by simp
    obtain t3 s3 where t3: "fixDelete_outer d t2 (rootp (nil t2) s) (Some b1) = Inr (root t3, t3)" "tree_at t3 s3" "red_black s3"
      "reshapes A t2 t3" "same_content (plug (Frame d p c1 e (join d i1 b1 Black e1 u1) # ds) s) s3"
      using fixDelete_outer_step [OF t2(2) A3 s t2(3)] by blast
    have "fixDelete_side d t (rootp (nil t) s) = Inr (root t3, t3)"
      using t1(1) both False t2(1) t3(1) by (simp add: fixDelete_side_def w1 z1 z2)
    moreover have "same_content (plug (Frame d p c e w # cs) s) s3" using t1(4) t2(5) t3(5) same_content_trans by blast
    moreover have "reshapes A t t3" using t1(5) t2(4) t3(4) reshapes_trans by blast
    ultimately show ?thesis using top t3(2,3) by blast
  qed
qed

lemma at_root:
  assumes "tree_at t (plug cs s)"
  shows "rootp (nil t) s = root t \<longleftrightarrow> cs = []"
proof (cases "s = Tip")
  case True
  have "plug cs Tip = Tip \<longleftrightarrow> cs = []"
  proof (cases cs)
    case (Cons f fs)
    obtain d a c e r where f: "f = Frame d a c e r" by (cases f)
    have "a \<in> set (addrs (plug cs Tip))" by (simp add: addrs_plug Cons f)
    then show ?thesis by (auto simp: Cons)
  qed simp
  then show ?thesis using rootp_nil(3) [OF assms] True by auto
next
  case False
  then show ?thesis using root_here [OF assms] by auto
qed

lemma fixDelete_loop_repairs:
  assumes "short t cs s" "search_tree t (plug cs s)" "inside t (plug cs s) A"
  shows "\<exists>t1 cs1 s1. fixDelete_loop t (rootp (nil t) s) = Some (Inr (rootp (nil t) s1, t1)) \<and> tree_at t1 (plug cs1 s1) \<and>
    red_black (plug cs1 (paint Black s1)) \<and> same_content (plug cs s) (plug cs1 s1) \<and> reshapes A t t1"
  using assms
proof (induction "2 * length cs + (if hue_of s = Black then 1 else 0)" arbitrary: t cs s rule: less_induct)
  case less
  note o = shortD [OF less.prems(1)]
  have col: "rbNodeColor t (rootp (nil t) s) = Inr (hue_code (hue_of s))" using color_place [OF o(1)] .
  show ?case
  proof (cases cs)
    case Nil
    have "fixDelete_loop t (rootp (nil t) s) = Some (Inr (rootp (nil t) s, t))"
      using at_root [OF o(1)] Nil by (subst fixDelete_loop.simps) simp
    then show ?thesis using o(1,2) Nil by (intro exI [of _ t] exI [of _ cs] exI [of _ s]) (simp add: red_black_def)
  next
    case (Cons f fs)
    obtain d p c e w where f: "f = Frame d p c e w" by (cases f)
    have ne: "rootp (nil t) s \<noteq> root t" using at_root [OF o(1)] Cons by simp
    show ?thesis
    proof (cases "hue_of s")
      case Red
      have "fixDelete_loop t (rootp (nil t) s) = Some (Inr (rootp (nil t) s, t))"
        using ne col Red by (subst fixDelete_loop.simps) simp
      moreover have "black_height (paint Black s) = Suc (black_height s)" using Red by (cases s) auto
      then have "red_black (plug cs (paint Black s))" using o(2,3) by (simp add: red_black_plug)
      ultimately show ?thesis using o(1) by (intro exI [of _ t] exI [of _ cs] exI [of _ s]) simp
    next
      case Black
      have sh: "short t (Frame d p c e w # fs) s" and A: "inside t (plug (Frame d p c e w # fs) s) A"
        using less.prems(1,3) by (simp_all add: Cons f)
      have "black_height w \<noteq> 0" using o(3) by (auto simp: Cons f)
      then have wt: "w \<noteq> Tip" by auto
      have "get parent t (rootp (nil t) s) = Inr (Some p)" using o(4) by (simp add: Cons f)
      moreover have "get left_child t (Some p) = Inr (if d = L then rootp (nil t) s else rootp (nil t) w)" "rootp (nil t) w \<noteq> rootp (nil t) s"
        using left_test [of t d p c e w fs s] o(1) wt by (simp_all add: Cons f)
      ultimately have lp: "fixDelete_loop t (rootp (nil t) s) =
          (case fixDelete_side d t (rootp (nil t) s) of Inl e \<Rightarrow> Some (Inl e) | Inr r \<Rightarrow> fixDelete_loop (snd r) (fst r))"
        using ne col Black tree_assertions [OF less.prems(2)] by (subst fixDelete_loop.simps) (cases d; auto)
      from sh A Black show ?thesis
      proof (cases rule: fixDelete_side_step)
        case (top t1 s1)
        have "root t1 = rootp (nil t) s1" "nil t1 = nil t" using top(2) reshapesD(1) [OF top(5)] by (simp_all add: tree_at_def)
        moreover have "fixDelete_loop t1 (root t1) = Some (Inr (root t1, t1))" by (subst fixDelete_loop.simps) simp
        moreover have "red_black (paint Black s1)" using top(3) by (simp add: red_black_def)
        ultimately show ?thesis
          using lp top by (intro exI [of _ t1] exI [of _ "[]"] exI [of _ s1]) (simp add: Cons f)
      next
        case (up t1 ds s1)
        have z1: "nil t1 = nil t" using reshapesD(1) [OF up(4)] .
        have sc: "same_content (plug cs s) (plug ds s1)" using up(3) by (simp add: Cons f)
        have "2 * length ds + (if hue_of s1 = Black then 1 else 0) < 2 * length cs + (if hue_of s = Black then 1 else 0)"
          using up(5) Black by (auto simp: Cons)
        moreover have "search_tree t1 (plug ds s1)" using search_tree_step [OF less.prems(2) shortD(1) [OF up(2)] sc up(4)] .
        moreover have "inside t1 (plug ds s1) A" using inside_step [OF less.prems(3) sc up(4)] .
        ultimately obtain t2 cs2 s2 where t2: "fixDelete_loop t1 (rootp (nil t1) s1) = Some (Inr (rootp (nil t1) s2, t2))"
          "tree_at t2 (plug cs2 s2)" "red_black (plug cs2 (paint Black s2))" "same_content (plug ds s1) (plug cs2 s2)" "reshapes A t1 t2"
          using less.hyps [of ds s1 t1] up(2) by blast
        have "same_content (plug cs s) (plug cs2 s2)" "reshapes A t t2"
          using sc t2(4) up(4) t2(5) same_content_trans reshapes_trans by blast+
        then show ?thesis using lp up(1) t2(1-3) z1 by (intro exI [of _ t2] exI [of _ cs2] exI [of _ s2]) simp
      qed
    qed
  qed
qed

lemma rbNodeFixDelete_repairs:
  assumes "short t cs s" "search_tree t (plug cs s)" "inside t (plug cs s) A"
  shows "\<exists>t1 s1. rbNodeFixDelete t (rootp (nil t) s) = Inr t1 \<and> tree_at t1 s1 \<and> red_black s1 \<and> same_content (plug cs s) s1 \<and> reshapes A t t1"
proof -
  obtain t1 cs1 s1 where t1: "fixDelete_loop t (rootp (nil t) s) = Some (Inr (rootp (nil t) s1, t1))" "tree_at t1 (plug cs1 s1)"
    "red_black (plug cs1 (paint Black s1))" "same_content (plug cs s) (plug cs1 s1)" "reshapes A t t1"
    using fixDelete_loop_repairs [OF assms] by blast
  have z1: "nil t1 = nil t" using reshapesD(1) [OF t1(5)] .
  have "set (addrs s1) \<subseteq> A" using assms(3) t1(4) by (auto simp: inside_def same_content_def addrs_plug)
  then obtain t2 where t2: "rbNodeSetColor t1 (rootp (nil t) s1) BLACK = Inr t2" "tree_at t2 (plug cs1 (paint Black s1))" "reshapes A t1 t2"
    using SetColor_place [OF t1(2), of Black A] z1 by auto
  have "rbNodeFixDelete t (rootp (nil t) s) = Inr t2" using t1(1) t2(1) by (simp add: rbNodeFixDelete_def resolved_def)
  moreover have "same_content (plug cs s) (plug cs1 (paint Black s1))"
    using t1(4) same_content_trans same_content_plug same_content_paint by blast
  ultimately show ?thesis using t2(2) t1(3) reshapes_trans [OF t1(5) t2(3)] by blast
qed

end
