(* ===== verification/Parc_TreeUnlink.thy ===== *)
theory Parc_TreeUnlink
  imports Parc_TreeRemove
begin

text \<open>
  Taking a node out of the tree of \<^verbatim>\<open>parc_TreeRedBlack.c\<close>: a node with at most one child is replaced by it, any other one by
  its successor. The sentinel then knows the parent of the place that is to be repaired.
\<close>

section \<open>A node with at most one child\<close>

lemma modify_redirect_frames:
  "\<forall>a \<in> set (frame_addrs cs). p \<noteq> Some a \<Longrightarrow> x \<in> set (frame_addrs cs) \<Longrightarrow> modify f p (redirect cs q m) x = redirect cs q m x"
  by (auto simp: modify_def)

lemma replace_place:
  assumes t: "tree_at t (plug cs (join d s a c e r))"
  shows "(if root t = Some a then Inr (t\<lparr>root := p\<rparr>) else replace_child t (Some a) p) =
      Inr (t\<lparr>root := root_of p cs, tree_nodes := redirect cs p (tree_nodes t)\<rparr>)"
    and "root t = Some a \<longleftrightarrow> cs = []"
proof -
  note o = tree_at_plugD [OF t]
  show r: "root t = Some a \<longleftrightarrow> cs = []" using root_here [OF t] by simp
  have g: "get parent t (Some a) = Inr (upper (nil t) cs)" by (simp add: get_join [OF t])
  show "(if root t = Some a then Inr (t\<lparr>root := p\<rparr>) else replace_child t (Some a) p) =
      Inr (t\<lparr>root := root_of p cs, tree_nodes := redirect cs p (tree_nodes t)\<rparr>)"
  proof (cases "cs = []")
    case True
    then show ?thesis using r by (simp add: redirect_def)
  next
    case False
    have "frames_hold (tree_nodes t) (nil t) (Some a) cs" using o(2) by simp
    moreover have "a \<notin> set (frame_addrs cs)" "nil t \<noteq> Some a" using o(6) rootp_neq(6) [OF t] by auto
    ultimately have "replace_child t (Some a) p = Inr (t\<lparr>tree_nodes := redirect cs p (tree_nodes t)\<rparr>)"
      using relink [of t "nil t" a cs p] False g by (simp add: replace_child_def del: rbind_eq_Inr child_update.simps)
    moreover have "root_of p cs = root t" using o(3) False by (cases cs) (auto split: frame.split)
    ultimately show ?thesis using False r by simp
  qed
qed

text \<open>The only child \<open>x\<close>, which may be a tip, comes up.\<close>

definition lift_up :: "red_black_tree \<Rightarrow> frame list \<Rightarrow> rb_tree \<Rightarrow> red_black_tree" where
  "lift_up t cs x = t\<lparr>root := root_of (rootp (nil t) x) cs,
     tree_nodes := modify (parent_update (\<lambda>_. upper (nil t) cs)) (rootp (nil t) x) (redirect cs (rootp (nil t) x) (tree_nodes t))\<rparr>"

lemma lift_up_place:
  assumes t: "tree_at t (plug cs (join d x a c e Tip))"
  shows "tree_at (lift_up t cs x) (plug cs x)"
    "get parent (lift_up t cs x) (rootp (nil t) x) = Inr (upper (nil t) cs)"
    "reshapes (set (addrs (plug cs x)) \<union> set_option (nil t)) t (lift_up t cs x)"
    "tree_nodes (lift_up t cs x) a = Some (mk d (rootp (nil t) x) (nil t) (upper (nil t) cs) c e)"
proof -
  note o = tree_at_plugD [OF t]
  obtain n q where n: "nil t = Some n" "tree_nodes t n = Some q" "node_color q = BLACK" "n \<notin> set (addrs (join d x a c e Tip))"
    "n \<notin> set (frame_addrs cs)"
    using tree_at_nil [OF t] by metis
  let ?m = "tree_nodes (lift_up t cs x)"
  have m: "?m y = modify (parent_update (\<lambda>_. upper (nil t) cs)) (rootp (nil t) x) (tree_nodes t) y" if "y \<notin> set (frame_addrs cs)" for y
    using that by (simp add: lift_up_def modify_def redirect_other)
  have xr: "\<forall>y. Some y = rootp (nil t) x \<longrightarrow> y = n \<or> y \<in> set (addrs x)" using n(1) by (cases x) auto
  show tx: "tree_at (lift_up t cs x) (plug cs x)"
  proof (rule tree_at_replace [OF t])
    have "holds (tree_nodes t) (nil t) (Some a) x" "distinct (addrs x)" using o(1,4) by simp_all
    then show "holds ?m (nil t) (upper (nil t) cs) x"
      by (rule holds_reparent_cong) (use o(6) in \<open>auto intro: m\<close>)
    show "?m y = redirect cs (rootp (nil t) x) (tree_nodes t) y" if "y \<in> set (frame_addrs cs)" for y
      using that xr n(5) o(6) by (auto simp: lift_up_def modify_def)
    show "k \<notin> set (addrs x) \<and> (\<exists>q. ?m k = Some q \<and> node_color q = BLACK)" if "nil t = Some k" for k
      using that n by (auto simp: m modify_def)
  qed (use o(4,6) in \<open>auto simp: lift_up_def\<close>)
  have z: "nil (lift_up t cs x) = nil t" by (simp add: lift_up_def)
  show "get parent (lift_up t cs x) (rootp (nil t) x) = Inr (upper (nil t) cs)"
  proof (cases "x = Tip")
    case True
    then show ?thesis using n m [OF n(5)] by (simp add: get_def rb_at_def modify_def)
  next
    case False
    then show ?thesis using get_parent [OF tx] z by simp
  qed
  show "reshapes (set (addrs (plug cs x)) \<union> set_option (nil t)) t (lift_up t cs x)"
    using n(1) xr by (auto simp: reshapes_def lift_up_def addrs_plug modify_def redirect_other)
  have "a \<notin> set (frame_addrs cs)" "rootp (nil t) x \<noteq> Some a" using o(6) rootp_neq(2) [OF t] by auto
  then show "?m a = Some (mk d (rootp (nil t) x) (nil t) (upper (nil t) cs) c e)" using o(1) by (simp add: m modify_def)
qed

lemma lift_up_code:
  assumes t: "tree_at t (plug cs (join d x a c e Tip))"
  shows "rbind (if root t = Some a then Inr (t\<lparr>root := rootp (nil t) x\<rparr>) else replace_child t (Some a) (rootp (nil t) x)) (\<lambda>t1.
      rbind (get parent t1 (Some a)) (\<lambda>p. rbind (set_parent t1 (rootp (nil t) x) p) f)) = f (lift_up t cs x)"
proof -
  let ?t1 = "t\<lparr>root := root_of (rootp (nil t) x) cs, tree_nodes := redirect cs (rootp (nil t) x) (tree_nodes t)\<rparr>"
  note o = tree_at_plugD [OF t]
  have "a \<notin> set (frame_addrs cs)" using o(6) by auto
  then have p: "get parent ?t1 (Some a) = Inr (upper (nil t) cs)" using o(1) by (simp add: get_def rb_at_def redirect_other)
  obtain n q where "nil t = Some n" "tree_nodes t n = Some q" using tree_at_nil [OF t] by metis
  then obtain b where b: "rootp (nil t) x = Some b" "tree_nodes t b \<noteq> None" using o(1) by (cases x) auto
  then have "set_parent ?t1 (rootp (nil t) x) (upper (nil t) cs) = Inr (lift_up t cs x)" by (simp add: assign_modify lift_up_def del: not_None_eq)
  then show ?thesis using replace_place(1) [OF t, of "rootp (nil t) x"] p by simp
qed

lemma unlink_single_place:
  assumes "tree_at t (plug cs (join d x a c e Tip))"
  shows "unlink_single d t (Some a) = Inr (rootp (nil t) x, lift_up t cs x)"
  by (simp add: unlink_single_def get_join [OF assms] lift_up_code [OF assms] del: rbind_eq_Inr)

lemma unlink_leaf_place:
  assumes "tree_at t (plug cs (join d Tip a c e Tip))"
  shows "unlink_leaf t (Some a) = Inr (nil t, lift_up t cs Tip)"
proof -
  have "rbind (set_parent t1 (nil t1) p) (\<lambda>t2. Inr (nil t2, t2)) = rbind (set_parent t1 (nil t) p) (\<lambda>t2. Inr (nil t, t2))"
    if "nil t1 = nil t" for t1 p
    using that by (auto simp: assign_def rb_at_def split: option.split)
  moreover note r = replace_place(1) [OF assms, of "nil t"]
  moreover note lift_up_code [OF assms, of "\<lambda>t2. Inr (nil t, t2)", unfolded rootp.simps r]
  ultimately show ?thesis by (simp add: unlink_leaf_def del: rbind_eq_Inr)
qed

section \<open>A node with two children\<close>

lemma leftmost_place:
  assumes "tree_at t (plug cs s)" "s \<noteq> Tip"
  shows "\<exists>ls b c e x. s = plug ls (Bin Tip b c e x) \<and> before ls = [] \<and> leftmost_loop t (rootp (nil t) s) = Some (Inr (Some b))"
  using assms
proof (induction s arbitrary: cs)
  case (Bin l a c e r)
  have tj: "tree_at t (plug cs (join L l a c e r))" using Bin.prems(1) by simp
  have tl: "tree_at t (plug (Frame L a c e r # cs) l)" using tj by simp
  have g: "get left_child t (Some a) = Inr (rootp (nil t) l)" by (simp add: get_join [OF tj] mk_left_right)
  show ?case
  proof (cases "l = Tip")
    case True
    then have "leftmost_loop t (Some a) = Some (Inr (Some a))" using g by (subst leftmost_loop.simps) simp
    then show ?thesis using True by (intro exI [of _ "[]"] exI) auto
  next
    case False
    obtain ls b c1 e1 x where ls: "l = plug ls (Bin Tip b c1 e1 x)" "before ls = []" "leftmost_loop t (rootp (nil t) l) = Some (Inr (Some b))"
      using Bin.IH(1) [OF tl False] by blast
    have "leftmost_loop t (Some a) = Some (Inr (Some b))"
      using g ls(3) rootp_nil(1) [OF tl] False by (subst leftmost_loop.simps) simp
    moreover have "Bin l a c e r = plug (ls @ [Frame L a c e r]) (Bin Tip b c1 e1 x)" by (simp add: plug_append ls(1))
    moreover have "before (ls @ [Frame L a c e r]) = []" using ls(2) by (induction ls) (auto split: frame.splits side.splits)
    ultimately show ?thesis by (metis rootp.simps(2))
  qed
qed simp

lemma take_place_ok:
  assumes t: "tree_at t (plug cs (Bin l a c e r))" and b: "b \<notin> set (addrs (plug cs (Bin l a c e r)))" "nil t \<noteq> Some b"
    "tree_nodes t b = Some nb" and l: "l \<noteq> Tip"
  shows "\<exists>t1. take_place t (Some a) (Some b) = Inr t1 \<and> tree_at t1 (plug cs (Bin l b c (node_key nb, node_value nb) r)) \<and>
    get parent t1 (rootp (nil t) r) = Inr (Some b) \<and>
    reshapes (set (addrs (plug cs (Bin l b c e r))) \<union> (if r = Tip then set_option (nil t) else {})) t t1"
proof -
  have tj: "tree_at t (plug cs (join L l a c e r))" using t by simp
  note o = tree_at_plugD [OF tj]
  define z where "z = nil t"
  obtain n q where n: "z = Some n" "tree_nodes t n = Some q" "node_color q = BLACK" "n \<notin> set (addrs (join L l a c e r))" "n \<notin> set (frame_addrs cs)"
    using tree_at_nil [OF tj] z_def by metis
  have d: "a \<noteq> b" "b \<notin> set (addrs l)" "b \<notin> set (addrs r)" "b \<notin> set (frame_addrs cs)" "a \<notin> set (frame_addrs cs)" "n \<noteq> b" "n \<noteq> a"
    "a \<notin> set (addrs l)" "a \<notin> set (addrs r)"
    using b o(4,6) n by (auto simp: addrs_plug z_def)
  obtain la where la: "rootp z l = Some la" "la \<in> set (addrs l)" using l by (cases l) auto
  obtain ra where ra: "rootp z r = Some ra" "r = Tip \<and> ra = n \<or> r \<noteq> Tip \<and> ra \<in> set (addrs r)" using n(1) by (cases r) auto
  have lr: "la \<noteq> a" "la \<noteq> b" "ra \<noteq> a" "ra \<noteq> b" "la \<noteq> ra" "la \<notin> set (frame_addrs cs)" "ra \<notin> set (frame_addrs cs)" "la \<noteq> n"
    using la(2) ra(2) d n(4,5) o(4,6) by auto
  have ex: "tree_nodes t a = Some (mk L (Some la) (Some ra) (upper z cs) c e)" "tree_nodes t la \<noteq> None" "tree_nodes t ra \<noteq> None"
  proof -
    show "tree_nodes t a = Some (mk L (Some la) (Some ra) (upper z cs) c e)" using o(1) la(1) ra(1) by (simp add: z_def)
    show "tree_nodes t la \<noteq> None" using o(1) la(1) l by (cases l) (auto simp: z_def)
    show "tree_nodes t ra \<noteq> None" using o(1) ra n(1,2) by (cases r) (auto simp: z_def)
  qed
  define m1 where "m1 = redirect cs (Some b) (tree_nodes t)"
  define m2 where "m2 = modify (parent_update (\<lambda>_. upper z cs)) (Some b) m1"
  define m3 where "m3 = modify (child_update L (Some la)) (Some b) m2"
  define m4 where "m4 = modify (parent_update (\<lambda>_. Some b)) (Some la) m3"
  define m5 where "m5 = modify (child_update R (Some ra)) (Some b) m4"
  define m6 where "m6 = modify (parent_update (\<lambda>_. Some b)) (Some ra) m5"
  define m7 where "m7 = modify (node_color_update (\<lambda>_. hue_code c)) (Some b) m6"
  note ms = m7_def m6_def m5_def m4_def m3_def m2_def m1_def
  define t7 where "t7 = t\<lparr>root := root_of (Some b) cs, tree_nodes := m7\<rparr>"
  let ?s1 = "Bin l b c (node_key nb, node_value nb) r"
  have a1: "m1 a = tree_nodes t a" using d(5) by (simp add: m1_def redirect_other)
  have mx: "m7 x = (if x = b then Some (mk L (Some la) (Some ra) (upper z cs) c (node_key nb, node_value nb))
      else if x = la \<or> x = ra then map_option (parent_update (\<lambda>_. Some b)) (tree_nodes t x) else tree_nodes t x)"
    if "x \<notin> set (frame_addrs cs)" for x
    using that lr b(3) by (auto simp: ms modify_def redirect_other mk_def)
  have fx: "m7 x = redirect cs (Some b) (tree_nodes t) x" if "x \<in> set (frame_addrs cs)" for x
    using that lr(6,7) d(4) by (auto simp: ms modify_def)
  have code: "take_place t (Some a) (Some b) = Inr t7"
  proof -
    have p: "get parent t (Some a) = Inr (upper z cs)" using ex(1) by (simp add: get_def rb_at_def)
    let ?s = "\<lambda>m. t\<lparr>root := root_of (Some b) cs, tree_nodes := m\<rparr>"
    have "(if upper z cs = nil t then Inr (t\<lparr>root := Some b\<rparr>) else replace_child t (Some a) (Some b)) = Inr (?s m1)"
      using replace_place(1) [OF tj, of "Some b"] replace_place(2) [OF tj] rootp_nil(2) [OF tj] by (simp add: m1_def z_def)
    moreover have "m1 a = tree_nodes t a" "m2 a = tree_nodes t a" "m4 a = tree_nodes t a" "m6 a = tree_nodes t a"
      using d lr by (simp_all add: ms modify_def redirect_other)
    then have "get parent (?s m1) (Some a) = Inr (upper z cs)" "get left_child (?s m2) (Some a) = Inr (Some la)"
      "get right_child (?s m4) (Some a) = Inr (Some ra)" "get node_color (?s m6) (Some a) = Inr (hue_code c)"
      using ex(1) by (simp_all add: get_def rb_at_def mk_left_right)
    moreover have "set_parent (?s m1) (Some b) (upper z cs) = Inr (?s m2)" "set_child L (?s m2) (Some b) (Some la) = Inr (?s m3)"
      "set_parent (?s m3) (Some la) (Some b) = Inr (?s m4)" "set_child R (?s m4) (Some b) (Some ra) = Inr (?s m5)"
      "set_parent (?s m5) (Some ra) (Some b) = Inr (?s m6)" "rbNodeSetColor (?s m6) (Some b) (hue_code c) = Inr (?s m7)"
      using b(3) ex(2,3) by (simp_all add: assign_modify rbNodeSetColor_def ms del: not_None_eq)
    moreover have "get parent (?s m7) (Some b) = Inr (upper z cs)" using mx [of b] d(4) by (simp add: get_def rb_at_def)
    moreover have "(if upper z cs = nil (?s m7) then (?s m7)\<lparr>root := Some b\<rparr> else ?s m7) = ?s m7"
      using rootp_nil(2) [OF tj] by (auto simp: z_def)
    ultimately show ?thesis using p by (simp add: take_place_def t7_def rbNodeColor_def del: child_update.simps rbind_eq_Inr)
  qed
  have "tree_at t7 (plug cs ?s1)"
  proof (rule tree_at_replace [OF t])
    have l7: "holds m7 z (Some b) l"
    proof (rule holds_reparent_cong)
      show "holds (tree_nodes t) z (Some a) l" "distinct (addrs l)" using o(1,4) by (simp_all add: z_def)
      show "m7 x = modify (parent_update (\<lambda>_. Some b)) (rootp z l) (tree_nodes t) x" if "x \<in> set (addrs l)" for x
      proof -
        have "x \<notin> set (frame_addrs cs)" "x \<noteq> b" "x \<noteq> ra" using that o(4,6) d(2) ra(2) n(4) by auto
        then show ?thesis by (simp add: mx modify_def la(1))
      qed
    qed
    have r7: "holds m7 z (Some b) r"
    proof (rule holds_reparent_cong)
      show "holds (tree_nodes t) z (Some a) r" "distinct (addrs r)" using o(1,4) by (simp_all add: z_def)
      show "m7 x = modify (parent_update (\<lambda>_. Some b)) (rootp z r) (tree_nodes t) x" if "x \<in> set (addrs r)" for x
      proof -
        have "x \<notin> set (frame_addrs cs)" "x \<noteq> b" "x \<noteq> la" using that o(4,6) d(3) la(2) by auto
        then show ?thesis by (simp add: mx modify_def ra(1))
      qed
    qed
    show "holds (tree_nodes t7) (nil t) (upper (nil t) cs) ?s1"
      using l7 r7 mx [of b] d(4) la(1) ra(1) by (simp add: t7_def z_def)
    show "tree_nodes t7 x = redirect cs (rootp (nil t) ?s1) (tree_nodes t) x" if "x \<in> set (frame_addrs cs)" for x
      using fx [OF that] by (simp add: t7_def)
    show "k \<notin> set (addrs ?s1) \<and> (\<exists>q. tree_nodes t7 k = Some q \<and> node_color q = BLACK)" if "nil t = Some k" for k
      using that n d(6) lr(8) by (auto simp: mx t7_def z_def)
  qed (use o(4,6) d in \<open>auto simp: t7_def\<close>)
  moreover have "get parent t7 (rootp (nil t) r) = Inr (Some b)"
    using mx [of ra] lr ex(3) ra(1) by (auto simp: get_def rb_at_def t7_def z_def)
  moreover have "reshapes (set (addrs (plug cs (Bin l b c e r))) \<union> (if r = Tip then set_option (nil t) else {})) t t7"
  proof -
    have "m7 x = tree_nodes t x" if "x \<notin> set (addrs (plug cs (Bin l b c e r))) \<union> (if r = Tip then set_option (nil t) else {})" for x
    proof -
      have "x \<notin> set (frame_addrs cs)" "x \<noteq> b" "x \<noteq> la" "x \<noteq> ra"
        using that la(2) ra(2) n(1) by (auto simp: addrs_plug z_def split: if_splits)
      then show ?thesis by (simp add: mx)
    qed
    then show ?thesis by (simp add: reshapes_def t7_def ms)
  qed
  ultimately show ?thesis using code by blast
qed

lemma unlink_double_place:
  assumes t: "tree_at t (plug cs (Bin l a c e r))" and lr: "l \<noteq> Tip" "r \<noteq> Tip"
  shows "\<exists>t1 ls b cb eb x. unlink_double t (Some a) = Inr (hue_code cb, rootp (nil t) x, t1) \<and>
    r = plug ls (Bin Tip b cb eb x) \<and> before ls = [] \<and> tree_at t1 (plug (ls @ Frame R b c eb l # cs) x) \<and>
    get parent t1 (rootp (nil t) x) = Inr (upper (nil t) (ls @ Frame R b c eb l # cs)) \<and>
    (\<exists>n. tree_nodes t1 a = Some n \<and> node_key n = fst e \<and> node_value n = snd e) \<and>
    reshapes (set (addrs (plug cs (Bin l a c e r))) \<union> set_option (nil t)) t t1"
proof -
  have tj: "tree_at t (plug cs (join L l a c e r))" using t by simp
  have tr: "tree_at t (plug (Frame R a c e l # cs) r)" using t by simp
  obtain ls b cb eb x where ls: "r = plug ls (Bin Tip b cb eb x)" "before ls = []" "leftmost_loop t (rootp (nil t) r) = Some (Inr (Some b))"
    using leftmost_place [OF tr lr(2)] by blast
  let ?F = "ls @ Frame R a c e l # cs" and ?A = "set (addrs (plug cs (Bin l a c e r))) \<union> set_option (nil t)"
  have tb: "tree_at t (plug ?F (join R x b cb eb Tip))" using t by (simp add: plug_append ls(1))
  have rd: "get right_child t (Some a) = Inr (rootp (nil t) r)" "rbNodeColor t (Some b) = Inr (hue_code cb)"
    "get right_child t (Some b) = Inr (rootp (nil t) x)" "root t \<noteq> Some b"
    using color_place [OF tb] replace_place(2) [OF tb] by (simp_all add: get_join [OF tj] get_join [OF tb] mk_left_right)
  let ?t2 = "lift_up t ?F x"
  note up = lift_up_place [OF tb]
  have z2: "nil ?t2 = nil t" by (simp add: lift_up_def)
  let ?r1 = "plug ls x"
  have t2: "tree_at ?t2 (plug cs (Bin l a c e ?r1))" using up(1) by (simp add: plug_append)
  have sub: "set (addrs (plug cs (Bin l a c e ?r1))) \<subseteq> set (addrs (plug cs (Bin l a c e r)))"
    "b \<in> set (addrs (plug cs (Bin l a c e r)))" "b \<notin> set (addrs (plug cs (Bin l a c e ?r1)))"
    using tree_at_plugD(4-6) [OF tb] by (auto simp: ls(1) addrs_plug)
  have nb: "nil ?t2 \<noteq> Some b" using rootp_neq(6) [OF tb] z2 by simp
  obtain t3 where t3: "take_place ?t2 (Some a) (Some b) = Inr t3" "tree_at t3 (plug cs (Bin l b c eb ?r1))"
    "get parent t3 (rootp (nil t) ?r1) = Inr (Some b)"
    "reshapes (set (addrs (plug cs (Bin l b c e ?r1))) \<union> (if ?r1 = Tip then set_option (nil t) else {})) ?t2 t3"
    using take_place_ok [OF t2 sub(3) nb up(4) lr(1)] unfolding z2 by auto
  have "rbind (replace_child t (Some b) (rootp (nil t) x)) (\<lambda>t1. rbind (get parent t1 (Some b)) (\<lambda>p.
      rbind (set_parent t1 (rootp (nil t) x) p) (\<lambda>t2. rbind (take_place t2 (Some a) (Some b)) (\<lambda>t3. Inr (hue_code cb, rootp (nil t) x, t3))))) =
      Inr (hue_code cb, rootp (nil t) x, t3)"
    using lift_up_code [OF tb, of "\<lambda>t2. rbind (take_place t2 (Some a) (Some b)) (\<lambda>t3. Inr (hue_code cb, rootp (nil t) x, t3))"] rd(4) t3(1)
    by (simp del: rbind_eq_Inr)
  then have code: "unlink_double t (Some a) = Inr (hue_code cb, rootp (nil t) x, t3)"
    using rd ls(3) by (simp add: unlink_double_def resolved_def del: rbind_eq_Inr)
  have at3: "tree_at t3 (plug (ls @ Frame R b c eb l # cs) x)" using t3(2) by (simp add: plug_append)
  have par: "get parent t3 (rootp (nil t) x) = Inr (upper (nil t) (ls @ Frame R b c eb l # cs))"
  proof (cases "x = Tip")
    case False
    then show ?thesis using get_parent [OF at3] reshapesD(1) [OF t3(4)] z2 by simp
  next
    case True
    show ?thesis
    proof (cases ls)
      case Nil
      then show ?thesis using t3(3) True by simp
    next
      case (Cons f fs)
      have "?r1 \<noteq> Tip"
      proof -
        obtain d q h k s where f: "f = Frame d q h k s" by (cases f)
        have "q \<in> set (addrs ?r1)" by (simp add: addrs_plug Cons f)
        then show ?thesis by auto
      qed
      moreover obtain n where n: "nil t = Some n" using t by (auto simp: tree_at_def)
      moreover have "n \<notin> set (addrs (plug cs (Bin l b c e ?r1)))"
        using t3(2) reshapesD(1) [OF t3(4)] z2 n by (auto simp: tree_at_def addrs_plug)
      ultimately have "tree_nodes t3 n = tree_nodes ?t2 n" using reshapesD(12) [OF t3(4)] by simp
      then show ?thesis using up(2) True n z2 by (auto simp: get_def rb_at_def Cons upper_def split: frame.split)
    qed
  qed
  have anode: "\<exists>n. tree_nodes t3 a = Some n \<and> node_key n = fst e \<and> node_value n = snd e"
  proof -
    have "a \<notin> set (addrs (plug cs (Bin l b c e ?r1)))" "nil t \<noteq> Some a"
      using tree_at_plugD(4-6) [OF t2] sub(2,3) tree_at_plugD(4-6) [OF tj] rootp_neq(6) [OF tj] by (auto simp: addrs_plug ls(1))
    then have "tree_nodes t3 a = tree_nodes ?t2 a" using reshapesD(12) [OF t3(4)] by auto
    then show ?thesis using tree_at_plugD(1) [OF t2] by simp
  qed
  have "reshapes ?A t ?t2" "reshapes ?A ?t2 t3"
    using up(3) t3(4) sub by (auto simp: reshapes_def plug_append addrs_plug ls(1))
  then have "reshapes ?A t t3" by (rule reshapes_trans)
  then show ?thesis using code ls(1,2) at3 par anode by blast
qed

section \<open>The removal of a node\<close>

text \<open>
  The tree without the node at \<open>a\<close>, which keeps its entry; \<open>x\<close> is the subtree at the place where a node of color \<open>h\<close> is missing.
\<close>

definition unlinked :: "red_black_tree \<Rightarrow> rb_tree \<Rightarrow> addr \<Rightarrow> entry \<Rightarrow> red_black_tree \<Rightarrow> frame list \<Rightarrow> rb_tree \<Rightarrow> hue \<Rightarrow> bool" where
  "unlinked t s a e t1 cs x h \<longleftrightarrow> tree_at t1 (plug cs x) \<and> get parent t1 (rootp (nil t) x) = Inr (upper (nil t) cs) \<and>
    set (addrs (plug cs x)) = set (addrs s) - {a} \<and> (\<exists>n. tree_nodes t1 a = Some n \<and> node_key n = fst e \<and> node_value n = snd e) \<and>
    reshapes (set (addrs s) \<union> set_option (nil t)) t t1 \<and>
    (if h = Black then balanced (paint Black x) \<and> fits (Suc (black_height x)) Black cs else red_black (plug cs x))"

lemma unlinked_single:
  assumes t: "tree_at t (plug cs (join d x a c e Tip))" and r: "red_black (plug cs (join d x a c e Tip))"
  shows "unlinked t (plug cs (join d x a c e Tip)) a e (lift_up t cs x) cs x c"
proof -
  note up = lift_up_place [OF t] and o = tree_at_plugD(4-6) [OF t]
  have b: "balanced x" "black_height x = 0" "c = Red \<longrightarrow> hue_of x = Black" "fits (if c = Black then 1 else 0) c cs"
    using r by (auto simp: red_black_plug black_height_join)
  have "if c = Black then balanced (paint Black x) \<and> fits (Suc (black_height x)) Black cs else red_black (plug cs x)"
    using b fits_Red [of 0 cs] by (cases c) (auto simp: red_black_plug)
  moreover have "set (addrs (plug cs x)) = set (addrs (plug cs (join d x a c e Tip))) - {a}" using o by (auto simp: addrs_plug)
  moreover have "reshapes (set (addrs (plug cs (join d x a c e Tip))) \<union> set_option (nil t)) t (lift_up t cs x)"
    using up(3) by (auto simp: reshapes_def addrs_plug)
  ultimately show ?thesis using up(1,2,4) by (simp add: unlinked_def)
qed

lemma unlink_place:
  assumes t: "tree_at t (plug cs (Bin l a c e r))" and rb: "red_black (plug cs (Bin l a c e r))"
  shows "\<exists>t1 ds x h. unlink t (Some a) = Inr (hue_code h, rootp (nil t) x, t1) \<and> unlinked t (plug cs (Bin l a c e r)) a e t1 ds x h \<and>
    inorder (plug ds x) = (before cs @ inorder l) @ inorder r @ behind cs"
proof -
  have tj: "tree_at t (plug cs (join L l a c e r))" using t by simp
  have tl: "tree_at t (plug (Frame L a c e r # cs) l)" "tree_at t (plug (Frame R a c e l # cs) r)" using t by simp_all
  have rd: "rbNodeColor t (Some a) = Inr (hue_code c)" "get left_child t (Some a) = Inr (rootp (nil t) l)"
    "get right_child t (Some a) = Inr (rootp (nil t) r)" "rootp (nil t) l = nil t \<longleftrightarrow> l = Tip" "rootp (nil t) r = nil t \<longleftrightarrow> r = Tip"
    using color_place [OF tj] rootp_nil(1) [OF tl(1)] rootp_nil(1) [OF tl(2)] by (simp_all add: get_join [OF tj] mk_left_right)
  show ?thesis
  proof (cases "l = Tip \<or> r = Tip")
    case True
    then obtain d x where x: "Bin l a c e r = join d x a c e Tip" "unlink t (Some a) = Inr (hue_code c, rootp (nil t) x, lift_up t cs x)"
    proof (elim disjE)
      assume l: "l = Tip"
      have j: "tree_at t (plug cs (join R r a c e Tip))" using t l by simp
      show ?thesis
        using that [of R r] l rd unlink_single_place [OF j] unlink_leaf_place [of t cs R a c e] t by (cases "r = Tip") (simp_all add: unlink_def)
    next
      assume r: "r = Tip"
      have j: "tree_at t (plug cs (join L l a c e Tip))" using t r by simp
      show ?thesis
        using that [of L l] r rd unlink_single_place [OF j] unlink_leaf_place [of t cs L a c e] t by (cases "l = Tip") (simp_all add: unlink_def)
    qed
    have "inorder (plug cs x) = (before cs @ inorder l) @ inorder r @ behind cs"
      using x(1) by (cases d) (auto simp: inorder_plug)
    then show ?thesis using x unlinked_single [of t cs d x a c e] t rb by auto
  next
    case False
    obtain t1 ls b cb eb x where u: "unlink_double t (Some a) = Inr (hue_code cb, rootp (nil t) x, t1)"
      "r = plug ls (Bin Tip b cb eb x)" "before ls = []" "tree_at t1 (plug (ls @ Frame R b c eb l # cs) x)"
      "get parent t1 (rootp (nil t) x) = Inr (upper (nil t) (ls @ Frame R b c eb l # cs))"
      "\<exists>n. tree_nodes t1 a = Some n \<and> node_key n = fst e \<and> node_value n = snd e"
      "reshapes (set (addrs (plug cs (Bin l a c e r))) \<union> set_option (nil t)) t t1"
      using unlink_double_place [OF t] False by blast
    let ?ds = "ls @ Frame R b c eb l # cs"
    have "unlink t (Some a) = Inr (hue_code cb, rootp (nil t) x, t1)" using rd False u(1) by (simp add: unlink_def)
    moreover have "inorder (plug ?ds x) = (before cs @ inorder l) @ inorder r @ behind cs"
      using u(3) by (simp add: inorder_plug around_append u(2))
    moreover have "set (addrs (plug ?ds x)) = set (addrs (plug cs (Bin l a c e r))) - {a}"
      using tree_at_plugD(4-6) [OF tj] by (auto simp: u(2) addrs_plug distinct_plug)
    moreover have "if cb = Black then balanced (paint Black x) \<and> fits (Suc (black_height x)) Black ?ds else red_black (plug ?ds x)"
    proof -
      have "red_black (plug (ls @ Frame R a c e l # cs) (Bin Tip b cb eb x))" using rb by (simp add: u(2) plug_append)
      then have "balanced x" "black_height x = 0" "cb = Red \<longrightarrow> hue_of x = Black" "fits (if cb = Black then 1 else 0) cb ?ds"
        by (auto simp: red_black_plug fits_other [of _ _ ls R a c e l cs b eb])
      then show ?thesis using fits_Red [of 0 ?ds] by (cases cb) (auto simp: red_black_plug)
    qed
    ultimately show ?thesis using u(4-7) unfolding unlinked_def by blast
  qed
qed

text \<open>After the removal the node is still in the memory, for its key and value are used.\<close>

lemma rbNodeRemove_ok:
  assumes s: "search_tree t (plug cs (Bin l a c e r))" and rb: "red_black (plug cs (Bin l a c e r))"
    and len: "length (inorder (plug cs (Bin l a c e r))) < 2147483648"
  shows "\<exists>t1 s1 n. rbNodeRemove t (Some a) = Inr t1 \<and> search_tree t1 s1 \<and> red_black s1 \<and>
    inorder s1 = (before cs @ inorder l) @ inorder r @ behind cs \<and> set (addrs s1) = set (addrs (plug cs (Bin l a c e r))) - {a} \<and>
    tree_nodes t1 a = Some n \<and> node_key n = fst e \<and> node_value n = snd e \<and> settings t1 = settings t \<and> freed t1 = freed t \<and>
    unused t1 = unused t \<and> dom (tree_nodes t1) = dom (tree_nodes t) \<and> nil t1 = nil t"
proof -
  let ?s = "plug cs (Bin l a c e r)"
  have t: "tree_at t ?s" and cmp: "comparison (keyCompare t)" and ord: "ordered_entries (keyCompare t) (inorder ?s)"
    and sz: "tree_size t = int (length (inorder ?s))" using s by (simp_all add: search_tree_def)
  obtain t1 ds x h where u: "unlink t (Some a) = Inr (hue_code h, rootp (nil t) x, t1)" "unlinked t ?s a e t1 ds x h"
    "inorder (plug ds x) = (before cs @ inorder l) @ inorder r @ behind cs"
    using unlink_place [OF t rb] by blast
  note d = u(2) [unfolded unlinked_def]
  have r1: "reshapes (set (addrs ?s) \<union> set_option (nil t)) t t1" using d by blast
  note f1 = reshapesD [OF r1]
  let ?t2 = "t1\<lparr>tree_size := tree_size t1 - 1\<rparr>"
  have c2: "count_nodes (- 1) t1 = Inr ?t2" using f1(2) sz len by (simp add: count_nodes_def inorder_plug)
  have s2: "search_tree ?t2 (plug ds x)"
  proof -
    have "tree_at t1 (plug ds x)" using d by blast
    then have "tree_at ?t2 (plug ds x)" by (simp add: tree_at_def)
    moreover have "ordered_entries (keyCompare t) ((before cs @ inorder l) @ inorder r @ behind cs)"
      using ordered_entries_remove [of "keyCompare t" "before cs @ inorder l" e "inorder r @ behind cs"] ord [unfolded inorder_plug] by simp
    moreover have "tree_size t = int (length ((before cs @ inorder l) @ inorder r @ behind cs)) + 1" using sz by (simp add: inorder_plug)
    ultimately show ?thesis using cmp f1(2,3) by (simp add: search_tree_def u(3))
  qed
  let ?A = "set (addrs (plug ds x))"
  have ins: "inside ?t2 (plug ds x) ?A" using s2 by (auto simp: inside_def search_tree_def tree_at_def)
  have "\<exists>t3 s3. (if hue_code h = BLACK then rbNodeFixDelete ?t2 (rootp (nil t) x) else Inr ?t2) = Inr t3 \<and> tree_at t3 s3 \<and> red_black s3 \<and>
      same_content (plug ds x) s3 \<and> reshapes ?A ?t2 t3"
  proof (cases h)
    case Black
    have "get parent ?t2 (rootp (nil t) x) = Inr (upper (nil t) ds)" using d by simp
    then have "short ?t2 ds x" using d Black s2 f1(1) by (simp add: short_def search_tree_def)
    from rbNodeFixDelete_repairs [OF this s2 ins] show ?thesis using Black f1(1) by simp
  next
    case Red
    then show ?thesis using d s2 by (intro exI [of _ ?t2] exI [of _ "plug ds x"]) (simp add: search_tree_def)
  qed
  then obtain t3 s3 where t3: "(if hue_code h = BLACK then rbNodeFixDelete ?t2 (rootp (nil t) x) else Inr ?t2) = Inr t3" "tree_at t3 s3"
    "red_black s3" "same_content (plug ds x) s3" "reshapes ?A ?t2 t3" by blast
  have s3: "search_tree t3 s3" using search_tree_step [OF s2 t3(2,4,5)] .
  note f3 = reshapesD [OF t3(5)]
  have "rbNodeRemove t (Some a) = Inr t3"
    using tree_assertions [OF s] u(1) c2 tree_assertions [OF s2] t3(1) tree_assertions [OF s3]
    by (simp add: rbNodeRemove_def del: rbind_eq_Inr)
  moreover have "a \<notin> ?A" using d by simp
  then have "tree_nodes t3 a = tree_nodes t1 a" using f3(12) by simp
  moreover obtain n where "tree_nodes t1 a = Some n" "node_key n = fst e" "node_value n = snd e" using d by blast
  moreover have "settings ?t2 = settings t1" by (simp add: settings_def)
  then have "settings t3 = settings t" using reshapes_settings [OF r1] reshapes_settings [OF t3(5)] by simp
  moreover have "inorder s3 = (before cs @ inorder l) @ inorder r @ behind cs" "set (addrs s3) = set (addrs ?s) - {a}"
    using t3(4) u(3) d by (simp_all add: same_content_def)
  ultimately show ?thesis using s3 t3(3) f1(1,9,10,11) f3(1,9,10,11) by auto
qed

end
