(* ===== verification/Parc_TreeOps.thy ===== *)
theory Parc_TreeOps
  imports Parc_TreeUnlink "HOL-Library.Multiset"
begin

text \<open>
  The operations of \<^verbatim>\<open>parc_TreeRedBlack.c\<close> as those of a map that is kept as a sorted list of entries.
\<close>

section \<open>Reading\<close>

lemma holds_entriesD:
  assumes "holds_entries t xs"
  shows "comparison (keyCompare t)" "ordered_entries (keyCompare t) xs" "tree_size t = int (length xs)"
    "rbNodeAssertTreeInvariants t = Inr ()" "root t \<noteq> nil t \<longleftrightarrow> xs \<noteq> []"
proof -
  obtain s where s: "search_tree t s" "inorder s = xs" using assms by (auto simp: holds_entries_def)
  then show "comparison (keyCompare t)" "ordered_entries (keyCompare t) xs" "tree_size t = int (length xs)"
    "rbNodeAssertTreeInvariants t = Inr ()"
    using tree_assertions by (auto simp: search_tree_def)
  have "tree_at t (plug [] s)" using s by (simp add: search_tree_def)
  from rootp_nil(3) [OF this] show "root t \<noteq> nil t \<longleftrightarrow> xs \<noteq> []" using s(2) by (cases s) auto
qed

lemma Get_entries:
  assumes r: "holds_entries t xs"
  shows "parcTreeRedBlack_Get t k = Inr (case entry_of (keyCompare t) k xs of None \<Rightarrow> None | Some e \<Rightarrow> snd e)"
proof -
  obtain s where s: "search_tree t s" "inorder s = xs" using r by (auto simp: holds_entries_def)
  note a = holds_entriesD(4) [OF r]
  from s(1) show ?thesis
  proof (cases rule: find_from_root [where k = k])
    case (absent cs)
    have "xs = before cs @ behind cs" using s(2) absent(2) by (simp add: inorder_plug)
    then show ?thesis using a absent(1) around_absent(1) [OF absent(3)] by (simp add: parcTreeRedBlack_Get_def resolved_def)
  next
    case (present cs l b c e r)
    have j: "tree_at t (plug cs (join L l b c e r))" using s(1) present(2) by (simp add: search_tree_def)
    have "nil t \<noteq> Some b" "get node_value t (Some b) = Inr (snd e)" using rootp_neq(6) [OF j] by (simp_all add: get_join [OF j])
    moreover have "xs = (before cs @ inorder l) @ e # inorder r @ behind cs" using s(2) present(2) by (simp add: inorder_plug)
    then have "entry_of (keyCompare t) k xs = Some e" using around_present(1) [OF present(4,3)] by simp
    ultimately show ?thesis using a present(1) by (simp add: parcTreeRedBlack_Get_def resolved_def)
  qed
qed

lemma rightmost_place:
  assumes "tree_at t (plug cs s)" "s \<noteq> Tip"
  shows "\<exists>p. rightmost_loop t (rootp (nil t) s) = Some (Inr p) \<and> get node_key t p = Inr (fst (last (inorder s)))"
  using assms
proof (induction s arbitrary: cs)
  case (Bin l a c e r)
  have tj: "tree_at t (plug cs (join L l a c e r))" using Bin.prems(1) by simp
  have tr: "tree_at t (plug (Frame R a c e l # cs) r)" using tj by simp
  have g: "get right_child t (Some a) = Inr (rootp (nil t) r)" "get node_key t (Some a) = Inr (fst e)"
    by (simp_all add: get_join [OF tj] mk_left_right)
  show ?case
  proof (cases "r = Tip")
    case True
    then have "rightmost_loop t (Some a) = Some (Inr (Some a))" using g by (subst rightmost_loop.simps) simp
    then show ?thesis using g True by auto
  next
    case False
    then have "inorder r \<noteq> []" by (cases r) auto
    moreover have "rightmost_loop t (Some a) = rightmost_loop t (rootp (nil t) r)"
      using g rootp_nil(1) [OF tr] False by (subst rightmost_loop.simps) simp
    ultimately show ?thesis using Bin.IH(2) [OF tr False] by auto
  qed
qed simp

lemma First_Last_entries:
  assumes r: "holds_entries t xs"
  shows "parcTreeRedBlack_FirstKey t = Inr (if xs = [] then None else fst (hd xs))"
    "parcTreeRedBlack_LastKey t = Inr (if xs = [] then None else fst (last xs))"
proof -
  obtain s where s: "search_tree t s" "inorder s = xs" using r by (auto simp: holds_entries_def)
  have t: "tree_at t (plug [] s)" and root: "root t = rootp (nil t) s" using s(1) by (simp_all add: search_tree_def tree_at_def)
  note d = holds_entriesD [OF r]
  have "\<exists>p. leftmost_loop t (root t) = Some (Inr p) \<and> get node_key t p = Inr (fst (hd xs))" if "xs \<noteq> []"
  proof -
    have "s \<noteq> Tip" using that s(2) by auto
    from leftmost_place [OF t this] obtain ls b c e x where ls: "s = plug ls (Bin Tip b c e x)" "before ls = []"
      "leftmost_loop t (rootp (nil t) s) = Some (Inr (Some b))" by blast
    have j: "tree_at t (plug ls (join L Tip b c e x))" using t ls(1) by simp
    have "get node_key t (Some b) = Inr (fst e)" by (simp add: get_join [OF j])
    moreover have "hd xs = e" using s(2) ls(1,2) by (auto simp: inorder_plug)
    ultimately show ?thesis using ls(3) root by simp
  qed
  then show "parcTreeRedBlack_FirstKey t = Inr (if xs = [] then None else fst (hd xs))"
    using d(3,4) by (auto simp: parcTreeRedBlack_FirstKey_def resolved_def)
  have "\<exists>p. rightmost_loop t (root t) = Some (Inr p) \<and> get node_key t p = Inr (fst (last xs))" if "xs \<noteq> []"
  proof -
    have "s \<noteq> Tip" using that s(2) by auto
    from rightmost_place [OF t this] show ?thesis using root s(2) by simp
  qed
  then show "parcTreeRedBlack_LastKey t = Inr (if xs = [] then None else fst (last xs))"
    using d(3,4) by (auto simp: parcTreeRedBlack_LastKey_def resolved_def)
qed

section \<open>Removal\<close>

lemma holds_entriesI:
  assumes "search_tree t s" "red_black s" "owns t s"
  shows "holds_entries t (inorder s)"
  using assms by (auto simp: holds_entries_def)

text \<open>The node that has been taken out is deallocated at last.\<close>

lemma deallocate_entries:
  assumes s: "search_tree t1 s1" "red_black s1" and a: "a \<notin> set (addrs s1)" "nil t1 \<noteq> Some a"
    and d: "dom (tree_nodes t1) = insert a (insert (the (nil t1)) (set (addrs s1)))" "\<forall>x \<in> dom (tree_nodes t1). x < unused t1"
  shows "holds_entries (deallocate (t1\<lparr>freed := fs\<rparr>) (Some a)) (inorder s1)"
    "settings (deallocate (t1\<lparr>freed := fs\<rparr>) (Some a)) = settings t1" "freed (deallocate (t1\<lparr>freed := fs\<rparr>) (Some a)) = fs"
proof -
  let ?t2 = "deallocate (t1\<lparr>freed := fs\<rparr>) (Some a)"
  have t1: "tree_at t1 s1" using s(1) by (simp add: search_tree_def)
  have "tree_at ?t2 s1"
  proof (rule tree_at_frame [OF t1])
    show "tree_nodes ?t2 x = tree_nodes t1 x" if "x \<in> set (addrs s1)" for x using that a(1) by (auto simp: deallocate_def)
    show "tree_nodes ?t2 x = tree_nodes t1 x" if "nil t1 = Some x" for x using that a(2) by (auto simp: deallocate_def)
  qed (simp_all add: deallocate_def)
  then have "search_tree ?t2 s1" using s(1) by (simp add: search_tree_def deallocate_def)
  moreover have "owns ?t2 s1"
  proof -
    obtain n where "nil t1 = Some n" using t1 by (auto simp: tree_at_def)
    then show ?thesis using a d by (auto simp: owns_def deallocate_def)
  qed
  ultimately show "holds_entries ?t2 (inorder s1)" using holds_entriesI s(2) by blast
  show "settings ?t2 = settings t1" "freed ?t2 = fs" by (simp_all add: settings_def deallocate_def)
qed

lemma remove_present:
  assumes s: "search_tree t (plug cs (Bin l a c e r))" "red_black (plug cs (Bin l a c e r))" "owns t (plug cs (Bin l a c e r))"
    and len: "length (inorder (plug cs (Bin l a c e r))) < 2147483648"
  shows "\<exists>t1 n. rbNodeRemove t (Some a) = Inr t1 \<and> rb_at t1 (Some a) = Inr n \<and> node_key n = fst e \<and> node_value n = snd e \<and>
    keyFree t1 = keyFree t \<and> valueFree t1 = valueFree t \<and> freed t1 = freed t \<and>
    (\<forall>fs. let t2 = deallocate (t1\<lparr>freed := fs\<rparr>) (Some a) in
      holds_entries t2 ((before cs @ inorder l) @ inorder r @ behind cs) \<and> settings t2 = settings t \<and> freed t2 = fs)"
proof -
  let ?s = "plug cs (Bin l a c e r)"
  obtain t1 s1 n where u: "rbNodeRemove t (Some a) = Inr t1" "search_tree t1 s1" "red_black s1"
    "inorder s1 = (before cs @ inorder l) @ inorder r @ behind cs" "set (addrs s1) = set (addrs ?s) - {a}"
    "tree_nodes t1 a = Some n" "node_key n = fst e" "node_value n = snd e" "settings t1 = settings t" "freed t1 = freed t"
    "unused t1 = unused t" "dom (tree_nodes t1) = dom (tree_nodes t)" "nil t1 = nil t"
    using rbNodeRemove_ok [OF s(1,2) len] by auto
  have tj: "tree_at t (plug cs (join L l a c e r))" using s(1) by (simp add: search_tree_def)
  have "nil t1 \<noteq> Some a" using rootp_neq(6) [OF tj] u(13) by simp
  moreover have "dom (tree_nodes t1) = insert a (insert (the (nil t1)) (set (addrs s1)))"
    using s(3) u(5,12,13) by (auto simp: owns_def addrs_plug)
  moreover have "\<forall>x \<in> dom (tree_nodes t1). x < unused t1" using s(3) u(11,12) by (simp add: owns_def)
  moreover have "a \<notin> set (addrs s1)" using u(5) by simp
  ultimately show ?thesis
    using deallocate_entries [OF u(2,3)] u(1,4,6-10) by (auto simp: rb_at_def Let_def settings_def)
qed

lemma Remove_entries:
  assumes r: "holds_entries t xs" and k: "k \<noteq> None" and len: "length xs < 2147483648"
  shows "\<exists>t1. parcTreeRedBlack_Remove t k = Inr (case entry_of (keyCompare t) k xs of None \<Rightarrow> None | Some e \<Rightarrow> snd e, t1) \<and>
    holds_entries t1 (remove_entry (keyCompare t) k xs) \<and> settings t1 = settings t \<and>
    freed t1 = freed t @ (case entry_of (keyCompare t) k xs of None \<Rightarrow> [] | Some e \<Rightarrow> if keyFree t then [fst e] else [])"
    "\<exists>t1. parcTreeRedBlack_RemoveAndDestroy t k = Inr t1 \<and>
    holds_entries t1 (remove_entry (keyCompare t) k xs) \<and> settings t1 = settings t \<and>
    freed t1 = freed t @ (case entry_of (keyCompare t) k xs of None \<Rightarrow> [] | Some e \<Rightarrow> freed_entry t e)"
proof -
  let ?c = "keyCompare t"
  obtain s where s: "search_tree t s" "red_black s" "owns t s" "inorder s = xs" using r by (auto simp: holds_entries_def)
  note a = holds_entriesD(4) [OF r]
  have "(\<exists>t1. parcTreeRedBlack_Remove t k = Inr (case entry_of ?c k xs of None \<Rightarrow> None | Some e \<Rightarrow> snd e, t1) \<and>
      holds_entries t1 (remove_entry ?c k xs) \<and> settings t1 = settings t \<and>
      freed t1 = freed t @ (case entry_of ?c k xs of None \<Rightarrow> [] | Some e \<Rightarrow> if keyFree t then [fst e] else [])) \<and>
    (\<exists>t1. parcTreeRedBlack_RemoveAndDestroy t k = Inr t1 \<and> holds_entries t1 (remove_entry ?c k xs) \<and> settings t1 = settings t \<and>
      freed t1 = freed t @ (case entry_of ?c k xs of None \<Rightarrow> [] | Some e \<Rightarrow> freed_entry t e))"
    using s(1)
  proof (cases rule: find_from_root [where k = k])
    case (absent cs)
    have "xs = before cs @ behind cs" using s(4) absent(2) by (simp add: inorder_plug)
    then have "entry_of ?c k xs = None" "remove_entry ?c k xs = xs" using around_absent(1,3) [OF absent(3)] by simp_all
    then show ?thesis
      using a absent(1) k r by (simp add: parcTreeRedBlack_Remove_def parcTreeRedBlack_RemoveAndDestroy_def resolved_def)
  next
    case (present cs l b c e r)
    have s1: "search_tree t (plug cs (Bin l b c e r))" "red_black (plug cs (Bin l b c e r))" "owns t (plug cs (Bin l b c e r))"
      using s(1-3) present(2) by simp_all
    have "tree_at t (plug cs (join L l b c e r))" using s1(1) by (simp add: search_tree_def)
    then have n: "nil t \<noteq> Some b" using rootp_neq(6) by blast
    have "xs = (before cs @ inorder l) @ e # inorder r @ behind cs" using s(4) present(2) by (simp add: inorder_plug)
    then have e: "entry_of ?c k xs = Some e" "remove_entry ?c k xs = (before cs @ inorder l) @ inorder r @ behind cs"
      using around_present(1,3) [OF present(4,3)] by simp_all
    have "length (inorder (plug cs (Bin l b c e r))) < 2147483648" using len s(4) present(2) by simp
    from remove_present [OF s1 this] obtain t1 q where u: "rbNodeRemove t (Some b) = Inr t1" "rb_at t1 (Some b) = Inr q"
      "node_key q = fst e" "node_value q = snd e" "keyFree t1 = keyFree t" "valueFree t1 = valueFree t" "freed t1 = freed t"
      and f: "\<And>fs. holds_entries (deallocate (t1\<lparr>freed := fs\<rparr>) (Some b)) ((before cs @ inorder l) @ inorder r @ behind cs)"
        "\<And>fs. settings (deallocate (t1\<lparr>freed := fs\<rparr>) (Some b)) = settings t" "\<And>fs. freed (deallocate (t1\<lparr>freed := fs\<rparr>) (Some b)) = fs"
      by (auto simp: Let_def)
    let ?fk = "freed t @ (if keyFree t then [fst e] else [])" and ?fe = "freed t @ freed_entry t e"
    have fk: "free_key t1 (fst e) = t1\<lparr>freed := ?fk\<rparr>" using u(5,7) by (simp add: free_key_def)
    have fe: "free_value (free_key t1 (fst e)) (snd e) = t1\<lparr>freed := ?fe\<rparr>" using u(5-7) by (simp add: free_entry_eq freed_entry_def)
    have "parcTreeRedBlack_Remove t k = Inr (snd e, deallocate (t1\<lparr>freed := ?fk\<rparr>) (Some b))"
      using a present(1) k n u holds_entriesD(4) [OF f(1)] fk by (simp add: parcTreeRedBlack_Remove_def resolved_def get_def Let_def)
    moreover have "parcTreeRedBlack_RemoveAndDestroy t k = Inr (deallocate (t1\<lparr>freed := ?fe\<rparr>) (Some b))"
      using present(1) k n u holds_entriesD(4) [OF f(1)] fe by (simp add: parcTreeRedBlack_RemoveAndDestroy_def resolved_def rbNodeFree_def)
    ultimately show ?thesis using f e by auto
  qed
  then show "\<exists>t1. parcTreeRedBlack_Remove t k = Inr (case entry_of (keyCompare t) k xs of None \<Rightarrow> None | Some e \<Rightarrow> snd e, t1) \<and>
      holds_entries t1 (remove_entry (keyCompare t) k xs) \<and> settings t1 = settings t \<and>
      freed t1 = freed t @ (case entry_of (keyCompare t) k xs of None \<Rightarrow> [] | Some e \<Rightarrow> if keyFree t then [fst e] else [])"
    "\<exists>t1. parcTreeRedBlack_RemoveAndDestroy t k = Inr t1 \<and>
      holds_entries t1 (remove_entry (keyCompare t) k xs) \<and> settings t1 = settings t \<and>
      freed t1 = freed t @ (case entry_of (keyCompare t) k xs of None \<Rightarrow> [] | Some e \<Rightarrow> freed_entry t e)"
    by blast+
qed

section \<open>Creation and destruction\<close>

lemma Create_entries:
  assumes "comparison c"
  shows "\<exists>t. parcTreeRedBlack_Create True True (Some c) kf kc ve vf vc = Inr t \<and> holds_entries t [] \<and>
    settings t = (c, kf, kc, vf, ve, vc) \<and> freed t = []"
proof -
  let ?n = "\<lparr>left_child = Some 0, right_child = Some 0, parent = Some 0, node_key = None, node_value = None, node_color = BLACK\<rparr>"
  let ?t = "\<lparr>root = Some 0, nil = Some 0, tree_size = 0, keyCompare = c, keyFree = kf, keyCopy = kc, valueFree = vf, valueEquals = ve,
    valueCopy = vc, tree_nodes = [0 \<mapsto> ?n], unused = 1, freed = []\<rparr>"
  have "parcTreeRedBlack_Create True True (Some c) kf kc ve vf vc = Inr ?t"
    by (simp add: parcTreeRedBlack_Create_def rbNodeCreate_def assign_def rb_at_def Let_def)
  moreover have "search_tree ?t Tip" using assms by (simp add: search_tree_def tree_at_def)
  then have "holds_entries ?t []" by (auto simp: holds_entries_def red_black_def owns_def intro!: exI [of _ Tip])
  ultimately show ?thesis by (auto simp: settings_def)
qed

primrec postorder :: "rb_tree \<Rightarrow> entry list" where
  "postorder Tip = []"
| "postorder (Bin l a c e r) = postorder l @ postorder r @ [e]"

lemma mset_postorder: "mset (postorder s) = mset (inorder s)"
  by (induction s) auto

text \<open>A tree whose subtree is freed: its nodes are gone and its entries freed.\<close>

definition gone :: "rb_tree \<Rightarrow> red_black_tree \<Rightarrow> red_black_tree" where
  "gone s t = t\<lparr>tree_size := tree_size t - int (length (inorder s)),
    tree_nodes := tree_nodes t |` (- set (addrs s)), freed := freed t @ concat (map (freed_entry t) (postorder s))\<rparr>"

lemma gone_fields [simp]:
  "nil (gone s t) = nil t" "tree_size (gone s t) = tree_size t - int (length (inorder s))" "freed_entry (gone s t) = freed_entry t"
  "tree_nodes (gone s t) = tree_nodes t |` (- set (addrs s))" "gone Tip t = t"
proof -
  have "tree_nodes t |` UNIV = tree_nodes t" by (simp add: restrict_map_def)
  then show "gone Tip t = t" by (simp add: gone_def)
qed (simp_all add: gone_def freed_entry_def fun_eq_iff)

lemma freed_entry_update [simp]:
  "freed_entry (t\<lparr>freed := f\<rparr>) = freed_entry t" "freed_entry (t\<lparr>tree_nodes := m\<rparr>) = freed_entry t"
  "freed_entry (t\<lparr>tree_size := i\<rparr>) = freed_entry t"
  by (simp_all add: freed_entry_def fun_eq_iff)

lemma free_gone:
  assumes "a \<notin> set (addrs l)" "a \<notin> set (addrs r)" "rb_at t (Some a) = Inr n" "node_key n = fst e" "node_value n = snd e"
  shows "rbNodeFree (gone r (gone l t)) (Some a) =
    Inr ((gone (Bin l a c e r) t)\<lparr>tree_size := tree_size t - int (length (inorder l)) - int (length (inorder r))\<rparr>)"
proof -
  have "rb_at (gone r (gone l t)) (Some a) = Inr n" using assms(1-3) by (simp add: rb_at_def)
  moreover have "(tree_nodes t |` (- set (addrs l)) |` (- set (addrs r)))(a := None) = tree_nodes t |` (- set (addrs (Bin l a c e r)))"
    by (auto simp: restrict_map_def fun_eq_iff)
  ultimately have "rbNodeFree (gone r (gone l t)) (Some a) =
      Inr ((gone r (gone l t))\<lparr>freed := freed (gone r (gone l t)) @ freed_entry t e,
        tree_nodes := tree_nodes t |` (- set (addrs (Bin l a c e r)))\<rparr>)"
    using assms(4,5) by (simp add: rbNodeFree_def free_entry_eq deallocate_def del: addrs.simps inorder.simps)
  then show ?thesis by (simp add: gone_def del: addrs.simps)
qed

lemma gone_Bin:
  assumes "a \<notin> set (addrs l)" "a \<notin> set (addrs r)" "rb_at t (Some a) = Inr n" "node_key n = fst e" "node_value n = snd e"
    and "tree_size t - int (length (inorder (Bin l a c e r))) \<ge> - 2147483648" "tree_size t \<le> 2147483647"
  shows "rbind (rbNodeFree (gone r (gone l t)) (Some a)) (count_nodes (- 1)) = Inr (gone (Bin l a c e r) t)"
proof -
  have "(gone (Bin l a c e r) t)\<lparr>tree_size := tree_size t - int (length (inorder l)) - int (length (inorder r)) - 1\<rparr> = gone (Bin l a c e r) t"
    by (simp add: gone_def algebra_simps)
  then show ?thesis using assms(6,7) free_gone [OF assms(1-5), of c] by (simp add: count_nodes_def)
qed

lemma free_place:
  assumes "s \<noteq> Tip" "holds (tree_nodes t) (nil t) p s" "distinct (addrs s)" "\<forall>a \<in> set (addrs s). nil t \<noteq> Some a"
    and "tree_size t - int (length (inorder s)) \<ge> - 2147483648" "tree_size t \<le> 2147483647"
  shows "rbNodeFreeRecursive t (rootp (nil t) s) = Some (Inr (gone s t))"
  using assms
proof (induction s arbitrary: t p)
  case (Bin l a c e r)
  have n: "rootp (nil t) l = nil t \<longleftrightarrow> l = Tip" "rootp (nil t) r = nil t \<longleftrightarrow> r = Tip"
  proof -
    show "rootp (nil t) l = nil t \<longleftrightarrow> l = Tip" using Bin.prems(4) by (cases l) fastforce+
    show "rootp (nil t) r = nil t \<longleftrightarrow> r = Tip" using Bin.prems(4) by (cases r) fastforce+
  qed
  have L: "(if rootp (nil t) l \<noteq> nil t then rbNodeFreeRecursive t (rootp (nil t) l) else Some (Inr t)) = Some (Inr (gone l t))"
  proof (cases "l = Tip")
    case False
    then show ?thesis using Bin.IH(1) [OF False, of t "Some a"] Bin.prems n(1) by simp
  qed simp
  have "holds (tree_nodes t) (nil t) (Some a) r" using Bin.prems(2) by simp
  moreover have "\<forall>x \<in> set (addrs r). tree_nodes (gone l t) x = tree_nodes t x"
    using Bin.prems(3) by (auto simp: restrict_map_def)
  ultimately have "holds (tree_nodes (gone l t)) (nil t) (Some a) r" using holds_agree by metis
  then have R: "(if rootp (nil t) r \<noteq> nil t then rbNodeFreeRecursive (gone l t) (rootp (nil t) r) else Some (Inr (gone l t))) =
      Some (Inr (gone r (gone l t)))"
    using Bin.IH(2) [of "gone l t" "Some a"] Bin.prems(3-6) n(2) by (cases "r = Tip") (simp_all del: gone_fields(4))
  have na: "a \<notin> set (addrs l)" "a \<notin> set (addrs r)" using Bin.prems(3) by auto
  have ma: "tree_nodes t a = Some (mk L (rootp (nil t) l) (rootp (nil t) r) p c e)" using Bin.prems(2) by simp
  have g: "get left_child t (Some a) = Inr (rootp (nil t) l)" "get right_child (gone l t) (Some a) = Inr (rootp (nil t) r)"
    "rb_at t (Some a) = Inr (mk L (rootp (nil t) l) (rootp (nil t) r) p c e)"
    using ma na by (simp_all add: get_def rb_at_def mk_left_right)
  show ?case using g(1,2) L R gone_Bin [OF na g(3)] Bin.prems(5,6) by (subst rbNodeFreeRecursive.simps) simp
qed simp

lemma Destroy_entries:
  assumes r: "holds_entries t xs" and len: "length xs < 2147483648"
  shows "\<exists>t1. parcTreeRedBlack_Destroy (Some t) = Inr t1 \<and> tree_nodes t1 = Map.empty \<and>
    mset (freed t1) = mset (freed t) + mset (concat (map (freed_entry t) xs))"
proof -
  obtain s where s: "search_tree t s" "owns t s" "inorder s = xs" using r by (auto simp: holds_entries_def)
  note d = holds_entriesD [OF r]
  obtain n where n: "nil t = Some n" "n \<notin> set (addrs s)" using s(1) by (auto simp: search_tree_def tree_at_def)
  let ?t1 = "gone s t"
  have "(if tree_size t > 0 then resolved (rbNodeFreeRecursive t (root t)) else Inr t) = Inr ?t1"
  proof (cases "s = Tip")
    case True
    then show ?thesis using d(3) s(3) by simp
  next
    case False
    have "holds (tree_nodes t) (nil t) (nil t) s" "distinct (addrs s)" "root t = rootp (nil t) s"
      using s(1) by (simp_all add: search_tree_def tree_at_def)
    moreover have "tree_size t > 0" using False d(3) s(3) by (cases s) auto
    moreover have "\<forall>a \<in> set (addrs s). nil t \<noteq> Some a" using n by auto
    ultimately show ?thesis
      using free_place [OF False, of t "nil t"] len d(3) s(3) by (simp add: resolved_def)
  qed
  then have "parcTreeRedBlack_Destroy (Some t) = Inr (deallocate ?t1 (nil ?t1))" using d(4) by (simp add: parcTreeRedBlack_Destroy_def)
  moreover have "tree_nodes (deallocate ?t1 (nil ?t1)) = Map.empty"
    using s(2) n by (auto simp: owns_def deallocate_def restrict_map_def fun_eq_iff)
  moreover have "mset (freed (deallocate ?t1 (nil ?t1))) = mset (freed t) + mset (concat (map (freed_entry t) xs))"
  proof -
    have "mset (concat (map (freed_entry t) ys)) = (\<Sum>e \<in># mset ys. mset (freed_entry t e))" for ys by (induction ys) simp_all
    then show ?thesis using mset_postorder [of s] s(3) by (simp add: deallocate_def gone_def)
  qed
  ultimately show ?thesis by blast
qed

end
