(* ===== verification/Parc_TreeEntries.thy ===== *)
theory Parc_TreeEntries
  imports Parc_TreeOps Parc_Simulation
begin

text \<open>
  What a client of \<^verbatim>\<open>parc_TreeRedBlack.c\<close> relies on: every sequence of calls behaves as on a map from keys to values, the
  tree stays shallow, its destruction frees every entry once, and the lists of keys and values, the copy and the comparison of
  trees are those of the map.
\<close>

section \<open>Sequences of calls\<close>

datatype tree_call =
    TreeInsert ptr ptr | TreeGet ptr | TreeRemove ptr | TreeRemoveAndDestroy ptr | TreeFirstKey | TreeLastKey | TreeSize

fun do_tree_call :: "red_black_tree \<Rightarrow> tree_call \<Rightarrow> (call_value \<times> red_black_tree) result" where
  "do_tree_call t (TreeInsert k v) = rbind (parcTreeRedBlack_Insert True t k v) (\<lambda>t1. Inr (Nothing, t1))"
| "do_tree_call t (TreeGet k) = rbind (parcTreeRedBlack_Get t k) (\<lambda>v. Inr (Pointer v, t))"
| "do_tree_call t (TreeRemove k) = rbind (parcTreeRedBlack_Remove t k) (\<lambda>(v, t1). Inr (Pointer v, t1))"
| "do_tree_call t (TreeRemoveAndDestroy k) = rbind (parcTreeRedBlack_RemoveAndDestroy t k) (\<lambda>t1. Inr (Nothing, t1))"
| "do_tree_call t TreeFirstKey = rbind (parcTreeRedBlack_FirstKey t) (\<lambda>k. Inr (Pointer k, t))"
| "do_tree_call t TreeLastKey = rbind (parcTreeRedBlack_LastKey t) (\<lambda>k. Inr (Pointer k, t))"
| "do_tree_call t TreeSize = rbind (parcTreeRedBlack_Size t) (\<lambda>n. Inr (Number n, t))"

text \<open>
  The specification: the entries sorted by key, and what the caller's free functions have got. \<open>kf\<close> and \<open>vf\<close> tell which of
  them there are; \<open>Remove\<close> hands the value out and frees the key.
\<close>

definition released :: "bool \<Rightarrow> bool \<Rightarrow> entry option \<Rightarrow> ptr list" where
  "released kf vf e = (case e of None \<Rightarrow> [] | Some (k, v) \<Rightarrow> (if kf then [k] else []) @ (if vf then [v] else []))"

definition value_of :: "entry option \<Rightarrow> ptr" where
  "value_of e = (case e of None \<Rightarrow> None | Some (k, v) \<Rightarrow> v)"

fun map_spec :: "(ptr \<Rightarrow> ptr \<Rightarrow> int) \<Rightarrow> bool \<Rightarrow> bool \<Rightarrow> entry list \<times> ptr list \<Rightarrow> tree_call \<Rightarrow> (call_value \<times> entry list \<times> ptr list) result" where
  "map_spec c kf vf (xs, fs) (TreeInsert k v) =
    (if k = None \<or> v = None then Inl AssertFailed
     else Inr (Nothing, put_entry c k v xs, fs @ released kf vf (entry_of c k xs)))"
| "map_spec c kf vf (xs, fs) (TreeGet k) = Inr (Pointer (value_of (entry_of c k xs)), xs, fs)"
| "map_spec c kf vf (xs, fs) (TreeRemove k) =
    (if k = None then Inl AssertFailed
     else Inr (Pointer (value_of (entry_of c k xs)), remove_entry c k xs, fs @ released kf False (entry_of c k xs)))"
| "map_spec c kf vf (xs, fs) (TreeRemoveAndDestroy k) =
    (if k = None then Inl AssertFailed
     else Inr (Nothing, remove_entry c k xs, fs @ released kf vf (entry_of c k xs)))"
| "map_spec c kf vf (xs, fs) TreeFirstKey = Inr (Pointer (if xs = [] then None else fst (hd xs)), xs, fs)"
| "map_spec c kf vf (xs, fs) TreeLastKey = Inr (Pointer (if xs = [] then None else fst (last xs)), xs, fs)"
| "map_spec c kf vf (xs, fs) TreeSize = Inr (Number (word_of_nat (length xs)), xs, fs)"

definition tree_represents ::
  "(ptr \<Rightarrow> ptr \<Rightarrow> int) \<Rightarrow> bool \<Rightarrow> bool \<Rightarrow> nat \<Rightarrow> red_black_tree \<Rightarrow> entry list \<times> ptr list \<Rightarrow> bool" where
  "tree_represents c kf vf n t x \<longleftrightarrow> holds_entries t (fst x) \<and> freed t = snd x \<and> keyCompare t = c \<and> keyFree t = kf \<and> valueFree t = vf \<and>
    length (fst x) + n < 2147483648"

lemma tree_representsI:
  assumes "holds_entries t1 ys" "settings t1 = settings t" "freed t1 = fs" "length ys + n < 2147483648"
  shows "tree_represents (keyCompare t) (keyFree t) (valueFree t) n t1 (ys, fs)"
  using assms by (simp add: tree_represents_def settings_def)

lemma length_put_entry: "length (put_entry c k v xs) \<le> Suc (length xs)"
proof (induction xs)
  case (Cons x xs)
  have "length (dropWhile P xs) \<le> length xs" for P :: "entry \<Rightarrow> bool" by (rule length_dropWhile_le)
  then show ?case using Cons by (auto simp: put_entry_def le_SucI)
qed (simp add: put_entry_def)

lemma length_remove_entry: "length (remove_entry c k xs) \<le> length xs"
  by (simp add: remove_entry_def)

lemma released_eq:
  "released (keyFree t) (valueFree t) e = (case e of None \<Rightarrow> [] | Some e \<Rightarrow> freed_entry t e)"
  "released kf False e = (case e of None \<Rightarrow> [] | Some e \<Rightarrow> if kf then [fst e] else [])"
  "value_of e = (case e of None \<Rightarrow> None | Some e \<Rightarrow> snd e)"
  by (auto simp: released_def value_of_def freed_entry_def split: option.split prod.split)

lemma Size_entries: "holds_entries t xs \<Longrightarrow> parcTreeRedBlack_Size t = Inr (word_of_nat (length xs))"
  using holds_entriesD(3,4) [of t xs] by (simp add: parcTreeRedBlack_Size_def)

lemma null_arguments:
  "parcTreeRedBlack_Insert g t None v = Inl AssertFailed" "parcTreeRedBlack_Insert g t k None = Inl AssertFailed"
  "parcTreeRedBlack_Remove t None = Inl AssertFailed" "parcTreeRedBlack_RemoveAndDestroy t None = Inl AssertFailed"
  by (cases "k = None"; simp add: parcTreeRedBlack_Insert_def parcTreeRedBlack_Remove_def parcTreeRedBlack_RemoveAndDestroy_def)+

lemma tree_call_agrees:
  assumes r: "tree_represents c kf vf (Suc n) t x"
  shows "agree (tree_represents c kf vf n) (do_tree_call t a) (map_spec c kf vf x a)"
proof -
  obtain xs where x: "x = (xs, freed t)" using r by (cases x) (auto simp: tree_represents_def)
  have h: "holds_entries t xs" and len: "Suc (length xs + n) < 2147483648" and st: "c = keyCompare t" "kf = keyFree t" "vf = valueFree t"
    using r x by (auto simp: tree_represents_def)
  have same: "tree_represents c kf vf n t (xs, freed t)" using h len st by (simp add: tree_represents_def)
  note st = st x released_eq and rep = tree_representsI [where t = t]
  show ?thesis
  proof (cases a)
    case (TreeInsert k v)
    have "agree (tree_represents (keyCompare t) (keyFree t) (valueFree t) n) (do_tree_call t (TreeInsert k v))
        (map_spec (keyCompare t) (keyFree t) (valueFree t) (xs, freed t) (TreeInsert k v))"
      using Insert_entries [OF h, of k v] length_put_entry [of "keyCompare t" k v xs] len
      by (cases "k = None"; cases "v = None") (auto simp: null_arguments released_eq intro!: rep)
    then show ?thesis using TreeInsert st by simp
  next
    case (TreeGet k)
    then show ?thesis using Get_entries [OF h, of k] same st by simp
  next
    case (TreeRemove k)
    have "agree (tree_represents (keyCompare t) (keyFree t) (valueFree t) n) (do_tree_call t (TreeRemove k))
        (map_spec (keyCompare t) (keyFree t) (valueFree t) (xs, freed t) (TreeRemove k))"
      using Remove_entries(1) [OF h, of k] length_remove_entry [of "keyCompare t" k xs] len
      by (cases "k = None") (auto simp: null_arguments released_eq intro!: rep)
    then show ?thesis using TreeRemove st by simp
  next
    case (TreeRemoveAndDestroy k)
    have "agree (tree_represents (keyCompare t) (keyFree t) (valueFree t) n) (do_tree_call t (TreeRemoveAndDestroy k))
        (map_spec (keyCompare t) (keyFree t) (valueFree t) (xs, freed t) (TreeRemoveAndDestroy k))"
      using Remove_entries(2) [OF h, of k] length_remove_entry [of "keyCompare t" k xs] len
      by (cases "k = None") (auto simp: null_arguments released_eq intro!: rep)
    then show ?thesis using TreeRemoveAndDestroy st by simp
  next
    case TreeFirstKey
    then show ?thesis using First_Last_entries(1) [OF h] same st by simp
  next
    case TreeLastKey
    then show ?thesis using First_Last_entries(2) [OF h] same st by simp
  next
    case TreeSize
    then show ?thesis using Size_entries [OF h] same st by simp
  qed
qed

interpretation tree_map: simulation do_tree_call "map_spec c kf vf" "tree_represents c kf vf"
  by unfold_locales (rule tree_call_agrees)

lemma calls_on_new_tree:
  assumes "comparison c" "length cs < 2147483648"
  shows "\<exists>t. parcTreeRedBlack_Create True True (Some c) kf kc ve vf vc = Inr t \<and>
    agree (tree_represents c kf vf 0) (run_all do_tree_call t cs) (run_all (map_spec c kf vf) ([], []) cs)"
proof -
  obtain t where t: "parcTreeRedBlack_Create True True (Some c) kf kc ve vf vc = Inr t" "holds_entries t []"
    "settings t = (c, kf, kc, vf, ve, vc)" "freed t = []"
    using Create_entries [OF assms(1)] by blast
  then have "tree_represents c kf vf (0 + length cs) t ([], [])" using assms(2) by (simp add: tree_represents_def settings_def)
  from tree_map.run_all_agrees [OF this] show ?thesis using t(1) by blast
qed

section \<open>Depth\<close>

text \<open>Following child pointers from a node, on the given sides, until the sentinel.\<close>

fun descent :: "red_black_tree \<Rightarrow> ptr \<Rightarrow> side list \<Rightarrow> ptr result" where
  "descent t p [] = Inr p"
| "descent t p (d # ds) = (if p = nil t then Inr p else rbind (get (child d) t p) (\<lambda>q. descent t q ds))"

lemma descent_height:
  assumes "tree_at t (plug cs s)" "descent t (rootp (nil t) s) ds = Inr p" "p \<noteq> nil t"
  shows "length ds < height s"
  using assms
proof (induction ds arbitrary: s cs)
  case Nil
  then show ?case by (cases s) simp_all
next
  case (Cons d ds)
  show ?case
  proof (cases s)
    case Tip
    then show ?thesis using Cons.prems(2,3) by simp
  next
    case (Bin l a c e r)
    have tj: "tree_at t (plug cs (join L l a c e r))" using Cons.prems(1) Bin by simp
    have z: "nil t \<noteq> Some a" using rootp_neq(6) [OF tj] .
    let ?u = "case d of L \<Rightarrow> l | R \<Rightarrow> r"
    let ?f = "case d of L \<Rightarrow> Frame L a c e r | R \<Rightarrow> Frame R a c e l"
    have "get (child d) t (Some a) = Inr (rootp (nil t) ?u)" by (cases d) (simp_all add: get_join [OF tj] mk_left_right)
    then have "descent t (rootp (nil t) ?u) ds = Inr p" using Cons.prems(2) Bin z by simp
    moreover have "tree_at t (plug (?f # cs) ?u)" using tj by (cases d) simp_all
    ultimately have "length ds < height ?u" using Cons.IH Cons.prems(3) by blast
    then show ?thesis using Bin by (cases d) auto
  qed
qed

lemma descent_bound:
  assumes r: "holds_entries t xs" and d: "descent t (root t) ds = Inr p" "p \<noteq> nil t"
  shows "2 ^ Suc (length ds) \<le> (Suc (length xs)) ^ 2"
proof -
  obtain s where s: "search_tree t s" "red_black s" "inorder s = xs" using r by (auto simp: holds_entries_def)
  have "tree_at t (plug [] s)" "root t = rootp (nil t) s" using s(1) by (simp_all add: search_tree_def tree_at_def)
  then have "Suc (length ds) \<le> height s" using descent_height d by (metis Suc_leI)
  then have "(2 :: nat) ^ Suc (length ds) \<le> 2 ^ height s" by (rule power_increasing) simp
  then show ?thesis using red_black_height [OF s(2)] s(3) by simp
qed

section \<open>What becomes of the entries\<close>

text \<open>The pointers that are given to the tree and the ones it hands out, by the calls and their results.\<close>

fun given :: "tree_call list \<Rightarrow> ptr list" where
  "given [] = []"
| "given (TreeInsert k v # cs) = k # v # given cs"
| "given (_ # cs) = given cs"

fun handed_out :: "tree_call list \<Rightarrow> call_value list \<Rightarrow> ptr list" where
  "handed_out (TreeRemove k # cs) (Pointer (Some v) # vs) = Some v # handed_out cs vs"
| "handed_out (_ # cs) (_ # vs) = handed_out cs vs"
| "handed_out _ _ = []"

definition contents :: "entry list \<Rightarrow> ptr multiset" where
  "contents xs = mset (concat (map (\<lambda>e. [fst e, snd e]) xs))"

lemma contents_simps [simp]:
  "contents [] = {#}" "contents (e # xs) = add_mset (fst e) (add_mset (snd e) (contents xs))" "contents (xs @ ys) = contents xs + contents ys"
  by (simp_all add: contents_def)

lemma entries_at_key:
  assumes "holds_entries t xs"
  obtains (absent) ps qs where "xs = ps @ qs" "around (keyCompare t) k ps qs"
  | (present) ps e qs where "xs = ps @ e # qs" "around (keyCompare t) k ps qs" "keyCompare t (fst e) k = 0" "snd e \<noteq> None"
proof -
  obtain s where s: "search_tree t s" "inorder s = xs" using assms by (auto simp: holds_entries_def)
  have o: "ordered_entries (keyCompare t) xs" using holds_entriesD(2) [OF assms] .
  from s(1) show thesis
  proof (cases rule: find_from_root [where k = k])
    case (absent cs)
    then show ?thesis using s(2) that(1) [of "before cs" "behind cs"] by (simp add: inorder_plug)
  next
    case (present cs l a c e r)
    then have xs: "xs = (before cs @ inorder l) @ e # inorder r @ behind cs" using s(2) by (simp add: inorder_plug)
    then have "snd e \<noteq> None" using o by (simp add: ordered_entries_append ordered_entries_Cons)
    then show ?thesis using that(2) [OF xs present(4,3)] by blast
  qed
qed

lemma call_conserves:
  assumes r: "tree_represents c True True (Suc n) t (xs, fs)" and a: "map_spec c True True (xs, fs) a = Inr (v, ys, gs)"
  shows "mset gs + contents ys + mset (handed_out [a] [v]) = mset fs + contents xs + mset (given [a])"
proof -
  have h: "holds_entries t xs" and c: "c = keyCompare t" using r by (simp_all add: tree_represents_def)
  have key: "mset (released True True (entry_of c k xs)) + contents (put_entry c k u xs) = contents xs + {#k, u#}"
    "mset (released True True (entry_of c k xs)) + contents (remove_entry c k xs) = contents xs"
    "mset (released True False (entry_of c k xs)) + contents (remove_entry c k xs) +
      mset (handed_out [TreeRemove k] [Pointer (value_of (entry_of c k xs))]) = contents xs" for k u
  proof -
    have "mset (released True True (entry_of c k xs)) + contents (put_entry c k u xs) = contents xs + {#k, u#} \<and>
      mset (released True True (entry_of c k xs)) + contents (remove_entry c k xs) = contents xs \<and>
      mset (released True False (entry_of c k xs)) + contents (remove_entry c k xs) +
        mset (handed_out [TreeRemove k] [Pointer (value_of (entry_of c k xs))]) = contents xs"
      using h
    proof (cases rule: entries_at_key [where k = k])
      case (absent ps qs)
      then show ?thesis using around_absent [OF absent(2)] c by (simp add: released_def value_of_def)
    next
      case (present ps e qs)
      then show ?thesis
        using around_present [OF present(2,3)] c by (auto simp: released_eq value_of_def freed_entry_def split: prod.splits) (auto simp: released_def split: prod.splits)
    qed
    then show "mset (released True True (entry_of c k xs)) + contents (put_entry c k u xs) = contents xs + {#k, u#}"
      "mset (released True True (entry_of c k xs)) + contents (remove_entry c k xs) = contents xs"
      "mset (released True False (entry_of c k xs)) + contents (remove_entry c k xs) +
        mset (handed_out [TreeRemove k] [Pointer (value_of (entry_of c k xs))]) = contents xs" by blast+
  qed
  show ?thesis
  proof (cases a)
    case (TreeInsert k u)
    then show ?thesis using a key(1) [of k u] by (auto split: if_splits)
  next
    case (TreeRemove k)
    then show ?thesis using a key(3) [of k] by (auto split: if_splits simp: add.assoc simp del: handed_out.simps)
  next
    case (TreeRemoveAndDestroy k)
    then show ?thesis using a key(2) [of k] by (auto split: if_splits)
  qed (use a in auto)
qed

lemma handed_out_Cons: "handed_out (a # cs) (v # vs) = handed_out [a] [v] @ handed_out cs vs"
proof (cases "\<exists>k p. a = TreeRemove k \<and> v = Pointer (Some p)")
  case False
  then have "handed_out (a # ds) (v # us) = handed_out ds us" for ds us by (cases "(a # ds, v # us)" rule: handed_out.cases) auto
  then show ?thesis by simp
qed auto

lemma given_Cons: "given (a # cs) = given [a] @ given cs"
  by (cases a) simp_all

lemma calls_conserve:
  assumes "tree_represents c True True (n + length cs) t (xs, fs)" "run_all do_tree_call t cs = Inr (vs, t1)"
  shows "\<exists>ys. tree_represents c True True n t1 (ys, freed t1) \<and>
    mset (freed t1) + contents ys + mset (handed_out cs vs) = mset fs + contents xs + mset (given cs)"
  using assms
proof (induction cs arbitrary: t xs fs vs)
  case Nil
  then show ?case by (auto simp: tree_represents_def)
next
  case (Cons a cs)
  obtain v t2 vs2 where c: "do_tree_call t a = Inr (v, t2)" "run_all do_tree_call t2 cs = Inr (vs2, t1)" "vs = v # vs2"
    using Cons.prems(2) by auto
  have r: "tree_represents c True True (Suc (n + length cs)) t (xs, fs)" using Cons.prems(1) by simp
  obtain ys gs where s: "map_spec c True True (xs, fs) a = Inr (v, ys, gs)" "tree_represents c True True (n + length cs) t2 (ys, gs)"
    using tree_call_agrees [OF r, of a] c(1) by (cases "map_spec c True True (xs, fs) a") auto
  obtain zs where z: "tree_represents c True True n t1 (zs, freed t1)"
    "mset (freed t1) + contents zs + mset (handed_out cs vs2) = mset gs + contents ys + mset (given cs)"
    using Cons.IH [OF s(2) c(2)] by blast
  have "mset (freed t1) + contents zs + mset (handed_out (a # cs) vs) =
      mset (handed_out [a] [v]) + (mset gs + contents ys + mset (given cs))"
    unfolding c(3) handed_out_Cons [of a cs v vs2] z(2) [symmetric] by simp
  also have "\<dots> = mset fs + contents xs + mset (given (a # cs))"
    using call_conserves [OF r s(1)] unfolding given_Cons [of a cs] mset_append by (metis (no_types, lifting) add.assoc add.commute)
  finally show ?case using z(1) by blast
qed

section \<open>Lists of keys and values\<close>

lemma AddAll_elems:
  "\<lbrakk>list_ok a; length (elems a) + length ps < 2 ^ 61\<rbrakk> \<Longrightarrow>
    \<exists>a1. fold_result (\<lambda>p l. parcArrayList_Add True l p) ps a = Inr a1 \<and> list_ok a1 \<and> elems a1 = elems a @ ps"
proof (induction ps arbitrary: a)
  case (Cons p ps)
  obtain a1 where "parcArrayList_Add True a p = Inr a1" "list_ok a1" "elems a1 = elems a @ [p]"
    using Add_elems [OF Cons.prems(1), of p] Cons.prems list_okD(2) [OF Cons.prems(1)] by auto
  then show ?case using Cons.IH [of a1] Cons.prems(2) by auto
qed simp

text \<open>What a traversal reads of the nodes.\<close>

lemma fold_reads:
  assumes "tree_at t (plug cs s)" and "\<And>x y p d e. f (mk L x y p d e) = g e"
  shows "fold_result (\<lambda>a d. rbind (get f t (Some a)) (h d)) (addrs s) r = fold_result (\<lambda>p d. h d p) (map g (inorder s)) r"
  using assms(1)
proof (induction s arbitrary: cs r)
  case (Bin l a c e r1)
  have tj: "tree_at t (plug cs (join L l a c e r1))" using Bin.prems by simp
  have tl: "tree_at t (plug (Frame L a c e r1 # cs) l)" "tree_at t (plug (Frame R a c e l # cs) r1)" using tj by simp_all
  have "fold_result (\<lambda>a d. rbind (get f t (Some a)) (h d)) (addrs r1) = fold_result (\<lambda>p d. h d p) (map g (inorder r1))"
    using Bin.IH(2) [OF tl(2)] by (simp add: fun_eq_iff)
  then show ?case
    using Bin.IH(1) [OF tl(1)]
    by (cases "fold_result (\<lambda>p d. h d p) (map g (inorder l)) r") (simp_all add: fold_result_append get_join [OF tj] assms(2))
qed simp

lemma entries_list:
  assumes r: "holds_entries t xs" and len: "length xs < 2 ^ 61" and f: "\<And>x y p d e. f (mk L x y p d e) = g e"
  shows "\<exists>a. rbind (parcArrayList_Create True False) (\<lambda>keys. if tree_size t > 0
      then resolved (rbNodeRecursiveRun t (root t) (\<lambda>node list. rbind (get f t node) (parcArrayList_Add True list)) keys) else Inr keys) = Inr a \<and>
    list_ok a \<and> elems a = map g xs"
proof -
  obtain s where s: "search_tree t s" "inorder s = xs" using r by (auto simp: holds_entries_def)
  let ?e = "\<lparr>array = None, numberOfElements = 0, limit = 0, equalsElement = None, destroyElement = False\<rparr>"
  have e: "parcArrayList_Create True False = Inr ?e" "list_ok ?e" "elems ?e = []"
    by (simp_all add: parcArrayList_Create_def list_ok_def elems_def cells_def)
  show ?thesis
  proof (cases "s = Tip")
    case True
    then show ?thesis using e s(2) holds_entriesD(3) [OF r] by auto
  next
    case False
    have t: "tree_at t (plug [] s)" "root t = rootp (nil t) s" using s(1) by (simp_all add: search_tree_def tree_at_def)
    have "tree_size t > 0" using False s(2) holds_entriesD(3) [OF r] by (cases s) auto
    moreover obtain a where "fold_result (\<lambda>p l. parcArrayList_Add True l p) (map g xs) ?e = Inr a" "list_ok a" "elems a = map g xs"
      using AddAll_elems [OF e(2), of "map g xs"] e(3) len by auto
    moreover have "rbNodeRecursiveRun t (root t) (\<lambda>node list. rbind (get f t node) (parcArrayList_Add True list)) ?e =
        Some (fold_result (\<lambda>p l. parcArrayList_Add True l p) (map g xs) ?e)"
      using fold_reads [OF t(1), of f g "parcArrayList_Add True"] f t(2) s(2) by (simp add: run_place [OF t(1) False])
    ultimately show ?thesis using e(1) by (simp add: resolved_def)
  qed
qed

lemma Keys_Values_entries:
  assumes r: "holds_entries t xs" and len: "length xs < 2 ^ 61"
  shows "\<exists>a. parcTreeRedBlack_Keys True t = Inr a \<and> list_ok a \<and> elems a = map fst xs"
    "\<exists>a. parcTreeRedBlack_Values True t = Inr a \<and> list_ok a \<and> elems a = map snd xs"
proof -
  have m: "node_key (mk L x y p d e) = fst e" "node_value (mk L x y p d e) = snd e" for x y p d e by simp_all
  have g: "rbGetKeys True t = (\<lambda>node list. rbind (get node_key t node) (parcArrayList_Add True list))"
    "rbGetValues True t = (\<lambda>node list. rbind (get node_value t node) (parcArrayList_Add True list))"
    by (simp_all add: rbGetKeys_def rbGetValues_def fun_eq_iff)
  show "\<exists>a. parcTreeRedBlack_Keys True t = Inr a \<and> list_ok a \<and> elems a = map fst xs"
    using entries_list [OF r len, of node_key fst] holds_entriesD(4) [OF r] m(1)
    unfolding parcTreeRedBlack_Keys_def g by (simp del: rbind_eq_Inr)
  show "\<exists>a. parcTreeRedBlack_Values True t = Inr a \<and> list_ok a \<and> elems a = map snd xs"
    using entries_list [OF r len, of node_value snd] holds_entriesD(4) [OF r] m(2)
    unfolding parcTreeRedBlack_Values_def g by (simp del: rbind_eq_Inr)
qed

section \<open>Comparison and copy\<close>

lemma list_index:
  assumes "list_ok a" "i < parcArrayList_Size a"
  shows "unat i < length (elems a)" "parcArrayList_Get a i = Inr (elems a ! unat i)" "unat (i + 1) = Suc (unat i)"
    "drop (unat i) (elems a) = elems a ! unat i # drop (Suc (unat i)) (elems a)"
proof -
  show l: "unat i < length (elems a)"
    using assms(2) list_okD(2) [OF assms(1)] by (simp add: parcArrayList_Size_def word_less_nat_alt)
  then show "parcArrayList_Get a i = Inr (elems a ! unat i)" "drop (unat i) (elems a) = elems a ! unat i # drop (Suc (unat i)) (elems a)"
    using Get_elems [OF assms(1)] by (simp_all add: Cons_nth_drop_Suc)
  show "unat (i + 1) = Suc (unat i)" using l list_okD(2,3) [OF assms(1)] unat_add_no_wrap [of i 1] by simp
qed

lemma equal_lists_from:
  assumes "list_ok a" "list_ok b" "parcArrayList_Size a = parcArrayList_Size b"
  shows "equal_lists f a b (parcArrayList_Size a) i = Inr (list_all2 f (drop (unat i) (elems a)) (drop (unat i) (elems b)))"
  using assms
proof (induction f a b "parcArrayList_Size a" i rule: equal_lists.induct)
  case (1 f a b i)
  show ?case
  proof (cases "i < parcArrayList_Size a")
    case True
    note x = list_index [OF 1(2) True] and y = list_index [OF 1(3), of i]
    show ?thesis
      using True 1 x y by (subst equal_lists.simps) simp
  next
    case False
    then have "length (elems a) \<le> unat i" "length (elems b) \<le> unat i"
      using list_okD(2) [OF 1(2)] list_okD(2) [OF 1(3)] 1(4) by (simp_all add: parcArrayList_Size_def word_less_nat_alt not_less)
    then show ?thesis using False by (subst equal_lists.simps) simp
  qed
qed

text \<open>Two entries are the same when the comparison and the equality of values say so; without one, values are the same pointer.\<close>

definition same_entry :: "red_black_tree \<Rightarrow> entry \<Rightarrow> entry \<Rightarrow> bool" where
  "same_entry t x y \<longleftrightarrow> keyCompare t (fst x) (fst y) = 0 \<and> (case valueEquals t of Some f \<Rightarrow> f (snd x) (snd y) | None \<Rightarrow> snd x = snd y)"

lemma Equals_entries:
  assumes r: "holds_entries t1 xs" "holds_entries t2 ys" and len: "length xs < 2 ^ 61" "length ys < 2 ^ 61"
  shows "parcTreeRedBlack_Equals True (Some t1) (Some t2) = Inr (list_all2 (same_entry t1) xs ys)"
proof -
  obtain k1 k2 v1 v2 where k: "parcTreeRedBlack_Keys True t1 = Inr k1" "list_ok k1" "elems k1 = map fst xs"
      "parcTreeRedBlack_Keys True t2 = Inr k2" "list_ok k2" "elems k2 = map fst ys"
    and v: "parcTreeRedBlack_Values True t1 = Inr v1" "list_ok v1" "elems v1 = map snd xs"
      "parcTreeRedBlack_Values True t2 = Inr v2" "list_ok v2" "elems v2 = map snd ys"
    using Keys_Values_entries [OF r(1) len(1)] Keys_Values_entries [OF r(2) len(2)] by blast
  have size: "parcArrayList_Size a = parcArrayList_Size b \<longleftrightarrow> length (elems a) = length (elems b)" if "list_ok a" "list_ok b" for a b
    using that list_okD(2) by (simp add: parcArrayList_Size_def word_unat_eq_iff)
  note n = size [OF k(2,5)] size [OF v(2,5)]
  have z: "drop (unat (0 :: size_t)) l = l" for l :: "ptr list" by simp
  let ?k = "\<lambda>x y. keyCompare t1 x y = 0" and ?v = "\<lambda>x y. case valueEquals t1 of Some f \<Rightarrow> f x y | None \<Rightarrow> x = y"
  have both: "list_all2 (same_entry t1) xs ys \<longleftrightarrow> list_all2 ?k (map fst xs) (map fst ys) \<and> list_all2 ?v (map snd xs) (map snd ys)"
    by (cases "valueEquals t1") (auto simp: list_all2_conv_all_nth same_entry_def)
  show ?thesis
  proof (cases "length xs = length ys")
    case True
    then show ?thesis
      using equal_lists_from [OF k(2,5), of ?k 0] equal_lists_from [OF v(2,5), of ?v 0] n k v both r [THEN holds_entriesD(4)]
      by (simp add: parcTreeRedBlack_Equals_def del: rbind_eq_Inr)
  next
    case False
    then show ?thesis
      using n k r [THEN holds_entriesD(4)] by (auto simp: parcTreeRedBlack_Equals_def dest: list_all2_lengthD)
  qed
qed

text \<open>The copy of the entry with the number \<open>i\<close>; without a copy function the pointer itself is shared.\<close>

definition copy_of :: "red_black_tree \<Rightarrow> nat \<Rightarrow> entry \<Rightarrow> entry" where
  "copy_of t i e = (case keyCopy t of Some f \<Rightarrow> f i (fst e) | None \<Rightarrow> fst e, case valueCopy t of Some f \<Rightarrow> f i (snd e) | None \<Rightarrow> snd e)"

definition copies :: "red_black_tree \<Rightarrow> entry list \<Rightarrow> nat \<Rightarrow> entry list" where
  "copies t xs n = map (\<lambda>i. copy_of t i (xs ! i)) [0..<n]"

text \<open>What the copy functions of a tree promise: a copy is not NULL and is the same entry.\<close>

definition copies_well :: "red_black_tree \<Rightarrow> entry list \<Rightarrow> bool" where
  "copies_well t xs \<longleftrightarrow> (\<forall>i < length xs. same_entry t (xs ! i) (copy_of t i (xs ! i)) \<and>
    fst (copy_of t i (xs ! i)) \<noteq> None \<and> snd (copy_of t i (xs ! i)) \<noteq> None)"

lemma put_copy:
  assumes c: "comparison (keyCompare t)" and o: "ordered_entries (keyCompare t) xs" and w: "copies_well t xs" and i: "i < length xs"
  shows "around (keyCompare t) (fst (copy_of t i (xs ! i))) (copies t xs i) []"
proof -
  let ?c = "keyCompare t"
  have "?c (fst (copy_of t j (xs ! j))) (fst (copy_of t i (xs ! i))) < 0" if j: "j < i" for j
  proof -
    have e: "?c (fst (xs ! m)) (fst (copy_of t m (xs ! m))) = 0" if "m < length xs" for m using w that by (auto simp: copies_well_def same_entry_def)
    have "?c (fst (xs ! j)) (fst (xs ! i)) < 0" using o i j by (auto simp: ordered_entries_def sorted_wrt_iff_nth_less)
    then have "?c (fst (xs ! j)) (fst (copy_of t i (xs ! i))) < 0" using comparison.less_le_trans [OF c] e [OF i] by (metis order_refl)
    moreover have "?c (fst (copy_of t j (xs ! j))) (fst (xs ! j)) \<le> 0"
      using comparison.swap_sign [OF c, of "fst (copy_of t j (xs ! j))" "fst (xs ! j)"]
        comparison.swap_sign [OF c, of "fst (xs ! j)" "fst (copy_of t j (xs ! j))"] e [of j] i j by force
    ultimately show ?thesis using comparison.le_less_trans [OF c] by blast
  qed
  then show ?thesis by (auto simp: around_def copies_def)
qed

lemma copy_entries_from:
  assumes o: "comparison (keyCompare t)" "ordered_entries (keyCompare t) xs" "copies_well t xs"
    and k: "list_ok keys" "elems keys = map fst xs" and v: "list_ok vals" "elems vals = map snd xs"
    and r: "holds_entries copy (copies t xs (unat i))" "keyCompare copy = keyCompare t"
    and len: "length xs < 2147483647" "unat i \<le> length xs"
  shows "\<exists>t1. copy_entries True t keys vals (parcArrayList_Size keys) i copy = Inr t1 \<and> holds_entries t1 (copies t xs (length xs)) \<and>
    settings t1 = settings copy \<and> freed t1 = freed copy"
  using r len(2)
proof (induction "length xs - unat i" arbitrary: i copy)
  case 0
  then have "\<not> i < parcArrayList_Size keys"
    using list_okD(2) [OF k(1)] k(2) by (simp add: parcArrayList_Size_def word_less_nat_alt)
  then show ?case using 0 by (subst copy_entries.simps) simp
next
  case (Suc m)
  let ?e = "xs ! unat i"
  have i: "unat i < length xs" using Suc.hyps(2) by simp
  then have lt: "i < parcArrayList_Size keys" "i < parcArrayList_Size vals"
    using list_okD(2) [OF k(1)] list_okD(2) [OF v(1)] k(2) v(2) by (simp_all add: parcArrayList_Size_def word_less_nat_alt)
  note x = list_index [OF k(1) lt(1)] and y = list_index [OF v(1) lt(2)]
  obtain k1 v1 where kv: "copy_of t (unat i) ?e = (k1, v1)" by fastforce
  have n: "k1 \<noteq> None" "v1 \<noteq> None" using o(3) i kv by (auto simp: copies_well_def)
  have a: "around (keyCompare copy) k1 (copies t xs (unat i)) []" using put_copy [OF o i] kv Suc.prems(2) by simp
  have "length (copies t xs (unat i)) < 2147483647" using len(1) i by (simp add: copies_def)
  from Insert_entries [OF Suc.prems(1) n this] obtain t1 where t1: "parcTreeRedBlack_Insert True copy k1 v1 = Inr t1"
    "holds_entries t1 (copies t xs (unat i) @ [(k1, v1)])" "settings t1 = settings copy" "freed t1 = freed copy"
    using around_absent(1,2) [OF a] by auto
  have "copies t xs (unat i) @ [(k1, v1)] = copies t xs (unat (i + 1))" using kv x(3) by (simp add: copies_def)
  moreover have "keyCompare t1 = keyCompare t" using t1(3) Suc.prems(2) by (simp add: settings_def)
  ultimately have "\<exists>t2. copy_entries True t keys vals (parcArrayList_Size keys) (i + 1) t1 = Inr t2 \<and>
      holds_entries t2 (copies t xs (length xs)) \<and> settings t2 = settings t1 \<and> freed t2 = freed t1"
    using Suc.hyps t1(2) x(3) i by (intro Suc.hyps(1)) auto
  moreover have "copy_entries True t keys vals (parcArrayList_Size keys) i copy =
      copy_entries True t keys vals (parcArrayList_Size keys) (i + 1) t1"
    using lt x(1,2) y(2) k(2) v(2) kv t1(1) by (subst copy_entries.simps) (simp add: copy_of_def)
  ultimately show ?case using t1(3,4) by simp
qed

lemma Copy_entries:
  assumes r: "holds_entries t xs" and w: "copies_well t xs" and len: "length xs < 2147483647"
  shows "\<exists>t1. parcTreeRedBlack_Copy True (Some t) = Inr t1 \<and> holds_entries t1 (copies t xs (length xs)) \<and> settings t1 = settings t \<and> freed t1 = []"
proof -
  note d = holds_entriesD [OF r]
  obtain keys vals where k: "parcTreeRedBlack_Keys True t = Inr keys" "list_ok keys" "elems keys = map fst xs"
    and v: "parcTreeRedBlack_Values True t = Inr vals" "list_ok vals" "elems vals = map snd xs"
    using Keys_Values_entries [OF r] len by auto
  obtain t0 where t0: "parcTreeRedBlack_Create True True (Some (keyCompare t)) (keyFree t) (keyCopy t) (valueEquals t) (valueFree t) (valueCopy t) = Inr t0"
    "holds_entries t0 []" "settings t0 = settings t" "freed t0 = []"
    using Create_entries [OF d(1), of "keyFree t" "keyCopy t" "valueEquals t" "valueFree t" "valueCopy t"] by (auto simp: settings_def)
  have "holds_entries t0 (copies t xs (unat (0 :: size_t)))" "keyCompare t0 = keyCompare t" using t0(2,3) by (simp_all add: copies_def settings_def)
  from copy_entries_from [OF d(1,2) w k(2,3) v(2,3) this len] show ?thesis
    using t0 k(1) v(1) d(4) by (auto simp: parcTreeRedBlack_Copy_def)
qed

section \<open>Properties\<close>

text \<open>
  C6: A sequence of calls on a new tree (insert, get, remove, remove and destroy, first key, last key, size), with memory for
  its nodes and any comparison that is a linear order up to equality of keys, returns what the calls return on a sorted map:
  the same values and the same failed assertions; no internal assertion fails, every loop ends, and at the end the tree is a
  red-black tree with the entries of the map and has called the free functions with the same keys and values.
\<close>

theorem parcTreeRedBlack_refines_map:
  assumes "comparison c" "length cs < 2147483648"
  shows "\<exists>t. parcTreeRedBlack_Create True True (Some c) kf kc ve vf vc = Inr t \<and>
    agree (\<lambda>t1 x. holds_entries t1 (fst x) \<and> freed t1 = snd x) (run_all do_tree_call t cs) (run_all (map_spec c kf vf) ([], []) cs)"
proof -
  obtain t where "parcTreeRedBlack_Create True True (Some c) kf kc ve vf vc = Inr t"
    "agree (tree_represents c kf vf 0) (run_all do_tree_call t cs) (run_all (map_spec c kf vf) ([], []) cs)"
    using calls_on_new_tree [OF assms] by blast
  then show ?thesis by (auto simp: agree_def tree_represents_def split: sum.splits prod.splits)
qed

text \<open>
  C7: After any calls on a new tree, a path of child pointers from the root that has not reached the sentinel has at most
  2 log2 (n + 1) nodes, where n is the size of the tree: the balance that bounds the time of every search.
\<close>

theorem parcTreeRedBlack_depth:
  assumes "comparison c" "length cs < 2147483648" "parcTreeRedBlack_Create True True (Some c) kf kc ve vf vc = Inr t"
    and "run_all do_tree_call t cs = Inr (vs, t1)" "descent t1 (root t1) ds = Inr p" "p \<noteq> nil t1"
  shows "\<exists>n. parcTreeRedBlack_Size t1 = Inr n \<and> 2 ^ Suc (length ds) \<le> (Suc (unat n)) ^ 2"
proof -
  have "agree (tree_represents c kf vf 0) (Inr (vs, t1)) (run_all (map_spec c kf vf) ([], []) cs)"
    using calls_on_new_tree [OF assms(1,2), of kf kc ve vf vc] assms(3,4) by auto
  then obtain x where x: "tree_represents c kf vf 0 t1 x" by (auto simp: agree_def split: sum.splits prod.splits)
  then have h: "holds_entries t1 (fst x)" "length (fst x) < 2147483648" by (simp_all add: tree_represents_def)
  have "unat (word_of_nat (length (fst x)) :: size_t) = length (fst x)" using h(2) by (simp add: unat_of_nat)
  then show ?thesis using Size_entries [OF h(1)] descent_bound [OF h(1) assms(5,6)] by simp
qed

text \<open>
  C8: When a new tree with both free functions is used by any calls that do not trap and then destroyed, the memory of its nodes
  is given back, and every key and value that was inserted has been freed exactly once, but for the values that \<open>Remove\<close>
  handed out, which have not been freed.
\<close>

theorem parcTreeRedBlack_Destroy_frees:
  assumes "comparison c" "length cs < 2147483648" "parcTreeRedBlack_Create True True (Some c) True kc ve True vc = Inr t"
    and "run_all do_tree_call t cs = Inr (vs, t1)"
  shows "\<exists>t2. parcTreeRedBlack_Destroy (Some t1) = Inr t2 \<and> tree_nodes t2 = Map.empty \<and>
    mset (freed t2) + mset (handed_out cs vs) = mset (given cs)"
proof -
  have "tree_represents c True True (0 + length cs) t ([], [])"
    using Create_entries [OF assms(1), of True kc ve True vc] assms(2,3) by (auto simp: tree_represents_def settings_def)
  from calls_conserve [OF this assms(4)] obtain ys where y: "tree_represents c True True 0 t1 (ys, freed t1)"
    "mset (freed t1) + contents ys + mset (handed_out cs vs) = mset (given cs)" by auto
  then have "holds_entries t1 ys" "length ys < 2147483648" "freed_entry t1 = (\<lambda>e. [fst e, snd e])"
    by (auto simp: tree_represents_def freed_entry_def)
  then show ?thesis using Destroy_entries [of t1 ys] y(2) by (auto simp: contents_def)
qed

text \<open>
  C9: The copy of a tree, made with copy functions that give the same entries at other addresses, is a red-black tree with the
  copied entries in the order of the keys, has the settings of the tree and is equal to it; nothing of the tree is freed.
\<close>

theorem parcTreeRedBlack_Copy_Equals:
  assumes r: "holds_entries t xs" and w: "copies_well t xs" and len: "length xs < 2147483647"
  shows "\<exists>t1. parcTreeRedBlack_Copy True (Some t) = Inr t1 \<and> holds_entries t1 (map (\<lambda>i. copy_of t i (xs ! i)) [0..<length xs]) \<and>
    settings t1 = settings t \<and> freed t1 = [] \<and> parcTreeRedBlack_Equals True (Some t) (Some t1) = Inr True"
proof -
  obtain t1 where t1: "parcTreeRedBlack_Copy True (Some t) = Inr t1" "holds_entries t1 (copies t xs (length xs))"
    "settings t1 = settings t" "freed t1 = []" using Copy_entries [OF r w len] by blast
  have "list_all2 (same_entry t) xs (copies t xs (length xs))"
    using w by (auto simp: list_all2_conv_all_nth copies_def copies_well_def)
  then have "parcTreeRedBlack_Equals True (Some t) (Some t1) = Inr True"
    using Equals_entries [OF r t1(2)] len by (simp add: copies_def)
  then show ?thesis using t1 by (auto simp: copies_def)
qed

section \<open>Examples\<close>

text \<open>Keys that are compared by their addresses.\<close>

definition address_order :: "ptr \<Rightarrow> ptr \<Rightarrow> int" where
  "address_order x y = (case x of None \<Rightarrow> 0 | Some a \<Rightarrow> int a) - (case y of None \<Rightarrow> 0 | Some a \<Rightarrow> int a)"

lemma address_order_comparison: "comparison address_order"
  by unfold_locales (auto simp: address_order_def)

theorem parcTreeRedBlack_refines_map_witness:
  "\<exists>t t1. parcTreeRedBlack_Create True True (Some address_order) True None None True None = Inr t \<and>
    run_all do_tree_call t [TreeInsert (Some 2) (Some 12), TreeInsert (Some 1) (Some 11), TreeInsert (Some 2) (Some 22),
      TreeGet (Some 2), TreeRemove (Some 1), TreeFirstKey, TreeLastKey, TreeSize, TreeGet (Some 1)] =
    Inr ([Nothing, Nothing, Nothing, Pointer (Some 22), Pointer (Some 11), Pointer (Some 2), Pointer (Some 2), Number 1, Pointer None], t1) \<and>
    holds_entries t1 [(Some 2, Some 22)] \<and> freed t1 = [Some 2, Some 12, Some 1]"
proof -
  let ?cs = "[TreeInsert (Some 2) (Some 12), TreeInsert (Some 1) (Some 11), TreeInsert (Some 2) (Some 22),
      TreeGet (Some 2), TreeRemove (Some 1), TreeFirstKey, TreeLastKey, TreeSize, TreeGet (Some 1)]"
  obtain t where "parcTreeRedBlack_Create True True (Some address_order) True None None True None = Inr t"
    "agree (\<lambda>t1 x. holds_entries t1 (fst x) \<and> freed t1 = snd x) (run_all do_tree_call t ?cs) (run_all (map_spec address_order True True) ([], []) ?cs)"
    using parcTreeRedBlack_refines_map [OF address_order_comparison, of ?cs True None None True None] by auto
  then show ?thesis
    by (cases "run_all do_tree_call t ?cs") (auto simp: put_entry_def entry_of_def remove_entry_def address_order_def released_def value_of_def)
qed

lemma example_tree:
  "\<exists>t vs t1. parcTreeRedBlack_Create True True (Some address_order) True None None True None = Inr t \<and>
    run_all do_tree_call t [TreeInsert (Some 2) (Some 12), TreeInsert (Some 1) (Some 11), TreeRemove (Some 1)] = Inr (vs, t1) \<and>
    vs = [Nothing, Nothing, Pointer (Some 11)] \<and> holds_entries t1 [(Some 2, Some 12)] \<and> keyCompare t1 = address_order"
proof -
  let ?cs = "[TreeInsert (Some 2) (Some 12), TreeInsert (Some 1) (Some 11), TreeRemove (Some 1)]"
  obtain t where "parcTreeRedBlack_Create True True (Some address_order) True None None True None = Inr t"
    "agree (tree_represents address_order True True 0) (run_all do_tree_call t ?cs) (run_all (map_spec address_order True True) ([], []) ?cs)"
    using calls_on_new_tree [OF address_order_comparison, of ?cs True None None True None] by auto
  then show ?thesis
    by (cases "run_all do_tree_call t ?cs")
      (auto simp: put_entry_def entry_of_def remove_entry_def address_order_def released_def value_of_def tree_represents_def)
qed

theorem parcTreeRedBlack_depth_witness:
  "\<exists>t vs t1. parcTreeRedBlack_Create True True (Some address_order) True None None True None = Inr t \<and>
    run_all do_tree_call t [TreeInsert (Some 2) (Some 12), TreeInsert (Some 1) (Some 11), TreeRemove (Some 1)] = Inr (vs, t1) \<and>
    root t1 \<noteq> nil t1 \<and> (\<exists>n. parcTreeRedBlack_Size t1 = Inr n \<and> 2 ^ Suc 0 \<le> (Suc (unat n)) ^ 2)"
proof -
  obtain t vs t1 where t: "parcTreeRedBlack_Create True True (Some address_order) True None None True None = Inr t"
    "run_all do_tree_call t [TreeInsert (Some 2) (Some 12), TreeInsert (Some 1) (Some 11), TreeRemove (Some 1)] = Inr (vs, t1)"
    "holds_entries t1 [(Some 2, Some 12)]" using example_tree by blast
  have "root t1 \<noteq> nil t1" using holds_entriesD(5) [OF t(3)] by simp
  then show ?thesis using parcTreeRedBlack_depth [OF address_order_comparison _ t(1,2), of "[]"] t(1,2) by auto
qed

theorem parcTreeRedBlack_Destroy_frees_witness:
  "\<exists>t vs t1 t2. parcTreeRedBlack_Create True True (Some address_order) True None None True None = Inr t \<and>
    run_all do_tree_call t [TreeInsert (Some 2) (Some 12), TreeInsert (Some 1) (Some 11), TreeRemove (Some 1)] = Inr (vs, t1) \<and>
    parcTreeRedBlack_Destroy (Some t1) = Inr t2 \<and> tree_nodes t2 = Map.empty \<and> mset (freed t2) = {#Some 2, Some 12, Some 1#}"
proof -
  obtain t vs t1 where t: "parcTreeRedBlack_Create True True (Some address_order) True None None True None = Inr t"
    "run_all do_tree_call t [TreeInsert (Some 2) (Some 12), TreeInsert (Some 1) (Some 11), TreeRemove (Some 1)] = Inr (vs, t1)"
    "vs = [Nothing, Nothing, Pointer (Some 11)]" using example_tree by blast
  from parcTreeRedBlack_Destroy_frees [OF address_order_comparison _ t(1,2)] obtain t2 where
    "parcTreeRedBlack_Destroy (Some t1) = Inr t2" "tree_nodes t2 = Map.empty" "mset (freed t2) + {#Some 11#} = {#Some 2, Some 12, Some 1, Some 11#}"
    using t(3) by auto
  then show ?thesis using t(1,2) by (intro exI conjI) (auto simp: add_mset_commute)
qed

theorem parcTreeRedBlack_Copy_Equals_witness:
  "\<exists>t t1. holds_entries t [(Some 2, Some 12)] \<and> parcTreeRedBlack_Copy True (Some t) = Inr t1 \<and> holds_entries t1 [(Some 2, Some 12)] \<and>
    parcTreeRedBlack_Equals True (Some t) (Some t1) = Inr True"
proof -
  obtain t0 where t0: "parcTreeRedBlack_Create True True (Some address_order) True None None True None = Inr t0" "holds_entries t0 []"
    "settings t0 = (address_order, True, None, True, None, None)"
    using Create_entries [OF address_order_comparison, of True None None True None] by blast
  have "address_order = keyCompare t0" using t0(3) by (simp add: settings_def)
  then obtain t where t: "holds_entries t [(Some 2, Some 12)]" "settings t = settings t0"
    using Insert_entries [OF t0(2), of "Some 2" "Some 12"] by (auto simp: put_entry_def)
  have "copy_of t i e = e" for i e using t(2) t0(3) by (simp add: copy_of_def settings_def)
  moreover have "copies_well t [(Some 2, Some 12)]"
    using t(2) t0(3) by (simp add: copies_well_def copy_of_def same_entry_def settings_def address_order_def)
  ultimately show ?thesis using parcTreeRedBlack_Copy_Equals [OF t(1)] t(1) by auto
qed

end
