(* ===== verification/Parc_HashMap.thy ===== *)
theory Parc_HashMap
  imports Parc_HashCodeTable Parc_Simulation "HOL-Library.Multiset"
begin

text \<open>
  The hash map with chains (\<^verbatim>\<open>parc_HashMap.c\<close>). The entries are objects with a reference count in a store that
  several maps may share: a copy of a map holds the same entries. A bucket is NULL or a linked list, of which
  the map sees the sequence of its elements. The store also has the references that entries hold
  to key and value objects. Keys are compared and hashed by the functions of their class, with the contract
  \<open>hash_key\<close>; values are compared by theirs. The memory for buckets, lists and entries is granted, which the code takes for granted too.
\<close>

section \<open>Entries\<close>

record map_entry =
  entry_key :: addr
  entry_value :: addr
  entry_refs :: nat

record entry_store =
  entries :: "addr \<Rightarrow> map_entry option"
  next_entry :: addr
  held :: "addr multiset"

definition entry_at :: "entry_store \<Rightarrow> addr \<Rightarrow> map_entry result" where
  "entry_at s a = (case entries s a of None \<Rightarrow> Inl BadPointer | Some c \<Rightarrow> Inr c)"

definition set_entry :: "entry_store \<Rightarrow> addr \<Rightarrow> map_entry \<Rightarrow> entry_store" where
  "set_entry s a c = s\<lparr>entries := (entries s)(a := Some c)\<rparr>"

definition parcHashMapEntry_Acquire :: "entry_store \<Rightarrow> addr \<Rightarrow> entry_store result" where
  "parcHashMapEntry_Acquire s a =
    rbind (entry_at s a) (\<lambda>c. Inr (set_entry s a (c\<lparr>entry_refs := entry_refs c + 1\<rparr>)))"

text \<open>The references of the entry to its key and its value are given back.\<close>

definition parcHashMapEntry_Finalize :: "entry_store \<Rightarrow> addr \<Rightarrow> entry_store result" where
  "parcHashMapEntry_Finalize s a =
    rbind (entry_at s a) (\<lambda>c. Inr (s\<lparr>held := held s - {#entry_key c#} - {#entry_value c#}\<rparr>))"

definition parcHashMapEntry_Release :: "entry_store \<Rightarrow> addr \<Rightarrow> entry_store result" where
  "parcHashMapEntry_Release s a =
    rbind (entry_at s a) (\<lambda>c.
    if entry_refs c = 1
    then rbind (parcHashMapEntry_Finalize s a) (\<lambda>s1. Inr (s1\<lparr>entries := (entries s1)(a := None)\<rparr>))
    else Inr (set_entry s a (c\<lparr>entry_refs := entry_refs c - 1\<rparr>)))"

text \<open>\<open>veq\<close> compares values.\<close>

definition parcHashMapEntry_Equals ::
  "(addr \<Rightarrow> addr \<Rightarrow> bool) \<Rightarrow> (addr \<Rightarrow> addr \<Rightarrow> bool) \<Rightarrow> map_entry \<Rightarrow> map_entry \<Rightarrow> bool" where
  "parcHashMapEntry_Equals eq veq a b \<longleftrightarrow> eq (entry_key a) (entry_key b) \<and> veq (entry_value a) (entry_value b)"

definition parcHashMapEntry_HashCode :: "(addr \<Rightarrow> PARCHashCode) \<Rightarrow> map_entry \<Rightarrow> PARCHashCode" where
  "parcHashMapEntry_HashCode hash e = hash (entry_key e)"

text \<open>\<open>copied\<close> is the copy of the key.\<close>

definition parcHashMapEntry_Create :: "entry_store \<Rightarrow> addr \<Rightarrow> addr \<Rightarrow> addr \<times> entry_store" where
  "parcHashMapEntry_Create s copied value =
    (next_entry s,
     s\<lparr>entries := (entries s)(next_entry s := Some \<lparr>entry_key = copied, entry_value = value, entry_refs = 1\<rparr>),
       next_entry := next_entry s + 1, held := add_mset copied (add_mset value (held s))\<rparr>)"

section \<open>The map\<close>

record hash_map =
  buckets :: "addr list option list"
  minCapacity :: nat
  mapCapacity :: nat
  mapSize :: nat

definition DEFAULT_CAPACITY :: nat where "DEFAULT_CAPACITY = 43"

text \<open>
  \<open>int bucket = keyHash % capacity\<close>: an index from \<open>2 ^ 31\<close> on would be negative. The loops count buckets with an
  \<open>unsigned int\<close>, so they do not end when the capacity has more than 32 bits.
\<close>

definition bucket_index :: "(addr \<Rightarrow> PARCHashCode) \<Rightarrow> nat \<Rightarrow> addr \<Rightarrow> nat result" where
  "bucket_index hash cap k =
    (if cap = 0 then Inl Undefined
     else if unat (hash k) mod cap < 2 ^ 31 then Inr (unat (hash k) mod cap) else Inl Undefined)"

definition bucket_at :: "addr list option list \<Rightarrow> nat \<Rightarrow> addr list option result" where
  "bucket_at bs i = (if i < length bs then Inr (bs ! i) else Inl Undefined)"

definition loops_end :: "hash_map \<Rightarrow> unit result" where
  "loops_end m = (if mapCapacity m < 2 ^ 32 then Inr () else Inl Diverges)"

fun find_entry :: "(addr \<Rightarrow> addr \<Rightarrow> bool) \<Rightarrow> entry_store \<Rightarrow> addr \<Rightarrow> addr list \<Rightarrow> ptr result" where
  "find_entry eq s k [] = Inr None"
| "find_entry eq s k (a # as) =
    rbind (entry_at s a) (\<lambda>e. if eq k (entry_key e) then Inr (Some a) else find_entry eq s k as)"

definition parcHashMap_GetEntry ::
  "(addr \<Rightarrow> addr \<Rightarrow> bool) \<Rightarrow> (addr \<Rightarrow> PARCHashCode) \<Rightarrow> entry_store \<Rightarrow> hash_map \<Rightarrow> addr \<Rightarrow> ptr result" where
  "parcHashMap_GetEntry eq hash s m k =
    rbind (bucket_index hash (mapCapacity m) k) (\<lambda>i.
    rbind (bucket_at (buckets m) i) (\<lambda>b.
    case b of None \<Rightarrow> Inr None | Some as \<Rightarrow> find_entry eq s k as))"

text \<open>The list gives back its elements, first to last.\<close>

fun release_list :: "addr list \<Rightarrow> entry_store \<Rightarrow> entry_store result" where
  "release_list [] s = Inr s"
| "release_list (a # as) s = rbind (parcHashMapEntry_Release s a) (release_list as)"

fun release_buckets :: "addr list option list \<Rightarrow> entry_store \<Rightarrow> entry_store result" where
  "release_buckets [] s = Inr s"
| "release_buckets (b # bs) s =
    rbind (case b of None \<Rightarrow> Inr s | Some as \<Rightarrow> release_list as s) (release_buckets bs)"

definition parcHashMap_Finalize :: "entry_store \<Rightarrow> hash_map \<Rightarrow> entry_store result" where
  "parcHashMap_Finalize s m = rbind (loops_end m) (\<lambda>_. release_buckets (buckets m) s)"

definition parcHashMap_CreateCapacity :: "bool \<Rightarrow> u32 \<Rightarrow> hash_map option" where
  "parcHashMap_CreateCapacity granted n =
    (if granted
     then let c = (if n = 0 then DEFAULT_CAPACITY else unat n) in
       Some \<lparr>buckets = replicate c None, minCapacity = c, mapCapacity = c, mapSize = 0\<rparr>
     else None)"

definition parcHashMap_Create :: "bool \<Rightarrow> hash_map option" where
  "parcHashMap_Create granted = parcHashMap_CreateCapacity granted (of_nat DEFAULT_CAPACITY)"

text \<open>A copied list holds the elements of the original one.\<close>

fun acquire_list :: "addr list \<Rightarrow> entry_store \<Rightarrow> entry_store result" where
  "acquire_list [] s = Inr s"
| "acquire_list (a # as) s = rbind (parcHashMapEntry_Acquire s a) (acquire_list as)"

fun copy_buckets :: "addr list option list \<Rightarrow> entry_store \<Rightarrow> (addr list option list \<times> entry_store) result" where
  "copy_buckets [] s = Inr ([], s)"
| "copy_buckets (b # bs) s =
    rbind (case b of None \<Rightarrow> Inr s | Some as \<Rightarrow> acquire_list as s) (\<lambda>s1.
    rbind (copy_buckets bs s1) (\<lambda>(new, s2). Inr (b # new, s2)))"

definition parcHashMap_Copy :: "entry_store \<Rightarrow> hash_map \<Rightarrow> (hash_map \<times> entry_store) result" where
  "parcHashMap_Copy s original =
    rbind (loops_end original) (\<lambda>_.
    rbind (copy_buckets (buckets original) s) (\<lambda>(bs, s1).
    Inr (\<lparr>buckets = bs, minCapacity = minCapacity original, mapCapacity = mapCapacity original,
          mapSize = mapSize original\<rparr>, s1)))"

text \<open>
  \<open>parcLinkedList_SetEquals\<close> compares the entries of lists with the same length, and then answers true whatever it has found.
\<close>

definition bucket_equals :: "addr list option \<Rightarrow> addr list option \<Rightarrow> bool" where
  "bucket_equals b c = (case (b, c) of
     (Some as, Some as1) \<Rightarrow> length as = length as1
   | (None, None) \<Rightarrow> True
   | _ \<Rightarrow> False)"

fun buckets_equal :: "addr list option list \<Rightarrow> addr list option list \<Rightarrow> bool" where
  "buckets_equal (b # bs) (c # cs) = (if bucket_equals b c then buckets_equal bs cs else False)"
| "buckets_equal _ _ = True"

text \<open>\<open>same\<close>: both arguments are the same pointer.\<close>

definition parcHashMap_Equals :: "bool \<Rightarrow> hash_map option \<Rightarrow> hash_map option \<Rightarrow> bool result" where
  "parcHashMap_Equals same x y =
    (if same then Inr True
     else case (x, y) of
       (Some a, Some b) \<Rightarrow>
         if mapCapacity a = mapCapacity b
         then if mapSize a = mapSize b
              then rbind (loops_end a) (\<lambda>_. Inr (buckets_equal (buckets a) (buckets b)))
              else Inr False
         else Inr False
     | _ \<Rightarrow> Inr False)"

fun hash_list :: "(addr \<Rightarrow> PARCHashCode) \<Rightarrow> entry_store \<Rightarrow> addr list \<Rightarrow> PARCHashCode \<Rightarrow> PARCHashCode result" where
  "hash_list hash s [] result = Inr result"
| "hash_list hash s (a # as) result =
    rbind (entry_at s a) (\<lambda>e. hash_list hash s as (result + parcHashMapEntry_HashCode hash e))"

fun hash_buckets ::
  "(addr \<Rightarrow> PARCHashCode) \<Rightarrow> entry_store \<Rightarrow> addr list option list \<Rightarrow> PARCHashCode \<Rightarrow> PARCHashCode result" where
  "hash_buckets hash s [] result = Inr result"
| "hash_buckets hash s (b # bs) result =
    rbind (case b of None \<Rightarrow> Inr result | Some as \<Rightarrow> rbind (hash_list hash s as 0) (\<lambda>c. Inr (result + c)))
      (hash_buckets hash s bs)"

definition parcHashMap_HashCode :: "(addr \<Rightarrow> PARCHashCode) \<Rightarrow> entry_store \<Rightarrow> hash_map \<Rightarrow> PARCHashCode result" where
  "parcHashMap_HashCode hash s m = rbind (loops_end m) (\<lambda>_. hash_buckets hash s (buckets m) 0)"

definition parcHashMap_Get ::
  "(addr \<Rightarrow> addr \<Rightarrow> bool) \<Rightarrow> (addr \<Rightarrow> PARCHashCode) \<Rightarrow> entry_store \<Rightarrow> hash_map \<Rightarrow> addr \<Rightarrow> ptr result" where
  "parcHashMap_Get eq hash s m k =
    rbind (parcHashMap_GetEntry eq hash s m k) (\<lambda>entry.
    case entry of None \<Rightarrow> Inr None | Some a \<Rightarrow> rbind (entry_at s a) (\<lambda>e. Inr (Some (entry_value e))))"

definition parcHashMap_Contains ::
  "(addr \<Rightarrow> addr \<Rightarrow> bool) \<Rightarrow> (addr \<Rightarrow> PARCHashCode) \<Rightarrow> entry_store \<Rightarrow> hash_map \<Rightarrow> addr \<Rightarrow> bool result" where
  "parcHashMap_Contains eq hash s m k =
    rbind (parcHashMap_GetEntry eq hash s m k) (\<lambda>entry.
    case entry of None \<Rightarrow> Inr False | Some a \<Rightarrow> rbind (entry_at s a) (\<lambda>e. Inr (Some (entry_value e) \<noteq> None)))"

text \<open>An entry goes to the end of its bucket, which gets a list if it has none.\<close>

definition append_entry ::
  "addr list option list \<Rightarrow> nat \<Rightarrow> addr \<Rightarrow> entry_store \<Rightarrow> (addr list option list \<times> entry_store) result" where
  "append_entry bs i a s =
    rbind (bucket_at bs i) (\<lambda>b.
    rbind (parcHashMapEntry_Acquire s a) (\<lambda>s1.
    Inr (bs[i := Some ((case b of None \<Rightarrow> [] | Some as \<Rightarrow> as) @ [a])], s1)))"

fun move_list ::
  "(addr \<Rightarrow> PARCHashCode) \<Rightarrow> nat \<Rightarrow> addr list \<Rightarrow> addr list option list \<Rightarrow> entry_store
    \<Rightarrow> (addr list option list \<times> entry_store) result" where
  "move_list hash cap [] new s = Inr (new, s)"
| "move_list hash cap (a # as) new s =
    rbind (entry_at s a) (\<lambda>e.
    rbind (bucket_index hash cap (entry_key e)) (\<lambda>i.
    rbind (append_entry new i a s) (\<lambda>(new1, s1). move_list hash cap as new1 s1)))"

fun move_buckets ::
  "(addr \<Rightarrow> PARCHashCode) \<Rightarrow> nat \<Rightarrow> addr list option list \<Rightarrow> addr list option list \<Rightarrow> entry_store
    \<Rightarrow> (addr list option list \<times> entry_store) result" where
  "move_buckets hash cap [] new s = Inr (new, s)"
| "move_buckets hash cap (b # bs) new s =
    rbind (case b of None \<Rightarrow> Inr (new, s)
           | Some as \<Rightarrow>
               rbind (if as \<noteq> [] then move_list hash cap as new s else Inr (new, s)) (\<lambda>(new1, s1).
               rbind (release_list as s1) (\<lambda>s2. Inr (new1, s2)))) (\<lambda>(new1, s1).
    move_buckets hash cap bs new1 s1)"

definition parcHashMap_Resize ::
  "(addr \<Rightarrow> PARCHashCode) \<Rightarrow> entry_store \<Rightarrow> hash_map \<Rightarrow> nat \<Rightarrow> (entry_store \<times> hash_map) result" where
  "parcHashMap_Resize hash s m newCapacity =
    (if newCapacity < minCapacity m then Inr (s, m)
     else rbind (loops_end m) (\<lambda>_.
          rbind (move_buckets hash newCapacity (buckets m) (replicate newCapacity None) s) (\<lambda>(new, s1).
          Inr (s1, m\<lparr>buckets := new, mapCapacity := newCapacity\<rparr>))))"

text \<open>
  The load factors are 3/4 and 1/4, and a quotient of sizes below \<open>2 ^ 52\<close> is rounded to neither of them unless it is equal.
\<close>

definition too_full :: "hash_map \<Rightarrow> bool" where
  "too_full m \<longleftrightarrow> 4 * mapSize m \<ge> 3 * mapCapacity m"

definition too_empty :: "hash_map \<Rightarrow> bool" where
  "too_empty m \<longleftrightarrow> 4 * mapSize m \<le> mapCapacity m"

definition size_down :: "nat \<Rightarrow> nat" where
  "size_down n = (if n = 0 then 2 ^ 64 - 1 else n - 1)"

text \<open>The entry that is found first leaves the bucket and is released.\<close>

definition parcHashMap_Remove ::
  "(addr \<Rightarrow> addr \<Rightarrow> bool) \<Rightarrow> (addr \<Rightarrow> PARCHashCode) \<Rightarrow> entry_store \<Rightarrow> hash_map \<Rightarrow> addr
    \<Rightarrow> (bool \<times> entry_store \<times> hash_map) result" where
  "parcHashMap_Remove eq hash s m k =
    rbind (bucket_index hash (mapCapacity m) k) (\<lambda>i.
    rbind (bucket_at (buckets m) i) (\<lambda>b.
    rbind (case b of None \<Rightarrow> Inr (False, s, m)
           | Some as \<Rightarrow>
               rbind (find_entry eq s k as) (\<lambda>entry.
               case entry of None \<Rightarrow> Inr (False, s, m)
               | Some a \<Rightarrow>
                   rbind (parcHashMapEntry_Release s a) (\<lambda>s1.
                   Inr (True, s1, m\<lparr>buckets := (buckets m)[i := Some (remove1 a as)], mapSize := size_down (mapSize m)\<rparr>))))
      (\<lambda>(result, s1, m1).
    rbind (if too_empty m1 then parcHashMap_Resize hash s1 m1 (mapCapacity m1 div 2) else Inr (s1, m1)) (\<lambda>(s2, m2).
    Inr (result, s2, m2)))))"

text \<open>\<open>copied\<close> is the copy of the key that a new entry holds.\<close>

definition parcHashMap_Put ::
  "(addr \<Rightarrow> addr \<Rightarrow> bool) \<Rightarrow> (addr \<Rightarrow> PARCHashCode) \<Rightarrow> addr \<Rightarrow> entry_store \<Rightarrow> hash_map \<Rightarrow> addr \<Rightarrow> addr
    \<Rightarrow> (entry_store \<times> hash_map) result" where
  "parcHashMap_Put eq hash copied s m k v =
    rbind (if too_full m then parcHashMap_Resize hash s m (mapCapacity m * 2) else Inr (s, m)) (\<lambda>(s1, m1).
    rbind (parcHashMap_GetEntry eq hash s1 m1 k) (\<lambda>entry.
    case entry of
      Some a \<Rightarrow>
        rbind (entry_at s1 a) (\<lambda>e.
        if entry_value e \<noteq> v
        then let s2 = s1\<lparr>held := add_mset v (held s1 - {#entry_value e#})\<rparr> in
          Inr (set_entry s2 a (e\<lparr>entry_value := v\<rparr>), m1)
        else Inr (s1, m1))
    | None \<Rightarrow>
        let (a, s2) = parcHashMapEntry_Create s1 copied v in
        rbind (bucket_index hash (mapCapacity m1) k) (\<lambda>i.
        rbind (append_entry (buckets m1) i a s2) (\<lambda>(bs, s3).
        rbind (parcHashMapEntry_Release s3 a) (\<lambda>s4.
        Inr (s4, m1\<lparr>buckets := bs, mapSize := mapSize m1 + 1\<rparr>))))))"

definition parcHashMap_Size :: "hash_map \<Rightarrow> nat" where
  "parcHashMap_Size m = mapSize m"

section \<open>Iterators\<close>

text \<open>
  \<open>it_bucket\<close> is the bucket the search for the next list has reached, \<open>list_bucket\<close> the bucket of the list iterator, which stands behind
  \<open>visited_entries\<close> elements. The map is changed only through this iterator while it is in use.
\<close>

record map_cursor =
  it_bucket :: nat
  list_bucket :: nat
  visited_entries :: nat
  current_entry :: ptr

fun first_bucket :: "addr list option list \<Rightarrow> nat \<Rightarrow> nat option" where
  "first_bucket [] i = None"
| "first_bucket (b # bs) i = (if b \<noteq> None then Some i else first_bucket bs (Suc i))"

definition parcHashMapIterator_Init :: "hash_map \<Rightarrow> map_cursor result" where
  "parcHashMapIterator_Init m =
    (case first_bucket (buckets m) 0 of None \<Rightarrow> Inl OutOfMemory
     | Some i \<Rightarrow> Inr \<lparr>it_bucket = i, list_bucket = i, visited_entries = 0, current_entry = None\<rparr>)"

definition parcHashMapIterator_Next :: "hash_map \<Rightarrow> map_cursor \<Rightarrow> map_cursor result" where
  "parcHashMapIterator_Next m c =
    rbind (bucket_at (buckets m) (list_bucket c)) (\<lambda>b.
    case b of None \<Rightarrow> Inl BadPointer
    | Some as \<Rightarrow>
        if visited_entries c < length as
        then Inr (c\<lparr>visited_entries := visited_entries c + 1, current_entry := Some (as ! visited_entries c)\<rparr>)
        else if visited_entries c = 0 then Inl AssertFailed else Inl OutOfBounds)"

text \<open>Before the first element the list iterator removes nothing, and the size goes down all the same.\<close>

definition parcHashMapIterator_Remove ::
  "entry_store \<Rightarrow> hash_map \<Rightarrow> map_cursor \<Rightarrow> (entry_store \<times> hash_map \<times> map_cursor) result" where
  "parcHashMapIterator_Remove s m c =
    rbind (bucket_at (buckets m) (list_bucket c)) (\<lambda>b.
    case b of None \<Rightarrow> Inl BadPointer
    | Some as \<Rightarrow>
        if visited_entries c = 0 then Inr (s, m\<lparr>mapSize := size_down (mapSize m)\<rparr>, c)
        else let n = visited_entries c - 1 in
          rbind (parcHashMapEntry_Release s (as ! n)) (\<lambda>s1.
          Inr (s1, m\<lparr>buckets := (buckets m)[list_bucket c := Some (take n as @ drop (Suc n) as)],
                     mapSize := size_down (mapSize m)\<rparr>, c\<lparr>visited_entries := n\<rparr>)))"

function next_list :: "hash_map \<Rightarrow> map_cursor \<Rightarrow> (bool \<times> map_cursor) result" where
  "next_list m c =
    (let i = it_bucket c + 1; c1 = c\<lparr>it_bucket := i\<rparr> in
     if i < mapCapacity m
     then rbind (bucket_at (buckets m) i) (\<lambda>b.
          case b of None \<Rightarrow> next_list m c1
          | Some as \<Rightarrow>
              let c2 = c1\<lparr>list_bucket := i, visited_entries := 0\<rparr> in
              if as \<noteq> [] then Inr (True, c2) else next_list m c2)
     else Inr (False, c1))"
  by pat_completeness auto
termination
  by (relation "measure (\<lambda>(m, c). mapCapacity m - it_bucket c)") auto

declare next_list.simps [simp del]

definition parcHashMapIterator_HasNext :: "hash_map \<Rightarrow> map_cursor \<Rightarrow> (bool \<times> map_cursor) result" where
  "parcHashMapIterator_HasNext m c =
    rbind (bucket_at (buckets m) (list_bucket c)) (\<lambda>b.
    case b of None \<Rightarrow> Inl BadPointer
    | Some as \<Rightarrow> if visited_entries c < length as then Inr (True, c) else next_list m c)"

definition current_of :: "entry_store \<Rightarrow> map_cursor \<Rightarrow> map_entry result" where
  "current_of s c = (case current_entry c of None \<Rightarrow> Inl BadPointer | Some a \<Rightarrow> entry_at s a)"

definition parcHashMapValue_Element :: "entry_store \<Rightarrow> map_cursor \<Rightarrow> addr result" where
  "parcHashMapValue_Element s c = rbind (current_of s c) (\<lambda>e. Inr (entry_value e))"

definition parcHashMapKey_Element :: "entry_store \<Rightarrow> map_cursor \<Rightarrow> addr result" where
  "parcHashMapKey_Element s c = rbind (current_of s c) (\<lambda>e. Inr (entry_key e))"

text \<open>
  The loop \<^verbatim>\<open>while (parcIterator_HasNext(it)) { x = parcIterator_Next(it); ... }\<close> over the keys or the values, with the elements it has
  met. \<open>None\<close> is a loop that does not end.
\<close>

partial_function (option) map_loop ::
  "(entry_store \<Rightarrow> map_cursor \<Rightarrow> addr result) \<Rightarrow> entry_store \<Rightarrow> hash_map \<Rightarrow> map_cursor \<Rightarrow> addr list \<Rightarrow> addr list result option" where
  "map_loop elem s m c met =
    (case parcHashMapIterator_HasNext m c of
       Inl e \<Rightarrow> Some (Inl e)
     | Inr n \<Rightarrow>
         if fst n
         then (case rbind (parcHashMapIterator_Next m (snd n)) (\<lambda>c1. rbind (elem s c1) (\<lambda>x. Inr (c1, x))) of
                 Inl e \<Rightarrow> Some (Inl e)
               | Inr r \<Rightarrow> map_loop elem s m (fst r) (met @ [snd r]))
         else Some (Inr met))"

section \<open>Entries of the buckets\<close>

definition chain_of :: "addr list option \<Rightarrow> addr list" where
  "chain_of b = (case b of None \<Rightarrow> [] | Some as \<Rightarrow> as)"

lemma chain_of_simps [simp]: "chain_of None = []" "chain_of (Some as) = as"
  by (simp_all add: chain_of_def)

definition elements :: "addr list option list \<Rightarrow> addr list" where
  "elements bs = concat (map chain_of bs)"

lemma elements_simps [simp]:
  "elements [] = []" "elements (b # bs) = chain_of b @ elements bs" "elements (bs @ cs) = elements bs @ elements cs"
  "elements (replicate n None) = []"
  by (simp_all add: elements_def)

definition key_of :: "entry_store \<Rightarrow> addr \<Rightarrow> addr" where
  "key_of s a = entry_key (the (entries s a))"

definition value_of :: "entry_store \<Rightarrow> addr \<Rightarrow> addr" where
  "value_of s a = entry_value (the (entries s a))"

text \<open>The value of the first entry with an equal key.\<close>

definition lookup_in :: "(addr \<Rightarrow> addr \<Rightarrow> bool) \<Rightarrow> entry_store \<Rightarrow> addr list \<Rightarrow> addr \<Rightarrow> ptr" where
  "lookup_in eq s as k = map_option (value_of s) (find (\<lambda>a. eq k (key_of s a)) as)"

definition present :: "entry_store \<Rightarrow> addr list \<Rightarrow> bool" where
  "present s as \<longleftrightarrow> (\<forall>a\<in>set as. entries s a \<noteq> None)"

lemma present_simps [simp]:
  "present s []" "present s (a # as) \<longleftrightarrow> entries s a \<noteq> None \<and> present s as"
  "present s (as @ cs) \<longleftrightarrow> present s as \<and> present s cs"
  by (auto simp: present_def)

lemma entry_at_present: "entries s a \<noteq> None \<Longrightarrow> entry_at s a = Inr (the (entries s a))"
  by (auto simp: entry_at_def)

lemma find_entry_eq: "present s as \<Longrightarrow> find_entry eq s k as = Inr (find (\<lambda>a. eq k (key_of s a)) as)"
  by (induction as) (auto simp: entry_at_present key_of_def)

lemma elements_at:
  assumes "i < length bs"
  shows "elements bs = elements (take i bs) @ chain_of (bs ! i) @ elements (drop (Suc i) bs)"
  by (metis assms elements_simps(2,3) id_take_nth_drop)

lemma elements_update:
  assumes "i < length bs"
  shows "mset (elements (bs[i := b])) + mset (chain_of (bs ! i)) = mset (elements bs) + mset (chain_of b)"
  using elements_at [of i bs] elements_at [of i "bs[i := b]"] assms by simp

lemma in_elements: "a \<in> set (elements bs) \<longleftrightarrow> (\<exists>i < length bs. a \<in> set (chain_of (bs ! i)))"
  unfolding elements_def by (simp add: set_conv_nth [of bs]) blast

text \<open>Every entry is in the bucket of its key.\<close>

definition buckets_ok :: "(addr \<Rightarrow> PARCHashCode) \<Rightarrow> entry_store \<Rightarrow> addr list option list \<Rightarrow> bool" where
  "buckets_ok hash s bs \<longleftrightarrow>
    (\<forall>i < length bs. \<forall>a\<in>set (chain_of (bs ! i)). unat (hash (key_of s a)) mod length bs = i)"

text \<open>No entry is there twice, the bucket has the only reference to it, and no two entries have equal keys.\<close>

definition sole_entries :: "(addr \<Rightarrow> addr \<Rightarrow> bool) \<Rightarrow> entry_store \<Rightarrow> addr list \<Rightarrow> bool" where
  "sole_entries eq s as \<longleftrightarrow> distinct as \<and> (\<forall>a\<in>set as. \<exists>e. entries s a = Some e \<and> entry_refs e = 1) \<and>
    (\<forall>a\<in>set as. \<forall>c\<in>set as. eq (key_of s a) (key_of s c) \<longrightarrow> a = c)"

lemma sole_entries_present: "sole_entries eq s as \<Longrightarrow> present s as"
  by (auto simp: sole_entries_def present_def)

lemma sole_entries_Cons:
  assumes "entries s a = Some e" "entry_refs e = 1" "a \<notin> set as" "sole_entries eq s as"
    "\<And>c. c \<in> set as \<Longrightarrow> \<not> eq (key_of s a) (key_of s c) \<and> \<not> eq (key_of s c) (key_of s a)"
  shows "sole_entries eq s (a # as)"
  using assms unfolding sole_entries_def by auto

lemma sole_entries_cong:
  assumes "\<And>a. a \<in> set as \<Longrightarrow> entries s a = entries s1 a"
  shows "sole_entries eq s as = sole_entries eq s1 as"
  using assms unfolding sole_entries_def key_of_def by simp

lemma sole_entries_perm: "mset as = mset cs \<Longrightarrow> sole_entries eq s as = sole_entries eq s cs"
  using mset_eq_imp_distinct_iff [of as cs] mset_eq_setD [of as cs] unfolding sole_entries_def by simp

text \<open>
  The references that are held are those of the entries and \<open>H\<close>, those of others.
\<close>

definition balanced :: "addr multiset \<Rightarrow> entry_store \<Rightarrow> addr list \<Rightarrow> bool" where
  "balanced H s as \<longleftrightarrow> held s = H + image_mset (key_of s) (mset as) + image_mset (value_of s) (mset as)"

definition map_ok ::
  "(addr \<Rightarrow> addr \<Rightarrow> bool) \<Rightarrow> (addr \<Rightarrow> PARCHashCode) \<Rightarrow> addr multiset \<Rightarrow> entry_store \<Rightarrow> hash_map \<Rightarrow> bool" where
  "map_ok eq hash H s m \<longleftrightarrow>
    length (buckets m) = mapCapacity m \<and> 0 < minCapacity m \<and> minCapacity m \<le> mapCapacity m \<and>
    mapSize m = length (elements (buckets m)) \<and> buckets_ok hash s (buckets m) \<and>
    sole_entries eq s (elements (buckets m)) \<and> (\<forall>a. entries s a \<noteq> None \<longrightarrow> a < next_entry s) \<and>
    balanced H s (elements (buckets m))"

section \<open>Moving the entries\<close>

text \<open>The store after the lists have taken another reference to each element of \<open>as\<close>.\<close>

definition acquired :: "addr list \<Rightarrow> entry_store \<Rightarrow> entry_store" where
  "acquired as s = s\<lparr>entries := (\<lambda>a. map_option (\<lambda>e. e\<lparr>entry_refs := entry_refs e + count (mset as) a\<rparr>) (entries s a))\<rparr>"

lemma acquired_simps [simp]:
  "key_of (acquired as s) a = key_of s a"
  "entries (acquired as s) a = None \<longleftrightarrow> entries s a = None" "present (acquired as s) cs = present s cs"
  by (cases "entries s a"; simp add: acquired_def key_of_def present_def)+

lemma acquired_Nil [simp]: "acquired [] s = s"
  by (cases s) (simp add: acquired_def option.map_ident)

lemma Acquire_acquired:
  assumes "entries s a \<noteq> None"
  shows "parcHashMapEntry_Acquire s a = Inr (acquired [a] s)"
proof -
  obtain e where "entries s a = Some e" using assms by auto
  then show ?thesis
    by (cases s)
      (auto simp: parcHashMapEntry_Acquire_def entry_at_def set_entry_def acquired_def fun_eq_iff option.map_ident)
qed

lemma acquired_append: "acquired cs (acquired as s) = acquired (as @ cs) s"
  by (cases s) (simp add: acquired_def fun_eq_iff option.map_comp comp_def add.assoc)

lemma acquired_Cons: "acquired as (acquired [a] s) = acquired (a # as) s"
  by (simp add: acquired_append)

lemma acquire_list_acquired: "present s as \<Longrightarrow> acquire_list as s = Inr (acquired as s)"
  by (induction as arbitrary: s) (simp_all add: Acquire_acquired acquired_Cons)

lemma Release_acquired:
  assumes "entries s a = Some e" "entry_refs e = 1"
  shows "parcHashMapEntry_Release (acquired (a # as) s) a = Inr (acquired as s)"
  using assms by (cases s) (auto simp: parcHashMapEntry_Release_def entry_at_def set_entry_def acquired_def fun_eq_iff)

lemma release_list_acquired:
  "(\<forall>a\<in>set as. \<exists>e. entries s a = Some e \<and> entry_refs e = 1) \<Longrightarrow> release_list as (acquired as s) = Inr s"
  by (induction as) (auto simp: Release_acquired)

lemma bucket_index_ok:
  "0 < cap \<Longrightarrow> cap \<le> 2 ^ 31 \<Longrightarrow> bucket_index hash cap k = Inr (unat (hash k) mod cap)"
  using less_le_trans [OF mod_less_divisor, of cap "2 ^ 31" "unat (hash k)"] by (simp add: bucket_index_def)

lemma elements_append:
  assumes "i < length bs"
  shows "mset (elements (bs[i := Some (chain_of (bs ! i) @ [a])])) = add_mset a (mset (elements bs))"
proof -
  let ?E = "mset (elements (bs[i := Some (chain_of (bs ! i) @ [a])]))"
  have "?E + mset (chain_of (bs ! i)) = add_mset a (mset (elements bs)) + mset (chain_of (bs ! i))"
    using elements_update [OF assms, of "Some (chain_of (bs ! i) @ [a])"] by simp
  then show ?thesis by (simp only: add_right_cancel)
qed

lemma buckets_ok_append:
  assumes "buckets_ok hash s bs" "i < length bs" "unat (hash (key_of s a)) mod length bs = i"
  shows "buckets_ok hash s (bs[i := Some (chain_of (bs ! i) @ [a])])"
  using assms by (auto simp: buckets_ok_def nth_list_update)

lemma append_entry_ok:
  assumes "i < length bs" "entries s a \<noteq> None"
  shows "append_entry bs i a s = Inr (bs[i := Some (chain_of (bs ! i) @ [a])], acquired [a] s)"
  using assms by (simp add: append_entry_def bucket_at_def Acquire_acquired chain_of_def)

lemma buckets_ok_acquired [simp]: "buckets_ok hash (acquired as s) bs = buckets_ok hash s bs"
  by (simp add: buckets_ok_def)

lemma move_list_ok:
  assumes "present s as" "0 < cap" "cap \<le> 2 ^ 31" "length new = cap" "buckets_ok hash s new"
  shows "\<exists>new1. move_list hash cap as new s = Inr (new1, acquired as s) \<and> length new1 = cap \<and>
    buckets_ok hash s new1 \<and> mset (elements new1) = mset (elements new) + mset as"
  using assms
proof (induction as arbitrary: new s)
  case Nil
  then show ?case by simp
next
  case (Cons a as)
  define i where "i = unat (hash (key_of s a)) mod cap"
  define new1 where "new1 = new[i := Some (chain_of (new ! i) @ [a])]"
  have i: "i < length new" using Cons.prems by (simp add: i_def)
  have a: "entries s a \<noteq> None" using Cons.prems(1) by simp
  have step: "move_list hash cap (a # as) new s = move_list hash cap as new1 (acquired [a] s)"
    using a i Cons.prems bucket_index_ok [of cap hash "key_of s a"]
    by (simp add: entry_at_present append_entry_ok new1_def i_def key_of_def)
  have "buckets_ok hash (acquired [a] s) new1"
    using buckets_ok_append [OF Cons.prems(5) i] Cons.prems(4) by (simp add: new1_def i_def)
  then obtain new2 where "move_list hash cap as new1 (acquired [a] s) = Inr (new2, acquired as (acquired [a] s))"
    "length new2 = cap" "buckets_ok hash s new2" "mset (elements new2) = mset (elements new1) + mset as"
    using Cons.IH [of "acquired [a] s" new1] Cons.prems by (auto simp: new1_def)
  then show ?case
    unfolding step using elements_append [OF i, of a] by (intro exI [of _ new2]) (simp add: acquired_Cons new1_def)
qed

lemma move_buckets_ok:
  assumes "\<forall>a\<in>set (elements bs). \<exists>e. entries s a = Some e \<and> entry_refs e = 1"
    "0 < cap" "cap \<le> 2 ^ 31" "length new = cap" "buckets_ok hash s new"
  shows "\<exists>new1. move_buckets hash cap bs new s = Inr (new1, s) \<and> length new1 = cap \<and> buckets_ok hash s new1 \<and>
    mset (elements new1) = mset (elements new) + mset (elements bs)"
  using assms
proof (induction bs arbitrary: new)
  case Nil
  then show ?case by simp
next
  case (Cons b bs)
  have "present s (chain_of b)" using Cons.prems(1) by (auto simp: present_def)
  then obtain new1 where new1: "move_list hash cap (chain_of b) new s = Inr (new1, acquired (chain_of b) s)"
    "length new1 = cap" "buckets_ok hash s new1" "mset (elements new1) = mset (elements new) + mset (chain_of b)"
    using move_list_ok Cons.prems by blast
  have r: "release_list (chain_of b) (acquired (chain_of b) s) = Inr s"
    using Cons.prems(1) by (intro release_list_acquired) simp
  have "move_buckets hash cap (b # bs) new s = move_buckets hash cap bs new1 s"
  proof (cases b)
    case None
    then show ?thesis using new1(1) by simp
  next
    case (Some as)
    then show ?thesis using new1(1) r by (cases "as = []") auto
  qed
  then show ?case using Cons.IH [of new1] Cons.prems new1 by (auto simp: ac_simps)
qed

section \<open>The map of a hash map\<close>

definition map_of_hash :: "(addr \<Rightarrow> addr \<Rightarrow> bool) \<Rightarrow> entry_store \<Rightarrow> hash_map \<Rightarrow> addr \<Rightarrow> ptr" where
  "map_of_hash eq s m = lookup_in eq s (elements (buckets m))"

lemma find_the_only:
  assumes "\<And>a c. a \<in> set xs \<Longrightarrow> c \<in> set xs \<Longrightarrow> P a \<Longrightarrow> P c \<Longrightarrow> a = c" "a \<in> set xs" "P a"
  shows "find P xs = Some a"
  using assms by (induction xs) auto

lemma map_find_cong: "(\<And>x. x \<in> set xs \<Longrightarrow> f x = g x) \<Longrightarrow> map_option f (find P xs) = map_option g (find P xs)"
  by (induction xs) auto

lemma find_same:
  assumes "\<And>a c. a \<in> set xs \<Longrightarrow> c \<in> set xs \<Longrightarrow> P a \<Longrightarrow> P c \<Longrightarrow> a = c"
    and "\<And>a. P a \<Longrightarrow> a \<in> set xs \<longleftrightarrow> a \<in> set ys"
  shows "find P xs = find P ys"
proof (cases "\<exists>a\<in>set xs. P a")
  case True
  then obtain a where a: "a \<in> set xs" "P a" by blast
  then have "find P xs = Some a" using assms(1) by (intro find_the_only) auto
  moreover have "find P ys = Some a" using a assms by (intro find_the_only) blast+
  ultimately show ?thesis by simp
next
  case False
  then have "find P xs = None" "find P ys = None" using assms(2) by (auto simp: find_None_iff)
  then show ?thesis by simp
qed

context hash_key
begin

lemma one_entry:
  assumes "sole_entries eq s as" "a \<in> set as" "c \<in> set as" "eq k (key_of s a)" "eq k (key_of s c)"
  shows "a = c"
  using assms eq_sym eq_trans unfolding sole_entries_def by blast

lemma find_by_set:
  assumes "sole_entries eq s as" "\<And>a. eq k (key_of s a) \<Longrightarrow> a \<in> set as \<longleftrightarrow> a \<in> set cs"
  shows "find (\<lambda>a. eq k (key_of s a)) as = find (\<lambda>a. eq k (key_of s a)) cs"
  using assms(2) one_entry [OF assms(1)] by (intro find_same) auto

lemma lookup_perm: "sole_entries eq s as \<Longrightarrow> mset as = mset cs \<Longrightarrow> lookup_in eq s as = lookup_in eq s cs"
  using mset_eq_setD [of as cs] by (auto simp: lookup_in_def fun_eq_iff intro!: arg_cong [OF find_by_set])

lemma bucket_of_key:
  assumes "map_ok eq hash H s m" "i = unat (hash k) mod mapCapacity m"
  shows "i < length (buckets m) \<and>
    find_entry eq s k (chain_of (buckets m ! i)) = Inr (find (\<lambda>a. eq k (key_of s a)) (elements (buckets m))) \<and>
    find (\<lambda>a. eq k (key_of s a)) (elements (buckets m)) = find (\<lambda>a. eq k (key_of s a)) (chain_of (buckets m ! i))"
proof -
  have l: "length (buckets m) = mapCapacity m" "0 < mapCapacity m" and b: "buckets_ok hash s (buckets m)"
    and e: "sole_entries eq s (elements (buckets m))" using assms(1) by (auto simp: map_ok_def)
  have i: "i < length (buckets m)" using l assms(2) by simp
  have p: "present s (chain_of (buckets m ! i))"
    using sole_entries_present [OF e] elements_at [OF i] by (metis present_simps(3))
  have "find (\<lambda>a. eq k (key_of s a)) (elements (buckets m)) = find (\<lambda>a. eq k (key_of s a)) (chain_of (buckets m ! i))"
  proof (rule find_by_set [OF e])
    fix a assume "eq k (key_of s a)"
    then have "unat (hash (key_of s a)) mod length (buckets m) = i" using eq_hash l assms(2) by metis
    then show "a \<in> set (elements (buckets m)) \<longleftrightarrow> a \<in> set (chain_of (buckets m ! i))"
      using b i by (auto simp: in_elements buckets_ok_def)
  qed
  then show ?thesis using find_entry_eq [OF p] i by simp
qed

lemma GetEntry_ok:
  assumes "map_ok eq hash H s m" "mapCapacity m \<le> 2 ^ 31"
  shows "parcHashMap_GetEntry eq hash s m k = Inr (find (\<lambda>a. eq k (key_of s a)) (elements (buckets m)))"
proof -
  define i where "i = unat (hash k) mod mapCapacity m"
  have "0 < mapCapacity m" using assms(1) by (auto simp: map_ok_def)
  then have "parcHashMap_GetEntry eq hash s m k = find_entry eq s k (chain_of (buckets m ! i))"
    using bucket_of_key [OF assms(1) i_def] assms(2)
    by (auto simp: parcHashMap_GetEntry_def bucket_index_ok bucket_at_def i_def split: option.split)
  then show ?thesis using bucket_of_key [OF assms(1) i_def] by simp
qed

lemma Resize_ok:
  assumes m: "map_ok eq hash H s m" and c: "mapCapacity m < 2 ^ 32" "cap \<le> 2 ^ 31"
  shows "\<exists>m1. parcHashMap_Resize hash s m cap = Inr (s, m1) \<and> map_ok eq hash H s m1 \<and>
    map_of_hash eq s m1 = map_of_hash eq s m \<and> mapSize m1 = mapSize m \<and> minCapacity m1 = minCapacity m \<and>
    mapCapacity m1 = (if cap < minCapacity m then mapCapacity m else cap)"
proof (cases "cap < minCapacity m")
  case True
  then show ?thesis using m by (simp add: parcHashMap_Resize_def)
next
  case False
  have e: "sole_entries eq s (elements (buckets m))" and z: "0 < minCapacity m" using m by (auto simp: map_ok_def)
  have "buckets_ok hash s (replicate cap None)" by (simp add: buckets_ok_def)
  then obtain new where new: "move_buckets hash cap (buckets m) (replicate cap None) s = Inr (new, s)" "length new = cap"
      "buckets_ok hash s new" "mset (elements new) = mset (elements (buckets m))"
    using move_buckets_ok [of "buckets m" s cap "replicate cap None" hash] e c False z
    by (auto simp: sole_entries_def)
  let ?m = "m\<lparr>buckets := new, mapCapacity := cap\<rparr>"
  have "parcHashMap_Resize hash s m cap = Inr (s, ?m)" using new(1) False c by (simp add: parcHashMap_Resize_def loops_end_def)
  moreover have "map_ok eq hash H s ?m"
    using m new False sole_entries_perm [OF new(4)] mset_eq_length [OF new(4)]
    by (simp add: map_ok_def balanced_def)
  moreover have "map_of_hash eq s ?m = map_of_hash eq s m"
    using lookup_perm [OF e new(4) [symmetric]] by (simp add: map_of_hash_def)
  ultimately show ?thesis using False by simp
qed

end

section \<open>Adding and removing\<close>

lemma key_value_update [simp]:
  "key_of (s\<lparr>held := h\<rparr>) a = key_of s a" "value_of (s\<lparr>held := h\<rparr>) a = value_of s a"
  "key_of (set_entry s a e) c = (if c = a then entry_key e else key_of s c)"
  "value_of (set_entry s a e) c = (if c = a then entry_value e else value_of s c)"
  by (simp_all add: key_of_def value_of_def set_entry_def)

text \<open>The new entry of \<open>parcHashMap_Put\<close>, once the map alone holds it.\<close>

definition with_entry :: "entry_store \<Rightarrow> addr \<Rightarrow> addr \<Rightarrow> entry_store" where
  "with_entry s k v = s\<lparr>entries := (entries s)(next_entry s := Some \<lparr>entry_key = k, entry_value = v, entry_refs = 1\<rparr>),
     next_entry := next_entry s + 1, held := add_mset k (add_mset v (held s))\<rparr>"

lemma with_entry_simps [simp]:
  "key_of (with_entry s k v) a = (if a = next_entry s then k else key_of s a)"
  "value_of (with_entry s k v) a = (if a = next_entry s then v else value_of s a)"
  "entries (with_entry s k v) a =
    (if a = next_entry s then Some \<lparr>entry_key = k, entry_value = v, entry_refs = 1\<rparr> else entries s a)"
  "held (with_entry s k v) = add_mset k (add_mset v (held s))" "next_entry (with_entry s k v) = next_entry s + 1"
  by (simp_all add: with_entry_def key_of_def value_of_def)

lemma Put_new_entry:
  assumes "i < length bs"
  shows "append_entry bs i (next_entry s) (with_entry s k v) =
      Inr (bs[i := Some (chain_of (bs ! i) @ [next_entry s])], acquired [next_entry s] (with_entry s k v)) \<and>
    parcHashMapEntry_Release (acquired [next_entry s] (with_entry s k v)) (next_entry s) = Inr (with_entry s k v)"
  using assms append_entry_ok [of i bs "with_entry s k v" "next_entry s"]
    Release_acquired [of "with_entry s k v" "next_entry s" _ "[]"]
  by (simp add: with_entry_def)

context hash_key
begin

lemma new_entry_sole:
  assumes e: "sole_entries eq s as" and k: "eq copied k" and no: "\<And>c. c \<in> set as \<Longrightarrow> \<not> eq k (key_of s c)"
    and new: "next_entry s \<notin> set as"
  shows "sole_entries eq (with_entry s copied v) (next_entry s # as)"
proof (rule sole_entries_Cons)
  show "entries (with_entry s copied v) (next_entry s) = Some \<lparr>entry_key = copied, entry_value = v, entry_refs = 1\<rparr>" by simp
  show "sole_entries eq (with_entry s copied v) as" using e new by (subst sole_entries_cong [of as _ s]) auto
  fix c assume c: "c \<in> set as"
  then have "c \<noteq> next_entry s" using new by blast
  moreover have "\<not> eq copied (key_of s c)" "\<not> eq (key_of s c) copied" using no [OF c] k eq_sym eq_trans by blast+
  ultimately show "\<not> eq (key_of (with_entry s copied v) (next_entry s)) (key_of (with_entry s copied v) c) \<and>
      \<not> eq (key_of (with_entry s copied v) c) (key_of (with_entry s copied v) (next_entry s))" by simp
qed (use new in simp_all)

lemma add_entry_ok:
  assumes m: "map_ok eq hash H s m" and k: "eq copied k" and new: "map_of_hash eq s m k = None"
    and i: "i = unat (hash k) mod mapCapacity m"
  defines "m1 \<equiv> m\<lparr>buckets := (buckets m)[i := Some (chain_of (buckets m ! i) @ [next_entry s])], mapSize := mapSize m + 1\<rparr>"
  shows "map_ok eq hash H (with_entry s copied v) m1 \<and>
    map_of_hash eq (with_entry s copied v) m1 = (\<lambda>k1. if eq k1 k then Some v else map_of_hash eq s m k1)"
proof -
  let ?s = "with_entry s copied v" and ?a = "next_entry s" and ?es = "elements (buckets m)"
  have l: "length (buckets m) = mapCapacity m" "0 < mapCapacity m" and b: "buckets_ok hash s (buckets m)"
    and e: "sole_entries eq s ?es" and f: "\<forall>a. entries s a \<noteq> None \<longrightarrow> a < ?a"
    and h: "balanced H s ?es" and z: "mapSize m = length ?es" using m by (auto simp: map_ok_def)
  have il: "i < length (buckets m)" using l i by simp
  have old: "c < ?a" if "c \<in> set ?es" for c
  proof -
    have "entries s c \<noteq> None" using e that by (auto simp: sole_entries_def)
    then show ?thesis using f by blast
  qed
  then have "?a \<notin> set ?es" by blast
  have m1: "mset (elements (buckets m1)) = add_mset ?a (mset ?es)" using elements_append [OF il] by (simp add: m1_def)
  have no: "\<not> eq k (key_of s c)" if "c \<in> set ?es" for c
    using new that by (auto simp: map_of_hash_def lookup_in_def find_None_iff)
  have "buckets_ok hash ?s (buckets m)"
    using b old il by (auto simp: buckets_ok_def in_elements)
  then have b1: "buckets_ok hash ?s (buckets m1)"
    using buckets_ok_append [of hash ?s "buckets m" i ?a] il eq_hash [OF k] l i by (simp add: m1_def)
  have "sole_entries eq ?s (?a # ?es)" using new_entry_sole [OF e k no] \<open>?a \<notin> set ?es\<close> by blast
  then have e1: "sole_entries eq ?s (elements (buckets m1))"
    using sole_entries_perm [of "elements (buckets m1)" "?a # ?es" eq ?s] m1 by (metis mset.simps(2))
  have "image_mset (key_of ?s) (mset ?es) = image_mset (key_of s) (mset ?es)"
    "image_mset (value_of ?s) (mset ?es) = image_mset (value_of s) (mset ?es)"
    using \<open>?a \<notin> set ?es\<close> by (auto intro!: image_mset_cong)
  then have h1: "balanced H ?s (elements (buckets m1))" using h m1 by (simp add: balanced_def)
  have "size (mset (elements (buckets m1))) = Suc (length ?es)" by (simp only: m1) simp
  then have "map_ok eq hash H ?s m1"
    using m b1 e1 h1 f by (auto simp: map_ok_def m1_def less_Suc_eq)
  moreover have "lookup_in eq ?s (?a # ?es) = (\<lambda>k1. if eq k1 k then Some v else lookup_in eq s ?es k1)"
  proof
    fix k1
    have "eq k1 copied \<longleftrightarrow> eq k1 k" using k eq_sym eq_trans by blast
    moreover have "find (\<lambda>c. eq k1 (key_of ?s c)) ?es = find (\<lambda>c. eq k1 (key_of s c)) ?es"
      using \<open>?a \<notin> set ?es\<close> by (intro find_cong) auto
    moreover have "map_option (value_of ?s) (find P ?es) = map_option (value_of s) (find P ?es)" for P
      using \<open>?a \<notin> set ?es\<close> by (intro map_find_cong) auto
    ultimately show "lookup_in eq ?s (?a # ?es) k1 = (if eq k1 k then Some v else lookup_in eq s ?es k1)"
      by (simp add: lookup_in_def)
  qed
  ultimately show ?thesis
    unfolding map_of_hash_def using lookup_perm [OF e1, of "?a # ?es"] m1 by simp
qed

end

text \<open>The entry with another value.\<close>

definition with_value :: "entry_store \<Rightarrow> addr \<Rightarrow> addr \<Rightarrow> entry_store" where
  "with_value s a v =
    set_entry (s\<lparr>held := add_mset v (held s - {#value_of s a#})\<rparr>) a ((the (entries s a))\<lparr>entry_value := v\<rparr>)"

lemma with_value_simps [simp]:
  "key_of (with_value s a v) c = key_of s c" "value_of (with_value s a v) c = (if c = a then v else value_of s c)"
  "held (with_value s a v) = add_mset v (held s - {#value_of s a#})" "next_entry (with_value s a v) = next_entry s"
  "entries (with_value s a v) c = (if c = a then Some ((the (entries s a))\<lparr>entry_value := v\<rparr>) else entries s c)"
  by (simp_all add: with_value_def) (simp_all add: key_of_def set_entry_def)

text \<open>The store without the entry.\<close>

definition dropped :: "entry_store \<Rightarrow> addr \<Rightarrow> entry_store" where
  "dropped s a = s\<lparr>entries := (entries s)(a := None), held := held s - {#key_of s a#} - {#value_of s a#}\<rparr>"

lemma dropped_simps [simp]:
  "c \<noteq> a \<Longrightarrow> key_of (dropped s a) c = key_of s c" "c \<noteq> a \<Longrightarrow> value_of (dropped s a) c = value_of s c"
  "entries (dropped s a) c = (if c = a then None else entries s c)" "next_entry (dropped s a) = next_entry s"
  by (simp_all add: dropped_def key_of_def value_of_def)

lemma Release_dropped: "entries s a = Some e \<Longrightarrow> entry_refs e = 1 \<Longrightarrow> parcHashMapEntry_Release s a = Inr (dropped s a)"
  by (simp add: parcHashMapEntry_Release_def parcHashMapEntry_Finalize_def entry_at_def dropped_def key_of_def value_of_def)

lemma balanced_dropped:
  assumes "balanced H s as" "mset as = add_mset a (mset cs)" "a \<notin> set cs"
  shows "balanced H (dropped s a) cs"
proof -
  have "image_mset (key_of (dropped s a)) (mset cs) = image_mset (key_of s) (mset cs)"
    "image_mset (value_of (dropped s a)) (mset cs) = image_mset (value_of s) (mset cs)"
    using assms(3) by (metis dropped_simps(1,2) image_mset_cong set_mset_mset)+
  then show ?thesis using assms(1,2) by (simp add: balanced_def) (simp add: dropped_def)
qed

context hash_key
begin

lemma change_value_ok:
  assumes m: "map_ok eq hash H s m" and a: "a \<in> set (elements (buckets m))" and k: "eq k (key_of s a)"
  shows "map_ok eq hash H (with_value s a v) m \<and>
    map_of_hash eq (with_value s a v) m = (\<lambda>k1. if eq k1 k then Some v else map_of_hash eq s m k1)"
proof -
  let ?s = "with_value s a v" and ?es = "elements (buckets m)"
  have e: "sole_entries eq s ?es" and h: "balanced H s ?es" and f: "\<forall>a. entries s a \<noteq> None \<longrightarrow> a < next_entry s"
    using m by (auto simp: map_ok_def)
  have some: "entries s a \<noteq> None" "entry_refs (the (entries s a)) = 1" using e a by (auto simp: sole_entries_def)
  have e1: "sole_entries eq ?s ?es"
    using e some by (auto simp: sole_entries_def)
  have r: "mset ?es = add_mset a (mset (remove1 a ?es))" using a by simp
  have "a \<notin> set (remove1 a ?es)" using e by (simp add: sole_entries_def)
  then have "image_mset (value_of ?s) (mset (remove1 a ?es)) = image_mset (value_of s) (mset (remove1 a ?es))"
    by (intro image_mset_cong) (auto simp del: mset_remove1)
  moreover have "key_of ?s = key_of s" by (simp add: fun_eq_iff)
  ultimately have h1: "balanced H ?s ?es" using h by (simp add: balanced_def r del: mset_remove1)
  have "buckets_ok hash ?s (buckets m) = buckets_ok hash s (buckets m)" by (simp add: buckets_ok_def)
  then have "map_ok eq hash H ?s m"
    using m e1 h1 f some by (auto simp: map_ok_def)
  moreover have "map_of_hash eq ?s m k1 = (if eq k1 k then Some v else map_of_hash eq s m k1)" for k1
  proof (cases "eq k1 k")
    case True
    then have "find (\<lambda>c. eq k1 (key_of s c)) ?es = Some a"
      using a k eq_trans one_entry [OF e] by (intro find_the_only) blast+
    then show ?thesis using True by (simp add: map_of_hash_def lookup_in_def)
  next
    case False
    then have "\<not> eq k1 (key_of s a)" using k eq_sym eq_trans by blast
    then have "find (\<lambda>c. eq k1 (key_of s c)) ?es \<noteq> Some a" by (auto simp: find_Some_iff)
    then show ?thesis using False by (cases "find (\<lambda>c. eq k1 (key_of s c)) ?es") (auto simp: map_of_hash_def lookup_in_def)
  qed
  ultimately show ?thesis by blast
qed

lemma drop_entry_ok:
  assumes m: "map_ok eq hash H s m" and a: "a \<in> set (chain_of (buckets m ! i))" and i: "i < mapCapacity m" and k: "eq k (key_of s a)"
  defines "m1 \<equiv> m\<lparr>buckets := (buckets m)[i := Some (remove1 a (chain_of (buckets m ! i)))], mapSize := mapSize m - 1\<rparr>"
  shows "parcHashMapEntry_Release s a = Inr (dropped s a) \<and> map_ok eq hash H (dropped s a) m1 \<and>
    map_of_hash eq (dropped s a) m1 = (\<lambda>k1. if eq k1 k then None else map_of_hash eq s m k1)"
proof -
  let ?s = "dropped s a" and ?es = "elements (buckets m)" and ?ds = "elements (buckets m1)"
  have l: "length (buckets m) = mapCapacity m" and b: "buckets_ok hash s (buckets m)"
    and e: "sole_entries eq s ?es" and h: "balanced H s ?es" and z: "mapSize m = length ?es" using m by (auto simp: map_ok_def)
  have ain: "a \<in> set ?es" using a i l by (auto simp: in_elements)
  have "mset ?ds + mset (chain_of (buckets m ! i)) =
      mset ?es + (mset (chain_of (buckets m ! i)) - {#a#})"
    using elements_update [of i "buckets m" "Some (remove1 a (chain_of (buckets m ! i)))"] i l by (simp add: m1_def)
  moreover have "mset (chain_of (buckets m ! i)) = add_mset a (mset (chain_of (buckets m ! i)) - {#a#})"
    using a by simp
  ultimately have m1: "mset ?es = mset (a # ?ds)"
    by (metis add_mset_add_single add_right_cancel mset.simps(2) union_mset_add_mset_right union_mset_add_mset_left)
  have d: "distinct (a # ?ds)" "set ?es = insert a (set ?ds)"
    using e mset_eq_imp_distinct_iff [OF m1] mset_eq_setD [OF m1] by (auto simp: sole_entries_def)
  have ne: "c \<noteq> a" if "c \<in> set ?ds" for c using d(1) that by auto
  then have e1: "sole_entries eq ?s ?ds" using e d by (auto simp: sole_entries_def)
  have "buckets_ok hash s (buckets m1)"
    using b i l by (auto simp: m1_def buckets_ok_def nth_list_update dest: notin_set_remove1)
  then have "buckets_ok hash ?s (buckets m1)"
    using ne by (simp add: buckets_ok_def) (metis dropped_simps(1) in_elements)
  moreover have "length ?es = Suc (length ?ds)" using mset_eq_length [OF m1] by simp
  ultimately have "map_ok eq hash H ?s m1"
    using m e1 balanced_dropped [OF h, of a ?ds] m1 d by (auto simp: map_ok_def m1_def)
  moreover have "parcHashMapEntry_Release s a = Inr ?s"
    using e ain Release_dropped unfolding sole_entries_def by blast
  moreover have "lookup_in eq ?s ?ds k1 = (if eq k1 k then None else lookup_in eq s ?es k1)" for k1
  proof -
    have same: "find (\<lambda>c. eq k1 (key_of ?s c)) ?ds = find (\<lambda>c. eq k1 (key_of s c)) ?ds"
      using ne by (intro find_cong) auto
    show ?thesis
    proof (cases "eq k1 k")
      case True
      then have "eq k1 (key_of s a)" using k eq_trans by blast
      then have "\<not> eq k1 (key_of s c)" if "c \<in> set ?ds" for c
        using one_entry [OF e ain, of c k1] ne [OF that] that d(2) by blast
      then have "find (\<lambda>c. eq k1 (key_of s c)) ?ds = None" by (auto simp: find_None_iff)
      then show ?thesis using True same by (simp add: lookup_in_def)
    next
      case False
      then have "\<not> eq k1 (key_of s a)" using k eq_sym eq_trans by blast
      then have "find (\<lambda>c. eq k1 (key_of s c)) ?es = find (\<lambda>c. eq k1 (key_of s c)) ?ds"
        using d by (intro find_by_set [OF e]) auto
      moreover have "map_option (value_of ?s) (find P ?ds) = map_option (value_of s) (find P ?ds)" for P
        using ne by (intro map_find_cong) auto
      ultimately show ?thesis using False same by (simp add: lookup_in_def)
    qed
  qed
  ultimately show ?thesis by (simp add: map_of_hash_def fun_eq_iff)
qed

end

section \<open>The operations on the map\<close>

context hash_key
begin

lemma entry_of:
  assumes "map_ok eq hash H s m"
  shows "map_of_hash eq s m k = None \<Longrightarrow> find (\<lambda>a. eq k (key_of s a)) (elements (buckets m)) = None"
    and "map_of_hash eq s m k = Some v \<Longrightarrow> \<exists>a\<in>set (elements (buckets m)). eq k (key_of s a) \<and> value_of s a = v \<and>
      entries s a \<noteq> None \<and> find (\<lambda>a. eq k (key_of s a)) (elements (buckets m)) = Some a"
proof -
  show "map_of_hash eq s m k = None \<Longrightarrow> find (\<lambda>a. eq k (key_of s a)) (elements (buckets m)) = None"
    by (simp add: map_of_hash_def lookup_in_def)
  assume "map_of_hash eq s m k = Some v"
  then obtain a where a: "find (\<lambda>a. eq k (key_of s a)) (elements (buckets m)) = Some a" "value_of s a = v"
    by (auto simp: map_of_hash_def lookup_in_def)
  then have "a \<in> set (elements (buckets m))" "eq k (key_of s a)" by (auto simp: find_Some_iff)
  moreover have "entries s a \<noteq> None" using assms calculation(1) by (auto simp: map_ok_def sole_entries_def)
  ultimately show "\<exists>a\<in>set (elements (buckets m)). eq k (key_of s a) \<and> value_of s a = v \<and>
      entries s a \<noteq> None \<and> find (\<lambda>a. eq k (key_of s a)) (elements (buckets m)) = Some a" using a by blast
qed

lemma map_of_hash_eq: "eq k1 k \<Longrightarrow> map_of_hash eq s m k1 = map_of_hash eq s m k"
proof -
  assume "eq k1 k"
  then have "(\<lambda>a. eq k1 (key_of s a)) = (\<lambda>a. eq k (key_of s a))" using eq_sym eq_trans by blast
  then show ?thesis by (simp add: map_of_hash_def lookup_in_def)
qed

lemma unchanged_map:
  "map_of_hash eq s m k = x \<Longrightarrow> (\<lambda>k1. if eq k1 k then x else map_of_hash eq s m k1) = map_of_hash eq s m"
  by (rule ext) (metis map_of_hash_eq)

lemma Get_Contains_ok:
  assumes "map_ok eq hash H s m" "mapCapacity m \<le> 2 ^ 31"
  shows "parcHashMap_Get eq hash s m k = Inr (map_of_hash eq s m k) \<and>
    parcHashMap_Contains eq hash s m k = Inr (map_of_hash eq s m k \<noteq> None)"
  using GetEntry_ok [OF assms, of k] entry_of [OF assms(1), of k]
  by (cases "map_of_hash eq s m k")
    (auto simp: parcHashMap_Get_def parcHashMap_Contains_def entry_at_present value_of_def)

lemma Put_ok:
  assumes m: "map_ok eq hash H s m" and c: "mapCapacity m \<le> 2 ^ 31" and z: "mapSize m < 2 ^ 29" and k: "eq copied k"
  shows "\<exists>s1 m1. parcHashMap_Put eq hash copied s m k v = Inr (s1, m1) \<and> map_ok eq hash H s1 m1 \<and>
    map_of_hash eq s1 m1 = (\<lambda>k1. if eq k1 k then Some v else map_of_hash eq s m k1) \<and>
    mapSize m1 = (if map_of_hash eq s m k = None then mapSize m + 1 else mapSize m) \<and> mapCapacity m1 \<le> 2 ^ 31"
proof -
  define resized where "resized = (if too_full m then parcHashMap_Resize hash s m (mapCapacity m * 2) else Inr (s, m))"
  obtain m0 where r: "resized = Inr (s, m0)" and m0: "map_ok eq hash H s m0" and same: "map_of_hash eq s m0 = map_of_hash eq s m"
    "mapSize m0 = mapSize m" and c0: "mapCapacity m0 \<le> 2 ^ 31"
    using Resize_ok [OF m, of "mapCapacity m * 2"] m c z
    by (cases "too_full m") (auto simp: resized_def too_full_def split: if_splits)
  have put: "parcHashMap_Put eq hash copied s m k v = rbind resized (\<lambda>(s1, m1).
    rbind (parcHashMap_GetEntry eq hash s1 m1 k) (\<lambda>entry.
    case entry of
      Some a \<Rightarrow>
        rbind (entry_at s1 a) (\<lambda>e.
        if entry_value e \<noteq> v
        then let s2 = s1\<lparr>held := add_mset v (held s1 - {#entry_value e#})\<rparr> in
          Inr (set_entry s2 a (e\<lparr>entry_value := v\<rparr>), m1)
        else Inr (s1, m1))
    | None \<Rightarrow>
        let (a, s2) = parcHashMapEntry_Create s1 copied v in
        rbind (bucket_index hash (mapCapacity m1) k) (\<lambda>i.
        rbind (append_entry (buckets m1) i a s2) (\<lambda>(bs, s3).
        rbind (parcHashMapEntry_Release s3 a) (\<lambda>s4.
        Inr (s4, m1\<lparr>buckets := bs, mapSize := mapSize m1 + 1\<rparr>))))))"
    by (simp only: parcHashMap_Put_def resized_def)
  show ?thesis
  proof (cases "map_of_hash eq s m0 k")
    case None
    define i where "i = unat (hash k) mod mapCapacity m0"
    have l: "0 < mapCapacity m0" "length (buckets m0) = mapCapacity m0" using m0 by (auto simp: map_ok_def)
    then have i: "i < length (buckets m0)" by (simp add: i_def)
    have "parcHashMapEntry_Create s copied v = (next_entry s, with_entry s copied v)"
      by (simp add: parcHashMapEntry_Create_def with_entry_def)
    then have "parcHashMap_Put eq hash copied s m k v = Inr (with_entry s copied v,
        m0\<lparr>buckets := (buckets m0)[i := Some (chain_of (buckets m0 ! i) @ [next_entry s])], mapSize := mapSize m0 + 1\<rparr>)"
      using Put_new_entry [OF i, of s copied v] r
        GetEntry_ok [OF m0 c0, of k] entry_of(1) [OF m0 None] bucket_index_ok [OF l(1) c0, of hash k]
      by (simp add: put i_def)
    then show ?thesis using add_entry_ok [OF m0 k None i_def, of v, unfolded same] same c0 None by simp
  next
    case (Some w)
    then obtain a where a: "a \<in> set (elements (buckets m0))" "eq k (key_of s a)" "value_of s a = w" "entries s a \<noteq> None"
      "find (\<lambda>a. eq k (key_of s a)) (elements (buckets m0)) = Some a" using entry_of(2) [OF m0] by blast
    have g: "parcHashMap_Put eq hash copied s m k v = (if w \<noteq> v then Inr (with_value s a v, m0) else Inr (s, m0))"
      using r a GetEntry_ok [OF m0 c0, of k] by (auto simp: put entry_at_present with_value_def value_of_def)
    have "(\<lambda>k1. if eq k1 k then Some v else map_of_hash eq s m k1) = map_of_hash eq s m" if "w = v"
      using Some that same(1) unchanged_map [of s m k "Some v"] by simp
    then show ?thesis
      using change_value_ok [OF m0 a(1,2), of v, unfolded same] m0 g same c0 Some by (cases "w = v") simp_all
  qed
qed

lemma Remove_ok:
  assumes m: "map_ok eq hash H s m" and c: "mapCapacity m \<le> 2 ^ 31"
  shows "\<exists>s1 m1. parcHashMap_Remove eq hash s m k = Inr (map_of_hash eq s m k \<noteq> None, s1, m1) \<and> map_ok eq hash H s1 m1 \<and>
    map_of_hash eq s1 m1 = (\<lambda>k1. if eq k1 k then None else map_of_hash eq s m k1) \<and>
    mapSize m1 = (if map_of_hash eq s m k = None then mapSize m else mapSize m - 1) \<and> mapCapacity m1 \<le> 2 ^ 31"
proof -
  have resize: "\<exists>m1. (if too_empty m0 then parcHashMap_Resize hash s0 m0 (mapCapacity m0 div 2) else Inr (s0, m0)) = Inr (s0, m1) \<and>
      map_ok eq hash H s0 m1 \<and> map_of_hash eq s0 m1 = map_of_hash eq s0 m0 \<and> mapSize m1 = mapSize m0 \<and>
      mapCapacity m1 \<le> 2 ^ 31" if "map_ok eq hash H s0 m0" "mapCapacity m0 \<le> 2 ^ 31" for s0 m0
    using Resize_ok [OF that(1), of "mapCapacity m0 div 2"] that div_le_dividend [of "mapCapacity m0" 2]
    by (cases "too_empty m0") (auto simp del: div_le_dividend)
  define i where "i = unat (hash k) mod mapCapacity m"
  have l: "0 < mapCapacity m" "length (buckets m) = mapCapacity m" using m by (auto simp: map_ok_def)
  let ?f = "find (\<lambda>a. eq k (key_of s a)) (elements (buckets m))" and ?as = "chain_of (buckets m ! i)"
  have i: "i < mapCapacity m" "find_entry eq s k ?as = Inr ?f" "?f = find (\<lambda>a. eq k (key_of s a)) ?as"
    using bucket_of_key [OF m i_def] l by auto
  define removed where "removed = (case ?f of None \<Rightarrow> (False, s, m)
    | Some a \<Rightarrow> (True, dropped s a, m\<lparr>buckets := (buckets m)[i := Some (remove1 a ?as)], mapSize := mapSize m - 1\<rparr>))"
  have ok: "fst removed = (map_of_hash eq s m k \<noteq> None) \<and> map_ok eq hash H (fst (snd removed)) (snd (snd removed)) \<and>
      map_of_hash eq (fst (snd removed)) (snd (snd removed)) = (\<lambda>k1. if eq k1 k then None else map_of_hash eq s m k1) \<and>
      mapSize (snd (snd removed)) = (if map_of_hash eq s m k = None then mapSize m else mapSize m - 1) \<and>
      mapCapacity (snd (snd removed)) = mapCapacity m \<and>
      (\<forall>a. ?f = Some a \<longrightarrow> a \<in> set ?as \<and> parcHashMapEntry_Release s a = Inr (dropped s a))"
  proof (cases ?f)
    case None
    then have "map_of_hash eq s m k = None" by (simp add: map_of_hash_def lookup_in_def)
    then show ?thesis using None m unchanged_map [of s m k None] by (simp add: removed_def)
  next
    case (Some a)
    then have a: "a \<in> set ?as" "eq k (key_of s a)" using i(3) by (auto simp: find_Some_iff)
    then show ?thesis
      using drop_entry_ok [OF m a(1) i(1) a(2)] Some by (simp add: removed_def map_of_hash_def lookup_in_def)
  qed
  then have "\<forall>a. ?f = Some a \<longrightarrow> a \<in> set ?as \<and> parcHashMapEntry_Release s a = Inr (dropped s a)" by blast
  moreover have "size_down (mapSize m) = mapSize m - 1" if "?f = Some a" for a
    using m that by (cases "elements (buckets m)") (auto simp: map_ok_def size_down_def)
  ultimately have "parcHashMap_Remove eq hash s m k = rbind (Inr removed) (\<lambda>(result, s1, m1).
    rbind (if too_empty m1 then parcHashMap_Resize hash s1 m1 (mapCapacity m1 div 2) else Inr (s1, m1)) (\<lambda>(s2, m2).
    Inr (result, s2, m2)))"
    using i(1,2) l bucket_index_ok [OF l(1) c, of hash k]
    by (cases "buckets m ! i"; cases ?f) (simp_all add: parcHashMap_Remove_def bucket_at_def i_def [symmetric] removed_def)
  then show ?thesis using resize [of "fst (snd removed)" "snd (snd removed)"] ok c by (cases removed) auto
qed

end

section \<open>Refinement of a map\<close>

datatype map_call = MapPut addr addr | MapGet addr | MapContains addr | MapRemove addr | MapSize

text \<open>\<open>copy s k\<close> is the object that \<open>parcObject_Copy\<close> gives for the key \<open>k\<close> in the state \<open>s\<close>.\<close>

fun hash_map_step ::
  "(addr \<Rightarrow> addr \<Rightarrow> bool) \<Rightarrow> (addr \<Rightarrow> PARCHashCode) \<Rightarrow> (entry_store \<Rightarrow> addr \<Rightarrow> addr) \<Rightarrow> entry_store \<times> hash_map \<Rightarrow> map_call
    \<Rightarrow> (call_value \<times> entry_store \<times> hash_map) result" where
  "hash_map_step eq hash copy (s, m) (MapPut k v) =
    rbind (parcHashMap_Put eq hash (copy s k) s m k v) (\<lambda>r. Inr (Nothing, r))"
| "hash_map_step eq hash copy (s, m) (MapGet k) = rbind (parcHashMap_Get eq hash s m k) (\<lambda>p. Inr (Pointer p, s, m))"
| "hash_map_step eq hash copy (s, m) (MapContains k) = rbind (parcHashMap_Contains eq hash s m k) (\<lambda>b. Inr (Truth b, s, m))"
| "hash_map_step eq hash copy (s, m) (MapRemove k) = rbind (parcHashMap_Remove eq hash s m k) (\<lambda>(b, r). Inr (Truth b, r))"
| "hash_map_step eq hash copy (s, m) MapSize = Inr (Number (of_nat (parcHashMap_Size m)), s, m)"

text \<open>The calls on a partial function and its number of keys, where equal keys are the same.\<close>

fun hash_map_spec ::
  "(addr \<Rightarrow> addr \<Rightarrow> bool) \<Rightarrow> (addr \<Rightarrow> ptr) \<times> nat \<Rightarrow> map_call \<Rightarrow> (call_value \<times> (addr \<Rightarrow> ptr) \<times> nat) result" where
  "hash_map_spec eq (x, n) (MapPut k v) =
    Inr (Nothing, (\<lambda>k1. if eq k1 k then Some v else x k1), if x k = None then n + 1 else n)"
| "hash_map_spec eq (x, n) (MapGet k) = Inr (Pointer (x k), x, n)"
| "hash_map_spec eq (x, n) (MapContains k) = Inr (Truth (x k \<noteq> None), x, n)"
| "hash_map_spec eq (x, n) (MapRemove k) =
    Inr (Truth (x k \<noteq> None), (\<lambda>k1. if eq k1 k then None else x k1), if x k = None then n else n - 1)"
| "hash_map_spec eq (x, n) MapSize = Inr (Number (of_nat n), x, n)"

text \<open>
  A map of at most \<open>2 ^ 29\<close> entries has at most \<open>2 ^ 31\<close> buckets, unless it was created with more.
\<close>

definition hash_map_represents ::
  "(addr \<Rightarrow> addr \<Rightarrow> bool) \<Rightarrow> (addr \<Rightarrow> PARCHashCode) \<Rightarrow> addr multiset \<Rightarrow> nat \<Rightarrow> entry_store \<times> hash_map
    \<Rightarrow> (addr \<Rightarrow> ptr) \<times> nat \<Rightarrow> bool" where
  "hash_map_represents eq hash H n = (\<lambda>(s, m) (x, c).
    map_ok eq hash H s m \<and> map_of_hash eq s m = x \<and> mapSize m = c \<and> mapSize m + n \<le> 2 ^ 29 \<and> mapCapacity m \<le> 2 ^ 31)"

text \<open>Keys with a copy function: a copy is equal to its original.\<close>

locale copied_key = hash_key +
  fixes copy :: "entry_store \<Rightarrow> addr \<Rightarrow> addr"
  assumes copy_eq: "eq (copy s k) k"
begin

lemma hash_map_step_agrees:
  assumes "hash_map_represents eq hash H (Suc n) (s, m) (x, l)"
  shows "agree (hash_map_represents eq hash H n) (hash_map_step eq hash copy (s, m) c) (hash_map_spec eq (x, l) c)"
proof -
  have m: "map_ok eq hash H s m" "mapCapacity m \<le> 2 ^ 31" and x: "map_of_hash eq s m = x" "mapSize m = l"
    and z: "mapSize m + Suc n \<le> 2 ^ 29" using assms by (auto simp: hash_map_represents_def)
  show ?thesis
  proof (cases c)
    case (MapPut k v)
    then show ?thesis
      using Put_ok [OF m _ copy_eq, of s k v] z x by (auto simp: hash_map_represents_def)
  next
    case (MapRemove k)
    then show ?thesis using Remove_ok [OF m, of k] z x by (auto simp: hash_map_represents_def)
  qed (use m x z Get_Contains_ok [OF m] in \<open>auto simp: hash_map_represents_def parcHashMap_Size_def\<close>)
qed

end

sublocale copied_key \<subseteq> hash_map: simulation "hash_map_step eq hash copy" "hash_map_spec eq" "hash_map_represents eq hash H" for H
proof unfold_locales
  fix n :: nat and s x c
  assume "hash_map_represents eq hash H (Suc n) s x"
  then show "agree (hash_map_represents eq hash H n) (hash_map_step eq hash copy s c) (hash_map_spec eq x c)"
    using hash_map_step_agrees by (cases s; cases x) auto
qed

context copied_key
begin

lemma hash_map_runs:
  "hash_map_represents eq hash H (n + length cs) s x \<Longrightarrow>
    agree (hash_map_represents eq hash H n) (run_all (hash_map_step eq hash copy) s cs) (run_all (hash_map_spec eq) x cs)"
  by (rule hash_map.run_all_agrees)

end

text \<open>
  Byte strings in a memory where the object at \<open>a\<close> and its copies at \<open>a + n\<close>, \<open>a + 2 * n\<close> and so on have the same bytes.
\<close>

definition copies_of :: "nat \<Rightarrow> (addr \<Rightarrow> u8 list) \<Rightarrow> addr \<Rightarrow> u8 list" where
  "copies_of n mem a = mem (a mod n)"

definition next_copy :: "nat \<Rightarrow> entry_store \<Rightarrow> addr \<Rightarrow> addr" where
  "next_copy n s a = a + n * (next_entry s + 1)"

interpretation bytes_copied: copied_key "bytes_equal (copies_of n mem)" "bytes_hash (copies_of n mem)" "next_copy n"
  by unfold_locales (simp add: bytes_equal_def copies_of_def next_copy_def del: mult_Suc_right add_mult_distrib2)

lemma release_list_ok:
  assumes "sole_entries eq s (as @ cs)" "balanced H s (as @ cs)"
  shows "\<exists>s1. release_list as s = Inr s1 \<and> sole_entries eq s1 cs \<and> balanced H s1 cs"
  using assms
proof (induction as arbitrary: s)
  case Nil
  then show ?case by simp
next
  case (Cons a as)
  have new: "a \<notin> set (as @ cs)" and e: "sole_entries eq s (as @ cs)" using Cons.prems(1) by (auto simp: sole_entries_def)
  have "parcHashMapEntry_Release s a = Inr (dropped s a)"
    using Cons.prems(1) Release_dropped unfolding sole_entries_def by auto
  moreover have "sole_entries eq (dropped s a) (as @ cs)"
    using e new by (subst sole_entries_cong [of "as @ cs" _ s]) auto
  moreover have "balanced H (dropped s a) (as @ cs)" using balanced_dropped [OF Cons.prems(2), of a "as @ cs"] new by simp
  ultimately show ?case using Cons.IH [of "dropped s a"] by simp
qed

lemma release_buckets_ok:
  assumes "sole_entries eq s (elements bs)" "balanced H s (elements bs)"
  shows "\<exists>s1. release_buckets bs s = Inr s1 \<and> held s1 = H"
  using assms
proof (induction bs arbitrary: s)
  case Nil
  then show ?case by (simp add: balanced_def)
next
  case (Cons b bs)
  then obtain s1 where "release_list (chain_of b) s = Inr s1" "sole_entries eq s1 (elements bs)" "balanced H s1 (elements bs)"
    using release_list_ok [of eq s "chain_of b" "elements bs" H] by auto
  then show ?case using Cons.IH [of s1] by (cases b) auto
qed

lemma Finalize_ok:
  assumes "map_ok eq hash H s m" "mapCapacity m \<le> 2 ^ 31"
  shows "\<exists>s1. parcHashMap_Finalize s m = Inr s1 \<and> held s1 = H"
  using assms release_buckets_ok [of eq s "buckets m" H] by (auto simp: map_ok_def parcHashMap_Finalize_def loops_end_def)

lemma CreateCapacity_ok:
  assumes "unat n \<le> 2 ^ 31" "\<forall>a. entries s a \<noteq> None \<longrightarrow> a < next_entry s"
  shows "\<exists>m. parcHashMap_CreateCapacity True n = Some m \<and> map_ok eq hash (held s) s m \<and> map_of_hash eq s m = (\<lambda>_. None) \<and>
    mapSize m = 0 \<and> mapCapacity m \<le> 2 ^ 31"
  using assms unat_eq_zero [of n]
  by (auto simp: parcHashMap_CreateCapacity_def DEFAULT_CAPACITY_def map_ok_def buckets_ok_def sole_entries_def balanced_def
      map_of_hash_def lookup_in_def Let_def)

text \<open>
  C26: A sequence of calls on a new hash map, with keys whose equality and hash code agree, returns what the calls return on a partial
  function of the keys, through every doubling and halving of the buckets, and never traps. At any time the map can be
  finalized, and then every reference to a key or a value that the map took has been given back.
\<close>

theorem parcHashMap_refines_map:
  assumes "copied_key eq hash copy" "unat n \<le> 2 ^ 31" "length cs \<le> 2 ^ 29" "\<forall>a. entries s a \<noteq> None \<longrightarrow> a < next_entry s"
  shows "\<exists>m. parcHashMap_CreateCapacity True n = Some m \<and>
    agree (\<lambda>(s1, m1) (x, c). map_of_hash eq s1 m1 = x \<and> mapSize m1 = c \<and>
        (\<exists>s2. parcHashMap_Finalize s1 m1 = Inr s2 \<and> held s2 = held s))
      (run_all (hash_map_step eq hash copy) (s, m) cs) (run_all (hash_map_spec eq) (\<lambda>_. None, 0) cs)"
proof -
  obtain m where m: "parcHashMap_CreateCapacity True n = Some m" "map_ok eq hash (held s) s m" "map_of_hash eq s m = (\<lambda>_. None)"
    "mapSize m = 0" "mapCapacity m \<le> 2 ^ 31" using CreateCapacity_ok [OF assms(2,4)] by blast
  then have "hash_map_represents eq hash (held s) (0 + length cs) (s, m) (\<lambda>_. None, 0)"
    using assms(3) by (simp add: hash_map_represents_def)
  then have "agree (hash_map_represents eq hash (held s) 0) (run_all (hash_map_step eq hash copy) (s, m) cs)
      (run_all (hash_map_spec eq) (\<lambda>_. None, 0) cs)"
    by (rule copied_key.hash_map_runs [OF assms(1)])
  then show ?thesis
    using m(1) Finalize_ok [of eq hash "held s"]
    by (auto simp: agree_def hash_map_represents_def split: sum.splits prod.splits)
qed

definition empty_store :: entry_store where
  "empty_store = \<lparr>entries = (\<lambda>_. None), next_entry = 0, held = {#}\<rparr>"

lemma agree_right: "agree R r (Inr (v, x)) \<longleftrightarrow> (\<exists>s. r = Inr (v, s) \<and> R s x)"
  by (cases r) auto

theorem parcHashMap_refines_map_witness:
  "let mem = copies_of 4 (\<lambda>a. [of_nat a]); eq = bytes_equal mem; hash = bytes_hash mem;
     cs = [MapPut 1 10, MapPut 5 11, MapPut 2 12, MapGet 1, MapRemove 9, MapContains 1, MapSize] in
   \<exists>m s1 m1 s2. parcHashMap_CreateCapacity True 1 = Some m \<and>
     run_all (hash_map_step eq hash (next_copy 4)) (empty_store, m) cs =
       Inr ([Nothing, Nothing, Nothing, Pointer (Some 11), Truth True, Truth False, Number 1], s1, m1) \<and>
     parcHashMap_Finalize s1 m1 = Inr s2 \<and> held s2 = {#}"
proof -
  let ?mem = "copies_of 4 (\<lambda>a. [of_nat a :: u8])"
  let ?cs = "[MapPut 1 10, MapPut 5 11, MapPut 2 12, MapGet 1, MapRemove 9, MapContains 1, MapSize]"
  have spec: "\<exists>x. run_all (hash_map_spec (bytes_equal ?mem)) (\<lambda>_. None, 0) ?cs =
      Inr ([Nothing, Nothing, Nothing, Pointer (Some 11), Truth True, Truth False, Number 1], x, 1)"
    by (simp add: bytes_equal_def copies_of_def)
  then obtain x where x: "run_all (hash_map_spec (bytes_equal ?mem)) (\<lambda>_. None, 0) ?cs =
      Inr ([Nothing, Nothing, Nothing, Pointer (Some 11), Truth True, Truth False, Number 1], x, 1)" by blast
  have "held empty_store = {#}" "unat (1 :: u32) \<le> 2 ^ 31" "length ?cs \<le> 2 ^ 29"
    "\<forall>a. entries empty_store a \<noteq> None \<longrightarrow> a < next_entry empty_store" by (simp_all add: empty_store_def)
  then show ?thesis
    using parcHashMap_refines_map [OF bytes_copied.copied_key_axioms, of 1 ?cs empty_store 4 "\<lambda>a. [of_nat a]"]
    unfolding x agree_right Let_def by (simp del: run_all.simps) blast
qed

section \<open>Iteration\<close>

text \<open>The list iterator stands in the bucket the search has reached; \<open>ahead\<close> are the entries it has not met.\<close>

definition cursor_ok :: "hash_map \<Rightarrow> map_cursor \<Rightarrow> bool" where
  "cursor_ok m c \<longleftrightarrow> length (buckets m) = mapCapacity m \<and> it_bucket c = list_bucket c \<and> list_bucket c < mapCapacity m \<and>
    buckets m ! list_bucket c \<noteq> None \<and> visited_entries c \<le> length (chain_of (buckets m ! list_bucket c))"

definition ahead :: "hash_map \<Rightarrow> map_cursor \<Rightarrow> addr list" where
  "ahead m c = drop (visited_entries c) (chain_of (buckets m ! list_bucket c)) @ elements (drop (Suc (list_bucket c)) (buckets m))"

lemma next_list_ok:
  assumes "length (buckets m) = mapCapacity m" "it_bucket c < mapCapacity m"
  shows "\<exists>b c1. next_list m c = Inr (b, c1) \<and> (b \<longleftrightarrow> elements (drop (Suc (it_bucket c)) (buckets m)) \<noteq> []) \<and>
    (b \<longrightarrow> cursor_ok m c1 \<and> ahead m c1 = elements (drop (Suc (it_bucket c)) (buckets m)) \<and>
      visited_entries c1 < length (chain_of (buckets m ! list_bucket c1)))"
  using assms
proof (induction m c rule: next_list.induct)
  case (1 m c)
  let ?i = "it_bucket c + 1"
  show ?case
  proof (cases "?i < mapCapacity m")
    case False
    then show ?thesis using "1.prems" by (simp add: next_list.simps [of m c] Let_def) blast
  next
    case True
    then have at: "bucket_at (buckets m) ?i = Inr (buckets m ! ?i)" and
      d: "drop ?i (buckets m) = buckets m ! ?i # drop (Suc ?i) (buckets m)"
      using "1.prems" Cons_nth_drop_Suc [of ?i "buckets m"] by (auto simp: bucket_at_def)
    show ?thesis
    proof (cases "buckets m ! ?i")
      case None
      then show ?thesis
        using "1.IH"(1) [OF refl refl True, of "buckets m ! ?i"] True at d "1.prems"
        by (simp add: next_list.simps [of m c] Let_def)
    next
      case (Some as)
      then show ?thesis
        using "1.IH"(2) [OF refl refl True, of "buckets m ! ?i" as] True at d "1.prems"
        by (cases "as = []") (auto simp: next_list.simps [of m c] Let_def cursor_ok_def ahead_def)
    qed
  qed
qed

lemma HasNext_ok:
  assumes "cursor_ok m c"
  shows "\<exists>b c1. parcHashMapIterator_HasNext m c = Inr (b, c1) \<and> (b \<longleftrightarrow> ahead m c \<noteq> []) \<and>
    (b \<longrightarrow> cursor_ok m c1 \<and> ahead m c1 = ahead m c \<and> visited_entries c1 < length (chain_of (buckets m ! list_bucket c1)))"
proof -
  obtain as where as: "buckets m ! list_bucket c = Some as" "list_bucket c < length (buckets m)" "it_bucket c = list_bucket c"
    using assms by (auto simp: cursor_ok_def)
  show ?thesis
  proof (cases "visited_entries c < length as")
    case True
    then show ?thesis using as assms by (auto simp: parcHashMapIterator_HasNext_def bucket_at_def ahead_def)
  next
    case False
    then have "ahead m c = elements (drop (Suc (it_bucket c)) (buckets m))" using as by (simp add: ahead_def)
    then show ?thesis
      using False as assms next_list_ok [of m c] by (simp add: parcHashMapIterator_HasNext_def bucket_at_def cursor_ok_def)
  qed
qed

lemma Next_ok:
  assumes "cursor_ok m c" "visited_entries c < length (chain_of (buckets m ! list_bucket c))"
  shows "\<exists>c1. parcHashMapIterator_Next m c = Inr c1 \<and> cursor_ok m c1 \<and> current_entry c1 = Some (hd (ahead m c)) \<and>
    ahead m c1 = tl (ahead m c)"
proof -
  obtain as where as: "buckets m ! list_bucket c = Some as" "list_bucket c < length (buckets m)"
    using assms(1) by (auto simp: cursor_ok_def)
  then have "drop (visited_entries c) as = as ! visited_entries c # drop (Suc (visited_entries c)) as"
    using assms(2) Cons_nth_drop_Suc [of "visited_entries c" as] by simp
  then show ?thesis
    using as assms by (simp add: parcHashMapIterator_Next_def bucket_at_def cursor_ok_def ahead_def)
qed

lemma map_loop_ok:
  assumes "cursor_ok m c" "\<And>c a. current_entry c = Some a \<Longrightarrow> a \<in> set (ahead m c0) \<Longrightarrow> elem s c = Inr (f a)"
    "set (ahead m c) \<subseteq> set (ahead m c0)"
  shows "map_loop elem s m c met = Some (Inr (met @ map f (ahead m c)))"
  using assms(1,3)
proof (induction "ahead m c" arbitrary: c met)
  case Nil
  then show ?case using HasNext_ok [OF Nil(2)] by (auto simp: map_loop.simps [of elem s m c])
next
  case (Cons a as)
  obtain c1 where h: "parcHashMapIterator_HasNext m c = Inr (True, c1)" "cursor_ok m c1" "ahead m c1 = a # as"
    "visited_entries c1 < length (chain_of (buckets m ! list_bucket c1))"
    using HasNext_ok [OF Cons.prems(1)] Cons.hyps(2) [symmetric] by auto
  then obtain c2 where n: "parcHashMapIterator_Next m c1 = Inr c2" "cursor_ok m c2" "current_entry c2 = Some a" "ahead m c2 = as"
    using Next_ok by fastforce
  have "a \<in> set (ahead m c0)" "set as \<subseteq> set (ahead m c0)" using Cons.prems(2) Cons.hyps(2) by (metis list.set_intros set_subset_Cons subset_iff)+
  then have "elem s c2 = Inr (f a)" "map_loop elem s m c2 (met @ [f a]) = Some (Inr (met @ [f a] @ map f as))"
    using assms(2) [OF n(3)] Cons.hyps(1) [OF n(4) [symmetric] n(2)] n(4) by auto
  then show ?case using h n Cons.hyps(2) [symmetric] by (simp add: map_loop.simps [of elem s m c])
qed

lemma first_bucket_ok:
  "case first_bucket bs i of None \<Rightarrow> (\<forall>b\<in>set bs. b = None)
   | Some j \<Rightarrow> i \<le> j \<and> j - i < length bs \<and> bs ! (j - i) \<noteq> None \<and>
       elements bs = chain_of (bs ! (j - i)) @ elements (drop (Suc (j - i)) bs)"
proof (induction bs arbitrary: i)
  case Nil
  then show ?case by simp
next
  case (Cons b bs)
  then show ?case using Cons.IH [of "Suc i"]
    by (cases "first_bucket bs (Suc i)") (auto simp: Suc_diff_le nth_Cons' Suc_le_eq Suc_diff_Suc)
qed


section \<open>Hash codes, copies and equality\<close>

lemma hash_list_sum: "present s as \<Longrightarrow> hash_list hash s as r = Inr (r + sum_list (map (\<lambda>a. hash (key_of s a)) as))"
  by (induction as arbitrary: r)
    (simp_all add: entry_at_present parcHashMapEntry_HashCode_def key_of_def add.assoc)

lemma hash_buckets_sum:
  "present s (elements bs) \<Longrightarrow> hash_buckets hash s bs r = Inr (r + sum_list (map (\<lambda>a. hash (key_of s a)) (elements bs)))"
proof (induction bs arbitrary: r)
  case Nil
  then show ?case by simp
next
  case (Cons b bs)
  then show ?case by (cases b) (simp_all add: hash_list_sum add.assoc)
qed

lemma HashCode_sum:
  assumes "map_ok eq hash H s m" "mapCapacity m \<le> 2 ^ 31"
  shows "parcHashMap_HashCode hash s m = Inr (\<Sum>a\<in>set (elements (buckets m)). hash (key_of s a))"
proof -
  have "sole_entries eq s (elements (buckets m))" using assms(1) by (simp add: map_ok_def)
  then have "present s (elements (buckets m))" "distinct (elements (buckets m))"
    by (auto simp: sole_entries_present sole_entries_def)
  then show ?thesis
    using hash_buckets_sum [of s "buckets m" hash 0] assms(2)
    by (simp add: parcHashMap_HashCode_def loops_end_def sum_list_distinct_conv_sum_set)
qed

context hash_key
begin

text \<open>The entry of the other map with an equal key.\<close>

lemma same_keys_bij:
  assumes "sole_entries eq s as" "sole_entries eq s1 cs"
    "\<And>k. lookup_in eq s as k = None \<longleftrightarrow> lookup_in eq s1 cs k = None"
  shows "\<exists>f. bij_betw f (set as) (set cs) \<and> (\<forall>a\<in>set as. eq (key_of s a) (key_of s1 (f a)))"
proof -
  have there: "\<exists>c\<in>set cs. eq k (key_of s1 c)" if "a \<in> set as" "eq k (key_of s a)" for a k
  proof -
    have "lookup_in eq s as k \<noteq> None" using that by (auto simp: lookup_in_def find_None_iff)
    then show ?thesis using assms(3) [of k] by (auto simp: lookup_in_def find_None_iff)
  qed
  have there1: "\<exists>a\<in>set as. eq k (key_of s a)" if "c \<in> set cs" "eq k (key_of s1 c)" for c k
  proof -
    have "lookup_in eq s1 cs k \<noteq> None" using that by (auto simp: lookup_in_def find_None_iff)
    then show ?thesis using assms(3) [of k] by (auto simp: lookup_in_def find_None_iff)
  qed
  obtain f where f: "f a \<in> set cs" "eq (key_of s a) (key_of s1 (f a))" if "a \<in> set as" for a
    using there [OF _ eq_refl] by metis
  have "inj_on f (set as)"
  proof (rule inj_onI)
    fix a c assume ac: "a \<in> set as" "c \<in> set as" "f a = f c"
    then have "eq (key_of s a) (key_of s c)" using f eq_sym eq_trans by metis
    then show "a = c" using assms(1) ac by (auto simp: sole_entries_def)
  qed
  moreover have "c \<in> f ` set as" if c: "c \<in> set cs" for c
  proof -
    obtain a where a: "a \<in> set as" "eq (key_of s1 c) (key_of s a)" using there1 [OF c eq_refl] by blast
    then have "eq (key_of s1 c) (key_of s1 (f a))" using f(2) eq_trans by blast
    then have "c = f a" using assms(2) c f(1) [OF a(1)] by (auto simp: sole_entries_def)
    then show ?thesis using a(1) by blast
  qed
  ultimately have "bij_betw f (set as) (set cs)" using f(1) by (auto simp: bij_betw_def)
  then show ?thesis using f(2) by blast
qed

lemma HashCode_of_keys:
  assumes "map_ok eq hash H s m" "map_ok eq hash H1 s1 m1" "mapCapacity m \<le> 2 ^ 31" "mapCapacity m1 \<le> 2 ^ 31"
    "\<And>k. map_of_hash eq s m k = None \<longleftrightarrow> map_of_hash eq s1 m1 k = None"
  shows "parcHashMap_HashCode hash s m = parcHashMap_HashCode hash s1 m1"
proof -
  let ?as = "elements (buckets m)" and ?cs = "elements (buckets m1)"
  obtain f where f: "bij_betw f (set ?as) (set ?cs)" "\<forall>a\<in>set ?as. eq (key_of s a) (key_of s1 (f a))"
    using same_keys_bij [of s ?as s1 ?cs] assms(1,2,5) by (auto simp: map_ok_def map_of_hash_def)
  have "(\<Sum>a\<in>set ?as. hash (key_of s a)) = (\<Sum>a\<in>set ?as. hash (key_of s1 (f a)))"
    using f(2) eq_hash by (intro sum.cong) auto
  also have "\<dots> = (\<Sum>c\<in>set ?cs. hash (key_of s1 c))" by (rule sum.reindex_bij_betw [OF f(1)])
  finally show ?thesis using HashCode_sum [OF assms(1,3)] HashCode_sum [OF assms(2,4)] by simp
qed

end

text \<open>
  The hash code of a map depends on its keys alone: maps whose keys are the same, in any number of buckets, after any history and
  with any values, have the same hash code.
\<close>

theorem parcHashMap_HashCode_of_keys:
  assumes "hash_key eq hash" "map_ok eq hash H s m" "map_ok eq hash H1 s1 m1" "mapCapacity m \<le> 2 ^ 31" "mapCapacity m1 \<le> 2 ^ 31"
    "\<forall>k. map_of_hash eq s m k = None \<longleftrightarrow> map_of_hash eq s1 m1 k = None"
  shows "parcHashMap_HashCode hash s m = parcHashMap_HashCode hash s1 m1"
  using hash_key.HashCode_of_keys [OF assms(1-5)] assms(6) by blast

lemma copy_buckets_acquired:
  "present s (elements bs) \<Longrightarrow> copy_buckets bs s = Inr (bs, acquired (elements bs) s)"
proof (induction bs arbitrary: s)
  case Nil
  then show ?case by simp
next
  case (Cons b bs)
  then show ?case by (cases b) (simp_all add: acquire_list_acquired acquired_append)
qed

lemma release_buckets_acquired:
  "(\<forall>a\<in>set (elements bs). \<exists>e. entries s a = Some e \<and> entry_refs e = 1) \<Longrightarrow> release_buckets bs (acquired (elements bs) s) = Inr s"
proof (induction bs)
  case Nil
  then show ?case by simp
next
  case (Cons b bs)
  have "release_list as (acquired (as @ cs) s) = Inr (acquired cs s)"
    if "\<forall>a\<in>set as. \<exists>e. entries s a = Some e \<and> entry_refs e = 1" for as cs
    using that by (induction as) (auto simp: Release_acquired)
  then show ?case using Cons by (cases b) simp_all
qed

text \<open>
  C28: A copy of a map has the same contents, and releasing it leaves everything as it was before. It shares the entries: \<open>Put\<close> on the copy,
  for a key both have, changes the value in the original, too.
\<close>

theorem parcHashMap_Copy_shares:
  assumes "hash_key eq hash" "map_ok eq hash H s m" "mapCapacity m \<le> 2 ^ 31"
  shows "\<exists>copy s1. parcHashMap_Copy s m = Inr (copy, s1) \<and> map_of_hash eq s1 copy = map_of_hash eq s m \<and>
    map_of_hash eq s1 m = map_of_hash eq s m \<and> parcHashMap_Finalize s1 copy = Inr s \<and>
    (\<not> too_full m \<longrightarrow> map_of_hash eq s m k \<noteq> None \<longrightarrow>
      (\<exists>s2. parcHashMap_Put eq hash copied s1 copy k v = Inr (s2, copy) \<and> map_of_hash eq s2 m k = Some v))"
proof -
  let ?es = "elements (buckets m)"
  let ?s = "acquired ?es s" and ?P = "\<lambda>a. eq k (key_of s a)"
  have e: "sole_entries eq s ?es" and l: "0 < mapCapacity m" using assms(2) by (auto simp: map_ok_def)
  have c: "parcHashMap_Copy s m = Inr (m, ?s)"
    using copy_buckets_acquired [OF sole_entries_present [OF e]] assms(3) by (simp add: parcHashMap_Copy_def loops_end_def)
  have "map_option (value_of ?s) p = map_option (value_of s) p" for p
    by (cases p; cases "entries s (the p)") (auto simp: value_of_def acquired_def)
  then have same: "map_of_hash eq ?s m = map_of_hash eq s m" by (simp add: map_of_hash_def lookup_in_def fun_eq_iff)
  have fin: "parcHashMap_Finalize ?s m = Inr s"
    using release_buckets_acquired [of "buckets m" s] e assms(3) by (simp add: parcHashMap_Finalize_def loops_end_def sole_entries_def)
  have "\<exists>s2. parcHashMap_Put eq hash copied ?s m k v = Inr (s2, m) \<and> map_of_hash eq s2 m k = Some v"
    if t: "\<not> too_full m" "map_of_hash eq s m k \<noteq> None"
  proof -
    obtain a where a: "find ?P ?es = Some a" using t(2) by (auto simp: map_of_hash_def lookup_in_def)
    define i where "i = unat (hash k) mod mapCapacity m"
    have b: "i < length (buckets m)" "find ?P ?es = find ?P (chain_of (buckets m ! i))"
      using hash_key.bucket_of_key [OF assms(1,2) i_def] by auto
    have p: "present ?s ?es" using sole_entries_present [OF e] by simp
    then have "present ?s (chain_of (buckets m ! i))" using elements_at [OF b(1)] by (metis present_simps(3))
    then have "find_entry eq ?s k (chain_of (buckets m ! i)) = Inr (Some a)" using find_entry_eq a b(2) by simp
    then have g: "parcHashMap_GetEntry eq hash ?s m k = Inr (Some a)"
      using b(1) bucket_index_ok [OF l assms(3), of hash k]
      by (cases "buckets m ! i") (auto simp: parcHashMap_GetEntry_def bucket_at_def i_def [symmetric])
    have "entries ?s a \<noteq> None" using a p by (auto simp: present_def find_Some_iff)
    then have "parcHashMap_Put eq hash copied ?s m k v = Inr (if value_of ?s a \<noteq> v then with_value ?s a v else ?s, m)"
      using g t(1) by (simp add: parcHashMap_Put_def entry_at_present with_value_def value_of_def)
    then show ?thesis using a by (auto simp: map_of_hash_def lookup_in_def)
  qed
  then show ?thesis using c same fin by blast
qed

text \<open>
  Two maps with one bucket and one entry each are equal for \<open>parcHashMap_Equals\<close>, whatever keys and values they have.
\<close>

theorem parcHashMap_Equals_ignores_entries:
  "\<exists>m s1 m1 s2 m2. parcHashMap_CreateCapacity True 1 = Some m \<and>
    parcHashMap_Put (=) hash k empty_store m k v = Inr (s1, m1) \<and> parcHashMap_Put (=) hash k1 s1 m k1 v1 = Inr (s2, m2) \<and>
    parcHashMap_Get (=) hash s2 m1 k = Inr (Some v) \<and> parcHashMap_Get (=) hash s2 m2 k1 = Inr (Some v1) \<and>
    parcHashMap_Equals False (Some m1) (Some m2) = Inr True"
proof -
  let ?m = "\<lambda>a. \<lparr>buckets = [Some [a]], minCapacity = 1, mapCapacity = 1, mapSize = 1\<rparr>"
  let ?n = "\<lparr>buckets = [None], minCapacity = 1, mapCapacity = 1, mapSize = 0\<rparr>"
  let ?s1 = "with_entry empty_store k v"
  let ?s2 = "with_entry ?s1 k1 v1"
  have put: "parcHashMap_Put (=) hash x s ?n x w = Inr (with_entry s x w, ?m (next_entry s))" for s x w
    using Put_new_entry [of 0 "[None]" s x w]
    by (simp add: parcHashMap_Put_def too_full_def parcHashMap_GetEntry_def bucket_index_def bucket_at_def
        parcHashMapEntry_Create_def with_entry_def)
  have "parcHashMap_Get (=) hash ?s2 (?m 0) k = Inr (Some v)" "parcHashMap_Get (=) hash ?s2 (?m 1) k1 = Inr (Some v1)"
    by (simp_all add: parcHashMap_Get_def parcHashMap_GetEntry_def bucket_index_def bucket_at_def entry_at_def empty_store_def)
  moreover have "parcHashMap_CreateCapacity True 1 = Some ?n" by (simp add: parcHashMap_CreateCapacity_def)
  moreover have "parcHashMap_Equals False (Some (?m 0)) (Some (?m 1)) = Inr True"
    by (simp add: parcHashMap_Equals_def bucket_equals_def loops_end_def)
  moreover have "next_entry empty_store = 0" "next_entry ?s1 = 1" by (simp_all add: empty_store_def)
  ultimately show ?thesis using put [of k empty_store v] put [of k1 ?s1 v1] by metis
qed

lemma remove_at: "distinct xs \<Longrightarrow> n < length xs \<Longrightarrow> take n xs @ drop (Suc n) xs = remove1 (xs ! n) xs"
proof (induction xs arbitrary: n)
  case (Cons x xs)
  then show ?case by (cases n) auto
qed simp

text \<open>
  The iterator removes the entry it has met last: the map stays well-formed without the key of the entry, and the iterator goes on with
  the same entries. Before the first entry of a bucket nothing is removed, yet the size goes down, and is then wrong.
\<close>

theorem parcHashMap_iterator_Remove:
  assumes "hash_key eq hash" "map_ok eq hash H s m" "cursor_ok m c"
  shows "\<exists>s1 m1 c1. parcHashMapIterator_Remove s m c = Inr (s1, m1, c1) \<and>
    cursor_ok m1 c1 \<and> ahead m1 c1 = ahead m c \<and>
    (let a = chain_of (buckets m ! list_bucket c) ! (visited_entries c - 1) in
     if visited_entries c = 0 then s1 = s \<and> buckets m1 = buckets m \<and> \<not> map_ok eq hash H s1 m1
     else map_ok eq hash H s1 m1 \<and>
       map_of_hash eq s1 m1 = (\<lambda>k. if eq k (key_of s a) then None else map_of_hash eq s m k))"
proof -
  obtain as where as: "buckets m ! list_bucket c = Some as" and l: "list_bucket c < length (buckets m)"
    "length (buckets m) = mapCapacity m" and v: "visited_entries c \<le> length as"
    using assms(3) by (auto simp: cursor_ok_def)
  show ?thesis
  proof (cases "visited_entries c = 0")
    case True
    have "size_down n \<noteq> n" for n by (cases n) (simp_all add: size_down_def)
    then show ?thesis
      using True as l assms(2,3) by (simp add: parcHashMapIterator_Remove_def bucket_at_def cursor_ok_def ahead_def map_ok_def)
  next
    case False
    let ?n = "visited_entries c - 1"
    have n: "?n < length as" using False v by simp
    have e: "sole_entries eq s (elements (buckets m))" using assms(2) by (simp add: map_ok_def)
    have "distinct as" using e elements_at [OF l(1)] as by (simp add: sole_entries_def)
    then have r: "take ?n as @ drop (Suc ?n) as = remove1 (as ! ?n) as" using n remove_at by blast
    have rest: "?n \<le> length (remove1 (as ! ?n) as)" "drop ?n (remove1 (as ! ?n) as) = drop (visited_entries c) as"
      using False n unfolding r [symmetric] by simp_all
    have "as ! ?n \<in> set (elements (buckets m))" using n as l by (auto simp: in_elements)
    then have "size_down (mapSize m) = mapSize m - 1"
      using assms(2) by (cases "elements (buckets m)") (auto simp: map_ok_def size_down_def)
    moreover have "as ! ?n \<in> set (chain_of (buckets m ! list_bucket c))" using n as by simp
    ultimately show ?thesis
      using hash_key.drop_entry_ok [OF assms(1,2), of "as ! ?n" "list_bucket c" "key_of s (as ! ?n)"] False as l r rest
        hash_key.eq_refl [OF assms(1)] assms(3)
      by (simp add: parcHashMapIterator_Remove_def bucket_at_def cursor_ok_def ahead_def Let_def)
  qed
qed

section \<open>Examples\<close>

text \<open>The key 1 with the value 10, in the second of two buckets.\<close>

definition example_store :: entry_store where
  "example_store = with_entry empty_store 1 10"

definition example_map :: hash_map where
  "example_map = \<lparr>buckets = [None, Some [0]], minCapacity = 2, mapCapacity = 2, mapSize = 1\<rparr>"

lemma example_hash_key: "hash_key (=) (of_nat :: addr \<Rightarrow> PARCHashCode)"
  by unfold_locales auto

lemma example_store_simps [simp]:
  "key_of example_store 0 = 1" "value_of example_store 0 = 10"
  "entries example_store 0 = Some \<lparr>entry_key = 1, entry_value = 10, entry_refs = 1\<rparr>"
  by (simp_all add: example_store_def empty_store_def)

lemma example_map_ok: "map_ok (=) of_nat {#} example_store example_map"
  by (auto simp: map_ok_def example_map_def buckets_ok_def less_Suc_eq nth_Cons' sole_entries_def balanced_def)
    (auto simp: example_store_def empty_store_def with_entry_def split: if_splits)

lemma example_map_of: "map_of_hash (=) example_store example_map 1 = Some 10" "elements (buckets example_map) = [0]"
  by (simp_all add: map_of_hash_def lookup_in_def example_map_def)


theorem parcHashMap_Copy_shares_witness:
  "\<exists>copy s1 s2. parcHashMap_Copy example_store example_map = Inr (copy, s1) \<and>
    parcHashMap_Put (=) of_nat 1 s1 copy 1 20 = Inr (s2, copy) \<and> map_of_hash (=) s2 example_map 1 = Some 20 \<and>
    parcHashMap_Finalize s1 copy = Inr example_store"
proof -
  have "mapCapacity example_map \<le> 2 ^ 31" "\<not> too_full example_map" by (simp_all add: example_map_def too_full_def)
  then show ?thesis
    using parcHashMap_Copy_shares [OF example_hash_key example_map_ok, of 1 1 20] example_map_of(1) by auto
qed

theorem parcHashMap_iterator_Remove_witness:
  "\<exists>s1 m1 c1. parcHashMapIterator_Remove example_store example_map
      \<lparr>it_bucket = 1, list_bucket = 1, visited_entries = 1, current_entry = Some 0\<rparr> = Inr (s1, m1, c1) \<and>
    map_ok (=) of_nat {#} s1 m1 \<and> map_of_hash (=) s1 m1 1 = None"
proof -
  let ?c = "\<lparr>it_bucket = 1, list_bucket = 1, visited_entries = 1, current_entry = Some 0\<rparr>"
  have "cursor_ok example_map ?c" by (simp add: cursor_ok_def example_map_def)
  then show ?thesis
    using parcHashMap_iterator_Remove [OF example_hash_key example_map_ok, of ?c] by (auto simp: example_map_def)
qed

end
