(* ===== verification/Parc_JSONParser.thy ===== *)
theory Parc_JSONParser
  imports Parc_BufferText
begin

text \<open>
  \<^verbatim>\<open>parc_JSONParser.c\<close>: a cursor over the bytes of a buffer. The state of the parser is what its buffer holds before and after
  the position, and the byte of the array behind the limit, which \<open>parcBuffer_PeekByte\<close> reads when nothing remains. The
  theorem at the end shows that the calls on the buffer act on this state as the definitions say. The composer in
  \<open>parcJSONParser_ParseString\<close> is the list of the bytes put into it.
\<close>

section \<open>The cursor\<close>

text \<open>The bytes before the position are in reverse order.\<close>

record json_parser =
  passed :: "u8 list"
  unread :: "u8 list"
  beyond :: "u8 option"

definition parser_get :: "json_parser \<Rightarrow> (u8 \<times> json_parser) result" where
  "parser_get p =
    (case unread p of
       [] \<Rightarrow> Inl OutOfBounds
     | c # cs \<Rightarrow> Inr (c, p\<lparr>passed := c # passed p, unread := cs\<rparr>))"

definition parser_peek :: "json_parser \<Rightarrow> u8 result" where
  "parser_peek p =
    (case unread p of
       c # cs \<Rightarrow> Inr c
     | [] \<Rightarrow> (case beyond p of None \<Rightarrow> Inl OutOfBounds | Some c \<Rightarrow> Inr c))"

definition ignore :: "u8 list" where
  "ignore = [32, 9, 10]"

definition parcJSONParser_Create :: "u8 list \<Rightarrow> u8 option \<Rightarrow> json_parser" where
  "parcJSONParser_Create bytes behind = \<lparr>passed = [], unread = bytes, beyond = behind\<rparr>"

definition parcJSONParser_SkipIgnored :: "json_parser \<Rightarrow> json_parser" where
  "parcJSONParser_SkipIgnored p =
    p\<lparr>passed := rev (takeWhile (\<lambda>c. c \<in> set ignore) (unread p)) @ passed p,
      unread := dropWhile (\<lambda>c. c \<in> set ignore) (unread p)\<rparr>"

definition parcJSONParser_Remaining :: "json_parser \<Rightarrow> nat" where
  "parcJSONParser_Remaining p = length (unread p)"

definition parcJSONParser_NextChar :: "json_parser \<Rightarrow> (u8 \<times> json_parser) result" where
  "parcJSONParser_NextChar p = parser_get (parcJSONParser_SkipIgnored p)"

definition parcJSONParser_Next :: "json_parser \<Rightarrow> (u8 option \<times> json_parser) result" where
  "parcJSONParser_Next p =
    (let p1 = parcJSONParser_SkipIgnored p in
     if parcJSONParser_Remaining p1 > 0 then rbind (parser_get p1) (\<lambda>(c, p2). Inr (Some c, p2)) else Inr (None, p1))"

definition parcJSONParser_PeekNextChar :: "json_parser \<Rightarrow> (u8 \<times> json_parser) result" where
  "parcJSONParser_PeekNextChar p =
    (let p1 = parcJSONParser_SkipIgnored p in rbind (parser_peek p1) (\<lambda>c. Inr (c, p1)))"

text \<open>The new position is checked against the limit.\<close>

definition parcJSONParser_Advance :: "json_parser \<Rightarrow> int \<Rightarrow> json_parser result" where
  "parcJSONParser_Advance p bytes =
    (let content = rev (passed p) @ unread p; new = int (length (passed p)) + bytes in
     if 0 \<le> new \<and> new \<le> int (length content)
     then Inr (p\<lparr>passed := rev (take (nat new) content), unread := drop (nat new) content\<rparr>)
     else Inl AssertFailed)"

fun parcJSONParser_RequireString :: "json_parser \<Rightarrow> u8 list \<Rightarrow> (bool \<times> json_parser) result" where
  "parcJSONParser_RequireString p [] = Inr (True, p)"
| "parcJSONParser_RequireString p (requiredCharacter # string) =
    rbind (parser_get p) (\<lambda>(actualCharacter, p1).
    if actualCharacter \<noteq> requiredCharacter then Inr (False, p1) else parcJSONParser_RequireString p1 string)"

section \<open>Strings\<close>

definition iscntrl :: "u8 \<Rightarrow> bool" where
  "iscntrl c \<longleftrightarrow> c < 32 \<or> c = 127"

text \<open>The character an escape stands for.\<close>

definition unescape :: "u8 \<Rightarrow> u8" where
  "unescape c =
    (if c = 98 then 8 else if c = 102 then 12 else if c = 110 then 10 else if c = 114 then 13 else if c = 116 then 9 else c)"

lemma parser_get_shorter: "parser_get p = Inr (c, p1) \<Longrightarrow> length (unread p1) < length (unread p)"
  by (auto simp: parser_get_def split: list.splits)

function parse_string :: "json_parser \<Rightarrow> u8 list \<Rightarrow> (u8 list option \<times> json_parser) result" where
  "parse_string p composed =
    (if parcJSONParser_Remaining p > 0 then
       (case parser_get p of
          Inl e \<Rightarrow> Inl e
        | Inr (c, p1) \<Rightarrow>
            if c = 34 then Inr (Some composed, p1)
            else if c = 92 then
              (case parser_get p1 of
                 Inl e \<Rightarrow> Inl e
               | Inr (c, p2) \<Rightarrow> if c = 117 then Inl NotImplemented else parse_string p2 (composed @ [unescape c]))
            else if iscntrl c then Inr (None, p1)
            else parse_string p1 (composed @ [c]))
     else Inr (None, p))"
  by pat_completeness auto
termination
  by (relation "measure (length \<circ> unread \<circ> fst)") (auto dest!: parser_get_shorter)

declare parse_string.simps [simp del]

definition parcJSONParser_ParseString :: "json_parser \<Rightarrow> (u8 list option \<times> json_parser) result" where
  "parcJSONParser_ParseString p =
    rbind (parser_get p) (\<lambda>(c, p1). if c = 34 then parse_string p1 [] else Inr (None, p1))"

section \<open>What the operations do\<close>

lemma parser_get_Cons [simp]:
  "parser_get (p\<lparr>unread := c # cs\<rparr>) = Inr (c, p\<lparr>passed := c # passed p, unread := cs\<rparr>)"
  "parser_get \<lparr>passed = s, unread = c # cs, beyond = b\<rparr> = Inr (c, \<lparr>passed = c # s, unread = cs, beyond = b\<rparr>)"
  by (simp_all add: parser_get_def)

lemma Advance_back [simp]:
  "parcJSONParser_Advance \<lparr>passed = c # s, unread = t, beyond = b\<rparr> (- 1) = Inr \<lparr>passed = s, unread = c # t, beyond = b\<rparr>"
  by (simp add: parcJSONParser_Advance_def Let_def)

lemma SkipIgnored_eq [simp]:
  "parcJSONParser_SkipIgnored \<lparr>passed = s, unread = [], beyond = b\<rparr> = \<lparr>passed = s, unread = [], beyond = b\<rparr>"
  "parcJSONParser_SkipIgnored \<lparr>passed = s, unread = c # cs, beyond = b\<rparr> =
    (if c \<in> set ignore then parcJSONParser_SkipIgnored \<lparr>passed = c # s, unread = cs, beyond = b\<rparr>
     else \<lparr>passed = s, unread = c # cs, beyond = b\<rparr>)"
  by (simp_all add: parcJSONParser_SkipIgnored_def)

lemma SkipIgnored_shorter: "length (unread (parcJSONParser_SkipIgnored p)) \<le> length (unread p)"
  by (simp add: parcJSONParser_SkipIgnored_def length_dropWhile_le)

lemma SkipIgnored_idem [simp]: "parcJSONParser_SkipIgnored (parcJSONParser_SkipIgnored p) = parcJSONParser_SkipIgnored p"
proof -
  have "takeWhile P (dropWhile P xs) = []" "dropWhile P (dropWhile P xs) = dropWhile P xs" for P :: "u8 \<Rightarrow> bool" and xs
    by (induction xs) auto
  then show ?thesis by (simp add: parcJSONParser_SkipIgnored_def)
qed

lemma NextChar_shorter: "parcJSONParser_NextChar p = Inr (c, p1) \<Longrightarrow> length (unread p1) < length (unread p)"
  using SkipIgnored_shorter [of p] by (auto simp: parcJSONParser_NextChar_def dest!: parser_get_shorter)

lemma Peek_shorter: "parcJSONParser_PeekNextChar p = Inr (c, p1) \<Longrightarrow> length (unread p1) \<le> length (unread p)"
  using SkipIgnored_shorter [of p] by (auto simp: parcJSONParser_PeekNextChar_def Let_def rbind_def split: sum.splits)

lemma Next_shorter:
  "parcJSONParser_Next p = Inr (Some c, p1) \<Longrightarrow> length (unread p1) < length (unread p)"
  "parcJSONParser_Next p = Inr (None, p1) \<Longrightarrow> length (unread p1) \<le> length (unread p)"
  using SkipIgnored_shorter [of p]
  by (auto simp: parcJSONParser_Next_def Let_def rbind_def dest!: parser_get_shorter split: sum.splits if_splits prod.splits)

section \<open>The parser on a buffer\<close>

definition buffer_beyond :: "addr \<Rightarrow> memory \<Rightarrow> u8 option" where
  "buffer_beyond a h =
    (case buffer_parts h a of
       None \<Rightarrow> None
     | Some (b, x) \<Rightarrow>
         let i = arrayOffset b + limit b in if i < ba_length x then Some (ba_bytes x ! unat i) else None)"

definition parser_of :: "addr \<Rightarrow> memory \<Rightarrow> json_parser" where
  "parser_of a h = \<lparr>passed = rev (buffer_out a h), unread = buffer_rest a h, beyond = buffer_beyond a h\<rparr>"

lemma beyond_at:
  "buffer_at h a b x \<Longrightarrow> buffer_beyond a h =
    (let i = arrayOffset b + limit b in if i < ba_length x then Some (ba_bytes x ! unat i) else None)"
  by (simp add: buffer_beyond_def buffer_parts_at)

lemma get_beyond:
  assumes "buffer_ok a h" "parcBuffer_GetUint8 h (Some a) = Inr (c, h')"
  shows "buffer_beyond a h' = buffer_beyond a h"
proof -
  obtain b x where at: "buffer_at h a b x" "limit b \<noteq> SIZE_MAX" using assms(1) by (rule buffer_okE)
  have p: "position b < limit b" using assms(2) parcBuffer_GetUint8_end [OF at(1) _ at(2)] by auto
  then have "unat (1 :: size_t) \<le> unat (limit b) - unat (position b)" by (simp add: word_less_nat_alt)
  from buffer_at_advance(1) [OF at(1) this] assms(2) show ?thesis
    by (simp add: parcBuffer_GetUint8_ok [OF at(1) p] beyond_at [OF at(1)] beyond_at)
qed

lemma seek_beyond:
  assumes "buffer_ok a h" "parcBuffer_SetPosition h (Some a) n = Inr h'"
  shows "buffer_beyond a h' = buffer_beyond a h"
proof -
  obtain b x where at: "buffer_at h a b x" using assms(1) by (rule buffer_okE)
  show ?thesis
    using assms(2) parcBuffer_SetPosition_spec [OF at, of n] buffer_at_cursor_spec [OF at, of "SetPosition n"]
    by (auto simp: beyond_at [OF at] Let_def beyond_at split: option.splits if_splits)
qed

lemma skip_beyond:
  "buffer_ok a h \<Longrightarrow> skip_loop h (Some a) found = Inr (r, h') \<Longrightarrow> buffer_beyond a h' = buffer_beyond a h"
proof (induction "length (buffer_rest a h)" arbitrary: h rule: less_induct)
  case less
  obtain n where n: "parcBuffer_Remaining h (Some a) = Inr n" "unat n = length (buffer_rest a h)"
    using buffer_remaining [OF less.prems(1)] .
  show ?case
  proof (cases "buffer_rest a h")
    case Nil
    then have "n = 0" using n(2) by (simp add: unat_eq_0)
    then show ?thesis using less.prems(2) n(1) by (subst (asm) skip_loop.simps) simp
  next
    case (Cons w ws)
    then have pos: "n > 0" using n(2) by (simp add: word_less_nat_alt)
    obtain h1 where h1: "parcBuffer_GetUint8 h (Some a) = Inr (w, h1)" "buffer_ok a h1"
        "buffer_out a h1 = buffer_out a h @ [w]" "buffer_rest a h1 = ws"
      using buf.get_Cons [OF less.prems(1) Cons] by (auto simp: buffer_get_def)
    have same: "buffer_beyond a h1 = buffer_beyond a h" using get_beyond [OF less.prems(1) h1(1)] .
    show ?thesis
    proof (cases "found w")
      case True
      obtain q h2 where "parcBuffer_SetPosition h1 (Some a) q = Inr h2" "h' = h2"
        using less.prems(2) n(1) pos h1(1) True buffer_position [OF h1(2)]
        by (subst (asm) skip_loop.simps) (auto simp: rbind_def split: sum.splits)
      then show ?thesis using seek_beyond [OF h1(2)] same by simp
    next
      case False
      then have "skip_loop h1 (Some a) found = Inr (r, h')"
        using less.prems(2) n(1) pos h1(1) by (subst (asm) skip_loop.simps) simp
      then show ?thesis using less.hyps [OF _ h1(2)] h1(4) Cons same by simp
    qed
  qed
qed

text \<open>A call on the buffer returns what the step of the parser returns, or both stop in the same way.\<close>

definition agrees :: "addr \<Rightarrow> memory result \<Rightarrow> json_parser result \<Rightarrow> bool" where
  "agrees a r s \<longleftrightarrow>
    (case r of
       Inl e \<Rightarrow> s = Inl e
     | Inr h \<Rightarrow> (case s of Inl e \<Rightarrow> False | Inr p \<Rightarrow> buffer_ok a h \<and> p = parser_of a h))"

lemma peek_on_buffer:
  assumes "buffer_ok a h"
  shows "parcBuffer_PeekByte h (Some a) = parser_peek (parser_of a h)"
proof -
  obtain b x where at: "buffer_at h a b x" "limit b \<noteq> SIZE_MAX" using assms by (rule buffer_okE)
  obtain c where c: "array b = Some c" "byte_array_at h c x" "buffer_inv b x" using at(1) by (rule buffer_atE)
  note n = buffer_nats [OF at(1)]
  have peek: "parcBuffer_PeekByte h (Some a) =
      (if arrayOffset b + position b < ba_length x then Inr (ba_bytes x ! unat (arrayOffset b + position b)) else Inl OutOfBounds)"
    using at(1) c n(3) by (simp add: parcBuffer_PeekByte_def parcBuffer_GetAtIndex_def trapIfIndexExceedsLimit_def
        effectiveIndex_def parcByteArray_GetByte_ok trapIf_def word_less_nat_alt)
  show ?thesis
  proof (cases "position b < limit b")
    case True
    then have "ba_bytes x ! unat (arrayOffset b + position b) = window b x ! unat (position b)"
      using n(1,4) by (simp add: window_def word_less_nat_alt)
    moreover obtain w ws where "buffer_rest a h = w # ws" "w = window b x ! unat (position b)"
      using True buffer_rest_Cons [OF at(1)] by (cases "buffer_rest a h") auto
    ultimately show ?thesis
      using peek buffer_array_length [OF at(1) True] by (simp add: parser_peek_def parser_of_def)
  next
    case False
    then have "position b = limit b" using c(3) by (simp add: buffer_inv_def)
    then show ?thesis using peek False buffer_rest_Cons(2) [OF at(1)]
      by (simp add: parser_peek_def parser_of_def beyond_at [OF at(1)] Let_def)
  qed
qed

lemma wrapped_position:
  assumes "- (2 ^ 63) \<le> i" "i < 2 ^ 64" "L < 2 ^ 63" "\<not> (0 \<le> i \<and> i \<le> int L)"
  shows "unat (word_of_int i :: size_t) > L"
proof (cases "i < 0")
  case True
  have "i mod 2 ^ 64 = (i + 2 ^ 64) mod 2 ^ 64" by simp
  also have "\<dots> = i + 2 ^ 64" using True assms(1) by (intro mod_pos_pos_trivial) auto
  finally have "uint (word_of_int i :: size_t) = i + 2 ^ 64" by (simp add: uint_word_of_int)
  then have "int (unat (word_of_int i :: size_t)) = i + 2 ^ 64" by simp
  moreover have "int L < 2 ^ 63" using assms(3) by simp
  moreover have "i + 2 ^ 64 \<ge> 2 ^ 63" using assms(1) by simp
  ultimately have "int L < int (unat (word_of_int i :: size_t))" by (simp only:)
  then show ?thesis by (simp only: of_nat_less_iff)
next
  case False
  then have "uint (word_of_int i :: size_t) = i" using assms(2) by (simp add: uint_word_of_int)
  then have "int (unat (word_of_int i :: size_t)) = i" by simp
  then show ?thesis using False assms(4) by linarith
qed

lemma advance_on_buffer:
  assumes ok: "buffer_ok a h" and len: "length (buffer_out a h @ buffer_rest a h) < 2 ^ 63" and k: "- (2 ^ 63) \<le> k" "k < 2 ^ 63"
  shows "agrees a (rbind (parcBuffer_Position h (Some a)) (\<lambda>q. parcBuffer_SetPosition h (Some a) (q + word_of_int k)))
    (parcJSONParser_Advance (parser_of a h) k)"
proof -
  let ?new = "int (length (buffer_out a h)) + k" and ?all = "buffer_out a h @ buffer_rest a h"
  have w: "word_of_nat (length (buffer_out a h)) + word_of_int k = (word_of_int ?new :: size_t)" by simp
  obtain b x where at: "buffer_at h a b x" "limit b \<noteq> SIZE_MAX" using ok by (rule buffer_okE)
  have lim: "length ?all = unat (limit b)" using buffer_nats(6) [OF at(1)] by (simp only: buffer_tape [OF at(1)] append_take_drop_id)
  show ?thesis
  proof (cases "0 \<le> ?new \<and> ?new \<le> int (length ?all)")
    case True
    then have le: "nat ?new \<le> length ?all" by linarith
    obtain h1 where h1: "parcBuffer_SetPosition h (Some a) (word_of_nat (nat ?new)) = Inr h1" "buffer_ok a h1"
        "buffer_out a h1 = take (nat ?new) ?all" "buffer_rest a h1 = drop (nat ?new) ?all"
      using buf.seek_ok [OF ok le] unfolding buffer_seek_def by blast
    moreover have "(word_of_nat (nat ?new) :: size_t) = word_of_int ?new" using True by (simp only: of_nat_nat)
    ultimately have "parcBuffer_SetPosition h (Some a) (word_of_int ?new) = Inr h1" by (simp only:)
    moreover have "parcJSONParser_Advance (parser_of a h) k = Inr (parser_of a h1)"
      using True h1(3,4) seek_beyond [OF ok h1(1)] by (simp add: parcJSONParser_Advance_def parser_of_def Let_def)
    ultimately show ?thesis using h1(2) unfolding buffer_position [OF ok] rbind_simps w by (simp only: agrees_def sum.case simp_thms)
  next
    case False
    have "unat (word_of_int ?new :: size_t) > length ?all"
      using False k len by (intro wrapped_position) auto
    then have "word_of_int ?new > limit b" by (simp only: word_less_nat_alt lim)
    then have "parcBuffer_SetPosition h (Some a) (word_of_int ?new) = Inl AssertFailed"
      using parcBuffer_SetPosition_spec [OF at(1), of "word_of_int ?new"] by simp
    moreover have "parcJSONParser_Advance (parser_of a h) k = Inl AssertFailed"
      using False by (auto simp: parcJSONParser_Advance_def parser_of_def Let_def)
    ultimately show ?thesis unfolding buffer_position [OF ok] rbind_simps w by (simp only: agrees_def sum.case simp_thms)
  qed
qed

text \<open>
  C12: The operations of the parser on its buffer act on the bytes before and after the position as the model says: skipping
  white space, reading a character (out of bounds when none remains), looking at one (the byte behind the limit when
  none remains), the number of remaining bytes, and moving the position.
\<close>

theorem parcJSONParser_on_buffer:
  assumes ok: "buffer_ok a h" and len: "length (buffer_out a h @ buffer_rest a h) < 2 ^ 63" and k: "- (2 ^ 63) \<le> k" "k < 2 ^ 63"
  shows "agrees a (rbind (parcBuffer_SkipOver h (Some a) 3 ignore) (\<lambda>r. Inr (snd r))) (Inr (parcJSONParser_SkipIgnored (parser_of a h))) \<and>
    agrees a (rbind (parcBuffer_GetUint8 h (Some a)) (\<lambda>r. Inr (snd r))) (rbind (parser_get (parser_of a h)) (\<lambda>r. Inr (snd r))) \<and>
    rbind (parcBuffer_GetUint8 h (Some a)) (\<lambda>r. Inr (fst r)) = rbind (parser_get (parser_of a h)) (\<lambda>r. Inr (fst r)) \<and>
    parcBuffer_PeekByte h (Some a) = parser_peek (parser_of a h) \<and>
    rbind (parcBuffer_Remaining h (Some a)) (\<lambda>n. Inr (unat n)) = Inr (parcJSONParser_Remaining (parser_of a h)) \<and>
    agrees a (rbind (parcBuffer_Position h (Some a)) (\<lambda>q. parcBuffer_SetPosition h (Some a) (q + word_of_int k)))
      (parcJSONParser_Advance (parser_of a h) k)"
proof (intro conjI)
  have i: "take 3 ignore = ignore" by (simp add: ignore_def)
  obtain r h1 where h1: "skip_loop h (Some a) (\<lambda>v. v \<notin> set ignore) = Inr (r, h1)" "buffer_ok a h1"
      "buffer_out a h1 = buffer_out a h @ takeWhile (\<lambda>v. v \<in> set ignore) (buffer_rest a h)"
      "buffer_rest a h1 = dropWhile (\<lambda>v. v \<in> set ignore) (buffer_rest a h)"
    using skip_loop_ok [OF ok, of "\<lambda>v. v \<notin> set ignore"] by auto
  then show "agrees a (rbind (parcBuffer_SkipOver h (Some a) 3 ignore) (\<lambda>r. Inr (snd r))) (Inr (parcJSONParser_SkipIgnored (parser_of a h)))"
    using skip_beyond [OF ok h1(1)]
    by (simp add: parcBuffer_SkipOver_def i agrees_def parcJSONParser_SkipIgnored_def parser_of_def)
  have get: "parcBuffer_GetUint8 h (Some a) = Inl OutOfBounds \<and> buffer_rest a h = [] \<or>
      (\<exists>w ws h2. parcBuffer_GetUint8 h (Some a) = Inr (w, h2) \<and> buffer_rest a h = w # ws \<and> buffer_ok a h2 \<and>
        buffer_out a h2 = buffer_out a h @ [w] \<and> buffer_rest a h2 = ws)"
    using buf.get_Nil [OF ok] buf.get_Cons [OF ok] by (cases "buffer_rest a h") (auto simp: buffer_get_def)
  then show "agrees a (rbind (parcBuffer_GetUint8 h (Some a)) (\<lambda>r. Inr (snd r))) (rbind (parser_get (parser_of a h)) (\<lambda>r. Inr (snd r)))"
    using get_beyond [OF ok] by (auto simp: agrees_def parser_get_def parser_of_def)
  show "rbind (parcBuffer_GetUint8 h (Some a)) (\<lambda>r. Inr (fst r)) = rbind (parser_get (parser_of a h)) (\<lambda>r. Inr (fst r))"
    using get by (auto simp: parser_get_def parser_of_def)
  show "rbind (parcBuffer_Remaining h (Some a)) (\<lambda>n. Inr (unat n)) = Inr (parcJSONParser_Remaining (parser_of a h))"
  proof -
    obtain n where "parcBuffer_Remaining h (Some a) = Inr n" "unat n = length (buffer_rest a h)" using buffer_remaining [OF ok] .
    then show ?thesis by (simp add: parcJSONParser_Remaining_def parser_of_def)
  qed
qed (rule peek_on_buffer [OF ok], rule advance_on_buffer [OF assms])

theorem parcJSONParser_on_buffer_witness:
  "parcBuffer_PeekByte example_memory2 (Some 200) = parser_peek (parser_of 200 example_memory2) \<and>
    agrees 200 (rbind (parcBuffer_Position example_memory2 (Some 200))
        (\<lambda>q. parcBuffer_SetPosition example_memory2 (Some 200) (q + word_of_int 2)))
      (parcJSONParser_Advance (parser_of 200 example_memory2) 2)"
proof -
  have "limit example_buffer \<noteq> SIZE_MAX" by (simp add: example_buffer_def)
  then have ok: "buffer_ok 200 example_memory2" using buffer_tape(1) [OF example_views(1)] by simp
  have "length (buffer_out 200 example_memory2 @ buffer_rest 200 example_memory2) < 2 ^ 63"
    unfolding buffer_tape(2,3) [OF example_views(1)] append_take_drop_id buffer_nats(6) [OF example_views(1)]
    by (simp add: example_buffer_def)
  from parcJSONParser_on_buffer [OF ok this, of 2] show ?thesis by simp
qed

end
