(* ===== verification/Parc_ComposerText.thy ===== *)
theory Parc_ComposerText
  imports Parc_BufferComposer
begin

text \<open>
  Text written to a composer: \<open>parcBufferComposer_PutString\<close>, which goes through a buffer of its own, appends the string, and
  the idiom of the \<open>ToString\<close> functions of the library, which create a composer, build the text in it and return a copy.
\<close>

section \<open>A string in a new buffer\<close>

text \<open>The buffer \<open>parcBuffer_AllocateCString\<close> makes of \<open>n\<close> characters.\<close>

definition string_buffer :: "addr \<Rightarrow> nat \<Rightarrow> parc_buffer" where
  "string_buffer c n = (fresh_buffer (Some c) (word_of_nat n + 1))\<lparr>limit := word_of_nat n\<rparr>"

definition string_array :: "u8 list \<Rightarrow> parc_byte_array" where
  "string_array s = ba_put (word_of_nat (length s)) [0] (ba_put 0 s (zero_array (word_of_nat (length s) + 1)))"

lemma cstring_length:
  assumes "length s < 2 ^ 63"
  shows "unat (word_of_nat (length s) :: size_t) = length s" "unat (word_of_nat (length s) + 1 :: size_t) = Suc (length s)"
    "(word_of_nat (length s) :: size_t) < word_of_nat (length s) + 1" "(word_of_nat (length s) + 1 :: size_t) \<noteq> SIZE_MAX"
proof -
  show a: "unat (word_of_nat (length s) :: size_t) = length s" using assms by (intro unat_word_of_nat) simp
  then show b: "unat (word_of_nat (length s) + 1 :: size_t) = Suc (length s)"
    using assms by (subst unat_add_no_wrap) simp_all
  show "(word_of_nat (length s) :: size_t) < word_of_nat (length s) + 1" by (simp add: word_less_nat_alt a b)
  have "unat (word_of_nat (length s) + 1 :: size_t) \<noteq> unat SIZE_MAX" using b assms by (simp add: unat_SIZE_MAX)
  then show "(word_of_nat (length s) + 1 :: size_t) \<noteq> SIZE_MAX" by metis
qed

lemma AllocateCString_ok:
  assumes "heap_wf h" "\<forall>n. \<not> allocFails h n" and s: "length s < 2 ^ 63"
  shows "\<exists>a c h' x. parcBuffer_AllocateCString h s = Inr (Some a, h') \<and> objects h a = None \<and> objects h c = None \<and> a \<noteq> c \<and>
    objects h' = (objects h)(c \<mapsto> byte_array_header x, a \<mapsto> buffer_header (string_buffer c (length s))) \<and> byte_array_wf x \<and>
    \<not> blocks h (a - 152) \<and> \<not> blocks h (c - 152) \<and> a - 152 \<noteq> c - 152 \<and>
    blocks h' = (blocks h)(c - 152 := True, a - 152 := True) \<and> heap_wf h' \<and> allocFails h' = allocFails h \<and>
    buffer_at h' a (string_buffer c (length s)) x \<and> buffer_rest a h' = s"
proof -
  let ?n = "word_of_nat (length s) :: size_t"
  note L = cstring_length [OF s]
  from assms(1) show ?thesis
  proof (cases rule: parcBuffer_Allocate_cases [where n = "?n + 1"])
    case (oom h')
    with assms(2) show ?thesis by blast
  next
    case (new a c h1 h2 header)
    let ?f = "fresh_buffer (Some c) (?n + 1)" and ?z = "zero_array (?n + 1)"
    let ?h3 = "parcObject_SetHeader h2 a (buffer_header ?f)"
    note F = allocated_frame [OF new(3,4)]
    have fresh: "objects h a = None" "objects h c = None" "c \<noteq> a" "\<not> blocks h (a - 152)" "\<not> blocks h (c - 152)"
      using F(1) [of a] F(1) [of c] F(2) [of "a - 152"] F(2) [of "c - 152"] F(3) by blast+
    have h3: "objects ?h3 = (objects h)(c \<mapsto> byte_array_header ?z, a \<mapsto> buffer_header ?f)"
      "blocks ?h3 = (blocks h)(c - 152 := True, a - 152 := True)" "heap_wf ?h3" "allocFails ?h3 = allocFails h"
      using new(3,4) F(3) added_objects(1) [OF new(4)] by (auto simp: added_def fun_eq_iff)
    have o3: "objects ?h3 a = Some (buffer_header ?f)" "array ?f = Some c" "objects ?h3 c = Some (byte_array_header ?z)"
      using h3(1) fresh(3) by (simp_all add: fresh_buffer_def)
    have room3: "length (buffer_rest a ?h3) = Suc (length s)" using buffer_room(1) [OF new(2)] L by (simp add: fresh_buffer_def)
    let ?b4 = "?f\<lparr>position := ?n\<rparr>" and ?x4 = "ba_put 0 s ?z"
    define h4 where "h4 = written ?h3 a ?f ?z s"
    have put: "parcBuffer_PutArray ?h3 (Some a) ?n s = Inr h4"
      using parcBuffer_PutArray_ok [OF new(2)] room3 L by (simp add: h4_def)
    have at4: "buffer_at h4 a ?b4 ?x4" "buffer_out a h4 = s"
      using written_at [OF new(2), of s] buffer_tape(2) [OF new(2)] L by (simp_all add: h4_def fresh_buffer_def)
    note W4 = written_objects [OF o3(1,2) fresh(3) o3(3), of s, folded h4_def]
    have o4: "objects h4 a = Some (buffer_header ?b4)" "array ?b4 = Some c" "objects h4 c = Some (byte_array_header ?x4)"
      using W4(1) fresh(3) by (simp_all add: fresh_buffer_def)
    let ?b5 = "?f\<lparr>position := ?n + 1\<rparr>"
    define h5 where "h5 = written h4 a ?b4 ?x4 [0]"
    have put0: "parcBuffer_PutUint8 h4 (Some a) 0 = Inr h5"
      using parcBuffer_PutUint8_ok [OF at4(1)] L(3) by (simp add: h5_def fresh_buffer_def)
    have x5: "ba_put (arrayOffset ?b4 + position ?b4) [0] ?x4 = string_array s" by (simp add: string_array_def fresh_buffer_def)
    have at5: "buffer_at h5 a ?b5 (string_array s)" "buffer_out a h5 = s @ [0]"
      using written_at [OF at4(1), of "[0]"] at4(2) L x5 by (simp_all add: h5_def fresh_buffer_def)
    note W5 = written_objects [OF o4(1,2) fresh(3) o4(3), of "[0]", folded h5_def, unfolded x5]
    let ?b6 = "?f\<lparr>position := ?n\<rparr>" and ?b7 = "string_buffer c (length s)"
    have spec: "cursor_spec (SetPosition ?n) ?b5 = Some ?b6" "cursor_spec Flip ?b6 = Some ?b7"
      using L(3) by (simp_all add: fresh_buffer_def string_buffer_def less_imp_le)
    define h6 where "h6 = setBuffer h5 (Some a) ?b6"
    have at6: "buffer_at h6 a ?b6 (string_array s)" using buffer_at_cursor_spec [OF at5(1) spec(1)] by (simp add: h6_def)
    define h7 where "h7 = setBuffer h6 (Some a) ?b7"
    have at7: "buffer_at h7 a ?b7 (string_array s)" using buffer_at_cursor_spec [OF at6 spec(2)] by (simp add: h7_def)
    have "parcBuffer_SetPosition h5 (Some a) (position ?b5 - 1) = Inr h6"
      using parcBuffer_SetPosition_spec [OF at5(1)] spec(1) by (simp add: h6_def)
    moreover have "parcBuffer_Flip h6 (Some a) = Inr h7"
      using cursor_call_refines [OF at6, of Flip] spec(2) by (simp add: h7_def)
    ultimately have "parcBuffer_AllocateCString h s = Inr (Some a, h7)"
      using new(1) put put0 at5(1) by (simp add: parcBuffer_AllocateCString_def Let_def)
    moreover have "objects h5 a = Some (buffer_header ?b5)" using W5(1) by (simp add: fresh_buffer_def)
    then have "objects h7 = (objects h)(c \<mapsto> byte_array_header (string_array s), a \<mapsto> buffer_header ?b7)"
      using W5(1) W4(1) new(3,4) fresh(3) by (auto simp: h7_def h6_def setBuffer_header added_def fun_eq_iff)
    moreover have "blocks h7 = (blocks h)(c - 152 := True, a - 152 := True)" "heap_wf h7" "allocFails h7 = allocFails h"
      using W4(2-5) W5(2-5) h3(2-4) by (simp_all add: h7_def h6_def)
    moreover have "buffer_rest a h7 = s"
    proof -
      have "take (Suc (length s)) (window ?b5 (string_array s)) = s @ [0]"
        using at5(2) L(2) by (simp add: buffer_tape(2) [OF at5(1)])
      then have "take (length s) (take (Suc (length s)) (window ?b5 (string_array s))) = s" by simp
      then have "take (length s) (window ?b5 (string_array s)) = s" by simp
      then show ?thesis
        using L by (simp add: buffer_tape [OF at7] window_def string_buffer_def fresh_buffer_def bytes_at_def min_def)
    qed
    moreover have "byte_array_wf (string_array s)"
      using at7 by (auto elim!: buffer_atE dest: byte_array_at_wf simp: byte_array_wf_def)
    ultimately show ?thesis using fresh F(7) at7 by (intro exI [of _ a] exI [of _ c] exI [of _ h7] exI [of _ "string_array s"]) auto
  qed
qed

section \<open>Strings in a composer\<close>

text \<open>A composer in a heap that has the same objects and blocks where it looks.\<close>

lemma composer_at_transfer:
  assumes "composer_at h k cp a c b x" "objects h' k = objects h k" "objects h' a = objects h a" "objects h' c = objects h c"
    "blocks h' (a - 152) = blocks h (a - 152)" "blocks h' (c - 152) = blocks h (c - 152)" "heap_wf h'" "allocFails h' = allocFails h"
  shows "composer_at h' k cp a c b x" "buffer_out a h' = buffer_out a h"
proof -
  show at: "composer_at h' k cp a c b x" using assms by (simp add: composer_at_def)
  show "buffer_out a h' = buffer_out a h"
    by (simp add: buffer_tape [OF composer_at_buffer(1) [OF at]] buffer_tape [OF composer_at_buffer(1) [OF assms(1)]])
qed

text \<open>Room for a string is made; for the empty one nothing is to do.\<close>

lemma make_room:
  assumes at: "composer_at h k cp a c b x" and room: "unat (capacity b) + length s * unat (incrementHeuristic cp) < 2 ^ 63"
  shows "\<exists>h' a' c' b' x'. ensureRemaining h (Some k) (word_of_nat (length s)) = Inr h' \<and>
    composer_at h' k (cp\<lparr>buffer := Some a'\<rparr>) a' c' b' x' \<and> buffer_out a' h' = buffer_out a h \<and>
    length s \<le> length (buffer_rest a' h') \<and> unat (capacity b') \<le> unat (capacity b) + length s * unat (incrementHeuristic cp) \<and>
    (\<forall>o'. objects h o' \<noteq> None \<and> o' \<notin> {k, a, c} \<longrightarrow> o' \<noteq> a' \<and> o' \<noteq> c' \<and> objects h' o' = objects h o') \<and>
    (\<forall>m. blocks h m \<and> m \<notin> {a - 152, c - 152} \<longrightarrow> m \<notin> {a' - 152, c' - 152} \<and> blocks h' m)"
proof (cases "s = []")
  case True
  note B = composer_at_buffer [OF at]
  have "cp\<lparr>buffer := Some a\<rparr> = cp" using B(4) by (cases cp) simp
  moreover have "ensureRemaining h (Some k) (word_of_nat (length s)) = Inr h" using True B by (simp add: ensureRemaining_def Let_def)
  ultimately show ?thesis using True at by (intro exI [of _ h] exI [of _ a] exI [of _ c] exI [of _ b] exI [of _ x]) simp
next
  case False
  let ?i = "unat (incrementHeuristic cp)" and ?r = "word_of_nat (length s) :: size_t"
  have i: "8 \<le> ?i" using at by (simp add: composer_at_def word_le_nat_alt)
  then have "length s * 1 \<le> length s * ?i" by (intro mult_le_mono) simp_all
  then have "length s < 2 ^ 63" using room by linarith
  then have r: "unat ?r = length s" by (rule cstring_length)
  have "?i \<le> length s * ?i" using False by (cases s) simp_all
  then have g: "growth cp ?r \<le> length s * ?i" using i by (simp add: growth_def r)
  then have "unat (capacity b) + growth cp ?r < 2 ^ 64 - 1" using room by simp
  from ensureRemaining_ok [OF at this] obtain h' a' c' b' x' where E: "ensureRemaining h (Some k) ?r = Inr h'"
    "composer_at h' k (cp\<lparr>buffer := Some a'\<rparr>) a' c' b' x'" "buffer_out a' h' = buffer_out a h"
    "unat ?r \<le> length (buffer_rest a' h')" "unat (capacity b') \<le> unat (capacity b) + growth cp ?r"
    "\<forall>o'. objects h o' \<noteq> None \<and> o' \<notin> {k, a, c} \<longrightarrow> o' \<noteq> a' \<and> o' \<noteq> c' \<and> objects h' o' = objects h o'"
    "\<forall>m. blocks h m \<and> m \<notin> {a - 152, c - 152} \<longrightarrow> m \<notin> {a' - 152, c' - 152} \<and> blocks h' m"
    by blast
  have "length s \<le> length (buffer_rest a' h')" "unat (capacity b') \<le> unat (capacity b) + length s * ?i" using E(4,5) r g by linarith+
  then show ?thesis using E(1-3,6,7) by (intro exI conjI) assumption+
qed

lemma PutString_ok:
  assumes k: "composer_ok k h" "composer_room k h (n + length s)"
  shows "\<exists>h'. parcBufferComposer_PutString h (Some k) s = Inr h' \<and> composer_ok k h' \<and> composer_room k h' n \<and>
    composer_out k h' = composer_out k h @ s"
proof -
  obtain cp a c b x where at: "composer_at h k cp a c b x" using k(1) by (auto simp: composer_ok_def)
  have C: "objects h k \<noteq> None" "objects h a \<noteq> None" "objects h c \<noteq> None" "blocks h (a - 152)" "blocks h (c - 152)" "heap_wf h"
    "\<forall>n. \<not> allocFails h n"
    using at by (auto simp: composer_at_def split: option.splits)
  let ?r = "word_of_nat (length s) :: size_t" and ?i = "unat (incrementHeuristic cp)"
  have len: "length s < 2 ^ 63" "unat ?r = length s" using composer_room_length [OF at k(2)] .
  obtain e f h1 y where S: "parcBuffer_AllocateCString h s = Inr (Some e, h1)" "objects h e = None" "objects h f = None" "e \<noteq> f"
    "objects h1 = (objects h)(f \<mapsto> byte_array_header y, e \<mapsto> buffer_header (string_buffer f (length s)))" "byte_array_wf y"
    "\<not> blocks h (e - 152)" "\<not> blocks h (f - 152)" "e - 152 \<noteq> f - 152" "blocks h1 = (blocks h)(f - 152 := True, e - 152 := True)"
    "heap_wf h1" "allocFails h1 = allocFails h" "buffer_at h1 e (string_buffer f (length s)) y" "buffer_rest e h1 = s"
    using AllocateCString_ok [OF C(6,7) len(1)] by blast
  let ?w = "string_buffer f (length s)"
  have ne: "e \<notin> {k, a, c}" "f \<notin> {k, a, c}" using S(2,3) C by auto
  have nb: "e - 152 \<notin> {a - 152, c - 152}" "f - 152 \<notin> {a - 152, c - 152}" using S(7,8) C by auto
  have neq: "k \<noteq> e" "k \<noteq> f" "a \<noteq> e" "a \<noteq> f" "c \<noteq> e" "c \<noteq> f" using S(2,3) C(1-3) by metis+
  have neqb: "a - 152 \<noteq> e - 152" "a - 152 \<noteq> f - 152" "c - 152 \<noteq> e - 152" "c - 152 \<noteq> f - 152" using S(7,8) C(4,5) by metis+
  have T1: "objects h1 k = objects h k" "objects h1 a = objects h a" "objects h1 c = objects h c"
    "blocks h1 (a - 152) = blocks h (a - 152)" "blocks h1 (c - 152) = blocks h (c - 152)"
    by (simp_all only: S(5,10) fun_upd_other neq neqb not_False_eq_True)
  note at1 = composer_at_transfer [OF at T1 S(11,12)]
  have room: "unat (capacity b) + (n + length s) * ?i < 2 ^ 63" using k(2) composer_view(3) [OF at] by simp
  obtain h2 a' c' b' x' where E: "ensureRemaining h1 (Some k) ?r = Inr h2"
    "composer_at h2 k (cp\<lparr>buffer := Some a'\<rparr>) a' c' b' x'" "buffer_out a' h2 = buffer_out a h1"
    "length s \<le> length (buffer_rest a' h2)" "unat (capacity b') \<le> unat (capacity b) + length s * ?i"
    "\<forall>o'. objects h1 o' \<noteq> None \<and> o' \<notin> {k, a, c} \<longrightarrow> o' \<noteq> a' \<and> o' \<noteq> c' \<and> objects h2 o' = objects h1 o'"
    "\<forall>m. blocks h1 m \<and> m \<notin> {a - 152, c - 152} \<longrightarrow> m \<notin> {a' - 152, c' - 152} \<and> blocks h2 m"
    using make_room [OF at1(1), of s] room by (auto simp: add_mult_distrib)
  note B2 = composer_at_buffer [OF E(2)]
  have o2: "objects h2 e = Some (buffer_header ?w)" "objects h2 f = Some (byte_array_header y)" "e \<notin> {a', c'}" "f \<notin> {a', c'}"
    using E(6) S(4,5) ne by auto
  have bl2: "blocks h2 (e - 152)" "blocks h2 (f - 152)" "e - 152 \<notin> {a' - 152, c' - 152}" "f - 152 \<notin> {a' - 152, c' - 152}"
    using E(7) S(10) nb by auto
  have w: "array ?w = Some f" by (simp add: string_buffer_def fresh_buffer_def)
  have src: "buffer_at h2 e ?w y" using o2 S(4-6) by (intro buffer_at_transfer [OF S(13) w]) (simp_all add: byte_array_at_def)
  have rest: "buffer_rest e h2 = s" using S(14) by (simp add: buffer_tape [OF src] buffer_tape [OF S(13)])
  note fits = E(4)
  have b': "array b' = Some c'" using E(2) by (simp add: composer_at_def)
  let ?h3 = "written h2 a' b' x' s"
  have put: "parcBuffer_PutBuffer h2 (Some a') (Some e) = Inr ?h3"
    using parcBuffer_PutBuffer_ok [OF B2(1) src] fits rest b' w o2(4) by auto
  note W = composer_written [OF E(2) fits]
  have oa: "objects h2 a' = Some (buffer_header b')" "objects h2 c' = Some (byte_array_header x')" using E(2) by (simp_all add: composer_at_def)
  note WO = written_objects [OF oa(1) b' B2(7) oa(2), of s]
  have neq2: "a' \<noteq> e" "a' \<noteq> f" "c' \<noteq> e" "c' \<noteq> f" using o2(3,4) by (metis insert_iff)+
  have neq2b: "a' - 152 \<noteq> e - 152" "a' - 152 \<noteq> f - 152" "c' - 152 \<noteq> e - 152" "c' - 152 \<noteq> f - 152" using bl2(3,4) by (metis insert_iff)+
  have R0: "objects ?h3 e = Some (buffer_header ?w)" "objects ?h3 f = Some (byte_array_header y)" "blocks ?h3 (e - 152)" "blocks ?h3 (f - 152)"
    unfolding WO(1,2) using o2 bl2(1,2) by (simp_all add: fun_upd_apply)
  obtain h4 where R: "parcBuffer_Release ?h3 (Some e) = Inr (0, h4)" "objects h4 = (objects ?h3)(e := None, f := None)"
    "blocks h4 = (blocks ?h3)(e - 152 := False, f - 152 := False)" "brk h4 = brk ?h3" "allocFails h4 = allocFails ?h3"
    using parcBuffer_Release_unshared [OF R0(1) w S(4) [symmetric] R0(2) S(6) R0(3,4) S(9) [symmetric]] by blast
  have wf4: "heap_wf h4" using R(2-4) W(1) by (auto simp: heap_wf_def composer_at_def)
  have T: "objects h4 k = objects ?h3 k" "objects h4 a' = objects ?h3 a'" "objects h4 c' = objects ?h3 c'"
    "blocks h4 (a' - 152) = blocks ?h3 (a' - 152)" "blocks h4 (c' - 152) = blocks ?h3 (c' - 152)"
    by (simp_all only: R(2,3) fun_upd_other neq2 neq2b neq(1,2) not_False_eq_True)
  note at4 = composer_at_transfer [OF W(1) T wf4 R(5)]
  have "parcBuffer_Remaining h1 (Some e) = Inr ?r"
    using parcBuffer_queries [OF S(13)] by (simp add: string_buffer_def fresh_buffer_def)
  then have "parcBufferComposer_PutString h (Some k) s = Inr h4"
    using S(1) E(1) B2(3) put R(1) by (simp add: parcBufferComposer_PutString_def put_with_room_def)
  moreover have "composer_room k h4 n"
    unfolding composer_view(3) [OF at4(1)] using E(5) room by (simp add: add_mult_distrib)
  moreover have "composer_out k h4 = composer_out k h @ s"
    unfolding composer_view(2) [OF at4(1)] composer_view(2) [OF at] using at4(2) W(2) E(3) at1(2) by simp
  ultimately show ?thesis using composer_view(1) [OF at4(1)] by blast
qed

section \<open>The contract of a text sink\<close>

locale text_sink = byte_sink put ok room out
  for put :: "'s \<Rightarrow> u8 \<Rightarrow> 's result" and ok room out +
  fixes put_string :: "'s \<Rightarrow> u8 list \<Rightarrow> 's result"
  assumes put_string_ok: "ok s \<Longrightarrow> room s (n + length t) \<Longrightarrow>
    \<exists>s'. put_string s t = Inr s' \<and> ok s' \<and> room s' n \<and> out s' = out s @ t"
begin

text \<open>A step that appends a text, whatever is written before and after it.\<close>

definition appends :: "('s \<Rightarrow> 's result) \<Rightarrow> u8 list \<Rightarrow> bool" where
  "appends f t \<longleftrightarrow> (\<forall>s n. ok s \<longrightarrow> room s (n + length t) \<longrightarrow>
    (\<exists>s'. f s = Inr s' \<and> ok s' \<and> room s' n \<and> out s' = out s @ t))"

lemma appends_put: "appends (\<lambda>s. put s c) [c]"
  unfolding appends_def using put_ok by simp

lemma appends_put_string: "appends (\<lambda>s. put_string s t) t"
  unfolding appends_def using put_string_ok by blast

lemma appends_nothing: "appends Inr []"
  by (simp add: appends_def)

lemma appends_then:
  assumes "appends f t" "appends g u"
  shows "appends (\<lambda>s. rbind (f s) g) (t @ u)"
  unfolding appends_def
proof (intro allI impI)
  fix s n assume s: "ok s" "room s (n + length (t @ u))"
  then have "room s ((n + length u) + length t)" by (simp add: ac_simps)
  then obtain s1 where s1: "f s = Inr s1" "ok s1" "room s1 (n + length u)" "out s1 = out s @ t"
    using assms(1) s(1) unfolding appends_def by blast
  obtain s2 where "g s1 = Inr s2" "ok s2" "room s2 n" "out s2 = out s1 @ u"
    using assms(2) s1(2,3) unfolding appends_def by blast
  then show "\<exists>s'. rbind (f s) g = Inr s' \<and> ok s' \<and> room s' n \<and> out s' = out s @ t @ u" using s1 by simp
qed

lemma appendsD:
  "appends f t \<Longrightarrow> ok s \<Longrightarrow> room s (n + length t) \<Longrightarrow> \<exists>s'. f s = Inr s' \<and> ok s' \<and> room s' n \<and> out s' = out s @ t"
  by (simp add: appends_def)

end

definition composer_put_string :: "addr \<Rightarrow> memory \<Rightarrow> u8 list \<Rightarrow> memory result" where
  "composer_put_string k h s = parcBufferComposer_PutString h (Some k) s"

interpretation composer_text: text_sink "composer_put k" "composer_ok k" "composer_room k" "composer_out k" "composer_put_string k" for k
  by unfold_locales (simp add: composer_put_string_def PutString_ok)

lemmas composer_appends = composer_text.appends_put [unfolded composer_put_def, folded parcBufferComposer_PutChar_def]
  composer_text.appends_put_string [unfolded composer_put_string_def] composer_text.appends_nothing

text \<open>The new composer is empty and has room, and a text that is built in it is what the produced buffer holds.\<close>

lemma compose_text:
  assumes "heap_wf h" "\<forall>n. \<not> allocFails h n" "8 \<le> L" "Suc (length t) * unat L < 2 ^ 63"
    and build: "\<And>k. composer_text.appends k (build k) t"
  shows "\<exists>k h1 h2 p h3. parcBufferComposer_Create L h = Inr (Some k, h1) \<and> build k h1 = Inr h2 \<and>
    parcBufferComposer_ProduceBuffer h2 (Some k) = Inr (Some p, h3) \<and> buffer_rest p h3 = t \<and> buffer_out p h3 = []"
proof -
  have "unat L \<noteq> unat SIZE_MAX" using assms(4) by (simp add: unat_SIZE_MAX)
  then have "L \<noteq> SIZE_MAX" by blast
  then obtain k h1 a c where k: "parcBufferComposer_Create L h = Inr (Some k, h1)"
      "composer_at h1 k \<lparr>incrementHeuristic = L, buffer = Some a\<rparr> a c (fresh_buffer (Some c) L) (zero_array L)"
    using parcBufferComposer_Create_ok [OF assms(1-3)] by blast
  note v = composer_view [OF k(2)]
  have "composer_room k h1 (0 + length t)" using assms(4) unfolding v(3) by (simp add: fresh_buffer_def)
  from composer_text.appendsD [OF build v(1) this] obtain h2 where h2: "build k h1 = Inr h2" "composer_ok k h2"
    "composer_out k h2 = composer_out k h1 @ t" by blast
  have "composer_out k h1 = []"
    unfolding v(2) buffer_tape(2) [OF composer_at_buffer(1) [OF k(2)]] by (simp add: fresh_buffer_def)
  then show ?thesis using k(1) h2 parcBufferComposer_ProduceBuffer_ok [OF h2(2)] by auto
qed

end
