(* ===== verification/Parc_URISegment.thy ===== *)
theory Parc_URISegment
  imports Parc_ComposerText Parc_Order
begin

text \<open>
  \<^verbatim>\<open>parc_URISegment.c\<close>: the segments of a URI path, byte strings that are written with percent encoding. A C string is the list
  of its characters without the final NUL, a pointer into it the rest of the list. A segment holds a buffer from its start to
  its limit, which is written once; it is the list of these bytes. Memory is granted to every request but those of the composers.
\<close>

section \<open>Characters\<close>

text \<open>\<open>*p\<close> for a pointer into a string.\<close>

definition peek :: "u8 list \<Rightarrow> u8" where
  "peek p = (case p of [] \<Rightarrow> 0 | c # _ \<Rightarrow> c)"

lemma peek_simps [simp]: "peek [] = 0" "peek (c # p) = c"
  by (simp_all add: peek_def)

abbreviation (input) slash :: u8 where "slash \<equiv> 47"
abbreviation (input) percent :: u8 where "percent \<equiv> 37"

text \<open>The character ends a segment: NUL, \<open>/\<close>, \<open>?\<close> or \<open>#\<close>.\<close>

definition ends_segment :: "u8 \<Rightarrow> bool" where
  "ends_segment c \<longleftrightarrow> c = 0 \<or> c = slash \<or> c = 63 \<or> c = 35"

definition uriPlainSegmentChar :: "u8 \<Rightarrow> bool" where
  "uriPlainSegmentChar c \<longleftrightarrow> c \<noteq> 0 \<and> (97 \<le> c \<and> c \<le> 122 \<or> 65 \<le> c \<and> c \<le> 90 \<or> 48 \<le> c \<and> c \<le> 57 \<or> c = 45 \<or> c = 46 \<or> c = 95 \<or> c = 126)"

text \<open>\<open>_fromHexDigit\<close> and \<open>_toHexDigit\<close> are those of \<^verbatim>\<open>parc_Buffer.c\<close>; the result of the first is taken as an unsigned character.\<close>

definition parsePercentEncoded :: "u8 list \<Rightarrow> (u8 \<times> u8 list) option" where
  "parsePercentEncoded string =
    (let c = peek string in
     if c \<noteq> 0 then
       let hi = word_of_int (fromHexDigit c) :: u8 in
       if hi > 15 then None
       else
         let c = peek (tl string) in
         if c \<noteq> 0 then
           let lo = word_of_int (fromHexDigit c) :: u8 in
           if lo > 15 then None else Some (push_bit 4 hi OR lo, tl (tl string))
         else None
     else None)"

section \<open>Segments\<close>

text \<open>The field \<open>requiresEscaping\<close> of the structure is never assigned or read.\<close>

record uri_segment =
  segment_buffer :: "u8 list"

definition parcURISegment_CreateFromBuffer :: "u8 list \<Rightarrow> uri_segment" where
  "parcURISegment_CreateFromBuffer bytes = \<lparr>segment_buffer = bytes\<rparr>"

definition parcURISegment_Create :: "u8 list \<Rightarrow> uri_segment" where
  "parcURISegment_Create segment = parcURISegment_CreateFromBuffer segment"

lemma parsePercentEncoded_shorter: "parsePercentEncoded s = Some (v, r) \<Longrightarrow> length r < length s"
  by (cases s; cases "tl s") (auto simp: parsePercentEncoded_def Let_def split: if_splits)

text \<open>The loop over the characters of a segment; \<open>None\<close> for a malformed escape.\<close>

function parse_chars :: "u8 list \<Rightarrow> u8 list \<Rightarrow> (u8 list \<times> u8 list) option" where
  "parse_chars p segment =
    (if ends_segment (peek p) then Some (segment, p)
     else if peek p = percent then
       (case parsePercentEncoded (tl p) of None \<Rightarrow> None | Some (value, p1) \<Rightarrow> parse_chars p1 (segment @ [value]))
     else parse_chars (tl p) (segment @ [peek p]))"
  by pat_completeness auto
termination
  by (relation "measure (length \<circ> fst)")
    (auto simp: ends_segment_def peek_def dest!: parsePercentEncoded_shorter split: list.splits)

declare parse_chars.simps [simp del]

text \<open>\<open>while (p[1] == '/') p++\<close>, when \<open>p\<close> is not at the end.\<close>

fun absorb_slashes :: "u8 list \<Rightarrow> u8 list" where
  "absorb_slashes (c # d # p) = (if d = slash then absorb_slashes (d # p) else c # d # p)"
| "absorb_slashes p = p"

text \<open>The segment and the pointer; for a malformed escape NULL, and the pointer is not assigned.\<close>

definition parcURISegment_Parse :: "u8 list \<Rightarrow> (uri_segment option \<times> u8 list option) result" where
  "parcURISegment_Parse string =
    rbind (assertTrue (peek string \<noteq> slash)) (\<lambda>_.
    case parse_chars string [] of
      None \<Rightarrow> Inr (None, None)
    | Some (segment, p) \<Rightarrow> Inr (Some (parcURISegment_Create segment), Some (if peek p \<noteq> 0 then absorb_slashes p else p)))"

definition parcURISegment_GetBuffer :: "uri_segment \<Rightarrow> u8 list" where
  "parcURISegment_GetBuffer segment = segment_buffer segment"

definition parcURISegment_Length :: "uri_segment \<Rightarrow> size_t" where
  "parcURISegment_Length segment = word_of_nat (length (segment_buffer segment))"

text \<open>Equal pointers point to equal segments; two NULL pointers are equal.\<close>

definition parcURISegment_Equals :: "uri_segment option \<Rightarrow> uri_segment option \<Rightarrow> bool" where
  "parcURISegment_Equals segmentA segmentB =
    (case (segmentA, segmentB) of
       (None, None) \<Rightarrow> True
     | (Some a, Some b) \<Rightarrow> segment_buffer a = segment_buffer b
     | _ \<Rightarrow> False)"

definition parcURISegment_Clone :: "uri_segment option \<Rightarrow> uri_segment result" where
  "parcURISegment_Clone segment =
    rbind (assertTrue (segment \<noteq> None)) (\<lambda>_. Inr (parcURISegment_CreateFromBuffer (segment_buffer (the segment))))"

definition parcURISegment_Compare :: "uri_segment option \<Rightarrow> uri_segment option \<Rightarrow> int" where
  "parcURISegment_Compare a b =
    (case (a, b) of
       (None, None) \<Rightarrow> 0
     | (None, Some _) \<Rightarrow> -1
     | (Some _, None) \<Rightarrow> 1
     | (Some x, Some y) \<Rightarrow>
         if parcURISegment_Length x < parcURISegment_Length y then -1
         else if parcURISegment_Length x > parcURISegment_Length y then 1
         else lex_compare (segment_buffer x) (segment_buffer y))"

section \<open>Text\<close>

fun build_chars :: "memory \<Rightarrow> ptr \<Rightarrow> u8 list \<Rightarrow> memory result" where
  "build_chars h composer [] = Inr h"
| "build_chars h composer (c # cs) =
    rbind (if uriPlainSegmentChar c then parcBufferComposer_PutChar h composer c
           else rbind (parcBufferComposer_PutChar h composer percent) (\<lambda>h.
                rbind (parcBufferComposer_PutChar h composer (toHexDigit (drop_bit 4 c))) (\<lambda>h.
                parcBufferComposer_PutChar h composer (toHexDigit c)))) (\<lambda>h.
    build_chars h composer cs)"

definition parcURISegment_BuildString :: "memory \<Rightarrow> ptr \<Rightarrow> uri_segment option \<Rightarrow> memory result" where
  "parcURISegment_BuildString h composer segment =
    rbind (assertTrue (composer \<noteq> None)) (\<lambda>_.
    case segment of None \<Rightarrow> Inl BadPointer | Some s \<Rightarrow> build_chars h composer (segment_buffer s))"

text \<open>The string a composer holds, which is then released.\<close>

definition finish_string :: "memory \<Rightarrow> ptr \<Rightarrow> (u8 list \<times> memory) result" where
  "finish_string h composer =
    rbind (parcBufferComposer_ProduceBuffer h composer) (\<lambda>(tempBuffer, h1).
    rbind (parcBuffer_ToString h1 tempBuffer) (\<lambda>(string, h2).
    rbind (parcBuffer_Release h2 tempBuffer) (\<lambda>(_, h3).
    rbind (parcBufferComposer_Release h3 composer) (\<lambda>(_, h4).
    Inr (string, h4)))))"

definition parcURISegment_ToString :: "size_t \<Rightarrow> memory \<Rightarrow> uri_segment option \<Rightarrow> (u8 list \<times> memory) result" where
  "parcURISegment_ToString lineSize h segment =
    rbind (parcBufferComposer_Create lineSize h) (\<lambda>(composer, h1).
    rbind (parcURISegment_BuildString h1 composer segment) (\<lambda>h2.
    finish_string h2 composer))"

section \<open>Printing and parsing\<close>

definition escaped :: "u8 \<Rightarrow> u8 list" where
  "escaped c = (if uriPlainSegmentChar c then [c] else [percent, toHexDigit (drop_bit 4 c), toHexDigit c])"

definition segment_text :: "u8 list \<Rightarrow> u8 list" where
  "segment_text bs = concat (map escaped bs)"

lemma segment_text_simps [simp]: "segment_text [] = []" "segment_text (c # cs) = escaped c @ segment_text cs"
  by (simp_all add: segment_text_def)

lemma build_chars_appends: "composer_text.appends k (\<lambda>h. build_chars h (Some k) bs) (segment_text bs)"
proof (induction bs)
  case Nil
  then show ?case using composer_appends(3) by simp
next
  case (Cons c bs)
  note put = composer_appends(1) [of k] and andthen = composer_text.appends_then [of k]
  have "composer_text.appends k (\<lambda>h. if uriPlainSegmentChar c then parcBufferComposer_PutChar h (Some k) c
           else rbind (parcBufferComposer_PutChar h (Some k) percent) (\<lambda>h.
                rbind (parcBufferComposer_PutChar h (Some k) (toHexDigit (drop_bit 4 c))) (\<lambda>h.
                parcBufferComposer_PutChar h (Some k) (toHexDigit c)))) (escaped c)"
    using put [of c] andthen [OF put [of percent] andthen [OF put [of "toHexDigit (drop_bit 4 c)"] put [of "toHexDigit c"]]]
    by (simp add: escaped_def)
  from andthen [OF this Cons.IH] show ?case by simp
qed

lemma BuildString_appends:
  "composer_text.appends k (\<lambda>h. parcURISegment_BuildString h (Some k) (Some s)) (segment_text (segment_buffer s))"
  using build_chars_appends [of k "segment_buffer s"] by (simp add: parcURISegment_BuildString_def)

lemma hex_char:
  "fromHexDigit (toHexDigit w) = int (unat (w AND 0xF))" "unat (w AND 0xF) < 16" "\<not> ends_segment (toHexDigit w)" "toHexDigit w \<noteq> 0"
proof -
  show lt: "unat (w AND 0xF) < 16"
  proof -
    have "(0xF :: u8) = mask 4" by (simp add: mask_eq_exp_minus_1)
    then have "w AND 0xF = take_bit 4 w" by (simp add: take_bit_eq_mask)
    then show ?thesis by (simp add: unsigned_take_bit_eq take_bit_nat_less_exp [of 4, simplified])
  qed
  show "fromHexDigit (toHexDigit w) = int (unat (w AND 0xF))"
    using fromHexDigit_codes lt by (auto simp: list_all_iff toHexDigit_def)
  have "list_all (\<lambda>n. hexDigitsUpper ! n \<noteq> 0 \<and> \<not> ends_segment (hexDigitsUpper ! n)) [0..<16]" by code_simp
  then show "\<not> ends_segment (toHexDigit w)" "toHexDigit w \<noteq> 0" using lt by (auto simp: list_all_iff toHexDigit_def)
qed

lemma parsePercentEncoded_hex: "parsePercentEncoded (toHexDigit (drop_bit 4 c) # toHexDigit c # r) = Some (c, r)"
proof -
  have w: "(word_of_int (int (unat (w AND 0xF))) :: u8) = w AND 0xF" for w :: u8 by simp
  have le: "\<not> 15 < (w AND 0xF :: u8)" for w using hex_char(2) [of w] by (simp add: word_less_nat_alt)
  have "push_bit 4 (drop_bit 4 c AND 0xF) OR (c AND 0xF) = push_bit 4 (drop_bit 4 c AND mask 4) OR (c AND mask 4)"
    by (simp add: mask_eq_exp_minus_1)
  also have "\<dots> = c" by (rule bit_word_eqI) (auto simp: bit_simps)
  finally show ?thesis using hex_char le by (simp add: parsePercentEncoded_def Let_def w)
qed

lemma plain_char: "uriPlainSegmentChar c \<Longrightarrow> \<not> ends_segment c \<and> c \<noteq> percent"
  by (auto simp: uriPlainSegmentChar_def ends_segment_def)

lemma parse_segment_text:
  assumes "ends_segment (peek r)"
  shows "parse_chars (segment_text bs @ r) acc = Some (acc @ bs, r)"
proof (induction bs arbitrary: acc)
  case Nil
  then show ?case using assms by (subst parse_chars.simps) simp
next
  case (Cons c bs)
  have "parse_chars (escaped c @ s) acc = parse_chars s (acc @ [c])" for s
  proof (cases "uriPlainSegmentChar c")
    case True
    then show ?thesis using plain_char [OF True] by (subst parse_chars.simps) (simp add: escaped_def)
  next
    case False
    have "\<not> ends_segment percent" by (simp add: ends_segment_def)
    then show ?thesis using False by (subst parse_chars.simps) (simp add: escaped_def parsePercentEncoded_hex)
  qed
  then show ?case using Cons.IH by simp
qed

lemma absorb_shorter: "length (absorb_slashes p) \<le> length p"
  by (induction p rule: absorb_slashes.induct) auto

lemma parse_chars_shorter: "parse_chars p segment = Some (bs, r) \<Longrightarrow> length r \<le> length p"
proof (induction p segment rule: parse_chars.induct)
  case (1 p segment)
  show ?case
    using 1 parsePercentEncoded_shorter [of "tl p"]
    by (subst (asm) (3) parse_chars.simps) (auto split: if_splits option.splits prod.splits, force)
qed

end
