(* ===== verification/Parc_JSON.thy ===== *)
theory Parc_JSON
  imports Parc_JSONParser Parc_URISegment
begin

text \<open>
  \<^verbatim>\<open>parc_JSONValue.c\<close>, \<^verbatim>\<open>parc_JSONPair.c\<close>, \<^verbatim>\<open>parc_JSONArray.c\<close> and \<^verbatim>\<open>parc_JSON.c\<close>: values, arrays and objects of JSON, their parsers and their
  text. Values are those reached through the pointers; a value is shared, but never changed once it is made. Memory requests are
  granted. Strings and names are the bytes their buffers hold from position 0 on. Numbers that hold a
  \<open>long double\<close> are left out, with the operations that make or return one.
\<close>

section \<open>Values\<close>

text \<open>A number is \<open>sign\<close> times (\<open>whole\<close> + \<open>fraction\<close> / 10 ^ \<open>fractionLog10\<close>) times 10 ^ \<open>exponent\<close>.\<close>

record json_number =
  num_sign :: int
  num_whole :: int
  num_fraction :: int
  num_fractionLog10 :: int
  num_exponent :: int

datatype json_value =
    JSONBoolean bool
  | JSONString "u8 list"
  | JSONNumber json_number
  | JSONArray "json_value list"
  | JSONObject "json_pair list"
  | JSONNull
and json_pair = JSONPair (pair_name: "u8 list") (pair_value: json_value)

type_synonym json_array = "json_value list"
type_synonym parc_json = "json_pair list"

definition parcJSONValue_IsNull :: "json_value \<Rightarrow> bool" where
  "parcJSONValue_IsNull v = (case v of JSONNull \<Rightarrow> True | _ \<Rightarrow> False)"

definition parcJSONValue_IsBoolean :: "json_value \<Rightarrow> bool" where
  "parcJSONValue_IsBoolean v = (case v of JSONBoolean _ \<Rightarrow> True | _ \<Rightarrow> False)"

definition parcJSONValue_IsNumber :: "json_value \<Rightarrow> bool" where
  "parcJSONValue_IsNumber v = (case v of JSONNumber _ \<Rightarrow> True | _ \<Rightarrow> False)"

definition parcJSONValue_IsJSON :: "json_value \<Rightarrow> bool" where
  "parcJSONValue_IsJSON v = (case v of JSONObject _ \<Rightarrow> True | _ \<Rightarrow> False)"

definition parcJSONValue_IsString :: "json_value \<Rightarrow> bool" where
  "parcJSONValue_IsString v = (case v of JSONString _ \<Rightarrow> True | _ \<Rightarrow> False)"

definition parcJSONValue_IsArray :: "json_value \<Rightarrow> bool" where
  "parcJSONValue_IsArray v = (case v of JSONArray _ \<Rightarrow> True | _ \<Rightarrow> False)"

definition parcJSONValue_CreateFromNULL :: json_value where
  "parcJSONValue_CreateFromNULL = JSONNull"

definition parcJSONValue_CreateFromBoolean :: "bool \<Rightarrow> json_value" where
  "parcJSONValue_CreateFromBoolean value = JSONBoolean value"

definition parcJSONValue_CreateNumber :: "int \<Rightarrow> int \<Rightarrow> int \<Rightarrow> int \<Rightarrow> int \<Rightarrow> json_value" where
  "parcJSONValue_CreateNumber s whole fraction fractionLog10 exponent =
    JSONNumber \<lparr>num_sign = s, num_whole = whole, num_fraction = fraction, num_fractionLog10 = fractionLog10, num_exponent = exponent\<rparr>"

definition parcJSONValue_CreateFromInteger :: "int \<Rightarrow> json_value" where
  "parcJSONValue_CreateFromInteger value = parcJSONValue_CreateNumber 1 value 0 0 0"

definition parcJSONValue_CreateFromString :: "u8 list \<Rightarrow> json_value" where
  "parcJSONValue_CreateFromString value = JSONString value"

definition parcJSONValue_CreateFromCString :: "u8 list option \<Rightarrow> json_value result" where
  "parcJSONValue_CreateFromCString value = (case value of None \<Rightarrow> Inl AssertFailed | Some s \<Rightarrow> Inr (JSONString s))"

definition parcJSONValue_CreateFromJSONArray :: "json_array \<Rightarrow> json_value" where
  "parcJSONValue_CreateFromJSONArray value = JSONArray value"

definition parcJSONValue_CreateFromJSON :: "parc_json \<Rightarrow> json_value" where
  "parcJSONValue_CreateFromJSON value = JSONObject value"

text \<open>The assertion that the value is not NULL, and the trap for a value of another type.\<close>

definition parcJSONValue_GetArray :: "json_value option \<Rightarrow> json_array result" where
  "parcJSONValue_GetArray v =
    (case v of None \<Rightarrow> Inl AssertFailed | Some (JSONArray a) \<Rightarrow> Inr a | Some _ \<Rightarrow> Inl UnexpectedState)"

definition parcJSONValue_GetBoolean :: "json_value option \<Rightarrow> bool result" where
  "parcJSONValue_GetBoolean v =
    (case v of None \<Rightarrow> Inl AssertFailed | Some (JSONBoolean b) \<Rightarrow> Inr b | Some _ \<Rightarrow> Inl UnexpectedState)"

definition parcJSONValue_GetString :: "json_value option \<Rightarrow> u8 list result" where
  "parcJSONValue_GetString v =
    (case v of None \<Rightarrow> Inl AssertFailed | Some (JSONString s) \<Rightarrow> Inr s | Some _ \<Rightarrow> Inl UnexpectedState)"

definition parcJSONValue_GetJSON :: "json_value option \<Rightarrow> parc_json result" where
  "parcJSONValue_GetJSON v =
    (case v of None \<Rightarrow> Inl AssertFailed | Some (JSONObject j) \<Rightarrow> Inr j | Some _ \<Rightarrow> Inl UnexpectedState)"

section \<open>Pairs, arrays and objects\<close>

definition parcJSONPair_Create :: "u8 list \<Rightarrow> json_value \<Rightarrow> json_pair" where
  "parcJSONPair_Create n v = JSONPair n v"

definition parcJSONPair_GetName :: "json_pair \<Rightarrow> u8 list" where
  "parcJSONPair_GetName pair = pair_name pair"

definition parcJSONPair_GetValue :: "json_pair \<Rightarrow> json_value" where
  "parcJSONPair_GetValue pair = pair_value pair"

definition parcJSONPair_CreateFromJSONValue :: "u8 list \<Rightarrow> json_value \<Rightarrow> json_pair" where
  "parcJSONPair_CreateFromJSONValue n v = parcJSONPair_Create n v"

definition parcJSONPair_CreateFromString :: "u8 list \<Rightarrow> u8 list \<Rightarrow> json_pair" where
  "parcJSONPair_CreateFromString n s = parcJSONPair_Create n (parcJSONValue_CreateFromString s)"

definition parcJSONPair_CreateFromNULL :: "u8 list \<Rightarrow> json_pair" where
  "parcJSONPair_CreateFromNULL n = parcJSONPair_Create n parcJSONValue_CreateFromNULL"

definition parcJSONPair_CreateFromBoolean :: "u8 list \<Rightarrow> bool \<Rightarrow> json_pair" where
  "parcJSONPair_CreateFromBoolean n b = parcJSONPair_Create n (parcJSONValue_CreateFromBoolean b)"

definition parcJSONPair_CreateFromInteger :: "u8 list \<Rightarrow> int \<Rightarrow> json_pair" where
  "parcJSONPair_CreateFromInteger n i = parcJSONPair_Create n (parcJSONValue_CreateFromInteger i)"

definition parcJSONPair_CreateFromJSONArray :: "u8 list \<Rightarrow> json_array \<Rightarrow> json_pair" where
  "parcJSONPair_CreateFromJSONArray n a = parcJSONPair_Create n (parcJSONValue_CreateFromJSONArray a)"

definition parcJSONPair_CreateFromJSON :: "u8 list \<Rightarrow> parc_json \<Rightarrow> json_pair" where
  "parcJSONPair_CreateFromJSON n j = parcJSONPair_Create n (parcJSONValue_CreateFromJSON j)"

definition parcJSONArray_Create :: json_array where
  "parcJSONArray_Create = []"

definition parcJSONArray_AddValue :: "json_array \<Rightarrow> json_value \<Rightarrow> json_array" where
  "parcJSONArray_AddValue a v = a @ [v]"

definition parcJSONArray_GetLength :: "json_array \<Rightarrow> size_t" where
  "parcJSONArray_GetLength a = word_of_nat (length a)"

text \<open>An index of an empty deque is not found to be out of bounds, and the NULL head is dereferenced.\<close>

definition parcJSONArray_GetValue :: "json_array \<Rightarrow> size_t \<Rightarrow> json_value result" where
  "parcJSONArray_GetValue a i =
    (if a = [] then Inl BadPointer else if unat i < length a then Inr (a ! unat i) else Inl OutOfBounds)"

definition parcJSON_Create :: parc_json where
  "parcJSON_Create = []"

definition parcJSON_AddPair :: "parc_json \<Rightarrow> json_pair \<Rightarrow> parc_json" where
  "parcJSON_AddPair json pair = json @ [pair]"

definition parcJSON_AddValue :: "parc_json \<Rightarrow> u8 list \<Rightarrow> json_value \<Rightarrow> parc_json" where
  "parcJSON_AddValue json n v = parcJSON_AddPair json (parcJSONPair_CreateFromJSONValue n v)"

definition parcJSON_AddString :: "parc_json \<Rightarrow> u8 list \<Rightarrow> u8 list \<Rightarrow> parc_json" where
  "parcJSON_AddString json n s = parcJSON_AddPair json (parcJSONPair_CreateFromString n s)"

definition parcJSON_AddObject :: "parc_json \<Rightarrow> u8 list \<Rightarrow> parc_json \<Rightarrow> parc_json" where
  "parcJSON_AddObject json n j = parcJSON_AddPair json (parcJSONPair_CreateFromJSON n j)"

definition parcJSON_AddInteger :: "parc_json \<Rightarrow> u8 list \<Rightarrow> int \<Rightarrow> parc_json" where
  "parcJSON_AddInteger json n i = parcJSON_AddPair json (parcJSONPair_CreateFromInteger n i)"

definition parcJSON_AddBoolean :: "parc_json \<Rightarrow> u8 list \<Rightarrow> bool \<Rightarrow> parc_json" where
  "parcJSON_AddBoolean json n b = parcJSON_AddPair json (parcJSONPair_CreateFromBoolean n b)"

definition parcJSON_AddArray :: "parc_json \<Rightarrow> u8 list \<Rightarrow> json_array \<Rightarrow> parc_json" where
  "parcJSON_AddArray json n a = parcJSON_AddPair json (parcJSONPair_CreateFromJSONArray n a)"

definition parcJSON_GetMembers :: "parc_json \<Rightarrow> json_pair list" where
  "parcJSON_GetMembers json = json"

definition parcJSON_GetPairByIndex :: "parc_json \<Rightarrow> size_t \<Rightarrow> json_pair option" where
  "parcJSON_GetPairByIndex json i = (if length json > unat i then Some (json ! unat i) else None)"

definition parcJSON_GetValueByIndex :: "parc_json \<Rightarrow> size_t \<Rightarrow> json_value option" where
  "parcJSON_GetValueByIndex json i =
    (if length json > unat i then Some (parcJSONPair_GetValue (json ! unat i)) else None)"

fun parcJSON_GetPairByName :: "parc_json \<Rightarrow> u8 list \<Rightarrow> json_pair option" where
  "parcJSON_GetPairByName [] n = None"
| "parcJSON_GetPairByName (pair # json) n =
    (if n = parcJSONPair_GetName pair then Some pair else parcJSON_GetPairByName json n)"

definition parcJSON_GetValueByName :: "parc_json \<Rightarrow> u8 list \<Rightarrow> json_value option" where
  "parcJSON_GetValueByName json n = map_option parcJSONPair_GetValue (parcJSON_GetPairByName json n)"

definition parcJSONValue_CreateFromTimeval :: "int \<Rightarrow> int \<Rightarrow> json_value" where
  "parcJSONValue_CreateFromTimeval tv_sec tv_usec =
    JSONObject (parcJSON_AddInteger (parcJSON_AddInteger parcJSON_Create
        [115, 101, 99, 111, 110, 100, 115] tv_sec) [109, 105, 99, 114, 111, 115] tv_usec)"

definition parcJSONValue_CreateFromTimespec :: "int \<Rightarrow> int \<Rightarrow> json_value" where
  "parcJSONValue_CreateFromTimespec tv_sec tv_nsec =
    JSONObject (parcJSON_AddInteger (parcJSON_AddInteger parcJSON_Create
        [115, 101, 99, 111, 110, 100, 115] tv_sec) [110, 97, 110, 111, 115] tv_nsec)"

section \<open>Equality\<close>

text \<open>\<open>fractionLog10\<close> is not compared.\<close>

definition equalsNumber :: "json_number \<Rightarrow> json_number \<Rightarrow> bool" where
  "equalsNumber a b \<longleftrightarrow> num_sign a = num_sign b \<and> num_whole a = num_whole b \<and> num_fraction a = num_fraction b \<and>
    num_exponent a = num_exponent b"

fun parcJSONValue_Equals :: "json_value \<Rightarrow> json_value \<Rightarrow> bool"
  and parcJSONPair_Equals :: "json_pair \<Rightarrow> json_pair \<Rightarrow> bool"
  and parcJSONArray_Equals :: "json_array \<Rightarrow> json_array \<Rightarrow> bool"
  and parcJSON_Equals :: "parc_json \<Rightarrow> parc_json \<Rightarrow> bool" where
  "parcJSONValue_Equals (JSONBoolean a) (JSONBoolean b) = (a = b)"
| "parcJSONValue_Equals (JSONString a) (JSONString b) = (a = b)"
| "parcJSONValue_Equals (JSONNumber a) (JSONNumber b) = equalsNumber a b"
| "parcJSONValue_Equals (JSONArray a) (JSONArray b) = parcJSONArray_Equals a b"
| "parcJSONValue_Equals (JSONObject a) (JSONObject b) = parcJSON_Equals a b"
| "parcJSONValue_Equals JSONNull JSONNull = True"
| "parcJSONValue_Equals _ _ = False"
| "parcJSONPair_Equals (JSONPair n v) (JSONPair m w) = (n = m \<and> parcJSONValue_Equals v w)"
| "parcJSONArray_Equals [] [] = True"
| "parcJSONArray_Equals (v # vs) (w # ws) = (parcJSONValue_Equals v w \<and> parcJSONArray_Equals vs ws)"
| "parcJSONArray_Equals _ _ = False"
| "parcJSON_Equals [] [] = True"
| "parcJSON_Equals (p # ps) (q # qs) = (parcJSONPair_Equals p q \<and> parcJSON_Equals ps qs)"
| "parcJSON_Equals _ _ = False"

end
