(* ===== verification/Parc_JSONParse.thy ===== *)
theory Parc_JSONParse
  imports Parc_JSON
begin

text \<open>
  The parsers of \<^verbatim>\<open>parc_JSONValue.c\<close>, \<^verbatim>\<open>parc_JSONPair.c\<close> and \<^verbatim>\<open>parc_JSON.c\<close>. A parser returns the value, or NULL, with the state of the
  cursor. The parsers of values call each other; their first argument bounds the number of calls, and the trap \<open>Diverges\<close> says that
  it was too small. \<open>Parc_JSONEnds\<close> shows that twice the number of remaining bytes is always enough.
\<close>

section \<open>Numbers\<close>

text \<open>The arithmetic on \<open>int64_t\<close> and \<open>int\<close>: an overflow is undefined.\<close>

definition int64 :: "int \<Rightarrow> int result" where
  "int64 i = (if - 9223372036854775808 \<le> i \<and> i \<le> 9223372036854775807 then Inr i else Inl Undefined)"

definition int32 :: "int \<Rightarrow> int result" where
  "int32 i = (if - 2147483648 \<le> i \<and> i \<le> 2147483647 then Inr i else Inl Undefined)"

definition digittoint :: "u8 \<Rightarrow> int" where
  "digittoint digit = sint digit - 48"

definition append_digit :: "int \<Rightarrow> u8 \<Rightarrow> int result" where
  "append_digit value digit = rbind (int64 (value * 10)) (\<lambda>v. int64 (v + digittoint digit))"

definition parseSign :: "json_parser \<Rightarrow> (int option \<times> json_parser) result" where
  "parseSign p =
    (if parcJSONParser_Remaining p > 0 then
       rbind (parcJSONParser_NextChar p) (\<lambda>(c, p1).
       if c = 45 then Inr (Some (- 1), p1)
       else if \<not> isdigit c then Inr (None, p1)
       else rbind (parcJSONParser_Advance p1 (- 1)) (\<lambda>p2. Inr (Some 1, p2)))
     else Inr (Some 1, p))"

function whole_loop :: "json_parser \<Rightarrow> int \<Rightarrow> (int \<times> json_parser) result" where
  "whole_loop p value =
    (case parcJSONParser_Next p of
       Inl e \<Rightarrow> Inl e
     | Inr (None, p1) \<Rightarrow> Inr (value, p1)
     | Inr (Some c, p1) \<Rightarrow>
         if \<not> isdigit c then rbind (parcJSONParser_Advance p1 (- 1)) (\<lambda>p2. Inr (value, p2))
         else rbind (append_digit value c) (\<lambda>value. whole_loop p1 value))"
  by pat_completeness auto
termination
  by (relation "measure (length \<circ> unread \<circ> fst)") (auto dest!: Next_shorter(1))

definition parseWholeNumber :: "json_parser \<Rightarrow> (int option \<times> json_parser) result" where
  "parseWholeNumber p =
    rbind (parcJSONParser_Next p) (\<lambda>(n, p1).
    case n of
      None \<Rightarrow> Inr (None, p1)
    | Some c \<Rightarrow>
        if c = 48 then Inr (Some 0, p1)
        else if isdigit c then rbind (whole_loop p1 (digittoint c)) (\<lambda>(value, p2). Inr (Some value, p2))
        else Inr (None, p1))"

function fraction_loop :: "json_parser \<Rightarrow> int \<Rightarrow> int \<Rightarrow> ((int \<times> int) \<times> json_parser) result" where
  "fraction_loop p value log10 =
    (case parcJSONParser_Next p of
       Inl e \<Rightarrow> Inl e
     | Inr (None, p1) \<Rightarrow> Inr ((value, log10), p1)
     | Inr (Some c, p1) \<Rightarrow>
         if \<not> isdigit c then rbind (parcJSONParser_Advance p1 (- 1)) (\<lambda>p2. Inr ((value, log10), p2))
         else rbind (append_digit value c) (\<lambda>value. rbind (int32 (log10 + 1)) (\<lambda>log10. fraction_loop p1 value log10)))"
  by pat_completeness auto
termination
  by (relation "measure (length \<circ> unread \<circ> fst)") (auto dest!: Next_shorter(1))

definition parseFractionNumber :: "json_parser \<Rightarrow> ((int \<times> int) option \<times> json_parser) result" where
  "parseFractionNumber p =
    (if parcJSONParser_Remaining p > 0
     then rbind (fraction_loop p 0 0) (\<lambda>(f, p1). Inr (Some f, p1))
     else Inr (None, p))"

text \<open>The caller passes 0 for the fraction and for its logarithm.\<close>

definition parseOptionalFraction :: "json_parser \<Rightarrow> ((int \<times> int) option \<times> json_parser) result" where
  "parseOptionalFraction p =
    rbind (parcJSONParser_Next p) (\<lambda>(n, p1).
    case n of
      None \<Rightarrow> Inr (Some (0, 0), p1)
    | Some c \<Rightarrow>
        if c = 46 then parseFractionNumber p1
        else
          rbind (parcJSONParser_Advance p1 (- 1)) (\<lambda>p2.
          Inr (if c = 101 \<or> c = 44 \<or> c = 93 \<or> c = 125 then Some (0, 0) else None, p2)))"

text \<open>Every character is taken as a digit.\<close>

function parseDigits09 :: "json_parser \<Rightarrow> int \<Rightarrow> bool \<Rightarrow> (int \<times> bool \<times> json_parser) result" where
  "parseDigits09 p value result =
    (case parcJSONParser_Next p of
       Inl e \<Rightarrow> Inl e
     | Inr (None, p1) \<Rightarrow> Inr (value, result, p1)
     | Inr (Some c, p1) \<Rightarrow> rbind (append_digit value c) (\<lambda>value. parseDigits09 p1 value True))"
  by pat_completeness auto
termination
  by (relation "measure (length \<circ> unread \<circ> fst)") (auto dest!: Next_shorter(1))

declare whole_loop.simps [simp del] fraction_loop.simps [simp del] parseDigits09.simps [simp del]

definition parse_exponent_digits :: "json_parser \<Rightarrow> int \<Rightarrow> (int option \<times> json_parser) result" where
  "parse_exponent_digits p s =
    rbind (parseDigits09 p 0 False) (\<lambda>(value, result, p1).
    rbind (int64 (value * s)) (\<lambda>value.
    Inr (if result then Some value else None, p1)))"

definition parseExponentNumber :: "json_parser \<Rightarrow> (int option \<times> json_parser) result" where
  "parseExponentNumber p =
    rbind (parcJSONParser_Next p) (\<lambda>(n, p1).
    case n of
      None \<Rightarrow> Inr (None, p1)
    | Some c \<Rightarrow>
        if c = 45 then parse_exponent_digits p1 (- 1)
        else if c = 43 then parse_exponent_digits p1 1
        else if isdigit c then rbind (parcJSONParser_Advance p1 (- 1)) (\<lambda>p2. parse_exponent_digits p2 1)
        else Inr (None, p1))"

definition parseOptionalExponent :: "json_parser \<Rightarrow> (int option \<times> json_parser) result" where
  "parseOptionalExponent p =
    rbind (parcJSONParser_Next p) (\<lambda>(n, p1).
    case n of
      None \<Rightarrow> Inr (Some 0, p1)
    | Some c \<Rightarrow>
        if c = 101 \<or> c = 69 then parseExponentNumber p1
        else
          rbind (parcJSONParser_Advance p1 (- 1)) (\<lambda>p2.
          Inr (if c = 44 \<or> c = 93 \<or> c = 125 then Some 0 else None, p2)))"

definition parcJSONValue_NumberParser :: "json_parser \<Rightarrow> (json_value option \<times> json_parser) result" where
  "parcJSONValue_NumberParser p =
    rbind (parseSign p) (\<lambda>(s, p1).
    case s of None \<Rightarrow> Inr (None, p1) | Some s \<Rightarrow>
    rbind (parseWholeNumber p1) (\<lambda>(w, p2).
    case w of None \<Rightarrow> Inr (None, p2) | Some whole \<Rightarrow>
    rbind (parseOptionalFraction p2) (\<lambda>(f, p3).
    case f of None \<Rightarrow> Inr (None, p3) | Some (fraction, fractionLog10) \<Rightarrow>
    rbind (parseOptionalExponent p3) (\<lambda>(e, p4).
    case e of None \<Rightarrow> Inr (None, p4) | Some exponent \<Rightarrow>
    Inr (Some (parcJSONValue_CreateNumber s whole fraction fractionLog10 exponent), p4)))))"

section \<open>Words and strings\<close>

definition word_parser :: "u8 list \<Rightarrow> json_value \<Rightarrow> json_parser \<Rightarrow> (json_value option \<times> json_parser) result" where
  "word_parser word v p =
    rbind (parcJSONParser_RequireString p word) (\<lambda>(found, p1). Inr (if found then Some v else None, p1))"

definition parcJSONValue_FalseParser :: "json_parser \<Rightarrow> (json_value option \<times> json_parser) result" where
  "parcJSONValue_FalseParser p = word_parser [102, 97, 108, 115, 101] (parcJSONValue_CreateFromBoolean False) p"

definition parcJSONValue_NullParser :: "json_parser \<Rightarrow> (json_value option \<times> json_parser) result" where
  "parcJSONValue_NullParser p = word_parser [110, 117, 108, 108] parcJSONValue_CreateFromNULL p"

definition parcJSONValue_TrueParser :: "json_parser \<Rightarrow> (json_value option \<times> json_parser) result" where
  "parcJSONValue_TrueParser p = word_parser [116, 114, 117, 101] (parcJSONValue_CreateFromBoolean True) p"

definition parcJSONValue_StringParser :: "json_parser \<Rightarrow> (json_value option \<times> json_parser) result" where
  "parcJSONValue_StringParser p =
    rbind (parcJSONParser_ParseString p) (\<lambda>(string, p1). Inr (map_option parcJSONValue_CreateFromString string, p1))"

section \<open>Values\<close>

text \<open>
  The value parser chooses by the next character; the loop of the array parser chooses in the same way, but takes the
  comma and the closing bracket itself. A pair without name is an assertion of the object model.
\<close>

fun parcJSONValue_Parser :: "nat \<Rightarrow> json_parser \<Rightarrow> (json_value option \<times> json_parser) result"
  and parcJSONValue_ArrayParser :: "nat \<Rightarrow> json_parser \<Rightarrow> (json_value option \<times> json_parser) result"
  and array_loop :: "nat \<Rightarrow> json_parser \<Rightarrow> json_array \<Rightarrow> (json_value option \<times> json_parser) result"
  and parcJSONValue_ObjectParser :: "nat \<Rightarrow> json_parser \<Rightarrow> (json_value option \<times> json_parser) result"
  and object_loop :: "nat \<Rightarrow> json_parser \<Rightarrow> parc_json \<Rightarrow> (json_value option \<times> json_parser) result"
  and parcJSONPair_Parser :: "nat \<Rightarrow> json_parser \<Rightarrow> (json_pair option \<times> json_parser) result" where
  "parcJSONValue_Parser 0 p = Inl Diverges"
| "parcJSONValue_Parser (Suc n) p =
    rbind (parcJSONParser_PeekNextChar p) (\<lambda>(c, p1).
    if c = 44 \<or> c = 93 then Inr (None, p1)
    else if c = 110 then parcJSONValue_NullParser p1
    else if c = 116 then parcJSONValue_TrueParser p1
    else if c = 102 then parcJSONValue_FalseParser p1
    else if c = 34 then parcJSONValue_StringParser p1
    else if c = 91 then parcJSONValue_ArrayParser n p1
    else if c = 123 then parcJSONValue_ObjectParser n p1
    else parcJSONValue_NumberParser p1)"
| "parcJSONValue_ArrayParser 0 p = Inl Diverges"
| "parcJSONValue_ArrayParser (Suc n) p =
    rbind (parcJSONParser_NextChar p) (\<lambda>(c, p1).
    if c = 91 then array_loop n p1 parcJSONArray_Create else Inr (None, p1))"
| "array_loop 0 p a = Inl Diverges"
| "array_loop (Suc n) p a =
    (if parcJSONParser_Remaining p > 0 then
       rbind (parcJSONParser_PeekNextChar p) (\<lambda>(c, p1).
       if c = 44 then rbind (parcJSONParser_NextChar p1) (\<lambda>(_, p2). array_loop n p2 a)
       else if c = 93 then rbind (parcJSONParser_NextChar p1) (\<lambda>(_, p2). Inr (Some (parcJSONValue_CreateFromJSONArray a), p2))
       else
         rbind (if c = 110 then parcJSONValue_NullParser p1
                else if c = 116 then parcJSONValue_TrueParser p1
                else if c = 102 then parcJSONValue_FalseParser p1
                else if c = 34 then parcJSONValue_StringParser p1
                else if c = 123 then parcJSONValue_ObjectParser n p1
                else if c = 91 then parcJSONValue_ArrayParser n p1
                else parcJSONValue_NumberParser p1) (\<lambda>(value, p2).
         case value of
           Some v \<Rightarrow> array_loop n p2 (parcJSONArray_AddValue a v)
         | None \<Rightarrow> Inr (None, p2)))
     else Inr (None, p))"
| "parcJSONValue_ObjectParser 0 p = Inl Diverges"
| "parcJSONValue_ObjectParser (Suc n) p =
    rbind (parcJSONParser_NextChar p) (\<lambda>(c, p1).
    if c = 123 then object_loop n p1 parcJSON_Create else Inr (None, p1))"
| "object_loop 0 p json = Inl Diverges"
| "object_loop (Suc n) p json =
    (if parcJSONParser_Remaining p > 0 then
       rbind (parcJSONParser_PeekNextChar p) (\<lambda>(c, p1).
       if c = 125 then rbind (parcJSONParser_NextChar p1) (\<lambda>(_, p2). Inr (Some (parcJSONValue_CreateFromJSON json), p2))
       else if c = 44 then rbind (parcJSONParser_NextChar p1) (\<lambda>(_, p2). object_loop n p2 json)
       else if c = 34 then
         rbind (parcJSONPair_Parser n p1) (\<lambda>(pair, p2).
         case pair of
           None \<Rightarrow> Inr (None, p2)
         | Some pair \<Rightarrow> object_loop n p2 (parcJSON_AddPair json pair))
       else Inr (None, p1))
     else Inr (None, p))"
| "parcJSONPair_Parser 0 p = Inl Diverges"
| "parcJSONPair_Parser (Suc n) p =
    rbind (parcJSONParser_ParseString p) (\<lambda>(name, p1).
    rbind (parcJSONParser_NextChar p1) (\<lambda>(c, p2).
    rbind (if c = 58 then parcJSONValue_Parser n p2 else Inr (None, p2)) (\<lambda>(value, p3).
    case name of
      None \<Rightarrow> Inl AssertFailed
    | Some name \<Rightarrow> Inr (map_option (parcJSONPair_Create name) value, p3))))"

declare parcJSONValue_Parser.simps(2) [simp del] parcJSONValue_ArrayParser.simps(2) [simp del] array_loop.simps(2) [simp del]
  parcJSONValue_ObjectParser.simps(2) [simp del] object_loop.simps(2) [simp del] parcJSONPair_Parser.simps(2) [simp del]

section \<open>Objects\<close>

text \<open>The parser is given as many calls as it can need.\<close>

definition parcJSON_ParseBuffer :: "json_parser \<Rightarrow> parc_json option result" where
  "parcJSON_ParseBuffer p =
    rbind (parcJSONParser_PeekNextChar p) (\<lambda>(firstCharacter, p1).
    if firstCharacter = 123 then
      rbind (parcJSONValue_ObjectParser (2 * parcJSONParser_Remaining p1 + 1) p1) (\<lambda>(value, p2).
      rbind (parcJSONValue_GetJSON value) (\<lambda>json. Inr (Some json)))
    else Inr None)"

definition parcJSON_ParseString :: "u8 list \<Rightarrow> parc_json option result" where
  "parcJSON_ParseString string = parcJSON_ParseBuffer (parcJSONParser_Create string None)"

end
