(* ===== verification/Parc_JSONEnds.thy ===== *)
theory Parc_JSONEnds
  imports Parc_JSONParse
begin

text \<open>
  The parsers of JSON end: every parser that returns a value has consumed a character, more calls than needed change nothing, and
  twice the number of the remaining bytes is enough.
\<close>

section \<open>What the parsers consume\<close>

abbreviation left :: "json_parser \<Rightarrow> nat" where
  "left p \<equiv> length (unread p)"

lemma Advance_after:
  assumes "parcJSONParser_Next p = Inr (Some c, p1)"
  shows "\<exists>p2. parcJSONParser_Advance p1 (- 1) = Inr p2 \<and> left p2 \<le> left p"
proof -
  let ?q = "parcJSONParser_SkipIgnored p"
  obtain cs where "unread ?q = c # cs" "p1 = ?q\<lparr>passed := c # passed ?q, unread := cs\<rparr>"
    using assms by (auto simp: parcJSONParser_Next_def Let_def parcJSONParser_Remaining_def parser_get_def split: if_splits list.splits)
  then have "parcJSONParser_Advance p1 (- 1) = Inr ?q"
    using Advance_back [of c "passed ?q" cs "beyond ?q"] by (cases ?q) simp
  then show ?thesis using SkipIgnored_shorter [of p] by blast
qed

lemma Advance_after_NextChar:
  assumes "parcJSONParser_NextChar p = Inr (c, p1)" "parcJSONParser_Advance p1 (- 1) = Inr p2"
  shows "left p2 \<le> left p"
proof -
  have "parcJSONParser_Next p = Inr (Some c, p1)"
    using assms(1) by (auto simp: parcJSONParser_NextChar_def parcJSONParser_Next_def Let_def parcJSONParser_Remaining_def
        parser_get_def split: list.splits)
  then show ?thesis using Advance_after assms(2) by fastforce
qed

lemma whole_loop_left: "whole_loop p v = Inr (w, p') \<Longrightarrow> left p' \<le> left p"
proof (induction p v rule: whole_loop.induct)
  case (1 p v)
  show ?case
  proof (cases "parcJSONParser_Next p")
    case (Inr x)
    obtain n p1 where x: "x = (n, p1)" by force
    show ?thesis
    proof (cases n)
      case None
      then show ?thesis using 1(2) Inr x Next_shorter(2) [of p p1] by (subst (asm) whole_loop.simps) simp
    next
      case (Some c)
      then obtain p2 where p2: "parcJSONParser_Advance p1 (- 1) = Inr p2" "left p2 \<le> left p"
        using Advance_after [of p c p1] Inr x by blast
      show ?thesis
      proof (cases "isdigit c")
        case True
        then obtain v1 where d: "append_digit v c = Inr v1" "whole_loop p1 v1 = Inr (w, p')"
          using 1(2) Inr x Some by (subst (asm) whole_loop.simps) auto
        then have "left p' \<le> left p1" using 1(1) Inr x Some True by blast
        then show ?thesis using Next_shorter(1) [of p c p1] Inr x Some by simp
      next
        case False
        then show ?thesis using 1(2) Inr x Some p2 by (subst (asm) whole_loop.simps) simp
      qed
    qed
  qed (use 1(2) in \<open>subst (asm) whole_loop.simps, simp\<close>)
qed

lemma fraction_loop_left: "fraction_loop p v l = Inr (w, p') \<Longrightarrow> left p' \<le> left p"
proof (induction p v l rule: fraction_loop.induct)
  case (1 p v l)
  show ?case
  proof (cases "parcJSONParser_Next p")
    case (Inr x)
    obtain n p1 where x: "x = (n, p1)" by force
    show ?thesis
    proof (cases n)
      case None
      then show ?thesis using 1(2) Inr x Next_shorter(2) [of p p1] by (subst (asm) fraction_loop.simps) simp
    next
      case (Some c)
      then obtain p2 where p2: "parcJSONParser_Advance p1 (- 1) = Inr p2" "left p2 \<le> left p"
        using Advance_after [of p c p1] Inr x by blast
      show ?thesis
      proof (cases "isdigit c")
        case True
        then obtain v1 l1 where d: "append_digit v c = Inr v1" "int32 (l + 1) = Inr l1" "fraction_loop p1 v1 l1 = Inr (w, p')"
          using 1(2) Inr x Some by (subst (asm) fraction_loop.simps) auto
        then have "left p' \<le> left p1" using 1(1) Inr x Some True by blast
        then show ?thesis using Next_shorter(1) [of p c p1] Inr x Some by simp
      next
        case False
        then show ?thesis using 1(2) Inr x Some p2 by (subst (asm) fraction_loop.simps) simp
      qed
    qed
  qed (use 1(2) in \<open>subst (asm) fraction_loop.simps, simp\<close>)
qed

lemma parseDigits09_left: "parseDigits09 p v r = Inr (w, q, p') \<Longrightarrow> left p' \<le> left p"
proof (induction p v r rule: parseDigits09.induct)
  case (1 p v r)
  then show ?case
    by (subst (asm) parseDigits09.simps)
      (fastforce dest: Next_shorter split: sum.splits prod.splits option.splits)
qed

lemma RequireString_left: "parcJSONParser_RequireString p s = Inr (b, p') \<Longrightarrow> left p' \<le> left p"
  by (induction p s rule: parcJSONParser_RequireString.induct) (fastforce dest: parser_get_shorter split: if_splits)+

lemma word_parser_left: "word_parser (c # s) v p = Inr (r, p') \<Longrightarrow> left p' < left p"
  by (auto simp: word_parser_def dest!: parser_get_shorter RequireString_left split: if_splits)

lemma parse_string_left: "parse_string p s = Inr (r, p') \<Longrightarrow> left p' \<le> left p"
proof (induction p s rule: parse_string.induct)
  case (1 p s)
  show ?case
  proof (cases "parcJSONParser_Remaining p > 0 \<and> (\<exists>c p1. parser_get p = Inr (c, p1))")
    case True
    then obtain c p1 where g: "parcJSONParser_Remaining p > 0" "parser_get p = Inr (c, p1)" by blast
    have less: "left p1 < left p" using parser_get_shorter [OF g(2)] .
    consider "c = 34" | c2 p2 where "c = 92" "parser_get p1 = Inr (c2, p2)" "c2 \<noteq> 117" "parse_string p2 (s @ [unescape c2]) = Inr (r, p')"
      | "iscntrl c" "p' = p1" | "c \<noteq> 34" "c \<noteq> 92" "\<not> iscntrl c" "parse_string p1 (s @ [c]) = Inr (r, p')"
      using 1(3) g by (subst (asm) parse_string.simps) (auto split: if_splits sum.splits)
    then show ?thesis
    proof cases
      case 1
      with \<open>parse_string p s = Inr (r, p')\<close> g less show ?thesis by (subst (asm) parse_string.simps) simp
    next
      case 2
      with 1(1) [OF g(1,2) refl _ 2(1) 2(2) refl 2(3,4)] parser_get_shorter [OF 2(2)] less show ?thesis by simp
    next
      case 4
      with 1(2) [OF g(1,2) refl] less show ?thesis by simp
    qed (use less in simp)
  next
    case False
    then show ?thesis using 1(3) by (subst (asm) parse_string.simps) (auto split: if_splits sum.splits)
  qed
qed

lemma ParseString_left: "parcJSONParser_ParseString p = Inr (r, p') \<Longrightarrow> left p' < left p"
  by (auto simp: parcJSONParser_ParseString_def dest!: parser_get_shorter parse_string_left split: if_splits)

lemma parseSign_left: "parseSign p = Inr (s, p') \<Longrightarrow> left p' \<le> left p"
  by (auto simp: parseSign_def dest: NextChar_shorter Advance_after_NextChar split: if_splits)

lemma parseWholeNumber_left: "parseWholeNumber p = Inr (Some w, p') \<Longrightarrow> left p' < left p"
proof -
  assume w: "parseWholeNumber p = Inr (Some w, p')"
  then obtain c p1 where n: "parcJSONParser_Next p = Inr (Some c, p1)"
    by (auto simp: parseWholeNumber_def split: option.splits)
  then have "left p1 < left p" by (rule Next_shorter)
  moreover have "left p' \<le> left p1" using w n whole_loop_left [of p1] by (auto simp: parseWholeNumber_def split: if_splits)
  ultimately show ?thesis by simp
qed

lemma parseFractionNumber_left: "parseFractionNumber p = Inr (f, p') \<Longrightarrow> left p' \<le> left p"
  by (auto simp: parseFractionNumber_def dest: fraction_loop_left split: if_splits)

lemma parseOptionalFraction_left: "parseOptionalFraction p = Inr (f, p') \<Longrightarrow> left p' \<le> left p"
proof -
  assume "parseOptionalFraction p = Inr (f, p')"
  then obtain n p1 where n: "parcJSONParser_Next p = Inr (n, p1)" "(case n of None \<Rightarrow> Inr (Some (0, 0), p1) | Some c \<Rightarrow>
        if c = 46 then parseFractionNumber p1
        else rbind (parcJSONParser_Advance p1 (- 1)) (\<lambda>p2.
          Inr (if c = 101 \<or> c = 44 \<or> c = 93 \<or> c = 125 then Some (0, 0) else None, p2))) = Inr (f, p')"
    by (auto simp: parseOptionalFraction_def)
  show ?thesis
  proof (cases n)
    case None
    then show ?thesis using n Next_shorter(2) by auto
  next
    case (Some c)
    then show ?thesis
      using n Next_shorter(1) [of p c p1] Advance_after [of p c p1] parseFractionNumber_left [of p1 f p']
      by (auto split: if_splits)
  qed
qed

lemma exponent_digits_left: "parse_exponent_digits p s = Inr (e, p') \<Longrightarrow> left p' \<le> left p"
  by (auto simp: parse_exponent_digits_def dest: parseDigits09_left)

lemma parseExponentNumber_left: "parseExponentNumber p = Inr (e, p') \<Longrightarrow> left p' \<le> left p"
proof -
  assume e: "parseExponentNumber p = Inr (e, p')"
  then obtain n p1 where n: "parcJSONParser_Next p = Inr (n, p1)" by (auto simp: parseExponentNumber_def)
  show ?thesis
  proof (cases n)
    case None
    then show ?thesis using e n Next_shorter(2) by (auto simp: parseExponentNumber_def)
  next
    case (Some c)
    then show ?thesis
      using e n Next_shorter(1) [of p c p1] Advance_after [of p c p1] exponent_digits_left [of p1 1 e p']
        exponent_digits_left [of p1 "- 1" e p'] exponent_digits_left [of _ 1 e p']
      by (force simp: parseExponentNumber_def split: if_splits)
  qed
qed

lemma parseOptionalExponent_left: "parseOptionalExponent p = Inr (e, p') \<Longrightarrow> left p' \<le> left p"
proof -
  assume e: "parseOptionalExponent p = Inr (e, p')"
  then obtain n p1 where n: "parcJSONParser_Next p = Inr (n, p1)" by (auto simp: parseOptionalExponent_def)
  show ?thesis
  proof (cases n)
    case None
    then show ?thesis using e n Next_shorter(2) by (auto simp: parseOptionalExponent_def)
  next
    case (Some c)
    then show ?thesis
      using e n Next_shorter(1) [of p c p1] Advance_after [of p c p1] parseExponentNumber_left [of p1 e p']
      by (auto simp: parseOptionalExponent_def split: if_splits)
  qed
qed

lemma NumberParser_left: "parcJSONValue_NumberParser p = Inr (Some v, p') \<Longrightarrow> left p' < left p"
proof -
  assume "parcJSONValue_NumberParser p = Inr (Some v, p')"
  then obtain s p1 w p2 f p3 e where "parseSign p = Inr (Some s, p1)" "parseWholeNumber p1 = Inr (Some w, p2)"
      "parseOptionalFraction p2 = Inr (Some f, p3)" "parseOptionalExponent p3 = Inr (Some e, p')"
    by (auto simp: parcJSONValue_NumberParser_def split: option.splits)
  then show ?thesis
    using parseSign_left parseWholeNumber_left parseOptionalFraction_left parseOptionalExponent_left by fastforce
qed

lemma StringParser_left: "parcJSONValue_StringParser p = Inr (r, p') \<Longrightarrow> left p' < left p"
  by (auto simp: parcJSONValue_StringParser_def dest: ParseString_left)

lemma words_left:
  "parcJSONValue_NullParser p = Inr (r, p') \<Longrightarrow> left p' < left p"
  "parcJSONValue_TrueParser p = Inr (r, p') \<Longrightarrow> left p' < left p"
  "parcJSONValue_FalseParser p = Inr (r, p') \<Longrightarrow> left p' < left p"
  by (auto simp: parcJSONValue_NullParser_def parcJSONValue_TrueParser_def parcJSONValue_FalseParser_def dest: word_parser_left)

lemmas simple_left = NumberParser_left StringParser_left words_left

text \<open>A result that is a value has consumed something.\<close>

definition shrinks :: "json_parser \<Rightarrow> ('v option \<times> json_parser) result \<Rightarrow> bool" where
  "shrinks p r \<longleftrightarrow> (\<forall>v p'. r = Inr (Some v, p') \<longrightarrow> left p' < left p)"

lemma shrinks_simps [simp]: "shrinks p (Inl e)" "shrinks p (Inr (None, p'))" "shrinks p (Inr (Some v, p')) \<longleftrightarrow> left p' < left p"
  by (simp_all add: shrinks_def)

lemma shrinks_rbind: "(\<And>x. m = Inr x \<Longrightarrow> shrinks p (f x)) \<Longrightarrow> shrinks p (rbind m f)"
  by (cases m) auto

lemma shrinks_later: "shrinks p1 r \<Longrightarrow> left p1 \<le> left p \<Longrightarrow> shrinks p r"
  unfolding shrinks_def by fastforce

lemma simple_shrink:
  "shrinks p (parcJSONValue_NumberParser p)" "shrinks p (parcJSONValue_StringParser p)" "shrinks p (parcJSONValue_NullParser p)"
  "shrinks p (parcJSONValue_TrueParser p)" "shrinks p (parcJSONValue_FalseParser p)"
  by (auto simp: shrinks_def dest: simple_left)

lemma shrinks_peek:
  assumes "\<And>c p1. left p1 \<le> left p \<Longrightarrow> shrinks p (f (c, p1))"
  shows "shrinks p (rbind (parcJSONParser_PeekNextChar p) f)"
  using assms Peek_shorter by (intro shrinks_rbind) force

lemma shrinks_next:
  assumes "left q \<le> left p" "\<And>c p1. left p1 < left p \<Longrightarrow> shrinks p (f (c, p1))"
  shows "shrinks p (rbind (parcJSONParser_NextChar q) f)"
  using assms NextChar_shorter [of q] by (intro shrinks_rbind) (metis (no_types, lifting) order_less_le_trans surj_pair)

lemma shrinks_value:
  assumes "shrinks q m" "left q \<le> left p" "\<And>p2. shrinks p (f (None, p2))" "\<And>v p2. left p2 < left p \<Longrightarrow> shrinks p (f (Some v, p2))"
  shows "shrinks p (rbind m f)"
proof (rule shrinks_rbind)
  fix x assume m: "m = Inr x"
  obtain r p2 where x: "x = (r, p2)" by force
  show "shrinks p (f x)"
  proof (cases r)
    case (Some v)
    then have "left p2 < left p" using assms(1,2) m x by simp
    then show ?thesis using assms(4) x Some by simp
  qed (use assms(3) x in simp)
qed

lemma parsers_shrink:
  "shrinks p (parcJSONValue_Parser n p) \<and> shrinks p (parcJSONValue_ArrayParser n p) \<and> shrinks p (array_loop n p a) \<and>
    shrinks p (parcJSONValue_ObjectParser n p) \<and> shrinks p (object_loop n p j) \<and> shrinks p (parcJSONPair_Parser n p)"
proof (induction n arbitrary: p a j)
  case (Suc n)
  then have IH: "shrinks p (parcJSONValue_Parser n p)" "shrinks p (parcJSONValue_ArrayParser n p)" "shrinks p (array_loop n p a)"
    "shrinks p (parcJSONValue_ObjectParser n p)" "shrinks p (object_loop n p j)" "shrinks p (parcJSONPair_Parser n p)" for p a j
    by blast+
  note later = shrinks_later [of _ _ p]
  have "shrinks p (parcJSONValue_Parser (Suc n) p)"
    unfolding parcJSONValue_Parser.simps by (rule shrinks_peek) (auto intro: later simple_shrink IH)
  moreover have "shrinks p (parcJSONValue_ArrayParser (Suc n) p)"
    unfolding parcJSONValue_ArrayParser.simps by (rule shrinks_next [OF order_refl]) (auto intro: later IH)
  moreover have "shrinks p (parcJSONValue_ObjectParser (Suc n) p)"
    unfolding parcJSONValue_ObjectParser.simps by (rule shrinks_next [OF order_refl]) (auto intro: later IH)
  moreover have "shrinks p (array_loop (Suc n) p a)"
  proof -
    have comma: "left p1 \<le> left p \<Longrightarrow> shrinks p (rbind (parcJSONParser_NextChar p1) (\<lambda>(_, p2). array_loop n p2 a))" for p1
      by (rule shrinks_next) (auto intro: later IH)
    have close: "left p1 \<le> left p \<Longrightarrow> shrinks p (rbind (parcJSONParser_NextChar p1)
        (\<lambda>(_, p2). Inr (Some (parcJSONValue_CreateFromJSONArray a), p2)))" for p1
      by (rule shrinks_next) auto
    have element: "shrinks p1 m \<Longrightarrow> left p1 \<le> left p \<Longrightarrow> shrinks p (rbind m (\<lambda>(value, p2). case value of
        Some v \<Rightarrow> array_loop n p2 (parcJSONArray_AddValue a v) | None \<Rightarrow> Inr (None, p2)))" for p1 m
      by (rule shrinks_value) (auto intro: later IH)
    show ?thesis
      unfolding array_loop.simps using comma close
      by (auto intro!: shrinks_peek simple_shrink [THEN element] IH(2) [THEN element] IH(4) [THEN element])
  qed
  moreover have "shrinks p (object_loop (Suc n) p j)"
  proof -
    have comma: "left p1 \<le> left p \<Longrightarrow> shrinks p (rbind (parcJSONParser_NextChar p1) (\<lambda>(_, p2). object_loop n p2 j))" for p1
      by (rule shrinks_next) (auto intro: later IH)
    have close: "left p1 \<le> left p \<Longrightarrow> shrinks p (rbind (parcJSONParser_NextChar p1)
        (\<lambda>(_, p2). Inr (Some (parcJSONValue_CreateFromJSON j), p2)))" for p1
      by (rule shrinks_next) auto
    have element: "left p1 \<le> left p \<Longrightarrow> shrinks p (rbind (parcJSONPair_Parser n p1) (\<lambda>(pair, p2). case pair of
        None \<Rightarrow> Inr (None, p2) | Some pair \<Rightarrow> object_loop n p2 (parcJSON_AddPair j pair)))" for p1
      by (rule shrinks_value [OF IH(6)]) (auto intro: later IH)
    show ?thesis unfolding object_loop.simps using comma close element by (auto intro!: shrinks_peek)
  qed
  moreover have "shrinks p (parcJSONPair_Parser (Suc n) p)"
    unfolding parcJSONPair_Parser.simps
  proof (rule shrinks_rbind)
    fix x assume s: "parcJSONParser_ParseString p = Inr x"
    obtain name p1 where x: "x = (name, p1)" by force
    have "left p1 \<le> left p" using ParseString_left [OF s [unfolded x]] by simp
    moreover have "left p2 \<le> left p \<Longrightarrow> shrinks p (rbind (if c = 58 then parcJSONValue_Parser n p2 else Inr (None, p2))
        (\<lambda>(value, p3). case name of None \<Rightarrow> Inl AssertFailed | Some name \<Rightarrow> Inr (map_option (parcJSONPair_Create name) value, p3)))" for c :: u8 and p2
      by (rule shrinks_value [of p2]) (auto simp: IH split: option.split)
    ultimately show "shrinks p (case x of (name, p1) \<Rightarrow> rbind (parcJSONParser_NextChar p1) (\<lambda>(c, p2).
        rbind (if c = 58 then parcJSONValue_Parser n p2 else Inr (None, p2)) (\<lambda>(value, p3). case name of
          None \<Rightarrow> Inl AssertFailed | Some name \<Rightarrow> Inr (map_option (parcJSONPair_Create name) value, p3))))"
      unfolding x prod.case
      by (intro shrinks_next) (simp_all only: prod.case less_imp_le)
  qed
  ultimately show ?case by blast
qed simp

section \<open>Enough calls\<close>

definition live :: "'a result \<Rightarrow> bool" where
  "live r \<longleftrightarrow> r \<noteq> Inl Diverges"

lemma live_simps [simp]: "live (Inr x)" "live (Inl e) \<longleftrightarrow> e \<noteq> Diverges"
  by (simp_all add: live_def)

lemma live_rbind: "live m \<Longrightarrow> (\<And>x. m = Inr x \<Longrightarrow> live (f x)) \<Longrightarrow> live (rbind m f)"
  by (cases m) auto

lemma live_cursor: "live (parser_get p)" "live (parcJSONParser_NextChar p)" "live (parcJSONParser_Next p)"
    "live (parcJSONParser_PeekNextChar p)" "live (parcJSONParser_Advance p k)"
  by (auto simp: parser_get_def parcJSONParser_NextChar_def parcJSONParser_Next_def parcJSONParser_PeekNextChar_def parser_peek_def
      parcJSONParser_Advance_def Let_def split: list.splits option.splits)

lemma live_arith: "live (int64 i)" "live (int32 i)" "live (append_digit v c)"
  by (auto simp: int64_def int32_def append_digit_def)

lemma live_RequireString: "live (parcJSONParser_RequireString p s)"
  by (induction p s rule: parcJSONParser_RequireString.induct) (auto intro!: live_rbind live_cursor)

lemma live_parse_string: "live (parse_string p s)"
proof (induction p s rule: parse_string.induct)
  case (1 p s)
  then show ?case
    using live_cursor(1) [of p] live_cursor(1)
    by (subst parse_string.simps) (auto simp: live_def split: sum.split prod.split)
qed

lemma live_loops: "live (whole_loop p v)" "live (fraction_loop p v l)" "live (parseDigits09 p v r)"
proof -
  show "live (whole_loop p v)"
  proof (induction p v rule: whole_loop.induct)
    case (1 p v)
    then show ?case
      using live_cursor(3) [of p]
      by (subst whole_loop.simps) (auto intro!: live_rbind live_cursor live_arith split: sum.split option.split)
  qed
  show "live (fraction_loop p v l)"
  proof (induction p v l rule: fraction_loop.induct)
    case (1 p v l)
    then show ?case
      using live_cursor(3) [of p]
      by (subst fraction_loop.simps) (auto intro!: live_rbind live_cursor live_arith split: sum.split option.split)
  qed
  show "live (parseDigits09 p v r)"
  proof (induction p v r rule: parseDigits09.induct)
    case (1 p v r)
    then show ?case
      using live_cursor(3) [of p]
      by (subst parseDigits09.simps) (auto intro!: live_rbind live_cursor live_arith split: sum.split option.split)
  qed
qed

lemma live_ParseString: "live (parcJSONParser_ParseString p)"
  unfolding parcJSONParser_ParseString_def by (auto intro!: live_rbind live_cursor live_parse_string)

lemma live_exponent: "live (parse_exponent_digits p s)" "live (parseExponentNumber p)" "live (parseOptionalExponent p)"
proof -
  show d: "live (parse_exponent_digits p s)" for p s
    unfolding parse_exponent_digits_def by (auto intro!: live_rbind live_loops live_arith)
  show e: "live (parseExponentNumber p)" for p
    unfolding parseExponentNumber_def by (auto intro!: live_rbind live_cursor d split: option.split)
  show "live (parseOptionalExponent p)"
    unfolding parseOptionalExponent_def by (auto intro!: live_rbind live_cursor e split: option.split)
qed

lemma live_parts: "live (parseSign p)" "live (parseWholeNumber p)" "live (parseOptionalFraction p)"
  unfolding parseSign_def parseWholeNumber_def parseOptionalFraction_def parseFractionNumber_def
  by (auto intro!: live_rbind live_cursor live_loops split: option.split)

lemma live_simple: "live (parcJSONValue_NumberParser p)" "live (parcJSONValue_StringParser p)" "live (parcJSONValue_NullParser p)"
  "live (parcJSONValue_TrueParser p)" "live (parcJSONValue_FalseParser p)"
  unfolding parcJSONValue_NumberParser_def parcJSONValue_StringParser_def parcJSONValue_NullParser_def parcJSONValue_TrueParser_def
    parcJSONValue_FalseParser_def word_parser_def
  by (auto intro!: live_rbind live_parts live_exponent live_ParseString live_RequireString live_cursor split: option.split)

lemma live_peek:
  "(\<And>c p1. left p1 \<le> left p \<Longrightarrow> live (f (c, p1))) \<Longrightarrow> live (rbind (parcJSONParser_PeekNextChar p) f)"
  by (intro live_rbind live_cursor) (metis Peek_shorter surj_pair)

lemma live_next:
  "(\<And>c p1. left p1 < left p \<Longrightarrow> live (f (c, p1))) \<Longrightarrow> live (rbind (parcJSONParser_NextChar p) f)"
  by (intro live_rbind live_cursor) (metis NextChar_shorter surj_pair)

lemma live_value:
  assumes "live m" "shrinks p m" "\<And>p2. live (f (None, p2))" "\<And>v p2. left p2 < left p \<Longrightarrow> live (f (Some v, p2))"
  shows "live (rbind m f)"
  using assms(1)
proof (rule live_rbind)
  fix x assume m: "m = Inr x"
  obtain r p2 where x: "x = (r, p2)" by force
  show "live (f x)"
  proof (cases r)
    case (Some v)
    then have "left p2 < left p" using assms(2) m x by simp
    then show ?thesis using assms(4) x Some by simp
  qed (use assms(3) x in simp)
qed

lemma live_close: "live (rbind (parcJSONParser_NextChar p) (\<lambda>(_, p2). Inr (Some v, p2)))"
  by (intro live_next) simp

lemma parsers_live:
  "(2 * left p + 2 \<le> n \<longrightarrow> live (parcJSONValue_Parser n p)) \<and> (2 * left p + 1 \<le> n \<longrightarrow> live (parcJSONValue_ArrayParser n p)) \<and>
    (2 * left p + 2 \<le> n \<longrightarrow> live (array_loop n p a)) \<and> (2 * left p + 1 \<le> n \<longrightarrow> live (parcJSONValue_ObjectParser n p)) \<and>
    (2 * left p + 2 \<le> n \<longrightarrow> live (object_loop n p j)) \<and> (2 * left p + 1 \<le> n \<longrightarrow> live (parcJSONPair_Parser n p))"
proof (induction n arbitrary: p a j)
  case (Suc n)
  then have IH: "2 * left p + 2 \<le> n \<Longrightarrow> live (parcJSONValue_Parser n p)" "2 * left p + 1 \<le> n \<Longrightarrow> live (parcJSONValue_ArrayParser n p)"
    "2 * left p + 2 \<le> n \<Longrightarrow> live (array_loop n p a)" "2 * left p + 1 \<le> n \<Longrightarrow> live (parcJSONValue_ObjectParser n p)"
    "2 * left p + 2 \<le> n \<Longrightarrow> live (object_loop n p j)" "2 * left p + 1 \<le> n \<Longrightarrow> live (parcJSONPair_Parser n p)" for p a j
    by blast+
  note shrink = simple_shrink parsers_shrink [THEN conjunct1] parsers_shrink [THEN conjunct2, THEN conjunct1]
    parsers_shrink [THEN conjunct2, THEN conjunct2, THEN conjunct2, THEN conjunct1]
    parsers_shrink [THEN conjunct2, THEN conjunct2, THEN conjunct2, THEN conjunct2, THEN conjunct2]
  have "live (parcJSONValue_Parser (Suc n) p)" if "2 * left p + 2 \<le> Suc n"
    unfolding parcJSONValue_Parser.simps using that by (intro live_peek) (auto intro!: live_simple IH)
  moreover have "live (parcJSONValue_ArrayParser (Suc n) p)" if "2 * left p + 1 \<le> Suc n"
    unfolding parcJSONValue_ArrayParser.simps using that by (intro live_next) (auto intro!: IH)
  moreover have "live (parcJSONValue_ObjectParser (Suc n) p)" if "2 * left p + 1 \<le> Suc n"
    unfolding parcJSONValue_ObjectParser.simps using that by (intro live_next) (auto intro!: IH)
  moreover have "live (array_loop (Suc n) p a)" if n: "2 * left p + 2 \<le> Suc n"
  proof -
    have comma: "left p1 \<le> left p \<Longrightarrow> live (rbind (parcJSONParser_NextChar p1) (\<lambda>(_, p2). array_loop n p2 a))" for p1
      using n by (intro live_next) (auto intro!: IH)
    have element: "live m \<Longrightarrow> shrinks p1 m \<Longrightarrow> left p1 \<le> left p \<Longrightarrow> live (rbind m (\<lambda>(value, p2). case value of
        Some v \<Rightarrow> array_loop n p2 (parcJSONArray_AddValue a v) | None \<Rightarrow> Inr (None, p2)))" for p1 m
      using n by (elim live_value) (auto intro!: IH)
    have inner: "left p1 \<le> left p \<Longrightarrow> live (parcJSONValue_ArrayParser n p1)" "left p1 \<le> left p \<Longrightarrow> live (parcJSONValue_ObjectParser n p1)" for p1
      using n by (auto intro!: IH)
    show ?thesis
      unfolding array_loop.simps
      by (auto intro!: live_peek comma element [OF live_simple(1) shrink(1)] element [OF live_simple(2) shrink(2)]
          element [OF live_simple(3) shrink(3)] element [OF live_simple(4) shrink(4)] element [OF live_simple(5) shrink(5)]
          element [OF inner(1) shrink(7)] element [OF inner(2) shrink(8)] live_close)
  qed
  moreover have "live (object_loop (Suc n) p j)" if n: "2 * left p + 2 \<le> Suc n"
  proof -
    have comma: "left p1 \<le> left p \<Longrightarrow> live (rbind (parcJSONParser_NextChar p1) (\<lambda>(_, p2). object_loop n p2 j))" for p1
      using n by (intro live_next) (auto intro!: IH)
    have element: "left p1 \<le> left p \<Longrightarrow> live (rbind (parcJSONPair_Parser n p1) (\<lambda>(pair, p2). case pair of
        None \<Rightarrow> Inr (None, p2) | Some pair \<Rightarrow> object_loop n p2 (parcJSON_AddPair j pair)))" for p1
      using n by (intro live_value [OF _ shrink(9)]) (auto intro!: IH)
    show ?thesis unfolding object_loop.simps by (auto intro!: live_peek comma element live_close)
  qed
  moreover have "live (parcJSONPair_Parser (Suc n) p)" if n: "2 * left p + 1 \<le> Suc n"
    unfolding parcJSONPair_Parser.simps using live_ParseString
  proof (rule live_rbind)
    fix x assume s: "parcJSONParser_ParseString p = Inr x"
    obtain name p1 where x: "x = (name, p1)" by force
    have less: "left p1 < left p" using ParseString_left [OF s [unfolded x]] .
    have "live (rbind (if c = 58 then parcJSONValue_Parser n p2 else Inr (None, p2)) (\<lambda>(value, p3). case name of
        None \<Rightarrow> Inl AssertFailed | Some name \<Rightarrow> Inr (map_option (parcJSONPair_Create name) value, p3)))"
      if "left p2 < left p1" for c :: u8 and p2
      using that less n by (auto intro!: live_rbind IH split: option.split)
    then show "live (case x of (name, p1) \<Rightarrow> rbind (parcJSONParser_NextChar p1) (\<lambda>(c, p2).
        rbind (if c = 58 then parcJSONValue_Parser n p2 else Inr (None, p2)) (\<lambda>(value, p3). case name of
          None \<Rightarrow> Inl AssertFailed | Some name \<Rightarrow> Inr (map_option (parcJSONPair_Create name) value, p3))))"
      unfolding x prod.case by (intro live_next) (simp only: prod.case)
  qed
  ultimately show ?case by blast
qed simp

section \<open>More calls than needed\<close>

text \<open>\<open>r\<close> is \<open>s\<close>, or the bound was too small.\<close>

definition below :: "'a result \<Rightarrow> 'a result \<Rightarrow> bool" where
  "below r s \<longleftrightarrow> r = Inl Diverges \<or> r = s"

lemma below_refl [simp]: "below r r" "below (Inl Diverges) r"
  by (simp_all add: below_def)

lemma below_rbind: "below m m' \<Longrightarrow> (\<And>x. below (f x) (f' x)) \<Longrightarrow> below (rbind m f) (rbind m' f')"
  by (auto simp: below_def rbind_def split: sum.splits)

lemma parsers_below:
  "below (parcJSONValue_Parser n p) (parcJSONValue_Parser (Suc n) p) \<and>
    below (parcJSONValue_ArrayParser n p) (parcJSONValue_ArrayParser (Suc n) p) \<and> below (array_loop n p a) (array_loop (Suc n) p a) \<and>
    below (parcJSONValue_ObjectParser n p) (parcJSONValue_ObjectParser (Suc n) p) \<and> below (object_loop n p j) (object_loop (Suc n) p j) \<and>
    below (parcJSONPair_Parser n p) (parcJSONPair_Parser (Suc n) p)"
proof (induction n arbitrary: p a j)
  case (Suc n)
  then have IH: "below (parcJSONValue_Parser n p) (parcJSONValue_Parser (Suc n) p)"
    "below (parcJSONValue_ArrayParser n p) (parcJSONValue_ArrayParser (Suc n) p)" "below (array_loop n p a) (array_loop (Suc n) p a)"
    "below (parcJSONValue_ObjectParser n p) (parcJSONValue_ObjectParser (Suc n) p)" "below (object_loop n p j) (object_loop (Suc n) p j)"
    "below (parcJSONPair_Parser n p) (parcJSONPair_Parser (Suc n) p)" for p a j
    by blast+
  have "below (parcJSONValue_Parser (Suc n) p) (parcJSONValue_Parser (Suc (Suc n)) p)"
    unfolding parcJSONValue_Parser.simps(2) [of n p] parcJSONValue_Parser.simps(2) [of "Suc n" p] using IH by (intro below_rbind) (simp_all split: prod.split)
  moreover have "below (parcJSONValue_ArrayParser (Suc n) p) (parcJSONValue_ArrayParser (Suc (Suc n)) p)"
    unfolding parcJSONValue_ArrayParser.simps(2) [of n p] parcJSONValue_ArrayParser.simps(2) [of "Suc n" p] using IH by (intro below_rbind) (simp_all split: prod.split)
  moreover have "below (array_loop (Suc n) p a) (array_loop (Suc (Suc n)) p a)"
    unfolding array_loop.simps(2) [of n p a] array_loop.simps(2) [of "Suc n" p a] using IH
    by (auto intro!: below_rbind split: prod.split option.split)
  moreover have "below (parcJSONValue_ObjectParser (Suc n) p) (parcJSONValue_ObjectParser (Suc (Suc n)) p)"
    unfolding parcJSONValue_ObjectParser.simps(2) [of n p] parcJSONValue_ObjectParser.simps(2) [of "Suc n" p] using IH by (intro below_rbind) (simp_all split: prod.split)
  moreover have "below (object_loop (Suc n) p j) (object_loop (Suc (Suc n)) p j)"
    unfolding object_loop.simps(2) [of n p j] object_loop.simps(2) [of "Suc n" p j] using IH
    by (auto intro!: below_rbind split: prod.split option.split)
  moreover have "below (parcJSONPair_Parser (Suc n) p) (parcJSONPair_Parser (Suc (Suc n)) p)"
    unfolding parcJSONPair_Parser.simps(2) [of n p] parcJSONPair_Parser.simps(2) [of "Suc n" p] using IH
    by (auto intro!: below_rbind split: prod.split option.split)
  ultimately show ?case by blast
qed simp

lemma below_le:
  assumes "\<And>k. below (f k) (f (Suc k))" "n \<le> m"
  shows "below (f n) (f m)"
  using assms(2)
proof (induction m rule: dec_induct)
  case (step k)
  then show ?case using assms(1) [of k] by (auto simp: below_def)
qed simp

lemma Value_more: "2 * left p + 2 \<le> n \<Longrightarrow> n \<le> m \<Longrightarrow> parcJSONValue_Parser m p = parcJSONValue_Parser n p"
  using below_le [of "\<lambda>k. parcJSONValue_Parser k p" n m] parsers_below parsers_live [of p n] by (auto simp: below_def live_def)

lemma Object_more: "2 * left p + 1 \<le> n \<Longrightarrow> n \<le> m \<Longrightarrow> parcJSONValue_ObjectParser m p = parcJSONValue_ObjectParser n p"
  using below_le [of "\<lambda>k. parcJSONValue_ObjectParser k p" n m] parsers_below parsers_live [of p n] by (auto simp: below_def live_def)

text \<open>
  C11: The parsers of JSON end on every input: calls nested and repeated at most twice as often as there are bytes are enough, more
  change nothing, a value that is returned has consumed a character, and \<open>parcJSON_ParseBuffer\<close> returns or
  stops in an assertion or trap of the source.
\<close>

theorem parcJSON_parsers_end:
  assumes "2 * length (unread p) + 2 \<le> n"
  shows "parcJSONValue_Parser n p \<noteq> Inl Diverges \<and>
    parcJSONValue_Parser n p = parcJSONValue_Parser (2 * length (unread p) + 2) p \<and>
    (\<forall>v p'. parcJSONValue_Parser n p = Inr (Some v, p') \<longrightarrow> length (unread p') < length (unread p)) \<and>
    parcJSON_ParseBuffer p \<noteq> Inl Diverges"
proof (intro conjI)
  show "parcJSONValue_Parser n p \<noteq> Inl Diverges" using parsers_live [of p n] assms by (simp add: live_def)
  show "parcJSONValue_Parser n p = parcJSONValue_Parser (2 * length (unread p) + 2) p" using Value_more [OF order_refl assms] .
  show "\<forall>v p'. parcJSONValue_Parser n p = Inr (Some v, p') \<longrightarrow> left p' < left p"
    using parsers_shrink [of p n] by (auto simp: shrinks_def)
  have "live (parcJSONValue_GetJSON v)" for v by (auto simp: parcJSONValue_GetJSON_def split: option.split json_value.split)
  then have "live (parcJSON_ParseBuffer p)"
    unfolding parcJSON_ParseBuffer_def parcJSONParser_Remaining_def using parsers_live
    by (intro live_peek) (auto intro!: live_rbind)
  then show "parcJSON_ParseBuffer p \<noteq> Inl Diverges" by (simp add: live_def)
qed

theorem parcJSON_parsers_end_witness:
  "parcJSONValue_Parser 100 (parcJSONParser_Create [91, 91, 49, 44, 32, 34, 120, 34, 93, 93] None) =
    parcJSONValue_Parser 22 (parcJSONParser_Create [91, 91, 49, 44, 32, 34, 120, 34, 93, 93] None)"
  using parcJSON_parsers_end [of "parcJSONParser_Create [91, 91, 49, 44, 32, 34, 120, 34, 93, 93] None" 100]
  by (simp add: parcJSONParser_Create_def)

end
