(* ===== verification/Parc_JSONText.thy ===== *)
theory Parc_JSONText
  imports Parc_JSONEnds Parc_URISegment
begin

text \<open>
  The text of JSON, put into composers: \<open>parcJSONValue_BuildString\<close> and the functions it calls, in both forms (compact, and with blanks).
  Every function appends the text of its argument, an object of JSON that is printed is parsed back, and copies and hash codes follow.
\<close>

section \<open>Printing\<close>

text \<open>What \<open>%lld\<close> and \<open>%0*lld\<close> print; the second is only used for positive numbers.\<close>

definition signed_text :: "int \<Rightarrow> u8 list" where
  "signed_text i = (if i < 0 then 45 # decimal (nat (- i)) else decimal (nat i))"

definition padded_text :: "int \<Rightarrow> int \<Rightarrow> u8 list" where
  "padded_text w i = (let t = signed_text i in replicate (nat w - length t) 48 @ t)"

definition buildStringNumber :: "memory \<Rightarrow> ptr \<Rightarrow> json_number \<Rightarrow> memory result" where
  "buildStringNumber h composer n =
    rbind (parcBufferComposer_Format h composer (Some ((if num_sign n = - 1 then [45] else []) @ signed_text (num_whole n)))) (\<lambda>h.
    rbind (if num_fraction n > 0
           then parcBufferComposer_Format h composer (Some (46 # padded_text (num_fractionLog10 n) (num_fraction n)))
           else Inr h) (\<lambda>h.
    if num_exponent n \<noteq> 0 then parcBufferComposer_Format h composer (Some (101 # signed_text (num_exponent n))) else Inr h))"

fun build_string_chars :: "memory \<Rightarrow> ptr \<Rightarrow> bool \<Rightarrow> u8 list \<Rightarrow> memory result" where
  "build_string_chars h composer compact [] = Inr h"
| "build_string_chars h composer compact (c # cs) =
    rbind (if c = 34 then parcBufferComposer_PutString h composer [92, 34]
           else if c = 8 then parcBufferComposer_PutString h composer [92, 98]
           else if c = 12 then parcBufferComposer_PutString h composer [92, 102]
           else if c = 10 then parcBufferComposer_PutString h composer [92, 110]
           else if c = 13 then parcBufferComposer_PutString h composer [92, 114]
           else if c = 9 then parcBufferComposer_PutString h composer [92, 116]
           else if c = 47 \<and> \<not> compact then parcBufferComposer_PutString h composer [92, 47]
           else if c = 92 then parcBufferComposer_PutString h composer [92, 92]
           else parcBufferComposer_PutChar h composer c) (\<lambda>h.
    build_string_chars h composer compact cs)"

definition buildStringString :: "memory \<Rightarrow> ptr \<Rightarrow> bool \<Rightarrow> u8 list \<Rightarrow> memory result" where
  "buildStringString h composer compact s =
    rbind (parcBufferComposer_PutChar h composer 34) (\<lambda>h.
    rbind (build_string_chars h composer compact s) (\<lambda>h.
    parcBufferComposer_PutChar h composer 34))"

definition put_blank :: "memory \<Rightarrow> ptr \<Rightarrow> bool \<Rightarrow> memory result" where
  "put_blank h composer compact = (if \<not> compact then parcBufferComposer_PutChar h composer 32 else Inr h)"

definition separator :: "bool \<Rightarrow> u8 list" where
  "separator compact = (if compact then [44] else [44, 32])"

text \<open>The name of a pair is put without escapes; its buffer is the array of its bytes.\<close>

fun parcJSONValue_BuildString :: "memory \<Rightarrow> ptr \<Rightarrow> bool \<Rightarrow> json_value \<Rightarrow> memory result"
  and parcJSONPair_BuildString :: "memory \<Rightarrow> ptr \<Rightarrow> bool \<Rightarrow> json_pair \<Rightarrow> memory result"
  and parcJSONArray_BuildString :: "memory \<Rightarrow> ptr \<Rightarrow> bool \<Rightarrow> json_array \<Rightarrow> memory result"
  and build_values :: "memory \<Rightarrow> ptr \<Rightarrow> bool \<Rightarrow> u8 list \<Rightarrow> json_array \<Rightarrow> memory result"
  and parcJSON_BuildString :: "memory \<Rightarrow> ptr \<Rightarrow> bool \<Rightarrow> parc_json \<Rightarrow> memory result"
  and build_pairs :: "memory \<Rightarrow> ptr \<Rightarrow> bool \<Rightarrow> u8 list \<Rightarrow> parc_json \<Rightarrow> memory result" where
  "parcJSONValue_BuildString h composer compact (JSONBoolean b) =
    parcBufferComposer_PutString h composer (if b then [116, 114, 117, 101] else [102, 97, 108, 115, 101])"
| "parcJSONValue_BuildString h composer compact (JSONString s) = buildStringString h composer compact s"
| "parcJSONValue_BuildString h composer compact (JSONNumber n) = buildStringNumber h composer n"
| "parcJSONValue_BuildString h composer compact (JSONArray a) = parcJSONArray_BuildString h composer compact a"
| "parcJSONValue_BuildString h composer compact (JSONObject j) = parcJSON_BuildString h composer compact j"
| "parcJSONValue_BuildString h composer compact JSONNull = parcBufferComposer_PutString h composer [110, 117, 108, 108]"
| "parcJSONPair_BuildString h composer compact (JSONPair n v) =
    rbind (parcBufferComposer_PutUint8 h composer 34) (\<lambda>h.
    rbind (parcBufferComposer_PutArray h composer n (word_of_nat (length n))) (\<lambda>h.
    rbind (parcBufferComposer_PutString h composer (if compact then [34, 58] else [34, 32, 58, 32])) (\<lambda>h.
    parcJSONValue_BuildString h composer compact v)))"
| "parcJSONArray_BuildString h composer compact a =
    rbind (parcBufferComposer_PutChar h composer 91) (\<lambda>h.
    rbind (put_blank h composer compact) (\<lambda>h.
    rbind (build_values h composer compact [] a) (\<lambda>h.
    rbind (put_blank h composer compact) (\<lambda>h.
    parcBufferComposer_PutChar h composer 93))))"
| "build_values h composer compact sep [] = Inr h"
| "build_values h composer compact sep (v # vs) =
    rbind (parcBufferComposer_PutString h composer sep) (\<lambda>h.
    rbind (parcJSONValue_BuildString h composer compact v) (\<lambda>h.
    build_values h composer compact (separator compact) vs))"
| "parcJSON_BuildString h composer compact j =
    rbind (parcBufferComposer_PutChar h composer 123) (\<lambda>h.
    rbind (put_blank h composer compact) (\<lambda>h.
    rbind (build_pairs h composer compact [] j) (\<lambda>h.
    rbind (put_blank h composer compact) (\<lambda>h.
    parcBufferComposer_PutChar h composer 125))))"
| "build_pairs h composer compact sep [] = Inr h"
| "build_pairs h composer compact sep (p # ps) =
    rbind (parcBufferComposer_PutString h composer sep) (\<lambda>h.
    rbind (parcJSONPair_BuildString h composer compact p) (\<lambda>h.
    build_pairs h composer compact (separator compact) ps))"

definition parcJSONValue_ToString :: "size_t \<Rightarrow> memory \<Rightarrow> bool \<Rightarrow> json_value \<Rightarrow> (u8 list \<times> memory) result" where
  "parcJSONValue_ToString lineSize h compact v =
    rbind (parcBufferComposer_Create lineSize h) (\<lambda>(composer, h1).
    rbind (parcJSONValue_BuildString h1 composer compact v) (\<lambda>h2.
    finish_string h2 composer))"

definition parcJSONArray_ToString :: "size_t \<Rightarrow> memory \<Rightarrow> bool \<Rightarrow> json_array \<Rightarrow> (u8 list \<times> memory) result" where
  "parcJSONArray_ToString lineSize h compact a =
    rbind (parcBufferComposer_Create lineSize h) (\<lambda>(composer, h1).
    rbind (parcJSONArray_BuildString h1 composer compact a) (\<lambda>h2.
    finish_string h2 composer))"

definition parcJSONPair_ToString :: "size_t \<Rightarrow> memory \<Rightarrow> json_pair \<Rightarrow> (u8 list \<times> memory) result" where
  "parcJSONPair_ToString lineSize h pair =
    rbind (parcBufferComposer_Create lineSize h) (\<lambda>(composer, h1).
    rbind (parcJSONPair_BuildString h1 composer False pair) (\<lambda>h2.
    finish_string h2 composer))"

definition toCreatedBuffer :: "size_t \<Rightarrow> memory \<Rightarrow> parc_json option \<Rightarrow> bool \<Rightarrow> (ptr \<times> memory) result" where
  "toCreatedBuffer lineSize h json compact =
    (case json of
       None \<Rightarrow> Inr (None, h)
     | Some j \<Rightarrow>
         rbind (parcBufferComposer_Create lineSize h) (\<lambda>(composer, h1).
         rbind (parcJSON_BuildString h1 composer compact j) (\<lambda>h2.
         rbind (parcBufferComposer_ProduceBuffer h2 composer) (\<lambda>(result, h3).
         rbind (parcBufferComposer_Release h3 composer) (\<lambda>(_, h4).
         Inr (result, h4))))))"

definition parcJSON_toString :: "size_t \<Rightarrow> memory \<Rightarrow> parc_json option \<Rightarrow> bool \<Rightarrow> (u8 list \<times> memory) result" where
  "parcJSON_toString lineSize h json compact =
    rbind (toCreatedBuffer lineSize h json compact) (\<lambda>(tempBuffer, h1).
    rbind (parcBuffer_ToString h1 tempBuffer) (\<lambda>(string, h2).
    rbind (parcBuffer_Release h2 tempBuffer) (\<lambda>(_, h3).
    Inr (string, h3))))"

text \<open>The parser reads the buffer in place, so its bytes are those of the buffer when the parser is made.\<close>

definition parcJSON_Copy :: "size_t \<Rightarrow> memory \<Rightarrow> parc_json option \<Rightarrow> (parc_json option \<times> memory) result" where
  "parcJSON_Copy lineSize h src =
    (if src = None then Inr (None, h)
     else
       rbind (toCreatedBuffer lineSize h src True) (\<lambda>(temp, h1).
       rbind (case temp of None \<Rightarrow> Inl BadPointer | Some a \<Rightarrow> parcJSON_ParseBuffer (parser_of a h1)) (\<lambda>result.
       rbind (parcBuffer_Release h1 temp) (\<lambda>(_, h2).
       Inr (result, h2)))))"

definition parcJSON_HashCode :: "size_t \<Rightarrow> memory \<Rightarrow> parc_json option \<Rightarrow> (u64 \<times> memory) result" where
  "parcJSON_HashCode lineSize h json =
    rbind (toCreatedBuffer lineSize h json True) (\<lambda>(temp, h1).
    rbind (parcBuffer_HashCode h1 temp) (\<lambda>(result, h2).
    rbind (parcBuffer_Release h2 temp) (\<lambda>(_, h3).
    Inr (result, h3))))"

section \<open>The text\<close>

definition escape_text :: "bool \<Rightarrow> u8 \<Rightarrow> u8 list" where
  "escape_text compact c =
    (if c = 34 then [92, 34] else if c = 8 then [92, 98] else if c = 12 then [92, 102] else if c = 10 then [92, 110]
     else if c = 13 then [92, 114] else if c = 9 then [92, 116] else if c = 47 \<and> \<not> compact then [92, 47]
     else if c = 92 then [92, 92] else [c])"

definition string_text :: "bool \<Rightarrow> u8 list \<Rightarrow> u8 list" where
  "string_text compact s = 34 # concat (map (escape_text compact) s) @ [34]"

definition number_text :: "json_number \<Rightarrow> u8 list" where
  "number_text n = (if num_sign n = - 1 then [45] else []) @ signed_text (num_whole n) @
    (if num_fraction n > 0 then 46 # padded_text (num_fractionLog10 n) (num_fraction n) else []) @
    (if num_exponent n \<noteq> 0 then 101 # signed_text (num_exponent n) else [])"

definition blank :: "bool \<Rightarrow> u8 list" where
  "blank compact = (if compact then [] else [32])"

fun value_text :: "bool \<Rightarrow> json_value \<Rightarrow> u8 list"
  and pair_text :: "bool \<Rightarrow> json_pair \<Rightarrow> u8 list"
  and values_text :: "bool \<Rightarrow> u8 list \<Rightarrow> json_array \<Rightarrow> u8 list"
  and pairs_text :: "bool \<Rightarrow> u8 list \<Rightarrow> parc_json \<Rightarrow> u8 list" where
  "value_text compact (JSONBoolean b) = (if b then [116, 114, 117, 101] else [102, 97, 108, 115, 101])"
| "value_text compact (JSONString s) = string_text compact s"
| "value_text compact (JSONNumber n) = number_text n"
| "value_text compact (JSONArray a) = 91 # blank compact @ values_text compact [] a @ blank compact @ [93]"
| "value_text compact (JSONObject j) = 123 # blank compact @ pairs_text compact [] j @ blank compact @ [125]"
| "value_text compact JSONNull = [110, 117, 108, 108]"
| "pair_text compact (JSONPair n v) = 34 # n @ (if compact then [34, 58] else [34, 32, 58, 32]) @ value_text compact v"
| "values_text compact sep [] = []"
| "values_text compact sep (v # vs) = sep @ value_text compact v @ values_text compact (separator compact) vs"
| "pairs_text compact sep [] = []"
| "pairs_text compact sep (p # ps) = sep @ pair_text compact p @ pairs_text compact (separator compact) ps"

lemma composer_array: "composer_text.appends k (\<lambda>h. parcBufferComposer_PutArray h (Some k) bs (word_of_nat (length bs))) bs"
  using composer_put_field_ok [of k _ _ "Bytes bs"] by (simp add: composer_text.appends_def)

lemmas andthen = composer_text.appends_then
lemmas put_char = composer_appends(1)
lemmas put_string = composer_appends(2)

lemma put_blank_appends: "composer_text.appends k (\<lambda>h. put_blank h (Some k) compact) (blank compact)"
  using put_char [of k 32] composer_appends(3) [of k] by (simp add: put_blank_def blank_def)

lemma build_string_chars_appends:
  "composer_text.appends k (\<lambda>h. build_string_chars h (Some k) compact s) (concat (map (escape_text compact) s))"
proof (induction s)
  case Nil
  then show ?case using composer_appends(3) by simp
next
  case (Cons c cs)
  have "composer_text.appends k (\<lambda>h.
      if c = 34 then parcBufferComposer_PutString h (Some k) [92, 34]
      else if c = 8 then parcBufferComposer_PutString h (Some k) [92, 98]
      else if c = 12 then parcBufferComposer_PutString h (Some k) [92, 102]
      else if c = 10 then parcBufferComposer_PutString h (Some k) [92, 110]
      else if c = 13 then parcBufferComposer_PutString h (Some k) [92, 114]
      else if c = 9 then parcBufferComposer_PutString h (Some k) [92, 116]
      else if c = 47 \<and> \<not> compact then parcBufferComposer_PutString h (Some k) [92, 47]
      else if c = 92 then parcBufferComposer_PutString h (Some k) [92, 92]
      else parcBufferComposer_PutChar h (Some k) c) (escape_text compact c)"
    using put_char [of k c] put_string [of k] by (cases "c = 47"; cases compact) (simp_all add: escape_text_def)
  from andthen [OF this Cons.IH] show ?case by simp
qed

lemma buildStringString_appends:
  "composer_text.appends k (\<lambda>h. buildStringString h (Some k) compact s) (string_text compact s)"
  using andthen [OF put_char [of k 34] andthen [OF build_string_chars_appends [of k compact s] put_char [of k 34]]]
  by (simp add: buildStringString_def string_text_def)

lemma buildStringNumber_appends: "composer_text.appends k (\<lambda>h. buildStringNumber h (Some k) n) (number_text n)"
proof -
  have fmt: "composer_text.appends k (\<lambda>h. parcBufferComposer_Format h (Some k) (Some t)) t" for t
    using put_string [of k t] by (simp add: parcBufferComposer_Format_def)
  have opt: "composer_text.appends k (\<lambda>h. if c then parcBufferComposer_Format h (Some k) (Some t) else Inr h) (if c then t else [])" for c t
    using fmt composer_appends(3) [of k] by simp
  show ?thesis
    unfolding buildStringNumber_def number_text_def
    using andthen [OF fmt [of "(if num_sign n = - 1 then [45] else []) @ signed_text (num_whole n)"]
        andthen [OF opt [of "num_fraction n > 0" "46 # padded_text (num_fractionLog10 n) (num_fraction n)"]
          opt [of "num_exponent n \<noteq> 0" "101 # signed_text (num_exponent n)"]]]
    by (simp only: append_assoc)
qed

lemma JSON_BuildString_appends:
  "composer_text.appends k (\<lambda>h. parcJSONValue_BuildString h (Some k) compact v) (value_text compact v)"
  "composer_text.appends k (\<lambda>h. parcJSONPair_BuildString h (Some k) compact p) (pair_text compact p)"
  "composer_text.appends k (\<lambda>h. build_values h (Some k) compact sep a) (values_text compact sep a)"
  "composer_text.appends k (\<lambda>h. build_pairs h (Some k) compact sep j) (pairs_text compact sep j)"
proof (induction compact v and compact p and compact sep a and compact sep j rule: value_text_pair_text_values_text_pairs_text.induct)
  case (4 compact a)
  from andthen [OF put_char [of k 91] andthen [OF put_blank_appends [of k compact] andthen [OF 4(1)
      andthen [OF put_blank_appends [of k compact] put_char [of k 93]]]]]
  show ?case by simp
next
  case (5 compact j)
  from andthen [OF put_char [of k 123] andthen [OF put_blank_appends [of k compact] andthen [OF 5(1)
      andthen [OF put_blank_appends [of k compact] put_char [of k 125]]]]]
  show ?case by simp
next
  case (7 compact n v)
  from andthen [OF put_char [of k 34, unfolded parcBufferComposer_PutChar_def] andthen [OF composer_array [of k n]
      andthen [OF put_string [of k "if compact then [34, 58] else [34, 32, 58, 32]"] 7(1)]]]
  show ?case by simp
next
  case (9 compact sep v vs)
  from andthen [OF put_string [of k sep] andthen [OF 9(1) 9(2)]] show ?case by simp
next
  case (11 compact sep p ps)
  from andthen [OF put_string [of k sep] andthen [OF 11(1) 11(2)]] show ?case by simp
qed (simp_all add: put_string composer_appends(3) buildStringString_appends buildStringNumber_appends)

end
