(* ===== verification/Parc_JSONRoundtrip.thy ===== *)
theory Parc_JSONRoundtrip
  imports Parc_JSONText
begin

text \<open>
  An object of JSON that is printed is parsed back. The bound on the calls of the parsers is removed first, so that they have
  the equations of the source. What the parsers do next depends on the text behind the white space at the cursor only.
\<close>

section \<open>The parsers without bound\<close>

definition value_parser :: "json_parser \<Rightarrow> (json_value option \<times> json_parser) result" where
  "value_parser p = parcJSONValue_Parser (2 * left p + 2) p"

definition array_parser :: "json_parser \<Rightarrow> (json_value option \<times> json_parser) result" where
  "array_parser p = parcJSONValue_ArrayParser (2 * left p + 1) p"

definition array_rest :: "json_parser \<Rightarrow> json_array \<Rightarrow> (json_value option \<times> json_parser) result" where
  "array_rest p a = array_loop (2 * left p + 2) p a"

definition object_parser :: "json_parser \<Rightarrow> (json_value option \<times> json_parser) result" where
  "object_parser p = parcJSONValue_ObjectParser (2 * left p + 1) p"

definition object_rest :: "json_parser \<Rightarrow> parc_json \<Rightarrow> (json_value option \<times> json_parser) result" where
  "object_rest p j = object_loop (2 * left p + 2) p j"

definition pair_parser :: "json_parser \<Rightarrow> (json_pair option \<times> json_parser) result" where
  "pair_parser p = parcJSONPair_Parser (2 * left p + 1) p"

lemma enough:
  "2 * left p + 2 \<le> n \<Longrightarrow> parcJSONValue_Parser n p = value_parser p"
  "2 * left p + 1 \<le> n \<Longrightarrow> parcJSONValue_ArrayParser n p = array_parser p"
  "2 * left p + 2 \<le> n \<Longrightarrow> array_loop n p a = array_rest p a"
  "2 * left p + 1 \<le> n \<Longrightarrow> parcJSONValue_ObjectParser n p = object_parser p"
  "2 * left p + 2 \<le> n \<Longrightarrow> object_loop n p j = object_rest p j"
  "2 * left p + 1 \<le> n \<Longrightarrow> parcJSONPair_Parser n p = pair_parser p"
proof -
  have eq: "f n = f m" if "\<And>k. below (f k) (f (Suc k))" "live (f m)" "m \<le> n" for f :: "nat \<Rightarrow> 'a result" and m
    using below_le [of f m n] that by (auto simp: below_def live_def)
  note le = parsers_below [of _ p a j] and ok = parsers_live [of p _ a j]
  show "2 * left p + 2 \<le> n \<Longrightarrow> parcJSONValue_Parser n p = value_parser p"
    unfolding value_parser_def using le ok by (intro eq [of "\<lambda>k. parcJSONValue_Parser k p"]) auto
  show "2 * left p + 1 \<le> n \<Longrightarrow> parcJSONValue_ArrayParser n p = array_parser p"
    unfolding array_parser_def using le ok by (intro eq [of "\<lambda>k. parcJSONValue_ArrayParser k p"]) auto
  show "2 * left p + 2 \<le> n \<Longrightarrow> array_loop n p a = array_rest p a"
    unfolding array_rest_def using le ok by (intro eq [of "\<lambda>k. array_loop k p a"]) auto
  show "2 * left p + 1 \<le> n \<Longrightarrow> parcJSONValue_ObjectParser n p = object_parser p"
    unfolding object_parser_def using le ok by (intro eq [of "\<lambda>k. parcJSONValue_ObjectParser k p"]) auto
  show "2 * left p + 2 \<le> n \<Longrightarrow> object_loop n p j = object_rest p j"
    unfolding object_rest_def using le ok by (intro eq [of "\<lambda>k. object_loop k p j"]) auto
  show "2 * left p + 1 \<le> n \<Longrightarrow> parcJSONPair_Parser n p = pair_parser p"
    unfolding pair_parser_def using le ok by (intro eq [of "\<lambda>k. parcJSONPair_Parser k p"]) auto
qed

section \<open>The text at the cursor\<close>

abbreviation ignored :: "u8 \<Rightarrow> bool" where
  "ignored c \<equiv> c \<in> set ignore"

definition rest_of :: "json_parser \<Rightarrow> u8 list" where
  "rest_of p = dropWhile ignored (unread p)"

definition step :: "json_parser \<Rightarrow> json_parser" where
  "step p = (let q = parcJSONParser_SkipIgnored p in q\<lparr>passed := hd (unread q) # passed q, unread := tl (unread q)\<rparr>)"

lemma unread_skip [simp]: "unread (parcJSONParser_SkipIgnored p) = rest_of p"
  by (simp add: rest_of_def parcJSONParser_SkipIgnored_def)

lemma rest_of_skip [simp]: "rest_of (parcJSONParser_SkipIgnored p) = rest_of p"
  using SkipIgnored_idem [of p] unread_skip by metis

lemma unread_step: "rest_of p = c # r \<Longrightarrow> unread (step p) = r"
  by (simp add: step_def Let_def)

lemma rest_of_unread: "unread p = c # r \<Longrightarrow> \<not> ignored c \<Longrightarrow> rest_of p = c # r"
  by (simp add: rest_of_def)

lemma cursor:
  assumes "rest_of p = c # r"
  shows "parcJSONParser_PeekNextChar p = Inr (c, parcJSONParser_SkipIgnored p)"
    "parcJSONParser_NextChar p = Inr (c, step p)" "parcJSONParser_Next p = Inr (Some c, step p)"
    "parcJSONParser_Advance (step p) (- 1) = Inr (parcJSONParser_SkipIgnored p)"
    "parcJSONParser_Remaining p > 0"
proof -
  let ?q = "parcJSONParser_SkipIgnored p"
  have u: "unread ?q = c # r" using assms by simp
  show "parcJSONParser_PeekNextChar p = Inr (c, ?q)" using u by (simp add: parcJSONParser_PeekNextChar_def parser_peek_def Let_def)
  have g: "parser_get ?q = Inr (c, step p)" using u by (simp add: parser_get_def step_def Let_def)
  then show "parcJSONParser_NextChar p = Inr (c, step p)" by (simp add: parcJSONParser_NextChar_def)
  show "parcJSONParser_Next p = Inr (Some c, step p)" using u g
    by (simp add: parcJSONParser_Next_def Let_def parcJSONParser_Remaining_def)
  show "parcJSONParser_Advance (step p) (- 1) = Inr ?q"
    using Advance_back [of c "passed ?q" r "beyond ?q"] u by (cases ?q) (simp add: step_def Let_def)
  show "parcJSONParser_Remaining p > 0" using assms by (auto simp: parcJSONParser_Remaining_def rest_of_def)
qed

lemma cursor_end: "rest_of p = [] \<Longrightarrow> parcJSONParser_Next p = Inr (None, parcJSONParser_SkipIgnored p)"
  by (simp add: parcJSONParser_Next_def Let_def parcJSONParser_Remaining_def)

lemma left_rest: "rest_of p = c # r \<Longrightarrow> length r < left p" "left (parcJSONParser_SkipIgnored p) \<le> left p"
  using length_dropWhile_le [of ignored "unread p"] by (simp_all add: rest_of_def)

section \<open>The equations of the source\<close>

lemma value_parser_eq:
  assumes "rest_of p = c # r"
  shows "value_parser p =
    (let p1 = parcJSONParser_SkipIgnored p in
     if c = 44 \<or> c = 93 then Inr (None, p1)
     else if c = 110 then parcJSONValue_NullParser p1
     else if c = 116 then parcJSONValue_TrueParser p1
     else if c = 102 then parcJSONValue_FalseParser p1
     else if c = 34 then parcJSONValue_StringParser p1
     else if c = 91 then array_parser p1
     else if c = 123 then object_parser p1
     else parcJSONValue_NumberParser p1)"
proof -
  have "2 * left (parcJSONParser_SkipIgnored p) + 1 \<le> 2 * left p + 1" using left_rest(2) by simp
  then show ?thesis
    using enough(2,4) [of "parcJSONParser_SkipIgnored p" "2 * left p + 1"]
    by (simp add: value_parser_def parcJSONValue_Parser.simps(2) cursor(1) [OF assms] Let_def)
qed

lemma array_parser_eq: "rest_of p = 91 # r \<Longrightarrow> array_parser p = array_rest (step p) []"
  using enough(3) [of "step p" "2 * left p"] left_rest(1) [of p 91 r]
  by (simp add: array_parser_def parcJSONValue_ArrayParser.simps(2) cursor parcJSONArray_Create_def unread_step)

lemma object_parser_eq: "rest_of p = 123 # r \<Longrightarrow> object_parser p = object_rest (step p) []"
  using enough(5) [of "step p" "2 * left p"] left_rest(1) [of p 123 r]
  by (simp add: object_parser_def parcJSONValue_ObjectParser.simps(2) cursor parcJSON_Create_def unread_step)

lemma array_rest_eq:
  assumes "rest_of p = c # r"
  shows "c = 44 \<Longrightarrow> array_rest p a = array_rest (step (parcJSONParser_SkipIgnored p)) a"
    and "c = 93 \<Longrightarrow> array_rest p a = Inr (Some (JSONArray a), step (parcJSONParser_SkipIgnored p))"
    and "c \<noteq> 44 \<Longrightarrow> c \<noteq> 93 \<Longrightarrow> value_parser p = Inr (Some v, p2) \<Longrightarrow> array_rest p a = array_rest p2 (a @ [v])"
proof -
  let ?q = "parcJSONParser_SkipIgnored p"
  have q: "rest_of ?q = c # r" using assms by simp
  note simps = array_rest_def array_loop.simps(2) cursor(1,5) [OF assms] cursor(2) [OF q]
  show "c = 44 \<Longrightarrow> array_rest p a = array_rest (step ?q) a"
    using enough(3) [of "step ?q" "Suc (2 * left p)"] left_rest(1) [OF assms] by (simp add: simps unread_step [OF q])
  show "c = 93 \<Longrightarrow> array_rest p a = Inr (Some (JSONArray a), step ?q)"
    by (simp add: simps parcJSONValue_CreateFromJSONArray_def)
  assume c: "c \<noteq> 44" "c \<noteq> 93" and v: "value_parser p = Inr (Some v, p2)"
  have "left p2 < left p" using v parsers_shrink [of p "2 * left p + 2"] by (auto simp: value_parser_def shrinks_def)
  then have "array_loop (Suc (2 * left p)) p2 (a @ [v]) = array_rest p2 (a @ [v])" by (intro enough) simp
  moreover have "parcJSONValue_ArrayParser (Suc (2 * left p)) ?q = array_parser ?q"
    "parcJSONValue_ObjectParser (Suc (2 * left p)) ?q = object_parser ?q"
    using left_rest(2) [of p] by (auto intro!: enough)
  ultimately show "array_rest p a = array_rest p2 (a @ [v])"
    using v c by (auto simp: simps value_parser_eq [OF assms] Let_def parcJSONArray_AddValue_def split: if_splits)
qed

lemma object_rest_eq:
  assumes "rest_of p = c # r"
  shows "c = 44 \<Longrightarrow> object_rest p j = object_rest (step (parcJSONParser_SkipIgnored p)) j"
    and "c = 125 \<Longrightarrow> object_rest p j = Inr (Some (JSONObject j), step (parcJSONParser_SkipIgnored p))"
    and "c = 34 \<Longrightarrow> pair_parser (parcJSONParser_SkipIgnored p) = Inr (Some v, p2) \<Longrightarrow> object_rest p j = object_rest p2 (j @ [v])"
proof -
  let ?q = "parcJSONParser_SkipIgnored p"
  have q: "rest_of ?q = c # r" using assms by simp
  note simps = object_rest_def object_loop.simps(2) cursor(1,5) [OF assms] cursor(2) [OF q]
  show "c = 44 \<Longrightarrow> object_rest p j = object_rest (step ?q) j"
    using enough(5) [of "step ?q" "Suc (2 * left p)"] left_rest(1) [OF assms] by (simp add: simps unread_step [OF q])
  show "c = 125 \<Longrightarrow> object_rest p j = Inr (Some (JSONObject j), step ?q)"
    by (simp add: simps parcJSONValue_CreateFromJSON_def)
  assume c: "c = 34" and v: "pair_parser ?q = Inr (Some v, p2)"
  have "left p2 < left ?q" using v parsers_shrink [of ?q "2 * left ?q + 1"] by (auto simp: pair_parser_def shrinks_def)
  then have "object_loop (Suc (2 * left p)) p2 (j @ [v]) = object_rest p2 (j @ [v])" using left_rest(2) [of p] by (intro enough) simp
  moreover have "parcJSONPair_Parser (Suc (2 * left p)) ?q = pair_parser ?q" using left_rest(2) [of p] by (intro enough) simp
  ultimately show "object_rest p j = object_rest p2 (j @ [v])" using v c by (simp add: simps parcJSON_AddPair_def)
qed

lemma pair_parser_eq:
  assumes "parcJSONParser_ParseString p = Inr (Some n, p1)" "rest_of p1 = 58 # r" "value_parser (step p1) = Inr (Some v, p2)"
  shows "pair_parser p = Inr (Some (JSONPair n v), p2)"
proof -
  have "left p1 < left p" using ParseString_left [OF assms(1)] .
  moreover have "left (step p1) < left p1" using left_rest(1) [OF assms(2)] unread_step [OF assms(2)] by simp
  ultimately have "parcJSONValue_Parser (2 * left p) (step p1) = value_parser (step p1)" by (intro enough) simp
  then show ?thesis using assms by (simp add: pair_parser_def parcJSONPair_Parser.simps(2) cursor parcJSONPair_Create_def)
qed

section \<open>Numbers\<close>

definition digits_from :: "int \<Rightarrow> u8 list \<Rightarrow> int" where
  "digits_from v ds = foldl (\<lambda>v c. v * 10 + (uint c - 48)) v ds"

lemma digits_from_simps [simp]: "digits_from v [] = v" "digits_from v (c # ds) = digits_from (v * 10 + (uint c - 48)) ds"
  by (simp_all add: digits_from_def)

lemma isdigit_bounds: "isdigit c \<Longrightarrow> 48 \<le> uint c \<and> uint c \<le> 57"
  by (simp add: isdigit_def word_le_def)

lemma digittoint_digit: "isdigit c \<Longrightarrow> digittoint c = uint c - 48"
proof -
  assume "isdigit c"
  then have c: "48 \<le> uint c" "uint c \<le> 57" using isdigit_bounds by blast+
  have "sint c = signed_take_bit 7 (uint c)" by (simp add: sint_uint)
  also have "\<dots> = uint c" using c by (intro signed_take_bit_int_eq_self) simp_all
  finally show ?thesis by (simp add: digittoint_def)
qed

lemma digits_grow: "0 \<le> v \<Longrightarrow> list_all isdigit ds \<Longrightarrow> v \<le> digits_from v ds"
proof (induction ds arbitrary: v)
  case (Cons c ds)
  then have "48 \<le> uint c" using isdigit_bounds by simp
  moreover from this have "v * 10 + (uint c - 48) \<le> digits_from (v * 10 + (uint c - 48)) ds" using Cons by simp
  ultimately show ?case using Cons.prems(1) by simp
qed simp

lemma append_digit_ok:
  assumes "isdigit c" "0 \<le> v" "v * 10 + (uint c - 48) \<le> 9223372036854775807"
  shows "append_digit v c = Inr (v * 10 + (uint c - 48))"
  using assms isdigit_bounds [OF assms(1)] by (simp add: append_digit_def int64_def digittoint_digit)

text \<open>No digit follows.\<close>

definition no_digit :: "u8 list \<Rightarrow> bool" where
  "no_digit r \<longleftrightarrow> dropWhile ignored r = [] \<or> \<not> isdigit (hd (dropWhile ignored r))"

lemma not_ignored_digit: "isdigit c \<Longrightarrow> \<not> ignored c"
  by (auto simp: isdigit_def ignore_def)

lemma rest_digits: "isdigit c \<Longrightarrow> unread p = c # r \<Longrightarrow> rest_of p = c # r"
  by (intro rest_of_unread not_ignored_digit)

lemma whole_loop_stop:
  assumes "no_digit (unread p)"
  shows "\<exists>p'. whole_loop p v = Inr (v, p') \<and> rest_of p' = rest_of p" "\<exists>p'. fraction_loop p v l = Inr ((v, l), p') \<and> rest_of p' = rest_of p"
proof -
  have "(\<exists>p'. whole_loop p v = Inr (v, p') \<and> rest_of p' = rest_of p) \<and> (\<exists>p'. fraction_loop p v l = Inr ((v, l), p') \<and> rest_of p' = rest_of p)"
  proof (cases "rest_of p")
    case Nil
    then show ?thesis by (subst whole_loop.simps, subst fraction_loop.simps) (simp add: cursor_end)
  next
    case (Cons c r)
    then have "\<not> isdigit c" using assms by (simp add: no_digit_def rest_of_def)
    then show ?thesis using cursor [OF Cons] by (subst whole_loop.simps, subst fraction_loop.simps) simp
  qed
  then show "\<exists>p'. whole_loop p v = Inr (v, p') \<and> rest_of p' = rest_of p" "\<exists>p'. fraction_loop p v l = Inr ((v, l), p') \<and> rest_of p' = rest_of p"
    by blast+
qed

lemma whole_loop_digits:
  assumes "no_digit r" "0 \<le> v" "list_all isdigit ds" "digits_from v ds \<le> 9223372036854775807" "unread p = ds @ r"
  shows "\<exists>p'. whole_loop p v = Inr (digits_from v ds, p') \<and> rest_of p' = dropWhile ignored r"
  using assms(2-)
proof (induction ds arbitrary: v p)
  case Nil
  then show ?case using whole_loop_stop(1) [of p v] assms(1) by (simp add: rest_of_def)
next
  case (Cons c ds)
  let ?v = "v * 10 + (uint c - 48)"
  have c: "isdigit c" "rest_of p = c # ds @ r" using Cons.prems rest_digits by auto
  then have pos: "0 \<le> ?v" using isdigit_bounds [OF c(1)] Cons.prems(1) by simp
  have "?v \<le> 9223372036854775807" using digits_grow [OF pos, of ds] Cons.prems by simp
  then have "whole_loop p v = whole_loop (step p) ?v"
    using cursor [OF c(2)] c(1) append_digit_ok [OF c(1) Cons.prems(1)] by (subst whole_loop.simps) simp
  then show ?case using Cons.IH [OF pos, of "step p"] Cons.prems unread_step [OF c(2)] by simp
qed

lemma fraction_loop_digits:
  assumes "no_digit r" "0 \<le> v" "list_all isdigit ds" "digits_from v ds \<le> 9223372036854775807" "unread p = ds @ r"
    "0 \<le> l" "l + int (length ds) \<le> 2147483647"
  shows "\<exists>p'. fraction_loop p v l = Inr ((digits_from v ds, l + int (length ds)), p') \<and> rest_of p' = dropWhile ignored r"
  using assms(2-)
proof (induction ds arbitrary: v p l)
  case Nil
  then show ?case using whole_loop_stop(2) [of p v l] assms(1) by (simp add: rest_of_def)
next
  case (Cons c ds)
  let ?v = "v * 10 + (uint c - 48)"
  have c: "isdigit c" "rest_of p = c # ds @ r" using Cons.prems rest_digits by auto
  then have pos: "0 \<le> ?v" using isdigit_bounds [OF c(1)] Cons.prems(1) by simp
  have "?v \<le> 9223372036854775807" using digits_grow [OF pos, of ds] Cons.prems by simp
  then have "fraction_loop p v l = fraction_loop (step p) ?v (l + 1)"
    using cursor [OF c(2)] c(1) append_digit_ok [OF c(1) Cons.prems(1)] Cons.prems(5,6)
    by (subst fraction_loop.simps) (simp add: int32_def)
  moreover have "l + 1 + int (length ds) = l + int (length (c # ds))" by simp
  ultimately show ?case using Cons.IH [OF pos, of "step p" "l + 1"] Cons.prems unread_step [OF c(2)] by (simp add: add.assoc)
qed

text \<open>The digits that are printed.\<close>

lemma decimal_isdigit: "list_all isdigit (decimal n)"
  using decimal_digits [of n] by (auto simp: list_all_iff isdigit_def)

lemma digits_from_int: "list_all isdigit ds \<Longrightarrow> digits_from (int v) ds = int (foldl (\<lambda>n c. n * 10 + (unat c - 48)) v ds)"
proof (induction ds arbitrary: v)
  case (Cons c ds)
  then have "48 \<le> int (unat c)" using isdigit_bounds [of c] by simp
  then have "48 \<le> unat c" by linarith
  then have "int v * 10 + (uint c - 48) = int (v * 10 + (unat c - 48))" by (simp add: of_nat_diff)
  then show ?case using Cons.IH [of "v * 10 + (unat c - 48)"] Cons.prems by (simp only: digits_from_simps foldl.simps list.pred_inject)
qed simp

lemma digits_from_decimal: "digits_from 0 (decimal n) = int n"
  using digits_from_int [OF decimal_isdigit, of 0 n] decimal_value_decimal [of n] by (simp add: decimal_value_def)

lemma decimal_hd: "0 < n \<Longrightarrow> hd (decimal n) \<noteq> 48"
proof (induction n rule: decimal.induct)
  case (1 n)
  show ?case
  proof (cases "n < 10")
    case True
    then have "unat (48 + word_of_nat n :: u8) = 48 + n" by (rule unat_digit)
    then have "unat (48 + word_of_nat n :: u8) \<noteq> unat (48 :: u8)" using 1(2) by simp
    then have "(48 + word_of_nat n :: u8) \<noteq> 48" by metis
    then show ?thesis using True by (subst decimal.simps) simp
  next
    case False
    then show ?thesis using 1(1) by (subst decimal.simps) simp
  qed
qed

lemma decimal_length: "n < 10 ^ w \<Longrightarrow> 0 < w \<Longrightarrow> length (decimal n) \<le> w"
proof (induction n arbitrary: w rule: decimal.induct)
  case (1 n)
  show ?case
  proof (cases "n < 10")
    case True
    then show ?thesis using 1(3) by (subst decimal.simps) simp
  next
    case False
    then obtain k where w: "w = Suc k" "0 < k" using 1(2,3) by (cases w; cases "w - 1") auto
    then have "n div 10 < 10 ^ k" using 1(2) by (simp add: less_mult_imp_div_less mult.commute)
    then show ?thesis using 1(1) [OF False _ w(2)] False w(1) by (subst decimal.simps) simp
  qed
qed

lemma digits_from_zeros: "digits_from 0 (replicate k 48 @ ds) = digits_from 0 ds"
  by (induction k) simp_all

text \<open>The numbers that are printed as they are parsed.\<close>

definition number_ok :: "json_number \<Rightarrow> bool" where
  "number_ok n \<longleftrightarrow> (num_sign n = 1 \<or> num_sign n = - 1) \<and> 0 \<le> num_whole n \<and> num_whole n \<le> 9223372036854775807 \<and> num_exponent n = 0 \<and>
    (num_fraction n = 0 \<and> num_fractionLog10 n = 0 \<or>
     0 < num_fraction n \<and> num_fraction n \<le> 9223372036854775807 \<and> 0 < num_fractionLog10 n \<and> num_fractionLog10 n \<le> 2147483647 \<and>
     num_fraction n < 10 ^ nat (num_fractionLog10 n))"

text \<open>What may follow a value.\<close>

definition stops :: "u8 list \<Rightarrow> bool" where
  "stops r \<longleftrightarrow> dropWhile ignored r = [] \<or> hd (dropWhile ignored r) \<in> {44, 93, 125}"

lemma stops_no_digit: "stops r \<Longrightarrow> no_digit r"
  by (auto simp: stops_def no_digit_def isdigit_def)

lemma parse_whole:
  assumes "unread p = decimal w @ r" "no_digit r" "int w \<le> 9223372036854775807"
  shows "\<exists>p'. parseWholeNumber p = Inr (Some (int w), p') \<and> rest_of p' = dropWhile ignored r"
proof (cases "w = 0")
  case True
  then have "decimal w = [48]" by (subst decimal.simps) simp
  then have "rest_of p = 48 # r" using assms(1) by (intro rest_digits) (simp_all add: isdigit_def)
  then show ?thesis using True cursor [of p 48 r] by (simp add: parseWholeNumber_def unread_step rest_of_def)
next
  case False
  obtain c ds where ds: "decimal w = c # ds" by (cases "decimal w") auto
  have c: "isdigit c" "list_all isdigit ds" "c \<noteq> 48" using decimal_isdigit [of w] decimal_hd [of w] False ds by simp_all
  have p: "rest_of p = c # ds @ r" using assms(1) ds c(1) by (intro rest_digits) simp_all
  have "digits_from (uint c - 48) ds = int w" using digits_from_decimal [of w] ds by simp
  moreover have "0 \<le> uint c - 48" using isdigit_bounds [OF c(1)] by simp
  ultimately show ?thesis
    using whole_loop_digits [OF assms(2) _ c(2), of "uint c - 48" "step p"] assms(3) c cursor [OF p] unread_step [OF p]
    by (auto simp: parseWholeNumber_def digittoint_digit)
qed

lemma padded_digits:
  assumes "0 < f" "0 < w" "f < 10 ^ nat w"
  shows "list_all isdigit (padded_text w f)" "length (padded_text w f) = nat w" "digits_from 0 (padded_text w f) = f"
proof -
  have t: "padded_text w f = replicate (nat w - length (decimal (nat f))) 48 @ decimal (nat f)"
    using assms(1) by (simp add: padded_text_def signed_text_def Let_def)
  show "list_all isdigit (padded_text w f)" using decimal_isdigit [of "nat f"] by (auto simp: t list_all_iff isdigit_def)
  have "nat f < 10 ^ nat w" using assms(1,3) by (simp add: nat_less_iff)
  then have "length (decimal (nat f)) \<le> nat w" using assms(2) by (intro decimal_length) simp_all
  then show "length (padded_text w f) = nat w" by (simp add: t)
  show "digits_from 0 (padded_text w f) = f" using assms(1) by (simp add: t digits_from_zeros digits_from_decimal)
qed

lemma parse_fraction:
  assumes n: "number_ok n" and r: "stops r"
    and p: "rest_of p = dropWhile ignored ((if num_fraction n > 0 then 46 # padded_text (num_fractionLog10 n) (num_fraction n) else []) @ r)"
  shows "\<exists>p'. parseOptionalFraction p = Inr (Some (num_fraction n, num_fractionLog10 n), p') \<and> rest_of p' = dropWhile ignored r"
proof (cases "num_fraction n > 0")
  case True
  let ?t = "padded_text (num_fractionLog10 n) (num_fraction n)"
  note ok = padded_digits [of "num_fraction n" "num_fractionLog10 n"]
  have d: "rest_of p = 46 # ?t @ r" using p True by (simp add: ignore_def)
  have len: "length ?t = nat (num_fractionLog10 n)" "0 < length ?t" using ok n True by (auto simp: number_ok_def)
  then have pos: "parcJSONParser_Remaining (step p) > 0" using unread_step [OF d] by (simp add: parcJSONParser_Remaining_def)
  have "\<exists>p'. fraction_loop (step p) 0 0 = Inr ((digits_from 0 ?t, 0 + int (length ?t)), p') \<and> rest_of p' = dropWhile ignored r"
    using ok n True len unread_step [OF d] by (intro fraction_loop_digits stops_no_digit [OF r]) (auto simp: number_ok_def)
  then show ?thesis
    using ok n True len pos cursor [OF d] by (auto simp: parseOptionalFraction_def parseFractionNumber_def number_ok_def)
next
  case False
  then have z: "num_fraction n = 0" "num_fractionLog10 n = 0" using n by (auto simp: number_ok_def)
  show ?thesis
  proof (cases "rest_of p")
    case Nil
    then show ?thesis using False p z by (simp add: parseOptionalFraction_def cursor_end)
  next
    case (Cons c s)
    then have "c \<in> {44, 93, 125}" using False p r by (auto simp: stops_def)
    then show ?thesis using False p z Cons cursor [OF Cons] by (auto simp: parseOptionalFraction_def)
  qed
qed

lemma parse_no_exponent:
  assumes "rest_of p = dropWhile ignored r" "stops r"
  shows "\<exists>p'. parseOptionalExponent p = Inr (Some 0, p') \<and> rest_of p' = dropWhile ignored r"
proof (cases "rest_of p")
  case Nil
  then show ?thesis using assms by (simp add: parseOptionalExponent_def cursor_end)
next
  case (Cons c s)
  then have "c \<in> {44, 93, 125}" using assms by (auto simp: stops_def)
  then show ?thesis using assms Cons cursor [OF Cons] by (auto simp: parseOptionalExponent_def)
qed

lemma no_digit_fraction: "stops r \<Longrightarrow> no_digit ((if b then 46 # t else []) @ r)"
  using stops_no_digit by (simp add: no_digit_def isdigit_def ignore_def)

lemma parse_number:
  assumes n: "number_ok n" and r: "stops r" and p: "rest_of p = number_text n @ r"
  shows "\<exists>p'. parcJSONValue_NumberParser p = Inr (Some (JSONNumber n), p') \<and> rest_of p' = dropWhile ignored r"
proof -
  let ?f = "(if num_fraction n > 0 then 46 # padded_text (num_fractionLog10 n) (num_fraction n) else []) @ r"
  let ?w = "decimal (nat (num_whole n))"
  have shape: "number_text n @ r = (if num_sign n = - 1 then [45] else []) @ ?w @ ?f"
    using n by (simp add: number_text_def number_ok_def signed_text_def)
  obtain c ds where ds: "?w = c # ds" by (cases ?w) auto
  have c: "isdigit c" using decimal_isdigit [of "nat (num_whole n)"] ds by simp
  have "\<exists>p1. parseSign p = Inr (Some (num_sign n), p1) \<and> unread p1 = ?w @ ?f"
  proof (cases "num_sign n = - 1")
    case True
    then have q: "rest_of p = 45 # ?w @ ?f" using p shape by simp
    show ?thesis using True cursor [OF q] unread_step [OF q] by (simp add: parseSign_def)
  next
    case False
    then have "num_sign n = 1" "rest_of p = c # ds @ ?f" using n p shape ds by (auto simp: number_ok_def)
    moreover have "c \<noteq> 45" using c by (auto simp: isdigit_def)
    ultimately show ?thesis using cursor [of p c "ds @ ?f"] c ds by (simp add: parseSign_def)
  qed
  then obtain p1 where p1: "parseSign p = Inr (Some (num_sign n), p1)" "unread p1 = ?w @ ?f" by blast
  have "int (nat (num_whole n)) = num_whole n" "num_whole n \<le> 9223372036854775807" using n by (simp_all add: number_ok_def)
  then obtain p2 where p2: "parseWholeNumber p1 = Inr (Some (num_whole n), p2)" "rest_of p2 = dropWhile ignored ?f"
    using parse_whole [OF p1(2) no_digit_fraction [OF r]] by auto
  obtain p3 where p3: "parseOptionalFraction p2 = Inr (Some (num_fraction n, num_fractionLog10 n), p3)" "rest_of p3 = dropWhile ignored r"
    using parse_fraction [OF n r p2(2)] by blast
  obtain p4 where p4: "parseOptionalExponent p3 = Inr (Some 0, p4)" "rest_of p4 = dropWhile ignored r"
    using parse_no_exponent [OF p3(2) r] by blast
  have "n = \<lparr>num_sign = num_sign n, num_whole = num_whole n, num_fraction = num_fraction n,
      num_fractionLog10 = num_fractionLog10 n, num_exponent = 0\<rparr>"
    using n by (cases n) (simp add: number_ok_def)
  then show ?thesis
    using p1(1) p2(1) p3(1) p4 by (simp add: parcJSONValue_NumberParser_def parcJSONValue_CreateNumber_def)
qed

section \<open>Words and strings\<close>

lemma RequireString_found: "unread p = s @ r \<Longrightarrow> \<exists>p'. parcJSONParser_RequireString p s = Inr (True, p') \<and> unread p' = r"
proof (induction s arbitrary: p)
  case (Cons c s)
  then show ?case using Cons.IH [of "p\<lparr>passed := c # passed p, unread := s @ r\<rparr>"] by (simp add: parser_get_def)
qed simp

lemma parse_word: "unread p = s @ r \<Longrightarrow> \<exists>p'. word_parser s v p = Inr (Some v, p') \<and> rest_of p' = dropWhile ignored r"
  using RequireString_found [of p s r] by (auto simp: word_parser_def rest_of_def)

text \<open>Strings whose control characters have an escape, and names, which are printed without escapes.\<close>

definition string_ok :: "u8 list \<Rightarrow> bool" where
  "string_ok s \<longleftrightarrow> list_all (\<lambda>c. iscntrl c \<longrightarrow> c \<in> {8, 9, 10, 12, 13}) s"

definition name_ok :: "u8 list \<Rightarrow> bool" where
  "name_ok s \<longleftrightarrow> list_all (\<lambda>c. \<not> iscntrl c \<and> c \<noteq> 34 \<and> c \<noteq> 92) s"

lemma parse_string_plain:
  assumes "unread p = c # r" "\<not> iscntrl c" "c \<noteq> 34" "c \<noteq> 92"
  shows "parse_string p s = parse_string (p\<lparr>passed := c # passed p, unread := r\<rparr>) (s @ [c])"
  using assms by (subst parse_string.simps) (simp add: parser_get_def parcJSONParser_Remaining_def)

lemma parse_string_escape:
  assumes "unread p = 92 # c # r" "c \<noteq> 117"
  shows "\<exists>p'. parse_string p s = parse_string p' (s @ [unescape c]) \<and> unread p' = r"
  using assms by (subst parse_string.simps) (auto simp: parser_get_def parcJSONParser_Remaining_def)

lemma parse_string_close:
  "unread p = 34 # r \<Longrightarrow> \<exists>p'. parse_string p s = Inr (Some s, p') \<and> unread p' = r"
  by (subst parse_string.simps) (simp add: parser_get_def parcJSONParser_Remaining_def)

lemma parse_escape_text:
  assumes "unread p = escape_text compact c @ r" "iscntrl c \<longrightarrow> c \<in> {8, 9, 10, 12, 13}"
  shows "\<exists>p'. parse_string p s = parse_string p' (s @ [c]) \<and> unread p' = r"
proof (cases "escape_text compact c = [c]")
  case True
  have "\<not> iscntrl c" "c \<noteq> 34" "c \<noteq> 92" using True assms(2) by (auto simp: escape_text_def split: if_splits)
  then show ?thesis using parse_string_plain [of p c r s] assms(1) True by auto
next
  case False
  then obtain d where "escape_text compact c = [92, d]" "d \<noteq> 117" "unescape d = c"
    by (auto simp: escape_text_def unescape_def split: if_splits)
  then show ?thesis using parse_string_escape [of p d r s] assms(1) by auto
qed

lemma parse_string_text:
  "string_ok t \<Longrightarrow> unread p = concat (map (escape_text compact) t) @ 34 # r \<Longrightarrow>
    \<exists>p'. parse_string p s = Inr (Some (s @ t), p') \<and> unread p' = r"
proof (induction t arbitrary: p s)
  case Nil
  then show ?case using parse_string_close by simp
next
  case (Cons c t)
  then obtain p1 where "parse_string p s = parse_string p1 (s @ [c])" "unread p1 = concat (map (escape_text compact) t) @ 34 # r"
    using parse_escape_text [of p compact c "concat (map (escape_text compact) t) @ 34 # r" s] by (auto simp: string_ok_def)
  then show ?case using Cons.IH [of p1 "s @ [c]"] Cons.prems(1) by (simp add: string_ok_def)
qed

lemma parse_name_text:
  "name_ok t \<Longrightarrow> unread p = t @ 34 # r \<Longrightarrow> \<exists>p'. parse_string p s = Inr (Some (s @ t), p') \<and> unread p' = r"
proof (induction t arbitrary: p s)
  case Nil
  then show ?case using parse_string_close by simp
next
  case (Cons c t)
  then show ?case
    using parse_string_plain [of p c "t @ 34 # r" s] Cons.IH [of "p\<lparr>passed := c # passed p, unread := t @ 34 # r\<rparr>" "s @ [c]"]
    by (simp add: name_ok_def)
qed

lemma ParseString_open:
  "unread p = 34 # r \<Longrightarrow> parcJSONParser_ParseString p = parse_string (p\<lparr>passed := 34 # passed p, unread := r\<rparr>) []"
  by (simp add: parcJSONParser_ParseString_def parser_get_def)

section \<open>Values\<close>

fun value_ok :: "json_value \<Rightarrow> bool" and pair_ok :: "json_pair \<Rightarrow> bool"
  and values_ok :: "json_value list \<Rightarrow> bool" and pairs_ok :: "json_pair list \<Rightarrow> bool" where
  "value_ok (JSONBoolean b) = True"
| "value_ok (JSONString s) = string_ok s"
| "value_ok (JSONNumber n) = number_ok n"
| "value_ok (JSONArray a) = values_ok a"
| "value_ok (JSONObject j) = pairs_ok j"
| "value_ok JSONNull = True"
| "pair_ok (JSONPair n v) = (name_ok n \<and> value_ok v)"
| "values_ok [] = True"
| "values_ok (v # vs) = (value_ok v \<and> values_ok vs)"
| "pairs_ok [] = True"
| "pairs_ok (p # ps) = (pair_ok p \<and> pairs_ok ps)"

lemma number_text_hd:
  assumes "number_ok n"
  shows "\<exists>c t. number_text n = c # t \<and> (isdigit c \<or> c = 45)"
proof -
  obtain c ds where ds: "decimal (nat (num_whole n)) = c # ds" by (cases "decimal (nat (num_whole n))") auto
  then have "isdigit c" using decimal_isdigit [of "nat (num_whole n)"] by simp
  then show ?thesis using assms ds by (auto simp: number_text_def signed_text_def number_ok_def)
qed

lemma value_text_hd:
  assumes "value_ok v"
  shows "\<exists>c t. value_text compact v = c # t \<and> \<not> ignored c \<and> c \<noteq> 44 \<and> c \<noteq> 93"
proof (cases v)
  case (JSONNumber n)
  then show ?thesis using number_text_hd [of n] assms by (auto simp: isdigit_def ignore_def)
qed (auto simp: string_text_def ignore_def)

definition parsed :: "bool \<Rightarrow> json_value \<Rightarrow> bool" where
  "parsed compact v \<longleftrightarrow> (\<forall>p r. rest_of p = value_text compact v @ r \<longrightarrow> stops r \<longrightarrow>
    (\<exists>p'. value_parser p = Inr (Some v, p') \<and> rest_of p' = dropWhile ignored r))"

lemma parsedD:
  "parsed compact v \<Longrightarrow> rest_of p = value_text compact v @ r \<Longrightarrow> stops r \<Longrightarrow>
    \<exists>p'. value_parser p = Inr (Some v, p') \<and> rest_of p' = dropWhile ignored r"
  by (simp add: parsed_def)

lemma parsed_simple:
  "parsed compact JSONNull" "parsed compact (JSONBoolean b)" "string_ok s \<Longrightarrow> parsed compact (JSONString s)"
  "number_ok n \<Longrightarrow> parsed compact (JSONNumber n)"
proof -
  show "parsed compact JSONNull"
    unfolding parsed_def
  proof (intro allI impI)
    fix p r assume p: "rest_of p = value_text compact JSONNull @ r"
    then show "\<exists>p'. value_parser p = Inr (Some JSONNull, p') \<and> rest_of p' = dropWhile ignored r"
      using parse_word [of "parcJSONParser_SkipIgnored p" "[110, 117, 108, 108]" r JSONNull] value_parser_eq [of p 110]
      by (simp add: Let_def parcJSONValue_NullParser_def parcJSONValue_CreateFromNULL_def)
  qed
  show "parsed compact (JSONBoolean b)"
    unfolding parsed_def
  proof (intro allI impI)
    fix p r assume p: "rest_of p = value_text compact (JSONBoolean b) @ r"
    then show "\<exists>p'. value_parser p = Inr (Some (JSONBoolean b), p') \<and> rest_of p' = dropWhile ignored r"
      using parse_word [of "parcJSONParser_SkipIgnored p" _ r "JSONBoolean b"] value_parser_eq [of p 116] value_parser_eq [of p 102]
      by (cases b) (simp_all add: Let_def parcJSONValue_TrueParser_def parcJSONValue_FalseParser_def parcJSONValue_CreateFromBoolean_def)
  qed
  show "parsed compact (JSONString s)" if s: "string_ok s"
    unfolding parsed_def
  proof (intro allI impI)
    fix p r assume "rest_of p = value_text compact (JSONString s) @ r"
    then have p: "rest_of p = 34 # concat (map (escape_text compact) s) @ 34 # r" by (simp add: string_text_def)
    then have "\<exists>p'. parcJSONParser_ParseString (parcJSONParser_SkipIgnored p) = Inr (Some s, p') \<and> unread p' = r"
      using ParseString_open [of "parcJSONParser_SkipIgnored p"]
        parse_string_text [OF s, of "(parcJSONParser_SkipIgnored p)\<lparr>passed := 34 # passed (parcJSONParser_SkipIgnored p),
          unread := concat (map (escape_text compact) s) @ 34 # r\<rparr>" compact r "[]"]
      by simp
    then show "\<exists>p'. value_parser p = Inr (Some (JSONString s), p') \<and> rest_of p' = dropWhile ignored r"
      using value_parser_eq [OF p]
      by (auto simp: Let_def parcJSONValue_StringParser_def parcJSONValue_CreateFromString_def rest_of_def)
  qed
  show "parsed compact (JSONNumber n)" if n: "number_ok n"
    unfolding parsed_def
  proof (intro allI impI)
    fix p r assume p: "rest_of p = value_text compact (JSONNumber n) @ r" and r: "stops r"
    obtain c t where c: "number_text n = c # t" "isdigit c \<or> c = 45" using number_text_hd [OF n] by blast
    then have "value_parser p = parcJSONValue_NumberParser (parcJSONParser_SkipIgnored p)"
      using value_parser_eq [of p c "t @ r"] p by (auto simp: Let_def isdigit_def)
    then show "\<exists>p'. value_parser p = Inr (Some (JSONNumber n), p') \<and> rest_of p' = dropWhile ignored r"
      using parse_number [OF n r, of "parcJSONParser_SkipIgnored p"] p by simp
  qed
qed

section \<open>Arrays and objects\<close>

lemma blank_skip: "dropWhile ignored (blank compact @ s) = dropWhile ignored s"
  by (simp add: blank_def ignore_def)

lemma stops_tail:
  "stops (values_text compact (separator compact) vs @ blank compact @ 93 # r)"
  "stops (pairs_text compact (separator compact) ps @ blank compact @ 125 # r)"
  by (cases vs; simp add: stops_def separator_def blank_skip; simp add: ignore_def)
    (cases ps; simp add: stops_def separator_def blank_skip; simp add: ignore_def)

lemma after_separator:
  assumes "rest_of p = dropWhile ignored (separator compact @ c # s)" "\<not> ignored c"
  shows "\<exists>r. rest_of p = 44 # r" "rest_of (step (parcJSONParser_SkipIgnored p)) = c # s"
proof -
  have p: "rest_of p = 44 # (if compact then [] else [32]) @ c # s" using assms(1) by (simp add: separator_def ignore_def)
  then show "\<exists>r. rest_of p = 44 # r" by blast
  have "unread (step (parcJSONParser_SkipIgnored p)) = (if compact then [] else [32]) @ c # s"
    using unread_step [of "parcJSONParser_SkipIgnored p"] p by simp
  then show "rest_of (step (parcJSONParser_SkipIgnored p)) = c # s" using assms(2) by (simp add: rest_of_def ignore_def)
qed

lemma array_values:
  assumes "\<forall>v \<in> set vs. value_ok v \<and> parsed compact v" "sep = [] \<or> sep = separator compact"
    "rest_of p = dropWhile ignored (values_text compact sep vs @ blank compact @ 93 # r)"
  shows "\<exists>p'. array_rest p a = Inr (Some (JSONArray (a @ vs)), p') \<and> unread p' = r"
  using assms
proof (induction vs arbitrary: sep p a)
  case Nil
  then have p: "rest_of p = 93 # r" by (simp add: blank_def ignore_def)
  then show ?case using array_rest_eq(2) [OF p] unread_step [of "parcJSONParser_SkipIgnored p" 93 r] by simp
next
  case (Cons v vs)
  let ?T = "values_text compact (separator compact) vs @ blank compact @ 93 # r"
  obtain c t where c: "value_text compact v = c # t" "\<not> ignored c" "c \<noteq> 44" "c \<noteq> 93"
    using value_text_hd [of v compact] Cons.prems(1) by auto
  have "\<exists>q. array_rest p a = array_rest q a \<and> rest_of q = value_text compact v @ ?T"
  proof (cases "sep = []")
    case True
    then show ?thesis using Cons.prems(3) c by (intro exI [of _ p]) simp
  next
    case False
    then have "rest_of p = dropWhile ignored (separator compact @ c # t @ ?T)" using Cons.prems(2,3) c(1) by simp
    from after_separator [OF this c(2)] array_rest_eq(1) show ?thesis using c(1) by fastforce
  qed
  then obtain q where q: "array_rest p a = array_rest q a" "rest_of q = value_text compact v @ ?T" by blast
  obtain p2 where p2: "value_parser q = Inr (Some v, p2)" "rest_of p2 = dropWhile ignored ?T"
    using parsedD [OF _ q(2) stops_tail(1)] Cons.prems(1) by auto
  have "array_rest q a = array_rest p2 (a @ [v])" using array_rest_eq(3) [of q c "t @ ?T" v p2 a] q(2) c p2(1) by simp
  then show ?case using Cons.IH [of "separator compact" p2 "a @ [v]"] Cons.prems(1) p2(2) q(1) by simp
qed

lemma parse_pair:
  assumes "value_ok v" "parsed compact v" "name_ok n" "stops r" "unread p = pair_text compact (JSONPair n v) @ r"
  shows "\<exists>p'. pair_parser p = Inr (Some (JSONPair n v), p') \<and> rest_of p' = dropWhile ignored r"
proof -
  let ?s = "(if compact then [58] else [32, 58, 32]) @ value_text compact v @ r"
  have p: "unread p = 34 # n @ 34 # ?s" using assms(5) by simp
  obtain p1 where p1: "parcJSONParser_ParseString p = Inr (Some n, p1)" "unread p1 = ?s"
    using ParseString_open [OF p] parse_name_text [OF assms(3), of "p\<lparr>passed := 34 # passed p, unread := n @ 34 # ?s\<rparr>" ?s "[]"] by auto
  have q: "rest_of p1 = 58 # blank compact @ value_text compact v @ r" using p1(2) by (simp add: rest_of_def blank_def ignore_def)
  obtain c t where "value_text compact v = c # t" "\<not> ignored c" using value_text_hd [OF assms(1)] by blast
  then have "rest_of (step p1) = value_text compact v @ r" using unread_step [OF q] by (simp add: rest_of_def blank_skip)
  from parsedD [OF assms(2) this assms(4)] show ?thesis using pair_parser_eq [OF p1(1) q] by blast
qed

lemma object_pairs:
  assumes "\<forall>p \<in> set ps. pair_ok p \<and> parsed compact (pair_value p)" "sep = [] \<or> sep = separator compact"
    "rest_of p = dropWhile ignored (pairs_text compact sep ps @ blank compact @ 125 # r)"
  shows "\<exists>p'. object_rest p j = Inr (Some (JSONObject (j @ ps)), p') \<and> unread p' = r"
  using assms
proof (induction ps arbitrary: sep p j)
  case Nil
  then have p: "rest_of p = 125 # r" by (simp add: blank_def ignore_def)
  then show ?case using object_rest_eq(2) [OF p] unread_step [of "parcJSONParser_SkipIgnored p" 125 r] by simp
next
  case (Cons x ps)
  let ?T = "pairs_text compact (separator compact) ps @ blank compact @ 125 # r"
  obtain n v where x: "x = JSONPair n v" by (cases x)
  obtain t where t: "pair_text compact x = 34 # t" "\<not> ignored 34" by (simp add: x ignore_def)
  have "\<exists>q. object_rest p j = object_rest q j \<and> rest_of q = pair_text compact x @ ?T"
  proof (cases "sep = []")
    case True
    then show ?thesis using Cons.prems(3) t by (intro exI [of _ p]) simp
  next
    case False
    then have "rest_of p = dropWhile ignored (separator compact @ 34 # t @ ?T)" using Cons.prems(2,3) t(1) by simp
    from after_separator [OF this t(2)] object_rest_eq(1) show ?thesis using t(1) by fastforce
  qed
  then obtain q where q: "object_rest p j = object_rest q j" "rest_of q = pair_text compact x @ ?T" by blast
  obtain p2 where p2: "pair_parser (parcJSONParser_SkipIgnored q) = Inr (Some x, p2)" "rest_of p2 = dropWhile ignored ?T"
    using parse_pair [of v compact n ?T "parcJSONParser_SkipIgnored q"] stops_tail(2) Cons.prems(1) x q(2) by auto
  have "object_rest q j = object_rest p2 (j @ [x])" using object_rest_eq(3) [of q 34 "t @ ?T" x p2 j] q(2) t(1) p2(1) by simp
  then show ?case using Cons.IH [of "separator compact" p2 "j @ [x]"] Cons.prems(1) p2(2) q(1) by simp
qed

lemma parsed_array: "\<forall>v \<in> set a. value_ok v \<and> parsed compact v \<Longrightarrow> parsed compact (JSONArray a)"
  unfolding parsed_def [of compact "JSONArray a"]
proof (intro allI impI)
  fix p r assume a: "\<forall>v \<in> set a. value_ok v \<and> parsed compact v" and "rest_of p = value_text compact (JSONArray a) @ r"
  then have p: "rest_of p = 91 # blank compact @ values_text compact [] a @ blank compact @ 93 # r" by simp
  let ?q = "parcJSONParser_SkipIgnored p"
  have q: "rest_of ?q = 91 # blank compact @ values_text compact [] a @ blank compact @ 93 # r" using p by simp
  have "rest_of (step ?q) = dropWhile ignored (values_text compact [] a @ blank compact @ 93 # r)"
    using unread_step [OF q] by (simp add: rest_of_def blank_skip)
  from array_values [OF a _ this, of "[]"] show "\<exists>p'. value_parser p = Inr (Some (JSONArray a), p') \<and> rest_of p' = dropWhile ignored r"
    using value_parser_eq [OF p] array_parser_eq [OF q] by (auto simp: Let_def rest_of_def)
qed

lemma object_parsed:
  assumes "\<forall>p \<in> set ps. pair_ok p \<and> parsed compact (pair_value p)" "rest_of p = value_text compact (JSONObject ps) @ r"
  shows "\<exists>p'. object_parser p = Inr (Some (JSONObject ps), p') \<and> unread p' = r"
proof -
  have p: "rest_of p = 123 # blank compact @ pairs_text compact [] ps @ blank compact @ 125 # r" using assms(2) by simp
  have "rest_of (step p) = dropWhile ignored (pairs_text compact [] ps @ blank compact @ 125 # r)"
    using unread_step [OF p] by (simp add: rest_of_def blank_skip)
  from object_pairs [OF assms(1) _ this, of "[]"] show ?thesis using object_parser_eq [OF p] by simp
qed

lemma parsed_object: "\<forall>p \<in> set ps. pair_ok p \<and> parsed compact (pair_value p) \<Longrightarrow> parsed compact (JSONObject ps)"
  unfolding parsed_def [of compact "JSONObject ps"]
proof (intro allI impI)
  fix p r assume a: "\<forall>p \<in> set ps. pair_ok p \<and> parsed compact (pair_value p)" and p: "rest_of p = value_text compact (JSONObject ps) @ r"
  show "\<exists>p'. value_parser p = Inr (Some (JSONObject ps), p') \<and> rest_of p' = dropWhile ignored r"
    using object_parsed [OF a, of "parcJSONParser_SkipIgnored p" r] p value_parser_eq [of p 123] by (auto simp: Let_def rest_of_def)
qed

lemma all_parsed:
  "value_ok v \<Longrightarrow> parsed compact v"
  "pair_ok p \<Longrightarrow> pair_ok p \<and> parsed compact (pair_value p)"
  "values_ok a \<Longrightarrow> \<forall>v \<in> set a. value_ok v \<and> parsed compact v"
  "pairs_ok j \<Longrightarrow> \<forall>p \<in> set j. pair_ok p \<and> parsed compact (pair_value p)"
  by (induction v and p and a and j rule: value_ok_pair_ok_values_ok_pairs_ok.induct)
    (simp_all add: parsed_simple parsed_array parsed_object)

lemma Parse_text:
  assumes "pairs_ok j" "unread p = value_text compact (JSONObject j) @ r"
  shows "parcJSON_ParseBuffer p = Inr (Some j)"
proof -
  let ?q = "parcJSONParser_SkipIgnored p"
  have p: "rest_of p = value_text compact (JSONObject j) @ r" using assms(2) by (simp add: rest_of_def ignore_def)
  have "parcJSONValue_ObjectParser (2 * left ?q + 1) ?q = object_parser ?q" by (intro enough) simp
  moreover obtain p' where "object_parser ?q = Inr (Some (JSONObject j), p')"
    using object_parsed [OF all_parsed(4) [OF assms(1)], of ?q compact r] p by auto
  moreover have "rest_of p = 123 # tl (rest_of p)" using p by simp
  ultimately show ?thesis
    using cursor(1) [of p 123 "tl (rest_of p)"] by (simp add: parcJSON_ParseBuffer_def parcJSONParser_Remaining_def parcJSONValue_GetJSON_def)
qed

section \<open>Printing and parsing\<close>


definition example_json :: parc_json where
  "example_json = [JSONPair [97] (JSONArray [JSONNumber \<lparr>num_sign = - 1, num_whole = 2, num_fraction = 5, num_fractionLog10 = 2, num_exponent = 0\<rparr>,
    JSONString [34, 10, 47], JSONBoolean True]), JSONPair [] (JSONObject [])]"


section \<open>Equality\<close>

fun strip_value :: "json_value \<Rightarrow> json_value" and strip_pair :: "json_pair \<Rightarrow> json_pair" where
  "strip_value (JSONNumber n) = JSONNumber (n\<lparr>num_fractionLog10 := 0\<rparr>)"
| "strip_value (JSONArray a) = JSONArray (map strip_value a)"
| "strip_value (JSONObject j) = JSONObject (map strip_pair j)"
| "strip_value v = v"
| "strip_pair (JSONPair n v) = JSONPair n (strip_value v)"

lemma equalsNumber_strip: "equalsNumber a b \<longleftrightarrow> a\<lparr>num_fractionLog10 := 0\<rparr> = b\<lparr>num_fractionLog10 := 0\<rparr>"
  by (cases a; cases b) (auto simp: equalsNumber_def)

lemma Equals_strip:
  "parcJSONValue_Equals v w \<longleftrightarrow> strip_value v = strip_value w"
  "parcJSONPair_Equals p q \<longleftrightarrow> strip_pair p = strip_pair q"
  "parcJSONArray_Equals a b \<longleftrightarrow> map strip_value a = map strip_value b"
  "parcJSON_Equals x y \<longleftrightarrow> map strip_pair x = map strip_pair y"
  by (induction v w and p q and a b and x y rule: parcJSONValue_Equals_parcJSONPair_Equals_parcJSONArray_Equals_parcJSON_Equals.induct)
    (auto simp: equalsNumber_strip)

text \<open>
  C13: Equality of objects of JSON is equality of their members but for one field: the number of digits of a fraction is not
  compared, so 1.5 equals 1.05. A negative integer that was added to an object is not equal to the number that
  is parsed from its text.
\<close>

theorem parcJSON_Equals_members:
  assumes i: "0 < i" "i \<le> 9223372036854775807" and n: "name_ok n"
  shows "(parcJSON_Equals x y \<longleftrightarrow> map strip_pair x = map strip_pair y) \<and>
    parcJSON_Equals [JSONPair n (JSONNumber m)] [JSONPair n (JSONNumber (m\<lparr>num_fractionLog10 := l\<rparr>))] \<and>
    (\<exists>j. parcJSON_ParseString (value_text compact (JSONObject (parcJSON_AddInteger parcJSON_Create n (- i)))) = Inr (Some j) \<and>
      \<not> parcJSON_Equals (parcJSON_AddInteger parcJSON_Create n (- i)) j)"
proof (intro conjI)
  show "parcJSON_Equals x y \<longleftrightarrow> map strip_pair x = map strip_pair y" by (rule Equals_strip)
  show "parcJSON_Equals [JSONPair n (JSONNumber m)] [JSONPair n (JSONNumber (m\<lparr>num_fractionLog10 := l\<rparr>))]"
    by (simp add: equalsNumber_def)
  let ?m = "\<lparr>num_sign = - 1, num_whole = i, num_fraction = 0, num_fractionLog10 = 0, num_exponent = 0\<rparr>"
  let ?j = "parcJSON_AddInteger parcJSON_Create n (- i)"
  have j: "?j = [JSONPair n (JSONNumber \<lparr>num_sign = 1, num_whole = - i, num_fraction = 0, num_fractionLog10 = 0, num_exponent = 0\<rparr>)]"
    by (simp add: parcJSON_AddInteger_def parcJSON_AddPair_def parcJSON_Create_def parcJSONPair_CreateFromInteger_def
        parcJSONPair_Create_def parcJSONValue_CreateFromInteger_def parcJSONValue_CreateNumber_def)
  have "pairs_ok [JSONPair n (JSONNumber ?m)]" using i n by (simp add: number_ok_def)
  moreover have "value_text compact (JSONObject ?j) = value_text compact (JSONObject [JSONPair n (JSONNumber ?m)])"
    using i by (simp add: j number_text_def signed_text_def)
  ultimately have "parcJSON_ParseString (value_text compact (JSONObject ?j)) = Inr (Some [JSONPair n (JSONNumber ?m)])"
    unfolding parcJSON_ParseString_def by (intro Parse_text [of _ _ compact "[]"]) (simp_all add: parcJSONParser_Create_def)
  moreover have "\<not> parcJSON_Equals ?j [JSONPair n (JSONNumber ?m)]" by (simp add: j equalsNumber_def)
  ultimately show "\<exists>j. parcJSON_ParseString (value_text compact (JSONObject ?j)) = Inr (Some j) \<and> \<not> parcJSON_Equals ?j j" by blast
qed

theorem parcJSON_Equals_members_witness:
  "\<exists>j. parcJSON_ParseString (value_text True (JSONObject (parcJSON_AddInteger parcJSON_Create [97] (- 5)))) = Inr (Some j) \<and>
      \<not> parcJSON_Equals (parcJSON_AddInteger parcJSON_Create [97] (- 5)) j"
  using parcJSON_Equals_members [of 5 "[97]" "[]" "[]" _ _ True] by (simp add: name_ok_def iscntrl_def)

text \<open>
  What the parser does with some texts that are not those it prints: a number with an exponent swallows the rest of the object,
  which then stops the parser in an assertion; blanks between the digits of a number are skipped; an object that is not closed stops
  it in an assertion instead of returning NULL; and the empty text is an access out of bounds.
\<close>

theorem parcJSON_ParseString_faults:
  "parcJSON_ParseString [123, 34, 97, 34, 58, 49, 101, 53, 125] = Inl AssertFailed"
  "parcJSON_ParseString [123, 34, 97, 34, 58, 49, 32, 50, 125] = Inr (Some (parcJSON_AddInteger parcJSON_Create [97] 12))"
  "parcJSON_ParseString [123, 34, 97, 34, 58, 49] = Inl AssertFailed"
  "parcJSON_ParseString [] = Inl OutOfBounds"
  by code_simp+

end
