(* ===== verification/Parc_URI.thy ===== *)
theory Parc_URI
  imports Parc_URISegment
begin

text \<open>
  \<^verbatim>\<open>parc_URIPath.c\<close> and \<^verbatim>\<open>parc_URI.c\<close>: paths, lists of segments, and URIs with their parser and printer. The array list of a path
  is the list it implements; a segment in it may be NULL, for that is what the parser appends for a malformed escape.
\<close>

section \<open>Paths\<close>

record uri_path =
  segments :: "uri_segment option list"

definition parcURIPath_Create :: uri_path where
  "parcURIPath_Create = \<lparr>segments = []\<rparr>"

definition parcURIPath_Append :: "uri_path \<Rightarrow> uri_segment option \<Rightarrow> uri_path" where
  "parcURIPath_Append path segment = path\<lparr>segments := segments path @ [segment]\<rparr>"

definition parcURIPath_Count :: "uri_path \<Rightarrow> size_t" where
  "parcURIPath_Count path = word_of_nat (length (segments path))"

definition parcURIPath_Get :: "uri_path \<Rightarrow> size_t \<Rightarrow> uri_segment option result" where
  "parcURIPath_Get path i =
    (if unat i < length (segments path) then Inr (segments path ! unat i) else Inl OutOfBounds)"

primrec trim_loop :: "nat \<Rightarrow> uri_path \<Rightarrow> uri_path" where
  "trim_loop 0 path = path"
| "trim_loop (Suc n) path = trim_loop n (path\<lparr>segments := butlast (segments path)\<rparr>)"

definition parcURIPath_Trim :: "uri_path \<Rightarrow> size_t \<Rightarrow> uri_path" where
  "parcURIPath_Trim path numberToRemove =
    (if numberToRemove \<le> parcURIPath_Count path then trim_loop (unat numberToRemove) path else path)"

lemma Segment_Parse_shorter:
  assumes "parcURISegment_Parse s = Inr (x, Some p)"
  shows "length p \<le> length s"
proof -
  obtain bs q where q: "parse_chars s [] = Some (bs, q)" "p = (if peek q \<noteq> 0 then absorb_slashes q else q)"
    using assms by (auto simp: parcURISegment_Parse_def split: option.splits)
  then show ?thesis using parse_chars_shorter [OF q(1)] absorb_shorter [of q] by (auto split: if_splits)
qed

text \<open>The loop of the parser; it goes on behind a malformed escape.\<close>

function parse_segments :: "u8 list \<Rightarrow> uri_path \<Rightarrow> (uri_path \<times> u8 list) result" where
  "parse_segments pointer result =
    (if peek pointer \<noteq> 0 \<and> peek pointer \<noteq> 63 \<and> peek pointer \<noteq> 35 then
       (case parcURISegment_Parse (tl pointer) of
          Inl e \<Rightarrow> Inl e
        | Inr (segment, p) \<Rightarrow>
            parse_segments (case p of None \<Rightarrow> tl pointer | Some p1 \<Rightarrow> p1) (parcURIPath_Append result segment))
     else Inr (result, pointer))"
  by pat_completeness auto
termination
  by (relation "measure (length \<circ> fst)")
    (auto simp: peek_def dest!: Segment_Parse_shorter split: list.splits option.splits)

declare parse_segments.simps [simp del]

text \<open>The path, or NULL, and the pointer, if it is assigned.\<close>

definition parcURIPath_Parse :: "u8 list \<Rightarrow> (uri_path option \<times> u8 list option) result" where
  "parcURIPath_Parse string =
    (if peek string \<noteq> 0 then
       if peek string \<noteq> slash then Inr (None, None)
       else rbind (parse_segments string parcURIPath_Create) (\<lambda>(result, pointer). Inr (Some result, Some pointer))
     else Inr (Some parcURIPath_Create, None))"

fun equal_segments :: "uri_segment option list \<Rightarrow> uri_segment option list \<Rightarrow> bool" where
  "equal_segments (a # as) (b # bs) = (if \<not> parcURISegment_Equals a b then False else equal_segments as bs)"
| "equal_segments _ _ = True"

definition parcURIPath_Equals :: "uri_path option \<Rightarrow> uri_path option \<Rightarrow> bool" where
  "parcURIPath_Equals pathA pathB =
    (case (pathA, pathB) of
       (None, None) \<Rightarrow> True
     | (Some a, Some b) \<Rightarrow> if parcURIPath_Count a = parcURIPath_Count b then equal_segments (segments a) (segments b) else False
     | _ \<Rightarrow> False)"

fun clone_segments :: "uri_segment option list \<Rightarrow> uri_path \<Rightarrow> uri_path result" where
  "clone_segments [] result = Inr result"
| "clone_segments (segment # rest) result =
    rbind (parcURISegment_Clone segment) (\<lambda>copy. clone_segments rest (parcURIPath_Append result (Some copy)))"

definition parcURIPath_Copy :: "uri_path option \<Rightarrow> uri_path result" where
  "parcURIPath_Copy path =
    rbind (assertTrue (path \<noteq> None)) (\<lambda>_. clone_segments (segments (the path)) parcURIPath_Create)"

text \<open>The arguments before the final NULL.\<close>

definition parcURIPath_Compose :: "uri_path option \<Rightarrow> uri_segment list \<Rightarrow> uri_path result" where
  "parcURIPath_Compose basePath varargs =
    rbind (parcURIPath_Copy basePath) (\<lambda>result. clone_segments (map Some varargs) result)"

fun starts_with :: "uri_segment option list \<Rightarrow> uri_segment option list \<Rightarrow> bool" where
  "starts_with (b # base) (p # prefix) = (if parcURISegment_Compare b p \<noteq> 0 then False else starts_with base prefix)"
| "starts_with _ _ = True"

definition parcURIPath_StartsWith :: "uri_path \<Rightarrow> uri_path \<Rightarrow> bool" where
  "parcURIPath_StartsWith base prefix =
    (if parcURIPath_Count base < parcURIPath_Count prefix then False else starts_with (segments base) (segments prefix))"

fun compare_segments :: "uri_segment option list \<Rightarrow> uri_segment option list \<Rightarrow> int" where
  "compare_segments (a # as) (b # bs) =
    (let comparison = parcURISegment_Compare a b in if comparison \<noteq> 0 then comparison else compare_segments as bs)"
| "compare_segments _ _ = 0"

definition parcURIPath_Compare :: "uri_path option \<Rightarrow> uri_path option \<Rightarrow> int" where
  "parcURIPath_Compare pathA pathB =
    (case (pathA, pathB) of
       (None, None) \<Rightarrow> 0
     | (None, Some _) \<Rightarrow> -1
     | (Some _, None) \<Rightarrow> 1
     | (Some a, Some b) \<Rightarrow>
         let countDifference = sint (parcURIPath_Count a - parcURIPath_Count b) in
         if countDifference \<noteq> 0 then (if countDifference > 0 then 1 else if countDifference < 0 then -1 else 0)
         else compare_segments (segments a) (segments b))"

text \<open>The segments and the separators between them.\<close>

fun sum_lengths :: "uri_segment option list \<Rightarrow> size_t \<Rightarrow> size_t result" where
  "sum_lengths [] result = Inr result"
| "sum_lengths (s # ss) result =
    (case s of None \<Rightarrow> Inl BadPointer
     | Some segment \<Rightarrow> sum_lengths ss (result + parcURISegment_Length segment + (if ss \<noteq> [] then 1 else 0)))"

definition parcURIPath_Length :: "uri_path \<Rightarrow> size_t result" where
  "parcURIPath_Length path = sum_lengths (segments path) 0"

fun build_segments :: "memory \<Rightarrow> ptr \<Rightarrow> uri_segment option list \<Rightarrow> memory result" where
  "build_segments h composer [] = Inr h"
| "build_segments h composer (s # ss) =
    rbind (parcURISegment_BuildString h composer s) (\<lambda>h1.
    rbind (if ss \<noteq> [] then parcBufferComposer_PutChar h1 composer slash else Inr h1) (\<lambda>h2.
    build_segments h2 composer ss))"

definition parcURIPath_BuildString :: "memory \<Rightarrow> ptr \<Rightarrow> uri_path option \<Rightarrow> memory result" where
  "parcURIPath_BuildString h composer path =
    (case path of None \<Rightarrow> Inl BadPointer | Some p \<Rightarrow> build_segments h composer (segments p))"

definition parcURIPath_ToString :: "size_t \<Rightarrow> memory \<Rightarrow> uri_path option \<Rightarrow> (u8 list option \<times> memory) result" where
  "parcURIPath_ToString lineSize h path =
    rbind (parcBufferComposer_Create lineSize h) (\<lambda>(composer, h1).
    if composer \<noteq> None then
      rbind (parcURIPath_BuildString h1 composer path) (\<lambda>h2.
      rbind (finish_string h2 composer) (\<lambda>(s, h3). Inr (Some s, h3)))
    else Inr (None, h1))"

section \<open>URIs\<close>

record parc_uri =
  scheme :: "u8 list option"
  authority :: "u8 list option"
  path :: "uri_path option"
  query :: "u8 list option"
  fragment :: "u8 list option"

definition parcURI_Create :: parc_uri where
  "parcURI_Create = \<lparr>scheme = None, authority = None, path = None, query = None, fragment = None\<rparr>"

text \<open>\<open>strcmp\<close> of strings that may be NULL, for the four parts alike.\<close>

definition parcURI_SchemeEquals :: "u8 list option \<Rightarrow> u8 list option \<Rightarrow> bool" where
  "parcURI_SchemeEquals schemeA schemeB =
    (case (schemeA, schemeB) of (None, None) \<Rightarrow> True | (Some a, Some b) \<Rightarrow> a = b | _ \<Rightarrow> False)"

definition parcURI_AuthorityEquals :: "u8 list option \<Rightarrow> u8 list option \<Rightarrow> bool" where
  "parcURI_AuthorityEquals = parcURI_SchemeEquals"

definition parcURI_QueryEquals :: "u8 list option \<Rightarrow> u8 list option \<Rightarrow> bool" where
  "parcURI_QueryEquals = parcURI_SchemeEquals"

definition parcURI_FragmentEquals :: "u8 list option \<Rightarrow> u8 list option \<Rightarrow> bool" where
  "parcURI_FragmentEquals = parcURI_SchemeEquals"

definition parcURI_Equals :: "parc_uri option \<Rightarrow> parc_uri option \<Rightarrow> bool" where
  "parcURI_Equals uriA uriB =
    (case (uriA, uriB) of
       (None, None) \<Rightarrow> True
     | (Some a, Some b) \<Rightarrow>
         if parcURI_SchemeEquals (scheme a) (scheme b) then
           if parcURI_AuthorityEquals (authority a) (authority b) then
             if parcURIPath_Equals (path a) (path b) then
               if parcURI_QueryEquals (query a) (query b) then
                 if parcURI_FragmentEquals (fragment a) (fragment b) then True else False
               else False
             else False
           else False
         else False
     | _ \<Rightarrow> False)"

text \<open>The characters of a string before the first one for which \<open>stop\<close> holds; NUL ends every string.\<close>

definition before_stop :: "(u8 \<Rightarrow> bool) \<Rightarrow> u8 list \<Rightarrow> u8 list" where
  "before_stop stop s = takeWhile (\<lambda>c. c \<noteq> 0 \<and> \<not> stop c) s"

text \<open>Each parser returns the part, or NULL, and the pointer behind it.\<close>

definition parseScheme :: "u8 list \<Rightarrow> (u8 list \<times> u8 list) option" where
  "parseScheme uri =
    (let s = before_stop (\<lambda>c. c = 58) uri; p = drop (length s) uri in
     if peek p = 0 then None else if s = [] then None else Some (s, tl p))"

definition parseAuthority :: "u8 list \<Rightarrow> u8 list option \<times> u8 list" where
  "parseAuthority string =
    (if peek string = slash \<and> peek (tl string) = slash then
       let rest = tl (tl string); s = before_stop (\<lambda>c. c = slash) rest in (Some s, drop (length s) rest)
     else (None, string))"

definition parseQuery :: "u8 list \<Rightarrow> u8 list option \<times> u8 list" where
  "parseQuery string =
    (if peek string \<noteq> 63 then (None, string)
     else let s = before_stop (\<lambda>c. c = 35) (tl string) in (Some s, drop (length s) (tl string)))"

definition parseFragment :: "u8 list \<Rightarrow> u8 list option \<times> u8 list" where
  "parseFragment string =
    (if peek string \<noteq> 35 then (None, string)
     else let s = before_stop (\<lambda>c. False) (tl string) in (Some s, drop (length s) (tl string)))"

definition parcURI_Parse :: "u8 list \<Rightarrow> parc_uri option result" where
  "parcURI_Parse string =
    (case parseScheme string of
       None \<Rightarrow> Inr None
     | Some (s, p1) \<Rightarrow>
         let (a, p2) = parseAuthority p1 in
         rbind (parcURIPath_Parse p2) (\<lambda>(pa, p).
         let p3 = (case p of None \<Rightarrow> p2 | Some p \<Rightarrow> p); (q, p4) = parseQuery p3; (f, p5) = parseFragment p4 in
         Inr (Some \<lparr>scheme = Some s, authority = a, path = pa, query = q, fragment = f\<rparr>)))"

definition parcURI_SetScheme :: "parc_uri \<Rightarrow> u8 list option \<Rightarrow> parc_uri" where
  "parcURI_SetScheme uri s = uri\<lparr>scheme := s\<rparr>"

definition parcURI_SetAuthority :: "parc_uri \<Rightarrow> u8 list option \<Rightarrow> parc_uri" where
  "parcURI_SetAuthority uri s = uri\<lparr>authority := s\<rparr>"

definition parcURI_SetQuery :: "parc_uri \<Rightarrow> u8 list option \<Rightarrow> parc_uri" where
  "parcURI_SetQuery uri s = uri\<lparr>query := s\<rparr>"

definition parcURI_SetFragment :: "parc_uri \<Rightarrow> u8 list option \<Rightarrow> parc_uri" where
  "parcURI_SetFragment uri s = uri\<lparr>fragment := s\<rparr>"

definition parcURI_Copy :: "parc_uri \<Rightarrow> parc_uri result" where
  "parcURI_Copy uri =
    (let result = parcURI_SetAuthority (parcURI_SetScheme parcURI_Create (scheme uri)) (authority uri) in
     rbind (parcURIPath_Copy (path uri)) (\<lambda>p.
     Inr (parcURI_SetFragment (parcURI_SetQuery (result\<lparr>path := Some p\<rparr>) (query uri)) (fragment uri))))"

text \<open>A NULL string ends the arguments of \<open>parcBufferComposer_PutStrings\<close>.\<close>

definition put_two :: "memory \<Rightarrow> ptr \<Rightarrow> u8 list option \<Rightarrow> u8 list option \<Rightarrow> memory result" where
  "put_two h composer x y =
    parcBufferComposer_PutStrings h composer (case x of None \<Rightarrow> [] | Some s \<Rightarrow> s # (case y of None \<Rightarrow> [] | Some t \<Rightarrow> [t]))"

definition parcURI_BuildString :: "memory \<Rightarrow> ptr \<Rightarrow> parc_uri \<Rightarrow> memory result" where
  "parcURI_BuildString h composer uri =
    rbind (put_two h composer (scheme uri) (Some [58])) (\<lambda>h1.
    rbind (case authority uri of None \<Rightarrow> Inr h1
           | Some a \<Rightarrow> rbind (parcBufferComposer_PutString h1 composer [slash, slash]) (\<lambda>h.
               parcBufferComposer_PutString h composer a)) (\<lambda>h2.
    rbind (parcBufferComposer_PutString h2 composer [slash]) (\<lambda>h3.
    rbind (parcURIPath_BuildString h3 composer (path uri)) (\<lambda>h4.
    rbind (case query uri of None \<Rightarrow> Inr h4 | Some q \<Rightarrow> put_two h4 composer (Some [63]) (Some q)) (\<lambda>h5.
    case fragment uri of None \<Rightarrow> Inr h5 | Some f \<Rightarrow> put_two h5 composer (Some [35]) (Some f))))))"

definition parcURI_ToString :: "size_t \<Rightarrow> memory \<Rightarrow> parc_uri \<Rightarrow> (u8 list option \<times> memory) result" where
  "parcURI_ToString lineSize h uri =
    rbind (parcBufferComposer_Create lineSize h) (\<lambda>(composer, h1).
    if composer \<noteq> None then
      rbind (parcURI_BuildString h1 composer uri) (\<lambda>h2.
      rbind (finish_string h2 composer) (\<lambda>(s, h3). Inr (Some s, h3)))
    else Inr (None, h1))"

section \<open>Printing\<close>

fun path_text :: "u8 list list \<Rightarrow> u8 list" where
  "path_text [] = []"
| "path_text (b # bs) = segment_text b @ (if bs \<noteq> [] then slash # path_text bs else [])"

definition part :: "u8 list \<Rightarrow> u8 list option \<Rightarrow> u8 list" where
  "part m s = (case s of None \<Rightarrow> [] | Some t \<Rightarrow> m @ t)"

text \<open>A URI with all parts but those that may be missing, and its text.\<close>

definition uri_of :: "u8 list \<Rightarrow> u8 list option \<Rightarrow> u8 list list \<Rightarrow> u8 list option \<Rightarrow> u8 list option \<Rightarrow> parc_uri" where
  "uri_of s a bs q f = \<lparr>scheme = Some s, authority = a, path = Some \<lparr>segments = map (Some \<circ> parcURISegment_Create) bs\<rparr>, query = q, fragment = f\<rparr>"

definition uri_text :: "u8 list \<Rightarrow> u8 list option \<Rightarrow> u8 list list \<Rightarrow> u8 list option \<Rightarrow> u8 list option \<Rightarrow> u8 list" where
  "uri_text s a bs q f = s @ [58] @ part [slash, slash] a @ [slash] @ path_text bs @ part [63] q @ part [35] f"

lemma segment_buffer_Create [simp]: "segment_buffer (parcURISegment_Create b) = b"
  by (simp add: parcURISegment_Create_def parcURISegment_CreateFromBuffer_def)

lemma build_segments_appends:
  "composer_text.appends k (\<lambda>h. build_segments h (Some k) (map (Some \<circ> parcURISegment_Create) bs)) (path_text bs)"
proof (induction bs)
  case Nil
  then show ?case using composer_appends(3) by simp
next
  case (Cons b bs)
  have sep: "composer_text.appends k (\<lambda>h. if map (Some \<circ> parcURISegment_Create) bs \<noteq> [] then parcBufferComposer_PutChar h (Some k) slash
      else Inr h) (if bs \<noteq> [] then [slash] else [])"
    using composer_appends(1) [of k slash] composer_appends(3) [of k] by simp
  show ?case
    using composer_text.appends_then [OF BuildString_appends [of k "parcURISegment_Create b"] composer_text.appends_then [OF sep Cons.IH]]
    by (cases "bs = []") simp_all
qed

lemma put_two_appends: "composer_text.appends k (\<lambda>h. put_two h (Some k) (Some s) (Some t)) (s @ t)"
proof -
  have "parcBufferComposer_PutStrings h (Some k) [t] = parcBufferComposer_PutString h (Some k) t" for h
    by (cases "parcBufferComposer_PutString h (Some k) t") simp_all
  then show ?thesis
    using composer_text.appends_then [OF composer_appends(2) [of k s] composer_appends(2) [of k t]] by (simp add: put_two_def)
qed

lemma uri_BuildString_appends:
  "composer_text.appends k (\<lambda>h. parcURI_BuildString h (Some k) (uri_of s a bs q f)) (uri_text s a bs q f)"
proof -
  note andthen = composer_text.appends_then [of k]
  have A: "composer_text.appends k (\<lambda>h1. case a of None \<Rightarrow> Inr h1
      | Some a \<Rightarrow> rbind (parcBufferComposer_PutString h1 (Some k) [slash, slash]) (\<lambda>h. parcBufferComposer_PutString h (Some k) a))
      (part [slash, slash] a)"
    using composer_appends(3) [of k] andthen [OF composer_appends(2) [of k "[slash, slash]"] composer_appends(2) [of k "the a"]]
    by (cases a) (simp_all add: part_def)
  have Q: "composer_text.appends k (\<lambda>h. case q of None \<Rightarrow> Inr h | Some q \<Rightarrow> put_two h (Some k) (Some [m]) (Some q)) (part [m] q)" for q m
    using composer_appends(3) put_two_appends [of k "[m]"] by (cases q) (simp_all add: part_def)
  have S: "composer_text.appends k (\<lambda>h. put_two h (Some k) (Some s) (Some [58])) (s @ [58])" by (rule put_two_appends)
  have P: "composer_text.appends k (\<lambda>h. parcURIPath_BuildString h (Some k) (path (uri_of s a bs q f))) (path_text bs)"
    using build_segments_appends [of k bs] by (simp add: parcURIPath_BuildString_def uri_of_def)
  from andthen [OF S andthen [OF A andthen [OF composer_appends(2) [of k "[slash]"] andthen [OF P andthen [OF Q [of 63 q] Q [of 35 f]]]]]]
  show ?thesis by (simp add: parcURI_BuildString_def uri_of_def uri_text_def)
qed

section \<open>Parsing what was printed\<close>

lemma escaped_head: "\<exists>c r. escaped b = c # r \<and> \<not> ends_segment c"
proof (cases "uriPlainSegmentChar b")
  case True
  then show ?thesis using plain_char by (simp add: escaped_def)
qed (simp add: escaped_def ends_segment_def)

lemma peek_segment_text: "b \<noteq> [] \<Longrightarrow> peek (segment_text b @ r) \<noteq> slash"
  using escaped_head [of "hd b"] by (cases b) (auto simp: ends_segment_def)

lemma absorb_none: "peek (tl p) \<noteq> slash \<Longrightarrow> absorb_slashes p = p"
  by (induction p rule: absorb_slashes.induct) auto

lemma Parse_segment_text:
  assumes "ends_segment (peek r)" "peek (tl r) \<noteq> slash" "b = [] \<longrightarrow> peek r \<noteq> slash"
  shows "parcURISegment_Parse (segment_text b @ r) = Inr (Some (parcURISegment_Create b), Some r)"
proof -
  have "peek (segment_text b @ r) \<noteq> slash" using assms(3) peek_segment_text [of b r] by (cases "b = []") simp_all
  then show ?thesis using parse_segment_text [OF assms(1), of b "[]"] absorb_none [OF assms(2)] by (simp add: parcURISegment_Parse_def)
qed

text \<open>What follows a path: its end, or a query or a fragment that does not begin with a slash.\<close>

definition path_end :: "u8 list \<Rightarrow> bool" where
  "path_end r \<longleftrightarrow> (r = [] \<or> peek r = 63 \<or> peek r = 35) \<and> peek (tl r) \<noteq> slash"

lemma parse_path_text:
  assumes "bs \<noteq> []" "\<forall>b \<in> set (butlast bs). b \<noteq> []" "path_end r"
  shows "parse_segments (slash # path_text bs @ r) p =
    Inr (p\<lparr>segments := segments p @ map (Some \<circ> parcURISegment_Create) bs\<rparr>, r)"
  using assms(1,2)
proof (induction bs arbitrary: p)
  case (Cons b bs)
  have e: "ends_segment (peek r)" "peek (tl r) \<noteq> slash" "peek r \<noteq> slash" using assms(3) by (auto simp: path_end_def ends_segment_def)
  have stop: "parse_segments r q = Inr (q, r)" for q
    using assms(3) by (subst parse_segments.simps) (auto simp: path_end_def)
  show ?case
  proof (cases "bs = []")
    case True
    then show ?thesis
      using Parse_segment_text [OF e(1,2), of b] e(3) stop
      by (subst parse_segments.simps) (simp add: parcURIPath_Append_def)
  next
    case False
    have nb: "b \<noteq> []" "\<forall>b \<in> set (butlast bs). b \<noteq> []" using Cons.prems(2) False by simp_all
    have "peek (path_text bs @ r) \<noteq> slash"
    proof (cases "hd bs = []")
      case True
      then have "bs = [[]]" using False nb(2) by (cases bs; cases "tl bs") auto
      then show ?thesis using e(3) by simp
    next
      case hd: False
      then show ?thesis using False peek_segment_text [OF hd] by (cases bs) simp_all
    qed
    then have "parcURISegment_Parse (segment_text b @ slash # path_text bs @ r) = Inr (Some (parcURISegment_Create b), Some (slash # path_text bs @ r))"
      using Parse_segment_text [of "slash # path_text bs @ r" b] nb(1) by (simp add: ends_segment_def)
    then show ?thesis
      using Cons.IH [OF False nb(2)] False
      by (subst parse_segments.simps) (simp add: parcURIPath_Append_def)
  qed
qed simp

lemma before_stop_all:
  assumes "0 \<notin> set s" "\<forall>c \<in> set s. \<not> stop c" "r = [] \<or> peek r = 0 \<or> stop (peek r)"
  shows "before_stop stop (s @ r) = s"
proof -
  have "takeWhile (\<lambda>c. c \<noteq> 0 \<and> \<not> stop c) r = []" using assms(3) by (cases r) auto
  moreover have "\<forall>c \<in> set s. c \<noteq> 0 \<and> \<not> stop c" using assms(1,2) by metis
  ultimately show ?thesis by (simp add: before_stop_def takeWhile_append)
qed

text \<open>The texts the parts may have.\<close>

definition uri_parts :: "u8 list \<Rightarrow> u8 list option \<Rightarrow> u8 list list \<Rightarrow> u8 list option \<Rightarrow> u8 list option \<Rightarrow> bool" where
  "uri_parts s a bs q f \<longleftrightarrow> s \<noteq> [] \<and> 58 \<notin> set s \<and> 0 \<notin> set s \<and> bs \<noteq> [] \<and> (\<forall>b \<in> set (butlast bs). b \<noteq> []) \<and>
    (case a of None \<Rightarrow> True | Some t \<Rightarrow> slash \<notin> set t \<and> 0 \<notin> set t) \<and>
    (case q of None \<Rightarrow> True | Some t \<Rightarrow> 35 \<notin> set t \<and> 0 \<notin> set t \<and> peek t \<noteq> slash) \<and>
    (case f of None \<Rightarrow> True | Some t \<Rightarrow> 0 \<notin> set t \<and> (q = None \<longrightarrow> peek t \<noteq> slash))"

lemma Parse_uri_text:
  assumes "uri_parts s a bs q f"
  shows "parcURI_Parse (uri_text s a bs q f) = Inr (Some (uri_of s a bs q f))"
proof -
  let ?F = "part [35] f" and ?Q = "part [63] q @ part [35] f" and ?P = "slash # path_text bs @ part [63] q @ part [35] f"
  let ?A = "part [slash, slash] a @ ?P"
  have u: "s \<noteq> []" "58 \<notin> set s" "0 \<notin> set s" "bs \<noteq> []" "\<forall>b \<in> set (butlast bs). b \<noteq> []"
    "a = Some t \<Longrightarrow> slash \<notin> set t \<and> 0 \<notin> set t" "q = Some t \<Longrightarrow> 35 \<notin> set t \<and> 0 \<notin> set t \<and> peek t \<noteq> slash"
    "f = Some t \<Longrightarrow> 0 \<notin> set t" "f = Some t \<Longrightarrow> q = None \<Longrightarrow> peek t \<noteq> slash" for t
    using assms by (auto simp: uri_parts_def)
  have "before_stop (\<lambda>c. c = 58) (s @ 58 # ?A) = s" using u(1-3) by (intro before_stop_all) auto
  then have S: "parseScheme (uri_text s a bs q f) = Some (s, ?A)" using u(1) by (simp add: parseScheme_def uri_text_def Let_def)
  have pe: "path_end ?Q"
  proof (cases q)
    case None
    then show ?thesis using u(9) by (cases f) (auto simp: path_end_def part_def)
  next
    case (Some t)
    then show ?thesis using u(7) [of t] by (cases t; cases f) (auto simp: path_end_def part_def)
  qed
  have no: "peek (path_text bs @ ?Q) \<noteq> slash"
  proof (cases "hd bs = []")
    case True
    then have "bs = [[]]" using u(4,5) by (cases bs; cases "tl bs") auto
    then show ?thesis using pe by (auto simp: path_end_def)
  next
    case False
    then show ?thesis using u(4) peek_segment_text [OF False] by (cases bs) simp_all
  qed
  have A: "parseAuthority ?A = (a, ?P)"
  proof (cases a)
    case None
    then show ?thesis using no by (simp add: parseAuthority_def part_def)
  next
    case (Some t)
    then have "before_stop (\<lambda>c. c = slash) (t @ ?P) = t" using u(6) [OF Some] by (intro before_stop_all) auto
    then show ?thesis using Some by (simp add: parseAuthority_def part_def Let_def)
  qed
  have P: "parcURIPath_Parse ?P = Inr (Some \<lparr>segments = map (Some \<circ> parcURISegment_Create) bs\<rparr>, Some ?Q)"
    using parse_path_text [OF u(4,5) pe] by (simp add: parcURIPath_Parse_def parcURIPath_Create_def)
  have Q: "parseQuery ?Q = (q, ?F)"
  proof (cases q)
    case None
    then show ?thesis by (cases f) (simp_all add: parseQuery_def part_def)
  next
    case (Some t)
    then have "before_stop (\<lambda>c. c = 35) (t @ ?F) = t" using u(7) [OF Some] by (intro before_stop_all) (auto simp: part_def split: option.split)
    then show ?thesis using Some by (simp add: parseQuery_def part_def Let_def)
  qed
  have F: "parseFragment ?F = (f, [])"
  proof (cases f)
    case (Some t)
    then have "before_stop (\<lambda>c. False) (t @ []) = t" using u(8) [OF Some] by (intro before_stop_all) auto
    then show ?thesis using Some by (simp add: parseFragment_def part_def Let_def)
  qed (simp add: parseFragment_def part_def)
  show ?thesis by (simp add: parcURI_Parse_def S A P Q F uri_of_def)
qed

section \<open>Equality, prefixes and order\<close>

lemma Segment_Equals_iff: "parcURISegment_Equals a b \<longleftrightarrow> a = b"
  by (auto simp: parcURISegment_Equals_def split: option.split)

lemma equal_segments_iff: "length as = length bs \<Longrightarrow> equal_segments as bs \<longleftrightarrow> as = bs"
  by (induction as bs rule: equal_segments.induct) (auto simp: Segment_Equals_iff)

lemma count_eq:
  assumes "m < 2 ^ 64" "n < 2 ^ 64"
  shows "(word_of_nat m :: size_t) = word_of_nat n \<longleftrightarrow> m = n" "(word_of_nat m :: size_t) < word_of_nat n \<longleftrightarrow> m < n"
proof -
  have u: "unat (word_of_nat m :: size_t) = m" "unat (word_of_nat n :: size_t) = n" using assms by (simp_all add: unat_of_nat)
  show "(word_of_nat m :: size_t) < word_of_nat n \<longleftrightarrow> m < n" by (simp add: word_less_nat_alt u)
  show "(word_of_nat m :: size_t) = word_of_nat n \<longleftrightarrow> m = n" by (simp add: word_unat_eq_iff u)
qed

lemma Compare_zero_iff:
  assumes "\<forall>x. a = Some x \<longrightarrow> length (segment_buffer x) < 2 ^ 64" "\<forall>x. b = Some x \<longrightarrow> length (segment_buffer x) < 2 ^ 64"
  shows "parcURISegment_Compare a b = 0 \<longleftrightarrow> a = b"
proof -
  have "lex_compare xs ys = 0 \<longleftrightarrow> xs = ys" for xs ys by (induction xs ys rule: lex_compare.induct) auto
  then show ?thesis
    using assms by (auto simp: parcURISegment_Compare_def parcURISegment_Length_def split: option.splits)
qed

interpretation segment_order: comparison parcURISegment_Compare
proof
  fix x y z :: "uri_segment option"
  show "parcURISegment_Compare x y < 0 \<longleftrightarrow> 0 < parcURISegment_Compare y x"
    using bytes.swap_sign [of "segment_buffer (the x)" "segment_buffer (the y)"]
    by (cases x; cases y) (auto simp: parcURISegment_Compare_def)
  assume xy: "parcURISegment_Compare x y \<le> 0" "parcURISegment_Compare y z \<le> 0"
  show "parcURISegment_Compare x z \<le> 0"
  proof (cases "x = None \<or> y = None \<or> z = None")
    case True
    then show ?thesis using xy by (auto simp: parcURISegment_Compare_def split: option.splits)
  next
    case False
    then obtain a b c where v: "x = Some a" "y = Some b" "z = Some c" by auto
    let ?l = parcURISegment_Length and ?L = "\<lambda>a b. lex_compare (segment_buffer a) (segment_buffer b)"
    have le: "parcURISegment_Compare (Some a) (Some b) \<le> 0 \<longleftrightarrow> ?l a < ?l b \<or> ?l a = ?l b \<and> ?L a b \<le> 0" for a b
      by (auto simp: parcURISegment_Compare_def)
    from xy have "?l a < ?l b \<or> ?l a = ?l b \<and> ?L a b \<le> 0" "?l b < ?l c \<or> ?l b = ?l c \<and> ?L b c \<le> 0" unfolding v le .
    then have "?l a < ?l c \<or> ?l a = ?l c \<and> ?L a c \<le> 0"
      using lex_compare_trans [of "segment_buffer a" "segment_buffer b" "segment_buffer c"] by (auto intro: less_trans)
    then show ?thesis unfolding v le .
  qed
qed

lemma starts_with_iff:
  assumes "\<forall>s \<in> set base \<union> set prefix. \<forall>x. s = Some x \<longrightarrow> length (segment_buffer x) < 2 ^ 64" "length prefix \<le> length base"
  shows "starts_with base prefix \<longleftrightarrow> take (length prefix) base = prefix"
  using assms
proof (induction base prefix rule: starts_with.induct)
  case (1 b base p prefix)
  then show ?case using Compare_zero_iff [of b p] by auto
qed auto

section \<open>Properties\<close>





lemma clone_segments_all:
  "None \<notin> set ss \<Longrightarrow> clone_segments ss p = Inr (p\<lparr>segments := segments p @ ss\<rparr>)"
proof (induction ss arbitrary: p)
  case (Cons s ss)
  then obtain x where "s = Some x" by (cases s) auto
  then show ?case
    using Cons by (auto simp: parcURISegment_Clone_def parcURISegment_CreateFromBuffer_def parcURIPath_Append_def)
qed simp

lemma trim_loop_take: "n \<le> length (segments p) \<Longrightarrow> trim_loop n p = p\<lparr>segments := take (length (segments p) - n) (segments p)\<rparr>"
proof (induction n arbitrary: p)
  case (Suc n)
  have "trim_loop (Suc n) p = trim_loop n (p\<lparr>segments := butlast (segments p)\<rparr>)" by simp
  also have "\<dots> = p\<lparr>segments := take (length (segments p) - 1 - n) (butlast (segments p))\<rparr>" using Suc by simp
  also have "take (length (segments p) - 1 - n) (butlast (segments p)) = take (length (segments p) - Suc n) (segments p)"
    using Suc.prems by (simp add: butlast_conv_take min_def)
  finally show ?case .
qed simp



end
