(* ===== verification/Parc_URIAuthority.thy ===== *)
theory Parc_URIAuthority
  imports Parc_URI
begin

text \<open>
  \<^verbatim>\<open>parc_URIAuthority.c\<close>: the parts of an authority, \<open>user@host:port\<close>, where the host may be an address in brackets. Strings are
  lists of characters without the final NUL, positions in them numbers.
\<close>

section \<open>The functions of the C library\<close>

text \<open>\<open>strchr\<close> and \<open>strrchr\<close> for a character other than NUL.\<close>

fun strchr :: "u8 list \<Rightarrow> u8 \<Rightarrow> nat option" where
  "strchr [] c = None"
| "strchr (d # s) c = (if d = c then Some 0 else map_option Suc (strchr s c))"

fun strrchr :: "u8 list \<Rightarrow> u8 \<Rightarrow> nat option" where
  "strrchr [] c = None"
| "strrchr (d # s) c = (case strrchr s c of Some i \<Rightarrow> Some (Suc i) | None \<Rightarrow> if d = c then Some 0 else None)"

text \<open>\<open>strtol\<close> in base 10: white space, a sign and digits, with the result in the range of \<open>long\<close>.\<close>

definition is_space :: "u8 \<Rightarrow> bool" where
  "is_space c \<longleftrightarrow> c = 32 \<or> 9 \<le> c \<and> c \<le> 13"

definition is_digit :: "u8 \<Rightarrow> bool" where
  "is_digit c \<longleftrightarrow> 48 \<le> c \<and> c \<le> 57"

definition strtol :: "u8 list \<Rightarrow> int" where
  "strtol s =
    (let s = dropWhile is_space s;
         negative = (peek s = 45);
         s = (if peek s = 45 \<or> peek s = 43 then tl s else s);
         v = int (decimal_value (takeWhile is_digit s))
     in max (- 9223372036854775808) (min 9223372036854775807 (if negative then - v else v)))"

section \<open>Authorities\<close>

text \<open>The port is a \<open>long\<close>, but what is parsed is converted to \<open>short\<close>.\<close>

record uri_authority =
  userinfo :: "u8 list option"
  hostName :: "u8 list option"
  port :: int

definition parcURIAuthority_Create :: uri_authority where
  "parcURIAuthority_Create = \<lparr>userinfo = None, hostName = None, port = 0\<rparr>"

definition short_of :: "int \<Rightarrow> int" where
  "short_of i = sint (word_of_int i :: u16)"

text \<open>When there is no colon, the difference of the pointers is taken as not positive.\<close>

definition parcURIAuthority_Parse :: "u8 list \<Rightarrow> uri_authority" where
  "parcURIAuthority_Parse string =
    (let result = parcURIAuthority_Create;
         (result, s) = (case strchr string 64 of
             Some i \<Rightarrow> (result\<lparr>userinfo := Some (take i string)\<rparr>, drop (Suc i) string)
           | None \<Rightarrow> (result, string));
         lastColon = strrchr s 58
     in case strrchr s 93 of
          Some b \<Rightarrow>
            let result = result\<lparr>hostName := Some (take (b + 1) s)\<rparr> in
            (case lastColon of
               Some c \<Rightarrow> if c > b then result\<lparr>port := short_of (strtol (drop (Suc c) s))\<rparr> else result
             | None \<Rightarrow> result)
        | None \<Rightarrow>
            (case lastColon of
               Some c \<Rightarrow> result\<lparr>hostName := Some (take c s), port := short_of (strtol (drop (Suc c) s))\<rparr>
             | None \<Rightarrow> result\<lparr>hostName := Some s\<rparr>))"

text \<open>\<open>strcmp\<close> reads through its arguments, so a NULL string is an access through a bad pointer.\<close>

definition same_string :: "u8 list option \<Rightarrow> u8 list option \<Rightarrow> bool result" where
  "same_string x y = (case (x, y) of (Some a, Some b) \<Rightarrow> Inr (a = b) | _ \<Rightarrow> Inl BadPointer)"

text \<open>\<open>same\<close>: both arguments are the same pointer.\<close>

definition parcURIAuthority_Equals :: "bool \<Rightarrow> uri_authority option \<Rightarrow> uri_authority option \<Rightarrow> bool result" where
  "parcURIAuthority_Equals same authA authB =
    (if same then Inr True
     else case (authA, authB) of
       (Some a, Some b) \<Rightarrow>
         rbind (same_string (hostName a) (hostName b)) (\<lambda>h.
         if h then
           rbind (same_string (userinfo a) (userinfo b)) (\<lambda>u.
           Inr (u \<and> port a = port b))
         else Inr False)
     | _ \<Rightarrow> Inr False)"

section \<open>The parts of a text\<close>

lemma strchr_None: "c \<notin> set s \<Longrightarrow> strchr s c = None"
  by (induction s) auto

lemma strchr_append: "c \<notin> set s \<Longrightarrow> strchr (s @ c # t) c = Some (length s)"
  by (induction s) auto

lemma strrchr_None: "c \<notin> set s \<Longrightarrow> strrchr s c = None"
  by (induction s) auto

lemma strrchr_append: "c \<notin> set t \<Longrightarrow> strrchr (s @ c # t) c = Some (length s)"
  by (induction s) (auto simp: strrchr_None)

lemma decimal_set: "c \<notin> set (decimal n)" if "\<not> is_digit c"
  using that decimal_digits [of n] by (auto simp: is_digit_def)

lemma strtol_decimal:
  assumes "n \<le> 9223372036854775807"
  shows "strtol (decimal n) = int n"
proof -
  have d: "is_digit c" if "c \<in> set (decimal n)" for c using that decimal_digits [of n] by (auto simp: is_digit_def)
  obtain c cs where c: "decimal n = c # cs" by (cases "decimal n") auto
  have "is_digit c" using d c by simp
  then have "\<not> is_space c" "c \<noteq> 45" "c \<noteq> 43" by (auto simp: is_digit_def is_space_def word_le_nat_alt)
  moreover have "takeWhile is_digit (decimal n) = decimal n" using d by (simp add: takeWhile_eq_all_conv)
  ultimately show ?thesis using assms decimal_value_decimal [of n] by (simp add: strtol_def c Let_def)
qed

definition user_part :: "u8 list option \<Rightarrow> u8 list" where
  "user_part u = (case u of None \<Rightarrow> [] | Some s \<Rightarrow> s @ [64])"

definition port_part :: "nat option \<Rightarrow> u8 list" where
  "port_part p = (case p of None \<Rightarrow> [] | Some n \<Rightarrow> 58 # decimal n)"

text \<open>
  C17: The parser splits \<open>user@host:port\<close> into its parts, with or without user and port, for a host without colon and bracket and
  for an address in brackets, with colons in it; but a port from 32768 on is taken modulo 65536 as a negative number, and
  an authority without user cannot be compared with another one with the same host: a NULL string is read.
\<close>

theorem parcURIAuthority_Parse_parts:
  assumes u: "\<forall>s. u = Some s \<longrightarrow> 64 \<notin> set s" and h: "64 \<notin> set h"
    and host: "58 \<notin> set h \<and> 93 \<notin> set h \<or> (\<exists>x. h = 91 # x @ [93] \<and> 93 \<notin> set x)"
    and p: "\<forall>n. p = Some n \<longrightarrow> n \<le> 9223372036854775807"
  defines "a \<equiv> parcURIAuthority_Parse (user_part u @ h @ port_part p)"
  shows "a = \<lparr>userinfo = u, hostName = Some h, port = (case p of None \<Rightarrow> 0 | Some n \<Rightarrow> short_of (int n))\<rparr> \<and>
    (\<forall>n < 32768. short_of (int n) = int n) \<and> (\<forall>n. 32768 \<le> n \<and> n < 65536 \<longrightarrow> short_of (int n) = int n - 65536) \<and>
    (u = None \<longrightarrow> (\<forall>b. hostName b = Some h \<longrightarrow> parcURIAuthority_Equals False (Some a) (Some b) = Inl BadPointer))"
proof -
  have pd: "c \<notin> set (port_part p)" if "\<not> is_digit c" "c \<noteq> 58" for c
    using that decimal_set by (cases p) (auto simp: port_part_def)
  have nd: "\<not> is_digit 64" "\<not> is_digit 93" "\<not> is_digit 58" by (simp_all add: is_digit_def)
  have hp: "64 \<notin> set (h @ port_part p)" using h pd [of 64] nd by simp
  have user: "(case strchr (user_part u @ h @ port_part p) 64 of
      Some i \<Rightarrow> (parcURIAuthority_Create\<lparr>userinfo := Some (take i (user_part u @ h @ port_part p))\<rparr>, drop (Suc i) (user_part u @ h @ port_part p))
    | None \<Rightarrow> (parcURIAuthority_Create, user_part u @ h @ port_part p)) = (parcURIAuthority_Create\<lparr>userinfo := u\<rparr>, h @ port_part p)"
    using u hp strchr_append [of 64 "the u" "h @ port_part p"] strchr_None [OF hp]
    by (cases u) (auto simp: user_part_def parcURIAuthority_Create_def)
  have colon: "strrchr (h @ port_part p) 58 = (case p of Some n \<Rightarrow> Some (length h) | None \<Rightarrow> strrchr h 58)"
    using strrchr_append [of 58 "decimal (the p)" h] decimal_set [OF nd(3)] by (cases p) (simp_all add: port_part_def)
  note split = a_def parcURIAuthority_Parse_def Let_def user prod.case
  have num: "p = Some n \<Longrightarrow> strtol (decimal n) = int n" for n using p strtol_decimal by blast
  have fields: "a = \<lparr>userinfo = u, hostName = Some h, port = (case p of None \<Rightarrow> 0 | Some n \<Rightarrow> short_of (int n))\<rparr>"
    using host
  proof
    assume n: "58 \<notin> set h \<and> 93 \<notin> set h"
    then have "strrchr (h @ port_part p) 93 = None" using pd [of 93] nd by (intro strrchr_None) simp
    then show ?thesis
      unfolding split using n num colon strrchr_None [of 58 h]
      by (cases p) (simp_all add: port_part_def parcURIAuthority_Create_def)
  next
    assume "\<exists>x. h = 91 # x @ [93] \<and> 93 \<notin> set x"
    then obtain x where x: "h = 91 # x @ [93]" "93 \<notin> set x" by blast
    have b: "strrchr (h @ port_part p) 93 = Some (length h - 1)"
      using strrchr_append [of 93 "port_part p" "91 # x"] pd [of 93] nd x(1) by simp
    have "strrchr h 58 = Some c \<Longrightarrow> c < length h" for c
    proof -
      have "strrchr s 58 = Some c \<Longrightarrow> c < length s" for s c by (induction s arbitrary: c) (auto split: option.splits if_splits)
      then show "strrchr h 58 = Some c \<Longrightarrow> c < length h" .
    qed
    then show ?thesis
      unfolding split using num colon b x(1)
      by (cases p) (auto simp: port_part_def parcURIAuthority_Create_def split: option.split)
  qed
  have small: "short_of (int n) = int n" if "n < 32768" for n
    unfolding short_of_def sint_sbintrunc' using that by (intro signed_take_bit_int_eq_self) simp_all
  have big: "short_of (int n) = int n - 65536" if "32768 \<le> n" "n < 65536" for n
  proof -
    have "(word_of_int (int n) :: u16) = word_of_int (int n - 65536)" by (simp add: word_of_int_eq_iff take_bit_eq_mod)
    then have "short_of (int n) = sint (word_of_int (int n - 65536) :: u16)" by (simp only: short_of_def)
    also have "\<dots> = int n - 65536" unfolding sint_sbintrunc' using that by (intro signed_take_bit_int_eq_self) simp_all
    finally show ?thesis .
  qed
  have same: "parcURIAuthority_Equals False (Some a) (Some b) = Inl BadPointer" if "u = None" "hostName b = Some h" for b
    using that fields by (simp add: parcURIAuthority_Equals_def same_string_def)
  show ?thesis by (intro conjI allI impI fields) (simp_all add: small big same)
qed

theorem parcURIAuthority_Parse_parts_witness:
  "parcURIAuthority_Parse (user_part None @ [91, 58, 58, 49, 93] @ port_part (Some 40000)) =
    \<lparr>userinfo = None, hostName = Some [91, 58, 58, 49, 93], port = - 25536\<rparr>"
proof -
  have "(58 :: u8) \<notin> set [91, 58, 58, 49, 93] \<and> 93 \<notin> set [91, 58, 58, 49, 93 :: u8] \<or> (\<exists>x. [91, 58, 58, 49, 93 :: u8] = 91 # x @ [93] \<and> 93 \<notin> set x)"
    by (intro disjI2 exI [of _ "[58, 58, 49]"]) simp
  from parcURIAuthority_Parse_parts [of None "[91, 58, 58, 49, 93]" "Some 40000", OF _ _ this]
  show ?thesis by (simp add: short_of_def)
qed

end
