(* ===== verification/Parc_PathName.thy ===== *)
theory Parc_PathName
  imports Parc_JSONRoundtrip Parc_URIAuthority
begin

text \<open>
  \<^verbatim>\<open>parc_PathName.c\<close>: names of paths, and the lookup of values of JSON by such a name in \<^verbatim>\<open>parc_JSON.c\<close>. The deque of the segments is the list
  it holds; memory requests are granted.
\<close>

section \<open>Parsing\<close>

record path_name =
  isAbsolute :: bool
  path_segments :: "u8 list list"

definition parcPathName_Create :: path_name where
  "parcPathName_Create = \<lparr>isAbsolute = False, path_segments = []\<rparr>"

text \<open>The memory behind the pointer; the conditions of the loops read a character before they compare the index with the limit.\<close>

definition path_char :: "u8 list \<Rightarrow> nat \<Rightarrow> u8 result" where
  "path_char memory index = (if index < length memory then Inr (memory ! index) else Inl BadPointer)"

function skip_slashes :: "u8 list \<Rightarrow> nat \<Rightarrow> nat \<Rightarrow> nat result" where
  "skip_slashes memory bound index =
    (case path_char memory index of
       Inl e \<Rightarrow> Inl e
     | Inr c \<Rightarrow> if c = 47 \<and> index < bound then skip_slashes memory bound (index + 1) else Inr index)"
  by pat_completeness auto
termination
  by (relation "measure (\<lambda>(memory, bound, index). bound - index)") auto

function segment_end :: "u8 list \<Rightarrow> nat \<Rightarrow> nat \<Rightarrow> nat result" where
  "segment_end memory bound index =
    (case path_char memory index of
       Inl e \<Rightarrow> Inl e
     | Inr c \<Rightarrow> if c \<noteq> 0 \<and> c \<noteq> 47 \<and> index < bound then segment_end memory bound (index + 1) else Inr index)"
  by pat_completeness auto
termination
  by (relation "measure (\<lambda>(memory, bound, index). bound - index)") auto

declare skip_slashes.simps [simp del] segment_end.simps [simp del]

lemma skip_slashes_le: "skip_slashes memory bound index = Inr i \<Longrightarrow> index \<le> i"
proof (induction memory bound index rule: skip_slashes.induct)
  case (1 memory bound index)
  then show ?case by (subst (asm) skip_slashes.simps) (auto split: sum.splits if_splits)
qed

lemma segment_end_le: "segment_end memory bound index = Inr i \<Longrightarrow> index \<le> i"
proof (induction memory bound index rule: segment_end.induct)
  case (1 memory bound index)
  then show ?case by (subst (asm) segment_end.simps) (auto split: sum.splits if_splits)
qed

lemma skip_slashes_less:
  "skip_slashes memory bound index = Inr i \<Longrightarrow> path_char memory index = Inr 47 \<Longrightarrow> index < bound \<Longrightarrow> index < i"
  using skip_slashes_le [of memory bound "index + 1" i] by (subst (asm) skip_slashes.simps) simp

lemma segment_end_less:
  "segment_end memory bound index = Inr i \<Longrightarrow> path_char memory index = Inr c \<Longrightarrow> c \<noteq> 0 \<Longrightarrow> c \<noteq> 47 \<Longrightarrow> index < bound \<Longrightarrow> index < i"
  using segment_end_le [of memory bound "index + 1" i] by (subst (asm) segment_end.simps) simp

lemma skip_slashes_stop:
  "skip_slashes memory bound index = Inr i \<Longrightarrow> \<exists>c. path_char memory i = Inr c \<and> \<not> (c = 47 \<and> i < bound)"
proof (induction memory bound index rule: skip_slashes.induct)
  case (1 memory bound index)
  then show ?case by (subst (asm) (2) skip_slashes.simps) (auto split: sum.splits if_splits)
qed

function parse_path :: "u8 list \<Rightarrow> nat \<Rightarrow> nat \<Rightarrow> path_name \<Rightarrow> path_name result" where
  "parse_path memory bound index result =
    (case path_char memory index of
       Inl e \<Rightarrow> Inl e
     | Inr c \<Rightarrow>
         if c \<noteq> 0 \<and> index < bound then
           (case skip_slashes memory bound index of
              Inl e \<Rightarrow> Inl e
            | Inr segment \<Rightarrow>
                (case path_char memory segment of
                   Inl e \<Rightarrow> Inl e
                 | Inr d \<Rightarrow>
                     if d \<noteq> 0 \<and> segment < bound then
                       (case segment_end memory bound segment of
                          Inl e \<Rightarrow> Inl e
                        | Inr index \<Rightarrow>
                            parse_path memory bound index
                              (result\<lparr>path_segments := path_segments result @ [take (index - segment) (drop segment memory)]\<rparr>))
                     else parse_path memory bound segment result))
         else Inr result)"
  by pat_completeness auto
termination
proof (relation "measure (\<lambda>(memory, bound, index, result). bound - index)", simp, goal_cases)
  case (1 memory bound index result c segment d i)
  have "index \<le> segment" using skip_slashes_le 1(3) .
  moreover have "d \<noteq> 47" using skip_slashes_stop [OF 1(3)] 1(4,5) by auto
  then have "segment < i" using segment_end_less [OF 1(6,4)] 1(5) by blast
  ultimately show ?case using 1(5) by (auto intro: diff_less_mono2)
next
  case (2 memory bound index result c segment d)
  have "index \<le> segment" using skip_slashes_le 2(3) .
  moreover have "index \<noteq> segment" using 2 by auto
  ultimately show ?case using 2(2) by (auto intro: diff_less_mono2)
qed

declare parse_path.simps [simp del]

definition parcPathName_ParseToLimit :: "nat \<Rightarrow> u8 list \<Rightarrow> path_name result" where
  "parcPathName_ParseToLimit bound memory =
    (let result = parcPathName_Create in
     if bound > 0 then
       rbind (path_char memory 0) (\<lambda>c.
       if c = 47 then parse_path memory bound 1 (result\<lparr>isAbsolute := True\<rparr>)
       else parse_path memory bound 0 result)
     else Inr result)"

definition parcPathName_Parse :: "u8 list \<Rightarrow> path_name result" where
  "parcPathName_Parse s = parcPathName_ParseToLimit (length s) (s @ [0])"

section \<open>Operations\<close>

definition parcPathName_Copy :: "path_name \<Rightarrow> path_name" where
  "parcPathName_Copy pn = \<lparr>isAbsolute = isAbsolute pn, path_segments = path_segments pn\<rparr>"

definition parcPathName_Equals :: "path_name option \<Rightarrow> path_name option \<Rightarrow> bool" where
  "parcPathName_Equals x y =
    (case (x, y) of
       (Some a, Some b) \<Rightarrow> if isAbsolute a = isAbsolute b then path_segments a = path_segments b else False
     | (None, None) \<Rightarrow> True
     | _ \<Rightarrow> False)"

definition parcPathName_IsAbsolute :: "path_name \<Rightarrow> bool" where
  "parcPathName_IsAbsolute pn = isAbsolute pn"

definition parcPathName_MakeAbsolute :: "path_name \<Rightarrow> bool \<Rightarrow> bool \<times> path_name" where
  "parcPathName_MakeAbsolute pn absolute = (parcPathName_IsAbsolute pn, pn\<lparr>isAbsolute := absolute\<rparr>)"

definition parcPathName_Prepend :: "path_name \<Rightarrow> u8 list \<Rightarrow> path_name" where
  "parcPathName_Prepend pn s = pn\<lparr>path_segments := s # path_segments pn\<rparr>"

definition parcPathName_Append :: "path_name \<Rightarrow> u8 list \<Rightarrow> path_name" where
  "parcPathName_Append pn s = pn\<lparr>path_segments := path_segments pn @ [s]\<rparr>"

definition parcPathName_Size :: "path_name \<Rightarrow> nat" where
  "parcPathName_Size pn = length (path_segments pn)"

text \<open>An index of an empty deque is not found to be out of bounds.\<close>

definition parcPathName_GetAtIndex :: "path_name \<Rightarrow> nat \<Rightarrow> u8 list result" where
  "parcPathName_GetAtIndex pn i =
    (if path_segments pn = [] then Inl BadPointer
     else if i < length (path_segments pn) then Inr (path_segments pn ! i) else Inl OutOfBounds)"

fun head_loop :: "path_name \<Rightarrow> nat list \<Rightarrow> path_name \<Rightarrow> path_name result" where
  "head_loop pn [] result = Inr result"
| "head_loop pn (i # ks) result =
    rbind (parcPathName_GetAtIndex pn i) (\<lambda>s. head_loop pn ks (parcPathName_Append result s))"

definition parcPathName_Head :: "path_name \<Rightarrow> nat \<Rightarrow> path_name result" where
  "parcPathName_Head pn n =
    (let maximum = (if parcPathName_Size pn < n then parcPathName_Size pn else n) in
     rbind (head_loop pn [0..<maximum] parcPathName_Create) (\<lambda>result.
     Inr (snd (parcPathName_MakeAbsolute result (parcPathName_IsAbsolute pn)))))"

fun tail_loop :: "path_name \<Rightarrow> nat list \<Rightarrow> path_name \<Rightarrow> path_name result" where
  "tail_loop pn [] result = Inr result"
| "tail_loop pn (i # ks) result =
    rbind (parcPathName_GetAtIndex pn i) (\<lambda>s. tail_loop pn ks (parcPathName_Prepend result s))"

definition parcPathName_Tail :: "path_name \<Rightarrow> nat \<Rightarrow> path_name result" where
  "parcPathName_Tail pn n =
    (let size = (if n > parcPathName_Size pn then parcPathName_Size pn else n) in
     rbind (tail_loop pn [parcPathName_Size pn - size..<parcPathName_Size pn] parcPathName_Create) (\<lambda>result.
     Inr (snd (parcPathName_MakeAbsolute result False))))"

fun put_segments :: "memory \<Rightarrow> ptr \<Rightarrow> u8 list list \<Rightarrow> memory result" where
  "put_segments h composer [] = Inr h"
| "put_segments h composer (s # ss) =
    rbind (parcBufferComposer_PutStrings h composer [[47], s]) (\<lambda>h. put_segments h composer ss)"

definition parcPathName_BuildString :: "memory \<Rightarrow> ptr \<Rightarrow> path_name \<Rightarrow> memory result" where
  "parcPathName_BuildString h composer pn =
    rbind (if parcPathName_IsAbsolute pn then parcBufferComposer_PutString h composer [47] else Inr h) (\<lambda>h.
    case path_segments pn of
      [] \<Rightarrow> Inr h
    | s # ss \<Rightarrow> rbind (parcBufferComposer_PutString h composer s) (\<lambda>h. put_segments h composer ss))"

definition parcPathName_ToString :: "size_t \<Rightarrow> memory \<Rightarrow> path_name \<Rightarrow> (u8 list \<times> memory) result" where
  "parcPathName_ToString lineSize h pn =
    rbind (parcBufferComposer_Create lineSize h) (\<lambda>(composer, h1).
    rbind (parcPathName_BuildString h1 composer pn) (\<lambda>h2.
    finish_string h2 composer))"

section \<open>Values of JSON by path\<close>

text \<open>A name of a member, or the decimal index of an element; an index that is equal to the length is not rejected.\<close>

fun get_by_names :: "json_value \<Rightarrow> u8 list list \<Rightarrow> json_value option result" where
  "get_by_names node [] = Inr (Some node)"
| "get_by_names node (n # ns) =
    (case node of
       JSONObject j \<Rightarrow>
         (case parcJSON_GetPairByName j n of
            None \<Rightarrow> Inr None
          | Some pair \<Rightarrow> get_by_names (parcJSONPair_GetValue pair) ns)
     | JSONArray a \<Rightarrow>
         (let index = word_of_int (strtol n) :: size_t in
          if index > parcJSONArray_GetLength a then Inr None
          else rbind (parcJSONArray_GetValue a index) (\<lambda>v. get_by_names v ns))
     | _ \<Rightarrow> Inr None)"

definition parcJSON_GetByPathName :: "json_value \<Rightarrow> path_name \<Rightarrow> json_value option result" where
  "parcJSON_GetByPathName node pn = get_by_names node (path_segments pn)"

text \<open>For a path without names the result is the value made for the object, which is released before it is returned.\<close>

definition parcJSON_GetByPath :: "parc_json \<Rightarrow> u8 list \<Rightarrow> json_value option result" where
  "parcJSON_GetByPath json s =
    rbind (parcPathName_Parse s) (\<lambda>pathName.
    if path_segments pathName = [] then Inl BadPointer
    else parcJSON_GetByPathName (parcJSONValue_CreateFromJSON json) pathName)"

section \<open>The segments of a text\<close>

fun split_path :: "u8 list \<Rightarrow> u8 list \<Rightarrow> u8 list list" where
  "split_path [] w = (if w = [] then [] else [w])"
| "split_path (c # s) w = (if c = 47 then (if w = [] then [] else [w]) @ split_path s [] else split_path s (w @ [c]))"

lemma split_slashes: "split_path (replicate k 47 @ s) [] = split_path s []"
  by (induction k) simp_all

lemma split_segment:
  "47 \<notin> set w \<Longrightarrow> s = [] \<or> hd s = 47 \<Longrightarrow> split_path (w @ s) v = (if v @ w = [] then [] else [v @ w]) @ split_path s []"
  by (induction w arbitrary: v) (cases s; auto)+

lemma skip_slashes_ok:
  assumes "0 \<notin> set s" "drop i s = t" "i \<le> length s"
  shows "skip_slashes (s @ [0]) (length s) i = Inr (i + length (takeWhile (\<lambda>c. c = 47) t))"
  using assms(2,3)
proof (induction t arbitrary: i)
  case Nil
  then show ?case by (subst skip_slashes.simps) (simp add: path_char_def nth_append)
next
  case (Cons c t)
  then have i: "i < length s" "s ! i = c" "drop (Suc i) s = t"
    by (auto simp: nth_via_drop drop_Suc tl_drop [symmetric]) (metis Cons.prems(1) drop_all linorder_not_le list.distinct(1))
  then show ?case using Cons.IH [of "Suc i"] by (subst skip_slashes.simps) (auto simp: path_char_def nth_append)
qed

lemma segment_end_ok:
  assumes "0 \<notin> set s" "drop i s = t" "i \<le> length s"
  shows "segment_end (s @ [0]) (length s) i = Inr (i + length (takeWhile (\<lambda>c. c \<noteq> 47) t))"
  using assms(2,3)
proof (induction t arbitrary: i)
  case Nil
  then show ?case by (subst segment_end.simps) (simp add: path_char_def nth_append)
next
  case (Cons c t)
  then have i: "i < length s" "s ! i = c" "drop (Suc i) s = t"
    by (auto simp: nth_via_drop drop_Suc tl_drop [symmetric]) (metis Cons.prems(1) drop_all linorder_not_le list.distinct(1))
  moreover have "c \<noteq> 0" using assms(1) i(1,2) nth_mem by metis
  ultimately show ?case using Cons.IH [of "Suc i"] by (subst segment_end.simps) (auto simp: path_char_def nth_append)
qed

lemma drop_while_index: "drop (i + length (takeWhile P (drop i s))) s = dropWhile P (drop i s)"
  by (metis add.commute drop_drop dropWhile_eq_drop)

lemma parse_path_ok:
  assumes z: "0 \<notin> set s"
  shows "i \<le> length s \<Longrightarrow> parse_path (s @ [0]) (length s) i r = Inr (r\<lparr>path_segments := path_segments r @ split_path (drop i s) []\<rparr>)"
proof (induction "length s - i" arbitrary: i r rule: less_induct)
  case less
  show ?case
  proof (cases "i = length s")
    case True
    then show ?thesis by (subst parse_path.simps) (simp add: path_char_def nth_append)
  next
    case False
    then have i: "i < length s" using less.prems by simp
    have nz: "k < length s \<Longrightarrow> path_char (s @ [0]) k = Inr (s ! k) \<and> s ! k \<noteq> 0" for k
      using z by (simp add: path_char_def nth_append) (metis nth_mem)
    define j where "j = i + length (takeWhile (\<lambda>c. c = 47) (drop i s))"
    have sl: "skip_slashes (s @ [0]) (length s) i = Inr j" using skip_slashes_ok [OF z refl less.prems] by (simp add: j_def)
    have dj: "drop j s = dropWhile (\<lambda>c. c = 47) (drop i s)" by (simp only: j_def drop_while_index)
    have jl: "j \<le> length s" using length_takeWhile_le [of "\<lambda>c. c = 47" "drop i s"] i by (simp add: j_def)
    have "replicate (length (takeWhile (\<lambda>c. c = 47) (drop i s))) 47 = takeWhile (\<lambda>c. c = 47) (drop i s)"
      by (intro replicate_length_same) (auto dest: set_takeWhileD)
    then have split: "split_path (drop i s) [] = split_path (drop j s) []"
      using split_slashes [of _ "drop j s"] dj by (metis takeWhile_dropWhile_id)
    show ?thesis
    proof (cases "j = length s")
      case True
      then have "parse_path (s @ [0]) (length s) i r = parse_path (s @ [0]) (length s) j r"
        using nz [OF i] sl i by (subst parse_path.simps) (simp add: path_char_def nth_append)
      then show ?thesis using less.hyps [of j r] i split True by simp
    next
      case False
      then have j: "j < length s" using jl by simp
      define e where "e = j + length (takeWhile (\<lambda>c. c \<noteq> 47) (drop j s))"
      let ?w = "takeWhile (\<lambda>c. c \<noteq> 47) (drop j s)"
      have se: "segment_end (s @ [0]) (length s) j = Inr e" using segment_end_ok [OF z refl jl] by (simp add: e_def)
      have de: "drop e s = dropWhile (\<lambda>c. c \<noteq> 47) (drop j s)" by (simp only: e_def drop_while_index)
      have el: "e \<le> length s" using length_takeWhile_le [of "\<lambda>c. c \<noteq> 47" "drop j s"] j by (simp add: e_def)
      have "dropWhile (\<lambda>c. c = 47) (drop i s) \<noteq> []" using dj j by (metis drop_eq_Nil not_less)
      then have "hd (drop j s) \<noteq> 47" unfolding dj by (rule hd_dropWhile)
      then have w: "?w \<noteq> []" using j by (cases "drop j s") auto
      have "take (e - j) (drop j (s @ [0])) = ?w"
        using jl length_takeWhile_le [of "\<lambda>c. c \<noteq> 47" "drop j s"] takeWhile_eq_take [of "\<lambda>c. c \<noteq> 47" "drop j s"]
        by (simp add: e_def)
      then have "parse_path (s @ [0]) (length s) i r = parse_path (s @ [0]) (length s) e (r\<lparr>path_segments := path_segments r @ [?w]\<rparr>)"
        using nz [OF i] nz [OF j] sl i j se by (subst parse_path.simps) simp
      moreover have "split_path (drop j s) [] = ?w # split_path (drop e s) []"
      proof -
        have "drop e s = [] \<or> hd (drop e s) = 47" unfolding de using hd_dropWhile [of "\<lambda>c. c \<noteq> 47" "drop j s"] by auto
        moreover have "47 \<notin> set ?w" using set_takeWhileD by fastforce
        ultimately show ?thesis using split_segment [of ?w "drop e s" "[]"] w de by simp
      qed
      moreover have "length s - e < length s - i" using i j w by (auto simp: e_def j_def intro: diff_less_mono2)
      ultimately show ?thesis using less.hyps [of e "r\<lparr>path_segments := path_segments r @ [?w]\<rparr>"] el split by simp
    qed
  qed
qed

lemma Parse_segments:
  assumes "0 \<notin> set s"
  shows "parcPathName_Parse s = Inr \<lparr>isAbsolute = (s \<noteq> [] \<and> hd s = 47), path_segments = split_path s []\<rparr>"
proof (cases s)
  case (Cons c t)
  then show ?thesis
    using parse_path_ok [OF assms, of 0] parse_path_ok [OF assms, of 1]
    by (cases "c = 47") (simp_all add: parcPathName_Parse_def parcPathName_ParseToLimit_def parcPathName_Create_def path_char_def)
qed (simp add: parcPathName_Parse_def parcPathName_ParseToLimit_def parcPathName_Create_def)

section \<open>Printing and parsing\<close>

definition joined :: "u8 list list \<Rightarrow> u8 list" where
  "joined ss = concat (map (\<lambda>s. 47 # s) ss)"

definition path_name_text :: "path_name \<Rightarrow> u8 list" where
  "path_name_text pn = (if isAbsolute pn then [47] else []) @ (case path_segments pn of [] \<Rightarrow> [] | s # ss \<Rightarrow> s @ joined ss)"

definition segment_ok :: "u8 list \<Rightarrow> bool" where
  "segment_ok s \<longleftrightarrow> s \<noteq> [] \<and> 0 \<notin> set s \<and> 47 \<notin> set s"

lemma joined_simps [simp]: "joined [] = []" "joined (s # ss) = 47 # s @ joined ss"
  by (simp_all add: joined_def)

lemma joined_hd: "joined ss = [] \<or> hd (joined ss) = 47"
  by (cases ss) simp_all

lemma split_joined: "list_all segment_ok ss \<Longrightarrow> split_path (joined ss) [] = ss"
proof (induction ss)
  case (Cons s ss)
  then show ?case using split_segment [of s "joined ss" "[]"] joined_hd [of ss] by (simp add: segment_ok_def)
qed simp

lemma path_name_text_zero: "list_all segment_ok (path_segments pn) \<Longrightarrow> 0 \<notin> set (path_name_text pn)"
  by (cases "path_segments pn") (auto simp: path_name_text_def joined_def list_all_iff segment_ok_def)

lemma Parse_path_name_text:
  assumes "list_all segment_ok (path_segments pn)"
  shows "parcPathName_Parse (path_name_text pn) = Inr pn"
proof -
  have "split_path (path_name_text pn) [] = path_segments pn"
    using assms split_segment [of _ _ "[]"] joined_hd split_joined
    by (auto simp: path_name_text_def segment_ok_def split: list.split)
  moreover have "(path_name_text pn \<noteq> [] \<and> hd (path_name_text pn) = 47) = isAbsolute pn"
    using assms by (auto simp: path_name_text_def segment_ok_def neq_Nil_conv split: list.split)
  ultimately show ?thesis using Parse_segments [OF path_name_text_zero [OF assms]] by simp
qed

lemma put_segments_appends: "composer_text.appends k (\<lambda>h. put_segments h (Some k) ss) (joined ss)"
proof (induction ss)
  case Nil
  then show ?case using composer_appends(3) by simp
next
  case (Cons s ss)
  from andthen [OF andthen [OF put_string [of k "[47]"] andthen [OF put_string [of k s] composer_appends(3) [of k]]] Cons.IH]
  show ?case by (simp add: rbind_assoc)
qed

lemma PathName_BuildString_appends: "composer_text.appends k (\<lambda>h. parcPathName_BuildString h (Some k) pn) (path_name_text pn)"
proof -
  have first: "composer_text.appends k (\<lambda>h. if parcPathName_IsAbsolute pn then parcBufferComposer_PutString h (Some k) [47] else Inr h)
      (if isAbsolute pn then [47] else [])"
    using put_string [of k "[47]"] composer_appends(3) [of k] by (simp add: parcPathName_IsAbsolute_def)
  have "composer_text.appends k (\<lambda>h. case path_segments pn of [] \<Rightarrow> Inr h
      | s # ss \<Rightarrow> rbind (parcBufferComposer_PutString h (Some k) s) (\<lambda>h. put_segments h (Some k) ss))
      (case path_segments pn of [] \<Rightarrow> [] | s # ss \<Rightarrow> s @ joined ss)"
    using composer_appends(3) [of k] andthen [OF put_string put_segments_appends] by (cases "path_segments pn") simp_all
  from andthen [OF first this] show ?thesis by (simp add: parcPathName_BuildString_def path_name_text_def)
qed

lemma head_loop_ok:
  "\<forall>i \<in> set ks. i < length (path_segments pn) \<Longrightarrow>
    head_loop pn ks r = Inr (r\<lparr>path_segments := path_segments r @ map (\<lambda>i. path_segments pn ! i) ks\<rparr>)"
  by (induction ks arbitrary: r) (auto simp: parcPathName_GetAtIndex_def parcPathName_Append_def)

lemma tail_loop_ok:
  "\<forall>i \<in> set ks. i < length (path_segments pn) \<Longrightarrow>
    tail_loop pn ks r = Inr (r\<lparr>path_segments := rev (map (\<lambda>i. path_segments pn ! i) ks) @ path_segments r\<rparr>)"
  by (induction ks arbitrary: r) (auto simp: parcPathName_GetAtIndex_def parcPathName_Prepend_def)

text \<open>
  C14: The parser of path names splits every text at its slashes into the non-empty segments, and finds out whether it begins with
  a slash; a path name that is printed into a composer is parsed back; the head of a path name has its first segments, and the
  tail its last ones, but in reverse order.
\<close>

theorem parcPathName_roundtrip:
  assumes "heap_wf h" "\<forall>n. \<not> allocFails h n" "8 \<le> L" "Suc (length (path_name_text pn)) * unat L < 2 ^ 63"
    and "list_all segment_ok (path_segments pn)" "0 \<notin> set s"
  shows "parcPathName_Parse s = Inr \<lparr>isAbsolute = (s \<noteq> [] \<and> hd s = 47), path_segments = split_path s []\<rparr> \<and>
    (\<exists>k h1 h2 p h3. parcBufferComposer_Create L h = Inr (Some k, h1) \<and>
      parcPathName_BuildString h1 (Some k) pn = Inr h2 \<and>
      parcBufferComposer_ProduceBuffer h2 (Some k) = Inr (Some p, h3) \<and>
      parcPathName_Parse (buffer_rest p h3) = Inr pn) \<and>
    parcPathName_Head pn n = Inr (pn\<lparr>path_segments := take n (path_segments pn)\<rparr>) \<and>
    parcPathName_Tail pn n =
      Inr \<lparr>isAbsolute = False, path_segments = rev (drop (length (path_segments pn) - n) (path_segments pn))\<rparr>"
proof (intro conjI)
  show "parcPathName_Parse s = Inr \<lparr>isAbsolute = (s \<noteq> [] \<and> hd s = 47), path_segments = split_path s []\<rparr>"
    using Parse_segments [OF assms(6)] .
  show "\<exists>k h1 h2 p h3. parcBufferComposer_Create L h = Inr (Some k, h1) \<and>
      parcPathName_BuildString h1 (Some k) pn = Inr h2 \<and>
      parcBufferComposer_ProduceBuffer h2 (Some k) = Inr (Some p, h3) \<and> parcPathName_Parse (buffer_rest p h3) = Inr pn"
    using compose_text [OF assms(1-4) PathName_BuildString_appends] Parse_path_name_text [OF assms(5)] by auto
  let ?ss = "path_segments pn"
  have "map (\<lambda>i. ?ss ! i) [0..<min (length ?ss) n] = take n ?ss" by (simp add: list_eq_iff_nth_eq min.commute)
  moreover have m: "(if length ?ss < n then length ?ss else n) = min (length ?ss) n" by simp
  ultimately show "parcPathName_Head pn n = Inr (pn\<lparr>path_segments := take n ?ss\<rparr>)"
    using head_loop_ok [of "[0..<min (length ?ss) n]" pn parcPathName_Create]
    unfolding parcPathName_Head_def Let_def parcPathName_Size_def m
    by (simp add: parcPathName_MakeAbsolute_def parcPathName_IsAbsolute_def parcPathName_Create_def)
  have m: "length ?ss - (if n > length ?ss then length ?ss else n) = length ?ss - n" by simp
  moreover have "map (\<lambda>i. ?ss ! i) [length ?ss - n..<length ?ss] = drop (length ?ss - n) ?ss" by (simp add: list_eq_iff_nth_eq)
  ultimately show "parcPathName_Tail pn n = Inr \<lparr>isAbsolute = False, path_segments = rev (drop (length ?ss - n) ?ss)\<rparr>"
    using tail_loop_ok [of "[length ?ss - n..<length ?ss]" pn parcPathName_Create]
    unfolding parcPathName_Tail_def Let_def parcPathName_Size_def m
    by (simp add: parcPathName_MakeAbsolute_def parcPathName_Create_def)
qed

theorem parcPathName_roundtrip_witness:
  "parcPathName_Parse [47, 97, 47, 47, 98] = Inr \<lparr>isAbsolute = True, path_segments = [[97], [98]]\<rparr> \<and>
    parcPathName_Tail \<lparr>isAbsolute = True, path_segments = [[97], [98]]\<rparr> 2 = Inr \<lparr>isAbsolute = False, path_segments = [[98], [97]]\<rparr>"
  using parcPathName_roundtrip [of empty_heap 64 "\<lparr>isAbsolute = True, path_segments = [[97], [98]]\<rparr>" "[47, 97, 47, 47, 98]" 2]
  by (simp add: path_name_text_def segment_ok_def)

section \<open>Lookup by path\<close>

text \<open>
  A value that is added under a new name is found by the path of this name, and from it the lookup goes on with the rest of the path.
  Elements of arrays are found by their index; but the index equal to the length of an array is an access out of bounds.
\<close>

theorem parcJSON_GetByPath_found:
  assumes "list_all segment_ok (n # ns)" "parcJSON_GetPairByName json n = None"
    and i: "i < length a" "length a < 2 ^ 63"
  shows "parcJSON_GetByPath (parcJSON_AddValue json n v) (joined (n # ns)) = get_by_names v ns \<and>
    get_by_names (JSONArray a) (decimal i # ns) = get_by_names (a ! i) ns \<and>
    get_by_names (JSONArray a) (decimal (length a) # ns) = Inl OutOfBounds"
proof (intro conjI)
  have p: "parcPathName_Parse (joined (n # ns)) = Inr \<lparr>isAbsolute = True, path_segments = n # ns\<rparr>"
    using Parse_path_name_text [of "\<lparr>isAbsolute = True, path_segments = n # ns\<rparr>"] assms(1) by (simp add: path_name_text_def)
  have "parcJSON_GetPairByName (json @ [JSONPair n v]) n = Some (JSONPair n v)"
    using assms(2) by (induction json) (auto simp: parcJSONPair_GetName_def split: if_splits)
  then show "parcJSON_GetByPath (parcJSON_AddValue json n v) (joined (n # ns)) = get_by_names v ns"
    by (simp add: parcJSON_GetByPath_def p parcJSON_GetByPathName_def parcJSONValue_CreateFromJSON_def parcJSON_AddValue_def
        parcJSON_AddPair_def parcJSONPair_CreateFromJSONValue_def parcJSONPair_Create_def parcJSONPair_GetValue_def del: joined_simps)
  have index: "(word_of_int (strtol (decimal k)) :: size_t) = word_of_nat k" "unat (word_of_nat k :: size_t) = k" if "k \<le> length a" for k
    using strtol_decimal [of k] that i(2) unat_word_of_nat [of k, where 'a = 64] by simp_all
  have le: "k \<le> length a \<Longrightarrow> \<not> word_of_nat k > parcJSONArray_GetLength a" for k
    using index(2) [of k] index(2) [of "length a"] by (simp add: parcJSONArray_GetLength_def word_less_nat_alt)
  show "get_by_names (JSONArray a) (decimal i # ns) = get_by_names (a ! i) ns"
    using index [of i] le [of i] i by (auto simp: parcJSONArray_GetValue_def Let_def)
  show "get_by_names (JSONArray a) (decimal (length a) # ns) = Inl OutOfBounds"
    using index [of "length a"] le [of "length a"] i by (auto simp: parcJSONArray_GetValue_def Let_def)
qed

theorem parcJSON_GetByPath_found_witness:
  "parcJSON_GetByPath (parcJSON_AddValue [] [97] (JSONArray [JSONNull])) (joined [[97], [48]]) = Inr (Some JSONNull) \<and>
    parcJSON_GetByPath (parcJSON_AddValue [] [97] (JSONArray [JSONNull])) (joined [[97], [49]]) = Inl OutOfBounds"
proof -
  have d: "decimal 0 = [48]" "decimal (Suc 0) = [49]" by (subst decimal.simps, simp)+
  show ?thesis
    using parcJSON_GetByPath_found [of "[97]" "[decimal 0]" "[]" 0 "[JSONNull]" "JSONArray [JSONNull]"]
      parcJSON_GetByPath_found [of "[97]" "[decimal 1]" "[]" 0 "[JSONNull]" "JSONArray [JSONNull]"]
      parcJSON_GetByPath_found [of "[97]" "[]" "[]" 0 "[JSONNull]" "JSONArray [JSONNull]"]
    by (simp add: d segment_ok_def del: get_by_names.simps(2))
qed

end
