(* ===== verification/Spec2Isabelle.thy ===== *)
theory Spec2Isabelle
  imports Parc_Atomic Parc_BufferText Parc_Base64 Parc_Varint Parc_BitSets Parc_RingBufferNxM Parc_PriorityQueue Parc_HashCodeTable
    Parc_ArrayList Parc_Deque Parc_SortedList Parc_TreeEntries Parc_HashMap Parc_PathName
begin

text \<open>
  A model of the core of Libparc, a C library of reference counted objects, buffers and containers
  (\<^verbatim>\<open>src/parc\<close>), with the theorems that make it correct.

  \<^bold>\<open>How the program is modelled.\<close> The integers of C are words of their width, so arithmetic wraps around as it
  does there. A pointer is an optional address. An operation that changes memory takes a heap and
  returns the new one; an operation that may stop returns \<open>trap + value\<close>, and every LongBow assertion and trap
  of the validating build, every access through a null or dangling pointer and every undefined
  arithmetic operation is a branch of the model (\<^theory_text>\<open>Parc_Prelude\<close>). The outcome of every memory request is
  part of the heap (\<open>allocFails\<close>), so the theorems speak about exhausted memory too. Loops are recursive
  functions with a termination proof; a loop that need not end (over descriptor chains, which may be cyclic, of the heap, of
  the hash table, and those that drain a ring) is a partial function whose value \<open>None\<close> means that it runs forever. Only the
  parsers of JSON, which are mutually recursive, have a bound on the calls as an argument; \<open>Parc_JSONEnds\<close> removes it. The containers and rings have one owner each, so their operations pass the structure
  along; what an allocation answers is then an argument.

  \<^bold>\<open>The parts of the program and their theories.\<close>

  \<^item> \<open>Parc_Prelude\<close>: C integers, traps, sequencing, byte strings, big endian numbers, decimal text.
  \<^item> \<open>Parc_Hash\<close>: \<^verbatim>\<open>parc_HashCode.c\<close>, \<^verbatim>\<open>parc_Hash.c\<close>. The locale \<open>fnv_step\<close> is the contract of a hash loop,
    interpreted on the three loops of the sources.
  \<^item> \<open>Parc_Atomic\<close>: \<^verbatim>\<open>parc_AtomicUint8.c\<close> to \<^verbatim>\<open>parc_AtomicUint64.c\<close>; the locale \<open>atomic_cell\<close> is their contract.
  \<^item> \<open>Parc_Object\<close>: \<^verbatim>\<open>parc_Object.c\<close>. Headers with their guard number and reference count, creation,
    \<open>Acquire\<close> and \<open>Release\<close> with destructors, the dispatch of \<open>Equals\<close>, \<open>Compare\<close>, \<open>HashCode\<close>, \<open>Copy\<close> and
    \<open>ToString\<close> along the descriptor chain, and the object locks as a step relation of two threads.
  \<^item> \<open>Parc_ByteArray\<close>, \<open>Parc_Buffer\<close>, \<open>Parc_BufferData\<close>, \<open>Parc_BufferText\<close>: \<^verbatim>\<open>parc_ByteArray.c\<close> and \<^verbatim>\<open>parc_Buffer.c\<close>.
    Buffers are views on reference counted byte arrays in one heap, so slices and duplicates alias. The
    cursor operations refine an abstract machine; the data operations are an interpretation of the
    locale \<open>byte_tape\<close> of \<open>Parc_Bytes\<close>.
  \<^item> \<open>Parc_BufferComposer\<close>: \<^verbatim>\<open>parc_BufferComposer.c\<close>, an interpretation of \<open>byte_sink\<close>.
  \<^item> \<open>Parc_Base64\<close>: \<^verbatim>\<open>parc_Base64.c\<close> on composers and buffers.
  \<^item> \<open>Parc_Varint\<close>: \<^verbatim>\<open>parc_Varint.c\<close> on buffers.
  \<^item> \<open>Parc_BitVector\<close>: \<^verbatim>\<open>parc_BitVector.c\<close>, and \<open>Parc_BitSets\<close>: a vector is a finite set with a cached size and
    minimum, its operations are those on sets. The locale \<open>bit_iteration\<close> is the contract of the loops over
    the set bits.
  \<^item> \<open>Parc_RingBuffer\<close>: \<^verbatim>\<open>parc_RingBuffer_1x1.c\<close>, as functions and as two threads whose steps are the accesses to shared
    fields; \<open>Parc_RingBufferNxM\<close>: \<^verbatim>\<open>parc_RingBuffer_NxM.c\<close> with any number of threads, simulated by the two threads that
    hold the mutexes, and the facade \<^verbatim>\<open>parc_RingBuffer.c\<close>. The locale \<open>bounded_fifo\<close> is the contract of both rings.
  \<^item> \<open>Parc_Order\<close>: the locale \<open>comparison\<close>, the contract of a comparison function; \<open>Parc_PriorityQueue\<close>:
    \<^verbatim>\<open>parc_PriorityQueue.c\<close>, a binary heap over it. Its loop \<open>_trickleDown\<close> need not end, so it is a partial function.
  \<^item> \<open>Parc_HashCodeTable\<close>: \<^verbatim>\<open>parc_HashCodeTable.c\<close>, an open addressing table as a finite map. The locale \<open>hash_key\<close> is the
    contract of the functions on keys. \<open>Parc_HashMap\<close>: \<^verbatim>\<open>parc_HashMap.c\<close>, chains of reference counted entries that several maps may
    share. It implements a partial function of the keys and balances the references to them; the locale \<open>copied_key\<close>, keys
    with a copy function, is the contract it needs and has the simulation as a sublocale.
  \<^item> \<open>Parc_Simulation\<close>: sequences of calls and the locale \<open>simulation\<close>, the contract of a component that implements an
    abstract specification call by call; \<open>Parc_ArrayList\<close>: \<^verbatim>\<open>parc_ArrayList.c\<close>, which implements lists.
  \<^item> \<open>Parc_Linked\<close>: doubly linked nodes and the invariant that says which list they hold; \<open>Parc_Iterator\<close>: \<^verbatim>\<open>parc_Iterator.c\<close> and the
    locale \<open>iteration\<close>, the contract of a container's iterator functions; \<open>Parc_Deque\<close>: \<^verbatim>\<open>parc_Deque.c\<close>; \<open>Parc_LinkedList\<close>:
    \<^verbatim>\<open>parc_LinkedList.c\<close> over the heap of objects. Both implement lists, with the faults the sources have;
    \<open>Parc_SortedList\<close>: \<^verbatim>\<open>parc_SortedList.c\<close> on linked lists.
  \<^item> \<open>Parc_TreeRedBlack\<close>: \<^verbatim>\<open>parc_TreeRedBlack.c\<close>, nodes with parent pointers and a sentinel. \<open>Parc_RedBlack\<close> has red-black trees as
    values, \<open>Parc_TreeShape\<close> says which of them the nodes form and what a rotation does to it, \<open>Parc_TreeSearch\<close> has the search
    and the assertions, \<open>Parc_TreeInsert\<close>, \<open>Parc_TreeRemove\<close> and \<open>Parc_TreeUnlink\<close> the repair loops and the two changes,
    \<open>Parc_TreeOps\<close> every operation on the entries, and \<open>Parc_TreeEntries\<close> the refinement of a sorted map, the depth of the tree,
    the ownership of keys and values, copy and equality.

  \<^item> \<open>Parc_ComposerText\<close>: strings put into a composer and the locale \<open>text_sink\<close>, the contract of an operation that appends a text;
    \<open>Parc_URISegment\<close>: \<^verbatim>\<open>parc_URISegment.c\<close>; \<open>Parc_URI\<close>: \<^verbatim>\<open>parc_URIPath.c\<close> and \<^verbatim>\<open>parc_URI.c\<close>, printed into composers and parsed
    from text; \<open>Parc_URIAuthority\<close>: \<^verbatim>\<open>parc_URIAuthority.c\<close>.
  \<^item> \<open>Parc_JSONParser\<close>: \<^verbatim>\<open>parc_JSONParser.c\<close>, the cursor of the JSON parser and that it acts as the calls on its buffer do; \<open>Parc_JSON\<close>: the
    values, pairs, arrays and objects of \<^verbatim>\<open>parc_JSONValue.c\<close>, \<^verbatim>\<open>parc_JSONPair.c\<close>, \<^verbatim>\<open>parc_JSONArray.c\<close> and \<^verbatim>\<open>parc_JSON.c\<close>; \<open>Parc_JSONParse\<close>: their
    parsers, which call each other and have a bound on the calls; \<open>Parc_JSONEnds\<close>: twice the number of the remaining
    bytes is always enough; \<open>Parc_JSONText\<close> and \<open>Parc_JSONRoundtrip\<close>: printing, that objects are parsed back, equality;
    \<open>Parc_PathName\<close>: \<^verbatim>\<open>parc_PathName.c\<close> and the lookup of JSON values by path.

  \<^bold>\<open>Not modelled.\<close> Display output and the JSON output of other components, numbers of JSON in floating point, the allocators behind \<open>parcMemory\<close> (their contract is the heap), the remaining
  containers (tree map, stack, vector, dictionaries, the generic list and map interfaces), strings and chunkers, threads, tasks and timers,
  the event, file, clock and network wrappers, the security wrappers of OpenSSL, logging and statistics.
\<close>

end
